(* ===== verification/Prelude.thy ===== *)
theory Prelude
  imports
    Main
    "HOL-Library.AList"
    "HOL-Library.Char_ord"
    "HOL-Library.List_Lexorder"
    "HOL-Library.Product_Lexorder"
begin

text \<open>
  What every component of the development shares: the values a Python exception carries, the
  result type of code that may raise, the combinators that sequence such code, and the generic
  facts on lists and dictionaries that the component proofs use.

  A Python call that may raise is a value of type \<open>exc + 'a\<close>: \<open>Inl e\<close> is the raised exception
  and \<open>Inr x\<close> the returned value.  Exceptions keep their class and their message.  A message is
  either a literal (\<open>Text\<close>) or an f-string (\<open>Fmt\<close>), given by its template and the values it
  interpolates, so that two messages are equal exactly when template and values are.
\<close>

section \<open>Exceptions and results\<close>

type_synonym shift = "int \<times> int \<times> int"

datatype fmt_arg =
    ANat nat
  | AInt int
  | AStr string
  | AVertex nat shift
  | AOther "string list"

datatype message = Text string | Fmt string "fmt_arg list"

datatype exc =
    ValueError message
  | KeyError message
  | IndexError
  | PyTypeError message
  | RuntimeError message
  | FrameworkTopologyError message
  | FrameworkMappingError message
  | FrameworkProjectionError message
  | FrameworkComplexityError message
  | PrimitiveRingInputError message
  | PrimitiveRingSearchError message
  | PrimitiveRingComplexityError message
  | PrimitiveRingIndexError message
  | PrimitiveRingIndexInputError message
  | PeriodicCycleInputError message
  | PrimitiveRingCancellationInputError message
  | PrimitiveRingCancellationInvariantError message
  | PrimitiveRingCancellationResourceError message
  | DeterministicWorkQueueError message
  | DeterministicWorkQueueTaskError string string message
  | DeterministicWorkQueueMemoryError message
  | TrainingDataInputError message
  | SamplingInputError message

type_synonym 'a result = "exc + 'a"

definition bindE :: "'e + 'a \<Rightarrow> ('a \<Rightarrow> 'e + 'b) \<Rightarrow> 'e + 'b" where
  "bindE m f = (case m of Inl e \<Rightarrow> Inl e | Inr x \<Rightarrow> f x)"

definition guardE :: "bool \<Rightarrow> 'e \<Rightarrow> 'e + unit" where
  "guardE b e = (if b then Inr () else Inl e)"

fun mapE :: "('a \<Rightarrow> 'e + 'b) \<Rightarrow> 'a list \<Rightarrow> 'e + 'b list" where
  "mapE f [] = Inr []"
| "mapE f (x # xs) = bindE (f x) (\<lambda>y. bindE (mapE f xs) (\<lambda>ys. Inr (y # ys)))"

fun foldE :: "('a \<Rightarrow> 's \<Rightarrow> 'e + 's) \<Rightarrow> 'a list \<Rightarrow> 's \<Rightarrow> 'e + 's" where
  "foldE f [] s = Inr s"
| "foldE f (x # xs) s = bindE (f x s) (foldE f xs)"

definition nthE :: "'a list \<Rightarrow> nat \<Rightarrow> exc + 'a" where
  "nthE xs i = (if i < length xs then Inr (xs ! i) else Inl IndexError)"

definition lookupE :: "('k \<times> 'v) list \<Rightarrow> 'k \<Rightarrow> exc + 'v" where
  "lookupE m k = (case map_of m k of None \<Rightarrow> Inl (KeyError (Text '''')) | Some v \<Rightarrow> Inr v)"

named_theorems result_simps \<open>how results are sequenced\<close>

lemma bindE_simps [simp, result_simps]:
  "bindE (Inl e) f = Inl e"
  "bindE (Inr x) f = f x"
  by (simp_all add: bindE_def)

lemma bindE_Inr_iff [result_simps]: "bindE m f = Inr y \<longleftrightarrow> (\<exists>x. m = Inr x \<and> f x = Inr y)"
  by (cases m) simp_all

lemma bindE_Inl_iff: "bindE m f = Inl e \<longleftrightarrow> m = Inl e \<or> (\<exists>x. m = Inr x \<and> f x = Inl e)"
  by (cases m) simp_all

lemma bindE_cong [fundef_cong]:
  "m = m' \<Longrightarrow> (\<And>x. m' = Inr x \<Longrightarrow> f x = g x) \<Longrightarrow> bindE m f = bindE m' g"
  by (cases m') auto

lemma guardE_simps [simp]: "guardE True e = Inr ()" "guardE False e = Inl e"
  by (simp_all add: guardE_def)

lemma guardE_Inr_iff [result_simps]: "guardE b e = Inr u \<longleftrightarrow> b"
  by (simp add: guardE_def)

lemma guardE_Inl_iff: "guardE b e = Inl e' \<longleftrightarrow> \<not> b \<and> e' = e"
  by (auto simp: guardE_def)

lemma nthE_Inr_iff [result_simps]: "nthE xs i = Inr x \<longleftrightarrow> i < length xs \<and> x = xs ! i"
  by (auto simp: nthE_def)

lemma lookupE_Inr_iff [result_simps]: "lookupE m k = Inr v \<longleftrightarrow> map_of m k = Some v"
  by (simp add: lookupE_def split: option.splits)

lemma mapE_Inr_iff: "mapE f xs = Inr ys \<longleftrightarrow> list_all2 (\<lambda>x y. f x = Inr y) xs ys"
proof (induction xs arbitrary: ys)
  case Nil
  then show ?case by (cases ys) simp_all
next
  case (Cons x xs)
  then show ?case
    by (cases ys) (auto simp: bindE_Inr_iff)
qed

lemma mapE_cong [fundef_cong]:
  "xs = ys \<Longrightarrow> (\<And>x. x \<in> set ys \<Longrightarrow> f x = g x) \<Longrightarrow> mapE f xs = mapE g ys"
  by (induction ys arbitrary: xs) (auto intro!: bindE_cong)

lemma mapE_total: "(\<And>x. x \<in> set xs \<Longrightarrow> f x = Inr (g x)) \<Longrightarrow> mapE f xs = Inr (map g xs)"
  by (induction xs) auto

lemma mapE_length: "mapE f xs = Inr ys \<Longrightarrow> length ys = length xs"
  by (auto simp: mapE_Inr_iff dest: list_all2_lengthD)

lemma foldE_append [simp]: "foldE f (xs @ ys) s = bindE (foldE f xs s) (foldE f ys)"
proof (induction xs arbitrary: s)
  case (Cons x xs)
  then show ?case by (cases "f x s") simp_all
qed simp

lemma foldE_invariant:
  assumes "foldE f xs s = Inr t" and "P s"
    and "\<And>x s t. x \<in> set xs \<Longrightarrow> P s \<Longrightarrow> f x s = Inr t \<Longrightarrow> P t"
  shows "P t"
  using assms
proof (induction xs arbitrary: s)
  case (Cons x xs)
  then show ?case by (auto simp: bindE_Inr_iff)
qed simp

section \<open>Lists and dictionaries\<close>

text \<open>
  A dictionary that the code iterates over, or whose insertion order shows, is an association
  list with distinct keys; \<open>d[k] = v\<close> is \<^theory_text>\<open>AList.update\<close>, which keeps the position of a
  key that is already there, as Python does.  \<open>sorted(set(xs))\<close> is \<open>sorted_set\<close>.
\<close>

definition sorted_set :: "'a::linorder list \<Rightarrow> 'a list" where
  "sorted_set xs = sort (remdups xs)"

lemma set_sorted_set [simp]: "set (sorted_set xs) = set xs"
  by (simp add: sorted_set_def)

lemma sorted_sorted_set [simp]: "sorted (sorted_set xs)"
  by (simp add: sorted_set_def)

lemma distinct_sorted_set [simp]: "distinct (sorted_set xs)"
  by (simp add: sorted_set_def)

lemma sorted_set_eq_iff: "sorted_set xs = sorted_set ys \<longleftrightarrow> set xs = set ys"
proof
  assume "sorted_set xs = sorted_set ys"
  then have "set (sorted_set xs) = set (sorted_set ys)" by simp
  then show "set xs = set ys" by simp
qed (simp add: sorted_set_def flip: sorted_list_of_set_sort_remdups)

lemma map_of_update_same [simp]: "map_of (AList.update k v d) k = Some v"
  by (simp add: update_conv)

lemma map_of_update_other [simp]: "k' \<noteq> k \<Longrightarrow> map_of (AList.update k v d) k' = map_of d k'"
  by (simp add: update_conv)

lemma distinct_keys_update [simp]:
  "distinct (map fst d) \<Longrightarrow> distinct (map fst (AList.update k v d))"
  by (rule distinct_update)

lemma keys_update [simp]: "fst ` set (AList.update k v d) = insert k (fst ` set d)"
  by (simp add: dom_update)

lemma update_fresh: "k \<notin> fst ` set d \<Longrightarrow> AList.update k v d = d @ [(k, v)]"
  by (induction d) auto

text \<open>
  \<open>append_at k v d\<close> is \<open>d.setdefault(k, []).append(v)\<close>; \<open>group_by\<close> is the loop of such updates, and
  \<open>dict_of\<close> the dictionary comprehension, in which a later pair overrides an earlier one.
\<close>

definition append_at :: "'k \<Rightarrow> 'v \<Rightarrow> ('k \<times> 'v list) list \<Rightarrow> ('k \<times> 'v list) list" where
  "append_at k v d = AList.update k ((case map_of d k of None \<Rightarrow> [] | Some vs \<Rightarrow> vs) @ [v]) d"

definition group_by :: "('v \<Rightarrow> 'k) \<Rightarrow> 'v list \<Rightarrow> ('k \<times> 'v list) list" where
  "group_by key xs = fold (\<lambda>x. append_at (key x) x) xs []"

definition dict_of :: "('k \<times> 'v) list \<Rightarrow> ('k \<times> 'v) list" where
  "dict_of ps = fold (\<lambda>(k, v). AList.update k v) ps []"

lemma group_by_append: "group_by key (xs @ [x]) = append_at (key x) x (group_by key xs)"
  by (simp add: group_by_def)

lemma keys_group_by [simp]: "fst ` set (group_by key xs) = key ` set xs"
  by (induction xs rule: rev_induct) (simp_all add: group_by_append append_at_def, simp add: group_by_def)

lemma distinct_group_by [simp]: "distinct (map fst (group_by key xs))"
  by (induction xs rule: rev_induct) (simp_all add: group_by_append append_at_def, simp add: group_by_def)

lemma map_of_group_by:
  "map_of (group_by key xs) k = (if k \<in> key ` set xs then Some (filter (\<lambda>x. key x = k) xs) else None)"
proof (induction xs rule: rev_induct)
  case (snoc x xs)
  show ?case
  proof (cases "key x = k")
    case True
    show ?thesis
    proof (cases "k \<in> key ` set xs")
      case False
      then have "filter (\<lambda>x. key x = k) xs = []" by (auto simp: filter_empty_conv)
      with True False snoc show ?thesis by (simp add: group_by_append append_at_def)
    qed (use True snoc in \<open>simp add: group_by_append append_at_def\<close>)
  next
    case False
    then show ?thesis using snoc by (auto simp: group_by_append append_at_def)
  qed
qed (simp add: group_by_def)

lemma map_of_dict_of: "map_of (dict_of ps) = map_of (rev ps)"
proof (induction ps rule: rev_induct)
  case (snoc p ps)
  then show ?case by (cases p) (simp add: dict_of_def update_conv)
qed (simp add: dict_of_def)

lemma map_of_dict_of_distinct: "distinct (map fst ps) \<Longrightarrow> map_of (dict_of ps) = map_of ps"
  unfolding map_of_dict_of by (rule map_of_inject_set[THEN iffD2]) (simp_all flip: rev_map)

lemma map_of_dict_of_unique:
  assumes "(k, v) \<in> set ps" and "\<And>v'. (k, v') \<in> set ps \<Longrightarrow> v' = v"
  shows "map_of (dict_of ps) k = Some v"
proof -
  obtain v' where "map_of (dict_of ps) k = Some v'"
    using assms(1) map_of_eq_None_iff[of "rev ps" k] by (cases "map_of (rev ps) k") (force simp: map_of_dict_of)+
  with assms(2) show ?thesis by (metis map_of_dict_of map_of_SomeD set_rev)
qed

lemma map_of_dict_of_None: "map_of (dict_of ps) k = None \<longleftrightarrow> k \<notin> fst ` set ps"
  by (simp add: map_of_dict_of map_of_eq_None_iff)

section \<open>Text\<close>

text \<open>The characters that \<open>str.strip\<close> removes, and decimal numerals.\<close>

definition python_space :: "char \<Rightarrow> bool" where
  "python_space c \<longleftrightarrow> (let n = of_char c :: nat in 9 \<le> n \<and> n \<le> 13 \<or> 28 \<le> n \<and> n \<le> 32 \<or> n = 133 \<or> n = 160)"

definition strip :: "string \<Rightarrow> string" where
  "strip s = rev (dropWhile python_space (rev (dropWhile python_space s)))"

fun decimal :: "nat \<Rightarrow> string" where
  "decimal n = (if n < 10 then [char_of (48 + n)] else decimal (n div 10) @ [char_of (48 + n mod 10)])"

declare decimal.simps [simp del]

definition int_text :: "int \<Rightarrow> string" where
  "int_text i = (if i < 0 then ''-'' @ decimal (nat (- i)) else decimal (nat i))"

end
