(* ===== verification/Framework_Rules.thy ===== *)
theory Framework_Rules
  imports Prelude "HOL-Library.Multiset"
begin

text \<open>
  Path rules, role mappings and role resolution of
  \<open>mdstats/analysis/framework_topology.py\<close> (\<open>FrameworkPathRule\<close>, \<open>FrameworkMapping\<close>,
  \<open>ResolvedFrameworkRoles\<close>, \<open>resolve_framework_roles\<close>).  A rule is one whole-path pattern up to
  complete reversal; the lemmas show that its canonical form and its acceptance test do not
  depend on the direction in which a path is written, and that the overlap test of a mapping is
  exact: rules that pass it never accept a common path.

  Atom indices and atomic numbers are naturals, which is what the constructors'
  \<open>_nonnegative_int\<close> leaves.  The table of chemical symbols belongs to the third-party package
  ase; its length is the parameter \<open>nsym\<close>.
\<close>

section \<open>Atomic numbers\<close>

definition atomic_number :: "nat \<Rightarrow> string \<Rightarrow> nat \<Rightarrow> nat result" where
  "atomic_number nsym name value =
     (if value = 0 then Inl (FrameworkTopologyError (Fmt ''{} must be positive.'' [AStr name]))
      else if nsym \<le> value
      then Inl (FrameworkMappingError
             (Fmt ''{}={} is not a standard atomic number.'' [AStr name, ANat value]))
      else Inr value)"

lemma atomic_number_Inr_iff [result_simps]:
  "atomic_number nsym name v = Inr w \<longleftrightarrow> w = v \<and> 0 < v \<and> v < nsym"
  by (auto simp: atomic_number_def)

lemma mapE_atomic_number: "mapE (atomic_number nsym name) vs = Inr ws \<Longrightarrow>
    ws = vs \<and> (\<forall>v \<in> set vs. 0 < v \<and> v < nsym)"
  by (induction vs arbitrary: ws) (auto simp: bindE_Inr_iff atomic_number_Inr_iff)

lemma mapE_atomic_number_ok: "\<forall>v \<in> set vs. 0 < v \<and> v < nsym \<Longrightarrow> mapE (atomic_number nsym name) vs = Inr vs"
  by (induction vs) (auto simp: atomic_number_def)

section \<open>Path rules\<close>

record framework_path_rule =
  path_rule_id :: string
  linker_atomic_numbers :: "nat list"
  endpoint_atomic_numbers :: "nat option \<times> nat option"
  rule_edge_kind :: string

definition opt_number :: "nat option \<Rightarrow> nat" where
  "opt_number v = (case v of None \<Rightarrow> 0 | Some n \<Rightarrow> n)"

definition opt_atomic_number :: "nat \<Rightarrow> nat option \<Rightarrow> nat option result" where
  "opt_atomic_number nsym v =
     (case v of None \<Rightarrow> Inr None
      | Some n \<Rightarrow> bindE (atomic_number nsym ''endpoint atomic number'' n) (\<lambda>m. Inr (Some m)))"

definition make_path_rule ::
  "nat \<Rightarrow> string \<Rightarrow> nat list \<Rightarrow> nat option \<times> nat option \<Rightarrow> string \<Rightarrow> framework_path_rule result" where
  "make_path_rule nsym rid linkers endpoints kind =
     bindE (guardE (strip rid \<noteq> [])
       (FrameworkMappingError (Text ''rule_id must be a nonempty string.''))) (\<lambda>_.
     bindE (guardE (strip kind \<noteq> [])
       (FrameworkMappingError (Text ''edge_kind must be a nonempty string.''))) (\<lambda>_.
     bindE (mapE (atomic_number nsym ''linker atomic number'') linkers) (\<lambda>sequence.
     bindE (opt_atomic_number nsym (fst endpoints)) (\<lambda>left.
     bindE (opt_atomic_number nsym (snd endpoints)) (\<lambda>right.
       let reverse_sequence = rev sequence;
           forward_key = opt_number left # sequence @ [opt_number right];
           reverse_key = opt_number right # reverse_sequence @ [opt_number left];
           swap = reverse_key < forward_key
       in Inr \<lparr>path_rule_id = strip rid,
               linker_atomic_numbers = (if swap then reverse_sequence else sequence),
               endpoint_atomic_numbers = (if swap then (right, left) else (left, right)),
               rule_edge_kind = strip kind\<rparr>)))))"

definition accepted_sequences :: "framework_path_rule \<Rightarrow> nat list list" where
  "accepted_sequences rule =
     remdups [linker_atomic_numbers rule, rev (linker_atomic_numbers rule)]"

definition canonical_signature :: "framework_path_rule \<Rightarrow> nat option list" where
  "canonical_signature rule =
     fst (endpoint_atomic_numbers rule) # map Some (linker_atomic_numbers rule)
       @ [snd (endpoint_atomic_numbers rule)]"

definition accepted_signatures :: "framework_path_rule \<Rightarrow> nat option list list" where
  "accepted_signatures rule =
     remdups [canonical_signature rule, rev (canonical_signature rule)]"

definition endpoint_matches :: "nat option \<Rightarrow> nat \<Rightarrow> bool" where
  "endpoint_matches pattern value = (case pattern of None \<Rightarrow> True | Some p \<Rightarrow> p = value)"

definition accepts_path :: "framework_path_rule \<Rightarrow> nat \<Rightarrow> nat list \<Rightarrow> nat \<Rightarrow> bool" where
  "accepts_path rule source candidate_linkers target =
     (let left = fst (endpoint_atomic_numbers rule);
          right = snd (endpoint_atomic_numbers rule)
      in if candidate_linkers = linker_atomic_numbers rule
            \<and> endpoint_matches left source \<and> endpoint_matches right target
         then True
         else candidate_linkers = rev (linker_atomic_numbers rule)
              \<and> endpoint_matches right source \<and> endpoint_matches left target)"

definition signatures_overlap :: "nat option list \<Rightarrow> nat option list \<Rightarrow> bool" where
  "signatures_overlap left right =
     (if length left \<noteq> length right \<or> butlast (tl left) \<noteq> butlast (tl right) then False
      else (hd left = None \<or> hd right = None \<or> hd left = hd right)
           \<and> (last left = None \<or> last right = None \<or> last left = last right))"

definition rules_overlap :: "framework_path_rule \<Rightarrow> framework_path_rule \<Rightarrow> bool" where
  "rules_overlap left right =
     list_ex (\<lambda>ls. list_ex (\<lambda>rs. signatures_overlap ls rs) (accepted_signatures right))
       (accepted_signatures left)"

section \<open>Mappings and roles\<close>

datatype framework_atom_role = VERTEX | LINKER | SPECTATOR | EXCLUDED

record framework_mapping =
  species_roles :: "(nat \<times> framework_atom_role) list"
  atom_role_overrides :: "(nat \<times> framework_atom_role) list"
  path_rules :: "framework_path_rule list"
  unmapped_role :: "framework_atom_role option"

fun overlapping_pair :: "framework_path_rule list \<Rightarrow> (string \<times> string) option" where
  "overlapping_pair [] = None"
| "overlapping_pair (rule # rest) =
     (case find (rules_overlap rule) rest of
        Some other \<Rightarrow> Some (path_rule_id rule, path_rule_id other)
      | None \<Rightarrow> overlapping_pair rest)"

definition make_mapping ::
  "nat \<Rightarrow> (nat \<times> framework_atom_role) list \<Rightarrow> (nat \<times> framework_atom_role) list
   \<Rightarrow> framework_path_rule list \<Rightarrow> framework_atom_role option \<Rightarrow> framework_mapping result" where
  "make_mapping nsym species overrides rules unmapped =
     bindE (mapE (\<lambda>(number, role). bindE (atomic_number nsym ''atomic number'' number)
                                     (\<lambda>z. Inr (z, role))) species) (\<lambda>species'.
     bindE (guardE (distinct (map path_rule_id rules))
       (FrameworkMappingError (Text ''Framework path-rule IDs must be unique.''))) (\<lambda>_.
     case overlapping_pair rules of
       Some (a, b) \<Rightarrow> Inl (FrameworkMappingError
                        (Fmt ''Path rules {} and {} overlap.'' [AStr a, AStr b]))
     | None \<Rightarrow>
         Inr \<lparr>species_roles = sort_key fst species', atom_role_overrides = sort_key fst overrides,
              path_rules = rules, unmapped_role = unmapped\<rparr>))"

definition mapping_max_linker_atoms :: "framework_mapping \<Rightarrow> nat" where
  "mapping_max_linker_atoms mapping =
     fold max (map (\<lambda>rule. length (linker_atomic_numbers rule)) (path_rules mapping)) 0"

text \<open>
  The fields of \<open>AtomicConnectivityState\<close> that the projection reads.  The two edge arrays are
  aligned row by row and appear as one list of \<open>(i, j, image shift)\<close>.
\<close>

record atomic_connectivity_state =
  active_atom_indices :: "nat list"
  active_atomic_numbers :: "nat list"
  state_edges :: "(nat \<times> nat \<times> shift) list"
  state_pbc :: "bool \<times> bool \<times> bool"

record resolved_framework_roles =
  resolved_atom_indices :: "nat list"
  resolved_atomic_numbers :: "nat list"
  resolved_roles :: "framework_atom_role list"
  vertex_atom_indices :: "nat list"
  linker_atom_indices :: "nat list"
  spectator_atom_indices :: "nat list"
  excluded_atom_indices :: "nat list"

definition resolve_role :: "framework_mapping \<Rightarrow> nat \<Rightarrow> nat \<Rightarrow> framework_atom_role option" where
  "resolve_role mapping index atomic =
     (case map_of (atom_role_overrides mapping) index of
        Some role \<Rightarrow> Some role
      | None \<Rightarrow>
         (case map_of (species_roles mapping) atomic of
            Some role \<Rightarrow> Some role
          | None \<Rightarrow> unmapped_role mapping))"

definition atoms_with_role ::
  "nat list \<Rightarrow> framework_atom_role list \<Rightarrow> framework_atom_role \<Rightarrow> nat list" where
  "atoms_with_role active roles role = map fst (filter (\<lambda>(_, r). r = role) (zip active roles))"

definition make_resolved_roles ::
  "nat list \<Rightarrow> nat list \<Rightarrow> framework_atom_role list \<Rightarrow> nat list \<Rightarrow> nat list \<Rightarrow> nat list \<Rightarrow> nat list
   \<Rightarrow> resolved_framework_roles result" where
  "make_resolved_roles active numbers roles vs ls ss es =
     bindE (guardE (length active = length numbers \<and> length roles = length active)
       (FrameworkTopologyError (Text ''Resolved roles must align with active atoms.''))) (\<lambda>_.
     bindE (guardE (active \<noteq> [] \<and> sorted_wrt (<) active)
       (FrameworkTopologyError (Text ''Active atom indices must be nonempty and sorted.''))) (\<lambda>_.
     bindE (guardE (list_all (sorted_wrt (<)) [vs, ls, ss, es])
       (FrameworkTopologyError
         (Text ''Role-specific atom arrays must be sorted and unique.''))) (\<lambda>_.
     bindE (guardE (sort (vs @ ls @ ss @ es) = active)
       (FrameworkTopologyError
         (Text ''Role-specific atom arrays must partition active atoms.''))) (\<lambda>_.
     bindE (guardE (map (atoms_with_role active roles) [VERTEX, LINKER, SPECTATOR, EXCLUDED]
                    = [vs, ls, ss, es])
       (FrameworkTopologyError (Text ''Role-specific arrays disagree with roles.''))) (\<lambda>_.
     Inr \<lparr>resolved_atom_indices = active, resolved_atomic_numbers = numbers,
          resolved_roles = roles, vertex_atom_indices = vs, linker_atom_indices = ls,
          spectator_atom_indices = ss, excluded_atom_indices = es\<rparr>)))))"

definition resolve_framework_roles ::
  "atomic_connectivity_state \<Rightarrow> framework_mapping \<Rightarrow> resolved_framework_roles result" where
  "resolve_framework_roles state mapping =
     (let active = active_atom_indices state; numbers = active_atomic_numbers state;
          resolved = map (\<lambda>(i, z). (i, z, resolve_role mapping i z)) (zip active numbers);
          unresolved = map (\<lambda>(i, z, _). (i, z)) (filter (\<lambda>(_, _, r). r = None) resolved);
          roles = List.map_filter (\<lambda>(_, _, r). r) resolved
      in
      if length active \<noteq> length numbers then Inl (ValueError (Text ''zip() arguments differ in length''))
      else if unresolved \<noteq> [] then
        Inl (FrameworkMappingError (Fmt ''Active atoms have no framework role: {}{}''
          (concat (map (\<lambda>(i, z). [ANat i, ANat z]) (take 8 unresolved))
           @ (if length unresolved > 8 then [AStr '' ...''] else []))))
      else
        make_resolved_roles active numbers roles
          (atoms_with_role active roles VERTEX) (atoms_with_role active roles LINKER)
          (atoms_with_role active roles SPECTATOR) (atoms_with_role active roles EXCLUDED))"

section \<open>Rules do not depend on the direction of a path\<close>

definition pattern_matches ::
  "nat list \<Rightarrow> nat option \<Rightarrow> nat option \<Rightarrow> nat \<Rightarrow> nat list \<Rightarrow> nat \<Rightarrow> bool" where
  "pattern_matches linkers left right source candidate target \<longleftrightarrow>
     candidate = linkers \<and> endpoint_matches left source \<and> endpoint_matches right target"

lemma accepts_path_iff:
  "accepts_path rule source candidate target \<longleftrightarrow>
     (let (left, right) = endpoint_atomic_numbers rule; linkers = linker_atomic_numbers rule in
      pattern_matches linkers left right source candidate target
      \<or> pattern_matches (rev linkers) right left source candidate target)"
  by (auto simp: accepts_path_def pattern_matches_def Let_def split: prod.splits)

lemma endpoint_matches_iff: "endpoint_matches p v \<longleftrightarrow> p = None \<or> p = Some v"
  by (auto simp: endpoint_matches_def split: option.splits)

lemma accepts_path_reverse:
  "accepts_path rule source candidate target = accepts_path rule target (rev candidate) source"
  by (auto simp: accepts_path_iff pattern_matches_def Let_def rev_swap split: prod.splits)

lemma opt_atomic_number_Inr_iff [result_simps]:
  "opt_atomic_number nsym v = Inr w \<longleftrightarrow> w = v \<and> (\<forall>n. v = Some n \<longrightarrow> 0 < n \<and> n < nsym)"
  by (auto simp: opt_atomic_number_def result_simps split: option.splits)

lemma opt_number_inject:
  "opt_atomic_number nsym v = Inr v' \<Longrightarrow> opt_atomic_number nsym w = Inr w' \<Longrightarrow>
   opt_number v = opt_number w \<longleftrightarrow> v = w"
  by (auto simp: opt_number_def result_simps split: option.splits)

lemma make_path_rule_Inr_iff:
  "make_path_rule nsym rid linkers (left, right) kind = Inr rule \<longleftrightarrow>
     strip rid \<noteq> [] \<and> strip kind \<noteq> [] \<and> (\<forall>v \<in> set linkers. 0 < v \<and> v < nsym)
     \<and> opt_atomic_number nsym left = Inr left \<and> opt_atomic_number nsym right = Inr right
     \<and> rule = (if opt_number right # rev linkers @ [opt_number left]
                   < opt_number left # linkers @ [opt_number right]
               then \<lparr>path_rule_id = strip rid, linker_atomic_numbers = rev linkers,
                     endpoint_atomic_numbers = (right, left), rule_edge_kind = strip kind\<rparr>
               else \<lparr>path_rule_id = strip rid, linker_atomic_numbers = linkers,
                     endpoint_atomic_numbers = (left, right), rule_edge_kind = strip kind\<rparr>)"
  (is "?lhs \<longleftrightarrow> ?rhs")
proof
  assume ?lhs
  then show ?rhs
    unfolding make_path_rule_def Let_def
    by (auto simp: result_simps dest!: mapE_atomic_number)
next
  assume ?rhs
  then show ?lhs
    unfolding make_path_rule_def Let_def by (auto simp: mapE_atomic_number_ok)
qed

lemma make_path_rule_accepts:
  assumes "make_path_rule nsym rid linkers (left, right) kind = Inr rule"
  shows "accepts_path rule source candidate target \<longleftrightarrow>
    pattern_matches linkers left right source candidate target
    \<or> pattern_matches (rev linkers) right left source candidate target"
  using assms unfolding make_path_rule_Inr_iff
  by (auto simp: accepts_path_iff pattern_matches_def Let_def split: if_splits)

lemma make_path_rule_reverse:
  assumes "make_path_rule nsym rid linkers (left, right) kind = Inr rule"
  shows "make_path_rule nsym rid (rev linkers) (right, left) kind = Inr rule"
proof -
  let ?forward = "opt_number left # linkers @ [opt_number right]"
  let ?backward = "opt_number right # rev linkers @ [opt_number left]"
  have valid: "strip rid \<noteq> []" "strip kind \<noteq> []" "\<forall>v \<in> set (rev linkers). 0 < v \<and> v < nsym"
    "opt_atomic_number nsym left = Inr left" "opt_atomic_number nsym right = Inr right"
    using assms by (simp_all add: make_path_rule_Inr_iff)
  consider "?backward < ?forward" | "?forward < ?backward" | "?forward = ?backward"
    by (rule linorder_cases)
  then show ?thesis
  proof cases
    case 3
    then have "opt_number left = opt_number right" "linkers = rev linkers"
      unfolding list.inject append1_eq_conv by blast+
    then have "rev linkers = linkers" and "right = left"
      using opt_number_inject[OF valid(4,5)] by (blast intro: sym)+
    with assms show ?thesis by simp
  next
    case 1
    then have "\<not> ?forward < ?backward" by (rule less_not_sym)
    with 1 valid assms show ?thesis by (simp add: make_path_rule_Inr_iff del: Cons_less_Cons)
  next
    case 2
    then have "\<not> ?backward < ?forward" by (rule less_not_sym)
    with 2 valid assms show ?thesis by (simp add: make_path_rule_Inr_iff del: Cons_less_Cons)
  qed
qed

section \<open>The overlap test is exact\<close>

lemma canonical_signature_pattern:
  assumes "length sig = length linkers + 2" and "butlast (tl sig) = map Some linkers"
  shows "sig = hd sig # map Some linkers @ [last sig]"
  using assms by (cases sig; cases "tl sig" rule: rev_cases) auto

definition signature_accepts :: "nat option list \<Rightarrow> nat \<Rightarrow> nat list \<Rightarrow> nat \<Rightarrow> bool" where
  "signature_accepts sig source candidate target \<longleftrightarrow>
     butlast (tl sig) = map Some candidate
     \<and> endpoint_matches (hd sig) source \<and> endpoint_matches (last sig) target"

lemma signature_accepts_pattern:
  "signature_accepts (left # map Some linkers @ [right]) source candidate target \<longleftrightarrow>
   pattern_matches linkers left right source candidate target"
  by (auto simp: signature_accepts_def pattern_matches_def inj_map_eq_map)

lemma signature_accepts_pattern_rev:
  "signature_accepts (left # rev (map Some linkers) @ [right]) source candidate target \<longleftrightarrow>
   pattern_matches (rev linkers) left right source candidate target"
  using signature_accepts_pattern[of left "rev linkers"] by (simp only: rev_map)

lemma rev_canonical_signature:
  "rev (canonical_signature rule) =
     snd (endpoint_atomic_numbers rule) # rev (map Some (linker_atomic_numbers rule))
       @ [fst (endpoint_atomic_numbers rule)]"
  by (simp add: canonical_signature_def)

lemma accepts_path_signatures:
  "accepts_path rule source candidate target \<longleftrightarrow>
     (\<exists>sig \<in> set (accepted_signatures rule). signature_accepts sig source candidate target)"
proof -
  have "set (accepted_signatures rule) = {canonical_signature rule, rev (canonical_signature rule)}"
    by (simp add: accepted_signatures_def)
  then show ?thesis
    unfolding rev_canonical_signature canonical_signature_def
    by (simp add: signature_accepts_pattern signature_accepts_pattern_rev accepts_path_iff
        Let_def split_beta)
qed

lemma signatures_overlap_iff:
  assumes "\<exists>xs. butlast (tl left) = map Some xs" and "length left = length right"
  shows "signatures_overlap left right \<longleftrightarrow>
    (\<exists>source candidate target. signature_accepts left source candidate target
       \<and> signature_accepts right source candidate target)"
proof
  assume overlap: "signatures_overlap left right"
  from assms(1) obtain xs where xs: "butlast (tl left) = map Some xs" by blast
  have common: "\<exists>v. endpoint_matches a v \<and> endpoint_matches b v"
    if "a = None \<or> b = None \<or> a = b" for a b
    using that by (cases a; cases b) (auto simp: endpoint_matches_iff)
  from overlap have "\<exists>v. endpoint_matches (hd left) v \<and> endpoint_matches (hd right) v"
    "\<exists>v. endpoint_matches (last left) v \<and> endpoint_matches (last right) v"
    by (auto simp: signatures_overlap_def split: if_splits intro!: common)
  moreover from overlap have "butlast (tl right) = map Some xs"
    using xs by (simp add: signatures_overlap_def split: if_splits)
  ultimately show "\<exists>source candidate target. signature_accepts left source candidate target
       \<and> signature_accepts right source candidate target"
    using xs by (auto simp: signature_accepts_def)
next
  assume "\<exists>source candidate target. signature_accepts left source candidate target
       \<and> signature_accepts right source candidate target"
  then show "signatures_overlap left right"
    using assms(2)
    by (auto simp: signatures_overlap_def signature_accepts_def endpoint_matches_iff)
qed

lemma accepted_signature_shape:
  assumes "sig \<in> set (accepted_signatures rule)"
  shows "length sig = length (linker_atomic_numbers rule) + 2"
    and "\<exists>xs. butlast (tl sig) = map Some xs"
proof -
  from assms have "sig = canonical_signature rule \<or> sig = rev (canonical_signature rule)"
    by (simp add: accepted_signatures_def split: if_splits)
  then show "length sig = length (linker_atomic_numbers rule) + 2"
    and "\<exists>xs. butlast (tl sig) = map Some xs"
    unfolding rev_canonical_signature canonical_signature_def by (auto, metis rev_map)
qed

lemma signature_accepts_length:
  "signature_accepts sig s c t \<Longrightarrow> sig \<in> set (accepted_signatures rule) \<Longrightarrow>
   length sig = length c + 2"
  using accepted_signature_shape[of sig rule]
  by (auto simp: signature_accepts_def dest: arg_cong[where f = length])

lemma rules_overlap_exact:
  "rules_overlap a b \<longleftrightarrow>
     (\<exists>source candidate target. accepts_path a source candidate target
        \<and> accepts_path b source candidate target)"
proof
  assume "rules_overlap a b"
  then obtain l r where l: "l \<in> set (accepted_signatures a)"
    and r: "r \<in> set (accepted_signatures b)" and lr: "signatures_overlap l r"
    by (auto simp: rules_overlap_def list_ex_iff)
  have "length l = length r" using lr by (simp add: signatures_overlap_def split: if_splits)
  then show "\<exists>source candidate target. accepts_path a source candidate target
        \<and> accepts_path b source candidate target"
    using lr l r accepted_signature_shape(2)[OF l] unfolding accepts_path_signatures
    by (subst (asm) signatures_overlap_iff) blast+
next
  assume "\<exists>source candidate target. accepts_path a source candidate target
        \<and> accepts_path b source candidate target"
  then obtain s c t l r where l: "l \<in> set (accepted_signatures a)" "signature_accepts l s c t"
    and r: "r \<in> set (accepted_signatures b)" "signature_accepts r s c t"
    unfolding accepts_path_signatures by blast
  have "length l = length r"
    using signature_accepts_length l r by metis
  then have "signatures_overlap l r"
    using l r accepted_signature_shape(2)[OF l(1)] by (subst signatures_overlap_iff) blast+
  with l r show "rules_overlap a b"
    by (auto simp: rules_overlap_def list_ex_iff)
qed

lemma overlapping_pair_None:
  "overlapping_pair rules = None \<longleftrightarrow> sorted_wrt (\<lambda>a b. \<not> rules_overlap a b) rules"
  by (induction rules) (auto simp: find_None_iff find_Some_iff split: option.splits)

lemma at_most_one_acceptor:
  assumes "sorted_wrt (\<lambda>a b. \<not> rules_overlap a b) rules"
  shows "length (filter (\<lambda>rule. accepts_path rule source candidate target) rules) \<le> 1"
  using assms
proof (induction rules)
  case (Cons rule rules)
  show ?case
  proof (cases "accepts_path rule source candidate target")
    case True
    then have "\<not> accepts_path other source candidate target" if "other \<in> set rules" for other
      using that Cons.prems rules_overlap_exact[of rule other] by auto
    then show ?thesis by (simp add: filter_False)
  qed (use Cons in simp)
qed simp

lemma make_mapping_rules:
  assumes "make_mapping nsym species overrides rules unmapped = Inr mapping"
  shows "path_rules mapping = rules" and "sorted_wrt (\<lambda>a b. \<not> rules_overlap a b) rules"
    and "distinct (map path_rule_id rules)"
  using assms unfolding make_mapping_def overlapping_pair_None[symmetric]
  by (cases "overlapping_pair rules"; auto simp: result_simps)+

lemma mapping_max_linker_atoms_ge:
  assumes "rule \<in> set (path_rules mapping)"
  shows "length (linker_atomic_numbers rule) \<le> mapping_max_linker_atoms mapping"
proof -
  have "x \<in> set xs \<Longrightarrow> x \<le> fold max xs (m :: nat)" "m \<le> fold max xs m" for x xs and m :: nat
    by (induction xs arbitrary: m) (auto, (metis max.cobounded1 max.cobounded2 order_trans)+)
  with assms show ?thesis by (simp add: mapping_max_linker_atoms_def)
qed

section \<open>Role resolution\<close>

lemma atoms_with_role_sorted:
  assumes "sorted_wrt (<) active"
  shows "sorted_wrt (<) (atoms_with_role active roles role)"
proof -
  have "sorted_wrt (<) (map fst (filter P (zip active roles)))" for P
    using assms
  proof (induction active arbitrary: roles)
    case (Cons a active)
    then show ?case
      by (cases roles) (auto dest: set_zip_leftD)
  qed simp
  then show ?thesis by (simp add: atoms_with_role_def)
qed

lemma atoms_with_role_mset:
  assumes "length roles = length active"
  shows "mset (atoms_with_role active roles VERTEX) + mset (atoms_with_role active roles LINKER)
       + mset (atoms_with_role active roles SPECTATOR) + mset (atoms_with_role active roles EXCLUDED)
       = mset active"
  using assms
proof (induction active arbitrary: roles)
  case (Cons a active)
  then obtain r rs where roles: "roles = r # rs" by (cases roles) auto
  with Cons show ?case
    by (cases r) (simp_all add: atoms_with_role_def)
qed (simp add: atoms_with_role_def)

lemma sort_atoms_with_role:
  assumes "length roles = length active" and "sorted_wrt (<) active"
  shows "sort (atoms_with_role active roles VERTEX @ atoms_with_role active roles LINKER
       @ atoms_with_role active roles SPECTATOR @ atoms_with_role active roles EXCLUDED) = active"
  using assms atoms_with_role_mset[OF assms(1)]
  by (intro properties_for_sort) (auto simp: add.assoc strict_sorted_iff)

lemma make_resolved_roles_ok:
  assumes "length active = length numbers" "length roles = length active"
    and "active \<noteq> []" "sorted_wrt (<) active"
  shows "make_resolved_roles active numbers roles
      (atoms_with_role active roles VERTEX) (atoms_with_role active roles LINKER)
      (atoms_with_role active roles SPECTATOR) (atoms_with_role active roles EXCLUDED) =
    Inr \<lparr>resolved_atom_indices = active, resolved_atomic_numbers = numbers,
      resolved_roles = roles,
      vertex_atom_indices = atoms_with_role active roles VERTEX,
      linker_atom_indices = atoms_with_role active roles LINKER,
      spectator_atom_indices = atoms_with_role active roles SPECTATOR,
      excluded_atom_indices = atoms_with_role active roles EXCLUDED\<rparr>"
  using assms
  by (simp add: make_resolved_roles_def sort_atoms_with_role atoms_with_role_sorted)

lemma map_filter_all_Some:
  "(\<forall>x \<in> set xs. f x \<noteq> None) \<Longrightarrow> List.map_filter f xs = map (the \<circ> f) xs"
  by (induction xs) (auto simp: List.map_filter_simps split: option.splits)

lemma atoms_with_role_map:
  "atoms_with_role active (map f (zip active numbers)) role =
     map fst (filter (\<lambda>p. f p = role) (zip active numbers))"
proof (induction active arbitrary: numbers)
  case (Cons a active)
  then show ?case by (cases numbers) (simp_all add: atoms_with_role_def)
qed (simp add: atoms_with_role_def)

definition resolved_of ::
  "atomic_connectivity_state \<Rightarrow> framework_mapping \<Rightarrow> framework_atom_role \<Rightarrow> nat list" where
  "resolved_of state mapping role =
     map fst (filter (\<lambda>(i, z). resolve_role mapping i z = Some role)
       (zip (active_atom_indices state) (active_atomic_numbers state)))"

lemma resolve_framework_roles_Inr_iff:
  "resolve_framework_roles state mapping = Inr R \<longleftrightarrow>
     length (active_atom_indices state) = length (active_atomic_numbers state)
     \<and> active_atom_indices state \<noteq> [] \<and> sorted_wrt (<) (active_atom_indices state)
     \<and> (\<forall>(i, z) \<in> set (zip (active_atom_indices state) (active_atomic_numbers state)).
          resolve_role mapping i z \<noteq> None)
     \<and> R = \<lparr>resolved_atom_indices = active_atom_indices state,
            resolved_atomic_numbers = active_atomic_numbers state,
            resolved_roles = map (\<lambda>(i, z). the (resolve_role mapping i z))
              (zip (active_atom_indices state) (active_atomic_numbers state)),
            vertex_atom_indices = resolved_of state mapping VERTEX,
            linker_atom_indices = resolved_of state mapping LINKER,
            spectator_atom_indices = resolved_of state mapping SPECTATOR,
            excluded_atom_indices = resolved_of state mapping EXCLUDED\<rparr>"
  (is "?lhs \<longleftrightarrow> ?rhs")
proof -
  let ?A = "active_atom_indices state" and ?Z = "active_atomic_numbers state"
  let ?role = "\<lambda>(i, z). resolve_role mapping i z"
  let ?roles = "List.map_filter (\<lambda>(_, _, r). r) (map (\<lambda>(i, z). (i, z, resolve_role mapping i z)) (zip ?A ?Z))"
  let ?total = "\<forall>p \<in> set (zip ?A ?Z). ?role p \<noteq> None"
  have total_iff: "filter (\<lambda>(_, _, r). r = None) (map (\<lambda>(i, z). (i, z, resolve_role mapping i z)) (zip ?A ?Z)) = []
      \<longleftrightarrow> ?total"
    by (auto simp: filter_empty_conv)
  have roles: "?roles = map (\<lambda>p. the (?role p)) (zip ?A ?Z)" if ?total
    using that by (subst map_filter_all_Some) auto
  have of: "atoms_with_role ?A (map (\<lambda>p. the (?role p)) (zip ?A ?Z)) r = resolved_of state mapping r"
    if ?total for r
    using that unfolding atoms_with_role_map resolved_of_def
    by (intro arg_cong[where f = "map fst"] filter_cong) auto
  consider "length ?A \<noteq> length ?Z" | "length ?A = length ?Z" "\<not> ?total"
    | "length ?A = length ?Z" ?total by blast
  then show ?thesis
  proof cases
    case 3
    let ?rs = "map (\<lambda>p. the (?role p)) (zip ?A ?Z)"
    have step: "resolve_framework_roles state mapping =
      make_resolved_roles ?A ?Z ?rs (atoms_with_role ?A ?rs VERTEX) (atoms_with_role ?A ?rs LINKER)
        (atoms_with_role ?A ?rs SPECTATOR) (atoms_with_role ?A ?rs EXCLUDED)"
      unfolding resolve_framework_roles_def Let_def
      using 3 total_iff roles[OF 3(2)] by simp
    have len: "length ?rs = length ?A" using 3 by simp
    show ?thesis
    proof (cases "?A \<noteq> [] \<and> sorted_wrt (<) ?A")
      case True
      then show ?thesis
        unfolding step using make_resolved_roles_ok[OF 3(1) len] 3 of[OF 3(2)]
        by (auto simp: case_prod_unfold)
    next
      case False
      then show ?thesis
        unfolding step make_resolved_roles_def using 3 len by (auto simp: result_simps)
    qed
  next
    case 2
    then have "resolve_framework_roles state mapping \<noteq> Inr R"
      using total_iff by (simp only: resolve_framework_roles_def Let_def) (simp add: map_is_Nil_conv)
    with 2 show ?thesis by (auto simp: case_prod_unfold)
  qed (simp add: resolve_framework_roles_def Let_def)
qed

section \<open>Properties\<close>

text \<open>C37: two path rules are reported as overlapping exactly when some source element, linker
  sequence and target element is accepted by both, endpoint wildcards and both directions included.\<close>
theorem rules_overlap_decides:
  "rules_overlap a b \<longleftrightarrow>
     (\<exists>source candidate target. accepts_path a source candidate target
        \<and> accepts_path b source candidate target)"
  by (rule rules_overlap_exact)

text \<open>A path rule has no direction: declaring it from either end gives the same rule, and the
  rule accepts a path exactly when it accepts the reversed path.\<close>
theorem path_rule_undirected:
  "(make_path_rule nsym rid linkers (left, right) kind = Inr rule \<longleftrightarrow>
      make_path_rule nsym rid (rev linkers) (right, left) kind = Inr rule)
   \<and> accepts_path rule source candidate target = accepts_path rule target (rev candidate) source"
proof
  show "make_path_rule nsym rid linkers (left, right) kind = Inr rule \<longleftrightarrow>
      make_path_rule nsym rid (rev linkers) (right, left) kind = Inr rule"
    using make_path_rule_reverse[of nsym rid linkers left right kind rule]
      make_path_rule_reverse[of nsym rid "rev linkers" right left kind rule]
    by auto
qed (rule accepts_path_reverse)

text \<open>In a mapping that was constructed without error, at most one rule accepts any path, so a
  terminal path never has two rules to choose from.\<close>
theorem mapping_rules_unambiguous:
  assumes "make_mapping nsym species overrides rules unmapped = Inr mapping"
  shows "length (filter (\<lambda>rule. accepts_path rule source candidate target) (path_rules mapping)) \<le> 1"
  using make_mapping_rules(1,2)[OF assms] at_most_one_acceptor by (simp only:)

definition example_rule :: framework_path_rule where
  "example_rule = \<lparr>path_rule_id = ''oxo'', linker_atomic_numbers = [8],
     endpoint_atomic_numbers = (None, None), rule_edge_kind = ''bridge''\<rparr>"

definition example_mapping :: framework_mapping where
  "example_mapping = \<lparr>species_roles = [(8, LINKER), (14, VERTEX)], atom_role_overrides = [],
     path_rules = [example_rule], unmapped_role = None\<rparr>"

lemma example_mapping_made:
  "make_mapping 119 [(14, VERTEX), (8, LINKER)] [] [example_rule] None = Inr example_mapping"
  by code_simp

theorem mapping_rules_unambiguous_witness:
  "length (filter (\<lambda>rule. accepts_path rule 14 [8] 14) (path_rules example_mapping)) \<le> 1"
  by (rule mapping_rules_unambiguous[OF example_mapping_made])

text \<open>C38: role resolution succeeds exactly on a nonempty, strictly increasing list of active atoms
  each of which has a role, by override, by element or by default; and it then partitions the atoms
  by that role.\<close>
theorem resolve_framework_roles_exact:
  "resolve_framework_roles state mapping = Inr R \<longleftrightarrow>
     length (active_atom_indices state) = length (active_atomic_numbers state)
     \<and> active_atom_indices state \<noteq> [] \<and> sorted_wrt (<) (active_atom_indices state)
     \<and> list_all (\<lambda>(i, z). resolve_role mapping i z \<noteq> None)
          (zip (active_atom_indices state) (active_atomic_numbers state))
     \<and> R = \<lparr>resolved_atom_indices = active_atom_indices state,
            resolved_atomic_numbers = active_atomic_numbers state,
            resolved_roles = map (\<lambda>(i, z). the (resolve_role mapping i z))
              (zip (active_atom_indices state) (active_atomic_numbers state)),
            vertex_atom_indices = resolved_of state mapping VERTEX,
            linker_atom_indices = resolved_of state mapping LINKER,
            spectator_atom_indices = resolved_of state mapping SPECTATOR,
            excluded_atom_indices = resolved_of state mapping EXCLUDED\<rparr>"
  unfolding resolve_framework_roles_Inr_iff list_all_iff ..

end
