(* ===== verification/Periodic_Lattice.thy ===== *)
theory Periodic_Lattice
  imports Prelude
begin

text \<open>
  The exact integer arithmetic of \<open>mdstats/analysis/_periodic_graph.py\<close>: coercion of Python
  values to integers, lattice shifts and 3x3 integer matrices, the inverse of a unimodular
  matrix, and the anchor of a traversed periodic edge.  The lemmas show that shifts form a group
  on which matrices act linearly, and that the inverse is computed exactly when there is one.
\<close>

section \<open>Coercion of Python values\<close>

text \<open>
  A dynamically typed argument.  \<open>PyInt\<close> stands for every \<open>numbers.Integral\<close> that is not a
  \<open>bool\<close>, \<open>PyBool\<close> for a \<open>bool\<close>, \<open>PySeq\<close> for a finite iterable that is not a string, and
  \<open>PyOther\<close> for a value that is neither an integer nor iterable (None, a float, an object).
\<close>

datatype py_value = PyInt int | PyBool bool | PyStr string | PySeq "py_value list" | PyOther

fun coerce_int :: "string \<Rightarrow> py_value \<Rightarrow> int result" where
  "coerce_int name (PyInt i) = Inr i"
| "coerce_int name _ = Inl (ValueError (Fmt ''{} must be an integer.'' [AStr name]))"

definition coerce_nonnegative_int :: "string \<Rightarrow> py_value \<Rightarrow> int result" where
  "coerce_nonnegative_int name v =
     bindE (coerce_int name v) (\<lambda>result.
       if result < 0 then Inl (ValueError (Fmt ''{} must be nonnegative.'' [AStr name]))
       else Inr result)"

fun py_tuple :: "py_value \<Rightarrow> exc + py_value list" where
  "py_tuple (PySeq vs) = Inr vs"
| "py_tuple (PyStr s) = Inr (map (\<lambda>c. PyStr [c]) s)"
| "py_tuple _ = Inl (PyTypeError (Text ''object is not iterable''))"

definition coerce_lattice_shift :: "string \<Rightarrow> py_value \<Rightarrow> shift result" where
  "coerce_lattice_shift name v =
     (let wrong = ValueError (Fmt ''{} must contain exactly three integers.'' [AStr name]) in
      case py_tuple v of
        Inl _ \<Rightarrow> Inl wrong
      | Inr items \<Rightarrow>
          if length items \<noteq> 3 then Inl wrong
          else bindE (mapE (coerce_int name) items)
                 (\<lambda>xs. Inr (xs ! 0, xs ! 1, xs ! 2)))"

section \<open>Shifts\<close>

fun add_shift :: "shift \<Rightarrow> shift \<Rightarrow> shift" where
  "add_shift (a, b, c) (x, y, z) = (a + x, b + y, c + z)"

fun subtract_shift :: "shift \<Rightarrow> shift \<Rightarrow> shift" where
  "subtract_shift (a, b, c) (x, y, z) = (a - x, b - y, c - z)"

fun negate_shift :: "shift \<Rightarrow> shift" where
  "negate_shift (a, b, c) = (- a, - b, - c)"

abbreviation zero_shift :: shift where "zero_shift \<equiv> (0, 0, 0)"

section \<open>Matrices\<close>

type_synonym int_matrix3 = "shift \<times> shift \<times> shift"

definition coerce_int_matrix3 :: "string \<Rightarrow> py_value \<Rightarrow> int_matrix3 result" where
  "coerce_int_matrix3 name v =
     (let wrong = ValueError (Fmt ''{} must be a 3x3 integer matrix.'' [AStr name]) in
      case bindE (py_tuple v) (mapE py_tuple) of
        Inl _ \<Rightarrow> Inl wrong
      | Inr rows \<Rightarrow>
          if length rows \<noteq> 3 \<or> (\<exists>row \<in> set rows. length row \<noteq> 3) then Inl wrong
          else bindE (mapE (\<lambda>row. bindE (mapE (coerce_int name) row)
                             (\<lambda>xs. Inr (xs ! 0, xs ! 1, xs ! 2))) rows)
                 (\<lambda>m. Inr (m ! 0, m ! 1, m ! 2)))"

fun determinant3 :: "int_matrix3 \<Rightarrow> int" where
  "determinant3 ((a0, a1, a2), (b0, b1, b2), (c0, c1, c2)) =
     a0 * (b1 * c2 - b2 * c1) - a1 * (b0 * c2 - b2 * c0) + a2 * (b0 * c1 - b1 * c0)"

fun row_dot :: "shift \<Rightarrow> shift \<Rightarrow> int" where
  "row_dot (a, b, c) (x, y, z) = a * x + b * y + c * z"

fun matvec_shift :: "int_matrix3 \<Rightarrow> shift \<Rightarrow> shift" where
  "matvec_shift (r0, r1, r2) v = (row_dot r0 v, row_dot r1 v, row_dot r2 v)"

fun matrix_column :: "int_matrix3 \<Rightarrow> nat \<Rightarrow> shift" where
  "matrix_column ((a0, a1, a2), (b0, b1, b2), (c0, c1, c2)) j =
     (if j = 0 then (a0, b0, c0) else if j = 1 then (a1, b1, c1) else (a2, b2, c2))"

fun multiply_int_matrices3 :: "int_matrix3 \<Rightarrow> int_matrix3 \<Rightarrow> int_matrix3" where
  "multiply_int_matrices3 (r0, r1, r2) m =
     (let c0 = matrix_column m 0; c1 = matrix_column m 1; c2 = matrix_column m 2 in
      ((row_dot r0 c0, row_dot r0 c1, row_dot r0 c2),
       (row_dot r1 c0, row_dot r1 c1, row_dot r1 c2),
       (row_dot r2 c0, row_dot r2 c1, row_dot r2 c2)))"

fun matrix_cofactors :: "int_matrix3 \<Rightarrow> int_matrix3" where
  "matrix_cofactors ((a00, a01, a02), (a10, a11, a12), (a20, a21, a22)) =
     ((a11 * a22 - a12 * a21, - (a10 * a22 - a12 * a20), a10 * a21 - a11 * a20),
      (- (a01 * a22 - a02 * a21), a00 * a22 - a02 * a20, - (a00 * a21 - a01 * a20)),
      (a01 * a12 - a02 * a11, - (a00 * a12 - a02 * a10), a00 * a11 - a01 * a10))"

fun divide_row :: "int \<Rightarrow> shift \<Rightarrow> shift" where
  "divide_row d (x, y, z) = (x div d, y div d, z div d)"

definition invert_unimodular_matrix3 :: "int_matrix3 \<Rightarrow> int_matrix3 result" where
  "invert_unimodular_matrix3 m =
     (let determinant = determinant3 m in
      if determinant \<noteq> -1 \<and> determinant \<noteq> 1
      then Inl (ValueError (Text ''matrix must be unimodular with determinant +1 or -1.''))
      else
        let cofactors = matrix_cofactors m
        in Inr (divide_row determinant (matrix_column cofactors 0),
                divide_row determinant (matrix_column cofactors 1),
                divide_row determinant (matrix_column cofactors 2)))"

definition physical_edge_anchor :: "shift \<Rightarrow> shift \<Rightarrow> int \<Rightarrow> shift result" where
  "physical_edge_anchor source_image_shift edge_image_shift orientation =
     (if orientation = 1 then Inr source_image_shift
      else if orientation = -1 then Inr (subtract_shift source_image_shift edge_image_shift)
      else Inl (ValueError (Text ''orientation must be +1 or -1.'')))"

section \<open>Laws\<close>

named_theorems shift_simps \<open>the group laws of lattice shifts\<close>

lemma add_shift_assoc [shift_simps]: "add_shift (add_shift a b) c = add_shift a (add_shift b c)"
  by (cases a; cases b; cases c) simp

lemma add_shift_commute: "add_shift a b = add_shift b a"
  by (cases a; cases b) simp

lemma add_shift_zero [simp, shift_simps]: "add_shift zero_shift a = a" "add_shift a zero_shift = a"
  by (cases a, simp)+

lemma subtract_shift_zero [simp]: "subtract_shift a zero_shift = a"
  by (cases a) simp

lemma subtract_shift_self [simp]: "subtract_shift a a = zero_shift"
  by (cases a) simp

lemma subtract_shift_conv: "subtract_shift a b = add_shift a (negate_shift b)"
  by (cases a; cases b) simp

lemma add_shift_negate [simp, shift_simps]: "add_shift a (negate_shift a) = zero_shift"
  by (cases a) simp

lemma negate_negate_shift [simp]: "negate_shift (negate_shift a) = a"
  by (cases a) simp

lemma add_subtract_shift [simp]: "subtract_shift (add_shift a b) b = a"
  by (cases a; cases b) simp

lemma subtract_add_shift [simp]: "add_shift (subtract_shift a b) b = a"
  by (cases a; cases b) simp

lemma add_shift_left_cancel [simp]: "add_shift a b = add_shift a c \<longleftrightarrow> b = c"
  by (cases a; cases b; cases c) simp

lemma add_shift_right_cancel [simp]: "add_shift b a = add_shift c a \<longleftrightarrow> b = c"
  by (cases a; cases b; cases c) simp

lemma subtract_shift_right_cancel [simp]: "subtract_shift b a = subtract_shift c a \<longleftrightarrow> b = c"
  by (cases a; cases b; cases c) simp

lemma subtract_shift_eq_iff: "subtract_shift a b = c \<longleftrightarrow> a = add_shift c b"
  by (cases a; cases b; cases c) auto

lemma subtract_shift_eq_zero [simp]: "subtract_shift a b = zero_shift \<longleftrightarrow> a = b"
  by (cases a; cases b) auto

lemma subtract_shift_translate [simp]:
  "subtract_shift (add_shift a t) (add_shift b t) = subtract_shift a b"
  by (cases a; cases b; cases t) simp

lemma matvec_add: "matvec_shift m (add_shift a b) = add_shift (matvec_shift m a) (matvec_shift m b)"
  by (cases m rule: determinant3.cases; cases a; cases b) (simp add: algebra_simps)

lemma matvec_multiply: "matvec_shift (multiply_int_matrices3 a b) v = matvec_shift a (matvec_shift b v)"
  by (cases a rule: determinant3.cases; cases b rule: determinant3.cases; cases v)
     (simp add: algebra_simps)

definition identity_matrix3 :: int_matrix3 where
  "identity_matrix3 = ((1, 0, 0), (0, 1, 0), (0, 0, 1))"

lemma multiply_assoc:
  "multiply_int_matrices3 (multiply_int_matrices3 a b) c =
   multiply_int_matrices3 a (multiply_int_matrices3 b c)"
  by (cases a rule: determinant3.cases; cases b rule: determinant3.cases;
      cases c rule: determinant3.cases) (simp add: algebra_simps)

lemma multiply_identity [simp]:
  "multiply_int_matrices3 identity_matrix3 a = a" "multiply_int_matrices3 a identity_matrix3 = a"
  by (cases a rule: determinant3.cases, simp add: identity_matrix3_def)+

lemma determinant_multiply:
  "determinant3 (multiply_int_matrices3 a b) = determinant3 a * determinant3 b"
  by (cases a rule: determinant3.cases; cases b rule: determinant3.cases) (simp add: algebra_simps)

lemma determinant_identity [simp]: "determinant3 identity_matrix3 = 1"
  by (simp add: identity_matrix3_def)

lemma multiply_explicit:
  "multiply_int_matrices3 ((a, b, c), (d, e, f), (g, h, i)) ((j, k, l), (m, n, p), (q, r, s)) =
   ((a * j + b * m + c * q, a * k + b * n + c * r, a * l + b * p + c * s),
    (d * j + e * m + f * q, d * k + e * n + f * r, d * l + e * p + f * s),
    (g * j + h * m + i * q, g * k + h * n + i * r, g * l + h * p + i * s))"
  by simp

lemma invert_explicit:
  assumes "determinant3 m = d" and "d = 1 \<or> d = -1"
  shows "invert_unimodular_matrix3 m =
    Inr (divide_row d (matrix_column (matrix_cofactors m) 0),
         divide_row d (matrix_column (matrix_cofactors m) 1),
         divide_row d (matrix_column (matrix_cofactors m) 2))"
  using assms unfolding invert_unimodular_matrix3_def Let_def by auto

lemma invert_succeeds_iff:
  "(\<exists>w. invert_unimodular_matrix3 m = Inr w) \<longleftrightarrow> determinant3 m = 1 \<or> determinant3 m = -1"
proof
  assume "\<exists>w. invert_unimodular_matrix3 m = Inr w"
  then show "determinant3 m = 1 \<or> determinant3 m = -1"
    unfolding invert_unimodular_matrix3_def Let_def by (auto split: if_splits)
qed (use invert_explicit in blast)

lemma divide_row_unit: "d = 1 \<or> d = -1 \<Longrightarrow> divide_row d (x, y, z) = (d * x, d * y, d * z)"
  by auto

lemma invert_inverse:
  assumes "invert_unimodular_matrix3 m = Inr w"
  shows "multiply_int_matrices3 m w = identity_matrix3"
    and "multiply_int_matrices3 w m = identity_matrix3"
proof -
  obtain a b c d e f g h i where m: "m = ((a, b, c), (d, e, f), (g, h, i))"
    by (cases m rule: determinant3.cases)
  define D where "D = determinant3 m"
  have unit: "D = 1 \<or> D = -1"
    using assms invert_succeeds_iff unfolding D_def by blast
  have square: "D * D = 1"
    using unit by auto
  have det: "a * (e * i - f * h) - b * (d * i - f * g) + c * (d * h - e * g) = D"
    by (simp add: D_def m)
  have unit_det: "D * (a * (e * i - f * h) - b * (d * i - f * g) + c * (d * h - e * g)) = 1"
    by (simp add: det square)
  have w: "w =
    ((D * (e * i - f * h), D * - (b * i - c * h), D * (b * f - c * e)),
     (D * - (d * i - f * g), D * (a * i - c * g), D * - (a * f - c * d)),
     (D * (d * h - e * g), D * - (a * h - b * g), D * (a * e - b * d)))"
    using assms invert_explicit[OF D_def[symmetric] unit] unfolding m
    by (simp only: matrix_cofactors.simps matrix_column.simps divide_row_unit[OF unit]
          if_True if_False refl zero_neq_one one_neq_zero sum.inject prod.inject)
       (use unit in auto)
  show "multiply_int_matrices3 m w = identity_matrix3"
    unfolding w m identity_matrix3_def multiply_explicit prod.inject
    by (intro conjI; (algebra | (use unit_det in \<open>simp add: algebra_simps\<close>)))
  show "multiply_int_matrices3 w m = identity_matrix3"
    unfolding w m identity_matrix3_def multiply_explicit prod.inject
    by (intro conjI; (algebra | (use unit_det in \<open>simp add: algebra_simps\<close>)))
qed

section \<open>Inversion is exact\<close>

text \<open>C40: the integer matrix inversion returns a matrix exactly when it is the two-sided inverse;
  so it fails on precisely the matrices that have no integer inverse.\<close>
theorem invert_unimodular_exact:
  "invert_unimodular_matrix3 m = Inr w \<longleftrightarrow>
     multiply_int_matrices3 m w = identity_matrix3 \<and> multiply_int_matrices3 w m = identity_matrix3"
proof
  assume inv: "multiply_int_matrices3 m w = identity_matrix3 \<and> multiply_int_matrices3 w m = identity_matrix3"
  then have "determinant3 m * determinant3 w = 1"
    by (metis determinant_identity determinant_multiply)
  then have "determinant3 m = 1 \<or> determinant3 m = -1"
    by (auto simp: zmult_eq_1_iff)
  then obtain w' where w': "invert_unimodular_matrix3 m = Inr w'"
    using invert_succeeds_iff by blast
  have "w' = w"
    using inv invert_inverse[OF w'] by (metis multiply_assoc multiply_identity)
  with w' show "invert_unimodular_matrix3 m = Inr w" by simp
qed (simp add: invert_inverse)

end
