(* ===== verification/Framework_Edges.thy ===== *)
theory Framework_Edges
  imports Framework_Rules Periodic_Lattice
begin

text \<open>
  Projected framework edges of \<open>mdstats/analysis/framework_topology.py\<close>: the decorated edge key
  with its lexicographic order (\<open>FrameworkEdgeKey\<close>), the atomic path behind an edge
  (\<open>FrameworkEdgePath\<close>), its oriented views (\<open>OrientedFrameworkEdgePath\<close>), and the canonical
  direction of a path (\<open>_reverse_path\<close>, \<open>_path_offsets\<close>, \<open>_canonical_path\<close>).  The lemmas show
  that a path and its reversal have one canonical form and that an oriented view is again a
  consistent walk with the opposite translation.

  The annotation \<open>Literal[-1, 1]\<close> is the datatype \<open>orientation\<close>, ordered as -1 and 1 are.
  Shifts are unbounded integers; numpy's int64 range is not modelled.
\<close>

section \<open>Orientations\<close>

datatype orientation = Backward | Forward

fun orientation_int :: "orientation \<Rightarrow> int" where
  "orientation_int Forward = 1"
| "orientation_int Backward = -1"

fun flip :: "orientation \<Rightarrow> orientation" where
  "flip Forward = Backward"
| "flip Backward = Forward"

lemma flip_flip [simp]: "flip (flip d) = d"
  by (cases d) simp_all

lemma flip_neq [simp]: "flip d \<noteq> d" "d \<noteq> flip d"
  by (cases d, simp_all)+

lemma orientation_int_flip [simp]: "orientation_int (flip d) = - orientation_int d"
  by (cases d) simp_all

lemma orientation_int_inject: "orientation_int a = orientation_int b \<Longrightarrow> a = b"
  by (cases a; cases b) simp_all

instantiation orientation :: linorder
begin

definition less_eq_orientation :: "orientation \<Rightarrow> orientation \<Rightarrow> bool" where
  "less_eq_orientation a b \<longleftrightarrow> orientation_int a \<le> orientation_int b"

definition less_orientation :: "orientation \<Rightarrow> orientation \<Rightarrow> bool" where
  "less_orientation a b \<longleftrightarrow> orientation_int a < orientation_int b"

instance
  by standard (auto simp: less_eq_orientation_def less_orientation_def intro: orientation_int_inject)

end

section \<open>Edge keys\<close>

datatype framework_edge_key = FrameworkEdgeKey
  (vertex_i: nat)
  (vertex_j: nat)
  (image_shift: shift)
  (internal_linker_indices: "nat list")
  (internal_linker_image_offsets: "shift list")
  (rule_id: string)

fun edge_key_tuple :: "framework_edge_key \<Rightarrow> nat \<times> nat \<times> shift \<times> nat list \<times> shift list \<times> string" where
  "edge_key_tuple (FrameworkEdgeKey i j s ls os r) = (i, j, s, ls, os, r)"

lemma edge_key_tuple_inject: "edge_key_tuple a = edge_key_tuple b \<Longrightarrow> a = b"
  by (cases a; cases b) simp

instantiation framework_edge_key :: linorder
begin

definition less_eq_framework_edge_key :: "framework_edge_key \<Rightarrow> framework_edge_key \<Rightarrow> bool" where
  "less_eq_framework_edge_key a b \<longleftrightarrow> edge_key_tuple a \<le> edge_key_tuple b"

definition less_framework_edge_key :: "framework_edge_key \<Rightarrow> framework_edge_key \<Rightarrow> bool" where
  "less_framework_edge_key a b \<longleftrightarrow> edge_key_tuple a < edge_key_tuple b"

instance
  by standard
    (auto simp: less_eq_framework_edge_key_def less_framework_edge_key_def less_le_not_le
      intro: edge_key_tuple_inject dest: order_antisym)

end

definition make_edge_key ::
  "nat \<Rightarrow> nat \<Rightarrow> shift \<Rightarrow> nat list \<Rightarrow> shift list \<Rightarrow> string \<Rightarrow> framework_edge_key result" where
  "make_edge_key i j shift internal offsets rid =
     (if i > j then
        Inl (FrameworkProjectionError (Text ''FrameworkEdgeKey requires vertex_i <= vertex_j.''))
      else if length internal \<noteq> length offsets then
        Inl (FrameworkProjectionError (Text ''Linker indices and image offsets must align.''))
      else if \<not> distinct (zip internal offsets) then
        Inl (FrameworkProjectionError (Text ''Lifted internal linker states must be unique.''))
      else if i = j \<and> shift = zero_shift then
        Inl (FrameworkProjectionError (Text ''Zero-shift projected self-edges are invalid.''))
      else if rid = [] then
        Inl (FrameworkProjectionError (Text ''rule_id must be nonempty.''))
      else Inr (FrameworkEdgeKey i j shift internal offsets rid))"

lemma make_edge_key_Inr_iff:
  "make_edge_key i j s ls os r = Inr k \<longleftrightarrow>
     i \<le> j \<and> length ls = length os \<and> distinct (zip ls os) \<and> \<not> (i = j \<and> s = zero_shift) \<and> r \<noteq> []
     \<and> k = FrameworkEdgeKey i j s ls os r"
  by (auto simp: make_edge_key_def)

section \<open>Edge paths\<close>

record framework_edge_path =
  edge_key :: framework_edge_key
  atomic_path_indices :: "nat list"
  atomic_edge_image_shifts :: "shift list"
  internal_linker_atomic_numbers :: "nat list"
  raw_image_shift :: shift
  edge_kind :: string

definition sum_shifts :: "shift list \<Rightarrow> shift" where
  "sum_shifts steps = foldl add_shift zero_shift steps"

definition make_edge_path ::
  "nat \<Rightarrow> framework_edge_key \<Rightarrow> nat list \<Rightarrow> shift list \<Rightarrow> nat list \<Rightarrow> shift \<Rightarrow> string
   \<Rightarrow> framework_edge_path result" where
  "make_edge_path nsym key path steps numbers raw kind =
     bindE (mapE (atomic_number nsym ''internal linker atomic number'') numbers) (\<lambda>_.
     if length path < 2 \<or> length steps \<noteq> length path - 1 then
       Inl (FrameworkProjectionError (Text ''Atomic paths require n atoms and n-1 edge shifts.''))
     else if hd path \<noteq> vertex_i key \<or> last path \<noteq> vertex_j key then
       Inl (FrameworkProjectionError (Text ''Atomic path endpoints disagree with edge key.''))
     else if butlast (tl path) \<noteq> internal_linker_indices key then
       Inl (FrameworkProjectionError (Text ''Atomic path internal atoms disagree with edge key.''))
     else if length numbers \<noteq> length (internal_linker_indices key) then
       Inl (FrameworkProjectionError (Text ''Internal linker atomic numbers are misaligned.''))
     else if sum_shifts steps \<noteq> raw then
       Inl (FrameworkProjectionError (Text ''Atomic edge shifts do not sum to raw_image_shift.''))
     else if kind = [] then
       Inl (FrameworkProjectionError (Text ''edge_kind must be nonempty.''))
     else Inr \<lparr>edge_key = key, atomic_path_indices = path, atomic_edge_image_shifts = steps,
               internal_linker_atomic_numbers = numbers, raw_image_shift = raw, edge_kind = kind\<rparr>)"

section \<open>Oriented views\<close>

record oriented_edge_path =
  oriented_edge :: framework_edge_path
  edge_orientation :: orientation

definition oriented :: "framework_edge_path \<Rightarrow> orientation \<Rightarrow> oriented_edge_path" where
  "oriented edge d = \<lparr>oriented_edge = edge, edge_orientation = d\<rparr>"

definition oriented_from :: "framework_edge_path \<Rightarrow> nat \<Rightarrow> oriented_edge_path result" where
  "oriented_from edge source =
     (if vertex_i (edge_key edge) = vertex_j (edge_key edge) then
        Inl (FrameworkProjectionError
          (Text ''Self-image edges require an explicit +1 or -1 orientation.''))
      else if source = vertex_i (edge_key edge) then Inr (oriented edge Forward)
      else if source = vertex_j (edge_key edge) then Inr (oriented edge Backward)
      else Inl (FrameworkProjectionError
          (Text ''source_vertex is not an endpoint of this framework edge.'')))"

definition source_vertex :: "oriented_edge_path \<Rightarrow> nat" where
  "source_vertex v = (if edge_orientation v = Forward then vertex_i (edge_key (oriented_edge v))
                      else vertex_j (edge_key (oriented_edge v)))"

definition target_vertex :: "oriented_edge_path \<Rightarrow> nat" where
  "target_vertex v = (if edge_orientation v = Forward then vertex_j (edge_key (oriented_edge v))
                      else vertex_i (edge_key (oriented_edge v)))"

definition oriented_image_shift :: "oriented_edge_path \<Rightarrow> shift" where
  "oriented_image_shift v =
     (if edge_orientation v = Forward then image_shift (edge_key (oriented_edge v))
      else negate_shift (image_shift (edge_key (oriented_edge v))))"

definition oriented_raw_image_shift :: "oriented_edge_path \<Rightarrow> shift" where
  "oriented_raw_image_shift v =
     (if edge_orientation v = Forward then raw_image_shift (oriented_edge v)
      else negate_shift (raw_image_shift (oriented_edge v)))"

definition oriented_atomic_path :: "oriented_edge_path \<Rightarrow> nat list" where
  "oriented_atomic_path v =
     (if edge_orientation v = Forward then atomic_path_indices (oriented_edge v)
      else rev (atomic_path_indices (oriented_edge v)))"

definition oriented_atomic_shifts :: "oriented_edge_path \<Rightarrow> shift list" where
  "oriented_atomic_shifts v =
     (if edge_orientation v = Forward then atomic_edge_image_shifts (oriented_edge v)
      else map negate_shift (rev (atomic_edge_image_shifts (oriented_edge v))))"

definition oriented_linkers :: "oriented_edge_path \<Rightarrow> nat list" where
  "oriented_linkers v =
     (if edge_orientation v = Forward then internal_linker_indices (edge_key (oriented_edge v))
      else rev (internal_linker_indices (edge_key (oriented_edge v))))"

definition oriented_linker_numbers :: "oriented_edge_path \<Rightarrow> nat list" where
  "oriented_linker_numbers v =
     (if edge_orientation v = Forward then internal_linker_atomic_numbers (oriented_edge v)
      else rev (internal_linker_atomic_numbers (oriented_edge v)))"

fun cumulative_offsets :: "shift \<Rightarrow> shift list \<Rightarrow> shift list" where
  "cumulative_offsets current [] = []"
| "cumulative_offsets current (s # steps) =
     add_shift current s # cumulative_offsets (add_shift current s) steps"

definition oriented_linker_offsets :: "oriented_edge_path \<Rightarrow> shift list" where
  "oriented_linker_offsets v =
     (if edge_orientation v = Forward
      then internal_linker_image_offsets (edge_key (oriented_edge v))
      else butlast (cumulative_offsets zero_shift (oriented_atomic_shifts v)))"

section \<open>The canonical direction of a path\<close>

definition reverse_path :: "nat list \<Rightarrow> shift list \<Rightarrow> nat list \<times> shift list" where
  "reverse_path path steps = (rev path, map negate_shift (rev steps))"

definition path_offsets :: "shift list \<Rightarrow> shift list" where
  "path_offsets steps = zero_shift # cumulative_offsets zero_shift steps"

definition make_canonical_edge ::
  "nat \<Rightarrow> framework_path_rule \<Rightarrow> nat list \<Rightarrow> shift list \<Rightarrow> nat list \<Rightarrow> framework_edge_path result" where
  "make_canonical_edge nsym rule path steps numbers =
     (let offsets = path_offsets steps; raw = last offsets in
      bindE (make_edge_key (hd path) (last path) raw (butlast (tl path)) (butlast (tl offsets))
               (path_rule_id rule)) (\<lambda>key.
      make_edge_path nsym key path steps numbers raw (rule_edge_kind rule)))"

definition edge_record :: "framework_edge_path \<Rightarrow> shift \<times> nat list \<times> shift list \<times> shift list" where
  "edge_record edge =
     (image_shift (edge_key edge), internal_linker_indices (edge_key edge),
      internal_linker_image_offsets (edge_key edge), atomic_edge_image_shifts edge)"

definition canonical_path ::
  "nat \<Rightarrow> nat list \<Rightarrow> shift list \<Rightarrow> nat list \<Rightarrow> framework_path_rule \<Rightarrow> framework_edge_path result" where
  "canonical_path nsym path steps internal_numbers rule =
     (if path = [] then Inl IndexError
      else if hd path < last path then make_canonical_edge nsym rule path steps internal_numbers
      else
        let (reversed_path, reversed_steps) = reverse_path path steps;
            reversed_numbers = rev internal_numbers in
        if hd path > last path
        then make_canonical_edge nsym rule reversed_path reversed_steps reversed_numbers
        else
          bindE (make_canonical_edge nsym rule path steps internal_numbers) (\<lambda>forward.
          bindE (make_canonical_edge nsym rule reversed_path reversed_steps reversed_numbers)
            (\<lambda>backward.
              Inr (if edge_record forward \<le> edge_record backward then forward else backward))))"

section \<open>A path and its reversal have one canonical form\<close>

lemma reverse_path_reverse [simp]:
  "reverse_path (rev path) (map negate_shift (rev steps)) = (path, steps)"
  by (simp add: reverse_path_def rev_map comp_def)

lemma make_canonical_edge_fields:
  assumes "make_canonical_edge nsym rule path steps numbers = Inr edge"
  shows "atomic_path_indices edge = path" and "atomic_edge_image_shifts edge = steps"
    and "internal_linker_atomic_numbers edge = numbers"
    and "edge_kind edge = rule_edge_kind rule"
    and "raw_image_shift edge = sum_shifts steps"
    and "image_shift (edge_key edge) = raw_image_shift edge"
    and "vertex_i (edge_key edge) = hd path" and "vertex_j (edge_key edge) = last path"
    and "internal_linker_indices (edge_key edge) = butlast (tl path)"
    and "internal_linker_image_offsets (edge_key edge) = butlast (tl (path_offsets steps))"
    and "rule_id (edge_key edge) = path_rule_id rule"
    and "raw_image_shift edge = last (path_offsets steps)"
    and "length steps = length path - 1" and "2 \<le> length path"
  using assms
  by (auto simp: make_canonical_edge_def make_edge_path_def make_edge_key_Inr_iff Let_def
      result_simps split: if_splits)

lemma canonical_path_reverse:
  assumes canonical: "canonical_path nsym path steps numbers rule = Inr edge"
    and numbers: "numbers = map f (butlast (tl path))"
  shows "canonical_path nsym (rev path) (map negate_shift (rev steps)) (rev numbers) rule = Inr edge"
proof -
  let ?make = "make_canonical_edge nsym rule"
  let ?rsteps = "map negate_shift (rev steps)"
  have nonempty: "path \<noteq> []" using canonical by (auto simp: canonical_path_def)
  then have ends: "hd (rev path) = last path" "last (rev path) = hd path"
    by (simp_all add: hd_rev last_rev)
  consider "hd path < last path" | "last path < hd path" | "hd path = last path"
    by (rule linorder_cases)
  then show ?thesis
  proof cases
    case 3
    with canonical nonempty obtain forward backward where
      f: "?make path steps numbers = Inr forward" and
      b: "?make (rev path) ?rsteps (rev numbers) = Inr backward" and
      edge: "edge = (if edge_record forward \<le> edge_record backward then forward else backward)"
      by (auto simp: canonical_path_def reverse_path_def result_simps)
    have "forward = backward" if eq: "edge_record forward = edge_record backward"
    proof -
      have "2 \<le> length path" by (rule make_canonical_edge_fields(14)[OF f])
      with 3 obtain a mid where path: "path = a # mid @ [a]"
        by (cases path; cases "tl path" rule: rev_cases) auto
      have palindrome: "mid = rev mid" "steps = ?rsteps"
        using eq make_canonical_edge_fields(2,9)[OF f] make_canonical_edge_fields(2,9)[OF b]
        by (simp_all add: edge_record_def path butlast_append)
      have "map f mid = rev (map f mid)"
        using palindrome(1) by (metis rev_map)
      then have "rev numbers = numbers" "rev path = path"
        using palindrome(1) unfolding numbers path by (simp_all add: butlast_append)
      with b palindrome(2) have "?make path steps numbers = Inr backward" by simp
      with f show ?thesis by simp
    qed
    with 3 ends nonempty f b edge show ?thesis
      by (auto simp: canonical_path_def reverse_path_def rev_map comp_def)
  qed (use canonical nonempty ends in
      \<open>auto simp: canonical_path_def reverse_path_def rev_map comp_def\<close>)
qed

section \<open>Oriented views are consistent walks\<close>

lemma cumulative_offsets_append:
  "cumulative_offsets c (xs @ ys) = cumulative_offsets c xs @ cumulative_offsets (foldl add_shift c xs) ys"
  by (induction xs arbitrary: c) simp_all

lemma last_cumulative_offsets: "last (c # cumulative_offsets c steps) = foldl add_shift c steps"
  by (induction steps arbitrary: c) auto

lemma last_path_offsets: "last (path_offsets steps) = sum_shifts steps"
  by (simp only: path_offsets_def sum_shifts_def last_cumulative_offsets)

lemma length_cumulative_offsets [simp]: "length (cumulative_offsets c steps) = length steps"
  by (induction steps arbitrary: c) simp_all

lemma foldl_add_shift: "foldl add_shift (add_shift c d) steps = add_shift c (foldl add_shift d steps)"
  by (induction steps arbitrary: d) (simp_all add: add_shift_assoc)

lemma foldl_add_shift_zero: "foldl add_shift c steps = add_shift c (sum_shifts steps)"
  using foldl_add_shift[of c zero_shift] by (simp add: sum_shifts_def)

lemma sum_shifts_simps [simp]:
  "sum_shifts [] = zero_shift"
  "sum_shifts (s # steps) = add_shift s (sum_shifts steps)"
  using foldl_add_shift_zero[of s steps] by (simp_all add: sum_shifts_def)

lemma sum_shifts_append [simp]: "sum_shifts (xs @ ys) = add_shift (sum_shifts xs) (sum_shifts ys)"
  by (induction xs) (simp_all add: add_shift_assoc)

lemma negate_add_shift: "negate_shift (add_shift a b) = add_shift (negate_shift a) (negate_shift b)"
  by (cases a; cases b) simp

lemma sum_shifts_reverse: "sum_shifts (map negate_shift (rev steps)) = negate_shift (sum_shifts steps)"
  by (induction steps) (simp_all add: negate_add_shift add_shift_commute)

lemma cumulative_offsets_translate:
  "cumulative_offsets (add_shift c t) steps = map (\<lambda>o'. add_shift o' t) (cumulative_offsets c steps)"
proof (induction steps arbitrary: c)
  case (Cons s steps)
  have "add_shift (add_shift c t) s = add_shift (add_shift c s) t"
    by (simp add: add_shift_assoc add_shift_commute[of t s])
  with Cons show ?case by simp
qed simp

lemma offsets_reverse:
  "foldl add_shift c steps # cumulative_offsets (foldl add_shift c steps) (map negate_shift (rev steps))
   = rev (c # cumulative_offsets c steps)"
proof (induction steps arbitrary: c)
  case (Cons s steps)
  let ?C = "foldl add_shift (add_shift c s) steps"
  have "foldl add_shift ?C (map negate_shift (rev steps)) = add_shift c s"
    using arg_cong[OF Cons[of "add_shift c s"], of last] by (simp add: last_rev flip: last_cumulative_offsets)
  moreover have "add_shift (add_shift c s) (negate_shift s) = c"
    by (simp add: add_shift_assoc)
  ultimately show ?case
    using Cons[of "add_shift c s"] by (simp add: cumulative_offsets_append)
qed simp

lemma backward_linker_offsets:
  assumes offsets: "internal_linker_image_offsets (edge_key edge) =
      butlast (tl (path_offsets (atomic_edge_image_shifts edge)))"
    and raw: "raw_image_shift edge = sum_shifts (atomic_edge_image_shifts edge)"
  shows "oriented_linker_offsets (oriented edge Backward) =
    map (\<lambda>o'. subtract_shift o' (raw_image_shift edge))
      (rev (internal_linker_image_offsets (edge_key edge)))"
proof -
  let ?steps = "atomic_edge_image_shifts edge" and ?R = "sum_shifts (atomic_edge_image_shifts edge)"
  let ?rsteps = "map negate_shift (rev ?steps)"
  have R: "foldl add_shift zero_shift ?steps = ?R" by (simp add: sum_shifts_def)
  have "?R # cumulative_offsets ?R ?rsteps = rev (zero_shift # cumulative_offsets zero_shift ?steps)"
    using offsets_reverse[of zero_shift ?steps] unfolding R .
  then have split: "cumulative_offsets ?R ?rsteps = tl (rev (cumulative_offsets zero_shift ?steps) @ [zero_shift])"
    by (metis list.sel(3) rev.simps(2))
  have "cumulative_offsets zero_shift ?rsteps =
      map (\<lambda>o'. subtract_shift o' ?R) (cumulative_offsets ?R ?rsteps)"
    using cumulative_offsets_translate[of zero_shift ?R ?rsteps] by (simp add: comp_def)
  then show ?thesis
    unfolding oriented_linker_offsets_def oriented_atomic_shifts_def oriented_def offsets raw path_offsets_def
    using split
    by (cases "cumulative_offsets zero_shift ?steps" rule: rev_cases) (simp_all add: map_butlast[symmetric] butlast_rev)
qed

lemma oriented_raw_sum:
  assumes "raw_image_shift edge = sum_shifts (atomic_edge_image_shifts edge)"
  shows "sum_shifts (oriented_atomic_shifts (oriented edge d)) = oriented_raw_image_shift (oriented edge d)"
  using assms
  by (cases d)
    (simp_all add: oriented_atomic_shifts_def oriented_raw_image_shift_def oriented_def sum_shifts_reverse)

section \<open>Properties\<close>

text \<open>A path and its reversal have one canonical edge: traversing a framework path from its
  other end, with the shifts negated, yields the same edge record.\<close>
theorem canonical_path_undirected:
  assumes "canonical_path nsym path steps (map f (butlast (tl path))) rule = Inr edge"
  shows "canonical_path nsym (rev path) (map negate_shift (rev steps))
    (rev (map f (butlast (tl path)))) rule = Inr edge"
  by (rule canonical_path_reverse[OF assms refl])

definition example_edge :: framework_edge_path where
  "example_edge = \<lparr>edge_key = FrameworkEdgeKey 0 2 (0, 0, 1) [1] [(0, 0, 0)] ''oxo'',
     atomic_path_indices = [0, 1, 2], atomic_edge_image_shifts = [(0, 0, 0), (0, 0, 1)],
     internal_linker_atomic_numbers = [8], raw_image_shift = (0, 0, 1), edge_kind = ''bridge''\<rparr>"

lemma example_edge_canonical:
  "canonical_path 119 [0, 1, 2] [(0, 0, 0), (0, 0, 1)] (map (\<lambda>_. 8) (butlast (tl [0, 1, 2 :: nat])))
     example_rule = Inr example_edge"
  by code_simp

theorem canonical_path_undirected_witness:
  "canonical_path 119 (rev [0, 1, 2]) (map negate_shift (rev [(0, 0, 0), (0, 0, 1)]))
     (rev (map (\<lambda>_. 8) (butlast (tl [0, 1, 2 :: nat])))) example_rule = Inr example_edge"
  by (rule canonical_path_undirected[OF example_edge_canonical])

end
