(* ===== verification/Label_Search.thy ===== *)
theory Label_Search
  imports Prelude
begin

text \<open>
  The breadth-first labelling loop that four functions of the code share: the atomic gauge of
  \<open>_oriented_adjacency\<close>, the vertex gauge of \<open>_normalize_framework_gauge\<close>, the component labels of
  \<open>_component_data\<close> (\<open>framework_topology.py\<close>) and \<open>_framework_vertex_raw_gauge\<close>
  (\<open>primitive_ring.py\<close>).  Each pops a vertex from a queue, looks its neighbours up in an adjacency
  dictionary, labels the new ones from the popped vertex's label and appends them to the queue; an
  already labelled neighbour is skipped or, in the last function, checked.

  \<open>ext\<close> computes a neighbour's label from the current label and the edge's label; \<open>clash\<close> is
  what an already labelled neighbour raises, if anything.  The locale below states what the
  search promises of an adjacency whose edges can be walked back.
\<close>

section \<open>The search\<close>

fun visit_neighbours ::
  "('a \<Rightarrow> 'l \<Rightarrow> 'a) \<Rightarrow> ('a \<Rightarrow> 'a \<Rightarrow> exc option) \<Rightarrow> 'a \<Rightarrow> ('v \<times> 'l) list \<Rightarrow> ('v \<rightharpoonup> 'a)
   \<Rightarrow> exc + ('v \<rightharpoonup> 'a) \<times> 'v list" where
  "visit_neighbours ext clash current [] labels = Inr (labels, [])"
| "visit_neighbours ext clash current ((neighbor, l) # rest) labels =
     (let expected = ext current l in
      case labels neighbor of
        None \<Rightarrow>
          bindE (visit_neighbours ext clash current rest (labels(neighbor \<mapsto> expected)))
            (\<lambda>(labels', added). Inr (labels', neighbor # added))
      | Some previous \<Rightarrow>
          (case clash previous expected of
             Some e \<Rightarrow> Inl e
           | None \<Rightarrow> visit_neighbours ext clash current rest labels))"

definition adjacent_vertices :: "('v \<times> ('v \<times> 'l) list) list \<Rightarrow> 'v set" where
  "adjacent_vertices adj = (\<Union>(_, ns) \<in> set adj. fst ` set ns)"

lemma finite_adjacent_vertices [simp]: "finite (adjacent_vertices adj)"
  by (auto simp: adjacent_vertices_def)

lemma visit_neighbours_Inr:
  "visit_neighbours ext clash current ns labels = Inr (labels', added) \<Longrightarrow>
     dom labels' = dom labels \<union> set added \<and> set added \<subseteq> fst ` set ns - dom labels
     \<and> distinct added \<and> labels \<subseteq>\<^sub>m labels' \<and> fst ` set ns \<subseteq> dom labels'"
proof (induction ns arbitrary: labels added)
  case (Cons p rest)
  obtain n l where p: "p = (n, l)" by (cases p)
  show ?case
  proof (cases "labels n")
    case None
    with Cons.prems obtain rest_added where
      step: "visit_neighbours ext clash current rest (labels(n \<mapsto> ext current l)) = Inr (labels', rest_added)"
      and added: "added = n # rest_added"
      by (auto simp: p Let_def bindE_Inr_iff)
    have "labels \<subseteq>\<^sub>m labels(n \<mapsto> ext current l)" using None by (auto simp: map_le_def)
    moreover have "labels(n \<mapsto> ext current l) \<subseteq>\<^sub>m labels'"
      "dom labels' = insert n (dom labels) \<union> set rest_added"
      "set rest_added \<subseteq> fst ` set rest - insert n (dom labels)" "distinct rest_added"
      using Cons.IH[OF step] by (auto simp del: fun_upd_apply)
    moreover have "fst ` set rest \<subseteq> dom labels'"
      using Cons.IH[OF step] by blast
    moreover have "n \<notin> dom labels" using None by auto
    ultimately show ?thesis
      by (auto simp: p added intro: map_le_trans simp del: fun_upd_apply)
  next
    case (Some previous)
    with Cons.prems have "visit_neighbours ext clash current rest labels = Inr (labels', added)"
      by (auto simp: p Let_def split: option.splits)
    note IH = Cons.IH[OF this]
    from Some have "n \<in> dom labels" by auto
    with IH have "fst ` set (p # rest) \<subseteq> dom labels'" by (simp add: p) blast
    with IH show ?thesis unfolding p by auto
  qed
qed simp

lemma visit_neighbours_decrease:
  assumes "visit_neighbours ext clash current ns labels = Inr (labels', added)"
    and "fst ` set ns \<subseteq> U" and "finite U"
  shows "card (U - dom labels') + length added = card (U - dom labels)"
proof -
  note facts = visit_neighbours_Inr[OF assms(1)]
  have "U - dom labels = (U - dom labels') \<union> set added" "(U - dom labels') \<inter> set added = {}"
    using facts assms(2) by auto
  then show ?thesis
    using facts assms(3) by (simp add: card_Un_disjoint distinct_card)
qed

lemma map_of_adjacent: "map_of adj v = Some ns \<Longrightarrow> fst ` set ns \<subseteq> adjacent_vertices adj"
  by (auto simp: adjacent_vertices_def dest!: map_of_SomeD)

function label_bfs ::
  "('a \<Rightarrow> 'l \<Rightarrow> 'a) \<Rightarrow> ('a \<Rightarrow> 'a \<Rightarrow> exc option) \<Rightarrow> ('v \<times> ('v \<times> 'l) list) list
   \<Rightarrow> 'v list \<Rightarrow> ('v \<rightharpoonup> 'a) \<Rightarrow> exc + ('v \<rightharpoonup> 'a)" where
  "label_bfs ext clash adj [] labels = Inr labels"
| "label_bfs ext clash adj (current # queue) labels =
     (case labels current of
        None \<Rightarrow> Inl (KeyError (Text ''''))
      | Some label \<Rightarrow>
          bindE (lookupE adj current) (\<lambda>ns.
          bindE (visit_neighbours ext clash label ns labels) (\<lambda>(labels', added).
          label_bfs ext clash adj (queue @ added) labels')))"
  by pat_completeness auto
termination
proof (relation "measure (\<lambda>(ext, clash, adj, queue, labels).
    card (adjacent_vertices adj - dom labels) + length queue)"; clarsimp simp: lookupE_Inr_iff)
  fix ext :: "'a \<Rightarrow> 'l \<Rightarrow> 'a" and clash and adj :: "('v \<times> ('v \<times> 'l) list) list"
    and current queue labels label ns labels' added
  assume "map_of adj current = Some ns"
    and visit: "visit_neighbours ext clash label ns labels = Inr (labels', added)"
  then have "fst ` set ns \<subseteq> adjacent_vertices adj" by (simp add: map_of_adjacent)
  from visit_neighbours_decrease[OF visit this]
  show "card (adjacent_vertices adj - dom labels') + length added
      < Suc (card (adjacent_vertices adj - dom labels))" by simp
qed

definition label_search ::
  "('a \<Rightarrow> 'l \<Rightarrow> 'a) \<Rightarrow> ('a \<Rightarrow> 'a \<Rightarrow> exc option) \<Rightarrow> 'a \<Rightarrow> ('v \<times> ('v \<times> 'l) list) list
   \<Rightarrow> 'v list \<Rightarrow> exc + ('v \<rightharpoonup> 'a)" where
  "label_search ext clash root_label adj roots =
     foldE (\<lambda>root labels.
        if root \<in> dom labels then Inr labels
        else label_bfs ext clash adj [root] (labels(root \<mapsto> root_label))) roots Map.empty"

section \<open>Adjacency dictionaries\<close>

text \<open>
  \<open>adj[i].append((j, d)); adj[j].append((i, -d))\<close> for every edge \<open>(i, j, d)\<close> in order, over a
  dictionary with one empty list per vertex.
\<close>

definition neighbours_of :: "('l \<Rightarrow> 'l) \<Rightarrow> ('v \<times> 'v \<times> 'l) list \<Rightarrow> 'v \<Rightarrow> ('v \<times> 'l) list" where
  "neighbours_of opp edges v =
     concat (map (\<lambda>(i, j, d). (if i = v then [(j, d)] else []) @ (if j = v then [(i, opp d)] else []))
       edges)"

definition directed_adjacency ::
  "('l \<Rightarrow> 'l) \<Rightarrow> 'v list \<Rightarrow> ('v \<times> 'v \<times> 'l) list \<Rightarrow> ('v \<times> ('v \<times> 'l) list) list" where
  "directed_adjacency opp vertices edges = map (\<lambda>v. (v, neighbours_of opp edges v)) vertices"

definition sort_adjacency ::
  "('v \<times> ('v :: linorder \<times> 'l :: linorder) list) list \<Rightarrow> ('v \<times> ('v \<times> 'l) list) list" where
  "sort_adjacency adj = map (\<lambda>(v, ns). (v, sort ns)) adj"

lemma in_neighbours_of:
  "(w, l) \<in> set (neighbours_of opp edges v) \<longleftrightarrow>
     (\<exists>(i, j, d) \<in> set edges. i = v \<and> w = j \<and> l = d \<or> j = v \<and> w = i \<and> l = opp d)"
  by (fastforce simp: neighbours_of_def)

lemma map_of_directed_adjacency:
  "map_of (directed_adjacency opp vertices edges) v =
     (if v \<in> set vertices then Some (neighbours_of opp edges v) else None)"
  by (induction vertices) (auto simp: directed_adjacency_def)

lemma map_of_sort_adjacency: "map_of (sort_adjacency adj) v = map_option sort (map_of adj v)"
  by (induction adj) (auto simp: sort_adjacency_def)

section \<open>What the search promises\<close>

text \<open>
  \<open>follows I\<close> says that a relation between root, vertex and label is kept along every edge.
  \<open>settled L0 L v\<close> says that a vertex outside the already finished part \<open>L0\<close> has been expanded:
  its neighbours are labelled, lie outside \<open>L0\<close>, and agree with its own label as far as the
  clash test sees.
\<close>

definition follows ::
  "('a \<Rightarrow> 'l \<Rightarrow> 'a) \<Rightarrow> ('v \<times> ('v \<times> 'l) list) list \<Rightarrow> ('v \<Rightarrow> 'v \<Rightarrow> 'a \<Rightarrow> bool) \<Rightarrow> bool" where
  "follows ext adj I \<longleftrightarrow>
     (\<forall>r v a ns w l. I r v a \<longrightarrow> map_of adj v = Some ns \<longrightarrow> (w, l) \<in> set ns \<longrightarrow> I r w (ext a l))"

definition settled ::
  "('a \<Rightarrow> 'l \<Rightarrow> 'a) \<Rightarrow> ('a \<Rightarrow> 'a \<Rightarrow> exc option) \<Rightarrow> ('v \<times> ('v \<times> 'l) list) list \<Rightarrow> 'v set \<Rightarrow> ('v \<rightharpoonup> 'a)
   \<Rightarrow> 'v \<Rightarrow> bool" where
  "settled ext clash adj L0 L v \<longleftrightarrow>
     (\<exists>a ns. L v = Some a \<and> map_of adj v = Some ns \<and>
        (\<forall>(w, l) \<in> set ns. w \<notin> L0 \<and>
           (\<exists>b. L w = Some b \<and> (b = ext a l \<or> clash b (ext a l) = None))))"

lemma settled_mono: "settled ext clash adj L0 L v \<Longrightarrow> L \<subseteq>\<^sub>m L' \<Longrightarrow> settled ext clash adj L0 L' v"
  unfolding settled_def map_le_def by (fastforce simp: dom_def)

lemma visit_neighbours_labels:
  assumes "visit_neighbours ext clash a ns L = Inr (L', added)" and "(w, l) \<in> set ns"
  shows "\<exists>b. L' w = Some b \<and> (b = ext a l \<or> clash b (ext a l) = None)"
  using assms
proof (induction ns arbitrary: L added)
  case (Cons p rest)
  obtain n k where p: "p = (n, k)" by (cases p)
  show ?case
  proof (cases "L n")
    case None
    with Cons.prems(1) obtain added' where
      step: "visit_neighbours ext clash a rest (L(n \<mapsto> ext a k)) = Inr (L', added')"
      by (auto simp: p Let_def bindE_Inr_iff)
    have "L' n = Some (ext a k)"
      using visit_neighbours_Inr[OF step] by (auto simp: map_le_def)
    with Cons.IH[OF step] Cons.prems(2) show ?thesis by (auto simp: p)
  next
    case (Some previous)
    with Cons.prems(1) have step: "visit_neighbours ext clash a rest L = Inr (L', added)"
      and "clash previous (ext a k) = None"
      by (auto simp: p Let_def split: option.splits)
    moreover have "L' n = Some previous"
      using visit_neighbours_Inr[OF step] Some by (force simp: map_le_def)
    ultimately show ?thesis using Cons.IH[OF step] Cons.prems(2) by (auto simp: p)
  qed
qed simp

lemma visit_neighbours_new:
  assumes "visit_neighbours ext clash a ns L = Inr (L', added)" and "w \<notin> dom L" and "L' w = Some b"
  shows "\<exists>l. (w, l) \<in> set ns \<and> b = ext a l"
  using assms
proof (induction ns arbitrary: L added)
  case (Cons p rest)
  obtain n k where p: "p = (n, k)" by (cases p)
  show ?case
  proof (cases "L n")
    case None
    with Cons.prems(1) obtain added' where
      step: "visit_neighbours ext clash a rest (L(n \<mapsto> ext a k)) = Inr (L', added')"
      by (auto simp: p Let_def bindE_Inr_iff)
    have "L' n = Some (ext a k)"
      using visit_neighbours_Inr[OF step] by (auto simp: map_le_def)
    show ?thesis
    proof (cases "w = n")
      case False
      with Cons.prems(2) have "w \<notin> dom (L(n \<mapsto> ext a k))" by simp
      from Cons.IH[OF step this Cons.prems(3)] show ?thesis by (auto simp: p)
    qed (use \<open>L' n = Some (ext a k)\<close> Cons.prems(3) in \<open>auto simp: p\<close>)
  next
    case (Some previous)
    with Cons.prems(1) have "visit_neighbours ext clash a rest L = Inr (L', added)"
      by (auto simp: p Let_def split: option.splits)
    from Cons.IH[OF this] Cons.prems(2,3) show ?thesis by (auto simp: p)
  qed
qed auto

locale walk_back_graph =
  fixes adj :: "('v \<times> ('v \<times> 'l) list) list"
  assumes walk_back: "map_of adj v = Some ns \<Longrightarrow> (w, l) \<in> set ns \<Longrightarrow> map_of adj w = Some ms \<Longrightarrow>
    v \<in> fst ` set ms"

definition finished :: "('v \<times> ('v \<times> 'l) list) list \<Rightarrow> 'v set \<Rightarrow> bool" where
  "finished adj L0 \<longleftrightarrow> (\<forall>v \<in> L0. \<exists>ns. map_of adj v = Some ns \<and> fst ` set ns \<subseteq> L0)"

lemma label_bfs_result:
  assumes "label_bfs ext clash adj queue L = Inr L'" and "walk_back_graph adj"
    and "L0 \<subseteq> dom L" and "finished adj L0"
    and "set queue \<subseteq> dom L - L0"
    and "\<forall>v \<in> dom L - L0 - set queue. settled ext clash adj L0 L v"
    and "follows ext adj I" and "\<forall>v \<in> dom L - L0. I r v (the (L v))"
  shows "L \<subseteq>\<^sub>m L' \<and> (\<forall>v \<in> dom L' - L0. settled ext clash adj L0 L' v \<and> I r v (the (L' v)))"
  using assms
proof (induction ext clash adj queue L rule: label_bfs.induct)
  case (2 ext clash adj current queue L)
  obtain a where a: "L current = Some a"
    using "2.prems"(5) by auto
  obtain ns L1 added where ns: "map_of adj current = Some ns"
    and visit: "visit_neighbours ext clash a ns L = Inr (L1, added)"
    and rest: "label_bfs ext clash adj (queue @ added) L1 = Inr L'"
    using "2.prems"(1) a by (auto simp: bindE_Inr_iff lookupE_Inr_iff)
  note facts = visit_neighbours_Inr[OF visit]
  have mono: "L \<subseteq>\<^sub>m L1" using facts by simp
  have a1: "L1 current = Some a" using mono a by (force simp: map_le_def)
  have outside: "w \<notin> L0" if "(w, l) \<in> set ns" for w l
  proof
    assume "w \<in> L0"
    then obtain ms where "map_of adj w = Some ms" "fst ` set ms \<subseteq> L0"
      using "2.prems"(4) by (auto simp: finished_def)
    with walk_back_graph.walk_back[OF "2.prems"(2) ns that] have "current \<in> L0" by blast
    with "2.prems"(5) show False by auto
  qed
  have current: "settled ext clash adj L0 L1 current"
    unfolding settled_def
    by (intro exI[of _ a] exI[of _ ns] conjI a1 ns)
       (use outside visit_neighbours_labels[OF visit] in auto)
  have settled: "\<forall>v \<in> dom L1 - L0 - set (queue @ added). settled ext clash adj L0 L1 v"
  proof
    fix v assume v: "v \<in> dom L1 - L0 - set (queue @ added)"
    show "settled ext clash adj L0 L1 v"
    proof (cases "v = current")
      case False
      with v facts have "v \<in> dom L - L0 - set (current # queue)" by auto
      with "2.prems"(6) mono show ?thesis by (blast intro: settled_mono)
    qed (use current in simp)
  qed
  have labels: "\<forall>v \<in> dom L1 - L0. I r v (the (L1 v))"
  proof
    fix v assume v: "v \<in> dom L1 - L0"
    show "I r v (the (L1 v))"
    proof (cases "v \<in> dom L")
      case True
      with v "2.prems"(8) have "I r v (the (L v))" by blast
      with True mono show ?thesis by (simp add: map_le_def)
    next
      case False
      then obtain b where b: "L1 v = Some b" using v by auto
      obtain l where "(v, l) \<in> set ns" "b = ext a l"
        using visit_neighbours_new[OF visit False b] by blast
      moreover have "I r current a" using "2.prems"(5,8) a by force
      ultimately show ?thesis using "2.prems"(7) ns b by (auto simp: follows_def)
    qed
  qed
  have "L1 \<subseteq>\<^sub>m L' \<and> (\<forall>v \<in> dom L' - L0. settled ext clash adj L0 L' v \<and> I r v (the (L' v)))"
  proof (rule "2.IH"[OF a ns[folded lookupE_Inr_iff] visit refl rest "2.prems"(2)])
    have dom: "dom L1 = dom L \<union> set added" and "set added \<inter> dom L = {}"
      using facts by auto
    show "L0 \<subseteq> dom L1" unfolding dom using "2.prems"(3) by (rule le_supI1)
    have "set added \<inter> L0 = {}" "set queue \<subseteq> dom L - L0" "dom L1 = dom L \<union> set added"
      using \<open>set added \<inter> dom L = {}\<close> "2.prems"(3,5) dom by (auto simp: dom_def)
    then show "set (queue @ added) \<subseteq> dom L1 - L0" by (simp only: set_append) blast
    show "finished adj L0" "follows ext adj I" using "2.prems"(4,7) by blast+
  qed (rule settled labels)+
  with mono show ?case by (blast intro: map_le_trans)
qed auto

text \<open>
  One search from every root in turn.  \<open>origin\<close> names the root whose search labelled a vertex.
\<close>

definition search_result ::
  "('a \<Rightarrow> 'l \<Rightarrow> 'a) \<Rightarrow> ('a \<Rightarrow> 'a \<Rightarrow> exc option) \<Rightarrow> ('v \<times> ('v \<times> 'l) list) list
   \<Rightarrow> ('v \<Rightarrow> 'v \<Rightarrow> 'a \<Rightarrow> bool) \<Rightarrow> ('v \<Rightarrow> 'v) \<Rightarrow> ('v \<rightharpoonup> 'a) \<Rightarrow> bool" where
  "search_result ext clash adj I origin L \<longleftrightarrow>
     (\<forall>v a. L v = Some a \<longrightarrow> I (origin v) v a \<and>
        (\<exists>ns. map_of adj v = Some ns \<and> (\<forall>(w, l) \<in> set ns. origin w = origin v \<and>
           (\<exists>b. L w = Some b \<and> (b = ext a l \<or> clash b (ext a l) = None)))))"

lemma search_result_label: "search_result ext clash adj I origin L \<Longrightarrow> L v = Some a \<Longrightarrow> I (origin v) v a"
  unfolding search_result_def by blast

lemma search_result_edge:
  assumes "search_result ext clash adj I origin L" and "L v = Some a"
    and "map_of adj v = Some ns" and "(w, l) \<in> set ns"
  shows "origin w = origin v"
    and "\<exists>b. L w = Some b \<and> (b = ext a l \<or> clash b (ext a l) = None)"
proof -
  obtain ns' where ns': "map_of adj v = Some ns'" and all: "\<forall>(w, l) \<in> set ns'. origin w = origin v \<and>
      (\<exists>b. L w = Some b \<and> (b = ext a l \<or> clash b (ext a l) = None))"
    using assms(1,2) unfolding search_result_def by blast
  have "(w, l) \<in> set ns'" using assms(3,4) ns' by simp
  with all show "origin w = origin v"
    and "\<exists>b. L w = Some b \<and> (b = ext a l \<or> clash b (ext a l) = None)" by blast+
qed

context walk_back_graph begin

lemma search_result_finished: "search_result ext clash adj I origin L \<Longrightarrow> finished adj (dom L)"
  unfolding search_result_def finished_def by fastforce

lemma label_bfs_extends:
  assumes before: "search_result ext clash adj I origin L" and fresh: "root \<notin> dom L"
    and bfs: "label_bfs ext clash adj [root] (L(root \<mapsto> root_label)) = Inr L'"
    and I: "follows ext adj I" "I root root root_label"
  shows "search_result ext clash adj I (\<lambda>v. if v \<in> dom L then origin v else root) L' \<and>
    insert root (dom L) \<subseteq> dom L' \<and> (\<forall>v \<in> dom L. L' v = L v)"
proof -
  let ?origin = "\<lambda>v. if v \<in> dom L then origin v else root"
  have dom: "dom (L(root \<mapsto> root_label)) - dom L = {root}" using fresh by auto
  have result: "L(root \<mapsto> root_label) \<subseteq>\<^sub>m L' \<and>
      (\<forall>v \<in> dom L' - dom L. settled ext clash adj (dom L) L' v \<and> I root v (the (L' v)))"
    by (rule label_bfs_result[OF bfs walk_back_graph_axioms _ search_result_finished[OF before]])
       (use dom I in auto)
  then have same: "L' v = L v" if "v \<in> dom L" for v
    using that fresh by (auto simp: map_le_def split: if_splits)
  have "search_result ext clash adj I ?origin L'"
    unfolding search_result_def
  proof (intro allI impI)
    fix v a assume a: "L' v = Some a"
    show "I (?origin v) v a \<and> (\<exists>ns. map_of adj v = Some ns \<and> (\<forall>(w, l) \<in> set ns.
        ?origin w = ?origin v \<and> (\<exists>b. L' w = Some b \<and> (b = ext a l \<or> clash b (ext a l) = None))))"
    proof (cases "v \<in> dom L")
      case True
      with a same have "L v = Some a" by simp
      with before obtain ns where "I (origin v) v a" "map_of adj v = Some ns"
        and ns: "\<forall>(w, l) \<in> set ns. origin w = origin v \<and>
          (\<exists>b. L w = Some b \<and> (b = ext a l \<or> clash b (ext a l) = None))"
        unfolding search_result_def by blast
      moreover have "w \<in> dom L \<and> L' w = L w" if "(w, l) \<in> set ns" for w l
        using ns that same by fastforce
      ultimately show ?thesis using True by fastforce
    next
      case False
      with a result have "settled ext clash adj (dom L) L' v" "I root v a" by force+
      with False a show ?thesis by (fastforce simp: settled_def)
    qed
  qed
  moreover have "insert root (dom L) \<subseteq> dom L'"
    using map_le_implies_dom_le[OF conjunct1[OF result]] by simp
  ultimately show ?thesis using same by blast
qed

lemma label_search_result:
  assumes "label_search ext clash root_label adj roots = Inr L"
    and "follows ext adj I" and "\<forall>r \<in> set roots. I r r root_label"
  shows "\<exists>origin. search_result ext clash adj I origin L \<and> set roots \<subseteq> dom L"
proof -
  let ?step = "\<lambda>root labels. if root \<in> dom labels then Inr labels
        else label_bfs ext clash adj [root] (labels(root \<mapsto> root_label))"
  have "\<exists>origin'. search_result ext clash adj I origin' L \<and> set roots \<union> dom L0 \<subseteq> dom L"
    if "foldE ?step roots L0 = Inr L" "search_result ext clash adj I origin L0" for L0 origin
    using that assms(3)
  proof (induction roots arbitrary: L0 origin)
    case (Cons root roots)
    then obtain L1 where step: "?step root L0 = Inr L1" and rest: "foldE ?step roots L1 = Inr L"
      by (auto simp: bindE_Inr_iff)
    have "\<exists>origin'. search_result ext clash adj I origin' L1 \<and> insert root (dom L0) \<subseteq> dom L1"
    proof (cases "root \<in> dom L0")
      case True
      with step Cons.prems(2) show ?thesis by auto
    next
      case False
      have "label_bfs ext clash adj [root] (L0(root \<mapsto> root_label)) = Inr L1"
        "I root root root_label" using step False Cons.prems(3) by auto
      from label_bfs_extends[OF Cons.prems(2) False this(1) assms(2) this(2)]
      show ?thesis by blast
    qed
    then obtain origin1 where 1: "search_result ext clash adj I origin1 L1"
      "insert root (dom L0) \<subseteq> dom L1" by blast
    from Cons.prems(3) have "\<forall>r \<in> set roots. I r r root_label" by simp
    from Cons.IH[OF rest 1(1) this] obtain origin2
      where 2: "search_result ext clash adj I origin2 L" "set roots \<union> dom L1 \<subseteq> dom L" by blast
    from 1(2) have 3: "root \<in> dom L1" "dom L0 \<subseteq> dom L1" by (simp_all only: insert_subset)
    from 2(2) have 4: "dom L1 \<subseteq> dom L" "set roots \<subseteq> dom L" by (simp_all only: le_sup_iff)
    have "root \<in> dom L" by (rule subsetD[OF 4(1) 3(1)])
    moreover have "dom L0 \<subseteq> dom L" by (rule order_trans[OF 3(2) 4(1)])
    ultimately have "set (root # roots) \<union> dom L0 \<subseteq> dom L"
      using 4(2) by (simp only: list.set Un_insert_left insert_subset le_sup_iff simp_thms)
    with 2(1) show ?case by blast
  qed auto
  from this[of Map.empty undefined] assms(1) show ?thesis
    unfolding label_search_def by (simp add: search_result_def)
qed

lemma label_bfs_succeeds:
  assumes "finished adj L0" and "\<And>v ns. map_of adj v = Some ns \<Longrightarrow> fst ` set ns \<subseteq> dom (map_of adj)"
    and "follows ext adj I" and "\<And>v a b. I r v a \<Longrightarrow> I r v b \<Longrightarrow> clash a b = None"
    and "set queue \<subseteq> dom L - L0" and "dom L \<subseteq> dom (map_of adj)"
    and "\<forall>v \<in> dom L - L0. I r v (the (L v))"
  shows "\<exists>L'. label_bfs ext clash adj queue L = Inr L' \<and> dom L' \<subseteq> dom (map_of adj)"
  using assms(5-)
proof (induction "card (adjacent_vertices adj - dom L) + length queue" arbitrary: queue L rule: less_induct)
  case less
  show ?case
  proof (cases queue)
    case Nil
    with less.prems show ?thesis by simp
  next
    case (Cons current rest)
    with less.prems(1) obtain a where a: "L current = Some a" and "current \<notin> L0" by auto
    with less.prems(2) obtain ns where ns: "map_of adj current = Some ns" by auto
    have Ia: "I r current a" using less.prems(3) a \<open>current \<notin> L0\<close> by force
    have outside: "fst ` set ns \<inter> L0 = {}"
    proof (rule ccontr)
      assume "fst ` set ns \<inter> L0 \<noteq> {}"
      then obtain w l where "(w, l) \<in> set ns" "w \<in> L0" by auto
      moreover from \<open>w \<in> L0\<close> obtain ms where "map_of adj w = Some ms" "fst ` set ms \<subseteq> L0"
        using assms(1) by (auto simp: finished_def)
      ultimately have "current \<in> L0" using walk_back[OF ns] by (meson subsetD)
      with \<open>current \<notin> L0\<close> show False ..
    qed
    have visit: "\<exists>L1 added. visit_neighbours ext clash a ms L = Inr (L1, added)"
      if "set ms \<subseteq> set ns" "\<forall>v \<in> dom L - L0. I r v (the (L v))" for ms L
      using that
    proof (induction ms arbitrary: L)
      case (Cons p ms)
      obtain n l where p: "p = (n, l)" by (cases p)
      have In: "I r n (ext a l)"
        using assms(3) Ia ns Cons.prems(1) by (auto simp: p follows_def)
      have n: "n \<notin> L0" using outside Cons.prems(1) by (force simp: p)
      show ?case
      proof (cases "L n")
        case None
        have "\<forall>v \<in> dom (L(n \<mapsto> ext a l)) - L0. I r v (the ((L(n \<mapsto> ext a l)) v))"
          using Cons.prems(2) In by auto
        moreover have "set ms \<subseteq> set ns" using Cons.prems(1) by simp
        ultimately obtain L1 added
          where "visit_neighbours ext clash a ms (L(n \<mapsto> ext a l)) = Inr (L1, added)"
          using Cons.IH by blast
        then show ?thesis by (simp add: p None)
      next
        case (Some b)
        then have "I r n b" using Cons.prems(2) n by force
        then have "clash b (ext a l) = None" using In assms(4) by blast
        with Some Cons.IH[of L] Cons.prems show ?thesis by (auto simp: p)
      qed
    qed auto
    obtain L1 added where v: "visit_neighbours ext clash a ns L = Inr (L1, added)"
      using visit[OF subset_refl less.prems(3)] by blast
    note facts = visit_neighbours_Inr[OF v]
    have dom: "dom L1 = dom L \<union> set added" "set added \<subseteq> fst ` set ns" using facts by auto
    have "\<exists>L'. label_bfs ext clash adj (rest @ added) L1 = Inr L' \<and> dom L' \<subseteq> dom (map_of adj)"
    proof (rule less.hyps)
      show "card (adjacent_vertices adj - dom L1) + length (rest @ added)
          < card (adjacent_vertices adj - dom L) + length queue"
        using visit_neighbours_decrease[OF v map_of_adjacent[OF ns]] Cons by simp
      have "set rest \<subseteq> dom L - L0" using less.prems(1) by (simp add: Cons)
      moreover have "set added \<inter> L0 = {}" using dom(2) outside by blast
      ultimately show "set (rest @ added) \<subseteq> dom L1 - L0"
        using dom(1) by (simp only: set_append) blast
      show "dom L1 \<subseteq> dom (map_of adj)"
        using less.prems(2) dom assms(2)[OF ns] by (simp only: dom(1)) blast
      show "\<forall>v \<in> dom L1 - L0. I r v (the (L1 v))"
      proof
        fix x assume x: "x \<in> dom L1 - L0"
        show "I r x (the (L1 x))"
        proof (cases "x \<in> dom L")
          case True
          moreover have "L x = L1 x" using facts True by (simp add: map_le_def)
          ultimately show ?thesis using less.prems(3) x by (metis DiffD2 DiffI)
        next
          case False
          then obtain b l where "L1 x = Some b" "(x, l) \<in> set ns" "b = ext a l"
            using x visit_neighbours_new[OF v] by blast
          then show ?thesis using assms(3) Ia ns by (auto simp: follows_def)
        qed
      qed
    qed
    with a ns v show ?thesis by (simp add: Cons lookupE_def)
  qed
qed

lemma label_search_succeeds:
  assumes "\<And>v ns. map_of adj v = Some ns \<Longrightarrow> fst ` set ns \<subseteq> dom (map_of adj)"
    and "set roots \<subseteq> dom (map_of adj)" and "follows ext adj I"
    and "\<And>r v a b. I r v a \<Longrightarrow> I r v b \<Longrightarrow> clash a b = None" and "\<And>r. I r r root_label"
  shows "\<exists>L. label_search ext clash root_label adj roots = Inr L"
proof -
  let ?step = "\<lambda>root labels. if root \<in> dom labels then Inr labels
        else label_bfs ext clash adj [root] (labels(root \<mapsto> root_label))"
  have "\<exists>L. foldE ?step roots L0 = Inr L"
    if "search_result ext clash adj I origin L0" "dom L0 \<subseteq> dom (map_of adj)" for origin L0
    using that assms(2)
  proof (induction roots arbitrary: origin L0)
    case (Cons root roots)
    show ?case
    proof (cases "root \<in> dom L0")
      case True
      with Cons.IH[OF Cons.prems(1,2)] Cons.prems(3) show ?thesis by simp
    next
      case False
      have "\<exists>L'. label_bfs ext clash adj [root] (L0(root \<mapsto> root_label)) = Inr L'
          \<and> dom L' \<subseteq> dom (map_of adj)"
        by (rule label_bfs_succeeds[OF search_result_finished[OF Cons.prems(1)] assms(1,3,4)])
           (use Cons.prems(2,3) False assms(5) in auto)
      then obtain L1 where L1: "label_bfs ext clash adj [root] (L0(root \<mapsto> root_label)) = Inr L1"
        "dom L1 \<subseteq> dom (map_of adj)" by blast
      from label_bfs_extends[OF Cons.prems(1) False L1(1) assms(3,5)]
      have "search_result ext clash adj I (\<lambda>v. if v \<in> dom L0 then origin v else root) L1" by blast
      from Cons.IH[OF this L1(2)] Cons.prems(3) L1(1) False show ?thesis by simp
    qed
  qed simp
  from this[of undefined Map.empty] show ?thesis
    unfolding label_search_def by (simp add: search_result_def)
qed

end

section \<open>Relabelling\<close>

text \<open>
  A map on labels that commutes with \<open>ext\<close> and is invisible to the clash test carries one run of
  the search to another.
\<close>

definition map_labels ::
  "('l \<Rightarrow> 'm) \<Rightarrow> ('v \<times> ('v \<times> 'l) list) list \<Rightarrow> ('v \<times> ('v \<times> 'm) list) list" where
  "map_labels g adj = map (\<lambda>(v, ns). (v, map (map_prod id g) ns)) adj"

lemma map_of_map_labels:
  "map_of (map_labels g adj) v = map_option (map (map_prod id g)) (map_of adj v)"
  by (induction adj) (auto simp: map_labels_def)

definition map_dict :: "('a \<Rightarrow> 'b) \<Rightarrow> ('v \<rightharpoonup> 'a) \<Rightarrow> ('v \<rightharpoonup> 'b)" where
  "map_dict f L = (\<lambda>v. map_option f (L v))"

lemma map_dict_apply: "map_dict f L v = map_option f (L v)"
  by (simp add: map_dict_def)

lemma map_dict_simps [simp]:
  "dom (map_dict f L) = dom L"
  "map_dict f Map.empty = Map.empty"
  by (auto simp: map_dict_def)

lemma map_dict_upd: "(map_dict f L)(v \<mapsto> f b) = map_dict f (L(v \<mapsto> b))"
  by (auto simp: map_dict_def)

locale label_hom =
  fixes f :: "'a \<Rightarrow> 'b" and g :: "'l \<Rightarrow> 'm" and ext :: "'a \<Rightarrow> 'l \<Rightarrow> 'a" and ext' :: "'b \<Rightarrow> 'm \<Rightarrow> 'b"
    and clash :: "'a \<Rightarrow> 'a \<Rightarrow> exc option" and clash' :: "'b \<Rightarrow> 'b \<Rightarrow> exc option"
  assumes hom: "f (ext a l) = ext' (f a) (g l)" and clash: "clash' (f a) (f b) = clash a b"
begin

lemma visit_neighbours_hom:
  "visit_neighbours ext' clash' (f a) (map (map_prod id g) ns) (map_dict f L) =
    map_sum id (map_prod (map_dict f) id) (visit_neighbours ext clash a ns L)"
proof (induction ns arbitrary: L)
  case (Cons p ns)
  obtain n l where p: "p = (n, l)" by (cases p)
  show ?case
  proof (cases "L n")
    case None
    then have "map_dict f L n = None" by (simp add: map_dict_apply)
    with None Cons.IH[of "L(n \<mapsto> ext a l)"] show ?thesis
      by (cases "visit_neighbours ext clash a ns (L(n \<mapsto> ext a l))")
        (auto simp: p hom[symmetric] map_dict_upd Let_def simp del: fun_upd_apply)
  next
    case (Some b)
    with Cons.IH[of L] show ?thesis
      by (cases "clash b (ext a l)") (simp_all add: p map_dict_apply hom[symmetric] clash Let_def)
  qed
qed simp

lemma label_bfs_hom:
  "label_bfs ext' clash' (map_labels g adj) queue (map_dict f L) =
    map_sum id (map_dict f) (label_bfs ext clash adj queue L)"
proof (induction "card (adjacent_vertices adj - dom L) + length queue" arbitrary: queue L
    rule: less_induct)
  case less
  show ?case
  proof (cases queue)
    case (Cons current rest)
    show ?thesis
    proof (cases "L current")
      case (Some a)
      then have a: "L current = Some a" "map_dict f L current = Some (f a)"
        by (simp_all add: map_dict_apply)
      show ?thesis
      proof (cases "map_of adj current")
        case None
        with a Cons show ?thesis by (simp add: lookupE_def map_of_map_labels)
      next
        case (Some ns)
        show ?thesis
        proof (cases "visit_neighbours ext clash a ns L")
          case (Inl e)
          with a Some Cons show ?thesis
            by (simp add: lookupE_def map_of_map_labels visit_neighbours_hom)
        next
          case (Inr r)
          obtain L1 added where r: "r = (L1, added)" by (cases r)
          have "card (adjacent_vertices adj - dom L1) + length (rest @ added)
              < card (adjacent_vertices adj - dom L) + length queue"
            using visit_neighbours_decrease[OF Inr[unfolded r] map_of_adjacent[OF Some]]
            by (simp add: Cons)
          from less.hyps[OF this] a Some Inr show ?thesis
            by (simp add: lookupE_def map_of_map_labels visit_neighbours_hom r Cons)
        qed
      qed
    qed (simp add: Cons map_dict_apply)
  qed simp
qed

lemma label_search_hom:
  "label_search ext' clash' (f root_label) (map_labels g adj) roots =
    map_sum id (map_dict f) (label_search ext clash root_label adj roots)"
proof -
  let ?step = "\<lambda>ext clash root_label adj root labels. if root \<in> dom labels then Inr labels
        else label_bfs ext clash adj [root] (labels(root \<mapsto> root_label))"
  have "foldE (?step ext' clash' (f root_label) (map_labels g adj)) roots (map_dict f L) =
    map_sum id (map_dict f) (foldE (?step ext clash root_label adj) roots L)" for L
  proof (induction roots arbitrary: L)
    case (Cons root roots)
    show ?case
    proof (cases "root \<in> dom L")
      case True
      with Cons show ?thesis by (simp del: domIff)
    next
      case False
      with Cons label_bfs_hom[of adj "[root]" "L(root \<mapsto> root_label)"] show ?thesis
        by (cases "label_bfs ext clash adj [root] (L(root \<mapsto> root_label))")
          (simp_all add: map_dict_upd del: domIff label_bfs.simps fun_upd_apply)
    qed
  qed simp
  from this[of Map.empty] show ?thesis by (simp add: label_search_def)
qed

end

end
