(* ===== verification/Framework_Gauge.thy ===== *)
theory Framework_Gauge
  imports Framework_Edges Label_Search
begin

text \<open>
  Gauges of a periodic graph in \<open>mdstats/analysis/framework_topology.py\<close>: the atomic gauge that
  \<open>_oriented_adjacency\<close> chooses before paths are traversed, the vertex gauge of
  \<open>_normalize_framework_gauge\<close>, and \<open>_component_data\<close>.

  A gauge assigns a lattice shift to every atom; changing it replaces the shift \<open>s\<close> of an edge
  \<open>(i, j, s)\<close> by \<open>s + h i - h j\<close> and names the same physical graph.  The lemmas show that the
  atomic adjacency is a change of gauge of the input, and that it does not depend on the gauge the
  input came in; that the projected edges only change gauge; and that component labels name
  connected components.
\<close>

section \<open>The atomic gauge\<close>

definition regauge_shift :: "(nat \<rightharpoonup> shift) \<Rightarrow> nat \<Rightarrow> nat \<Rightarrow> shift \<Rightarrow> shift result" where
  "regauge_shift gauge i j s =
     (case (gauge i, gauge j) of
        (Some gi, Some gj) \<Rightarrow> Inr (subtract_shift (add_shift s gi) gj)
      | _ \<Rightarrow> Inl (KeyError (Text '''')))"

definition relevant_atoms :: "(nat \<times> framework_atom_role) list \<Rightarrow> nat list" where
  "relevant_atoms active_to_role =
     sort (map fst (filter (\<lambda>(_, role). role = VERTEX \<or> role = LINKER) active_to_role))"

definition relevant_edges ::
  "atomic_connectivity_state \<Rightarrow> (nat \<times> framework_atom_role) list \<Rightarrow> (nat \<times> nat \<times> shift) list" where
  "relevant_edges state active_to_role =
     filter (\<lambda>(i, j, _). i \<in> set (relevant_atoms active_to_role) \<and> j \<in> set (relevant_atoms active_to_role))
       (state_edges state)"

definition atomic_gauge :: "nat list \<Rightarrow> (nat \<times> nat \<times> shift) list \<Rightarrow> (nat \<rightharpoonup> shift) result" where
  "atomic_gauge relevant raw_edges =
     label_search add_shift (\<lambda>_ _. None) zero_shift
       (sort_adjacency (directed_adjacency negate_shift relevant raw_edges)) relevant"

definition oriented_adjacency ::
  "atomic_connectivity_state \<Rightarrow> (nat \<times> framework_atom_role) list
   \<Rightarrow> (nat \<times> (nat \<times> shift) list) list result" where
  "oriented_adjacency state active_to_role =
     (let relevant = relevant_atoms active_to_role;
          raw_edges = relevant_edges state active_to_role in
      bindE (atomic_gauge relevant raw_edges) (\<lambda>gauge.
      bindE (mapE (\<lambda>(i, j, s). bindE (regauge_shift gauge i j s) (\<lambda>s'. Inr (i, j, s'))) raw_edges)
        (\<lambda>edges. Inr (sort_adjacency (directed_adjacency negate_shift relevant edges)))))"

section \<open>The vertex gauge\<close>

definition directed_shift :: "shift \<Rightarrow> shift \<times> framework_edge_key \<Rightarrow> shift" where
  "directed_shift a = (\<lambda>(s, _). add_shift a s)"

definition opposite_label :: "shift \<times> framework_edge_key \<Rightarrow> shift \<times> framework_edge_key" where
  "opposite_label = (\<lambda>(s, key). (negate_shift s, key))"

definition framework_adjacency_edges ::
  "framework_edge_path list \<Rightarrow> (nat \<times> nat \<times> shift \<times> framework_edge_key) list" where
  "framework_adjacency_edges provisional =
     map (\<lambda>edge. (vertex_i (edge_key edge), vertex_j (edge_key edge), raw_image_shift edge, edge_key edge))
       (filter (\<lambda>edge. vertex_i (edge_key edge) \<noteq> vertex_j (edge_key edge)) provisional)"

definition vertex_gauge ::
  "nat list \<Rightarrow> framework_edge_path list \<Rightarrow> (nat \<rightharpoonup> shift) result" where
  "vertex_gauge vertices provisional =
     (let triples = framework_adjacency_edges provisional in
      bindE (guardE (\<forall>(i, j, _) \<in> set triples. i \<in> set vertices \<and> j \<in> set vertices)
        (KeyError (Text ''''))) (\<lambda>_.
      label_search directed_shift (\<lambda>_ _. None) zero_shift
        (sort_adjacency (directed_adjacency opposite_label vertices triples)) vertices))"

definition normalize_edge ::
  "nat \<Rightarrow> (nat \<rightharpoonup> shift) \<Rightarrow> framework_edge_path \<Rightarrow> framework_edge_path result" where
  "normalize_edge nsym gauge edge =
     (let key = edge_key edge in
      bindE (regauge_shift gauge (vertex_i key) (vertex_j key) (raw_image_shift edge)) (\<lambda>shift.
      bindE (make_edge_key (vertex_i key) (vertex_j key) shift (internal_linker_indices key)
               (internal_linker_image_offsets key) (rule_id key)) (\<lambda>normalized_key.
      make_edge_path nsym normalized_key (atomic_path_indices edge) (atomic_edge_image_shifts edge)
        (internal_linker_atomic_numbers edge) (raw_image_shift edge) (edge_kind edge))))"

definition normalize_framework_gauge ::
  "nat \<Rightarrow> nat list \<Rightarrow> framework_edge_path list \<Rightarrow> framework_edge_path list result" where
  "normalize_framework_gauge nsym vertices provisional =
     bindE (vertex_gauge vertices provisional) (\<lambda>gauge.
     bindE (mapE (normalize_edge nsym gauge) provisional) (\<lambda>normalized.
     bindE (guardE (distinct (map edge_key normalized))
       (FrameworkProjectionError
         (Text ''Framework gauge normalization produced duplicate edge keys.''))) (\<lambda>_.
     Inr (sort_key edge_key normalized))))"

section \<open>Components\<close>

definition edge_ends :: "framework_edge_path \<Rightarrow> nat \<times> nat" where
  "edge_ends edge = (vertex_i (edge_key edge), vertex_j (edge_key edge))"

definition component_neighbours :: "framework_edge_path list \<Rightarrow> nat \<Rightarrow> nat list" where
  "component_neighbours edges v =
     sorted_set (concat (map (\<lambda>edge.
         let (i, j) = edge_ends edge in
         if i = j then [] else (if i = v then [j] else []) @ (if j = v then [i] else [])) edges))"

definition component_adjacency :: "nat list \<Rightarrow> framework_edge_path list \<Rightarrow> (nat \<times> (nat \<times> unit) list) list" where
  "component_adjacency vertices edges =
     map (\<lambda>v. (v, map (\<lambda>w. (w, ())) (component_neighbours edges v))) vertices"

definition component_step ::
  "(nat \<times> (nat \<times> unit) list) list \<Rightarrow> nat \<Rightarrow> (nat \<rightharpoonup> nat) \<times> nat \<Rightarrow> ((nat \<rightharpoonup> nat) \<times> nat) result" where
  "component_step adj = (\<lambda>root (labels, component).
        if root \<in> dom labels then Inr (labels, component)
        else bindE (label_bfs (\<lambda>a _. a) (\<lambda>_ _. None) adj [root] (labels(root \<mapsto> component)))
               (\<lambda>labels'. Inr (labels', Suc component)))"

definition label_components ::
  "(nat \<times> (nat \<times> unit) list) list \<Rightarrow> nat list \<Rightarrow> ((nat \<rightharpoonup> nat) \<times> nat) result" where
  "label_components adj vertices = foldE (component_step adj) vertices (Map.empty, 0)"

definition framework_degree :: "framework_edge_path list \<Rightarrow> nat \<Rightarrow> nat" where
  "framework_degree edges v =
     sum_list (map (\<lambda>edge. let (i, j) = edge_ends edge in
        if i = j then (if i = v then 2 else 0)
        else (if i = v then 1 else 0) + (if j = v then 1 else 0)) edges)"

definition component_data ::
  "nat list \<Rightarrow> framework_edge_path list \<Rightarrow> (nat list \<times> nat \<times> nat list) result" where
  "component_data vertices edges =
     bindE (guardE (\<forall>edge \<in> set edges. fst (edge_ends edge) \<in> set vertices \<and> snd (edge_ends edge) \<in> set vertices)
       (KeyError (Text ''''))) (\<lambda>_.
     bindE (label_components (component_adjacency vertices edges) vertices) (\<lambda>(labels, component).
     bindE (mapE (\<lambda>v. case labels v of None \<Rightarrow> Inl (KeyError (Text '''')) | Some c \<Rightarrow> Inr c) vertices)
       (\<lambda>component_labels. Inr (component_labels, component, map (framework_degree edges) vertices))))"

section \<open>Directed adjacency can be walked back\<close>

lemma neighbours_of_Cons:
  "neighbours_of opp ((i, j, d) # es) v =
     (if i = v then [(j, d)] else []) @ (if j = v then [(i, opp d)] else []) @ neighbours_of opp es v"
  by (simp add: neighbours_of_def)

lemma neighbours_of_targets:
  "w \<in> fst ` set (neighbours_of opp es v) \<longleftrightarrow>
     (\<exists>e \<in> set es. fst e = v \<and> fst (snd e) = w \<or> fst e = w \<and> fst (snd e) = v)"
proof (induction es)
  case (Cons e es)
  then show ?case by (cases e) (auto simp: neighbours_of_Cons image_Un)
qed (simp add: neighbours_of_def)

lemma walk_back_directed:
  assumes "map_of (directed_adjacency opp vs es) v = Some ns" and "(w, l) \<in> set ns"
    and "map_of (directed_adjacency opp vs es) w = Some ms"
  shows "v \<in> fst ` set ms"
proof -
  from assms(1) have "ns = neighbours_of opp es v"
    by (simp add: map_of_directed_adjacency split: if_splits)
  with assms(2) have "w \<in> fst ` set (neighbours_of opp es v)" by force
  moreover from assms(3) have "ms = neighbours_of opp es w"
    by (simp add: map_of_directed_adjacency split: if_splits)
  ultimately show ?thesis by (simp only: neighbours_of_targets) blast
qed

interpretation directed: walk_back_graph "directed_adjacency opp vs es" for opp vs es
  by unfold_locales (rule walk_back_directed)

interpretation sorted_directed: walk_back_graph "sort_adjacency (directed_adjacency opp vs es)"
  for opp vs es
proof unfold_locales
  fix v ns w l ms
  let ?adj = "directed_adjacency opp vs es"
  assume "map_of (sort_adjacency ?adj) v = Some ns" "(w, l) \<in> set ns"
    "map_of (sort_adjacency ?adj) w = Some ms"
  then obtain ns' ms' where "map_of ?adj v = Some ns'" "ns = sort ns'"
    "map_of ?adj w = Some ms'" "ms = sort ms'"
    by (auto simp: map_of_sort_adjacency)
  with \<open>(w, l) \<in> set ns\<close> walk_back_directed[of opp vs es v ns' w l ms'] show "v \<in> fst ` set ms"
    by simp
qed

lemma map_of_component_adjacency:
  "map_of (component_adjacency vs es) v =
     (if v \<in> set vs then Some (map (\<lambda>w. (w, ())) (component_neighbours es v)) else None)"
  unfolding component_adjacency_def by (induction vs) auto

definition joined :: "framework_edge_path list \<Rightarrow> nat \<Rightarrow> nat \<Rightarrow> bool" where
  "joined edges v w \<longleftrightarrow> (\<exists>edge \<in> set edges. edge_ends edge = (v, w) \<or> edge_ends edge = (w, v))"

lemma joined_sym: "joined es v w \<longleftrightarrow> joined es w v"
  by (auto simp: joined_def)

lemma component_neighbours_joined: "w \<in> set (component_neighbours es v) \<longleftrightarrow> v \<noteq> w \<and> joined es v w"
proof (induction es)
  case (Cons edge es)
  then show ?case
    by (cases "edge_ends edge") (auto simp: component_neighbours_def joined_def)
qed (simp add: component_neighbours_def joined_def)

lemma component_adjacency_joined:
  assumes "map_of (component_adjacency vs es) v = Some ns"
  shows "(w, u) \<in> set ns \<longleftrightarrow> v \<noteq> w \<and> joined es v w"
proof -
  from assms have "ns = map (\<lambda>w. (w, ())) (component_neighbours es v)"
    by (simp add: map_of_component_adjacency split: if_splits)
  then show ?thesis by (auto simp: component_neighbours_joined)
qed

lemma walk_back_component:
  assumes "map_of (component_adjacency vs es) v = Some ns" and "(w, u) \<in> set ns"
    and "map_of (component_adjacency vs es) w = Some ms"
  shows "v \<in> fst ` set ms"
proof -
  from assms(1,2) have "w \<noteq> v" "joined es w v"
    by (auto simp: component_adjacency_joined joined_sym)
  then have "(v, ()) \<in> set ms" by (simp add: component_adjacency_joined[OF assms(3)])
  then show ?thesis by force
qed

interpretation components: walk_back_graph "component_adjacency vs es" for vs es
  by unfold_locales (rule walk_back_component)

section \<open>The atomic adjacency is a change of gauge\<close>

definition regauge_edges :: "(nat \<Rightarrow> shift) \<Rightarrow> (nat \<times> nat \<times> shift) list \<Rightarrow> (nat \<times> nat \<times> shift) list" where
  "regauge_edges h es = map (\<lambda>(i, j, s). (i, j, subtract_shift (add_shift s (h i)) (h j))) es"

abbreviation within :: "nat list \<Rightarrow> (nat \<times> nat \<times> 'l) list \<Rightarrow> bool" where
  "within vs es \<equiv> \<forall>(i, j, _) \<in> set es. i \<in> set vs \<and> j \<in> set vs"

lemma neighbours_within:
  assumes "within vs es" and "map_of (sort_adjacency (directed_adjacency opp vs es)) v = Some ns"
  shows "fst ` set ns \<subseteq> dom (map_of (sort_adjacency (directed_adjacency opp vs es)))"
proof
  fix w assume "w \<in> fst ` set ns"
  moreover from assms(2) have "ns = sort (neighbours_of opp es v)"
    by (auto simp: map_of_sort_adjacency map_of_directed_adjacency split: if_splits)
  ultimately have "w \<in> fst ` set (neighbours_of opp es v)" by simp
  then have "w \<in> set vs" using assms(1) unfolding neighbours_of_targets by fastforce
  then show "w \<in> dom (map_of (sort_adjacency (directed_adjacency opp vs es)))"
    by (auto simp: map_of_sort_adjacency map_of_directed_adjacency)
qed

lemma gauge_search_total:
  assumes "within vs es"
  shows "\<exists>L. label_search ext (\<lambda>_ _. None) root_label
      (sort_adjacency (directed_adjacency opp vs es)) vs = Inr L \<and> set vs \<subseteq> dom L"
proof -
  let ?adj = "sort_adjacency (directed_adjacency opp vs es)"
  have "set vs \<subseteq> dom (map_of ?adj)"
    by (auto simp: map_of_sort_adjacency map_of_directed_adjacency)
  then have "\<exists>L. label_search ext (\<lambda>_ _. None) root_label ?adj vs = Inr L"
    by (intro sorted_directed.label_search_succeeds[where I = "\<lambda>_ _ _. True"]
        neighbours_within[OF assms]) (auto simp: follows_def)
  then obtain L where L: "label_search ext (\<lambda>_ _. None) root_label ?adj vs = Inr L" by blast
  moreover have "set vs \<subseteq> dom L"
    using sorted_directed.label_search_result[OF L, of "\<lambda>_ _ _. True"] by (auto simp: follows_def)
  ultimately show ?thesis by blast
qed

lemma regauge_shift_Inr:
  "gauge i = Some a \<Longrightarrow> gauge j = Some b \<Longrightarrow>
   regauge_shift gauge i j s = Inr (subtract_shift (add_shift s a) b)"
  by (simp add: regauge_shift_def)

lemma mapE_regauge:
  assumes "within vs es" and "set vs \<subseteq> dom gauge"
  shows "mapE (\<lambda>(i, j, s). bindE (regauge_shift gauge i j s) (\<lambda>s'. Inr (i, j, s'))) es
    = Inr (regauge_edges (\<lambda>v. the (gauge v)) es)"
  unfolding regauge_edges_def
proof (rule mapE_total)
  fix e assume e: "e \<in> set es"
  obtain i j s where [simp]: "e = (i, j, s)" by (cases e)
  from e assms have "i \<in> dom gauge" "j \<in> dom gauge" by auto
  then show "(case e of (i, j, s) \<Rightarrow> bindE (regauge_shift gauge i j s) (\<lambda>s'. Inr (i, j, s'))) =
      Inr ((\<lambda>(i, j, s). (i, j, subtract_shift (add_shift s (the (gauge i))) (the (gauge j)))) e)"
    by (auto simp: regauge_shift_Inr)
qed

lemma relevant_within: "within (relevant_atoms roles) (relevant_edges state roles)"
  by (auto simp: relevant_edges_def)

lemma oriented_adjacency_gauge:
  assumes "atomic_gauge (relevant_atoms roles) (relevant_edges state roles) = Inr gauge"
    and "set (relevant_atoms roles) \<subseteq> dom gauge"
  shows "oriented_adjacency state roles = Inr (sort_adjacency (directed_adjacency negate_shift
      (relevant_atoms roles) (regauge_edges (\<lambda>v. the (gauge v)) (relevant_edges state roles))))"
  by (simp add: oriented_adjacency_def Let_def assms(1) mapE_regauge[OF relevant_within assms(2)])

lemma oriented_adjacency_total:
  "\<exists>g. oriented_adjacency state roles = Inr (sort_adjacency (directed_adjacency negate_shift
      (relevant_atoms roles) (regauge_edges g (relevant_edges state roles))))"
proof -
  obtain gauge where "atomic_gauge (relevant_atoms roles) (relevant_edges state roles) = Inr gauge"
    "set (relevant_atoms roles) \<subseteq> dom gauge"
    unfolding atomic_gauge_def
    using gauge_search_total[where ext = add_shift and root_label = zero_shift and opp = negate_shift,
        OF relevant_within] by blast
  from oriented_adjacency_gauge[OF this] show ?thesis by blast
qed

section \<open>The atomic adjacency does not depend on the gauge of the input\<close>

text \<open>The two searches, on the input and on the input in another gauge, as one search on pairs.\<close>

definition regauge_neighbours :: "(nat \<Rightarrow> shift) \<Rightarrow> nat \<Rightarrow> (nat \<times> shift) list \<Rightarrow> (nat \<times> shift) list" where
  "regauge_neighbours h v ns = map (\<lambda>(n, s). (n, subtract_shift (add_shift s (h v)) (h n))) ns"

definition pair_adjacency ::
  "(nat \<Rightarrow> shift) \<Rightarrow> (nat \<times> (nat \<times> shift) list) list \<Rightarrow> (nat \<times> (nat \<times> shift \<times> shift) list) list" where
  "pair_adjacency h adj =
     map (\<lambda>(v, ns). (v, map (\<lambda>(n, s). (n, s, subtract_shift (add_shift s (h v)) (h n))) ns)) adj"

lemma add_subtract_less:
  "a \<le> b \<longleftrightarrow> subtract_shift (add_shift a c) d \<le> subtract_shift (add_shift b c) d"
  by (cases a; cases b; cases c; cases d) (auto simp: less_eq_prod_def)

lemma regauge_mono:
  fixes p q :: "nat \<times> shift"
  assumes "p \<le> q"
  shows "(case p of (n, s) \<Rightarrow> (n, subtract_shift (add_shift s (h v)) (h n)))
    \<le> (case q of (n, s) \<Rightarrow> (n, subtract_shift (add_shift s (h v)) (h n)))"
proof -
  obtain n s n' s' where pq: "p = (n, s)" "q = (n', s')" by (cases p; cases q) blast
  show ?thesis
  proof (cases "n = n'")
    case True
    with assms have "s \<le> s'" by (simp add: pq)
    with True show ?thesis by (simp add: pq flip: add_subtract_less)
  next
    case False
    with assms have "n < n'" by (auto simp: pq)
    then show ?thesis by (simp add: pq)
  qed
qed

lemma sort_regauge: "sort (regauge_neighbours h v ns) = regauge_neighbours h v (sort ns)"
proof (rule properties_for_sort)
  show "mset (regauge_neighbours h v (sort ns)) = mset (regauge_neighbours h v ns)"
    by (simp add: regauge_neighbours_def)
  have "sorted (sort ns)" by simp
  then have "sorted_wrt (\<lambda>p q. (case p of (n, s) \<Rightarrow> (n, subtract_shift (add_shift s (h v)) (h n)))
      \<le> (case q of (n, s) \<Rightarrow> (n, subtract_shift (add_shift s (h v)) (h n)))) (sort ns)"
    by (rule sorted_wrt_mono_rel[rotated]) (rule regauge_mono)
  then show "sorted (regauge_neighbours h v (sort ns))"
    by (simp add: regauge_neighbours_def sorted_map)
qed

lemma neighbours_of_regauge:
  "neighbours_of negate_shift (regauge_edges h es) v = regauge_neighbours h v (neighbours_of negate_shift es v)"
proof (induction es)
  case (Cons e es)
  obtain i j s where e: "e = (i, j, s)" by (cases e)
  have "negate_shift (subtract_shift (add_shift s a) b) = subtract_shift (add_shift (negate_shift s) b) a"
    for a b
    by (cases s; cases a; cases b) simp
  with Cons show ?case
    by (simp add: e regauge_edges_def regauge_neighbours_def neighbours_of_Cons)
qed (simp add: neighbours_of_def regauge_edges_def regauge_neighbours_def)

lemma pair_adjacency_labels:
  "map_labels fst (pair_adjacency h adj) = adj"
  "map_labels snd (pair_adjacency h (sort_adjacency (directed_adjacency negate_shift vs es))) =
     sort_adjacency (directed_adjacency negate_shift vs (regauge_edges h es))"
proof -
  have fst: "map (map_prod id fst) (map (\<lambda>(n, s). (n, s, subtract_shift (add_shift s a) (h n))) ns) = ns"
    for ns :: "(nat \<times> shift) list" and a
    by (induction ns) auto
  show "map_labels fst (pair_adjacency h adj) = adj"
    by (simp add: map_labels_def pair_adjacency_def comp_def split_beta' fst[unfolded split_beta'] map_idI)
  have snd: "map (map_prod id snd) (map (\<lambda>(n, s). (n, s, subtract_shift (add_shift s (h v)) (h n))) ns)
      = regauge_neighbours h v ns" for ns v
    by (induction ns) (auto simp: regauge_neighbours_def)
  show "map_labels snd (pair_adjacency h (sort_adjacency (directed_adjacency negate_shift vs es))) =
     sort_adjacency (directed_adjacency negate_shift vs (regauge_edges h es))"
    unfolding map_labels_def pair_adjacency_def directed_adjacency_def sort_adjacency_def
    unfolding map_map by (rule map_cong[OF refl]) (simp add: snd neighbours_of_regauge sort_regauge del: map_map)
qed

definition pair_ext :: "shift \<times> shift \<Rightarrow> shift \<times> shift \<Rightarrow> shift \<times> shift" where
  "pair_ext = (\<lambda>(a, a') (s, s'). (add_shift a s, add_shift a' s'))"

lemma map_of_pair_adjacency:
  "map_of (pair_adjacency h adj) v =
     map_option (map (\<lambda>(n, s). (n, s, subtract_shift (add_shift s (h v)) (h n)))) (map_of adj v)"
  by (induction adj) (auto simp: pair_adjacency_def)

interpretation pairs: walk_back_graph
  "pair_adjacency h (sort_adjacency (directed_adjacency opp vs es))" for h opp vs es
proof unfold_locales
  fix v ns w l ms
  let ?adj = "sort_adjacency (directed_adjacency opp vs es)"
  assume 1: "map_of (pair_adjacency h ?adj) v = Some ns" "(w, l) \<in> set ns"
    "map_of (pair_adjacency h ?adj) w = Some ms"
  then obtain ns' ms' where adj: "map_of ?adj v = Some ns'" "map_of ?adj w = Some ms'"
    and ns: "ns = map (\<lambda>(n, s). (n, s, subtract_shift (add_shift s (h v)) (h n))) ns'"
    and ms: "ms = map (\<lambda>(n, s). (n, s, subtract_shift (add_shift s (h w)) (h n))) ms'"
    by (auto simp: map_of_pair_adjacency)
  from 1(2) ns obtain s where "(w, s) \<in> set ns'" by auto
  with adj have "v \<in> fst ` set ms'" by (intro sorted_directed.walk_back)
  then show "v \<in> fst ` set ms" by (force simp: ms)
qed

interpretation pair_fst: label_hom fst fst pair_ext add_shift "\<lambda>_ _. None" "\<lambda>_ _. None"
  by unfold_locales (auto simp: pair_ext_def)

interpretation pair_snd: label_hom snd snd pair_ext add_shift "\<lambda>_ _. None" "\<lambda>_ _. None"
  by unfold_locales (auto simp: pair_ext_def)

lemma follows_pair:
  "follows pair_ext (pair_adjacency h adj)
     (\<lambda>r v (a, a'). a' = subtract_shift (add_shift a (h r)) (h v))"
proof -
  have "add_shift (subtract_shift (add_shift a x) y) (subtract_shift (add_shift s y) z)
      = subtract_shift (add_shift (add_shift a s) x) z" for a s x y z
    by (cases a; cases s; cases x; cases y; cases z) simp
  then have step: "snd (pair_ext p (s, subtract_shift (add_shift s (h v)) (h w)))
      = subtract_shift (add_shift (fst (pair_ext p (s, subtract_shift (add_shift s (h v)) (h w)))) (h r)) (h w)"
    if "snd p = subtract_shift (add_shift (fst p) (h r)) (h v)" for p s r v w
    using that by (simp add: pair_ext_def split_beta)
  have "\<exists>s. l = (s, subtract_shift (add_shift s (h v)) (h w))"
    if "map_of (pair_adjacency h adj) v = Some ns" "(w, l) \<in> set ns" for v ns w l
    using that by (auto simp: map_of_pair_adjacency)
  with step show ?thesis
    unfolding follows_def split_beta by metis
qed

lemma atomic_gauges:
  assumes within: "within vs es"
  shows "\<exists>g g'. atomic_gauge vs es = Inr g \<and> atomic_gauge vs (regauge_edges h es) = Inr g' \<and>
    set vs \<subseteq> dom g \<and> set vs \<subseteq> dom g' \<and>
    regauge_edges (\<lambda>v. the (g' v)) (regauge_edges h es) = regauge_edges (\<lambda>v. the (g v)) es"
proof -
  let ?adj = "sort_adjacency (directed_adjacency negate_shift vs es)"
  let ?pairs = "pair_adjacency h ?adj"
  let ?I = "\<lambda>r v (a, a'). a' = subtract_shift (add_shift a (h r)) (h v)"
  have dom: "dom (map_of ?pairs) = set vs"
    by (auto simp: map_of_pair_adjacency map_of_sort_adjacency map_of_directed_adjacency split: if_splits)
  have closed: "fst ` set ns \<subseteq> dom (map_of ?pairs)" if "map_of ?pairs v = Some ns" for v ns
  proof -
    from that obtain ns' where ns': "map_of ?adj v = Some ns'"
      "ns = map (\<lambda>(n, s). (n, s, subtract_shift (add_shift s (h v)) (h n))) ns'"
      by (auto simp: map_of_pair_adjacency)
    then have "fst ` set ns = fst ` set ns'" by (simp add: image_image split_beta)
    moreover have "dom (map_of ?adj) = set vs"
      by (auto simp: map_of_sort_adjacency map_of_directed_adjacency split: if_splits)
    ultimately show ?thesis
      using neighbours_within[OF within ns'(1)] by (simp only: dom)
  qed
  have "\<exists>L. label_search pair_ext (\<lambda>_ _. None) (zero_shift, zero_shift) ?pairs vs = Inr L"
    by (rule pairs.label_search_succeeds[where I = "\<lambda>_ _ _. True", OF closed])
      (simp_all add: follows_def dom)
  then obtain L where L: "label_search pair_ext (\<lambda>_ _. None) (zero_shift, zero_shift) ?pairs vs = Inr L"
    by blast
  obtain origin where result: "search_result pair_ext (\<lambda>_ _. None) ?pairs ?I origin L" "set vs \<subseteq> dom L"
    using pairs.label_search_result[OF L follows_pair] by auto
  have gauges: "atomic_gauge vs es = Inr (map_dict fst L)"
    "atomic_gauge vs (regauge_edges h es) = Inr (map_dict snd L)"
    using pair_fst.label_search_hom[of "(zero_shift, zero_shift)" ?pairs vs]
      pair_snd.label_search_hom[of "(zero_shift, zero_shift)" ?pairs vs]
    by (simp_all add: atomic_gauge_def L pair_adjacency_labels)
  have "regauge_edges (\<lambda>v. the (map_dict snd L v)) (regauge_edges h es)
      = regauge_edges (\<lambda>v. the (map_dict fst L v)) es"
    unfolding regauge_edges_def map_map
  proof (rule map_cong[OF refl])
    fix e assume e: "e \<in> set es"
    obtain i j s where [simp]: "e = (i, j, s)" by (cases e)
    from e within have ij: "i \<in> set vs" "j \<in> set vs" by auto
    with result(2) obtain a a' b b' where ab: "L i = Some (a, a')" "L j = Some (b, b')" by fastforce
    have "(j, s) \<in> set (neighbours_of negate_shift es i)"
      using e by (auto simp: in_neighbours_of)
    then have "(j, s, subtract_shift (add_shift s (h i)) (h j)) \<in> set (map (\<lambda>(n, s).
        (n, s, subtract_shift (add_shift s (h i)) (h n))) (sort (neighbours_of negate_shift es i)))"
      by force
    from search_result_edge(1)[OF result(1) ab(1) _ this] have "origin j = origin i"
      using ij(1) by (simp add: map_of_pair_adjacency map_of_sort_adjacency map_of_directed_adjacency)
    moreover have "?I (origin i) i (a, a')" "?I (origin j) j (b, b')"
      using search_result_label[OF result(1)] ab by blast+
    moreover have "subtract_shift (add_shift (subtract_shift (add_shift s x) y)
        (subtract_shift (add_shift c z) x)) (subtract_shift (add_shift d z) y)
        = subtract_shift (add_shift s c) d" for s x y z c d
      by (cases s; cases x; cases y; cases z; cases c; cases d) simp
    ultimately show "((\<lambda>(i, j, s). (i, j, subtract_shift (add_shift s (the (map_dict snd L i))) (the (map_dict snd L j))))
        \<circ> (\<lambda>(i, j, s). (i, j, subtract_shift (add_shift s (h i)) (h j)))) e
      = (\<lambda>(i, j, s). (i, j, subtract_shift (add_shift s (the (map_dict fst L i))) (the (map_dict fst L j)))) e"
      using ab by (simp add: map_dict_apply)
  qed
  with gauges result(2) show ?thesis by (intro exI conjI) auto
qed

lemma filter_regauge:
  "filter (\<lambda>(i, j, _). P i j) (regauge_edges h es) = regauge_edges h (filter (\<lambda>(i, j, _). P i j) es)"
  by (induction es) (auto simp: regauge_edges_def)

lemma oriented_adjacency_invariant:
  "oriented_adjacency (state\<lparr>state_edges := regauge_edges h (state_edges state)\<rparr>) roles
     = oriented_adjacency state roles"
proof -
  let ?vs = "relevant_atoms roles" and ?es = "relevant_edges state roles"
  have es: "relevant_edges (state\<lparr>state_edges := regauge_edges h (state_edges state)\<rparr>) roles
      = regauge_edges h ?es"
    using filter_regauge[of "\<lambda>i j. i \<in> set (relevant_atoms roles) \<and> j \<in> set (relevant_atoms roles)"]
    by (simp add: relevant_edges_def)
  obtain g g' where g: "atomic_gauge ?vs ?es = Inr g" "atomic_gauge ?vs (regauge_edges h ?es) = Inr g'"
    "set ?vs \<subseteq> dom g" "set ?vs \<subseteq> dom g'"
    "regauge_edges (\<lambda>v. the (g' v)) (regauge_edges h ?es) = regauge_edges (\<lambda>v. the (g v)) ?es"
    using atomic_gauges[OF relevant_within] by blast
  have "oriented_adjacency (state\<lparr>state_edges := regauge_edges h (state_edges state)\<rparr>) roles =
      Inr (sort_adjacency (directed_adjacency negate_shift ?vs
        (regauge_edges (\<lambda>v. the (g' v)) (regauge_edges h ?es))))"
    using oriented_adjacency_gauge[of roles "state\<lparr>state_edges := regauge_edges h (state_edges state)\<rparr>" g']
      g(2,4) by (simp only: es)
  with oriented_adjacency_gauge[OF g(1,3)] show ?thesis by (simp only: g(5))
qed

section \<open>Projected edges only change gauge\<close>

text \<open>
  \<open>valid_edge\<close> collects what the two constructors check of a finished edge, and
  \<open>regauge_edge g\<close> is the edge seen in the gauge \<open>g\<close>.
\<close>

definition valid_edge :: "nat \<Rightarrow> framework_edge_path \<Rightarrow> bool" where
  "valid_edge nsym edge \<longleftrightarrow>
     make_edge_key (vertex_i (edge_key edge)) (vertex_j (edge_key edge)) (image_shift (edge_key edge))
       (internal_linker_indices (edge_key edge)) (internal_linker_image_offsets (edge_key edge))
       (rule_id (edge_key edge)) = Inr (edge_key edge)
     \<and> make_edge_path nsym (edge_key edge) (atomic_path_indices edge) (atomic_edge_image_shifts edge)
         (internal_linker_atomic_numbers edge) (raw_image_shift edge) (edge_kind edge) = Inr edge"

fun with_shift :: "shift \<Rightarrow> framework_edge_key \<Rightarrow> framework_edge_key" where
  "with_shift s (FrameworkEdgeKey i j _ ls os r) = FrameworkEdgeKey i j s ls os r"

definition regauge_edge :: "(nat \<Rightarrow> shift) \<Rightarrow> framework_edge_path \<Rightarrow> framework_edge_path" where
  "regauge_edge g edge =
     edge\<lparr>edge_key := with_shift (subtract_shift
        (add_shift (raw_image_shift edge) (g (vertex_i (edge_key edge)))) (g (vertex_j (edge_key edge))))
        (edge_key edge)\<rparr>"

lemma with_shift_fields [simp]:
  "vertex_i (with_shift s k) = vertex_i k" "vertex_j (with_shift s k) = vertex_j k"
  "image_shift (with_shift s k) = s" "internal_linker_indices (with_shift s k) = internal_linker_indices k"
  "internal_linker_image_offsets (with_shift s k) = internal_linker_image_offsets k"
  "rule_id (with_shift s k) = rule_id k"
  by (cases k; simp)+

lemma with_shift_eq: "FrameworkEdgeKey (vertex_i k) (vertex_j k) s (internal_linker_indices k)
    (internal_linker_image_offsets k) (rule_id k) = with_shift s k"
  by (cases k) simp

lemma regauge_edge_fields [simp]:
  "edge_ends (regauge_edge g edge) = edge_ends edge"
  "atomic_path_indices (regauge_edge g edge) = atomic_path_indices edge"
  "atomic_edge_image_shifts (regauge_edge g edge) = atomic_edge_image_shifts edge"
  "internal_linker_atomic_numbers (regauge_edge g edge) = internal_linker_atomic_numbers edge"
  "raw_image_shift (regauge_edge g edge) = raw_image_shift edge"
  "edge_kind (regauge_edge g edge) = edge_kind edge"
  "vertex_i (edge_key (regauge_edge g edge)) = vertex_i (edge_key edge)"
  "vertex_j (edge_key (regauge_edge g edge)) = vertex_j (edge_key edge)"
  "internal_linker_indices (edge_key (regauge_edge g edge)) = internal_linker_indices (edge_key edge)"
  "internal_linker_image_offsets (edge_key (regauge_edge g edge)) = internal_linker_image_offsets (edge_key edge)"
  by (simp_all add: regauge_edge_def edge_ends_def)

lemma add_shift_absorb: "add_shift a b = b \<longleftrightarrow> a = zero_shift"
  by (cases a; cases b) auto

lemma normalize_edge_Inr:
  assumes "valid_edge nsym edge" and "image_shift (edge_key edge) = raw_image_shift edge"
    and "vertex_i (edge_key edge) \<in> dom gauge" and "vertex_j (edge_key edge) \<in> dom gauge"
  shows "normalize_edge nsym gauge edge = Inr (regauge_edge (\<lambda>v. the (gauge v)) edge)"
proof -
  let ?k = "edge_key edge"
  let ?s = "subtract_shift (add_shift (raw_image_shift edge) (the (gauge (vertex_i ?k)))) (the (gauge (vertex_j ?k)))"
  have shift: "regauge_shift gauge (vertex_i ?k) (vertex_j ?k) (raw_image_shift edge) = Inr ?s"
    using assms(3,4) by (auto intro!: regauge_shift_Inr)
  have key: "make_edge_key (vertex_i ?k) (vertex_j ?k) ?s (internal_linker_indices ?k)
      (internal_linker_image_offsets ?k) (rule_id ?k) = Inr (with_shift ?s ?k)"
    using assms(1,2) by (auto simp: valid_edge_def make_edge_key_Inr_iff with_shift_eq add_shift_absorb)
  show ?thesis
    using assms(1) shift key
    by (simp add: normalize_edge_def Let_def valid_edge_def make_edge_path_def bindE_Inr_iff regauge_edge_def
        split: if_splits)
qed

lemma vertex_gauge_total:
  assumes "\<forall>edge \<in> set provisional. fst (edge_ends edge) \<in> set vs \<and> snd (edge_ends edge) \<in> set vs"
  shows "\<exists>gauge. vertex_gauge vs provisional = Inr gauge \<and> set vs \<subseteq> dom gauge"
proof -
  have "within vs (framework_adjacency_edges provisional)"
    using assms by (auto simp: framework_adjacency_edges_def edge_ends_def)
  from gauge_search_total[OF this, of directed_shift zero_shift opposite_label] this
  show ?thesis by (simp add: vertex_gauge_def Let_def)
qed

lemma with_shift_inject:
  "with_shift s k = with_shift s' k' \<longleftrightarrow> s = s' \<and> vertex_i k = vertex_i k' \<and> vertex_j k = vertex_j k'
     \<and> internal_linker_indices k = internal_linker_indices k'
     \<and> internal_linker_image_offsets k = internal_linker_image_offsets k' \<and> rule_id k = rule_id k'"
  by (cases k; cases k') auto

lemma regauge_edge_key_inject:
  assumes "image_shift (edge_key a) = raw_image_shift a" and "image_shift (edge_key b) = raw_image_shift b"
    and "edge_key (regauge_edge g a) = edge_key (regauge_edge g b)"
  shows "edge_key a = edge_key b"
  using assms by (cases "edge_key a"; cases "edge_key b")
    (auto simp: regauge_edge_def subtract_shift_right_cancel)

lemma normalize_framework_gauge_Inr:
  assumes valid: "\<forall>edge \<in> set provisional. valid_edge nsym edge
      \<and> image_shift (edge_key edge) = raw_image_shift edge
      \<and> fst (edge_ends edge) \<in> set vs \<and> snd (edge_ends edge) \<in> set vs"
    and distinct: "distinct (map edge_key provisional)"
  shows "\<exists>g. normalize_framework_gauge nsym vs provisional =
    Inr (sort_key edge_key (map (regauge_edge g) provisional))"
proof -
  obtain gauge where gauge: "vertex_gauge vs provisional = Inr gauge" "set vs \<subseteq> dom gauge"
    using vertex_gauge_total[of provisional vs] valid by blast
  let ?g = "\<lambda>v. the (gauge v)"
  have edges: "mapE (normalize_edge nsym gauge) provisional = Inr (map (regauge_edge ?g) provisional)"
    using valid gauge(2) by (intro mapE_total normalize_edge_Inr) (auto simp: edge_ends_def)
  have "inj_on (\<lambda>edge. edge_key (regauge_edge ?g edge)) (set provisional)"
  proof (rule inj_onI)
    fix a b assume ab: "a \<in> set provisional" "b \<in> set provisional"
      "edge_key (regauge_edge ?g a) = edge_key (regauge_edge ?g b)"
    have "edge_key a = edge_key b"
      using valid ab(1,2) by (intro regauge_edge_key_inject[OF _ _ ab(3)]) blast+
    moreover have "inj_on edge_key (set provisional)" using distinct by (simp add: distinct_map)
    ultimately show "a = b" using ab(1,2) by (metis inj_onD)
  qed
  then have "distinct (map (edge_key \<circ> regauge_edge ?g) provisional)"
    using distinct unfolding distinct_map by (simp add: comp_def)
  then have "normalize_framework_gauge nsym vs provisional =
      Inr (sort_key edge_key (map (regauge_edge ?g) provisional))"
    using edges gauge(1) by (simp add: normalize_framework_gauge_def)
  then show ?thesis by blast
qed

section \<open>Component labels name components\<close>

text \<open>
  What holds after some roots: every labelled vertex is connected to the root whose search found
  it, carries that root's number, and the numbers of distinct roots are distinct and used up to
  the counter.
\<close>

definition component_state ::
  "nat list \<Rightarrow> framework_edge_path list \<Rightarrow> (nat \<Rightarrow> nat) \<Rightarrow> (nat \<Rightarrow> nat) \<Rightarrow> (nat \<rightharpoonup> nat) \<Rightarrow> nat \<Rightarrow> bool" where
  "component_state vs es origin number labels component \<longleftrightarrow>
     search_result (\<lambda>a _. a) (\<lambda>_ _. None) (component_adjacency vs es)
       (\<lambda>r v c. (joined es)\<^sup>*\<^sup>* r v \<and> c = number r) origin labels
     \<and> origin ` dom labels \<subseteq> dom labels
     \<and> bij_betw number (origin ` dom labels) {..<component}"

lemma search_result_mono:
  assumes "search_result ext clash adj I origin L"
    and "\<And>v a. L v = Some a \<Longrightarrow> I (origin v) v a \<Longrightarrow> I' (origin v) v a"
  shows "search_result ext clash adj I' origin L"
  using assms unfolding search_result_def by blast

lemma follows_joined:
  "follows (\<lambda>a _. a) (component_adjacency vs es) (\<lambda>r v c. (joined es)\<^sup>*\<^sup>* r v \<and> c = number r)"
  unfolding follows_def
  by (auto simp: component_adjacency_joined intro: rtranclp.rtrancl_into_rtrancl)

lemma component_step_state:
  assumes "component_state vs es origin number labels component" and fresh: "root \<notin> dom labels"
    and bfs: "label_bfs (\<lambda>a _. a) (\<lambda>_ _. None) (component_adjacency vs es) [root]
      (labels(root \<mapsto> component)) = Inr labels'"
  shows "component_state vs es (\<lambda>v. if v \<in> dom labels then origin v else root)
      (number(root := component)) labels' (Suc component) \<and> insert root (dom labels) \<subseteq> dom labels'"
proof -
  let ?number = "number(root := component)" and ?origin = "\<lambda>v. if v \<in> dom labels then origin v else root"
  let ?I = "\<lambda>number r v c. (joined es)\<^sup>*\<^sup>* r v \<and> c = number r"
  from assms(1) have before: "search_result (\<lambda>a _. a) (\<lambda>_ _. None) (component_adjacency vs es)
      (?I number) origin labels" and closed: "origin ` dom labels \<subseteq> dom labels"
    and bij: "bij_betw number (origin ` dom labels) {..<component}"
    by (simp_all only: component_state_def)
  have roots: "origin v \<noteq> root" if "v \<in> dom labels" for v using closed fresh that by blast
  have before': "search_result (\<lambda>a _. a) (\<lambda>_ _. None) (component_adjacency vs es)
      (?I ?number) origin labels"
    by (rule search_result_mono[OF before]) (use roots in force)
  have "search_result (\<lambda>a _. a) (\<lambda>_ _. None) (component_adjacency vs es) (?I ?number) ?origin labels'
      \<and> insert root (dom labels) \<subseteq> dom labels' \<and> (\<forall>v \<in> dom labels. labels' v = labels v)"
    by (rule components.label_bfs_extends[OF before' fresh bfs follows_joined]) simp
  moreover have image: "?origin ` dom labels' = insert root (origin ` dom labels)"
    if "insert root (dom labels) \<subseteq> dom labels'"
  proof -
    have "dom labels' = dom labels \<union> (dom labels' - dom labels)" using that by blast
    then have "?origin ` dom labels' = ?origin ` dom labels \<union> ?origin ` (dom labels' - dom labels)"
      by (metis image_Un)
    moreover have "?origin ` (dom labels' - dom labels) = {root}" using that fresh by auto
    moreover have "?origin ` dom labels = origin ` dom labels" by simp
    ultimately show ?thesis by simp
  qed
  moreover have "bij_betw ?number (insert root (origin ` dom labels)) {..<Suc component}"
  proof -
    have "bij_betw ?number (origin ` dom labels) {..<component}"
      using bij by (rule bij_betw_cong[THEN iffD1, rotated]) (use roots in auto)
    moreover have "root \<notin> origin ` dom labels" using roots by blast
    ultimately show ?thesis
      using notIn_Un_bij_betw[of root "origin ` dom labels" ?number "{..<component}"]
      by (simp add: lessThan_Suc)
  qed
  ultimately have result: "search_result (\<lambda>a _. a) (\<lambda>_ _. None) (component_adjacency vs es) (?I ?number) ?origin labels'"
    and dom: "insert root (dom labels) \<subseteq> dom labels'"
    and image: "?origin ` dom labels' = insert root (origin ` dom labels)"
    and bij': "bij_betw ?number (insert root (origin ` dom labels)) {..<Suc component}" by blast+
  from dom have dom': "root \<in> dom labels'" "dom labels \<subseteq> dom labels'" by (simp_all only: insert_subset)
  have "insert root (origin ` dom labels) \<subseteq> dom labels'"
    unfolding insert_subset by (rule conjI[OF dom'(1) subset_trans[OF closed dom'(2)]])
  with result dom bij' show ?thesis
    unfolding component_state_def image by blast
qed

lemma label_components_result:
  assumes "label_components (component_adjacency vs es) roots = Inr (labels, component)"
  shows "\<exists>origin number. component_state vs es origin number labels component \<and> set roots \<subseteq> dom labels"
proof -
  have "\<exists>origin number. component_state vs es origin number labels component
      \<and> set roots \<union> dom L0 \<subseteq> dom labels"
    if "foldE (component_step (component_adjacency vs es)) roots (L0, c0) = Inr (labels, component)"
      "component_state vs es origin number L0 c0" for L0 c0 origin number
    using that
  proof (induction roots arbitrary: L0 c0 origin number)
    case (Cons root roots)
    show ?case
    proof (cases "root \<in> dom L0")
      case True
      with Cons.prems(1) have "foldE (component_step (component_adjacency vs es)) roots (L0, c0)
          = Inr (labels, component)" by (simp add: component_step_def)
      from Cons.IH[OF this Cons.prems(2)] obtain origin' number'
        where "component_state vs es origin' number' labels component" "set roots \<union> dom L0 \<subseteq> dom labels"
        by blast
      moreover from this(2) True have "set (root # roots) \<union> dom L0 \<subseteq> dom labels" by auto
      ultimately show ?thesis by blast
    next
      case False
      with Cons.prems(1) obtain L1 where
        bfs: "label_bfs (\<lambda>a _. a) (\<lambda>_ _. None) (component_adjacency vs es) [root] (L0(root \<mapsto> c0)) = Inr L1"
        and rest: "foldE (component_step (component_adjacency vs es)) roots (L1, Suc c0) = Inr (labels, component)"
        by (auto simp: component_step_def bindE_Inr_iff simp del: domIff label_bfs.simps)
      note step = component_step_state[OF Cons.prems(2) False bfs]
      from Cons.IH[OF rest conjunct1[OF step]] obtain origin' number'
        where "component_state vs es origin' number' labels component" "set roots \<union> dom L1 \<subseteq> dom labels"
        by blast
      moreover have "insert root (dom L0) \<subseteq> dom L1" using step by (rule conjunct2)
      then have "set (root # roots) \<union> dom L0 \<subseteq> dom labels"
        using calculation(2) by (simp only: list.set) blast
      ultimately show ?thesis by blast
    qed
  qed auto
  moreover have "component_state vs es undefined id Map.empty 0"
    by (simp add: component_state_def search_result_def)
  ultimately show ?thesis using assms unfolding label_components_def by (metis le_sup_iff)
qed

lemma component_state_connected:
  assumes state: "component_state vs es origin number labels component" and dom: "set vs \<subseteq> dom labels"
    and ends: "\<forall>edge \<in> set es. fst (edge_ends edge) \<in> set vs \<and> snd (edge_ends edge) \<in> set vs"
    and v: "v \<in> set vs" and w: "w \<in> set vs"
  shows "labels v = labels w \<longleftrightarrow> (joined es)\<^sup>*\<^sup>* v w"
proof -
  from state have result: "search_result (\<lambda>a _. a) (\<lambda>_ _. None) (component_adjacency vs es)
      (\<lambda>r v c. (joined es)\<^sup>*\<^sup>* r v \<and> c = number r) origin labels"
    and bij: "bij_betw number (origin ` dom labels) {..<component}"
    by (simp_all only: component_state_def)
  have label: "(joined es)\<^sup>*\<^sup>* (origin u) u \<and> labels u = Some (number (origin u))" if "u \<in> set vs" for u
  proof -
    from dom that obtain c where "labels u = Some c" by auto
    with search_result_label[OF result this] show ?thesis by simp
  qed
  have edge: "x \<in> set vs \<and> origin x = origin u" if "u \<in> set vs" "joined es u x" for u x
  proof (cases "x = u")
    case False
    have "x \<in> set vs" using that(2) ends unfolding joined_def by force
    moreover from that(1) have adj: "map_of (component_adjacency vs es) u
        = Some (map (\<lambda>w. (w, ())) (component_neighbours es u))"
      by (simp add: map_of_component_adjacency)
    have "(x, ()) \<in> set (map (\<lambda>w. (w, ())) (component_neighbours es u))"
      using False that(2) by (simp add: component_neighbours_joined)
    from search_result_edge(1)[OF result conjunct2[OF label[OF that(1)]] adj this]
    have "origin x = origin u" .
    ultimately show ?thesis by simp
  qed (use that in simp)
  show ?thesis
  proof
    assume "labels v = labels w"
    then have "number (origin v) = number (origin w)" using label[OF v] label[OF w] by simp
    moreover have "origin v \<in> origin ` dom labels" "origin w \<in> origin ` dom labels"
      using dom v w by blast+
    ultimately have "origin v = origin w" using bij_betw_imp_inj_on[OF bij] by (metis inj_onD)
    moreover have "symp (joined es)" using joined_sym by (auto intro: sympI)
    then have "(joined es)\<^sup>*\<^sup>* v (origin v)"
      using label[OF v] by (meson symp_rtranclp sympD)
    ultimately show "(joined es)\<^sup>*\<^sup>* v w" using label[OF w] by (simp add: rtranclp_trans)
  next
    assume "(joined es)\<^sup>*\<^sup>* v w"
    then have "w \<in> set vs \<and> origin w = origin v"
      by induction (use v edge in auto)
    then show "labels v = labels w" using label v by simp
  qed
qed

lemma label_components_total:
  assumes ends: "\<forall>edge \<in> set es. fst (edge_ends edge) \<in> set vs \<and> snd (edge_ends edge) \<in> set vs"
  shows "\<exists>r. label_components (component_adjacency vs es) vs = Inr r"
proof -
  let ?adj = "component_adjacency vs es"
  have dom: "dom (map_of ?adj) = set vs"
    by (auto simp: map_of_component_adjacency split: if_splits)
  have closed: "fst ` set ns \<subseteq> dom (map_of ?adj)" if ns: "map_of ?adj v = Some ns" for v ns
  proof -
    have "w \<in> set vs" if "(w, u) \<in> set ns" for w u
      using that ends component_adjacency_joined[OF ns, of w u] unfolding joined_def by force
    then show ?thesis unfolding dom by force
  qed
  have "\<exists>r. foldE (component_step ?adj) roots (L0, c0) = Inr r"
    if "component_state vs es origin number L0 c0" "dom L0 \<subseteq> set vs" "set roots \<subseteq> set vs"
    for roots L0 c0 origin number
    using that
  proof (induction roots arbitrary: L0 c0 origin number)
    case (Cons root roots)
    show ?case
    proof (cases "root \<in> dom L0")
      case True
      with Cons.IH[OF Cons.prems(1,2)] Cons.prems(3) show ?thesis by (simp add: component_step_def)
    next
      case False
      from Cons.prems(1) have "search_result (\<lambda>a _. a) (\<lambda>_ _. None) ?adj
          (\<lambda>r v c. (joined es)\<^sup>*\<^sup>* r v \<and> c = number r) origin L0"
        by (simp only: component_state_def)
      from components.search_result_finished[OF this] have finished: "finished ?adj (dom L0)" .
      have "\<exists>L'. label_bfs (\<lambda>a _. a) (\<lambda>_ _. None) ?adj [root] (L0(root \<mapsto> c0)) = Inr L'
          \<and> dom L' \<subseteq> dom (map_of ?adj)"
        by (rule components.label_bfs_succeeds[where I = "\<lambda>_ _ _. True", OF finished closed])
          (use False Cons.prems(2,3) in \<open>auto simp: follows_def dom\<close>)
      then obtain L1 where L1: "label_bfs (\<lambda>a _. a) (\<lambda>_ _. None) ?adj [root] (L0(root \<mapsto> c0)) = Inr L1"
        "dom L1 \<subseteq> set vs" unfolding dom by blast
      note step = component_step_state[OF Cons.prems(1) False L1(1)]
      have "component_step ?adj root (L0, c0) = Inr (L1, Suc c0)"
        using False L1(1) by (simp add: component_step_def)
      then show ?thesis
        using Cons.IH[OF conjunct1[OF step] L1(2)] Cons.prems(3) by simp
    qed
  qed simp
  from this[of undefined id Map.empty 0 vs] show ?thesis
    unfolding label_components_def by (simp add: component_state_def search_result_def)
qed

lemma component_labels_range:
  assumes state: "component_state vs es origin number labels component"
    and dom: "dom labels = set vs"
  shows "(\<lambda>v. the (labels v)) ` set vs = {..<component}"
proof -
  from state have result: "search_result (\<lambda>a _. a) (\<lambda>_ _. None) (component_adjacency vs es)
      (\<lambda>r v c. (joined es)\<^sup>*\<^sup>* r v \<and> c = number r) origin labels"
    and bij: "bij_betw number (origin ` dom labels) {..<component}"
    by (simp_all only: component_state_def)
  have label: "the (labels v) = number (origin v)" if v: "v \<in> set vs" for v
  proof -
    from dom v obtain c where "labels v = Some c" by blast
    with search_result_label[OF result this] show ?thesis by simp
  qed
  then have "(\<lambda>v. the (labels v)) ` set vs = number ` origin ` set vs"
    by (simp add: image_image)
  then show ?thesis using bij_betw_imp_surj_on[OF bij] by (simp only: dom)
qed

lemma sum_list_degree:
  assumes "distinct vs" and "fst (edge_ends e) \<in> set vs" and "snd (edge_ends e) \<in> set vs"
  shows "sum_list (map (framework_degree [e]) vs) = 2"
proof -
  obtain i j where e: "edge_ends e = (i, j)" by (cases "edge_ends e")
  have count: "sum_list (map (\<lambda>v. if i = v then c else 0) vs) = c" if "i \<in> set vs" for i and c :: nat
    using that assms(1) by (induction vs) (auto intro!: sum_list_0)
  show ?thesis
  proof (cases "i = j")
    case True
    have "framework_degree [e] = (\<lambda>v. if i = v then 2 else 0)"
      using True by (auto simp: framework_degree_def e)
    with count[of i 2] assms(2) show ?thesis by (simp add: e)
  next
    case False
    have "framework_degree [e] = (\<lambda>v. (if i = v then 1 else 0) + (if j = v then 1 else 0))"
      using False by (auto simp: framework_degree_def e)
    with count[of i 1] count[of j 1] assms(2,3) show ?thesis by (simp add: e sum_list_addf)
  qed
qed

lemma framework_degree_Cons: "framework_degree (e # es) v = framework_degree [e] v + framework_degree es v"
  by (simp add: framework_degree_def)

lemma handshake:
  assumes "distinct vs"
    and "\<forall>edge \<in> set es. fst (edge_ends edge) \<in> set vs \<and> snd (edge_ends edge) \<in> set vs"
  shows "sum_list (map (framework_degree es) vs) = 2 * length es"
  using assms(2)
proof (induction es)
  case (Cons e es)
  have "framework_degree (e # es) = (\<lambda>v. framework_degree [e] v + framework_degree es v)"
    by (rule ext) (rule framework_degree_Cons)
  then show ?case
    using sum_list_degree[OF assms(1), of e] Cons by (simp add: sum_list_addf)
qed (simp add: framework_degree_def)

lemma component_data_correct:
  assumes ends: "\<forall>edge \<in> set es. fst (edge_ends edge) \<in> set vs \<and> snd (edge_ends edge) \<in> set vs"
    and "distinct vs"
  shows "\<exists>ls n. component_data vs es = Inr (ls, n, map (framework_degree es) vs)
    \<and> length ls = length vs \<and> set ls = {..<n}
    \<and> (\<forall>a < length vs. \<forall>b < length vs. ls ! a = ls ! b \<longleftrightarrow> (joined es)\<^sup>*\<^sup>* (vs ! a) (vs ! b))
    \<and> sum_list (map (framework_degree es) vs) = 2 * length es"
proof -
  obtain labels n where run: "label_components (component_adjacency vs es) vs = Inr (labels, n)"
    using label_components_total[OF ends] by auto
  obtain origin number where state: "component_state vs es origin number labels n"
    and dom: "set vs \<subseteq> dom labels"
    using label_components_result[OF run] by blast
  have "dom labels = set vs"
  proof
    show "dom labels \<subseteq> set vs"
    proof
      fix v assume "v \<in> dom labels"
      then obtain ns where "map_of (component_adjacency vs es) v = Some ns"
        using state unfolding component_state_def search_result_def by blast
      then show "v \<in> set vs" by (simp add: map_of_component_adjacency split: if_splits)
    qed
  qed (rule dom)
  let ?ls = "map (\<lambda>v. the (labels v)) vs"
  have "mapE (\<lambda>v. case labels v of None \<Rightarrow> Inl (KeyError (Text '''')) | Some c \<Rightarrow> Inr c) vs = Inr ?ls"
    by (rule mapE_total) (use dom in \<open>auto simp: dom_def split: option.splits\<close>)
  then have "component_data vs es = Inr (?ls, n, map (framework_degree es) vs)"
    using ends run by (simp add: component_data_def)
  moreover have "set ?ls = {..<n}"
    using component_labels_range[OF state \<open>dom labels = set vs\<close>] by simp
  moreover have "?ls ! a = ?ls ! b \<longleftrightarrow> (joined es)\<^sup>*\<^sup>* (vs ! a) (vs ! b)"
    if "a < length vs" "b < length vs" for a b
  proof -
    from that have "vs ! a \<in> dom labels" "vs ! b \<in> dom labels" using dom nth_mem by blast+
    then have "?ls ! a = ?ls ! b \<longleftrightarrow> labels (vs ! a) = labels (vs ! b)" using that by force
    then show ?thesis using component_state_connected[OF state dom ends] that by simp
  qed
  ultimately show ?thesis using handshake[OF assms(2) ends] by auto
qed

section \<open>Properties\<close>

text \<open>C35: the atomic adjacency names the physical graph: it succeeds on every state, it is the
  input's framework-relevant edges seen in some gauge, and a state given in another gauge yields
  the very same adjacency.\<close>
theorem oriented_adjacency_physical:
  "(\<exists>g. oriented_adjacency state roles = Inr (sort_adjacency (directed_adjacency negate_shift
      (relevant_atoms roles) (regauge_edges g (relevant_edges state roles)))))
   \<and> oriented_adjacency (state\<lparr>state_edges := regauge_edges h (state_edges state)\<rparr>) roles
     = oriented_adjacency state roles"
  by (rule conjI[OF oriented_adjacency_total oriented_adjacency_invariant])

text \<open>C36: on edges whose ends are listed vertices, component data is computed without error; two
  vertices get the same label exactly when projected edges connect them, the labels are numbered
  without gaps, and the degrees count every edge twice.\<close>
theorem component_data_exact:
  assumes "\<forall>edge \<in> set es. fst (edge_ends edge) \<in> set vs \<and> snd (edge_ends edge) \<in> set vs"
    and "distinct vs"
  shows "\<exists>ls n. component_data vs es = Inr (ls, n, map (framework_degree es) vs)
    \<and> length ls = length vs \<and> set ls = {..<n}
    \<and> (\<forall>a < length vs. \<forall>b < length vs. ls ! a = ls ! b \<longleftrightarrow> (joined es)\<^sup>*\<^sup>* (vs ! a) (vs ! b))
    \<and> sum_list (map (framework_degree es) vs) = 2 * length es"
  by (rule component_data_correct[OF assms])

theorem component_data_exact_witness:
  "\<exists>ls n. component_data [0, 2, 5] [example_edge] =
      Inr (ls, n, map (framework_degree [example_edge]) [0, 2, 5])
    \<and> length ls = length [0, 2, 5 :: nat] \<and> set ls = {..<n}
    \<and> (\<forall>a < length [0, 2, 5 :: nat]. \<forall>b < length [0, 2, 5 :: nat].
         ls ! a = ls ! b \<longleftrightarrow> (joined [example_edge])\<^sup>*\<^sup>* ([0, 2, 5] ! a) ([0, 2, 5] ! b))
    \<and> sum_list (map (framework_degree [example_edge]) [0, 2, 5]) = 2 * length [example_edge]"
  by (rule component_data_exact) (simp_all add: example_edge_def edge_ends_def)

text \<open>The vertex gauge of valid, distinctly keyed edges is computed without error, and the
  result is the same edges seen in some vertex gauge, sorted by key.\<close>
theorem normalize_framework_gauge_total:
  assumes "\<forall>edge \<in> set provisional. valid_edge nsym edge
      \<and> image_shift (edge_key edge) = raw_image_shift edge
      \<and> fst (edge_ends edge) \<in> set vs \<and> snd (edge_ends edge) \<in> set vs"
    and "distinct (map edge_key provisional)"
  shows "\<exists>g. normalize_framework_gauge nsym vs provisional =
    Inr (sort_key edge_key (map (regauge_edge g) provisional))"
  by (rule normalize_framework_gauge_Inr[OF assms])

lemma example_edge_valid: "valid_edge 119 example_edge"
  by code_simp

theorem normalize_framework_gauge_total_witness:
  "\<exists>g. normalize_framework_gauge 119 [0, 2] [example_edge] =
    Inr (sort_key edge_key (map (regauge_edge g) [example_edge]))"
  by (rule normalize_framework_gauge_total)
    (simp_all add: example_edge_valid, simp_all add: example_edge_def edge_ends_def)

end
