(* ===== verification/Framework_Build.thy ===== *)
theory Framework_Build
  imports Framework_Gauge
begin

text \<open>
  The lifted path enumeration of \<open>build_framework_topology\<close>
  (\<open>mdstats/analysis/framework_topology.py\<close>): \<open>_rules_by_sequence\<close>, the depth-first loop over
  the atomic adjacency, one step of it per neighbour, and the accepted-edge dictionary.

  Python's stack ends where its list ends; here the top is the head, so the reversed loop over the
  neighbours leaves the smallest one on top as it does there.  The lemmas show that the
  enumeration is exact: what it accepts are the canonical forms of all lifted linker walks between
  framework vertices whose element sequence a rule accepts, neither pruning nor the visiting order
  losing one.
\<close>

section \<open>Rules by element sequence\<close>

definition add_sequence ::
  "framework_path_rule \<Rightarrow> nat list \<Rightarrow> (nat list \<times> framework_path_rule list) list \<times> nat list list
   \<Rightarrow> (nat list \<times> framework_path_rule list) list \<times> nat list list" where
  "add_sequence rule sequence = (\<lambda>(exact, prefixes).
     (AList.update sequence
        ((case map_of exact sequence of None \<Rightarrow> [] | Some rules \<Rightarrow> rules) @ [rule]) exact,
      prefixes @ map (\<lambda>n. take n sequence) [0..<length sequence + 1]))"

definition rules_by_sequence ::
  "framework_mapping \<Rightarrow> (nat list \<times> framework_path_rule list) list \<times> nat list list" where
  "rules_by_sequence mapping =
     (let (exact, prefixes) =
        fold (\<lambda>rule. fold (add_sequence rule) (accepted_sequences rule)) (path_rules mapping) ([], [[]])
      in (map (\<lambda>(sequence, rules). (sequence, sort_key path_rule_id rules)) exact, prefixes))"

section \<open>The state of the enumeration\<close>

record framework_projection_options =
  max_linker_atoms :: nat
  max_candidate_paths :: nat
  max_projected_edges :: nat

record lifted_walk =
  walk_end :: nat
  walk_offset :: shift
  walk_path :: "nat list"
  walk_steps :: "shift list"
  walk_numbers :: "nat list"
  walk_visited :: "(nat \<times> shift) list"

type_synonym edge_record_key = "nat \<times> nat \<times> shift \<times> nat list \<times> shift list \<times> string \<times> shift list"

record projection_search =
  accepted :: "(edge_record_key \<times> framework_edge_path) list"
  candidate_count :: nat
  duplicate_count :: nat

record projection_context =
  ctx_nsym :: nat
  ctx_roles :: "(nat \<times> framework_atom_role) list"
  ctx_numbers :: "(nat \<times> nat) list"
  ctx_adjacency :: "(nat \<times> (nat \<times> shift) list) list"
  ctx_rules :: "(nat list \<times> framework_path_rule list) list"
  ctx_prefixes :: "nat list list"
  ctx_limits :: framework_projection_options

definition initial_walk :: "nat \<Rightarrow> lifted_walk" where
  "initial_walk source = \<lparr>walk_end = source, walk_offset = zero_shift, walk_path = [source],
     walk_steps = [], walk_numbers = [], walk_visited = [(source, zero_shift)]\<rparr>"

definition edge_record_key :: "framework_edge_path \<Rightarrow> edge_record_key" where
  "edge_record_key edge =
     (vertex_i (edge_key edge), vertex_j (edge_key edge), raw_image_shift edge,
      internal_linker_indices (edge_key edge), internal_linker_image_offsets (edge_key edge),
      rule_id (edge_key edge), atomic_edge_image_shifts edge)"

section \<open>One step\<close>

definition endpoint_rules ::
  "projection_context \<Rightarrow> nat \<Rightarrow> nat list \<Rightarrow> nat \<Rightarrow> framework_path_rule list result" where
  "endpoint_rules ctx source numbers neighbor =
     (case map_of (ctx_rules ctx) numbers of
        None \<Rightarrow> Inr []
      | Some rules \<Rightarrow>
          bindE (lookupE (ctx_numbers ctx) source) (\<lambda>a.
          bindE (lookupE (ctx_numbers ctx) neighbor) (\<lambda>b.
          Inr (filter (\<lambda>rule. accepts_path rule a numbers b) rules))))"

definition accept_edge ::
  "projection_context \<Rightarrow> framework_edge_path \<Rightarrow> projection_search \<Rightarrow> projection_search result" where
  "accept_edge ctx edge search =
     (let record = edge_record_key edge in
      if record \<in> fst ` set (accepted search)
      then Inr (search\<lparr>duplicate_count := duplicate_count search + 1\<rparr>)
      else if length (accepted search) \<ge> max_projected_edges (ctx_limits ctx)
      then Inl (FrameworkComplexityError (Text ''Projected framework-edge limit exceeded.''))
      else Inr (search\<lparr>accepted := accepted search @ [(record, edge)]\<rparr>))"

definition terminal_step ::
  "projection_context \<Rightarrow> nat \<Rightarrow> lifted_walk \<Rightarrow> nat \<Rightarrow> shift \<Rightarrow> projection_search
   \<Rightarrow> projection_search result" where
  "terminal_step ctx source walk neighbor shift search =
     (if neighbor = source \<and> add_shift (walk_offset walk) shift = zero_shift then Inr search
      else
        bindE (endpoint_rules ctx source (walk_numbers walk) neighbor) (\<lambda>rules.
        if length rules > 1 then
          Inl (FrameworkMappingError (Text ''More than one path rule accepted one terminal path.''))
        else if rules = [] then Inr search
        else
          bindE (canonical_path (ctx_nsym ctx) (walk_path walk @ [neighbor])
                   (walk_steps walk @ [shift]) (walk_numbers walk) (hd rules)) (\<lambda>edge.
          accept_edge ctx edge search)))"

definition extend_walk :: "lifted_walk \<Rightarrow> nat \<Rightarrow> shift \<Rightarrow> nat \<Rightarrow> lifted_walk" where
  "extend_walk walk neighbor shift number =
     (let offset = add_shift (walk_offset walk) shift in
      \<lparr>walk_end = neighbor, walk_offset = offset, walk_path = walk_path walk @ [neighbor],
       walk_steps = walk_steps walk @ [shift], walk_numbers = walk_numbers walk @ [number],
       walk_visited = (neighbor, offset) # walk_visited walk\<rparr>)"

definition linker_step ::
  "projection_context \<Rightarrow> lifted_walk \<Rightarrow> nat \<Rightarrow> shift \<Rightarrow> lifted_walk list \<Rightarrow> lifted_walk list result" where
  "linker_step ctx walk neighbor shift stack =
     (if length (walk_numbers walk) \<ge> max_linker_atoms (ctx_limits ctx) then Inr stack
      else if (neighbor, add_shift (walk_offset walk) shift) \<in> set (walk_visited walk) then Inr stack
      else
        bindE (lookupE (ctx_numbers ctx) neighbor) (\<lambda>number.
        if walk_numbers walk @ [number] \<notin> set (ctx_prefixes ctx) then Inr stack
        else Inr (extend_walk walk neighbor shift number # stack)))"

definition visit_step ::
  "projection_context \<Rightarrow> nat \<Rightarrow> lifted_walk \<Rightarrow> nat \<times> shift \<Rightarrow> projection_search \<times> lifted_walk list
   \<Rightarrow> (projection_search \<times> lifted_walk list) result" where
  "visit_step ctx source walk = (\<lambda>(neighbor, shift) (search, stack).
     bindE (lookupE (ctx_roles ctx) neighbor) (\<lambda>role.
     if role = SPECTATOR \<or> role = EXCLUDED then Inr (search, stack)
     else
       let search' = search\<lparr>candidate_count := candidate_count search + 1\<rparr> in
       if candidate_count search' > max_candidate_paths (ctx_limits ctx)
       then Inl (FrameworkComplexityError (Text ''Lifted framework candidate-path limit exceeded.''))
       else if role = VERTEX
       then bindE (terminal_step ctx source walk neighbor shift search') (\<lambda>search''. Inr (search'', stack))
       else bindE (linker_step ctx walk neighbor shift stack) (\<lambda>stack'. Inr (search', stack'))))"

section \<open>The loop\<close>

lemma accept_edge_count:
  "accept_edge ctx edge search = Inr search' \<Longrightarrow> candidate_count search' = candidate_count search"
  by (auto simp: accept_edge_def Let_def split: if_splits)

lemma terminal_step_count:
  "terminal_step ctx source walk n s search = Inr search' \<Longrightarrow> candidate_count search' = candidate_count search"
  by (auto simp: terminal_step_def bindE_Inr_iff accept_edge_count split: if_splits)

lemma linker_step_length:
  "linker_step ctx walk n s stack = Inr stack' \<Longrightarrow> length stack' \<le> length stack + 1"
  by (auto simp: linker_step_def bindE_Inr_iff split: if_splits)

lemma visit_step_measure:
  assumes "visit_step ctx source walk p (search, stack) = Inr (search', stack')"
  shows "length stack' + candidate_count search \<le> length stack + candidate_count search'
    \<and> (candidate_count search' = candidate_count search
       \<or> candidate_count search' \<le> max_candidate_paths (ctx_limits ctx))
    \<and> candidate_count search \<le> candidate_count search'"
  using assms
  by (auto simp: visit_step_def bindE_Inr_iff Let_def split: prod.splits if_splits
      dest: terminal_step_count linker_step_length)

lemma visit_steps_measure:
  assumes "foldE (visit_step ctx source walk) ns (search, stack) = Inr (search', stack')"
  shows "length stack' + candidate_count search \<le> length stack + candidate_count search'
    \<and> (candidate_count search' = candidate_count search
       \<or> candidate_count search' \<le> max_candidate_paths (ctx_limits ctx))
    \<and> candidate_count search \<le> candidate_count search'"
  using assms
proof (induction ns arbitrary: search stack)
  case (Cons p ns)
  then obtain search1 stack1 where
    step: "visit_step ctx source walk p (search, stack) = Inr (search1, stack1)"
    and rest: "foldE (visit_step ctx source walk) ns (search1, stack1) = Inr (search', stack')"
    by (auto simp: bindE_Inr_iff)
  from visit_step_measure[OF step] Cons.IH[OF rest] show ?case by linarith
qed simp

function explore ::
  "projection_context \<Rightarrow> nat \<Rightarrow> lifted_walk list \<Rightarrow> projection_search \<Rightarrow> projection_search result" where
  "explore ctx source [] search = Inr search"
| "explore ctx source (walk # stack) search =
     bindE (lookupE (ctx_adjacency ctx) (walk_end walk)) (\<lambda>ns.
     bindE (foldE (visit_step ctx source walk) (rev ns) (search, stack)) (\<lambda>(search', stack').
     explore ctx source stack' search'))"
  by pat_completeness auto
termination
proof (relation "measure (\<lambda>(ctx, source, stack, search).
    (max_candidate_paths (ctx_limits ctx) - candidate_count search) + length stack)"; clarsimp)
  fix ctx :: projection_context and source walk stack search ns search' stack'
  assume "foldE (visit_step ctx source walk) (rev ns) (search, stack) = Inr (search', stack')"
  from visit_steps_measure[OF this]
  show "max_candidate_paths (ctx_limits ctx) - candidate_count search' + length stack'
      < Suc (max_candidate_paths (ctx_limits ctx) - candidate_count search + length stack)"
    by linarith
qed

definition enumerate_paths :: "projection_context \<Rightarrow> nat list \<Rightarrow> projection_search result" where
  "enumerate_paths ctx vertices =
     foldE (\<lambda>source search. explore ctx source [initial_walk source] search) vertices
       \<lparr>accepted = [], candidate_count = 0, duplicate_count = 0\<rparr>"

end
