(* ===== verification/Framework_Paths.thy ===== *)
theory Framework_Paths
  imports Framework_Build "HOL-Library.Sublist"
begin

text \<open>
  The path enumeration of \<open>build_framework_topology\<close> is exact.  A lifted walk is grown one linker
  at a time by \<open>child_of\<close>; \<open>terminal_of\<close> names the framework edge that a last step to a vertex
  closes.  The loop accepts the edges that close some walk grown from a framework vertex, and the
  walks so grown are all linker walks whose elements start some accepted sequence.
\<close>

section \<open>Rules by element sequence\<close>

definition rules_at :: "(nat list \<times> framework_path_rule list) list \<Rightarrow> nat list \<Rightarrow> framework_path_rule list" where
  "rules_at exact sequence = (case map_of exact sequence of None \<Rightarrow> [] | Some rules \<Rightarrow> rules)"

lemma rules_at_add_sequence:
  "rules_at (fst (add_sequence rule s (exact, starts))) sequence =
     rules_at exact sequence @ (if sequence = s then [rule] else [])"
  by (auto simp: rules_at_def add_sequence_def)

lemma set_prefixes_add_sequence:
  "set (snd (add_sequence rule s (exact, starts))) = set starts \<union> {p. prefix p s}"
proof -
  have "set (map (\<lambda>n. take n s) [0..<length s + 1]) = {p. prefix p s}"
  proof (intro equalityI subsetI)
    fix p assume "p \<in> {p. prefix p s}"
    then have "p = take (length p) s" "length p < length s + 1"
      by (auto simp: prefix_def)
    then show "p \<in> set (map (\<lambda>n. take n s) [0..<length s + 1])"
      by (metis atLeastLessThan_iff bot_nat_0.extremum image_eqI list.set_map set_upt)
  qed (auto simp: take_is_prefix)
  then show ?thesis by (simp add: add_sequence_def)
qed

lemma fold_add_sequence:
  assumes "distinct ss"
  shows "rules_at (fst (fold (add_sequence rule) ss state)) sequence =
      rules_at (fst state) sequence @ (if sequence \<in> set ss then [rule] else [])
    \<and> set (snd (fold (add_sequence rule) ss state)) = set (snd state) \<union> {p. \<exists>s \<in> set ss. prefix p s}"
  using assms
proof (induction ss arbitrary: state)
  case (Cons s ss)
  obtain exact starts where state: "state = (exact, starts)" by (cases state)
  show ?case
    using Cons.IH[of "add_sequence rule s state"] Cons.prems
      rules_at_add_sequence[of rule s exact starts sequence]
      set_prefixes_add_sequence[of rule s exact starts]
    by (auto simp: state)
qed simp

lemma distinct_accepted_sequences: "distinct (accepted_sequences rule)"
  by (simp add: accepted_sequences_def)

lemma fold_rules:
  "rules_at (fst (fold (\<lambda>rule. fold (add_sequence rule) (accepted_sequences rule)) rules state)) sequence =
      rules_at (fst state) sequence @ filter (\<lambda>rule. sequence \<in> set (accepted_sequences rule)) rules
    \<and> set (snd (fold (\<lambda>rule. fold (add_sequence rule) (accepted_sequences rule)) rules state)) =
      set (snd state) \<union> {p. \<exists>rule \<in> set rules. \<exists>s \<in> set (accepted_sequences rule). prefix p s}"
proof (induction rules arbitrary: state)
  case (Cons rule rules)
  show ?case
    using Cons.IH[of "fold (add_sequence rule) (accepted_sequences rule) state"]
      fold_add_sequence[OF distinct_accepted_sequences[of rule], of rule state sequence]
    by auto
qed simp

lemma rules_by_sequence_correct:
  assumes "rules_by_sequence mapping = (exact, starts)"
  shows "rules_at exact sequence =
      sort_key path_rule_id (filter (\<lambda>rule. sequence \<in> set (accepted_sequences rule)) (path_rules mapping))"
    and "set starts = {p. p = [] \<or>
      (\<exists>rule \<in> set (path_rules mapping). \<exists>s \<in> set (accepted_sequences rule). prefix p s)}"
proof -
  obtain raw where raw: "fold (\<lambda>rule. fold (add_sequence rule) (accepted_sequences rule))
      (path_rules mapping) ([], [[]]) = (raw, starts)"
    and exact: "exact = map (\<lambda>(sequence, rules). (sequence, sort_key path_rule_id rules)) raw"
    using assms by (auto simp: rules_by_sequence_def split: prod.splits)
  note facts = fold_rules[of "path_rules mapping" "([], [[]])", unfolded raw]
  have "map_of exact sequence = map_option (sort_key path_rule_id) (map_of raw sequence)"
    unfolding exact by (induction raw) auto
  then have "rules_at exact sequence = sort_key path_rule_id (rules_at raw sequence)"
    by (simp add: rules_at_def split: option.splits)
  then show "rules_at exact sequence =
      sort_key path_rule_id (filter (\<lambda>rule. sequence \<in> set (accepted_sequences rule)) (path_rules mapping))"
    using facts by (simp add: rules_at_def)
  show "set starts = {p. p = [] \<or>
      (\<exists>rule \<in> set (path_rules mapping). \<exists>s \<in> set (accepted_sequences rule). prefix p s)}"
    using facts by auto
qed

section \<open>What one walk can become\<close>

definition child_of ::
  "projection_context \<Rightarrow> lifted_walk \<Rightarrow> nat \<times> shift \<Rightarrow> lifted_walk option" where
  "child_of ctx walk = (\<lambda>(neighbor, shift).
     if map_of (ctx_roles ctx) neighbor = Some LINKER
        \<and> length (walk_numbers walk) < max_linker_atoms (ctx_limits ctx)
        \<and> (neighbor, add_shift (walk_offset walk) shift) \<notin> set (walk_visited walk)
     then case map_of (ctx_numbers ctx) neighbor of
            None \<Rightarrow> None
          | Some number \<Rightarrow>
              if walk_numbers walk @ [number] \<in> set (ctx_prefixes ctx)
              then Some (extend_walk walk neighbor shift number) else None
     else None)"

definition terminal_of ::
  "projection_context \<Rightarrow> nat \<Rightarrow> lifted_walk \<Rightarrow> nat \<times> shift \<Rightarrow> framework_edge_path \<Rightarrow> bool" where
  "terminal_of ctx source walk = (\<lambda>(neighbor, shift) edge.
     map_of (ctx_roles ctx) neighbor = Some VERTEX
     \<and> \<not> (neighbor = source \<and> add_shift (walk_offset walk) shift = zero_shift)
     \<and> (\<exists>rule. endpoint_rules ctx source (walk_numbers walk) neighbor = Inr [rule]
          \<and> canonical_path (ctx_nsym ctx) (walk_path walk @ [neighbor]) (walk_steps walk @ [shift])
              (walk_numbers walk) rule = Inr edge))"

definition step_from :: "projection_context \<Rightarrow> lifted_walk \<Rightarrow> nat \<times> shift \<Rightarrow> bool" where
  "step_from ctx walk p \<longleftrightarrow> (\<exists>ns. map_of (ctx_adjacency ctx) (walk_end walk) = Some ns \<and> p \<in> set ns)"

definition child :: "projection_context \<Rightarrow> lifted_walk \<Rightarrow> lifted_walk \<Rightarrow> bool" where
  "child ctx walk walk' \<longleftrightarrow> (\<exists>p. step_from ctx walk p \<and> child_of ctx walk p = Some walk')"

definition closes :: "projection_context \<Rightarrow> nat \<Rightarrow> lifted_walk \<Rightarrow> framework_edge_path \<Rightarrow> bool" where
  "closes ctx source walk edge \<longleftrightarrow> (\<exists>p. step_from ctx walk p \<and> terminal_of ctx source walk p edge)"

text \<open>The edges that some walk grown from one of \<open>walks\<close> closes.\<close>

definition edges_from :: "projection_context \<Rightarrow> nat \<Rightarrow> lifted_walk set \<Rightarrow> framework_edge_path set" where
  "edges_from ctx source walks =
     {edge. \<exists>walk \<in> walks. \<exists>walk'. (child ctx)\<^sup>*\<^sup>* walk walk' \<and> closes ctx source walk' edge}"

definition found :: "projection_search \<Rightarrow> framework_edge_path set \<Rightarrow> projection_search \<Rightarrow> bool" where
  "found search edges search' \<longleftrightarrow>
     (\<exists>added. accepted search' = accepted search @ added
        \<and> (\<forall>x \<in> set added. snd x \<in> edges \<and> fst x = edge_record_key (snd x)
              \<and> fst x \<notin> fst ` set (accepted search))
        \<and> distinct (map fst added))
     \<and> fst ` set (accepted search') = fst ` set (accepted search) \<union> edge_record_key ` edges"

section \<open>What the loop finds\<close>

lemma found_none: "accepted search' = accepted search \<Longrightarrow> found search {} search'"
  by (simp add: found_def)

lemma foundE:
  assumes "found s E s'"
  obtains a where "accepted s' = accepted s @ a" and "distinct (map fst a)"
    and "\<forall>x \<in> set a. snd x \<in> E \<and> fst x = edge_record_key (snd x) \<and> fst x \<notin> fst ` set (accepted s)"
    and "fst ` set (accepted s') = fst ` set (accepted s) \<union> edge_record_key ` E"
  using assms unfolding found_def by (elim conjE exE) (rule that)

lemma found_from_empty:
  assumes "found s E s'" and "accepted s = []"
  shows "distinct (map fst (accepted s'))"
    and "\<forall>x \<in> set (accepted s'). snd x \<in> E \<and> fst x = edge_record_key (snd x)"
    and "fst ` set (accepted s') = edge_record_key ` E"
proof -
  from assms(1) obtain a where "accepted s' = accepted s @ a" "distinct (map fst a)"
      "\<forall>x \<in> set a. snd x \<in> E \<and> fst x = edge_record_key (snd x) \<and> fst x \<notin> fst ` set (accepted s)"
      "fst ` set (accepted s') = fst ` set (accepted s) \<union> edge_record_key ` E"
    by (rule foundE)
  with assms(2) show "distinct (map fst (accepted s'))"
    and "\<forall>x \<in> set (accepted s'). snd x \<in> E \<and> fst x = edge_record_key (snd x)"
    and "fst ` set (accepted s') = edge_record_key ` E"
    by simp_all
qed

lemma found_trans:
  assumes "found s1 E s2" and "found s2 F s3"
  shows "found s1 (E \<union> F) s3"
proof -
  from assms(1) obtain a where a: "accepted s2 = accepted s1 @ a" "distinct (map fst a)"
      "\<forall>x \<in> set a. snd x \<in> E \<and> fst x = edge_record_key (snd x) \<and> fst x \<notin> fst ` set (accepted s1)"
    by (rule foundE)
  from assms(2) obtain b where b: "accepted s3 = accepted s2 @ b" "distinct (map fst b)"
      "\<forall>x \<in> set b. snd x \<in> F \<and> fst x = edge_record_key (snd x) \<and> fst x \<notin> fst ` set (accepted s2)"
    by (rule foundE)
  have fresh: "fst x \<notin> fst ` set (accepted s1)" "fst x \<notin> fst ` set a" if "x \<in> set b" for x
    using bspec[OF b(3) that] unfolding a(1) set_append image_Un by blast+
  have "fst ` set a \<inter> fst ` set b = {}"
  proof (intro equals0I, elim IntE imageE)
    fix r x y assume "r = fst x" "x \<in> set a" "r = fst y" "y \<in> set b"
    with fresh(2)[of y] show False by (metis image_eqI)
  qed
  then have 1: "distinct (map fst (a @ b))" using a(2) b(2) by simp
  have 2: "\<forall>x \<in> set (a @ b). snd x \<in> E \<union> F \<and> fst x = edge_record_key (snd x)
      \<and> fst x \<notin> fst ` set (accepted s1)"
    unfolding set_append ball_Un using a(3) b(3) fresh(1) by (intro conjI ballI) blast+
  have 3: "fst ` set (accepted s3) = fst ` set (accepted s1) \<union> edge_record_key ` (E \<union> F)"
    using assms unfolding found_def by (simp add: image_Un Un_assoc)
  have 4: "accepted s3 = accepted s1 @ (a @ b)" using a(1) b(1) by simp
  show ?thesis unfolding found_def using 1 2 3 4 by blast
qed

lemma accept_edge_found: "accept_edge ctx edge search = Inr search' \<Longrightarrow> found search {edge} search'"
  by (cases "edge_record_key edge \<in> fst ` set (accepted search)")
    (simp_all add: accept_edge_def found_def Let_def insert_absorb split: if_splits, force+)

lemma terminal_step_found:
  assumes step: "terminal_step ctx source walk n s search = Inr search'"
    and role: "map_of (ctx_roles ctx) n = Some VERTEX"
  shows "found search {edge. terminal_of ctx source walk (n, s) edge} search'"
proof (cases "n = source \<and> add_shift (walk_offset walk) s = zero_shift")
  case True
  with step show ?thesis by (auto simp: terminal_step_def terminal_of_def intro!: found_none)
next
  case False
  with step obtain rules where rules: "endpoint_rules ctx source (walk_numbers walk) n = Inr rules"
    and "\<not> length rules > 1"
    by (auto simp: terminal_step_def bindE_Inr_iff split: if_splits)
  then consider "rules = []" | rule where "rules = [rule]"
    by (cases rules) auto
  then show ?thesis
  proof cases
    case 1
    with step False rules show ?thesis by (auto simp: terminal_step_def terminal_of_def intro!: found_none)
  next
    case (2 rule)
    with step False rules obtain edge where
      edge: "canonical_path (ctx_nsym ctx) (walk_path walk @ [n]) (walk_steps walk @ [s])
        (walk_numbers walk) rule = Inr edge" and "accept_edge ctx edge search = Inr search'"
      by (auto simp: terminal_step_def bindE_Inr_iff)
    moreover have "{edge. terminal_of ctx source walk (n, s) edge} = {edge}"
      using False role rules edge 2 by (auto simp: terminal_of_def)
    ultimately show ?thesis by (simp add: accept_edge_found)
  qed
qed

lemma linker_step_child:
  assumes "linker_step ctx walk n s stack = Inr stack'" and "map_of (ctx_roles ctx) n = Some LINKER"
  shows "stack' = (case child_of ctx walk (n, s) of None \<Rightarrow> stack | Some w \<Rightarrow> w # stack)"
  using assms
  by (auto simp: linker_step_def child_of_def bindE_Inr_iff lookupE_Inr_iff split: if_splits)

lemma visit_step_found:
  assumes "visit_step ctx source walk p (search, stack) = Inr (search', stack')"
  shows "found search {edge. terminal_of ctx source walk p edge} search'
    \<and> set stack' = set stack \<union> {w. child_of ctx walk p = Some w}"
proof -
  obtain n s where p: "p = (n, s)" by (cases p)
  define search1 where "search1 = search\<lparr>candidate_count := candidate_count search + 1\<rparr>"
  have lift: "found search1 E t \<Longrightarrow> found search E t" for E t
    by (simp add: found_def search1_def)
  obtain role where role: "map_of (ctx_roles ctx) n = Some role"
    using assms by (auto simp: visit_step_def p bindE_Inr_iff lookupE_Inr_iff)
  then have run: "(if role = SPECTATOR \<or> role = EXCLUDED then Inr (search, stack)
     else if candidate_count search1 > max_candidate_paths (ctx_limits ctx)
       then Inl (FrameworkComplexityError (Text ''Lifted framework candidate-path limit exceeded.''))
       else if role = VERTEX
       then bindE (terminal_step ctx source walk n s search1) (\<lambda>search''. Inr (search'', stack))
       else bindE (linker_step ctx walk n s stack) (\<lambda>stack'. Inr (search1, stack'))) = Inr (search', stack')"
    using assms role
    by (simp only: visit_step_def p prod.case Let_def search1_def lookupE_def option.case bindE_simps)
  show ?thesis
  proof (cases role)
    case VERTEX
    with run have "terminal_step ctx source walk n s search1 = Inr search'" "stack' = stack"
      by (auto simp: bindE_Inr_iff split: if_splits)
    from terminal_step_found[OF this(1)] role VERTEX this(2) show ?thesis
      by (simp add: p child_of_def lift)
  next
    case LINKER
    with run have "linker_step ctx walk n s stack = Inr stack'" "search' = search1"
      by (auto simp: bindE_Inr_iff split: if_splits)
    with linker_step_child[OF this(1)] role LINKER show ?thesis
      by (auto simp: p terminal_of_def search1_def intro!: found_none split: option.splits)
  qed (use run role in \<open>auto simp: p terminal_of_def child_of_def intro!: found_none\<close>)
qed

lemma visit_steps_found:
  assumes "foldE (visit_step ctx source walk) ns (search, stack) = Inr (search', stack')"
  shows "found search {edge. \<exists>p \<in> set ns. terminal_of ctx source walk p edge} search'
    \<and> set stack' = set stack \<union> {w. \<exists>p \<in> set ns. child_of ctx walk p = Some w}"
  using assms
proof (induction ns arbitrary: search stack)
  case (Cons p ns)
  then obtain search1 stack1 where
    step: "visit_step ctx source walk p (search, stack) = Inr (search1, stack1)"
    and rest: "foldE (visit_step ctx source walk) ns (search1, stack1) = Inr (search', stack')"
    by (auto simp: bindE_Inr_iff)
  note 1 = visit_step_found[OF step] and 2 = Cons.IH[OF rest]
  have "{edge. \<exists>p \<in> set (p # ns). terminal_of ctx source walk p edge} =
      {edge. terminal_of ctx source walk p edge} \<union> {edge. \<exists>p \<in> set ns. terminal_of ctx source walk p edge}"
    by auto
  with found_trans[OF conjunct1[OF 1] conjunct1[OF 2]] 1 2 show ?case by auto
qed (simp add: found_none)

lemma rtranclp_unfold_left: "R\<^sup>*\<^sup>* x y \<longleftrightarrow> x = y \<or> (\<exists>z. R x z \<and> R\<^sup>*\<^sup>* z y)"
  by (auto elim: converse_rtranclpE intro: converse_rtranclp_into_rtranclp)

lemma edges_from_split:
  assumes ns: "map_of (ctx_adjacency ctx) (walk_end walk) = Some ns"
    and stack': "stack' = stack \<union> {w. \<exists>p \<in> set ns. child_of ctx walk p = Some w}"
  shows "edges_from ctx source (insert walk stack) =
    {edge. \<exists>p \<in> set ns. terminal_of ctx source walk p edge} \<union> edges_from ctx source stack'"
proof -
  have child: "child ctx walk w \<longleftrightarrow> (\<exists>p \<in> set ns. child_of ctx walk p = Some w)" for w
    by (auto simp: child_def step_from_def ns)
  have closes: "closes ctx source walk edge \<longleftrightarrow> (\<exists>p \<in> set ns. terminal_of ctx source walk p edge)" for edge
    by (auto simp: closes_def step_from_def ns)
  have "(\<exists>w. (child ctx)\<^sup>*\<^sup>* walk w \<and> closes ctx source w edge) \<longleftrightarrow>
      closes ctx source walk edge
      \<or> (\<exists>c w. child ctx walk c \<and> (child ctx)\<^sup>*\<^sup>* c w \<and> closes ctx source w edge)" for edge
    by (subst rtranclp_unfold_left) blast
  moreover have "edge \<in> edges_from ctx source (insert walk stack) \<longleftrightarrow>
      (\<exists>w. (child ctx)\<^sup>*\<^sup>* walk w \<and> closes ctx source w edge) \<or> edge \<in> edges_from ctx source stack" for edge
    unfolding edges_from_def by blast
  moreover have "edge \<in> edges_from ctx source stack' \<longleftrightarrow> edge \<in> edges_from ctx source stack
      \<or> (\<exists>c w. child ctx walk c \<and> (child ctx)\<^sup>*\<^sup>* c w \<and> closes ctx source w edge)" for edge
    unfolding edges_from_def stack' child[symmetric] by blast
  ultimately show ?thesis
    by (intro set_eqI) (simp add: closes[symmetric], blast)
qed

lemma explore_found:
  assumes "explore ctx source stack search = Inr search'"
  shows "found search (edges_from ctx source (set stack)) search'"
  using assms
proof (induction ctx source stack search rule: explore.induct)
  case (1 ctx source search)
  then show ?case by (simp add: edges_from_def found_none)
next
  case (2 ctx source walk stack search)
  then obtain ns search1 stack1 where
    ns: "map_of (ctx_adjacency ctx) (walk_end walk) = Some ns"
    and visit: "foldE (visit_step ctx source walk) (rev ns) (search, stack) = Inr (search1, stack1)"
    and rest: "explore ctx source stack1 search1 = Inr search'"
    by (auto simp: bindE_Inr_iff lookupE_Inr_iff)
  note 1 = visit_steps_found[OF visit, unfolded set_rev]
  have "found search1 (edges_from ctx source (set stack1)) search'"
    by (rule "2.IH"[OF ns[folded lookupE_Inr_iff] visit refl rest])
  from found_trans[OF conjunct1[OF 1] this] show ?case
    using edges_from_split[OF ns conjunct2[OF 1], of source] by simp
qed

lemma enumerate_paths_found:
  assumes "enumerate_paths ctx vertices = Inr search"
  shows "found \<lparr>accepted = [], candidate_count = 0, duplicate_count = 0\<rparr>
    (\<Union>source \<in> set vertices. edges_from ctx source {initial_walk source}) search"
proof -
  have "found search0 (\<Union>source \<in> set vertices. edges_from ctx source {initial_walk source}) search"
    if "foldE (\<lambda>source search. explore ctx source [initial_walk source] search) vertices search0 = Inr search"
    for search0
    using that
  proof (induction vertices arbitrary: search0)
    case (Cons source vertices)
    then obtain search1 where step: "explore ctx source [initial_walk source] search0 = Inr search1"
      and rest: "foldE (\<lambda>source search. explore ctx source [initial_walk source] search) vertices search1
        = Inr search"
      by (auto simp: bindE_Inr_iff simp del: explore.simps)
    from found_trans[OF explore_found[OF step] Cons.IH[OF rest]] show ?case by simp
  qed (simp add: found_none)
  with assms show ?thesis by (simp add: enumerate_paths_def)
qed

section \<open>Lifted linker walks\<close>

text \<open>
  A lifted linker walk from \<open>source\<close> is a list of steps along the adjacency through atoms of role
  LINKER that visits no lifted atom twice.
\<close>

fun linker_chain :: "projection_context \<Rightarrow> nat \<Rightarrow> (nat \<times> shift) list \<Rightarrow> bool" where
  "linker_chain ctx v [] \<longleftrightarrow> True"
| "linker_chain ctx v (p # ps) \<longleftrightarrow>
     (\<exists>ns. map_of (ctx_adjacency ctx) v = Some ns \<and> p \<in> set ns)
     \<and> map_of (ctx_roles ctx) (fst p) = Some LINKER \<and> linker_chain ctx (fst p) ps"

definition lifted_states :: "nat \<Rightarrow> (nat \<times> shift) list \<Rightarrow> (nat \<times> shift) list" where
  "lifted_states source ps =
     (source, zero_shift) # zip (map fst ps) (cumulative_offsets zero_shift (map snd ps))"

definition linker_walk :: "projection_context \<Rightarrow> nat \<Rightarrow> (nat \<times> shift) list \<Rightarrow> bool" where
  "linker_walk ctx source ps \<longleftrightarrow> linker_chain ctx source ps \<and> distinct (lifted_states source ps)"

definition elements :: "projection_context \<Rightarrow> (nat \<times> shift) list \<Rightarrow> nat list" where
  "elements ctx ps = map (\<lambda>p. the (map_of (ctx_numbers ctx) (fst p))) ps"

definition walk_along :: "projection_context \<Rightarrow> nat \<Rightarrow> (nat \<times> shift) list \<Rightarrow> lifted_walk" where
  "walk_along ctx source ps =
     \<lparr>walk_end = last (source # map fst ps), walk_offset = sum_shifts (map snd ps),
      walk_path = source # map fst ps, walk_steps = map snd ps, walk_numbers = elements ctx ps,
      walk_visited = rev (lifted_states source ps)\<rparr>"

lemma linker_chain_snoc:
  "linker_chain ctx v (ps @ [p]) \<longleftrightarrow> linker_chain ctx v ps
     \<and> (\<exists>ns. map_of (ctx_adjacency ctx) (last (v # map fst ps)) = Some ns \<and> p \<in> set ns)
     \<and> map_of (ctx_roles ctx) (fst p) = Some LINKER"
  by (induction ps arbitrary: v) auto

lemma lifted_states_snoc:
  "lifted_states source (ps @ [(n, s)]) =
     lifted_states source ps @ [(n, add_shift (sum_shifts (map snd ps)) s)]"
  by (simp add: lifted_states_def cumulative_offsets_append sum_shifts_def)

lemma walk_along_Nil: "walk_along ctx source [] = initial_walk source"
  by (simp add: walk_along_def initial_walk_def lifted_states_def elements_def)

lemma extend_walk_along:
  assumes "map_of (ctx_numbers ctx) n = Some z"
  shows "extend_walk (walk_along ctx source ps) n s z = walk_along ctx source (ps @ [(n, s)])"
  using assms
  by (simp add: extend_walk_def walk_along_def lifted_states_snoc elements_def Let_def)

definition next_step :: "projection_context \<Rightarrow> nat \<Rightarrow> (nat \<times> shift) list \<Rightarrow> nat \<times> shift \<Rightarrow> bool" where
  "next_step ctx source ps p \<longleftrightarrow>
     (\<exists>ns. map_of (ctx_adjacency ctx) (last (source # map fst ps)) = Some ns \<and> p \<in> set ns)
     \<and> map_of (ctx_roles ctx) (fst p) = Some LINKER
     \<and> length ps < max_linker_atoms (ctx_limits ctx)
     \<and> (fst p, add_shift (sum_shifts (map snd ps)) (snd p)) \<notin> set (lifted_states source ps)
     \<and> fst p \<in> dom (map_of (ctx_numbers ctx))
     \<and> elements ctx (ps @ [p]) \<in> set (ctx_prefixes ctx)"

lemma child_of_along:
  "step_from ctx (walk_along ctx source ps) p \<and> child_of ctx (walk_along ctx source ps) p = Some w \<longleftrightarrow>
   w = walk_along ctx source (ps @ [p]) \<and> next_step ctx source ps p"
proof -
  obtain n s where p: "p = (n, s)" by (cases p)
  have walk_end: "walk_end (walk_along ctx source ps) = last (source # map fst ps)"
    by (simp add: walk_along_def)
  show ?thesis
  proof (cases "map_of (ctx_numbers ctx) n")
    case (Some z)
    have "walk_numbers (walk_along ctx source ps) @ [z] = elements ctx (ps @ [(n, s)])"
      by (simp add: walk_along_def elements_def Some)
    moreover have "length (walk_numbers (walk_along ctx source ps)) = length ps"
      "walk_offset (walk_along ctx source ps) = sum_shifts (map snd ps)"
      "set (walk_visited (walk_along ctx source ps)) = set (lifted_states source ps)"
      by (simp_all add: walk_along_def elements_def)
    ultimately show ?thesis
      using extend_walk_along[OF Some, of source ps s] Some
      by (auto simp: p child_of_def next_step_def step_from_def walk_end simp del: last.simps split: if_splits)
  qed (auto simp: p child_of_def next_step_def)
qed

lemma child_walk_along:
  "child ctx (walk_along ctx source ps) w \<longleftrightarrow>
     (\<exists>p. w = walk_along ctx source (ps @ [p]) \<and> next_step ctx source ps p)"
  unfolding child_def child_of_along ..

lemma linker_walk_snoc:
  "linker_walk ctx source (ps @ [p]) \<longleftrightarrow> linker_walk ctx source ps
     \<and> (\<exists>ns. map_of (ctx_adjacency ctx) (last (source # map fst ps)) = Some ns \<and> p \<in> set ns)
     \<and> map_of (ctx_roles ctx) (fst p) = Some LINKER
     \<and> (fst p, add_shift (sum_shifts (map snd ps)) (snd p)) \<notin> set (lifted_states source ps)"
  by (cases p) (auto simp: linker_walk_def linker_chain_snoc lifted_states_snoc simp del: last.simps)

lemma reachable_walks:
  assumes closed: "\<And>p q. q \<in> set (ctx_prefixes ctx) \<Longrightarrow> prefix p q \<Longrightarrow> p \<in> set (ctx_prefixes ctx)"
    and linkers: "\<And>n. map_of (ctx_roles ctx) n = Some LINKER \<Longrightarrow> n \<in> dom (map_of (ctx_numbers ctx))"
    and start: "[] \<in> set (ctx_prefixes ctx)"
  shows "(child ctx)\<^sup>*\<^sup>* (initial_walk source) w \<longleftrightarrow>
    (\<exists>ps. w = walk_along ctx source ps \<and> linker_walk ctx source ps
       \<and> length ps \<le> max_linker_atoms (ctx_limits ctx) \<and> elements ctx ps \<in> set (ctx_prefixes ctx))"
    (is "?lhs \<longleftrightarrow> (\<exists>ps. ?rhs w ps)")
proof
  assume ?lhs
  then show "\<exists>ps. ?rhs w ps"
  proof (induction rule: rtranclp_induct)
    case base
    have "?rhs (initial_walk source) []"
      by (simp add: walk_along_Nil linker_walk_def elements_def lifted_states_def start)
    then show ?case ..
  next
    case (step w w')
    then obtain ps where ps: "?rhs w ps" by blast
    with step.hyps(2) obtain p where "w' = walk_along ctx source (ps @ [p])" "next_step ctx source ps p"
      by (auto simp: child_walk_along)
    with ps have "?rhs w' (ps @ [p])"
      unfolding linker_walk_snoc next_step_def by simp
    then show ?case ..
  qed
next
  assume "\<exists>ps. ?rhs w ps"
  then obtain ps where "?rhs w ps" by blast
  then show ?lhs
  proof (induction ps arbitrary: w rule: rev_induct)
    case Nil
    then show ?case by (simp add: walk_along_Nil)
  next
    case (snoc p ps)
    have "prefix (elements ctx ps) (elements ctx (ps @ [p]))" by (simp add: elements_def)
    with closed snoc.prems have "elements ctx ps \<in> set (ctx_prefixes ctx)" by blast
    with snoc.prems have "(child ctx)\<^sup>*\<^sup>* (initial_walk source) (walk_along ctx source ps)"
      by (intro snoc.IH) (simp add: linker_walk_snoc)
    moreover have "next_step ctx source ps p"
      using snoc.prems linkers[of "fst p"] unfolding linker_walk_snoc next_step_def by simp
    then have "child ctx (walk_along ctx source ps) w"
      unfolding child_walk_along using snoc.prems by blast
    ultimately show ?case by (rule rtranclp.rtrancl_into_rtrancl)
  qed
qed

section \<open>The enumeration is exact\<close>

text \<open>
  \<open>framework_path\<close> is what a framework edge stands for: a lifted linker walk, a last step to a
  vertex that does not close the walk on its own start, and a rule that accepts the elements.
  \<open>context_for\<close> is what \<open>build_framework_topology\<close> establishes before it enumerates.
\<close>

definition framework_path ::
  "projection_context \<Rightarrow> framework_mapping \<Rightarrow> nat \<Rightarrow> (nat \<times> shift) list \<Rightarrow> nat \<Rightarrow> shift
   \<Rightarrow> framework_path_rule \<Rightarrow> bool" where
  "framework_path ctx mapping source ps n s rule \<longleftrightarrow>
     linker_walk ctx source ps
     \<and> (\<exists>ns. map_of (ctx_adjacency ctx) (last (source # map fst ps)) = Some ns \<and> (n, s) \<in> set ns)
     \<and> map_of (ctx_roles ctx) n = Some VERTEX
     \<and> \<not> (n = source \<and> add_shift (sum_shifts (map snd ps)) s = zero_shift)
     \<and> rule \<in> set (path_rules mapping)
     \<and> accepts_path rule (the (map_of (ctx_numbers ctx) source)) (elements ctx ps)
         (the (map_of (ctx_numbers ctx) n))"

definition context_for :: "projection_context \<Rightarrow> framework_mapping \<Rightarrow> bool" where
  "context_for ctx mapping \<longleftrightarrow>
     rules_by_sequence mapping = (ctx_rules ctx, ctx_prefixes ctx)
     \<and> mapping_max_linker_atoms mapping \<le> max_linker_atoms (ctx_limits ctx)
     \<and> dom (map_of (ctx_roles ctx)) \<subseteq> dom (map_of (ctx_numbers ctx))
     \<and> sorted_wrt (\<lambda>a b. \<not> rules_overlap a b) (path_rules mapping)"

definition framework_edges_of ::
  "projection_context \<Rightarrow> framework_mapping \<Rightarrow> nat \<Rightarrow> framework_edge_path set" where
  "framework_edges_of ctx mapping source =
     {edge. \<exists>ps n s rule. framework_path ctx mapping source ps n s rule
        \<and> canonical_path (ctx_nsym ctx) (source # map fst ps @ [n]) (map snd ps @ [s])
            (elements ctx ps) rule = Inr edge}"

lemma accepts_path_sequence:
  "accepts_path rule a numbers b \<Longrightarrow> numbers \<in> set (accepted_sequences rule)"
  by (auto simp: accepts_path_def accepted_sequences_def Let_def split: if_splits)

lemma accepted_sequence_length:
  "numbers \<in> set (accepted_sequences rule) \<Longrightarrow> length numbers = length (linker_atomic_numbers rule)"
  by (auto simp: accepted_sequences_def split: if_splits)

lemma endpoint_rules_at:
  assumes "a \<in> dom (map_of (ctx_numbers ctx))" and "n \<in> dom (map_of (ctx_numbers ctx))"
  shows "endpoint_rules ctx a numbers n = Inr (filter
    (\<lambda>rule. accepts_path rule (the (map_of (ctx_numbers ctx) a)) numbers (the (map_of (ctx_numbers ctx) n)))
    (rules_at (ctx_rules ctx) numbers))"
  using assms by (auto simp: endpoint_rules_def rules_at_def lookupE_def split: option.splits)

lemma endpoint_rules_single:
  assumes "context_for ctx mapping" and "a \<in> dom (map_of (ctx_numbers ctx))"
    and "n \<in> dom (map_of (ctx_numbers ctx))"
  shows "endpoint_rules ctx a numbers n = Inr [rule] \<longleftrightarrow> rule \<in> set (path_rules mapping)
     \<and> accepts_path rule (the (map_of (ctx_numbers ctx) a)) numbers (the (map_of (ctx_numbers ctx) n))"
proof -
  let ?accepts = "\<lambda>rule. accepts_path rule (the (map_of (ctx_numbers ctx) a)) numbers
      (the (map_of (ctx_numbers ctx) n))"
  let ?rules = "filter ?accepts (rules_at (ctx_rules ctx) numbers)"
  have at: "rules_at (ctx_rules ctx) numbers = sort_key path_rule_id
      (filter (\<lambda>rule. numbers \<in> set (accepted_sequences rule)) (path_rules mapping))"
    using assms(1) by (intro rules_by_sequence_correct(1)) (simp add: context_for_def)
  have "mset ?rules = mset (filter ?accepts (path_rules mapping))"
    unfolding at mset_filter mset_sort filter_filter_mset
    by (rule filter_mset_cong) (auto dest: accepts_path_sequence)
  then have "length ?rules \<le> 1" and set: "set ?rules = set (filter ?accepts (path_rules mapping))"
    using at_most_one_acceptor[of "path_rules mapping"] assms(1)
    by (simp_all add: context_for_def flip: size_mset set_mset_mset)
  have single: "xs = [rule] \<longleftrightarrow> rule \<in> set xs" if "length xs \<le> 1" for xs
    using that by (cases xs) auto
  have "?rules = [rule] \<longleftrightarrow> rule \<in> set ?rules"
    by (rule single) (rule \<open>length ?rules \<le> 1\<close>)
  then show ?thesis unfolding endpoint_rules_at[OF assms(2,3)] set by auto
qed

lemma accepted_reachable:
  assumes ctx: "context_for ctx mapping" and "rule \<in> set (path_rules mapping)"
    and "accepts_path rule a (elements ctx ps) b"
  shows "length ps \<le> max_linker_atoms (ctx_limits ctx)" and "elements ctx ps \<in> set (ctx_prefixes ctx)"
proof -
  have accepted: "elements ctx ps \<in> set (accepted_sequences rule)"
    using assms(3) by (rule accepts_path_sequence)
  then have "length ps = length (linker_atomic_numbers rule)"
    by (auto simp: elements_def dest: accepted_sequence_length)
  also have "\<dots> \<le> mapping_max_linker_atoms mapping"
    using assms(2) by (rule mapping_max_linker_atoms_ge)
  also have "\<dots> \<le> max_linker_atoms (ctx_limits ctx)" using ctx by (simp add: context_for_def)
  finally show "length ps \<le> max_linker_atoms (ctx_limits ctx)" .
  have "rules_by_sequence mapping = (ctx_rules ctx, ctx_prefixes ctx)"
    using ctx by (simp add: context_for_def)
  from rules_by_sequence_correct(2)[OF this] show "elements ctx ps \<in> set (ctx_prefixes ctx)"
    using assms(2) accepted by auto
qed

lemma context_prefixes:
  assumes "context_for ctx mapping"
  shows "[] \<in> set (ctx_prefixes ctx)"
    and "\<And>p q. q \<in> set (ctx_prefixes ctx) \<Longrightarrow> prefix p q \<Longrightarrow> p \<in> set (ctx_prefixes ctx)"
proof -
  have "rules_by_sequence mapping = (ctx_rules ctx, ctx_prefixes ctx)"
    using assms by (simp add: context_for_def)
  note pre = rules_by_sequence_correct(2)[OF this]
  show "[] \<in> set (ctx_prefixes ctx)" by (simp add: pre)
  show "p \<in> set (ctx_prefixes ctx)" if "q \<in> set (ctx_prefixes ctx)" "prefix p q" for p q
    using that unfolding pre by (auto intro: prefix_order.trans)
qed

lemma closes_along:
  assumes ctx: "context_for ctx mapping" and "source \<in> dom (map_of (ctx_numbers ctx))"
  shows "linker_walk ctx source ps \<and> closes ctx source (walk_along ctx source ps) edge \<longleftrightarrow>
    (\<exists>n s rule. framework_path ctx mapping source ps n s rule
       \<and> canonical_path (ctx_nsym ctx) (source # map fst ps @ [n]) (map snd ps @ [s])
            (elements ctx ps) rule = Inr edge)"
proof -
  have vertex: "n \<in> dom (map_of (ctx_numbers ctx))" if "map_of (ctx_roles ctx) n = Some VERTEX" for n
    using that ctx unfolding context_for_def by blast
  have walk: "walk_end (walk_along ctx source ps) = last (source # map fst ps)"
    "walk_offset (walk_along ctx source ps) = sum_shifts (map snd ps)"
    "walk_path (walk_along ctx source ps) = source # map fst ps"
    "walk_steps (walk_along ctx source ps) = map snd ps"
    "walk_numbers (walk_along ctx source ps) = elements ctx ps"
    by (simp_all add: walk_along_def)
  have terminal: "terminal_of ctx source (walk_along ctx source ps) (n, s) edge \<longleftrightarrow>
      map_of (ctx_roles ctx) n = Some VERTEX
      \<and> \<not> (n = source \<and> add_shift (sum_shifts (map snd ps)) s = zero_shift)
      \<and> (\<exists>rule. rule \<in> set (path_rules mapping)
           \<and> accepts_path rule (the (map_of (ctx_numbers ctx) source)) (elements ctx ps)
               (the (map_of (ctx_numbers ctx) n))
           \<and> canonical_path (ctx_nsym ctx) (source # map fst ps @ [n]) (map snd ps @ [s])
               (elements ctx ps) rule = Inr edge)" for n s
    using endpoint_rules_single[OF ctx assms(2) vertex]
    by (auto simp: terminal_of_def walk)
  show ?thesis
    unfolding closes_def step_from_def walk framework_path_def
    by (simp only: split_paired_Ex terminal) blast
qed

lemma edges_from_initial:
  assumes ctx: "context_for ctx mapping" and source: "source \<in> dom (map_of (ctx_numbers ctx))"
  shows "edges_from ctx source {initial_walk source} = framework_edges_of ctx mapping source"
proof (intro set_eqI)
  fix edge
  have linkers: "n \<in> dom (map_of (ctx_numbers ctx))" if "map_of (ctx_roles ctx) n = Some LINKER" for n
    using that ctx unfolding context_for_def by blast
  note reach = reachable_walks[OF context_prefixes(2)[OF ctx] linkers context_prefixes(1)[OF ctx]]
  note closes = closes_along[OF ctx source]
  have "edge \<in> edges_from ctx source {initial_walk source} \<longleftrightarrow>
      (\<exists>ps. linker_walk ctx source ps \<and> length ps \<le> max_linker_atoms (ctx_limits ctx)
         \<and> elements ctx ps \<in> set (ctx_prefixes ctx) \<and> closes ctx source (walk_along ctx source ps) edge)"
    unfolding edges_from_def using reach[where source = source] by auto
  also have "\<dots> \<longleftrightarrow> (\<exists>ps. linker_walk ctx source ps \<and> closes ctx source (walk_along ctx source ps) edge)"
  proof
    assume "\<exists>ps. linker_walk ctx source ps \<and> closes ctx source (walk_along ctx source ps) edge"
    then obtain ps n s rule where ps: "linker_walk ctx source ps"
      "closes ctx source (walk_along ctx source ps) edge" "framework_path ctx mapping source ps n s rule"
      using closes by blast
    then have "rule \<in> set (path_rules mapping)" "accepts_path rule (the (map_of (ctx_numbers ctx) source))
        (elements ctx ps) (the (map_of (ctx_numbers ctx) n))"
      by (simp_all add: framework_path_def)
    from accepted_reachable[OF ctx this] ps(1,2)
    show "\<exists>ps. linker_walk ctx source ps \<and> length ps \<le> max_linker_atoms (ctx_limits ctx)
         \<and> elements ctx ps \<in> set (ctx_prefixes ctx) \<and> closes ctx source (walk_along ctx source ps) edge"
      by blast
  qed blast
  also have "\<dots> \<longleftrightarrow> edge \<in> framework_edges_of ctx mapping source"
    unfolding closes framework_edges_of_def by blast
  finally show "edge \<in> edges_from ctx source {initial_walk source}
      \<longleftrightarrow> edge \<in> framework_edges_of ctx mapping source" .
qed

lemma enumerate_paths_exact:
  assumes "enumerate_paths ctx vertices = Inr search" and "context_for ctx mapping"
    and "set vertices \<subseteq> dom (map_of (ctx_numbers ctx))"
  shows "edge_record_key ` snd ` set (accepted search)
      = edge_record_key ` (\<Union>source \<in> set vertices. framework_edges_of ctx mapping source)"
    and "snd ` set (accepted search) \<subseteq> (\<Union>source \<in> set vertices. framework_edges_of ctx mapping source)"
    and "distinct (map (edge_record_key \<circ> snd) (accepted search))"
proof -
  let ?E = "\<Union>source \<in> set vertices. framework_edges_of ctx mapping source"
  have eq: "(\<Union>source \<in> set vertices. edges_from ctx source {initial_walk source}) = ?E"
    by (rule SUP_cong[OF refl]) (rule edges_from_initial[OF assms(2) subsetD[OF assms(3)]])
  have empty: "accepted \<lparr>accepted = [], candidate_count = 0, duplicate_count = 0\<rparr> = []"
    by (rule projection_search.simps)
  note found = found_from_empty[OF enumerate_paths_found[OF assms(1)] empty, unfolded eq]
  have keys: "map (edge_record_key \<circ> snd) (accepted search) = map fst (accepted search)"
    using found(2) by simp
  with found(1) show "distinct (map (edge_record_key \<circ> snd) (accepted search))" by (simp only:)
  have "edge_record_key ` snd ` set (accepted search) = set (map (edge_record_key \<circ> snd) (accepted search))"
    by (simp add: image_comp)
  with found(3) show "edge_record_key ` snd ` set (accepted search) = edge_record_key ` ?E"
    unfolding keys by (simp only: list.set_map)
  show "snd ` set (accepted search) \<subseteq> ?E" using found(2) by blast
qed

end
