(* ===== verification/Framework_Topology.thy ===== *)
theory Framework_Topology
  imports Framework_Paths
begin

text \<open>
  The framework graph object of \<open>mdstats/analysis/framework_topology.py\<close>: the projection report
  (\<open>FrameworkProjectionReport\<close>), the checks of \<open>FrameworkTopology.__post_init__\<close>, the rest of
  \<open>build_framework_topology\<close> around the path enumeration, and \<open>validate_framework_topology\<close> with
  its rules, issues and report.

  Digests (SHA-256 over a canonical JSON text) and the schema-version strings are derived fields
  and are left out; so is the conversion to and from dictionaries.
\<close>

section \<open>Projection reports\<close>

record framework_projection_report =
  role_counts :: "(framework_atom_role \<times> nat) list"
  report_linkers :: "nat list"
  linker_framework_degree :: "nat list"
  linker_used :: "bool list"
  candidate_path_count :: nat
  accepted_edge_count :: nat
  duplicate_path_count :: nat
  ignored_atomic_edge_count :: nat
  parallel_vertex_pair_count :: nat
  self_image_edge_count :: nat

definition all_roles :: "framework_atom_role list" where
  "all_roles = [VERTEX, LINKER, SPECTATOR, EXCLUDED]"

definition count_roles :: "framework_atom_role list \<Rightarrow> (framework_atom_role \<times> nat) list" where
  "count_roles roles = map (\<lambda>r. (r, count_list roles r)) all_roles"

definition make_report :: "framework_projection_report \<Rightarrow> framework_projection_report result" where
  "make_report r =
     (if length (report_linkers r) \<noteq> length (linker_framework_degree r)
         \<or> length (report_linkers r) \<noteq> length (linker_used r)
      then Inl (FrameworkTopologyError (Text ''Linker diagnostic arrays must align.''))
      else if \<not> sorted_wrt (<) (report_linkers r)
      then Inl (FrameworkTopologyError (Text ''Linker indices must be sorted and unique.''))
      else Inr r)"

definition select_by :: "'a list \<Rightarrow> bool list \<Rightarrow> 'a list" where
  "select_by xs flags = map fst (filter snd (zip xs flags))"

definition unused_linker_atom_indices :: "framework_projection_report \<Rightarrow> nat list" where
  "unused_linker_atom_indices r = select_by (report_linkers r) (map Not (linker_used r))"

definition dangling_linker_atom_indices :: "framework_projection_report \<Rightarrow> nat list" where
  "dangling_linker_atom_indices r =
     select_by (report_linkers r) (map (\<lambda>d. d < 2) (linker_framework_degree r))"

definition branching_linker_atom_indices :: "framework_projection_report \<Rightarrow> nat list" where
  "branching_linker_atom_indices r =
     select_by (report_linkers r) (map (\<lambda>d. d > 2) (linker_framework_degree r))"

definition ignored_role :: "framework_atom_role \<Rightarrow> bool" where
  "ignored_role role \<longleftrightarrow> role = SPECTATOR \<or> role = EXCLUDED"

definition atomic_edge_diagnostics ::
  "(nat \<times> framework_atom_role) list \<Rightarrow> nat list \<Rightarrow> (nat \<times> nat \<times> shift) list \<Rightarrow> (nat list \<times> nat) result" where
  "atomic_edge_diagnostics active_to_role linkers edges =
     bindE (mapE (\<lambda>(i, j, _). bindE (lookupE active_to_role i) (\<lambda>role_i.
                  bindE (lookupE active_to_role j) (\<lambda>role_j. Inr (i, j, role_i, role_j)))) edges)
       (\<lambda>ends. Inr
         (map (\<lambda>atom. sum_list (map (\<lambda>(i, j, role_i, role_j).
              (if i = atom \<and> role_i = LINKER \<and> (role_j = VERTEX \<or> role_j = LINKER) then 1 else 0)
              + (if j = atom \<and> role_j = LINKER \<and> (role_i = VERTEX \<or> role_i = LINKER) then 1 else 0))
              ends)) linkers,
          length (filter (\<lambda>(_, _, role_i, role_j). ignored_role role_i \<or> ignored_role role_j) ends)))"

section \<open>Validation\<close>

record framework_validation_rules =
  allowed_vertex_degrees :: "(nat \<times> nat list) list"
  allowed_linker_degrees :: "(nat \<times> nat list) list"
  expected_vertex_count :: "nat option"
  expected_edge_count :: "nat option"
  require_single_component :: bool
  require_all_linkers_used :: bool
  allow_parallel_edges :: bool
  allow_self_image_edges :: bool
  allowed_edge_kinds :: "string list option"

definition normalize_degree_map ::
  "nat \<Rightarrow> string \<Rightarrow> (nat \<times> nat list) list \<Rightarrow> (nat \<times> nat list) list result" where
  "normalize_degree_map nsym name raw =
     bindE (mapE (\<lambda>(number, degrees).
        bindE (atomic_number nsym (name @ '' atomic number'') number) (\<lambda>z.
        if degrees = [] then Inl (FrameworkTopologyError (Fmt ''{} degree sets cannot be empty.'' [AStr name]))
        else Inr (z, degrees))) raw) (\<lambda>entries. Inr (sort_key fst entries))"

definition make_validation_rules ::
  "nat \<Rightarrow> framework_validation_rules \<Rightarrow> framework_validation_rules result" where
  "make_validation_rules nsym r =
     bindE (normalize_degree_map nsym ''vertex'' (allowed_vertex_degrees r)) (\<lambda>vertex.
     bindE (normalize_degree_map nsym ''linker'' (allowed_linker_degrees r)) (\<lambda>linker.
     if (\<exists>kinds. allowed_edge_kinds r = Some kinds \<and> (kinds = [] \<or> [] \<in> set kinds))
     then Inl (FrameworkTopologyError (Text ''allowed_edge_kinds must contain nonempty strings.''))
     else Inr (r\<lparr>allowed_vertex_degrees := vertex, allowed_linker_degrees := linker\<rparr>)))"

datatype severity = Warning | Error

record framework_validation_issue =
  issue_code :: string
  issue_severity :: severity
  issue_message :: message
  issue_atoms :: "nat list"
  issue_edges :: "nat list"

definition error_issue :: "string \<Rightarrow> message \<Rightarrow> nat list \<Rightarrow> nat list \<Rightarrow> framework_validation_issue" where
  "error_issue code message atoms edges =
     \<lparr>issue_code = code, issue_severity = Error, issue_message = message,
      issue_atoms = sorted_set atoms, issue_edges = sorted_set edges\<rparr>"

record framework_validation_report =
  validation_rules :: framework_validation_rules
  validation_issues :: "framework_validation_issue list"
  summary_counts :: "(string \<times> nat) list"

definition summary_of :: "framework_validation_issue list \<Rightarrow> (string \<times> nat) list" where
  "summary_of issues =
     fold (\<lambda>issue d. AList.update (issue_code issue) (count_list (map issue_code issues) (issue_code issue)) d)
       issues
       [(''total'', length issues),
        (''errors'', length (filter (\<lambda>issue. issue_severity issue = Error) issues)),
        (''warnings'', length (filter (\<lambda>issue. issue_severity issue = Warning) issues))]"

definition make_validation_report ::
  "framework_validation_rules \<Rightarrow> framework_validation_issue list \<Rightarrow> (string \<times> nat) list
   \<Rightarrow> framework_validation_report result" where
  "make_validation_report rules issues counts =
     (if \<forall>k \<in> fst ` set counts \<union> fst ` set (summary_of issues). map_of counts k = map_of (summary_of issues) k
      then Inr \<lparr>validation_rules = rules, validation_issues = issues, summary_counts = sort_key fst counts\<rparr>
      else Inl (FrameworkTopologyError
             (Text ''Validation summary_counts disagree with validation issues.'')))"

definition report_passed :: "framework_validation_report \<Rightarrow> bool" where
  "report_passed report \<longleftrightarrow> \<not> (\<exists>issue \<in> set (validation_issues report). issue_severity issue = Error)"

section \<open>The graph\<close>

record framework_topology =
  vertex_atoms :: "nat list"
  vertex_numbers :: "nat list"
  topology_pbc :: "bool \<times> bool \<times> bool"
  topology_edges :: "framework_edge_path list"
  vertex_degree :: "nat list"
  component_labels :: "nat list"
  n_components :: nat
  topology_roles :: resolved_framework_roles
  projection_report :: framework_projection_report
  validation :: "framework_validation_report option"

fun shift_allowed :: "bool \<times> bool \<times> bool \<Rightarrow> shift \<Rightarrow> bool" where
  "shift_allowed (px, py, pz) (x, y, z) \<longleftrightarrow> (px \<or> x = 0) \<and> (py \<or> y = 0) \<and> (pz \<or> z = 0)"

definition check_vertices :: "framework_topology \<Rightarrow> unit result" where
  "check_vertices t =
     bindE (guardE (vertex_atoms t \<noteq> [] \<and> sorted_wrt (<) (vertex_atoms t))
       (FrameworkTopologyError (Text ''Framework vertices must be nonempty and sorted.''))) (\<lambda>_.
     guardE (length (vertex_numbers t) = length (vertex_atoms t)
             \<and> length (vertex_degree t) = length (vertex_atoms t)
             \<and> length (component_labels t) = length (vertex_atoms t))
       (FrameworkTopologyError (Text ''Framework vertex arrays must align.'')))"

definition check_edge_keys :: "framework_topology \<Rightarrow> unit result" where
  "check_edge_keys t =
     (let keys = map edge_key (topology_edges t) in
      bindE (guardE (sorted keys)
        (FrameworkTopologyError (Text ''Projected edge records must be sorted by canonical key.''))) (\<lambda>_.
      bindE (guardE (distinct keys)
        (FrameworkTopologyError (Text ''Exact duplicate projected edge keys are forbidden.''))) (\<lambda>_.
      foldE (\<lambda>edge _.
        bindE (guardE (fst (edge_ends edge) \<in> set (vertex_atoms t) \<and> snd (edge_ends edge) \<in> set (vertex_atoms t))
          (FrameworkTopologyError (Text ''Projected edge endpoint is not a framework vertex.''))) (\<lambda>_.
        guardE (shift_allowed (topology_pbc t) (image_shift (edge_key edge)))
          (FrameworkTopologyError (Text ''Projected shift is nonzero on a nonperiodic axis.''))))
        (topology_edges t) ())))"

definition check_components :: "framework_topology \<Rightarrow> unit result" where
  "check_components t =
     bindE (component_data (vertex_atoms t) (topology_edges t)) (\<lambda>(labels, components, degree).
     bindE (guardE (vertex_degree t = degree)
       (FrameworkTopologyError (Text ''Stored framework degree is inconsistent.''))) (\<lambda>_.
     guardE (component_labels t = labels \<and> n_components t = components)
       (FrameworkTopologyError (Text ''Stored framework components are inconsistent.''))))"

definition number_by_atom :: "resolved_framework_roles \<Rightarrow> (nat \<times> nat) list" where
  "number_by_atom roles = zip (resolved_atom_indices roles) (resolved_atomic_numbers roles)"

definition check_roles :: "framework_topology \<Rightarrow> unit result" where
  "check_roles t =
     (let roles = topology_roles t in
      bindE (guardE (vertex_atoms t = vertex_atom_indices roles)
        (FrameworkTopologyError (Text ''Framework vertices disagree with resolved VERTEX roles.''))) (\<lambda>_.
      bindE (mapE (lookupE (number_by_atom roles)) (vertex_atoms t)) (\<lambda>expected.
      guardE (vertex_numbers t = expected)
        (FrameworkTopologyError
          (Text ''Framework vertex atomic numbers disagree with resolved roles.'')))))"

definition check_edge_linkers :: "framework_topology \<Rightarrow> framework_edge_path \<Rightarrow> unit result" where
  "check_edge_linkers t edge =
     (let roles = topology_roles t; linkers = internal_linker_indices (edge_key edge) in
      bindE (guardE (set linkers \<subseteq> set (linker_atom_indices roles))
        (FrameworkTopologyError (Text ''Projected edge contains an atom not resolved as LINKER.''))) (\<lambda>_.
      bindE (mapE (lookupE (number_by_atom roles)) linkers) (\<lambda>expected.
      bindE (guardE (internal_linker_atomic_numbers edge = expected)
        (FrameworkTopologyError
          (Text ''Projected linker atomic numbers disagree with resolved roles.''))) (\<lambda>_.
      guardE (\<forall>s \<in> set (atomic_edge_image_shifts edge @ [raw_image_shift edge]).
                shift_allowed (topology_pbc t) s)
        (FrameworkTopologyError (Text ''Atomic path shift is nonzero on a nonperiodic axis.''))))))"

definition check_report :: "framework_topology \<Rightarrow> unit result" where
  "check_report t =
     bindE (guardE (report_linkers (projection_report t) = linker_atom_indices (topology_roles t))
       (FrameworkTopologyError
         (Text ''Projection report linker indices disagree with resolved roles.''))) (\<lambda>_.
     bindE (guardE (accepted_edge_count (projection_report t) = length (topology_edges t))
       (FrameworkTopologyError (Text ''Projection report edge count disagrees with topology.''))) (\<lambda>_.
     guardE (\<forall>role \<in> set all_roles. map_of (role_counts (projection_report t)) role
                = Some (count_list (resolved_roles (topology_roles t)) role))
       (FrameworkTopologyError
         (Text ''Projection report role counts disagree with resolved roles.''))))"

definition make_topology :: "framework_topology \<Rightarrow> framework_topology result" where
  "make_topology t =
     bindE (check_vertices t) (\<lambda>_.
     bindE (check_edge_keys t) (\<lambda>_.
     bindE (check_components t) (\<lambda>_.
     bindE (check_roles t) (\<lambda>_.
     bindE (foldE (\<lambda>edge _. check_edge_linkers t edge) (topology_edges t) ()) (\<lambda>_.
     bindE (check_report t) (\<lambda>_. Inr t))))))"

section \<open>Validating a graph\<close>

definition count_issues :: "framework_topology \<Rightarrow> framework_validation_rules \<Rightarrow> framework_validation_issue list" where
  "count_issues t rules =
     (case expected_vertex_count rules of
        Some n \<Rightarrow> if length (vertex_atoms t) \<noteq> n
          then [error_issue ''unexpected_vertex_count''
                 (Fmt ''Expected {} vertices; found {}.'' [ANat n, ANat (length (vertex_atoms t))])
                 (vertex_atoms t) []] else []
      | None \<Rightarrow> []) @
     (case expected_edge_count rules of
        Some n \<Rightarrow> if length (topology_edges t) \<noteq> n
          then [error_issue ''unexpected_edge_count''
                 (Fmt ''Expected {} edges; found {}.'' [ANat n, ANat (length (topology_edges t))])
                 [] [0..<length (topology_edges t)]] else []
      | None \<Rightarrow> [])"

definition degree_issue ::
  "string \<Rightarrow> string \<Rightarrow> (nat \<times> nat list) list \<Rightarrow> nat \<Rightarrow> nat \<Rightarrow> nat \<Rightarrow> framework_validation_issue list" where
  "degree_issue code template allowed number atom degree =
     (case map_of allowed number of
        Some degrees \<Rightarrow> if degree \<notin> set degrees
          then [error_issue code
                 (Fmt template ([ANat atom, ANat degree] @ map ANat (sorted_set degrees))) [atom] []] else []
      | None \<Rightarrow> [])"

definition vertex_degree_issues ::
  "framework_topology \<Rightarrow> framework_validation_rules \<Rightarrow> framework_validation_issue list" where
  "vertex_degree_issues t rules =
     concat (map (\<lambda>(atom, number, degree).
         degree_issue ''invalid_vertex_degree'' ''Atom {} has projected degree {}; allowed={}.''
           (allowed_vertex_degrees rules) number atom degree)
       (zip (vertex_atoms t) (zip (vertex_numbers t) (vertex_degree t))))"

definition linker_degree_issues ::
  "framework_topology \<Rightarrow> framework_validation_rules \<Rightarrow> framework_validation_issue list result" where
  "linker_degree_issues t rules =
     bindE (mapE (\<lambda>(atom, degree).
         bindE (lookupE (number_by_atom (topology_roles t)) atom) (\<lambda>number.
         Inr (degree_issue ''invalid_linker_degree''
           ''Linker atom {} has framework-relevant atomic degree {}; allowed={}.''
           (allowed_linker_degrees rules) number atom degree)))
       (zip (report_linkers (projection_report t)) (linker_framework_degree (projection_report t))))
     (\<lambda>issues. Inr (concat issues))"

definition global_issues :: "framework_topology \<Rightarrow> framework_validation_rules \<Rightarrow> framework_validation_issue list" where
  "global_issues t rules =
     (if require_single_component rules \<and> n_components t \<noteq> 1
      then [error_issue ''disconnected_framework''
             (Fmt ''Framework has {} connected components.'' [ANat (n_components t)]) (vertex_atoms t) []]
      else []) @
     (let unused = unused_linker_atom_indices (projection_report t) in
      if require_all_linkers_used rules \<and> unused \<noteq> []
      then [error_issue ''unused_linker''
             (Fmt ''{} resolved linker atoms are unused.'' [ANat (length unused)]) unused []]
      else [])"

definition edges_between :: "framework_edge_path list \<Rightarrow> nat \<times> nat \<Rightarrow> nat list" where
  "edges_between edges pair = filter (\<lambda>k. edge_ends (edges ! k) = pair) [0..<length edges]"

definition parallel_issues :: "framework_topology \<Rightarrow> framework_validation_rules \<Rightarrow> framework_validation_issue list" where
  "parallel_issues t rules =
     (if allow_parallel_edges rules then []
      else concat (map (\<lambda>pair.
         let indices = edges_between (topology_edges t) pair in
         if length indices > 1
         then [error_issue ''parallel_edge_not_allowed''
                (Fmt ''Vertex pair {} has {} projected edges.''
                  [ANat (fst pair), ANat (snd pair), ANat (length indices)])
                [fst pair, snd pair] indices] else [])
         (sorted_set (map edge_ends (topology_edges t)))))"

definition self_image_issues :: "framework_topology \<Rightarrow> framework_validation_rules \<Rightarrow> framework_validation_issue list" where
  "self_image_issues t rules =
     (if allow_self_image_edges rules then []
      else concat (map (\<lambda>(index, edge).
         if fst (edge_ends edge) = snd (edge_ends edge)
         then [error_issue ''self_image_edge_not_allowed''
                (Fmt ''Projected edge {} is a self-image edge.'' [ANat index]) [fst (edge_ends edge)] [index]]
         else []) (List.enumerate 0 (topology_edges t))))"

definition edge_kind_issues :: "framework_topology \<Rightarrow> framework_validation_rules \<Rightarrow> framework_validation_issue list" where
  "edge_kind_issues t rules =
     (case allowed_edge_kinds rules of
        None \<Rightarrow> []
      | Some kinds \<Rightarrow> concat (map (\<lambda>(index, edge).
         if edge_kind edge \<notin> set kinds
         then [error_issue ''unexpected_edge_kind''
                (Fmt ''Projected edge {} has edge kind {}.'' [ANat index, AStr (edge_kind edge)])
                [fst (edge_ends edge), snd (edge_ends edge)] [index]]
         else []) (List.enumerate 0 (topology_edges t))))"

definition validate_framework_topology ::
  "framework_topology \<Rightarrow> framework_validation_rules \<Rightarrow> framework_validation_report result" where
  "validate_framework_topology t rules =
     bindE (linker_degree_issues t rules) (\<lambda>linker_issues.
     let issues = count_issues t rules @ vertex_degree_issues t rules @ linker_issues
           @ global_issues t rules @ parallel_issues t rules @ self_image_issues t rules
           @ edge_kind_issues t rules in
     make_validation_report rules issues (summary_of issues))"

section \<open>Building a graph\<close>

definition resolve_limits ::
  "atomic_connectivity_state \<Rightarrow> framework_mapping \<Rightarrow> framework_projection_options
   \<Rightarrow> resolved_framework_roles result" where
  "resolve_limits state mapping limits =
     (if mapping_max_linker_atoms mapping > max_linker_atoms limits then
        Inl (FrameworkComplexityError
          (Text ''Mapping linker length exceeds max_linker_atoms before traversal.''))
      else if max_linker_atoms limits = 0 \<and> mapping_max_linker_atoms mapping > 0 then
        Inl (FrameworkComplexityError (Text ''max_linker_atoms=0 is valid only for direct-edge mappings.''))
      else
        bindE (resolve_framework_roles state mapping) (\<lambda>roles.
        if vertex_atom_indices roles = []
        then Inl (FrameworkMappingError (Text ''Framework projection resolved zero vertices.''))
        else Inr roles))"

definition active_to_role :: "resolved_framework_roles \<Rightarrow> (nat \<times> framework_atom_role) list" where
  "active_to_role roles = zip (resolved_atom_indices roles) (resolved_roles roles)"

definition provisional_key :: "framework_edge_path \<Rightarrow> nat \<times> nat \<times> shift \<times> nat list \<times> shift list \<times> string" where
  "provisional_key edge =
     (vertex_i (edge_key edge), vertex_j (edge_key edge), raw_image_shift edge,
      internal_linker_indices (edge_key edge), internal_linker_image_offsets (edge_key edge),
      rule_id (edge_key edge))"

definition projection_context_of ::
  "nat \<Rightarrow> resolved_framework_roles \<Rightarrow> (nat \<times> (nat \<times> shift) list) list \<Rightarrow> framework_mapping
   \<Rightarrow> framework_projection_options \<Rightarrow> projection_context" where
  "projection_context_of nsym roles adjacency mapping limits =
     (let (exact, starts) = rules_by_sequence mapping in
      \<lparr>ctx_nsym = nsym, ctx_roles = active_to_role roles, ctx_numbers = number_by_atom roles,
       ctx_adjacency = adjacency, ctx_rules = exact, ctx_prefixes = starts, ctx_limits = limits\<rparr>)"

definition project_edges ::
  "nat \<Rightarrow> atomic_connectivity_state \<Rightarrow> framework_mapping \<Rightarrow> framework_projection_options
   \<Rightarrow> resolved_framework_roles \<Rightarrow> (projection_search \<times> framework_edge_path list) result" where
  "project_edges nsym state mapping limits roles =
     bindE (oriented_adjacency state (active_to_role roles)) (\<lambda>adjacency.
     bindE (enumerate_paths (projection_context_of nsym roles adjacency mapping limits)
              (vertex_atom_indices roles)) (\<lambda>search.
     bindE (normalize_framework_gauge nsym (vertex_atom_indices roles)
              (sort_key provisional_key (map snd (accepted search)))) (\<lambda>edges.
     Inr (search, edges))))"

definition projection_report_of ::
  "resolved_framework_roles \<Rightarrow> projection_search \<Rightarrow> framework_edge_path list \<Rightarrow> nat list \<Rightarrow> nat
   \<Rightarrow> framework_projection_report result" where
  "projection_report_of roles search edges degree ignored =
     (let used = concat (map (\<lambda>edge. internal_linker_indices (edge_key edge)) edges);
          pairs = map edge_ends edges in
      make_report
        \<lparr>role_counts = count_roles (resolved_roles roles), report_linkers = linker_atom_indices roles,
         linker_framework_degree = degree,
         linker_used = map (\<lambda>atom. atom \<in> set used) (linker_atom_indices roles),
         candidate_path_count = candidate_count search, accepted_edge_count = length edges,
         duplicate_path_count = duplicate_count search, ignored_atomic_edge_count = ignored,
         parallel_vertex_pair_count = length (filter (\<lambda>pair. count_list pairs pair > 1) (remdups pairs)),
         self_image_edge_count = length (filter (\<lambda>(i, j). i = j) pairs)\<rparr>)"

definition build_framework_topology ::
  "nat \<Rightarrow> atomic_connectivity_state \<Rightarrow> framework_mapping \<Rightarrow> framework_validation_rules option
   \<Rightarrow> framework_projection_options \<Rightarrow> framework_topology result" where
  "build_framework_topology nsym state mapping rules limits =
     bindE (resolve_limits state mapping limits) (\<lambda>roles.
     bindE (atomic_edge_diagnostics (active_to_role roles) (linker_atom_indices roles) (state_edges state))
       (\<lambda>(degree, ignored).
     bindE (project_edges nsym state mapping limits roles) (\<lambda>(search, edges).
     bindE (mapE (lookupE (number_by_atom roles)) (vertex_atom_indices roles)) (\<lambda>numbers.
     bindE (component_data (vertex_atom_indices roles) edges) (\<lambda>(labels, components, vdegree).
     bindE (projection_report_of roles search edges degree ignored) (\<lambda>report.
     bindE (make_topology
        \<lparr>vertex_atoms = vertex_atom_indices roles, vertex_numbers = numbers,
         topology_pbc = state_pbc state, topology_edges = edges, vertex_degree = vdegree,
         component_labels = labels, n_components = components, topology_roles = roles,
         projection_report = report, validation = None\<rparr>) (\<lambda>topology.
     case rules of
       None \<Rightarrow> Inr topology
     | Some r \<Rightarrow>
         bindE (validate_framework_topology topology r) (\<lambda>report.
         make_topology (topology\<lparr>validation := Some report\<rparr>)))))))))"

section \<open>The graph does not depend on the gauge of the atomic state\<close>

lemma atomic_edge_diagnostics_regauge:
  "atomic_edge_diagnostics roles linkers (regauge_edges h es) = atomic_edge_diagnostics roles linkers es"
proof -
  have "mapE (\<lambda>(i, j, _). bindE (lookupE roles i) (\<lambda>role_i.
          bindE (lookupE roles j) (\<lambda>role_j. Inr (i, j, role_i, role_j)))) (regauge_edges h es) =
        mapE (\<lambda>(i, j, _). bindE (lookupE roles i) (\<lambda>role_i.
          bindE (lookupE roles j) (\<lambda>role_j. Inr (i, j, role_i, role_j)))) es"
    by (induction es) (auto simp: regauge_edges_def)
  then show ?thesis by (simp only: atomic_edge_diagnostics_def)
qed

lemma resolve_limits_regauge:
  "resolve_limits (state\<lparr>state_edges := es\<rparr>) mapping limits = resolve_limits state mapping limits"
  by (simp add: resolve_limits_def resolve_framework_roles_def)

lemma project_edges_regauge:
  "project_edges nsym (state\<lparr>state_edges := regauge_edges h (state_edges state)\<rparr>) mapping limits roles
     = project_edges nsym state mapping limits roles"
  by (simp only: project_edges_def oriented_adjacency_invariant)

section \<open>The edges of the graph\<close>

lemma active_to_role_numbers:
  assumes "resolve_framework_roles state mapping = Inr roles"
  shows "dom (map_of (active_to_role roles)) = set (active_atom_indices state)"
    and "dom (map_of (number_by_atom roles)) = set (active_atom_indices state)"
    and "set (vertex_atom_indices roles) \<subseteq> set (active_atom_indices state)"
proof -
  note facts = assms[unfolded resolve_framework_roles_Inr_iff]
  show "dom (map_of (active_to_role roles)) = set (active_atom_indices state)"
    "dom (map_of (number_by_atom roles)) = set (active_atom_indices state)"
    using facts by (auto simp: active_to_role_def number_by_atom_def dom_map_of_zip)
  show "set (vertex_atom_indices roles) \<subseteq> set (active_atom_indices state)"
    using facts by (auto simp: resolved_of_def dest: set_zip_leftD)
qed

lemma projection_context_for:
  assumes "resolve_limits state mapping limits = Inr roles"
    and "sorted_wrt (\<lambda>a b. \<not> rules_overlap a b) (path_rules mapping)"
  shows "context_for (projection_context_of nsym roles adjacency mapping limits) mapping"
proof -
  have resolved: "resolve_framework_roles state mapping = Inr roles"
    and limit: "mapping_max_linker_atoms mapping \<le> max_linker_atoms limits"
    using assms(1) by (auto simp: resolve_limits_def bindE_Inr_iff split: if_splits)
  show ?thesis
    using limit assms(2) active_to_role_numbers(1,2)[OF resolved]
    by (simp add: context_for_def projection_context_of_def split: prod.split)
qed

lemma edge_record_key_regauge: "edge_record_key (regauge_edge g edge) = edge_record_key edge"
  by (cases "edge_key edge") (simp add: edge_record_key_def regauge_edge_def)

lemma make_edge_path_fields:
  assumes "make_edge_path nsym key path steps numbers raw kind = Inr edge"
  shows "edge_key edge = key" and "raw_image_shift edge = raw" and "atomic_edge_image_shifts edge = steps"
  using assms by (auto simp: make_edge_path_def bindE_Inr_iff split: if_splits)

lemma normalize_edge_record_key:
  assumes "normalize_edge nsym gauge edge = Inr edge'"
  shows "edge_record_key edge' = edge_record_key edge"
proof -
  obtain s k where key: "make_edge_key (vertex_i (edge_key edge)) (vertex_j (edge_key edge)) s
      (internal_linker_indices (edge_key edge)) (internal_linker_image_offsets (edge_key edge))
      (rule_id (edge_key edge)) = Inr k"
    and path: "make_edge_path nsym k (atomic_path_indices edge) (atomic_edge_image_shifts edge)
      (internal_linker_atomic_numbers edge) (raw_image_shift edge) (edge_kind edge) = Inr edge'"
    using assms by (auto simp: normalize_edge_def Let_def bindE_Inr_iff)
  from make_edge_path_fields[OF path] key show ?thesis
    by (cases k) (auto simp: edge_record_key_def make_edge_key_Inr_iff)
qed

lemma normalize_record_keys:
  assumes "normalize_framework_gauge nsym vs provisional = Inr edges"
  shows "mset (map edge_record_key edges) = mset (map edge_record_key provisional)"
proof -
  obtain gauge normalized where "mapE (normalize_edge nsym gauge) provisional = Inr normalized"
    and edges: "edges = sort_key edge_key normalized"
    using assms by (auto simp: normalize_framework_gauge_def bindE_Inr_iff)
  then have "list_all2 (\<lambda>e e'. normalize_edge nsym gauge e = Inr e') provisional normalized"
    by (simp add: mapE_Inr_iff)
  then have "map edge_record_key normalized = map edge_record_key provisional"
    by induction (auto simp: normalize_edge_record_key)
  then show ?thesis unfolding edges mset_map by (simp flip: mset_map)
qed

lemma build_project_edges:
  assumes "build_framework_topology nsym state mapping rules limits = Inr t"
  shows "\<exists>roles search. resolve_limits state mapping limits = Inr roles
    \<and> project_edges nsym state mapping limits roles = Inr (search, topology_edges t)"
proof -
  have "topology_edges t' = topology_edges s" if "make_topology s = Inr t'" for s t'
    using that by (auto simp: make_topology_def bindE_Inr_iff)
  then show ?thesis
    using assms unfolding build_framework_topology_def bindE_Inr_iff
    by (auto simp: bindE_Inr_iff split: option.splits)
qed

lemma build_edges:
  assumes build: "build_framework_topology nsym state mapping rules limits = Inr t"
    and mapping: "sorted_wrt (\<lambda>a b. \<not> rules_overlap a b) (path_rules mapping)"
  shows "\<exists>roles adjacency. resolve_framework_roles state mapping = Inr roles
    \<and> oriented_adjacency state (active_to_role roles) = Inr adjacency
    \<and> edge_record_key ` set (topology_edges t) = edge_record_key `
        (\<Union>source \<in> set (vertex_atom_indices roles).
          framework_edges_of (projection_context_of nsym roles adjacency mapping limits) mapping source)
    \<and> distinct (map edge_record_key (topology_edges t))"
proof -
  obtain roles search where limits: "resolve_limits state mapping limits = Inr roles"
    and project: "project_edges nsym state mapping limits roles = Inr (search, topology_edges t)"
    using build_project_edges[OF build] by blast
  have resolved: "resolve_framework_roles state mapping = Inr roles"
    using limits by (auto simp: resolve_limits_def bindE_Inr_iff split: if_splits)
  from project obtain adjacency where adjacency: "oriented_adjacency state (active_to_role roles) = Inr adjacency"
    and run: "enumerate_paths (projection_context_of nsym roles adjacency mapping limits)
      (vertex_atom_indices roles) = Inr search"
    and normal: "normalize_framework_gauge nsym (vertex_atom_indices roles)
      (sort_key provisional_key (map snd (accepted search))) = Inr (topology_edges t)"
    by (auto simp: project_edges_def bindE_Inr_iff)
  let ?ctx = "projection_context_of nsym roles adjacency mapping limits"
  have "ctx_numbers ?ctx = number_by_atom roles"
    by (simp add: projection_context_of_def split: prod.split)
  then have "set (vertex_atom_indices roles) \<subseteq> dom (map_of (ctx_numbers ?ctx))"
    using active_to_role_numbers(2,3)[OF resolved] by simp
  note exact = enumerate_paths_exact[OF run projection_context_for[OF limits mapping] this]
  have keys: "mset (map edge_record_key (topology_edges t)) = mset (map (edge_record_key \<circ> snd) (accepted search))"
    using normalize_record_keys[OF normal] by (simp add: image_mset.compositionality)
  from mset_eq_setD[OF this] have "edge_record_key ` set (topology_edges t) = edge_record_key ` snd ` set (accepted search)"
    by (simp add: image_comp)
  moreover have "distinct (map edge_record_key (topology_edges t))"
    using exact(3) mset_eq_imp_distinct_iff[OF keys] by simp
  ultimately show ?thesis using resolved adjacency exact(1) by auto
qed

section \<open>Properties\<close>

text \<open>C27: the projected graph is a function of the physical structure: giving the atomic state in
  another gauge changes nothing of what \<open>build_framework_topology\<close> returns, errors included.\<close>
theorem build_gauge_invariant:
  "build_framework_topology nsym (state\<lparr>state_edges := regauge_edges h (state_edges state)\<rparr>)
     mapping rules limits = build_framework_topology nsym state mapping rules limits"
  unfolding build_framework_topology_def resolve_limits_regauge project_edges_regauge
  by (simp add: atomic_edge_diagnostics_regauge)

text \<open>C26: the projection is exact: when the graph is built, its edges are, up to the vertex gauge,
  the canonical forms of all lifted linker walks between framework vertices whose elements a rule
  of the mapping accepts, each once; neither the depth-first order nor the pruning by prefixes and
  limits loses or invents one.\<close>
theorem build_framework_topology_exact:
  assumes "make_mapping zs species overrides rs unmapped = Inr mapping"
    and "build_framework_topology nsym state mapping rules limits = Inr t"
  shows "\<exists>roles adjacency. resolve_framework_roles state mapping = Inr roles
    \<and> oriented_adjacency state (active_to_role roles) = Inr adjacency
    \<and> edge_record_key ` set (topology_edges t) = edge_record_key `
        (\<Union>source \<in> set (vertex_atom_indices roles).
          framework_edges_of (projection_context_of nsym roles adjacency mapping limits) mapping source)
    \<and> distinct (map edge_record_key (topology_edges t))"
  using make_mapping_rules(1,2)[OF assms(1)] by (intro build_edges[OF assms(2)]) simp

definition example_state :: atomic_connectivity_state where
  "example_state = \<lparr>active_atom_indices = [0, 1, 2], active_atomic_numbers = [14, 8, 14],
     state_edges = [(0, 1, (0, 0, 0)), (1, 2, (0, 0, 1))], state_pbc = (True, True, True)\<rparr>"

definition example_limits :: framework_projection_options where
  "example_limits = \<lparr>max_linker_atoms = 4, max_candidate_paths = 100, max_projected_edges = 10\<rparr>"

definition example_topology :: framework_topology where
  "example_topology = projr (build_framework_topology 119 example_state example_mapping None example_limits)"

lemma example_topology_built:
  "build_framework_topology 119 example_state example_mapping None example_limits = Inr example_topology"
  by code_simp

theorem build_framework_topology_exact_witness:
  "\<exists>roles adjacency. resolve_framework_roles example_state example_mapping = Inr roles
    \<and> oriented_adjacency example_state (active_to_role roles) = Inr adjacency
    \<and> edge_record_key ` set (topology_edges example_topology) = edge_record_key `
        (\<Union>source \<in> set (vertex_atom_indices roles).
          framework_edges_of (projection_context_of 119 roles adjacency example_mapping example_limits)
            example_mapping source)
    \<and> distinct (map edge_record_key (topology_edges example_topology))"
  by (rule build_framework_topology_exact[OF example_mapping_made example_topology_built])

end
