(* ===== verification/Ring_Records.thy ===== *)
theory Ring_Records
  imports Framework_Topology
begin

text \<open>
  Records of \<open>mdstats/analysis/primitive_ring.py\<close>: search options, lifted vertices and unordered
  pairs of them, oriented edge steps, structural edge tokens, ring keys and rings, and the canonical
  form of a cyclic sequence under rotation and reversal (\<open>canonicalize_primitive_ring_tokens\<close>).

  Python orders these frozen dataclasses by their fields; the datatypes below are instances of
  \<open>linorder\<close> through the tuple of their fields.  The digest of a ring is a derived field and left
  out.
\<close>

section \<open>Options\<close>

datatype ring_search_method = SHORTEST_PATH_PAIRS | REMOVED_EDGE_SHORTEST

record primitive_ring_options =
  search_method :: ring_search_method
  min_ring_size :: nat
  max_ring_size :: nat
  max_lifted_states_per_source :: nat
  max_shortest_paths_per_target :: nat
  max_path_pair_combinations_per_anchor :: nat
  max_total_candidates :: nat
  max_total_rings :: nat
  generate_shortcut_witnesses :: bool
  allow_one_member_rings :: bool
  strict :: bool

definition positive_nat :: "string \<Rightarrow> nat \<Rightarrow> nat result" where
  "positive_nat name n =
     (if n = 0 then Inl (PrimitiveRingInputError (Fmt ''{} must be positive.'' [AStr name])) else Inr n)"

definition make_ring_options ::
  "primitive_ring_options \<Rightarrow> nat option \<Rightarrow> nat option \<Rightarrow> bool option \<Rightarrow> primitive_ring_options result" where
  "make_ring_options raw states_per_edge paths_per_edge strict_limits =
     bindE (positive_nat ''min_ring_size'' (min_ring_size raw)) (\<lambda>minimum.
     bindE (positive_nat ''max_ring_size'' (max_ring_size raw)) (\<lambda>maximum.
     if minimum = 1 then
       Inl (PrimitiveRingInputError (Text ''One-member rings are reserved but not implemented in primitive-ring v2; min_ring_size must be at least 2.''))
     else if allow_one_member_rings raw then
       Inl (PrimitiveRingInputError (Text ''allow_one_member_rings is a reserved compatibility field and must be False.''))
     else if maximum < minimum then
       Inl (PrimitiveRingInputError (Text ''max_ring_size must be greater than or equal to min_ring_size.''))
     else
       bindE (positive_nat ''max_lifted_states_per_source''
         (case states_per_edge of None \<Rightarrow> max_lifted_states_per_source raw | Some n \<Rightarrow> n)) (\<lambda>source_limit.
       bindE (positive_nat ''max_shortest_paths_per_target''
         (case paths_per_edge of None \<Rightarrow> max_shortest_paths_per_target raw | Some n \<Rightarrow> n)) (\<lambda>path_limit.
       bindE (positive_nat ''max_path_pair_combinations_per_anchor''
         (max_path_pair_combinations_per_anchor raw)) (\<lambda>pairs.
       bindE (positive_nat ''max_total_candidates'' (max_total_candidates raw)) (\<lambda>candidates.
       bindE (positive_nat ''max_total_rings'' (max_total_rings raw)) (\<lambda>rings.
       Inr (raw\<lparr>max_lifted_states_per_source := source_limit,
                max_shortest_paths_per_target := path_limit,
                strict := (case strict_limits of None \<Rightarrow> strict raw | Some b \<Rightarrow> b)\<rparr>)))))))) "

section \<open>Lifted vertices\<close>

datatype lifted_vertex = LiftedVertexRef (atom_index: nat) (vertex_image: shift)

fun lifted_vertex_tuple :: "lifted_vertex \<Rightarrow> nat \<times> shift" where
  "lifted_vertex_tuple (LiftedVertexRef a s) = (a, s)"

lemma lifted_vertex_tuple_inject: "lifted_vertex_tuple a = lifted_vertex_tuple b \<Longrightarrow> a = b"
  by (cases a; cases b) simp

instantiation lifted_vertex :: linorder
begin

definition less_eq_lifted_vertex :: "lifted_vertex \<Rightarrow> lifted_vertex \<Rightarrow> bool" where
  "less_eq_lifted_vertex a b \<longleftrightarrow> lifted_vertex_tuple a \<le> lifted_vertex_tuple b"

definition less_lifted_vertex :: "lifted_vertex \<Rightarrow> lifted_vertex \<Rightarrow> bool" where
  "less_lifted_vertex a b \<longleftrightarrow> lifted_vertex_tuple a < lifted_vertex_tuple b"

instance
  by standard
    (auto simp: less_eq_lifted_vertex_def less_lifted_vertex_def less_le_not_le
      intro: lifted_vertex_tuple_inject dest: order_antisym)

end

definition translate :: "shift \<Rightarrow> lifted_vertex \<Rightarrow> lifted_vertex" where
  "translate t v = LiftedVertexRef (atom_index v) (add_shift (vertex_image v) t)"

datatype lifted_vertex_pair = LiftedVertexPair (pair_first: lifted_vertex) (pair_second: lifted_vertex)

fun lifted_pair_tuple :: "lifted_vertex_pair \<Rightarrow> lifted_vertex \<times> lifted_vertex" where
  "lifted_pair_tuple (LiftedVertexPair a b) = (a, b)"

lemma lifted_pair_tuple_inject: "lifted_pair_tuple a = lifted_pair_tuple b \<Longrightarrow> a = b"
  by (cases a; cases b) simp

instantiation lifted_vertex_pair :: linorder
begin

definition less_eq_lifted_vertex_pair :: "lifted_vertex_pair \<Rightarrow> lifted_vertex_pair \<Rightarrow> bool" where
  "less_eq_lifted_vertex_pair a b \<longleftrightarrow> lifted_pair_tuple a \<le> lifted_pair_tuple b"

definition less_lifted_vertex_pair :: "lifted_vertex_pair \<Rightarrow> lifted_vertex_pair \<Rightarrow> bool" where
  "less_lifted_vertex_pair a b \<longleftrightarrow> lifted_pair_tuple a < lifted_pair_tuple b"

instance
  by standard
    (auto simp: less_eq_lifted_vertex_pair_def less_lifted_vertex_pair_def less_le_not_le
      intro: lifted_pair_tuple_inject dest: order_antisym)

end

definition make_vertex_pair :: "lifted_vertex \<Rightarrow> lifted_vertex \<Rightarrow> lifted_vertex_pair result" where
  "make_vertex_pair first second =
     (if first = second then
        Inl (PrimitiveRingInputError (Text ''LiftedVertexPair endpoints must be distinct.''))
      else if second < first then Inr (LiftedVertexPair second first)
      else Inr (LiftedVertexPair first second))"

section \<open>Steps, tokens and keys\<close>

datatype ring_step = PrimitiveRingStep (step_edge: nat) (step_orientation: orientation)

fun ring_step_tuple :: "ring_step \<Rightarrow> nat \<times> orientation" where
  "ring_step_tuple (PrimitiveRingStep e d) = (e, d)"

lemma ring_step_tuple_inject: "ring_step_tuple a = ring_step_tuple b \<Longrightarrow> a = b"
  by (cases a; cases b) simp

instantiation ring_step :: linorder
begin

definition less_eq_ring_step :: "ring_step \<Rightarrow> ring_step \<Rightarrow> bool" where
  "less_eq_ring_step a b \<longleftrightarrow> ring_step_tuple a \<le> ring_step_tuple b"

definition less_ring_step :: "ring_step \<Rightarrow> ring_step \<Rightarrow> bool" where
  "less_ring_step a b \<longleftrightarrow> ring_step_tuple a < ring_step_tuple b"

instance
  by standard
    (auto simp: less_eq_ring_step_def less_ring_step_def less_le_not_le
      intro: ring_step_tuple_inject dest: order_antisym)

end

fun step_reversed :: "ring_step \<Rightarrow> ring_step" where
  "step_reversed (PrimitiveRingStep e d) = PrimitiveRingStep e (flip d)"

datatype ring_token = PrimitiveRingEdgeToken (token_key: framework_edge_key) (token_orientation: orientation)

fun ring_token_tuple :: "ring_token \<Rightarrow> framework_edge_key \<times> orientation" where
  "ring_token_tuple (PrimitiveRingEdgeToken k d) = (k, d)"

lemma ring_token_tuple_inject: "ring_token_tuple a = ring_token_tuple b \<Longrightarrow> a = b"
  by (cases a; cases b) simp

instantiation ring_token :: linorder
begin

definition less_eq_ring_token :: "ring_token \<Rightarrow> ring_token \<Rightarrow> bool" where
  "less_eq_ring_token a b \<longleftrightarrow> ring_token_tuple a \<le> ring_token_tuple b"

definition less_ring_token :: "ring_token \<Rightarrow> ring_token \<Rightarrow> bool" where
  "less_ring_token a b \<longleftrightarrow> ring_token_tuple a < ring_token_tuple b"

instance
  by standard
    (auto simp: less_eq_ring_token_def less_ring_token_def less_le_not_le
      intro: ring_token_tuple_inject dest: order_antisym)

end

fun token_reversed :: "ring_token \<Rightarrow> ring_token" where
  "token_reversed (PrimitiveRingEdgeToken k d) = PrimitiveRingEdgeToken k (flip d)"

text \<open>The sequences that name one cycle: all rotations of it and of its reversal.\<close>

definition rotations :: "'a list \<Rightarrow> 'a list list" where
  "rotations xs = map (\<lambda>offset. drop offset xs @ take offset xs) [0..<length xs]"

definition reverse_with :: "('a \<Rightarrow> 'a) \<Rightarrow> 'a list \<Rightarrow> 'a list" where
  "reverse_with r xs = map r (rev xs)"

definition cyclic_variants :: "('a \<Rightarrow> 'a) \<Rightarrow> 'a list \<Rightarrow> 'a list list" where
  "cyclic_variants r xs = rotations xs @ rotations (reverse_with r xs)"

definition min_variant :: "'a::linorder list \<Rightarrow> 'a result" where
  "min_variant variants =
     (if variants = [] then Inl (ValueError (Text ''min() iterable argument is empty''))
      else Inr (min_list variants))"

definition canonicalize_primitive_ring_tokens :: "ring_token list \<Rightarrow> ring_token list result" where
  "canonicalize_primitive_ring_tokens tokens = min_variant (cyclic_variants token_reversed tokens)"

datatype ring_key = PrimitiveRingKey (edge_tokens: "ring_token list")

instantiation ring_key :: linorder
begin

definition less_eq_ring_key :: "ring_key \<Rightarrow> ring_key \<Rightarrow> bool" where
  "less_eq_ring_key a b \<longleftrightarrow> edge_tokens a \<le> edge_tokens b"

definition less_ring_key :: "ring_key \<Rightarrow> ring_key \<Rightarrow> bool" where
  "less_ring_key a b \<longleftrightarrow> edge_tokens a < edge_tokens b"

instance
  by standard
    (auto simp: less_eq_ring_key_def less_ring_key_def less_le_not_le
      intro: ring_key.expand dest: order_antisym)

end

definition make_ring_key :: "ring_token list \<Rightarrow> ring_key result" where
  "make_ring_key tokens =
     bindE (guardE (length tokens \<ge> 2)
       (PrimitiveRingInputError (Text ''PrimitiveRingKey requires at least two edge tokens.''))) (\<lambda>_.
     bindE (canonicalize_primitive_ring_tokens tokens) (\<lambda>canonical.
     bindE (guardE (tokens = canonical)
       (PrimitiveRingInputError
         (Text ''PrimitiveRingKey edge_tokens are not canonically rotated/reversed.''))) (\<lambda>_.
     Inr (PrimitiveRingKey tokens))))"

section \<open>Rings\<close>

record primitive_ring =
  ring_id :: nat
  ring_size :: nat
  ring_steps :: "ring_step list"
  vertex_walk :: "lifted_vertex list"
  winding :: shift
  ring_key :: ring_key
  generator_edge_indices :: "nat list"
  generator_kinds :: "string list"
  generator_anchor_count :: nat

definition make_primitive_ring :: "primitive_ring \<Rightarrow> primitive_ring result" where
  "make_primitive_ring ring =
     (let generators = sorted_set (generator_edge_indices ring);
          kinds = sorted_set (generator_kinds ring);
          size = ring_size ring; vertices = vertex_walk ring in
      bindE (positive_nat ''size'' size) (\<lambda>_.
      bindE (guardE (\<not> (size < 2 \<or> size \<noteq> length (ring_steps ring) \<or> size \<noteq> length vertices))
        (PrimitiveRingInputError
          (Text ''Ring size must equal step and open vertex-walk lengths and be >= 2.''))) (\<lambda>_.
      bindE (guardE (distinct vertices)
        (PrimitiveRingInputError (Text ''Ring vertex_walk must be lifted-simple.''))) (\<lambda>_.
      bindE (guardE (vertex_image (hd vertices) = zero_shift)
        (PrimitiveRingInputError
          (Text ''The first canonical lifted vertex must use image (0, 0, 0).''))) (\<lambda>_.
      bindE (guardE (winding ring = zero_shift)
        (PrimitiveRingInputError (Text ''Primitive rings must have zero winding.''))) (\<lambda>_.
      bindE (guardE (length (edge_tokens (ring_key ring)) = size)
        (PrimitiveRingInputError (Text ''Ring key length disagrees with ring size.''))) (\<lambda>_.
      bindE (guardE (\<not> (generators = [] \<and> kinds = []))
        (PrimitiveRingInputError
          (Text ''A ring must retain at least one generator provenance record.''))) (\<lambda>_.
      Inr (ring\<lparr>generator_edge_indices := generators, generator_kinds := kinds,
        generator_anchor_count :=
          (if generator_anchor_count ring = 0
           then (if length generators \<noteq> 0 then length generators else length kinds)
           else generator_anchor_count ring)\<rparr>)))))))))"

definition vertex_ids :: "primitive_ring \<Rightarrow> nat list" where
  "vertex_ids ring = map atom_index (vertex_walk ring)"

definition vertex_images :: "primitive_ring \<Rightarrow> shift list" where
  "vertex_images ring = map vertex_image (vertex_walk ring)"

section \<open>Cyclic sequences\<close>

locale reversal =
  fixes r :: "'a \<Rightarrow> 'a"
  assumes involution [simp]: "r (r x) = x"
begin

definition orbit :: "'a list \<Rightarrow> 'a list set" where
  "orbit xs = {rotate k xs | k. True} \<union> {rotate k (reverse_with r xs) | k. True}"

lemma reverse_with_reverse [simp]: "reverse_with r (reverse_with r xs) = xs"
  by (simp add: reverse_with_def rev_map comp_def)

lemma length_reverse_with [simp]: "length (reverse_with r xs) = length xs"
  by (simp add: reverse_with_def)

lemma reverse_with_rotate:
  "reverse_with r (rotate k xs) = rotate (length xs - k mod length xs) (reverse_with r xs)"
proof -
  have "rev (rotate k xs) = rotate (length xs - k mod length xs) (rev xs)"
  proof (cases "xs = []")
    case False
    let ?n = "length xs" and ?m = "k mod length xs"
    have "?m < ?n" using False by simp
    have "rotate (?n - ?m) (rev xs) = rev (rotate (?n - (?n - ?m) mod ?n) xs)"
      by (simp add: rotate_rev)
    also have "rotate (?n - (?n - ?m) mod ?n) xs = rotate k xs"
    proof (cases "?m = 0")
      case True
      then have "rotate k xs = xs" by (metis rotate_conv_mod rotate0 id_apply)
      then show ?thesis using True by simp
    next
      case False
      then have "(?n - ?m) mod ?n = ?n - ?m" using \<open>?m < ?n\<close> by simp
      with \<open>?m < ?n\<close> have "?n - (?n - ?m) mod ?n = ?m" by simp
      then show ?thesis by (metis rotate_conv_mod)
    qed
    finally show ?thesis by simp
  qed simp
  then show ?thesis by (simp add: reverse_with_def rotate_map)
qed

lemma orbit_refl: "xs \<in> orbit xs"
  unfolding orbit_def by (metis (mono_tags, lifting) UnI1 id_apply mem_Collect_eq rotate0)

lemma orbit_rotate: "rotate k xs \<in> orbit xs" "rotate k (reverse_with r xs) \<in> orbit xs"
  unfolding orbit_def by blast+

lemma rotate_undo: "\<exists>j. rotate j (rotate k xs) = xs"
proof (cases "xs = []")
  case False
  have "rotate (length xs - k mod length xs) (rotate k xs) = xs"
  proof -
    have "rotate (length xs - k mod length xs) (rotate k xs)
        = rotate ((length xs - k mod length xs + k) mod length xs) xs"
      by (simp add: rotate_rotate flip: rotate_conv_mod)
    moreover have "(length xs - k mod length xs + k) mod length xs = 0"
    proof -
      have "k mod length xs \<le> length xs" using False by (simp add: less_imp_le)
      then have "(length xs - k mod length xs + k) mod length xs
          = (length xs - k mod length xs + k mod length xs) mod length xs"
        by (metis mod_add_right_eq)
      then show ?thesis using \<open>k mod length xs \<le> length xs\<close> by simp
    qed
    ultimately show ?thesis by simp
  qed
  then show ?thesis ..
qed simp

lemma orbit_sym: "ys \<in> orbit xs \<Longrightarrow> xs \<in> orbit ys"
proof -
  assume "ys \<in> orbit xs"
  then consider k where "ys = rotate k xs" | k where "ys = rotate k (reverse_with r xs)"
    unfolding orbit_def by blast
  then show "xs \<in> orbit ys"
  proof cases
    case 1
    with rotate_undo[of k xs] orbit_rotate(1)[of _ ys] show ?thesis by metis
  next
    case (2 k)
    then have "reverse_with r ys = rotate (length xs - k mod length xs) xs"
      by (simp add: reverse_with_rotate)
    with rotate_undo[of _ xs] orbit_rotate(2)[of _ ys] show ?thesis by metis
  qed
qed

lemma orbit_trans: "ys \<in> orbit xs \<Longrightarrow> zs \<in> orbit ys \<Longrightarrow> zs \<in> orbit xs"
  unfolding orbit_def by (auto simp: reverse_with_rotate rotate_rotate)

lemma orbit_eq_iff: "orbit xs = orbit ys \<longleftrightarrow> ys \<in> orbit xs"
  using orbit_refl orbit_sym orbit_trans by blast

lemma set_rotations:
  assumes "xs \<noteq> []"
  shows "set (rotations xs) = {rotate k xs | k. True}"
proof -
  have rot: "drop k xs @ take k xs = rotate k xs" if "k < length xs" for k
    using that by (simp add: rotate_drop_take)
  have "set (rotations xs) = (\<lambda>k. rotate k xs) ` {0..<length xs}"
    unfolding rotations_def set_map set_upt by (rule image_cong[OF refl]) (simp add: rot)
  also have "\<dots> = {rotate k xs | k. True}"
  proof (intro equalityI subsetI)
    fix ys assume "ys \<in> {rotate k xs | k. True}"
    then obtain k where "ys = rotate (k mod length xs) xs" using rotate_conv_mod by blast
    moreover have "k mod length xs \<in> {0..<length xs}" using assms by simp
    ultimately show "ys \<in> (\<lambda>k. rotate k xs) ` {0..<length xs}" by (rule image_eqI)
  qed blast
  finally show ?thesis .
qed

lemma set_cyclic_variants:
  assumes "xs \<noteq> []"
  shows "set (cyclic_variants r xs) = orbit xs"
proof -
  have "reverse_with r xs \<noteq> []" using assms by (simp add: reverse_with_def)
  from set_rotations[OF this] show ?thesis
    unfolding cyclic_variants_def set_append orbit_def set_rotations[OF assms] by simp
qed

lemma cyclic_variants_Nil: "cyclic_variants r [] = []"
  by (simp add: cyclic_variants_def rotations_def reverse_with_def)

lemma cyclic_variants_nonempty: "xs \<noteq> [] \<Longrightarrow> cyclic_variants r xs \<noteq> []"
  using set_cyclic_variants[of xs] orbit_refl[of xs] by force

lemma orbit_Nil: "orbit [] = {[]}"
  by (auto simp: orbit_def reverse_with_def)

lemma length_orbit: "ys \<in> orbit xs \<Longrightarrow> length ys = length xs"
  by (auto simp: orbit_def)

end

locale ordered_reversal = reversal r for r :: "'a::linorder \<Rightarrow> 'a"
begin

lemma min_variant_orbit:
  assumes "xs \<noteq> []"
  shows "min_variant (cyclic_variants r xs) = Inr (Min (orbit xs))"
  using cyclic_variants_nonempty[OF assms]
  by (simp add: min_variant_def min_list_Min set_cyclic_variants[OF assms])

lemma finite_orbit: "finite (orbit xs)"
  by (cases "xs = []") (simp add: orbit_Nil, metis List.finite_set set_cyclic_variants)

lemma min_in_orbit: "Min (orbit xs) \<in> orbit xs"
  using finite_orbit orbit_refl by (intro Min_in) auto

lemma min_variant_eq_iff:
  "min_variant (cyclic_variants r xs) = min_variant (cyclic_variants r ys) \<longleftrightarrow> ys \<in> orbit xs"
proof (cases "xs = [] \<or> ys = []")
  case True
  then show ?thesis
  proof
    assume "xs = []"
    then show ?thesis
      by (cases "ys = []") (simp_all add: cyclic_variants_Nil orbit_Nil min_variant_orbit min_variant_def
        cyclic_variants_nonempty)
  next
    assume "ys = []"
    then show ?thesis
      by (cases "xs = []") (auto simp: cyclic_variants_Nil orbit_Nil min_variant_def
        cyclic_variants_nonempty dest: length_orbit)
  qed
next
  case False
  then have "min_variant (cyclic_variants r xs) = min_variant (cyclic_variants r ys)
      \<longleftrightarrow> Min (orbit xs) = Min (orbit ys)"
    by (simp add: min_variant_orbit)
  also have "\<dots> \<longleftrightarrow> orbit xs = orbit ys"
  proof
    assume "Min (orbit xs) = Min (orbit ys)"
    then have "Min (orbit xs) \<in> orbit xs" "Min (orbit xs) \<in> orbit ys"
      using min_in_orbit[of xs] min_in_orbit[of ys] by simp_all
    then show "orbit xs = orbit ys" using orbit_eq_iff by blast
  qed simp
  finally show ?thesis by (simp only: orbit_eq_iff)
qed

end

lemma token_reversed_reversed: "token_reversed (token_reversed x) = x"
  by (cases x) simp

lemma step_reversed_reversed: "step_reversed (step_reversed x) = x"
  by (cases x) simp

interpretation tokens: ordered_reversal token_reversed
  by unfold_locales (rule token_reversed_reversed)

interpretation steps: ordered_reversal step_reversed
  by unfold_locales (rule step_reversed_reversed)

section \<open>Properties\<close>

text \<open>C34: the canonical token sequence is a complete invariant of the cycle: two sequences have the
  same canonical form exactly when one is a rotation of the other or of its reversal with every
  orientation flipped.\<close>
theorem canonical_tokens_complete:
  "canonicalize_primitive_ring_tokens xs = canonicalize_primitive_ring_tokens ys \<longleftrightarrow>
     (\<exists>k. ys = rotate k xs \<or> ys = rotate k (map token_reversed (rev xs)))"
  unfolding canonicalize_primitive_ring_tokens_def tokens.min_variant_eq_iff tokens.orbit_def
    reverse_with_def by blast

end
