(* ===== verification/Ring_Walks.thy ===== *)
theory Ring_Walks
  imports Ring_Records
begin

text \<open>
  Walks in the lifted framework graph (\<open>mdstats/analysis/primitive_ring.py\<close>): half-edge adjacency,
  the destination and the physical edge instance of a step, path vertices and path instances,
  canonical step sequences, and the validation of a candidate cycle
  (\<open>_build_half_edge_adjacency\<close> to \<open>_candidate_from_path\<close>, \<open>_path_vertices_from_start\<close>,
  \<open>_path_instance_keys\<close>).

  The lemmas show that walks can be translated and walked back, that being a closed lifted-simple
  cycle does not depend on where and in which direction the cycle is read, and that candidate
  validation accepts exactly those cycles.
\<close>

section \<open>Steps\<close>

definition edge_at :: "framework_topology \<Rightarrow> nat \<Rightarrow> framework_edge_key result" where
  "edge_at t k = bindE (nthE (topology_edges t) k) (\<lambda>edge. Inr (edge_key edge))"

definition step_destination ::
  "framework_topology \<Rightarrow> lifted_vertex \<Rightarrow> ring_step \<Rightarrow> lifted_vertex result" where
  "step_destination t source step =
     bindE (edge_at t (step_edge step)) (\<lambda>edge.
     if step_orientation step = Forward then
       if atom_index source \<noteq> vertex_i edge then
         Inl (PrimitiveRingSearchError (Text ''Forward ring step source does not match edge vertex_i.''))
       else Inr (LiftedVertexRef (vertex_j edge) (add_shift (vertex_image source) (image_shift edge)))
     else if atom_index source \<noteq> vertex_j edge then
       Inl (PrimitiveRingSearchError (Text ''Reverse ring step source does not match edge vertex_j.''))
     else Inr (LiftedVertexRef (vertex_i edge) (subtract_shift (vertex_image source) (image_shift edge))))"

definition physical_instance_key ::
  "framework_topology \<Rightarrow> lifted_vertex \<Rightarrow> ring_step \<Rightarrow> (nat \<times> shift) result" where
  "physical_instance_key t source step =
     bindE (edge_at t (step_edge step)) (\<lambda>edge.
     Inr (step_edge step,
       if step_orientation step = Forward then vertex_image source
       else subtract_shift (vertex_image source) (image_shift edge)))"

record half_edge =
  half_edge_index :: nat
  half_orientation :: orientation
  half_source :: nat
  half_target :: nat
  image_delta :: shift

definition half_edges_of :: "nat \<Rightarrow> nat \<Rightarrow> framework_edge_key \<Rightarrow> half_edge list" where
  "half_edges_of v k key =
     (if vertex_i key = v then
        [\<lparr>half_edge_index = k, half_orientation = Forward, half_source = vertex_i key,
          half_target = vertex_j key, image_delta = image_shift key\<rparr>] else []) @
     (if vertex_j key = v then
        [\<lparr>half_edge_index = k, half_orientation = Backward, half_source = vertex_j key,
          half_target = vertex_i key, image_delta = negate_shift (image_shift key)\<rparr>] else [])"

definition half_edges_at :: "framework_topology \<Rightarrow> nat \<Rightarrow> half_edge list" where
  "half_edges_at t v =
     sort_key (\<lambda>h. (edge_key (topology_edges t ! half_edge_index h), half_orientation h,
                     half_target h, image_delta h))
       (concat (map (\<lambda>(k, edge). half_edges_of v k (edge_key edge))
         (List.enumerate 0 (topology_edges t))))"

definition half_edge_adjacency :: "framework_topology \<Rightarrow> (nat \<times> half_edge list) list result" where
  "half_edge_adjacency t =
     bindE (guardE (\<forall>edge \<in> set (topology_edges t).
         fst (edge_ends edge) \<in> set (vertex_atoms t) \<and> snd (edge_ends edge) \<in> set (vertex_atoms t))
       (KeyError (Text ''''))) (\<lambda>_.
     Inr (map (\<lambda>v. (v, half_edges_at t v)) (vertex_atoms t)))"

definition edge_instance_anchor ::
  "framework_topology \<Rightarrow> lifted_vertex \<Rightarrow> half_edge \<Rightarrow> shift result" where
  "edge_instance_anchor t state h =
     (if half_orientation h = Forward then Inr (vertex_image state)
      else bindE (edge_at t (half_edge_index h)) (\<lambda>edge.
        Inr (subtract_shift (vertex_image state) (image_shift edge))))"

section \<open>Paths\<close>

fun path_vertices_from_start ::
  "framework_topology \<Rightarrow> lifted_vertex \<Rightarrow> ring_step list \<Rightarrow> lifted_vertex list result" where
  "path_vertices_from_start t start [] = Inr [start]"
| "path_vertices_from_start t start (step # steps) =
     bindE (step_destination t start step) (\<lambda>next.
     bindE (path_vertices_from_start t next steps) (\<lambda>vertices. Inr (start # vertices)))"

fun instances_along ::
  "framework_topology \<Rightarrow> lifted_vertex \<Rightarrow> ring_step list \<Rightarrow> (nat \<times> shift) list result" where
  "instances_along t start [] = Inr []"
| "instances_along t start (step # steps) =
     bindE (physical_instance_key t start step) (\<lambda>key.
     bindE (step_destination t start step) (\<lambda>next.
     bindE (instances_along t next steps) (\<lambda>keys. Inr (key # keys))))"

fun path_instance_loop ::
  "framework_topology \<Rightarrow> lifted_vertex \<Rightarrow> ring_step list \<Rightarrow> (nat \<times> shift) list
   \<Rightarrow> (nat \<times> shift) list result" where
  "path_instance_loop t current [] keys = Inr keys"
| "path_instance_loop t current (step # steps) keys =
     bindE (physical_instance_key t current step) (\<lambda>key.
     if key \<in> set keys then Inr []
     else bindE (step_destination t current step) (\<lambda>next.
       path_instance_loop t next steps (key # keys)))"

definition path_instance_keys ::
  "framework_topology \<Rightarrow> lifted_vertex \<Rightarrow> ring_step list \<Rightarrow> (nat \<times> shift) list result" where
  "path_instance_keys t start steps = path_instance_loop t start steps []"

section \<open>Canonical steps and candidate cycles\<close>

definition step_tokens :: "framework_topology \<Rightarrow> ring_step list \<Rightarrow> ring_token list result" where
  "step_tokens t steps =
     mapE (\<lambda>step. bindE (edge_at t (step_edge step)) (\<lambda>key.
       Inr (PrimitiveRingEdgeToken key (step_orientation step)))) steps"

definition canonicalize_steps ::
  "framework_topology \<Rightarrow> ring_step list \<Rightarrow> (ring_key \<times> ring_step list) result" where
  "canonicalize_steps t steps =
     bindE (mapE (\<lambda>rotated. bindE (step_tokens t rotated) (\<lambda>tokens. Inr (tokens, rotated)))
              (cyclic_variants step_reversed steps)) (\<lambda>variants.
     bindE (min_variant variants) (\<lambda>(tokens, canonical_steps).
     bindE (make_ring_key tokens) (\<lambda>key. Inr (key, canonical_steps))))"

definition first_vertex :: "framework_topology \<Rightarrow> ring_step list \<Rightarrow> lifted_vertex result" where
  "first_vertex t steps =
     bindE (nthE steps 0) (\<lambda>step.
     bindE (edge_at t (step_edge step)) (\<lambda>edge.
     Inr (LiftedVertexRef
       (if step_orientation step = Forward then vertex_i edge else vertex_j edge) zero_shift)))"

definition rebuild_vertex_walk :: "framework_topology \<Rightarrow> ring_step list \<Rightarrow> lifted_vertex list result" where
  "rebuild_vertex_walk t steps =
     bindE (first_vertex t steps) (\<lambda>start.
     bindE (path_vertices_from_start t start steps) (\<lambda>vertices.
     if last vertices \<noteq> hd vertices
     then Inl (PrimitiveRingSearchError (Text ''Canonical step sequence does not close.''))
     else Inr (butlast vertices)))"

fun cycle_loop ::
  "framework_topology \<Rightarrow> lifted_vertex \<Rightarrow> ring_step list \<Rightarrow> (nat \<times> shift) list \<Rightarrow> shift
   \<Rightarrow> (lifted_vertex list \<times> lifted_vertex \<times> shift) result" where
  "cycle_loop t current [] instances w = Inr ([], current, w)"
| "cycle_loop t current (step # steps) instances w =
     bindE (physical_instance_key t current step) (\<lambda>instance.
     if instance \<in> set instances then
       Inl (PrimitiveRingSearchError (Text ''Candidate repeats a physical lifted edge instance.''))
     else
       bindE (step_destination t current step) (\<lambda>destination.
       bindE (cycle_loop t destination steps (instance # instances)
                (add_shift w (subtract_shift (vertex_image destination) (vertex_image current))))
         (\<lambda>(vertices, final, total). Inr (current # vertices, final, total))))"

definition validate_candidate_cycle ::
  "framework_topology \<Rightarrow> ring_step list \<Rightarrow> primitive_ring_options \<Rightarrow> lifted_vertex list result" where
  "validate_candidate_cycle t steps options =
     (if length steps < min_ring_size options \<or> length steps > max_ring_size options then
        Inl (PrimitiveRingSearchError (Text ''Candidate ring size lies outside options.''))
      else
        bindE (first_vertex t steps) (\<lambda>start.
        bindE (cycle_loop t start steps [] zero_shift) (\<lambda>(vertices, final, w).
        if final \<noteq> hd vertices then
          Inl (PrimitiveRingSearchError (Text ''Candidate ring does not close exactly.''))
        else if w \<noteq> zero_shift then
          Inl (PrimitiveRingSearchError (Text ''Candidate ring has nonzero periodic winding.''))
        else if \<not> distinct vertices then
          Inl (PrimitiveRingSearchError (Text ''Candidate ring is not lifted-simple.''))
        else Inr vertices)))"

section \<open>Walking back and translating\<close>

lemma edge_at_Inr_iff [result_simps]:
  "edge_at t k = Inr key \<longleftrightarrow> k < length (topology_edges t) \<and> key = edge_key (topology_edges t ! k)"
  by (auto simp: edge_at_def result_simps)

lemma step_destination_Inr_iff:
  "step_destination t (LiftedVertexRef a x) (PrimitiveRingStep k d) = Inr w \<longleftrightarrow>
     k < length (topology_edges t) \<and>
     (let key = edge_key (topology_edges t ! k) in
      if d = Forward then a = vertex_i key \<and> w = LiftedVertexRef (vertex_j key) (add_shift x (image_shift key))
      else a = vertex_j key \<and> w = LiftedVertexRef (vertex_i key) (subtract_shift x (image_shift key)))"
  by (auto simp: step_destination_def bindE_Inr_iff edge_at_Inr_iff Let_def)

lemma step_destination_reversed:
  "step_destination t w (step_reversed st) = Inr v \<longleftrightarrow> step_destination t v st = Inr w"
proof -
  obtain a x b y k d where "v = LiftedVertexRef a x" "w = LiftedVertexRef b y" "st = PrimitiveRingStep k d"
    by (metis lifted_vertex.exhaust ring_step.exhaust)
  then show ?thesis
    by (cases d) (auto simp: step_destination_Inr_iff Let_def)
qed

lemma physical_instance_reversed:
  assumes "step_destination t v st = Inr w"
  shows "physical_instance_key t w (step_reversed st) = physical_instance_key t v st"
proof -
  obtain a x b y k d where "v = LiftedVertexRef a x" "w = LiftedVertexRef b y" "st = PrimitiveRingStep k d"
    by (metis lifted_vertex.exhaust ring_step.exhaust)
  with assms show ?thesis
    by (cases d) (auto simp: step_destination_Inr_iff Let_def physical_instance_key_def edge_at_def nthE_def)
qed

lemma physical_instance_Inr_iff:
  "physical_instance_key t v st = Inr key \<longleftrightarrow> step_edge st < length (topology_edges t) \<and>
     key = (step_edge st, if step_orientation st = Forward then vertex_image v
       else subtract_shift (vertex_image v) (image_shift (edge_key (topology_edges t ! step_edge st))))"
  by (simp add: physical_instance_key_def bindE_Inr_iff edge_at_Inr_iff) blast

lemma physical_instance_total:
  assumes "step_destination t v st = Inr w"
  shows "\<exists>key. physical_instance_key t v st = Inr key"
proof -
  have "step_edge st < length (topology_edges t)"
    using assms by (auto simp: step_destination_def bindE_Inr_iff edge_at_Inr_iff)
  then show ?thesis unfolding physical_instance_Inr_iff by blast
qed

lemma shift_swap:
  "add_shift (add_shift x s) d = add_shift (add_shift x d) s"
  "add_shift (subtract_shift x s) d = subtract_shift (add_shift x d) s"
  by (cases x; cases s; cases d; simp)+

lemma step_destination_translate:
  "step_destination t v st = Inr w \<Longrightarrow> step_destination t (translate d v) st = Inr (translate d w)"
  by (cases v; cases st)
    (auto simp: step_destination_Inr_iff translate_def Let_def shift_swap split: if_splits)

lemma translate_translate [simp]: "translate d (translate e v) = translate (add_shift e d) v"
  by (cases v) (simp add: translate_def add_shift_assoc)

lemma translate_zero [simp]: "translate zero_shift v = v"
  by (cases v) (simp add: translate_def)

lemma translate_inject [simp]: "translate d v = translate d w \<longleftrightarrow> v = w"
  by (cases v; cases w) (simp add: translate_def)

lemma atom_index_translate [simp]: "atom_index (translate d v) = atom_index v"
  by (simp add: translate_def)

lemma vertex_image_translate [simp]: "vertex_image (translate d v) = add_shift (vertex_image v) d"
  by (simp add: translate_def)

lemma physical_instance_translate:
  "physical_instance_key t v st = Inr (k, x) \<Longrightarrow>
   physical_instance_key t (translate d v) st = Inr (k, add_shift x d)"
  by (auto simp: physical_instance_Inr_iff shift_swap split: if_splits)

section \<open>Paths and their instances\<close>

lemma path_vertices_ends:
  "path_vertices_from_start t v steps = Inr vs \<Longrightarrow> vs \<noteq> [] \<and> hd vs = v \<and> length vs = length steps + 1"
  by (induction steps arbitrary: v vs) (auto simp: bindE_Inr_iff)

lemma path_vertices_append:
  "path_vertices_from_start t v (xs @ ys) = Inr ws \<longleftrightarrow>
     (\<exists>us vs. path_vertices_from_start t v xs = Inr us \<and> path_vertices_from_start t (last us) ys = Inr vs
        \<and> ws = us @ tl vs)"
proof (induction xs arbitrary: v ws)
  case Nil
  have eq: "us = v # tl us" if "path_vertices_from_start t v ys = Inr us" for us
    using path_vertices_ends[OF that] by (cases us) auto
  then show ?case by (auto dest: eq)
next
  case (Cons x xs)
  have "last (v # us) = last us" if "path_vertices_from_start t w xs = Inr us" for w us
    using path_vertices_ends[OF that] by simp
  then show ?case
    by (auto simp: bindE_Inr_iff Cons.IH)
qed

lemma path_vertices_reverse:
  "path_vertices_from_start t v steps = Inr vs \<Longrightarrow>
   path_vertices_from_start t (last vs) (reverse_with step_reversed steps) = Inr (rev vs)"
proof (induction steps arbitrary: v vs)
  case (Cons st steps)
  then obtain w ws where w: "step_destination t v st = Inr w"
    and ws: "path_vertices_from_start t w steps = Inr ws" and vs: "vs = v # ws"
    by (auto simp: bindE_Inr_iff)
  note ends = path_vertices_ends[OF ws]
  then have "last vs = last ws" "last (rev ws) = w" by (simp_all add: vs last_rev)
  moreover have "path_vertices_from_start t w [step_reversed st] = Inr [w, v]"
    using w by (simp add: bindE_Inr_iff step_destination_reversed)
  ultimately show ?case
    using Cons.IH[OF ws] by (auto simp: reverse_with_def path_vertices_append vs)
qed (simp add: reverse_with_def)

lemma path_vertices_translate:
  "path_vertices_from_start t v steps = Inr vs \<Longrightarrow>
   path_vertices_from_start t (translate d v) steps = Inr (map (translate d) vs)"
proof (induction steps arbitrary: v vs)
  case (Cons st steps)
  then obtain w ws where "step_destination t v st = Inr w"
    "path_vertices_from_start t w steps = Inr ws" "vs = v # ws" by (auto simp: bindE_Inr_iff)
  with Cons.IH[OF this(2)] step_destination_translate[OF this(1), of d] show ?case by simp
qed simp

lemma instances_total:
  "path_vertices_from_start t v steps = Inr vs \<Longrightarrow>
   \<exists>keys. instances_along t v steps = Inr keys \<and> length keys = length steps"
proof (induction steps arbitrary: v vs)
  case (Cons st steps)
  then obtain w ws where w: "step_destination t v st = Inr w"
    and "path_vertices_from_start t w steps = Inr ws" by (auto simp: bindE_Inr_iff)
  with Cons.IH[OF this(2)] physical_instance_total[OF w] w show ?case by auto
qed simp

lemma instances_append:
  assumes "path_vertices_from_start t v xs = Inr us" and "instances_along t v xs = Inr ks"
    and "instances_along t (last us) ys = Inr ls"
  shows "instances_along t v (xs @ ys) = Inr (ks @ ls)"
  using assms
proof (induction xs arbitrary: v us ks)
  case (Cons x xs)
  then obtain w us' where "step_destination t v x = Inr w" "path_vertices_from_start t w xs = Inr us'"
    "us = v # us'" by (auto simp: bindE_Inr_iff)
  moreover from this path_vertices_ends have "last us = last us'" by fastforce
  ultimately show ?case using Cons by (auto simp: bindE_Inr_iff)
qed auto

lemma instances_reverse:
  assumes "path_vertices_from_start t v steps = Inr vs" and "instances_along t v steps = Inr keys"
  shows "instances_along t (last vs) (reverse_with step_reversed steps) = Inr (rev keys)"
  using assms
proof (induction steps arbitrary: v vs keys)
  case (Cons st steps)
  then obtain w ws key keys' where w: "step_destination t v st = Inr w"
    and ws: "path_vertices_from_start t w steps = Inr ws" and vs: "vs = v # ws"
    and key: "physical_instance_key t v st = Inr key" and keys: "instances_along t w steps = Inr keys'"
    "keys = key # keys'"
    by (auto simp: bindE_Inr_iff)
  have last: "last vs = last ws" "last (rev ws) = w"
    using path_vertices_ends[OF ws] by (simp_all add: vs last_rev)
  have "instances_along t w [step_reversed st] = Inr [key]"
    using w key physical_instance_reversed[OF w] step_destination_reversed[of t w st v]
    by (auto simp: bindE_Inr_iff)
  then show ?case
    using instances_append[OF path_vertices_reverse[OF ws] Cons.IH[OF ws keys(1)]] last
    by (simp add: reverse_with_def keys)
qed (auto simp: reverse_with_def)

lemma instances_translate:
  assumes "instances_along t v steps = Inr keys"
  shows "instances_along t (translate d v) steps = Inr (map (\<lambda>(k, x). (k, add_shift x d)) keys)"
  using assms
proof (induction steps arbitrary: v keys)
  case (Cons st steps)
  then obtain k x w keys' where "physical_instance_key t v st = Inr (k, x)"
    "step_destination t v st = Inr w" "instances_along t w steps = Inr keys'" "keys = (k, x) # keys'"
    by (auto simp: bindE_Inr_iff)
  with Cons.IH[OF this(3)] physical_instance_translate[OF this(1), of d]
    step_destination_translate[OF this(2), of d]
  show ?case by simp
qed simp

section \<open>Closed lifted-simple cycles\<close>

definition closed_cycle ::
  "framework_topology \<Rightarrow> lifted_vertex \<Rightarrow> ring_step list \<Rightarrow> lifted_vertex list \<Rightarrow> (nat \<times> shift) list \<Rightarrow> bool" where
  "closed_cycle t v steps vs keys \<longleftrightarrow>
     steps \<noteq> [] \<and> path_vertices_from_start t v steps = Inr (vs @ [v]) \<and> distinct vs
     \<and> instances_along t v steps = Inr keys \<and> distinct keys"

definition is_cycle :: "framework_topology \<Rightarrow> ring_step list \<Rightarrow> bool" where
  "is_cycle t steps \<longleftrightarrow> (\<exists>v vs keys. closed_cycle t v steps vs keys)"

lemma closed_cycle_vertices:
  assumes "closed_cycle t v steps vs keys"
  shows "vs \<noteq> []" and "hd vs = v" and "length vs = length steps" and "v \<in> set vs"
proof -
  from assms have ends: "length (vs @ [v]) = length steps + 1" "hd (vs @ [v]) = v"
    using path_vertices_ends unfolding closed_cycle_def by blast+
  moreover from assms have "steps \<noteq> []" by (simp add: closed_cycle_def)
  ultimately show "vs \<noteq> []" and "length vs = length steps" by auto
  with ends(2) show "hd vs = v" by simp
  with \<open>vs \<noteq> []\<close> show "v \<in> set vs" by (metis hd_in_set)
qed

lemma closed_cycle_rotate1:
  assumes "closed_cycle t v steps vs keys"
  shows "closed_cycle t (hd (rotate1 vs)) (rotate1 steps) (rotate1 vs) (rotate1 keys)"
proof -
  note facts = closed_cycle_vertices[OF assms]
  from assms obtain st rest where steps: "steps = st # rest"
    by (cases steps) (auto simp: closed_cycle_def)
  from facts obtain us where vs: "vs = v # us" by (cases vs) auto
  from assms steps vs obtain w key keys' where w: "step_destination t v st = Inr w"
    and rest: "path_vertices_from_start t w rest = Inr (us @ [v])"
    and key: "physical_instance_key t v st = Inr key" "instances_along t w rest = Inr keys'"
    and keys: "keys = key # keys'"
    by (auto simp: closed_cycle_def bindE_Inr_iff)
  have hd: "hd (us @ [v]) = w" using path_vertices_ends[OF rest] by simp
  have last: "path_vertices_from_start t v [st] = Inr [v, w]" "instances_along t v [st] = Inr [key]"
    using w key by simp_all
  have "path_vertices_from_start t w (rest @ [st]) = Inr ((us @ [v]) @ [w])"
    unfolding path_vertices_append using rest last by auto
  moreover have "instances_along t w (rest @ [st]) = Inr (keys' @ [key])"
    using instances_append[OF rest key(2)] last by simp
  ultimately show ?thesis
    using assms by (simp add: closed_cycle_def steps vs keys hd)
qed

lemma closed_cycle_rotate:
  "closed_cycle t v steps vs keys \<Longrightarrow>
   closed_cycle t (hd (rotate k vs)) (rotate k steps) (rotate k vs) (rotate k keys)"
proof (induction k)
  case 0
  then show ?case by (simp add: closed_cycle_vertices)
next
  case (Suc k)
  from closed_cycle_rotate1[OF Suc.IH[OF Suc.prems]] show ?case by simp
qed

lemma closed_cycle_reverse:
  assumes "closed_cycle t v steps vs keys"
  shows "closed_cycle t v (reverse_with step_reversed steps) (v # rev (tl vs)) (rev keys)"
proof -
  from closed_cycle_vertices[OF assms] obtain us where vs: "vs = v # us" by (cases vs) auto
  from assms show ?thesis
    using path_vertices_reverse[of t v steps "vs @ [v]"] instances_reverse[of t v steps "vs @ [v]" keys]
    by (auto simp: closed_cycle_def vs reverse_with_def)
qed

lemma closed_cycle_translate:
  assumes "closed_cycle t v steps vs keys"
  shows "closed_cycle t (translate d v) steps (map (translate d) vs) (map (\<lambda>(k, x). (k, add_shift x d)) keys)"
proof -
  have "inj_on (translate d) A" "inj_on (\<lambda>(k, x). (k :: nat, add_shift x d)) B" for A B
    by (auto intro!: inj_onI)
  then show ?thesis
    using assms path_vertices_translate[of t v steps "vs @ [v]" d] instances_translate[of t v steps keys d]
    by (simp add: closed_cycle_def distinct_map)
qed

lemma is_cycle_orbit:
  assumes "is_cycle t steps" and "steps' \<in> steps.orbit steps"
  shows "is_cycle t steps'"
proof -
  from assms(1) obtain v vs keys where cycle: "closed_cycle t v steps vs keys"
    by (auto simp: is_cycle_def)
  from assms(2) consider k where "steps' = rotate k steps"
    | k where "steps' = rotate k (reverse_with step_reversed steps)"
    unfolding steps.orbit_def by blast
  then show ?thesis
  proof cases
    case 1
    with closed_cycle_rotate[OF cycle] show ?thesis unfolding is_cycle_def by blast
  next
    case 2
    with closed_cycle_rotate[OF closed_cycle_reverse[OF cycle]] show ?thesis unfolding is_cycle_def by blast
  qed
qed

section \<open>Candidate validation\<close>

lemma path_first_vertex:
  assumes "path_vertices_from_start t v steps = Inr vs" and "steps \<noteq> []"
  shows "first_vertex t steps = Inr (LiftedVertexRef (atom_index v) zero_shift)"
proof -
  from assms obtain st rest w where "steps = st # rest" "step_destination t v st = Inr w"
    by (cases steps) (auto simp: bindE_Inr_iff)
  then show ?thesis
    by (cases v; cases st) (auto simp: first_vertex_def nthE_def step_destination_Inr_iff edge_at_def
        Let_def split: if_splits)
qed

lemma cycle_loop_Inr_iff:
  "cycle_loop t v steps seen w = Inr (vs, final, w') \<longleftrightarrow>
     (\<exists>keys. path_vertices_from_start t v steps = Inr (vs @ [final]) \<and> instances_along t v steps = Inr keys
        \<and> distinct keys \<and> set keys \<inter> set seen = {}
        \<and> w' = add_shift w (subtract_shift (vertex_image final) (vertex_image v)))"
proof (induction steps arbitrary: v seen w vs)
  case Nil
  then show ?case by auto
next
  case (Cons st steps)
  have tele: "add_shift (add_shift w (subtract_shift (vertex_image u) (vertex_image v)))
      (subtract_shift (vertex_image final) (vertex_image u))
      = add_shift w (subtract_shift (vertex_image final) (vertex_image v))" for u
    by (cases w; cases "vertex_image u"; cases "vertex_image v"; cases "vertex_image final") simp
  show ?case
  proof
    assume "cycle_loop t v (st # steps) seen w = Inr (vs, final, w')"
    then obtain key u us where key: "physical_instance_key t v st = Inr key" "key \<notin> set seen"
      "step_destination t v st = Inr u" "vs = v # us"
      and loop: "cycle_loop t u steps (key # seen)
        (add_shift w (subtract_shift (vertex_image u) (vertex_image v))) = Inr (us, final, w')"
      by (auto simp: bindE_Inr_iff split: if_splits)
    from loop[unfolded Cons.IH] key show "\<exists>keys. path_vertices_from_start t v (st # steps) = Inr (vs @ [final])
        \<and> instances_along t v (st # steps) = Inr keys \<and> distinct keys \<and> set keys \<inter> set seen = {}
        \<and> w' = add_shift w (subtract_shift (vertex_image final) (vertex_image v))"
      by (auto simp: tele)
  next
    assume "\<exists>keys. path_vertices_from_start t v (st # steps) = Inr (vs @ [final])
        \<and> instances_along t v (st # steps) = Inr keys \<and> distinct keys \<and> set keys \<inter> set seen = {}
        \<and> w' = add_shift w (subtract_shift (vertex_image final) (vertex_image v))"
    then obtain key keys u us where 1: "step_destination t v st = Inr u"
      "path_vertices_from_start t u steps = Inr us" "vs @ [final] = v # us"
      "physical_instance_key t v st = Inr key" "instances_along t u steps = Inr keys"
      "key \<notin> set keys" "distinct keys" "key \<notin> set seen" "set keys \<inter> set seen = {}"
      "w' = add_shift w (subtract_shift (vertex_image final) (vertex_image v))"
      by (auto simp: bindE_Inr_iff)
    from 1(2,3) obtain us' where us: "us = us' @ [final]" "vs = v # us'"
      using path_vertices_ends[OF 1(2)] by (cases vs) auto
    have "cycle_loop t u steps (key # seen) (add_shift w (subtract_shift (vertex_image u) (vertex_image v)))
        = Inr (us', final, w')"
      unfolding Cons.IH using 1 us by (auto simp: tele)
    with 1 us show "cycle_loop t v (st # steps) seen w = Inr (vs, final, w')" by simp
  qed
qed

lemma validate_candidate_cycle_Inr_iff:
  "validate_candidate_cycle t steps options = Inr vs \<longleftrightarrow>
     min_ring_size options \<le> length steps \<and> length steps \<le> max_ring_size options
     \<and> (\<exists>v keys. closed_cycle t v steps vs keys \<and> vertex_image v = zero_shift)"
proof
  assume "validate_candidate_cycle t steps options = Inr vs"
  then obtain v final w where sizes: "min_ring_size options \<le> length steps" "length steps \<le> max_ring_size options"
    and first: "first_vertex t steps = Inr v" and loop: "cycle_loop t v steps [] zero_shift = Inr (vs, final, w)"
    and final: "final = hd vs" "distinct vs"
    by (auto simp: validate_candidate_cycle_def bindE_Inr_iff split: if_splits)
  have v: "vertex_image v = zero_shift" "steps \<noteq> []"
    using first by (auto simp: first_vertex_def bindE_Inr_iff nthE_Inr_iff)
  from loop[unfolded cycle_loop_Inr_iff] obtain keys where
    path: "path_vertices_from_start t v steps = Inr (vs @ [final])" "instances_along t v steps = Inr keys"
      "distinct keys" by blast
  have "length vs = length steps" "hd (vs @ [final]) = v"
    using path_vertices_ends[OF path(1)] by simp_all
  with v final have "final = v" by (cases vs) auto
  with path final v have "closed_cycle t v steps vs keys" by (simp add: closed_cycle_def)
  with sizes v show "min_ring_size options \<le> length steps \<and> length steps \<le> max_ring_size options
     \<and> (\<exists>v keys. closed_cycle t v steps vs keys \<and> vertex_image v = zero_shift)" by blast
next
  assume "min_ring_size options \<le> length steps \<and> length steps \<le> max_ring_size options
     \<and> (\<exists>v keys. closed_cycle t v steps vs keys \<and> vertex_image v = zero_shift)"
  then obtain v keys where sizes: "min_ring_size options \<le> length steps" "length steps \<le> max_ring_size options"
    and cycle: "closed_cycle t v steps vs keys" and v: "vertex_image v = zero_shift" by blast
  note facts = closed_cycle_vertices[OF cycle]
  have first: "first_vertex t steps = Inr v"
    using path_first_vertex[of t v steps "vs @ [v]"] cycle v
    by (cases v) (simp add: closed_cycle_def)
  have "cycle_loop t v steps [] zero_shift = Inr (vs, v, zero_shift)"
    unfolding cycle_loop_Inr_iff using cycle by (simp add: closed_cycle_def)
  with sizes first facts cycle show "validate_candidate_cycle t steps options = Inr vs"
    by (simp add: validate_candidate_cycle_def closed_cycle_def)
qed

lemma closed_cycle_zero:
  assumes "is_cycle t steps"
  shows "\<exists>v vs keys. closed_cycle t v steps vs keys \<and> vertex_image v = zero_shift"
proof -
  from assms obtain v vs keys where "closed_cycle t v steps vs keys" by (auto simp: is_cycle_def)
  from closed_cycle_translate[OF this, of "negate_shift (vertex_image v)"]
  show ?thesis by (intro exI conjI) (assumption, simp)
qed

lemma validate_candidate_cycle_iff:
  "(\<exists>vs. validate_candidate_cycle t steps options = Inr vs) \<longleftrightarrow>
     min_ring_size options \<le> length steps \<and> length steps \<le> max_ring_size options \<and> is_cycle t steps"
  using closed_cycle_zero unfolding validate_candidate_cycle_Inr_iff is_cycle_def by blast

lemma rebuild_vertex_walk_validate:
  assumes "validate_candidate_cycle t steps options = Inr vs"
  shows "rebuild_vertex_walk t steps = Inr vs"
proof -
  from assms obtain v keys where cycle: "closed_cycle t v steps vs keys" and v: "vertex_image v = zero_shift"
    unfolding validate_candidate_cycle_Inr_iff by blast
  have "first_vertex t steps = Inr v"
    using path_first_vertex[of t v steps "vs @ [v]"] cycle v
    by (cases v) (simp add: closed_cycle_def)
  then show ?thesis
    using cycle closed_cycle_vertices[OF cycle]
    by (simp add: rebuild_vertex_walk_def closed_cycle_def)
qed

section \<open>Canonical steps\<close>

definition in_range :: "framework_topology \<Rightarrow> ring_step list \<Rightarrow> bool" where
  "in_range t steps \<longleftrightarrow> (\<forall>step \<in> set steps. step_edge step < length (topology_edges t))"

definition token_of :: "framework_topology \<Rightarrow> ring_step \<Rightarrow> ring_token" where
  "token_of t step =
     PrimitiveRingEdgeToken (edge_key (topology_edges t ! step_edge step)) (step_orientation step)"

lemma step_tokens_in_range: "in_range t steps \<Longrightarrow> step_tokens t steps = Inr (map (token_of t) steps)"
  unfolding step_tokens_def
  by (rule mapE_total) (auto simp: in_range_def token_of_def edge_at_def nthE_def)

lemma token_of_reversed: "token_of t (step_reversed step) = token_reversed (token_of t step)"
  by (cases step) (simp add: token_of_def)

lemma map_token_reverse_with:
  "map (token_of t) (reverse_with step_reversed steps) = reverse_with token_reversed (map (token_of t) steps)"
  by (simp add: reverse_with_def rev_map token_of_reversed)

lemma token_orbit: "map (token_of t) ` steps.orbit xs = tokens.orbit (map (token_of t) xs)"
  unfolding steps.orbit_def tokens.orbit_def map_token_reverse_with[symmetric]
  by (auto simp: rotate_map image_iff)

lemma in_range_orbit:
  assumes "in_range t steps" and "steps' \<in> steps.orbit steps"
  shows "in_range t steps'"
proof -
  have "step_edge (step_reversed s) = step_edge s" for s by (cases s) simp
  with assms show ?thesis
    unfolding steps.orbit_def in_range_def reverse_with_def by auto
qed

lemma fst_Min_pairs:
  fixes S :: "('a::linorder \<times> 'b::linorder) set"
  assumes "finite S" and "S \<noteq> {}"
  shows "fst (Min S) = Min (fst ` S)"
proof (rule Min_eqI[symmetric])
  show "finite (fst ` S)" using assms by simp
  show "fst (Min S) \<in> fst ` S" using assms by simp
  fix y assume "y \<in> fst ` S"
  then obtain z where "(y, z) \<in> S" by auto
  then have "Min S \<le> (y, z)" using assms by simp
  then show "fst (Min S) \<le> y" by (cases "Min S") auto
qed

definition canonical_of :: "framework_topology \<Rightarrow> ring_step list \<Rightarrow> ring_token list \<times> ring_step list" where
  "canonical_of t steps = Min ((\<lambda>s. (map (token_of t) s, s)) ` steps.orbit steps)"

lemma canonical_of_facts:
  shows "snd (canonical_of t steps) \<in> steps.orbit steps"
    and "fst (canonical_of t steps) = map (token_of t) (snd (canonical_of t steps))"
    and "fst (canonical_of t steps) = Min (tokens.orbit (map (token_of t) steps))"
proof -
  let ?S = "(\<lambda>s. (map (token_of t) s, s)) ` steps.orbit steps"
  have S: "finite ?S" "?S \<noteq> {}"
    using steps.finite_orbit steps.orbit_refl by blast+
  then have "canonical_of t steps \<in> ?S" unfolding canonical_of_def by (rule Min_in)
  then show "snd (canonical_of t steps) \<in> steps.orbit steps"
    and "fst (canonical_of t steps) = map (token_of t) (snd (canonical_of t steps))" by auto
  have "fst ` ?S = map (token_of t) ` steps.orbit steps" by (simp add: image_image)
  then show "fst (canonical_of t steps) = Min (tokens.orbit (map (token_of t) steps))"
    unfolding canonical_of_def fst_Min_pairs[OF S] token_orbit[symmetric] by simp
qed

lemma canonicalize_steps_eq:
  assumes "in_range t steps" and "2 \<le> length steps"
  shows "canonicalize_steps t steps =
    Inr (PrimitiveRingKey (fst (canonical_of t steps)), snd (canonical_of t steps))"
proof -
  have nonempty: "steps \<noteq> []" using assms(2) by auto
  have "mapE (\<lambda>rotated. bindE (step_tokens t rotated) (\<lambda>tokens. Inr (tokens, rotated)))
      (cyclic_variants step_reversed steps)
      = Inr (map (\<lambda>s. (map (token_of t) s, s)) (cyclic_variants step_reversed steps))"
    by (rule mapE_total) (simp add: steps.set_cyclic_variants[OF nonempty] step_tokens_in_range
        in_range_orbit[OF assms(1)])
  moreover have "min_variant (map (\<lambda>s. (map (token_of t) s, s)) (cyclic_variants step_reversed steps))
      = Inr (canonical_of t steps)"
    using steps.cyclic_variants_nonempty[OF nonempty]
    by (simp add: min_variant_def min_list_Min steps.set_cyclic_variants[OF nonempty] canonical_of_def)
  moreover have "make_ring_key (fst (canonical_of t steps)) = Inr (PrimitiveRingKey (fst (canonical_of t steps)))"
  proof -
    let ?T = "map (token_of t) steps" and ?m = "fst (canonical_of t steps)"
    have m: "?m = Min (tokens.orbit ?T)" by (rule canonical_of_facts(3))
    then have in_orbit: "?m \<in> tokens.orbit ?T" using tokens.min_in_orbit by simp
    then have same: "tokens.orbit ?m = tokens.orbit ?T" using tokens.orbit_eq_iff by blast
    have len: "length ?m = length steps" using tokens.length_orbit[OF in_orbit] by simp
    then have "canonicalize_primitive_ring_tokens ?m = Inr ?m"
      unfolding canonicalize_primitive_ring_tokens_def
      using tokens.min_variant_orbit[of ?m] nonempty same m by force
    with len assms(2) show ?thesis by (simp add: make_ring_key_def)
  qed
  ultimately show ?thesis
    by (simp add: canonicalize_steps_def split_beta)
qed

lemma canonicalize_steps_orbit:
  assumes "in_range t steps" and "2 \<le> length steps" and "steps' \<in> steps.orbit steps"
  shows "canonicalize_steps t steps' = canonicalize_steps t steps"
proof -
  have "steps.orbit steps' = steps.orbit steps"
    using assms(3) steps.orbit_eq_iff by blast
  then have "canonical_of t steps' = canonical_of t steps" by (simp add: canonical_of_def)
  moreover have "2 \<le> length steps'" using assms(2) steps.length_orbit[OF assms(3)] by simp
  ultimately show ?thesis
    using canonicalize_steps_eq[OF assms(1,2)]
      canonicalize_steps_eq[OF in_range_orbit[OF assms(1,3)]] by simp
qed

lemma canonical_key_eq_iff:
  assumes "in_range t xs" and "in_range t ys" and "distinct (map edge_key (topology_edges t))"
  shows "fst (canonical_of t xs) = fst (canonical_of t ys) \<longleftrightarrow> ys \<in> steps.orbit xs"
proof
  assume "fst (canonical_of t xs) = fst (canonical_of t ys)"
  then have "map (token_of t) (snd (canonical_of t xs)) = map (token_of t) (snd (canonical_of t ys))"
    by (simp only: canonical_of_facts(2))
  moreover have "inj_on (token_of t) {s. step_edge s < length (topology_edges t)}"
  proof (rule inj_onI)
    fix a b assume ab: "a \<in> {s. step_edge s < length (topology_edges t)}"
      "b \<in> {s. step_edge s < length (topology_edges t)}" "token_of t a = token_of t b"
    then have "map edge_key (topology_edges t) ! step_edge a = map edge_key (topology_edges t) ! step_edge b"
      "step_orientation a = step_orientation b"
      by (simp_all add: token_of_def)
    with ab assms(3) show "a = b"
      by (cases a; cases b) (simp add: nth_eq_iff_index_eq del: nth_map)
  qed
  moreover have "set (snd (canonical_of t zs)) \<subseteq> {s. step_edge s < length (topology_edges t)}"
    if "in_range t zs" for zs
    using in_range_orbit[OF that canonical_of_facts(1)] by (auto simp: in_range_def)
  ultimately have "snd (canonical_of t xs) = snd (canonical_of t ys)"
    using assms(1,2) by (metis (no_types, lifting) Un_subset_iff inj_on_map_eq_map inj_on_subset)
  then show "ys \<in> steps.orbit xs"
    using canonical_of_facts(1)[of t xs] canonical_of_facts(1)[of t ys] steps.orbit_sym steps.orbit_trans
    by metis
next
  assume "ys \<in> steps.orbit xs"
  then have "steps.orbit xs = steps.orbit ys" using steps.orbit_eq_iff by blast
  then show "fst (canonical_of t xs) = fst (canonical_of t ys)" by (simp add: canonical_of_def)
qed

lemma path_in_range: "path_vertices_from_start t v steps = Inr vs \<Longrightarrow> in_range t steps"
proof (induction steps arbitrary: v vs)
  case (Cons st steps)
  then obtain w ws where "step_destination t v st = Inr w" "path_vertices_from_start t w steps = Inr ws"
    by (auto simp: bindE_Inr_iff)
  moreover from this(1) have "step_edge st < length (topology_edges t)"
    by (auto simp: step_destination_def bindE_Inr_iff edge_at_Inr_iff)
  ultimately show ?case using Cons.IH by (auto simp: in_range_def)
qed (simp add: in_range_def)

lemma is_cycle_in_range: "is_cycle t steps \<Longrightarrow> in_range t steps"
  by (auto simp: is_cycle_def closed_cycle_def dest: path_in_range)

section \<open>Properties\<close>

text \<open>C32: Candidate validation accepts exactly the closed lifted-simple cycles of an admitted size, and neither
  the step at which the cycle is opened nor the direction in which it is read matters.\<close>

theorem candidate_validation_exact:
  "((\<exists>vs. validate_candidate_cycle t steps options = Inr vs) \<longleftrightarrow>
      min_ring_size options \<le> length steps \<and> length steps \<le> max_ring_size options \<and> is_cycle t steps)
   \<and> ((\<exists>vs. validate_candidate_cycle t (rotate k steps) options = Inr vs) \<longleftrightarrow>
      (\<exists>vs. validate_candidate_cycle t steps options = Inr vs))
   \<and> ((\<exists>vs. validate_candidate_cycle t (reverse_with step_reversed steps) options = Inr vs) \<longleftrightarrow>
      (\<exists>vs. validate_candidate_cycle t steps options = Inr vs))"
proof -
  have same: "is_cycle t steps' \<longleftrightarrow> is_cycle t steps" if "steps' \<in> steps.orbit steps" for steps'
    using is_cycle_orbit that steps.orbit_sym by blast
  have "rotate k steps \<in> steps.orbit steps" "reverse_with step_reversed steps \<in> steps.orbit steps"
    using steps.orbit_rotate(1)[of k steps] steps.orbit_rotate(2)[of 0 steps] by simp_all
  then show ?thesis
    unfolding validate_candidate_cycle_iff by (simp add: same)
qed

text \<open>C33: Canonicalisation of a step sequence never fails on edges of the topology; the canonical sequence is a
  rotation or reversed rotation of the input, and two sequences get the same key exactly when they are
  the same cycle, and then also the same canonical sequence.\<close>

theorem canonical_steps_complete:
  assumes "in_range t xs" and "in_range t ys" and "2 \<le> length xs" and "2 \<le> length ys"
    and "distinct (map edge_key (topology_edges t))"
  shows "\<exists>kx cx ky cy. canonicalize_steps t xs = Inr (kx, cx) \<and> canonicalize_steps t ys = Inr (ky, cy)
    \<and> cx \<in> set (cyclic_variants step_reversed xs)
    \<and> (kx = ky \<longleftrightarrow> ys \<in> set (cyclic_variants step_reversed xs)) \<and> (kx = ky \<longrightarrow> cx = cy)"
proof -
  have "set (cyclic_variants step_reversed xs) = steps.orbit xs"
    using assms(3) by (intro steps.set_cyclic_variants) auto
  moreover have "snd (canonical_of t xs) = snd (canonical_of t ys)" if "ys \<in> steps.orbit xs"
    using canonicalize_steps_orbit[OF assms(1,3) that] assms by (simp add: canonicalize_steps_eq)
  ultimately show ?thesis
    using canonical_key_eq_iff[OF assms(1,2,5)] canonical_of_facts(1)[of t xs] assms
    by (simp add: canonicalize_steps_eq)
qed

theorem canonical_steps_complete_witness:
  "\<exists>kx cx ky cy. canonicalize_steps example_topology [PrimitiveRingStep 0 Forward, PrimitiveRingStep 0 Forward] = Inr (kx, cx)
    \<and> canonicalize_steps example_topology [PrimitiveRingStep 0 Backward, PrimitiveRingStep 0 Backward] = Inr (ky, cy)
    \<and> kx = ky \<and> cx = cy"
proof -
  have "length (topology_edges example_topology) = 1" "distinct (map edge_key (topology_edges example_topology))"
    by code_simp+
  then show ?thesis
    using canonical_steps_complete[of example_topology "[PrimitiveRingStep 0 Forward, PrimitiveRingStep 0 Forward]"
      "[PrimitiveRingStep 0 Backward, PrimitiveRingStep 0 Backward]"]
    by (simp add: in_range_def cyclic_variants_def rotations_def reverse_with_def upt_rec flip.simps) blast
qed

end
