(* ===== verification/Lifted_Search.thy ===== *)
theory Lifted_Search
  imports Ring_Walks
begin

text \<open>
  Shortest paths in the lifted framework graph (\<open>mdstats/analysis/primitive_ring.py\<close>): the
  layered, transactional index of one source (\<open>_build_source_shortest_path_index\<close>), the index of
  all sources, distance queries relative to a source, and the counting and backtracking of shortest
  paths through predecessor records (\<open>_count_predecessor_paths\<close>, \<open>_backtrack_shortest_paths\<close>).

  Python's recursion in the backtracking ends because predecessors are one layer closer to the
  start; here it carries fuel, one more than the largest stored distance.
\<close>

section \<open>The index\<close>

type_synonym predecessor = "lifted_vertex \<times> nat \<times> orientation"

record source_index =
  source_atom_index :: nat
  maximum_depth :: nat
  complete_through_depth :: nat
  distance :: "(lifted_vertex \<times> nat) list"
  predecessors :: "(lifted_vertex \<times> predecessor list) list"
  truncated :: bool
  index_message :: "message option"

definition half_edge_target :: "lifted_vertex \<Rightarrow> half_edge \<Rightarrow> lifted_vertex" where
  "half_edge_target state h =
     LiftedVertexRef (half_target h) (add_shift (vertex_image state) (image_delta h))"

definition visit_half_edge ::
  "(lifted_vertex \<times> nat) list \<Rightarrow> lifted_vertex \<Rightarrow> half_edge \<Rightarrow> (lifted_vertex \<times> predecessor list) list
   \<Rightarrow> (lifted_vertex \<times> predecessor list) list" where
  "visit_half_edge dist state h next_predecessors =
     (let target = half_edge_target state h in
      if target \<in> fst ` set dist then next_predecessors
      else append_at target (state, half_edge_index h, half_orientation h) next_predecessors)"

definition next_layer ::
  "(nat \<times> half_edge list) list \<Rightarrow> (lifted_vertex \<times> nat) list \<Rightarrow> lifted_vertex list
   \<Rightarrow> (lifted_vertex \<times> predecessor list) list result" where
  "next_layer adj dist frontier =
     foldE (\<lambda>state acc. bindE (lookupE adj (atom_index state)) (\<lambda>hs.
        Inr (fold (visit_half_edge dist state) hs acc))) frontier []"

fun grow_index ::
  "(nat \<times> half_edge list) list \<Rightarrow> nat \<Rightarrow> nat \<Rightarrow> nat \<Rightarrow> nat \<Rightarrow> (lifted_vertex \<times> nat) list
   \<Rightarrow> (lifted_vertex \<times> predecessor list) list \<Rightarrow> lifted_vertex list \<Rightarrow> source_index result" where
  "grow_index adj source limit depth 0 dist preds frontier =
     Inr \<lparr>source_atom_index = source, maximum_depth = depth, complete_through_depth = depth,
          distance = dist, predecessors = preds, truncated = False, index_message = None\<rparr>"
| "grow_index adj source limit depth (Suc n) dist preds frontier =
     bindE (next_layer adj dist frontier) (\<lambda>layer.
     if layer = [] then
       Inr \<lparr>source_atom_index = source, maximum_depth = depth + Suc n,
            complete_through_depth = depth + Suc n, distance = dist, predecessors = preds,
            truncated = False, index_message = None\<rparr>
     else if length dist + length layer > limit then
       Inr \<lparr>source_atom_index = source, maximum_depth = depth + Suc n,
            complete_through_depth = depth, distance = dist, predecessors = preds, truncated = True,
            index_message = Some (Fmt
              ''Source {} exceeded the lifted-state limit before committing depth {}.''
              [ANat source, ANat (depth + 1)])\<rparr>
     else
       let next_states = sort (map fst layer) in
       grow_index adj source limit (depth + 1) n
         (dist @ map (\<lambda>target. (target, depth + 1)) next_states)
         (preds @ map (\<lambda>target. (target, sort (case map_of layer target of None \<Rightarrow> [] | Some ps \<Rightarrow> ps)))
                      next_states)
         next_states)"

definition source_start :: "nat \<Rightarrow> lifted_vertex" where
  "source_start a = LiftedVertexRef a zero_shift"

definition build_source_index ::
  "(nat \<times> half_edge list) list \<Rightarrow> nat \<Rightarrow> nat \<Rightarrow> nat \<Rightarrow> source_index result" where
  "build_source_index adj source depth limit =
     grow_index adj source limit 0 depth [(source_start source, 0)] [(source_start source, [])]
       [source_start source]"

record lifted_index =
  lifted_maximum_depth :: nat
  sources :: "(nat \<times> source_index) list"

definition build_lifted_index ::
  "framework_topology \<Rightarrow> (nat \<times> half_edge list) list \<Rightarrow> primitive_ring_options \<Rightarrow> lifted_index result" where
  "build_lifted_index t adj options =
     (let depth = max_ring_size options div 2 in
      bindE (mapE (\<lambda>source.
          bindE (build_source_index adj source depth (max_lifted_states_per_source options)) (\<lambda>index.
          if truncated index \<and> strict options then
            Inl (PrimitiveRingComplexityError
              (case index_message index of None \<Rightarrow> Text ''Lifted search truncated.'' | Some m \<Rightarrow> m))
          else Inr (source, index))) (vertex_atoms t)) (\<lambda>entries.
      Inr \<lparr>lifted_maximum_depth = depth, sources = entries\<rparr>))"

section \<open>Queries\<close>

definition relative_target :: "lifted_vertex \<Rightarrow> lifted_vertex \<Rightarrow> lifted_vertex" where
  "relative_target source target =
     LiftedVertexRef (atom_index target) (subtract_shift (vertex_image target) (vertex_image source))"

definition indexed_distance :: "lifted_index \<Rightarrow> lifted_vertex \<Rightarrow> lifted_vertex \<Rightarrow> nat option result" where
  "indexed_distance index source target =
     bindE (lookupE (sources index) (atom_index source)) (\<lambda>source_index.
     Inr (map_of (distance source_index) (relative_target source target)))"

definition indexed_query_complete_through :: "lifted_index \<Rightarrow> lifted_vertex \<Rightarrow> nat \<Rightarrow> bool result" where
  "indexed_query_complete_through index source depth =
     bindE (lookupE (sources index) (atom_index source)) (\<lambda>source_index.
     Inr (complete_through_depth source_index \<ge> depth))"

section \<open>Shortest paths\<close>

fun saturating_sum :: "nat \<Rightarrow> nat \<Rightarrow> nat list \<Rightarrow> nat" where
  "saturating_sum saturation acc [] = acc"
| "saturating_sum saturation acc (x # xs) =
     (if acc + x \<ge> saturation then saturation else saturating_sum saturation (acc + x) xs)"

definition lookup_default :: "'v \<Rightarrow> ('k \<times> 'v) list \<Rightarrow> 'k \<Rightarrow> 'v" where
  "lookup_default d m k = (case map_of m k of None \<Rightarrow> d | Some v \<Rightarrow> v)"

definition count_state ::
  "(lifted_vertex \<times> predecessor list) list \<Rightarrow> lifted_vertex \<Rightarrow> nat \<Rightarrow> lifted_vertex
   \<Rightarrow> (lifted_vertex \<times> nat) list \<Rightarrow> (lifted_vertex \<times> nat) list" where
  "count_state preds start saturation state counts =
     (if state = start then counts
      else AList.update state (saturating_sum saturation 0
        (map (\<lambda>(previous, _, _). lookup_default 0 counts previous) (lookup_default [] preds state))) counts)"

definition count_predecessor_paths ::
  "lifted_vertex \<Rightarrow> lifted_vertex \<Rightarrow> (lifted_vertex \<times> nat) list
   \<Rightarrow> (lifted_vertex \<times> predecessor list) list \<Rightarrow> nat \<Rightarrow> nat \<times> bool" where
  "count_predecessor_paths start target dist preds limit =
     (let states = sort_key (\<lambda>state. (lookup_default 0 dist state, state)) (map fst dist);
          counts = fold (count_state preds start (limit + 1)) states [(start, 1)];
          v = lookup_default 0 counts target
      in (v, v \<le> limit))"

fun backtrack ::
  "(lifted_vertex \<times> predecessor list) list \<Rightarrow> lifted_vertex \<Rightarrow> nat \<Rightarrow> lifted_vertex
   \<Rightarrow> ring_step list list option" where
  "backtrack preds start 0 state = None"
| "backtrack preds start (Suc n) state =
     (if state = start then Some [[]]
      else map_option concat (those (map (\<lambda>(previous, e, d).
        map_option (map (\<lambda>path. path @ [PrimitiveRingStep e d])) (backtrack preds start n previous))
        (lookup_default [] preds state))))"

definition backtrack_fuel :: "(lifted_vertex \<times> nat) list \<Rightarrow> nat" where
  "backtrack_fuel dist = Suc (fold max (map snd dist) 0)"

definition backtrack_shortest_paths ::
  "lifted_vertex \<Rightarrow> lifted_vertex \<Rightarrow> (lifted_vertex \<times> nat) list
   \<Rightarrow> (lifted_vertex \<times> predecessor list) list \<Rightarrow> ring_step list list option" where
  "backtrack_shortest_paths start target dist preds = backtrack preds start (backtrack_fuel dist) target"

section \<open>Walks and distances\<close>

text \<open>
  The interface the search relies on: a partial step function whose steps can be undone.  Walks,
  reachability within a number of steps and exact distances are defined over it.
\<close>

fun walk :: "('v \<Rightarrow> 's \<Rightarrow> 'v option) \<Rightarrow> 'v \<Rightarrow> 's list \<Rightarrow> 'v \<Rightarrow> bool" where
  "walk dest v [] w \<longleftrightarrow> v = w"
| "walk dest v (s # ss) w \<longleftrightarrow> (\<exists>u. dest v s = Some u \<and> walk dest u ss w)"

definition exact_distance :: "('v \<Rightarrow> 's \<Rightarrow> 'v option) \<Rightarrow> 'v \<Rightarrow> 'v \<Rightarrow> nat \<Rightarrow> bool" where
  "exact_distance dest v w n \<longleftrightarrow>
     (\<exists>ss. walk dest v ss w \<and> length ss = n) \<and> (\<forall>ss. walk dest v ss w \<longrightarrow> n \<le> length ss)"

lemma walk_append: "walk dest v (xs @ ys) w \<longleftrightarrow> (\<exists>u. walk dest v xs u \<and> walk dest u ys w)"
  by (induction xs arbitrary: v) auto

lemma walk_unique: "walk dest v ss w \<Longrightarrow> walk dest v ss w' \<Longrightarrow> w = w'"
  by (induction ss arbitrary: v) auto

lemma exact_distance_unique: "exact_distance dest v w n \<Longrightarrow> exact_distance dest v w m \<Longrightarrow> n = m"
  unfolding exact_distance_def by (metis le_antisym)

lemma exact_distance_exists: "walk dest v ss w \<Longrightarrow> \<exists>n \<le> length ss. exact_distance dest v w n"
proof -
  assume ss: "walk dest v ss w"
  let ?P = "\<lambda>n. \<exists>ss. walk dest v ss w \<and> length ss = n"
  have P: "?P (length ss)" using ss by blast
  have "exact_distance dest v w (LEAST n. ?P n)"
    unfolding exact_distance_def using LeastI[of ?P, OF P] Least_le[of ?P] by blast
  moreover have "(LEAST n. ?P n) \<le> length ss" by (rule Least_le) (rule P)
  ultimately show ?thesis by blast
qed

lemma exact_distance_0: "exact_distance dest v w 0 \<longleftrightarrow> v = w"
  by (auto simp: exact_distance_def)

lemma exact_distance_prefix:
  assumes "exact_distance dest v w n" and "walk dest v (xs @ ys) w" and "length (xs @ ys) = n"
    and "walk dest v xs u"
  shows "exact_distance dest v u (length xs)"
proof -
  from assms(2,4) have "walk dest u ys w" by (auto simp: walk_append dest: walk_unique)
  have "length xs \<le> length ss" if "walk dest v ss u" for ss
  proof -
    have "walk dest v (ss @ ys) w" using that \<open>walk dest u ys w\<close> by (auto simp: walk_append)
    with assms(1) have "n \<le> length (ss @ ys)" unfolding exact_distance_def by blast
    then show ?thesis using assms(3) by simp
  qed
  with assms(4) show ?thesis unfolding exact_distance_def by blast
qed

text \<open>One more layer: the states at distance \<open>Suc n\<close> are the new successors of those at \<open>n\<close>.\<close>

lemma exact_distance_Suc:
  "exact_distance dest v w (Suc n) \<longleftrightarrow>
     (\<exists>u s. exact_distance dest v u n \<and> dest u s = Some w) \<and> (\<forall>m \<le> n. \<not> exact_distance dest v w m)"
proof
  assume d: "exact_distance dest v w (Suc n)"
  then obtain ss where ss: "walk dest v ss w" "length ss = Suc n" by (auto simp: exact_distance_def)
  then obtain xs s where xs: "ss = xs @ [s]" by (cases ss rule: rev_cases) auto
  with ss obtain u where u: "walk dest v xs u" "dest u s = Some w" by (auto simp: walk_append)
  from exact_distance_prefix[OF d, of xs "[s]" u] ss xs u have "exact_distance dest v u n" by simp
  moreover have "\<not> exact_distance dest v w m" if "m \<le> n" for m
    using exact_distance_unique[OF d] that by force
  ultimately show "(\<exists>u s. exact_distance dest v u n \<and> dest u s = Some w)
      \<and> (\<forall>m \<le> n. \<not> exact_distance dest v w m)" using u(2) by blast
next
  assume "(\<exists>u s. exact_distance dest v u n \<and> dest u s = Some w) \<and> (\<forall>m \<le> n. \<not> exact_distance dest v w m)"
  then obtain u s ss where "walk dest v ss u" "length ss = n" "dest u s = Some w"
    and far: "\<forall>m \<le> n. \<not> exact_distance dest v w m"
    by (auto simp: exact_distance_def)
  then have "walk dest v (ss @ [s]) w" "length (ss @ [s]) = Suc n" by (auto simp: walk_append)
  then obtain m where "m \<le> Suc n" "exact_distance dest v w m"
    using exact_distance_exists by metis
  with far show "exact_distance dest v w (Suc n)" by (metis le_SucE)
qed

section \<open>Steps of the lifted graph\<close>

definition lifted_dest :: "framework_topology \<Rightarrow> lifted_vertex \<Rightarrow> ring_step \<Rightarrow> lifted_vertex option" where
  "lifted_dest t v s = (case step_destination t v s of Inl _ \<Rightarrow> None | Inr w \<Rightarrow> Some w)"

lemma lifted_dest_iff: "lifted_dest t v s = Some w \<longleftrightarrow> step_destination t v s = Inr w"
  by (auto simp: lifted_dest_def split: sum.splits)

lemma walk_lifted:
  "walk (lifted_dest t) v ss w \<longleftrightarrow> (\<exists>vs. path_vertices_from_start t v ss = Inr vs \<and> last vs = w)"
proof (induction ss arbitrary: v)
  case (Cons s ss)
  have "last (v # vs) = last vs" if "path_vertices_from_start t u ss = Inr vs" for u vs
    using path_vertices_ends[OF that] by simp
  then show ?case by (auto simp: lifted_dest_iff Cons bindE_Inr_iff)
qed simp

definition half_edge_step :: "half_edge \<Rightarrow> ring_step" where
  "half_edge_step h = PrimitiveRingStep (half_edge_index h) (half_orientation h)"

lemma in_half_edges_at:
  "h \<in> set (half_edges_at t v) \<longleftrightarrow>
     (\<exists>k < length (topology_edges t). h \<in> set (half_edges_of v k (edge_key (topology_edges t ! k))))"
proof -
  have "h \<in> set (half_edges_at t v) \<longleftrightarrow>
      (\<exists>p \<in> set (List.enumerate 0 (topology_edges t)). h \<in> set (half_edges_of v (fst p) (edge_key (snd p))))"
    by (simp add: half_edges_at_def split_beta)
  also have "\<dots> \<longleftrightarrow>
     (\<exists>k < length (topology_edges t). h \<in> set (half_edges_of v k (edge_key (topology_edges t ! k))))"
  proof
    assume "\<exists>k < length (topology_edges t). h \<in> set (half_edges_of v k (edge_key (topology_edges t ! k)))"
    then obtain k where "k < length (topology_edges t)"
      "h \<in> set (half_edges_of v k (edge_key (topology_edges t ! k)))" by blast
    then show "\<exists>p \<in> set (List.enumerate 0 (topology_edges t)).
        h \<in> set (half_edges_of v (fst p) (edge_key (snd p)))"
      by (intro bexI[of _ "(k, topology_edges t ! k)"]) (simp_all add: in_set_enumerate_eq)
  qed (auto simp: in_set_enumerate_eq)
  finally show ?thesis .
qed

lemma half_edge_step_target:
  assumes "h \<in> set (half_edges_at t (atom_index v))"
  shows "lifted_dest t v (half_edge_step h) = Some (half_edge_target v h)"
  using assms
  by (cases v) (auto simp: in_half_edges_at half_edges_of_def lifted_dest_iff half_edge_step_def half_edge_target_def
      step_destination_Inr_iff Let_def subtract_shift_conv)

lemma half_edge_for_step:
  assumes "lifted_dest t v s = Some w"
  shows "\<exists>h \<in> set (half_edges_at t (atom_index v)). half_edge_step h = s"
proof -
  obtain a x k d where "v = LiftedVertexRef a x" "s = PrimitiveRingStep k d"
    by (metis lifted_vertex.exhaust ring_step.exhaust)
  with assms have k: "k < length (topology_edges t)"
    and "\<exists>h \<in> set (half_edges_of a k (edge_key (topology_edges t ! k))). half_edge_step h = s"
    by (cases d; auto simp: lifted_dest_iff step_destination_Inr_iff half_edges_of_def half_edge_step_def Let_def)+
  then obtain h where "h \<in> set (half_edges_of a k (edge_key (topology_edges t ! k)))" "half_edge_step h = s"
    by blast
  moreover from this(1) k have "h \<in> set (half_edges_at t a)" unfolding in_half_edges_at by blast
  ultimately show ?thesis using \<open>v = LiftedVertexRef a x\<close> by auto
qed

lemma half_edges_of_steps:
  "distinct (map half_edge_step (half_edges_of v k key))"
  "h \<in> set (half_edges_of v k key) \<Longrightarrow> step_edge (half_edge_step h) = k"
  by (auto simp: half_edges_of_def half_edge_step_def)

lemma distinct_half_edge_steps: "distinct (map half_edge_step (half_edges_at t v))"
proof -
  let ?hs = "\<lambda>n es. concat (map (\<lambda>(k, edge). half_edges_of v k (edge_key edge)) (List.enumerate n es))"
  have later: "n \<le> step_edge (half_edge_step h)" if "h \<in> set (?hs n es)" for h n and es :: "framework_edge_path list"
    using that by (auto simp: in_set_enumerate_eq half_edges_of_steps(2))
  have "distinct (map half_edge_step (?hs n es))" for n and es :: "framework_edge_path list"
  proof (induction es arbitrary: n)
    case (Cons e es)
    have "half_edge_step g \<noteq> half_edge_step h"
      if "g \<in> set (half_edges_of v n (edge_key e))" "h \<in> set (?hs (Suc n) es)" for g h
      using half_edges_of_steps(2)[OF that(1)] later[OF that(2)] by (metis not_less_eq_eq order_refl)
    then have "set (map half_edge_step (half_edges_of v n (edge_key e)))
        \<inter> set (map half_edge_step (?hs (Suc n) es)) = {}"
      unfolding set_map by blast
    with Cons[of "Suc n"] half_edges_of_steps(1)[of v n "edge_key e"] show ?case
      by (simp only: enumerate_simps list.map prod.case concat.simps map_append distinct_append simp_thms)
  qed simp
  moreover have "mset (map half_edge_step (half_edges_at t v)) = mset (map half_edge_step (?hs 0 (topology_edges t)))"
    unfolding half_edges_at_def mset_map mset_sort ..
  ultimately show ?thesis using mset_eq_imp_distinct_iff by blast
qed

definition valid_adjacency :: "framework_topology \<Rightarrow> (nat \<times> half_edge list) list \<Rightarrow> bool" where
  "valid_adjacency t adj \<longleftrightarrow> half_edge_adjacency t = Inr adj"

lemma valid_adjacency_lookup:
  assumes "valid_adjacency t adj" and "a \<in> set (vertex_atoms t)"
  shows "lookupE adj a = Inr (half_edges_at t a)"
proof -
  have "map_of (map (\<lambda>v. (v, half_edges_at t v)) (vertex_atoms t)) a = Some (half_edges_at t a)"
    using assms(2) by (simp add: map_of_map_restrict)
  with assms(1) show ?thesis
    by (auto simp: valid_adjacency_def half_edge_adjacency_def bindE_Inr_iff lookupE_def)
qed

lemma lifted_dest_atom:
  assumes "valid_adjacency t adj" and "lifted_dest t v s = Some w"
  shows "atom_index w \<in> set (vertex_atoms t)"
proof -
  obtain a x k d where vs: "v = LiftedVertexRef a x" "s = PrimitiveRingStep k d"
    by (metis lifted_vertex.exhaust ring_step.exhaust)
  with assms(2) have k: "k < length (topology_edges t)"
    by (auto simp: lifted_dest_iff step_destination_Inr_iff)
  then have "topology_edges t ! k \<in> set (topology_edges t)" by simp
  with assms(1) have "vertex_i (edge_key (topology_edges t ! k)) \<in> set (vertex_atoms t)"
    "vertex_j (edge_key (topology_edges t ! k)) \<in> set (vertex_atoms t)"
    by (auto simp: valid_adjacency_def half_edge_adjacency_def bindE_Inr_iff guardE_Inr_iff edge_ends_def)
  with assms(2) vs show ?thesis
    by (cases d) (auto simp: lifted_dest_iff step_destination_Inr_iff Let_def)
qed

lemma walk_atom:
  assumes "valid_adjacency t adj" and "walk (lifted_dest t) v ss w" and "atom_index v \<in> set (vertex_atoms t)"
  shows "atom_index w \<in> set (vertex_atoms t)"
  using assms(2,3)
  by (induction ss arbitrary: v) (auto dest: lifted_dest_atom[OF assms(1)])

section \<open>One layer\<close>

definition predecessors_in :: "framework_topology \<Rightarrow> lifted_vertex list \<Rightarrow> lifted_vertex \<Rightarrow> predecessor list" where
  "predecessors_in t frontier w =
     concat (map (\<lambda>u. map (\<lambda>h. (u, half_edge_index h, half_orientation h))
       (filter (\<lambda>h. half_edge_target u h = w) (half_edges_at t (atom_index u)))) frontier)"

lemma lookup_append_at:
  "lookup_default [] (append_at k v d) w = lookup_default [] d w @ (if w = k then [v] else [])"
  by (auto simp: lookup_default_def append_at_def split: option.splits)

lemma fold_visit_half_edge:
  "lookup_default [] (fold (visit_half_edge dist u) hs acc) w =
     lookup_default [] acc w @ (if w \<in> fst ` set dist then [] else
       map (\<lambda>h. (u, half_edge_index h, half_orientation h)) (filter (\<lambda>h. half_edge_target u h = w) hs))
   \<and> fst ` set (fold (visit_half_edge dist u) hs acc) =
       fst ` set acc \<union> (half_edge_target u ` set hs - fst ` set dist)
   \<and> (distinct (map fst acc) \<longrightarrow> distinct (map fst (fold (visit_half_edge dist u) hs acc)))"
proof (induction hs arbitrary: acc)
  case (Cons h hs)
  have "distinct (map fst acc) \<longrightarrow> distinct (map fst (visit_half_edge dist u h acc))"
    "fst ` set (visit_half_edge dist u h acc) = fst ` set acc \<union> ({half_edge_target u h} - fst ` set dist)"
    "lookup_default [] (visit_half_edge dist u h acc) w = lookup_default [] acc w @
      (if w \<in> fst ` set dist \<or> half_edge_target u h \<noteq> w then []
       else [(u, half_edge_index h, half_orientation h)])"
    by (auto simp: visit_half_edge_def Let_def append_at_def lookup_append_at[unfolded append_at_def])
  with Cons[of "visit_half_edge dist u h acc"] show ?case by auto
qed simp

lemma next_layer_correct:
  assumes adj: "valid_adjacency t adj" and "next_layer adj dist frontier = Inr layer"
    and atoms: "\<forall>u \<in> set frontier. atom_index u \<in> set (vertex_atoms t)"
  shows "lookup_default [] layer w = (if w \<in> fst ` set dist then [] else predecessors_in t frontier w)"
    and "fst ` set layer = {w. \<exists>u \<in> set frontier. \<exists>s. lifted_dest t u s = Some w} - fst ` set dist"
    and "distinct (map fst layer)"
proof -
  let ?step = "\<lambda>state acc. bindE (lookupE adj (atom_index state)) (\<lambda>hs.
        Inr (fold (visit_half_edge dist state) hs acc))"
  have targets: "half_edge_target u ` set (half_edges_at t (atom_index u))
      = {w. \<exists>s. lifted_dest t u s = Some w}" for u
  proof (intro equalityI subsetI)
    fix w assume "w \<in> {w. \<exists>s. lifted_dest t u s = Some w}"
    then obtain s where s: "lifted_dest t u s = Some w" by blast
    from half_edge_for_step[OF this] obtain h where h: "h \<in> set (half_edges_at t (atom_index u))"
      "half_edge_step h = s" by blast
    with s half_edge_step_target[OF h(1)] have "w = half_edge_target u h" by simp
    with h(1) show "w \<in> half_edge_target u ` set (half_edges_at t (atom_index u))" by blast
  qed (use half_edge_step_target in blast)
  have "lookup_default [] out w = lookup_default [] acc w @
        (if w \<in> fst ` set dist then [] else predecessors_in t frontier w)
      \<and> fst ` set out = fst ` set acc \<union>
          ({w. \<exists>u \<in> set frontier. \<exists>s. lifted_dest t u s = Some w} - fst ` set dist)
      \<and> (distinct (map fst acc) \<longrightarrow> distinct (map fst out))"
    if "foldE ?step frontier acc = Inr out" for acc out
    using that atoms
  proof (induction frontier arbitrary: acc)
    case (Cons u frontier)
    have look: "lookupE adj (atom_index u) = Inr (half_edges_at t (atom_index u))"
      using Cons.prems(2) by (intro valid_adjacency_lookup[OF adj]) simp
    then have rest: "foldE ?step frontier (fold (visit_half_edge dist u) (half_edges_at t (atom_index u)) acc)
        = Inr out"
      using Cons.prems(1) by simp
    from Cons.prems(2) have "\<forall>u \<in> set frontier. atom_index u \<in> set (vertex_atoms t)" by simp
    note IH = Cons.IH[OF rest this]
    note one = fold_visit_half_edge[of dist u "half_edges_at t (atom_index u)" acc w, unfolded targets]
    have "lookup_default [] out w = lookup_default [] acc w @
        (if w \<in> fst ` set dist then [] else predecessors_in t (u # frontier) w)"
      using conjunct1[OF IH] conjunct1[OF one] by (simp add: predecessors_in_def)
    moreover have "fst ` set out = fst ` set acc \<union>
        ({w. \<exists>u \<in> set (u # frontier). \<exists>s. lifted_dest t u s = Some w} - fst ` set dist)"
      using conjunct1[OF conjunct2[OF IH]] conjunct1[OF conjunct2[OF one]] by auto
    ultimately show ?case using conjunct2[OF conjunct2[OF IH]] conjunct2[OF conjunct2[OF one]] by blast
  qed (simp add: predecessors_in_def)
  from this[of "[]" layer] assms(2)
  show "lookup_default [] layer w = (if w \<in> fst ` set dist then [] else predecessors_in t frontier w)"
    and "fst ` set layer = {w. \<exists>u \<in> set frontier. \<exists>s. lifted_dest t u s = Some w} - fst ` set dist"
    and "distinct (map fst layer)"
    by (simp_all add: next_layer_def lookup_default_def)
qed

lemma predecessors_in_correct:
  assumes "distinct frontier"
  shows "set (predecessors_in t frontier w) =
      {(u, e, d). u \<in> set frontier \<and> lifted_dest t u (PrimitiveRingStep e d) = Some w}"
    and "distinct (predecessors_in t frontier w)"
proof -
  have one: "set (map (\<lambda>h. (u, half_edge_index h, half_orientation h))
       (filter (\<lambda>h. half_edge_target u h = w) (half_edges_at t (atom_index u))))
      = {(u', e, d). u' = u \<and> lifted_dest t u (PrimitiveRingStep e d) = Some w}" for u
  proof (intro equalityI subsetI)
    fix p assume "p \<in> {(u', e, d). u' = u \<and> lifted_dest t u (PrimitiveRingStep e d) = Some w}"
    then obtain e d where p: "p = (u, e, d)" and s: "lifted_dest t u (PrimitiveRingStep e d) = Some w" by auto
    from half_edge_for_step[OF s] obtain h where h: "h \<in> set (half_edges_at t (atom_index u))"
      "half_edge_step h = PrimitiveRingStep e d" by blast
    with s half_edge_step_target[OF h(1)] have "half_edge_target u h = w" by simp
    with h p show "p \<in> set (map (\<lambda>h. (u, half_edge_index h, half_orientation h))
       (filter (\<lambda>h. half_edge_target u h = w) (half_edges_at t (atom_index u))))"
      by (auto simp: half_edge_step_def)
  next
    fix p assume "p \<in> set (map (\<lambda>h. (u, half_edge_index h, half_orientation h))
       (filter (\<lambda>h. half_edge_target u h = w) (half_edges_at t (atom_index u))))"
    then obtain h where "h \<in> set (half_edges_at t (atom_index u))" "half_edge_target u h = w"
      "p = (u, half_edge_index h, half_orientation h)" by auto
    with half_edge_step_target[OF this(1)]
    show "p \<in> {(u', e, d). u' = u \<and> lifted_dest t u (PrimitiveRingStep e d) = Some w}"
      by (simp add: half_edge_step_def)
  qed
  show "set (predecessors_in t frontier w) =
      {(u, e, d). u \<in> set frontier \<and> lifted_dest t u (PrimitiveRingStep e d) = Some w}"
    unfolding predecessors_in_def set_concat set_map[of _ frontier] image_image one by auto
  have "distinct (map (\<lambda>h. (u, half_edge_index h, half_orientation h))
       (filter (\<lambda>h. half_edge_target u h = w) (half_edges_at t (atom_index u))))" for u
  proof -
    have "inj_on half_edge_step (set (half_edges_at t (atom_index u)))" "distinct (half_edges_at t (atom_index u))"
      using distinct_half_edge_steps[of t "atom_index u"] by (simp_all add: distinct_map)
    then show ?thesis
      by (simp add: distinct_map half_edge_step_def inj_on_def)
  qed
  then show "distinct (predecessors_in t frontier w)"
    using assms
  proof (induction frontier)
    case (Cons v frontier)
    let ?here = "map (\<lambda>h. (v, half_edge_index h, half_orientation h))
       (filter (\<lambda>h. half_edge_target v h = w) (half_edges_at t (atom_index v)))"
    have here: "fst p = v" if "p \<in> set ?here" for p using that by auto
    have later: "fst p \<in> set frontier" if "p \<in> set (predecessors_in t frontier w)" for p
      using that by (auto simp: predecessors_in_def)
    have "v \<notin> set frontier" using Cons.prems(2) by simp
    then have "set ?here \<inter> set (predecessors_in t frontier w) = {}"
      using here later by (intro equals0I) blast
    with Cons show ?case by (simp add: predecessors_in_def)
  qed (simp add: predecessors_in_def)
qed

lemma next_layer_total:
  assumes "valid_adjacency t adj" and "\<forall>u \<in> set frontier. atom_index u \<in> set (vertex_atoms t)"
  shows "\<exists>layer. next_layer adj dist frontier = Inr layer"
proof -
  have "\<exists>out. foldE (\<lambda>state acc. bindE (lookupE adj (atom_index state)) (\<lambda>hs.
        Inr (fold (visit_half_edge dist state) hs acc))) frontier acc = Inr out" for acc
    using assms(2)
    by (induction frontier arbitrary: acc) (auto simp: valid_adjacency_lookup[OF assms(1)])
  then show ?thesis unfolding next_layer_def by blast
qed

section \<open>The index is exact\<close>

text \<open>
  What the index stores through depth \<open>d\<close>: the exact distance of every lifted state within
  \<open>d\<close> steps of the source and of no other, and for each of them the sorted list of all the last
  steps of shortest paths.
\<close>

definition index_exact ::
  "framework_topology \<Rightarrow> lifted_vertex \<Rightarrow> nat \<Rightarrow> (lifted_vertex \<times> nat) list
   \<Rightarrow> (lifted_vertex \<times> predecessor list) list \<Rightarrow> bool" where
  "index_exact t start d dist preds \<longleftrightarrow>
     distinct (map fst dist) \<and> map fst preds = map fst dist \<and>
     (\<forall>w k. map_of dist w = Some k \<longleftrightarrow> exact_distance (lifted_dest t) start w k \<and> k \<le> d) \<and>
     (\<forall>w k. map_of dist w = Some k \<longrightarrow>
        sorted (lookup_default [] preds w) \<and> distinct (lookup_default [] preds w) \<and>
        set (lookup_default [] preds w) = {(u, e, b). \<exists>j. k = Suc j \<and>
          exact_distance (lifted_dest t) start u j \<and> lifted_dest t u (PrimitiveRingStep e b) = Some w})"

definition is_frontier :: "framework_topology \<Rightarrow> lifted_vertex \<Rightarrow> nat \<Rightarrow> lifted_vertex list \<Rightarrow> bool" where
  "is_frontier t start d frontier \<longleftrightarrow>
     distinct frontier \<and> set frontier = {w. exact_distance (lifted_dest t) start w d}"

lemma index_exact_start:
  "index_exact t start 0 [(start, 0)] [(start, [])]" "is_frontier t start 0 [start]"
  by (auto simp: index_exact_def is_frontier_def exact_distance_0 lookup_default_def
      intro!: gr0I split: if_splits)

lemma index_exact_distance:
  "index_exact t start d dist preds \<Longrightarrow>
    map_of dist w = Some k \<longleftrightarrow> exact_distance (lifted_dest t) start w k \<and> k \<le> d"
  unfolding index_exact_def by (elim conjE allE)

lemma keys_exact:
  assumes "index_exact t start d dist preds"
  shows "fst ` set dist = {w. \<exists>k \<le> d. exact_distance (lifted_dest t) start w k}"
proof -
  have "w \<in> fst ` set dist \<longleftrightarrow> (\<exists>k. map_of dist w = Some k)" for w
    by (metis domD domI dom_map_of_conv_image_fst)
  then show ?thesis unfolding index_exact_distance[OF assms] by blast
qed

lemma map_of_new_keys:
  "map_of (dist @ map (\<lambda>w. (w, f w)) ws) w =
     (case map_of dist w of Some k \<Rightarrow> Some k | None \<Rightarrow> if w \<in> set ws then Some (f w) else None)"
  by (auto simp: map_add_def map_of_map_restrict restrict_map_def split: option.splits)

lemma frontier_atoms:
  assumes "valid_adjacency t adj" and "atom_index start \<in> set (vertex_atoms t)" and "is_frontier t start d frontier"
  shows "\<forall>u \<in> set frontier. atom_index u \<in> set (vertex_atoms t)"
  using assms(3) walk_atom[OF assms(1) _ assms(2)] by (auto simp: is_frontier_def exact_distance_def)

lemma layer_keys:
  assumes "valid_adjacency t adj" and "atom_index start \<in> set (vertex_atoms t)"
    and "index_exact t start d dist preds" and "is_frontier t start d frontier"
    and "next_layer adj dist frontier = Inr layer"
  shows "fst ` set layer = {w. exact_distance (lifted_dest t) start w (Suc d)}"
  unfolding next_layer_correct(2)[OF assms(1,5) frontier_atoms[OF assms(1,2,4)]] keys_exact[OF assms(3)]
  using assms(4) by (auto simp: is_frontier_def exact_distance_Suc)

lemma index_exact_step:
  assumes adj: "valid_adjacency t adj" and start: "atom_index start \<in> set (vertex_atoms t)"
    and exact: "index_exact t start d dist preds" and frontier: "is_frontier t start d frontier"
    and layer: "next_layer adj dist frontier = Inr layer"
    and ws: "next_states = sort (map fst layer)"
  shows "is_frontier t start (Suc d) next_states"
    and "index_exact t start (Suc d) (dist @ map (\<lambda>w. (w, Suc d)) next_states)
      (preds @ map (\<lambda>w. (w, sort (lookup_default [] layer w))) next_states)"
proof -
  let ?D = "exact_distance (lifted_dest t) start"
  note L = next_layer_correct[OF adj layer frontier_atoms[OF adj start frontier]]
  have set_ws: "set next_states = {w. ?D w (Suc d)}"
    using layer_keys[OF adj start exact frontier layer] ws by simp
  have "distinct next_states" using L(3) ws by simp
  then show "is_frontier t start (Suc d) next_states" using set_ws by (simp add: is_frontier_def)
  have fresh: "w \<notin> fst ` set dist" if "w \<in> set next_states" for w
    using that exact_distance_unique unfolding set_ws keys_exact[OF exact] by fastforce
  have keys: "map fst preds = map fst dist" "distinct (map fst dist)"
    using exact by (simp_all add: index_exact_def)
  then have "fst ` set preds = fst ` set dist" by (metis set_map)
  have old: "map_of dist w = None \<longleftrightarrow> w \<notin> fst ` set dist" "map_of preds w = None \<longleftrightarrow> w \<notin> fst ` set dist" for w
    by (simp_all add: map_of_eq_None_iff \<open>fst ` set preds = fst ` set dist\<close>)
  have dist_new: "map_of (dist @ map (\<lambda>w. (w, Suc d)) next_states) w = Some k \<longleftrightarrow>
      map_of dist w = Some k \<or> w \<in> set next_states \<and> k = Suc d" for w k
    using fresh[of w] old(1)[of w] unfolding map_of_new_keys by (auto split: option.splits)
  have dist_ok: "map_of (dist @ map (\<lambda>w. (w, Suc d)) next_states) w = Some k \<longleftrightarrow> ?D w k \<and> k \<le> Suc d" for w k
    unfolding dist_new set_ws index_exact_distance[OF exact] le_Suc_eq by blast
  have preds_old: "lookup_default [] (preds @ map (\<lambda>w. (w, sort (lookup_default [] layer w))) next_states) w
      = lookup_default [] preds w" if "map_of dist w = Some k" for w k
    using that old[of w] unfolding lookup_default_def map_of_new_keys by (auto split: option.splits)
  have preds_new: "lookup_default [] (preds @ map (\<lambda>w. (w, sort (lookup_default [] layer w))) next_states) w
      = sort (predecessors_in t frontier w)" if "w \<in> set next_states" for w
    using that fresh[OF that] old[of w] L(1)[of w]
    unfolding lookup_default_def[of _ "_ @ _"] map_of_new_keys by (auto split: option.splits)
  have P: "set (predecessors_in t frontier w) = {(u, e, b). ?D u d \<and> lifted_dest t u (PrimitiveRingStep e b) = Some w}"
    "distinct (predecessors_in t frontier w)" for w
    using predecessors_in_correct[of frontier t w] frontier by (auto simp: is_frontier_def)
  have new: "sorted ps \<and> distinct ps \<and> set ps = {(u, e, b). \<exists>j. k = Suc j \<and> ?D u j \<and>
          lifted_dest t u (PrimitiveRingStep e b) = Some w}"
    if w: "map_of (dist @ map (\<lambda>w. (w, Suc d)) next_states) w = Some k"
      and ps: "ps = lookup_default [] (preds @ map (\<lambda>w. (w, sort (lookup_default [] layer w))) next_states) w"
    for w k ps
  proof (cases "map_of dist w = Some k")
    case True
    with exact show ?thesis unfolding ps preds_old[OF True] index_exact_def by blast
  next
    case False
    with w have "w \<in> set next_states" "k = Suc d" unfolding dist_new by blast+
    then show ?thesis unfolding ps using P[of w] by (simp add: preds_new)
  qed
  have "distinct (map fst (dist @ map (\<lambda>w. (w, Suc d)) next_states))"
    using keys \<open>distinct next_states\<close> fresh by (auto simp: comp_def)
  moreover have "map fst (preds @ map (\<lambda>w. (w, sort (lookup_default [] layer w))) next_states)
      = map fst (dist @ map (\<lambda>w. (w, Suc d)) next_states)"
    using keys by simp
  ultimately show "index_exact t start (Suc d) (dist @ map (\<lambda>w. (w, Suc d)) next_states)
      (preds @ map (\<lambda>w. (w, sort (lookup_default [] layer w))) next_states)"
    unfolding index_exact_def using dist_ok by (intro conjI allI impI new) simp_all
qed

lemma no_further_layer:
  assumes "\<forall>w. \<not> exact_distance dest v w (Suc d)" and "exact_distance dest v w k"
  shows "k \<le> d"
proof (rule ccontr)
  assume "\<not> k \<le> d"
  from assms(2) obtain ss where ss: "walk dest v ss w" "length ss = k" by (auto simp: exact_distance_def)
  then have "walk dest v (take (Suc d) ss @ drop (Suc d) ss) w" by simp
  then obtain u where "walk dest v (take (Suc d) ss) u" by (auto simp only: walk_append)
  moreover have "length (take (Suc d) ss) = Suc d" using ss(2) \<open>\<not> k \<le> d\<close> by simp
  ultimately have "exact_distance dest v u (Suc d)"
    using exact_distance_prefix[OF assms(2), of "take (Suc d) ss" "drop (Suc d) ss" u] ss by simp
  with assms(1) show False by blast
qed

lemma index_exact_extend:
  assumes "index_exact t start d dist preds" and "\<forall>w. \<not> exact_distance (lifted_dest t) start w (Suc d)"
    and "d \<le> d'"
  shows "index_exact t start d' dist preds"
proof -
  have "exact_distance (lifted_dest t) start w k \<and> k \<le> d' \<longleftrightarrow> exact_distance (lifted_dest t) start w k \<and> k \<le> d"
    for w k
    using no_further_layer[OF assms(2)] assms(3) by (meson le_trans)
  then show ?thesis using assms(1) unfolding index_exact_def by presburger
qed

text \<open>What a finished index promises, relative to the depth asked for and the state limit.\<close>

definition index_correct :: "framework_topology \<Rightarrow> nat \<Rightarrow> nat \<Rightarrow> source_index \<Rightarrow> bool" where
  "index_correct t depth limit idx \<longleftrightarrow>
     index_exact t (source_start (source_atom_index idx)) (complete_through_depth idx) (distance idx)
       (predecessors idx) \<and>
     maximum_depth idx = depth \<and>
     (if truncated idx
      then complete_through_depth idx < depth \<and>
        limit < card {w. \<exists>k \<le> Suc (complete_through_depth idx).
          exact_distance (lifted_dest t) (source_start (source_atom_index idx)) w k}
      else complete_through_depth idx = depth)"

lemma grow_index_correct:
  assumes adj: "valid_adjacency t adj" and start: "source \<in> set (vertex_atoms t)"
    and "index_exact t (source_start source) d dist preds"
    and "is_frontier t (source_start source) d frontier"
  shows "\<exists>idx. grow_index adj source limit d n dist preds frontier = Inr idx \<and> index_correct t (d + n) limit idx
    \<and> source_atom_index idx = source \<and> (length dist \<le> limit \<longrightarrow> length (distance idx) \<le> limit)"
  using assms(3,4)
proof (induction n arbitrary: d dist preds frontier)
  case 0
  then show ?case by (simp add: index_correct_def)
next
  case (Suc n)
  let ?D = "exact_distance (lifted_dest t) (source_start source)"
  have start': "atom_index (source_start source) \<in> set (vertex_atoms t)"
    using start by (simp add: source_start_def)
  from next_layer_total[OF adj frontier_atoms[OF adj start' Suc.prems(2)]]
  obtain layer where layer: "next_layer adj dist frontier = Inr layer" by blast
  note keys = layer_keys[OF adj start' Suc.prems layer]
  note L = next_layer_correct[OF adj layer frontier_atoms[OF adj start' Suc.prems(2)]]
  note step = index_exact_step[OF adj start' Suc.prems layer refl]
  consider "layer = []" | "layer \<noteq> []" "length dist + length layer > limit"
    | "layer \<noteq> []" "length dist + length layer \<le> limit" by linarith
  then show ?case
  proof cases
    case 1
    then have none: "\<forall>w. \<not> ?D w (Suc d)" using keys by auto
    have "index_exact t (source_start source) (d + Suc n) dist preds"
      by (rule index_exact_extend[OF Suc.prems(1) none]) simp
    with 1 layer show ?thesis by (simp add: index_correct_def)
  next
    case 2
    have "{w. \<exists>k \<le> Suc d. ?D w k} = fst ` set dist \<union> fst ` set layer"
      unfolding keys keys_exact[OF Suc.prems(1)] by (auto simp: le_Suc_eq)
    moreover have "fst ` set dist \<inter> fst ` set layer = {}" using L(2) by blast
    moreover have "card (fst ` set dist) = length dist" "card (fst ` set layer) = length layer"
      using Suc.prems(1) L(3) distinct_card[of "map fst dist"] distinct_card[of "map fst layer"]
      by (simp_all add: index_exact_def)
    ultimately have "card {w. \<exists>k \<le> Suc d. ?D w k} = length dist + length layer"
      by (simp add: card_Un_disjoint)
    with 2 layer Suc.prems(1) show ?thesis by (simp add: index_correct_def)
  next
    case 3
    then show ?thesis
      using Suc.IH[OF step(2,1)] layer by (simp add: Let_def lookup_default_def)
  qed
qed

lemma build_source_index_correct:
  assumes "valid_adjacency t adj" and "source \<in> set (vertex_atoms t)"
  shows "\<exists>idx. build_source_index adj source depth limit = Inr idx \<and> index_correct t depth limit idx
    \<and> source_atom_index idx = source \<and> (0 < limit \<longrightarrow> length (distance idx) \<le> limit)"
  using grow_index_correct[OF assms index_exact_start, of limit depth]
  by (simp add: build_source_index_def Suc_le_eq)

section \<open>All shortest paths\<close>

text \<open>
  What counting and backtracking need of a search: through depth \<open>d\<close> its distances are exact and
  the predecessor lists hold every last step of a shortest path once.  The layered index and the
  removed-edge search both provide it.
\<close>

definition search_exact ::
  "(lifted_vertex \<Rightarrow> ring_step \<Rightarrow> lifted_vertex option) \<Rightarrow> lifted_vertex \<Rightarrow> nat \<Rightarrow> (lifted_vertex \<times> nat) list
   \<Rightarrow> (lifted_vertex \<times> predecessor list) list \<Rightarrow> bool" where
  "search_exact dest start d dist preds \<longleftrightarrow>
     (\<forall>w k. k \<le> d \<longrightarrow> (map_of dist w = Some k \<longleftrightarrow> exact_distance dest start w k)) \<and>
     (\<forall>w k. exact_distance dest start w k \<longrightarrow> k \<le> d \<longrightarrow>
        distinct (lookup_default [] preds w) \<and>
        set (lookup_default [] preds w) = {(u, e, b). \<exists>j. k = Suc j \<and>
          exact_distance dest start u j \<and> dest u (PrimitiveRingStep e b) = Some w})"

definition shortest_paths ::
  "('v \<Rightarrow> 's \<Rightarrow> 'v option) \<Rightarrow> 'v \<Rightarrow> 'v \<Rightarrow> 's list set" where
  "shortest_paths dest v w = {ss. walk dest v ss w \<and> exact_distance dest v w (length ss)}"

lemma index_search_exact: "index_exact t start d dist preds \<Longrightarrow> search_exact (lifted_dest t) start d dist preds"
  unfolding search_exact_def
proof (intro conjI allI impI)
  fix w k assume exact: "index_exact t start d dist preds"
  show "map_of dist w = Some k \<longleftrightarrow> exact_distance (lifted_dest t) start w k" if "k \<le> d"
    using index_exact_distance[OF exact] that by blast
  assume "exact_distance (lifted_dest t) start w k" "k \<le> d"
  then have "map_of dist w = Some k" using index_exact_distance[OF exact] by blast
  with exact show "distinct (lookup_default [] preds w)"
    and "set (lookup_default [] preds w) = {(u, e, b). \<exists>j. k = Suc j \<and>
          exact_distance (lifted_dest t) start u j \<and> lifted_dest t u (PrimitiveRingStep e b) = Some w}"
    unfolding index_exact_def by blast+
qed

lemma search_exactD:
  assumes "search_exact dest start d dist preds" and "exact_distance dest start w k" and "k \<le> d"
  shows "map_of dist w = Some k" and "distinct (lookup_default [] preds w)"
    and "(u, e, b) \<in> set (lookup_default [] preds w) \<longleftrightarrow> (\<exists>j. k = Suc j \<and>
          exact_distance dest start u j \<and> dest u (PrimitiveRingStep e b) = Some w)"
  using assms unfolding search_exact_def by blast+

lemma shortest_paths_start: "shortest_paths dest v v = {[]}"
  using exact_distance_0[of dest v v] exact_distance_unique
  by (fastforce simp: shortest_paths_def)

lemma shortest_paths_Suc:
  assumes "exact_distance dest v w (Suc j)"
  shows "shortest_paths dest v w =
    (\<Union>(u, s) \<in> {(u, s). exact_distance dest v u j \<and> dest u s = Some w}. (\<lambda>p. p @ [s]) ` shortest_paths dest v u)"
proof (intro equalityI subsetI)
  fix ss assume "ss \<in> shortest_paths dest v w"
  then have ss: "walk dest v ss w" "length ss = Suc j"
    using assms exact_distance_unique by (auto simp: shortest_paths_def)
  then obtain p s where p: "ss = p @ [s]" by (cases ss rule: rev_cases) auto
  with ss obtain u where u: "walk dest v p u" "dest u s = Some w" by (auto simp: walk_append)
  from exact_distance_prefix[OF assms, of p "[s]" u] ss p u
  have "exact_distance dest v u j" by simp
  with u ss p show "ss \<in> (\<Union>(u, s) \<in> {(u, s). exact_distance dest v u j \<and> dest u s = Some w}.
      (\<lambda>p. p @ [s]) ` shortest_paths dest v u)"
    by (auto simp: shortest_paths_def)
next
  fix ss assume "ss \<in> (\<Union>(u, s) \<in> {(u, s). exact_distance dest v u j \<and> dest u s = Some w}.
      (\<lambda>p. p @ [s]) ` shortest_paths dest v u)"
  then obtain u s p where p: "exact_distance dest v u j" "dest u s = Some w" "ss = p @ [s]"
    "p \<in> shortest_paths dest v u" by auto
  then have "length p = j" using exact_distance_unique by (auto simp: shortest_paths_def)
  with p assms show "ss \<in> shortest_paths dest v w"
    by (auto simp: shortest_paths_def walk_append)
qed

lemma backtrack_exact:
  assumes exact: "search_exact dest start d dist preds"
    and "exact_distance dest start w k" and "k \<le> d" and "k < n"
  shows "\<exists>ps. backtrack preds start n w = Some ps \<and> distinct ps \<and> set ps = shortest_paths dest start w"
  using assms(2-4)
proof (induction k arbitrary: w n)
  case 0
  then have "start = w" by (simp add: exact_distance_0)
  with 0 show ?case by (cases n) (simp_all add: shortest_paths_start)
next
  case (Suc j)
  obtain m where n: "n = Suc m" and "j < m" using Suc.prems by (cases n) auto
  have "w \<noteq> start" using Suc.prems(1) exact_distance_unique[of dest start start "Suc j" 0] exact_distance_0[of dest start start] by auto
  let ?ps = "lookup_default [] preds w"
  note P = search_exactD[OF exact Suc.prems(1,2)]
  define g where "g = (\<lambda>p. map (\<lambda>path. path @ [PrimitiveRingStep (fst (snd p)) (snd (snd p))])
    (the (backtrack preds start m (fst p))))"
  have sub: "\<exists>ps. backtrack preds start m u = Some ps \<and> distinct ps \<and> set ps = shortest_paths dest start u"
    if "(u, e, b) \<in> set ?ps" for u e b
    using that P(3)[of u e b] Suc.IH[of u m] Suc.prems(2) \<open>j < m\<close> by auto
  have "those (map (\<lambda>(previous, e, b).
        map_option (map (\<lambda>path. path @ [PrimitiveRingStep e b])) (backtrack preds start m previous)) ps)
      = Some (map g ps)" if "set ps \<subseteq> set ?ps" for ps
    using that
  proof (induction ps)
    case (Cons p ps)
    obtain u e b where p: "p = (u, e, b)" by (metis prod.exhaust)
    with Cons.prems sub[of u e b] obtain paths where "backtrack preds start m u = Some paths" by auto
    with Cons p show ?case by (simp add: g_def)
  qed simp
  then have result: "backtrack preds start n w = Some (concat (map g ?ps))"
    using \<open>w \<noteq> start\<close> n by simp
  have g: "distinct (g (u, e, b))"
    "set (g (u, e, b)) = (\<lambda>p. p @ [PrimitiveRingStep e b]) ` shortest_paths dest start u"
    if "(u, e, b) \<in> set ?ps" for u e b
    using sub[OF that] by (auto simp: g_def distinct_map inj_on_def)
  have "set (concat (map g ?ps)) = shortest_paths dest start w"
    unfolding shortest_paths_Suc[OF Suc.prems(1)]
  proof (intro equalityI subsetI)
    fix x assume "x \<in> set (concat (map g ?ps))"
    then obtain u e b where "(u, e, b) \<in> set ?ps" "x \<in> set (g (u, e, b))" by auto
    with P(3)[of u e b] g(2)[of u e b] show "x \<in> (\<Union>(u, s) \<in> {(u, s). exact_distance dest start u j \<and>
        dest u s = Some w}. (\<lambda>p. p @ [s]) ` shortest_paths dest start u)" by auto
  next
    fix x assume "x \<in> (\<Union>(u, s) \<in> {(u, s). exact_distance dest start u j \<and>
        dest u s = Some w}. (\<lambda>p. p @ [s]) ` shortest_paths dest start u)"
    then obtain u s where "exact_distance dest start u j" "dest u s = Some w"
      "x \<in> (\<lambda>p. p @ [s]) ` shortest_paths dest start u" by blast
    then obtain e b where u: "exact_distance dest start u j" "dest u (PrimitiveRingStep e b) = Some w"
      "x \<in> (\<lambda>p. p @ [PrimitiveRingStep e b]) ` shortest_paths dest start u" by (cases s) blast
    then have "(u, e, b) \<in> set ?ps" using P(3)[of u e b] by blast
    with g(2)[OF this] u(3) show "x \<in> set (concat (map g ?ps))" by auto
  qed
  moreover have "distinct (concat (map g ps))" if "distinct ps" "set ps \<subseteq> set ?ps" for ps
    using that
  proof (induction ps)
    case (Cons p ps)
    obtain u e b where p: "p = (u, e, b)" by (metis prod.exhaust)
    have "set (g p) \<inter> set (g q) = {}" if q: "q \<in> set ps" for q
    proof (rule ccontr)
      assume "set (g p) \<inter> set (g q) \<noteq> {}"
      then obtain x where x: "x \<in> set (g p)" "x \<in> set (g q)" by blast
      obtain u' e' b' where q': "q = (u', e', b')" by (metis prod.exhaust)
      have "(u, e, b) \<in> set ?ps" "(u', e', b') \<in> set ?ps" using Cons.prems q p q' by auto
      from x[unfolded p q'] g(2)[OF this(1)] g(2)[OF this(2)] have "e' = e" "b' = b" "u' = u"
        by (auto simp: shortest_paths_def dest: walk_unique)
      with Cons.prems q p q' show False by simp
    qed
    moreover have "distinct (g p)" using Cons.prems p g(1) by auto
    ultimately show ?case using Cons by auto
  qed simp
  ultimately show ?case using result P(2) by blast
qed

lemma saturating_sum_min: "acc < S \<Longrightarrow> saturating_sum S acc xs = min S (acc + sum_list xs)"
  by (induction xs arbitrary: acc) auto

lemma sum_list_min: "min S (sum_list (map (\<lambda>x. min S (f x)) xs)) = min S (sum_list (map f xs))"
  for S :: nat
proof (induction xs)
  case (Cons x xs)
  then show ?case by (auto simp: min_def split: if_splits)
qed simp

lemma shortest_paths_finite:
  assumes "search_exact dest start d dist preds" and "exact_distance dest start w k" and "k \<le> d"
  shows "finite (shortest_paths dest start w)"
  using backtrack_exact[OF assms lessI] by (metis List.finite_set)

lemma card_shortest_paths_Suc:
  assumes exact: "search_exact dest start d dist preds" and w: "exact_distance dest start w (Suc j)" "Suc j \<le> d"
  shows "card (shortest_paths dest start w) =
    sum_list (map (\<lambda>p. card (shortest_paths dest start (fst p))) (lookup_default [] preds w))"
proof -
  let ?ps = "lookup_default [] preds w"
  let ?A = "\<lambda>p. (\<lambda>path. path @ [PrimitiveRingStep (fst (snd p)) (snd (snd p))]) ` shortest_paths dest start (fst p)"
  note P = search_exactD[OF exact w]
  have mem: "exact_distance dest start (fst p) j" if "p \<in> set ?ps" for p
    using that P(3)[of "fst p" "fst (snd p)" "snd (snd p)"] by simp
  have "(\<Union>(u, s) \<in> {(u, s). exact_distance dest start u j \<and> dest u s = Some w}.
      (\<lambda>p. p @ [s]) ` shortest_paths dest start u) = (\<Union>p \<in> set ?ps. ?A p)"
  proof (intro equalityI subsetI)
    fix x assume "x \<in> (\<Union>(u, s) \<in> {(u, s). exact_distance dest start u j \<and> dest u s = Some w}.
      (\<lambda>p. p @ [s]) ` shortest_paths dest start u)"
    then obtain u s where "exact_distance dest start u j" "dest u s = Some w"
      "x \<in> (\<lambda>p. p @ [s]) ` shortest_paths dest start u" by blast
    then obtain e b where u: "exact_distance dest start u j" "dest u (PrimitiveRingStep e b) = Some w"
      "x \<in> (\<lambda>p. p @ [PrimitiveRingStep e b]) ` shortest_paths dest start u" by (cases s) blast
    then have "(u, e, b) \<in> set ?ps" using P(3)[of u e b] by blast
    then show "x \<in> (\<Union>p \<in> set ?ps. ?A p)" using u(3) by (intro UN_I[of "(u, e, b)"]) simp_all
  next
    fix x assume "x \<in> (\<Union>p \<in> set ?ps. ?A p)"
    then obtain u e b where "(u, e, b) \<in> set ?ps" "x \<in> ?A (u, e, b)" by auto
    with P(3)[of u e b] show "x \<in> (\<Union>(u, s) \<in> {(u, s). exact_distance dest start u j \<and> dest u s = Some w}.
      (\<lambda>p. p @ [s]) ` shortest_paths dest start u)" by auto
  qed
  then have "card (shortest_paths dest start w) = card (\<Union>p \<in> set ?ps. ?A p)"
    unfolding shortest_paths_Suc[OF w(1)] by simp
  also have "\<dots> = (\<Sum>p \<in> set ?ps. card (?A p))"
  proof (rule card_UN_disjoint)
    show "\<forall>p \<in> set ?ps. finite (?A p)"
      using shortest_paths_finite[OF exact mem] w(2) by auto
    have "?A p \<inter> ?A q = {}" if "p \<noteq> q" for p q
    proof (rule ccontr)
      assume "?A p \<inter> ?A q \<noteq> {}"
      then have "fst (snd p) = fst (snd q)" "snd (snd p) = snd (snd q)" "fst p = fst q"
        by (auto simp: shortest_paths_def dest: walk_unique)
      with that show False by (simp add: prod_eq_iff)
    qed
    then show "\<forall>p \<in> set ?ps. \<forall>q \<in> set ?ps. p \<noteq> q \<longrightarrow> ?A p \<inter> ?A q = {}" by blast
  qed simp
  also have "\<dots> = (\<Sum>p \<in> set ?ps. card (shortest_paths dest start (fst p)))"
    by (intro sum.cong refl card_image) (simp add: inj_on_def)
  also have "\<dots> = sum_list (map (\<lambda>p. card (shortest_paths dest start (fst p))) ?ps)"
    using P(2) by (simp add: sum_list_distinct_conv_sum_set)
  finally show ?thesis .
qed

lemma lookup_default_update: "lookup_default d (AList.update k v m) k' = (if k' = k then v else lookup_default d m k')"
  by (simp add: lookup_default_def)

lemma count_states_correct:
  assumes exact: "search_exact dest start d dist preds" and "0 < S"
    and "states = sort_key (\<lambda>state. (lookup_default 0 dist state, state)) (map fst dist)"
    and "n \<le> length states"
  shows "\<forall>w k. w \<in> insert start (set (take n states)) \<longrightarrow> exact_distance dest start w k \<longrightarrow> k \<le> d \<longrightarrow>
    lookup_default 0 (fold (count_state preds start S) (take n states) [(start, 1)]) w
      = min S (card (shortest_paths dest start w))"
  using assms(4)
proof (induction n)
  case 0
  then show ?case using \<open>0 < S\<close> by (auto simp: lookup_default_def shortest_paths_start)
next
  case (Suc n)
  let ?key = "\<lambda>state. (lookup_default 0 dist state, state)"
  let ?counts = "fold (count_state preds start S) (take n states) [(start, 1)]"
  define x where "x = states ! n"
  have split: "take (Suc n) states = take n states @ [x]"
    using Suc.prems by (simp add: x_def take_Suc_conv_app_nth)
  have IH: "lookup_default 0 ?counts w = min S (card (shortest_paths dest start w))"
    if "w = start \<or> w \<in> set (take n states)" "exact_distance dest start w k" "k \<le> d" for w k
    using Suc that by auto
  have earlier: "u \<in> set (take n states)" if "u \<in> set states" "?key u < ?key x" for u
  proof -
    from that(1) obtain i where i: "i < length states" "u = states ! i" by (metis in_set_conv_nth)
    have "sorted (map ?key states)" unfolding assms(3) by (rule sorted_sort_key)
    have "i < n"
    proof (rule ccontr)
      assume "\<not> i < n"
      then have "?key x \<le> ?key u"
        using sorted_nth_mono[OF \<open>sorted (map ?key states)\<close>, of n i] i Suc.prems by (simp add: x_def)
      with that(2) show False by (metis leD)
    qed
    with i Suc.prems show ?thesis by (auto simp: in_set_conv_nth intro!: exI[of _ i])
  qed
  have now: "saturating_sum S 0 (map (\<lambda>p. lookup_default 0 ?counts (fst p)) (lookup_default [] preds x))
      = min S (card (shortest_paths dest start x))"
    if x: "exact_distance dest start x k" "k \<le> d" "x \<noteq> start" for k
  proof -
    obtain j where k: "k = Suc j" using x exact_distance_0[of dest start x] by (cases k) auto
    note P = search_exactD[OF exact x(1,2)]
    have "lookup_default 0 ?counts (fst p) = min S (card (shortest_paths dest start (fst p)))"
      if "p \<in> set (lookup_default [] preds x)" for p
    proof -
      have u: "exact_distance dest start (fst p) j"
        using that P(3)[of "fst p" "fst (snd p)" "snd (snd p)"] k by simp
      then have "map_of dist (fst p) = Some j" using search_exactD(1)[OF exact] x(2) k by simp
      then have "fst p \<in> set states" "lookup_default 0 dist (fst p) = j"
        unfolding assms(3) by (auto simp: lookup_default_def dest: map_of_SomeD intro: rev_image_eqI)
      moreover have "lookup_default 0 dist x = Suc j" using P(1) k by (simp add: lookup_default_def)
      ultimately have "fst p \<in> set (take n states)" by (intro earlier) simp_all
      then show ?thesis using IH u x(2) k by simp
    qed
    then have "saturating_sum S 0 (map (\<lambda>p. lookup_default 0 ?counts (fst p)) (lookup_default [] preds x))
        = min S (sum_list (map (\<lambda>p. min S (card (shortest_paths dest start (fst p)))) (lookup_default [] preds x)))"
      using \<open>0 < S\<close> by (simp add: saturating_sum_min cong: map_cong)
    then show ?thesis
      using card_shortest_paths_Suc[OF exact, of x j] x k by (simp add: sum_list_min)
  qed
  show ?case
  proof (intro allI impI)
    fix w k assume w: "w \<in> insert start (set (take (Suc n) states))" "exact_distance dest start w k" "k \<le> d"
    show "lookup_default 0 (fold (count_state preds start S) (take (Suc n) states) [(start, 1)]) w
        = min S (card (shortest_paths dest start w))"
      using w now[of k] IH[of w k] unfolding split
      by (auto simp: count_state_def lookup_default_update case_prod_beta')
  qed
qed

lemma count_predecessor_paths_exact:
  assumes exact: "search_exact dest start d dist preds" and "exact_distance dest start w k" and "k \<le> d"
  shows "count_predecessor_paths start w dist preds limit =
    (min (limit + 1) (card (shortest_paths dest start w)), card (shortest_paths dest start w) \<le> limit)"
proof -
  let ?states = "sort_key (\<lambda>state. (lookup_default 0 dist state, state)) (map fst dist)"
  have "map_of dist w = Some k" by (rule search_exactD(1)[OF assms])
  then have "w \<in> set ?states" by (auto dest: map_of_SomeD intro: rev_image_eqI)
  then have "lookup_default 0 (fold (count_state preds start (limit + 1)) ?states [(start, 1)]) w
      = min (limit + 1) (card (shortest_paths dest start w))"
    using count_states_correct[OF exact _ refl order.refl, of "limit + 1"] assms(2,3) by simp
  then show ?thesis by (simp add: count_predecessor_paths_def Let_def min_def)
qed

lemma count_predecessor_paths_unknown:
  assumes "w \<noteq> start" and "w \<notin> fst ` set dist"
  shows "count_predecessor_paths start w dist preds limit = (0, True)"
proof -
  have "lookup_default 0 (fold (count_state preds start S) ss counts) w = lookup_default 0 counts w"
    if "w \<notin> set ss" for ss counts S
    using that by (induction ss arbitrary: counts) (auto simp: count_state_def lookup_default_update)
  with assms show ?thesis
    by (simp add: count_predecessor_paths_def Let_def) (simp add: lookup_default_def)
qed

lemma backtrack_fuel_bound:
  assumes "map_of dist w = Some k"
  shows "k < backtrack_fuel dist"
proof -
  have "k \<in> set (map snd dist)" using map_of_SomeD[OF assms] by force
  then have "k \<le> Max (set (map snd dist @ [0]))" by simp
  moreover have "fold max (map snd dist) 0 = Max (set (0 # map snd dist))"
    by (simp only: Max.set_eq_fold)
  ultimately show ?thesis by (simp add: backtrack_fuel_def)
qed

lemma backtrack_shortest_paths_exact:
  assumes exact: "search_exact dest start d dist preds" and "exact_distance dest start w k" and "k \<le> d"
  shows "\<exists>ps. backtrack_shortest_paths start w dist preds = Some ps \<and> distinct ps
    \<and> set ps = shortest_paths dest start w"
  unfolding backtrack_shortest_paths_def
  by (rule backtrack_exact[OF assms backtrack_fuel_bound]) (rule search_exactD(1)[OF assms])

section \<open>Properties\<close>

text \<open>C28: The layered index of a source vertex always exists; through its complete depth it holds exactly the
  lifted states within that many steps, with their exact distances, and for each of them every last step
  of a shortest path once, sorted; it is truncated only when the states of the next depth exceed the
  limit, and never holds more states than the limit.\<close>

theorem source_index_exact:
  assumes "half_edge_adjacency t = Inr adj" and "source \<in> set (vertex_atoms t)" and "0 < limit"
  shows "\<exists>idx. build_source_index adj source depth limit = Inr idx
    \<and> (\<forall>w k. map_of (distance idx) w = Some k \<longleftrightarrow>
         exact_distance (lifted_dest t) (source_start source) w k \<and> k \<le> complete_through_depth idx)
    \<and> (\<forall>(w, k) \<in> set (distance idx). \<exists>ps. map_of (predecessors idx) w = Some ps \<and> sorted ps \<and> distinct ps
         \<and> set ps = {(u, e, b). \<exists>j. k = Suc j \<and> exact_distance (lifted_dest t) (source_start source) u j
              \<and> lifted_dest t u (PrimitiveRingStep e b) = Some w})
    \<and> (if truncated idx
       then complete_through_depth idx < depth \<and>
         limit < card {w. \<exists>k \<le> Suc (complete_through_depth idx).
           exact_distance (lifted_dest t) (source_start source) w k}
       else complete_through_depth idx = depth)
    \<and> length (distance idx) \<le> limit"
proof -
  have "valid_adjacency t adj" using assms(1) by (simp add: valid_adjacency_def)
  from build_source_index_correct[OF this assms(2), of depth limit] obtain idx where
    idx: "build_source_index adj source depth limit = Inr idx" "index_correct t depth limit idx"
      "source_atom_index idx = source" "length (distance idx) \<le> limit" using assms(3) by blast
  then have exact: "index_exact t (source_start source) (complete_through_depth idx) (distance idx) (predecessors idx)"
    by (simp add: index_correct_def)
  have "\<exists>ps. map_of (predecessors idx) w = Some ps \<and> sorted ps \<and> distinct ps
         \<and> set ps = {(u, e, b). \<exists>j. k = Suc j \<and> exact_distance (lifted_dest t) (source_start source) u j
              \<and> lifted_dest t u (PrimitiveRingStep e b) = Some w}" if "(w, k) \<in> set (distance idx)" for w k
  proof -
    have keys: "map fst (predecessors idx) = map fst (distance idx)" "distinct (map fst (distance idx))"
      using exact by (simp_all add: index_exact_def)
    with that have w: "map_of (distance idx) w = Some k" by simp
    have "w \<in> fst ` set (predecessors idx)" using that keys by (metis fst_conv image_eqI set_map)
    then obtain ps where ps: "map_of (predecessors idx) w = Some ps"
      by (metis domD dom_map_of_conv_image_fst)
    then have "lookup_default [] (predecessors idx) w = ps" by (simp add: lookup_default_def)
    with exact w have "sorted ps \<and> distinct ps
         \<and> set ps = {(u, e, b). \<exists>j. k = Suc j \<and> exact_distance (lifted_dest t) (source_start source) u j
              \<and> lifted_dest t u (PrimitiveRingStep e b) = Some w}" unfolding index_exact_def by blast
    with ps show ?thesis by blast
  qed
  with idx index_exact_distance[OF exact] show ?thesis by (auto simp: index_correct_def)
qed

lemma example_adjacency:
  "half_edge_adjacency example_topology = Inr (projr (half_edge_adjacency example_topology))"
  "0 \<in> set (vertex_atoms example_topology)"
  by code_simp+

definition example_index :: source_index where
  "example_index = projr (build_source_index (projr (half_edge_adjacency example_topology)) 0 3 10)"

lemma example_index_built:
  "build_source_index (projr (half_edge_adjacency example_topology)) 0 3 10 = Inr example_index"
  "map_of (distance example_index) (LiftedVertexRef 2 zero_shift) = Some 1"
  by code_simp+

theorem source_index_exact_witness:
  "exact_distance (lifted_dest example_topology) (source_start 0) (LiftedVertexRef 2 zero_shift) 1"
  using source_index_exact[OF example_adjacency, of 10 3] example_index_built by auto

text \<open>C29: For a target in the index of a source, backtracking ends and returns every shortest path to it once, and
  the saturating count is their number, capped just above the limit it is compared with.\<close>

theorem shortest_paths_enumerated_exact:
  assumes "half_edge_adjacency t = Inr adj" and "source \<in> set (vertex_atoms t)"
    and "build_source_index adj source depth limit = Inr idx" and "map_of (distance idx) w = Some k"
  shows "\<exists>ps. backtrack_shortest_paths (source_start source) w (distance idx) (predecessors idx) = Some ps
    \<and> distinct ps \<and> set ps = {ss. walk (lifted_dest t) (source_start source) ss w \<and> length ss = k}
    \<and> (\<forall>ss. walk (lifted_dest t) (source_start source) ss w \<longrightarrow> k \<le> length ss)
    \<and> count_predecessor_paths (source_start source) w (distance idx) (predecessors idx) paths
        = (min (paths + 1) (length ps), length ps \<le> paths)"
proof -
  have "valid_adjacency t adj" using assms(1) by (simp add: valid_adjacency_def)
  from build_source_index_correct[OF this assms(2), of depth limit] assms(3)
  have exact: "index_exact t (source_start source) (complete_through_depth idx) (distance idx) (predecessors idx)"
    by (auto simp: index_correct_def)
  from index_exact_distance[OF exact] assms(4)
  have k: "exact_distance (lifted_dest t) (source_start source) w k" "k \<le> complete_through_depth idx" by blast+
  note search = index_search_exact[OF exact]
  from backtrack_shortest_paths_exact[OF search k] obtain ps where
    ps: "backtrack_shortest_paths (source_start source) w (distance idx) (predecessors idx) = Some ps"
      "distinct ps" "set ps = shortest_paths (lifted_dest t) (source_start source) w" by blast
  have "length ps = card (shortest_paths (lifted_dest t) (source_start source) w)"
    using ps distinct_card by metis
  moreover have "shortest_paths (lifted_dest t) (source_start source) w
      = {ss. walk (lifted_dest t) (source_start source) ss w \<and> length ss = k}"
    using k(1) exact_distance_unique by (auto simp: shortest_paths_def)
  ultimately show ?thesis
    using ps count_predecessor_paths_exact[OF search k, of paths] k(1) by (auto simp: exact_distance_def)
qed

theorem shortest_paths_enumerated_exact_witness:
  "\<exists>ps. backtrack_shortest_paths (source_start 0) (LiftedVertexRef 2 zero_shift) (distance example_index)
      (predecessors example_index) = Some ps \<and> distinct ps
    \<and> set ps = {ss. walk (lifted_dest example_topology) (source_start 0) ss (LiftedVertexRef 2 zero_shift) \<and> length ss = 1}"
  using shortest_paths_enumerated_exact[OF example_adjacency example_index_built] by blast

end
