(* ===== verification/Removed_Edge_Search.thy ===== *)
theory Removed_Edge_Search
  imports Lifted_Search
begin

text \<open>
  The breadth-first search of \<open>mdstats/analysis/primitive_ring.py\<close> that avoids one instance of one
  edge (\<open>_search_removed_edge\<close>): a queue of lifted states, distances and predecessor lists, cut off
  at the depth of the target, at the depth bound and at the state limit.

  The loop ends because the states not yet found and the queue shrink together.  The lemmas show
  that, unless the state limit is hit, distances through the cutoff are exact and predecessor lists
  hold every last step of a shortest path, so that counting and enumerating paths is exact too.
\<close>

section \<open>The search\<close>

record removed_search =
  bfs_distance :: "(lifted_vertex \<times> nat) list"
  bfs_predecessors :: "(lifted_vertex \<times> predecessor list) list"
  bfs_queue :: "lifted_vertex list"
  target_distance :: "nat option"
  state_limit_exceeded :: bool

definition is_removed_instance ::
  "framework_topology \<Rightarrow> nat \<Rightarrow> lifted_vertex \<Rightarrow> half_edge \<Rightarrow> bool result" where
  "is_removed_instance t removed current h =
     (if half_edge_index h = removed
      then bindE (edge_instance_anchor t current h) (\<lambda>anchor. Inr (anchor = zero_shift))
      else Inr False)"

definition discover ::
  "nat \<Rightarrow> lifted_vertex \<Rightarrow> nat \<Rightarrow> predecessor \<times> lifted_vertex \<Rightarrow> removed_search \<Rightarrow> removed_search" where
  "discover limit target depth = (\<lambda>(predecessor, neighbor) s.
     case map_of (bfs_distance s) neighbor of
       None \<Rightarrow>
         if length (bfs_distance s) \<ge> limit then s\<lparr>state_limit_exceeded := True, bfs_queue := []\<rparr>
         else s\<lparr>bfs_distance := bfs_distance s @ [(neighbor, depth + 1)],
                bfs_predecessors := append_at neighbor predecessor (bfs_predecessors s),
                bfs_queue := bfs_queue s @ [neighbor],
                target_distance := (if neighbor = target \<and> target_distance s = None
                                    then Some (depth + 1) else target_distance s)\<rparr>
     | Some known \<Rightarrow>
         if known = depth + 1
         then s\<lparr>bfs_predecessors := append_at neighbor predecessor (bfs_predecessors s)\<rparr> else s)"

definition visit_removed ::
  "framework_topology \<Rightarrow> nat \<Rightarrow> nat \<Rightarrow> lifted_vertex \<Rightarrow> lifted_vertex \<Rightarrow> nat \<Rightarrow> half_edge \<Rightarrow> removed_search
   \<Rightarrow> removed_search result" where
  "visit_removed t removed limit target current depth h s =
     (if state_limit_exceeded s then Inr s
      else bindE (is_removed_instance t removed current h) (\<lambda>skip.
        Inr (if skip then s
             else discover limit target depth
               ((current, half_edge_index h, half_orientation h), half_edge_target current h) s)))"

definition expand_state ::
  "framework_topology \<Rightarrow> (nat \<times> half_edge list) list \<Rightarrow> nat \<Rightarrow> nat \<Rightarrow> nat \<Rightarrow> lifted_vertex \<Rightarrow> lifted_vertex
   \<Rightarrow> removed_search \<Rightarrow> removed_search result" where
  "expand_state t adj removed limit max_depth target current s =
     bindE (lookupE (bfs_distance s) current) (\<lambda>depth.
     if (case target_distance s of None \<Rightarrow> False | Some d \<Rightarrow> depth \<ge> d) then Inr s
     else if depth \<ge> max_depth then Inr s
     else bindE (lookupE adj (atom_index current)) (\<lambda>hs.
       foldE (visit_removed t removed limit target current depth) hs s))"

text \<open>What is left to do: the states that may still be found, and the queue.\<close>

definition remaining :: "nat \<Rightarrow> removed_search \<Rightarrow> nat" where
  "remaining limit s = (limit - length (bfs_distance s)) + length (bfs_queue s)"

lemma visit_removed_remaining:
  "visit_removed t removed limit target current depth h s = Inr s' \<Longrightarrow> remaining limit s' \<le> remaining limit s"
  by (auto simp: visit_removed_def discover_def remaining_def bindE_Inr_iff split: if_splits option.splits)

lemma expand_state_remaining:
  assumes "expand_state t adj removed limit max_depth target current s = Inr s'"
  shows "remaining limit s' \<le> remaining limit s"
proof -
  have "remaining limit s' \<le> remaining limit s"
    if "foldE (visit_removed t removed limit target current depth) hs s = Inr s'" for depth hs
    by (rule foldE_invariant[OF that]) (use visit_removed_remaining order_trans in blast)+
  with assms show ?thesis by (auto simp: expand_state_def bindE_Inr_iff split: if_splits)
qed

function removed_edge_loop ::
  "framework_topology \<Rightarrow> (nat \<times> half_edge list) list \<Rightarrow> nat \<Rightarrow> nat \<Rightarrow> nat \<Rightarrow> lifted_vertex \<Rightarrow> removed_search
   \<Rightarrow> removed_search result" where
  "removed_edge_loop t adj removed limit max_depth target s =
     (case bfs_queue s of
        [] \<Rightarrow> Inr s
      | current # queue \<Rightarrow>
          bindE (expand_state t adj removed limit max_depth target current (s\<lparr>bfs_queue := queue\<rparr>))
            (removed_edge_loop t adj removed limit max_depth target))"
  by pat_completeness auto

termination
proof (relation "measure (\<lambda>(t, adj, removed, limit, max_depth, target, s). remaining limit s)")
  fix t adj removed limit max_depth target s current queue s'
  assume queue: "bfs_queue s = current # queue"
    and "expand_state t adj removed limit max_depth target current (s\<lparr>bfs_queue := queue\<rparr>) = Inr s'"
  from expand_state_remaining[OF this(2)] have "remaining limit s' \<le> remaining limit (s\<lparr>bfs_queue := queue\<rparr>)" .
  also have "\<dots> < remaining limit s" using queue by (simp add: remaining_def)
  finally show "((t, adj, removed, limit, max_depth, target, s'), (t, adj, removed, limit, max_depth, target, s))
      \<in> measure (\<lambda>(t, adj, removed, limit, max_depth, target, s). remaining limit s)" by simp
qed simp

declare removed_edge_loop.simps [simp del]

definition removed_edge_ends :: "framework_topology \<Rightarrow> nat \<Rightarrow> (lifted_vertex \<times> lifted_vertex) result" where
  "removed_edge_ends t removed =
     bindE (edge_at t removed) (\<lambda>edge.
     Inr (source_start (vertex_i edge), LiftedVertexRef (vertex_j edge) (image_shift edge)))"

definition search_removed_edge ::
  "framework_topology \<Rightarrow> (nat \<times> half_edge list) list \<Rightarrow> nat \<Rightarrow> primitive_ring_options \<Rightarrow> removed_search result" where
  "search_removed_edge t adj removed options =
     bindE (removed_edge_ends t removed) (\<lambda>(start, target).
     bindE (removed_edge_loop t adj removed (max_lifted_states_per_source options) (max_ring_size options - 1) target
       \<lparr>bfs_distance = [(start, 0)], bfs_predecessors = [], bfs_queue = [start], target_distance = None,
        state_limit_exceeded = False\<rparr>) (\<lambda>s.
     Inr (s\<lparr>bfs_predecessors := map (\<lambda>(state, records). (state, sort records)) (bfs_predecessors s)\<rparr>)))"

definition visited_state_count_of :: "removed_search \<Rightarrow> nat" where
  "visited_state_count_of s = length (bfs_distance s)"

definition maximum_depth_of :: "removed_search \<Rightarrow> nat" where
  "maximum_depth_of s = fold max (map snd (bfs_distance s)) 0"

section \<open>The graph without one edge instance\<close>

definition removed_dest :: "framework_topology \<Rightarrow> nat \<Rightarrow> lifted_vertex \<Rightarrow> ring_step \<Rightarrow> lifted_vertex option" where
  "removed_dest t removed v step =
     (if physical_instance_key t v step = Inr (removed, zero_shift) then None else lifted_dest t v step)"

definition open_neighbors ::
  "framework_topology \<Rightarrow> nat \<Rightarrow> lifted_vertex \<Rightarrow> (predecessor \<times> lifted_vertex) list" where
  "open_neighbors t removed v =
     map (\<lambda>h. ((v, half_edge_index h, half_orientation h), half_edge_target v h))
       (filter (\<lambda>h. physical_instance_key t v (half_edge_step h) \<noteq> Inr (removed, zero_shift))
         (half_edges_at t (atom_index v)))"

lemma is_removed_instance_correct:
  assumes "h \<in> set (half_edges_at t (atom_index v))"
  shows "is_removed_instance t removed v h
    = Inr (physical_instance_key t v (half_edge_step h) = Inr (removed, zero_shift))"
proof -
  have "half_edge_index h < length (topology_edges t)"
    using assms half_edges_of_steps(2) by (auto simp: in_half_edges_at half_edge_step_def)
  then show ?thesis
    by (auto simp: is_removed_instance_def physical_instance_Inr_iff half_edge_step_def edge_instance_anchor_def
      edge_at_def nthE_def eq_commute[of zero_shift])
qed

lemma open_neighbors_iff:
  "((u, e, b), w) \<in> set (open_neighbors t removed v) \<longleftrightarrow> u = v \<and> removed_dest t removed v (PrimitiveRingStep e b) = Some w"
proof
  assume "((u, e, b), w) \<in> set (open_neighbors t removed v)"
  then show "u = v \<and> removed_dest t removed v (PrimitiveRingStep e b) = Some w"
    using half_edge_step_target[of _ t v] by (auto simp: open_neighbors_def removed_dest_def half_edge_step_def)
next
  assume r: "u = v \<and> removed_dest t removed v (PrimitiveRingStep e b) = Some w"
  then have dest: "lifted_dest t v (PrimitiveRingStep e b) = Some w"
    and ok: "physical_instance_key t v (PrimitiveRingStep e b) \<noteq> Inr (removed, zero_shift)"
    by (auto simp: removed_dest_def split: if_splits)
  from half_edge_for_step[OF dest] obtain h where h: "h \<in> set (half_edges_at t (atom_index v))"
    "half_edge_step h = PrimitiveRingStep e b" by blast
  moreover from half_edge_step_target[OF h(1)] h(2) dest have "half_edge_target v h = w" by simp
  ultimately show "((u, e, b), w) \<in> set (open_neighbors t removed v)"
    using r ok by (auto simp: open_neighbors_def half_edge_step_def image_iff intro!: bexI[of _ h])
qed

lemma distinct_open_neighbors: "distinct (map fst (open_neighbors t removed v))"
proof -
  let ?f = "\<lambda>s. (v, step_edge s, step_orientation s)"
  let ?steps = "map half_edge_step (filter (\<lambda>h. physical_instance_key t v (half_edge_step h) \<noteq> Inr (removed, zero_shift))
         (half_edges_at t (atom_index v)))"
  have "map fst (open_neighbors t removed v) = map ?f ?steps"
    by (simp add: open_neighbors_def half_edge_step_def)
  moreover have "inj_on ?f (set ?steps)"
    by (rule inj_onI) (metis ring_step.expand prod.inject)
  moreover have "distinct ?steps" using distinct_half_edge_steps by (rule distinct_map_filter)
  ultimately show ?thesis by (simp only: distinct_map[of ?f] simp_thms)
qed

section \<open>Expanding one state\<close>

definition discover_all ::
  "nat \<Rightarrow> lifted_vertex \<Rightarrow> nat \<Rightarrow> (predecessor \<times> lifted_vertex) list \<Rightarrow> removed_search \<Rightarrow> removed_search" where
  "discover_all limit target depth ns s =
     fold (\<lambda>n s. if state_limit_exceeded s then s else discover limit target depth n s) ns s"

lemma visit_removed_discover:
  "foldE (visit_removed t removed limit target u depth) (half_edges_at t (atom_index u)) s
    = Inr (discover_all limit target depth (open_neighbors t removed u) s)"
proof -
  have "foldE (visit_removed t removed limit target u depth) hs s
      = Inr (discover_all limit target depth (map (\<lambda>h. ((u, half_edge_index h, half_orientation h), half_edge_target u h))
          (filter (\<lambda>h. physical_instance_key t u (half_edge_step h) \<noteq> Inr (removed, zero_shift)) hs)) s)"
    if "set hs \<subseteq> set (half_edges_at t (atom_index u))" for hs
    using that
    by (induction hs arbitrary: s) (simp_all add: discover_all_def visit_removed_def is_removed_instance_correct)
  from this[of "half_edges_at t (atom_index u)"] show ?thesis by (simp add: open_neighbors_def)
qed

lemma discover_all_stop: "state_limit_exceeded s \<Longrightarrow> discover_all limit target depth ns s = s"
  by (induction ns) (simp_all add: discover_all_def)

lemma discover_all_Cons:
  "\<not> state_limit_exceeded s \<Longrightarrow> discover_all limit target depth (n # ns) s
    = discover_all limit target depth ns (discover limit target depth n s)"
  by (simp add: discover_all_def)

definition new_states :: "nat \<Rightarrow> (predecessor \<times> lifted_vertex) list \<Rightarrow> removed_search \<Rightarrow> removed_search
    \<Rightarrow> lifted_vertex list \<Rightarrow> bool" where
  "new_states depth ns s s' new \<longleftrightarrow> distinct new \<and> set new \<subseteq> snd ` set ns - fst ` set (bfs_distance s)
     \<and> bfs_distance s' = bfs_distance s @ map (\<lambda>w. (w, Suc depth)) new"

lemma discover_all_over:
  assumes "\<not> state_limit_exceeded s" and "state_limit_exceeded (discover_all limit target depth ns s)"
  shows "bfs_queue (discover_all limit target depth ns s) = []
    \<and> (\<exists>new. new_states depth ns s (discover_all limit target depth ns s) new \<and> limit \<le> length (bfs_distance s) + length new
        \<and> (\<exists>w \<in> snd ` set ns. w \<notin> set new \<and> w \<notin> fst ` set (bfs_distance s)))"
  using assms
proof (induction ns arbitrary: s)
  case (Cons n ns)
  obtain p w where n: "n = (p, w)" by (cases n)
  let ?s = "discover limit target depth n s"
  have all: "discover_all limit target depth (n # ns) s = discover_all limit target depth ns ?s"
    by (rule discover_all_Cons[OF Cons.prems(1)])
  show ?case
  proof (cases "state_limit_exceeded ?s")
    case True
    then have over: "map_of (bfs_distance s) w = None" "limit \<le> length (bfs_distance s)"
      and s': "?s = s\<lparr>state_limit_exceeded := True, bfs_queue := []\<rparr>"
      using Cons.prems(1) by (auto simp: discover_def n split: option.splits if_splits)
    have "w \<notin> fst ` set (bfs_distance s)" using over(1) by (simp add: map_of_eq_None_iff)
    then show ?thesis
      unfolding all discover_all_stop[OF True] s' using over(2)
      by (intro conjI exI[of _ "[]"]) (auto simp: new_states_def n discover_all_stop)
  next
    case False
    from Cons.IH[OF False] Cons.prems(2) all obtain new v where
      new: "new_states depth ns ?s (discover_all limit target depth ns ?s) new"
        "limit \<le> length (bfs_distance ?s) + length new"
      and v: "v \<in> snd ` set ns" "v \<notin> set new" "v \<notin> fst ` set (bfs_distance ?s)"
      and queue: "bfs_queue (discover_all limit target depth ns ?s) = []" by auto
    show ?thesis
    proof (cases "map_of (bfs_distance s) w")
      case None
      then have s': "bfs_distance ?s = bfs_distance s @ [(w, Suc depth)]"
        using False by (auto simp: discover_def n)
      have "w \<notin> fst ` set (bfs_distance s)" using None by (simp add: map_of_eq_None_iff)
      then show ?thesis
        unfolding all using new v queue s' by (intro conjI exI[of _ "w # new"]) (auto simp: new_states_def n)
    next
      case (Some k)
      then have "bfs_distance ?s = bfs_distance s" by (simp add: discover_def n)
      then show ?thesis
        unfolding all using new v queue by (intro conjI exI[of _ new]) (auto simp: new_states_def)
    qed
  qed
qed (simp add: discover_all_def)

lemma discover_all_within:
  assumes "\<not> state_limit_exceeded s" and "\<not> state_limit_exceeded (discover_all limit target depth ns s)"
  shows "\<exists>new. new_states depth ns s (discover_all limit target depth ns s) new
    \<and> set new = snd ` set ns - fst ` set (bfs_distance s)
    \<and> bfs_queue (discover_all limit target depth ns s) = bfs_queue s @ new
    \<and> (\<forall>w. lookup_default [] (bfs_predecessors (discover_all limit target depth ns s)) w
        = lookup_default [] (bfs_predecessors s) w @
          (if map_of (bfs_distance s) w = Some (Suc depth) \<or> map_of (bfs_distance s) w = None
           then map fst (filter (\<lambda>n. snd n = w) ns) else []))
    \<and> target_distance (discover_all limit target depth ns s)
        = (if target_distance s = None \<and> target \<in> set new then Some (Suc depth) else target_distance s)"
  using assms
proof (induction ns arbitrary: s)
  case Nil
  show ?case by (intro exI[of _ "[]"]) (simp add: discover_all_def new_states_def)
next
  case (Cons n ns)
  obtain p w where n: "n = (p, w)" by (cases n)
  let ?s = "discover limit target depth n s"
  have all: "discover_all limit target depth (n # ns) s = discover_all limit target depth ns ?s"
    by (rule discover_all_Cons[OF Cons.prems(1)])
  have going: "\<not> state_limit_exceeded ?s"
    using Cons.prems(2) discover_all_stop[of ?s] unfolding all by auto
  from Cons.IH[OF going] Cons.prems(2) all obtain new where
    new: "new_states depth ns ?s (discover_all limit target depth ns ?s) new"
      "set new = snd ` set ns - fst ` set (bfs_distance ?s)"
      "bfs_queue (discover_all limit target depth ns ?s) = bfs_queue ?s @ new"
      "target_distance (discover_all limit target depth ns ?s)
        = (if target_distance ?s = None \<and> target \<in> set new then Some (Suc depth) else target_distance ?s)"
    and preds: "\<And>v. lookup_default [] (bfs_predecessors (discover_all limit target depth ns ?s)) v
        = lookup_default [] (bfs_predecessors ?s) v @
          (if map_of (bfs_distance ?s) v = Some (Suc depth) \<or> map_of (bfs_distance ?s) v = None
           then map fst (filter (\<lambda>n. snd n = v) ns) else [])" by auto
  show ?case
  proof (cases "map_of (bfs_distance s) w")
    case None
    then have s': "bfs_distance ?s = bfs_distance s @ [(w, Suc depth)]" "bfs_queue ?s = bfs_queue s @ [w]"
      "bfs_predecessors ?s = append_at w p (bfs_predecessors s)"
      "target_distance ?s = (if w = target \<and> target_distance s = None then Some (Suc depth) else target_distance s)"
      using going by (auto simp: discover_def n split: if_splits)
    have fresh: "w \<notin> fst ` set (bfs_distance s)" using None by (simp add: map_of_eq_None_iff)
    show ?thesis
      unfolding all
    proof (intro exI[of _ "w # new"] conjI allI)
      show "new_states depth (n # ns) s (discover_all limit target depth ns ?s) (w # new)"
        using new(1) fresh s'(1) by (auto simp: new_states_def n)
      show "set (w # new) = snd ` set (n # ns) - fst ` set (bfs_distance s)"
        using new(2) fresh s'(1) by (auto simp: n)
      show "bfs_queue (discover_all limit target depth ns ?s) = bfs_queue s @ w # new"
        using new(3) s'(2) by simp
      show "target_distance (discover_all limit target depth ns ?s)
        = (if target_distance s = None \<and> target \<in> set (w # new) then Some (Suc depth) else target_distance s)"
        using new(4) s'(4) by auto
      fix v
      show "lookup_default [] (bfs_predecessors (discover_all limit target depth ns ?s)) v
        = lookup_default [] (bfs_predecessors s) v @
          (if map_of (bfs_distance s) v = Some (Suc depth) \<or> map_of (bfs_distance s) v = None
           then map fst (filter (\<lambda>n. snd n = v) (n # ns)) else [])"
        using preds[of v] None s'(1,3) by (auto simp: n lookup_append_at map_add_def split: option.splits)
    qed
  next
    case (Some k)
    then have s': "bfs_distance ?s = bfs_distance s" "bfs_queue ?s = bfs_queue s"
      "bfs_predecessors ?s = (if k = Suc depth then append_at w p (bfs_predecessors s) else bfs_predecessors s)"
      "target_distance ?s = target_distance s"
      by (simp_all add: discover_def n)
    have old: "w \<in> fst ` set (bfs_distance s)" using map_of_SomeD[OF Some] by force
    show ?thesis
      unfolding all
    proof (intro exI[of _ new] conjI allI)
      show "new_states depth (n # ns) s (discover_all limit target depth ns ?s) new"
        using new(1) s'(1) by (auto simp: new_states_def)
      show "set new = snd ` set (n # ns) - fst ` set (bfs_distance s)"
        using new(2) old s'(1) by (auto simp: n)
      show "bfs_queue (discover_all limit target depth ns ?s) = bfs_queue s @ new"
        using new(3) s'(2) by simp
      show "target_distance (discover_all limit target depth ns ?s)
        = (if target_distance s = None \<and> target \<in> set new then Some (Suc depth) else target_distance s)"
        using new(4) s'(4) by simp
      fix v
      show "lookup_default [] (bfs_predecessors (discover_all limit target depth ns ?s)) v
        = lookup_default [] (bfs_predecessors s) v @
          (if map_of (bfs_distance s) v = Some (Suc depth) \<or> map_of (bfs_distance s) v = None
           then map fst (filter (\<lambda>n. snd n = v) (n # ns)) else [])"
        using preds[of v] Some s'(1,3) by (auto simp: n lookup_append_at)
    qed
  qed
qed

section \<open>The invariant of the queue\<close>

abbreviation apart_without :: "framework_topology \<Rightarrow> nat \<Rightarrow> lifted_vertex \<Rightarrow> lifted_vertex \<Rightarrow> nat \<Rightarrow> bool" where
  "apart_without t removed start w k \<equiv> exact_distance (removed_dest t removed) start w k"

definition cutoff :: "nat \<Rightarrow> removed_search \<Rightarrow> nat" where
  "cutoff max_depth s = (case target_distance s of None \<Rightarrow> max_depth | Some d \<Rightarrow> min d max_depth)"

definition expanded :: "nat \<Rightarrow> removed_search \<Rightarrow> lifted_vertex set \<Rightarrow> lifted_vertex \<Rightarrow> nat \<Rightarrow> bool" where
  "expanded max_depth s popped u j \<longleftrightarrow>
     u \<in> popped \<and> map_of (bfs_distance s) u = Some j \<and> j < cutoff max_depth s"

definition distances_sound :: "framework_topology \<Rightarrow> nat \<Rightarrow> nat \<Rightarrow> lifted_vertex \<Rightarrow> removed_search \<Rightarrow> bool" where
  "distances_sound t removed max_depth start s \<longleftrightarrow> map_of (bfs_distance s) start = Some 0 \<and>
     (\<forall>w k. map_of (bfs_distance s) w = Some k \<longrightarrow> apart_without t removed start w k \<and> k \<le> max_depth)"

definition successors_known ::
  "framework_topology \<Rightarrow> nat \<Rightarrow> nat \<Rightarrow> removed_search \<Rightarrow> lifted_vertex set \<Rightarrow> bool" where
  "successors_known t removed max_depth s popped \<longleftrightarrow>
     (\<forall>u j step w. expanded max_depth s popped u j \<longrightarrow> removed_dest t removed u step = Some w \<longrightarrow>
        (\<exists>k \<le> Suc j. map_of (bfs_distance s) w = Some k))"

definition predecessors_known ::
  "framework_topology \<Rightarrow> nat \<Rightarrow> nat \<Rightarrow> removed_search \<Rightarrow> lifted_vertex set \<Rightarrow> bool" where
  "predecessors_known t removed max_depth s popped \<longleftrightarrow>
     (\<forall>w. map_of (bfs_distance s) w = None \<longrightarrow> lookup_default [] (bfs_predecessors s) w = []) \<and>
     (\<forall>w k. map_of (bfs_distance s) w = Some k \<longrightarrow>
        distinct (lookup_default [] (bfs_predecessors s) w) \<and>
        (\<forall>u e b. (u, e, b) \<in> set (lookup_default [] (bfs_predecessors s) w) \<longleftrightarrow>
           (\<exists>j. k = Suc j \<and> expanded max_depth s popped u j
              \<and> removed_dest t removed u (PrimitiveRingStep e b) = Some w)))"

definition queue_ordered :: "removed_search \<Rightarrow> lifted_vertex list \<Rightarrow> bool" where
  "queue_ordered s popped \<longleftrightarrow>
     map fst (bfs_distance s) = popped @ bfs_queue s \<and> distinct (map fst (bfs_distance s)) \<and>
     sorted (map snd (bfs_distance s)) \<and>
     (\<forall>j. bfs_queue s \<noteq> [] \<longrightarrow> map_of (bfs_distance s) (hd (bfs_queue s)) = Some j \<longrightarrow>
        (\<forall>k \<in> set (map snd (bfs_distance s)). k \<le> Suc j))"

definition bfs_inv ::
  "framework_topology \<Rightarrow> nat \<Rightarrow> nat \<Rightarrow> lifted_vertex \<Rightarrow> lifted_vertex \<Rightarrow> removed_search \<Rightarrow> bool" where
  "bfs_inv t removed max_depth start target s \<longleftrightarrow>
     distances_sound t removed max_depth start s \<and>
     target_distance s = map_of (bfs_distance s) target \<and>
     (\<exists>popped. queue_ordered s popped \<and> successors_known t removed max_depth s (set popped) \<and>
        predecessors_known t removed max_depth s (set popped))"

lemma queue_depths:
  assumes "queue_ordered s popped" and "bfs_queue s = u # queue" and "map_of (bfs_distance s) u = Some j"
  shows "x \<in> set popped \<Longrightarrow> map_of (bfs_distance s) x = Some i \<Longrightarrow> i \<le> j"
    and "x \<in> set queue \<Longrightarrow> map_of (bfs_distance s) x = Some i \<Longrightarrow> j \<le> i"
    and "map_of (bfs_distance s) x = Some i \<Longrightarrow> i \<le> Suc j" and "u \<notin> set popped"
    and "map_of (bfs_distance s) x = Some i \<Longrightarrow> i < j \<Longrightarrow> x \<in> set popped"
proof -
  have keys: "map fst (bfs_distance s) = popped @ u # queue" and dist: "distinct (map fst (bfs_distance s))"
    and depths: "sorted (map snd (bfs_distance s))"
    using assms(1) unfolding queue_ordered_def assms(2) by blast+
  from keys obtain xs ys j' where d: "bfs_distance s = xs @ (u, j') # ys" "map fst xs = popped" "map fst ys = queue"
    by (auto simp: map_eq_append_conv map_eq_Cons_conv)
  have entry: "map_of (bfs_distance s) x = Some i \<longleftrightarrow> (x, i) \<in> set (bfs_distance s)" for x i
    using dist by (rule map_of_eq_Some_iff)
  have "j' = j" using assms(3) dist unfolding entry d(1) by (auto simp: rev_image_eqI)
  have order: "\<forall>i \<in> set (map snd xs). i \<le> j" "\<forall>i \<in> set (map snd ys). j \<le> i"
    using depths \<open>j' = j\<close> by (auto simp: d(1) sorted_append)
  have apart: "x \<in> set popped \<Longrightarrow> (x, i) \<in> set (bfs_distance s) \<Longrightarrow> (x, i) \<in> set xs"
    "x \<in> set queue \<Longrightarrow> (x, i) \<in> set (bfs_distance s) \<Longrightarrow> (x, i) \<in> set ys"  for x i
    using dist unfolding d(1) d(2,3)[symmetric] by (auto simp: rev_image_eqI)
  show "x \<in> set popped \<Longrightarrow> map_of (bfs_distance s) x = Some i \<Longrightarrow> i \<le> j"
    using apart(1)[of x i] order(1) unfolding entry by force
  show "x \<in> set queue \<Longrightarrow> map_of (bfs_distance s) x = Some i \<Longrightarrow> j \<le> i"
    using apart(2)[of x i] order(2) unfolding entry by force
  have "\<forall>k \<in> set (map snd (bfs_distance s)). k \<le> Suc j"
    using assms by (simp add: queue_ordered_def)
  then show "map_of (bfs_distance s) x = Some i \<Longrightarrow> i \<le> Suc j" unfolding entry by force
  show "u \<notin> set popped" using dist unfolding keys by simp
  show "map_of (bfs_distance s) x = Some i \<Longrightarrow> i < j \<Longrightarrow> x \<in> set popped"
  proof -
    assume x: "map_of (bfs_distance s) x = Some i" "i < j"
    have "(x, i) \<in> set (bfs_distance s)" using x(1) unfolding entry .
    then have "(x, i) \<in> set xs \<or> x = u \<and> i = j \<or> (x, i) \<in> set ys" using \<open>j' = j\<close> by (auto simp: d(1))
    moreover have "(x, i) \<notin> set ys" using order(2) x(2) by force
    ultimately show "x \<in> set popped" using x(2) unfolding d(2)[symmetric] by force
  qed
qed

text \<open>Every state closer than the head of the queue is already known.\<close>

lemma closer_known:
  assumes sound: "distances_sound t removed max_depth start s" and order: "queue_ordered s popped"
    and known: "successors_known t removed max_depth s (set popped)"
    and u: "bfs_queue s = u # queue" "map_of (bfs_distance s) u = Some j" and "j < cutoff max_depth s"
    and "apart_without t removed start w m" and "m \<le> j"
  shows "map_of (bfs_distance s) w = Some m"
  using assms(7,8)
proof (induction m arbitrary: w)
  case 0
  then show ?case using sound by (simp add: distances_sound_def exact_distance_0)
next
  case (Suc m)
  from Suc.prems(1)[unfolded exact_distance_Suc] obtain v step where
    v: "apart_without t removed start v m" "removed_dest t removed v step = Some w" by blast
  have "map_of (bfs_distance s) v = Some m" using Suc.IH[OF v(1)] Suc.prems(2) by simp
  moreover have "v \<in> set popped"
    using queue_depths(5)[OF order u calculation] Suc.prems(2) by simp
  ultimately have "expanded max_depth s (set popped) v m"
    using Suc.prems(2) assms(6) by (simp add: expanded_def)
  with known v(2) obtain k where k: "map_of (bfs_distance s) w = Some k" unfolding successors_known_def by blast
  then have "apart_without t removed start w k" using sound by (simp add: distances_sound_def)
  with Suc.prems(1) k show ?case using exact_distance_unique by metis
qed

lemma expanded_pop:
  assumes "\<not> j < cutoff max_depth s" and "map_of (bfs_distance s) u = Some j"
  shows "expanded max_depth (s\<lparr>bfs_queue := queue\<rparr>) (insert u popped) = expanded max_depth s popped"
  using assms by (auto simp: expanded_def cutoff_def fun_eq_iff)

lemma queue_head_depth:
  assumes order: "queue_ordered s popped" and u: "bfs_queue s = u # queue" "map_of (bfs_distance s) u = Some j"
    and "queue \<noteq> []" and "map_of (bfs_distance s) (hd queue) = Some i"
  shows "j \<le> i"
  by (rule queue_depths(2)[OF order u _ assms(5)]) (use assms(4) in simp)

lemma queue_distinct: "queue_ordered s popped \<Longrightarrow> distinct (map fst (bfs_distance s))"
  unfolding queue_ordered_def by (elim conjE)

lemma distance_values:
  "queue_ordered s popped \<Longrightarrow> k \<in> set (map snd (bfs_distance s)) \<longleftrightarrow> (\<exists>x. map_of (bfs_distance s) x = Some k)"
proof -
  assume "queue_ordered s popped"
  from queue_distinct[OF this] show ?thesis by (force simp: map_of_eq_Some_iff)
qed

lemma bfs_inv_skip:
  assumes inv: "bfs_inv t removed max_depth start target s" and u: "bfs_queue s = u # queue"
    "map_of (bfs_distance s) u = Some j" and stop: "\<not> j < cutoff max_depth s"
  shows "bfs_inv t removed max_depth start target (s\<lparr>bfs_queue := queue\<rparr>)"
proof -
  from inv obtain popped where order: "queue_ordered s popped"
    and known: "successors_known t removed max_depth s (set popped)"
      "predecessors_known t removed max_depth s (set popped)"
    and rest: "distances_sound t removed max_depth start s" "target_distance s = map_of (bfs_distance s) target"
    unfolding bfs_inv_def by blast
  let ?s = "s\<lparr>bfs_queue := queue\<rparr>"
  have pop: "expanded max_depth ?s (set (popped @ [u])) = expanded max_depth s (set popped)"
    using expanded_pop[OF stop u(2), of queue "set popped"] by simp
  have bound: "\<forall>k \<in> set (map snd (bfs_distance s)). k \<le> Suc i"
    if "queue \<noteq> []" "map_of (bfs_distance s) (hd queue) = Some i" for i
  proof
    fix k assume "k \<in> set (map snd (bfs_distance s))"
    then obtain x where "map_of (bfs_distance s) x = Some k" using distance_values[OF order] by blast
    from queue_depths(3)[OF order u this] queue_head_depth[OF order u that] show "k \<le> Suc i" by simp
  qed
  have fields: "bfs_distance ?s = bfs_distance s" "bfs_queue ?s = queue" by simp_all
  have "map fst (bfs_distance s) = (popped @ [u]) @ queue" using order u(1) by (simp add: queue_ordered_def)
  then have "queue_ordered ?s (popped @ [u])"
    using order bound unfolding queue_ordered_def fields by blast
  moreover have "successors_known t removed max_depth ?s (set (popped @ [u]))"
    using known(1) unfolding successors_known_def pop by simp
  moreover have "predecessors_known t removed max_depth ?s (set (popped @ [u]))"
    using known(2) unfolding predecessors_known_def pop by simp
  ultimately show ?thesis
    unfolding bfs_inv_def using rest by (auto simp: distances_sound_def)
qed

lemma map_of_append_new:
  "map_of (d @ map (\<lambda>w. (w, k)) new) x =
     (case map_of d x of Some i \<Rightarrow> Some i | None \<Rightarrow> if x \<in> set new then Some k else None)"
  by (rule map_of_new_keys)

text \<open>The states found while expanding the head are one step further, and nothing closer is missed.\<close>

lemma new_state_distance:
  assumes sound: "distances_sound t removed max_depth start s" and order: "queue_ordered s popped"
    and known: "successors_known t removed max_depth s (set popped)"
    and u: "bfs_queue s = u # queue" "map_of (bfs_distance s) u = Some j" and go: "j < cutoff max_depth s"
    and w: "w \<in> snd ` set (open_neighbors t removed u)" "map_of (bfs_distance s) w = None"
  shows "apart_without t removed start w (Suc j)" and "Suc j \<le> max_depth"
proof -
  from w(1) obtain p where "(p, w) \<in> set (open_neighbors t removed u)" by auto
  then obtain e b where "removed_dest t removed u (PrimitiveRingStep e b) = Some w"
    by (cases p) (auto simp: open_neighbors_iff)
  moreover have "apart_without t removed start u j" using sound u(2) by (simp add: distances_sound_def)
  moreover have "\<not> apart_without t removed start w m" if "m \<le> j" for m
    using closer_known[OF sound order known u go _ that, of w] w(2) by auto
  ultimately show "apart_without t removed start w (Suc j)" unfolding exact_distance_Suc by blast
  show "Suc j \<le> max_depth" using go by (simp add: cutoff_def split: option.splits)
qed

lemma open_neighbor_reached:
  "removed_dest t removed u step = Some w \<longleftrightarrow> ((u, step_edge step, step_orientation step), w) \<in> set (open_neighbors t removed u)"
  unfolding open_neighbors_iff by (cases step) simp

lemma bfs_inv_expand:
  assumes inv: "bfs_inv t removed max_depth start target s" and u: "bfs_queue s = u # queue"
    "map_of (bfs_distance s) u = Some j" and go: "j < cutoff max_depth s"
    and running: "\<not> state_limit_exceeded s" "\<not> state_limit_exceeded s'"
    and s': "s' = discover_all limit target j (open_neighbors t removed u) (s\<lparr>bfs_queue := queue\<rparr>)"
  shows "bfs_inv t removed max_depth start target s'"
proof -
  from inv obtain popped where order: "queue_ordered s popped"
    and known: "successors_known t removed max_depth s (set popped)"
    and preds: "predecessors_known t removed max_depth s (set popped)"
    and sound: "distances_sound t removed max_depth start s" and tdist: "target_distance s = map_of (bfs_distance s) target"
    unfolding bfs_inv_def by blast
  let ?ns = "open_neighbors t removed u"
  from discover_all_within[of "s\<lparr>bfs_queue := queue\<rparr>" limit target j ?ns] running s' obtain new where
    new: "distinct new" "set new = snd ` set ?ns - fst ` set (bfs_distance s)"
      "bfs_distance s' = bfs_distance s @ map (\<lambda>w. (w, Suc j)) new" "bfs_queue s' = queue @ new"
    and lookup: "\<And>w. lookup_default [] (bfs_predecessors s') w = lookup_default [] (bfs_predecessors s) w @
          (if map_of (bfs_distance s) w = Some (Suc j) \<or> map_of (bfs_distance s) w = None
           then map fst (filter (\<lambda>n. snd n = w) ?ns) else [])"
    and tdist': "target_distance s' = (if target_distance s = None \<and> target \<in> set new then Some (Suc j) else target_distance s)"
    by (auto simp: new_states_def)
  note dist' = map_of_append_new[of "bfs_distance s" "Suc j" new, folded new(3)]
  have fresh: "x \<in> set new \<Longrightarrow> map_of (bfs_distance s) x = None" for x
    unfolding new(2) by (simp add: map_of_eq_None_iff)
  have far: "apart_without t removed start x (Suc j) \<and> Suc j \<le> max_depth" if "x \<in> set new" for x
    using new_state_distance[OF sound order known u go _ fresh[OF that]] that unfolding new(2) by blast
  have sound': "distances_sound t removed max_depth start s'"
    using sound far by (auto simp: distances_sound_def dist' split: option.splits if_splits)
  have target': "target_distance s' = map_of (bfs_distance s') target"
    using tdist tdist' by (auto simp: dist' split: option.splits)
  have upto: "x \<in> set popped \<Longrightarrow> map_of (bfs_distance s) x = Some i \<Longrightarrow> i \<le> j" for x i
    by (rule queue_depths(1)[OF order u])
  have cut': "i < cutoff max_depth s' \<longleftrightarrow> i < cutoff max_depth s" if "i \<le> j" for i
    using that go by (auto simp: cutoff_def tdist' split: option.splits)
  have popped_dist: "x \<in> set popped \<Longrightarrow> map_of (bfs_distance s') x = map_of (bfs_distance s) x" for x
  proof -
    assume "x \<in> set popped"
    then have "x \<in> fst ` set (bfs_distance s)"
      using order unfolding queue_ordered_def by (metis UnCI list.set_map set_append)
    then show "map_of (bfs_distance s') x = map_of (bfs_distance s) x"
      by (auto simp: dist' map_of_eq_None_iff split: option.splits)
  qed
  have expanded': "expanded max_depth s' (set (popped @ [u])) x i \<longleftrightarrow>
      expanded max_depth s (set popped) x i \<or> x = u \<and> i = j" for x i
  proof (cases "x = u")
    case True
    have "u \<notin> set popped" by (rule queue_depths(4)[OF order u])
    then show ?thesis using True u(2) go cut'[of j] by (auto simp: expanded_def dist')
  next
    case False
    then show ?thesis using popped_dist[of x] upto[of x i] cut'[of i] by (auto simp: expanded_def)
  qed
  have order': "queue_ordered s' (popped @ [u])"
  proof -
    have "map fst (bfs_distance s') = (popped @ [u]) @ bfs_queue s'"
      using order u(1) new(3,4) by (simp add: queue_ordered_def comp_def)
    moreover have "distinct (map fst (bfs_distance s'))"
    proof -
      from queue_distinct[OF order] show ?thesis using new(1,2) by (auto simp: new(3) comp_def)
    qed
    moreover have small: "\<forall>k \<in> set (map snd (bfs_distance s')). k \<le> Suc j"
    proof -
      have "k \<le> Suc j" if "k \<in> set (map snd (bfs_distance s))" for k
        using that queue_depths(3)[OF order u] unfolding distance_values[OF order] by blast
      then show ?thesis by (auto simp: new(3))
    qed
    moreover have "sorted (map snd (bfs_distance s'))"
    proof -
      have "sorted (map snd (bfs_distance s))" using order unfolding queue_ordered_def by (elim conjE)
      then show ?thesis using small by (auto simp: new(3) sorted_append comp_def map_replicate_const)
    qed
    moreover have "\<forall>k \<in> set (map snd (bfs_distance s')). k \<le> Suc i"
      if "bfs_queue s' \<noteq> []" "map_of (bfs_distance s') (hd (bfs_queue s')) = Some i" for i
    proof -
      have "j \<le> i"
      proof (cases "queue = []")
        case True
        then show ?thesis using that new(4) fresh[of "hd new"] by (auto simp: dist' split: if_splits)
      next
        case False
        then have "hd queue \<in> fst ` set (bfs_distance s)"
          using order u(1) unfolding queue_ordered_def
          by (metis UnCI hd_in_set list.set_intros(2) list.set_map set_append)
        then have "map_of (bfs_distance s) (hd queue) = Some i"
          using that(2) False new(4) by (auto simp: dist' map_of_eq_None_iff split: option.splits)
        then show ?thesis by (rule queue_head_depth[OF order u False])
      qed
      then show ?thesis using small by force
    qed
    ultimately show ?thesis unfolding queue_ordered_def by blast
  qed
  have known': "successors_known t removed max_depth s' (set (popped @ [u]))"
    unfolding successors_known_def expanded'
  proof (intro allI impI)
    fix x i step w assume x: "expanded max_depth s (set popped) x i \<or> x = u \<and> i = j"
      and w: "removed_dest t removed x step = Some w"
    show "\<exists>k \<le> Suc i. map_of (bfs_distance s') w = Some k"
    proof (cases "map_of (bfs_distance s) w")
      case None
      then have here: "x = u \<and> i = j" using x w known unfolding successors_known_def by fastforce
      then have "w \<in> snd ` set ?ns" using w unfolding open_neighbor_reached by force
      then have "w \<in> set new" using None unfolding new(2) by (simp add: map_of_eq_None_iff)
      then show ?thesis using None here by (simp add: dist')
    next
      case (Some k)
      then have "k \<le> Suc i"
        using x w known queue_depths(3)[OF order u Some] unfolding successors_known_def by fastforce
      then show ?thesis using Some by (simp add: dist')
    qed
  qed
  have here: "(x, e, b) \<in> set (map fst (filter (\<lambda>n. snd n = w) ?ns)) \<longleftrightarrow>
      x = u \<and> removed_dest t removed u (PrimitiveRingStep e b) = Some w" for x e b w
    unfolding open_neighbors_iff[symmetric] by force
  have preds': "predecessors_known t removed max_depth s' (set (popped @ [u]))"
    unfolding predecessors_known_def expanded'
  proof (intro conjI allI impI)
    fix w assume none: "map_of (bfs_distance s') w = None"
    then have "map_of (bfs_distance s) w = None" "w \<notin> set new" by (auto simp: dist' split: option.splits if_splits)
    then have "w \<notin> snd ` set ?ns" unfolding new(2) by (auto simp: map_of_eq_None_iff)
    then have "filter (\<lambda>n. snd n = w) ?ns = []" by (auto simp: filter_empty_conv)
    then show "lookup_default [] (bfs_predecessors s') w = []"
      using preds \<open>map_of (bfs_distance s) w = None\<close> unfolding lookup predecessors_known_def by simp
  next
    fix w k assume k: "map_of (bfs_distance s') w = Some k"
    have old: "(x, e, b) \<in> set (lookup_default [] (bfs_predecessors s) w) \<longleftrightarrow>
        (\<exists>i. k = Suc i \<and> expanded max_depth s (set popped) x i \<and> removed_dest t removed x (PrimitiveRingStep e b) = Some w)"
      for x e b
    proof (cases "map_of (bfs_distance s) w")
      case None
      moreover have "\<not> (expanded max_depth s (set popped) x i \<and> removed_dest t removed x (PrimitiveRingStep e b) = Some w)" for i
        using known None unfolding successors_known_def by fastforce
      ultimately show ?thesis using preds unfolding predecessors_known_def by simp
    next
      case (Some i)
      then have "i = k" using k by (simp add: dist')
      then show ?thesis using Some preds unfolding predecessors_known_def by blast
    qed
    have unpopped: "u \<notin> set popped" by (rule queue_depths(4)[OF order u])
    have now: "map_of (bfs_distance s) w = Some (Suc j) \<or> map_of (bfs_distance s) w = None \<longleftrightarrow> k = Suc j"
      using k queue_depths(3)[OF order u] by (auto simp: dist' split: option.splits if_splits)
    have part: "distinct (lookup_default [] (bfs_predecessors s) w)"
      using preds unfolding predecessors_known_def by (cases "map_of (bfs_distance s) w") simp_all
    have "distinct (map fst (filter (\<lambda>n. snd n = w) ?ns))"
      by (rule distinct_map_filter[OF distinct_open_neighbors])
    moreover have "set (lookup_default [] (bfs_predecessors s) w) \<inter> set (map fst (filter (\<lambda>n. snd n = w) ?ns)) = {}"
    proof -
      have False if "(x, e, b) \<in> set (lookup_default [] (bfs_predecessors s) w)"
        "(x, e, b) \<in> set (map fst (filter (\<lambda>n. snd n = w) ?ns))" for x e b
        using that unpopped unfolding old here by (auto simp: expanded_def)
      then show ?thesis by (metis disjoint_iff prod.exhaust)
    qed
    ultimately show "distinct (lookup_default [] (bfs_predecessors s') w)"
      using part unfolding lookup now by simp
    fix x e b
    show "(x, e, b) \<in> set (lookup_default [] (bfs_predecessors s') w) \<longleftrightarrow>
        (\<exists>i. k = Suc i \<and> (expanded max_depth s (set popped) x i \<or> x = u \<and> i = j)
           \<and> removed_dest t removed x (PrimitiveRingStep e b) = Some w)"
      unfolding lookup now set_append Un_iff old using here[of x e b w] by auto
  qed
  show ?thesis
    unfolding bfs_inv_def using sound' target' order' known' preds' by blast
qed

section \<open>The whole search\<close>

definition beyond_limit :: "framework_topology \<Rightarrow> nat \<Rightarrow> nat \<Rightarrow> nat \<Rightarrow> lifted_vertex \<Rightarrow> bool" where
  "beyond_limit t removed limit max_depth start \<longleftrightarrow>
     (\<exists>ws. distinct ws \<and> limit < length ws \<and> (\<forall>w \<in> set ws. \<exists>k \<le> max_depth. apart_without t removed start w k))"

lemma walk_without: "walk (removed_dest t removed) v ss w \<Longrightarrow> walk (lifted_dest t) v ss w"
  by (induction ss arbitrary: v) (auto simp: removed_dest_def split: if_splits)

lemma bfs_inv_over:
  assumes inv: "bfs_inv t removed max_depth start target s" and u: "bfs_queue s = u # queue"
    "map_of (bfs_distance s) u = Some j" and go: "j < cutoff max_depth s"
    and over: "\<not> state_limit_exceeded s" "state_limit_exceeded s'"
    and s': "s' = discover_all limit target j (open_neighbors t removed u) (s\<lparr>bfs_queue := queue\<rparr>)"
  shows "bfs_queue s' = [] \<and> beyond_limit t removed limit max_depth start"
proof -
  from inv obtain popped where order: "queue_ordered s popped"
    and known: "successors_known t removed max_depth s (set popped)"
    and sound: "distances_sound t removed max_depth start s"
    unfolding bfs_inv_def by blast
  from discover_all_over[of "s\<lparr>bfs_queue := queue\<rparr>" limit target j "open_neighbors t removed u"] over s'
  obtain new w where stop: "bfs_queue s' = []" and new: "distinct new"
      "set new \<subseteq> snd ` set (open_neighbors t removed u) - fst ` set (bfs_distance s)"
    and many: "limit \<le> length (bfs_distance s) + length new"
    and w: "w \<in> snd ` set (open_neighbors t removed u)" "w \<notin> set new" "w \<notin> fst ` set (bfs_distance s)"
    by (auto simp: new_states_def)
  let ?ws = "map fst (bfs_distance s) @ new @ [w]"
  have far: "\<exists>k \<le> max_depth. apart_without t removed start x k"
    if "x \<in> snd ` set (open_neighbors t removed u)" "x \<notin> fst ` set (bfs_distance s)" for x
    using new_state_distance[OF sound order known u go that(1)] that(2) by (auto simp: map_of_eq_None_iff)
  have near: "\<exists>k \<le> max_depth. apart_without t removed start x k" if x: "x \<in> fst ` set (bfs_distance s)" for x
  proof -
    from x obtain k where "map_of (bfs_distance s) x = Some k"
      by (metis dom_map_of_conv_image_fst domD)
    then show ?thesis using sound unfolding distances_sound_def by blast
  qed
  have "distinct ?ws" using queue_distinct[OF order] new w by auto
  moreover have "limit < length ?ws" using many by simp
  moreover have "\<forall>x \<in> set ?ws. \<exists>k \<le> max_depth. apart_without t removed start x k"
  proof
    fix x assume "x \<in> set ?ws"
    then consider "x \<in> fst ` set (bfs_distance s)" | "x \<in> set new" | "x = w" by auto
    then show "\<exists>k \<le> max_depth. apart_without t removed start x k"
    proof cases
      case 1
      then show ?thesis by (rule near)
    next
      case 2
      then have "x \<in> snd ` set (open_neighbors t removed u)" "x \<notin> fst ` set (bfs_distance s)"
        using subsetD[OF new(2)] by simp_all
      then show ?thesis by (rule far)
    next
      case 3
      then show ?thesis using far[OF w(1,3)] by simp
    qed
  qed
  ultimately show ?thesis using stop unfolding beyond_limit_def by blast
qed

lemma removed_edge_loop_correct:
  assumes "valid_adjacency t adj" and "atom_index start \<in> set (vertex_atoms t)"
    and "bfs_inv t removed max_depth start target s" and "\<not> state_limit_exceeded s"
  shows "\<exists>s'. removed_edge_loop t adj removed limit max_depth target s = Inr s'
    \<and> (if state_limit_exceeded s' then beyond_limit t removed limit max_depth start
       else bfs_inv t removed max_depth start target s' \<and> bfs_queue s' = [])"
  using assms
proof (induction t adj removed limit max_depth target s rule: removed_edge_loop.induct)
  case (1 t adj removed limit max_depth target s)
  show ?case
  proof (cases "bfs_queue s")
    case Nil
    then show ?thesis using "1.prems" by (simp add: removed_edge_loop.simps)
  next
    case (Cons u queue)
    let ?s = "s\<lparr>bfs_queue := queue\<rparr>"
    have loop: "removed_edge_loop t adj removed limit max_depth target s
        = bindE (expand_state t adj removed limit max_depth target u ?s)
            (removed_edge_loop t adj removed limit max_depth target)"
      by (subst removed_edge_loop.simps) (simp add: Cons)
    from "1.prems"(3) obtain popped where order: "queue_ordered s popped"
      and sound: "distances_sound t removed max_depth start s" unfolding bfs_inv_def by blast
    have "u \<in> set (map fst (bfs_distance s))" using order Cons by (simp add: queue_ordered_def)
    then obtain j where j: "map_of (bfs_distance s) u = Some j"
      by (metis dom_map_of_conv_image_fst domD list.set_map)
    then have "apart_without t removed start u j" using sound unfolding distances_sound_def by blast
    then obtain ss where "walk (lifted_dest t) start ss u" unfolding exact_distance_def using walk_without by blast
    then have adj: "lookupE adj (atom_index u) = Inr (half_edges_at t (atom_index u))"
      using walk_atom[OF "1.prems"(1) _ "1.prems"(2)] valid_adjacency_lookup[OF "1.prems"(1)] by blast
    show ?thesis
    proof (cases "j < cutoff max_depth s")
      case False
      then have step: "expand_state t adj removed limit max_depth target u ?s = Inr ?s"
        using j by (auto simp: expand_state_def lookupE_def cutoff_def split: option.splits)
      have "bfs_inv t removed max_depth start target ?s"
        by (rule bfs_inv_skip[OF "1.prems"(3) Cons j False])
      from "1.IH"[OF Cons step "1.prems"(1,2) this] "1.prems"(4) show ?thesis unfolding loop step by simp
    next
      case True
      define s' where "s' = discover_all limit target j (open_neighbors t removed u) ?s"
      have step: "expand_state t adj removed limit max_depth target u ?s = Inr s'"
        using True j adj by (auto simp: expand_state_def lookupE_def cutoff_def visit_removed_discover s'_def
          split: option.splits)
      show ?thesis
      proof (cases "state_limit_exceeded s'")
        case over: True
        from bfs_inv_over[OF "1.prems"(3) Cons j True "1.prems"(4) over s'_def]
        have "bfs_queue s' = []" "beyond_limit t removed limit max_depth start" by blast+
        then show ?thesis unfolding loop step using over by (simp add: removed_edge_loop.simps)
      next
        case False
        from bfs_inv_expand[OF "1.prems"(3) Cons j True "1.prems"(4) False s'_def]
        have "bfs_inv t removed max_depth start target s'" .
        from "1.IH"[OF Cons step "1.prems"(1,2) this False] show ?thesis unfolding loop step by simp
      qed
    qed
  qed
qed

definition removed_result ::
  "framework_topology \<Rightarrow> nat \<Rightarrow> nat \<Rightarrow> lifted_vertex \<Rightarrow> lifted_vertex \<Rightarrow> removed_search \<Rightarrow> bool" where
  "removed_result t removed max_depth start target s \<longleftrightarrow>
     search_exact (removed_dest t removed) start (cutoff max_depth s) (bfs_distance s) (bfs_predecessors s) \<and>
     (case target_distance s of
        None \<Rightarrow> \<not> (\<exists>k \<le> max_depth. apart_without t removed start target k)
      | Some d \<Rightarrow> apart_without t removed start target d \<and> d \<le> max_depth) \<and>
     (\<forall>w k. map_of (bfs_distance s) w = Some k \<longrightarrow> k \<le> max_depth)"

lemma lookup_sorted:
  "lookup_default [] (map (\<lambda>(state, records). (state, sort records)) m) w = sort (lookup_default [] m w)"
  by (induction m) (auto simp: lookup_default_def split: if_splits)

lemma bfs_inv_result:
  assumes inv: "bfs_inv t removed max_depth start target s" and "bfs_queue s = []"
  shows "removed_result t removed max_depth start target
    (s\<lparr>bfs_predecessors := map (\<lambda>(state, records). (state, sort records)) (bfs_predecessors s)\<rparr>)"
proof -
  from inv obtain popped where order: "queue_ordered s popped"
    and known: "successors_known t removed max_depth s (set popped)"
    and preds: "predecessors_known t removed max_depth s (set popped)"
    and sound: "distances_sound t removed max_depth start s" and tdist: "target_distance s = map_of (bfs_distance s) target"
    unfolding bfs_inv_def by blast
  let ?D = "apart_without t removed start" and ?cut = "cutoff max_depth s"
  let ?s = "s\<lparr>bfs_predecessors := map (\<lambda>(state, records). (state, sort records)) (bfs_predecessors s)\<rparr>"
  have all: "x \<in> set popped" if "map_of (bfs_distance s) x = Some i" for x i
    using order assms(2) map_of_SomeD[OF that] unfolding queue_ordered_def by force
  have cut: "?cut \<le> max_depth" by (simp add: cutoff_def split: option.splits)
  have complete: "map_of (bfs_distance s) w = Some k" if "?D w k" "k \<le> ?cut" for w k
    using that
  proof (induction k arbitrary: w)
    case 0
    then show ?case using sound by (simp add: distances_sound_def exact_distance_0)
  next
    case (Suc k)
    from Suc.prems(1)[unfolded exact_distance_Suc] obtain v step where
      v: "?D v k" "removed_dest t removed v step = Some w" by blast
    have "map_of (bfs_distance s) v = Some k" using Suc.IH[OF v(1)] Suc.prems(2) by simp
    then have "expanded max_depth s (set popped) v k" using all Suc.prems(2) by (simp add: expanded_def)
    with known v(2) obtain i where i: "map_of (bfs_distance s) w = Some i" unfolding successors_known_def by blast
    then have "?D w i" using sound unfolding distances_sound_def by blast
    with Suc.prems(1) i show ?case using exact_distance_unique by metis
  qed
  have exact: "map_of (bfs_distance s) w = Some k \<longleftrightarrow> ?D w k" if "k \<le> ?cut" for w k
    using complete[OF _ that] sound unfolding distances_sound_def by blast
  have "search_exact (removed_dest t removed) start ?cut (bfs_distance s) (bfs_predecessors ?s)"
    unfolding search_exact_def
  proof (intro conjI allI impI)
    fix w k assume "k \<le> ?cut"
    then show "map_of (bfs_distance s) w = Some k \<longleftrightarrow> ?D w k" by (rule exact)
  next
    fix w k assume w: "?D w k" "k \<le> ?cut"
    then have dist: "map_of (bfs_distance s) w = Some k" using exact by blast
    then show "distinct (lookup_default [] (bfs_predecessors ?s) w)"
      using preds by (simp add: lookup_sorted predecessors_known_def)
    have "expanded max_depth s (set popped) u j \<longleftrightarrow> ?D u j" if "k = Suc j" for u j
      using that w(2) all exact[of j u] by (auto simp: expanded_def)
    then have "(u, e, b) \<in> set (lookup_default [] (bfs_predecessors s) w) \<longleftrightarrow>
        (\<exists>j. k = Suc j \<and> ?D u j \<and> removed_dest t removed u (PrimitiveRingStep e b) = Some w)" for u e b
      using preds dist unfolding predecessors_known_def by blast
    then show "set (lookup_default [] (bfs_predecessors ?s) w) = {(u, e, b). \<exists>j. k = Suc j \<and>
        ?D u j \<and> removed_dest t removed u (PrimitiveRingStep e b) = Some w}"
      by (auto simp: lookup_sorted)
  qed
  moreover have "case target_distance s of
        None \<Rightarrow> \<not> (\<exists>k \<le> max_depth. ?D target k)
      | Some d \<Rightarrow> ?D target d \<and> d \<le> max_depth"
  proof (cases "target_distance s")
    case None
    then have "?cut = max_depth" by (simp add: cutoff_def)
    then show ?thesis using complete[of target] None tdist by auto
  next
    case (Some d)
    then show ?thesis using sound tdist unfolding distances_sound_def by simp
  qed
  moreover have "cutoff max_depth ?s = ?cut" by (simp add: cutoff_def)
  ultimately show ?thesis using sound unfolding removed_result_def distances_sound_def by simp
qed

lemma search_removed_edge_correct:
  assumes adj: "valid_adjacency t adj" and ends: "removed_edge_ends t removed = Inr (start, target)" "start \<noteq> target"
    and start: "atom_index start \<in> set (vertex_atoms t)"
  shows "\<exists>s. search_removed_edge t adj removed options = Inr s
    \<and> (if state_limit_exceeded s
       then beyond_limit t removed (max_lifted_states_per_source options) (max_ring_size options - 1) start
       else removed_result t removed (max_ring_size options - 1) start target s)"
proof -
  let ?s = "\<lparr>bfs_distance = [(start, 0)], bfs_predecessors = [], bfs_queue = [start], target_distance = None,
        state_limit_exceeded = False\<rparr>"
  have "bfs_inv t removed (max_ring_size options - 1) start target ?s"
    unfolding bfs_inv_def
  proof (intro conjI exI[of _ "[]"])
    show "distances_sound t removed (max_ring_size options - 1) start ?s"
      by (auto simp: distances_sound_def exact_distance_0)
    show "target_distance ?s = map_of (bfs_distance ?s) target" using ends(2) by simp
    show "queue_ordered ?s []" by (auto simp: queue_ordered_def)
    show "successors_known t removed (max_ring_size options - 1) ?s (set [])"
      by (simp add: successors_known_def expanded_def)
    show "predecessors_known t removed (max_ring_size options - 1) ?s (set [])"
      by (simp add: predecessors_known_def expanded_def lookup_default_def)
  qed
  from removed_edge_loop_correct[OF adj start this, of "max_lifted_states_per_source options"]
  obtain s where s: "removed_edge_loop t adj removed (max_lifted_states_per_source options)
      (max_ring_size options - 1) target ?s = Inr s"
    "if state_limit_exceeded s
     then beyond_limit t removed (max_lifted_states_per_source options) (max_ring_size options - 1) start
     else bfs_inv t removed (max_ring_size options - 1) start target s \<and> bfs_queue s = []" by auto
  from s bfs_inv_result[of t removed "max_ring_size options - 1" start target s] show ?thesis
    by (auto simp: search_removed_edge_def ends(1) split: if_splits)
qed

end
