(* ===== verification/Ring_Search.thy ===== *)
theory Ring_Search
  imports Lifted_Search
begin

text \<open>
  The default primitive-ring search of \<open>mdstats/analysis/primitive_ring.py\<close>: search statistics,
  the cached enumeration of shortest paths, the external shortcut witness, the no-shortcut test of a
  candidate, its acceptance, and the generation of even and odd candidates, up to the loop over ring
  sizes (\<open>_enumerate_shortest_path_pair_primitives\<close>).

  The mutable \<open>_DefaultSearchStats\<close>, the path cache and the candidate map are one state record that
  every operation returns; a raised exception discards it, as in the code.  The early returns on
  \<open>stats.stopped\<close> skip the remaining iterations.
\<close>

section \<open>State\<close>

record shortcut_witness =
  endpoint_pair :: lifted_vertex_pair
  first_cycle_arc_length :: nat
  second_cycle_arc_length :: nat
  shortcut_steps :: "ring_step list"
  shortcut_vertices :: "lifted_vertex list"
  shortcut_length :: nat

definition make_shortcut_witness :: "shortcut_witness \<Rightarrow> shortcut_witness result" where
  "make_shortcut_witness w =
     bindE (positive_nat ''first_cycle_arc_length'' (first_cycle_arc_length w)) (\<lambda>first.
     bindE (positive_nat ''second_cycle_arc_length'' (second_cycle_arc_length w)) (\<lambda>second.
     bindE (positive_nat ''shortcut_length'' (shortcut_length w)) (\<lambda>len.
     if length (shortcut_steps w) \<noteq> len \<or> length (shortcut_vertices w) \<noteq> len + 1 then
       Inl (PrimitiveRingInputError (Text ''Shortcut witness lengths are inconsistent.''))
     else if hd (shortcut_vertices w) \<noteq> pair_first (endpoint_pair w)
         \<or> last (shortcut_vertices w) \<noteq> pair_second (endpoint_pair w) then
       Inl (PrimitiveRingInputError (Text ''Shortcut witness endpoints disagree with endpoint_pair.''))
     else if len \<ge> min first second then
       Inl (PrimitiveRingInputError (Text ''Shortcut witness must be shorter than both cycle arcs.''))
     else Inr w)))"

record search_stats =
  even_anchors_considered :: nat
  odd_anchors_considered :: nat
  shortest_paths_enumerated :: nat
  path_pair_combinations_considered :: nat
  structural_candidates :: nat
  rejected_nonprimitive :: nat
  duplicate_candidates :: nat
  first_incomplete_ring_size :: "nat option"
  stat_messages :: "message list"
  shortcut_witnesses :: "shortcut_witness list"
  stopped :: bool

definition initial_stats :: search_stats where
  "initial_stats = \<lparr>even_anchors_considered = 0, odd_anchors_considered = 0,
     shortest_paths_enumerated = 0, path_pair_combinations_considered = 0, structural_candidates = 0,
     rejected_nonprimitive = 0, duplicate_candidates = 0, first_incomplete_ring_size = None,
     stat_messages = [], shortcut_witnesses = [], stopped = False\<rparr>"

definition stats_truncate :: "nat \<Rightarrow> message \<Rightarrow> search_stats \<Rightarrow> search_stats" where
  "stats_truncate rsize m s =
     s\<lparr>first_incomplete_ring_size :=
         (case first_incomplete_ring_size s of None \<Rightarrow> Some rsize | Some n \<Rightarrow> Some (min n rsize)),
       stat_messages :=
         (if m \<in> set (stat_messages s) then stat_messages s else stat_messages s @ [m])\<rparr>"

record candidate_accumulator =
  acc_key :: ring_key
  acc_steps :: "ring_step list"
  acc_vertex_walk :: "lifted_vertex list"
  acc_generator_edges :: "nat list"
  acc_generator_kinds :: "string list"
  acc_anchor_count :: nat

record cycle_candidate =
  candidate_steps :: "ring_step list"
  candidate_vertex_walk :: "lifted_vertex list"
  certified_shortest_pairs :: "lifted_vertex_pair list"
  generator_kind :: string
  generator_anchor :: "nat \<times> nat \<times> shift"

type_synonym path_cache = "((nat \<times> lifted_vertex) \<times> ring_step list list option) list"

record search_state =
  stats :: search_stats
  paths_known :: path_cache
  candidate_map :: "(ring_key \<times> candidate_accumulator) list"

definition fmt_vertex :: "lifted_vertex \<Rightarrow> fmt_arg" where
  "fmt_vertex v = AVertex (atom_index v) (vertex_image v)"

section \<open>Shortest paths of one target\<close>

definition count_index_paths :: "source_index \<Rightarrow> lifted_vertex \<Rightarrow> nat \<Rightarrow> nat \<times> bool" where
  "count_index_paths source target limit =
     count_predecessor_paths (source_start (source_atom_index source)) target (distance source)
       (predecessors source) limit"

definition enumerate_index_paths ::
  "source_index \<Rightarrow> lifted_vertex \<Rightarrow> primitive_ring_options \<Rightarrow> nat \<Rightarrow> search_state
   \<Rightarrow> (ring_step list list option \<times> search_state) result" where
  "enumerate_index_paths source target options rsize st =
     (let key = (source_atom_index source, target) in
      case map_of (paths_known st) key of
        Some known \<Rightarrow> Inr (known, st)
      | None \<Rightarrow>
          (let (count, exact) = count_index_paths source target (max_shortest_paths_per_target options) in
           if \<not> exact then
             let m = Fmt ''Shortest-path multiplicity exceeded the per-target limit for source {}, target {}.''
                       [ANat (source_atom_index source), fmt_vertex target] in
             if strict options then Inl (PrimitiveRingComplexityError m)
             else Inr (None, st\<lparr>stats := stats_truncate rsize m (stats st),
                                paths_known := AList.update key None (paths_known st)\<rparr>)
           else
             case backtrack_shortest_paths (source_start (source_atom_index source)) target
                    (distance source) (predecessors source) of
               None \<Rightarrow> Inl (RuntimeError (Text ''maximum recursion depth exceeded''))
             | Some paths \<Rightarrow>
                 if length paths \<noteq> count then
                   Inl (PrimitiveRingSearchError
                     (Text ''Shortest-path predecessor count disagrees with enumeration.''))
                 else Inr (Some paths,
                   st\<lparr>stats := (stats st)\<lparr>shortest_paths_enumerated :=
                        shortest_paths_enumerated (stats st) + length paths\<rparr>,
                      paths_known := AList.update key (Some paths) (paths_known st)\<rparr>)))"

section \<open>Shortcuts\<close>

definition half_cycle_pair ::
  "lifted_vertex list \<Rightarrow> nat \<Rightarrow> (lifted_vertex_pair \<times> nat \<times> nat) result" where
  "half_cycle_pair vertices index =
     (let n = length vertices; radius = n div 2; other = (index + radius) mod n in
      bindE (make_vertex_pair (vertices ! index) (vertices ! other)) (\<lambda>pair.
      Inr (pair, radius, n - radius)))"

definition maximal_half_cycle_pairs ::
  "lifted_vertex list \<Rightarrow> (lifted_vertex_pair \<times> nat \<times> nat) list result" where
  "maximal_half_cycle_pairs vertices =
     (let n = length vertices; radius = n div 2;
          count = (if n mod 2 = 0 then radius else n)
      in mapE (half_cycle_pair vertices) [0..<count])"

datatype shortcut_scan =
    WitnessFound shortcut_witness
  | StateLimit
  | ScanNext "lifted_vertex list" "(lifted_vertex \<times> nat) list"
      "(lifted_vertex \<times> lifted_vertex \<times> ring_step) list"

text \<open>The walk from the start of the search to a state, through the parent records.\<close>

fun parent_chain ::
  "(lifted_vertex \<times> lifted_vertex \<times> ring_step) list \<Rightarrow> lifted_vertex \<Rightarrow> nat \<Rightarrow> lifted_vertex
   \<Rightarrow> (ring_step list \<times> lifted_vertex list) result" where
  "parent_chain parent start 0 cursor = Inl (RuntimeError (Text ''parent records are cyclic''))"
| "parent_chain parent start (Suc n) cursor =
     (if cursor = start then Inr ([], [start])
      else bindE (lookupE parent cursor) (\<lambda>(previous, previous_step).
        bindE (parent_chain parent start n previous) (\<lambda>(steps, vertices).
        Inr (steps @ [previous_step], vertices @ [cursor]))))"

definition position_of :: "lifted_vertex list \<Rightarrow> lifted_vertex \<Rightarrow> nat result" where
  "position_of vertices v = lookupE (rev (zip vertices [0..<length vertices])) v"

definition report_shortcut ::
  "lifted_vertex list \<Rightarrow> lifted_vertex \<Rightarrow> (lifted_vertex \<times> lifted_vertex \<times> ring_step) list
   \<Rightarrow> lifted_vertex \<Rightarrow> ring_step \<Rightarrow> lifted_vertex \<Rightarrow> nat \<Rightarrow> nat \<Rightarrow> nat \<Rightarrow> shortcut_witness result" where
  "report_shortcut vertices start parent state step target new_depth forward backward =
     bindE (parent_chain parent start (length parent + 1) state) (\<lambda>(steps, walked).
     let chain_steps = steps @ [step]; chain_vertices = walked @ [target] in
     bindE (make_vertex_pair start target) (\<lambda>pair.
     let oriented_steps = (if pair_first pair \<noteq> start then reverse_with step_reversed chain_steps
                           else chain_steps);
         oriented_vertices = (if pair_first pair \<noteq> start then rev chain_vertices else chain_vertices)
     in make_shortcut_witness \<lparr>endpoint_pair = pair, first_cycle_arc_length = forward,
          second_cycle_arc_length = backward, shortcut_steps = oriented_steps,
          shortcut_vertices = oriented_vertices, shortcut_length = new_depth\<rparr>))"

fun scan_half_edges ::
  "framework_topology \<Rightarrow> lifted_vertex list \<Rightarrow> (nat \<times> shift) list \<Rightarrow> nat \<Rightarrow> lifted_vertex
   \<Rightarrow> lifted_vertex \<Rightarrow> nat \<Rightarrow> half_edge list \<Rightarrow> lifted_vertex list \<Rightarrow> (lifted_vertex \<times> nat) list
   \<Rightarrow> (lifted_vertex \<times> lifted_vertex \<times> ring_step) list \<Rightarrow> shortcut_scan result" where
  "scan_half_edges t vertices instances limit start state depth [] queue dist parent =
     Inr (ScanNext queue dist parent)"
| "scan_half_edges t vertices instances limit start state depth (h # hs) queue dist parent =
     (let step = PrimitiveRingStep (half_edge_index h) (half_orientation h);
          continue = scan_half_edges t vertices instances limit start state depth hs in
      bindE (physical_instance_key t state step) (\<lambda>key.
      if key \<in> set instances then continue queue dist parent
      else
        let target = half_edge_target state h; new_depth = depth + 1 in
        if target \<in> set vertices \<and> target \<noteq> start then
          bindE (position_of vertices start) (\<lambda>i.
          bindE (position_of vertices target) (\<lambda>j.
          let n = length vertices;
              forward = nat ((int j - int i) mod int n); backward = n - forward in
          if new_depth < min forward backward then
            bindE (report_shortcut vertices start parent state step target new_depth forward backward)
              (\<lambda>w. Inr (WitnessFound w))
          else continue queue dist parent))
        else if target \<in> set vertices \<or> target \<in> fst ` set dist then continue queue dist parent
        else if length dist \<ge> limit then Inr StateLimit
        else continue (queue @ [target]) (AList.update target new_depth dist)
               (AList.update target (state, step) parent)))"

lemma scan_half_edges_bound:
  "scan_half_edges t vertices instances limit start state depth hs queue dist parent
     = Inr (ScanNext queue' dist' parent') \<Longrightarrow>
   (limit - length dist') + length queue' \<le> (limit - length dist) + length queue"
proof (induction hs arbitrary: queue dist parent)
  case (Cons h hs)
  show ?case
  proof (cases "half_edge_target state h = start")
    case True
    from Cons.prems show ?thesis
      by (auto simp: True Let_def bindE_Inr_iff update_fresh split: if_splits dest!: Cons.IH)
  next
    case False
    with Cons.prems show ?thesis
      by (auto simp: Let_def bindE_Inr_iff update_fresh split: if_splits dest!: Cons.IH)
  qed
qed simp

function shortcut_search ::
  "framework_topology \<Rightarrow> (nat \<times> half_edge list) list \<Rightarrow> lifted_vertex list \<Rightarrow> (nat \<times> shift) list \<Rightarrow> nat
   \<Rightarrow> nat \<Rightarrow> lifted_vertex \<Rightarrow> lifted_vertex list \<Rightarrow> (lifted_vertex \<times> nat) list
   \<Rightarrow> (lifted_vertex \<times> lifted_vertex \<times> ring_step) list \<Rightarrow> shortcut_scan result" where
  "shortcut_search t adj vertices instances max_length limit start [] dist parent =
     Inr (ScanNext [] dist parent)"
| "shortcut_search t adj vertices instances max_length limit start (state # queue) dist parent =
     bindE (lookupE dist state) (\<lambda>depth.
     if depth \<ge> max_length then
       shortcut_search t adj vertices instances max_length limit start queue dist parent
     else
       bindE (lookupE adj (atom_index state)) (\<lambda>hs.
       case scan_half_edges t vertices instances limit start state depth hs queue dist parent of
         Inl e \<Rightarrow> Inl e
       | Inr (ScanNext queue' dist' parent') \<Rightarrow>
           shortcut_search t adj vertices instances max_length limit start queue' dist' parent'
       | Inr other \<Rightarrow> Inr other))"
  by pat_completeness auto

termination
  by (relation "measure (\<lambda>(t, adj, vertices, instances, max_length, limit, start, queue, dist, parent).
      (limit - length dist) + length queue)") (auto dest!: scan_half_edges_bound)

fun shortcut_from_starts ::
  "framework_topology \<Rightarrow> (nat \<times> half_edge list) list \<Rightarrow> lifted_vertex list \<Rightarrow> (nat \<times> shift) list \<Rightarrow> nat
   \<Rightarrow> nat \<Rightarrow> lifted_vertex list \<Rightarrow> shortcut_witness option result" where
  "shortcut_from_starts t adj vertices instances max_length limit [] = Inr None"
| "shortcut_from_starts t adj vertices instances max_length limit (start # starts) =
     bindE (shortcut_search t adj vertices instances max_length limit start [start] [(start, 0)] [])
       (\<lambda>outcome. case outcome of
          WitnessFound w \<Rightarrow> Inr (Some w)
        | StateLimit \<Rightarrow> Inr None
        | ScanNext _ _ _ \<Rightarrow> shortcut_from_starts t adj vertices instances max_length limit starts)"

definition find_external_shortcut_witness ::
  "framework_topology \<Rightarrow> (nat \<times> half_edge list) list \<Rightarrow> lifted_vertex list \<Rightarrow> ring_step list \<Rightarrow> nat
   \<Rightarrow> nat \<Rightarrow> shortcut_witness option result" where
  "find_external_shortcut_witness t adj vertices steps max_length limit =
     bindE (nthE vertices 0) (\<lambda>first.
     bindE (instances_along t first steps) (\<lambda>instances.
     shortcut_from_starts t adj vertices instances max_length limit vertices))"

section \<open>Testing and accepting candidates\<close>

fun passes_loop ::
  "framework_topology \<Rightarrow> (nat \<times> half_edge list) list \<Rightarrow> lifted_index \<Rightarrow> cycle_candidate
   \<Rightarrow> primitive_ring_options \<Rightarrow> (lifted_vertex_pair \<times> nat \<times> nat) list \<Rightarrow> search_stats
   \<Rightarrow> (bool option \<times> search_stats) result" where
  "passes_loop t adj index candidate options [] s = Inr (Some True, s)"
| "passes_loop t adj index candidate options ((pair, first_arc, second_arc) # pairs) s =
     (let radius = length (candidate_vertex_walk candidate) div 2 in
      if pair \<in> set (certified_shortest_pairs candidate) then
        passes_loop t adj index candidate options pairs s
      else
        bindE (indexed_query_complete_through index (pair_first pair) (radius - 1)) (\<lambda>complete.
        if \<not> complete then
          let m = Fmt ''A primitive no-shortcut query required an incomplete lifted distance layer for pair LiftedVertexPair(first={}, second={}).''
                    [fmt_vertex (pair_first pair), fmt_vertex (pair_second pair)] in
          if strict options then Inl (PrimitiveRingComplexityError m)
          else Inr (None, stats_truncate (length (candidate_vertex_walk candidate)) m s)
        else
          bindE (indexed_distance index (pair_first pair) (pair_second pair)) (\<lambda>found.
          if (case found of None \<Rightarrow> False | Some k \<Rightarrow> k < radius) then
            let rejected = s\<lparr>rejected_nonprimitive := rejected_nonprimitive s + 1\<rparr> in
            if generate_shortcut_witnesses options then
              bindE (find_external_shortcut_witness t adj (candidate_vertex_walk candidate)
                       (candidate_steps candidate) (radius - 1) (max_lifted_states_per_source options))
                (\<lambda>w. Inr (Some False, case w of
                   None \<Rightarrow> rejected
                 | Some w \<Rightarrow> rejected\<lparr>shortcut_witnesses := shortcut_witnesses s @ [w]\<rparr>))
            else Inr (Some False, rejected)
          else passes_loop t adj index candidate options pairs s)))"

definition primitive_candidate_passes ::
  "framework_topology \<Rightarrow> (nat \<times> half_edge list) list \<Rightarrow> lifted_index \<Rightarrow> cycle_candidate
   \<Rightarrow> primitive_ring_options \<Rightarrow> search_stats \<Rightarrow> (bool option \<times> search_stats) result" where
  "primitive_candidate_passes t adj index candidate options s =
     bindE (maximal_half_cycle_pairs (candidate_vertex_walk candidate)) (\<lambda>pairs.
     passes_loop t adj index candidate options pairs s)"

definition canonical_candidate_accumulator ::
  "framework_topology \<Rightarrow> cycle_candidate \<Rightarrow> primitive_ring_options \<Rightarrow> candidate_accumulator result" where
  "canonical_candidate_accumulator t candidate options =
     bindE (validate_candidate_cycle t (candidate_steps candidate) options) (\<lambda>_.
     bindE (canonicalize_steps t (candidate_steps candidate)) (\<lambda>(key, canonical_steps).
     bindE (rebuild_vertex_walk t canonical_steps) (\<lambda>walk.
     bindE (validate_candidate_cycle t canonical_steps options) (\<lambda>_.
     Inr \<lparr>acc_key = key, acc_steps = canonical_steps, acc_vertex_walk = walk, acc_generator_edges = [],
          acc_generator_kinds = [generator_kind candidate], acc_anchor_count = 1\<rparr>))))"

definition add_provenance :: "candidate_accumulator \<Rightarrow> candidate_accumulator \<Rightarrow> candidate_accumulator" where
  "add_provenance existing accumulator =
     existing\<lparr>acc_generator_kinds :=
         fold List.insert (acc_generator_kinds accumulator) (acc_generator_kinds existing),
       acc_anchor_count := acc_anchor_count existing + 1\<rparr>"

definition accept_default_candidate ::
  "framework_topology \<Rightarrow> (nat \<times> half_edge list) list \<Rightarrow> lifted_index \<Rightarrow> primitive_ring_options
   \<Rightarrow> cycle_candidate \<Rightarrow> search_state \<Rightarrow> search_state result" where
  "accept_default_candidate t adj index options candidate st =
     (if stopped (stats st) then Inr st
      else
        let s = (stats st)\<lparr>structural_candidates := structural_candidates (stats st) + 1\<rparr> in
        if structural_candidates s > max_total_candidates options then
          let m = Text ''The global structural-candidate limit was exceeded.'' in
          if strict options then Inl (PrimitiveRingComplexityError m)
          else Inr (st\<lparr>stats := (stats_truncate (length (candidate_steps candidate)) m s)\<lparr>stopped := True\<rparr>\<rparr>)
        else
          bindE (primitive_candidate_passes t adj index candidate options s) (\<lambda>(primitive, s).
          if primitive \<noteq> Some True then Inr (st\<lparr>stats := s\<rparr>)
          else
            bindE (canonical_candidate_accumulator t candidate options) (\<lambda>accumulator.
            case map_of (candidate_map st) (acc_key accumulator) of
              None \<Rightarrow>
                if length (candidate_map st) \<ge> max_total_rings options then
                  let m = Text ''The global primitive-ring limit was exceeded.'' in
                  if strict options then Inl (PrimitiveRingComplexityError m)
                  else Inr (st\<lparr>stats :=
                         (stats_truncate (length (candidate_steps candidate)) m s)\<lparr>stopped := True\<rparr>\<rparr>)
                else Inr (st\<lparr>stats := s,
                       candidate_map := AList.update (acc_key accumulator) accumulator (candidate_map st)\<rparr>)
            | Some existing \<Rightarrow>
                Inr (st\<lparr>stats := s\<lparr>duplicate_candidates := duplicate_candidates s + 1\<rparr>,
                  candidate_map := AList.update (acc_key accumulator) (add_provenance existing accumulator)
                    (candidate_map st)\<rparr>))))"

section \<open>Candidates of even size\<close>

definition count_pair :: "search_state \<Rightarrow> search_state" where
  "count_pair st = st\<lparr>stats := (stats st)\<lparr>path_pair_combinations_considered :=
     path_pair_combinations_considered (stats st) + 1\<rparr>\<rparr>"

definition layer_states :: "source_index \<Rightarrow> nat \<Rightarrow> lifted_vertex list" where
  "layer_states source radius = sort (map fst (filter (\<lambda>(state, d). d = radius) (distance source)))"

definition even_pair ::
  "framework_topology \<Rightarrow> (nat \<times> half_edge list) list \<Rightarrow> lifted_index \<Rightarrow> primitive_ring_options \<Rightarrow> nat
   \<Rightarrow> lifted_vertex \<Rightarrow> ring_step list \<Rightarrow> lifted_vertex list \<Rightarrow> (nat \<times> shift) list \<Rightarrow> ring_step list
   \<Rightarrow> search_state \<Rightarrow> search_state result" where
  "even_pair t adj index options source target left left_vertices left_instances right st0 =
     (let start = source_start source; st = count_pair st0 in
      bindE (path_vertices_from_start t start right) (\<lambda>right_vertices.
      if set (butlast (tl left_vertices)) \<inter> set (butlast (tl right_vertices)) \<noteq> {} then Inr st
      else
        bindE (path_instance_keys t start right) (\<lambda>right_instances.
        if right_instances = [] \<or> set left_instances \<inter> set right_instances \<noteq> {} then Inr st
        else
          let steps = left @ reverse_with step_reversed right in
          case validate_candidate_cycle t steps options of
            Inl (PrimitiveRingSearchError _) \<Rightarrow> Inr st
          | Inl e \<Rightarrow> Inl e
          | Inr vertices \<Rightarrow>
              bindE (make_vertex_pair start target) (\<lambda>pair.
              accept_default_candidate t adj index options
                \<lparr>candidate_steps = steps, candidate_vertex_walk = vertices,
                 certified_shortest_pairs = [pair], generator_kind = ''even_shortest_path_pair'',
                 generator_anchor = (source, atom_index target, vertex_image target)\<rparr> st))))"

fun even_lefts ::
  "framework_topology \<Rightarrow> (nat \<times> half_edge list) list \<Rightarrow> lifted_index \<Rightarrow> primitive_ring_options \<Rightarrow> nat
   \<Rightarrow> lifted_vertex \<Rightarrow> ring_step list list \<Rightarrow> search_state \<Rightarrow> search_state result" where
  "even_lefts t adj index options source target [] st = Inr st"
| "even_lefts t adj index options source target (left # rights) st =
     bindE (path_vertices_from_start t (source_start source) left) (\<lambda>left_vertices.
     bindE (path_instance_keys t (source_start source) left) (\<lambda>left_instances.
     bindE (if left_instances = [] then Inr st
            else foldE (even_pair t adj index options source target left left_vertices left_instances)
                   rights st)
       (even_lefts t adj index options source target rights)))"

definition even_target ::
  "framework_topology \<Rightarrow> (nat \<times> half_edge list) list \<Rightarrow> lifted_index \<Rightarrow> primitive_ring_options \<Rightarrow> nat
   \<Rightarrow> source_index \<Rightarrow> lifted_vertex \<Rightarrow> search_state \<Rightarrow> search_state result" where
  "even_target t adj index options rsize source target st0 =
     (if stopped (stats st0) then Inr st0
      else
        bindE (enumerate_index_paths source target options rsize st0) (\<lambda>(found, st).
        case found of
          None \<Rightarrow> Inr st
        | Some paths \<Rightarrow>
            if length paths < 2 then Inr st
            else
              let s = (stats st)\<lparr>even_anchors_considered := even_anchors_considered (stats st) + 1\<rparr> in
              if length paths * (length paths - 1) div 2 > max_path_pair_combinations_per_anchor options then
                let m = Fmt ''Even anchor {}->{} exceeded the path-pair limit.''
                          [fmt_vertex (source_start (source_atom_index source)), fmt_vertex target] in
                if strict options then Inl (PrimitiveRingComplexityError m)
                else Inr (st\<lparr>stats := stats_truncate rsize m s\<rparr>)
              else even_lefts t adj index options (source_atom_index source) target paths (st\<lparr>stats := s\<rparr>)))"

definition generate_even_candidates ::
  "framework_topology \<Rightarrow> (nat \<times> half_edge list) list \<Rightarrow> lifted_index \<Rightarrow> primitive_ring_options \<Rightarrow> nat
   \<Rightarrow> search_state \<Rightarrow> search_state result" where
  "generate_even_candidates t adj index options rsize =
     foldE (\<lambda>a st.
       if stopped (stats st) then Inr st
       else
         bindE (lookupE (sources index) a) (\<lambda>source.
         if complete_through_depth source < rsize div 2 then Inr st
         else foldE (even_target t adj index options rsize source) (layer_states source (rsize div 2)) st))
       (sort (map fst (sources index)))"

section \<open>Candidates of odd size\<close>

definition odd_pair ::
  "framework_topology \<Rightarrow> (nat \<times> half_edge list) list \<Rightarrow> lifted_index \<Rightarrow> primitive_ring_options \<Rightarrow> nat
   \<Rightarrow> nat \<Rightarrow> lifted_vertex \<Rightarrow> lifted_vertex \<Rightarrow> ring_step \<Rightarrow> ring_step list \<Rightarrow> lifted_vertex list
   \<Rightarrow> (nat \<times> shift) list \<Rightarrow> ring_step list \<Rightarrow> search_state \<Rightarrow> search_state result" where
  "odd_pair t adj index options rsize source left_target right_target closing left left_vertices
     left_instances right st0 =
     (let start = source_start source; st = count_pair st0 in
      bindE (path_vertices_from_start t start right) (\<lambda>right_vertices.
      if set (tl left_vertices) \<inter> set (tl right_vertices) \<noteq> {} then Inr st
      else
        bindE (path_instance_keys t start right) (\<lambda>right_instances.
        if right_instances = [] \<or> set left_instances \<inter> set right_instances \<noteq> {} then Inr st
        else
          bindE (physical_instance_key t left_target closing) (\<lambda>closing_key.
          if closing_key \<in> set left_instances \<or> closing_key \<in> set right_instances then Inr st
          else
            let steps = left @ [closing] @ reverse_with step_reversed right in
            case validate_candidate_cycle t steps options of
              Inl (PrimitiveRingSearchError _) \<Rightarrow> Inr st
            | Inl e \<Rightarrow> Inl e
            | Inr vertices \<Rightarrow>
                bindE (make_vertex_pair start left_target) (\<lambda>pair1.
                bindE (make_vertex_pair start right_target) (\<lambda>pair2.
                bindE (if rsize = 3
                       then bindE (make_vertex_pair left_target right_target) (\<lambda>p. Inr [p])
                       else Inr []) (\<lambda>extra.
                accept_default_candidate t adj index options
                  \<lparr>candidate_steps = steps, candidate_vertex_walk = vertices,
                   certified_shortest_pairs = sorted_set ([pair1, pair2] @ extra),
                   generator_kind = ''odd_shortest_root_paths'',
                   generator_anchor = (source, step_edge closing, snd closing_key)\<rparr> st)))))))"

fun odd_lefts ::
  "framework_topology \<Rightarrow> (nat \<times> half_edge list) list \<Rightarrow> lifted_index \<Rightarrow> primitive_ring_options \<Rightarrow> nat
   \<Rightarrow> nat \<Rightarrow> lifted_vertex \<Rightarrow> lifted_vertex \<Rightarrow> ring_step \<Rightarrow> ring_step list list \<Rightarrow> ring_step list list
   \<Rightarrow> search_state \<Rightarrow> search_state result" where
  "odd_lefts t adj index options rsize source left_target right_target closing rights [] st = Inr st"
| "odd_lefts t adj index options rsize source left_target right_target closing rights (left # lefts) st =
     bindE (path_vertices_from_start t (source_start source) left) (\<lambda>left_vertices.
     bindE (path_instance_keys t (source_start source) left) (\<lambda>left_instances.
     bindE (if left_instances = [] then Inr st
            else foldE (odd_pair t adj index options rsize source left_target right_target closing left
                          left_vertices left_instances) rights st)
       (odd_lefts t adj index options rsize source left_target right_target closing rights lefts)))"

definition odd_half_edge ::
  "framework_topology \<Rightarrow> (nat \<times> half_edge list) list \<Rightarrow> lifted_index \<Rightarrow> primitive_ring_options \<Rightarrow> nat
   \<Rightarrow> source_index \<Rightarrow> lifted_vertex list \<Rightarrow> lifted_vertex \<Rightarrow> half_edge \<Rightarrow> search_state
   \<Rightarrow> search_state result" where
  "odd_half_edge t adj index options rsize source layer left_target h st0 =
     (let right_target = half_edge_target left_target h in
      if right_target \<notin> set layer \<or> \<not> left_target < right_target then Inr st0
      else
        let st1 = st0\<lparr>stats := (stats st0)\<lparr>odd_anchors_considered := odd_anchors_considered (stats st0) + 1\<rparr>\<rparr> in
        bindE (enumerate_index_paths source left_target options rsize st1) (\<lambda>(lefts, st2).
        bindE (enumerate_index_paths source right_target options rsize st2) (\<lambda>(rights, st3).
        case (lefts, rights) of
          (Some left_paths, Some right_paths) \<Rightarrow>
            if length left_paths * length right_paths > max_path_pair_combinations_per_anchor options then
              let m = Fmt ''Odd anchor {}; {}-{} exceeded the path-pair limit.''
                        [fmt_vertex (source_start (source_atom_index source)), fmt_vertex left_target,
                         fmt_vertex right_target] in
              if strict options then Inl (PrimitiveRingComplexityError m)
              else Inr (st3\<lparr>stats := stats_truncate rsize m (stats st3)\<rparr>)
            else odd_lefts t adj index options rsize (source_atom_index source) left_target right_target
                   (PrimitiveRingStep (half_edge_index h) (half_orientation h)) right_paths left_paths st3
        | _ \<Rightarrow> Inr st3)))"

definition odd_target ::
  "framework_topology \<Rightarrow> (nat \<times> half_edge list) list \<Rightarrow> lifted_index \<Rightarrow> primitive_ring_options \<Rightarrow> nat
   \<Rightarrow> source_index \<Rightarrow> lifted_vertex list \<Rightarrow> lifted_vertex \<Rightarrow> search_state \<Rightarrow> search_state result" where
  "odd_target t adj index options rsize source layer left_target st =
     (if stopped (stats st) then Inr st
      else
        bindE (lookupE adj (atom_index left_target)) (\<lambda>hs.
        foldE (odd_half_edge t adj index options rsize source layer left_target) hs st))"

definition generate_odd_candidates ::
  "framework_topology \<Rightarrow> (nat \<times> half_edge list) list \<Rightarrow> lifted_index \<Rightarrow> primitive_ring_options \<Rightarrow> nat
   \<Rightarrow> search_state \<Rightarrow> search_state result" where
  "generate_odd_candidates t adj index options rsize =
     foldE (\<lambda>a st.
       if stopped (stats st) then Inr st
       else
         bindE (lookupE (sources index) a) (\<lambda>source.
         if complete_through_depth source < rsize div 2 then Inr st
         else
           let layer = layer_states source (rsize div 2) in
           foldE (odd_target t adj index options rsize source layer) layer st))
       (sort (map fst (sources index)))"

section \<open>The search\<close>

record search_outcome =
  searched_index :: lifted_index
  final_state :: search_state
  complete_through :: nat
  search_truncated :: bool

definition generate_candidates ::
  "framework_topology \<Rightarrow> (nat \<times> half_edge list) list \<Rightarrow> lifted_index \<Rightarrow> primitive_ring_options \<Rightarrow> nat
   \<Rightarrow> search_state \<Rightarrow> search_state result" where
  "generate_candidates t adj index options rsize st =
     (if stopped (stats st) then Inr st
      else if rsize = 1 then Inr st
      else if rsize mod 2 = 0 then generate_even_candidates t adj index options rsize st
      else generate_odd_candidates t adj index options rsize st)"

definition minimum_complete_depth :: "lifted_index \<Rightarrow> nat result" where
  "minimum_complete_depth index =
     (if sources index = [] then Inl (ValueError (Text ''min() iterable argument is empty''))
      else Inr (min_list (map (complete_through_depth \<circ> snd) (sources index))))"

definition search_primitives ::
  "framework_topology \<Rightarrow> primitive_ring_options \<Rightarrow> search_outcome result" where
  "search_primitives t options =
     bindE (half_edge_adjacency t) (\<lambda>adj.
     bindE (build_lifted_index t adj options) (\<lambda>index.
     bindE (minimum_complete_depth index) (\<lambda>depth.
     let through = min (max_ring_size options) (2 * depth + 1);
         s = (if depth < lifted_maximum_depth index
              then stats_truncate (through + 1)
                (Text ''At least one lifted source index was truncated before the requested depth.'') initial_stats
              else initial_stats) in
     bindE (foldE (generate_candidates t adj index options)
              [min_ring_size options..<max_ring_size options + 1]
              \<lparr>stats = s, paths_known = [], candidate_map = []\<rparr>) (\<lambda>st.
     let limited = (case first_incomplete_ring_size (stats st) of
                      None \<Rightarrow> through | Some n \<Rightarrow> min through (n - 1));
         cut = (\<exists>source \<in> set (map snd (sources index)). truncated source)
           \<or> first_incomplete_ring_size (stats st) \<noteq> None \<or> stopped (stats st)
     in Inr \<lparr>searched_index = index, final_state = st,
          complete_through = (if cut then limited else max_ring_size options),
          search_truncated = cut\<rparr>))))"

end
