(* ===== verification/Ring_Metric.thy ===== *)
theory Ring_Metric
  imports Lifted_Search
begin

text \<open>
  Distances in the lifted framework graph: steps can be undone, so exact distances are symmetric,
  satisfy the triangle inequality and do not depend on the lattice translation; a cycle whose
  antipodal pairs have no shortcut has no shortcut between any two of its vertices.  This is what
  makes the half-arc test of \<open>_primitive_candidate_passes\<close> sufficient.
\<close>

section \<open>Graphs whose steps can be undone\<close>

lemma index_mod_less: "i < length vs \<Longrightarrow> k mod length vs < length vs"
  by (rule mod_less_divisor) linarith

locale undirected_walks =
  fixes dest :: "'v \<Rightarrow> 's \<Rightarrow> 'v option" and undo :: "'s \<Rightarrow> 's"
  assumes step_back: "dest v s = Some w \<Longrightarrow> dest w (undo s) = Some v"
begin

lemma walk_reverse: "walk dest v ss w \<Longrightarrow> walk dest w (map undo (rev ss)) v"
  by (induction ss arbitrary: v) (auto simp: walk_append dest: step_back)

lemma distance_sym: "exact_distance dest v w n \<Longrightarrow> exact_distance dest w v n"
proof -
  assume d: "exact_distance dest v w n"
  then obtain ss where "walk dest v ss w" "length ss = n" by (auto simp: exact_distance_def)
  then have "walk dest w (map undo (rev ss)) v" "length (map undo (rev ss)) = n"
    using walk_reverse by auto
  moreover have "n \<le> length ss" if "walk dest w ss v" for ss
    using walk_reverse[OF that] d by (auto simp: exact_distance_def dest: spec[of _ "map undo (rev ss)"])
  ultimately show ?thesis unfolding exact_distance_def by blast
qed

lemma distance_triangle:
  assumes "exact_distance dest u v a" and "exact_distance dest v w b" and "exact_distance dest u w c"
  shows "c \<le> a + b"
proof -
  from assms(1,2) obtain xs ys where "walk dest u xs v" "length xs = a" "walk dest v ys w" "length ys = b"
    by (auto simp: exact_distance_def)
  then have "walk dest u (xs @ ys) w" "length (xs @ ys) = a + b" by (auto simp: walk_append)
  with assms(3) show ?thesis unfolding exact_distance_def by metis
qed

text \<open>A closed walk visits \<open>vs\<close> in order; indices are read modulo its length.\<close>

definition cyclic_walk :: "'v list \<Rightarrow> bool" where
  "cyclic_walk vs \<longleftrightarrow> vs \<noteq> [] \<and> (\<forall>i < length vs. \<exists>s. dest (vs ! i) s = Some (vs ! (Suc i mod length vs)))"

definition isometric :: "'v list \<Rightarrow> bool" where
  "isometric vs \<longleftrightarrow> (\<forall>i < length vs. \<forall>c \<le> length vs div 2.
     exact_distance dest (vs ! i) (vs ! ((i + c) mod length vs)) c)"

lemma arc_walk:
  assumes "cyclic_walk vs" and "i < length vs"
  shows "\<exists>ss. walk dest (vs ! i) ss (vs ! ((i + m) mod length vs)) \<and> length ss = m"
proof (induction m)
  case 0
  then show ?case using assms(2) by simp
next
  case (Suc m)
  then obtain ss where ss: "walk dest (vs ! i) ss (vs ! ((i + m) mod length vs))" "length ss = m" by blast
  have "(i + m) mod length vs < length vs" using assms(2) by (rule index_mod_less)
  with assms(1) obtain s where "dest (vs ! ((i + m) mod length vs)) s = Some (vs ! (Suc ((i + m) mod length vs) mod length vs))"
    unfolding cyclic_walk_def by blast
  then have "dest (vs ! ((i + m) mod length vs)) s = Some (vs ! ((i + Suc m) mod length vs))"
    by (simp add: mod_Suc_eq)
  with ss have "walk dest (vs ! i) (ss @ [s]) (vs ! ((i + Suc m) mod length vs))"
    by (auto simp: walk_append)
  with ss(2) show ?case by (metis length_append_singleton)
qed

lemma arc_distance:
  assumes "cyclic_walk vs" and "i < length vs"
  shows "\<exists>d \<le> m. exact_distance dest (vs ! i) (vs ! ((i + m) mod length vs)) d"
  using arc_walk[OF assms, of m] exact_distance_exists by metis

text \<open>The half-arc reduction: antipodal pairs decide.\<close>

lemma half_arc_reduction:
  assumes cyc: "cyclic_walk vs" and r: "r = length vs div 2"
    and anti: "\<And>i d. i < length vs \<Longrightarrow> exact_distance dest (vs ! i) (vs ! ((i + r) mod length vs)) d \<Longrightarrow> r \<le> d"
  shows "isometric vs"
  unfolding isometric_def
proof (intro allI impI)
  fix i c assume i: "i < length vs" and c: "c \<le> length vs div 2"
  let ?j = "(i + c) mod length vs"
  have j: "?j < length vs" using i by (rule index_mod_less)
  have far: "(?j + (r - c)) mod length vs = (i + r) mod length vs"
  proof -
    have "i + c + (r - c) = i + r" using c r by simp
    then show ?thesis by (simp only: mod_add_left_eq)
  qed
  obtain d where d: "d \<le> c" "exact_distance dest (vs ! i) (vs ! ?j) d" using arc_distance[OF cyc i] by blast
  obtain e where e: "e \<le> r - c" "exact_distance dest (vs ! ?j) (vs ! ((i + r) mod length vs)) e"
    using arc_distance[OF cyc j, of "r - c"] unfolding far by blast
  obtain f where f: "exact_distance dest (vs ! i) (vs ! ((i + r) mod length vs)) f"
    using arc_distance[OF cyc i] by blast
  have "r \<le> f" by (rule anti[OF i f])
  moreover have "f \<le> d + e" by (rule distance_triangle[OF d(2) e(2) f])
  ultimately have "d = c" using d(1) e(1) c r by linarith
  with d(2) show "exact_distance dest (vs ! i) (vs ! ?j) c" by simp
qed

lemma isometric_antipodal:
  assumes "isometric vs" and "i < length vs"
  shows "exact_distance dest (vs ! i) (vs ! ((i + length vs div 2) mod length vs)) (length vs div 2)"
  using assms by (simp add: isometric_def)

lemma isometric_pair:
  assumes "isometric vs" and "i < length vs" and "j < length vs"
  shows "exact_distance dest (vs ! i) (vs ! j)
    (min ((j + length vs - i) mod length vs) ((i + length vs - j) mod length vs))"
proof -
  let ?n = "length vs"
  have one: "exact_distance dest (vs ! a) (vs ! b) ((b + ?n - a) mod ?n)"
    if "a < ?n" "b < ?n" "(b + ?n - a) mod ?n \<le> ?n div 2" for a b
  proof -
    have "(a + (b + ?n - a) mod ?n) mod ?n = (a + (b + ?n - a)) mod ?n" by (simp add: mod_add_right_eq)
    also have "\<dots> = b" using that by simp
    finally show ?thesis using assms(1) that unfolding isometric_def by metis
  qed
  have "(j + ?n - i) mod ?n + (i + ?n - j) mod ?n \<in> {0, ?n}"
  proof (cases i j rule: linorder_cases)
    case less
    then have "j + ?n - i = ?n + (j - i)" "j - i < ?n" "i + ?n - j = ?n - (j - i)" "?n - (j - i) < ?n"
      using assms by simp_all
    then have "(j + ?n - i) mod ?n = j - i" "(i + ?n - j) mod ?n = ?n - (j - i)"
      by (simp_all only: mod_add_self1 mod_less)
    then show ?thesis using \<open>j - i < ?n\<close> by simp
  next
    case greater
    then have "i + ?n - j = ?n + (i - j)" "i - j < ?n" "j + ?n - i = ?n - (i - j)" "?n - (i - j) < ?n"
      using assms by simp_all
    then have "(i + ?n - j) mod ?n = i - j" "(j + ?n - i) mod ?n = ?n - (i - j)"
      by (simp_all only: mod_add_self1 mod_less)
    then show ?thesis using \<open>i - j < ?n\<close> by simp
  qed simp
  then consider "(j + ?n - i) mod ?n \<le> (i + ?n - j) mod ?n" "(j + ?n - i) mod ?n \<le> ?n div 2"
    | "(i + ?n - j) mod ?n \<le> (j + ?n - i) mod ?n" "(i + ?n - j) mod ?n \<le> ?n div 2"
    by fastforce
  then show ?thesis
  proof cases
    case 1
    with one[OF assms(2,3)] show ?thesis by (simp add: min_def)
  next
    case 2
    with distance_sym[OF one[OF assms(3,2)]] show ?thesis by (simp add: min_absorb2)
  qed
qed

lemma isometric_rotate:
  assumes "isometric vs"
  shows "isometric (rotate k vs)"
proof -
  have "exact_distance dest (rotate k vs ! i) (rotate k vs ! ((i + c) mod length vs)) c"
    if "i < length vs" "c \<le> length vs div 2" for i c
  proof -
    have "(i + c) mod length vs < length vs" using that(1) by (rule index_mod_less)
    moreover have "(k + (i + c) mod length vs) mod length vs = ((k + i) mod length vs + c) mod length vs"
      by (simp add: mod_simps ac_simps)
    ultimately show ?thesis
      using assms that index_mod_less[OF that(1), of "k + i"] unfolding isometric_def by (simp add: nth_rotate)
  qed
  then show ?thesis by (simp add: isometric_def)
qed

lemma isometric_rev:
  assumes "isometric vs"
  shows "isometric (rev vs)"
proof -
  let ?n = "length vs"
  have "exact_distance dest (rev vs ! i) (rev vs ! ((i + c) mod ?n)) c" if i: "i < ?n" and c: "c \<le> ?n div 2" for i c
  proof -
    let ?b = "?n - Suc ((i + c) mod ?n)"
    have b: "?b < ?n" "(i + c) mod ?n < ?n" using i index_mod_less[OF i] by simp_all
    have "(?b + c) mod ?n = ?n - Suc i"
    proof (cases "i + c < ?n")
      case True
      then have "?b + c = ?n - Suc i" using i by simp
      then show ?thesis using i by simp
    next
      case False
      then have "i + c = ?n + (i + c - ?n)" "i + c - ?n < ?n" using i c by simp_all
      then have m: "(i + c) mod ?n = i + c - ?n" by (metis mod_add_self1 mod_less)
      then have "?b + c = ?n + (?n - Suc i)" using False i c by simp
      moreover have "?n - Suc i < ?n" using i by simp
      ultimately show ?thesis by (simp only: mod_add_self1 mod_less)
    qed
    then have "exact_distance dest (vs ! ?b) (vs ! (?n - Suc i)) c"
      using assms b(1) c unfolding isometric_def by metis
    from distance_sym[OF this] show ?thesis
      unfolding rev_nth[OF i] rev_nth[OF b(2)] by simp
  qed
  then show ?thesis by (simp add: isometric_def)
qed

end

text \<open>Framework steps can be undone: the reversed step walks back.\<close>

lemma lifted_step_back: "lifted_dest t v s = Some w \<Longrightarrow> lifted_dest t w (step_reversed s) = Some v"
  by (simp add: lifted_dest_iff step_destination_reversed)

interpretation lifted: undirected_walks "lifted_dest t" step_reversed for t
  by unfold_locales (rule lifted_step_back)

section \<open>Translation\<close>

lemma lifted_dest_translate: "lifted_dest t v s = Some w \<Longrightarrow> lifted_dest t (translate d v) s = Some (translate d w)"
  by (simp add: lifted_dest_iff step_destination_translate)

lemma walk_translate: "walk (lifted_dest t) v ss w \<Longrightarrow> walk (lifted_dest t) (translate d v) ss (translate d w)"
  by (induction ss arbitrary: v) (auto dest: lifted_dest_translate)

lemma walk_translate_iff: "walk (lifted_dest t) (translate d v) ss (translate d w) \<longleftrightarrow> walk (lifted_dest t) v ss w"
  using walk_translate[of t "translate d v" ss "translate d w" "negate_shift d"]
    walk_translate[of t v ss w d] by auto

lemma exact_distance_translate:
  "exact_distance (lifted_dest t) (translate d v) (translate d w) n \<longleftrightarrow> exact_distance (lifted_dest t) v w n"
  by (simp add: exact_distance_def walk_translate_iff)

lemma translate_to_start:
  "translate (negate_shift (vertex_image v)) v = source_start (atom_index v)"
  "translate (negate_shift (vertex_image v)) w = relative_target v w"
  by (cases v; cases w; simp add: translate_def source_start_def relative_target_def subtract_shift_conv)+

lemma distance_relative:
  "exact_distance (lifted_dest t) (source_start (atom_index v)) (relative_target v w) n
    \<longleftrightarrow> exact_distance (lifted_dest t) v w n"
  using exact_distance_translate[of t "negate_shift (vertex_image v)" v w n] by (simp add: translate_to_start)

section \<open>Primitive cycles\<close>

text \<open>
  The abstract notion the search implements: a closed lifted-simple cycle in which the distance of
  any two vertices in the lifted graph is their distance along the cycle.
\<close>

definition cyclic_distance :: "nat \<Rightarrow> nat \<Rightarrow> nat \<Rightarrow> nat" where
  "cyclic_distance n i j = min ((j + n - i) mod n) ((i + n - j) mod n)"

definition shortcut_free :: "framework_topology \<Rightarrow> lifted_vertex list \<Rightarrow> bool" where
  "shortcut_free t vs \<longleftrightarrow> (\<forall>i < length vs. \<forall>j < length vs.
     exact_distance (lifted_dest t) (vs ! i) (vs ! j) (cyclic_distance (length vs) i j))"

definition primitive_cycle :: "framework_topology \<Rightarrow> ring_step list \<Rightarrow> bool" where
  "primitive_cycle t steps \<longleftrightarrow> (\<exists>v vs keys. closed_cycle t v steps vs keys \<and> shortcut_free t vs)"

lemma cyclic_distance_arc:
  assumes "i < n" and "c \<le> n div 2"
  shows "cyclic_distance n i ((i + c) mod n) = c"
proof (cases "i + c < n")
  case True
  show ?thesis
  proof (cases "c = 0")
    case False
    then have eq: "i + c + n - i = n + c" "i + n - (i + c) = n - c" using True by simp_all
    have lt: "c < n" "n - c < n" using True False assms by simp_all
    have "cyclic_distance n i (i + c) = min c (n - c)"
      unfolding cyclic_distance_def eq using lt by (simp only: mod_add_self1 mod_less)
    then show ?thesis using True assms by (simp add: min_def)
  qed (use assms in \<open>simp add: cyclic_distance_def\<close>)
next
  case False
  then have eq: "i + c = n + (i + c - n)" "i + c - n < n" using assms by simp_all
  then have m: "(i + c) mod n = i + c - n" by (metis mod_add_self1 mod_less)
  have "i + c - n + n - i = c" "i + n - (i + c - n) = n + (n - c)" "c < n" using False assms by simp_all
  moreover have "n - c < n" using False assms by simp
  ultimately have "cyclic_distance n i (i + c - n) = min c (n - c)"
    unfolding cyclic_distance_def by (simp only: mod_add_self1 mod_less)
  then show ?thesis using m assms by (simp add: min_def)
qed

lemma shortcut_free_isometric: "shortcut_free t vs \<longleftrightarrow> lifted.isometric t vs"
proof
  assume "shortcut_free t vs"
  then show "lifted.isometric t vs"
    unfolding lifted.isometric_def shortcut_free_def
    by (metis cyclic_distance_arc index_mod_less)
next
  assume "lifted.isometric t vs"
  then show "shortcut_free t vs"
    unfolding shortcut_free_def cyclic_distance_def using lifted.isometric_pair by blast
qed

lemma shortcut_free_translate: "shortcut_free t vs \<Longrightarrow> shortcut_free t (map (translate d) vs)"
  by (simp add: shortcut_free_def exact_distance_translate)

lemma rotate1_iff_isometric: "lifted.isometric t (rotate1 vs) \<longleftrightarrow> lifted.isometric t vs"
proof
  assume "lifted.isometric t (rotate1 vs)"
  moreover have "rotate (length vs - 1) (rotate1 vs) = vs"
    by (cases vs) (simp_all add: rotate_append)
  ultimately show "lifted.isometric t vs" using lifted.isometric_rotate by metis
next
  assume "lifted.isometric t vs"
  from lifted.isometric_rotate[OF this, of 1] show "lifted.isometric t (rotate1 vs)" by simp
qed

lemma primitive_cycle_orbit:
  assumes "primitive_cycle t steps" and "steps' \<in> steps.orbit steps"
  shows "primitive_cycle t steps'"
proof -
  from assms(1) obtain v vs keys where cycle: "closed_cycle t v steps vs keys" and iso: "lifted.isometric t vs"
    by (auto simp: primitive_cycle_def shortcut_free_isometric)
  from assms(2) consider k where "steps' = rotate k steps"
    | k where "steps' = rotate k (reverse_with step_reversed steps)"
    unfolding steps.orbit_def by blast
  then show ?thesis
  proof cases
    case 1
    with closed_cycle_rotate[OF cycle] lifted.isometric_rotate[OF iso] show ?thesis
      unfolding primitive_cycle_def shortcut_free_isometric by blast
  next
    case 2
    from closed_cycle_vertices[OF cycle] obtain us where "vs = v # us" by (cases vs) auto
    then have "rotate1 (v # rev (tl vs)) = rev vs" by simp
    then have "lifted.isometric t (v # rev (tl vs))"
      using lifted.isometric_rev[OF iso] rotate1_iff_isometric by metis
    with closed_cycle_rotate[OF closed_cycle_reverse[OF cycle]] lifted.isometric_rotate 2 show ?thesis
      unfolding primitive_cycle_def shortcut_free_isometric by blast
  qed
qed

lemma primitive_cycle_orbit_iff:
  "steps' \<in> steps.orbit steps \<Longrightarrow> primitive_cycle t steps' \<longleftrightarrow> primitive_cycle t steps"
  using primitive_cycle_orbit steps.orbit_sym by blast

lemma primitive_is_cycle: "primitive_cycle t steps \<Longrightarrow> is_cycle t steps"
  by (auto simp: primitive_cycle_def is_cycle_def)

text \<open>The vertices of a cycle determine each other up to translation.\<close>

lemma path_vertices_start_translate:
  assumes "path_vertices_from_start t v steps = Inr vs" and "path_vertices_from_start t w steps = Inr ws"
    and "steps \<noteq> []"
  shows "\<exists>d. w = translate d v \<and> ws = map (translate d) vs"
proof -
  have "first_vertex t steps = Inr (LiftedVertexRef (atom_index v) zero_shift)"
    "first_vertex t steps = Inr (LiftedVertexRef (atom_index w) zero_shift)"
    using path_first_vertex assms by blast+
  then have "atom_index v = atom_index w" by simp
  then have w: "w = translate (subtract_shift (vertex_image w) (vertex_image v)) v"
    by (cases v; cases w; cases "vertex_image v"; cases "vertex_image w") (simp add: translate_def)
  from path_vertices_translate[OF assms(1), of "subtract_shift (vertex_image w) (vertex_image v)"] assms(2) w
  show ?thesis by (metis sum.inject(2))
qed

lemma primitive_cycle_vertices:
  assumes "closed_cycle t v steps vs keys"
  shows "primitive_cycle t steps \<longleftrightarrow> shortcut_free t vs"
proof
  assume "primitive_cycle t steps"
  then obtain w ws keys' where w: "closed_cycle t w steps ws keys'" "shortcut_free t ws"
    by (auto simp: primitive_cycle_def)
  then obtain d where "v = translate d w" "vs @ [v] = map (translate d) (ws @ [w])"
    using path_vertices_start_translate[of t w steps "ws @ [w]" v "vs @ [v]"] assms
    by (auto simp: closed_cycle_def)
  then have "vs = map (translate d) ws" by simp
  with w(2) shortcut_free_translate show "shortcut_free t vs" by blast
qed (use assms in \<open>auto simp: primitive_cycle_def\<close>)

lemma closed_cycle_cyclic_walk:
  assumes "closed_cycle t v steps vs keys"
  shows "lifted.cyclic_walk t vs"
proof -
  have "\<exists>s. lifted_dest t (ws ! i) s = Some (ws ! Suc i)"
    if "path_vertices_from_start t u ss = Inr ws" "i < length ss" for u ss ws i
    using that
  proof (induction ss arbitrary: u ws i)
    case (Cons s ss)
    then obtain w ws' where w: "step_destination t u s = Inr w" "path_vertices_from_start t w ss = Inr ws'"
      "ws = u # ws'" by (auto simp: bindE_Inr_iff)
    moreover have "ws' \<noteq> []" "hd ws' = w" using path_vertices_ends[OF w(2)] by auto
    ultimately show ?case
      using Cons.IH[OF w(2)] Cons.prems(2) by (cases i) (auto simp: lifted_dest_iff hd_conv_nth)
  qed simp
  note steps = this[of v steps "vs @ [v]"]
  note facts = closed_cycle_vertices[OF assms]
  have "(vs @ [v]) ! Suc i = vs ! (Suc i mod length vs)" if "i < length vs" for i
  proof (cases "Suc i = length vs")
    case True
    then show ?thesis using facts by (simp add: nth_append flip: hd_conv_nth)
  next
    case False
    then show ?thesis using that by (simp add: nth_append)
  qed
  then show ?thesis
    using steps assms facts unfolding lifted.cyclic_walk_def closed_cycle_def
    by (metis nth_append)
qed

text \<open>What the half-cycle test decides.\<close>

lemma shortcut_free_antipodal:
  assumes "closed_cycle t v steps vs keys"
  shows "shortcut_free t vs \<longleftrightarrow> (\<forall>i < length vs. \<forall>d.
    exact_distance (lifted_dest t) (vs ! i) (vs ! ((i + length vs div 2) mod length vs)) d
      \<longrightarrow> length vs div 2 \<le> d)"
  unfolding shortcut_free_isometric
  using lifted.half_arc_reduction[OF closed_cycle_cyclic_walk[OF assms] refl]
    lifted.isometric_antipodal exact_distance_unique by (metis order_refl)

end
