(* ===== verification/Ring_Shortcut.thy ===== *)
theory Ring_Shortcut
  imports Ring_Search Ring_Metric
begin

text \<open>
  The external shortcut witness (\<open>_find_external_shortcut_witness\<close>): the search never fails on a
  closed cycle, and a witness it returns is a walk outside the cycle that is shorter than both arcs
  between its end points.
\<close>

section \<open>External walks\<close>

definition external_walk ::
  "framework_topology \<Rightarrow> lifted_vertex list \<Rightarrow> (nat \<times> shift) list \<Rightarrow> lifted_vertex \<Rightarrow> ring_step list
   \<Rightarrow> lifted_vertex list \<Rightarrow> bool" where
  "external_walk t vs instances start steps verts \<longleftrightarrow>
     path_vertices_from_start t start steps = Inr verts \<and> set (butlast (tl verts)) \<inter> set vs = {} \<and>
     (\<exists>ks. instances_along t start steps = Inr ks \<and> set ks \<inter> set instances = {})"

text \<open>
  A witness names two cycle vertices, the two arcs between them (the first arc leads along the cycle from one
  of the two to the other, the second is the rest of the cycle) and a walk outside the cycle, shorter than both.
\<close>

definition arcs_between :: "lifted_vertex list \<Rightarrow> lifted_vertex \<Rightarrow> lifted_vertex \<Rightarrow> nat \<Rightarrow> nat \<Rightarrow> bool" where
  "arcs_between vs u w a b \<longleftrightarrow> a + b = length vs \<and>
     (\<exists>i < length vs. {vs ! i, vs ! ((i + a) mod length vs)} = {u, w})"

definition external_shortcut ::
  "framework_topology \<Rightarrow> lifted_vertex list \<Rightarrow> (nat \<times> shift) list \<Rightarrow> shortcut_witness \<Rightarrow> bool" where
  "external_shortcut t vs instances w \<longleftrightarrow>
     (let first = pair_first (endpoint_pair w); second = pair_second (endpoint_pair w) in
      first \<in> set vs \<and> second \<in> set vs \<and> first \<noteq> second \<and>
      external_walk t vs instances first (shortcut_steps w) (shortcut_vertices w) \<and>
      last (shortcut_vertices w) = second \<and> length (shortcut_steps w) = shortcut_length w \<and>
      shortcut_length w < min (first_cycle_arc_length w) (second_cycle_arc_length w) \<and>
      arcs_between vs first second (first_cycle_arc_length w) (second_cycle_arc_length w))"

lemma external_walk_reverse:
  assumes "external_walk t vs instances start steps verts"
  shows "external_walk t vs instances (last verts) (reverse_with step_reversed steps) (rev verts)"
proof -
  from assms obtain ks where "path_vertices_from_start t start steps = Inr verts"
    "instances_along t start steps = Inr ks" "set ks \<inter> set instances = {}"
    "set (butlast (tl verts)) \<inter> set vs = {}" by (auto simp: external_walk_def)
  moreover have "set (butlast (tl (rev verts))) = set (butlast (tl verts))"
  proof -
    have "tl (rev verts) = rev (butlast verts)" using butlast_rev[of "rev verts"] by simp
    then have "butlast (tl (rev verts)) = rev (butlast (tl verts))" by (simp add: butlast_rev butlast_tl)
    then show ?thesis by simp
  qed
  ultimately show ?thesis
    using path_vertices_reverse[of t start steps verts] instances_reverse[of t start steps verts ks]
    by (simp add: external_walk_def)
qed

section \<open>The invariant of one search\<close>

definition shortcut_inv ::
  "framework_topology \<Rightarrow> lifted_vertex list \<Rightarrow> (nat \<times> shift) list \<Rightarrow> lifted_vertex \<Rightarrow> lifted_vertex list
   \<Rightarrow> (lifted_vertex \<times> nat) list \<Rightarrow> (lifted_vertex \<times> lifted_vertex \<times> ring_step) list \<Rightarrow> bool" where
  "shortcut_inv t vs instances start queue dist parent \<longleftrightarrow>
     map_of dist start = Some 0 \<and> set queue \<subseteq> fst ` set dist \<and>
     (\<forall>v k. map_of dist v = Some k \<longrightarrow> k \<le> length parent \<and> atom_index v \<in> set (vertex_atoms t) \<and>
        (v = start \<or> v \<notin> set vs)) \<and>
     (\<forall>v k. map_of dist v = Some k \<longrightarrow> v \<noteq> start \<longrightarrow> (\<exists>p s j key. map_of parent v = Some (p, s) \<and>
        k = Suc j \<and> map_of dist p = Some j \<and> step_destination t p s = Inr v \<and>
        physical_instance_key t p s = Inr key \<and> key \<notin> set instances)) \<and>
     fst ` set parent \<subseteq> fst ` set dist"

lemma in_keys_iff: "v \<in> fst ` set d \<longleftrightarrow> (\<exists>k. map_of d v = Some k)"
  by (metis domD domI dom_map_of_conv_image_fst)

lemma parent_chain_correct:
  assumes inv: "shortcut_inv t vs instances start queue dist parent"
    and "map_of dist v = Some k" and "k < n"
  shows "\<exists>steps verts ks. parent_chain parent start n v = Inr (steps, verts) \<and> length steps = k
    \<and> path_vertices_from_start t start steps = Inr verts \<and> last verts = v \<and> set (tl verts) \<inter> set vs = {}
    \<and> instances_along t start steps = Inr ks \<and> set ks \<inter> set instances = {}"
  using assms(2,3)
proof (induction k arbitrary: v n)
  case 0
  have "v = start"
    using inv 0(1) unfolding shortcut_inv_def by (metis nat.distinct(1))
  with 0 show ?case by (cases n) simp_all
next
  case (Suc k)
  have start0: "map_of dist start = Some 0" using inv by (simp add: shortcut_inv_def)
  then have "v \<noteq> start" using Suc.prems(1) by auto
  then obtain p s key where v: "map_of parent v = Some (p, s)" "map_of dist p = Some k"
    "step_destination t p s = Inr v" "physical_instance_key t p s = Inr key" "key \<notin> set instances"
    using inv Suc.prems(1) unfolding shortcut_inv_def by (metis nat.inject)
  have "v \<notin> set vs" using inv Suc.prems(1) \<open>v \<noteq> start\<close> unfolding shortcut_inv_def by metis
  obtain m where n: "n = Suc m" "k < m" using Suc.prems by (cases n) auto
  from Suc.IH[OF v(2) n(2)] obtain steps verts ks where
    p: "parent_chain parent start m p = Inr (steps, verts)" "length steps = k"
      "path_vertices_from_start t start steps = Inr verts" "last verts = p" "set (tl verts) \<inter> set vs = {}"
      "instances_along t start steps = Inr ks" "set ks \<inter> set instances = {}" by blast
  have "parent_chain parent start n v = Inr (steps @ [s], verts @ [v])"
    using n v(1) p(1) \<open>v \<noteq> start\<close> by (simp add: lookupE_def)
  moreover have "path_vertices_from_start t start (steps @ [s]) = Inr (verts @ [v])"
    unfolding path_vertices_append using p(3,4) v(3) by auto
  moreover have "instances_along t start (steps @ [s]) = Inr (ks @ [key])"
    using instances_append[OF p(3,6), of "[s]" "[key]"] p(4) v(3,4) by simp
  moreover have "set (tl (verts @ [v])) \<inter> set vs = {}"
    using path_vertices_ends[OF p(3)] p(5) \<open>v \<notin> set vs\<close> by simp
  ultimately show ?case using p(2,7) v(5) by (intro exI[of _ "steps @ [s]"] exI[of _ "verts @ [v]"] exI[of _ "ks @ [key]"]) simp
qed

lemma position_of_correct:
  assumes "v \<in> set vs"
  shows "\<exists>i < length vs. position_of vs v = Inr i \<and> vs ! i = v"
proof -
  have "v \<in> fst ` set (rev (zip vs [0..<length vs]))"
    using assms by (simp only: set_rev set_map[symmetric] map_fst_zip length_upt)
  then obtain i where i: "map_of (rev (zip vs [0..<length vs])) v = Some i" unfolding in_keys_iff by blast
  then have "(v, i) \<in> set (zip vs [0..<length vs])" by (auto dest: map_of_SomeD)
  then have "i < length vs" "vs ! i = v" by (auto simp: in_set_zip)
  with i show ?thesis by (auto simp: position_of_def lookupE_def)
qed

lemma forward_arc:
  assumes "i < n" and "j < n" and "i \<noteq> j"
  shows "0 < nat ((int j - int i) mod int n)" and "nat ((int j - int i) mod int n) < n"
    and "(i + nat ((int j - int i) mod int n)) mod n = j"
proof -
  have "(int j - int i) mod int n \<noteq> 0"
  proof
    assume "(int j - int i) mod int n = 0"
    then have "int j mod int n = int i mod int n" by (simp add: mod_eq_dvd_iff dvd_eq_mod_eq_0)
    with assms show False by simp
  qed
  moreover have "0 \<le> (int j - int i) mod int n" "(int j - int i) mod int n < int n" using assms by simp_all
  ultimately show "0 < nat ((int j - int i) mod int n)" and "nat ((int j - int i) mod int n) < n" by linarith+
  have "int ((i + nat ((int j - int i) mod int n)) mod n) = (int i + (int j - int i) mod int n) mod int n"
    using assms by (simp add: zmod_int)
  also have "\<dots> = int j" using assms(2) by (simp add: mod_add_right_eq)
  finally show "(i + nat ((int j - int i) mod int n)) mod n = j" by linarith
qed

lemma report_shortcut_correct:
  assumes inv: "shortcut_inv t vs instances start queue dist parent" and d: "map_of dist state = Some depth"
    and step: "step_destination t state s = Inr target" "physical_instance_key t state s = Inr key"
      "key \<notin> set instances"
    and target: "target \<in> set vs" "start \<in> set vs" "target \<noteq> start"
    and arcs: "Suc depth < min forward backward" "arcs_between vs start target forward backward"
  shows "\<exists>w. report_shortcut vs start parent state s target (Suc depth) forward backward = Inr w
    \<and> external_shortcut t vs instances w"
proof -
  have "depth < length parent + 1" using inv d unfolding shortcut_inv_def by (metis Suc_eq_plus1 le_imp_less_Suc)
  from parent_chain_correct[OF inv d this] obtain steps verts ks where
    p: "parent_chain parent start (length parent + 1) state = Inr (steps, verts)" "length steps = depth"
      "path_vertices_from_start t start steps = Inr verts" "last verts = state" "set (tl verts) \<inter> set vs = {}"
      "instances_along t start steps = Inr ks" "set ks \<inter> set instances = {}" by blast
  note ends = path_vertices_ends[OF p(3)]
  have path: "path_vertices_from_start t start (steps @ [s]) = Inr (verts @ [target])"
    unfolding path_vertices_append using p(3,4) step by auto
  have "instances_along t start (steps @ [s]) = Inr (ks @ [key])"
    using instances_append[OF p(3,6), of "[s]" "[key]"] p(4) step by simp
  then have walk: "external_walk t vs instances start (steps @ [s]) (verts @ [target])"
    unfolding external_walk_def using path ends p(5,7) step(3) by (cases verts) auto
  from external_walk_reverse[OF this]
  have back_walk: "external_walk t vs instances target (reverse_with step_reversed (steps @ [s])) (rev (verts @ [target]))"
    by simp
  have lens: "length (reverse_with step_reversed (steps @ [s])) = Suc depth" "length verts = Suc depth"
    using p(2) ends by simp_all
  have hd: "hd verts = start" "verts \<noteq> []" "last (rev verts) = start" using ends by (simp_all add: last_rev)
  have pos: "0 < forward" "0 < backward" using arcs(1) by simp_all
  have swap: "arcs_between vs target start forward backward"
    using arcs(2) unfolding arcs_between_def by (simp only: insert_commute)
  show ?thesis
  proof (cases "target < start")
    case True
    then show ?thesis
      using p(1,2) lens hd pos arcs(1) swap target back_walk
      by (simp add: report_shortcut_def make_vertex_pair_def make_shortcut_witness_def positive_nat_def
          external_shortcut_def min_le_iff_disj not_le)
  next
    case False
    then show ?thesis
      using p(1,2) lens hd pos arcs target walk
      by (simp add: report_shortcut_def make_vertex_pair_def make_shortcut_witness_def positive_nat_def
          external_shortcut_def min_le_iff_disj not_le)
  qed
qed

section \<open>Scanning, searching, reporting\<close>

definition scan_ok ::
  "framework_topology \<Rightarrow> lifted_vertex list \<Rightarrow> (nat \<times> shift) list \<Rightarrow> lifted_vertex
   \<Rightarrow> shortcut_scan result \<Rightarrow> bool" where
  "scan_ok t vs instances start r \<longleftrightarrow> (case r of
     Inl e \<Rightarrow> False
   | Inr (WitnessFound w) \<Rightarrow> external_shortcut t vs instances w
   | Inr StateLimit \<Rightarrow> True
   | Inr (ScanNext queue dist parent) \<Rightarrow> shortcut_inv t vs instances start queue dist parent)"

lemma shortcut_inv_add:
  assumes inv: "shortcut_inv t vs instances start queue dist parent" and d: "map_of dist state = Some depth"
    and step: "step_destination t state s = Inr target" "physical_instance_key t state s = Inr key"
      "key \<notin> set instances"
    and target: "target \<notin> set vs" "target \<notin> fst ` set dist" "atom_index target \<in> set (vertex_atoms t)"
  shows "shortcut_inv t vs instances start (queue @ [target]) (AList.update target (Suc depth) dist)
    (AList.update target (state, s) parent)"
proof -
  have old: "v \<noteq> target" if "map_of dist v = Some k" for v k
    using that target(2) unfolding in_keys_iff by auto
  have "target \<notin> fst ` set parent" using inv target(2) unfolding shortcut_inv_def by blast
  then have len: "length (AList.update target (state, s) parent) = Suc (length parent)"
    by (simp add: update_fresh)
  have start0: "map_of dist start = Some 0" "depth \<le> length parent"
    using inv d unfolding shortcut_inv_def by blast+
  have new: "map_of (AList.update target (Suc depth) dist) v = Some k \<longleftrightarrow>
      (if v = target then k = Suc depth else map_of dist v = Some k)" for v k
    by (auto simp: update_conv)
  have keep: "map_of (AList.update target (Suc depth) dist) p = Some j" if "map_of dist p = Some j" for p j
    using that old[OF that] by simp
  have parents: "\<exists>p s' j key. map_of (AList.update target (state, s) parent) v = Some (p, s') \<and>
        k = Suc j \<and> map_of (AList.update target (Suc depth) dist) p = Some j \<and> step_destination t p s' = Inr v \<and>
        physical_instance_key t p s' = Inr key \<and> key \<notin> set instances"
    if v: "map_of (AList.update target (Suc depth) dist) v = Some k" "v \<noteq> start" for v k
  proof (cases "v = target")
    case True
    with v(1) have k: "k = Suc depth" by simp
    show ?thesis
      by (rule exI[of _ state], rule exI[of _ s], rule exI[of _ depth], rule exI[of _ key])
        (use True k step keep[OF d] in simp)
  next
    case False
    with v have "map_of dist v = Some k" by simp
    with inv v(2) obtain p s' j key where "map_of parent v = Some (p, s')" "k = Suc j" "map_of dist p = Some j"
      "step_destination t p s' = Inr v" "physical_instance_key t p s' = Inr key" "key \<notin> set instances"
      unfolding shortcut_inv_def by blast
    then show ?thesis
      by (intro exI[of _ p] exI[of _ s'] exI[of _ j] exI[of _ key]) (use False keep in simp)
  qed
  have states: "k \<le> length (AList.update target (state, s) parent) \<and> atom_index v \<in> set (vertex_atoms t) \<and>
      (v = start \<or> v \<notin> set vs)" if v: "map_of (AList.update target (Suc depth) dist) v = Some k" for v k
  proof (cases "v = target")
    case True
    with v target start0 len show ?thesis by simp
  next
    case False
    with v have "map_of dist v = Some k" by simp
    with inv len show ?thesis unfolding shortcut_inv_def by (metis le_SucI)
  qed
  have "fst ` set (AList.update target (state, s) parent) \<subseteq> fst ` set (AList.update target (Suc depth) dist)"
    "set (queue @ [target]) \<subseteq> fst ` set (AList.update target (Suc depth) dist)"
    using inv by (auto simp: shortcut_inv_def)
  with parents states keep[OF start0(1)] show ?thesis unfolding shortcut_inv_def by blast
qed

lemma scan_half_edges_correct:
  assumes adj: "valid_adjacency t adj" and start: "start \<in> set vs"
    and "shortcut_inv t vs instances start queue dist parent"
    and "map_of dist state = Some depth" and "set hs \<subseteq> set (half_edges_at t (atom_index state))"
  shows "scan_ok t vs instances start (scan_half_edges t vs instances limit start state depth hs queue dist parent)"
  using assms(3-5)
proof (induction hs arbitrary: queue dist parent)
  case Nil
  then show ?case by (simp add: scan_ok_def)
next
  case (Cons h hs)
  let ?s = "half_edge_step h" and ?target = "half_edge_target state h"
  let ?rest = "scan_half_edges t vs instances limit start state depth hs"
  have dest: "step_destination t state ?s = Inr ?target"
    using Cons.prems(3) half_edge_step_target[of h t state] by (simp add: lifted_dest_iff)
  obtain key where key: "physical_instance_key t state ?s = Inr key"
    using physical_instance_total[OF dest] by blast
  have atom: "atom_index ?target \<in> set (vertex_atoms t)"
    using lifted_dest_atom[OF adj, of state ?s] dest by (simp add: lifted_dest_iff)
  have rest: "scan_ok t vs instances start (?rest queue dist parent)"
    using Cons.IH[OF Cons.prems(1,2)] Cons.prems(3) by simp
  consider "key \<in> set instances" | "key \<notin> set instances" "?target \<in> set vs" "?target \<noteq> start"
    | "key \<notin> set instances" "\<not> (?target \<in> set vs \<and> ?target \<noteq> start)" "?target \<in> set vs \<or> ?target \<in> fst ` set dist"
    | "key \<notin> set instances" "?target \<notin> set vs" "?target \<notin> fst ` set dist" by blast
  then show ?case
  proof cases
    case 1
    with key rest show ?thesis by (simp add: half_edge_step_def)
  next
    case 2
    from position_of_correct[OF start] position_of_correct[OF 2(2)] obtain i j where
      i: "i < length vs" "position_of vs start = Inr i" "vs ! i = start" and
      j: "j < length vs" "position_of vs ?target = Inr j" "vs ! j = ?target" by blast
    let ?f = "nat ((int j - int i) mod int (length vs))"
    have "i \<noteq> j" using i(3) j(3) 2(3) by metis
    note arc = forward_arc[OF i(1) j(1) this]
    show ?thesis
    proof (cases "Suc depth < min ?f (length vs - ?f)")
      case True
      have "arcs_between vs start ?target ?f (length vs - ?f)"
        using arc i(1,3) j(3) unfolding arcs_between_def by auto
      from report_shortcut_correct[OF Cons.prems(1,2) dest key 2(1,2) start 2(3) True this]
      obtain w where w: "report_shortcut vs start parent state ?s ?target (Suc depth) ?f (length vs - ?f) = Inr w"
        "external_shortcut t vs instances w" by blast
      from 2 key i j True w show ?thesis by (simp add: half_edge_step_def scan_ok_def Let_def)
    next
      case False
      with 2 key i j rest show ?thesis by (auto simp: half_edge_step_def Let_def)
    qed
  next
    case 3
    with key rest show ?thesis by (auto simp: half_edge_step_def Let_def)
  next
    case 4
    note inv = shortcut_inv_add[OF Cons.prems(1,2) dest key 4 atom]
    moreover have "map_of (AList.update ?target (Suc depth) dist) state = Some depth"
      using Cons.prems(2) 4(3) unfolding in_keys_iff by (auto simp: update_conv)
    ultimately have "scan_ok t vs instances start (?rest (queue @ [?target])
        (AList.update ?target (Suc depth) dist) (AList.update ?target (state, ?s) parent))"
      using Cons.IH Cons.prems(3) by simp
    with 4 key show ?thesis by (auto simp: half_edge_step_def Let_def scan_ok_def)
  qed
qed

lemma shortcut_search_correct:
  assumes adj: "valid_adjacency t adj" and start: "start \<in> set vs"
    and "shortcut_inv t vs instances start queue dist parent"
  shows "scan_ok t vs instances start (shortcut_search t adj vs instances max_length limit start queue dist parent)"
  using assms
proof (induction t adj vs instances max_length limit start queue dist parent rule: shortcut_search.induct)
  case (1 t adj vs instances max_length limit start dist parent)
  then show ?case by (simp add: scan_ok_def)
next
  case (2 t adj vs instances max_length limit start state queue dist parent)
  note inv = 2(5)
  have "state \<in> fst ` set dist" using inv by (simp add: shortcut_inv_def)
  then obtain depth where depth: "map_of dist state = Some depth" unfolding in_keys_iff by blast
  then have look: "lookupE dist state = Inr depth" by (simp add: lookupE_def)
  have inv': "shortcut_inv t vs instances start queue dist parent"
    using inv by (simp add: shortcut_inv_def)
  show ?case
  proof (cases "max_length \<le> depth")
    case True
    with look 2(1)[OF look True 2(3,4) inv'] show ?thesis by simp
  next
    case False
    have "atom_index state \<in> set (vertex_atoms t)"
      using inv depth unfolding shortcut_inv_def by blast
    then have hs: "lookupE adj (atom_index state) = Inr (half_edges_at t (atom_index state))"
      by (rule valid_adjacency_lookup[OF 2(3)])
    let ?scan = "scan_half_edges t vs instances limit start state depth (half_edges_at t (atom_index state)) queue dist parent"
    have ok: "scan_ok t vs instances start ?scan"
      by (rule scan_half_edges_correct[OF 2(3,4) inv' depth order.refl])
    then consider w where "?scan = Inr (WitnessFound w)" | "?scan = Inr StateLimit"
      | q d p where "?scan = Inr (ScanNext q d p)" "shortcut_inv t vs instances start q d p"
      by (auto simp: scan_ok_def split: sum.splits shortcut_scan.splits)
    then show ?thesis
    proof cases
      case 3
      with 2(2)[OF look False hs 3(1) refl 2(3,4) 3(2)] look hs False show ?thesis by simp
    qed (use ok look hs False in simp_all)
  qed
qed

lemma shortcut_from_starts_correct:
  assumes adj: "valid_adjacency t adj" and "set starts \<subseteq> set vs"
    and "\<forall>v \<in> set vs. atom_index v \<in> set (vertex_atoms t)"
  shows "\<exists>r. shortcut_from_starts t adj vs instances max_length limit starts = Inr r
    \<and> (case r of None \<Rightarrow> True | Some w \<Rightarrow> external_shortcut t vs instances w)"
  using assms(2)
proof (induction starts)
  case (Cons start starts)
  have "shortcut_inv t vs instances start [start] [(start, 0)] []"
    using Cons.prems assms(3) by (auto simp: shortcut_inv_def split: if_splits)
  from shortcut_search_correct[OF adj _ this, of max_length limit] Cons show ?case
    by (auto simp: scan_ok_def split: sum.splits shortcut_scan.splits)
qed simp

lemma find_external_shortcut_witness_correct:
  assumes adj: "valid_adjacency t adj" and cycle: "closed_cycle t v steps vs keys"
    and "atom_index v \<in> set (vertex_atoms t)"
  shows "\<exists>r. find_external_shortcut_witness t adj vs steps max_length limit = Inr r
    \<and> (case r of None \<Rightarrow> True | Some w \<Rightarrow> external_shortcut t vs keys w)"
proof -
  note facts = closed_cycle_vertices[OF cycle]
  have "atom_index u \<in> set (vertex_atoms t)" if "u \<in> set us" "path_vertices_from_start t w ss = Inr us"
    "atom_index w \<in> set (vertex_atoms t)" for u us w ss
    using that
  proof (induction ss arbitrary: w us)
    case (Cons s ss)
    then obtain x xs where x: "step_destination t w s = Inr x" "path_vertices_from_start t x ss = Inr xs"
      "us = w # xs" by (auto simp: bindE_Inr_iff)
    have "atom_index x \<in> set (vertex_atoms t)"
      using lifted_dest_atom[OF adj, of w s x] x(1) by (simp add: lifted_dest_iff)
    with Cons x show ?case by auto
  qed auto
  from this[of _ "vs @ [v]" v steps] cycle assms(3)
  have "\<forall>v \<in> set vs. atom_index v \<in> set (vertex_atoms t)" by (auto simp: closed_cycle_def)
  from shortcut_from_starts_correct[OF adj order.refl this, of keys max_length limit] cycle facts
  show ?thesis
    by (simp add: find_external_shortcut_witness_def nthE_def closed_cycle_def hd_conv_nth)
qed

end
