(* ===== verification/Ring_Accept.thy ===== *)
theory Ring_Accept
  imports Ring_Shortcut
begin

text \<open>
  Correctness of the candidate test and of acceptance in the primitive-ring search: what an index
  answers, that \<open>_primitive_candidate_passes\<close> decides the absence of shortcuts, and that
  \<open>_accept_default_candidate\<close> keeps the state invariant and records every primitive candidate
  unless a resource limit is noted.
\<close>

section \<open>Results of the search\<close>

text \<open>
  The only exception of the search is the complexity error of strict mode.  A state is intact at
  ring size \<open>n\<close> as long as no truncation was noted at \<open>n\<close> or below.
\<close>

definition only_complexity :: "primitive_ring_options \<Rightarrow> exc \<Rightarrow> bool" where
  "only_complexity options e \<longleftrightarrow> strict options \<and> (\<exists>m. e = PrimitiveRingComplexityError m)"

definition stats_intact :: "nat \<Rightarrow> search_stats \<Rightarrow> bool" where
  "stats_intact n s \<longleftrightarrow> (case first_incomplete_ring_size s of None \<Rightarrow> True | Some m \<Rightarrow> n < m)"

definition ring_key_of :: "framework_topology \<Rightarrow> ring_step list \<Rightarrow> ring_key" where
  "ring_key_of t steps = PrimitiveRingKey (fst (canonical_of t steps))"

definition ring_keys :: "search_state \<Rightarrow> ring_key set" where
  "ring_keys st = fst ` set (candidate_map st)"

definition ring_entry ::
  "framework_topology \<Rightarrow> primitive_ring_options \<Rightarrow> ring_key \<Rightarrow> candidate_accumulator \<Rightarrow> bool" where
  "ring_entry t options key acc \<longleftrightarrow>
     acc_key acc = key \<and> key = ring_key_of t (acc_steps acc) \<and> acc_steps acc = snd (canonical_of t (acc_steps acc))
     \<and> primitive_cycle t (acc_steps acc)
     \<and> validate_candidate_cycle t (acc_steps acc) options = Inr (acc_vertex_walk acc)
     \<and> acc_generator_kinds acc \<noteq> [] \<and> 1 \<le> acc_anchor_count acc"

definition search_inv :: "framework_topology \<Rightarrow> primitive_ring_options \<Rightarrow> nat \<Rightarrow> search_state \<Rightarrow> bool" where
  "search_inv t options n st \<longleftrightarrow>
     (stopped (stats st) \<longrightarrow> \<not> stats_intact n (stats st)) \<and>
     (\<forall>a w. map_of (paths_known st) (a, w) = Some None \<longrightarrow> \<not> stats_intact n (stats st)) \<and>
     (\<forall>a w ps. map_of (paths_known st) (a, w) = Some (Some ps) \<longrightarrow>
        distinct ps \<and> set ps = shortest_paths (lifted_dest t) (source_start a) w) \<and>
     (\<forall>key acc. map_of (candidate_map st) key = Some acc \<longrightarrow> ring_entry t options key acc) \<and>
     distinct (map fst (candidate_map st)) \<and> length (candidate_map st) \<le> max_total_rings options"

definition step_ok ::
  "framework_topology \<Rightarrow> primitive_ring_options \<Rightarrow> nat \<Rightarrow> ring_key set \<Rightarrow> search_state
   \<Rightarrow> search_state result \<Rightarrow> bool" where
  "step_ok t options n K st r \<longleftrightarrow> (case r of
     Inl e \<Rightarrow> only_complexity options e
   | Inr st' \<Rightarrow> search_inv t options n st' \<and> (\<forall>m. stats_intact m (stats st') \<longrightarrow> stats_intact m (stats st)) \<and>
       ring_keys st \<subseteq> ring_keys st' \<and> (stats_intact n (stats st') \<longrightarrow> K \<subseteq> ring_keys st'))"

lemma step_ok_Inr [simp]:
  "step_ok t options n K st (Inr st') \<longleftrightarrow> search_inv t options n st'
     \<and> (\<forall>m. stats_intact m (stats st') \<longrightarrow> stats_intact m (stats st))
     \<and> ring_keys st \<subseteq> ring_keys st' \<and> (stats_intact n (stats st') \<longrightarrow> K \<subseteq> ring_keys st')"
  by (simp add: step_ok_def)

lemma step_ok_Inl [simp]: "step_ok t options n K st (Inl e) \<longleftrightarrow> only_complexity options e"
  by (simp add: step_ok_def)

lemma step_ok_mono: "step_ok t options n K st r \<Longrightarrow> K' \<subseteq> K \<Longrightarrow> step_ok t options n K' st r"
  by (cases r) auto

lemma step_ok_bindE:
  assumes "step_ok t options n K st r"
    and "\<And>st'. search_inv t options n st' \<Longrightarrow> step_ok t options n K' st' (f st')"
  shows "step_ok t options n (K \<union> K') st (bindE r f)"
proof (cases r)
  case (Inr st')
  then have st': "search_inv t options n st'" and "step_ok t options n K' st' (f st')"
    using assms by simp_all
  moreover from assms(1) Inr have "ring_keys st \<subseteq> ring_keys st'"
    "\<And>m. stats_intact m (stats st') \<Longrightarrow> stats_intact m (stats st)"
    "stats_intact n (stats st') \<Longrightarrow> K \<subseteq> ring_keys st'" by simp_all
  ultimately show ?thesis
    using Inr by (cases "f st'") (simp_all, blast)
qed (use assms(1) in simp)

lemma step_ok_foldE:
  assumes "\<And>x st. x \<in> set xs \<Longrightarrow> search_inv t options n st \<Longrightarrow> step_ok t options n (K x) st (f x st)"
    and "search_inv t options n st"
  shows "step_ok t options n (\<Union>x \<in> set xs. K x) st (foldE f xs st)"
  using assms
proof (induction xs arbitrary: st)
  case (Cons x xs)
  have "step_ok t options n (K x) st (f x st)" using Cons.prems by simp
  moreover have "step_ok t options n (\<Union>x \<in> set xs. K x) st' (foldE f xs st')"
    if "search_inv t options n st'" for st'
    by (rule Cons.IH[OF _ that]) (use Cons.prems(1) in simp)
  ultimately have "step_ok t options n (K x \<union> (\<Union>x \<in> set xs. K x)) st (bindE (f x st) (foldE f xs))"
    by (rule step_ok_bindE)
  then show ?case by simp
qed simp

lemma step_ok_refl:
  "search_inv t options n st \<Longrightarrow> K = {} \<Longrightarrow> step_ok t options n K st (Inr st)"
  by simp

lemma step_ok_skip:
  "search_inv t options n st \<Longrightarrow> \<not> stats_intact n (stats st) \<Longrightarrow> step_ok t options n K st (Inr st)"
  by simp

text \<open>Counters do not matter to the invariant.\<close>

lemma search_inv_stats:
  assumes "search_inv t options n st" and "first_incomplete_ring_size s = first_incomplete_ring_size (stats st)"
    and "stopped s = stopped (stats st)"
  shows "search_inv t options n (st\<lparr>stats := s\<rparr>)"
  using assms by (simp add: search_inv_def stats_intact_def)

lemma stats_intact_truncate: "stats_intact m (stats_truncate n msg s) \<longleftrightarrow> m < n \<and> stats_intact m s"
  by (auto simp: stats_intact_def stats_truncate_def split: option.splits)

lemma search_inv_truncate:
  assumes "search_inv t options n st" and "n' \<le> n"
    and "first_incomplete_ring_size s = first_incomplete_ring_size (stats_truncate n' msg s0)"
  shows "search_inv t options n (st\<lparr>stats := s\<rparr>)" and "\<not> stats_intact n s"
proof -
  show bad: "\<not> stats_intact n s"
    using assms(2,3) stats_intact_truncate[of n n' msg s0] by (simp add: stats_intact_def)
  show "search_inv t options n (st\<lparr>stats := s\<rparr>)"
    using assms(1) bad by (simp add: search_inv_def)
qed

section \<open>The index\<close>

definition search_ready ::
  "framework_topology \<Rightarrow> (nat \<times> half_edge list) list \<Rightarrow> primitive_ring_options \<Rightarrow> lifted_index \<Rightarrow> bool" where
  "search_ready t adj options index \<longleftrightarrow>
     valid_adjacency t adj \<and> distinct (map edge_key (topology_edges t)) \<and> 2 \<le> min_ring_size options \<and>
     map fst (sources index) = vertex_atoms t \<and>
     (\<forall>a \<in> set (vertex_atoms t). \<exists>source. map_of (sources index) a = Some source \<and>
        source_atom_index source = a \<and>
        index_correct t (lifted_maximum_depth index) (max_lifted_states_per_source options) source)"

lemma search_ready_source:
  assumes "search_ready t adj options index" and "a \<in> set (vertex_atoms t)"
  obtains source where "map_of (sources index) a = Some source" "source_atom_index source = a"
    "index_exact t (source_start a) (complete_through_depth source) (distance source) (predecessors source)"
  using assms unfolding search_ready_def index_correct_def by metis

lemma mapE_pairs:
  assumes "\<And>a. a \<in> set xs \<Longrightarrow> (\<exists>y. f a = Inr (a, y) \<and> P a y) \<or> (\<exists>e. f a = Inl e \<and> R e)"
  shows "(\<exists>ys. mapE f xs = Inr ys \<and> map fst ys = xs \<and> (\<forall>a y. map_of ys a = Some y \<longrightarrow> P a y))
    \<or> (\<exists>e. mapE f xs = Inl e \<and> R e)"
  using assms
proof (induction xs)
  case (Cons x xs)
  have "(\<exists>ys. mapE f xs = Inr ys \<and> map fst ys = xs \<and> (\<forall>a y. map_of ys a = Some y \<longrightarrow> P a y))
    \<or> (\<exists>e. mapE f xs = Inl e \<and> R e)" using Cons by simp
  moreover have "(\<exists>y. f x = Inr (x, y) \<and> P x y) \<or> (\<exists>e. f x = Inl e \<and> R e)" using Cons.prems by simp
  ultimately show ?case by (elim disjE exE conjE) auto
qed simp

lemma build_lifted_index_correct:
  assumes adj: "valid_adjacency t adj" and "distinct (map edge_key (topology_edges t))"
    and "2 \<le> min_ring_size options"
  shows "case build_lifted_index t adj options of
      Inl e \<Rightarrow> only_complexity options e
    | Inr index \<Rightarrow> search_ready t adj options index \<and> lifted_maximum_depth index = max_ring_size options div 2"
proof -
  let ?depth = "max_ring_size options div 2"
  let ?limit = "max_lifted_states_per_source options"
  let ?f = "\<lambda>source. bindE (build_source_index adj source ?depth ?limit) (\<lambda>index.
          if truncated index \<and> strict options then
            Inl (PrimitiveRingComplexityError
              (case index_message index of None \<Rightarrow> Text ''Lifted search truncated.'' | Some m \<Rightarrow> m))
          else Inr (source, index))"
  have "(\<exists>y. ?f a = Inr (a, y) \<and> source_atom_index y = a \<and> index_correct t ?depth ?limit y)
      \<or> (\<exists>e. ?f a = Inl e \<and> only_complexity options e)" if a: "a \<in> set (vertex_atoms t)" for a
  proof -
    from build_source_index_correct[OF adj a, of ?depth ?limit] obtain idx where
      "build_source_index adj a ?depth ?limit = Inr idx" "index_correct t ?depth ?limit idx"
      "source_atom_index idx = a" by blast
    then show ?thesis by (cases "truncated idx \<and> strict options") (simp_all add: only_complexity_def)
  qed
  from mapE_pairs[of "vertex_atoms t" ?f "\<lambda>a y. source_atom_index y = a \<and> index_correct t ?depth ?limit y"
      "only_complexity options", OF this]
  consider (ok) ys where "mapE ?f (vertex_atoms t) = Inr ys" "map fst ys = vertex_atoms t"
      "\<forall>a y. map_of ys a = Some y \<longrightarrow> source_atom_index y = a \<and> index_correct t ?depth ?limit y"
    | (err) e where "mapE ?f (vertex_atoms t) = Inl e" "only_complexity options e" by blast
  then show ?thesis
  proof cases
    case ok
    have "\<exists>y. map_of ys a = Some y" if "a \<in> set (vertex_atoms t)" for a
      using that ok(2) in_keys_iff[of a ys] by (metis set_map)
    with ok assms show ?thesis
      by (simp add: build_lifted_index_def Let_def search_ready_def) metis
  qed (simp add: build_lifted_index_def Let_def)
qed

section \<open>The half-cycle test\<close>

definition apart :: "framework_topology \<Rightarrow> nat \<Rightarrow> lifted_vertex \<Rightarrow> lifted_vertex \<Rightarrow> bool" where
  "apart t r v w \<longleftrightarrow> (\<forall>d. exact_distance (lifted_dest t) v w d \<longrightarrow> r \<le> d)"

lemma apart_sym: "apart t r v w \<longleftrightarrow> apart t r w v"
  unfolding apart_def using lifted.distance_sym by blast

lemma make_vertex_pair_apart:
  "make_vertex_pair v w = Inr p \<Longrightarrow> apart t r (pair_first p) (pair_second p) \<longleftrightarrow> apart t r v w"
  using apart_sym by (auto simp: make_vertex_pair_def split: if_splits)

lemma make_vertex_pair_distinct: "v \<noteq> w \<Longrightarrow> \<exists>p. make_vertex_pair v w = Inr p
    \<and> {pair_first p, pair_second p} = {v, w}"
  by (auto simp: make_vertex_pair_def)

lemma maximal_half_cycle_pairs_correct:
  assumes "distinct vs" and "2 \<le> length vs"
  shows "\<exists>ps. maximal_half_cycle_pairs vs = Inr ps
    \<and> (\<forall>p \<in> set ps. pair_first (fst p) \<in> set vs \<and> pair_second (fst p) \<in> set vs)
    \<and> ((\<forall>p \<in> set ps. apart t (length vs div 2) (pair_first (fst p)) (pair_second (fst p))) \<longleftrightarrow>
       (\<forall>i < length vs. apart t (length vs div 2) (vs ! i) (vs ! ((i + length vs div 2) mod length vs))))"
proof -
  let ?n = "length vs" and ?r = "length vs div 2"
  let ?count = "if ?n mod 2 = 0 then ?r else ?n"
  let ?anti = "\<lambda>i. vs ! ((i + ?r) mod ?n)"
  have r: "0 < ?r" "?r < ?n" using assms(2) by simp_all
  have ne: "i \<noteq> (i + ?r) mod ?n" if "i < ?n" for i
  proof (cases "i + ?r < ?n")
    case False
    then have "(i + ?r) mod ?n = i + ?r - ?n" using that r by (simp add: le_mod_geq)
    then show ?thesis using that r False by simp
  qed (use r in simp)
  have total: "\<exists>p. make_vertex_pair (vs ! i) (?anti i) = Inr p \<and> {pair_first p, pair_second p} = {vs ! i, ?anti i}"
    if "i < ?n" for i
    using that assms(1) ne[OF that] index_mod_less[OF that, of "i + ?r"]
    by (intro make_vertex_pair_distinct) (simp add: nth_eq_iff_index_eq)
  define pr where "pr i = projr (make_vertex_pair (vs ! i) (?anti i))" for i
  have pr: "make_vertex_pair (vs ! i) (?anti i) = Inr (pr i)" "pair_first (pr i) \<in> set vs" "pair_second (pr i) \<in> set vs"
    if "i < ?n" for i
    using total[OF that] index_mod_less[OF that, of "i + ?r"] that by (auto simp: pr_def doubleton_eq_iff)
  have count: "i < ?n" if "i < ?count" for i using that r by (auto split: if_splits)
  have ps: "maximal_half_cycle_pairs vs = Inr (map (\<lambda>i. (pr i, ?r, ?n - ?r)) [0..<?count])"
    unfolding maximal_half_cycle_pairs_def Let_def
    by (rule mapE_total) (use pr(1) count in \<open>simp add: half_cycle_pair_def Let_def\<close>)
  have "(\<forall>i < ?count. apart t ?r (vs ! i) (?anti i)) \<longleftrightarrow> (\<forall>i < ?n. apart t ?r (vs ! i) (?anti i))"
  proof (cases "?n mod 2 = 0")
    case True
    then have n: "?n = ?r + ?r" by presburger
    have "apart t ?r (vs ! i) (?anti i)" if "\<forall>i < ?r. apart t ?r (vs ! i) (?anti i)" "i < ?n" for i
    proof (cases "i < ?r")
      case False
      then have i: "i + ?r = ?n + (i - ?r)" "i - ?r < ?r" using n that(2) by linarith+
      then have a: "(i + ?r) mod ?n = i - ?r" using r by (metis mod_add_self1 mod_less less_trans)
      have b: "(i - ?r + ?r) mod ?n = i" using False that(2) by simp
      from that(1) i(2) have "apart t ?r (vs ! (i - ?r)) (?anti (i - ?r))" by blast
      then show ?thesis unfolding a b using apart_sym by blast
    qed (use that in blast)
    with True r show ?thesis by (auto intro: less_trans)
  qed simp
  then have "(\<forall>p \<in> set (map (\<lambda>i. (pr i, ?r, ?n - ?r)) [0..<?count]). apart t ?r (pair_first (fst p)) (pair_second (fst p)))
      \<longleftrightarrow> (\<forall>i < ?n. apart t ?r (vs ! i) (?anti i))"
    using make_vertex_pair_apart[OF pr(1)] count by auto
  with ps pr(2,3) count show ?thesis by auto
qed

lemma indexed_queries_correct:
  assumes ready: "search_ready t adj options index" and v: "atom_index v \<in> set (vertex_atoms t)"
  shows "\<exists>complete found. indexed_query_complete_through index v (r - 1) = Inr complete
    \<and> indexed_distance index v w = Inr found
    \<and> (complete \<longrightarrow> ((case found of None \<Rightarrow> False | Some k \<Rightarrow> k < r) \<longleftrightarrow> \<not> apart t r v w))"
proof -
  obtain source where s: "map_of (sources index) (atom_index v) = Some source"
    "index_exact t (source_start (atom_index v)) (complete_through_depth source) (distance source) (predecessors source)"
    using search_ready_source[OF ready v] by metis
  let ?c = "complete_through_depth source"
  have look: "map_of (distance source) (relative_target v w) = Some k
      \<longleftrightarrow> exact_distance (lifted_dest t) v w k \<and> k \<le> ?c" for k
    using index_exact_distance[OF s(2)] distance_relative by blast
  have "(case map_of (distance source) (relative_target v w) of None \<Rightarrow> False | Some k \<Rightarrow> k < r) \<longleftrightarrow> \<not> apart t r v w"
    if "r - 1 \<le> ?c"
  proof (cases "map_of (distance source) (relative_target v w)")
    case None
    have "r \<le> d" if "exact_distance (lifted_dest t) v w d" for d
      using look[of d] None that \<open>r - 1 \<le> ?c\<close> by auto
    with None show ?thesis by (simp add: apart_def)
  next
    case (Some k)
    with look have "exact_distance (lifted_dest t) v w k" by blast
    with Some show ?thesis unfolding apart_def using exact_distance_unique by (metis leD leI option.simps(5))
  qed
  with s(1) show ?thesis
    by (simp add: indexed_query_complete_through_def indexed_distance_def lookupE_def)
qed

definition passes_ok ::
  "primitive_ring_options \<Rightarrow> nat \<Rightarrow> bool \<Rightarrow> search_stats \<Rightarrow> (bool option \<times> search_stats) result \<Rightarrow> bool" where
  "passes_ok options n primitive s r \<longleftrightarrow> (case r of
     Inl e \<Rightarrow> only_complexity options e
   | Inr (None, s') \<Rightarrow> \<exists>m. s' = stats_truncate n m s
   | Inr (Some b, s') \<Rightarrow> (b \<longleftrightarrow> primitive) \<and>
       first_incomplete_ring_size s' = first_incomplete_ring_size s \<and> stopped s' = stopped s)"

lemma passes_ok_cases:
  assumes "passes_ok options n primitive s r"
  obtains (error) e where "r = Inl e" "only_complexity options e"
    | (unknown) m where "r = Inr (None, stats_truncate n m s)"
    | (no) s' where "r = Inr (Some False, s')" "\<not> primitive"
        "first_incomplete_ring_size s' = first_incomplete_ring_size s" "stopped s' = stopped s"
    | (yes) s' where "r = Inr (Some True, s')" "primitive"
        "first_incomplete_ring_size s' = first_incomplete_ring_size s" "stopped s' = stopped s"
proof (cases r)
  case (Inl e)
  with assms that(1) show ?thesis by (simp add: passes_ok_def)
next
  case (Inr p)
  obtain b s' where p: "p = (b, s')" by (cases p)
  show ?thesis
  proof (cases b)
    case None
    with assms Inr p that(2) show ?thesis by (auto simp: passes_ok_def)
  next
    case (Some c)
    with assms Inr p that(3,4) show ?thesis by (cases c) (simp_all add: passes_ok_def)
  qed
qed

lemma passes_loop_correct:
  assumes ready: "search_ready t adj options index"
    and cycle: "closed_cycle t v (candidate_steps c) (candidate_vertex_walk c) keys"
    and atoms: "\<forall>u \<in> set (candidate_vertex_walk c). atom_index u \<in> set (vertex_atoms t)"
    and certified: "\<forall>p \<in> set (certified_shortest_pairs c).
      apart t (length (candidate_vertex_walk c) div 2) (pair_first p) (pair_second p)"
    and "\<forall>p \<in> set pairs. pair_first (fst p) \<in> set (candidate_vertex_walk c)
      \<and> pair_second (fst p) \<in> set (candidate_vertex_walk c)"
  shows "passes_ok options (length (candidate_vertex_walk c))
    (\<forall>p \<in> set pairs. apart t (length (candidate_vertex_walk c) div 2) (pair_first (fst p)) (pair_second (fst p)))
    s (passes_loop t adj index c options pairs s)"
  using assms(5)
proof (induction pairs)
  case (Cons p pairs)
  obtain pair a b where p: "p = (pair, a, b)" by (metis prod.exhaust)
  let ?r = "length (candidate_vertex_walk c) div 2"
  let ?ap = "apart t ?r (pair_first pair) (pair_second pair)"
  have IH: "passes_ok options (length (candidate_vertex_walk c))
    (\<forall>p \<in> set pairs. apart t ?r (pair_first (fst p)) (pair_second (fst p)))
    s (passes_loop t adj index c options pairs s)"
    using Cons by simp
  show ?case
  proof (cases "pair \<in> set (certified_shortest_pairs c)")
    case True
    with certified have "?ap" by blast
    with IH True show ?thesis by (simp add: p)
  next
    case False
    have "atom_index (pair_first pair) \<in> set (vertex_atoms t)" using Cons.prems atoms p by simp
    from indexed_queries_correct[OF ready this, of ?r "pair_second pair"] obtain complete found where
      q: "indexed_query_complete_through index (pair_first pair) (?r - 1) = Inr complete"
        "indexed_distance index (pair_first pair) (pair_second pair) = Inr found"
        "complete \<Longrightarrow> (case found of None \<Rightarrow> False | Some k \<Rightarrow> k < ?r) \<longleftrightarrow> \<not> ?ap" by blast
    consider "\<not> complete" | "complete" "?ap" | "complete" "\<not> ?ap" by blast
    then show ?thesis
    proof cases
      case 1
      with False q show ?thesis by (auto simp: p Let_def only_complexity_def passes_ok_def)
    next
      case 2
      with False q IH show ?thesis by (simp add: p Let_def)
    next
      case 3
      have "v \<in> set (candidate_vertex_walk c)" using closed_cycle_vertices[OF cycle] by blast
      with atoms have "atom_index v \<in> set (vertex_atoms t)" by blast
      from find_external_shortcut_witness_correct[OF _ cycle this, of adj "?r - 1" "max_lifted_states_per_source options"] ready
      obtain w where "find_external_shortcut_witness t adj (candidate_vertex_walk c) (candidate_steps c) (?r - 1)
          (max_lifted_states_per_source options) = Inr w" by (auto simp: search_ready_def)
      with False q 3 show ?thesis by (auto simp: p Let_def passes_ok_def split: option.splits)
    qed
  qed
qed (simp add: passes_ok_def)

text \<open>When the test stops, and what it leaves in the statistics.\<close>

lemma passes_loop_stats:
  assumes "passes_loop t adj index c options pairs s = Inr (answer, s')"
  shows "case answer of
      None \<Rightarrow> \<not> strict options
    | Some passed \<Rightarrow> if passed then s' = s else rejected_nonprimitive s' = Suc (rejected_nonprimitive s)"
  using assms
proof (induction pairs)
  case (Cons p pairs)
  obtain pair a b where p: "p = (pair, a, b)" by (metis prod.exhaust)
  let ?r = "length (candidate_vertex_walk c) div 2"
  show ?case
  proof (cases "pair \<in> set (certified_shortest_pairs c)")
    case True
    with Cons show ?thesis by (simp add: p)
  next
    case False
    with Cons.prems obtain complete where
      complete: "indexed_query_complete_through index (pair_first pair) (?r - 1) = Inr complete"
      by (cases "indexed_query_complete_through index (pair_first pair) (?r - 1)") (simp_all add: p)
    show ?thesis
    proof (cases complete)
      case True
      with False complete Cons.prems obtain found where
        found: "indexed_distance index (pair_first pair) (pair_second pair) = Inr found"
        by (cases "indexed_distance index (pair_first pair) (pair_second pair)") (simp_all add: p)
      show ?thesis
      proof (cases "case found of None \<Rightarrow> False | Some k \<Rightarrow> k < ?r")
        case False
        with \<open>pair \<notin> set (certified_shortest_pairs c)\<close> True complete found Cons show ?thesis by (simp add: p)
      next
        case rejected: True
        with False True complete found Cons.prems show ?thesis
          by (auto simp: p Let_def bindE_Inr_iff split: if_splits option.splits)
      qed
    next
      case incomplete: False
      with False complete Cons.prems show ?thesis by (simp add: p Let_def split: if_splits)
    qed
  qed
qed auto

lemma passes_loop_undecided:
  assumes ready: "search_ready t adj options index"
    and cycle: "closed_cycle t v (candidate_steps c) (candidate_vertex_walk c) keys"
    and atoms: "\<forall>u \<in> set (candidate_vertex_walk c). atom_index u \<in> set (vertex_atoms t)"
    and "\<forall>p \<in> set pairs. pair_first (fst p) \<in> set (candidate_vertex_walk c)"
    and "\<nexists>passed s'. passes_loop t adj index c options pairs s = Inr (Some passed, s')"
  shows "\<exists>u \<in> set (candidate_vertex_walk c).
    indexed_query_complete_through index u (length (candidate_vertex_walk c) div 2 - 1) = Inr False"
  using assms(4,5)
proof (induction pairs)
  case (Cons p pairs)
  let ?r = "length (candidate_vertex_walk c) div 2"
  obtain pair a b where p: "p = (pair, a, b)" by (metis prod.exhaust)
  have first: "pair_first pair \<in> set (candidate_vertex_walk c)" using Cons.prems(1) p by simp
  with atoms have "atom_index (pair_first pair) \<in> set (vertex_atoms t)" by blast
  from indexed_queries_correct[OF ready this, of ?r "pair_second pair"] obtain complete found where
    q: "indexed_query_complete_through index (pair_first pair) (?r - 1) = Inr complete"
      "indexed_distance index (pair_first pair) (pair_second pair) = Inr found" by blast
  show ?case
  proof (cases complete)
    case False
    with q(1) first show ?thesis by auto
  next
    case True
    have "v \<in> set (candidate_vertex_walk c)" using closed_cycle_vertices[OF cycle] by blast
    with atoms have "atom_index v \<in> set (vertex_atoms t)" by blast
    from find_external_shortcut_witness_correct[OF _ cycle this, of adj "?r - 1" "max_lifted_states_per_source options"] ready
    obtain w where "find_external_shortcut_witness t adj (candidate_vertex_walk c) (candidate_steps c) (?r - 1)
        (max_lifted_states_per_source options) = Inr w" by (auto simp: search_ready_def)
    with True q Cons.prems(2) have "\<nexists>passed s'. passes_loop t adj index c options pairs s = Inr (Some passed, s')"
      by (auto simp: p Let_def split: if_splits option.splits)
    with Cons show ?thesis by simp
  qed
qed auto

lemma closed_cycle_atoms:
  assumes adj: "valid_adjacency t adj" and cycle: "closed_cycle t v steps vs keys" and "u \<in> set vs"
  shows "atom_index u \<in> set (vertex_atoms t)"
proof -
  from assms(3) obtain i where i: "i < length vs" "vs ! i = u" by (metis in_set_conv_nth)
  let ?j = "(i + (length vs - 1)) mod length vs"
  have j: "?j < length vs" using i(1) by (rule index_mod_less)
  have "Suc ?j mod length vs = i"
  proof -
    have "Suc ?j mod length vs = Suc (i + (length vs - 1)) mod length vs" by (simp add: mod_Suc_eq)
    also have "Suc (i + (length vs - 1)) = length vs + i" using i(1) by simp
    finally show ?thesis using i(1) by simp
  qed
  with closed_cycle_cyclic_walk[OF cycle] j i obtain s where "lifted_dest t (vs ! ?j) s = Some u"
    unfolding lifted.cyclic_walk_def by metis
  then show ?thesis by (rule lifted_dest_atom[OF adj])
qed

text \<open>The test decides the absence of shortcuts, unless it notes that the index is incomplete.\<close>

lemma primitive_candidate_passes_correct:
  assumes ready: "search_ready t adj options index"
    and valid: "validate_candidate_cycle t (candidate_steps c) options = Inr (candidate_vertex_walk c)"
    and certified: "\<forall>p \<in> set (certified_shortest_pairs c).
      apart t (length (candidate_steps c) div 2) (pair_first p) (pair_second p)"
  shows "passes_ok options (length (candidate_steps c)) (primitive_cycle t (candidate_steps c)) s
    (primitive_candidate_passes t adj index c options s)"
proof -
  from valid obtain v keys where cycle: "closed_cycle t v (candidate_steps c) (candidate_vertex_walk c) keys"
    and size: "min_ring_size options \<le> length (candidate_steps c)"
    unfolding validate_candidate_cycle_Inr_iff by blast
  note facts = closed_cycle_vertices[OF cycle]
  have two: "2 \<le> length (candidate_vertex_walk c)" using size ready facts by (simp add: search_ready_def)
  have dist: "distinct (candidate_vertex_walk c)" using cycle by (simp add: closed_cycle_def)
  have adj: "valid_adjacency t adj" using ready by (simp add: search_ready_def)
  from maximal_half_cycle_pairs_correct[OF dist two, of t] obtain ps where
    ps: "maximal_half_cycle_pairs (candidate_vertex_walk c) = Inr ps"
      "\<forall>p \<in> set ps. pair_first (fst p) \<in> set (candidate_vertex_walk c) \<and> pair_second (fst p) \<in> set (candidate_vertex_walk c)"
    and all: "(\<forall>p \<in> set ps. apart t (length (candidate_vertex_walk c) div 2) (pair_first (fst p)) (pair_second (fst p)))
      \<longleftrightarrow> primitive_cycle t (candidate_steps c)"
    unfolding primitive_cycle_vertices[OF cycle] shortcut_free_antipodal[OF cycle] apart_def by blast
  have atoms: "\<forall>u \<in> set (candidate_vertex_walk c). atom_index u \<in> set (vertex_atoms t)"
    using closed_cycle_atoms[OF adj cycle] by blast
  have certified': "\<forall>p \<in> set (certified_shortest_pairs c).
      apart t (length (candidate_vertex_walk c) div 2) (pair_first p) (pair_second p)"
    using certified facts(3) by simp
  from passes_loop_correct[OF ready cycle atoms certified' ps(2), of s] show ?thesis
    unfolding all by (simp add: primitive_candidate_passes_def ps(1) facts(3))
qed

lemma primitive_candidate_passes_stats:
  assumes "primitive_candidate_passes t adj index c options s = Inr (answer, s')"
  shows "case answer of
      None \<Rightarrow> \<not> strict options
    | Some passed \<Rightarrow> if passed then s' = s else rejected_nonprimitive s' = Suc (rejected_nonprimitive s)"
proof -
  from assms obtain ps where "passes_loop t adj index c options ps s = Inr (answer, s')"
    by (auto simp: primitive_candidate_passes_def bindE_Inr_iff)
  then show ?thesis by (rule passes_loop_stats)
qed

lemma primitive_candidate_passes_undecided:
  assumes ready: "search_ready t adj options index"
    and valid: "validate_candidate_cycle t (candidate_steps c) options = Inr (candidate_vertex_walk c)"
    and stuck: "\<nexists>passed s'. primitive_candidate_passes t adj index c options s = Inr (Some passed, s')"
  shows "\<exists>u \<in> set (candidate_vertex_walk c).
    indexed_query_complete_through index u (length (candidate_steps c) div 2 - 1) = Inr False"
proof -
  from valid obtain v keys where cycle: "closed_cycle t v (candidate_steps c) (candidate_vertex_walk c) keys"
    and size: "min_ring_size options \<le> length (candidate_steps c)"
    unfolding validate_candidate_cycle_Inr_iff by blast
  note facts = closed_cycle_vertices[OF cycle]
  have two: "2 \<le> length (candidate_vertex_walk c)" using size ready facts by (simp add: search_ready_def)
  have dist: "distinct (candidate_vertex_walk c)" using cycle by (simp add: closed_cycle_def)
  have adj: "valid_adjacency t adj" using ready by (simp add: search_ready_def)
  from maximal_half_cycle_pairs_correct[OF dist two, of t] obtain ps where
    ps: "maximal_half_cycle_pairs (candidate_vertex_walk c) = Inr ps"
      "\<forall>p \<in> set ps. pair_first (fst p) \<in> set (candidate_vertex_walk c)" by blast
  have atoms: "\<forall>u \<in> set (candidate_vertex_walk c). atom_index u \<in> set (vertex_atoms t)"
    using closed_cycle_atoms[OF adj cycle] by blast
  have "\<nexists>passed s'. passes_loop t adj index c options ps s = Inr (Some passed, s')"
    using stuck by (simp add: primitive_candidate_passes_def ps(1))
  from passes_loop_undecided[OF ready cycle atoms ps(2) this] show ?thesis by (simp add: facts(3))
qed

section \<open>Acceptance\<close>

lemma canonical_of_orbit:
  assumes "steps' \<in> steps.orbit steps"
  shows "canonical_of t steps' = canonical_of t steps"
proof -
  have "steps.orbit steps' = steps.orbit steps" using assms steps.orbit_eq_iff by blast
  then show ?thesis by (simp add: canonical_of_def)
qed

lemma canonical_accumulator_correct:
  assumes valid: "validate_candidate_cycle t (candidate_steps c) options = Inr verts"
    and "2 \<le> min_ring_size options"
  shows "\<exists>acc. canonical_candidate_accumulator t c options = Inr acc
    \<and> acc_key acc = ring_key_of t (candidate_steps c)
    \<and> (primitive_cycle t (candidate_steps c) \<longrightarrow> ring_entry t options (acc_key acc) acc)"
proof -
  let ?s = "candidate_steps c" and ?canon = "snd (canonical_of t (candidate_steps c))"
  have cyc: "is_cycle t ?s" "2 \<le> length ?s" "min_ring_size options \<le> length ?s" "length ?s \<le> max_ring_size options"
    using validate_candidate_cycle_iff[of t ?s options] valid assms(2) by (auto elim: order_trans)
  have range: "in_range t ?s" by (rule is_cycle_in_range[OF cyc(1)])
  have orbit: "?canon \<in> steps.orbit ?s" by (rule canonical_of_facts(1))
  then have same: "canonical_of t ?canon = canonical_of t ?s" by (rule canonical_of_orbit)
  have len: "length ?canon = length ?s" by (rule steps.length_orbit[OF orbit])
  obtain verts' where verts': "validate_candidate_cycle t ?canon options = Inr verts'"
    using validate_candidate_cycle_iff[of t ?canon options] is_cycle_orbit[OF cyc(1) orbit] cyc len by auto
  have "canonical_candidate_accumulator t c options = Inr \<lparr>acc_key = ring_key_of t ?s, acc_steps = ?canon,
      acc_vertex_walk = verts', acc_generator_edges = [], acc_generator_kinds = [generator_kind c], acc_anchor_count = 1\<rparr>"
    by (simp add: canonical_candidate_accumulator_def valid canonicalize_steps_eq[OF range cyc(2)]
        rebuild_vertex_walk_validate[OF verts'] verts' ring_key_of_def)
  then show ?thesis
    using verts' same primitive_cycle_orbit[OF _ orbit] by (simp add: ring_entry_def ring_key_of_def)
qed

lemma ring_entry_add_provenance:
  assumes "ring_entry t options key acc"
  shows "ring_entry t options key (add_provenance acc acc')"
proof -
  have "fold List.insert xs ys \<noteq> []" if "ys \<noteq> []" for xs ys :: "string list"
    using that by (induction xs arbitrary: ys) (simp_all add: List.insert_def)
  with assms show ?thesis by (simp add: ring_entry_def add_provenance_def)
qed

lemma search_inv_insert:
  assumes "search_inv t options n st" and "ring_entry t options key acc"
    and "map_of (candidate_map st) key = None \<Longrightarrow> length (candidate_map st) < max_total_rings options"
    and "first_incomplete_ring_size s = first_incomplete_ring_size (stats st)" and "stopped s = stopped (stats st)"
  shows "search_inv t options n (st\<lparr>stats := s, candidate_map := AList.update key acc (candidate_map st)\<rparr>)"
proof -
  have "length (AList.update key acc (candidate_map st)) \<le> max_total_rings options"
  proof (cases "map_of (candidate_map st) key")
    case None
    then have "key \<notin> fst ` set (candidate_map st)" by (simp add: map_of_eq_None_iff)
    with assms(3)[OF None] show ?thesis by (simp add: update_fresh)
  next
    case (Some a)
    have "length (AList.update key acc d) = length d" if "key \<in> fst ` set d" for d :: "(ring_key \<times> candidate_accumulator) list"
      using that by (induction d) auto
    with Some assms(1) show ?thesis unfolding search_inv_def by (metis in_keys_iff)
  qed
  moreover have "stats_intact n s = stats_intact n (stats st)" using assms(4) by (simp add: stats_intact_def)
  ultimately show ?thesis
    using assms(1,2,5) unfolding search_inv_def by (auto simp: update_conv split: if_splits)
qed

lemma accept_default_candidate_correct:
  assumes ready: "search_ready t adj options index" and inv: "search_inv t options n st"
    and valid: "validate_candidate_cycle t (candidate_steps c) options = Inr (candidate_vertex_walk c)"
    and n: "length (candidate_steps c) = n"
    and certified: "\<forall>p \<in> set (certified_shortest_pairs c). apart t (n div 2) (pair_first p) (pair_second p)"
  shows "step_ok t options n {key. key = ring_key_of t (candidate_steps c) \<and> primitive_cycle t (candidate_steps c)} st
    (accept_default_candidate t adj index options c st)"
proof (cases "stopped (stats st)")
  case True
  with inv have "\<not> stats_intact n (stats st)" by (simp add: search_inv_def)
  with True inv show ?thesis by (simp add: accept_default_candidate_def)
next
  case False
  define s where "s = (stats st)\<lparr>structural_candidates := structural_candidates (stats st) + 1\<rparr>"
  have s: "first_incomplete_ring_size s = first_incomplete_ring_size (stats st)" "stopped s = stopped (stats st)"
    by (simp_all add: s_def)
  have limited: "step_ok t options n K st (if strict options then Inl (PrimitiveRingComplexityError m)
      else Inr (st\<lparr>stats := (stats_truncate n m s')\<lparr>stopped := True\<rparr>\<rparr>))"
    if "first_incomplete_ring_size s' = first_incomplete_ring_size (stats st)" for K m s'
  proof -
    have "stats_intact k (stats st)" if "stats_intact k (stats_truncate n m s')" for k
      using that \<open>first_incomplete_ring_size s' = _\<close> unfolding stats_intact_truncate by (simp add: stats_intact_def)
    then show ?thesis
      using search_inv_truncate[OF inv order.refl, of "(stats_truncate n m s')\<lparr>stopped := True\<rparr>" m s']
      by (auto simp: only_complexity_def stats_intact_def ring_keys_def)
  qed
  have accept: "accept_default_candidate t adj index options c st =
      (if structural_candidates s > max_total_candidates options then
         let m = Text ''The global structural-candidate limit was exceeded.'' in
         if strict options then Inl (PrimitiveRingComplexityError m)
         else Inr (st\<lparr>stats := (stats_truncate n m s)\<lparr>stopped := True\<rparr>\<rparr>)
       else bindE (primitive_candidate_passes t adj index c options s) (\<lambda>(primitive, s).
         if primitive \<noteq> Some True then Inr (st\<lparr>stats := s\<rparr>)
         else bindE (canonical_candidate_accumulator t c options) (\<lambda>accumulator.
           case map_of (candidate_map st) (acc_key accumulator) of
             None \<Rightarrow>
               if length (candidate_map st) \<ge> max_total_rings options then
                 let m = Text ''The global primitive-ring limit was exceeded.'' in
                 if strict options then Inl (PrimitiveRingComplexityError m)
                 else Inr (st\<lparr>stats := (stats_truncate n m s)\<lparr>stopped := True\<rparr>\<rparr>)
               else Inr (st\<lparr>stats := s,
                      candidate_map := AList.update (acc_key accumulator) accumulator (candidate_map st)\<rparr>)
           | Some existing \<Rightarrow>
               Inr (st\<lparr>stats := s\<lparr>duplicate_candidates := duplicate_candidates s + 1\<rparr>,
                 candidate_map := AList.update (acc_key accumulator) (add_provenance existing accumulator)
                   (candidate_map st)\<rparr>))))"
    using False n by (simp only: accept_default_candidate_def Let_def s_def if_False)
  show ?thesis
  proof (cases "structural_candidates s > max_total_candidates options")
    case True
    with False limited[OF s(1)] n show ?thesis
      by (simp add: accept Let_def)
  next
    case structural: False
    from primitive_candidate_passes_correct[OF ready valid, of s] certified n
    have "passes_ok options n (primitive_cycle t (candidate_steps c)) s
      (primitive_candidate_passes t adj index c options s)" by simp
    then show ?thesis
    proof (cases rule: passes_ok_cases)
      case (error e)
      with False structural show ?thesis by (simp add: accept Let_def)
    next
      case (unknown m)
      have "stats_intact k (stats st)" if "stats_intact k (stats_truncate n m s)" for k
        using that s(1) unfolding stats_intact_truncate by (simp add: stats_intact_def)
      with unknown False structural search_inv_truncate[OF inv order.refl, of "stats_truncate n m s" m s]
      show ?thesis
        by (simp add: accept Let_def ring_keys_def)
    next
      case (no s')
      with False structural s search_inv_stats[OF inv, of s'] show ?thesis
        by (simp add: accept Let_def stats_intact_def ring_keys_def)
    next
      case (yes s')
      from canonical_accumulator_correct[OF valid] ready yes(2) obtain acc where
        acc: "canonical_candidate_accumulator t c options = Inr acc" "acc_key acc = ring_key_of t (candidate_steps c)"
        "ring_entry t options (acc_key acc) acc" by (auto simp: search_ready_def)
      have s': "first_incomplete_ring_size s' = first_incomplete_ring_size (stats st)" "stopped s' = stopped (stats st)"
        using yes s by simp_all
      let ?key = "acc_key acc"
      have keys: "ring_keys (st\<lparr>stats := x, candidate_map := AList.update ?key y (candidate_map st)\<rparr>) =
          insert (ring_key_of t (candidate_steps c)) (ring_keys st)" for x y
        by (simp add: ring_keys_def acc(2))
      show ?thesis
      proof (cases "map_of (candidate_map st) ?key")
        case None
        show ?thesis
        proof (cases "length (candidate_map st) \<ge> max_total_rings options")
          case True
          with False structural yes acc None limited[OF s'(1)] n show ?thesis
            by (simp add: accept Let_def)
        next
          case room: False
          have "search_inv t options n (st\<lparr>stats := s', candidate_map := AList.update ?key acc (candidate_map st)\<rparr>)"
            using search_inv_insert[OF inv acc(3) _ s'] room by simp
          with False structural yes acc None room s' keys show ?thesis
            by (auto simp: accept Let_def stats_intact_def)
        qed
      next
        case (Some existing)
        let ?s'' = "s'\<lparr>duplicate_candidates := duplicate_candidates s' + 1\<rparr>"
        have "ring_entry t options ?key existing" using inv Some by (simp add: search_inv_def)
        then have "search_inv t options n (st\<lparr>stats := ?s'', candidate_map :=
            AList.update ?key (add_provenance existing acc) (candidate_map st)\<rparr>)"
          by (intro search_inv_insert[OF inv] ring_entry_add_provenance) (simp_all add: s' Some)
        with False structural yes acc Some s' keys show ?thesis
          by (auto simp: accept Let_def stats_intact_def)
      qed
    qed
  qed
qed

end
