(* ===== verification/Ring_Catalog.thy ===== *)
theory Ring_Catalog
  imports Ring_Accept
begin

text \<open>
  The ring catalog of \<open>mdstats/analysis/primitive_ring.py\<close>: search diagnostics, size counts, the
  consistency checks of \<open>PrimitiveRingCatalog.__post_init__\<close>, and its assembly from the candidates
  of a search (\<open>_catalog_from_candidates\<close>).

  Left out are the topology digests, the schema strings and the catalog's own digest.  Fields that the
  code converts to nonnegative integers are natural numbers.
\<close>

section \<open>Diagnostics\<close>

datatype primitive_ring_family = PRIMITIVE_NO_SHORTCUT | EDGE_SHORTEST_SUBSET

datatype ring_search_status =
    COMPLETE_FOUND
  | COMPLETE_NONE
  | STATE_LIMIT_EXCEEDED
  | PATH_LIMIT_EXCEEDED
  | CANDIDATE_LIMIT_EXCEEDED
  | NOT_SEARCHED_GLOBAL_LIMIT
  | INVALID_EDGE
  | NOT_APPLICABLE

record ring_edge_search =
  edge_index :: nat
  searched_key :: framework_edge_key
  search_status :: ring_search_status
  shortest_path_length :: "nat option"
  shortest_path_count :: "nat option"
  shortest_path_count_is_exact :: bool
  enumerated_path_count :: nat
  visited_lifted_state_count :: nat
  maximum_depth_reached :: nat
  candidate_count :: nat
  unique_ring_count :: nat
  complete_through_ring_size :: nat
  search_message :: "message option"

record ring_source_search =
  searched_atom_index :: nat
  searched_depth :: nat
  searched_complete_depth :: nat
  source_state_count :: nat
  target_state_count :: nat
  predecessor_record_count :: nat
  source_truncated :: bool
  source_message :: "message option"

definition make_source_search :: "ring_source_search \<Rightarrow> ring_source_search result" where
  "make_source_search s =
     (if searched_complete_depth s > searched_depth s then
        Inl (PrimitiveRingInputError (Text ''complete_through_depth cannot exceed maximum_depth.''))
      else Inr s)"

record ring_search_diagnostics =
  index_depth :: nat
  source_searches :: "ring_source_search list"
  diagnostic_counters :: search_stats
  canonical_candidates :: nat
  removed_edge_searches :: "ring_edge_search list"
  shortcut_witness_count :: nat
  diagnostics_truncated :: bool

datatype ring_size_count = PrimitiveRingSizeCount (counted_size: nat) (ring_count: nat)

definition make_size_count :: "nat \<Rightarrow> nat \<Rightarrow> ring_size_count result" where
  "make_size_count rsize frequency =
     bindE (positive_nat ''ring_size'' rsize) (\<lambda>_.
     if rsize < 2 then Inl (PrimitiveRingInputError (Text ''ring_size must be at least 2.''))
     else Inr (PrimitiveRingSizeCount rsize frequency))"

definition count_sizes :: "primitive_ring list \<Rightarrow> ring_size_count list result" where
  "count_sizes ring_list =
     mapE (\<lambda>rsize. make_size_count rsize (count_list (map ring_size ring_list) rsize))
       (sorted_set (map ring_size ring_list))"

section \<open>Incidence\<close>

definition vertex_positions :: "nat list \<Rightarrow> (nat \<times> nat) list" where
  "vertex_positions atoms =
     fold (\<lambda>(position, atom). AList.update atom position) (List.enumerate 0 atoms) []"

definition append_id :: "nat \<Rightarrow> nat \<Rightarrow> nat list list \<Rightarrow> nat list list result" where
  "append_id rid position table = bindE (nthE table position) (\<lambda>ids. Inr (table[position := ids @ [rid]]))"

section \<open>The catalog\<close>

record ring_catalog =
  catalog_options :: primitive_ring_options
  catalog_method :: ring_search_method
  ring_family :: primitive_ring_family
  rings :: "primitive_ring list"
  edge_searches :: "ring_edge_search list"
  ring_size_counts :: "ring_size_count list"
  catalog_vertices :: "nat list"
  vertex_to_ring_ids :: "nat list list"
  edge_to_ring_ids :: "nat list list"
  diagnostics :: ring_search_diagnostics
  search_completed_without_resource_truncation :: bool
  complete_for_ring_sizes_up_to :: nat

definition check_catalog_header :: "ring_catalog \<Rightarrow> unit result" where
  "check_catalog_header c =
     bindE (guardE (ring_family c = (if catalog_method c = SHORTEST_PATH_PAIRS
                                     then PRIMITIVE_NO_SHORTCUT else EDGE_SHORTEST_SUBSET))
       (PrimitiveRingInputError (Text ''search_method and ring_family are inconsistent.''))) (\<lambda>_.
     guardE (search_method (catalog_options c) = catalog_method c)
       (PrimitiveRingInputError (Text ''Catalog search_method disagrees with options.method.'')))"

definition check_catalog_lists :: "ring_catalog \<Rightarrow> nat list list \<Rightarrow> nat list list \<Rightarrow> unit result" where
  "check_catalog_lists c vertex_incidence edge_incidence =
     (let n = length (rings c); keys = map ring_key (rings c) in
      bindE (guardE (map ring_id (rings c) = [0..<n])
        (PrimitiveRingInputError (Text ''Ring IDs must be dense and sorted.''))) (\<lambda>_.
      bindE (guardE (keys = sort keys)
        (PrimitiveRingInputError (Text ''Rings must be sorted by canonical key.''))) (\<lambda>_.
      bindE (guardE (length (remdups keys) = n)
        (PrimitiveRingInputError (Text ''Primitive ring keys must be unique.''))) (\<lambda>_.
      bindE (guardE (map edge_index (edge_searches c) = [0..<length (edge_searches c)])
        (PrimitiveRingInputError
          (Text ''edge_searches must align with dense topology edge indices.''))) (\<lambda>_.
      bindE (guardE (catalog_vertices c \<noteq> [] \<and> sorted_set (catalog_vertices c) = catalog_vertices c)
        (PrimitiveRingInputError
          (Text ''vertex_atom_indices must be nonempty, sorted, and unique.''))) (\<lambda>_.
      bindE (guardE (length vertex_incidence = length (catalog_vertices c))
        (PrimitiveRingInputError (Text ''vertex_to_ring_ids is misaligned.''))) (\<lambda>_.
      bindE (guardE (length edge_incidence = length (edge_searches c))
        (PrimitiveRingInputError (Text ''edge_to_ring_ids is misaligned.''))) (\<lambda>_.
      bindE (guardE (\<forall>ids \<in> set (vertex_incidence @ edge_incidence). \<forall>i \<in> set ids. i < n)
        (PrimitiveRingInputError (Text ''Incidence contains an invalid ring ID.''))) (\<lambda>_.
      bindE (count_sizes (rings c)) (\<lambda>expected.
      guardE (ring_size_counts c = expected)
        (PrimitiveRingInputError (Text ''ring_size_counts disagree with rings.''))))))))))))"

text \<open>One iteration over \<open>zip(ring.steps, ring.vertex_walk)\<close>: the walk continues along the step.\<close>

definition check_walk_step ::
  "framework_edge_key list \<Rightarrow> primitive_ring \<Rightarrow> nat \<Rightarrow> ring_step \<times> lifted_vertex \<Rightarrow> unit result" where
  "check_walk_step keys ring index = (\<lambda>(step, source).
     bindE (nthE (vertex_walk ring) ((index + 1) mod ring_size ring)) (\<lambda>target.
     bindE (nthE keys (step_edge step)) (\<lambda>key.
     let (source_atom, target_atom, image) =
       (if step_orientation step = Forward
        then (vertex_i key, vertex_j key, add_shift (vertex_image source) (image_shift key))
        else (vertex_j key, vertex_i key, subtract_shift (vertex_image source) (image_shift key))) in
     bindE (guardE (atom_index source = source_atom)
       (PrimitiveRingInputError
         (Text ''Ring vertex_walk source is inconsistent with ring step orientation.''))) (\<lambda>_.
     guardE (\<not> (atom_index target \<noteq> target_atom \<or> vertex_image target \<noteq> image))
       (PrimitiveRingInputError
         (Text ''Ring vertex_walk is discontinuous with the stored ring steps.''))))))"

definition check_walk :: "framework_edge_key list \<Rightarrow> primitive_ring \<Rightarrow> unit result" where
  "check_walk keys ring =
     bindE (foldE (\<lambda>(index, pair) _. check_walk_step keys ring index pair)
       (List.enumerate 0 (zip (ring_steps ring) (vertex_walk ring))) ()) (\<lambda>_.
     guardE (length (ring_steps ring) = length (vertex_walk ring))
       (ValueError (Text ''zip() arguments have different lengths'')))"

definition check_catalog_ring ::
  "framework_edge_key list \<Rightarrow> (nat \<times> nat) list \<Rightarrow> primitive_ring \<Rightarrow> nat list list \<times> nat list list
   \<Rightarrow> (nat list list \<times> nat list list) result" where
  "check_catalog_ring keys positions ring = (\<lambda>(by_vertex, by_edge).
     bindE (guardE (\<not> (\<exists>step \<in> set (ring_steps ring). step_edge step \<ge> length keys))
       (PrimitiveRingInputError (Text ''Ring references an invalid edge index.''))) (\<lambda>_.
     bindE (mapE (\<lambda>step. bindE (nthE keys (step_edge step)) (\<lambda>key.
         Inr (PrimitiveRingEdgeToken key (step_orientation step)))) (ring_steps ring)) (\<lambda>tokens.
     bindE (guardE (tokens = edge_tokens (ring_key ring))
       (PrimitiveRingInputError (Text ''Ring steps disagree with the structural ring key.''))) (\<lambda>_.
     bindE (foldE (\<lambda>vertex table.
         case map_of positions (atom_index vertex) of
           None \<Rightarrow> Inl (PrimitiveRingInputError
             (Text ''Ring vertex is absent from vertex_atom_indices.''))
         | Some position \<Rightarrow> append_id (ring_id ring) position table)
         (vertex_walk ring) by_vertex) (\<lambda>by_vertex'.
     bindE (check_walk keys ring) (\<lambda>_.
     bindE (foldE (append_id (ring_id ring)) (sorted_set (map step_edge (ring_steps ring))) by_edge) (\<lambda>by_edge'.
     Inr (by_vertex', by_edge'))))))))"

definition check_catalog_completion :: "ring_catalog \<Rightarrow> unit result" where
  "check_catalog_completion c =
     (let completed = (\<not> diagnostics_truncated (diagnostics c)); complete = complete_for_ring_sizes_up_to c in
      bindE (guardE (search_completed_without_resource_truncation c = completed)
        (PrimitiveRingInputError
          (Text ''search_completed_without_resource_truncation is inconsistent.''))) (\<lambda>_.
      bindE (guardE (complete \<le> max_ring_size (catalog_options c))
        (PrimitiveRingInputError
          (Text ''complete_for_ring_sizes_up_to exceeds the configured maximum.''))) (\<lambda>_.
      guardE (\<not> (completed \<and> complete \<noteq> max_ring_size (catalog_options c)))
        (PrimitiveRingInputError
          (Text ''An untruncated search must be complete through max_ring_size.'')))))"

definition make_catalog :: "ring_catalog \<Rightarrow> ring_catalog result" where
  "make_catalog c =
     (let vertex_incidence = map sorted_set (vertex_to_ring_ids c);
          edge_incidence = map sorted_set (edge_to_ring_ids c) in
      bindE (check_catalog_header c) (\<lambda>_.
      bindE (check_catalog_lists c vertex_incidence edge_incidence) (\<lambda>_.
      bindE (foldE (check_catalog_ring (map searched_key (edge_searches c)) (vertex_positions (catalog_vertices c)))
          (rings c) (map (\<lambda>_. []) (catalog_vertices c), map (\<lambda>_. []) (edge_searches c)))
        (\<lambda>(by_vertex, by_edge).
      bindE (guardE (vertex_incidence = map sorted_set by_vertex)
        (PrimitiveRingInputError (Text ''vertex_to_ring_ids disagrees with rings.''))) (\<lambda>_.
      bindE (guardE (edge_incidence = map sorted_set by_edge)
        (PrimitiveRingInputError (Text ''edge_to_ring_ids disagrees with rings.''))) (\<lambda>_.
      bindE (check_catalog_completion c) (\<lambda>_.
      Inr (c\<lparr>vertex_to_ring_ids := vertex_incidence, edge_to_ring_ids := edge_incidence\<rparr>))))))))"

section \<open>Assembly\<close>

definition placeholder_edge_searches :: "framework_topology \<Rightarrow> nat \<Rightarrow> ring_edge_search list" where
  "placeholder_edge_searches t through =
     map (\<lambda>(index, edge). \<lparr>edge_index = index, searched_key = edge_key edge, search_status = NOT_APPLICABLE,
         shortest_path_length = None, shortest_path_count = None, shortest_path_count_is_exact = False,
         enumerated_path_count = 0, visited_lifted_state_count = 0, maximum_depth_reached = 0,
         candidate_count = 0, unique_ring_count = 0, complete_through_ring_size = through,
         search_message = Some (Text ''Edge-rooted search is not used by shortest_path_pairs.'')\<rparr>)
       (List.enumerate 0 (topology_edges t))"

definition ring_of_candidate :: "nat \<times> candidate_accumulator \<Rightarrow> primitive_ring result" where
  "ring_of_candidate = (\<lambda>(rid, candidate). make_primitive_ring
     \<lparr>ring_id = rid, ring_size = length (acc_steps candidate), ring_steps = acc_steps candidate,
      vertex_walk = acc_vertex_walk candidate, winding = zero_shift, ring_key = acc_key candidate,
      generator_edge_indices = sort (acc_generator_edges candidate),
      generator_kinds = sort (acc_generator_kinds candidate),
      generator_anchor_count = acc_anchor_count candidate\<rparr>)"

definition rings_of_candidates :: "(ring_key \<times> candidate_accumulator) list \<Rightarrow> primitive_ring list result" where
  "rings_of_candidates candidates =
     bindE (mapE (lookupE candidates) (sort (map fst candidates))) (\<lambda>sorted_candidates.
     mapE ring_of_candidate (List.enumerate 0 sorted_candidates))"

definition add_incidence ::
  "(nat \<times> nat) list \<Rightarrow> primitive_ring \<Rightarrow> nat list list \<times> nat list list \<Rightarrow> (nat list list \<times> nat list list) result" where
  "add_incidence positions ring = (\<lambda>(by_vertex, by_edge).
     bindE (foldE (\<lambda>atom table. bindE (lookupE positions atom) (\<lambda>position.
         append_id (ring_id ring) position table)) (sorted_set (map atom_index (vertex_walk ring))) by_vertex)
       (\<lambda>by_vertex'.
     bindE (foldE (append_id (ring_id ring)) (sorted_set (map step_edge (ring_steps ring))) by_edge) (\<lambda>by_edge'.
     Inr (by_vertex', by_edge'))))"

definition incidence_of_rings ::
  "framework_topology \<Rightarrow> primitive_ring list \<Rightarrow> (nat list list \<times> nat list list) result" where
  "incidence_of_rings t ring_list =
     foldE (add_incidence (vertex_positions (vertex_atoms t))) ring_list
       (map (\<lambda>_. []) (vertex_atoms t), map (\<lambda>_. []) (topology_edges t))"

definition catalog_from_candidates ::
  "framework_topology \<Rightarrow> primitive_ring_options \<Rightarrow> (ring_key \<times> candidate_accumulator) list
   \<Rightarrow> ring_search_diagnostics \<Rightarrow> nat \<Rightarrow> ring_catalog result" where
  "catalog_from_candidates t options candidates report through =
     bindE (rings_of_candidates candidates) (\<lambda>ring_list.
     bindE (incidence_of_rings t ring_list) (\<lambda>(by_vertex, by_edge).
     bindE (count_sizes ring_list) (\<lambda>counts.
     make_catalog
       \<lparr>catalog_options = options, catalog_method = SHORTEST_PATH_PAIRS, ring_family = PRIMITIVE_NO_SHORTCUT,
        rings = ring_list, edge_searches = placeholder_edge_searches t through, ring_size_counts = counts,
        catalog_vertices = vertex_atoms t, vertex_to_ring_ids = map sorted_set by_vertex,
        edge_to_ring_ids = map sorted_set by_edge, diagnostics = report,
        search_completed_without_resource_truncation = (\<not> diagnostics_truncated report),
        complete_for_ring_sizes_up_to = through\<rparr>)))"

definition source_search_of :: "source_index \<Rightarrow> ring_source_search result" where
  "source_search_of source = make_source_search
     \<lparr>searched_atom_index = source_atom_index source, searched_depth = maximum_depth source,
      searched_complete_depth = complete_through_depth source, source_state_count = length (distance source),
      target_state_count = length (distance source) - 1,
      predecessor_record_count = sum_list (map (length \<circ> snd) (predecessors source)),
      source_truncated = truncated source, source_message = index_message source\<rparr>"

definition enumerate_shortest_path_pair_primitives ::
  "framework_topology \<Rightarrow> primitive_ring_options \<Rightarrow> ring_catalog result" where
  "enumerate_shortest_path_pair_primitives t options =
     bindE (search_primitives t options) (\<lambda>out.
     let index = searched_index out; st = final_state out in
     bindE (mapE (\<lambda>a. bindE (lookupE (sources index) a) source_search_of)
       (sort (map fst (sources index)))) (\<lambda>searches.
     catalog_from_candidates t options (candidate_map st)
       \<lparr>index_depth = lifted_maximum_depth index, source_searches = searches,
        diagnostic_counters = stats st, canonical_candidates = length (candidate_map st),
        removed_edge_searches = [], shortcut_witness_count = length (shortcut_witnesses (stats st)),
        diagnostics_truncated = search_truncated out\<rparr>
       (complete_through out)))"

section \<open>What the checks accept\<close>

text \<open>A step leads from one lifted vertex to the next along the edge key it names.\<close>

definition leads_to :: "framework_edge_key list \<Rightarrow> lifted_vertex \<Rightarrow> ring_step \<Rightarrow> lifted_vertex \<Rightarrow> bool" where
  "leads_to keys v step w \<longleftrightarrow> step_edge step < length keys \<and>
     (let key = keys ! step_edge step in
      if step_orientation step = Forward
      then atom_index v = vertex_i key
        \<and> w = LiftedVertexRef (vertex_j key) (add_shift (vertex_image v) (image_shift key))
      else atom_index v = vertex_j key
        \<and> w = LiftedVertexRef (vertex_i key) (subtract_shift (vertex_image v) (image_shift key)))"

lemma leads_to_step_destination:
  "leads_to (map edge_key (topology_edges t)) v step w \<longleftrightarrow> step_destination t v step = Inr w"
  by (cases "step_edge step < length (topology_edges t)")
    (auto simp: leads_to_def step_destination_def edge_at_def nthE_def Let_def)

lemma check_walk_step_iff:
  "check_walk_step keys ring index (step, v) = Inr () \<longleftrightarrow>
     (index + 1) mod ring_size ring < length (vertex_walk ring)
     \<and> leads_to keys v step (vertex_walk ring ! ((index + 1) mod ring_size ring))"
proof -
  let ?w = "vertex_walk ring ! ((index + 1) mod ring_size ring)"
  show ?thesis
    by (cases ?w) (auto simp: check_walk_step_def leads_to_def nthE_def Let_def guardE_Inr_iff bindE_Inr_iff
      split: if_splits)
qed

lemma foldE_checks:
  "foldE (\<lambda>x _. f x) xs () = Inr () \<longleftrightarrow> (\<forall>x \<in> set xs. f x = Inr ())"
  by (induction xs) (auto simp: bindE_Inr_iff)

definition walk_coherent :: "framework_edge_key list \<Rightarrow> primitive_ring \<Rightarrow> bool" where
  "walk_coherent keys ring \<longleftrightarrow> length (ring_steps ring) = length (vertex_walk ring) \<and>
     (\<forall>i < length (vertex_walk ring). (i + 1) mod ring_size ring < length (vertex_walk ring) \<and>
        leads_to keys (vertex_walk ring ! i) (ring_steps ring ! i)
          (vertex_walk ring ! ((i + 1) mod ring_size ring)))"

lemma check_walk_iff: "check_walk keys ring = Inr () \<longleftrightarrow> walk_coherent keys ring"
proof -
  let ?z = "List.enumerate 0 (zip (ring_steps ring) (vertex_walk ring))"
  have fold: "foldE (\<lambda>(index, pair) _. check_walk_step keys ring index pair) ?z () = Inr () \<longleftrightarrow>
      (\<forall>i < length (zip (ring_steps ring) (vertex_walk ring)).
         check_walk_step keys ring i (ring_steps ring ! i, vertex_walk ring ! i) = Inr ())"
    using foldE_checks[of "\<lambda>(index, pair). check_walk_step keys ring index pair" ?z]
    by (simp add: split_def all_set_conv_all_nth nth_enumerate_eq)
  show ?thesis
    unfolding check_walk_def walk_coherent_def bindE_Inr_iff guardE_Inr_iff
    using fold by (auto simp: check_walk_step_iff)
qed

section \<open>Incidence tables\<close>

fun marked :: "nat \<Rightarrow> nat list \<Rightarrow> nat list list \<Rightarrow> nat list list" where
  "marked rid [] table = table"
| "marked rid (p # ps) table = marked rid ps (table[p := table ! p @ [rid]])"

lemma append_id_Inr_iff:
  "append_id rid p table = Inr table' \<longleftrightarrow> p < length table \<and> table' = table[p := table ! p @ [rid]]"
  by (auto simp: append_id_def nthE_def)

lemma append_ids_Inr_iff:
  "foldE (append_id rid) ps table = Inr table' \<longleftrightarrow>
     (\<forall>p \<in> set ps. p < length table) \<and> table' = marked rid ps table"
  by (induction ps arbitrary: table) (auto simp: bindE_Inr_iff append_id_Inr_iff)

lemma length_marked [simp]: "length (marked rid ps table) = length table"
  by (induction ps arbitrary: table) simp_all

lemma set_marked:
  "p < length table \<Longrightarrow> set (marked rid ps table ! p) = set (table ! p) \<union> (if p \<in> set ps then {rid} else {})"
proof (induction ps arbitrary: table)
  case (Cons q ps)
  then show ?case by (cases "q = p") auto
qed simp

lemma map_of_positions:
  assumes "distinct atoms"
  shows "map_of (vertex_positions atoms) a = Some p \<longleftrightarrow> p < length atoms \<and> atoms ! p = a"
proof -
  have general: "map_of (fold (\<lambda>(position, atom). AList.update atom position) (List.enumerate n xs) m) a =
      (if a \<in> set xs then Some (n + (THE i. i < length xs \<and> xs ! i = a)) else map_of m a)"
    if "distinct xs" for n xs m
    using that
  proof (induction xs arbitrary: n m)
    case (Cons x xs)
    have index: "(THE i. i < length (x # xs) \<and> (x # xs) ! i = a)
        = (if a = x then 0 else Suc (THE i. i < length xs \<and> xs ! i = a))" if "a \<in> set (x # xs)"
    proof (cases "a = x")
      case True
      have "(THE i. i < length (x # xs) \<and> (x # xs) ! i = a) = 0"
        using Cons.prems True by (intro the_equality) (auto simp: nth_Cons split: nat.splits)
      then show ?thesis using True by simp
    next
      case False
      with that obtain i where i: "i < length xs" "xs ! i = a" by (auto simp: in_set_conv_nth)
      then have the: "(THE i. i < length xs \<and> xs ! i = a) = i"
        using Cons.prems by (intro the_equality) (auto simp: nth_eq_iff_index_eq)
      have "(THE i. i < length (x # xs) \<and> (x # xs) ! i = a) = Suc i"
        using Cons.prems False i by (intro the_equality) (auto simp: nth_Cons nth_eq_iff_index_eq split: nat.splits)
      then show ?thesis using False the by simp
    qed
    show ?case using Cons index by (auto simp: update_conv)
  qed simp
  show ?thesis
  proof (cases "a \<in> set atoms")
    case True
    then obtain i where i: "i < length atoms" "atoms ! i = a" by (auto simp: in_set_conv_nth)
    then have "(THE i. i < length atoms \<and> atoms ! i = a) = i"
      using assms by (intro the_equality) (auto simp: nth_eq_iff_index_eq)
    with i assms True show ?thesis
      by (auto simp: vertex_positions_def general nth_eq_iff_index_eq)
  next
    case False
    then show ?thesis by (auto simp: vertex_positions_def general[OF assms])
  qed
qed

definition vertex_slot :: "nat list \<Rightarrow> nat \<Rightarrow> nat" where
  "vertex_slot atoms a = the (map_of (vertex_positions atoms) a)"

lemma vertex_slot:
  assumes "distinct atoms" and "a \<in> set atoms"
  shows "vertex_slot atoms a < length atoms" and "atoms ! vertex_slot atoms a = a"
    and "map_of (vertex_positions atoms) a = Some (vertex_slot atoms a)"
proof -
  from assms(2) obtain p where "p < length atoms" "atoms ! p = a" by (auto simp: in_set_conv_nth)
  then have p: "map_of (vertex_positions atoms) a = Some p" by (simp add: map_of_positions[OF assms(1)])
  then show "map_of (vertex_positions atoms) a = Some (vertex_slot atoms a)" by (simp add: vertex_slot_def)
  then show "vertex_slot atoms a < length atoms" "atoms ! vertex_slot atoms a = a"
    by (simp_all add: map_of_positions[OF assms(1)])
qed

lemma vertex_slot_unique:
  assumes "distinct atoms" and "as \<subseteq> set atoms" and "p < length atoms"
  shows "p \<in> vertex_slot atoms ` as \<longleftrightarrow> atoms ! p \<in> as"
proof
  assume "atoms ! p \<in> as"
  moreover have "vertex_slot atoms (atoms ! p) = p"
    using vertex_slot(1,2)[OF assms(1) nth_mem[OF assms(3)]] assms(1,3) nth_eq_iff_index_eq by blast
  ultimately show "p \<in> vertex_slot atoms ` as" by (metis image_eqI)
qed (use vertex_slot(2)[OF assms(1)] assms(2) in auto)

lemma vertex_loop_Inr_iff:
  assumes "distinct atoms" and "length table = length atoms"
  shows "foldE (\<lambda>vertex table. case map_of (vertex_positions atoms) (atom_index vertex) of
        None \<Rightarrow> Inl e
      | Some position \<Rightarrow> append_id rid position table) vs table = Inr table' \<longleftrightarrow>
    atom_index ` set vs \<subseteq> set atoms \<and> table' = marked rid (map (vertex_slot atoms \<circ> atom_index) vs) table"
  using assms(2)
proof (induction vs arbitrary: table)
  case (Cons v vs)
  show ?case
  proof (cases "atom_index v \<in> set atoms")
    case True
    note p = vertex_slot[OF assms(1) True]
    let ?t = "table[vertex_slot atoms (atom_index v) := table ! vertex_slot atoms (atom_index v) @ [rid]]"
    have step: "append_id rid (vertex_slot atoms (atom_index v)) table = Inr ?t"
      using p(1) Cons.prems by (simp add: append_id_Inr_iff)
    have "length ?t = length atoms" using Cons.prems by simp
    from Cons.IH[OF this] show ?thesis using True p(3) step by simp
  next
    case False
    then have "map_of (vertex_positions atoms) (atom_index v) = None"
      using map_of_positions[OF assms(1)] by (metis not_Some_eq nth_mem)
    then show ?thesis using False by simp
  qed
qed auto

lemma lookup_loop_Inr_iff:
  assumes "distinct atoms" and "length table = length atoms"
  shows "foldE (\<lambda>atom table. bindE (lookupE (vertex_positions atoms) atom) (\<lambda>position.
      append_id rid position table)) as table = Inr table' \<longleftrightarrow>
    set as \<subseteq> set atoms \<and> table' = marked rid (map (vertex_slot atoms) as) table"
proof -
  have "foldE (\<lambda>atom table. bindE (lookupE (vertex_positions atoms) atom) (\<lambda>position.
        append_id rid position table)) as table
    = foldE (\<lambda>vertex table. case map_of (vertex_positions atoms) (atom_index vertex) of
        None \<Rightarrow> Inl (KeyError (Text ''''))
      | Some position \<Rightarrow> append_id rid position table) (map source_start as) table"
    by (induction as arbitrary: table)
      (auto simp: lookupE_def source_start_def bindE_def split: option.splits sum.splits)
  then show ?thesis
    using vertex_loop_Inr_iff[OF assms, of _ rid "map source_start as" table']
    by (simp add: comp_def image_image source_start_def)
qed

text \<open>
  The identifiers of the rings that touch a vertex or an edge.  A pair of tables is exact for a list
  of rings when it lists them at every vertex and every edge.
\<close>

definition ids_where :: "primitive_ring list \<Rightarrow> (primitive_ring \<Rightarrow> bool) \<Rightarrow> nat set" where
  "ids_where ring_list P = ring_id ` {ring \<in> set ring_list. P ring}"

definition visits_atom :: "nat \<Rightarrow> primitive_ring \<Rightarrow> bool" where
  "visits_atom a ring \<longleftrightarrow> a \<in> set (vertex_ids ring)"

definition uses_edge :: "nat \<Rightarrow> primitive_ring \<Rightarrow> bool" where
  "uses_edge e ring \<longleftrightarrow> e \<in> step_edge ` set (ring_steps ring)"

definition tables_exact ::
  "nat list \<Rightarrow> nat \<Rightarrow> primitive_ring list \<Rightarrow> nat list list \<times> nat list list \<Rightarrow> bool" where
  "tables_exact atoms n ring_list = (\<lambda>(by_vertex, by_edge).
     length by_vertex = length atoms \<and> length by_edge = n \<and>
     (\<forall>p < length atoms. set (by_vertex ! p) = ids_where ring_list (visits_atom (atoms ! p))) \<and>
     (\<forall>e < n. set (by_edge ! e) = ids_where ring_list (uses_edge e)))"

lemma ids_where_snoc:
  "ids_where (rs @ [r]) P = ids_where rs P \<union> (if P r then {ring_id r} else {})"
  by (auto simp: ids_where_def)

lemma tables_exact_empty: "tables_exact atoms n [] (map (\<lambda>_. []) atoms, replicate n [])"
  by (simp add: tables_exact_def ids_where_def)

lemma tables_exact_mark:
  assumes "distinct atoms" and "tables_exact atoms n rs (bv, be)"
    and "set as = set (vertex_ids r)" and "set as \<subseteq> set atoms" and "set es = step_edge ` set (ring_steps r)"
  shows "tables_exact atoms n (rs @ [r])
    (marked (ring_id r) (map (vertex_slot atoms) as) bv, marked (ring_id r) es be)"
  using assms vertex_slot_unique[OF assms(1,4)]
  by (simp add: tables_exact_def set_marked ids_where_snoc visits_atom_def uses_edge_def)

lemma map_sorted_set_eq_iff: "map sorted_set xs = map sorted_set ys \<longleftrightarrow> map set xs = map set ys"
  by (induction xs ys rule: list_induct2') (auto simp: sorted_set_eq_iff)

lemma tables_exact_incidence:
  assumes "tables_exact atoms n rs (bv, be)" and "tables_exact atoms n rs (bv', be')"
  shows "map sorted_set bv = map sorted_set bv'" and "map sorted_set be = map sorted_set be'"
  using assms by (auto intro!: nth_equalityI simp: tables_exact_def map_sorted_set_eq_iff)

section \<open>Accepted catalogs\<close>

definition ring_coherent :: "framework_edge_key list \<Rightarrow> nat list \<Rightarrow> primitive_ring \<Rightarrow> bool" where
  "ring_coherent keys atoms ring \<longleftrightarrow>
     (\<forall>step \<in> set (ring_steps ring). step_edge step < length keys)
     \<and> map (\<lambda>step. PrimitiveRingEdgeToken (keys ! step_edge step) (step_orientation step)) (ring_steps ring)
       = edge_tokens (ring_key ring)
     \<and> set (vertex_ids ring) \<subseteq> set atoms \<and> walk_coherent keys ring"

lemma check_catalog_ring_Inr_iff:
  assumes "distinct atoms" and "length bv = length atoms" and "length be = length keys"
  shows "check_catalog_ring keys (vertex_positions atoms) ring (bv, be) = Inr tables \<longleftrightarrow>
    ring_coherent keys atoms ring
    \<and> tables = (marked (ring_id ring) (map (vertex_slot atoms) (vertex_ids ring)) bv,
         marked (ring_id ring) (sorted_set (map step_edge (ring_steps ring))) be)"
proof -
  let ?range = "\<forall>step \<in> set (ring_steps ring). step_edge step < length keys"
  let ?tokens = "map (\<lambda>step. PrimitiveRingEdgeToken (keys ! step_edge step) (step_orientation step)) (ring_steps ring)"
  have edges: "foldE (append_id (ring_id ring)) (sorted_set (map step_edge (ring_steps ring))) be = Inr be' \<longleftrightarrow>
      be' = marked (ring_id ring) (sorted_set (map step_edge (ring_steps ring))) be" if ?range for be'
    using that assms(3) by (auto simp: append_ids_Inr_iff)
  have tokens: "mapE (\<lambda>step. bindE (nthE keys (step_edge step)) (\<lambda>key.
         Inr (PrimitiveRingEdgeToken key (step_orientation step)))) (ring_steps ring) = Inr ?tokens" if ?range
    by (rule mapE_total) (use that in \<open>simp add: nthE_def\<close>)
  have coherent: "ring_coherent keys atoms ring \<longleftrightarrow> ?range \<and> ?tokens = edge_tokens (ring_key ring)
      \<and> atom_index ` set (vertex_walk ring) \<subseteq> set atoms \<and> walk_coherent keys ring"
    by (simp add: ring_coherent_def vertex_ids_def)
  show ?thesis
  proof (cases ?range)
    case False
    then show ?thesis
      unfolding coherent by (auto simp: check_catalog_ring_def guardE_def not_le)
  next
    case True
    then have "\<not> (\<exists>step \<in> set (ring_steps ring). length keys \<le> step_edge step)" by auto
    then show ?thesis
      using True coherent tokens[OF True] edges[OF True] vertex_loop_Inr_iff[OF assms(1,2)]
      by (auto simp: check_catalog_ring_def bindE_Inr_iff guardE_Inr_iff check_walk_iff vertex_ids_def comp_def)
  qed
qed

lemma check_catalog_rings_Inr_iff:
  assumes "distinct atoms" and "tables_exact atoms (length keys) rs (bv, be)"
  shows "(\<exists>tables. foldE (check_catalog_ring keys (vertex_positions atoms)) rings_left (bv, be) = Inr tables)
      \<longleftrightarrow> (\<forall>ring \<in> set rings_left. ring_coherent keys atoms ring)"
    and "foldE (check_catalog_ring keys (vertex_positions atoms)) rings_left (bv, be) = Inr tables
      \<Longrightarrow> tables_exact atoms (length keys) (rs @ rings_left) tables"
proof -
  have "((\<exists>tables. foldE (check_catalog_ring keys (vertex_positions atoms)) rings_left (bv, be) = Inr tables)
      \<longleftrightarrow> (\<forall>ring \<in> set rings_left. ring_coherent keys atoms ring))
    \<and> (foldE (check_catalog_ring keys (vertex_positions atoms)) rings_left (bv, be) = Inr tables
      \<longrightarrow> tables_exact atoms (length keys) (rs @ rings_left) tables)"
    using assms(2)
  proof (induction rings_left arbitrary: rs bv be)
    case (Cons r rest)
    then have len: "length bv = length atoms" "length be = length keys" by (simp_all add: tables_exact_def)
    note step = check_catalog_ring_Inr_iff[OF assms(1) len]
    show ?case
    proof (cases "ring_coherent keys atoms r")
      case True
      let ?bv = "marked (ring_id r) (map (vertex_slot atoms) (vertex_ids r)) bv"
      let ?be = "marked (ring_id r) (sorted_set (map step_edge (ring_steps r))) be"
      have now: "check_catalog_ring keys (vertex_positions atoms) r (bv, be) = Inr (?bv, ?be)"
        using step True by simp
      have "tables_exact atoms (length keys) (rs @ [r]) (?bv, ?be)"
        using True by (intro tables_exact_mark[OF assms(1) Cons.prems]) (simp_all add: ring_coherent_def)
      from Cons.IH[OF this] show ?thesis by (simp add: now True)
    next
      case False
      then have "check_catalog_ring keys (vertex_positions atoms) r (bv, be) \<noteq> Inr tables" for tables
        using step by simp
      then show ?thesis using False by (auto simp: bindE_Inr_iff)
    qed
  qed auto
  then show "(\<exists>tables. foldE (check_catalog_ring keys (vertex_positions atoms)) rings_left (bv, be) = Inr tables)
      \<longleftrightarrow> (\<forall>ring \<in> set rings_left. ring_coherent keys atoms ring)"
    and "foldE (check_catalog_ring keys (vertex_positions atoms)) rings_left (bv, be) = Inr tables
      \<Longrightarrow> tables_exact atoms (length keys) (rs @ rings_left) tables" by blast+
qed

lemma count_sizes_Inr_iff:
  "count_sizes rs = Inr counts \<longleftrightarrow> (\<forall>r \<in> set rs. 2 \<le> ring_size r) \<and>
     counts = map (\<lambda>n. PrimitiveRingSizeCount n (count_list (map ring_size rs) n)) (sorted_set (map ring_size rs))"
proof -
  have one: "make_size_count n k = Inr x \<longleftrightarrow> 2 \<le> n \<and> x = PrimitiveRingSizeCount n k" for n k x
    by (auto simp: make_size_count_def positive_nat_def)
  have "list_all2 (\<lambda>n x. 2 \<le> n \<and> x = f n) ns xs \<longleftrightarrow> (\<forall>n \<in> set ns. 2 \<le> n) \<and> xs = map f ns"
    for f :: "nat \<Rightarrow> ring_size_count" and ns xs
    by (induction ns xs rule: list_induct2') auto
  then show ?thesis by (simp add: count_sizes_def mapE_Inr_iff one)
qed

definition catalog_valid :: "ring_catalog \<Rightarrow> bool" where
  "catalog_valid c \<longleftrightarrow>
     (ring_family c = PRIMITIVE_NO_SHORTCUT \<longleftrightarrow> catalog_method c = SHORTEST_PATH_PAIRS) \<and>
     search_method (catalog_options c) = catalog_method c \<and>
     map ring_id (rings c) = [0..<length (rings c)] \<and> sorted_wrt (<) (map ring_key (rings c)) \<and>
     map edge_index (edge_searches c) = [0..<length (edge_searches c)] \<and>
     catalog_vertices c \<noteq> [] \<and> sorted_wrt (<) (catalog_vertices c) \<and>
     (\<forall>r \<in> set (rings c). 2 \<le> ring_size r
        \<and> ring_coherent (map searched_key (edge_searches c)) (catalog_vertices c) r) \<and>
     ring_size_counts c = map (\<lambda>n. PrimitiveRingSizeCount n (count_list (map ring_size (rings c)) n))
       (sorted_set (map ring_size (rings c))) \<and>
     map set (vertex_to_ring_ids c) = map (\<lambda>a. ids_where (rings c) (visits_atom a)) (catalog_vertices c) \<and>
     map set (edge_to_ring_ids c) = map (\<lambda>e. ids_where (rings c) (uses_edge e)) [0..<length (edge_searches c)] \<and>
     search_completed_without_resource_truncation c = (\<not> diagnostics_truncated (diagnostics c)) \<and>
     complete_for_ring_sizes_up_to c \<le> max_ring_size (catalog_options c) \<and>
     (search_completed_without_resource_truncation c \<longrightarrow>
        complete_for_ring_sizes_up_to c = max_ring_size (catalog_options c))"

lemma sorted_set_fixed_iff: "sorted_set xs = xs \<longleftrightarrow> sorted_wrt (<) xs"
proof
  assume "sorted_wrt (<) xs"
  then have "sorted xs" "distinct xs" using strict_sorted_iff by blast+
  then show "sorted_set xs = xs" by (simp add: sorted_set_def distinct_remdups_id sorted_sort_id)
next
  assume "sorted_set xs = xs"
  then have "sorted xs" "distinct xs" by (metis sorted_sorted_set, metis distinct_sorted_set)
  then show "sorted_wrt (<) xs" using strict_sorted_iff by blast
qed

lemma tables_exact_iff:
  "tables_exact atoms n rs (bv, be) \<longleftrightarrow>
     map set bv = map (\<lambda>a. ids_where rs (visits_atom a)) atoms
     \<and> map set be = map (\<lambda>e. ids_where rs (uses_edge e)) [0..<n]"
  by (auto simp: tables_exact_def list_eq_iff_nth_eq[of "map set _"])

lemma ids_in_range:
  assumes "map ring_id rs = [0..<length rs]" and "i \<in> ids_where rs P"
  shows "i < length rs"
proof -
  have "i \<in> set (map ring_id rs)" using assms(2) by (auto simp: ids_where_def)
  then show ?thesis by (simp add: assms(1))
qed

lemma make_catalog_Inr_iff:
  "make_catalog c = Inr c' \<longleftrightarrow> catalog_valid c \<and>
     c' = c\<lparr>vertex_to_ring_ids := map sorted_set (vertex_to_ring_ids c),
            edge_to_ring_ids := map sorted_set (edge_to_ring_ids c)\<rparr>"
  (is "_ = Inr c' \<longleftrightarrow> _ \<and> c' = ?out")
proof -
  let ?vi = "map sorted_set (vertex_to_ring_ids c)" and ?ei = "map sorted_set (edge_to_ring_ids c)"
  let ?keys = "map searched_key (edge_searches c)" and ?atoms = "catalog_vertices c"
  let ?fold = "foldE (check_catalog_ring ?keys (vertex_positions ?atoms)) (rings c)
    (map (\<lambda>_. []) ?atoms, map (\<lambda>_. []) (edge_searches c))"
  have start: "tables_exact ?atoms (length ?keys) [] (map (\<lambda>_. []) ?atoms, map (\<lambda>_. []) (edge_searches c))"
    by (simp add: tables_exact_def ids_where_def)
  define lists where "lists \<longleftrightarrow> map ring_id (rings c) = [0..<length (rings c)] \<and> sorted_wrt (<) (map ring_key (rings c)) \<and>
     map edge_index (edge_searches c) = [0..<length (edge_searches c)] \<and> ?atoms \<noteq> [] \<and> sorted_wrt (<) ?atoms \<and>
     length ?vi = length ?atoms \<and> length ?ei = length (edge_searches c) \<and>
     (\<forall>ids \<in> set (?vi @ ?ei). \<forall>i \<in> set ids. i < length (rings c)) \<and> count_sizes (rings c) = Inr (ring_size_counts c)"
  have L: "check_catalog_lists c ?vi ?ei = Inr () \<longleftrightarrow> lists"
  proof -
    have "keys = sort keys \<and> length (remdups keys) = length keys \<longleftrightarrow> sorted_wrt (<) keys" for keys :: "ring_key list"
      by (metis distinct_remdups_id remdups_id_iff_distinct length_remdups_eq sorted_sort sorted_sort_id strict_sorted_iff)
    from this[of "map ring_key (rings c)"] show ?thesis
      by (auto simp: check_catalog_lists_def lists_def Let_def bindE_Inr_iff guardE_Inr_iff sorted_set_fixed_iff)
  qed
  define header where "header \<longleftrightarrow> (ring_family c = PRIMITIVE_NO_SHORTCUT \<longleftrightarrow> catalog_method c = SHORTEST_PATH_PAIRS) \<and>
     search_method (catalog_options c) = catalog_method c"
  have H: "check_catalog_header c = Inr () \<longleftrightarrow> header"
    by (cases "ring_family c"; cases "catalog_method c")
      (auto simp: check_catalog_header_def header_def bindE_Inr_iff guardE_Inr_iff)
  define completion where "completion \<longleftrightarrow>
     search_completed_without_resource_truncation c = (\<not> diagnostics_truncated (diagnostics c)) \<and>
     complete_for_ring_sizes_up_to c \<le> max_ring_size (catalog_options c) \<and>
     (search_completed_without_resource_truncation c \<longrightarrow>
        complete_for_ring_sizes_up_to c = max_ring_size (catalog_options c))"
  have C: "check_catalog_completion c = Inr () \<longleftrightarrow> completion"
    by (auto simp: check_catalog_completion_def completion_def Let_def bindE_Inr_iff guardE_Inr_iff)
  have "make_catalog c = Inr c' \<longleftrightarrow> header \<and> lists \<and> (\<exists>bv be. ?fold = Inr (bv, be)
      \<and> ?vi = map sorted_set bv \<and> ?ei = map sorted_set be) \<and> completion \<and> c' = ?out"
    unfolding make_catalog_def Let_def bindE_Inr_iff guardE_Inr_iff H[symmetric] L[symmetric] C[symmetric]
    by (auto simp: bindE_Inr_iff guardE_Inr_iff)
  also have "\<dots> \<longleftrightarrow> catalog_valid c \<and> c' = ?out"
  proof (cases "header \<and> lists \<and> completion")
    case True
    then have atoms: "distinct ?atoms" by (auto simp: lists_def strict_sorted_iff)
    note fold = check_catalog_rings_Inr_iff[OF atoms start]
    have tables: "(\<exists>bv be. ?fold = Inr (bv, be) \<and> ?vi = map sorted_set bv \<and> ?ei = map sorted_set be) \<longleftrightarrow>
      (\<forall>ring \<in> set (rings c). ring_coherent ?keys ?atoms ring)
      \<and> tables_exact ?atoms (length ?keys) (rings c) (vertex_to_ring_ids c, edge_to_ring_ids c)" (is "?L \<longleftrightarrow> ?R")
    proof
      assume ?L
      then obtain bv be where t: "?fold = Inr (bv, be)" "?vi = map sorted_set bv" "?ei = map sorted_set be" by blast
      from fold(2)[OF t(1)] have "tables_exact ?atoms (length ?keys) (rings c) (bv, be)" by simp
      with t(2,3) have "tables_exact ?atoms (length ?keys) (rings c) (vertex_to_ring_ids c, edge_to_ring_ids c)"
        by (simp only: tables_exact_iff map_sorted_set_eq_iff)
      with t(1) fold(1)[of "rings c"] show ?R by blast
    next
      assume R: ?R
      with fold(1)[of "rings c"] obtain bv be where t: "?fold = Inr (bv, be)" by auto
      from fold(2)[OF t] have "tables_exact ?atoms (length ?keys) (rings c) (bv, be)" by simp
      with tables_exact_incidence[OF _ this] R t show ?L by blast
    qed
    show ?thesis unfolding tables
      using True unfolding header_def lists_def completion_def catalog_valid_def tables_exact_iff
        count_sizes_Inr_iff by auto
  next
    case False
    have "header \<and> lists \<and> completion" if v: "catalog_valid c"
    proof -
      have "length (vertex_to_ring_ids c) = length ?atoms" "length (edge_to_ring_ids c) = length (edge_searches c)"
        using v unfolding catalog_valid_def by (metis length_map, metis length_map diff_zero length_upt)
      moreover have "i < length (rings c)" if "ids \<in> set (vertex_to_ring_ids c @ edge_to_ring_ids c)" "i \<in> set ids" for ids i
      proof -
        have "set ids \<in> set (map set (vertex_to_ring_ids c)) \<union> set (map set (edge_to_ring_ids c))"
          using that(1) by auto
        then obtain P where "set ids = ids_where (rings c) P"
          using v unfolding catalog_valid_def by auto
        with that(2) v ids_in_range show ?thesis unfolding catalog_valid_def by metis
      qed
      then have "\<forall>ids \<in> set (map sorted_set (vertex_to_ring_ids c) @ map sorted_set (edge_to_ring_ids c)).
          \<forall>i \<in> set ids. i < length (rings c)" by (simp add: ball_Un) blast
      ultimately show ?thesis
        using v by (auto simp: header_def lists_def completion_def catalog_valid_def count_sizes_Inr_iff)
    qed
    with False show ?thesis by blast
  qed
  finally show ?thesis .
qed

section \<open>Assembled catalogs\<close>

text \<open>A candidate entry names a canonical cycle and its vertex walk.\<close>

definition cycle_entry ::
  "framework_topology \<Rightarrow> primitive_ring_options \<Rightarrow> ring_key \<Rightarrow> candidate_accumulator \<Rightarrow> bool" where
  "cycle_entry t options key acc \<longleftrightarrow>
     acc_key acc = key \<and> key = ring_key_of t (acc_steps acc) \<and> acc_steps acc = snd (canonical_of t (acc_steps acc))
     \<and> validate_candidate_cycle t (acc_steps acc) options = Inr (acc_vertex_walk acc)
     \<and> (acc_generator_edges acc \<noteq> [] \<or> acc_generator_kinds acc \<noteq> [])"

lemma ring_entry_cycle: "ring_entry t options key acc \<Longrightarrow> cycle_entry t options key acc"
  by (simp only: ring_entry_def cycle_entry_def) blast

lemma sorted_set_Nil_iff [simp]: "sorted_set xs = [] \<longleftrightarrow> xs = []"
  by (metis set_empty set_sorted_set)

lemma sort_Nil_iff [simp]: "sort xs = [] \<longleftrightarrow> xs = []"
  by (metis set_empty set_sort)

definition ring_of_entry :: "candidate_accumulator \<Rightarrow> primitive_ring \<Rightarrow> bool" where
  "ring_of_entry acc r \<longleftrightarrow> ring_key r = acc_key acc \<and> ring_steps r = acc_steps acc \<and>
     vertex_walk r = acc_vertex_walk acc \<and> ring_size r = length (acc_steps acc) \<and>
     set (generator_edge_indices r) = set (acc_generator_edges acc)"

lemma entry_sizes:
  assumes "cycle_entry t options key acc" and "2 \<le> min_ring_size options"
  shows "2 \<le> length (acc_steps acc)" and "length (acc_vertex_walk acc) = length (acc_steps acc)"
    and "length (edge_tokens (acc_key acc)) = length (acc_steps acc)"
proof -
  have valid: "validate_candidate_cycle t (acc_steps acc) options = Inr (acc_vertex_walk acc)"
    using assms(1) by (simp add: cycle_entry_def)
  then show "2 \<le> length (acc_steps acc)" using assms(2) unfolding validate_candidate_cycle_Inr_iff by linarith
  from valid show "length (acc_vertex_walk acc) = length (acc_steps acc)"
    unfolding validate_candidate_cycle_Inr_iff using closed_cycle_vertices(3) by blast
  have "length (fst (canonical_of t (acc_steps acc))) = length (snd (canonical_of t (acc_steps acc)))"
    unfolding canonical_of_facts(2) by simp
  also have "\<dots> = length (acc_steps acc)" by (rule steps.length_orbit[OF canonical_of_facts(1)])
  finally show "length (edge_tokens (acc_key acc)) = length (acc_steps acc)"
    using assms(1) unfolding cycle_entry_def ring_key_of_def by (metis ring_key.sel)
qed

lemma ring_of_candidate_entry:
  assumes entry: "cycle_entry t options key acc" and "2 \<le> min_ring_size options"
  shows "\<exists>r. ring_of_candidate (i, acc) = Inr r \<and> ring_id r = i \<and> ring_of_entry acc r"
proof -
  note sizes = entry_sizes[OF assms]
  from entry obtain v keys where cycle: "closed_cycle t v (acc_steps acc) (acc_vertex_walk acc) keys"
    and v: "vertex_image v = zero_shift"
    unfolding cycle_entry_def validate_candidate_cycle_Inr_iff by blast
  have "hd (acc_vertex_walk acc) = v" "distinct (acc_vertex_walk acc)"
    using closed_cycle_vertices(2)[OF cycle] cycle by (simp_all add: closed_cycle_def)
  moreover have "acc_generator_edges acc = [] \<Longrightarrow> acc_generator_kinds acc \<noteq> []"
    using entry by (simp only: cycle_entry_def) blast
  ultimately show ?thesis
    using sizes v
    by (simp add: ring_of_candidate_def make_primitive_ring_def positive_nat_def Let_def ring_of_entry_def guardE_def)
      auto
qed

lemma path_vertices_nth:
  assumes "path_vertices_from_start t v steps = Inr ws" and "i < length steps"
  shows "step_destination t (ws ! i) (steps ! i) = Inr (ws ! Suc i)"
  using assms
proof (induction steps arbitrary: v ws i)
  case (Cons s steps)
  then obtain w us where s: "step_destination t v s = Inr w" and us: "path_vertices_from_start t w steps = Inr us"
    and ws: "ws = v # us"
    by (auto simp: bindE_Inr_iff)
  have hd: "hd us = w" "us \<noteq> []" using path_vertices_ends[OF us] by auto
  show ?case
  proof (cases i)
    case 0
    then show ?thesis using s ws hd by (simp add: hd_conv_nth)
  next
    case (Suc j)
    then show ?thesis using Cons.IH[OF us] Cons.prems(2) ws by simp
  qed
qed simp

lemma closed_cycle_coherent:
  assumes cycle: "closed_cycle t v (ring_steps r) (vertex_walk r) keys" and "ring_size r = length (ring_steps r)"
  shows "walk_coherent (map edge_key (topology_edges t)) r"
proof -
  let ?vs = "vertex_walk r"
  note facts = closed_cycle_vertices[OF cycle]
  have path: "path_vertices_from_start t v (ring_steps r) = Inr (?vs @ [v])" using cycle by (simp add: closed_cycle_def)
  have "step_destination t (?vs ! i) (ring_steps r ! i) = Inr (?vs ! ((i + 1) mod ring_size r))"
    if i: "i < length ?vs" for i
  proof -
    have "step_destination t ((?vs @ [v]) ! i) (ring_steps r ! i) = Inr ((?vs @ [v]) ! Suc i)"
      by (rule path_vertices_nth[OF path]) (use i facts(3) in simp)
    moreover have "(?vs @ [v]) ! Suc i = ?vs ! ((i + 1) mod length ?vs)"
    proof (cases "Suc i < length ?vs")
      case False
      then have "Suc i = length ?vs" using i by simp
      then show ?thesis using facts(1,2) by (simp add: hd_conv_nth nth_append)
    qed (simp add: nth_append)
    ultimately show ?thesis using i assms(2) facts(3) by (simp add: nth_append)
  qed
  moreover have "i mod ring_size r < length ?vs" for i
    using facts(1,3) assms(2) by (metis length_greater_0_conv mod_less_divisor)
  ultimately show ?thesis
    using facts(3) by (simp add: walk_coherent_def leads_to_step_destination)
qed

lemma entry_ring_coherent:
  assumes adj: "valid_adjacency t adj" and entry: "cycle_entry t options key acc" and r: "ring_of_entry acc r"
  shows "ring_coherent (map edge_key (topology_edges t)) (vertex_atoms t) r"
proof -
  from entry obtain v keys where "closed_cycle t v (acc_steps acc) (acc_vertex_walk acc) keys"
    unfolding cycle_entry_def validate_candidate_cycle_Inr_iff by blast
  with r have cycle: "closed_cycle t v (ring_steps r) (vertex_walk r) keys" by (simp add: ring_of_entry_def)
  have "is_cycle t (acc_steps acc)" using cycle r unfolding is_cycle_def ring_of_entry_def by auto
  then have "in_range t (acc_steps acc)" by (rule is_cycle_in_range)
  moreover have "map (token_of t) (acc_steps acc) = edge_tokens (acc_key acc)"
    using entry canonical_of_facts(2)[of t "acc_steps acc"]
    unfolding cycle_entry_def ring_key_of_def by (metis ring_key.sel)
  ultimately have "(\<forall>step \<in> set (ring_steps r). step_edge step < length (topology_edges t)) \<and>
      map (\<lambda>step. PrimitiveRingEdgeToken (map edge_key (topology_edges t) ! step_edge step) (step_orientation step))
        (ring_steps r) = edge_tokens (ring_key r)"
    using r unfolding ring_of_entry_def in_range_def by (auto simp: token_of_def simp del: map_map cong: map_cong)
  moreover have "set (vertex_ids r) \<subseteq> set (vertex_atoms t)"
    using closed_cycle_atoms[OF adj cycle] by (auto simp: vertex_ids_def)
  moreover have "walk_coherent (map edge_key (topology_edges t)) r"
    by (rule closed_cycle_coherent[OF cycle]) (use r in \<open>simp add: ring_of_entry_def\<close>)
  ultimately show ?thesis by (simp add: ring_coherent_def)
qed

lemma rings_of_candidates_correct:
  assumes entries: "\<And>key acc. map_of cands key = Some acc \<Longrightarrow> cycle_entry t options key acc"
    and "2 \<le> min_ring_size options"
  shows "\<exists>rs. rings_of_candidates cands = Inr rs \<and> map ring_id rs = [0..<length rs]
    \<and> map ring_key rs = sort (map fst cands)
    \<and> (\<forall>r \<in> set rs. \<exists>acc. map_of cands (ring_key r) = Some acc \<and> ring_of_entry acc r)"
proof -
  let ?keys = "sort (map fst cands)"
  let ?acc = "\<lambda>key. the (map_of cands key)"
  have known: "map_of cands key = Some (?acc key)" if "key \<in> set ?keys" for key
  proof -
    have "key \<in> fst ` set cands" using that by simp
    then have "map_of cands key \<noteq> None" by (simp add: map_of_eq_None_iff)
    then show ?thesis by simp
  qed
  then have looked: "mapE (lookupE cands) ?keys = Inr (map ?acc ?keys)"
    by (intro mapE_total) (unfold lookupE_Inr_iff, rule known)
  have key: "acc_key (?acc key) = key" if "key \<in> set ?keys" for key
    using entries[OF known[OF that]] by (simp add: cycle_entry_def)
  have "\<exists>rs. mapE ring_of_candidate (List.enumerate n (map ?acc ks)) = Inr rs
      \<and> map ring_id rs = [n..<n + length ks] \<and> map ring_key rs = ks
      \<and> (\<forall>r \<in> set rs. \<exists>acc. map_of cands (ring_key r) = Some acc \<and> ring_of_entry acc r)"
    if "set ks \<subseteq> set ?keys" for ks n
    using that
  proof (induction ks arbitrary: n)
    case (Cons k ks)
    then have k: "k \<in> set ?keys" by simp
    obtain r where r: "ring_of_candidate (n, ?acc k) = Inr r" "ring_id r = n" "ring_of_entry (?acc k) r"
      using ring_of_candidate_entry[OF entries[OF known[OF k]] assms(2)] by blast
    obtain rs where rs: "mapE ring_of_candidate (List.enumerate (Suc n) (map ?acc ks)) = Inr rs"
      "map ring_id rs = [Suc n..<Suc n + length ks]" "map ring_key rs = ks"
      "\<forall>r \<in> set rs. \<exists>acc. map_of cands (ring_key r) = Some acc \<and> ring_of_entry acc r"
      using Cons.IH[of "Suc n"] Cons.prems by auto
    have "ring_key r = k" using r(3) key[OF k] by (simp add: ring_of_entry_def)
    moreover from this known[OF k] r(3)
    have "\<exists>acc. map_of cands (ring_key r) = Some acc \<and> ring_of_entry acc r" by auto
    ultimately show ?case
      using r rs by (intro exI[of _ "r # rs"]) (simp add: upt_rec)
  qed simp
  from this[of ?keys 0] obtain rs where rs:
    "mapE ring_of_candidate (List.enumerate 0 (map ?acc ?keys)) = Inr rs"
    "map ring_id rs = [0..<length ?keys]" "map ring_key rs = ?keys"
    "\<forall>r \<in> set rs. \<exists>acc. map_of cands (ring_key r) = Some acc \<and> ring_of_entry acc r" by auto
  have "length rs = length ?keys" using arg_cong[OF rs(3), of length] by simp
  with rs looked show ?thesis by (auto simp: rings_of_candidates_def)
qed

lemma add_incidence_correct:
  assumes "distinct atoms" and "tables_exact atoms n rs (bv, be)"
    and "set (vertex_ids r) \<subseteq> set atoms" and "\<forall>step \<in> set (ring_steps r). step_edge step < n"
  shows "\<exists>bv' be'. add_incidence (vertex_positions atoms) r (bv, be) = Inr (bv', be')
    \<and> tables_exact atoms n (rs @ [r]) (bv', be')"
proof -
  let ?as = "sorted_set (map atom_index (vertex_walk r))" and ?es = "sorted_set (map step_edge (ring_steps r))"
  have len: "length bv = length atoms" "length be = n" using assms(2) by (simp_all add: tables_exact_def)
  have "foldE (\<lambda>atom table. bindE (lookupE (vertex_positions atoms) atom) (\<lambda>position.
      append_id (ring_id r) position table)) ?as bv = Inr (marked (ring_id r) (map (vertex_slot atoms) ?as) bv)"
    using assms(3) by (simp add: lookup_loop_Inr_iff[OF assms(1) len(1)] vertex_ids_def)
  moreover have "foldE (append_id (ring_id r)) ?es be = Inr (marked (ring_id r) ?es be)"
    using assms(4) len(2) by (auto simp: append_ids_Inr_iff)
  moreover have "tables_exact atoms n (rs @ [r])
      (marked (ring_id r) (map (vertex_slot atoms) ?as) bv, marked (ring_id r) ?es be)"
    by (rule tables_exact_mark[OF assms(1,2)]) (use assms(3) in \<open>simp_all add: vertex_ids_def\<close>)
  ultimately show ?thesis by (simp add: add_incidence_def)
qed

lemma incidence_of_rings_correct:
  assumes "distinct (vertex_atoms t)" and "\<And>r. r \<in> set rs \<Longrightarrow> set (vertex_ids r) \<subseteq> set (vertex_atoms t)"
    and "\<And>r. r \<in> set rs \<Longrightarrow> \<forall>step \<in> set (ring_steps r). step_edge step < length (topology_edges t)"
  shows "\<exists>bv be. incidence_of_rings t rs = Inr (bv, be)
    \<and> tables_exact (vertex_atoms t) (length (topology_edges t)) rs (bv, be)"
proof -
  let ?f = "foldE (add_incidence (vertex_positions (vertex_atoms t)))"
  have "\<exists>bv' be'. ?f xs (bv, be) = Inr (bv', be')
      \<and> tables_exact (vertex_atoms t) (length (topology_edges t)) (ys @ xs) (bv', be')"
    if "set xs \<subseteq> set rs" "tables_exact (vertex_atoms t) (length (topology_edges t)) ys (bv, be)" for xs ys bv be
    using that
  proof (induction xs arbitrary: ys bv be)
    case (Cons x xs)
    then have x: "x \<in> set rs" by simp
    obtain bv1 be1 where one: "add_incidence (vertex_positions (vertex_atoms t)) x (bv, be) = Inr (bv1, be1)"
      "tables_exact (vertex_atoms t) (length (topology_edges t)) (ys @ [x]) (bv1, be1)"
      using add_incidence_correct[OF assms(1) Cons.prems(2) assms(2,3)[OF x]] by blast
    with Cons.IH[OF _ one(2)] Cons.prems(1) show ?case by simp
  qed simp
  from this[of rs "[]"] show ?thesis
    unfolding incidence_of_rings_def by (simp add: tables_exact_def ids_where_def)
qed

section \<open>The catalog of a search\<close>

lemma placeholder_fields:
  "map edge_index (placeholder_edge_searches t n) = [0..<length (placeholder_edge_searches t n)]"
  "map searched_key (placeholder_edge_searches t n) = map edge_key (topology_edges t)"
  "length (placeholder_edge_searches t n) = length (topology_edges t)"
  by (auto simp: placeholder_edge_searches_def split_def enumerate_eq_zip comp_def
    intro: nth_equalityI)

lemma sorted_keys_strict: "distinct ks \<Longrightarrow> sorted_wrt (<) (sort ks)"
  by (simp add: strict_sorted_iff)

lemma assembled_rings:
  assumes entries: "\<And>key acc. map_of cands key = Some acc \<Longrightarrow> cycle_entry t options key acc"
    and sizes: "2 \<le> min_ring_size options" and keys: "distinct (map fst cands)"
    and adj: "valid_adjacency t adj" and vertices: "sorted_wrt (<) (vertex_atoms t)"
  shows "\<exists>rs bv be. rings_of_candidates cands = Inr rs \<and> map ring_id rs = [0..<length rs]
    \<and> map ring_key rs = sort (map fst cands) \<and> sorted_wrt (<) (map ring_key rs)
    \<and> (\<forall>r \<in> set rs. \<exists>acc. map_of cands (ring_key r) = Some acc \<and> ring_of_entry acc r)
    \<and> (\<forall>r \<in> set rs. 2 \<le> ring_size r \<and> ring_coherent (map edge_key (topology_edges t)) (vertex_atoms t) r)
    \<and> count_sizes rs = Inr (map (\<lambda>n. PrimitiveRingSizeCount n (count_list (map ring_size rs) n))
        (sorted_set (map ring_size rs)))
    \<and> incidence_of_rings t rs = Inr (bv, be)
    \<and> tables_exact (vertex_atoms t) (length (topology_edges t)) rs (bv, be)"
proof -
  obtain rs where rs: "rings_of_candidates cands = Inr rs" "map ring_id rs = [0..<length rs]"
    "map ring_key rs = sort (map fst cands)"
    "\<forall>r \<in> set rs. \<exists>acc. map_of cands (ring_key r) = Some acc \<and> ring_of_entry acc r"
    using rings_of_candidates_correct[OF entries sizes] by blast
  have good: "2 \<le> ring_size r \<and> ring_coherent (map edge_key (topology_edges t)) (vertex_atoms t) r"
    if r: "r \<in> set rs" for r
  proof -
    obtain acc where acc: "map_of cands (ring_key r) = Some acc" "ring_of_entry acc r" using rs(4) r by blast
    then show ?thesis
      using entry_sizes(1)[OF entries[OF acc(1)] sizes] entry_ring_coherent[OF adj entries[OF acc(1)] acc(2)]
      by (simp add: ring_of_entry_def)
  qed
  have "distinct (vertex_atoms t)" using vertices by (simp add: strict_sorted_iff)
  then have "\<exists>bv be. incidence_of_rings t rs = Inr (bv, be)
      \<and> tables_exact (vertex_atoms t) (length (topology_edges t)) rs (bv, be)"
    by (rule incidence_of_rings_correct) (use good in \<open>simp_all add: ring_coherent_def\<close>)
  then obtain bv be where "incidence_of_rings t rs = Inr (bv, be)"
    "tables_exact (vertex_atoms t) (length (topology_edges t)) rs (bv, be)" by blast
  moreover have "count_sizes rs = Inr (map (\<lambda>n. PrimitiveRingSizeCount n (count_list (map ring_size rs) n))
        (sorted_set (map ring_size rs)))"
    using good by (simp add: count_sizes_Inr_iff)
  moreover have "sorted_wrt (<) (map ring_key rs)" unfolding rs(3) by (rule sorted_keys_strict[OF keys])
  ultimately show ?thesis using rs good by blast
qed

section \<open>Properties\<close>

text \<open>C24: The catalog constructor accepts exactly the coherent catalogs: ring identifiers and keys in order,
  every ring's steps leading from each vertex of its walk to the next, sizes counted correctly, and
  incidence tables that name exactly the rings through each vertex and edge; it returns the catalog
  with sorted incidence rows.\<close>

theorem catalog_checks_exact:
  "make_catalog c = Inr c' \<longleftrightarrow> catalog_valid c \<and>
     c' = c\<lparr>vertex_to_ring_ids := map sorted_set (vertex_to_ring_ids c),
            edge_to_ring_ids := map sorted_set (edge_to_ring_ids c)\<rparr>"
  by (rule make_catalog_Inr_iff)

end
