(* ===== verification/Ring_Example.thy ===== *)
theory Ring_Example
  imports Ring_Search
begin

text \<open>
  A concrete framework on which the properties of the ring search are applied: its topology, built by
  the model from atoms and bonds, and the searches run on it.
\<close>

text \<open>
  A ladder: silicon atoms 0, 2, 4, 6, 8, 10 in two squares that share the edge between 4 and 6, joined
  through single oxygens, with a second oxygen bridge between 0 and 2.  Its primitive rings are the
  double bridge, the two squares through it and the other square; the hexagon around both squares
  has a shortcut.
\<close>

definition ring_state :: atomic_connectivity_state where
  "ring_state = \<lparr>active_atom_indices = [0, 1, 2, 3, 4, 5, 6, 7, 8, 9, 10, 11, 12, 13],
     active_atomic_numbers = [14, 8, 14, 8, 14, 8, 14, 8, 14, 8, 14, 8, 8, 8],
     state_edges = [(0, 1, (0, 0, 0)), (1, 2, (0, 0, 0)), (2, 3, (0, 0, 0)), (3, 4, (0, 0, 0)),
       (4, 5, (0, 0, 0)), (5, 6, (0, 0, 0)), (6, 7, (0, 0, 0)), (0, 7, (0, 0, 0)),
       (4, 9, (0, 0, 0)), (8, 9, (0, 0, 0)), (8, 11, (0, 0, 0)), (10, 11, (0, 0, 0)),
       (10, 12, (0, 0, 0)), (6, 12, (0, 0, 0)), (0, 13, (0, 0, 0)), (2, 13, (0, 0, 0))],
     state_pbc = (True, True, True)\<rparr>"

definition ring_topology :: framework_topology where
  "ring_topology = projr (build_framework_topology 119 ring_state example_mapping None example_limits)"

definition ring_options :: primitive_ring_options where
  "ring_options = \<lparr>search_method = SHORTEST_PATH_PAIRS, min_ring_size = 2, max_ring_size = 6,
     max_lifted_states_per_source = 100, max_shortest_paths_per_target = 100,
     max_path_pair_combinations_per_anchor = 100, max_total_candidates = 100, max_total_rings = 100,
     generate_shortcut_witnesses = True, allow_one_member_rings = False, strict = True\<rparr>"

lemma ring_topology_eval [code]:
  "ring_topology = \<lparr>vertex_atoms = [0, 2, 4, 6, 8, 10],
    vertex_numbers = [14, 14, 14, 14, 14, 14],
    topology_pbc = (True, True, True),
    topology_edges =
      [\<lparr>edge_key = FrameworkEdgeKey 0 2 zero_shift [1] [zero_shift] ''oxo'',
          atomic_path_indices = [0, 1, 2],
          atomic_edge_image_shifts = [zero_shift, zero_shift],
          internal_linker_atomic_numbers = [8],
          raw_image_shift = zero_shift, edge_kind = ''bridge''\<rparr>,
       \<lparr>edge_key =
          FrameworkEdgeKey 0 2 zero_shift [13] [zero_shift] ''oxo'',
          atomic_path_indices = [0, 13, 2],
          atomic_edge_image_shifts = [zero_shift, zero_shift],
          internal_linker_atomic_numbers = [8],
          raw_image_shift = zero_shift, edge_kind = ''bridge''\<rparr>,
       \<lparr>edge_key = FrameworkEdgeKey 0 6 zero_shift [7] [zero_shift] ''oxo'',
          atomic_path_indices = [0, 7, 6],
          atomic_edge_image_shifts = [zero_shift, zero_shift],
          internal_linker_atomic_numbers = [8],
          raw_image_shift = zero_shift, edge_kind = ''bridge''\<rparr>,
       \<lparr>edge_key = FrameworkEdgeKey 2 4 zero_shift [3] [zero_shift] ''oxo'',
          atomic_path_indices = [2, 3, 4],
          atomic_edge_image_shifts = [zero_shift, zero_shift],
          internal_linker_atomic_numbers = [8],
          raw_image_shift = zero_shift, edge_kind = ''bridge''\<rparr>,
       \<lparr>edge_key = FrameworkEdgeKey 4 6 zero_shift [5] [zero_shift] ''oxo'',
          atomic_path_indices = [4, 5, 6],
          atomic_edge_image_shifts = [zero_shift, zero_shift],
          internal_linker_atomic_numbers = [8],
          raw_image_shift = zero_shift, edge_kind = ''bridge''\<rparr>,
       \<lparr>edge_key = FrameworkEdgeKey 4 8 zero_shift [9] [zero_shift] ''oxo'',
          atomic_path_indices = [4, 9, 8],
          atomic_edge_image_shifts = [zero_shift, zero_shift],
          internal_linker_atomic_numbers = [8],
          raw_image_shift = zero_shift, edge_kind = ''bridge''\<rparr>,
       \<lparr>edge_key =
          FrameworkEdgeKey 6 10 zero_shift [12] [zero_shift] ''oxo'',
          atomic_path_indices = [6, 12, 10],
          atomic_edge_image_shifts = [zero_shift, zero_shift],
          internal_linker_atomic_numbers = [8],
          raw_image_shift = zero_shift, edge_kind = ''bridge''\<rparr>,
       \<lparr>edge_key =
          FrameworkEdgeKey 8 10 zero_shift [11] [zero_shift] ''oxo'',
          atomic_path_indices = [8, 11, 10],
          atomic_edge_image_shifts = [zero_shift, zero_shift],
          internal_linker_atomic_numbers = [8],
          raw_image_shift = zero_shift, edge_kind = ''bridge''\<rparr>],
    vertex_degree = [3, 3, 3, 3, 2, 2],
    component_labels = [0, 0, 0, 0, 0, 0], n_components = 1,
    topology_roles =
      \<lparr>resolved_atom_indices =
         [0, 1, 2, 3, 4, 5, 6, 7, 8, 9, 10, 11, 12, 13],
         resolved_atomic_numbers =
           [14, 8, 14, 8, 14, 8, 14, 8, 14, 8, 14, 8, 8, 8],
         resolved_roles =
           [VERTEX, LINKER, VERTEX, LINKER, VERTEX, LINKER, VERTEX, LINKER,
            VERTEX, LINKER, VERTEX, LINKER, LINKER, LINKER],
         vertex_atom_indices = [0, 2, 4, 6, 8, 10],
         linker_atom_indices = [1, 3, 5, 7, 9, 11, 12, 13],
         spectator_atom_indices = [], excluded_atom_indices = []\<rparr>,
    projection_report =
      \<lparr>role_counts =
         [(VERTEX, 6), (LINKER, 8), (SPECTATOR, 0), (EXCLUDED, 0)],
         report_linkers = [1, 3, 5, 7, 9, 11, 12, 13],
         linker_framework_degree = [2, 2, 2, 2, 2, 2, 2, 2],
         linker_used = [True, True, True, True, True, True, True, True],
         candidate_path_count = 48, accepted_edge_count = 8,
         duplicate_path_count = 8, ignored_atomic_edge_count = 0,
         parallel_vertex_pair_count = 1, self_image_edge_count = 0\<rparr>,
    validation = None\<rparr>"
  by code_simp

lemma ring_topology_example:
  "length (topology_edges ring_topology) = 8" "vertex_atoms ring_topology = [0, 2, 4, 6, 8, 10]"
  "half_edge_adjacency ring_topology = Inr (projr (half_edge_adjacency ring_topology))"
  "distinct (map edge_key (topology_edges ring_topology))"
  by code_simp+

definition ring_outcome :: search_outcome where
  "ring_outcome = projr (search_primitives ring_topology ring_options)"

lemma ring_search_example:
  "(case search_primitives ring_topology ring_options of
      Inl e \<Rightarrow> False
    | Inr out \<Rightarrow> map (length \<circ> acc_steps \<circ> snd) (candidate_map (final_state out)) = [2, 4, 4, 4]
        \<and> complete_through out = 6
        \<and> [PrimitiveRingStep 4 Backward, PrimitiveRingStep 5 Forward, PrimitiveRingStep 7 Forward,
            PrimitiveRingStep 6 Backward] \<in> acc_steps ` snd ` set (candidate_map (final_state out)))"
  by code_simp

lemma ring_outcome_example: "search_primitives ring_topology ring_options = Inr ring_outcome"
  using ring_search_example by (auto simp: ring_outcome_def split: sum.splits)

lemma ring_outcome_square:
  "[PrimitiveRingStep 4 Backward, PrimitiveRingStep 5 Forward, PrimitiveRingStep 7 Forward, PrimitiveRingStep 6 Backward]
    \<in> acc_steps ` snd ` set (candidate_map (final_state ring_outcome))"
  using ring_search_example ring_outcome_example by simp

definition hexagon :: "ring_step list" where
  "hexagon = [PrimitiveRingStep 0 Forward, PrimitiveRingStep 3 Forward, PrimitiveRingStep 5 Forward,
     PrimitiveRingStep 7 Forward, PrimitiveRingStep 6 Backward, PrimitiveRingStep 2 Backward]"

definition hexagon_candidate :: cycle_candidate where
  "hexagon_candidate = \<lparr>candidate_steps = hexagon,
     candidate_vertex_walk = map source_start [0, 2, 4, 8, 10, 6], certified_shortest_pairs = [LiftedVertexPair (source_start 0) (source_start 8)],
     generator_kind = ''even_shortest_path_pair'', generator_anchor = (0, 8, zero_shift)\<rparr>"

lemma hexagon_example:
  "validate_candidate_cycle ring_topology (candidate_steps hexagon_candidate) ring_options
     = Inr (candidate_vertex_walk hexagon_candidate)"
  "indexed_query_complete_through (projr (build_lifted_index ring_topology (projr (half_edge_adjacency ring_topology)) ring_options))
     (source_start 0) (3 - 1) = Inr True"
  "indexed_distance (projr (build_lifted_index ring_topology (projr (half_edge_adjacency ring_topology)) ring_options))
     (source_start 0) (source_start 8) = Inr (Some 3)"
  "2 \<le> min_ring_size ring_options"
  "build_lifted_index ring_topology (projr (half_edge_adjacency ring_topology)) ring_options
     = Inr (projr (build_lifted_index ring_topology (projr (half_edge_adjacency ring_topology)) ring_options))"
  "map_sum id fst (primitive_candidate_passes ring_topology (projr (half_edge_adjacency ring_topology))
     (projr (build_lifted_index ring_topology (projr (half_edge_adjacency ring_topology)) ring_options))
     hexagon_candidate ring_options initial_stats) = Inr (Some False)"
  by code_simp+

lemma hexagon_instances:
  "instances_along ring_topology (hd (candidate_vertex_walk hexagon_candidate)) (candidate_steps hexagon_candidate)
     = Inr (map (\<lambda>e. (e, zero_shift)) [0, 3, 5, 7, 6, 2])"
  "find_external_shortcut_witness ring_topology (projr (half_edge_adjacency ring_topology))
     (candidate_vertex_walk hexagon_candidate) (candidate_steps hexagon_candidate) 2 100 =
   Inr (Some \<lparr>endpoint_pair = LiftedVertexPair (source_start 4) (source_start 6), first_cycle_arc_length = 3,
     second_cycle_arc_length = 3, shortcut_steps = [PrimitiveRingStep 4 Forward],
     shortcut_vertices = [source_start 4, source_start 6], shortcut_length = 1\<rparr>)"
  by code_simp+

end
