(* ===== verification/Edge_Shortest.thy ===== *)
theory Edge_Shortest
  imports Removed_Edge_Search Ring_Catalog Ring_Example
begin

text \<open>
  The cycles behind the removed-edge search: an edge closed by a shortest path that avoids it.  The
  lemmas show that such a cycle is closed and lifted-simple, so that candidate validation accepts
  it, and that it has no shortcut: a walk between two of its vertices either avoids the edge, and
  is then no shorter than the path between them, or uses it, and is then no shorter than the rest
  of the cycle.
\<close>

section \<open>Vertices of a shortest walk\<close>

lemma shortest_walk_part:
  assumes "walk dest v ss w" and "exact_distance dest v w (length ss)" and "i \<le> j" "j \<le> length ss"
    and "walk dest v (take i ss) x" and "walk dest v (take j ss) y"
  shows "exact_distance dest x y (j - i)"
proof -
  have "take j ss = take i ss @ take (j - i) (drop i ss)"
    using assms(3) by (metis le_add_diff_inverse take_add)
  with assms(6) obtain x' where "walk dest v (take i ss) x'" "walk dest x' (take (j - i) (drop i ss)) y"
    by (auto simp: walk_append)
  then have xy: "walk dest x (take (j - i) (drop i ss)) y" using walk_unique[OF assms(5)] by blast
  have yw: "walk dest y (drop j ss) w"
    using assms(1,6) append_take_drop_id[of j ss] walk_append[of dest v "take j ss" "drop j ss" w] walk_unique by metis
  have "j - i \<le> length zs" if "walk dest x zs y" for zs
  proof -
    have "walk dest v (take i ss @ zs @ drop j ss) w" using assms(5) that yw by (auto simp: walk_append)
    then have "length ss \<le> length (take i ss @ zs @ drop j ss)" using assms(2) unfolding exact_distance_def by blast
    then show ?thesis using assms(3,4) by simp
  qed
  with xy assms(3,4) show ?thesis unfolding exact_distance_def by auto
qed

lemma path_vertices_take:
  assumes "path_vertices_from_start t v ss = Inr ws" and "i \<le> length ss"
  shows "walk (lifted_dest t) v (take i ss) (ws ! i)"
  using assms
proof (induction ss arbitrary: v ws i)
  case (Cons s ss)
  then obtain u us where "step_destination t v s = Inr u" "path_vertices_from_start t u ss = Inr us" "ws = v # us"
    by (auto simp: bindE_Inr_iff)
  with Cons.IH[OF this(2)] Cons.prems(2) show ?case by (cases i) (auto simp: lifted_dest_iff)
qed auto

lemma walk_take_exists: "walk dest v ss w \<Longrightarrow> \<exists>x. walk dest v (take i ss) x"
  using walk_append[of dest v "take i ss" "drop i ss" w] by auto

lemma walk_without_step_back:
  assumes "removed_dest t e v s = Some w"
  shows "removed_dest t e w (step_reversed s) = Some v"
proof -
  from assms have dest: "lifted_dest t v s = Some w" and key: "physical_instance_key t v s \<noteq> Inr (e, zero_shift)"
    by (auto simp: removed_dest_def split: if_splits)
  from physical_instance_reversed[of t v s w] dest key show ?thesis
    by (simp add: removed_dest_def lifted_step_back lifted_dest_iff)
qed

interpretation without: undirected_walks "removed_dest t e" step_reversed for t e
  by unfold_locales (rule walk_without_step_back)

section \<open>Instances on a walk\<close>

lemma instance_ends:
  assumes "step_destination t v s = Inr w" and "physical_instance_key t v s = Inr key"
  shows "{v, w} = {LiftedVertexRef (vertex_i (edge_key (topology_edges t ! fst key))) (snd key),
     LiftedVertexRef (vertex_j (edge_key (topology_edges t ! fst key)))
       (add_shift (snd key) (image_shift (edge_key (topology_edges t ! fst key))))}"
proof -
  obtain a x k d where "v = LiftedVertexRef a x" "s = PrimitiveRingStep k d"
    by (metis lifted_vertex.exhaust ring_step.exhaust)
  with assms show ?thesis
    by (cases d) (auto simp: step_destination_Inr_iff physical_instance_Inr_iff Let_def)
qed

lemma instances_nth:
  assumes "instances_along t v ss = Inr keys" and "path_vertices_from_start t v ss = Inr ws" and "i < length ss"
  shows "i < length keys" and "physical_instance_key t (ws ! i) (ss ! i) = Inr (keys ! i)"
proof -
  have "i < length keys \<and> physical_instance_key t (ws ! i) (ss ! i) = Inr (keys ! i)"
    using assms
  proof (induction ss arbitrary: v ws keys i)
    case (Cons s ss)
    then obtain u us k ks where "step_destination t v s = Inr u" "path_vertices_from_start t u ss = Inr us"
      "ws = v # us" "physical_instance_key t v s = Inr k" "instances_along t u ss = Inr ks" "keys = k # ks"
      by (auto simp: bindE_Inr_iff)
    with Cons.IH[OF this(5,2)] Cons.prems(3) show ?case by (cases i) auto
  qed simp
  then show "i < length keys" and "physical_instance_key t (ws ! i) (ss ! i) = Inr (keys ! i)" by blast+
qed

lemma instances_length: "instances_along t v ss = Inr keys \<Longrightarrow> length keys = length ss"
  by (induction ss arbitrary: v keys) (auto simp: bindE_Inr_iff)

lemma distinct_vertices_instances:
  assumes path: "path_vertices_from_start t v ss = Inr ws" and "distinct ws" and keys: "instances_along t v ss = Inr keys"
  shows "distinct keys"
proof -
  have len: "length keys = length ss" "length ws = Suc (length ss)"
    using instances_length[OF keys] path_vertices_ends[OF path] by simp_all
  have False if ij: "i < j" "j < length ss" "keys ! i = keys ! j" for i j
  proof -
    have ends: "{ws ! k, ws ! Suc k} = {LiftedVertexRef (vertex_i (edge_key (topology_edges t ! fst (keys ! k)))) (snd (keys ! k)),
       LiftedVertexRef (vertex_j (edge_key (topology_edges t ! fst (keys ! k))))
       (add_shift (snd (keys ! k)) (image_shift (edge_key (topology_edges t ! fst (keys ! k)))))}"
      if "k < length ss" for k
      by (rule instance_ends[OF path_vertices_nth[OF path that] instances_nth(2)[OF keys path that]])
    have "i < length ss" using ij by simp
    then have "{ws ! i, ws ! Suc i} = {ws ! j, ws ! Suc j}" using ends[of i] ends[of j] ij(2,3) by simp
    then have "ws ! i = ws ! j \<or> ws ! i = ws ! Suc j" by blast
    then show False using ij len assms(2) by (auto simp: nth_eq_iff_index_eq)
  qed
  then show ?thesis unfolding distinct_conv_nth len by (metis linorder_neqE_nat)
qed

lemma walk_without_instances:
  assumes "walk (removed_dest t e) v ss w" and "instances_along t v ss = Inr keys"
  shows "(e, zero_shift) \<notin> set keys"
  using assms
proof (induction ss arbitrary: v keys)
  case (Cons s ss)
  from Cons.prems(1) obtain u where u: "removed_dest t e v s = Some u" "walk (removed_dest t e) u ss w" by auto
  then have "step_destination t v s = Inr u" "physical_instance_key t v s \<noteq> Inr (e, zero_shift)"
    by (auto simp: removed_dest_def lifted_dest_iff split: if_splits)
  with Cons.IH[OF u(2)] Cons.prems(2) show ?case by (auto simp: bindE_Inr_iff)
qed simp

section \<open>Edge-shortest cycles\<close>

definition edge_start :: "framework_topology \<Rightarrow> nat \<Rightarrow> lifted_vertex" where
  "edge_start t e = source_start (vertex_i (edge_key (topology_edges t ! e)))"

definition edge_target :: "framework_topology \<Rightarrow> nat \<Rightarrow> lifted_vertex" where
  "edge_target t e = LiftedVertexRef (vertex_j (edge_key (topology_edges t ! e)))
     (image_shift (edge_key (topology_edges t ! e)))"

definition edge_shortest_cycle :: "framework_topology \<Rightarrow> nat \<Rightarrow> ring_step list \<Rightarrow> bool" where
  "edge_shortest_cycle t e steps \<longleftrightarrow> e < length (topology_edges t) \<and>
     (\<exists>path \<in> shortest_paths (removed_dest t e) (edge_start t e) (edge_target t e).
        steps = path @ [PrimitiveRingStep e Backward])"

lemma removed_edge_ends_eq:
  "e < length (topology_edges t) \<Longrightarrow> removed_edge_ends t e = Inr (edge_start t e, edge_target t e)"
  by (simp add: removed_edge_ends_def edge_at_def nthE_def edge_start_def edge_target_def)

lemma edge_back:
  assumes "e < length (topology_edges t)"
  shows "step_destination t (edge_target t e) (PrimitiveRingStep e Backward) = Inr (edge_start t e)"
    and "physical_instance_key t (edge_target t e) (PrimitiveRingStep e Backward) = Inr (e, zero_shift)"
  using assms
  by (simp_all add: edge_target_def edge_start_def source_start_def step_destination_Inr_iff physical_instance_Inr_iff
    Let_def)

lemma edge_path:
  assumes "edge_shortest_cycle t e steps"
  obtains path ws where "steps = path @ [PrimitiveRingStep e Backward]" "e < length (topology_edges t)"
    "walk (removed_dest t e) (edge_start t e) path (edge_target t e)"
    "path_vertices_from_start t (edge_start t e) path = Inr ws" "length ws = length steps" "last ws = edge_target t e"
    "\<And>i j. i \<le> j \<Longrightarrow> j < length ws \<Longrightarrow> exact_distance (removed_dest t e) (ws ! i) (ws ! j) (j - i)"
    "ws ! 0 = edge_start t e" "ws ! (length ws - 1) = edge_target t e"
proof -
  from assms obtain path where path: "steps = path @ [PrimitiveRingStep e Backward]" "e < length (topology_edges t)"
    "walk (removed_dest t e) (edge_start t e) path (edge_target t e)"
    "exact_distance (removed_dest t e) (edge_start t e) (edge_target t e) (length path)"
    by (auto simp: edge_shortest_cycle_def shortest_paths_def)
  from walk_without[OF path(3)] obtain ws where ws: "path_vertices_from_start t (edge_start t e) path = Inr ws"
    "last ws = edge_target t e" by (auto simp: walk_lifted)
  note ends = path_vertices_ends[OF ws(1)]
  have part: "walk (removed_dest t e) (edge_start t e) (take i path) (ws ! i)" if i: "i \<le> length path" for i
  proof -
    obtain x where x: "walk (removed_dest t e) (edge_start t e) (take i path) x"
      using walk_take_exists[OF path(3)] by blast
    from walk_unique[OF walk_without[OF this] path_vertices_take[OF ws(1) i]] x show ?thesis by simp
  qed
  have "exact_distance (removed_dest t e) (ws ! i) (ws ! j) (j - i)" if "i \<le> j" "j < length ws" for i j
    using shortest_walk_part[OF path(3,4) that(1) _ part part] that ends by simp
  moreover have "ws ! 0 = edge_start t e" using ends by (simp add: hd_conv_nth[symmetric])
  moreover have "ws ! (length ws - 1) = edge_target t e" using ends ws(2) by (simp add: last_conv_nth)
  ultimately show thesis using that path ws ends by simp
qed

lemma edge_shortest_closed:
  assumes "edge_shortest_cycle t e steps"
  shows "\<exists>vs keys. closed_cycle t (edge_start t e) steps vs keys \<and> length vs = length steps
    \<and> vs ! 0 = edge_start t e \<and> vs ! (length vs - 1) = edge_target t e \<and>
    (\<forall>i j. i \<le> j \<longrightarrow> j < length vs \<longrightarrow> exact_distance (removed_dest t e) (vs ! i) (vs ! j) (j - i))"
proof -
  from edge_path[OF assms] obtain path ws where path: "steps = path @ [PrimitiveRingStep e Backward]"
      "e < length (topology_edges t)" "walk (removed_dest t e) (edge_start t e) path (edge_target t e)"
    and ws: "path_vertices_from_start t (edge_start t e) path = Inr ws" "length ws = length steps" "last ws = edge_target t e"
    and far: "\<And>i j. i \<le> j \<Longrightarrow> j < length ws \<Longrightarrow> exact_distance (removed_dest t e) (ws ! i) (ws ! j) (j - i)"
    and ends: "ws ! 0 = edge_start t e" "ws ! (length ws - 1) = edge_target t e" by blast
  obtain keys where keys: "instances_along t (edge_start t e) path = Inr keys" using instances_total[OF ws(1)] by blast
  have neq: "ws ! i \<noteq> ws ! j" if "i < j" "j < length ws" for i j
  proof
    assume "ws ! i = ws ! j"
    with far[of i j] that have "exact_distance (removed_dest t e) (ws ! i) (ws ! i) (j - i)" by simp
    from exact_distance_unique[OF this, of 0] that(1) show False by (simp add: exact_distance_0)
  qed
  then have simple: "distinct ws" unfolding distinct_conv_nth by (metis linorder_neqE_nat)
  have "path_vertices_from_start t (edge_start t e) steps = Inr (ws @ [edge_start t e])"
    unfolding path(1) path_vertices_append using ws(1,3) edge_back(1)[OF path(2)] by simp
  moreover have "instances_along t (edge_start t e) steps = Inr (keys @ [(e, zero_shift)])"
    unfolding path(1) by (rule instances_append[OF ws(1) keys]) (simp add: ws(3) edge_back[OF path(2)])
  moreover have "distinct (keys @ [(e, zero_shift)])"
    using distinct_vertices_instances[OF ws(1) simple keys] walk_without_instances[OF path(3) keys] by simp
  ultimately have "closed_cycle t (edge_start t e) steps ws (keys @ [(e, zero_shift)])"
    using simple path(1) by (simp add: closed_cycle_def)
  then show ?thesis using ws(2) ends far by blast
qed

section \<open>No shortcuts\<close>

lemma uses_edge_ends:
  assumes "physical_instance_key t u s = Inr (e, zero_shift)" and "lifted_dest t u s = Some w"
  shows "{u, w} = {edge_start t e, edge_target t e}"
  using instance_ends[of t u s w, OF _ assms(1)] assms(2)
  by (simp add: lifted_dest_iff edge_start_def edge_target_def source_start_def)

lemma first_use:
  assumes "walk (lifted_dest t) x zs y" and "\<not> walk (removed_dest t e) x zs y"
  shows "\<exists>p q zs1 zs2. walk (removed_dest t e) x zs1 p \<and> walk (lifted_dest t) q zs2 y
    \<and> length zs = Suc (length zs1 + length zs2)
    \<and> p \<in> {edge_start t e, edge_target t e} \<and> q \<in> {edge_start t e, edge_target t e}"
  using assms
proof (induction zs arbitrary: x)
  case (Cons z zs)
  from Cons.prems(1) obtain u where u: "lifted_dest t x z = Some u" "walk (lifted_dest t) u zs y" by auto
  show ?case
  proof (cases "physical_instance_key t x z = Inr (e, zero_shift)")
    case True
    have "x \<in> {edge_start t e, edge_target t e}" "u \<in> {edge_start t e, edge_target t e}"
      using uses_edge_ends[OF True u(1)] by blast+
    then show ?thesis using u(2) by (intro exI[of _ x] exI[of _ u] exI[of _ "[]"] exI[of _ zs]) simp
  next
    case False
    then have z: "removed_dest t e x z = Some u" using u(1) by (simp add: removed_dest_def)
    then have "\<not> walk (removed_dest t e) u zs y" using Cons.prems(2) by simp
    from Cons.IH[OF u(2) this] obtain p q zs1 zs2 where
      "walk (removed_dest t e) u zs1 p" "walk (lifted_dest t) q zs2 y" "length zs = Suc (length zs1 + length zs2)"
      "p \<in> {edge_start t e, edge_target t e}" "q \<in> {edge_start t e, edge_target t e}" by blast
    then show ?thesis
      using z by (intro exI[of _ p] exI[of _ q] exI[of _ "z # zs1"] exI[of _ zs2]) simp
  qed
qed simp

lemma last_use:
  assumes "walk (lifted_dest t) q zs y" and "q \<in> {edge_start t e, edge_target t e}"
  shows "\<exists>q' zs'. walk (removed_dest t e) q' zs' y \<and> length zs' \<le> length zs \<and> q' \<in> {edge_start t e, edge_target t e}"
  using assms
proof (induction "length zs" arbitrary: zs q rule: less_induct)
  case less
  show ?case
  proof (cases "walk (removed_dest t e) q zs y")
    case True
    then show ?thesis using less.prems(2) by blast
  next
    case False
    from first_use[OF less.prems(1) False] obtain zs2 q' where zs2: "walk (lifted_dest t) q' zs2 y"
      "length zs2 < length zs" "q' \<in> {edge_start t e, edge_target t e}" by force
    from less.hyps[OF _ zs2(1,3)] zs2(2) obtain q'' zs' where
      "walk (removed_dest t e) q'' zs' y" "length zs' \<le> length zs2" "q'' \<in> {edge_start t e, edge_target t e}" by auto
    then show ?thesis using zs2(2) by (intro exI[of _ q''] exI[of _ zs']) simp
  qed
qed

lemma edge_shortest_distance:
  assumes apart: "\<forall>i j. i \<le> j \<longrightarrow> j < length vs \<longrightarrow> exact_distance (removed_dest t e) (vs ! i) (vs ! j) (j - i)"
    and ends: "vs ! 0 = edge_start t e" "vs ! (length vs - 1) = edge_target t e"
    and "i \<le> j" "j < length vs" and "exact_distance (lifted_dest t) (vs ! i) (vs ! j) d"
  shows "min (j - i) (length vs - (j - i)) \<le> d"
proof -
  note far = apart[rule_format]
  from assms(6) obtain zs where zs: "walk (lifted_dest t) (vs ! i) zs (vs ! j)" "length zs = d"
    by (auto simp: exact_distance_def)
  have shortest: "k \<le> length ws" if "exact_distance (removed_dest t e) x y k" "walk (removed_dest t e) x ws y" for x y k ws
    using that by (simp add: exact_distance_def)
  have to_end: "(p = edge_start t e \<longrightarrow> k \<le> length ws) \<and> (p = edge_target t e \<longrightarrow> length vs - 1 - k \<le> length ws)"
    if k: "k < length vs" "walk (removed_dest t e) (vs ! k) ws p" for k ws p
  proof -
    have "exact_distance (removed_dest t e) (vs ! k) (edge_start t e) k"
      using without.distance_sym[OF far[of 0 k]] k(1) ends(1) by simp
    moreover have "exact_distance (removed_dest t e) (vs ! k) (edge_target t e) (length vs - 1 - k)"
      using far[of k "length vs - 1"] k(1) ends(2) by simp
    ultimately show ?thesis using shortest k(2) by blast
  qed
  show ?thesis
  proof (cases "walk (removed_dest t e) (vs ! i) zs (vs ! j)")
    case True
    from shortest[OF far[OF assms(4,5)] True] zs(2) show ?thesis by simp
  next
    case False
    from first_use[OF zs(1) False] obtain p q zs1 zs2 where
      one: "walk (removed_dest t e) (vs ! i) zs1 p" "p \<in> {edge_start t e, edge_target t e}"
      and two: "walk (lifted_dest t) q zs2 (vs ! j)" "q \<in> {edge_start t e, edge_target t e}"
      and len: "length zs = Suc (length zs1 + length zs2)" by blast
    from last_use[OF two] obtain q' zs' where three: "walk (removed_dest t e) q' zs' (vs ! j)" "length zs' \<le> length zs2"
      "q' \<in> {edge_start t e, edge_target t e}" by blast
    note reversed = without.walk_reverse[OF three(1)]
    have i: "i < length vs" using assms(4,5) by simp
    from to_end[OF i one(1)] to_end[OF assms(5) reversed] one(2) three(3)
    have "i \<le> length zs1 \<or> length vs - 1 - i \<le> length zs1" "j \<le> length zs' \<or> length vs - 1 - j \<le> length zs'" by auto
    then show ?thesis using len zs(2) three(2) assms(4,5) by auto
  qed
qed

lemma edge_shortest_primitive:
  assumes "edge_shortest_cycle t e steps"
  shows "primitive_cycle t steps"
proof -
  from edge_shortest_closed[OF assms] obtain vs keys where cycle: "closed_cycle t (edge_start t e) steps vs keys"
    and ends: "vs ! 0 = edge_start t e" "vs ! (length vs - 1) = edge_target t e"
    and far: "\<forall>i j. i \<le> j \<longrightarrow> j < length vs \<longrightarrow> exact_distance (removed_dest t e) (vs ! i) (vs ! j) (j - i)" by blast
  have "length vs div 2 \<le> d" if i: "i < length vs"
    and d: "exact_distance (lifted_dest t) (vs ! i) (vs ! ((i + length vs div 2) mod length vs)) d" for i d
  proof (cases "i + length vs div 2 < length vs")
    case True
    with d have "exact_distance (lifted_dest t) (vs ! i) (vs ! (i + length vs div 2)) d" by simp
    then have "min (i + length vs div 2 - i) (length vs - (i + length vs div 2 - i)) \<le> d"
      by (rule edge_shortest_distance[OF far ends le_add1 True])
    then show ?thesis by linarith
  next
    case False
    define h where "h = length vs div 2"
    obtain k where k: "i + h = length vs + k" using False by (metis h_def le_iff_add not_less)
    have h: "h \<le> length vs - h" "h \<le> length vs" by (simp_all add: h_def)
    have "k < length vs" using k i h(2) by linarith
    with d k have "exact_distance (lifted_dest t) (vs ! i) (vs ! k) d" by (simp add: h_def[symmetric])
    from edge_shortest_distance[OF far ends _ i lifted.distance_sym[OF this]] k h(2)
    have "min (i - k) (length vs - (i - k)) \<le> d" by simp
    moreover have "i - k = length vs - h" using k h(2) by simp
    ultimately have "min (length vs - h) h \<le> d" using h(2) by simp
    with h(1) show ?thesis by (simp add: h_def[symmetric])
  qed
  then have "shortcut_free t vs" unfolding shortcut_free_antipodal[OF cycle] by blast
  then show ?thesis using cycle unfolding primitive_cycle_def by blast
qed

section \<open>Properties\<close>

text \<open>C3: The removed-edge search on a valid framework always ends.  If it reports the state limit, more states
  than the limit lie within the depth bound; otherwise it reports the exact distance between the ends
  of the edge without that edge, or that none is within the bound, and counting and backtracking its
  predecessors give exactly the shortest paths around the edge.\<close>

theorem removed_edge_search_exact:
  assumes "half_edge_adjacency t = Inr adj" and "e < length (topology_edges t)"
    and "edge_start t e \<noteq> edge_target t e"
  shows "\<exists>s. search_removed_edge t adj e options = Inr s
    \<and> (if state_limit_exceeded s
       then \<exists>ws. distinct ws \<and> max_lifted_states_per_source options < length ws
         \<and> (\<forall>w \<in> set ws. \<exists>k \<le> max_ring_size options - 1. exact_distance (removed_dest t e) (edge_start t e) w k)
       else case target_distance s of
           None \<Rightarrow> \<forall>ss. walk (removed_dest t e) (edge_start t e) ss (edge_target t e) \<longrightarrow> max_ring_size options - 1 < length ss
         | Some d \<Rightarrow> exact_distance (removed_dest t e) (edge_start t e) (edge_target t e) d \<and> d \<le> max_ring_size options - 1
             \<and> (\<exists>ps. backtrack_shortest_paths (edge_start t e) (edge_target t e) (bfs_distance s) (bfs_predecessors s) = Some ps
                  \<and> distinct ps \<and> set ps = shortest_paths (removed_dest t e) (edge_start t e) (edge_target t e)
                  \<and> count_predecessor_paths (edge_start t e) (edge_target t e) (bfs_distance s) (bfs_predecessors s) limit
                      = (min (limit + 1) (length ps), length ps \<le> limit)))"
proof -
  have adj: "valid_adjacency t adj" using assms(1) by (simp add: valid_adjacency_def)
  have "atom_index (edge_start t e) \<in> set (vertex_atoms t)"
    using lifted_dest_atom[OF adj] edge_back(1)[OF assms(2)] by (simp add: lifted_dest_iff)
  from search_removed_edge_correct[OF adj removed_edge_ends_eq[OF assms(2)] assms(3) this, of options] obtain s where
    s: "search_removed_edge t adj e options = Inr s"
      "state_limit_exceeded s \<Longrightarrow> beyond_limit t e (max_lifted_states_per_source options) (max_ring_size options - 1) (edge_start t e)"
      "\<not> state_limit_exceeded s \<Longrightarrow> removed_result t e (max_ring_size options - 1) (edge_start t e) (edge_target t e) s"
    by (auto split: if_splits)
  show ?thesis
  proof (cases "state_limit_exceeded s")
    case True
    then show ?thesis using s(1,2) unfolding beyond_limit_def by auto
  next
    case False
    note result = s(3)[OF False]
    show ?thesis
    proof (cases "target_distance s")
      case None
      have "max_ring_size options - 1 < length ss"
        if "walk (removed_dest t e) (edge_start t e) ss (edge_target t e)" for ss
        using exact_distance_exists[OF that] result None by (auto simp: removed_result_def not_le[symmetric])
      then show ?thesis using s(1) False None by auto
    next
      case (Some d)
      from result Some have search: "search_exact (removed_dest t e) (edge_start t e) (cutoff (max_ring_size options - 1) s)
          (bfs_distance s) (bfs_predecessors s)"
        and d: "exact_distance (removed_dest t e) (edge_start t e) (edge_target t e) d" "d \<le> max_ring_size options - 1"
        by (simp_all add: removed_result_def)
      have cut: "d \<le> cutoff (max_ring_size options - 1) s" using d(2) Some by (simp add: cutoff_def)
      from backtrack_shortest_paths_exact[OF search d(1) cut] obtain ps where
        ps: "backtrack_shortest_paths (edge_start t e) (edge_target t e) (bfs_distance s) (bfs_predecessors s) = Some ps"
          "distinct ps" "set ps = shortest_paths (removed_dest t e) (edge_start t e) (edge_target t e)" by blast
      have "length ps = card (shortest_paths (removed_dest t e) (edge_start t e) (edge_target t e))"
        using distinct_card[OF ps(2)] ps(3) by simp
      with count_predecessor_paths_exact[OF search d(1) cut, of limit] ps d s(1) False Some show ?thesis by auto
    qed
  qed
qed

lemma removed_edge_example:
  "edge_start ring_topology 4 \<noteq> edge_target ring_topology 4"
  "map_sum id (\<lambda>s. (state_limit_exceeded s, target_distance s))
     (search_removed_edge ring_topology (projr (half_edge_adjacency ring_topology)) 4 ring_options) = Inr (False, Some 3)"
  by code_simp+

theorem removed_edge_search_exact_witness:
  "exact_distance (removed_dest ring_topology 4) (edge_start ring_topology 4) (edge_target ring_topology 4) 3"
  using removed_edge_search_exact[OF ring_topology_example(3) _ removed_edge_example(1), of ring_options 1]
    removed_edge_example(2) by (auto simp: ring_topology_example(1))

end
