(* ===== verification/Ring_Generate.thy ===== *)
theory Ring_Generate
  imports Ring_Accept
begin

text \<open>
  Candidate generation: every primitive cycle of even size is a pair of shortest paths to the vertex
  opposite its first one, every primitive cycle of odd size two shortest paths and the edge opposite
  its first vertex, so \<open>_generate_even_candidates\<close> and \<open>_generate_odd_candidates\<close> record all of
  them unless a limit is noted.
\<close>

section \<open>Paths, instances and cycles\<close>

lemma path_instance_keys_correct:
  assumes "path_vertices_from_start t v steps = Inr vs" and "instances_along t v steps = Inr keys"
  shows "path_instance_keys t v steps = Inr (if distinct keys then rev keys else [])"
proof -
  have "path_instance_loop t v steps seen = Inr (if distinct keys \<and> set keys \<inter> set seen = {} then rev keys @ seen else [])"
    for seen
    using assms
  proof (induction steps arbitrary: v vs keys seen)
    case (Cons s ss)
    then obtain w ws key keys' where "step_destination t v s = Inr w" "path_vertices_from_start t w ss = Inr ws"
      "physical_instance_key t v s = Inr key" "instances_along t w ss = Inr keys'" "keys = key # keys'"
      by (auto simp: bindE_Inr_iff)
    with Cons.IH[OF this(2,4), of "key # seen"] show ?case by auto
  qed auto
  from this[of "[]"] show ?thesis by (simp add: path_instance_keys_def)
qed

lemma cycle_at:
  assumes "is_cycle t ss" and "path_vertices_from_start t start ss = Inr us"
  shows "\<exists>keys. closed_cycle t start ss (butlast us) keys \<and> us = butlast us @ [start]"
proof -
  from assms(1) obtain v vs keys where cycle: "closed_cycle t v ss vs keys" by (auto simp: is_cycle_def)
  then have path: "path_vertices_from_start t v ss = Inr (vs @ [v])" "ss \<noteq> []" by (simp_all add: closed_cycle_def)
  from path_vertices_start_translate[OF path(1) assms(2) path(2)] obtain d where
    d: "start = translate d v" "us = map (translate d) (vs @ [v])" by blast
  with closed_cycle_translate[OF cycle, of d] show ?thesis by (auto simp: butlast_append)
qed

lemma cycle_loop_search_error:
  assumes "path_vertices_from_start t v steps = Inr vs" and "cycle_loop t v steps seen w = Inl e"
  shows "\<exists>m. e = PrimitiveRingSearchError m"
  using assms
proof (induction steps arbitrary: v vs seen w)
  case (Cons s ss)
  then obtain u us where u: "step_destination t v s = Inr u" "path_vertices_from_start t u ss = Inr us"
    by (auto simp: bindE_Inr_iff)
  obtain key where "physical_instance_key t v s = Inr key" using physical_instance_total[OF u(1)] by blast
  with Cons.prems(2) u(1) show ?case
    by (auto simp: bindE_Inl_iff split: if_splits dest: Cons.IH[OF u(2)])
qed simp

lemma validate_search_error:
  assumes "path_vertices_from_start t v steps = Inr vs" and "steps \<noteq> []"
    and "validate_candidate_cycle t steps options = Inl e"
  shows "\<exists>m. e = PrimitiveRingSearchError m"
proof -
  let ?v = "LiftedVertexRef (atom_index v) zero_shift"
  have "translate (negate_shift (vertex_image v)) v = ?v" by (cases v) (simp add: translate_def)
  with path_vertices_translate[OF assms(1), of "negate_shift (vertex_image v)"]
  have path: "path_vertices_from_start t ?v steps = Inr (map (translate (negate_shift (vertex_image v))) vs)" by simp
  show ?thesis
    using assms(3) path_first_vertex[OF assms(1,2)] cycle_loop_search_error[OF path]
    by (auto simp: validate_candidate_cycle_def bindE_Inl_iff split: if_splits)
qed

lemma validate_cycle:
  assumes "is_cycle t ss" and "path_vertices_from_start t (source_start a) ss = Inr us"
    and "min_ring_size options \<le> length ss" and "length ss \<le> max_ring_size options"
  shows "validate_candidate_cycle t ss options = Inr (butlast us)"
  unfolding validate_candidate_cycle_Inr_iff
  using cycle_at[OF assms(1,2)] assms(3,4) by (auto simp: source_start_def)

lemma shortest_path_facts:
  assumes "p \<in> shortest_paths (lifted_dest t) v w" and "exact_distance (lifted_dest t) v w r"
  obtains vs keys where "path_vertices_from_start t v p = Inr vs" "last vs = w" "length p = r"
    "instances_along t v p = Inr keys" "length keys = r"
proof -
  from assms have "walk (lifted_dest t) v p w" "length p = r"
    using exact_distance_unique by (auto simp: shortest_paths_def)
  then obtain vs where "path_vertices_from_start t v p = Inr vs" "last vs = w" by (auto simp: walk_lifted)
  with instances_total[OF this(1)] \<open>length p = r\<close> that show ?thesis by metis
qed

text \<open>Two walks from one start, the second read backwards, optionally with a step between.\<close>

lemma joined_walk:
  assumes "path_vertices_from_start t v p = Inr us" and "path_vertices_from_start t v q = Inr ws"
    and "path_vertices_from_start t (last us) mid = Inr ms" and "last ms = last ws"
  shows "path_vertices_from_start t v (p @ mid @ reverse_with step_reversed q) = Inr (us @ tl ms @ tl (rev ws))"
proof -
  have "path_vertices_from_start t (last ms) (reverse_with step_reversed q) = Inr (rev ws)"
    using path_vertices_reverse[OF assms(2)] assms(4) by simp
  with assms(1,3) path_vertices_ends[OF assms(3)] show ?thesis by (auto simp: path_vertices_append)
qed

lemma joined_instances:
  assumes "path_vertices_from_start t v p = Inr us" and "path_vertices_from_start t v q = Inr ws"
    and "path_vertices_from_start t (last us) mid = Inr ms" and "last ms = last ws"
    and "instances_along t v p = Inr ks" and "instances_along t v q = Inr ls"
    and "instances_along t (last us) mid = Inr ns"
  shows "instances_along t v (p @ mid @ reverse_with step_reversed q) = Inr (ks @ ns @ rev ls)"
  using instances_append[OF assms(1,5)] instances_append[OF assms(3,7)] instances_reverse[OF assms(2,6)] assms(4)
  by metis

lemma butlast_tl_rev: "butlast (tl (rev xs)) = rev (butlast (tl xs))"
proof -
  have "tl (rev xs) = rev (butlast xs)" using butlast_rev[of "rev xs"] by simp
  then show ?thesis by (simp add: butlast_rev butlast_tl)
qed

section \<open>Keys of primitive cycles\<close>

definition primitive_keys :: "framework_topology \<Rightarrow> ring_step list set \<Rightarrow> ring_key set" where
  "primitive_keys t S = ring_key_of t ` {steps \<in> S. primitive_cycle t steps}"

lemma primitive_keys_UN: "primitive_keys t (\<Union>x \<in> A. S x) = (\<Union>x \<in> A. primitive_keys t (S x))"
  by (auto simp: primitive_keys_def)

lemma primitive_keys_Un: "primitive_keys t (A \<union> B) = primitive_keys t A \<union> primitive_keys t B"
  by (auto simp: primitive_keys_def)

lemma primitive_keys_mono: "A \<subseteq> B \<Longrightarrow> primitive_keys t A \<subseteq> primitive_keys t B"
  by (auto simp: primitive_keys_def)

lemma primitive_keys_not_cycle: "\<not> is_cycle t steps \<Longrightarrow> primitive_keys t {steps} = {}"
  using primitive_is_cycle by (auto simp: primitive_keys_def)

lemma primitive_keys_single: "primitive_keys t {steps} = {key. key = ring_key_of t steps \<and> primitive_cycle t steps}"
  by (auto simp: primitive_keys_def)

lemma ring_key_of_orbit: "steps' \<in> steps.orbit steps \<Longrightarrow> ring_key_of t steps' = ring_key_of t steps"
  by (simp add: ring_key_of_def canonical_of_orbit)

lemma primitive_keys_orbit_primitive:
  assumes "\<And>steps. steps \<in> A \<Longrightarrow> primitive_cycle t steps \<Longrightarrow> \<exists>steps' \<in> B. steps' \<in> steps.orbit steps"
  shows "primitive_keys t A \<subseteq> primitive_keys t B"
proof
  fix key assume "key \<in> primitive_keys t A"
  then obtain steps where s: "steps \<in> A" "primitive_cycle t steps" "key = ring_key_of t steps"
    by (auto simp: primitive_keys_def)
  from assms[OF s(1,2)] obtain steps' where "steps' \<in> B" "steps' \<in> steps.orbit steps" by blast
  with s primitive_cycle_orbit ring_key_of_orbit show "key \<in> primitive_keys t B"
    by (auto simp: primitive_keys_def intro!: image_eqI[of _ _ steps'])
qed

lemma primitive_keys_orbit:
  "(\<And>steps. steps \<in> A \<Longrightarrow> \<exists>steps' \<in> B. steps' \<in> steps.orbit steps) \<Longrightarrow> primitive_keys t A \<subseteq> primitive_keys t B"
  by (rule primitive_keys_orbit_primitive)

lemma step_ok_source:
  assumes "step_ok t options n K st1 r" and "\<forall>m. stats_intact m (stats st1) \<longrightarrow> stats_intact m (stats st)"
    and "ring_keys st \<subseteq> ring_keys st1"
  shows "step_ok t options n K st r"
  using assms by (cases r) auto

lemma step_ok_counter:
  assumes "search_inv t options n st" and "first_incomplete_ring_size s = first_incomplete_ring_size (stats st)"
    and "stopped s = stopped (stats st)"
    and "search_inv t options n (st\<lparr>stats := s\<rparr>) \<Longrightarrow> step_ok t options n K (st\<lparr>stats := s\<rparr>) r"
  shows "step_ok t options n K st r"
  by (rule step_ok_source[OF assms(4)[OF search_inv_stats[OF assms(1-3)]]])
    (use assms(2) in \<open>simp_all add: stats_intact_def ring_keys_def\<close>)

lemma step_ok_count_pair:
  assumes "search_inv t options n st"
    and "search_inv t options n (count_pair st) \<Longrightarrow> step_ok t options n K (count_pair st) r"
  shows "step_ok t options n K st r"
  using assms(2) unfolding count_pair_def by (rule step_ok_counter[OF assms(1), rotated 2]) simp_all

lemma apart_exact: "exact_distance (lifted_dest t) v w r \<Longrightarrow> apart t r v w"
  unfolding apart_def using exact_distance_unique by (metis order_refl)

lemma exact_distance_apart_start:
  assumes "exact_distance dest v w r" and "0 < r"
  shows "v \<noteq> w"
  using assms exact_distance_0[of dest v v] exact_distance_unique[of dest v v r 0] by auto

section \<open>Enumerated paths\<close>

lemma enumerate_index_paths_correct:
  assumes ready: "search_ready t adj options index" and inv: "search_inv t options n st"
    and source: "map_of (sources index) a = Some source" and a: "a \<in> set (vertex_atoms t)"
    and d: "exact_distance (lifted_dest t) (source_start a) w r" "r \<le> complete_through_depth source"
  shows "(\<exists>e. enumerate_index_paths source w options n st = Inl e \<and> only_complexity options e)
    \<or> (\<exists>st'. enumerate_index_paths source w options n st = Inr (None, st') \<and> step_ok t options n {} st (Inr st')
        \<and> \<not> stats_intact n (stats st'))
    \<or> (\<exists>ps st'. enumerate_index_paths source w options n st = Inr (Some ps, st') \<and> step_ok t options n {} st (Inr st')
        \<and> distinct ps \<and> set ps = shortest_paths (lifted_dest t) (source_start a) w)"
proof -
  from search_ready_source[OF ready a] source have s: "source_atom_index source = a"
    and exact: "index_exact t (source_start a) (complete_through_depth source) (distance source) (predecessors source)"
    by auto
  note search = index_search_exact[OF exact]
  show ?thesis
  proof (cases "map_of (paths_known st) (a, w)")
    case (Some known)
    with inv show ?thesis
      by (cases known) (auto simp: enumerate_index_paths_def s search_inv_def Let_def)
  next
    case None
    let ?S = "shortest_paths (lifted_dest t) (source_start a) w"
    let ?limit = "max_shortest_paths_per_target options"
    have count: "count_index_paths source w ?limit = (min (?limit + 1) (card ?S), card ?S \<le> ?limit)"
      unfolding count_index_paths_def s by (rule count_predecessor_paths_exact[OF search d])
    from backtrack_shortest_paths_exact[OF search d] obtain ps where
      ps: "backtrack_shortest_paths (source_start a) w (distance source) (predecessors source) = Some ps"
        "distinct ps" "set ps = ?S" by blast
    show ?thesis
    proof (cases "card ?S \<le> ?limit")
      case True
      have len: "length ps = min (?limit + 1) (card ?S)" using ps True distinct_card[of ps] by simp
      define st' where "st' = st\<lparr>stats := (stats st)\<lparr>shortest_paths_enumerated :=
                        shortest_paths_enumerated (stats st) + length ps\<rparr>,
                      paths_known := AList.update (a, w) (Some ps) (paths_known st)\<rparr>"
      have result: "enumerate_index_paths source w options n st = Inr (Some ps, st')"
        using None True count ps(1) len by (simp add: enumerate_index_paths_def s Let_def st'_def)
      have "search_inv t options n st'"
        using inv ps(2,3) unfolding search_inv_def st'_def stats_intact_def
        by (auto simp: update_conv split: if_splits)
      then have "step_ok t options n {} st (Inr st')" by (simp add: st'_def stats_intact_def ring_keys_def)
      with result ps(2,3) show ?thesis by blast
    next
      case False
      show ?thesis
      proof (cases "strict options")
        case True
        with False None count show ?thesis
          by (auto simp: enumerate_index_paths_def s Let_def only_complexity_def)
      next
        case lenient: False
        then obtain m where result: "enumerate_index_paths source w options n st
            = Inr (None, st\<lparr>stats := stats_truncate n m (stats st), paths_known := AList.update (a, w) None (paths_known st)\<rparr>)"
          using False None count by (auto simp: enumerate_index_paths_def s Let_def)
        note cut = search_inv_truncate[OF inv order.refl refl, of m "stats st"]
        have "search_inv t options n (st\<lparr>stats := stats_truncate n m (stats st), paths_known := AList.update (a, w) None (paths_known st)\<rparr>)"
          using cut unfolding search_inv_def by (auto simp: update_conv split: if_splits)
        then have "step_ok t options n {} st (Inr (st\<lparr>stats := stats_truncate n m (stats st), paths_known := AList.update (a, w) None (paths_known st)\<rparr>))"
          using cut(2) by (simp add: stats_intact_truncate ring_keys_def)
        with result cut(2) show ?thesis by auto
      qed
    qed
  qed
qed

section \<open>Even sizes\<close>

lemma even_pair_correct:
  assumes ready: "search_ready t adj options index" and inv: "search_inv t options n st"
    and n: "n = 2 * r" "0 < r" "min_ring_size options \<le> n" "n \<le> max_ring_size options"
    and d: "exact_distance (lifted_dest t) (source_start a) w r"
    and left: "left \<in> shortest_paths (lifted_dest t) (source_start a) w"
      "path_vertices_from_start t (source_start a) left = Inr us" "instances_along t (source_start a) left = Inr ks"
    and right: "right \<in> shortest_paths (lifted_dest t) (source_start a) w"
  shows "step_ok t options n (primitive_keys t {left @ reverse_with step_reversed right}) st
    (even_pair t adj index options a w left us (rev ks) right st)"
proof -
  let ?start = "source_start a" and ?steps = "left @ reverse_with step_reversed right"
  from shortest_path_facts[OF left(1) d] left(2,3) have L: "last us = w" "length left = r" "length ks = r" by auto
  from shortest_path_facts[OF right d] obtain ws ls where
    R: "path_vertices_from_start t ?start right = Inr ws" "last ws = w" "length right = r"
      "instances_along t ?start right = Inr ls" "length ls = r" .
  have path: "path_vertices_from_start t ?start ?steps = Inr (us @ tl (rev ws))"
    using joined_walk[OF left(2) R(1), of "[]" "[w]"] L R by simp
  have insts: "instances_along t ?start ?steps = Inr (ks @ rev ls)"
    using joined_instances[OF left(2) R(1), of "[]" "[w]" ks ls "[]"] left(3) L R by simp
  have keys: "path_instance_keys t ?start right = Inr (if distinct ls then rev ls else [])"
    by (rule path_instance_keys_correct[OF R(1,4)])
  have len: "length ?steps = n" using L R n by (simp add: reverse_with_def)
  have neq: "?start \<noteq> w" by (rule exact_distance_apart_start[OF d n(2)])
  define st1 where "st1 = count_pair st"
  have "step_ok t options n (primitive_keys t {?steps}) st1 (even_pair t adj index options a w left us (rev ks) right st)"
    if inv1: "search_inv t options n st1"
  proof (cases "is_cycle t ?steps")
    case True
    from cycle_at[OF True path] obtain keys where
      cyc: "closed_cycle t ?start ?steps (butlast (us @ tl (rev ws))) keys" by blast
    then have "keys = ks @ rev ls" "distinct keys" using insts by (simp_all add: closed_cycle_def)
    then have inst: "distinct ls" "set ks \<inter> set ls = {}" "ls \<noteq> []" using R(5) n(2) by auto
    have "tl (rev ws) \<noteq> []"
      using path_vertices_ends[OF R(1)] R(3) n(2) by (cases ws rule: rev_cases) auto
    then have "butlast (us @ tl (rev ws)) = us @ rev (butlast (tl ws))" by (simp add: butlast_append butlast_tl_rev)
    moreover have "distinct (butlast (us @ tl (rev ws)))" using cyc by (simp add: closed_cycle_def)
    ultimately have "set us \<inter> set (butlast (tl ws)) = {}" by simp
    moreover have "set (butlast (tl us)) \<subseteq> set us" by (cases us) (auto dest: in_set_butlastD)
    ultimately have vert: "set (butlast (tl us)) \<inter> set (butlast (tl ws)) = {}" by blast
    have valid: "validate_candidate_cycle t ?steps options = Inr (butlast (us @ tl (rev ws)))"
      using validate_cycle[OF True path] len n by simp
    from make_vertex_pair_distinct[OF neq] obtain p where p: "make_vertex_pair ?start w = Inr p" by blast
    have "apart t (n div 2) ?start w" using d n(1) by (simp add: apart_exact)
    then have ap: "apart t (n div 2) (pair_first p) (pair_second p)" using make_vertex_pair_apart[OF p] by blast
    let ?c = "\<lparr>candidate_steps = ?steps, candidate_vertex_walk = butlast (us @ tl (rev ws)),
                 certified_shortest_pairs = [p], generator_kind = ''even_shortest_path_pair'',
                 generator_anchor = (a, atom_index w, vertex_image w)\<rparr>"
    have "even_pair t adj index options a w left us (rev ks) right st = accept_default_candidate t adj index options ?c st1"
      using vert inst valid p R(1) keys by (simp add: even_pair_def Let_def flip: st1_def)
    then show ?thesis
      using accept_default_candidate_correct[OF ready inv1, of ?c] valid len ap
      by (simp add: primitive_keys_single)
  next
    case False
    have "even_pair t adj index options a w left us (rev ks) right st = Inr st1"
    proof (cases "validate_candidate_cycle t ?steps options")
      case (Inl e)
      have "?steps \<noteq> []" using len n(1,2) by (metis list.size(3) mult_is_0 not_gr_zero zero_neq_numeral)
      from validate_search_error[OF path this Inl] obtain m where "e = PrimitiveRingSearchError m" by blast
      with Inl R(1) keys show ?thesis by (simp add: even_pair_def Let_def flip: st1_def)
    next
      case (Inr vs)
      with False validate_candidate_cycle_iff show ?thesis by blast
    qed
    with inv1 primitive_keys_not_cycle[OF False] show ?thesis by simp
  qed
  then show ?thesis
    unfolding st1_def by (rule step_ok_count_pair[OF inv])
qed

lemma even_lefts_correct:
  assumes ready: "search_ready t adj options index" and inv: "search_inv t options n st"
    and n: "n = 2 * r" "0 < r" "min_ring_size options \<le> n" "n \<le> max_ring_size options"
    and d: "exact_distance (lifted_dest t) (source_start a) w r"
    and "set ps \<subseteq> shortest_paths (lifted_dest t) (source_start a) w" and "distinct ps"
  shows "step_ok t options n (primitive_keys t {p @ reverse_with step_reversed q | p q. p \<in> set ps \<and> q \<in> set ps \<and> p \<noteq> q}) st
    (even_lefts t adj index options a w ps st)"
  using inv assms(8,9)
proof (induction ps arbitrary: st)
  case Nil
  then show ?case by (simp add: primitive_keys_def)
next
  case (Cons p ps)
  let ?join = "\<lambda>p q. p @ reverse_with step_reversed q"
  have left: "p \<in> shortest_paths (lifted_dest t) (source_start a) w" using Cons.prems by simp
  from shortest_path_facts[OF left d] obtain us ks where
    L: "path_vertices_from_start t (source_start a) p = Inr us" "instances_along t (source_start a) p = Inr ks"
      "length ks = r" by metis
  let ?here = "if (if distinct ks then rev ks else []) = [] then Inr st
      else foldE (even_pair t adj index options a w p us (if distinct ks then rev ks else [])) ps st"
  have here: "step_ok t options n (\<Union>q \<in> set ps. primitive_keys t {?join p q}) st ?here"
  proof (cases "distinct ks")
    case True
    have "step_ok t options n (\<Union>q \<in> set ps. primitive_keys t {?join p q}) st
        (foldE (even_pair t adj index options a w p us (rev ks)) ps st)"
      using Cons.prems
      by (intro step_ok_foldE even_pair_correct[OF ready _ n d left L(1,2)]) auto
    with True L(3) n(2) show ?thesis by auto
  next
    case False
    have "\<not> is_cycle t (?join p q)" if "q \<in> set ps" for q
    proof
      assume cyc: "is_cycle t (?join p q)"
      from Cons.prems that have "q \<in> shortest_paths (lifted_dest t) (source_start a) w" by auto
      from shortest_path_facts[OF this d] obtain ws ls where
        R: "path_vertices_from_start t (source_start a) q = Inr ws" "last ws = w"
          "instances_along t (source_start a) q = Inr ls" by metis
      have "last us = w" using shortest_path_facts[OF left d] L(1) by (metis sum.inject(2))
      with joined_walk[OF L(1) R(1), of "[]" "[w]"] R
      have "path_vertices_from_start t (source_start a) (?join p q) = Inr (us @ tl (rev ws))" by simp
      from cycle_at[OF cyc this] obtain keys where "instances_along t (source_start a) (?join p q) = Inr keys" "distinct keys"
        by (auto simp: closed_cycle_def)
      with joined_instances[OF L(1) R(1), of "[]" "[w]" ks ls "[]"] \<open>last us = w\<close> R L False show False by auto
    qed
    then have "(\<Union>q \<in> set ps. primitive_keys t {?join p q}) = {}" using primitive_keys_not_cycle by blast
    with False Cons.prems(1) show ?thesis by simp
  qed
  have rest: "step_ok t options n (primitive_keys t {?join p q | p q. p \<in> set ps \<and> q \<in> set ps \<and> p \<noteq> q}) st'
      (even_lefts t adj index options a w ps st')" if "search_inv t options n st'" for st'
    using Cons.IH[OF that] Cons.prems by simp
  have "step_ok t options n ((\<Union>q \<in> set ps. primitive_keys t {?join p q})
      \<union> primitive_keys t {?join p q | p q. p \<in> set ps \<and> q \<in> set ps \<and> p \<noteq> q}) st
      (even_lefts t adj index options a w (p # ps) st)"
    using step_ok_bindE[OF here rest] path_instance_keys_correct[OF L(1,2)] L(1) by simp
  then show ?case
  proof (rule step_ok_mono)
    have "primitive_keys t {?join x y | x y. x \<in> set (p # ps) \<and> y \<in> set (p # ps) \<and> x \<noteq> y}
      \<subseteq> primitive_keys t ((\<Union>q \<in> set ps. {?join p q}) \<union> {?join p q | p q. p \<in> set ps \<and> q \<in> set ps \<and> p \<noteq> q})"
    proof (rule primitive_keys_orbit)
      fix steps assume "steps \<in> {?join x y | x y. x \<in> set (p # ps) \<and> y \<in> set (p # ps) \<and> x \<noteq> y}"
      then obtain x y where xy: "steps = ?join x y" "x \<in> set (p # ps)" "y \<in> set (p # ps)" "x \<noteq> y" by blast
      have flip: "?join y x \<in> steps.orbit steps"
      proof -
        have "reverse_with step_reversed (?join x y) = ?join y x"
          by (simp add: reverse_with_def rev_map comp_def)
        then show ?thesis using steps.orbit_rotate(2)[of 0 steps] xy(1) by simp
      qed
      show "\<exists>steps' \<in> (\<Union>q \<in> set ps. {?join p q}) \<union> {?join p q | p q. p \<in> set ps \<and> q \<in> set ps \<and> p \<noteq> q}.
          steps' \<in> steps.orbit steps"
      proof (cases "y = p")
        case True
        with xy flip show ?thesis by auto
      next
        case False
        with xy have "steps \<in> (\<Union>q \<in> set ps. {?join p q}) \<union> {?join p q | p q. p \<in> set ps \<and> q \<in> set ps \<and> p \<noteq> q}" by auto
        then show ?thesis using steps.orbit_refl by blast
      qed
    qed
    then show "primitive_keys t {?join x y | x y. x \<in> set (p # ps) \<and> y \<in> set (p # ps) \<and> x \<noteq> y}
      \<subseteq> (\<Union>q \<in> set ps. primitive_keys t {?join p q}) \<union> primitive_keys t {?join p q | p q. p \<in> set ps \<and> q \<in> set ps \<and> p \<noteq> q}"
      by (simp only: primitive_keys_Un primitive_keys_UN)
  qed
qed

lemma layer_states_exact:
  assumes "index_exact t start d (distance source) preds" and "r \<le> d"
  shows "set (layer_states source r) = {w. exact_distance (lifted_dest t) start w r}"
proof -
  have "w \<in> set (layer_states source r) \<longleftrightarrow> map_of (distance source) w = Some r" for w
  proof -
    have "distinct (map fst (distance source))" using assms(1) by (simp add: index_exact_def)
    then have "map_of (distance source) w = Some r \<longleftrightarrow> (w, r) \<in> set (distance source)" by simp
    then show ?thesis by (force simp: layer_states_def)
  qed
  then show ?thesis using index_exact_distance[OF assms(1)] assms(2) by blast
qed

definition joined_pairs :: "framework_topology \<Rightarrow> nat \<Rightarrow> lifted_vertex \<Rightarrow> ring_step list set" where
  "joined_pairs t a w = {p @ reverse_with step_reversed q | p q.
     p \<in> shortest_paths (lifted_dest t) (source_start a) w \<and>
     q \<in> shortest_paths (lifted_dest t) (source_start a) w \<and> p \<noteq> q}"

lemma joined_pairs_few:
  assumes "distinct ps" and "set ps = shortest_paths (lifted_dest t) (source_start a) w" and "length ps < 2"
  shows "joined_pairs t a w = {}"
proof -
  consider "ps = []" | x where "ps = [x]" using assms(3) by (cases ps; cases "tl ps") auto
  then show ?thesis by cases (auto simp: joined_pairs_def simp flip: assms(2))
qed

lemma even_target_correct:
  assumes ready: "search_ready t adj options index" and inv: "search_inv t options n st"
    and n: "n = 2 * r" "0 < r" "min_ring_size options \<le> n" "n \<le> max_ring_size options"
    and source: "map_of (sources index) a = Some source" and a: "a \<in> set (vertex_atoms t)"
    and d: "exact_distance (lifted_dest t) (source_start a) w r" "r \<le> complete_through_depth source"
  shows "step_ok t options n (primitive_keys t (joined_pairs t a w)) st (even_target t adj index options n source w st)"
proof (cases "stopped (stats st)")
  case True
  with inv have "\<not> stats_intact n (stats st)" by (simp add: search_inv_def)
  with True inv show ?thesis by (simp add: even_target_def)
next
  case False
  from search_ready_source[OF ready a] source have s: "source_atom_index source = a" by auto
  from enumerate_index_paths_correct[OF ready inv source a d]
  consider (error) e where "enumerate_index_paths source w options n st = Inl e" "only_complexity options e"
    | (unknown) st' where "enumerate_index_paths source w options n st = Inr (None, st')"
        "step_ok t options n {} st (Inr st')" "\<not> stats_intact n (stats st')"
    | (found) ps st' where "enumerate_index_paths source w options n st = Inr (Some ps, st')" "step_ok t options n {} st (Inr st')"
        "distinct ps" "set ps = shortest_paths (lifted_dest t) (source_start a) w" by blast
  then show ?thesis
  proof cases
    case error
    with False show ?thesis by (simp add: even_target_def)
  next
    case unknown
    with False show ?thesis by (simp add: even_target_def)
  next
    case (found ps st')
    let ?K = "primitive_keys t (joined_pairs t a w)"
    have inv': "search_inv t options n st'" using found(2) by simp
    define s' where "s' = (stats st')\<lparr>even_anchors_considered := even_anchors_considered (stats st') + 1\<rparr>"
    have s': "first_incomplete_ring_size s' = first_incomplete_ring_size (stats st')" "stopped s' = stopped (stats st')"
      by (simp_all add: s'_def)
    let ?many = "length ps * (length ps - 1) div 2 > max_path_pair_combinations_per_anchor options"
    define rest where "rest = (if length ps < 2 then Inr st'
      else if ?many then
        (let m = Fmt ''Even anchor {}->{} exceeded the path-pair limit.'' [fmt_vertex (source_start a), fmt_vertex w] in
         if strict options then Inl (PrimitiveRingComplexityError m)
         else Inr (st'\<lparr>stats := stats_truncate n m s'\<rparr>))
      else even_lefts t adj index options a w ps (st'\<lparr>stats := s'\<rparr>))"
    have "even_target t adj index options n source w st = rest"
      using False found(1) by (simp add: even_target_def rest_def Let_def s s'_def)
    moreover have "step_ok t options n ?K st' rest"
    proof -
      consider "length ps < 2" | "\<not> length ps < 2" "?many" | "\<not> length ps < 2" "\<not> ?many" by blast
      then show ?thesis
      proof cases
        case 1
        with joined_pairs_few[OF found(3,4)] inv' show ?thesis by (simp add: rest_def primitive_keys_def)
      next
        case 2
        have "stats_intact k (stats st')" if "stats_intact k (stats_truncate n m s')" for k m
          using that s'(1) unfolding stats_intact_truncate by (simp add: stats_intact_def)
        with 2 search_inv_truncate[OF inv' order.refl refl, of _ s'] show ?thesis
          by (simp add: rest_def Let_def only_complexity_def ring_keys_def)
      next
        case 3
        have "step_ok t options n ?K (st'\<lparr>stats := s'\<rparr>) (even_lefts t adj index options a w ps (st'\<lparr>stats := s'\<rparr>))"
          using even_lefts_correct[OF ready search_inv_stats[OF inv' s'] n d(1) _ found(3)] found(4)
          by (simp add: joined_pairs_def)
        then have "step_ok t options n ?K st' (even_lefts t adj index options a w ps (st'\<lparr>stats := s'\<rparr>))"
          by (intro step_ok_counter[OF inv' s'])
        with 3 show ?thesis by (simp add: rest_def)
      qed
    qed
    ultimately show ?thesis
      using found(2) by (cases rest) auto
  qed
qed

definition index_complete :: "lifted_index \<Rightarrow> nat \<Rightarrow> bool" where
  "index_complete index r \<longleftrightarrow> (\<forall>source \<in> snd ` set (sources index). r \<le> complete_through_depth source)"

lemma over_sources:
  assumes ready: "search_ready t adj options index" and inv: "search_inv t options n st"
    and op: "\<And>a source st. map_of (sources index) a = Some source \<Longrightarrow> a \<in> set (vertex_atoms t) \<Longrightarrow>
      search_inv t options n st \<Longrightarrow> r \<le> complete_through_depth source \<Longrightarrow>
      step_ok t options n (K a) st (op source st)"
  shows "step_ok t options n (if index_complete index r then \<Union>a \<in> set (vertex_atoms t). K a else {}) st
    (foldE (\<lambda>a st. if stopped (stats st) then Inr st
       else bindE (lookupE (sources index) a) (\<lambda>source.
         if complete_through_depth source < r then Inr st else op source st))
       (sort (map fst (sources index))) st)"
proof -
  have names: "set (sort (map fst (sources index))) = set (vertex_atoms t)"
    using ready by (metis search_ready_def set_sort)
  have "step_ok t options n (\<Union>a \<in> set (sort (map fst (sources index))). if index_complete index r then K a else {}) st
    (foldE (\<lambda>a st. if stopped (stats st) then Inr st
       else bindE (lookupE (sources index) a) (\<lambda>source.
         if complete_through_depth source < r then Inr st else op source st))
       (sort (map fst (sources index))) st)"
  proof (rule step_ok_foldE[OF _ inv])
    fix a st' assume "a \<in> set (sort (map fst (sources index)))" and inv': "search_inv t options n st'"
    then have a: "a \<in> set (vertex_atoms t)" using names by simp
    from search_ready_source[OF ready a] obtain source where source: "map_of (sources index) a = Some source" by metis
    then have "source \<in> snd ` set (sources index)" by (force dest: map_of_SomeD)
    then have complete: "r \<le> complete_through_depth source" if "index_complete index r"
      using that unfolding index_complete_def by blast
    show "step_ok t options n (if index_complete index r then K a else {}) st'
      (if stopped (stats st') then Inr st'
       else bindE (lookupE (sources index) a) (\<lambda>source.
         if complete_through_depth source < r then Inr st' else op source st'))"
    proof (cases "stopped (stats st')")
      case True
      with inv' have "\<not> stats_intact n (stats st')" by (simp add: search_inv_def)
      with True inv' show ?thesis by simp
    next
      case False
      show ?thesis
      proof (cases "complete_through_depth source < r")
        case True
        with complete have "\<not> index_complete index r" by linarith
        with True False source inv' show ?thesis by (simp add: lookupE_def)
      next
        case ok: False
        then have "step_ok t options n (K a) st' (op source st')" using op[OF source a inv'] by simp
        then have "step_ok t options n (if index_complete index r then K a else {}) st' (op source st')"
          by (rule step_ok_mono) simp
        with ok False source show ?thesis by (simp add: lookupE_def)
      qed
    qed
  qed
  then show ?thesis by (rule step_ok_mono) (simp only: names, auto)
qed

lemma generate_even_correct:
  assumes ready: "search_ready t adj options index" and inv: "search_inv t options n st"
    and n: "n = 2 * r" "0 < r" "min_ring_size options \<le> n" "n \<le> max_ring_size options"
  shows "step_ok t options n (if index_complete index r
      then \<Union>a \<in> set (vertex_atoms t). primitive_keys t (\<Union>w. if exact_distance (lifted_dest t) (source_start a) w r
             then joined_pairs t a w else {})
      else {}) st (generate_even_candidates t adj index options n st)"
proof -
  have "n div 2 = r" using n(1) by simp
  show ?thesis
    unfolding generate_even_candidates_def \<open>n div 2 = r\<close>
  proof (rule over_sources[OF ready inv])
    fix a source st assume source: "map_of (sources index) a = Some source" and a: "a \<in> set (vertex_atoms t)"
      and inv: "search_inv t options n st" and r: "r \<le> complete_through_depth source"
    from search_ready_source[OF ready a] source have
      "index_exact t (source_start a) (complete_through_depth source) (distance source) (predecessors source)" by auto
    from layer_states_exact[OF this r] have layer: "set (layer_states source r) = {w. exact_distance (lifted_dest t) (source_start a) w r}" .
    have "step_ok t options n (\<Union>w \<in> set (layer_states source r). primitive_keys t (joined_pairs t a w)) st
        (foldE (even_target t adj index options n source) (layer_states source r) st)"
      by (rule step_ok_foldE[OF even_target_correct[OF ready _ n source a _ r] inv]) (simp_all add: layer)
    then show "step_ok t options n (primitive_keys t (\<Union>w. if exact_distance (lifted_dest t) (source_start a) w r
             then joined_pairs t a w else {})) st
        (foldE (even_target t adj index options n source) (layer_states source r) st)"
      by (rule step_ok_mono) (auto simp: primitive_keys_def layer split: if_splits)
  qed
qed

section \<open>Odd sizes\<close>

lemma odd_pair_correct:
  assumes ready: "search_ready t adj options index" and inv: "search_inv t options n st"
    and n: "n = 2 * r + 1" "0 < r" "min_ring_size options \<le> n" "n \<le> max_ring_size options"
    and d: "exact_distance (lifted_dest t) (source_start a) l r" "exact_distance (lifted_dest t) (source_start a) w r"
    and closing: "step_destination t l closing = Inr w" "l \<noteq> w"
    and left: "left \<in> shortest_paths (lifted_dest t) (source_start a) l"
      "path_vertices_from_start t (source_start a) left = Inr us" "instances_along t (source_start a) left = Inr ks"
    and right: "right \<in> shortest_paths (lifted_dest t) (source_start a) w"
  shows "step_ok t options n (primitive_keys t {left @ [closing] @ reverse_with step_reversed right}) st
    (odd_pair t adj index options n a l w closing left us (rev ks) right st)"
proof -
  let ?start = "source_start a" and ?steps = "left @ [closing] @ reverse_with step_reversed right"
  from shortest_path_facts[OF left(1) d(1)] left(2,3) have L: "last us = l" "length left = r" "length ks = r" by auto
  from shortest_path_facts[OF right d(2)] obtain ws ls where
    R: "path_vertices_from_start t ?start right = Inr ws" "last ws = w" "length right = r"
      "instances_along t ?start right = Inr ls" "length ls = r" .
  obtain ck where ck: "physical_instance_key t l closing = Inr ck" using physical_instance_total[OF closing(1)] by blast
  have path: "path_vertices_from_start t ?start ?steps = Inr (us @ rev ws)"
  proof -
    have eq: "rev ws = w # tl (rev ws)"
      using path_vertices_ends[OF R(1)] R(2) by (cases ws rule: rev_cases) auto
    show ?thesis by (subst eq) (use joined_walk[OF left(2) R(1), of "[closing]" "[l, w]"] L R closing in simp)
  qed
  have insts: "instances_along t ?start ?steps = Inr (ks @ [ck] @ rev ls)"
    using joined_instances[OF left(2) R(1), of "[closing]" "[l, w]" ks ls "[ck]"] left(3) L R closing ck by simp
  have keys: "path_instance_keys t ?start right = Inr (if distinct ls then rev ls else [])"
    by (rule path_instance_keys_correct[OF R(1,4)])
  have len: "length ?steps = n" using L R n by (simp add: reverse_with_def)
  have far: "?start \<noteq> v" if "exact_distance (lifted_dest t) ?start v r" for v
    by (rule exact_distance_apart_start[OF that n(2)])
  define st1 where "st1 = count_pair st"
  have "step_ok t options n (primitive_keys t {?steps}) st1 (odd_pair t adj index options n a l w closing left us (rev ks) right st)"
    if inv1: "search_inv t options n st1"
  proof (cases "is_cycle t ?steps")
    case True
    from cycle_at[OF True path] obtain keys where
      cyc: "closed_cycle t ?start ?steps (butlast (us @ rev ws)) keys" by blast
    then have "keys = ks @ [ck] @ rev ls" "distinct keys" using insts by (simp_all add: closed_cycle_def)
    then have inst: "distinct ls" "set ks \<inter> set ls = {}" "ls \<noteq> []" "ck \<notin> set ks" "ck \<notin> set ls" using R(5) n(2) by auto
    have "butlast (us @ rev ws) = us @ rev (tl ws)"
      using path_vertices_ends[OF R(1)] by (simp add: butlast_append butlast_rev)
    moreover have "distinct (butlast (us @ rev ws))" using cyc by (simp add: closed_cycle_def)
    ultimately have "set us \<inter> set (tl ws) = {}" by simp
    moreover have "set (tl us) \<subseteq> set us" by (cases us) auto
    ultimately have vert: "set (tl us) \<inter> set (tl ws) = {}" by blast
    have valid: "validate_candidate_cycle t ?steps options = Inr (butlast (us @ rev ws))"
      using validate_cycle[OF True path] len n by simp
    from make_vertex_pair_distinct[OF far[OF d(1)]] obtain p1 where p1: "make_vertex_pair ?start l = Inr p1" by blast
    from make_vertex_pair_distinct[OF far[OF d(2)]] obtain p2 where p2: "make_vertex_pair ?start w = Inr p2" by blast
    from make_vertex_pair_distinct[OF closing(2)] obtain p3 where p3: "make_vertex_pair l w = Inr p3" by blast
    have half: "n div 2 = r" using n(1) by simp
    have ap: "apart t r ?start l" "apart t r ?start w" using d by (simp_all add: apart_exact)
    have ap3: "apart t r l w" if "n = 3"
    proof -
      have "1 \<le> k" if "exact_distance (lifted_dest t) l w k" for k
        using that closing(2) exact_distance_0[of "lifted_dest t" l w] by (cases k) auto
      then show ?thesis using that n(1) by (simp add: apart_def)
    qed
    define extra where "extra = (if n = 3 then [p3] else [])"
    let ?c = "\<lparr>candidate_steps = ?steps, candidate_vertex_walk = butlast (us @ rev ws),
                   certified_shortest_pairs = sorted_set ([p1, p2] @ extra),
                   generator_kind = ''odd_shortest_root_paths'',
                   generator_anchor = (a, step_edge closing, snd ck)\<rparr>"
    have certified: "\<forall>p \<in> set (certified_shortest_pairs ?c). apart t (n div 2) (pair_first p) (pair_second p)"
      using ap ap3 make_vertex_pair_apart[OF p1] make_vertex_pair_apart[OF p2] make_vertex_pair_apart[OF p3]
      by (auto simp: half extra_def split: if_splits)
    have pair3: "(if n = 3 then bindE (make_vertex_pair l w) (\<lambda>p. Inr [p]) else Inr []) = Inr extra"
      by (simp add: extra_def p3)
    have disjoint: "set (rev ks) \<inter> set (rev ls) = {}" "ck \<notin> set (rev ks)" "ck \<notin> set (rev ls)" "rev ls \<noteq> []"
      using inst by simp_all
    have "odd_pair t adj index options n a l w closing left us (rev ks) right st = accept_default_candidate t adj index options ?c st1"
      unfolding odd_pair_def Let_def st1_def[symmetric] R(1) keys if_P[OF inst(1)] ck valid p1 p2 pair3 bindE_simps
      using vert disjoint by (simp only: sum.case prod.case simp_thms if_False not_True_eq_False bindE_simps)
    then show ?thesis
      using accept_default_candidate_correct[OF ready inv1, of ?c] valid len certified
      by (simp add: primitive_keys_single)
  next
    case False
    have "odd_pair t adj index options n a l w closing left us (rev ks) right st = Inr st1"
    proof (cases "validate_candidate_cycle t ?steps options")
      case (Inl e)
      from validate_search_error[OF path _ Inl] obtain m where "e = PrimitiveRingSearchError m" by blast
      with Inl R(1) keys ck show ?thesis by (simp add: odd_pair_def Let_def flip: st1_def)
    next
      case (Inr vs)
      with False validate_candidate_cycle_iff show ?thesis by blast
    qed
    with inv1 primitive_keys_not_cycle[OF False] show ?thesis by simp
  qed
  then show ?thesis
    unfolding st1_def by (rule step_ok_count_pair[OF inv])
qed

lemma odd_lefts_correct:
  assumes ready: "search_ready t adj options index" and inv: "search_inv t options n st"
    and n: "n = 2 * r + 1" "0 < r" "min_ring_size options \<le> n" "n \<le> max_ring_size options"
    and d: "exact_distance (lifted_dest t) (source_start a) l r" "exact_distance (lifted_dest t) (source_start a) w r"
    and closing: "step_destination t l closing = Inr w" "l \<noteq> w"
    and rights: "set qs \<subseteq> shortest_paths (lifted_dest t) (source_start a) w"
    and "set ps \<subseteq> shortest_paths (lifted_dest t) (source_start a) l"
  shows "step_ok t options n (primitive_keys t {p @ [closing] @ reverse_with step_reversed q | p q. p \<in> set ps \<and> q \<in> set qs}) st
    (odd_lefts t adj index options n a l w closing qs ps st)"
  using inv assms(12)
proof (induction ps arbitrary: st)
  case Nil
  then show ?case by (simp add: primitive_keys_def)
next
  case (Cons p ps)
  let ?join = "\<lambda>p q. p @ [closing] @ reverse_with step_reversed q"
  have left: "p \<in> shortest_paths (lifted_dest t) (source_start a) l" using Cons.prems by simp
  from shortest_path_facts[OF left d(1)] obtain us ks where
    L: "path_vertices_from_start t (source_start a) p = Inr us" "last us = l"
      "instances_along t (source_start a) p = Inr ks" "length ks = r" by metis
  let ?here = "if (if distinct ks then rev ks else []) = [] then Inr st
      else foldE (odd_pair t adj index options n a l w closing p us (if distinct ks then rev ks else [])) qs st"
  have here: "step_ok t options n (\<Union>q \<in> set qs. primitive_keys t {?join p q}) st ?here"
  proof (cases "distinct ks")
    case True
    have "step_ok t options n (\<Union>q \<in> set qs. primitive_keys t {?join p q}) st
        (foldE (odd_pair t adj index options n a l w closing p us (rev ks)) qs st)"
      using rights Cons.prems(1)
      by (intro step_ok_foldE odd_pair_correct[OF ready _ n d closing left L(1,3)]) auto
    with True L(4) n(2) show ?thesis by auto
  next
    case False
    have "\<not> is_cycle t (?join p q)" if "q \<in> set qs" for q
    proof
      assume cyc: "is_cycle t (?join p q)"
      from rights that have "q \<in> shortest_paths (lifted_dest t) (source_start a) w" by auto
      from shortest_path_facts[OF this d(2)] obtain ws ls where
        R: "path_vertices_from_start t (source_start a) q = Inr ws" "last ws = w"
          "instances_along t (source_start a) q = Inr ls" by metis
      obtain ck where ck: "physical_instance_key t l closing = Inr ck" using physical_instance_total[OF closing(1)] by blast
      from cycle_at[OF cyc joined_walk[OF L(1) R(1), of "[closing]" "[l, w]"]] L R closing
      obtain keys where "instances_along t (source_start a) (?join p q) = Inr keys" "distinct keys"
        by (auto simp: closed_cycle_def)
      with joined_instances[OF L(1) R(1), of "[closing]" "[l, w]" ks ls "[ck]"] R L False closing ck show False by auto
    qed
    then have "(\<Union>q \<in> set qs. primitive_keys t {?join p q}) = {}" using primitive_keys_not_cycle by blast
    with False Cons.prems(1) show ?thesis by simp
  qed
  have rest: "step_ok t options n (primitive_keys t {?join p q | p q. p \<in> set ps \<and> q \<in> set qs}) st'
      (odd_lefts t adj index options n a l w closing qs ps st')" if "search_inv t options n st'" for st'
    using Cons.IH[OF that] Cons.prems by simp
  have "step_ok t options n ((\<Union>q \<in> set qs. primitive_keys t {?join p q})
      \<union> primitive_keys t {?join p q | p q. p \<in> set ps \<and> q \<in> set qs}) st
      (odd_lefts t adj index options n a l w closing qs (p # ps) st)"
    using step_ok_bindE[OF here rest] path_instance_keys_correct[OF L(1,3)] L(1) by simp
  then show ?case
  proof (rule step_ok_mono)
    have "primitive_keys t {?join x q | x q. x \<in> set (p # ps) \<and> q \<in> set qs}
      \<subseteq> primitive_keys t ((\<Union>q \<in> set qs. {?join p q}) \<union> {?join p q | p q. p \<in> set ps \<and> q \<in> set qs})"
      by (rule primitive_keys_mono) auto
    then show "primitive_keys t {?join x q | x q. x \<in> set (p # ps) \<and> q \<in> set qs}
      \<subseteq> (\<Union>q \<in> set qs. primitive_keys t {?join p q}) \<union> primitive_keys t {?join p q | p q. p \<in> set ps \<and> q \<in> set qs}"
      by (simp only: primitive_keys_Un primitive_keys_UN)
  qed
qed

definition joined_edges :: "framework_topology \<Rightarrow> nat \<Rightarrow> lifted_vertex \<Rightarrow> lifted_vertex \<Rightarrow> ring_step \<Rightarrow> ring_step list set" where
  "joined_edges t a l w closing = {p @ [closing] @ reverse_with step_reversed q | p q.
     p \<in> shortest_paths (lifted_dest t) (source_start a) l \<and> q \<in> shortest_paths (lifted_dest t) (source_start a) w}"

lemma odd_half_edge_correct:
  assumes ready: "search_ready t adj options index" and inv: "search_inv t options n st"
    and n: "n = 2 * r + 1" "0 < r" "min_ring_size options \<le> n" "n \<le> max_ring_size options"
    and source: "map_of (sources index) a = Some source" and a: "a \<in> set (vertex_atoms t)"
    and r: "r \<le> complete_through_depth source"
    and layer: "set layer = {w. exact_distance (lifted_dest t) (source_start a) w r}"
    and l: "l \<in> set layer" and h: "h \<in> set (half_edges_at t (atom_index l))"
  shows "step_ok t options n (if half_edge_target l h \<in> set layer \<and> l < half_edge_target l h
      then primitive_keys t (joined_edges t a l (half_edge_target l h) (half_edge_step h)) else {}) st
    (odd_half_edge t adj index options n source layer l h st)"
proof (cases "half_edge_target l h \<in> set layer \<and> l < half_edge_target l h")
  case False
  with inv show ?thesis by (auto simp: odd_half_edge_def)
next
  case True
  define w where "w = half_edge_target l h"
  let ?K = "primitive_keys t (joined_edges t a l w (half_edge_step h))"
  have d: "exact_distance (lifted_dest t) (source_start a) l r" "exact_distance (lifted_dest t) (source_start a) w r"
    using True l layer by (auto simp: w_def)
  have closing: "step_destination t l (half_edge_step h) = Inr w" "l \<noteq> w"
    using half_edge_step_target[OF h] True by (auto simp: lifted_dest_iff w_def)
  from search_ready_source[OF ready a] source have s: "source_atom_index source = a" by auto
  define s1 where "s1 = (stats st)\<lparr>odd_anchors_considered := odd_anchors_considered (stats st) + 1\<rparr>"
  have s1: "first_incomplete_ring_size s1 = first_incomplete_ring_size (stats st)" "stopped s1 = stopped (stats st)"
    by (simp_all add: s1_def)
  define rest where "rest = (\<lambda>lefts (rights, st3). case (lefts, rights) of
          (Some left_paths, Some right_paths) \<Rightarrow>
            if length left_paths * length right_paths > max_path_pair_combinations_per_anchor options then
              let m = Fmt ''Odd anchor {}; {}-{} exceeded the path-pair limit.''
                        [fmt_vertex (source_start a), fmt_vertex l, fmt_vertex w] in
              if strict options then Inl (PrimitiveRingComplexityError m)
              else Inr (st3\<lparr>stats := stats_truncate n m (stats st3)\<rparr>)
            else odd_lefts t adj index options n a l w (half_edge_step h) right_paths left_paths st3
        | _ \<Rightarrow> Inr st3)"
  have op: "odd_half_edge t adj index options n source layer l h st =
      bindE (enumerate_index_paths source l options n (st\<lparr>stats := s1\<rparr>)) (\<lambda>(lefts, st2).
      bindE (enumerate_index_paths source w options n st2) (rest lefts))"
    unfolding odd_half_edge_def Let_def rest_def s s1_def w_def half_edge_step_def split_beta using True by simp
  have right: "step_ok t options n ?K st2 (bindE (enumerate_index_paths source w options n st2) (rest lefts))"
    if inv2: "search_inv t options n st2" and lefts: "case lefts of None \<Rightarrow> \<not> stats_intact n (stats st2)
        | Some ps \<Rightarrow> set ps = shortest_paths (lifted_dest t) (source_start a) l" for st2 lefts
  proof -
    from enumerate_index_paths_correct[OF ready inv2 source a d(2) r]
    consider (error) e where "enumerate_index_paths source w options n st2 = Inl e" "only_complexity options e"
      | (unknown) st' where "enumerate_index_paths source w options n st2 = Inr (None, st')" "step_ok t options n {} st2 (Inr st')"
          "\<not> stats_intact n (stats st')"
      | (found) qs st' where "enumerate_index_paths source w options n st2 = Inr (Some qs, st')" "step_ok t options n {} st2 (Inr st')"
          "set qs = shortest_paths (lifted_dest t) (source_start a) w" by blast
    then show ?thesis
    proof cases
      case error
      then show ?thesis by simp
    next
      case unknown
      then show ?thesis by (cases lefts) (simp_all add: rest_def)
    next
      case (found qs st')
      have inv': "search_inv t options n st'" using found(2) by simp
      have "step_ok t options n ?K st' (rest lefts (Some qs, st'))"
      proof (cases lefts)
        case None
        with lefts found(2) inv' show ?thesis by (auto simp: rest_def)
      next
        case (Some ps)
        show ?thesis
        proof (cases "length ps * length qs > max_path_pair_combinations_per_anchor options")
          case True
          with Some search_inv_truncate[OF inv' order.refl refl] show ?thesis
            by (simp add: rest_def Let_def only_complexity_def ring_keys_def stats_intact_truncate)
        next
          case False
          have "set ps = shortest_paths (lifted_dest t) (source_start a) l" using lefts Some by simp
          then have "step_ok t options n ?K st' (odd_lefts t adj index options n a l w (half_edge_step h) qs ps st')"
            using odd_lefts_correct[OF ready inv' n d closing, of qs ps] found(3) by (simp add: joined_edges_def)
          with Some False show ?thesis by (simp add: rest_def)
        qed
      qed
      with found(1,2) show ?thesis by (cases "rest lefts (Some qs, st')") auto
    qed
  qed
  have "step_ok t options n ?K (st\<lparr>stats := s1\<rparr>) (odd_half_edge t adj index options n source layer l h st)"
    if inv1: "search_inv t options n (st\<lparr>stats := s1\<rparr>)"
  proof -
    note lefts = enumerate_index_paths_correct[OF ready inv1 source a d(1) r]
    consider (error) e where "enumerate_index_paths source l options n (st\<lparr>stats := s1\<rparr>) = Inl e" "only_complexity options e"
      | (result) lefts st2 where "enumerate_index_paths source l options n (st\<lparr>stats := s1\<rparr>) = Inr (lefts, st2)"
          "step_ok t options n {} (st\<lparr>stats := s1\<rparr>) (Inr st2)" "case lefts of None \<Rightarrow> \<not> stats_intact n (stats st2)
        | Some ps \<Rightarrow> set ps = shortest_paths (lifted_dest t) (source_start a) l"
    proof (rule disjE[OF lefts])
      assume "\<exists>e. enumerate_index_paths source l options n (st\<lparr>stats := s1\<rparr>) = Inl e \<and> only_complexity options e"
      then show thesis using error by blast
    next
      assume "(\<exists>st'. enumerate_index_paths source l options n (st\<lparr>stats := s1\<rparr>) = Inr (None, st')
          \<and> step_ok t options n {} (st\<lparr>stats := s1\<rparr>) (Inr st') \<and> \<not> stats_intact n (stats st'))
        \<or> (\<exists>ps st'. enumerate_index_paths source l options n (st\<lparr>stats := s1\<rparr>) = Inr (Some ps, st')
          \<and> step_ok t options n {} (st\<lparr>stats := s1\<rparr>) (Inr st') \<and> distinct ps
          \<and> set ps = shortest_paths (lifted_dest t) (source_start a) l)"
      then show thesis
      proof (elim disjE exE conjE)
        fix st' assume st': "enumerate_index_paths source l options n (st\<lparr>stats := s1\<rparr>) = Inr (None, st')"
          "step_ok t options n {} (st\<lparr>stats := s1\<rparr>) (Inr st')" "\<not> stats_intact n (stats st')"
        then show thesis by (intro result[of None st']) simp_all
      next
        fix ps st' assume "enumerate_index_paths source l options n (st\<lparr>stats := s1\<rparr>) = Inr (Some ps, st')"
          "step_ok t options n {} (st\<lparr>stats := s1\<rparr>) (Inr st')"
          "set ps = shortest_paths (lifted_dest t) (source_start a) l"
        then show thesis by (intro result[of "Some ps" st']) simp_all
      qed
    qed
    then show ?thesis
    proof cases
      case error
      then show ?thesis unfolding op by simp
    next
      case (result lefts st2)
      then have inv2: "search_inv t options n st2" by simp
      from right[OF inv2 result(3)] have "step_ok t options n ?K st2 (odd_half_edge t adj index options n source layer l h st)"
        unfolding op using result(1) by simp
      with result(2) show ?thesis
        by (cases "odd_half_edge t adj index options n source layer l h st") auto
    qed
  qed
  then show ?thesis
    using step_ok_counter[OF inv s1] True by (simp add: w_def)
qed

definition layer_edges :: "framework_topology \<Rightarrow> nat \<Rightarrow> nat \<Rightarrow> ring_step list set" where
  "layer_edges t r a = {steps. \<exists>l w s. exact_distance (lifted_dest t) (source_start a) l r \<and>
     exact_distance (lifted_dest t) (source_start a) w r \<and> lifted_dest t l s = Some w \<and> l < w \<and>
     steps \<in> joined_edges t a l w s}"

lemma generate_odd_correct:
  assumes ready: "search_ready t adj options index" and inv: "search_inv t options n st"
    and n: "n = 2 * r + 1" "0 < r" "min_ring_size options \<le> n" "n \<le> max_ring_size options"
  shows "step_ok t options n (if index_complete index r
      then \<Union>a \<in> set (vertex_atoms t). primitive_keys t (layer_edges t r a) else {}) st
    (generate_odd_candidates t adj index options n st)"
proof -
  have "n div 2 = r" using n(1) by simp
  show ?thesis
    unfolding generate_odd_candidates_def \<open>n div 2 = r\<close> Let_def
  proof (rule over_sources[OF ready inv])
    fix a source st assume source: "map_of (sources index) a = Some source" and a: "a \<in> set (vertex_atoms t)"
      and inv: "search_inv t options n st" and r: "r \<le> complete_through_depth source"
    have adj: "valid_adjacency t adj" using ready by (simp add: search_ready_def)
    from search_ready_source[OF ready a] source have
      "index_exact t (source_start a) (complete_through_depth source) (distance source) (predecessors source)" by auto
    from layer_states_exact[OF this r] have layer: "set (layer_states source r) = {w. exact_distance (lifted_dest t) (source_start a) w r}" .
    let ?layer = "layer_states source r"
    let ?K = "\<lambda>l. \<Union>h \<in> set (half_edges_at t (atom_index l)). if half_edge_target l h \<in> set ?layer \<and> l < half_edge_target l h
      then primitive_keys t (joined_edges t a l (half_edge_target l h) (half_edge_step h)) else {}"
    have target: "step_ok t options n (?K l) st (odd_target t adj index options n source ?layer l st)"
      if l: "l \<in> set ?layer" and inv: "search_inv t options n st" for l st
    proof (cases "stopped (stats st)")
      case True
      with inv have "\<not> stats_intact n (stats st)" by (simp add: search_inv_def)
      with True inv show ?thesis by (simp add: odd_target_def)
    next
      case False
      from l layer obtain ss where "walk (lifted_dest t) (source_start a) ss l" by (auto simp: exact_distance_def)
      then have "atom_index l \<in> set (vertex_atoms t)"
        using walk_atom[OF adj] a by (simp add: source_start_def)
      then have "lookupE adj (atom_index l) = Inr (half_edges_at t (atom_index l))"
        by (rule valid_adjacency_lookup[OF adj])
      moreover have "step_ok t options n (?K l) st
          (foldE (odd_half_edge t adj index options n source ?layer l) (half_edges_at t (atom_index l)) st)"
        by (rule step_ok_foldE[OF odd_half_edge_correct[OF ready _ n source a r layer l] inv])
      ultimately show ?thesis using False by (simp add: odd_target_def)
    qed
    have "step_ok t options n (\<Union>l \<in> set ?layer. ?K l) st (foldE (odd_target t adj index options n source ?layer) ?layer st)"
      by (rule step_ok_foldE[OF target inv])
    then show "step_ok t options n (primitive_keys t (layer_edges t r a)) st
        (foldE (odd_target t adj index options n source ?layer) ?layer st)"
    proof (rule step_ok_mono)
      show "primitive_keys t (layer_edges t r a) \<subseteq> (\<Union>l \<in> set ?layer. ?K l)"
      proof
        fix key assume "key \<in> primitive_keys t (layer_edges t r a)"
        then obtain steps l w s where k: "key = ring_key_of t steps" "primitive_cycle t steps"
          "l \<in> set ?layer" "w \<in> set ?layer" "lifted_dest t l s = Some w" "l < w" "steps \<in> joined_edges t a l w s"
          by (auto simp: primitive_keys_def layer_edges_def layer)
        from half_edge_for_step[OF k(5)] obtain h where h: "h \<in> set (half_edges_at t (atom_index l))" "half_edge_step h = s"
          by blast
        with half_edge_step_target[OF h(1)] k(5) have w: "half_edge_target l h = w" by simp
        have "key \<in> primitive_keys t (joined_edges t a l (half_edge_target l h) (half_edge_step h))"
          using k w h(2) by (auto simp: primitive_keys_def)
        then have "key \<in> ?K l" using h(1) k(4,6) w by (intro UN_I[of h]) simp_all
        with k(3) show "key \<in> (\<Union>l \<in> set ?layer. ?K l)" by blast
      qed
    qed
  qed
qed

section \<open>Every primitive cycle is generated\<close>

lemma cycle_start:
  assumes adj: "valid_adjacency t adj" and "primitive_cycle t steps"
  obtains a vs keys where "a \<in> set (vertex_atoms t)" "closed_cycle t (source_start a) steps vs keys" "shortcut_free t vs"
proof -
  from closed_cycle_zero[OF primitive_is_cycle[OF assms(2)]] obtain v vs keys where
    v: "closed_cycle t v steps vs keys" "vertex_image v = zero_shift" by blast
  then have "v = source_start (atom_index v)" by (cases v) (simp add: source_start_def)
  moreover have "atom_index v \<in> set (vertex_atoms t)"
    using closed_cycle_atoms[OF adj v(1)] closed_cycle_vertices[OF v(1)] by blast
  moreover have "shortcut_free t vs" using primitive_cycle_vertices[OF v(1)] assms(2) by blast
  ultimately show ?thesis using that v(1) by metis
qed

lemma cycle_split:
  assumes cycle: "closed_cycle t v (xs @ ys) vs keys" and free: "shortcut_free t vs"
    and len: "length xs \<le> length vs div 2" "ys \<noteq> []"
  shows "exact_distance (lifted_dest t) v (vs ! length xs) (length xs)"
    and "xs \<in> shortest_paths (lifted_dest t) v (vs ! length xs)"
    and "walk (lifted_dest t) (vs ! length xs) ys v"
proof -
  note facts = closed_cycle_vertices[OF cycle]
  from cycle have "path_vertices_from_start t v (xs @ ys) = Inr (vs @ [v])" by (simp add: closed_cycle_def)
  then obtain us ws where us: "path_vertices_from_start t v xs = Inr us"
    "path_vertices_from_start t (last us) ys = Inr ws" "vs @ [v] = us @ tl ws" by (auto simp: path_vertices_append)
  have lens: "length us = Suc (length xs)" "us \<noteq> []" "length ws = Suc (length ys)" "ws \<noteq> []"
    using path_vertices_ends[OF us(1)] path_vertices_ends[OF us(2)] by simp_all
  have "length xs < length vs" using facts(3) len(2) by (cases ys) simp_all
  then have "vs ! length xs = (us @ tl ws) ! length xs" using us(3) by (metis nth_append)
  also have "\<dots> = last us" using lens by (simp add: nth_append last_conv_nth)
  finally have w: "last us = vs ! length xs" ..
  have "last ws = v"
  proof -
    have "tl ws \<noteq> []" using lens len(2) by (cases ws) auto
    then have "last (us @ tl ws) = last ws" by (simp add: last_tl)
    then show ?thesis using us(3) by (metis last_snoc)
  qed
  then show "walk (lifted_dest t) (vs ! length xs) ys v" using us(2) w by (auto simp: walk_lifted)
  have "walk (lifted_dest t) v xs (vs ! length xs)" using us(1) w by (auto simp: walk_lifted)
  moreover have "vs ! 0 = v" using facts by (simp flip: hd_conv_nth)
  then have "exact_distance (lifted_dest t) v (vs ! ((0 + length xs) mod length vs)) (length xs)"
    using free len(1) facts(1) unfolding shortcut_free_isometric lifted.isometric_def by (metis length_greater_0_conv)
  then show "exact_distance (lifted_dest t) v (vs ! length xs) (length xs)"
    using \<open>length xs < length vs\<close> by simp
  ultimately show "xs \<in> shortest_paths (lifted_dest t) v (vs ! length xs)" by (simp add: shortest_paths_def)
qed

lemma walk_lifted_reverse:
  "walk (lifted_dest t) v ss w \<Longrightarrow> walk (lifted_dest t) w (reverse_with step_reversed ss) v"
  using lifted.walk_reverse by (simp add: reverse_with_def)

lemma even_cycle_generated:
  assumes adj: "valid_adjacency t adj" and prim: "primitive_cycle t steps" and n: "length steps = 2 * r" "0 < r"
  shows "\<exists>a \<in> set (vertex_atoms t). \<exists>w. exact_distance (lifted_dest t) (source_start a) w r \<and> steps \<in> joined_pairs t a w"
proof -
  from cycle_start[OF adj prim] obtain a vs keys where a: "a \<in> set (vertex_atoms t)"
    and cycle: "closed_cycle t (source_start a) steps vs keys" and free: "shortcut_free t vs" .
  let ?p = "take r steps" and ?q = "drop r steps"
  have lens: "length ?p = r" "length ?q = r" "length vs = 2 * r"
    using n closed_cycle_vertices(3)[OF cycle] by simp_all
  have cycle': "closed_cycle t (source_start a) (?p @ ?q) vs keys" using cycle by simp
  have split: "exact_distance (lifted_dest t) (source_start a) (vs ! r) r"
    "?p \<in> shortest_paths (lifted_dest t) (source_start a) (vs ! r)" "walk (lifted_dest t) (vs ! r) ?q (source_start a)"
    using cycle_split[OF cycle' free] lens n by auto
  let ?r = "reverse_with step_reversed ?q"
  have "?r \<in> shortest_paths (lifted_dest t) (source_start a) (vs ! r)"
    using walk_lifted_reverse[OF split(3)] split(1) lens by (simp add: shortest_paths_def)
  moreover have "?p \<noteq> ?r"
  proof
    assume eq: "?p = ?r"
    have "reverse_with step_reversed ?p = ?q" unfolding eq by simp
    then have steps: "steps = ?p @ reverse_with step_reversed ?p" by simp
    from shortest_path_facts[OF split(2,1)] obtain us ks where
      us: "path_vertices_from_start t (source_start a) ?p = Inr us" "instances_along t (source_start a) ?p = Inr ks" "length ks = r"
        "last us = vs ! r" by metis
    have "instances_along t (source_start a) (?p @ [] @ reverse_with step_reversed ?p) = Inr (ks @ [] @ rev ks)"
      by (rule joined_instances[OF us(1) us(1), of "[]" "[last us]"]) (simp_all add: us(2))
    then have "keys = ks @ rev ks" using cycle steps by (simp add: closed_cycle_def)
    moreover have "distinct keys" using cycle by (simp add: closed_cycle_def)
    ultimately have "set ks \<inter> set ks = {}" by auto
    with us(3) n(2) show False by simp
  qed
  moreover have "steps = ?p @ reverse_with step_reversed ?r" by simp
  ultimately have "steps \<in> joined_pairs t a (vs ! r)" using split(2) unfolding joined_pairs_def by blast
  with a split(1) show ?thesis by blast
qed

lemma odd_cycle_split:
  assumes cycle: "closed_cycle t v steps vs keys" and free: "shortcut_free t vs" and n: "length steps = 2 * r + 1" "0 < r"
  shows "\<exists>p s q. steps = p @ [s] @ reverse_with step_reversed q \<and>
    p \<in> shortest_paths (lifted_dest t) v (vs ! r) \<and> q \<in> shortest_paths (lifted_dest t) v (vs ! Suc r) \<and>
    lifted_dest t (vs ! r) s = Some (vs ! Suc r) \<and> exact_distance (lifted_dest t) v (vs ! r) r \<and>
    exact_distance (lifted_dest t) v (vs ! Suc r) r"
proof -
  let ?p = "take r steps" and ?s = "steps ! r" and ?q = "drop (Suc r) steps"
  have steps: "steps = ?p @ [?s] @ ?q" using n by (simp add: id_take_nth_drop)
  have lens: "length ?p = r" "length ?q = r" "length vs = 2 * r + 1" "length vs div 2 = r"
    using n closed_cycle_vertices(3)[OF cycle] by simp_all
  have "closed_cycle t v (?p @ ([?s] @ ?q)) vs keys" using cycle steps by simp
  from cycle_split[OF this free] lens have split: "exact_distance (lifted_dest t) v (vs ! r) r"
    "?p \<in> shortest_paths (lifted_dest t) v (vs ! r)" "walk (lifted_dest t) (vs ! r) ([?s] @ ?q) v" by auto
  obtain u where u: "lifted_dest t (vs ! r) ?s = Some u" "walk (lifted_dest t) u ?q v" using split(3) by auto
  note facts = closed_cycle_vertices[OF cycle]
  have path: "path_vertices_from_start t v steps = Inr (vs @ [v])" using cycle by (simp add: closed_cycle_def)
  have "u = vs ! Suc r"
  proof -
    have "path_vertices_from_start t v ((?p @ [?s]) @ ?q) = Inr (vs @ [v])" using path steps by simp
    then obtain us ws where us: "path_vertices_from_start t v (?p @ [?s]) = Inr us" "vs @ [v] = us @ tl ws"
      unfolding path_vertices_append[of t v "?p @ [?s]"] by blast
    have len: "length us = Suc (Suc r)" "us \<noteq> []" using path_vertices_ends[OF us(1)] lens by simp_all
    have "walk (lifted_dest t) v (?p @ [?s]) (last us)" using us(1) by (auto simp: walk_lifted)
    moreover have "walk (lifted_dest t) v (?p @ [?s]) u"
      using split(2) u(1) by (auto simp: walk_append shortest_paths_def)
    ultimately have "u = last us" using walk_unique by metis
    also have "\<dots> = (us @ tl ws) ! Suc r" using len by (simp add: last_conv_nth nth_append)
    also have "\<dots> = vs ! Suc r" using us(2) lens n(2) by (metis add_less_mono Suc_eq_plus1 mult_2 nat_add_left_cancel_less nth_append add.commute less_add_same_cancel1 add_Suc)
    finally show ?thesis .
  qed
  have "exact_distance (lifted_dest t) v (vs ! Suc r) r"
  proof -
    have "Suc r + r = length vs" using lens(3) by simp
    then have "(Suc r + r) mod length vs = 0" by (metis mod_self)
    moreover have "Suc r < length vs" "r \<le> length vs div 2" using lens n(2) by simp_all
    then have "exact_distance (lifted_dest t) (vs ! Suc r) (vs ! ((Suc r + r) mod length vs)) r"
      using free unfolding shortcut_free_isometric lifted.isometric_def by blast
    ultimately have "exact_distance (lifted_dest t) (vs ! Suc r) (vs ! 0) r" by (simp only:)
    moreover have "vs ! 0 = v" using facts by (simp flip: hd_conv_nth)
    ultimately show ?thesis using lifted.distance_sym by metis
  qed
  moreover have "reverse_with step_reversed ?q \<in> shortest_paths (lifted_dest t) v (vs ! Suc r)"
    using walk_lifted_reverse[OF u(2)] calculation lens \<open>u = vs ! Suc r\<close> by (simp add: shortest_paths_def)
  moreover have "steps = ?p @ [?s] @ reverse_with step_reversed (reverse_with step_reversed ?q)"
    unfolding steps.reverse_with_reverse by (rule steps)
  moreover have "lifted_dest t (vs ! r) ?s = Some (vs ! Suc r)" using u(1) \<open>u = vs ! Suc r\<close> by simp
  ultimately show ?thesis using split(1,2) by blast
qed

lemma odd_cycle_generated:
  assumes adj: "valid_adjacency t adj" and prim: "primitive_cycle t steps" and n: "length steps = 2 * r + 1" "0 < r"
  shows "\<exists>a \<in> set (vertex_atoms t). \<exists>steps' \<in> steps.orbit steps. steps' \<in> layer_edges t r a"
proof -
  from cycle_start[OF adj prim] obtain a vs keys where a: "a \<in> set (vertex_atoms t)"
    and cycle: "closed_cycle t (source_start a) steps vs keys" and free: "shortcut_free t vs" .
  from odd_cycle_split[OF cycle free n] obtain p s q where
    split: "steps = p @ [s] @ reverse_with step_reversed q"
      "p \<in> shortest_paths (lifted_dest t) (source_start a) (vs ! r)"
      "q \<in> shortest_paths (lifted_dest t) (source_start a) (vs ! Suc r)"
      "lifted_dest t (vs ! r) s = Some (vs ! Suc r)"
      "exact_distance (lifted_dest t) (source_start a) (vs ! r) r"
      "exact_distance (lifted_dest t) (source_start a) (vs ! Suc r) r" by blast
  have "length vs = 2 * r + 1" "distinct vs"
    using closed_cycle_vertices(3)[OF cycle] cycle n(1) by (simp_all add: closed_cycle_def)
  then have "vs ! r \<noteq> vs ! Suc r" using n(2) by (simp add: nth_eq_iff_index_eq)
  then consider "vs ! r < vs ! Suc r" | "vs ! Suc r < vs ! r" by (metis linorder_neq_iff)
  then show ?thesis
  proof cases
    case 1
    with split have "steps \<in> layer_edges t r a" unfolding layer_edges_def joined_edges_def by blast
    with a steps.orbit_refl show ?thesis by blast
  next
    case 2
    have "reverse_with step_reversed steps = q @ [step_reversed s] @ reverse_with step_reversed p"
      unfolding split(1) by (simp add: reverse_with_def rev_map comp_def)
    moreover have "lifted_dest t (vs ! Suc r) (step_reversed s) = Some (vs ! r)"
      by (rule lifted_step_back[OF split(4)])
    ultimately have "reverse_with step_reversed steps \<in> layer_edges t r a"
      using 2 split unfolding layer_edges_def joined_edges_def by blast
    moreover have "reverse_with step_reversed steps \<in> steps.orbit steps"
      using steps.orbit_rotate(2)[of 0 steps] by simp
    ultimately show ?thesis using a by blast
  qed
qed

text \<open>One ring size.\<close>

lemma generate_candidates_correct:
  assumes ready: "search_ready t adj options index" and inv: "search_inv t options n st"
    and n: "min_ring_size options \<le> n" "n \<le> max_ring_size options"
  shows "step_ok t options n (if index_complete index (n div 2) then primitive_keys t {steps. length steps = n} else {}) st
    (generate_candidates t adj index options n st)"
proof (cases "stopped (stats st)")
  case True
  with inv have "\<not> stats_intact n (stats st)" by (simp add: search_inv_def)
  with True inv show ?thesis by (simp add: generate_candidates_def)
next
  case False
  have adj: "valid_adjacency t adj" and two: "2 \<le> n" using ready n(1) by (auto simp: search_ready_def)
  define r where "r = n div 2"
  have r: "0 < r" using two by (simp add: r_def)
  show ?thesis
  proof (cases "n mod 2 = 0")
    case True
    then have n2: "n = 2 * r" unfolding r_def by presburger
    have "primitive_keys t {steps. length steps = n} \<subseteq> (\<Union>a \<in> set (vertex_atoms t). primitive_keys t
        (\<Union>w. if exact_distance (lifted_dest t) (source_start a) w r then joined_pairs t a w else {}))"
    proof
      fix key assume "key \<in> primitive_keys t {steps. length steps = n}"
      then obtain steps where s: "key = ring_key_of t steps" "primitive_cycle t steps" "length steps = 2 * r"
        using n2 by (auto simp: primitive_keys_def)
      from even_cycle_generated[OF adj s(2,3) r] obtain a w where a: "a \<in> set (vertex_atoms t)"
        "exact_distance (lifted_dest t) (source_start a) w r" "steps \<in> joined_pairs t a w" by blast
      then have "steps \<in> (\<Union>w. if exact_distance (lifted_dest t) (source_start a) w r then joined_pairs t a w else {})"
        by (intro UN_I[of w]) simp_all
      with a(1) s(1,2) show "key \<in> (\<Union>a \<in> set (vertex_atoms t). primitive_keys t
        (\<Union>w. if exact_distance (lifted_dest t) (source_start a) w r then joined_pairs t a w else {}))"
        unfolding primitive_keys_def by blast
    qed
    with step_ok_mono[OF generate_even_correct[OF ready inv n2 r n]] False True two show ?thesis
      by (simp add: generate_candidates_def flip: r_def)
  next
    case odd: False
    then have n2: "n = 2 * r + 1" unfolding r_def by presburger
    have "primitive_keys t {steps. length steps = n} \<subseteq> (\<Union>a \<in> set (vertex_atoms t). primitive_keys t (layer_edges t r a))"
      unfolding primitive_keys_UN[symmetric]
    proof (rule primitive_keys_orbit_primitive)
      fix steps assume "steps \<in> {steps. length steps = n}" "primitive_cycle t steps"
      with odd_cycle_generated[OF adj _ _ r, of steps] n2
      show "\<exists>steps' \<in> (\<Union>a \<in> set (vertex_atoms t). layer_edges t r a). steps' \<in> steps.orbit steps" by auto
    qed
    with step_ok_mono[OF generate_odd_correct[OF ready inv n2 r n]] False odd two show ?thesis
      by (simp add: generate_candidates_def flip: r_def)
  qed
qed

end
