(* ===== verification/Shortcut_Complete.thy ===== *)
theory Shortcut_Complete
  imports Ring_Shortcut
begin

text \<open>
  Completeness of the search for an external shortcut: when it returns no witness, no shortcut of the
  admitted length exists, unless the limit on discovered states ended a search.  The distances of the
  breadth-first search are shown to be at most the length of any walk outside the cycle.
\<close>

section \<open>Walks outside the cycle\<close>

definition external_step :: "framework_topology \<Rightarrow> (nat \<times> shift) list \<Rightarrow> lifted_vertex \<Rightarrow> lifted_vertex \<Rightarrow> bool" where
  "external_step t instances v w \<longleftrightarrow>
     (\<exists>s key. step_destination t v s = Inr w \<and> physical_instance_key t v s = Inr key \<and> key \<notin> set instances)"

lemma external_stepI:
  "step_destination t v s = Inr w \<Longrightarrow> physical_instance_key t v s = Inr key \<Longrightarrow> key \<notin> set instances
    \<Longrightarrow> external_step t instances v w"
  unfolding external_step_def by blast

inductive outside ::
  "framework_topology \<Rightarrow> lifted_vertex list \<Rightarrow> (nat \<times> shift) list \<Rightarrow> lifted_vertex \<Rightarrow> nat \<Rightarrow> lifted_vertex \<Rightarrow> bool"
  for t vs instances start where
  outside_start: "outside t vs instances start 0 start"
| outside_step: "outside t vs instances start k v \<Longrightarrow> external_step t instances v w \<Longrightarrow> w \<notin> set vs
    \<Longrightarrow> outside t vs instances start (Suc k) w"

text \<open>More than \<open>limit\<close> vertices lie within \<open>n\<close> steps outside the cycle of one cycle vertex.\<close>

definition beyond_limit ::
  "framework_topology \<Rightarrow> lifted_vertex list \<Rightarrow> (nat \<times> shift) list \<Rightarrow> nat \<Rightarrow> nat \<Rightarrow> bool" where
  "beyond_limit t vs instances n limit \<longleftrightarrow> (\<exists>start \<in> set vs. \<exists>S. finite S \<and> limit < card S
     \<and> (\<forall>v \<in> S. \<exists>k \<le> n. outside t vs instances start k v))"

lemma instances_snoc:
  assumes "path_vertices_from_start t v xs = Inr us" and "instances_along t v (xs @ [y]) = Inr ls"
  shows "\<exists>ks key. instances_along t v xs = Inr ks \<and> physical_instance_key t (last us) y = Inr key \<and> ls = ks @ [key]"
  using assms
proof (induction xs arbitrary: v us ls)
  case (Cons x xs)
  from Cons.prems(1) obtain w ws where w: "step_destination t v x = Inr w"
    "path_vertices_from_start t w xs = Inr ws" "us = v # ws" by (auto simp: bindE_Inr_iff)
  with Cons.prems(2) obtain key ls' where rest: "physical_instance_key t v x = Inr key"
    "instances_along t w (xs @ [y]) = Inr ls'" "ls = key # ls'" by (auto simp: bindE_Inr_iff)
  from Cons.IH[OF w(2) rest(2)] path_vertices_ends[OF w(2)] w rest show ?case by auto
qed (auto simp: bindE_Inr_iff)

lemma walk_outside:
  assumes "path_vertices_from_start t start steps = Inr verts" and "instances_along t start steps = Inr ks"
    and "set ks \<inter> set instances = {}" and "set (tl verts) \<inter> set vs = {}"
  shows "outside t vs instances start (length steps) (last verts)"
  using assms
proof (induction steps arbitrary: verts ks rule: rev_induct)
  case (snoc s steps)
  from snoc.prems(1) obtain us w where us: "path_vertices_from_start t start steps = Inr us"
    "step_destination t (last us) s = Inr w" "verts = us @ [w]"
    by (auto simp: path_vertices_append bindE_Inr_iff)
  note ends = path_vertices_ends[OF us(1)]
  from instances_snoc[OF us(1) snoc.prems(2)] obtain ks' key where keys:
    "instances_along t start steps = Inr ks'" "physical_instance_key t (last us) s = Inr key" "ks = ks' @ [key]"
    by blast
  have parts: "set ks' \<inter> set instances = {}" "key \<notin> set instances" "set (tl us) \<inter> set vs = {}" "w \<notin> set vs"
    using snoc.prems(3,4) keys(3) us(3) ends by auto
  have "external_step t instances (last us) w" by (rule external_stepI[OF us(2) keys(2) parts(2)])
  from outside_step[OF snoc.IH[OF us(1) keys(1) parts(1,3)] this parts(4)] show ?case by (simp add: us(3))
qed (auto intro: outside_start)

lemma external_walk_last:
  assumes "external_walk t vs instances start steps verts" and "steps \<noteq> []"
  shows "\<exists>v. outside t vs instances start (length steps - 1) v \<and> external_step t instances v (last verts)"
proof -
  from assms(1) obtain ks where walk: "path_vertices_from_start t start steps = Inr verts"
    "instances_along t start steps = Inr ks" "set ks \<inter> set instances = {}"
    "set (butlast (tl verts)) \<inter> set vs = {}" by (auto simp: external_walk_def)
  define ss s where "ss = butlast steps" and "s = last steps"
  have steps: "steps = ss @ [s]" using assms(2) by (simp add: ss_def s_def)
  from walk(1) obtain us w where us: "path_vertices_from_start t start ss = Inr us"
    "step_destination t (last us) s = Inr w" "verts = us @ [w]"
    by (auto simp: steps path_vertices_append bindE_Inr_iff)
  note ends = path_vertices_ends[OF us(1)]
  from instances_snoc[OF us(1)] walk(2) obtain ks' key where keys:
    "instances_along t start ss = Inr ks'" "physical_instance_key t (last us) s = Inr key" "ks = ks' @ [key]"
    unfolding steps by blast
  have parts: "set ks' \<inter> set instances = {}" "key \<notin> set instances" "set (tl us) \<inter> set vs = {}"
    using walk(3,4) keys(3) us(3) ends by auto
  have "outside t vs instances start (length ss) (last us)" by (rule walk_outside[OF us(1) keys(1) parts(1,3)])
  moreover have "external_step t instances (last us) w" by (rule external_stepI[OF us(2) keys(2) parts(2)])
  ultimately show ?thesis using us(3) steps by auto
qed

section \<open>What the search has exhausted\<close>

text \<open>\<open>arcs_longer vs u w k\<close>: both arcs of the cycle between \<open>u\<close> and \<open>w\<close> are longer than \<open>k\<close>.\<close>

definition arcs_longer :: "lifted_vertex list \<Rightarrow> lifted_vertex \<Rightarrow> lifted_vertex \<Rightarrow> nat \<Rightarrow> bool" where
  "arcs_longer vs u w k \<longleftrightarrow> (\<exists>i < length vs. \<exists>j < length vs. vs ! i = u \<and> vs ! j = w \<and>
     k < min (nat ((int j - int i) mod int (length vs))) (length vs - nat ((int j - int i) mod int (length vs))))"

lemma arcs_longer_arcs:
  assumes "distinct vs" and "arcs_between vs u w a b" and "k < min a b"
  shows "arcs_longer vs u w k"
proof -
  let ?n = "length vs"
  from assms(2) obtain i where i: "i < ?n" "{vs ! i, vs ! ((i + a) mod ?n)} = {u, w}" and sum: "a + b = ?n"
    unfolding arcs_between_def by blast
  let ?j = "(i + a) mod ?n"
  have j: "?j < ?n" using i(1) by (rule index_mod_less)
  have a: "0 < a" "a < ?n" using assms(3) sum by linarith+
  have forth: "(int ?j - int i) mod int ?n = int a"
  proof -
    have "(int ?j - int i) mod int ?n = (int (i + a) - int i) mod int ?n" by (simp add: zmod_int mod_diff_left_eq)
    then show ?thesis using a(2) by simp
  qed
  have rearward: "(int i - int ?j) mod int ?n = int b"
  proof -
    have "(int i - int ?j) mod int ?n = (int i - int (i + a)) mod int ?n" by (simp add: zmod_int mod_diff_right_eq)
    also have "int i - int (i + a) = int b - int ?n" using sum by simp
    also have "(int b - int ?n) mod int ?n = int b mod int ?n" by simp
    finally show ?thesis using a sum by simp
  qed
  have rest: "?n - a = b" "?n - b = a" using sum by simp_all
  from i(2) consider "vs ! i = u" "vs ! ?j = w" | "vs ! i = w" "vs ! ?j = u" by (auto simp: doubleton_eq_iff)
  then show ?thesis
  proof cases
    case 1
    then show ?thesis unfolding arcs_longer_def using i(1) j forth assms(3) rest
      by - (rule exI[of _ i], intro conjI exI[of _ ?j], simp_all)
  next
    case 2
    then show ?thesis unfolding arcs_longer_def using i(1) j rearward assms(3) rest
      by - (rule exI[of _ ?j], intro conjI exI[of _ i], simp_all)
  qed
qed

definition exhausted ::
  "framework_topology \<Rightarrow> lifted_vertex list \<Rightarrow> (nat \<times> shift) list \<Rightarrow> lifted_vertex
   \<Rightarrow> (lifted_vertex \<times> nat) list \<Rightarrow> lifted_vertex \<Rightarrow> nat \<Rightarrow> half_edge list \<Rightarrow> bool" where
  "exhausted t vs instances start dist v k hs \<longleftrightarrow>
     (\<forall>h \<in> set hs. \<forall>key. physical_instance_key t v (half_edge_step h) = Inr key \<longrightarrow> key \<notin> set instances \<longrightarrow>
        (let w = half_edge_target v h in
         (w \<in> set vs \<longrightarrow> w \<noteq> start \<longrightarrow> \<not> arcs_longer vs start w (Suc k)) \<and>
         (w \<notin> set vs \<longrightarrow> (\<exists>j \<le> Suc k. map_of dist w = Some j))))"

definition dist_grows :: "(lifted_vertex \<times> nat) list \<Rightarrow> (lifted_vertex \<times> nat) list \<Rightarrow> bool" where
  "dist_grows d d' \<longleftrightarrow> (\<forall>v k. map_of d v = Some k \<longrightarrow> map_of d' v = Some k)"

lemma dist_grows_trans: "dist_grows a b \<Longrightarrow> dist_grows b c \<Longrightarrow> dist_grows a c"
  by (simp add: dist_grows_def)

lemma exhausted_grows: "exhausted t vs instances start d v k hs \<Longrightarrow> dist_grows d d' \<Longrightarrow> exhausted t vs instances start d' v k hs"
  unfolding exhausted_def dist_grows_def Let_def by blast

text \<open>While states at depth \<open>k\<close> are scanned, the queue is sorted by depth and holds depths \<open>k\<close> and \<open>k + 1\<close>.\<close>

definition depth_in :: "(lifted_vertex \<times> nat) list \<Rightarrow> lifted_vertex \<Rightarrow> nat" where
  "depth_in d v = (case map_of d v of None \<Rightarrow> 0 | Some k \<Rightarrow> k)"

definition level :: "nat \<Rightarrow> lifted_vertex list \<Rightarrow> (lifted_vertex \<times> nat) list \<Rightarrow> bool" where
  "level k queue d \<longleftrightarrow> distinct (map fst d) \<and> sorted (map (depth_in d) queue) \<and>
     (\<forall>v \<in> set queue. k \<le> depth_in d v) \<and> (\<forall>v j. map_of d v = Some j \<longrightarrow> j \<le> Suc k)"

lemma level_push:
  assumes "level k queue d" and "w \<notin> fst ` set d" and "set queue \<subseteq> fst ` set d"
  shows "level k (queue @ [w]) (AList.update w (Suc k) d)"
proof -
  let ?d = "AList.update w (Suc k) d"
  have same: "depth_in ?d v = depth_in d v" if "v \<in> set queue" for v
    using that assms(2,3) by (auto simp: depth_in_def update_conv)
  have new: "depth_in ?d w = Suc k" by (simp add: depth_in_def update_conv)
  have "depth_in d v \<le> Suc k" if "v \<in> set queue" for v
    using assms(1) by (auto simp: depth_in_def level_def split: option.splits)
  moreover have old: "map (depth_in ?d) queue = map (depth_in d) queue" using same by simp
  ultimately have "sorted (map (depth_in ?d) (queue @ [w]))"
    using assms(1) new unfolding map_append old by (simp add: sorted_append level_def)
  moreover have "\<forall>v \<in> set (queue @ [w]). k \<le> depth_in ?d v"
    using assms(1) new same by (auto simp: level_def)
  moreover have "distinct (map fst ?d)" using assms(1) by (simp add: level_def distinct_update)
  moreover have "\<forall>v j. map_of ?d v = Some j \<longrightarrow> j \<le> Suc k"
    using assms(1) by (auto simp: level_def update_conv)
  ultimately show ?thesis by (simp add: level_def)
qed

lemma shortcut_inv_outside:
  assumes "shortcut_inv t vs instances start queue dist parent" and "map_of dist v = Some k"
  shows "outside t vs instances start k v"
  using assms(2)
proof (induction k arbitrary: v)
  case 0
  have "v = start" using assms(1) 0 unfolding shortcut_inv_def by (metis nat.distinct(1))
  then show ?case by (simp add: outside_start)
next
  case (Suc k)
  have "map_of dist start = Some 0" using assms(1) by (simp add: shortcut_inv_def)
  with Suc.prems have far: "v \<noteq> start" by auto
  then obtain p s key where p: "map_of dist p = Some k" "step_destination t p s = Inr v"
    "physical_instance_key t p s = Inr key" "key \<notin> set instances"
    using assms(1) Suc.prems unfolding shortcut_inv_def by (metis nat.inject)
  have "v \<notin> set vs" using assms(1) Suc.prems far unfolding shortcut_inv_def by metis
  with outside_step[OF Suc.IH[OF p(1)] external_stepI[OF p(2-4)]] show ?case .
qed

section \<open>Scanning and searching\<close>

definition scan_complete ::
  "framework_topology \<Rightarrow> lifted_vertex list \<Rightarrow> (nat \<times> shift) list \<Rightarrow> nat \<Rightarrow> lifted_vertex \<Rightarrow> lifted_vertex \<Rightarrow> nat
   \<Rightarrow> half_edge list \<Rightarrow> lifted_vertex list \<Rightarrow> (lifted_vertex \<times> nat) list \<Rightarrow> shortcut_scan result \<Rightarrow> bool" where
  "scan_complete t vs instances limit start state k hs queue dist r \<longleftrightarrow> (case r of
     Inr (ScanNext queue' dist' parent') \<Rightarrow> level k queue' dist' \<and> dist_grows dist dist'
       \<and> set queue \<subseteq> set queue' \<and> fst ` set dist' \<subseteq> fst ` set dist \<union> set queue'
       \<and> exhausted t vs instances start dist' state k hs
   | Inr StateLimit \<Rightarrow> \<exists>S. finite S \<and> limit < card S \<and> (\<forall>v \<in> S. \<exists>j \<le> Suc k. outside t vs instances start j v)
   | _ \<Rightarrow> True)"

lemma scan_complete_cons:
  assumes "scan_complete t vs instances limit start state k hs queue' dist' r"
    and "set queue \<subseteq> set queue'" and "dist_grows dist dist'" and "fst ` set dist' \<subseteq> fst ` set dist \<union> set queue'"
    and "exhausted t vs instances start dist' state k [h]"
  shows "scan_complete t vs instances limit start state k (h # hs) queue dist r"
proof (cases r)
  case (Inr scan)
  show ?thesis
  proof (cases scan)
    case (ScanNext q d p)
    with assms(1) Inr have rest: "level k q d" "dist_grows dist' d" "set queue' \<subseteq> set q"
      "fst ` set d \<subseteq> fst ` set dist' \<union> set q" "exhausted t vs instances start d state k hs"
      by (simp_all add: scan_complete_def)
    have "exhausted t vs instances start d state k [h]" by (rule exhausted_grows[OF assms(5) rest(2)])
    with rest(5) have "exhausted t vs instances start d state k (h # hs)" by (simp add: exhausted_def)
    moreover have "fst ` set d \<subseteq> fst ` set dist \<union> set q" using rest(3,4) assms(4) by blast
    moreover have "set queue \<subseteq> set q" using rest(3) assms(2) by blast
    ultimately show ?thesis
      using rest(1) dist_grows_trans[OF assms(3) rest(2)] by (simp add: scan_complete_def Inr ScanNext)
  qed (use assms(1) Inr in \<open>simp_all add: scan_complete_def\<close>)
qed (simp add: scan_complete_def)

lemma dist_grows_update: "w \<notin> fst ` set d \<Longrightarrow> dist_grows d (AList.update w k d)"
  unfolding dist_grows_def in_keys_iff by (auto simp: update_conv)

lemma scan_half_edges_complete:
  assumes adj: "valid_adjacency t adj" and start: "start \<in> set vs" and distinct: "distinct vs"
    and "shortcut_inv t vs instances start queue dist parent" and "level k queue dist"
    and "map_of dist state = Some k" and "set hs \<subseteq> set (half_edges_at t (atom_index state))"
  shows "scan_complete t vs instances limit start state k hs queue dist
    (scan_half_edges t vs instances limit start state k hs queue dist parent)"
  using assms(4-7)
proof (induction hs arbitrary: queue dist parent)
  case Nil
  then show ?case by (simp add: scan_complete_def dist_grows_def exhausted_def)
next
  case (Cons h hs)
  let ?s = "half_edge_step h" and ?target = "half_edge_target state h"
  let ?rest = "scan_half_edges t vs instances limit start state k hs"
  let ?goal = "scan_complete t vs instances limit start state k (h # hs) queue dist"
  have h: "h \<in> set (half_edges_at t (atom_index state))" using Cons.prems(4) by simp
  have dest: "step_destination t state ?s = Inr ?target"
    using half_edge_step_target[OF h] by (simp add: lifted_dest_iff)
  obtain key where key: "physical_instance_key t state ?s = Inr key"
    using physical_instance_total[OF dest] by blast
  have atom: "atom_index ?target \<in> set (vertex_atoms t)"
    using lifted_dest_atom[OF adj, of state ?s] dest by (simp add: lifted_dest_iff)
  have same: "?goal (?rest queue dist parent)" if "exhausted t vs instances start dist state k [h]"
    using Cons.IH[OF Cons.prems(1-3)] Cons.prems(4) that
    by (intro scan_complete_cons[where queue' = queue and dist' = dist]) (simp_all add: dist_grows_def)
  consider "key \<in> set instances" | "key \<notin> set instances" "?target \<in> set vs" "?target \<noteq> start"
    | "key \<notin> set instances" "?target \<in> set vs" "?target = start"
    | "key \<notin> set instances" "?target \<notin> set vs" "?target \<in> fst ` set dist"
    | "key \<notin> set instances" "?target \<notin> set vs" "?target \<notin> fst ` set dist" by blast
  then show ?case
  proof cases
    case 1
    then have "exhausted t vs instances start dist state k [h]" by (simp add: exhausted_def key)
    from same[OF this] 1 key show ?thesis by (simp add: half_edge_step_def)
  next
    case 2
    from position_of_correct[OF start] position_of_correct[OF 2(2)] obtain i j where
      i: "i < length vs" "position_of vs start = Inr i" "vs ! i = start" and
      j: "j < length vs" "position_of vs ?target = Inr j" "vs ! j = ?target" by blast
    let ?f = "nat ((int j - int i) mod int (length vs))"
    show ?thesis
    proof (cases "Suc k < min ?f (length vs - ?f)")
      case True
      with 2 key i j show ?thesis
        by (auto simp: half_edge_step_def Let_def scan_complete_def bindE_def split: sum.splits)
    next
      case False
      have "\<not> arcs_longer vs start ?target (Suc k)"
      proof
        assume "arcs_longer vs start ?target (Suc k)"
        then obtain i' j' where *: "i' < length vs" "j' < length vs" "vs ! i' = start" "vs ! j' = ?target"
          "Suc k < min (nat ((int j' - int i') mod int (length vs))) (length vs - nat ((int j' - int i') mod int (length vs)))"
          unfolding arcs_longer_def by blast
        have "i' = i" "j' = j" using distinct * i j by (metis nth_eq_iff_index_eq)+
        with *(5) False show False by simp
      qed
      with 2 have "exhausted t vs instances start dist state k [h]" by (simp add: exhausted_def)
      from same[OF this] 2 key i j False show ?thesis by (auto simp: half_edge_step_def Let_def)
    qed
  next
    case 3
    then have "exhausted t vs instances start dist state k [h]" by (simp add: exhausted_def)
    from same[OF this] 3 key show ?thesis by (simp add: half_edge_step_def Let_def)
  next
    case 4
    then obtain j where j: "map_of dist ?target = Some j" unfolding in_keys_iff by blast
    then have "j \<le> Suc k" using Cons.prems(2) by (auto simp: level_def)
    with 4 j have "exhausted t vs instances start dist state k [h]" by (simp add: exhausted_def)
    from same[OF this] 4 key show ?thesis by (simp add: half_edge_step_def Let_def)
  next
    case 5
    have not_start: "?target \<noteq> start" using 5(2) start by metis
    show ?thesis
    proof (cases "limit \<le> length dist")
      case True
      let ?S = "insert ?target (fst ` set dist)"
      have "card (fst ` set dist) = length dist"
        using Cons.prems(2) distinct_card[of "map fst dist"] by (simp add: level_def)
      with True 5(3) have "limit < card ?S" by simp
      moreover have "\<exists>j \<le> Suc k. outside t vs instances start j v" if "v \<in> ?S" for v
      proof (cases "v = ?target")
        case True
        have "outside t vs instances start k state" by (rule shortcut_inv_outside[OF Cons.prems(1,3)])
        from outside_step[OF this external_stepI[OF dest key 5(1)] 5(2)] True show ?thesis by blast
      next
        case False
        with that have "v \<in> fst ` set dist" by simp
        then obtain j where j: "map_of dist v = Some j" unfolding in_keys_iff by blast
        with Cons.prems(2) have "j \<le> Suc k" by (auto simp: level_def)
        with shortcut_inv_outside[OF Cons.prems(1) j] show ?thesis by blast
      qed
      ultimately have "\<exists>S. finite S \<and> limit < card S \<and> (\<forall>v \<in> S. \<exists>j \<le> Suc k. outside t vs instances start j v)"
        by (intro exI[of _ ?S]) simp
      with 5 key True not_start show ?thesis
        by (simp add: half_edge_step_def Let_def scan_complete_def)
    next
      case False
      let ?dist = "AList.update ?target (Suc k) dist" and ?parent = "AList.update ?target (state, ?s) parent"
      have inv: "shortcut_inv t vs instances start (queue @ [?target]) ?dist ?parent"
        by (rule shortcut_inv_add[OF Cons.prems(1,3) dest key 5 atom])
      have "set queue \<subseteq> fst ` set dist" using Cons.prems(1) by (simp add: shortcut_inv_def)
      then have lev: "level k (queue @ [?target]) ?dist" by (rule level_push[OF Cons.prems(2) 5(3)])
      have grow: "dist_grows dist ?dist" by (rule dist_grows_update[OF 5(3)])
      then have "map_of ?dist state = Some k" using Cons.prems(3) by (simp add: dist_grows_def)
      from Cons.IH[OF inv lev this] Cons.prems(4)
      have ok: "scan_complete t vs instances limit start state k hs (queue @ [?target]) ?dist
        (?rest (queue @ [?target]) ?dist ?parent)" by simp
      have "exhausted t vs instances start ?dist state k [h]" using 5(2) by (simp add: exhausted_def update_conv)
      from scan_complete_cons[OF ok _ grow _ this] have "?goal (?rest (queue @ [?target]) ?dist ?parent)"
        by (auto simp: update_fresh[OF 5(3)])
      with 5 key False not_start show ?thesis by (simp add: half_edge_step_def Let_def)
    qed
  qed
qed

text \<open>Between two scans the queue is sorted, and everything that left it is exhausted.\<close>

definition between_scans ::
  "framework_topology \<Rightarrow> lifted_vertex list \<Rightarrow> (nat \<times> shift) list \<Rightarrow> nat \<Rightarrow> lifted_vertex \<Rightarrow> lifted_vertex list
   \<Rightarrow> (lifted_vertex \<times> nat) list \<Rightarrow> bool" where
  "between_scans t vs instances n start queue dist \<longleftrightarrow>
     (case queue of [] \<Rightarrow> True | v # _ \<Rightarrow> level (depth_in dist v) queue dist) \<and>
     (\<forall>v k. map_of dist v = Some k \<longrightarrow> v \<notin> set queue \<longrightarrow> k < n \<longrightarrow>
        exhausted t vs instances start dist v k (half_edges_at t (atom_index v)))"

lemma level_tail:
  assumes "level k queue dist"
  shows "case queue of [] \<Rightarrow> True | v # _ \<Rightarrow> level (depth_in dist v) queue dist"
proof (cases queue)
  case (Cons v queue')
  have "k \<le> depth_in dist v" using assms Cons by (simp add: level_def)
  then have "\<forall>u j. map_of dist u = Some j \<longrightarrow> j \<le> Suc (depth_in dist v)"
    using assms unfolding level_def by (metis Suc_le_mono le_trans)
  with assms Cons show ?thesis by (auto simp: level_def)
qed simp

lemma level_pop: "level k (v # queue) dist \<Longrightarrow> level k queue dist"
  by (simp add: level_def)

definition search_complete ::
  "framework_topology \<Rightarrow> lifted_vertex list \<Rightarrow> (nat \<times> shift) list \<Rightarrow> nat \<Rightarrow> nat \<Rightarrow> lifted_vertex
   \<Rightarrow> shortcut_scan result \<Rightarrow> bool" where
  "search_complete t vs instances n limit start r \<longleftrightarrow> (case r of
     Inr (ScanNext queue dist parent) \<Rightarrow> map_of dist start = Some 0 \<and>
       (\<forall>v k. map_of dist v = Some k \<longrightarrow> k < n \<longrightarrow>
          exhausted t vs instances start dist v k (half_edges_at t (atom_index v)))
   | Inr StateLimit \<Rightarrow> \<exists>S. finite S \<and> limit < card S \<and> (\<forall>v \<in> S. \<exists>j \<le> n. outside t vs instances start j v)
   | _ \<Rightarrow> True)"

lemma shortcut_search_complete:
  assumes "valid_adjacency t adj" and "start \<in> set vs" and "distinct vs"
    and "shortcut_inv t vs instances start queue dist parent" and "between_scans t vs instances n start queue dist"
  shows "search_complete t vs instances n limit start (shortcut_search t adj vs instances n limit start queue dist parent)"
  using assms
proof (induction t adj vs instances n limit start queue dist parent rule: shortcut_search.induct)
  case (1 t adj vs instances n limit start dist parent)
  then show ?case by (simp add: search_complete_def between_scans_def shortcut_inv_def)
next
  case (2 t adj vs instances n limit start state queue dist parent)
  note adj = 2(3) and start = 2(4) and distinct = 2(5) and inv = 2(6) and between = 2(7)
  have "state \<in> fst ` set dist" using inv by (simp add: shortcut_inv_def)
  then obtain k where k: "map_of dist state = Some k" unfolding in_keys_iff by blast
  then have look: "lookupE dist state = Inr k" by (simp add: lookupE_def)
  have inv': "shortcut_inv t vs instances start queue dist parent" using inv by (simp add: shortcut_inv_def)
  have "depth_in dist state = k" using k by (simp add: depth_in_def)
  with between have "level k (state # queue) dist" by (simp add: between_scans_def)
  then have lev: "level k queue dist" by (rule level_pop)
  have old: "exhausted t vs instances start dist v j (half_edges_at t (atom_index v))"
    if "map_of dist v = Some j" "v \<notin> set queue" "v \<noteq> state" "j < n" for v j
    using between that unfolding between_scans_def by simp
  show ?case
  proof (cases "n \<le> k")
    case True
    have "exhausted t vs instances start dist v j (half_edges_at t (atom_index v))"
      if "map_of dist v = Some j" "v \<notin> set queue" "j < n" for v j
      by (rule old[OF that(1,2) _ that(3)]) (use that k True in auto)
    with level_tail[OF lev] have "between_scans t vs instances n start queue dist" by (simp add: between_scans_def)
    with look 2(1)[OF look True adj start distinct inv'] True show ?thesis by simp
  next
    case False
    have "atom_index state \<in> set (vertex_atoms t)" using inv k unfolding shortcut_inv_def by blast
    then have hs: "lookupE adj (atom_index state) = Inr (half_edges_at t (atom_index state))"
      by (rule valid_adjacency_lookup[OF adj])
    let ?scan = "scan_half_edges t vs instances limit start state k (half_edges_at t (atom_index state)) queue dist parent"
    have ok: "scan_ok t vs instances start ?scan"
      by (rule scan_half_edges_correct[OF adj start inv' k order.refl])
    have complete: "scan_complete t vs instances limit start state k (half_edges_at t (atom_index state)) queue dist ?scan"
      by (rule scan_half_edges_complete[OF adj start distinct inv' lev k order.refl])
    from ok consider (found) w where "?scan = Inr (WitnessFound w)" | (limit) "?scan = Inr StateLimit"
      | (rest) q d p where "?scan = Inr (ScanNext q d p)" "shortcut_inv t vs instances start q d p"
      by (auto simp: scan_ok_def split: sum.splits shortcut_scan.splits)
    then show ?thesis
    proof cases
      case found
      with look hs False show ?thesis by (simp add: search_complete_def)
    next
      case limit
      with complete obtain S where "finite S" "limit < card S" "\<forall>v \<in> S. \<exists>j \<le> Suc k. outside t vs instances start j v"
        by (auto simp: scan_complete_def)
      moreover from this(3) False have "\<forall>v \<in> S. \<exists>j \<le> n. outside t vs instances start j v"
        by (meson le_trans not_less_eq_eq)
      ultimately show ?thesis using limit look hs False by (auto simp: search_complete_def)
    next
      case rest
      with complete have c: "level k q d" "dist_grows dist d" "set queue \<subseteq> set q" "fst ` set d \<subseteq> fst ` set dist \<union> set q"
        "exhausted t vs instances start d state k (half_edges_at t (atom_index state))" by (simp_all add: scan_complete_def)
      have "exhausted t vs instances start d v j (half_edges_at t (atom_index v))"
        if v: "map_of d v = Some j" "v \<notin> set q" "j < n" for v j
      proof (cases "v = state")
        case True
        with v(1) c(2) k have "j = k" by (simp add: dist_grows_def)
        with True c(5) show ?thesis by simp
      next
        case other: False
        have "v \<in> fst ` set d" using v(1) unfolding in_keys_iff by blast
        with c(4) v(2) have "v \<in> fst ` set dist" by blast
        then obtain i where i: "map_of dist v = Some i" unfolding in_keys_iff by blast
        with c(2) v(1) have "i = j" by (simp add: dist_grows_def)
        with i have "map_of dist v = Some j" by simp
        moreover have "v \<notin> set queue" using v(2) c(3) by blast
        ultimately show ?thesis using old other v(3) c(2) exhausted_grows by blast
      qed
      with level_tail[OF c(1)] have "between_scans t vs instances n start q d" by (simp add: between_scans_def)
      with 2(2)[OF look False hs rest(1) refl adj start distinct rest(2)] look hs False rest(1) show ?thesis by simp
    qed
  qed
qed

section \<open>No witness, no shortcut\<close>

lemma outside_discovered:
  assumes "outside t vs instances start k v" and "k \<le> n" and "start \<in> set vs"
    and "map_of dist start = Some 0"
    and "\<forall>v k. map_of dist v = Some k \<longrightarrow> k < n \<longrightarrow>
          exhausted t vs instances start dist v k (half_edges_at t (atom_index v))"
  shows "\<exists>j \<le> k. map_of dist v = Some j"
  using assms(1,2)
proof induction
  case (outside_step k v w)
  from outside_step.IH outside_step.prems obtain j where j: "j \<le> k" "map_of dist v = Some j" by auto
  with assms(5) outside_step.prems have set: "exhausted t vs instances start dist v j (half_edges_at t (atom_index v))" by simp
  from \<open>external_step t instances v w\<close> obtain s key where s: "step_destination t v s = Inr w"
    "physical_instance_key t v s = Inr key" "key \<notin> set instances" unfolding external_step_def by blast
  then have "lifted_dest t v s = Some w" by (simp add: lifted_dest_iff)
  from half_edge_for_step[OF this] obtain h where h: "h \<in> set (half_edges_at t (atom_index v))" "half_edge_step h = s" by blast
  have "half_edge_target v h = w" using half_edge_step_target[OF h(1)] h(2) \<open>lifted_dest t v s = Some w\<close> by simp
  with set h s \<open>w \<notin> set vs\<close> have "\<exists>i \<le> Suc j. map_of dist w = Some i" unfolding exhausted_def Let_def by metis
  with j(1) show ?case by (meson Suc_le_mono le_trans)
qed (use assms(4) in simp)

lemma exhausted_no_shortcut:
  assumes "map_of dist start = Some 0" and distinct: "distinct vs"
    and all: "\<forall>v k. map_of dist v = Some k \<longrightarrow> k < n \<longrightarrow>
          exhausted t vs instances start dist v k (half_edges_at t (atom_index v))"
    and w: "external_shortcut t vs instances w" and first: "pair_first (endpoint_pair w) = start"
  shows "n < shortcut_length w"
proof (rule ccontr)
  assume short: "\<not> n < shortcut_length w"
  let ?second = "pair_second (endpoint_pair w)"
  from w first have ends: "start \<in> set vs" "?second \<in> set vs" "start \<noteq> ?second"
    "external_walk t vs instances start (shortcut_steps w) (shortcut_vertices w)"
    "last (shortcut_vertices w) = ?second" "length (shortcut_steps w) = shortcut_length w"
    "shortcut_length w < min (first_cycle_arc_length w) (second_cycle_arc_length w)"
    "arcs_between vs start ?second (first_cycle_arc_length w) (second_cycle_arc_length w)"
    unfolding external_shortcut_def Let_def by auto
  have "shortcut_steps w \<noteq> []"
  proof
    assume "shortcut_steps w = []"
    with ends(4) have "shortcut_vertices w = [start]" by (simp add: external_walk_def)
    with ends(3,5) show False by simp
  qed
  then have pos: "0 < shortcut_length w" unfolding ends(6)[symmetric] by simp
  from external_walk_last[OF ends(4) \<open>shortcut_steps w \<noteq> []\<close>] obtain v where
    v: "outside t vs instances start (shortcut_length w - 1) v" "external_step t instances v ?second"
    unfolding ends(5,6) by blast
  have "shortcut_length w - 1 \<le> n" using short by linarith
  from outside_discovered[OF v(1) this ends(1) assms(1) all] obtain j where
    j: "j \<le> shortcut_length w - 1" "map_of dist v = Some j" by blast
  with all pos short have set: "exhausted t vs instances start dist v j (half_edges_at t (atom_index v))" by simp
  from v(2) obtain s key where s: "step_destination t v s = Inr ?second"
    "physical_instance_key t v s = Inr key" "key \<notin> set instances" unfolding external_step_def by blast
  then have dest: "lifted_dest t v s = Some ?second" by (simp add: lifted_dest_iff)
  from half_edge_for_step[OF this] obtain h where h: "h \<in> set (half_edges_at t (atom_index v))" "half_edge_step h = s" by blast
  have "half_edge_target v h = ?second" using half_edge_step_target[OF h(1)] h(2) dest by simp
  with set h s ends(2,3) have "\<not> arcs_longer vs start ?second (Suc j)" unfolding exhausted_def Let_def by metis
  moreover have "Suc j < min (first_cycle_arc_length w) (second_cycle_arc_length w)" using j(1) pos ends(7) by linarith
  ultimately show False using arcs_longer_arcs[OF distinct ends(8)] by blast
qed

lemma shortcut_from_starts_complete:
  assumes adj: "valid_adjacency t adj" and "set starts \<subseteq> set vs" and distinct: "distinct vs"
    and "\<forall>v \<in> set vs. atom_index v \<in> set (vertex_atoms t)"
    and "shortcut_from_starts t adj vs instances n limit starts = Inr None"
  shows "beyond_limit t vs instances n limit
    \<or> (\<forall>w. external_shortcut t vs instances w \<longrightarrow> pair_first (endpoint_pair w) \<in> set starts \<longrightarrow> n < shortcut_length w)"
  using assms(2,5)
proof (induction starts)
  case (Cons start starts)
  let ?run = "shortcut_search t adj vs instances n limit start [start] [(start, 0)] []"
  have start: "start \<in> set vs" using Cons.prems(1) by simp
  have inv: "shortcut_inv t vs instances start [start] [(start, 0)] []"
    using start assms(4) by (auto simp: shortcut_inv_def split: if_splits)
  have "between_scans t vs instances n start [start] [(start, 0)]"
    by (auto simp: between_scans_def level_def depth_in_def split: if_splits)
  from shortcut_search_complete[OF adj start distinct inv this]
  have complete: "search_complete t vs instances n limit start ?run" .
  from Cons.prems(2) obtain r where r: "?run = Inr r"
    by (auto simp: bindE_Inr_iff simp del: shortcut_search.simps)
  with Cons.prems(2) consider (limit) "?run = Inr StateLimit"
    | (rest) q d p where "?run = Inr (ScanNext q d p)" "shortcut_from_starts t adj vs instances n limit starts = Inr None"
    by (cases r) (simp_all del: shortcut_search.simps)
  then show ?case
  proof cases
    case limit
    with complete have "\<exists>S. finite S \<and> limit < card S \<and> (\<forall>v \<in> S. \<exists>j \<le> n. outside t vs instances start j v)"
      by (simp add: search_complete_def)
    with start show ?thesis unfolding beyond_limit_def by blast
  next
    case rest
    from rest(1) complete have ready: "map_of d start = Some 0"
      "\<forall>v k. map_of d v = Some k \<longrightarrow> k < n \<longrightarrow> exhausted t vs instances start d v k (half_edges_at t (atom_index v))"
      by (simp_all add: search_complete_def)
    have "n < shortcut_length w" if "external_shortcut t vs instances w" "pair_first (endpoint_pair w) = start" for w
      by (rule exhausted_no_shortcut[OF ready(1) distinct ready(2) that])
    with Cons.IH[OF _ rest(2)] Cons.prems(1) show ?thesis by auto
  qed
qed simp

lemma find_external_shortcut_witness_complete:
  assumes adj: "valid_adjacency t adj" and cycle: "closed_cycle t v steps vs keys"
    and atoms: "\<forall>u \<in> set vs. atom_index u \<in> set (vertex_atoms t)"
    and "find_external_shortcut_witness t adj vs steps n limit = Inr None"
  shows "beyond_limit t vs keys n limit \<or> (\<forall>w. external_shortcut t vs keys w \<longrightarrow> n < shortcut_length w)"
proof -
  note facts = closed_cycle_vertices[OF cycle]
  have distinct: "distinct vs" using cycle by (simp add: closed_cycle_def)
  have "shortcut_from_starts t adj vs keys n limit vs = Inr None"
    using assms(4) cycle facts by (simp add: find_external_shortcut_witness_def nthE_def closed_cycle_def hd_conv_nth)
  from shortcut_from_starts_complete[OF adj order.refl distinct atoms this]
  show ?thesis unfolding external_shortcut_def Let_def by blast
qed

section \<open>The length of a witness\<close>

lemma report_shortcut_length:
  "report_shortcut vs start parent state s target d forward backward = Inr w \<Longrightarrow> shortcut_length w = d"
  by (auto simp: report_shortcut_def make_shortcut_witness_def bindE_Inr_iff Let_def positive_nat_def split: if_splits)

lemma scan_half_edges_length:
  "scan_half_edges t vs instances limit start state k hs queue dist parent = Inr (WitnessFound w) \<Longrightarrow> shortcut_length w = Suc k"
proof (induction hs arbitrary: queue dist parent)
  case (Cons h hs)
  from Cons.prems consider
      (later) q d p where "scan_half_edges t vs instances limit start state k hs q d p = Inr (WitnessFound w)"
    | (here) s target forward backward where
        "report_shortcut vs start parent state s target (Suc k) forward backward = Inr w"
    by (auto simp: bindE_Inr_iff Let_def split: if_splits)
  then show ?case
  proof cases
    case later
    then show ?thesis by (rule Cons.IH)
  next
    case here
    then show ?thesis by (rule report_shortcut_length)
  qed
qed simp

lemma shortcut_search_length:
  "shortcut_search t adj vs instances n limit start queue dist parent = Inr (WitnessFound w) \<Longrightarrow> shortcut_length w \<le> n"
proof (induction t adj vs instances n limit start queue dist parent rule: shortcut_search.induct)
  case (2 t adj vs instances n limit start state queue dist parent)
  from 2(3) obtain k where k: "lookupE dist state = Inr k" by (auto simp: bindE_Inr_iff)
  show ?case
  proof (cases "n \<le> k")
    case True
    with 2(1)[OF k True] 2(3) k show ?thesis by simp
  next
    case False
    with 2(3) k obtain hs where hs: "lookupE adj (atom_index state) = Inr hs" by (auto simp: bindE_Inr_iff)
    let ?scan = "scan_half_edges t vs instances limit start state k hs queue dist parent"
    from 2(3) k hs False consider "?scan = Inr (WitnessFound w)"
      | q d p where "?scan = Inr (ScanNext q d p)" "shortcut_search t adj vs instances n limit start q d p = Inr (WitnessFound w)"
      by (simp split: sum.splits shortcut_scan.splits)
    then show ?thesis
    proof cases
      case 1
      from scan_half_edges_length[OF 1] False show ?thesis by simp
    next
      case found: 2
      with 2(2)[OF k False hs found(1) refl] show ?thesis by simp
    qed
  qed
qed simp

lemma shortcut_from_starts_length:
  "shortcut_from_starts t adj vs instances n limit starts = Inr (Some w) \<Longrightarrow> shortcut_length w \<le> n"
proof (induction starts)
  case (Cons start starts)
  let ?run = "shortcut_search t adj vs instances n limit start [start] [(start, 0)] []"
  from Cons.prems obtain r where r: "?run = Inr r"
    by (auto simp: bindE_Inr_iff simp del: shortcut_search.simps)
  show ?case
  proof (cases r)
    case (WitnessFound u)
    with Cons.prems r have "u = w" by (simp del: shortcut_search.simps)
    then have "?run = Inr (WitnessFound w)" using WitnessFound r by (simp del: shortcut_search.simps)
    then show ?thesis by (rule shortcut_search_length)
  qed (use Cons r in \<open>simp_all del: shortcut_search.simps\<close>)
qed simp

lemma find_external_shortcut_witness_length:
  "find_external_shortcut_witness t adj vs steps n limit = Inr (Some w) \<Longrightarrow> shortcut_length w \<le> n"
  by (auto simp: find_external_shortcut_witness_def bindE_Inr_iff dest: shortcut_from_starts_length)

end
