(* ===== verification/Ring_Primitives.thy ===== *)
theory Ring_Primitives
  imports Ring_Generate Ring_Example Shortcut_Complete
begin

text \<open>
  The primitive-ring search as a whole: it returns every primitive cycle of the certified sizes,
  nothing else, each once, and raises nothing but the complexity error of strict mode.
\<close>

section \<open>The loop over ring sizes\<close>

lemma stats_intact_Suc: "stats_intact (Suc n) s \<Longrightarrow> stats_intact n s"
  by (auto simp: stats_intact_def split: option.splits)

lemma search_inv_Suc: "search_inv t options n st \<Longrightarrow> search_inv t options (Suc n) st"
  unfolding search_inv_def using stats_intact_Suc by blast

lemma all_sizes_correct:
  assumes ready: "search_ready t adj options index" and "min_ring_size options \<le> a"
    and "a + k \<le> max_ring_size options + 1" and "search_inv t options a st"
  shows "case foldE (generate_candidates t adj index options) [a..<a + k] st of
      Inl e \<Rightarrow> only_complexity options e
    | Inr st' \<Rightarrow> search_inv t options (a + k) st'
        \<and> (\<forall>m. stats_intact m (stats st') \<longrightarrow> stats_intact m (stats st)) \<and> ring_keys st \<subseteq> ring_keys st'
        \<and> (\<forall>n \<in> {a..<a + k}. stats_intact n (stats st') \<longrightarrow> index_complete index (n div 2) \<longrightarrow>
             primitive_keys t {steps. length steps = n} \<subseteq> ring_keys st')"
  using assms(2-4)
proof (induction k arbitrary: a st)
  case (Suc k)
  have "step_ok t options a (if index_complete index (a div 2) then primitive_keys t {steps. length steps = a} else {}) st
      (generate_candidates t adj index options a st)"
    using generate_candidates_correct[OF ready Suc.prems(3,1)] Suc.prems(2) by simp
  then consider e where "generate_candidates t adj index options a st = Inl e" "only_complexity options e"
    | st1 where "generate_candidates t adj index options a st = Inr st1" "search_inv t options a st1"
        "\<And>m. stats_intact m (stats st1) \<Longrightarrow> stats_intact m (stats st)" "ring_keys st \<subseteq> ring_keys st1"
        "stats_intact a (stats st1) \<Longrightarrow> index_complete index (a div 2) \<Longrightarrow>
           primitive_keys t {steps. length steps = a} \<subseteq> ring_keys st1"
  proof (cases "generate_candidates t adj index options a st")
    case (Inr st1)
    assume ok: "step_ok t options a (if index_complete index (a div 2) then primitive_keys t {steps. length steps = a} else {}) st
      (generate_candidates t adj index options a st)"
    show thesis by (rule that(2)[OF Inr]) (use ok Inr in auto)
  qed simp
  then show ?case
  proof cases
    case 1
    then show ?thesis by (simp add: upt_conv_Cons del: upt_Suc)
  next
    case (2 st1)
    let ?rest = "foldE (generate_candidates t adj index options) [Suc a..<Suc a + k] st1"
    have all: "foldE (generate_candidates t adj index options) [a..<a + Suc k] st = ?rest"
      using 2(1) by (simp add: upt_conv_Cons del: upt_Suc)
    have range: "{a..<a + Suc k} = insert a {Suc a..<Suc a + k}" by auto
    have IH: "case ?rest of
      Inl e \<Rightarrow> only_complexity options e
    | Inr st' \<Rightarrow> search_inv t options (Suc a + k) st'
        \<and> (\<forall>m. stats_intact m (stats st') \<longrightarrow> stats_intact m (stats st1)) \<and> ring_keys st1 \<subseteq> ring_keys st'
        \<and> (\<forall>n \<in> {Suc a..<Suc a + k}. stats_intact n (stats st') \<longrightarrow> index_complete index (n div 2) \<longrightarrow>
             primitive_keys t {steps. length steps = n} \<subseteq> ring_keys st')"
      by (rule Suc.IH) (use Suc.prems search_inv_Suc[OF 2(2)] in simp_all)
    show ?thesis
    proof (cases ?rest)
      case (Inl e)
      with IH show ?thesis unfolding all by simp
    next
      case (Inr st')
      with IH have rest: "search_inv t options (Suc a + k) st'"
        "\<And>m. stats_intact m (stats st') \<Longrightarrow> stats_intact m (stats st1)" "ring_keys st1 \<subseteq> ring_keys st'"
        "\<And>n. n \<in> {Suc a..<Suc a + k} \<Longrightarrow> stats_intact n (stats st') \<Longrightarrow> index_complete index (n div 2) \<Longrightarrow>
             primitive_keys t {steps. length steps = n} \<subseteq> ring_keys st'" by simp_all
      have "primitive_keys t {steps. length steps = n} \<subseteq> ring_keys st'"
        if "n \<in> {a..<a + Suc k}" "stats_intact n (stats st')" "index_complete index (n div 2)" for n
        using that rest 2 unfolding range by blast
      moreover have "search_inv t options (a + Suc k) st'" using rest(1) by simp
      moreover have "ring_keys st \<subseteq> ring_keys st'" using rest(3) 2(4) by blast
      ultimately show ?thesis using Inr rest(2) 2(3) unfolding all by simp
    qed
  qed
qed simp

section \<open>The search\<close>

lemma minimum_complete_depth_correct:
  assumes "search_ready t adj options index" and "vertex_atoms t \<noteq> []"
  shows "\<exists>d. minimum_complete_depth index = Inr d \<and> (\<forall>r \<le> d. index_complete index r)"
proof -
  have ne: "sources index \<noteq> []" using assms by (auto simp: search_ready_def)
  define ds where "ds = map (complete_through_depth \<circ> snd) (sources index)"
  have "min_list ds \<le> complete_through_depth s" if "s \<in> snd ` set (sources index)" for s
    using that ne unfolding ds_def by (subst min_list_Min) (auto intro!: Min_le)
  then show ?thesis
    using ne by (auto simp: minimum_complete_depth_def ds_def index_complete_def intro: le_trans)
qed

definition search_correct :: "framework_topology \<Rightarrow> primitive_ring_options \<Rightarrow> search_outcome \<Rightarrow> bool" where
  "search_correct t options out \<longleftrightarrow>
     search_inv t options (max_ring_size options + 1) (final_state out) \<and>
     (\<exists>adj. search_ready t adj options (searched_index out)) \<and>
     (\<forall>steps. primitive_cycle t steps \<longrightarrow> min_ring_size options \<le> length steps \<longrightarrow>
        length steps \<le> complete_through out \<longrightarrow> ring_key_of t steps \<in> ring_keys (final_state out)) \<and>
     complete_through out \<le> max_ring_size options \<and>
     (\<not> search_truncated out \<longrightarrow> complete_through out = max_ring_size options)"

lemma search_primitives_correct:
  assumes adj: "half_edge_adjacency t = Inr adj" and edges: "distinct (map edge_key (topology_edges t))"
    and vertices: "vertex_atoms t \<noteq> []" and sizes: "2 \<le> min_ring_size options" "min_ring_size options \<le> max_ring_size options"
  shows "case search_primitives t options of
      Inl e \<Rightarrow> only_complexity options e | Inr out \<Rightarrow> search_correct t options out"
proof (cases "build_lifted_index t adj options")
  case (Inl e)
  have "valid_adjacency t adj" using adj by (simp add: valid_adjacency_def)
  from build_lifted_index_correct[OF this edges sizes(1)] Inl adj show ?thesis
    by (simp add: search_primitives_def)
next
  case (Inr index)
  have "valid_adjacency t adj" using adj by (simp add: valid_adjacency_def)
  from build_lifted_index_correct[OF this edges sizes(1)] Inr
  have ready: "search_ready t adj options index" and depth: "lifted_maximum_depth index = max_ring_size options div 2"
    by simp_all
  from minimum_complete_depth_correct[OF ready vertices] obtain d where
    d: "minimum_complete_depth index = Inr d" "\<And>r. r \<le> d \<Longrightarrow> index_complete index r" by blast
  let ?lo = "min_ring_size options" and ?hi = "max_ring_size options"
  define through where "through = min ?hi (2 * d + 1)"
  define s where "s = (if d < lifted_maximum_depth index
      then stats_truncate (through + 1)
        (Text ''At least one lifted source index was truncated before the requested depth.'') initial_stats
      else initial_stats)"
  let ?st = "\<lparr>stats = s, paths_known = [], candidate_map = []\<rparr>"
  let ?fold = "foldE (generate_candidates t adj index options) [?lo..<?hi + 1] ?st"
  have "search_inv t options ?lo ?st"
    by (simp add: search_inv_def s_def stats_truncate_def initial_stats_def)
  have range: "?lo + (?hi + 1 - ?lo) = ?hi + 1" using sizes by simp
  from all_sizes_correct[OF ready order.refl _ \<open>search_inv t options ?lo ?st\<close>, of "?hi + 1 - ?lo"]
  have fold: "case ?fold of
      Inl e \<Rightarrow> only_complexity options e
    | Inr st' \<Rightarrow> search_inv t options (?hi + 1) st'
        \<and> (\<forall>m. stats_intact m (stats st') \<longrightarrow> stats_intact m s) \<and> ring_keys ?st \<subseteq> ring_keys st'
        \<and> (\<forall>n \<in> {?lo..<?hi + 1}. stats_intact n (stats st') \<longrightarrow> index_complete index (n div 2) \<longrightarrow>
             primitive_keys t {steps. length steps = n} \<subseteq> ring_keys st')"
    unfolding range search_state.select_convs by simp
  define finish where "finish = (\<lambda>st.
     let limited = (case first_incomplete_ring_size (stats st) of
                      None \<Rightarrow> through | Some n \<Rightarrow> min through (n - 1));
         cut = (\<exists>source \<in> set (map snd (sources index)). truncated source)
           \<or> first_incomplete_ring_size (stats st) \<noteq> None \<or> stopped (stats st)
     in (Inr \<lparr>searched_index = index, final_state = st,
          complete_through = (if cut then limited else ?hi), search_truncated = cut\<rparr> :: search_outcome result))"
  have body: "search_primitives t options = bindE ?fold finish"
    by (simp only: search_primitives_def adj Inr d(1) bindE_simps Let_def s_def through_def finish_def)
  show ?thesis
  proof (cases ?fold)
    case (Inl e)
    with fold show ?thesis unfolding body by simp
  next
    case (Inr st')
    define cut where "cut \<longleftrightarrow> (\<exists>source \<in> set (map snd (sources index)). truncated source)
           \<or> first_incomplete_ring_size (stats st') \<noteq> None \<or> stopped (stats st')"
    define out where "out = \<lparr>searched_index = index, final_state = st',
          complete_through = (if cut then (case first_incomplete_ring_size (stats st') of
                      None \<Rightarrow> through | Some n \<Rightarrow> min through (n - 1)) else ?hi), search_truncated = cut\<rparr>"
    have result: "search_primitives t options = Inr out"
      unfolding body Inr bindE_simps finish_def Let_def out_def cut_def by simp
    from fold Inr have inv: "search_inv t options (?hi + 1) st'"
      and grow: "\<And>m. stats_intact m (stats st') \<Longrightarrow> stats_intact m s"
      and cover: "\<And>n. n \<in> {?lo..<?hi + 1} \<Longrightarrow> stats_intact n (stats st') \<Longrightarrow> index_complete index (n div 2) \<Longrightarrow>
             primitive_keys t {steps. length steps = n} \<subseteq> ring_keys st'" by simp_all
    have good: "stats_intact n (stats st') \<and> index_complete index (n div 2)"
      if "n \<le> complete_through out" "?lo \<le> n" for n
    proof (cases cut)
      case True
      then have n: "n \<le> through" "case first_incomplete_ring_size (stats st') of None \<Rightarrow> True | Some m \<Rightarrow> n \<le> m - 1"
        using that by (auto simp: out_def split: option.splits)
      then have "stats_intact n (stats st')"
        using that(2) sizes(1) by (auto simp: stats_intact_def split: option.splits)
      moreover have "n \<le> 2 * d + 1" using n(1) by (simp add: through_def)
      then have "n div 2 \<le> d" by presburger
      ultimately show ?thesis using d(2) by blast
    next
      case False
      then have intact: "stats_intact m (stats st')" for m by (simp add: cut_def stats_intact_def)
      then have "stats_intact (through + 1) s" using grow by blast
      then have "\<not> d < lifted_maximum_depth index"
        by (auto simp: s_def stats_intact_truncate)
      moreover have "n div 2 \<le> ?hi div 2" using that(1) False by (simp add: out_def div_le_mono)
      ultimately show ?thesis using intact d(2) depth by simp
    qed
    have "ring_key_of t steps \<in> ring_keys st'"
      if "primitive_cycle t steps" "?lo \<le> length steps" "length steps \<le> complete_through out" for steps
    proof -
      have "length steps \<le> ?hi" using that(3) by (auto simp: out_def through_def split: if_splits option.splits)
      with cover[of "length steps"] good[OF that(3,2)] that(1,2) show ?thesis
        by (auto simp: primitive_keys_def)
    qed
    moreover have "\<exists>adj. search_ready t adj options (searched_index out)" using ready by (auto simp: out_def)
    moreover have "complete_through out \<le> ?hi" by (auto simp: out_def through_def split: option.splits)
    ultimately show ?thesis using result inv by (simp add: search_correct_def) (simp add: out_def)
  qed
qed

section \<open>Properties\<close>

lemma incomplete_query:
  assumes "\<exists>u \<in> U. indexed_query_complete_through index u r = Inr False"
  shows "\<not> index_complete index r"
proof -
  from assms obtain u where "indexed_query_complete_through index u r = Inr False" by blast
  then obtain source where "map_of (sources index) (atom_index u) = Some source" "\<not> r \<le> complete_through_depth source"
    by (auto simp: indexed_query_complete_through_def bindE_Inr_iff lookupE_def split: option.splits)
  then show ?thesis unfolding index_complete_def by (force dest: map_of_SomeD)
qed

lemma hexagon_certified:
  "\<forall>p \<in> set (certified_shortest_pairs hexagon_candidate).
     apart ring_topology (length (candidate_steps hexagon_candidate) div 2) (pair_first p) (pair_second p)"
proof -
  let ?index = "projr (build_lifted_index ring_topology (projr (half_edge_adjacency ring_topology)) ring_options)"
  have "valid_adjacency ring_topology (projr (half_edge_adjacency ring_topology))"
    using ring_topology_example(3) by (simp add: valid_adjacency_def)
  from build_lifted_index_correct[OF this ring_topology_example(4) hexagon_example(4)] hexagon_example(5)
  have ready: "search_ready ring_topology (projr (half_edge_adjacency ring_topology)) ring_options ?index"
    by (metis sum.simps(6))
  have "atom_index (source_start 0) \<in> set (vertex_atoms ring_topology)"
    by (simp add: ring_topology_example(2) source_start_def)
  from indexed_queries_correct[OF ready this, of 3 "source_start 8"] hexagon_example(2,3)
  have "apart ring_topology 3 (source_start 0) (source_start 8)" by auto
  then show ?thesis by (simp add: hexagon_candidate_def hexagon_def numeral_3_eq_3)
qed

lemma canonicalize_primitive:
  assumes "primitive_cycle t steps" and "2 \<le> length steps"
  shows "canonicalize_steps t steps = Inr (ring_key_of t steps, snd (canonical_of t steps))"
  using canonicalize_steps_eq[OF is_cycle_in_range[OF primitive_is_cycle[OF assms(1)]] assms(2)]
  by (simp add: ring_key_of_def)

text \<open>C25: The default primitive-ring search raises nothing but the complexity error of strict mode;
  otherwise the rings it returns are exactly the primitive cycles (closed, lifted-simple, without
  shortcuts) in canonical form, each entry with the key of its steps and its vertex walk, and every
  primitive cycle of a size up to the reported complete size is among them; without truncation that
  is the largest size asked for.\<close>

theorem primitive_search_exact:
  assumes "half_edge_adjacency t = Inr adj" and "distinct (map edge_key (topology_edges t))"
    and "vertex_atoms t \<noteq> []" and "2 \<le> min_ring_size options" and "min_ring_size options \<le> max_ring_size options"
  shows "case search_primitives t options of
      Inl e \<Rightarrow> strict options \<and> (\<exists>m. e = PrimitiveRingComplexityError m)
    | Inr out \<Rightarrow>
        (\<forall>(key, acc) \<in> set (candidate_map (final_state out)).
           canonicalize_steps t (acc_steps acc) = Inr (key, acc_steps acc) \<and> primitive_cycle t (acc_steps acc)
           \<and> validate_candidate_cycle t (acc_steps acc) options = Inr (acc_vertex_walk acc))
        \<and> distinct (map fst (candidate_map (final_state out)))
        \<and> length (candidate_map (final_state out)) \<le> max_total_rings options
        \<and> (\<forall>steps. primitive_cycle t steps \<and> min_ring_size options \<le> length steps
             \<and> length steps \<le> complete_through out \<longrightarrow>
             (\<exists>key canon. canonicalize_steps t steps = Inr (key, canon)
                \<and> key \<in> fst ` set (candidate_map (final_state out))))
        \<and> (\<not> search_truncated out \<longrightarrow> complete_through out = max_ring_size options)"
proof (cases "search_primitives t options")
  case (Inl e)
  with search_primitives_correct[OF assms] show ?thesis by (simp add: only_complexity_def)
next
  case (Inr out)
  with search_primitives_correct[OF assms] have correct: "search_correct t options out" by simp
  then have inv: "search_inv t options (max_ring_size options + 1) (final_state out)" by (simp add: search_correct_def)
  have entry: "canonicalize_steps t (acc_steps acc) = Inr (key, acc_steps acc) \<and> primitive_cycle t (acc_steps acc)
      \<and> validate_candidate_cycle t (acc_steps acc) options = Inr (acc_vertex_walk acc)"
    if "(key, acc) \<in> set (candidate_map (final_state out))" for key acc
  proof -
    have "ring_entry t options key acc" using inv that by (simp add: search_inv_def)
    then have e: "key = ring_key_of t (acc_steps acc)" "acc_steps acc = snd (canonical_of t (acc_steps acc))"
      "primitive_cycle t (acc_steps acc)"
      "validate_candidate_cycle t (acc_steps acc) options = Inr (acc_vertex_walk acc)"
      by (simp_all only: ring_entry_def)
    then have "2 \<le> length (acc_steps acc)" using assms(4) unfolding validate_candidate_cycle_Inr_iff by linarith
    from canonicalize_primitive[OF e(3) this] e show ?thesis by metis
  qed
  have "\<exists>key canon. canonicalize_steps t steps = Inr (key, canon) \<and> key \<in> fst ` set (candidate_map (final_state out))"
    if "primitive_cycle t steps" "min_ring_size options \<le> length steps" "length steps \<le> complete_through out" for steps
    using correct that canonicalize_primitive[of t steps] assms(4) by (auto simp: search_correct_def ring_keys_def)
  with entry inv correct Inr show ?thesis by (auto simp: search_inv_def search_correct_def)
qed

theorem primitive_search_exact_witness:
  "primitive_cycle ring_topology [PrimitiveRingStep 4 Backward, PrimitiveRingStep 5 Forward,
     PrimitiveRingStep 7 Forward, PrimitiveRingStep 6 Backward]"
  using primitive_search_exact[OF ring_topology_example(3,4), of ring_options] ring_outcome_example ring_outcome_square
  by (auto simp: ring_topology_example(2) ring_options_def)

text \<open>C30: The half-cycle test of a valid candidate, whose certified pairs are no closer than half its size (as
  the shortest paths that generate a candidate guarantee), answers whether the candidate is primitive: it
  checks every antipodal pair that is not certified, and counts each rejection.  It leaves the question open,
  or raises in strict mode, only if the index is incomplete below half the size, and then notes the truncation
  at the candidate's size.\<close>

theorem half_cycle_test_decides:
  assumes "half_edge_adjacency t = Inr adj" and "distinct (map edge_key (topology_edges t))"
    and "2 \<le> min_ring_size options" and "build_lifted_index t adj options = Inr index"
    and "validate_candidate_cycle t (candidate_steps c) options = Inr (candidate_vertex_walk c)"
    and "\<forall>p \<in> set (certified_shortest_pairs c).
      apart t (length (candidate_steps c) div 2) (pair_first p) (pair_second p)"
  shows "case primitive_candidate_passes t adj index c options s of
      Inl e \<Rightarrow> strict options \<and> (\<exists>m. e = PrimitiveRingComplexityError m)
        \<and> \<not> index_complete index (length (candidate_steps c) div 2 - 1)
    | Inr (None, s') \<Rightarrow> \<not> strict options \<and> (\<exists>m. s' = stats_truncate (length (candidate_steps c)) m s)
        \<and> \<not> index_complete index (length (candidate_steps c) div 2 - 1)
    | Inr (Some passed, s') \<Rightarrow> (passed \<longleftrightarrow> primitive_cycle t (candidate_steps c))
        \<and> (if passed then s' = s else rejected_nonprimitive s' = Suc (rejected_nonprimitive s))"
proof -
  have "valid_adjacency t adj" using assms(1) by (simp add: valid_adjacency_def)
  from build_lifted_index_correct[OF this assms(2,3)] assms(4) have ready: "search_ready t adj options index" by simp
  let ?run = "primitive_candidate_passes t adj index c options s"
  have undecided: "\<not> index_complete index (length (candidate_steps c) div 2 - 1)"
    if "\<nexists>passed s'. ?run = Inr (Some passed, s')"
    using primitive_candidate_passes_undecided[OF ready assms(5) that] by (rule incomplete_query)
  from primitive_candidate_passes_correct[OF ready assms(5,6), of s] show ?thesis
  proof (cases rule: passes_ok_cases)
    case (error e)
    with undecided show ?thesis by (auto simp: only_complexity_def)
  next
    case (unknown m)
    with undecided primitive_candidate_passes_stats[OF unknown] show ?thesis by auto
  next
    case (no s')
    with primitive_candidate_passes_stats[OF no(1)] show ?thesis by simp
  next
    case (yes s')
    with primitive_candidate_passes_stats[OF yes(1)] show ?thesis by simp
  qed
qed

theorem half_cycle_test_decides_witness: "\<not> primitive_cycle ring_topology hexagon"
  using half_cycle_test_decides[OF ring_topology_example(3,4) hexagon_example(4,5,1) hexagon_certified, of initial_stats]
    hexagon_example(6)
  by (auto simp: hexagon_candidate_def split: sum.splits prod.splits option.splits)

text \<open>C31: The search for an external shortcut of a closed cycle never fails.  What it returns is a walk between
  two cycle vertices that uses no edge instance of the cycle and meets the cycle only at its ends, of at most
  the admitted length and shorter than each of the two arcs into which its ends cut the cycle, which are the
  lengths the witness records.  It returns nothing only if there is no such walk, or if the limit on discovered
  states is too small for what lies outside the cycle around one of its vertices.\<close>

theorem shortcut_witness_sound:
  assumes "half_edge_adjacency t = Inr adj" and "validate_candidate_cycle t steps options = Inr vs"
    and "instances_along t (hd vs) steps = Inr keys"
  shows "\<exists>r. find_external_shortcut_witness t adj vs steps max_length limit = Inr r
    \<and> (case r of
         None \<Rightarrow> beyond_limit t vs keys max_length limit
           \<or> (\<forall>w. external_shortcut t vs keys w \<longrightarrow> max_length < shortcut_length w)
       | Some w \<Rightarrow> external_shortcut t vs keys w \<and> shortcut_length w \<le> max_length)"
proof -
  have adj: "valid_adjacency t adj" using assms(1) by (simp add: valid_adjacency_def)
  from assms(2) obtain v ks where cycle: "closed_cycle t v steps vs ks"
    unfolding validate_candidate_cycle_Inr_iff by blast
  note facts = closed_cycle_vertices[OF cycle]
  have keys: "ks = keys" using cycle assms(3) facts(2) by (simp add: closed_cycle_def)
  have atoms: "\<forall>u \<in> set vs. atom_index u \<in> set (vertex_atoms t)" using closed_cycle_atoms[OF adj cycle] by blast
  from find_external_shortcut_witness_correct[OF adj cycle closed_cycle_atoms[OF adj cycle facts(4)]]
  obtain r where r: "find_external_shortcut_witness t adj vs steps max_length limit = Inr r"
    "case r of None \<Rightarrow> True | Some w \<Rightarrow> external_shortcut t vs keys w" unfolding keys by blast
  with find_external_shortcut_witness_complete[OF adj cycle atoms, of max_length limit]
    find_external_shortcut_witness_length[of t adj vs steps max_length limit] keys
  show ?thesis by (auto split: option.splits)
qed

theorem shortcut_witness_sound_witness:
  "external_shortcut ring_topology (candidate_vertex_walk hexagon_candidate)
     (map (\<lambda>e. (e, zero_shift)) [0, 3, 5, 7, 6, 2])
     \<lparr>endpoint_pair = LiftedVertexPair (source_start 4) (source_start 6), first_cycle_arc_length = 3,
      second_cycle_arc_length = 3, shortcut_steps = [PrimitiveRingStep 4 Forward],
      shortcut_vertices = [source_start 4, source_start 6], shortcut_length = 1\<rparr>"
  using shortcut_witness_sound[OF ring_topology_example(3) hexagon_example(1) hexagon_instances(1), of 2 100]
    hexagon_instances(2)
  by auto

end
