(* ===== verification/Ring_Enumeration.thy ===== *)
theory Ring_Enumeration
  imports Ring_Primitives Ring_Catalog
begin

text \<open>
  The catalogs that \<open>enumerate_primitive_rings\<close> returns: the default search always passes the
  consistency checks of the catalog, which lists exactly the rings of the search.
\<close>

section \<open>The default search\<close>

lemma source_searches_made:
  assumes "search_ready t adj options index"
  shows "\<exists>searches. mapE (\<lambda>a. bindE (lookupE (sources index) a) source_search_of)
    (sort (map fst (sources index))) = Inr searches"
proof -
  have "\<exists>s. bindE (lookupE (sources index) a) source_search_of = Inr s" if "a \<in> set (vertex_atoms t)" for a
  proof -
    from assms that obtain source where "map_of (sources index) a = Some source"
      and "index_correct t (lifted_maximum_depth index) (max_lifted_states_per_source options) source"
      unfolding search_ready_def by blast
    then show ?thesis
      by (auto simp: lookupE_def source_search_of_def make_source_search_def index_correct_def split: if_splits)
  qed
  then have "\<exists>s. bindE (lookupE (sources index) a) source_search_of = Inr s"
    if "a \<in> set (sort (map fst (sources index)))" for a
    using assms that by (simp add: search_ready_def)
  then obtain f where "bindE (lookupE (sources index) a) source_search_of = Inr (f a)"
    if "a \<in> set (sort (map fst (sources index)))" for a
    by metis
  then show ?thesis by (intro exI) (rule mapE_total)
qed

definition catalog_of_cycles ::
  "framework_topology \<Rightarrow> primitive_ring_options \<Rightarrow> (ring_key \<times> candidate_accumulator) list \<Rightarrow> ring_catalog \<Rightarrow> bool" where
  "catalog_of_cycles t options cands c \<longleftrightarrow>
     catalog_valid c \<and> catalog_options c = options \<and> catalog_vertices c = vertex_atoms t \<and>
     map searched_key (edge_searches c) = map edge_key (topology_edges t) \<and>
     map ring_key (rings c) = sort (map fst cands) \<and>
     (\<forall>r \<in> set (rings c). \<exists>acc. map_of cands (ring_key r) = Some acc \<and> ring_of_entry acc r)"

lemma catalog_from_candidates_correct:
  assumes entries: "\<And>key acc. map_of cands key = Some acc \<Longrightarrow> cycle_entry t options key acc"
    and sizes: "2 \<le> min_ring_size options" and keys: "distinct (map fst cands)"
    and adj: "valid_adjacency t adj" and vertices: "sorted_wrt (<) (vertex_atoms t)" "vertex_atoms t \<noteq> []"
    and "search_method options = SHORTEST_PATH_PAIRS" and through: "n \<le> max_ring_size options"
      "\<not> diagnostics_truncated d \<longrightarrow> n = max_ring_size options"
  shows "\<exists>c. catalog_from_candidates t options cands d n = Inr c \<and> catalog_of_cycles t options cands c
    \<and> complete_for_ring_sizes_up_to c = n \<and> diagnostics c = d"
proof -
  obtain rs bv be where rs: "rings_of_candidates cands = Inr rs" "map ring_id rs = [0..<length rs]"
      "map ring_key rs = sort (map fst cands)" "sorted_wrt (<) (map ring_key rs)"
      "\<forall>r \<in> set rs. \<exists>acc. map_of cands (ring_key r) = Some acc \<and> ring_of_entry acc r"
      "\<forall>r \<in> set rs. 2 \<le> ring_size r \<and> ring_coherent (map edge_key (topology_edges t)) (vertex_atoms t) r"
    and counts: "count_sizes rs = Inr (map (\<lambda>n. PrimitiveRingSizeCount n (count_list (map ring_size rs) n))
        (sorted_set (map ring_size rs)))"
    and tables: "incidence_of_rings t rs = Inr (bv, be)"
      "tables_exact (vertex_atoms t) (length (topology_edges t)) rs (bv, be)"
    using assembled_rings[OF entries sizes keys adj vertices(1)] by blast
  define c where "c = \<lparr>catalog_options = options, catalog_method = SHORTEST_PATH_PAIRS, ring_family = PRIMITIVE_NO_SHORTCUT,
        rings = rs, edge_searches = placeholder_edge_searches t n,
        ring_size_counts = map (\<lambda>n. PrimitiveRingSizeCount n (count_list (map ring_size rs) n)) (sorted_set (map ring_size rs)),
        catalog_vertices = vertex_atoms t, vertex_to_ring_ids = map sorted_set bv,
        edge_to_ring_ids = map sorted_set be, diagnostics = d,
        search_completed_without_resource_truncation = (\<not> diagnostics_truncated d),
        complete_for_ring_sizes_up_to = n\<rparr>"
  have tables': "map set (map sorted_set bv) = map (\<lambda>a. ids_where rs (visits_atom a)) (vertex_atoms t)"
    "map set (map sorted_set be) = map (\<lambda>e. ids_where rs (uses_edge e)) [0..<length (topology_edges t)]"
    using tables(2) by (simp_all add: tables_exact_iff comp_def)
  have valid: "catalog_valid c"
    unfolding catalog_valid_def c_def ring_catalog.select_convs placeholder_fields
    using rs assms(7) through vertices tables' by (simp add: comp_def)
  have result: "catalog_from_candidates t options cands d n = make_catalog c"
    by (simp add: catalog_from_candidates_def rs(1) tables(1) counts c_def)
  let ?c = "c\<lparr>vertex_to_ring_ids := map sorted_set (vertex_to_ring_ids c),
            edge_to_ring_ids := map sorted_set (edge_to_ring_ids c)\<rparr>"
  have made: "make_catalog c = Inr ?c" using valid by (simp add: make_catalog_Inr_iff)
  have "map set (map sorted_set xss) = map set xss" for xss :: "nat list list" by simp
  then have "catalog_valid ?c" using valid unfolding catalog_valid_def by (simp add: comp_def)
  moreover have "catalog_options ?c = options" "catalog_vertices ?c = vertex_atoms t" "rings ?c = rs"
    "edge_searches ?c = placeholder_edge_searches t n" "complete_for_ring_sizes_up_to ?c = n" "diagnostics ?c = d"
    by (simp_all add: c_def)
  ultimately have "catalog_of_cycles t options cands ?c \<and> complete_for_ring_sizes_up_to ?c = n \<and> diagnostics ?c = d"
    using rs(3,5) unfolding catalog_of_cycles_def by (simp only: placeholder_fields simp_thms)
  with made result show ?thesis by (intro exI[of _ ?c]) simp
qed

lemma default_catalog_correct:
  assumes "half_edge_adjacency t = Inr adj" and "distinct (map edge_key (topology_edges t))"
    and "sorted_wrt (<) (vertex_atoms t)" "vertex_atoms t \<noteq> []" and "2 \<le> min_ring_size options"
    and "min_ring_size options \<le> max_ring_size options" and "search_method options = SHORTEST_PATH_PAIRS"
  shows "case search_primitives t options of
      Inl e \<Rightarrow> enumerate_shortest_path_pair_primitives t options = Inl e
    | Inr out \<Rightarrow> \<exists>c. enumerate_shortest_path_pair_primitives t options = Inr c
        \<and> catalog_of_cycles t options (candidate_map (final_state out)) c
        \<and> complete_for_ring_sizes_up_to c = complete_through out
        \<and> search_completed_without_resource_truncation c = (\<not> search_truncated out)"
proof (cases "search_primitives t options")
  case (Inl e)
  then show ?thesis by (simp add: enumerate_shortest_path_pair_primitives_def)
next
  case (Inr out)
  have adj: "valid_adjacency t adj" using assms(1) by (simp add: valid_adjacency_def)
  from search_primitives_correct[OF assms(1,2,4,5,6)] Inr have correct: "search_correct t options out" by simp
  let ?cands = "candidate_map (final_state out)"
  from correct have inv: "search_inv t options (max_ring_size options + 1) (final_state out)"
    and through: "complete_through out \<le> max_ring_size options"
      "\<not> search_truncated out \<longrightarrow> complete_through out = max_ring_size options"
    and ready: "\<exists>adj. search_ready t adj options (searched_index out)"
    by (simp_all add: search_correct_def)
  from ready source_searches_made obtain searches where
    searches: "mapE (\<lambda>a. bindE (lookupE (sources (searched_index out)) a) source_search_of)
      (sort (map fst (sources (searched_index out)))) = Inr searches" by blast
  have entries: "cycle_entry t options key acc" if "map_of ?cands key = Some acc" for key acc
    using inv that ring_entry_cycle by (simp only: search_inv_def)
  have keys: "distinct (map fst ?cands)" using inv by (simp only: search_inv_def)
  define d where "d = \<lparr>index_depth = lifted_maximum_depth (searched_index out), source_searches = searches,
        diagnostic_counters = stats (final_state out), canonical_candidates = length ?cands,
        removed_edge_searches = [], shortcut_witness_count = length (shortcut_witnesses (stats (final_state out))),
        diagnostics_truncated = search_truncated out\<rparr>"
  have result: "enumerate_shortest_path_pair_primitives t options
      = catalog_from_candidates t options ?cands d (complete_through out)"
    by (simp add: enumerate_shortest_path_pair_primitives_def Let_def Inr searches d_def)
  have "\<not> diagnostics_truncated d \<longrightarrow> complete_through out = max_ring_size options"
    using through(2) by (simp add: d_def)
  from catalog_from_candidates_correct[OF entries assms(5) keys adj assms(3,4,7) through(1) this]
  obtain c where c: "catalog_from_candidates t options ?cands d (complete_through out) = Inr c"
    "catalog_of_cycles t options ?cands c" "complete_for_ring_sizes_up_to c = complete_through out"
    "diagnostics c = d" by blast
  have "search_completed_without_resource_truncation c = (\<not> search_truncated out)"
    using c(2,4) by (simp add: catalog_of_cycles_def catalog_valid_def d_def)
  with c result Inr show ?thesis by auto
qed

section \<open>Properties\<close>

lemma catalog_incidence:
  assumes "catalog_valid c"
  shows "p < length (catalog_vertices c) \<Longrightarrow> i \<in> set (vertex_to_ring_ids c ! p) \<longleftrightarrow>
      i < length (rings c) \<and> catalog_vertices c ! p \<in> set (vertex_ids (rings c ! i))"
    and "e < length (edge_searches c) \<Longrightarrow> i \<in> set (edge_to_ring_ids c ! e) \<longleftrightarrow>
      i < length (rings c) \<and> e \<in> step_edge ` set (ring_steps (rings c ! i))"
proof -
  have dense: "map ring_id (rings c) = [0..<length (rings c)]" using assms by (simp add: catalog_valid_def)
  have ids: "ring_id (rings c ! i) = i" if "i < length (rings c)" for i
    using arg_cong[OF dense, of "\<lambda>xs. xs ! i"] that by simp
  have member: "i \<in> ids_where (rings c) P \<longleftrightarrow> i < length (rings c) \<and> P (rings c ! i)" for i P
  proof
    assume "i \<in> ids_where (rings c) P"
    then obtain j where "j < length (rings c)" "P (rings c ! j)" "i = ring_id (rings c ! j)"
      by (auto simp: ids_where_def in_set_conv_nth)
    then show "i < length (rings c) \<and> P (rings c ! i)" by (simp add: ids)
  next
    assume "i < length (rings c) \<and> P (rings c ! i)"
    then show "i \<in> ids_where (rings c) P"
      unfolding ids_where_def by (intro image_eqI[of _ _ "rings c ! i"]) (simp_all add: ids)
  qed
  have v: "map set (vertex_to_ring_ids c) = map (\<lambda>a. ids_where (rings c) (visits_atom a)) (catalog_vertices c)"
    and e: "map set (edge_to_ring_ids c) = map (\<lambda>e. ids_where (rings c) (uses_edge e)) [0..<length (edge_searches c)]"
    using assms by (simp_all add: catalog_valid_def)
  show "p < length (catalog_vertices c) \<Longrightarrow> i \<in> set (vertex_to_ring_ids c ! p) \<longleftrightarrow>
      i < length (rings c) \<and> catalog_vertices c ! p \<in> set (vertex_ids (rings c ! i))"
    using arg_cong[OF v, of "\<lambda>xs. xs ! p"] arg_cong[OF v, of length] by (simp add: member visits_atom_def)
  show "e < length (edge_searches c) \<Longrightarrow> i \<in> set (edge_to_ring_ids c ! e) \<longleftrightarrow>
      i < length (rings c) \<and> e \<in> step_edge ` set (ring_steps (rings c ! i))"
    using arg_cong[OF e, of "\<lambda>xs. xs ! e"] arg_cong[OF e, of length] by (simp add: member uses_edge_def)
qed

text \<open>C1: The default enumeration on a valid framework raises nothing but the complexity error of strict mode:
  the catalog it assembles always passes its own consistency checks.  Its rings are primitive cycles in
  canonical form with their vertex walks, their keys strictly increase, every primitive cycle up to
  the reported complete size is listed, and the incidence tables name exactly the rings through each
  vertex and each edge.\<close>

theorem default_catalog_exact:
  assumes "half_edge_adjacency t = Inr adj" and "distinct (map edge_key (topology_edges t))"
    and "sorted_wrt (<) (vertex_atoms t)" and "vertex_atoms t \<noteq> []" and "2 \<le> min_ring_size options"
    and "min_ring_size options \<le> max_ring_size options" and "search_method options = SHORTEST_PATH_PAIRS"
  shows "case enumerate_shortest_path_pair_primitives t options of
      Inl e \<Rightarrow> strict options \<and> (\<exists>m. e = PrimitiveRingComplexityError m)
    | Inr c \<Rightarrow>
        (\<forall>r \<in> set (rings c). primitive_cycle t (ring_steps r)
           \<and> canonicalize_steps t (ring_steps r) = Inr (ring_key r, ring_steps r)
           \<and> validate_candidate_cycle t (ring_steps r) options = Inr (vertex_walk r))
        \<and> sorted_wrt (<) (map ring_key (rings c)) \<and> map ring_id (rings c) = [0..<length (rings c)]
        \<and> (\<forall>steps. primitive_cycle t steps \<and> min_ring_size options \<le> length steps
             \<and> length steps \<le> complete_for_ring_sizes_up_to c \<longrightarrow>
             (\<exists>r \<in> set (rings c). \<exists>canon. canonicalize_steps t steps = Inr (ring_key r, canon)))
        \<and> (search_completed_without_resource_truncation c \<longrightarrow>
             complete_for_ring_sizes_up_to c = max_ring_size options)
        \<and> (\<forall>p < length (vertex_atoms t). \<forall>i. i \<in> set (vertex_to_ring_ids c ! p) \<longleftrightarrow>
             i < length (rings c) \<and> vertex_atoms t ! p \<in> set (vertex_ids (rings c ! i)))
        \<and> (\<forall>e < length (topology_edges t). \<forall>i. i \<in> set (edge_to_ring_ids c ! e) \<longleftrightarrow>
             i < length (rings c) \<and> e \<in> step_edge ` set (ring_steps (rings c ! i)))"
proof (cases "search_primitives t options")
  case (Inl e)
  with default_catalog_correct[OF assms] search_primitives_correct[OF assms(1,2,4,5,6)] show ?thesis
    by (simp add: only_complexity_def)
next
  case (Inr out)
  with default_catalog_correct[OF assms] obtain c where c: "enumerate_shortest_path_pair_primitives t options = Inr c"
    "catalog_of_cycles t options (candidate_map (final_state out)) c"
    "complete_for_ring_sizes_up_to c = complete_through out" by auto
  from Inr search_primitives_correct[OF assms(1,2,4,5,6)] have correct: "search_correct t options out" by simp
  then have inv: "search_inv t options (max_ring_size options + 1) (final_state out)" by (simp add: search_correct_def)
  have valid: "catalog_valid c" and fields: "catalog_options c = options" "catalog_vertices c = vertex_atoms t"
    "length (edge_searches c) = length (topology_edges t)"
    using c(2) unfolding catalog_of_cycles_def by (blast, blast, blast, metis length_map)
  have keys: "set (map ring_key (rings c)) = ring_keys (final_state out)"
    using c(2) unfolding catalog_of_cycles_def ring_keys_def by (metis set_map set_sort)
  have ring: "primitive_cycle t (ring_steps r) \<and> canonicalize_steps t (ring_steps r) = Inr (ring_key r, ring_steps r)
      \<and> validate_candidate_cycle t (ring_steps r) options = Inr (vertex_walk r)" if r: "r \<in> set (rings c)" for r
  proof -
    obtain acc where acc: "map_of (candidate_map (final_state out)) (ring_key r) = Some acc" "ring_of_entry acc r"
      using c(2) r unfolding catalog_of_cycles_def by blast
    then have entry: "ring_entry t options (ring_key r) acc" using inv by (simp only: search_inv_def)
    then have e: "ring_key r = ring_key_of t (acc_steps acc)" "acc_steps acc = snd (canonical_of t (acc_steps acc))"
      "primitive_cycle t (acc_steps acc)" by (simp_all only: ring_entry_def)
    have "2 \<le> length (acc_steps acc)" by (rule entry_sizes(1)[OF ring_entry_cycle[OF entry] assms(5)])
    from canonicalize_primitive[OF e(3) this] e entry acc(2) show ?thesis
      unfolding ring_of_entry_def ring_entry_def by metis
  qed
  have complete: "\<exists>r \<in> set (rings c). \<exists>canon. canonicalize_steps t steps = Inr (ring_key r, canon)"
    if s: "primitive_cycle t steps" "min_ring_size options \<le> length steps"
      "length steps \<le> complete_for_ring_sizes_up_to c" for steps
  proof -
    have "ring_key_of t steps \<in> set (map ring_key (rings c))"
      unfolding keys using correct s c(3) by (simp add: search_correct_def)
    then obtain r where "r \<in> set (rings c)" "ring_key r = ring_key_of t steps" by auto
    moreover have "canonicalize_steps t steps = Inr (ring_key_of t steps, snd (canonical_of t steps))"
      by (rule canonicalize_primitive[OF s(1)]) (use s(2) assms(5) in simp)
    ultimately show ?thesis by metis
  qed
  from valid have "sorted_wrt (<) (map ring_key (rings c))" "map ring_id (rings c) = [0..<length (rings c)]"
    "search_completed_without_resource_truncation c \<longrightarrow> complete_for_ring_sizes_up_to c = max_ring_size options"
    by (simp_all add: catalog_valid_def fields(1))
  with ring complete catalog_incidence[OF valid] c(1) fields show ?thesis by simp
qed

lemma ring_topology_vertices: "sorted_wrt (<) (vertex_atoms ring_topology)" "vertex_atoms ring_topology \<noteq> []"
  by (simp_all add: ring_topology_example(2))

theorem default_catalog_exact_witness:
  "\<exists>c. enumerate_shortest_path_pair_primitives ring_topology ring_options = Inr c
     \<and> (\<forall>r \<in> set (rings c). primitive_cycle ring_topology (ring_steps r))
     \<and> (\<forall>i. i \<in> set (edge_to_ring_ids c ! 4) \<longleftrightarrow>
          i < length (rings c) \<and> 4 \<in> step_edge ` set (ring_steps (rings c ! i)))"
proof -
  have ready: "2 \<le> min_ring_size ring_options" "min_ring_size ring_options \<le> max_ring_size ring_options"
    "search_method ring_options = SHORTEST_PATH_PAIRS" by (simp_all add: ring_options_def)
  note hyps = ring_topology_example(3,4) ring_topology_vertices ready
  obtain c where "enumerate_shortest_path_pair_primitives ring_topology ring_options = Inr c"
    using default_catalog_correct[OF hyps] ring_outcome_example by auto
  with default_catalog_exact[OF hyps] ring_topology_example(1) show ?thesis by simp
qed

end
