(* ===== verification/Removed_Edge_Rings.thy ===== *)
theory Removed_Edge_Rings
  imports Edge_Shortest Ring_Enumeration
begin

text \<open>
  The removed-edge enumeration of \<open>mdstats/analysis/primitive_ring.py\<close>
  (\<open>_enumerate_removed_edge_shortest\<close>): per edge, one search, the count and the enumeration of the
  shortest paths around it, a transaction of candidates, and the diagnostics record; then the catalog.
  \<open>enumerate_primitive_rings\<close> chooses between this method and the default search.

  \<open>_SearchAccumulator\<close> and the record made of it share their fields, so the accumulator is the
  record with \<open>unique_ring_count\<close> still 0.
\<close>

section \<open>Candidates of one edge\<close>

definition status_value :: "ring_search_status \<Rightarrow> string" where
  "status_value status = (case status of
     COMPLETE_FOUND \<Rightarrow> ''complete_found''
   | COMPLETE_NONE \<Rightarrow> ''complete_none''
   | STATE_LIMIT_EXCEEDED \<Rightarrow> ''state_limit_exceeded''
   | PATH_LIMIT_EXCEEDED \<Rightarrow> ''path_limit_exceeded''
   | CANDIDATE_LIMIT_EXCEEDED \<Rightarrow> ''candidate_limit_exceeded''
   | NOT_SEARCHED_GLOBAL_LIMIT \<Rightarrow> ''not_searched_global_limit''
   | INVALID_EDGE \<Rightarrow> ''invalid_edge''
   | NOT_APPLICABLE \<Rightarrow> ''not_applicable'')"

definition candidate_from_path ::
  "framework_topology \<Rightarrow> nat \<Rightarrow> ring_step list \<Rightarrow> primitive_ring_options \<Rightarrow> candidate_accumulator option result" where
  "candidate_from_path t removed path options =
     (let steps = path @ [PrimitiveRingStep removed Backward] in
      if \<not> (min_ring_size options \<le> length steps \<and> length steps \<le> max_ring_size options) then Inr None
      else
        bindE (validate_candidate_cycle t steps options) (\<lambda>_.
        bindE (canonicalize_steps t steps) (\<lambda>(key, canonical_steps).
        bindE (rebuild_vertex_walk t canonical_steps) (\<lambda>vertices.
        bindE (validate_candidate_cycle t canonical_steps options) (\<lambda>_.
        Inr (Some \<lparr>acc_key = key, acc_steps = canonical_steps, acc_vertex_walk = vertices,
          acc_generator_edges = [removed], acc_generator_kinds = [''removed_edge_shortest''],
          acc_anchor_count = 1\<rparr>))))))"

definition strict_limit_error ::
  "primitive_ring_options \<Rightarrow> nat \<Rightarrow> ring_search_status \<Rightarrow> string \<Rightarrow> unit result" where
  "strict_limit_error options index status text =
     (if strict options then
        Inl (PrimitiveRingComplexityError (Fmt ''Primitive-ring edge {} terminated with {}: {}''
          [ANat index, AStr (status_value status), AStr text]))
      else Inr ())"

type_synonym transaction = "(ring_key \<times> candidate_accumulator) list"

text \<open>The loop over the paths of one edge: the transaction, the candidates counted, and whether the
  global limit was hit.\<close>

fun collect_candidates ::
  "framework_topology \<Rightarrow> nat \<Rightarrow> primitive_ring_options \<Rightarrow> nat \<Rightarrow> ring_step list list \<Rightarrow> transaction \<Rightarrow> nat
   \<Rightarrow> (transaction \<times> nat \<times> bool) result" where
  "collect_candidates t removed options so_far [] transaction n = Inr (transaction, n, False)"
| "collect_candidates t removed options so_far (path # paths) transaction n =
     bindE (candidate_from_path t removed path options) (\<lambda>candidate.
     case candidate of
       None \<Rightarrow> collect_candidates t removed options so_far paths transaction n
     | Some c \<Rightarrow>
         if so_far + (n + 1) > max_total_candidates options then Inr (transaction, n + 1, True)
         else collect_candidates t removed options so_far paths
           (case map_of transaction (acc_key c) of
              None \<Rightarrow> AList.update (acc_key c) c transaction
            | Some existing \<Rightarrow> AList.update (acc_key c)
                (existing\<lparr>acc_generator_edges := List.insert removed (acc_generator_edges existing)\<rparr>) transaction)
           (n + 1))"

definition merge_candidate ::
  "ring_key \<times> candidate_accumulator \<Rightarrow> transaction \<Rightarrow> transaction" where
  "merge_candidate = (\<lambda>(key, candidate) candidates.
     case map_of candidates key of
       None \<Rightarrow> AList.update key candidate candidates
     | Some existing \<Rightarrow> AList.update key
         (existing\<lparr>acc_generator_edges := fold List.insert (acc_generator_edges candidate) (acc_generator_edges existing),
                   acc_generator_kinds := fold List.insert (acc_generator_kinds candidate) (acc_generator_kinds existing),
                   acc_anchor_count := acc_anchor_count existing + acc_anchor_count candidate\<rparr>) candidates)"

section \<open>One edge\<close>

record removed_edge_state =
  removed_candidates :: transaction
  search_records :: "ring_edge_search list"
  total_candidate_count :: nat
  global_limit_reached :: bool

text \<open>The accumulator fields that every branch shares.\<close>

definition search_record ::
  "nat \<Rightarrow> framework_edge_key \<Rightarrow> ring_search_status \<Rightarrow> nat option \<Rightarrow> nat option \<Rightarrow> bool \<Rightarrow> nat \<Rightarrow> nat \<Rightarrow> nat \<Rightarrow> nat
   \<Rightarrow> nat \<Rightarrow> message option \<Rightarrow> ring_edge_search" where
  "search_record index key status len paths exact enumerated visited depth candidates through text =
     \<lparr>edge_index = index, searched_key = key, search_status = status, shortest_path_length = len,
      shortest_path_count = paths, shortest_path_count_is_exact = exact, enumerated_path_count = enumerated,
      visited_lifted_state_count = visited, maximum_depth_reached = depth, candidate_count = candidates,
      unique_ring_count = 0, complete_through_ring_size = through, search_message = text\<rparr>"

definition add_record :: "ring_edge_search \<Rightarrow> removed_edge_state \<Rightarrow> removed_edge_state" where
  "add_record r st = st\<lparr>search_records := search_records st @ [r]\<rparr>"

definition found_paths ::
  "framework_topology \<Rightarrow> primitive_ring_options \<Rightarrow> nat \<Rightarrow> framework_edge_key \<Rightarrow> removed_search \<Rightarrow> nat
   \<Rightarrow> removed_edge_state \<Rightarrow> removed_edge_state result" where
  "found_paths t options index key bfs len st =
     (let start = source_start (vertex_i key); target = LiftedVertexRef (vertex_j key) (image_shift key);
          (path_count, exact) = count_predecessor_paths start target (bfs_distance bfs) (bfs_predecessors bfs)
            (max_shortest_paths_per_target options);
          visited = visited_state_count_of bfs; depth = maximum_depth_of bfs in
      if \<not> exact then
        let text = ''Tied shortest-path count exceeded the per-edge path limit.'' in
        bindE (strict_limit_error options index PATH_LIMIT_EXCEEDED text) (\<lambda>_.
        Inr (add_record (search_record index key PATH_LIMIT_EXCEEDED (Some len) (Some path_count) False 0 visited depth 0
          (max 1 len) (Some (Text text))) st))
      else
        case backtrack_shortest_paths start target (bfs_distance bfs) (bfs_predecessors bfs) of
          None \<Rightarrow> Inl (RuntimeError (Text ''maximum recursion depth exceeded''))
        | Some paths \<Rightarrow>
            if length paths \<noteq> path_count then
              Inl (PrimitiveRingSearchError
                (Text ''Predecessor path count disagrees with deterministic backtracking.''))
            else
              bindE (collect_candidates t index options (total_candidate_count st) paths [] 0)
                (\<lambda>(transaction, n, limit_hit).
              if limit_hit then
                let text = ''Global valid-candidate limit exceeded; edge transaction discarded.'' in
                bindE (strict_limit_error options index CANDIDATE_LIMIT_EXCEEDED text) (\<lambda>_.
                Inr (add_record (search_record index key CANDIDATE_LIMIT_EXCEEDED (Some len) (Some path_count) True
                  (length paths) visited depth n (max 1 len) (Some (Text text))) (st\<lparr>global_limit_reached := True\<rparr>)))
              else
                Inr (add_record (search_record index key
                    (if transaction \<noteq> [] then COMPLETE_FOUND else COMPLETE_NONE) (Some len) (Some path_count) True
                    (length paths) visited depth n (max_ring_size options) None)
                  (st\<lparr>removed_candidates := fold merge_candidate transaction (removed_candidates st),
                      total_candidate_count := total_candidate_count st + n\<rparr>))))"

definition removed_edge_step ::
  "framework_topology \<Rightarrow> (nat \<times> half_edge list) list \<Rightarrow> primitive_ring_options \<Rightarrow> nat \<times> framework_edge_path
   \<Rightarrow> removed_edge_state \<Rightarrow> removed_edge_state result" where
  "removed_edge_step t adj options = (\<lambda>(index, edge) st.
     if global_limit_reached st then
       Inr (add_record (search_record index (edge_key edge) NOT_SEARCHED_GLOBAL_LIMIT None None False 0 0 0 0
         (max 1 (min_ring_size options - 1))
         (Some (Text ''Search skipped after the global candidate limit was reached.''))) st)
     else
       bindE (search_removed_edge t adj index options) (\<lambda>bfs.
       if state_limit_exceeded bfs then
         let text = ''Lifted-state limit exceeded before the bounded search completed.'' in
         bindE (strict_limit_error options index STATE_LIMIT_EXCEEDED text) (\<lambda>_.
         Inr (add_record (search_record index (edge_key edge) STATE_LIMIT_EXCEEDED (target_distance bfs) None False 0
           (visited_state_count_of bfs) (maximum_depth_of bfs) 0 (max 1 (min_ring_size options - 1))
           (Some (Text text))) st))
       else
         case target_distance bfs of
           None \<Rightarrow> Inr (add_record (search_record index (edge_key edge) COMPLETE_NONE None (Some 0) True 0
             (visited_state_count_of bfs) (maximum_depth_of bfs) 0 (max_ring_size options) None) st)
         | Some len \<Rightarrow> found_paths t options index (edge_key edge) bfs len st))"

section \<open>The catalog\<close>

definition complete_status :: "ring_search_status \<Rightarrow> bool" where
  "complete_status status \<longleftrightarrow> status = COMPLETE_FOUND \<or> status = COMPLETE_NONE"

definition search_status_record :: "primitive_ring list \<Rightarrow> ring_edge_search \<Rightarrow> ring_edge_search" where
  "search_status_record ring_list r =
     r\<lparr>unique_ring_count := count_list (concat (map generator_edge_indices ring_list)) (edge_index r)\<rparr>"

definition removed_edge_catalog ::
  "framework_topology \<Rightarrow> primitive_ring_options \<Rightarrow> removed_edge_state \<Rightarrow> ring_catalog result" where
  "removed_edge_catalog t options st =
     bindE (rings_of_candidates (removed_candidates st)) (\<lambda>ring_list.
     let searches = map (search_status_record ring_list) (search_records st) in
     bindE (incidence_of_rings t ring_list) (\<lambda>(by_vertex, by_edge).
     bindE (count_sizes ring_list) (\<lambda>counts.
     let completed = (\<forall>r \<in> set searches. complete_status (search_status r));
         through = (if searches = [] then max_ring_size options
                    else min_list (map complete_through_ring_size searches))
     in make_catalog
       \<lparr>catalog_options = options, catalog_method = REMOVED_EDGE_SHORTEST, ring_family = EDGE_SHORTEST_SUBSET,
        rings = ring_list, edge_searches = searches, ring_size_counts = counts,
        catalog_vertices = vertex_atoms t, vertex_to_ring_ids = by_vertex, edge_to_ring_ids = by_edge,
        diagnostics = \<lparr>index_depth = 0, source_searches = [],
          diagnostic_counters = initial_stats\<lparr>structural_candidates := total_candidate_count st,
            duplicate_candidates := total_candidate_count st - length ring_list,
            stat_messages := [Text ''Removed-edge shortest search returns the edge-shortest subset only.'']\<rparr>,
          canonical_candidates = length ring_list, removed_edge_searches = searches,
          shortcut_witness_count = 0, diagnostics_truncated = (\<not> completed)\<rparr>,
        search_completed_without_resource_truncation = completed,
        complete_for_ring_sizes_up_to = through\<rparr>)))"

definition enumerate_removed_edge_shortest ::
  "framework_topology \<Rightarrow> primitive_ring_options \<Rightarrow> ring_catalog result" where
  "enumerate_removed_edge_shortest t options =
     bindE (half_edge_adjacency t) (\<lambda>adj.
     bindE (foldE (removed_edge_step t adj options) (List.enumerate 0 (topology_edges t))
       \<lparr>removed_candidates = [], search_records = [], total_candidate_count = 0, global_limit_reached = False\<rparr>)
     (removed_edge_catalog t options))"

definition enumerate_primitive_rings ::
  "framework_topology \<Rightarrow> primitive_ring_options \<Rightarrow> ring_catalog result" where
  "enumerate_primitive_rings t options =
     (if search_method options = REMOVED_EDGE_SHORTEST then enumerate_removed_edge_shortest t options
      else enumerate_shortest_path_pair_primitives t options)"

section \<open>Candidates\<close>

text \<open>A recorded candidate is a primitive cycle that comes from an edge and a shortest path around it.\<close>

definition edge_entry ::
  "framework_topology \<Rightarrow> primitive_ring_options \<Rightarrow> ring_key \<Rightarrow> candidate_accumulator \<Rightarrow> bool" where
  "edge_entry t options key acc \<longleftrightarrow> ring_entry t options key acc \<and>
     (\<exists>e steps. edge_shortest_cycle t e steps \<and> min_ring_size options \<le> length steps
        \<and> length steps \<le> max_ring_size options \<and> key = ring_key_of t steps)"

definition entries_ok :: "framework_topology \<Rightarrow> primitive_ring_options \<Rightarrow> transaction \<Rightarrow> bool" where
  "entries_ok t options cands \<longleftrightarrow> distinct (map fst cands) \<and>
     (\<forall>key acc. map_of cands key = Some acc \<longrightarrow> edge_entry t options key acc)"

lemma entries_ok_update:
  "entries_ok t options cands \<Longrightarrow> edge_entry t options key acc \<Longrightarrow> entries_ok t options (AList.update key acc cands)"
  unfolding entries_ok_def by (auto simp: update_conv)

lemma edge_entry_provenance:
  assumes "edge_entry t options key acc" and "kinds \<noteq> []" and "1 \<le> n"
  shows "edge_entry t options key (acc\<lparr>acc_generator_edges := edges, acc_generator_kinds := kinds, acc_anchor_count := n\<rparr>)"
  (is "edge_entry t options key ?a")
proof -
  have "acc_key ?a = acc_key acc" "acc_steps ?a = acc_steps acc" "acc_vertex_walk ?a = acc_vertex_walk acc"
    "acc_generator_kinds ?a = kinds" "acc_anchor_count ?a = n" by simp_all
  note fields = this
  show ?thesis using assms unfolding edge_entry_def ring_entry_def fields by blast
qed

lemma edge_entry_edges:
  assumes "edge_entry t options key acc"
  shows "edge_entry t options key (acc\<lparr>acc_generator_edges := edges\<rparr>)"
proof -
  have "acc_generator_kinds acc \<noteq> []" "1 \<le> acc_anchor_count acc"
    using assms unfolding edge_entry_def ring_entry_def by blast+
  from edge_entry_provenance[OF assms this, of edges] show ?thesis by simp
qed

lemma candidate_from_path_correct:
  assumes cycle: "edge_shortest_cycle t e steps" and "steps = path @ [PrimitiveRingStep e Backward]"
    and "2 \<le> min_ring_size options"
  shows "if min_ring_size options \<le> length steps \<and> length steps \<le> max_ring_size options
    then \<exists>c. candidate_from_path t e path options = Inr (Some c) \<and> acc_key c = ring_key_of t steps
      \<and> edge_entry t options (acc_key c) c
    else candidate_from_path t e path options = Inr None"
proof (cases "min_ring_size options \<le> length steps \<and> length steps \<le> max_ring_size options")
  case True
  note prim = edge_shortest_primitive[OF cycle]
  from validate_candidate_cycle_iff[of t steps options] primitive_is_cycle[OF prim] True obtain vs where
    vs: "validate_candidate_cycle t steps options = Inr vs" by blast
  define c where "c = \<lparr>candidate_steps = steps, candidate_vertex_walk = vs, certified_shortest_pairs = [],
    generator_kind = ''removed_edge_shortest'', generator_anchor = (0, 0, zero_shift)\<rparr>"
  have "validate_candidate_cycle t (candidate_steps c) options = Inr vs" using vs by (simp add: c_def)
  from canonical_accumulator_correct[OF this assms(3)] prim obtain acc where
    acc: "canonical_candidate_accumulator t c options = Inr acc" "acc_key acc = ring_key_of t steps"
      "ring_entry t options (acc_key acc) acc" by (auto simp: c_def)
  have "candidate_from_path t e path options = Inr (Some (acc\<lparr>acc_generator_edges := [e]\<rparr>))"
    using acc(1) True unfolding candidate_from_path_def canonical_candidate_accumulator_def assms(2)[symmetric] Let_def
    by (auto simp: c_def bindE_Inr_iff split: prod.splits)
  moreover have "edge_entry t options (acc_key acc) (acc\<lparr>acc_generator_edges := [e]\<rparr>)"
    using acc(2,3) cycle True unfolding edge_entry_def[of t options "acc_key acc" acc]
    by (intro edge_entry_edges) (auto simp only: edge_entry_def simp_thms)
  ultimately show ?thesis using True acc(2) by simp
qed (use assms(2) in \<open>auto simp: candidate_from_path_def Let_def\<close>)

definition path_keys ::
  "framework_topology \<Rightarrow> nat \<Rightarrow> primitive_ring_options \<Rightarrow> ring_step list list \<Rightarrow> ring_key set" where
  "path_keys t e options paths = {ring_key_of t steps | steps. \<exists>path \<in> set paths.
     steps = path @ [PrimitiveRingStep e Backward] \<and> min_ring_size options \<le> length steps
     \<and> length steps \<le> max_ring_size options}"

lemma path_keys_Cons:
  "path_keys t e options (path # paths) = path_keys t e options paths \<union>
     (if min_ring_size options \<le> Suc (length path) \<and> Suc (length path) \<le> max_ring_size options
      then {ring_key_of t (path @ [PrimitiveRingStep e Backward])} else {})"
  by (auto simp: path_keys_def)

lemma collect_candidates_correct:
  assumes "\<forall>path \<in> set paths. edge_shortest_cycle t e (path @ [PrimitiveRingStep e Backward])"
    and "2 \<le> min_ring_size options" and "entries_ok t options transaction"
  shows "\<exists>tr n hit. collect_candidates t e options so_far paths transaction k = Inr (tr, n, hit)
    \<and> (\<not> hit \<longrightarrow> entries_ok t options tr \<and> fst ` set tr = fst ` set transaction \<union> path_keys t e options paths)"
  using assms(1,3)
proof (induction paths arbitrary: transaction k)
  case Nil
  then show ?case by (auto simp: path_keys_def)
next
  case (Cons path paths)
  let ?steps = "path @ [PrimitiveRingStep e Backward]"
  have cycle: "edge_shortest_cycle t e ?steps" and rest: "\<forall>path \<in> set paths. edge_shortest_cycle t e (path @ [PrimitiveRingStep e Backward])"
    using Cons.prems(1) by simp_all
  note this_path = candidate_from_path_correct[OF cycle refl assms(2)]
  show ?case
  proof (cases "min_ring_size options \<le> length ?steps \<and> length ?steps \<le> max_ring_size options")
    case False
    then have "candidate_from_path t e path options = Inr None" using this_path by (simp only: if_False)
    moreover have "path_keys t e options (path # paths) = path_keys t e options paths"
      using False by (auto simp: path_keys_Cons)
    ultimately show ?thesis using Cons.IH[OF rest Cons.prems(2), of k] by simp
  next
    case True
    then obtain c where c: "candidate_from_path t e path options = Inr (Some c)" "acc_key c = ring_key_of t ?steps"
      "edge_entry t options (acc_key c) c" using this_path by (auto simp only: if_True simp_thms)
    have keys: "path_keys t e options (path # paths) = insert (acc_key c) (path_keys t e options paths)"
      using True c(2) by (simp add: path_keys_Cons)
    show ?thesis
    proof (cases "so_far + (k + 1) > max_total_candidates options")
      case True
      then show ?thesis using c(1) by auto
    next
      case False
      define tr where "tr = (case map_of transaction (acc_key c) of
              None \<Rightarrow> AList.update (acc_key c) c transaction
            | Some existing \<Rightarrow> AList.update (acc_key c)
                (existing\<lparr>acc_generator_edges := List.insert e (acc_generator_edges existing)\<rparr>) transaction)"
      have ok: "entries_ok t options tr"
      proof (cases "map_of transaction (acc_key c)")
        case None
        then show ?thesis using entries_ok_update[OF Cons.prems(2) c(3)] by (simp add: tr_def)
      next
        case (Some existing)
        then have "edge_entry t options (acc_key c) existing" using Cons.prems(2) by (simp add: entries_ok_def)
        from edge_entry_edges[OF this] Some show ?thesis
          unfolding tr_def by (simp add: entries_ok_update[OF Cons.prems(2)])
      qed
      have "fst ` set tr = insert (acc_key c) (fst ` set transaction)"
        by (simp add: tr_def split: option.splits)
      then show ?thesis
        using Cons.IH[OF rest ok, of "k + 1"] c(1) False keys by (auto simp: tr_def[symmetric])
    qed
  qed
qed

lemma merge_candidates_correct:
  assumes "entries_ok t options cands" and "entries_ok t options tr"
  shows "entries_ok t options (fold merge_candidate tr cands)"
    and "fst ` set (fold merge_candidate tr cands) = fst ` set cands \<union> fst ` set tr"
proof -
  have one: "entries_ok t options (merge_candidate (key, acc) cs) \<and>
      fst ` set (merge_candidate (key, acc) cs) = insert key (fst ` set cs)"
    if "entries_ok t options cs" "edge_entry t options key acc" for key acc cs
  proof (cases "map_of cs key")
    case None
    then show ?thesis using entries_ok_update[OF that] by (simp add: merge_candidate_def)
  next
    case (Some existing)
    then have old: "edge_entry t options key existing" using that(1) by (simp add: entries_ok_def)
    have "fold List.insert xs ys \<noteq> []" if "ys \<noteq> []" for xs ys :: "string list"
      using that by (induction xs arbitrary: ys) (simp_all add: List.insert_def)
    then have "fold List.insert (acc_generator_kinds acc) (acc_generator_kinds existing) \<noteq> []"
      using old by (simp add: edge_entry_def ring_entry_def)
    moreover have "1 \<le> acc_anchor_count existing + acc_anchor_count acc"
      using old by (simp add: edge_entry_def ring_entry_def)
    ultimately show ?thesis
      using edge_entry_provenance[OF old] Some entries_ok_update[OF that(1)] by (simp add: merge_candidate_def)
  qed
  have entry: "edge_entry t options key acc" if "(key, acc) \<in> set tr" for key acc
    using assms(2) that unfolding entries_ok_def by (metis map_of_eq_Some_iff)
  have "entries_ok t options (fold merge_candidate xs cs) \<and>
      fst ` set (fold merge_candidate xs cs) = fst ` set cs \<union> fst ` set xs"
    if "set xs \<subseteq> set tr" "entries_ok t options cs" for xs cs
    using that
  proof (induction xs arbitrary: cs)
    case (Cons x xs)
    obtain key acc where x: "x = (key, acc)" by (cases x)
    then have "edge_entry t options key acc" using entry Cons.prems(1) by simp
    from one[OF Cons.prems(2) this] Cons.IH[of "merge_candidate x cs"] Cons.prems(1) x show ?case by auto
  qed simp
  from this[of tr cands] assms(1) show "entries_ok t options (fold merge_candidate tr cands)"
    and "fst ` set (fold merge_candidate tr cands) = fst ` set cands \<union> fst ` set tr" by simp_all
qed

section \<open>The loop over the edges\<close>

definition record_ok ::
  "framework_topology \<Rightarrow> primitive_ring_options \<Rightarrow> ring_key set \<Rightarrow> ring_edge_search \<Rightarrow> bool" where
  "record_ok t options K r \<longleftrightarrow> complete_through_ring_size r \<le> max_ring_size options \<and>
     (complete_status (search_status r) \<longrightarrow> complete_through_ring_size r = max_ring_size options) \<and>
     (\<forall>steps. edge_shortest_cycle t (edge_index r) steps \<longrightarrow> min_ring_size options \<le> length steps \<longrightarrow>
        length steps \<le> complete_through_ring_size r \<longrightarrow> ring_key_of t steps \<in> K)"

definition removed_inv ::
  "framework_topology \<Rightarrow> primitive_ring_options \<Rightarrow> nat \<Rightarrow> removed_edge_state \<Rightarrow> bool" where
  "removed_inv t options m st \<longleftrightarrow> entries_ok t options (removed_candidates st) \<and>
     map edge_index (search_records st) = [0..<m] \<and>
     map searched_key (search_records st) = map edge_key (take m (topology_edges t)) \<and>
     (\<forall>r \<in> set (search_records st). record_ok t options (fst ` set (removed_candidates st)) r)"

lemma record_ok_mono: "record_ok t options K r \<Longrightarrow> K \<subseteq> K' \<Longrightarrow> record_ok t options K' r"
  unfolding record_ok_def by blast

lemma removed_inv_add:
  assumes inv: "removed_inv t options m st" and "m < length (topology_edges t)"
    and "entries_ok t options (removed_candidates st')" and "search_records st' = search_records st @ [r]"
    and "fst ` set (removed_candidates st) \<subseteq> fst ` set (removed_candidates st')"
    and "edge_index r = m" and "searched_key r = edge_key (topology_edges t ! m)"
    and "record_ok t options (fst ` set (removed_candidates st')) r"
  shows "removed_inv t options (Suc m) st'"
  using assms record_ok_mono[OF _ assms(5)]
  by (auto simp: removed_inv_def take_Suc_conv_app_nth)

lemma edge_shortest_length:
  assumes "edge_shortest_cycle t e steps"
    and "exact_distance (removed_dest t e) (edge_start t e) (edge_target t e) d"
  shows "length steps = Suc d"
proof -
  from assms(1) obtain path where "steps = path @ [PrimitiveRingStep e Backward]"
    "exact_distance (removed_dest t e) (edge_start t e) (edge_target t e) (length path)"
    by (auto simp: edge_shortest_cycle_def shortest_paths_def)
  with exact_distance_unique[OF assms(2)] show ?thesis by auto
qed

lemma complete_status_simps [simp]:
  "complete_status COMPLETE_FOUND" "complete_status COMPLETE_NONE" "\<not> complete_status PATH_LIMIT_EXCEEDED"
  "\<not> complete_status CANDIDATE_LIMIT_EXCEEDED" "\<not> complete_status NOT_SEARCHED_GLOBAL_LIMIT"
  "\<not> complete_status STATE_LIMIT_EXCEEDED"
  by (simp_all add: complete_status_def)

lemma removed_inv_record:
  assumes inv: "removed_inv t options m st" and "m < length (topology_edges t)"
    and ok: "record_ok t options (fst ` set (removed_candidates st))
      (search_record m (edge_key (topology_edges t ! m)) status len paths exact enumerated visited depth candidates through text)"
    and "search_records st' = search_records st" "removed_candidates st' = removed_candidates st"
  shows "removed_inv t options (Suc m) (add_record
      (search_record m (edge_key (topology_edges t ! m)) status len paths exact enumerated visited depth candidates through text) st')"
proof (rule removed_inv_add[OF inv assms(2)])
  show "entries_ok t options (removed_candidates (add_record (search_record m (edge_key (topology_edges t ! m)) status
      len paths exact enumerated visited depth candidates through text) st'))"
    using inv assms(5) by (simp add: removed_inv_def add_record_def)
qed (use ok assms(4,5) in \<open>simp_all add: add_record_def search_record_def\<close>)

lemma strict_limit_cases:
  "case bindE (strict_limit_error options m status text) (\<lambda>_. Inr st') of
      Inl e \<Rightarrow> only_complexity options e | Inr st'' \<Rightarrow> st'' = st'"
  by (simp add: strict_limit_error_def only_complexity_def)

definition edge_step_ok ::
  "framework_topology \<Rightarrow> primitive_ring_options \<Rightarrow> nat \<Rightarrow> removed_edge_state result \<Rightarrow> bool" where
  "edge_step_ok t options m r \<longleftrightarrow> (case r of
     Inl e \<Rightarrow> only_complexity options e | Inr st \<Rightarrow> removed_inv t options (Suc m) st)"

lemma edge_step_ok_limit:
  "removed_inv t options (Suc m) st' \<Longrightarrow>
    edge_step_ok t options m (bindE (strict_limit_error options m status text) (\<lambda>_. Inr st'))"
  by (simp add: edge_step_ok_def strict_limit_error_def only_complexity_def)

lemma found_paths_correct:
  assumes inv: "removed_inv t options m st" and m: "m < length (topology_edges t)"
    and sizes: "2 \<le> min_ring_size options" "min_ring_size options \<le> max_ring_size options"
    and result: "removed_result t m (max_ring_size options - 1) (edge_start t m) (edge_target t m) bfs"
    and len: "target_distance bfs = Some len"
  shows "edge_step_ok t options m (found_paths t options m (edge_key (topology_edges t ! m)) bfs len st)"
proof -
  let ?key = "edge_key (topology_edges t ! m)" and ?start = "edge_start t m" and ?target = "edge_target t m"
  let ?D = "exact_distance (removed_dest t m)"
  have start: "source_start (vertex_i ?key) = ?start" and target: "LiftedVertexRef (vertex_j ?key) (image_shift ?key) = ?target"
    by (simp_all add: edge_start_def edge_target_def)
  have search: "search_exact (removed_dest t m) ?start (cutoff (max_ring_size options - 1) bfs) (bfs_distance bfs) (bfs_predecessors bfs)"
    and d: "?D ?start ?target len" "len \<le> max_ring_size options - 1"
    using result len by (simp_all add: removed_result_def)
  have cut: "len \<le> cutoff (max_ring_size options - 1) bfs" using d(2) len by (simp add: cutoff_def)
  note counted = count_predecessor_paths_exact[OF search d(1) cut, of "max_shortest_paths_per_target options"]
  from backtrack_shortest_paths_exact[OF search d(1) cut] obtain paths where
    paths: "backtrack_shortest_paths ?start ?target (bfs_distance bfs) (bfs_predecessors bfs) = Some paths"
      "distinct paths" "set paths = shortest_paths (removed_dest t m) ?start ?target" by blast
  have number: "length paths = card (shortest_paths (removed_dest t m) ?start ?target)"
    using distinct_card[OF paths(2)] paths(3) by simp
  have short: "max 1 len \<le> max_ring_size options" using d(2) sizes by auto
  have none: "False" if "edge_shortest_cycle t m steps" "length steps \<le> max 1 len" "min_ring_size options \<le> length steps" for steps
    using edge_shortest_length[OF that(1) d(1)] that(2,3) sizes(1) by simp
  have late: "record_ok t options K (search_record m ?key status l p x en v dp c (max 1 len) tx)"
    if "\<not> complete_status status" for K status l p x en v dp c tx
    unfolding record_ok_def search_record_def using that short none by auto
  show ?thesis
  proof (cases "length paths \<le> max_shortest_paths_per_target options")
    case False
    have "removed_inv t options (Suc m) (add_record (search_record m ?key PATH_LIMIT_EXCEEDED (Some len)
        (Some (min (max_shortest_paths_per_target options + 1) (length paths))) False 0 (visited_state_count_of bfs)
        (maximum_depth_of bfs) 0 (max 1 len)
        (Some (Text ''Tied shortest-path count exceeded the per-edge path limit.''))) st)"
      by (rule removed_inv_record[OF inv m late]) simp_all
    from edge_step_ok_limit[OF this] False show ?thesis
      by (simp add: found_paths_def start target counted number[symmetric] Let_def)
  next
    case True
    have cycles: "\<forall>path \<in> set paths. edge_shortest_cycle t m (path @ [PrimitiveRingStep m Backward])"
      using paths(3) m by (auto simp: edge_shortest_cycle_def)
    have "entries_ok t options []" by (simp add: entries_ok_def)
    from collect_candidates_correct[OF cycles sizes(1) this, of "total_candidate_count st" 0] obtain tr n hit where
      collected: "collect_candidates t m options (total_candidate_count st) paths [] 0 = Inr (tr, n, hit)"
      and ok: "\<not> hit \<Longrightarrow> entries_ok t options tr \<and> fst ` set tr = path_keys t m options paths" by auto
    have body: "found_paths t options m ?key bfs len st =
      (if hit then bindE (strict_limit_error options m CANDIDATE_LIMIT_EXCEEDED
           ''Global valid-candidate limit exceeded; edge transaction discarded.'') (\<lambda>_.
         Inr (add_record (search_record m ?key CANDIDATE_LIMIT_EXCEEDED (Some len) (Some (length paths)) True
            (length paths) (visited_state_count_of bfs) (maximum_depth_of bfs) n (max 1 len)
            (Some (Text ''Global valid-candidate limit exceeded; edge transaction discarded.'')))
            (st\<lparr>global_limit_reached := True\<rparr>)))
       else Inr (add_record (search_record m ?key (if tr \<noteq> [] then COMPLETE_FOUND else COMPLETE_NONE) (Some len)
            (Some (length paths)) True (length paths) (visited_state_count_of bfs) (maximum_depth_of bfs) n
            (max_ring_size options) None)
          (st\<lparr>removed_candidates := fold merge_candidate tr (removed_candidates st),
              total_candidate_count := total_candidate_count st + n\<rparr>)))"
      using True by (simp add: found_paths_def start target counted paths(1) number[symmetric] collected min_def Let_def)
    show ?thesis
    proof (cases hit)
      case True
      have "removed_inv t options (Suc m) (add_record (search_record m ?key CANDIDATE_LIMIT_EXCEEDED (Some len)
          (Some (length paths)) True (length paths) (visited_state_count_of bfs) (maximum_depth_of bfs) n (max 1 len)
          (Some (Text ''Global valid-candidate limit exceeded; edge transaction discarded.'')))
          (st\<lparr>global_limit_reached := True\<rparr>))"
        by (rule removed_inv_record[OF inv m late]) simp_all
      from edge_step_ok_limit[OF this] True show ?thesis unfolding body by simp
    next
      case False
      let ?cands = "fold merge_candidate tr (removed_candidates st)"
      have old: "entries_ok t options (removed_candidates st)" using inv by (simp add: removed_inv_def)
      note merged = merge_candidates_correct[OF old, of tr]
      have keys: "ring_key_of t steps \<in> fst ` set ?cands"
        if "edge_shortest_cycle t m steps" "min_ring_size options \<le> length steps" "length steps \<le> max_ring_size options" for steps
      proof -
        from that(1) paths(3) obtain path where "path \<in> set paths" "steps = path @ [PrimitiveRingStep m Backward]"
          by (auto simp: edge_shortest_cycle_def)
        then have "ring_key_of t steps \<in> path_keys t m options paths" using that(2,3) unfolding path_keys_def by blast
        then show ?thesis using merged(2) ok[OF False] by simp
      qed
      let ?st = "add_record (search_record m ?key (if tr \<noteq> [] then COMPLETE_FOUND else COMPLETE_NONE) (Some len)
            (Some (length paths)) True (length paths) (visited_state_count_of bfs) (maximum_depth_of bfs) n
            (max_ring_size options) None)
          (st\<lparr>removed_candidates := ?cands, total_candidate_count := total_candidate_count st + n\<rparr>)"
      have "removed_inv t options (Suc m) ?st"
      proof (rule removed_inv_add[OF inv m])
        show "entries_ok t options (removed_candidates ?st)" using merged(1) ok[OF False] by (simp add: add_record_def)
        show "fst ` set (removed_candidates st) \<subseteq> fst ` set (removed_candidates ?st)"
          using merged(2) ok[OF False] by (simp add: add_record_def)
        show "record_ok t options (fst ` set (removed_candidates ?st))
          (search_record m ?key (if tr \<noteq> [] then COMPLETE_FOUND else COMPLETE_NONE) (Some len)
            (Some (length paths)) True (length paths) (visited_state_count_of bfs) (maximum_depth_of bfs) n
            (max_ring_size options) None)"
          using keys by (simp add: record_ok_def search_record_def add_record_def)
      qed (simp_all add: add_record_def search_record_def)
      then show ?thesis unfolding body using False by (simp add: edge_step_ok_def)
    qed
  qed
qed

text \<open>An edge that is not a loop onto itself has two ends in the lifted graph.\<close>

definition proper_edges :: "framework_topology \<Rightarrow> bool" where
  "proper_edges t \<longleftrightarrow> (\<forall>edge \<in> set (topology_edges t).
     vertex_i (edge_key edge) = vertex_j (edge_key edge) \<longrightarrow> image_shift (edge_key edge) \<noteq> zero_shift)"

lemma removed_edge_step_correct:
  assumes adj: "valid_adjacency t adj" and proper: "proper_edges t"
    and sizes: "2 \<le> min_ring_size options" "min_ring_size options \<le> max_ring_size options"
    and inv: "removed_inv t options m st" and m: "m < length (topology_edges t)"
  shows "edge_step_ok t options m (removed_edge_step t adj options (m, topology_edges t ! m) st)"
proof -
  let ?key = "edge_key (topology_edges t ! m)"
  have mem: "topology_edges t ! m \<in> set (topology_edges t)" using m by simp
  have early: "record_ok t options K (search_record m ?key status l p x en v dp c (max 1 (min_ring_size options - 1)) tx)"
    if "\<not> complete_status status" for K status l p x en v dp c tx
    unfolding record_ok_def search_record_def using that sizes by auto
  show ?thesis
  proof (cases "global_limit_reached st")
    case True
    have "removed_inv t options (Suc m) (add_record (search_record m ?key NOT_SEARCHED_GLOBAL_LIMIT None None False 0 0 0 0
         (max 1 (min_ring_size options - 1))
         (Some (Text ''Search skipped after the global candidate limit was reached.''))) st)"
      by (rule removed_inv_record[OF inv m early]) simp_all
    then show ?thesis using True by (simp add: removed_edge_step_def edge_step_ok_def)
  next
    case False
    have apart: "edge_start t m \<noteq> edge_target t m"
      using proper mem by (auto simp: proper_edges_def edge_start_def edge_target_def source_start_def)
    have "atom_index (edge_start t m) \<in> set (vertex_atoms t)"
      using lifted_dest_atom[OF adj] edge_back(1)[OF m] by (simp add: lifted_dest_iff)
    from search_removed_edge_correct[OF adj removed_edge_ends_eq[OF m] apart this, of options] obtain bfs where bfs: "search_removed_edge t adj m options = Inr bfs"
      "\<not> state_limit_exceeded bfs \<Longrightarrow> removed_result t m (max_ring_size options - 1) (edge_start t m) (edge_target t m) bfs"
      by (auto split: if_splits)
    show ?thesis
    proof (cases "state_limit_exceeded bfs")
      case True
      have "removed_inv t options (Suc m) (add_record (search_record m ?key STATE_LIMIT_EXCEEDED (target_distance bfs) None
          False 0 (visited_state_count_of bfs) (maximum_depth_of bfs) 0 (max 1 (min_ring_size options - 1))
          (Some (Text ''Lifted-state limit exceeded before the bounded search completed.''))) st)"
        by (rule removed_inv_record[OF inv m early]) simp_all
      from edge_step_ok_limit[OF this] show ?thesis
        using \<open>\<not> global_limit_reached st\<close> bfs(1) True by (simp add: removed_edge_step_def Let_def)
    next
      case go: False
      show ?thesis
      proof (cases "target_distance bfs")
        case None
        have "edge_shortest_cycle t m steps \<Longrightarrow> length steps \<le> max_ring_size options \<Longrightarrow> False" for steps
          using bfs(2)[OF go] None
          by (auto simp: removed_result_def edge_shortest_cycle_def shortest_paths_def)
        then have "record_ok t options (fst ` set (removed_candidates st)) (search_record m ?key COMPLETE_NONE None (Some 0) True 0
             (visited_state_count_of bfs) (maximum_depth_of bfs) 0 (max_ring_size options) None)"
          unfolding record_ok_def search_record_def by auto
        from removed_inv_record[OF inv m this refl refl] show ?thesis
          using \<open>\<not> global_limit_reached st\<close> bfs(1) go None by (simp add: removed_edge_step_def edge_step_ok_def)
      next
        case (Some len)
        then show ?thesis
          using found_paths_correct[OF inv m sizes bfs(2)[OF go] Some] \<open>\<not> global_limit_reached st\<close> bfs(1) go
          by (simp add: removed_edge_step_def)
      qed
    qed
  qed
qed

section \<open>The catalog of the removed-edge method\<close>

lemma removed_edge_loop_ok:
  assumes adj: "valid_adjacency t adj" and proper: "proper_edges t"
    and sizes: "2 \<le> min_ring_size options" "min_ring_size options \<le> max_ring_size options"
  shows "case foldE (removed_edge_step t adj options) (List.enumerate 0 (topology_edges t))
       \<lparr>removed_candidates = [], search_records = [], total_candidate_count = 0, global_limit_reached = False\<rparr> of
      Inl e \<Rightarrow> only_complexity options e | Inr st \<Rightarrow> removed_inv t options (length (topology_edges t)) st"
proof -
  let ?st = "\<lparr>removed_candidates = [], search_records = [], total_candidate_count = 0, global_limit_reached = False\<rparr>"
  let ?run = "\<lambda>m. foldE (removed_edge_step t adj options) (take m (List.enumerate 0 (topology_edges t))) ?st"
  have "case ?run m of Inl e \<Rightarrow> only_complexity options e | Inr st \<Rightarrow> removed_inv t options m st"
    if "m \<le> length (topology_edges t)" for m
    using that
  proof (induction m)
    case 0
    show ?case by (simp add: removed_inv_def entries_ok_def)
  next
    case (Suc m)
    have take: "take (Suc m) (List.enumerate 0 (topology_edges t))
        = take m (List.enumerate 0 (topology_edges t)) @ [(m, topology_edges t ! m)]"
      using Suc.prems by (simp add: take_Suc_conv_app_nth nth_enumerate_eq)
    show ?case
    proof (cases "?run m")
      case (Inl e)
      then show ?thesis using Suc by (simp add: take)
    next
      case (Inr st)
      with Suc have "removed_inv t options m st" by simp
      from removed_edge_step_correct[OF adj proper sizes this] Suc.prems Inr show ?thesis
        by (simp add: take edge_step_ok_def split: sum.splits)
    qed
  qed
  from this[of "length (topology_edges t)"] show ?thesis by simp
qed

lemma removed_edge_catalog_correct:
  assumes inv: "removed_inv t options (length (topology_edges t)) st"
    and sizes: "2 \<le> min_ring_size options" "min_ring_size options \<le> max_ring_size options"
    and adj: "valid_adjacency t adj" and vertices: "sorted_wrt (<) (vertex_atoms t)" "vertex_atoms t \<noteq> []"
    and search: "search_method options = REMOVED_EDGE_SHORTEST"
  shows "\<exists>c. removed_edge_catalog t options st = Inr c \<and> catalog_of_cycles t options (removed_candidates st) c
    \<and> (\<forall>e steps. edge_shortest_cycle t e steps \<longrightarrow> min_ring_size options \<le> length steps \<longrightarrow>
         length steps \<le> complete_for_ring_sizes_up_to c \<longrightarrow> ring_key_of t steps \<in> fst ` set (removed_candidates st))"
proof -
  let ?cands = "removed_candidates st" and ?records = "search_records st"
  have entries: "cycle_entry t options key acc" if "map_of ?cands key = Some acc" for key acc
    using inv that ring_entry_cycle unfolding removed_inv_def entries_ok_def edge_entry_def by blast
  have keys: "distinct (map fst ?cands)" using inv by (simp add: removed_inv_def entries_ok_def)
  obtain rs bv be where rs: "rings_of_candidates ?cands = Inr rs" "map ring_id rs = [0..<length rs]"
      "map ring_key rs = sort (map fst ?cands)" "sorted_wrt (<) (map ring_key rs)"
      "\<forall>r \<in> set rs. \<exists>acc. map_of ?cands (ring_key r) = Some acc \<and> ring_of_entry acc r"
      "\<forall>r \<in> set rs. 2 \<le> ring_size r \<and> ring_coherent (map edge_key (topology_edges t)) (vertex_atoms t) r"
    and counts: "count_sizes rs = Inr (map (\<lambda>n. PrimitiveRingSizeCount n (count_list (map ring_size rs) n))
        (sorted_set (map ring_size rs)))"
    and tables: "incidence_of_rings t rs = Inr (bv, be)"
      "tables_exact (vertex_atoms t) (length (topology_edges t)) rs (bv, be)"
    using assembled_rings[OF entries sizes(1) keys adj vertices(1)] by blast
  define searches where "searches = map (search_status_record rs) ?records"
  have "map edge_index ?records = [0..<length (topology_edges t)]" using inv unfolding removed_inv_def by (elim conjE)
  from arg_cong[OF this, of length] have len: "length ?records = length (topology_edges t)" by simp
  have fields: "map edge_index searches = [0..<length (topology_edges t)]"
    "map searched_key searches = map edge_key (topology_edges t)" "length searches = length (topology_edges t)"
    "map search_status searches = map search_status ?records"
    "map complete_through_ring_size searches = map complete_through_ring_size ?records"
    using inv len by (simp_all add: searches_def search_status_record_def comp_def removed_inv_def)
  define completed where "completed \<longleftrightarrow> (\<forall>r \<in> set searches. complete_status (search_status r))"
  define through where "through = (if searches = [] then max_ring_size options
      else min_list (map complete_through_ring_size searches))"
  have ok: "record_ok t options (fst ` set ?cands) r" if "r \<in> set ?records" for r
    using inv that by (simp add: removed_inv_def)
  have min: "through \<le> complete_through_ring_size r" if "r \<in> set ?records" for r
  proof -
    have "searches \<noteq> []" using that by (auto simp: searches_def)
    then show ?thesis
      unfolding through_def fields(5) using that by (auto simp: searches_def min_list_Min intro!: Min_le)
  qed
  have bound: "through \<le> max_ring_size options"
  proof (cases "?records")
    case (Cons r records)
    then have "r \<in> set ?records" by simp
    from min[OF this] ok[OF this] show ?thesis by (simp add: record_ok_def)
  qed (simp add: through_def searches_def)
  have full: "through = max_ring_size options" if completed
  proof (cases "searches = []")
    case False
    have "complete_status (search_status r)" if "r \<in> set ?records" for r
      using \<open>completed\<close> that unfolding completed_def searches_def search_status_record_def by auto
    then have "set (map complete_through_ring_size ?records) \<subseteq> {max_ring_size options}"
      using ok by (auto simp: record_ok_def)
    moreover have "map complete_through_ring_size ?records \<noteq> []" using False by (simp add: searches_def)
    ultimately have "set (map complete_through_ring_size ?records) = {max_ring_size options}"
      by (metis set_empty subset_singletonD)
    then show ?thesis unfolding through_def fields(5) using False
      by (simp add: min_list_Min searches_def del: set_map)
  qed (simp add: through_def)
  define c where "c = \<lparr>catalog_options = options, catalog_method = REMOVED_EDGE_SHORTEST, ring_family = EDGE_SHORTEST_SUBSET,
        rings = rs, edge_searches = searches,
        ring_size_counts = map (\<lambda>n. PrimitiveRingSizeCount n (count_list (map ring_size rs) n)) (sorted_set (map ring_size rs)),
        catalog_vertices = vertex_atoms t, vertex_to_ring_ids = bv, edge_to_ring_ids = be,
        diagnostics = \<lparr>index_depth = 0, source_searches = [],
          diagnostic_counters = initial_stats\<lparr>structural_candidates := total_candidate_count st,
            duplicate_candidates := total_candidate_count st - length rs,
            stat_messages := [Text ''Removed-edge shortest search returns the edge-shortest subset only.'']\<rparr>,
          canonical_candidates = length rs, removed_edge_searches = searches,
          shortcut_witness_count = 0, diagnostics_truncated = (\<not> completed)\<rparr>,
        search_completed_without_resource_truncation = completed,
        complete_for_ring_sizes_up_to = through\<rparr>"
  have result: "removed_edge_catalog t options st = make_catalog c"
    by (simp only: removed_edge_catalog_def rs(1) tables(1) counts c_def searches_def completed_def
        through_def Let_def bindE_simps prod.case)
  have tables': "map set bv = map (\<lambda>a. ids_where rs (visits_atom a)) (vertex_atoms t)"
    "map set be = map (\<lambda>e. ids_where rs (uses_edge e)) [0..<length (topology_edges t)]"
    using tables(2) by (simp_all add: tables_exact_iff)
  have valid: "catalog_valid c"
    unfolding catalog_valid_def c_def ring_catalog.select_convs fields
    using rs search full bound vertices tables' by simp
  let ?c = "c\<lparr>vertex_to_ring_ids := map sorted_set (vertex_to_ring_ids c),
            edge_to_ring_ids := map sorted_set (edge_to_ring_ids c)\<rparr>"
  have made: "make_catalog c = Inr ?c" using valid by (simp add: make_catalog_Inr_iff)
  have "catalog_valid ?c" using valid unfolding catalog_valid_def by (simp add: comp_def)
  moreover have "catalog_options ?c = options" "catalog_vertices ?c = vertex_atoms t" "rings ?c = rs"
    "edge_searches ?c = searches" "complete_for_ring_sizes_up_to ?c = through"
    by (simp_all add: c_def)
  ultimately have "catalog_of_cycles t options ?cands ?c"
    using rs(3,5) unfolding catalog_of_cycles_def by (simp only: fields simp_thms)
  moreover have "ring_key_of t steps \<in> fst ` set ?cands"
    if cycle: "edge_shortest_cycle t e steps" "min_ring_size options \<le> length steps" "length steps \<le> through" for e steps
  proof -
    have "e < length (topology_edges t)" using cycle(1) by (simp add: edge_shortest_cycle_def)
    then have "e \<in> set (map edge_index ?records)" using inv by (simp add: removed_inv_def)
    then obtain r where r: "r \<in> set ?records" "edge_index r = e" by auto
    with ok[OF r(1)] min[OF r(1)] cycle show ?thesis by (simp add: record_ok_def)
  qed
  moreover note \<open>complete_for_ring_sizes_up_to ?c = through\<close>
  ultimately show ?thesis unfolding result made by (intro exI[of _ ?c]) simp
qed

section \<open>Properties\<close>

text \<open>C2: The removed-edge method on a valid framework raises nothing but the complexity error of strict mode.
  Its rings are exactly the edge-shortest cycles, an edge closed by a shortest path around it, up to
  the reported complete size, and every ring it lists, truncated or not, is one of them; all of them
  are primitive, so the method returns a subset of the rings of the default search.\<close>

theorem removed_edge_catalog_exact:
  assumes "half_edge_adjacency t = Inr adj" and "proper_edges t"
    and "sorted_wrt (<) (vertex_atoms t)" and "vertex_atoms t \<noteq> []" and "2 \<le> min_ring_size options"
    and "min_ring_size options \<le> max_ring_size options" and "search_method options = REMOVED_EDGE_SHORTEST"
  shows "case enumerate_primitive_rings t options of
      Inl e \<Rightarrow> strict options \<and> (\<exists>m. e = PrimitiveRingComplexityError m)
    | Inr c \<Rightarrow>
        (\<forall>r \<in> set (rings c). primitive_cycle t (ring_steps r)
           \<and> (\<exists>e steps canon. edge_shortest_cycle t e steps \<and> canonicalize_steps t steps = Inr (ring_key r, canon)))
        \<and> sorted_wrt (<) (map ring_key (rings c))
        \<and> (\<forall>e steps. edge_shortest_cycle t e steps \<and> min_ring_size options \<le> length steps
             \<and> length steps \<le> complete_for_ring_sizes_up_to c \<longrightarrow>
             (\<exists>r \<in> set (rings c). \<exists>canon. canonicalize_steps t steps = Inr (ring_key r, canon)))
        \<and> (search_completed_without_resource_truncation c \<longrightarrow>
             complete_for_ring_sizes_up_to c = max_ring_size options)"
proof -
  have adj: "valid_adjacency t adj" using assms(1) by (simp add: valid_adjacency_def)
  let ?run = "foldE (removed_edge_step t adj options) (List.enumerate 0 (topology_edges t))
       \<lparr>removed_candidates = [], search_records = [], total_candidate_count = 0, global_limit_reached = False\<rparr>"
  have body: "enumerate_primitive_rings t options = bindE ?run (removed_edge_catalog t options)"
    by (simp add: enumerate_primitive_rings_def enumerate_removed_edge_shortest_def assms(1,7))
  show ?thesis
  proof (cases ?run)
    case (Inl e)
    with removed_edge_loop_ok[OF adj assms(2,5,6)] show ?thesis unfolding body by (simp add: only_complexity_def)
  next
    case (Inr st)
    with removed_edge_loop_ok[OF adj assms(2,5,6)] have inv: "removed_inv t options (length (topology_edges t)) st" by simp
    from removed_edge_catalog_correct[OF inv assms(5,6) adj assms(3,4,7)] obtain c where
      c: "removed_edge_catalog t options st = Inr c" "catalog_of_cycles t options (removed_candidates st) c"
      and complete: "\<And>e steps. edge_shortest_cycle t e steps \<Longrightarrow> min_ring_size options \<le> length steps \<Longrightarrow>
         length steps \<le> complete_for_ring_sizes_up_to c \<Longrightarrow> ring_key_of t steps \<in> fst ` set (removed_candidates st)"
      by blast
    have canonical: "canonicalize_steps t steps = Inr (ring_key_of t steps, snd (canonical_of t steps))"
      if "edge_shortest_cycle t e steps" "min_ring_size options \<le> length steps" for e steps
      by (rule canonicalize_primitive[OF edge_shortest_primitive[OF that(1)]]) (use that(2) assms(5) in simp)
    have ring: "primitive_cycle t (ring_steps r)
        \<and> (\<exists>e steps canon. edge_shortest_cycle t e steps \<and> canonicalize_steps t steps = Inr (ring_key r, canon))"
      if r: "r \<in> set (rings c)" for r
    proof -
      obtain acc where acc: "map_of (removed_candidates st) (ring_key r) = Some acc" "ring_of_entry acc r"
        using c(2) r unfolding catalog_of_cycles_def by blast
      then have "edge_entry t options (ring_key r) acc" using inv by (simp add: removed_inv_def entries_ok_def)
      then obtain e steps where "primitive_cycle t (acc_steps acc)" "edge_shortest_cycle t e steps"
        "min_ring_size options \<le> length steps" "ring_key r = ring_key_of t steps"
        unfolding edge_entry_def ring_entry_def by blast
      with canonical[of e steps] acc(2) show ?thesis unfolding ring_of_entry_def by metis
    qed
    have keys: "set (map ring_key (rings c)) = fst ` set (removed_candidates st)"
      using c(2) unfolding catalog_of_cycles_def by (metis set_map set_sort)
    have listed: "\<exists>r \<in> set (rings c). \<exists>canon. canonicalize_steps t steps = Inr (ring_key r, canon)"
      if "edge_shortest_cycle t e steps" "min_ring_size options \<le> length steps"
        "length steps \<le> complete_for_ring_sizes_up_to c" for e steps
    proof -
      have "ring_key_of t steps \<in> set (map ring_key (rings c))" unfolding keys by (rule complete[OF that])
      then obtain r where "r \<in> set (rings c)" "ring_key r = ring_key_of t steps" by auto
      with canonical[OF that(1,2)] show ?thesis by metis
    qed
    have "catalog_valid c" "catalog_options c = options" using c(2) unfolding catalog_of_cycles_def by blast+
    then have "sorted_wrt (<) (map ring_key (rings c))"
      "search_completed_without_resource_truncation c \<longrightarrow> complete_for_ring_sizes_up_to c = max_ring_size options"
      by (simp_all add: catalog_valid_def)
    then show ?thesis unfolding body Inr using c(1) ring listed by auto
  qed
qed

definition removed_options :: primitive_ring_options where
  "removed_options = ring_options\<lparr>search_method := REMOVED_EDGE_SHORTEST, strict := False\<rparr>"

lemma removed_example:
  "proper_edges ring_topology"
  "map_sum id (\<lambda>c. map ring_size (rings c)) (enumerate_primitive_rings ring_topology removed_options) = Inr [2, 4, 4, 4]"
  by code_simp+

theorem removed_edge_catalog_exact_witness:
  "\<exists>c. enumerate_primitive_rings ring_topology removed_options = Inr c \<and> map ring_size (rings c) = [2, 4, 4, 4]
     \<and> (\<forall>r \<in> set (rings c). primitive_cycle ring_topology (ring_steps r))"
proof -
  have ready: "2 \<le> min_ring_size removed_options" "min_ring_size removed_options \<le> max_ring_size removed_options"
    "search_method removed_options = REMOVED_EDGE_SHORTEST" by (simp_all add: removed_options_def ring_options_def)
  from removed_edge_catalog_exact[OF ring_topology_example(3) removed_example(1) ring_topology_vertices ready]
    removed_example(2) show ?thesis by (auto split: sum.splits)
qed

end
