(* ===== verification/Ring_Gauge.thy ===== *)
theory Ring_Gauge
  imports Removed_Edge_Rings
begin

text \<open>
  The expansion of a ring into its atoms (\<open>mdstats/analysis/primitive_ring.py\<close>): the recovery of the
  vertex gauge between projected and raw edge shifts (\<open>_framework_vertex_raw_gauge\<close>), and the lifted
  atomic walk of a ring (\<open>expand_primitive_ring_atomic_walk\<close>).

  The gauge search is the labelled search of \<^theory_text>\<open>Label_Search\<close>; it succeeds exactly when a gauge exists.
  A coherent ring then expands, and the result is one closed walk of atoms.
\<close>

section \<open>The raw gauge\<close>

definition raw_gauge_edge :: "framework_topology \<Rightarrow> framework_edge_path \<Rightarrow> (nat \<times> nat \<times> shift) list result" where
  "raw_gauge_edge t edge =
     (let key = edge_key edge; delta = subtract_shift (raw_image_shift edge) (image_shift key) in
      if vertex_i key = vertex_j key then
        if delta \<noteq> zero_shift then
          Inl (PrimitiveRingInputError
            (Text ''Self-image edge raw and projected shifts use inconsistent gauges.''))
        else Inr []
      else
        bindE (guardE (vertex_i key \<in> set (vertex_atoms t) \<and> vertex_j key \<in> set (vertex_atoms t))
          (KeyError (Text ''''))) (\<lambda>_.
        Inr [(vertex_i key, vertex_j key, delta)]))"

definition gauge_clash :: "shift \<Rightarrow> shift \<Rightarrow> exc option" where
  "gauge_clash previous expected =
     (if previous \<noteq> expected then Some (PrimitiveRingInputError
        (Text ''Framework raw/projected edge gauges are cycle-inconsistent.'')) else None)"

definition framework_vertex_raw_gauge :: "framework_topology \<Rightarrow> (nat \<rightharpoonup> shift) result" where
  "framework_vertex_raw_gauge t =
     bindE (mapE (raw_gauge_edge t) (topology_edges t)) (\<lambda>triples.
     label_search add_shift gauge_clash zero_shift
       (sort_adjacency (directed_adjacency negate_shift (vertex_atoms t) (concat triples)))
       (sorted_set (vertex_atoms t)))"

section \<open>The atomic walk of a ring\<close>

datatype lifted_atom = LiftedAtomRef (atom_ref: nat) (atom_image: shift)

definition gauge_at :: "(nat \<rightharpoonup> shift) \<Rightarrow> nat \<Rightarrow> shift result" where
  "gauge_at gauge a = (case gauge a of None \<Rightarrow> Inl (KeyError (Text '''')) | Some g \<Rightarrow> Inr g)"

fun extend_segment :: "shift \<Rightarrow> nat list \<Rightarrow> shift list \<Rightarrow> lifted_atom list result" where
  "extend_segment cell [] [] = Inr []"
| "extend_segment cell (a # atoms) (delta # deltas) =
     bindE (extend_segment (add_shift cell delta) atoms deltas) (\<lambda>segment.
     Inr (LiftedAtomRef a (add_shift cell delta) # segment))"
| "extend_segment cell _ _ = Inl (ValueError (Text ''zip() arguments have different lengths''))"

definition atomic_segment :: "oriented_edge_path \<Rightarrow> shift \<Rightarrow> lifted_atom list result" where
  "atomic_segment edge source_image =
     bindE (nthE (oriented_atomic_path edge) 0) (\<lambda>first.
     bindE (extend_segment source_image (tl (oriented_atomic_path edge)) (oriented_atomic_shifts edge)) (\<lambda>segment.
     Inr (LiftedAtomRef first source_image # segment)))"

definition join_segment :: "lifted_atom list \<Rightarrow> lifted_atom list \<Rightarrow> lifted_atom list result" where
  "join_segment atomic_walk segment =
     (if atomic_walk = [] then Inr segment
      else
        bindE (guardE (last atomic_walk = hd segment)
          (PrimitiveRingInputError (Text ''Consecutive expanded framework paths are discontinuous.''))) (\<lambda>_.
        Inr (atomic_walk @ tl segment)))"

definition expand_step ::
  "framework_topology \<Rightarrow> (nat \<rightharpoonup> shift) \<Rightarrow> primitive_ring \<Rightarrow> nat \<times> ring_step \<times> lifted_vertex \<Rightarrow> lifted_atom list
   \<Rightarrow> lifted_atom list result" where
  "expand_step t gauge ring = (\<lambda>(index, step, source) atomic_walk.
     bindE (nthE (topology_edges t) (step_edge step)) (\<lambda>path.
     let edge = oriented path (step_orientation step) in
     bindE (guardE (source_vertex edge = atom_index source)
       (PrimitiveRingInputError (Text ''Ring vertex walk is incompatible with the supplied topology.''))) (\<lambda>_.
     bindE (gauge_at gauge (atom_index source)) (\<lambda>g.
     bindE (atomic_segment edge (add_shift (vertex_image source) g)) (\<lambda>segment.
     bindE (nthE (vertex_walk ring) ((index + 1) mod ring_size ring)) (\<lambda>target.
     bindE (gauge_at gauge (atom_index target)) (\<lambda>g'.
     bindE (guardE (last segment = LiftedAtomRef (atom_index target) (add_shift (vertex_image target) g'))
       (PrimitiveRingInputError
         (Text ''Expanded atomic path does not meet the next lifted framework vertex.''))) (\<lambda>_.
     join_segment atomic_walk segment))))))))"

definition expand_primitive_ring_atomic_walk ::
  "framework_topology \<Rightarrow> primitive_ring \<Rightarrow> bool \<Rightarrow> lifted_atom list result" where
  "expand_primitive_ring_atomic_walk t ring close =
     bindE (guardE (\<not> (\<exists>step \<in> set (ring_steps ring). step_edge step \<ge> length (topology_edges t)))
       (PrimitiveRingInputError (Text ''Ring references an edge absent from topology.''))) (\<lambda>_.
     bindE (step_tokens t (ring_steps ring)) (\<lambda>tokens.
     bindE (guardE (tokens = edge_tokens (ring_key ring))
       (PrimitiveRingInputError
         (Text ''Ring structural key is incompatible with the supplied topology.''))) (\<lambda>_.
     bindE (framework_vertex_raw_gauge t) (\<lambda>gauge.
     bindE (foldE (expand_step t gauge ring)
       (List.enumerate 0 (zip (ring_steps ring) (vertex_walk ring))) []) (\<lambda>atomic_walk.
     bindE (guardE (length (ring_steps ring) = length (vertex_walk ring))
       (ValueError (Text ''zip() arguments have different lengths''))) (\<lambda>_.
     bindE (guardE (atomic_walk \<noteq> []) IndexError) (\<lambda>_.
     bindE (guardE (last atomic_walk = hd atomic_walk)
       (PrimitiveRingInputError (Text ''Expanded atomic ring walk does not close.''))) (\<lambda>_.
     Inr (if close then atomic_walk else butlast atomic_walk)))))))))"

section \<open>What the gauge search raises\<close>

lemma visit_neighbours_error:
  "visit_neighbours ext clash a ns L = Inl e \<Longrightarrow> \<exists>x y. clash x y = Some e"
  by (induction ns arbitrary: L) (auto simp: Let_def bindE_Inl_iff split: option.splits, blast)

lemma visit_neighbours_dom:
  assumes "visit_neighbours ext clash a ns L = Inr (L1, added)" and "dom L \<subseteq> D" and "fst ` set ns \<subseteq> D"
  shows "dom L1 \<subseteq> D"
proof -
  from visit_neighbours_Inr[OF assms(1)] have "dom L1 = dom L \<union> set added" "set added \<subseteq> fst ` set ns" by auto
  with assms(2,3) show ?thesis by (simp only: Un_subset_iff) (meson subset_trans)
qed

lemma label_bfs_error:
  assumes "label_bfs ext clash adj queue L = Inl e" and "set queue \<subseteq> dom L"
    and "dom L \<subseteq> dom (map_of adj)" and "\<forall>v ns. map_of adj v = Some ns \<longrightarrow> fst ` set ns \<subseteq> dom (map_of adj)"
  shows "\<exists>x y. clash x y = Some e"
  using assms
proof (induction ext clash adj queue L rule: label_bfs.induct)
  case (2 ext clash adj current queue L)
  from "2.prems"(2) obtain a where a: "L current = Some a" by auto
  with "2.prems"(3) obtain ns where ns: "map_of adj current = Some ns" by blast
  show ?case
  proof (cases "visit_neighbours ext clash a ns L")
    case (Inl e')
    with visit_neighbours_error[OF Inl] "2.prems"(1) a ns show ?thesis by (auto simp: lookupE_def)
  next
    case (Inr p)
    obtain L1 added where p: "p = (L1, added)" by (cases p)
    note facts = visit_neighbours_Inr[OF Inr[unfolded p]]
    have rest: "label_bfs ext clash adj (queue @ added) L1 = Inl e"
      using "2.prems"(1) a ns Inr p by (simp add: lookupE_def)
    show ?thesis
    proof (rule "2.IH"[OF a ns[folded lookupE_Inr_iff] Inr[unfolded p] refl rest])
      show "set (queue @ added) \<subseteq> dom L1" using facts "2.prems"(2) by auto
      have "fst ` set ns \<subseteq> dom (map_of adj)" using "2.prems"(4) ns by blast
      then show "dom L1 \<subseteq> dom (map_of adj)" by (rule visit_neighbours_dom[OF Inr[unfolded p] "2.prems"(3)])
    qed (rule "2.prems"(4))
  qed
qed simp

lemma label_bfs_dom:
  assumes "label_bfs ext clash adj queue L = Inr L'" and "dom L \<subseteq> dom (map_of adj)"
    and "\<forall>v ns. map_of adj v = Some ns \<longrightarrow> fst ` set ns \<subseteq> dom (map_of adj)"
  shows "dom L' \<subseteq> dom (map_of adj)"
  using assms
proof (induction ext clash adj queue L rule: label_bfs.induct)
  case (2 ext clash adj current queue L)
  from "2.prems"(1) obtain a ns L1 added where a: "L current = Some a" and ns: "map_of adj current = Some ns"
    and visit: "visit_neighbours ext clash a ns L = Inr (L1, added)"
    and rest: "label_bfs ext clash adj (queue @ added) L1 = Inr L'"
    by (auto simp: bindE_Inr_iff lookupE_Inr_iff split: option.splits)
  have "fst ` set ns \<subseteq> dom (map_of adj)" using "2.prems"(3) ns by blast
  then have "dom L1 \<subseteq> dom (map_of adj)" by (rule visit_neighbours_dom[OF visit "2.prems"(2)])
  from "2.IH"[OF a ns[folded lookupE_Inr_iff] visit refl rest this "2.prems"(3)] show ?case .
qed auto

lemma label_search_error:
  assumes "label_search ext clash root_label adj roots = Inl e" and "set roots \<subseteq> dom (map_of adj)"
    and closed: "\<forall>v ns. map_of adj v = Some ns \<longrightarrow> fst ` set ns \<subseteq> dom (map_of adj)"
  shows "\<exists>x y. clash x y = Some e"
proof -
  let ?step = "\<lambda>root labels. if root \<in> dom labels then Inr labels
        else label_bfs ext clash adj [root] (labels(root \<mapsto> root_label))"
  have "\<exists>x y. clash x y = Some e"
    if "foldE ?step roots L = Inl e" "dom L \<subseteq> dom (map_of adj)" "set roots \<subseteq> dom (map_of adj)" for L
    using that
  proof (induction roots arbitrary: L)
    case (Cons root roots)
    have one: "dom (L(root \<mapsto> root_label)) \<subseteq> dom (map_of adj)" using Cons.prems(2,3) by auto
    from Cons.prems(1) consider "?step root L = Inl e"
      | L' where "?step root L = Inr L'" "foldE ?step roots L' = Inl e" by (auto simp: bindE_Inl_iff)
    then show ?case
    proof cases
      case 1
      then have "label_bfs ext clash adj [root] (L(root \<mapsto> root_label)) = Inl e" by (simp split: if_splits)
      then show ?thesis by (rule label_bfs_error) (use one closed in auto)
    next
      case 2
      have "dom L' \<subseteq> dom (map_of adj)"
      proof (cases "root \<in> dom L")
        case False
        with 2(1) have "label_bfs ext clash adj [root] (L(root \<mapsto> root_label)) = Inr L'" by simp
        from label_bfs_dom[OF this one closed] show ?thesis .
      qed (use 2(1) Cons.prems(2) in simp)
      with Cons.IH[OF 2(2)] Cons.prems(3) show ?thesis by simp
    qed
  qed simp
  with assms show ?thesis by (simp add: label_search_def)
qed

section \<open>The gauge search decides whether there is a gauge\<close>

definition raw_gauge_of :: "framework_topology \<Rightarrow> (nat \<Rightarrow> shift) \<Rightarrow> bool" where
  "raw_gauge_of t g \<longleftrightarrow> (\<forall>edge \<in> set (topology_edges t). regauge_edge g edge = edge)"

lemma regauge_edge_same:
  "regauge_edge g edge = edge \<longleftrightarrow> subtract_shift (raw_image_shift edge) (image_shift (edge_key edge))
     = subtract_shift (g (vertex_j (edge_key edge))) (g (vertex_i (edge_key edge)))"
proof -
  let ?k = "edge_key edge"
  have "regauge_edge g edge = edge \<longleftrightarrow>
      subtract_shift (add_shift (raw_image_shift edge) (g (vertex_i ?k))) (g (vertex_j ?k)) = image_shift ?k"
    by (cases edge; cases "edge_key edge") (simp add: regauge_edge_def)
  also have "\<dots> \<longleftrightarrow> subtract_shift (raw_image_shift edge) (image_shift ?k) = subtract_shift (g (vertex_j ?k)) (g (vertex_i ?k))"
    by (cases "raw_image_shift edge"; cases "image_shift ?k"; cases "g (vertex_j ?k)"; cases "g (vertex_i ?k)") auto
  finally show ?thesis .
qed

abbreviation ends_in_vertices :: "framework_topology \<Rightarrow> bool" where
  "ends_in_vertices t \<equiv> \<forall>edge \<in> set (topology_edges t).
     fst (edge_ends edge) \<in> set (vertex_atoms t) \<and> snd (edge_ends edge) \<in> set (vertex_atoms t)"

lemma raw_gauge_edge_ends:
  assumes "fst (edge_ends edge) \<in> set (vertex_atoms t) \<and> snd (edge_ends edge) \<in> set (vertex_atoms t)"
  shows "raw_gauge_edge t edge =
    (let key = edge_key edge; delta = subtract_shift (raw_image_shift edge) (image_shift key) in
     if vertex_i key \<noteq> vertex_j key then Inr [(vertex_i key, vertex_j key, delta)]
     else if delta = zero_shift then Inr []
     else Inl (PrimitiveRingInputError
       (Text ''Self-image edge raw and projected shifts use inconsistent gauges.'')))"
  using assms by (simp add: raw_gauge_edge_def edge_ends_def Let_def)

lemma raw_gauge_triples:
  assumes "ends_in_vertices t" and "mapE (raw_gauge_edge t) (topology_edges t) = Inr triples"
  shows "(i, j, d) \<in> set (concat triples) \<longleftrightarrow> i \<noteq> j \<and> (\<exists>edge \<in> set (topology_edges t).
      edge_ends edge = (i, j) \<and> d = subtract_shift (raw_image_shift edge) (image_shift (edge_key edge)))"
proof -
  have "(i, j, d) \<in> set (concat triples) \<longleftrightarrow> i \<noteq> j \<and> (\<exists>edge \<in> set edges.
      edge_ends edge = (i, j) \<and> d = subtract_shift (raw_image_shift edge) (image_shift (edge_key edge)))"
    if "mapE (raw_gauge_edge t) edges = Inr triples" "set edges \<subseteq> set (topology_edges t)" for edges
    using that
  proof (induction edges arbitrary: triples)
    case (Cons edge edges)
    then obtain ts rest where ts: "raw_gauge_edge t edge = Inr ts" "mapE (raw_gauge_edge t) edges = Inr rest"
      "triples = ts # rest" by (auto simp: bindE_Inr_iff)
    have "(i, j, d) \<in> set ts \<longleftrightarrow> i \<noteq> j \<and> edge_ends edge = (i, j)
        \<and> d = subtract_shift (raw_image_shift edge) (image_shift (edge_key edge))"
      using ts(1) raw_gauge_edge_ends[of edge t] assms(1) Cons.prems(2)
      by (auto simp: Let_def edge_ends_def split: if_splits)
    with Cons.IH[OF ts(2)] Cons.prems(2) ts(3) show ?case by auto
  qed simp
  with assms(2) show ?thesis by blast
qed

lemma mapE_Inl: "mapE f xs = Inl e \<Longrightarrow> \<exists>x \<in> set xs. f x = Inl e"
  by (induction xs) (auto simp: bindE_Inl_iff)

lemma raw_gauge_edges_error:
  assumes "ends_in_vertices t" and "mapE (raw_gauge_edge t) (topology_edges t) = Inl e"
  shows "(\<exists>m. e = PrimitiveRingInputError m) \<and> \<not> raw_gauge_of t g"
proof -
  from mapE_Inl[OF assms(2)] obtain edge where edge: "edge \<in> set (topology_edges t)" "raw_gauge_edge t edge = Inl e"
    by blast
  let ?delta = "subtract_shift (raw_image_shift edge) (image_shift (edge_key edge))"
  from edge(2) raw_gauge_edge_ends[of edge t] assms(1) edge(1)
  have "vertex_i (edge_key edge) = vertex_j (edge_key edge)" "?delta \<noteq> zero_shift" "\<exists>m. e = PrimitiveRingInputError m"
    by (auto simp: Let_def split: if_splits)
  moreover from this(1) have "regauge_edge g edge = edge \<longleftrightarrow> ?delta = zero_shift"
    by (cases "g (vertex_i (edge_key edge))") (simp add: regauge_edge_same)
  ultimately show ?thesis using edge(1) unfolding raw_gauge_of_def by blast
qed

lemma raw_gauge_self:
  assumes "ends_in_vertices t" and "mapE (raw_gauge_edge t) (topology_edges t) = Inr triples"
    and "edge \<in> set (topology_edges t)" and "edge_ends edge = (i, i)"
  shows "subtract_shift (raw_image_shift edge) (image_shift (edge_key edge)) = zero_shift"
proof -
  from assms(2,3) obtain ts where "raw_gauge_edge t edge = Inr ts"
    by (auto simp: mapE_Inr_iff list_all2_conv_all_nth in_set_conv_nth)
  with raw_gauge_edge_ends[of edge t] assms(1,3,4) show ?thesis
    by (auto simp: Let_def edge_ends_def split: if_splits)
qed

lemma gauge_follows:
  assumes "\<And>i j d. (i, j, d) \<in> set es \<Longrightarrow> d = subtract_shift (g j) (g i)"
  shows "follows add_shift (sort_adjacency (directed_adjacency negate_shift vs es))
    (\<lambda>r v a. a = subtract_shift (g v) (g r))"
  unfolding follows_def
proof (intro allI impI)
  fix r v a ns w l
  assume a: "a = subtract_shift (g v) (g r)"
    and "map_of (sort_adjacency (directed_adjacency negate_shift vs es)) v = Some ns" "(w, l) \<in> set ns"
  then have "(w, l) \<in> set (neighbours_of negate_shift es v)"
    by (auto simp: map_of_sort_adjacency map_of_directed_adjacency split: if_splits)
  then have "l = subtract_shift (g w) (g v)"
    unfolding in_neighbours_of
  proof (clarify, elim disjE conjE)
    fix i j d assume "(i, j, d) \<in> set es" "j = v" "w = i" "l = negate_shift d"
    moreover from this(1,2,3) assms have "d = subtract_shift (g v) (g w)" by blast
    ultimately show "l = subtract_shift (g w) (g v)" by (cases "g v"; cases "g w") simp
  qed (use assms in auto)
  with a show "add_shift a l = subtract_shift (g w) (g r)"
    by (cases "g v"; cases "g w"; cases "g r") auto
qed

lemma raw_gauge_decides:
  assumes "ends_in_vertices t"
  shows "case framework_vertex_raw_gauge t of
      Inr gauge \<Rightarrow> set (vertex_atoms t) \<subseteq> dom gauge \<and> raw_gauge_of t (\<lambda>v. the (gauge v))
    | Inl e \<Rightarrow> (\<exists>m. e = PrimitiveRingInputError m) \<and> \<not> (\<exists>g. raw_gauge_of t g)"
proof (cases "mapE (raw_gauge_edge t) (topology_edges t)")
  case (Inl e)
  with raw_gauge_edges_error[OF assms Inl] show ?thesis by (simp add: framework_vertex_raw_gauge_def)
next
  case (Inr triples)
  let ?es = "concat triples" and ?vs = "vertex_atoms t"
  let ?adj = "sort_adjacency (directed_adjacency negate_shift ?vs ?es)"
  have body: "framework_vertex_raw_gauge t = label_search add_shift gauge_clash zero_shift ?adj (sorted_set ?vs)"
    by (simp add: framework_vertex_raw_gauge_def Inr)
  note triples = raw_gauge_triples[OF assms Inr]
  have within: "within ?vs ?es" using triples assms by fastforce
  note closed = neighbours_within[OF within, of negate_shift]
  have roots: "set (sorted_set ?vs) \<subseteq> dom (map_of ?adj)"
    by (auto simp: map_of_sort_adjacency map_of_directed_adjacency)
  show ?thesis
  proof (cases "framework_vertex_raw_gauge t")
    case (Inl e)
    have "\<exists>m. e = PrimitiveRingInputError m"
      using label_search_error[OF Inl[unfolded body] roots] closed by (auto simp: gauge_clash_def split: if_splits)
    moreover have False if g: "raw_gauge_of t g" for g
    proof -
      have "d = subtract_shift (g j) (g i)" if "(i, j, d) \<in> set ?es" for i j d
        using that triples g by (auto simp: raw_gauge_of_def regauge_edge_same edge_ends_def)
      note follows = gauge_follows[of ?es g ?vs, OF this]
      have "subtract_shift (g r) (g r) = zero_shift" for r by (cases "g r") simp
      with sorted_directed.label_search_succeeds[OF closed roots follows, where clash = gauge_clash and root_label = zero_shift]
      show False using Inl body by (auto simp: gauge_clash_def)
    qed
    ultimately show ?thesis using Inl by auto
  next
    case (Inr gauge)
    have "\<forall>r \<in> set (sorted_set ?vs). True" by simp
    from sorted_directed.label_search_result[OF Inr[unfolded body], of "\<lambda>_ _ _. True"] obtain origin where
      result: "search_result add_shift gauge_clash ?adj (\<lambda>_ _ _. True) origin gauge"
      and dom: "set ?vs \<subseteq> dom gauge" by (auto simp: follows_def)
    have "regauge_edge (\<lambda>v. the (gauge v)) edge = edge" if edge: "edge \<in> set (topology_edges t)" for edge
    proof -
      obtain i j where ends: "edge_ends edge = (i, j)" by (cases "edge_ends edge")
      let ?d = "subtract_shift (raw_image_shift edge) (image_shift (edge_key edge))"
      from edge assms ends have ij: "i \<in> set ?vs" "j \<in> set ?vs" by auto
      then obtain a where a: "gauge i = Some a" using dom by blast
      have "?d = subtract_shift (the (gauge j)) (the (gauge i))"
      proof (cases "i = j")
        case True
        with raw_gauge_self[OF assms \<open>mapE _ _ = _\<close> edge] ends show ?thesis by (cases "the (gauge j)") simp
      next
        case False
        with triples edge ends have "(i, j, ?d) \<in> set ?es" by blast
        then have "(j, ?d) \<in> set (sort (neighbours_of negate_shift ?es i))" by (auto simp: in_neighbours_of)
        moreover have "map_of ?adj i = Some (sort (neighbours_of negate_shift ?es i))"
          using ij(1) by (simp add: map_of_sort_adjacency map_of_directed_adjacency)
        ultimately obtain b where "gauge j = Some b" "b = add_shift a ?d \<or> gauge_clash b (add_shift a ?d) = None"
          using search_result_edge(2)[OF result a] by blast
        then have "gauge j = Some (add_shift a ?d)" by (auto simp: gauge_clash_def split: if_splits)
        then show ?thesis using a by (cases a; cases "?d") simp
      qed
      with ends show ?thesis by (simp add: regauge_edge_same edge_ends_def)
    qed
    with Inr dom show ?thesis by (simp add: raw_gauge_of_def)
  qed
qed

section \<open>Walks of atoms\<close>

text \<open>\<open>atom_walk u steps\<close> starts at \<open>u\<close> and moves to the named atom by the named shift at every step.\<close>

fun atom_walk :: "lifted_atom \<Rightarrow> (nat \<times> shift) list \<Rightarrow> lifted_atom list" where
  "atom_walk u [] = [u]"
| "atom_walk u ((a, d) # steps) = u # atom_walk (LiftedAtomRef a (add_shift (atom_image u) d)) steps"

lemma atom_walk_nonempty [simp]: "atom_walk u steps \<noteq> []"
  by (cases "(u, steps)" rule: atom_walk.cases) auto

lemma hd_atom_walk [simp]: "hd (atom_walk u steps) = u"
  by (cases "(u, steps)" rule: atom_walk.cases) auto

lemma length_atom_walk [simp]: "length (atom_walk u steps) = length steps + 1"
  by (induction u steps rule: atom_walk.induct) auto

lemma atom_walk_append:
  "atom_walk u (xs @ ys) = atom_walk u xs @ tl (atom_walk (last (atom_walk u xs)) ys)"
proof (induction u xs rule: atom_walk.induct)
  case (1 u)
  then show ?case by (cases "atom_walk u ys") (use hd_atom_walk[of u ys] in auto)
qed auto

lemma last_atom_walk:
  "last (atom_walk u steps) = LiftedAtomRef (last (atom_ref u # map fst steps))
     (add_shift (atom_image u) (sum_shifts (map snd steps)))"
proof (induction u steps rule: atom_walk.induct)
  case (1 u)
  show ?case by (cases u) (simp add: sum_shifts_def)
next
  case (2 u a d steps)
  then show ?case by (simp add: add_shift_assoc)
qed

lemma nth_atom_walk_length: "atom_walk u (xs @ ys) ! length xs = last (atom_walk u xs)"
  by (simp add: atom_walk_append nth_append last_conv_nth)

lemma atom_walk_step:
  "k < length steps \<Longrightarrow> atom_walk u steps ! (k + 1) = LiftedAtomRef (fst (steps ! k))
     (add_shift (atom_image (atom_walk u steps ! k)) (snd (steps ! k)))"
proof (induction u steps arbitrary: k rule: atom_walk.induct)
  case (2 u a d steps)
  then show ?case by (cases k; cases steps) auto
qed simp

lemma tl_atom_walk: "tl (atom_walk (LiftedAtomRef a s) steps) = tl (atom_walk (LiftedAtomRef b s) steps)"
  by (cases steps) auto

lemma atom_walk_Cons: "atom_walk u steps = u # tl (atom_walk u steps)"
  using hd_atom_walk[of u steps] by (metis atom_walk_nonempty list.collapse)

lemma extend_segment_zip:
  "length atoms = length deltas \<Longrightarrow>
   extend_segment cell atoms deltas = Inr (tl (atom_walk (LiftedAtomRef a cell) (zip atoms deltas)))"
proof (induction cell atoms deltas arbitrary: a rule: extend_segment.induct)
  case (2 cell b atoms delta deltas)
  from 2(2) 2(1)[of b] show ?case
    by (simp flip: atom_walk_Cons)
qed auto

section \<open>Expansion\<close>

definition edge_wellformed :: "framework_edge_path \<Rightarrow> bool" where
  "edge_wellformed edge \<longleftrightarrow> atomic_path_indices edge \<noteq> []
     \<and> length (atomic_edge_image_shifts edge) = length (atomic_path_indices edge) - 1
     \<and> hd (atomic_path_indices edge) = vertex_i (edge_key edge)
     \<and> last (atomic_path_indices edge) = vertex_j (edge_key edge)
     \<and> sum_shifts (atomic_edge_image_shifts edge) = raw_image_shift edge"

text \<open>The atomic steps along one oriented edge.\<close>

definition edge_atom_steps :: "oriented_edge_path \<Rightarrow> (nat \<times> shift) list" where
  "edge_atom_steps edge = zip (tl (oriented_atomic_path edge)) (oriented_atomic_shifts edge)"

lemma oriented_wellformed:
  fixes d assumes "edge_wellformed edge"
  defines "e \<equiv> oriented edge d"
  shows "oriented_atomic_path e \<noteq> []" and "hd (oriented_atomic_path e) = source_vertex e"
    and "last (oriented_atomic_path e) = target_vertex e"
    and "length (oriented_atomic_shifts e) = length (oriented_atomic_path e) - 1"
    and "sum_shifts (oriented_atomic_shifts e) = oriented_raw_image_shift e"
  using assms(1) unfolding e_def edge_wellformed_def
  by (cases d; simp add: oriented_def oriented_atomic_path_def source_vertex_def target_vertex_def
      oriented_atomic_shifts_def oriented_raw_image_shift_def hd_rev last_rev sum_shifts_reverse)+

lemma edge_atom_steps_wellformed:
  fixes d assumes "edge_wellformed edge"
  defines "e \<equiv> oriented edge d"
  shows "map fst (edge_atom_steps e) = tl (oriented_atomic_path e)"
    and "map snd (edge_atom_steps e) = oriented_atomic_shifts e"
  using oriented_wellformed(4)[OF assms(1), of d] by (simp_all add: edge_atom_steps_def e_def)

lemma atomic_segment_wellformed:
  assumes "edge_wellformed edge"
  shows "atomic_segment (oriented edge d) s =
    Inr (atom_walk (LiftedAtomRef (source_vertex (oriented edge d)) s) (edge_atom_steps (oriented edge d)))"
proof -
  let ?e = "oriented edge d"
  note facts = oriented_wellformed[OF assms, of d]
  have "extend_segment s (tl (oriented_atomic_path ?e)) (oriented_atomic_shifts ?e)
      = Inr (tl (atom_walk (LiftedAtomRef (source_vertex ?e) s) (edge_atom_steps ?e)))"
    unfolding edge_atom_steps_def by (rule extend_segment_zip) (use facts(4) in simp)
  moreover have "nthE (oriented_atomic_path ?e) 0 = Inr (source_vertex ?e)"
    using facts(1,2) by (simp add: nthE_def hd_conv_nth)
  ultimately show ?thesis by (simp add: atomic_segment_def flip: atom_walk_Cons)
qed

text \<open>Where a framework vertex lies among the atoms.\<close>

definition raw_vertex :: "(nat \<Rightarrow> shift) \<Rightarrow> lifted_vertex \<Rightarrow> lifted_atom" where
  "raw_vertex g v = LiftedAtomRef (atom_index v) (add_shift (vertex_image v) (g (atom_index v)))"

definition step_edge_path :: "framework_topology \<Rightarrow> ring_step \<Rightarrow> oriented_edge_path" where
  "step_edge_path t step = oriented (topology_edges t ! step_edge step) (step_orientation step)"

definition ring_atom_steps :: "framework_topology \<Rightarrow> ring_step list \<Rightarrow> (nat \<times> shift) list" where
  "ring_atom_steps t steps = concat (map (\<lambda>step. edge_atom_steps (step_edge_path t step)) steps)"

lemma leads_to_raw:
  assumes "leads_to (map edge_key (topology_edges t)) v step w" and "raw_gauge_of t g"
    and "\<forall>edge \<in> set (topology_edges t). edge_wellformed edge"
  shows "source_vertex (step_edge_path t step) = atom_index v"
    and "last (atom_walk (raw_vertex g v) (edge_atom_steps (step_edge_path t step))) = raw_vertex g w"
proof -
  let ?edge = "topology_edges t ! step_edge step" and ?e = "step_edge_path t step"
  from assms(1) have range: "step_edge step < length (topology_edges t)" by (simp add: leads_to_def)
  then have edge: "?edge \<in> set (topology_edges t)" by simp
  with assms(3) have wf: "edge_wellformed ?edge" by blast
  note facts = oriented_wellformed[OF wf, of "step_orientation step", folded step_edge_path_def]
  note steps = edge_atom_steps_wellformed[OF wf, of "step_orientation step", folded step_edge_path_def]
  have raw: "subtract_shift (raw_image_shift ?edge) (image_shift (edge_key ?edge))
      = subtract_shift (g (vertex_j (edge_key ?edge))) (g (vertex_i (edge_key ?edge)))"
    using assms(2) edge by (simp add: raw_gauge_of_def flip: regauge_edge_same)
  show src: "source_vertex ?e = atom_index v"
    using assms(1) range
    by (auto simp: leads_to_def Let_def step_edge_path_def oriented_def source_vertex_def split: if_splits)
  have "last (atom_index v # map fst (edge_atom_steps ?e)) = target_vertex ?e"
    using facts(1-3) src unfolding steps by (cases "oriented_atomic_path ?e") auto
  then have last: "last (atom_walk (raw_vertex g v) (edge_atom_steps ?e)) = LiftedAtomRef (target_vertex ?e)
      (add_shift (add_shift (vertex_image v) (g (atom_index v))) (oriented_raw_image_shift ?e))"
    by (simp add: last_atom_walk raw_vertex_def steps(2) facts(5))
  obtain a b c where gi: "g (vertex_i (edge_key ?edge)) = (a, b, c)" by (cases "g (vertex_i (edge_key ?edge))")
  obtain a' b' c' where gj: "g (vertex_j (edge_key ?edge)) = (a', b', c')" by (cases "g (vertex_j (edge_key ?edge))")
  obtain x y z where v: "vertex_image v = (x, y, z)" by (cases "vertex_image v")
  obtain r1 r2 r3 where r: "raw_image_shift ?edge = (r1, r2, r3)" by (cases "raw_image_shift ?edge")
  obtain i1 i2 i3 where i: "image_shift (edge_key ?edge) = (i1, i2, i3)" by (cases "image_shift (edge_key ?edge)")
  show "last (atom_walk (raw_vertex g v) (edge_atom_steps ?e)) = raw_vertex g w"
    unfolding last using assms(1) range raw
    by (auto simp: leads_to_def Let_def step_edge_path_def oriented_def target_vertex_def oriented_raw_image_shift_def
        raw_vertex_def gi gj v r i split: if_splits)
qed

lemma gauge_at_dom: "a \<in> dom gauge \<Longrightarrow> gauge_at gauge a = Inr (the (gauge a))"
  by (auto simp: gauge_at_def)

lemma expand_step_Inr:
  assumes gauge: "raw_gauge_of t (\<lambda>v. the (gauge v))" "set (vertex_atoms t) \<subseteq> dom gauge"
    and wf: "\<forall>edge \<in> set (topology_edges t). edge_wellformed edge"
    and step: "leads_to (map edge_key (topology_edges t)) source step target"
    and target: "(k + 1) mod ring_size ring < length (vertex_walk ring)"
      "vertex_walk ring ! ((k + 1) mod ring_size ring) = target"
    and vertices: "atom_index source \<in> set (vertex_atoms t)" "atom_index target \<in> set (vertex_atoms t)"
    and walk: "w \<noteq> [] \<Longrightarrow> last w = raw_vertex (\<lambda>v. the (gauge v)) source"
  defines "segment \<equiv> atom_walk (raw_vertex (\<lambda>v. the (gauge v)) source) (edge_atom_steps (step_edge_path t step))"
  shows "expand_step t gauge ring (k, step, source) w = Inr (if w = [] then segment else w @ tl segment)"
proof -
  let ?g = "\<lambda>v. the (gauge v)" and ?path = "topology_edges t ! step_edge step"
  have range: "step_edge step < length (topology_edges t)" using step by (simp add: leads_to_def)
  then have wf': "edge_wellformed ?path" using wf by simp
  note raw = leads_to_raw[OF step gauge(1) wf]
  have "atomic_segment (step_edge_path t step) (add_shift (vertex_image source) (?g (atom_index source))) = Inr segment"
    using atomic_segment_wellformed[OF wf', of "step_orientation step"] raw(1)
    by (simp add: segment_def raw_vertex_def step_edge_path_def)
  moreover have "last segment = LiftedAtomRef (atom_index target) (add_shift (vertex_image target) (?g (atom_index target)))"
    using raw(2) by (simp add: segment_def raw_vertex_def)
  moreover have "gauge_at gauge (atom_index source) = Inr (?g (atom_index source))"
    "gauge_at gauge (atom_index target) = Inr (?g (atom_index target))"
    using vertices gauge(2) by (auto intro: gauge_at_dom)
  moreover have "join_segment w segment = Inr (if w = [] then segment else w @ tl segment)"
    using walk by (simp add: join_segment_def segment_def)
  moreover have "nthE (topology_edges t) (step_edge step) = Inr ?path"
    "nthE (vertex_walk ring) ((k + 1) mod ring_size ring) = Inr target"
    using range target by (simp_all add: nthE_def)
  ultimately show ?thesis using raw(1) by (simp add: expand_step_def step_edge_path_def)
qed

lemma ring_atom_steps_snoc:
  "ring_atom_steps t (steps @ [s]) = ring_atom_steps t steps @ edge_atom_steps (step_edge_path t s)"
  by (simp add: ring_atom_steps_def)

lemma expand_loop:
  assumes gauge: "raw_gauge_of t (\<lambda>v. the (gauge v))" "set (vertex_atoms t) \<subseteq> dom gauge"
    and wf: "\<forall>edge \<in> set (topology_edges t). edge_wellformed edge"
    and ring: "ring_coherent (map edge_key (topology_edges t)) (vertex_atoms t) ring"
      "ring_size ring = length (ring_steps ring)"
    and k: "k \<le> length (ring_steps ring)" "ring_steps ring \<noteq> []"
  defines "w j \<equiv> atom_walk (raw_vertex (\<lambda>v. the (gauge v)) (vertex_walk ring ! 0))
      (ring_atom_steps t (take j (ring_steps ring)))"
  shows "foldE (expand_step t gauge ring) (take k (List.enumerate 0 (zip (ring_steps ring) (vertex_walk ring)))) []
      = Inr (if k = 0 then [] else w k)
    \<and> last (w k) = raw_vertex (\<lambda>v. the (gauge v)) (vertex_walk ring ! (k mod length (ring_steps ring)))"
  using k(1)
proof (induction k)
  case 0
  then show ?case by (simp add: w_def ring_atom_steps_def)
next
  case (Suc k)
  let ?n = "length (ring_steps ring)" and ?vs = "vertex_walk ring" and ?g = "\<lambda>v. the (gauge v)"
  let ?L = "List.enumerate 0 (zip (ring_steps ring) ?vs)"
  from ring have walk: "length ?vs = ?n" and coherent: "\<And>i. i < ?n \<Longrightarrow> (i + 1) mod ?n < ?n \<and>
      leads_to (map edge_key (topology_edges t)) (?vs ! i) (ring_steps ring ! i) (?vs ! ((i + 1) mod ?n))"
    and atoms: "\<And>i. i < ?n \<Longrightarrow> atom_index (?vs ! i) \<in> set (vertex_atoms t)"
    by (auto simp: ring_coherent_def walk_coherent_def vertex_ids_def subset_iff)
  from Suc.prems have kn: "k < ?n" by simp
  with Suc have IH: "foldE (expand_step t gauge ring) (take k ?L) [] = Inr (if k = 0 then [] else w k)"
    "last (w k) = raw_vertex ?g (?vs ! k)" by simp_all
  have split: "take (Suc k) ?L = take k ?L @ [(k, ring_steps ring ! k, ?vs ! k)]"
    using kn walk by (simp add: take_Suc_conv_app_nth nth_enumerate_eq)
  let ?target = "?vs ! ((k + 1) mod ?n)" and ?step = "ring_steps ring ! k"
  note facts = coherent[OF kn] atoms[OF kn] atoms[of "(k + 1) mod ?n"]
  have take: "ring_atom_steps t (take (Suc k) (ring_steps ring)) =
      ring_atom_steps t (take k (ring_steps ring)) @ edge_atom_steps (step_edge_path t ?step)"
    using kn by (simp add: take_Suc_conv_app_nth ring_atom_steps_snoc)
  have ext: "w (Suc k) = w k @ tl (atom_walk (raw_vertex ?g (?vs ! k)) (edge_atom_steps (step_edge_path t ?step)))"
    using IH(2) unfolding w_def take by (simp add: atom_walk_append)
  have first: "w (Suc k) = atom_walk (raw_vertex ?g (?vs ! k)) (edge_atom_steps (step_edge_path t ?step))" if "k = 0"
    using that unfolding w_def take by (simp add: ring_atom_steps_def)
  have "expand_step t gauge ring (k, ?step, ?vs ! k) (if k = 0 then [] else w k) = Inr (w (Suc k))"
    by (subst expand_step_Inr[OF gauge wf conjunct2[OF facts(1)]])
      (use facts ring(2) walk IH(2) first ext in \<open>auto simp: w_def\<close>)
  moreover have "last (w (Suc k)) = raw_vertex ?g ?target"
  proof -
    have "last (xs @ tl ys) = last ys" if "xs \<noteq> []" "ys \<noteq> []" "last xs = hd ys" for xs ys :: "lifted_atom list"
      using that by (cases ys) auto
    from this[of "w k"] leads_to_raw(2)[OF conjunct2[OF facts(1)] gauge(1) wf] IH(2) show ?thesis
      unfolding ext by (simp add: w_def)
  qed
  ultimately show ?case unfolding split by (simp add: IH(1))
qed

lemma atomic_expansion_correct:
  assumes gauge: "framework_vertex_raw_gauge t = Inr gauge" and ends: "ends_in_vertices t"
    and wf: "\<forall>edge \<in> set (topology_edges t). edge_wellformed edge"
    and ring: "ring_coherent (map edge_key (topology_edges t)) (vertex_atoms t) ring"
      "ring_size ring = length (ring_steps ring)" "ring_steps ring \<noteq> []"
  defines "g \<equiv> \<lambda>v. the (gauge v)"
  defines "w \<equiv> atom_walk (raw_vertex g (vertex_walk ring ! 0)) (ring_atom_steps t (ring_steps ring))"
  shows "expand_primitive_ring_atomic_walk t ring close = Inr (if close then w else butlast w)"
    and "last w = hd w"
    and "\<And>k. k < length (ring_steps ring) \<Longrightarrow>
      w ! length (ring_atom_steps t (take k (ring_steps ring))) = raw_vertex g (vertex_walk ring ! k)"
proof -
  let ?n = "length (ring_steps ring)" and ?vs = "vertex_walk ring"
  from raw_gauge_decides[OF ends] gauge
  have g: "raw_gauge_of t (\<lambda>v. the (gauge v))" "set (vertex_atoms t) \<subseteq> dom gauge" by simp_all
  note loop = expand_loop[OF g wf ring(1,2) _ ring(3), folded g_def]
  have len: "length ?vs = ?n" using ring(1) by (simp add: ring_coherent_def walk_coherent_def)
  have range: "\<forall>step \<in> set (ring_steps ring). step_edge step < length (topology_edges t)"
    using ring(1) by (simp add: ring_coherent_def)
  have run: "foldE (expand_step t gauge ring) (List.enumerate 0 (zip (ring_steps ring) ?vs)) [] = Inr w"
    using loop[of ?n] len ring(3) by (simp add: w_def)
  have hd: "hd w = raw_vertex g (?vs ! 0)" by (simp add: w_def)
  show last: "last w = hd w" using loop[of ?n] hd by (simp add: w_def)
  have "in_range t (ring_steps ring)" using range by (simp add: in_range_def)
  then have "step_tokens t (ring_steps ring) = Inr (map (token_of t) (ring_steps ring))" by (rule step_tokens_in_range)
  moreover have "map (token_of t) (ring_steps ring) = edge_tokens (ring_key ring)"
    using ring(1) range by (auto simp: ring_coherent_def token_of_def cong: map_cong)
  moreover have "\<not> (\<exists>step \<in> set (ring_steps ring). step_edge step \<ge> length (topology_edges t))"
    using range by auto
  moreover have "w \<noteq> []" by (simp add: w_def)
  ultimately show "expand_primitive_ring_atomic_walk t ring close = Inr (if close then w else butlast w)"
    by (simp add: expand_primitive_ring_atomic_walk_def gauge run len last)
  fix k assume k: "k < ?n"
  have "ring_atom_steps t (ring_steps ring) =
      ring_atom_steps t (take k (ring_steps ring)) @ ring_atom_steps t (drop k (ring_steps ring))"
    by (simp add: ring_atom_steps_def flip: concat_append map_append)
  then show "w ! length (ring_atom_steps t (take k (ring_steps ring))) = raw_vertex g (?vs ! k)"
    using loop[of k] k by (simp add: w_def nth_atom_walk_length)
qed

end
