(* ===== verification/Ring_Expansion.thy ===== *)
theory Ring_Expansion
  imports Framework_Topology Ring_Gauge
begin

text \<open>
  How the parts fit together: a framework built by \<open>build_framework_topology\<close> meets every
  precondition of the ring searches, its raw gauge always exists, and every ring of a catalog over it
  expands into a closed walk along bonds of the atomic graph.
\<close>

section \<open>Built frameworks\<close>

lemma make_topology_same: "make_topology s = Inr t \<Longrightarrow> t = s"
  by (simp add: make_topology_def bindE_Inr_iff)

lemma built_topology:
  assumes "build_framework_topology nsym state mapping rules limits = Inr t"
  shows "make_topology t = Inr t"
proof -
  have "\<exists>s. make_topology s = Inr t"
    using assms unfolding build_framework_topology_def bindE_Inr_iff
    by (auto simp: bindE_Inr_iff split: option.splits)
  then show ?thesis using make_topology_same by metis
qed

lemma make_topology_facts:
  assumes "make_topology t = Inr t'"
  shows "ends_in_vertices t" and "distinct (map edge_key (topology_edges t))"
    and "sorted (map edge_key (topology_edges t))"
    and "sorted_wrt (<) (vertex_atoms t)" and "vertex_atoms t \<noteq> []"
proof -
  from assms have "foldE (\<lambda>edge _.
        bindE (guardE (fst (edge_ends edge) \<in> set (vertex_atoms t) \<and> snd (edge_ends edge) \<in> set (vertex_atoms t))
          (FrameworkTopologyError (Text ''Projected edge endpoint is not a framework vertex.''))) (\<lambda>_.
        guardE (shift_allowed (topology_pbc t) (image_shift (edge_key edge)))
          (FrameworkTopologyError (Text ''Projected shift is nonzero on a nonperiodic axis.''))))
        (topology_edges t) () = Inr ()"
    by (auto simp: make_topology_def bindE_Inr_iff check_edge_keys_def Let_def)
  then show "ends_in_vertices t" unfolding foldE_checks by (simp add: bindE_Inr_iff guardE_Inr_iff)
qed (use assms in \<open>auto simp: make_topology_def bindE_Inr_iff check_edge_keys_def check_vertices_def
    guardE_Inr_iff Let_def\<close>)

lemma normalized_edge:
  assumes "normalize_edge nsym gauge edge = Inr edge'"
  shows "edge_wellformed edge'" and "regauge_edge (\<lambda>v. the (gauge v)) edge' = edge'"
    and "atomic_path_indices edge' = atomic_path_indices edge"
    and "atomic_edge_image_shifts edge' = atomic_edge_image_shifts edge"
    and "vertex_i (edge_key edge') = vertex_j (edge_key edge') \<Longrightarrow> image_shift (edge_key edge') \<noteq> zero_shift"
proof -
  let ?k = "edge_key edge"
  from assms obtain shift key where
    shift: "regauge_shift gauge (vertex_i ?k) (vertex_j ?k) (raw_image_shift edge) = Inr shift"
    and key: "make_edge_key (vertex_i ?k) (vertex_j ?k) shift (internal_linker_indices ?k)
               (internal_linker_image_offsets ?k) (rule_id ?k) = Inr key"
    and path: "make_edge_path nsym key (atomic_path_indices edge) (atomic_edge_image_shifts edge)
        (internal_linker_atomic_numbers edge) (raw_image_shift edge) (edge_kind edge) = Inr edge'"
    by (auto simp: normalize_edge_def Let_def bindE_Inr_iff)
  from path have fields: "edge_key edge' = key" "raw_image_shift edge' = raw_image_shift edge"
    "atomic_path_indices edge' = atomic_path_indices edge"
    "atomic_edge_image_shifts edge' = atomic_edge_image_shifts edge" "2 \<le> length (atomic_path_indices edge)"
    "length (atomic_edge_image_shifts edge) = length (atomic_path_indices edge) - 1"
    "hd (atomic_path_indices edge) = vertex_i key" "last (atomic_path_indices edge) = vertex_j key"
    "sum_shifts (atomic_edge_image_shifts edge) = raw_image_shift edge"
    by (auto simp: make_edge_path_def bindE_Inr_iff split: if_splits)
  then show "atomic_path_indices edge' = atomic_path_indices edge"
    "atomic_edge_image_shifts edge' = atomic_edge_image_shifts edge" by simp_all
  show "edge_wellformed edge'" using fields by (auto simp: edge_wellformed_def)
  have key': "vertex_i key = vertex_i ?k" "vertex_j key = vertex_j ?k" "image_shift key = shift"
    "\<not> (vertex_i ?k = vertex_j ?k \<and> shift = zero_shift)"
    using key by (auto simp: make_edge_key_Inr_iff)
  then show "vertex_i (edge_key edge') = vertex_j (edge_key edge') \<Longrightarrow> image_shift (edge_key edge') \<noteq> zero_shift"
    using fields(1) by auto
  obtain a b where ab: "gauge (vertex_i ?k) = Some a" "gauge (vertex_j ?k) = Some b"
    "shift = subtract_shift (add_shift (raw_image_shift edge) a) b"
    using shift by (auto simp: regauge_shift_def split: option.splits)
  then show "regauge_edge (\<lambda>v. the (gauge v)) edge' = edge'"
    unfolding regauge_edge_same fields(1,2) key'
    by (cases a; cases b; cases "raw_image_shift edge") simp
qed

lemma normalized_edges:
  assumes "normalize_framework_gauge nsym vs provisional = Inr edges"
  shows "\<exists>gauge. \<forall>edge' \<in> set edges. \<exists>edge \<in> set provisional. normalize_edge nsym gauge edge = Inr edge'"
proof -
  from assms obtain gauge normalized where "mapE (normalize_edge nsym gauge) provisional = Inr normalized"
    "edges = sort_key edge_key normalized"
    by (auto simp: normalize_framework_gauge_def bindE_Inr_iff)
  then have "\<forall>edge' \<in> set edges. \<exists>edge \<in> set provisional. normalize_edge nsym gauge edge = Inr edge'"
    by (fastforce simp: mapE_Inr_iff list_all2_conv_all_nth in_set_conv_nth)
  then show ?thesis by blast
qed

lemma built_edges:
  assumes "build_framework_topology nsym state mapping rules limits = Inr t"
  shows "\<exists>roles search gauge. resolve_limits state mapping limits = Inr roles
    \<and> project_edges nsym state mapping limits roles = Inr (search, topology_edges t)
    \<and> (\<forall>edge' \<in> set (topology_edges t). \<exists>edge \<in> snd ` set (accepted search). normalize_edge nsym gauge edge = Inr edge')"
proof -
  from build_project_edges[OF assms] obtain roles search where
    *: "resolve_limits state mapping limits = Inr roles"
      "project_edges nsym state mapping limits roles = Inr (search, topology_edges t)" by blast
  then have "normalize_framework_gauge nsym (vertex_atom_indices roles)
      (sort_key provisional_key (map snd (accepted search))) = Inr (topology_edges t)"
    by (auto simp: project_edges_def bindE_Inr_iff)
  from normalized_edges[OF this] * show ?thesis by (simp; blast)
qed

lemma built_topology_ready:
  assumes "build_framework_topology nsym state mapping rules limits = Inr t"
  shows "half_edge_adjacency t = Inr (map (\<lambda>v. (v, half_edges_at t v)) (vertex_atoms t))"
    and "ends_in_vertices t" and "distinct (map edge_key (topology_edges t))" and "proper_edges t"
    and "sorted_wrt (<) (vertex_atoms t)" and "vertex_atoms t \<noteq> []"
    and "\<forall>edge \<in> set (topology_edges t). edge_wellformed edge" and "\<exists>g. raw_gauge_of t g"
proof -
  note facts = make_topology_facts[OF built_topology[OF assms]]
  show "ends_in_vertices t" "distinct (map edge_key (topology_edges t))" "sorted_wrt (<) (vertex_atoms t)"
    "vertex_atoms t \<noteq> []" by (fact facts)+
  then show "half_edge_adjacency t = Inr (map (\<lambda>v. (v, half_edges_at t v)) (vertex_atoms t))"
    by (simp add: half_edge_adjacency_def)
  from built_edges[OF assms] normalized_edge show "proper_edges t"
    "\<forall>edge \<in> set (topology_edges t). edge_wellformed edge" "\<exists>g. raw_gauge_of t g"
    unfolding proper_edges_def raw_gauge_of_def by metis+
qed

section \<open>The rings of a catalog are coherent\<close>

lemma ring_of_candidate_size:
  assumes "ring_of_candidate p = Inr r"
  shows "ring_size r = length (ring_steps r)" and "ring_steps r \<noteq> []"
proof -
  obtain i candidate where p: "p = (i, candidate)" by (cases p)
  from assms show "ring_size r = length (ring_steps r)" "ring_steps r \<noteq> []"
    unfolding p ring_of_candidate_def make_primitive_ring_def Let_def prod.case
    by (auto simp: bindE_Inr_iff guardE_Inr_iff)
qed

lemma mapE_member: "mapE f xs = Inr ys \<Longrightarrow> y \<in> set ys \<Longrightarrow> \<exists>x \<in> set xs. f x = Inr y"
  by (induction xs arbitrary: ys) (auto simp: bindE_Inr_iff)

lemma rings_of_candidates_sizes:
  assumes "rings_of_candidates candidates = Inr rs" and "r \<in> set rs"
  shows "ring_size r = length (ring_steps r) \<and> ring_steps r \<noteq> []"
proof -
  from assms(1) obtain ps where "mapE ring_of_candidate ps = Inr rs"
    by (auto simp: rings_of_candidates_def bindE_Inr_iff)
  from mapE_member[OF this assms(2)] obtain p where "ring_of_candidate p = Inr r" by blast
  then show ?thesis using ring_of_candidate_size by blast
qed

lemma made_catalog_coherent:
  assumes "make_catalog c = Inr c'" and "r \<in> set (rings c')"
  shows "r \<in> set (rings c)" and "ring_coherent (map searched_key (edge_searches c)) (catalog_vertices c) r"
  using assms unfolding make_catalog_Inr_iff catalog_valid_def by auto

lemma found_paths_record:
  assumes "found_paths t options i key bfs len st = Inr st'"
  shows "map searched_key (search_records st') = map searched_key (search_records st) @ [key]"
  using assms unfolding found_paths_def Let_def
  by (auto simp: bindE_Inr_iff add_record_def search_record_def split: prod.splits if_splits option.splits)

lemma removed_edge_step_record:
  assumes "removed_edge_step t adj options (i, edge) st = Inr st'"
  shows "map searched_key (search_records st') = map searched_key (search_records st) @ [edge_key edge]"
  using assms unfolding removed_edge_step_def Let_def prod.case
  by (auto simp: bindE_Inr_iff add_record_def search_record_def
      split: if_splits option.splits dest!: found_paths_record)

lemma removed_edge_records:
  "foldE (removed_edge_step t adj options) (List.enumerate n edges) st = Inr st' \<Longrightarrow>
   map searched_key (search_records st') = map searched_key (search_records st) @ map edge_key edges"
  by (induction edges arbitrary: n st) (auto simp: bindE_Inr_iff dest!: removed_edge_step_record)

lemma placeholder_keys: "map searched_key (placeholder_edge_searches t n) = map edge_key (topology_edges t)"
proof -
  have "map searched_key (placeholder_edge_searches t n) = map (edge_key \<circ> snd) (List.enumerate 0 (topology_edges t))"
    by (simp add: placeholder_edge_searches_def split_def)
  also have "\<dots> = map edge_key (map snd (List.enumerate 0 (topology_edges t)))" by (simp only: map_map)
  finally show ?thesis by simp
qed

lemma enumerated_catalog_made:
  assumes "enumerate_primitive_rings t options = Inr c"
  shows "\<exists>made. make_catalog made = Inr c \<and> map searched_key (edge_searches made) = map edge_key (topology_edges t)
    \<and> catalog_vertices made = vertex_atoms t
    \<and> (\<forall>r \<in> set (rings made). ring_size r = length (ring_steps r) \<and> ring_steps r \<noteq> [])"
proof (cases "search_method options = REMOVED_EDGE_SHORTEST")
  case True
  with assms obtain adj st where
    run: "foldE (removed_edge_step t adj options) (List.enumerate 0 (topology_edges t))
       \<lparr>removed_candidates = [], search_records = [], total_candidate_count = 0, global_limit_reached = False\<rparr> = Inr st"
    and catalog: "removed_edge_catalog t options st = Inr c"
    by (auto simp: enumerate_primitive_rings_def enumerate_removed_edge_shortest_def bindE_Inr_iff)
  from removed_edge_records[OF run] have keys: "map searched_key (search_records st) = map edge_key (topology_edges t)"
    by simp
  have same: "map searched_key (map (search_status_record rs) (search_records st)) = map edge_key (topology_edges t)" for rs
    unfolding keys[symmetric] by (simp add: search_status_record_def)
  from catalog obtain rs bv be counts where parts: "rings_of_candidates (removed_candidates st) = Inr rs"
    "incidence_of_rings t rs = Inr (bv, be)" "count_sizes rs = Inr counts"
    by (auto simp: removed_edge_catalog_def bindE_Inr_iff Let_def)
  have "\<exists>made. make_catalog made = Inr c \<and> rings made = rs
      \<and> edge_searches made = map (search_status_record rs) (search_records st) \<and> catalog_vertices made = vertex_atoms t"
    using catalog unfolding removed_edge_catalog_def parts bindE_simps Let_def prod.case
    by (intro exI conjI, assumption) simp_all
  with parts(1) obtain made where rs: "rings_of_candidates (removed_candidates st) = Inr rs" "rings made = rs"
    "edge_searches made = map (search_status_record rs) (search_records st)" "catalog_vertices made = vertex_atoms t"
    and made: "make_catalog made = Inr c" by blast
  with same rings_of_candidates_sizes[OF rs(1)] show ?thesis by (intro exI[of _ made]) simp
next
  case False
  with assms obtain candidates report n where
    catalog: "catalog_from_candidates t options candidates report n = Inr c"
    by (auto simp: enumerate_primitive_rings_def enumerate_shortest_path_pair_primitives_def bindE_Inr_iff Let_def)
  then obtain rs bv be counts where parts: "rings_of_candidates candidates = Inr rs"
    "incidence_of_rings t rs = Inr (bv, be)" "count_sizes rs = Inr counts"
    by (auto simp: catalog_from_candidates_def bindE_Inr_iff)
  have "\<exists>made. make_catalog made = Inr c \<and> rings made = rs
      \<and> edge_searches made = placeholder_edge_searches t n \<and> catalog_vertices made = vertex_atoms t"
    using catalog unfolding catalog_from_candidates_def parts bindE_simps prod.case
    by (intro exI conjI, assumption) simp_all
  with parts(1) obtain made where rs: "rings_of_candidates candidates = Inr rs" "rings made = rs"
    "edge_searches made = placeholder_edge_searches t n" "catalog_vertices made = vertex_atoms t"
    and made: "make_catalog made = Inr c" by blast
  with placeholder_keys rings_of_candidates_sizes[OF rs(1)] show ?thesis by (intro exI[of _ made]) simp
qed

lemma enumerated_ring_coherent:
  assumes "enumerate_primitive_rings t options = Inr c" and "r \<in> set (rings c)"
  shows "ring_coherent (map edge_key (topology_edges t)) (vertex_atoms t) r
    \<and> ring_size r = length (ring_steps r) \<and> ring_steps r \<noteq> []"
proof -
  from enumerated_catalog_made[OF assms(1)] obtain made where made: "make_catalog made = Inr c"
    "map searched_key (edge_searches made) = map edge_key (topology_edges t)" "catalog_vertices made = vertex_atoms t"
    "\<forall>r \<in> set (rings made). ring_size r = length (ring_steps r) \<and> ring_steps r \<noteq> []" by blast
  from made_catalog_coherent[OF made(1) assms(2)] made(2-4) show ?thesis by simp
qed

lemma enumerated_catalog_valid:
  assumes "enumerate_primitive_rings t options = Inr c"
  shows "catalog_valid c" and "map searched_key (edge_searches c) = map edge_key (topology_edges t)"
proof -
  from enumerated_catalog_made[OF assms] obtain made where made: "make_catalog made = Inr c"
    "map searched_key (edge_searches made) = map edge_key (topology_edges t)" by blast
  have "map set (map sorted_set xs) = map set xs" for xs :: "nat list list" by simp
  with made show "catalog_valid c" "map searched_key (edge_searches c) = map edge_key (topology_edges t)"
    unfolding make_catalog_Inr_iff catalog_valid_def by (simp_all del: map_map)
qed

section \<open>Steps along bonds\<close>

fun bonded :: "(nat \<times> (nat \<times> shift) list) list \<Rightarrow> nat \<Rightarrow> (nat \<times> shift) list \<Rightarrow> bool" where
  "bonded adj v [] \<longleftrightarrow> True"
| "bonded adj v (p # ps) \<longleftrightarrow> (\<exists>ns. map_of adj v = Some ns \<and> p \<in> set ns) \<and> bonded adj (fst p) ps"

lemma bonded_append:
  "bonded adj v (xs @ ys) \<longleftrightarrow> bonded adj v xs \<and> bonded adj (last (v # map fst xs)) ys"
  by (induction xs arbitrary: v) auto

definition undirected :: "(nat \<times> (nat \<times> shift) list) list \<Rightarrow> bool" where
  "undirected adj \<longleftrightarrow> (\<forall>v w d ns. map_of adj v = Some ns \<longrightarrow> (w, d) \<in> set ns \<longrightarrow>
     (\<exists>ms. map_of adj w = Some ms \<and> (v, negate_shift d) \<in> set ms))"

definition reverse_steps_from :: "nat \<Rightarrow> (nat \<times> shift) list \<Rightarrow> (nat \<times> shift) list" where
  "reverse_steps_from v ps = zip (tl (rev (v # map fst ps))) (map negate_shift (rev (map snd ps)))"

lemma reverse_steps_Cons: "reverse_steps_from v ((a, d) # ps) = reverse_steps_from a ps @ [(v, negate_shift d)]"
proof -
  have "tl (rev (v # a # map fst ps)) = tl (rev (a # map fst ps)) @ [v]"
    by (metis Nil_is_rev_conv list.distinct(1) rev.simps(2) tl_append2)
  then show ?thesis by (simp add: reverse_steps_from_def)
qed

lemma last_reverse_steps: "last (last (v # map fst ps) # map fst (reverse_steps_from v ps)) = v"
  by (cases ps) (auto simp: reverse_steps_Cons reverse_steps_from_def[of v "[]"])

lemma bonded_reverse:
  assumes "undirected adj" and "bonded adj v ps"
  shows "bonded adj (last (v # map fst ps)) (reverse_steps_from v ps)"
  using assms(2)
proof (induction ps arbitrary: v)
  case Nil
  then show ?case by (simp add: reverse_steps_from_def)
next
  case (Cons p ps)
  obtain a d where p: "p = (a, d)" by (cases p)
  from Cons.prems p obtain ns where "map_of adj v = Some ns" "(a, d) \<in> set ns" by auto
  with assms(1) have "\<exists>ms. map_of adj a = Some ms \<and> (v, negate_shift d) \<in> set ms"
    unfolding undirected_def by blast
  moreover have "last (v # map fst (p # ps)) = last (a # map fst ps)" by (simp add: p)
  ultimately show ?case
    using Cons.IH[of a] Cons.prems unfolding p by (simp add: reverse_steps_Cons bonded_append last_reverse_steps del: last.simps)
qed

lemma oriented_adjacency_undirected:
  assumes "oriented_adjacency state roles = Inr adj"
  shows "undirected adj"
proof -
  from oriented_adjacency_total[of state roles] assms obtain g where
    adj: "adj = sort_adjacency (directed_adjacency negate_shift (relevant_atoms roles)
      (regauge_edges g (relevant_edges state roles)))" by auto
  have within: "within (relevant_atoms roles) (regauge_edges g (relevant_edges state roles))"
    using relevant_within[where roles = roles and state = state] by (fastforce simp: regauge_edges_def)
  show ?thesis
    unfolding undirected_def
  proof (intro allI impI)
    fix v w d ns assume "map_of adj v = Some ns" "(w, d) \<in> set ns"
    then have "(w, d) \<in> set (neighbours_of negate_shift (regauge_edges g (relevant_edges state roles)) v)"
      by (auto simp: adj map_of_sort_adjacency map_of_directed_adjacency split: if_splits)
    then have "(v, negate_shift d) \<in> set (neighbours_of negate_shift (regauge_edges g (relevant_edges state roles)) w)"
      "w \<in> set (relevant_atoms roles)"
      using within unfolding in_neighbours_of by fastforce+
    then show "\<exists>ms. map_of adj w = Some ms \<and> (v, negate_shift d) \<in> set ms"
      by (simp add: adj map_of_sort_adjacency map_of_directed_adjacency)
  qed
qed

definition path_bonded :: "(nat \<times> (nat \<times> shift) list) list \<Rightarrow> nat list \<Rightarrow> shift list \<Rightarrow> bool" where
  "path_bonded adj path shifts \<longleftrightarrow> path \<noteq> [] \<and> length shifts = length path - 1
     \<and> bonded adj (hd path) (zip (tl path) shifts)"

lemma path_bonded_reverse:
  assumes "undirected adj" and "path_bonded adj path shifts"
  shows "path_bonded adj (rev path) (map negate_shift (rev shifts))"
proof -
  obtain v vs where path: "path = v # vs" using assms(2) by (cases path) (auto simp: path_bonded_def)
  with assms(2) have len: "length vs = length shifts" and chain: "bonded adj v (zip vs shifts)"
    by (simp_all add: path_bonded_def)
  then have maps: "map fst (zip vs shifts) = vs" "map snd (zip vs shifts) = shifts" by simp_all
  have "bonded adj (last (v # vs)) (zip (tl (rev (v # vs))) (map negate_shift (rev shifts)))"
    using bonded_reverse[OF assms(1) chain] by (simp only: maps reverse_steps_from_def)
  moreover have "hd (rev path) = last (v # vs)" by (simp only: path hd_rev)
  ultimately show ?thesis using len by (simp add: path_bonded_def path)
qed

lemma framework_path_bonded:
  assumes "framework_path ctx mapping source ps n s rule"
  shows "path_bonded (ctx_adjacency ctx) (source # map fst ps @ [n]) (map snd ps @ [s])"
proof -
  have "bonded (ctx_adjacency ctx) v ps" if "linker_chain ctx v ps" for v
    using that by (induction ps arbitrary: v) auto
  moreover from assms have "linker_chain ctx source ps" by (simp add: framework_path_def linker_walk_def)
  ultimately have "bonded (ctx_adjacency ctx) source (ps @ [(n, s)])"
    using assms by (simp add: bonded_append framework_path_def del: last.simps)
  moreover have "zip (map fst ps @ [n]) (map snd ps @ [s]) = ps @ [(n, s)]"
    by (simp add: zip_map_fst_snd)
  ultimately show ?thesis by (simp add: path_bonded_def)
qed

lemma canonical_path_atoms:
  assumes "canonical_path nsym path shifts numbers rule = Inr edge"
  shows "(atomic_path_indices edge, atomic_edge_image_shifts edge) \<in> {(path, shifts), reverse_path path shifts}"
  using assms make_canonical_edge_fields(1,2)
  unfolding canonical_path_def Let_def by (fastforce simp: bindE_Inr_iff reverse_path_def split: if_splits)

lemma framework_edge_bonded:
  assumes "edge \<in> framework_edges_of ctx mapping source" and "undirected (ctx_adjacency ctx)"
  shows "path_bonded (ctx_adjacency ctx) (atomic_path_indices edge) (atomic_edge_image_shifts edge)"
proof -
  from assms(1) obtain ps n s rule where "framework_path ctx mapping source ps n s rule"
    and canonical: "canonical_path (ctx_nsym ctx) (source # map fst ps @ [n]) (map snd ps @ [s])
            (elements ctx ps) rule = Inr edge" by (auto simp: framework_edges_of_def)
  from framework_path_bonded[OF this(1)] have
    path: "path_bonded (ctx_adjacency ctx) (source # map fst ps @ [n]) (map snd ps @ [s])" .
  from canonical_path_atoms[OF canonical] show ?thesis
  proof (elim insertE emptyE)
    assume "(atomic_path_indices edge, atomic_edge_image_shifts edge) = (source # map fst ps @ [n], map snd ps @ [s])"
    with path show ?thesis by (simp only: prod.inject)
  next
    assume "(atomic_path_indices edge, atomic_edge_image_shifts edge)
      = reverse_path (source # map fst ps @ [n]) (map snd ps @ [s])"
    with path_bonded_reverse[OF assms(2) path] show ?thesis by (simp only: reverse_path_def prod.inject)
  qed
qed

lemma oriented_bonded:
  assumes "undirected adj" and "path_bonded adj (atomic_path_indices edge) (atomic_edge_image_shifts edge)"
    and "edge_wellformed edge"
  shows "bonded adj (source_vertex (oriented edge d)) (edge_atom_steps (oriented edge d))"
proof -
  have "path_bonded adj (oriented_atomic_path (oriented edge d)) (oriented_atomic_shifts (oriented edge d))"
    using assms(2) path_bonded_reverse[OF assms(1,2)]
    by (cases d) (simp_all add: oriented_atomic_path_def oriented_atomic_shifts_def oriented_def)
  then show ?thesis
    using oriented_wellformed(2)[OF assms(3), of d] by (simp add: path_bonded_def edge_atom_steps_def)
qed

definition bond_between :: "(nat \<times> (nat \<times> shift) list) list \<Rightarrow> lifted_atom \<Rightarrow> lifted_atom \<Rightarrow> bool" where
  "bond_between adj u v \<longleftrightarrow> (\<exists>ns. map_of adj (atom_ref u) = Some ns
     \<and> (atom_ref v, subtract_shift (atom_image v) (atom_image u)) \<in> set ns)"

lemma bonded_atom_walk:
  "bonded adj (atom_ref u) steps \<Longrightarrow> k < length steps \<Longrightarrow>
   bond_between adj (atom_walk u steps ! k) (atom_walk u steps ! Suc k)"
proof (induction u steps arbitrary: k rule: atom_walk.induct)
  case (2 u a d steps)
  have "subtract_shift (add_shift (atom_image u) d) (atom_image u) = d"
    by (cases "atom_image u"; cases d) simp
  moreover have "atom_walk (LiftedAtomRef a s) steps ! 0 = LiftedAtomRef a s" for s by (cases steps) auto
  ultimately show ?case using 2 by (cases k) (auto simp: bond_between_def)
qed simp

lemma ring_bonded:
  assumes gauge: "raw_gauge_of t (\<lambda>v. the (gauge v))" "set (vertex_atoms t) \<subseteq> dom gauge"
    and wf: "\<forall>edge \<in> set (topology_edges t). edge_wellformed edge"
    and ring: "ring_coherent (map edge_key (topology_edges t)) (vertex_atoms t) ring"
      "ring_size ring = length (ring_steps ring)" "ring_steps ring \<noteq> []"
    and adj: "undirected adj" "\<forall>edge \<in> set (topology_edges t).
        path_bonded adj (atomic_path_indices edge) (atomic_edge_image_shifts edge)"
    and k: "k \<le> length (ring_steps ring)"
  shows "bonded adj (atom_index (vertex_walk ring ! 0)) (ring_atom_steps t (take k (ring_steps ring)))"
  using k
proof (induction k)
  case (Suc k)
  let ?vs = "vertex_walk ring" and ?step = "ring_steps ring ! k"
  let ?done = "ring_atom_steps t (take k (ring_steps ring))"
  from Suc.prems have kn: "k < length (ring_steps ring)" by simp
  with ring(1,2) have step: "leads_to (map edge_key (topology_edges t)) (?vs ! k) ?step
      (?vs ! ((k + 1) mod length (ring_steps ring)))"
    by (auto simp: ring_coherent_def walk_coherent_def)
  then have edge: "topology_edges t ! step_edge ?step \<in> set (topology_edges t)" by (simp add: leads_to_def)
  have "bonded adj (source_vertex (step_edge_path t ?step)) (edge_atom_steps (step_edge_path t ?step))"
    unfolding step_edge_path_def by (rule oriented_bonded[OF adj(1)]) (use edge adj(2) wf in blast)+
  moreover have "source_vertex (step_edge_path t ?step) = atom_index (?vs ! k)"
    by (rule leads_to_raw(1)[OF step gauge(1) wf])
  moreover have "last (atom_index (?vs ! 0) # map fst ?done) = atom_index (?vs ! k)"
    using conjunct2[OF expand_loop[OF gauge wf ring(1,2) less_imp_le[OF kn] ring(3)]] kn
    by (simp add: last_atom_walk raw_vertex_def)
  moreover have "ring_atom_steps t (take (Suc k) (ring_steps ring)) = ?done @ edge_atom_steps (step_edge_path t ?step)"
    using kn by (simp add: take_Suc_conv_app_nth ring_atom_steps_snoc)
  ultimately show ?case using Suc.IH kn by (simp add: bonded_append del: last.simps)
qed (simp add: ring_atom_steps_def)

lemma built_edges_bonded:
  assumes "sorted_wrt (\<lambda>a b. \<not> rules_overlap a b) (path_rules mapping)"
    and "build_framework_topology nsym state mapping rules limits = Inr t"
  shows "\<exists>roles adj. resolve_framework_roles state mapping = Inr roles
    \<and> oriented_adjacency state (active_to_role roles) = Inr adj \<and> undirected adj
    \<and> (\<forall>edge \<in> set (topology_edges t). path_bonded adj (atomic_path_indices edge) (atomic_edge_image_shifts edge))"
proof -
  from built_edges[OF assms(2)] obtain roles search gauge where limits: "resolve_limits state mapping limits = Inr roles"
    and project: "project_edges nsym state mapping limits roles = Inr (search, topology_edges t)"
    and edges: "\<forall>edge' \<in> set (topology_edges t). \<exists>edge \<in> snd ` set (accepted search).
        normalize_edge nsym gauge edge = Inr edge'" by blast
  have resolved: "resolve_framework_roles state mapping = Inr roles"
    using limits by (auto simp: resolve_limits_def bindE_Inr_iff split: if_splits)
  from project obtain adj where adj: "oriented_adjacency state (active_to_role roles) = Inr adj"
    and run: "enumerate_paths (projection_context_of nsym roles adj mapping limits)
      (vertex_atom_indices roles) = Inr search"
    by (auto simp: project_edges_def bindE_Inr_iff)
  let ?ctx = "projection_context_of nsym roles adj mapping limits"
  have ctx: "ctx_numbers ?ctx = number_by_atom roles" "ctx_adjacency ?ctx = adj"
    by (simp_all add: projection_context_of_def split: prod.split)
  then have "set (vertex_atom_indices roles) \<subseteq> dom (map_of (ctx_numbers ?ctx))"
    using active_to_role_numbers(2,3)[OF resolved] by simp
  from enumerate_paths_exact(2)[OF run projection_context_for[OF limits assms(1)] this]
  have "path_bonded adj (atomic_path_indices edge) (atomic_edge_image_shifts edge)"
    if "edge \<in> snd ` set (accepted search)" for edge
    using framework_edge_bonded[of edge ?ctx] that oriented_adjacency_undirected[OF adj] unfolding ctx by blast
  then have "\<forall>edge \<in> set (topology_edges t). path_bonded adj (atomic_path_indices edge) (atomic_edge_image_shifts edge)"
    using edges normalized_edge(3,4) by metis
  with resolved adj oriented_adjacency_undirected[OF adj] show ?thesis by blast
qed

section \<open>Properties\<close>

lemma ring_topology_built:
  "build_framework_topology 119 ring_state example_mapping None example_limits = Inr ring_topology"
proof -
  have "case build_framework_topology 119 ring_state example_mapping None example_limits of
      Inl _ \<Rightarrow> False | Inr _ \<Rightarrow> True" by code_simp
  then show ?thesis by (auto simp: ring_topology_def split: sum.splits)
qed

text \<open>C21: The raw gauge search on a framework whose edges end in its vertices returns a gauge that turns the raw
  shift of every edge into its projected shift; it raises an input error exactly when no such gauge
  exists, on self-image edges included, and never anything else.\<close>

theorem raw_gauge_exact:
  assumes "\<forall>edge \<in> set (topology_edges t).
     fst (edge_ends edge) \<in> set (vertex_atoms t) \<and> snd (edge_ends edge) \<in> set (vertex_atoms t)"
  shows "case framework_vertex_raw_gauge t of
      Inr gauge \<Rightarrow> set (vertex_atoms t) \<subseteq> dom gauge
        \<and> (\<forall>edge \<in> set (topology_edges t). regauge_edge (\<lambda>v. the (gauge v)) edge = edge)
    | Inl e \<Rightarrow> (\<exists>m. e = PrimitiveRingInputError m)
        \<and> \<not> (\<exists>g. \<forall>edge \<in> set (topology_edges t). regauge_edge g edge = edge)"
  using raw_gauge_decides[OF assms] by (simp add: raw_gauge_of_def split: sum.splits)

lemma ring_topology_ends:
  "\<forall>edge \<in> set (topology_edges ring_topology).
     fst (edge_ends edge) \<in> set (vertex_atoms ring_topology) \<and> snd (edge_ends edge) \<in> set (vertex_atoms ring_topology)"
  by (rule built_topology_ready(2)[OF ring_topology_built])

lemma ring_gauge_example: "case framework_vertex_raw_gauge ring_topology of Inr _ \<Rightarrow> True | Inl _ \<Rightarrow> False"
  by code_simp

theorem raw_gauge_exact_witness:
  "\<exists>gauge. framework_vertex_raw_gauge ring_topology = Inr gauge
    \<and> (\<forall>edge \<in> set (topology_edges ring_topology). regauge_edge (\<lambda>v. the (gauge v)) edge = edge)"
  using raw_gauge_exact[OF ring_topology_ends] ring_gauge_example by (auto split: sum.splits)

text \<open>C20: A framework that \<open>build_framework_topology\<close> returns meets every precondition of the ring searches:
  its half-edge adjacency can be built, its edge keys are distinct and none is a zero-shift loop, its
  vertices are nonempty and increasing, and its raw gauge can be recovered.\<close>

theorem built_framework_ready:
  assumes "build_framework_topology nsym state mapping rules limits = Inr t"
  shows "(\<exists>adj. half_edge_adjacency t = Inr adj) \<and> distinct (map edge_key (topology_edges t)) \<and> proper_edges t
    \<and> sorted_wrt (<) (vertex_atoms t) \<and> vertex_atoms t \<noteq> []
    \<and> (\<exists>gauge. framework_vertex_raw_gauge t = Inr gauge)"
  using built_topology_ready[OF assms] raw_gauge_decides[of t] by (cases "framework_vertex_raw_gauge t") auto

theorem built_framework_ready_witness:
  "proper_edges ring_topology \<and> (\<exists>gauge. framework_vertex_raw_gauge ring_topology = Inr gauge)"
  using built_framework_ready[OF ring_topology_built] by blast

text \<open>C19: Every ring of a catalog over a built framework, from either search method, expands without error into
  one closed walk of atoms.  The walk passes through the ring's vertices in order, each placed by the
  raw gauge, and every two consecutive atoms of it are joined by a bond of the atomic graph.\<close>

theorem ring_expansion_exact:
  assumes "make_mapping zs species overrides rs unmapped = Inr mapping"
    and "build_framework_topology nsym state mapping rules limits = Inr t"
    and "enumerate_primitive_rings t options = Inr c" and "r \<in> set (rings c)"
  shows "\<exists>roles adj gauge w. resolve_framework_roles state mapping = Inr roles
    \<and> oriented_adjacency state (active_to_role roles) = Inr adj
    \<and> framework_vertex_raw_gauge t = Inr gauge
    \<and> expand_primitive_ring_atomic_walk t r True = Inr w
    \<and> expand_primitive_ring_atomic_walk t r False = Inr (butlast w)
    \<and> last w = hd w
    \<and> (\<forall>k < ring_size r. w ! length (ring_atom_steps t (take k (ring_steps r)))
         = raw_vertex (\<lambda>a. the (gauge a)) (vertex_walk r ! k))
    \<and> (\<forall>k. Suc k < length w \<longrightarrow> bond_between adj (w ! k) (w ! Suc k))"
proof -
  note ready = built_topology_ready[OF assms(2)]
  obtain roles adj where adj: "resolve_framework_roles state mapping = Inr roles"
    "oriented_adjacency state (active_to_role roles) = Inr adj" "undirected adj"
    "\<forall>edge \<in> set (topology_edges t). path_bonded adj (atomic_path_indices edge) (atomic_edge_image_shifts edge)"
    using built_edges_bonded[OF _ assms(2)] make_mapping_rules(1,2)[OF assms(1)] by blast
  obtain gauge where gauge: "framework_vertex_raw_gauge t = Inr gauge"
    "raw_gauge_of t (\<lambda>v. the (gauge v))" "set (vertex_atoms t) \<subseteq> dom gauge"
    using raw_gauge_decides[OF ready(2)] ready(8) by (cases "framework_vertex_raw_gauge t") auto
  from enumerated_ring_coherent[OF assms(3,4)] have
    ring: "ring_coherent (map edge_key (topology_edges t)) (vertex_atoms t) r"
      "ring_size r = length (ring_steps r)" "ring_steps r \<noteq> []" by blast+
  let ?u = "raw_vertex (\<lambda>v. the (gauge v)) (vertex_walk r ! 0)" and ?steps = "ring_atom_steps t (ring_steps r)"
  note walk = atomic_expansion_correct[OF gauge(1) ready(2,7) ring]
  have "bonded adj (atom_index (vertex_walk r ! 0)) ?steps"
    using ring_bonded[OF gauge(2,3) ready(7) ring adj(3,4), of "length (ring_steps r)"] by simp
  then have "bonded adj (atom_ref ?u) ?steps" by (simp add: raw_vertex_def)
  note bonds = bonded_atom_walk[OF this]
  show ?thesis
    by (rule exI[of _ roles], rule exI[of _ adj], rule exI[of _ gauge], rule exI[of _ "atom_walk ?u ?steps"])
      (use adj(1,2) gauge(1) walk bonds ring(2) in \<open>simp add: less_Suc_eq_le Suc_le_eq\<close>)
qed

lemma ring_expansion_example:
  "case enumerate_primitive_rings ring_topology removed_options of Inr c \<Rightarrow> rings c \<noteq> [] | Inl _ \<Rightarrow> False"
  using removed_example(2) by (auto split: sum.splits)

theorem ring_expansion_exact_witness:
  "\<exists>c w. enumerate_primitive_rings ring_topology removed_options = Inr c
    \<and> expand_primitive_ring_atomic_walk ring_topology (hd (rings c)) True = Inr w \<and> last w = hd w"
proof -
  obtain c where c: "enumerate_primitive_rings ring_topology removed_options = Inr c" "rings c \<noteq> []"
    using ring_expansion_example by (auto split: sum.splits)
  then have "hd (rings c) \<in> set (rings c)" by simp
  from ring_expansion_exact[OF example_mapping_made ring_topology_built c(1) this] c(1) show ?thesis by blast
qed

end
