(* ===== verification/Periodic_Cycle.thy ===== *)
theory Periodic_Cycle
  imports Ring_Records
begin

text \<open>
  Placements of rings and traversals of cycles (\<open>mdstats/analysis/periodic_cycle.py\<close>).  A placement is a
  lattice translation of a canonical ring; a parametrization picks the start and the direction in
  which a cycle of given size is traversed, and lists its vertices and its edges in that order.
\<close>

section \<open>Placements\<close>

datatype ring_placement =
  RingPlacement (placed_digest: string) (placed_key: ring_key) (placement_shift: shift)

fun placement_tuple :: "ring_placement \<Rightarrow> string \<times> ring_key \<times> shift" where
  "placement_tuple (RingPlacement d k s) = (d, k, s)"

lemma placement_tuple_inject: "placement_tuple a = placement_tuple b \<Longrightarrow> a = b"
  by (cases a; cases b) simp

instantiation ring_placement :: linorder
begin

definition less_eq_ring_placement :: "ring_placement \<Rightarrow> ring_placement \<Rightarrow> bool" where
  "less_eq_ring_placement a b \<longleftrightarrow> placement_tuple a \<le> placement_tuple b"

definition less_ring_placement :: "ring_placement \<Rightarrow> ring_placement \<Rightarrow> bool" where
  "less_ring_placement a b \<longleftrightarrow> placement_tuple a < placement_tuple b"

instance
  by standard
    (auto simp: less_eq_ring_placement_def less_ring_placement_def less_le_not_le
      intro: placement_tuple_inject dest: order_antisym)

end

text \<open>The \<open>except ValueError as exc: raise PeriodicCycleInputError(str(exc))\<close> of the constructors.\<close>

definition as_cycle_error :: "'a result \<Rightarrow> 'a result" where
  "as_cycle_error r = (case r of Inl (ValueError m) \<Rightarrow> Inl (PeriodicCycleInputError m) | _ \<Rightarrow> r)"

definition nonempty_digest :: "string \<Rightarrow> string \<Rightarrow> string result" where
  "nonempty_digest name value =
     (if value = [] then Inl (PeriodicCycleInputError (Fmt ''{} must be a nonempty string.'' [AStr name]))
      else Inr value)"

definition make_ring_placement :: "string \<Rightarrow> ring_key \<Rightarrow> py_value \<Rightarrow> ring_placement result" where
  "make_ring_placement graph_digest key cell =
     bindE (nonempty_digest ''topology_graph_digest'' graph_digest) (\<lambda>d.
     bindE (as_cycle_error (coerce_lattice_shift ''image_shift'' cell)) (\<lambda>s.
     Inr (RingPlacement d key s)))"

fun py_shift :: "shift \<Rightarrow> py_value" where
  "py_shift (a, b, c) = PySeq [PyInt a, PyInt b, PyInt c]"

lemma coerce_py_shift [simp]: "coerce_lattice_shift name (py_shift s) = Inr s"
  by (cases s) (simp add: coerce_lattice_shift_def)

lemma make_ring_placement_Inr [simp]:
  "d \<noteq> [] \<Longrightarrow> make_ring_placement d key (py_shift s) = Inr (RingPlacement d key s)"
  by (simp add: make_ring_placement_def nonempty_digest_def as_cycle_error_def)

section \<open>Parametrizations\<close>

record cycle_parameterization =
  start_vertex_index :: int
  cycle_orientation :: int

definition make_parameterization :: "py_value \<Rightarrow> int \<Rightarrow> cycle_parameterization result" where
  "make_parameterization start direction =
     bindE (as_cycle_error (coerce_nonnegative_int ''start_vertex_index'' start)) (\<lambda>c.
     bindE (guardE (direction = -1 \<or> direction = 1)
       (PeriodicCycleInputError (Text ''orientation must be +1 or -1.''))) (\<lambda>_.
     Inr \<lparr>start_vertex_index = c, cycle_orientation = direction\<rparr>))"

definition cycle_size :: "cycle_parameterization \<Rightarrow> py_value \<Rightarrow> int result" where
  "cycle_size p n' =
     bindE (as_cycle_error (coerce_nonnegative_int ''size'' n')) (\<lambda>n.
     bindE (guardE (\<not> (n = 0 \<or> start_vertex_index p \<ge> n))
       (PeriodicCycleInputError
         (Text ''size must be positive and start_vertex_index must lie inside the cycle.''))) (\<lambda>_.
     Inr n))"

definition vertex_permutation :: "cycle_parameterization \<Rightarrow> py_value \<Rightarrow> int list result" where
  "vertex_permutation p n' =
     bindE (cycle_size p n') (\<lambda>n.
     Inr (map (\<lambda>k. (start_vertex_index p + cycle_orientation p * int k) mod n) [0..<nat n]))"

definition step_permutation :: "cycle_parameterization \<Rightarrow> py_value \<Rightarrow> int list result" where
  "step_permutation p n' =
     bindE (cycle_size p n') (\<lambda>n.
     let c = start_vertex_index p in
     if cycle_orientation p = 1 then Inr (map (\<lambda>k. (c + int k) mod n) [0..<nat n])
     else Inr (map (\<lambda>k. (c - int k - 1) mod n) [0..<nat n]))"

section \<open>Both lists are permutations of the cycle\<close>

lemma cycle_size_Inr_iff:
  assumes "0 \<le> start_vertex_index p"
  shows "cycle_size p n' = Inr n \<longleftrightarrow> n' = PyInt n \<and> start_vertex_index p < n"
  using assms
  by (cases n') (auto simp: cycle_size_def as_cycle_error_def coerce_nonnegative_int_def bindE_Inr_iff guardE_Inr_iff)

lemma rotation_inj:
  assumes "d = 1 \<or> d = (-1 :: int)"
  shows "inj_on (\<lambda>k. (c + d * int k) mod int n) {..<n}"
proof (rule inj_onI)
  fix j k assume jk: "j \<in> {..<n}" "k \<in> {..<n}" "(c + d * int j) mod int n = (c + d * int k) mod int n"
  then have "int n dvd (c + d * int j) - (c + d * int k)" by (simp add: mod_eq_dvd_iff)
  then have "int n dvd d * (int j - int k)" by (simp add: algebra_simps)
  then have "int n dvd int j - int k" using assms by (auto simp: dvd_diff_commute)
  moreover have "\<bar>int j - int k\<bar> < int n" using jk by auto
  ultimately have "int j - int k = 0" by (metis dvd_imp_le_int abs_of_nat not_less)
  then show "j = k" by simp
qed

lemma rotation_permutes:
  assumes "d = 1 \<or> d = (-1 :: int)" and "0 < n"
  shows "distinct (map (\<lambda>k. (c + d * int k) mod int n) [0..<n])"
    and "set (map (\<lambda>k. (c + d * int k) mod int n) [0..<n]) = {0..<int n}"
proof -
  let ?f = "\<lambda>k. (c + d * int k) mod int n"
  have "inj_on ?f {..<n}" by (rule rotation_inj[OF assms(1)])
  then show "distinct (map ?f [0..<n])" by (simp add: distinct_map atLeast_upt)
  have "?f ` {..<n} \<subseteq> {0..<int n}" using assms(2) by auto
  moreover have "card (?f ` {..<n}) = card {0..<int n}"
    using \<open>inj_on ?f {..<n}\<close> by (simp add: card_image)
  ultimately have "?f ` {..<n} = {0..<int n}" by (intro card_subset_eq) auto
  then show "set (map ?f [0..<n]) = {0..<int n}" by (simp add: atLeast_upt)
qed

lemma rotation_next:
  assumes "0 < n" and "k < n"
  shows "(c + d * int (Suc k mod n)) mod int n = (c + d * (int k + 1)) mod int n"
proof (cases "Suc k = n")
  case True
  then have "int k + 1 = int n" by simp
  with True show ?thesis by (simp only: mod_self of_nat_0 mult_zero_right add_0_right mod_mult_self3) simp
qed (use assms in \<open>simp add: add.commute\<close>)

definition step_position :: "int \<Rightarrow> int \<Rightarrow> nat \<Rightarrow> int" where
  "step_position c d k = (if d = 1 then c + int k else c - int k - 1)"

lemma step_joins:
  fixes c :: int
  assumes "d = 1 \<or> d = (-1 :: int)" and "0 < n"
  defines "vs \<equiv> map (\<lambda>k. (c + d * int k) mod int n) [0..<n]"
    and "es \<equiv> map (\<lambda>k. step_position c d k mod int n) [0..<n]"
  shows "distinct vs" and "set vs = {0..<int n}" and "distinct es" and "set es = {0..<int n}"
    and "\<forall>k < n. {vs ! k, vs ! (Suc k mod n)} = {es ! k, (es ! k + 1) mod int n}"
proof -
  show "distinct vs" "set vs = {0..<int n}" unfolding vs_def by (rule rotation_permutes[OF assms(1,2)])+
  have es: "es = map (\<lambda>k. ((if d = 1 then c else c - 1) + d * int k) mod int n) [0..<n]"
    using assms(1) by (auto simp: es_def step_position_def algebra_simps)
  show "distinct es" "set es = {0..<int n}" unfolding es by (rule rotation_permutes[OF assms(1,2)])+
  show "\<forall>k < n. {vs ! k, vs ! (Suc k mod n)} = {es ! k, (es ! k + 1) mod int n}"
  proof (intro allI impI)
    fix k assume k: "k < n"
    then have v: "vs ! k = (c + d * int k) mod int n" "vs ! (Suc k mod n) = (c + d * (int k + 1)) mod int n"
      using rotation_next[OF assms(2) k, of c d] assms(2) by (simp_all add: vs_def)
    have e: "es ! k = step_position c d k mod int n" using k by (simp add: es_def)
    then have e1: "(es ! k + 1) mod int n = (step_position c d k + 1) mod int n" by (simp only: mod_add_left_eq)
    from assms(1) show "{vs ! k, vs ! (Suc k mod n)} = {es ! k, (es ! k + 1) mod int n}"
      unfolding v e1 unfolding e by (elim disjE) (simp_all add: step_position_def insert_commute algebra_simps)
  qed
qed

section \<open>Properties\<close>

text \<open>For a constructed parametrization, the vertex list and the step list are produced exactly when the size is
  an integer above the start, otherwise both raise the input error.  They visit every index from 0 to
  the size once, and the step at each position is the edge between the vertex there and the next one,
  in either direction.\<close>

theorem cycle_permutations_exact:
  assumes "make_parameterization start direction = Inr p"
  shows "case n' of
      PyInt n \<Rightarrow>
        if start_vertex_index p < n
        then \<exists>vs es. vertex_permutation p n' = Inr vs \<and> step_permutation p n' = Inr es
          \<and> distinct vs \<and> set vs = {0..<n} \<and> distinct es \<and> set es = {0..<n}
          \<and> (\<forall>k < nat n. {vs ! k, vs ! (Suc k mod nat n)} = {es ! k, (es ! k + 1) mod n})
        else \<exists>m. vertex_permutation p n' = Inl (PeriodicCycleInputError m)
          \<and> step_permutation p n' = Inl (PeriodicCycleInputError m)
    | _ \<Rightarrow> \<exists>m. vertex_permutation p n' = Inl (PeriodicCycleInputError m)
          \<and> step_permutation p n' = Inl (PeriodicCycleInputError m)"
proof -
  have p: "0 \<le> start_vertex_index p" "cycle_orientation p = 1 \<or> cycle_orientation p = -1"
    using assms
    by (cases start; auto simp: make_parameterization_def as_cycle_error_def coerce_nonnegative_int_def bindE_Inr_iff
        guardE_Inr_iff split: if_splits)+
  show ?thesis
  proof (cases "cycle_size p n'")
    case (Inl e)
    then have "\<exists>m. e = PeriodicCycleInputError m"
      by (cases n') (auto simp: cycle_size_def as_cycle_error_def coerce_nonnegative_int_def bindE_Inl_iff
          guardE_Inl_iff split: if_splits)
    moreover have "\<not> start_vertex_index p < n" if "n' = PyInt n" for n
      using Inl cycle_size_Inr_iff[OF p(1), of n' n] that by simp
    ultimately show ?thesis using Inl
      by (cases n') (auto simp: vertex_permutation_def step_permutation_def)
  next
    case (Inr n)
    with cycle_size_Inr_iff[OF p(1)] have n: "n' = PyInt n" "start_vertex_index p < n" by blast+
    with p(1) obtain m where m: "n = int m" "0 < m" by (metis less_le_trans nonneg_int_cases not_le order_less_imp_le
          of_nat_0_less_iff le_less_trans)
    have es: "step_permutation p n' = Inr (map (\<lambda>k. step_position (start_vertex_index p) (cycle_orientation p) k mod int m) [0..<m])"
      using Inr m(1) p(2) by (auto simp: step_permutation_def step_position_def Let_def)
    have vs: "vertex_permutation p n' = Inr (map (\<lambda>k. (start_vertex_index p + cycle_orientation p * int k) mod int m) [0..<m])"
      using Inr m(1) by (simp add: vertex_permutation_def)
    have below: "start_vertex_index p < int m" using n(2) m(1) by simp
    show ?thesis unfolding n(1) m(1) py_value.case if_P[OF below] nat_int
      using es vs step_joins[OF p(2) m(2), of "start_vertex_index p"] unfolding n(1) m(1) by blast
  qed
qed

lemma triangle_example: "make_parameterization (PyInt 2) (-1) = Inr \<lparr>start_vertex_index = 2, cycle_orientation = -1\<rparr>"
  by code_simp

theorem cycle_permutations_exact_witness:
  "\<exists>vs es. vertex_permutation \<lparr>start_vertex_index = 2, cycle_orientation = -1\<rparr> (PyInt 3) = Inr vs
     \<and> step_permutation \<lparr>start_vertex_index = 2, cycle_orientation = -1\<rparr> (PyInt 3) = Inr es
     \<and> set vs = {0..<3} \<and> set es = {0..<3}"
  using cycle_permutations_exact[OF triangle_example, of "PyInt 3"] by auto

end
