(* ===== verification/Ring_Index.thy ===== *)
theory Ring_Index
  imports Ring_Expansion Periodic_Cycle
begin

text \<open>
  The placement index of \<open>mdstats/analysis/primitive_ring_index.py\<close>: for each framework edge the ring
  steps that use it, lookups of ring and edge keys by bisection, the physical edges of a translated
  ring, and the translated rings that cover a physical edge.

  The digest of the source topology is an argument, a string that the catalog carries; the code
  compares it and stores it in every record.
\<close>

section \<open>Records\<close>

datatype lifted_edge_instance =
  LiftedEdgeInstanceRef (instance_digest: string) (instance_edge: framework_edge_key) (anchor_shift: shift)

fun edge_instance_tuple :: "lifted_edge_instance \<Rightarrow> string \<times> framework_edge_key \<times> shift" where
  "edge_instance_tuple (LiftedEdgeInstanceRef d k s) = (d, k, s)"

lemma edge_instance_tuple_inject: "edge_instance_tuple a = edge_instance_tuple b \<Longrightarrow> a = b"
  by (cases a; cases b) simp

instantiation lifted_edge_instance :: linorder
begin

definition less_eq_lifted_edge_instance :: "lifted_edge_instance \<Rightarrow> lifted_edge_instance \<Rightarrow> bool" where
  "less_eq_lifted_edge_instance a b \<longleftrightarrow> edge_instance_tuple a \<le> edge_instance_tuple b"

definition less_lifted_edge_instance :: "lifted_edge_instance \<Rightarrow> lifted_edge_instance \<Rightarrow> bool" where
  "less_lifted_edge_instance a b \<longleftrightarrow> edge_instance_tuple a < edge_instance_tuple b"

instance
  by standard
    (auto simp: less_eq_lifted_edge_instance_def less_lifted_edge_instance_def less_le_not_le
      intro: edge_instance_tuple_inject dest: order_antisym)

end

definition make_edge_instance :: "string \<Rightarrow> framework_edge_key \<Rightarrow> shift \<Rightarrow> lifted_edge_instance result" where
  "make_edge_instance graph_digest key anchor =
     (if graph_digest = [] then
        Inl (PrimitiveRingIndexInputError (Text ''topology_graph_digest must be a nonempty string.''))
      else Inr (LiftedEdgeInstanceRef graph_digest key anchor))"

datatype edge_occurrence = PrimitiveRingEdgeOccurrence
  (occurrence_key: ring_key)
  (occurrence_step: nat)
  (occurrence_edge: nat)
  (occurrence_orientation: orientation)
  (canonical_anchor_shift: shift)

fun occurrence_tuple :: "edge_occurrence \<Rightarrow> ring_key \<times> nat \<times> nat \<times> orientation \<times> shift" where
  "occurrence_tuple (PrimitiveRingEdgeOccurrence k i e d s) = (k, i, e, d, s)"

lemma occurrence_tuple_inject: "occurrence_tuple a = occurrence_tuple b \<Longrightarrow> a = b"
  by (cases a; cases b) simp

instantiation edge_occurrence :: linorder
begin

definition less_eq_edge_occurrence :: "edge_occurrence \<Rightarrow> edge_occurrence \<Rightarrow> bool" where
  "less_eq_edge_occurrence a b \<longleftrightarrow> occurrence_tuple a \<le> occurrence_tuple b"

definition less_edge_occurrence :: "edge_occurrence \<Rightarrow> edge_occurrence \<Rightarrow> bool" where
  "less_edge_occurrence a b \<longleftrightarrow> occurrence_tuple a < occurrence_tuple b"

instance
  by standard
    (auto simp: less_eq_edge_occurrence_def less_edge_occurrence_def less_le_not_le
      intro: occurrence_tuple_inject dest: order_antisym)

end

datatype ring_edge_placement =
  RingEdgePlacement (covering: ring_placement) (covering_step: nat) (covering_orientation: orientation)

fun edge_placement_tuple :: "ring_edge_placement \<Rightarrow> ring_placement \<times> nat \<times> orientation" where
  "edge_placement_tuple (RingEdgePlacement p i d) = (p, i, d)"

lemma edge_placement_tuple_inject: "edge_placement_tuple a = edge_placement_tuple b \<Longrightarrow> a = b"
  by (cases a; cases b) simp

instantiation ring_edge_placement :: linorder
begin

definition less_eq_ring_edge_placement :: "ring_edge_placement \<Rightarrow> ring_edge_placement \<Rightarrow> bool" where
  "less_eq_ring_edge_placement a b \<longleftrightarrow> edge_placement_tuple a \<le> edge_placement_tuple b"

definition less_ring_edge_placement :: "ring_edge_placement \<Rightarrow> ring_edge_placement \<Rightarrow> bool" where
  "less_ring_edge_placement a b \<longleftrightarrow> edge_placement_tuple a < edge_placement_tuple b"

instance
  by standard
    (auto simp: less_eq_ring_edge_placement_def less_ring_edge_placement_def less_le_not_le
      intro: edge_placement_tuple_inject dest: order_antisym)

end

section \<open>Building the index\<close>

definition canonical_edge_instance_for_step ::
  "string \<Rightarrow> ring_catalog \<Rightarrow> primitive_ring \<Rightarrow> nat \<Rightarrow> lifted_edge_instance result" where
  "canonical_edge_instance_for_step graph_digest c ring step_index =
     bindE (guardE (step_index < ring_size ring)
       (PrimitiveRingIndexInputError (Fmt ''step_index={} is outside ring size {}.''
         [ANat step_index, ANat (ring_size ring)]))) (\<lambda>_.
     bindE (nthE (ring_steps ring) step_index) (\<lambda>step.
     bindE (nthE (vertex_walk ring) step_index) (\<lambda>source.
     case nthE (edge_searches c) (step_edge step) of
       Inl _ \<Rightarrow> Inl (PrimitiveRingIndexInputError
         (Text ''Ring step references an edge outside the source catalog.''))
     | Inr search \<Rightarrow>
         bindE (physical_edge_anchor (vertex_image source) (image_shift (searched_key search))
           (orientation_int (step_orientation step)))
         (make_edge_instance graph_digest (searched_key search)))))"

definition add_occurrence ::
  "string \<Rightarrow> ring_catalog \<Rightarrow> primitive_ring \<Rightarrow> nat \<times> ring_step \<Rightarrow> edge_occurrence list list
   \<Rightarrow> edge_occurrence list list result" where
  "add_occurrence graph_digest c ring = (\<lambda>(step_index, step) buckets.
     bindE (canonical_edge_instance_for_step graph_digest c ring step_index) (\<lambda>instance.
     bindE (nthE buckets (step_edge step)) (\<lambda>bucket.
     Inr (buckets[step_edge step := bucket @ [PrimitiveRingEdgeOccurrence (ring_key ring) step_index
       (step_edge step) (step_orientation step) (anchor_shift instance)]]))))"

definition build_edge_occurrences :: "string \<Rightarrow> ring_catalog \<Rightarrow> edge_occurrence list list result" where
  "build_edge_occurrences graph_digest c =
     bindE (foldE (\<lambda>ring. foldE (add_occurrence graph_digest c ring) (List.enumerate 0 (ring_steps ring)))
       (rings c) (map (\<lambda>_. []) (edge_searches c))) (\<lambda>buckets.
     Inr (map sort buckets))"

record ring_index =
  indexed_catalog :: ring_catalog
  index_digest :: string
  index_ring_keys :: "ring_key list"
  index_edge_keys :: "framework_edge_key list"
  edge_to_occurrences :: "edge_occurrence list list"

definition make_ring_index :: "ring_index \<Rightarrow> ring_index result" where
  "make_ring_index index =
     (let c = indexed_catalog index; keys = index_ring_keys index; edges = index_edge_keys index in
      bindE (guardE (keys = map ring_key (rings c)) (PrimitiveRingIndexInputError
        (Text ''ring_keys must align exactly with the source catalog ring order.''))) (\<lambda>_.
      bindE (guardE (keys = sort keys \<and> distinct keys)
        (PrimitiveRingIndexInputError (Text ''ring_keys must be sorted and unique.''))) (\<lambda>_.
      bindE (guardE (edges = map searched_key (edge_searches c)) (PrimitiveRingIndexInputError
        (Text ''edge_keys must align exactly with the source catalog edge order.''))) (\<lambda>_.
      bindE (guardE (edges = sort edges \<and> distinct edges)
        (PrimitiveRingIndexInputError (Text ''edge_keys must be sorted and unique.''))) (\<lambda>_.
      bindE (build_edge_occurrences (index_digest index) c) (\<lambda>expected.
      bindE (guardE (edge_to_occurrences index = expected) (PrimitiveRingIndexInputError
        (Text ''edge_to_occurrences is inconsistent with the source catalog.''))) (\<lambda>_.
      Inr index)))))))"

definition build_primitive_ring_index :: "string \<Rightarrow> ring_catalog \<Rightarrow> ring_index result" where
  "build_primitive_ring_index graph_digest c =
     bindE (build_edge_occurrences graph_digest c) (\<lambda>occurrences.
     make_ring_index \<lparr>indexed_catalog = c, index_digest = graph_digest, index_ring_keys = map ring_key (rings c),
       index_edge_keys = map searched_key (edge_searches c), edge_to_occurrences = occurrences\<rparr>)"

section \<open>Lookups\<close>

text \<open>\<open>bisect.bisect_left\<close> on \<open>xs[lo:hi]\<close>.\<close>

function bisect_left :: "'a::linorder list \<Rightarrow> 'a \<Rightarrow> nat \<Rightarrow> nat \<Rightarrow> nat" where
  "bisect_left xs x lo hi =
     (if lo < hi then
        let mid = (lo + hi) div 2 in
        if xs ! mid < x then bisect_left xs x (mid + 1) hi else bisect_left xs x lo mid
      else lo)"
  by pat_completeness auto
termination by (relation "measure (\<lambda>(xs, x, lo, hi). hi - lo)") auto

declare bisect_left.simps [simp del]

definition bisect_lookup :: "message \<Rightarrow> 'a::linorder list \<Rightarrow> 'a \<Rightarrow> nat result" where
  "bisect_lookup absent keys key =
     (let position = bisect_left keys key 0 (length keys) in
      if position \<ge> length keys \<or> keys ! position \<noteq> key then Inl (PrimitiveRingIndexInputError absent)
      else Inr position)"

definition ring_id_for_key :: "ring_index \<Rightarrow> ring_key \<Rightarrow> nat result" where
  "ring_id_for_key index =
     bisect_lookup (Text ''PrimitiveRingKey is absent from the source catalog.'') (index_ring_keys index)"

definition ring_for_key :: "ring_index \<Rightarrow> ring_key \<Rightarrow> primitive_ring result" where
  "ring_for_key index key = bindE (ring_id_for_key index key) (nthE (rings (indexed_catalog index)))"

definition edge_index_for_key :: "ring_index \<Rightarrow> framework_edge_key \<Rightarrow> nat result" where
  "edge_index_for_key index =
     bisect_lookup (Text ''FrameworkEdgeKey is absent from the source catalog.'') (index_edge_keys index)"

definition edge_key_for_index :: "ring_index \<Rightarrow> nat \<Rightarrow> framework_edge_key result" where
  "edge_key_for_index index k =
     (if k \<ge> length (index_edge_keys index) then
        Inl (PrimitiveRingIndexInputError (Fmt ''edge_index={} is outside the source catalog.'' [ANat k]))
      else Inr (index_edge_keys index ! k))"

definition canonical_edge_instance :: "ring_index \<Rightarrow> ring_key \<Rightarrow> nat \<Rightarrow> lifted_edge_instance result" where
  "canonical_edge_instance index key step_index =
     bindE (ring_for_key index key) (\<lambda>ring.
     canonical_edge_instance_for_step (index_digest index) (indexed_catalog index) ring step_index)"

definition canonical_edge_instances :: "ring_index \<Rightarrow> ring_key \<Rightarrow> lifted_edge_instance list result" where
  "canonical_edge_instances index key =
     bindE (ring_for_key index key) (\<lambda>ring.
     mapE (canonical_edge_instance_for_step (index_digest index) (indexed_catalog index) ring)
       [0..<ring_size ring])"

definition validate_placement_source :: "ring_index \<Rightarrow> ring_placement \<Rightarrow> unit result" where
  "validate_placement_source index placement =
     guardE (placed_digest placement = index_digest index)
       (PrimitiveRingIndexInputError (Text ''RingPlacement belongs to a different topology graph digest.''))"

definition translated_edge_instances :: "ring_index \<Rightarrow> ring_placement \<Rightarrow> lifted_edge_instance list result" where
  "translated_edge_instances index placement =
     bindE (validate_placement_source index placement) (\<lambda>_.
     bindE (canonical_edge_instances index (placed_key placement)) (\<lambda>edges.
     mapE (\<lambda>edge. make_edge_instance (index_digest index) (instance_edge edge)
       (add_shift (anchor_shift edge) (placement_shift placement))) edges))"

definition placement_of_occurrence ::
  "ring_index \<Rightarrow> lifted_edge_instance \<Rightarrow> edge_occurrence \<Rightarrow> ring_edge_placement result" where
  "placement_of_occurrence index edge occurrence =
     bindE (make_ring_placement (index_digest index) (occurrence_key occurrence)
       (py_shift (subtract_shift (anchor_shift edge) (canonical_anchor_shift occurrence)))) (\<lambda>placement.
     Inr (RingEdgePlacement placement (occurrence_step occurrence) (occurrence_orientation occurrence)))"

definition ring_placements_covering_edge ::
  "ring_index \<Rightarrow> lifted_edge_instance \<Rightarrow> ring_edge_placement list result" where
  "ring_placements_covering_edge index edge =
     bindE (guardE (instance_digest edge = index_digest index)
       (PrimitiveRingIndexInputError
         (Text ''LiftedEdgeInstanceRef belongs to a different topology graph digest.''))) (\<lambda>_.
     bindE (edge_index_for_key index (instance_edge edge)) (\<lambda>k.
     bindE (nthE (edge_to_occurrences index) k) (\<lambda>occurrences.
     bindE (mapE (placement_of_occurrence index edge) occurrences) (\<lambda>placements.
     bindE (guardE (distinct placements)
       (PrimitiveRingIndexError
         (Text ''Source catalog produced duplicate exact ring-edge placements.''))) (\<lambda>_.
     Inr (sort placements))))))"

section \<open>Bisection finds the key\<close>

lemma bisect_left_splits:
  "sorted xs \<Longrightarrow> lo \<le> hi \<Longrightarrow> hi \<le> length xs \<Longrightarrow> (\<forall>i < lo. xs ! i < x) \<Longrightarrow> (\<forall>i. hi \<le> i \<longrightarrow> i < length xs \<longrightarrow> x \<le> xs ! i) \<Longrightarrow>
   (\<forall>i < bisect_left xs x lo hi. xs ! i < x)
   \<and> (\<forall>i. bisect_left xs x lo hi \<le> i \<longrightarrow> i < length xs \<longrightarrow> x \<le> xs ! i)"
proof (induction xs x lo hi rule: bisect_left.induct)
  case (1 xs x lo hi)
  show ?case
  proof (cases "lo < hi")
    case False
    then show ?thesis using "1.prems" by (subst (1 2) bisect_left.simps) auto
  next
    case True
    let ?mid = "(lo + hi) div 2"
    have mid: "lo \<le> ?mid" "?mid < hi" "?mid < length xs" using True "1.prems"(3) by auto
    show ?thesis
    proof (cases "xs ! ?mid < x")
      case True
      have "xs ! i < x" if "i < ?mid + 1" for i
        using sorted_nth_mono[OF "1.prems"(1), of i ?mid] that mid(3) True by (simp add: le_less_trans)
      then have "\<forall>i < ?mid + 1. xs ! i < x" by blast
      with "1.IH"(1)[OF \<open>lo < hi\<close> refl True "1.prems"(1)] mid "1.prems"(3,5)
      show ?thesis using \<open>lo < hi\<close> True by (subst (1 2) bisect_left.simps) (simp add: Let_def)
    next
      case False
      have "x \<le> xs ! i" if "?mid \<le> i" "i < length xs" for i
        using sorted_nth_mono[OF "1.prems"(1) that] False by (simp add: not_less)
      then have "\<forall>i. ?mid \<le> i \<longrightarrow> i < length xs \<longrightarrow> x \<le> xs ! i" by blast
      with "1.IH"(2)[OF \<open>lo < hi\<close> refl False "1.prems"(1)] mid "1.prems"(4)
      show ?thesis using \<open>lo < hi\<close> False by (subst (1 2) bisect_left.simps) (simp add: Let_def)
    qed
  qed
qed

lemma bisect_lookup_Inr_iff:
  assumes "sorted_wrt (<) xs"
  shows "bisect_lookup m xs x = Inr i \<longleftrightarrow> i < length xs \<and> xs ! i = x"
proof -
  let ?p = "bisect_left xs x 0 (length xs)"
  have "sorted xs" using assms strict_sorted_iff by blast
  from bisect_left_splits[OF this, of 0 "length xs" x] have
    p: "\<And>j. j < ?p \<Longrightarrow> xs ! j < x" "\<And>j. ?p \<le> j \<Longrightarrow> j < length xs \<Longrightarrow> x \<le> xs ! j" by auto
  have at: "?p = j" if j: "j < length xs" "xs ! j = x" for j
  proof (rule ccontr)
    assume "?p \<noteq> j"
    then consider "j < ?p" | "?p < j" by linarith
    then show False
    proof cases
      case 1
      with p(1) j(2) show False by auto
    next
      case 2
      then have "xs ! ?p < xs ! j" using sorted_wrt_nth_less[OF assms] j(1) by blast
      moreover have "x \<le> xs ! ?p" using p(2)[of ?p] 2 j(1) by simp
      ultimately show False using j(2) by simp
    qed
  qed
  have "bisect_lookup m xs x = Inr i \<longleftrightarrow> ?p = i \<and> ?p < length xs \<and> xs ! ?p = x"
    by (auto simp: bisect_lookup_def Let_def not_le)
  with at show ?thesis by metis
qed

lemma bisect_lookup_Inl_iff:
  assumes "sorted_wrt (<) xs"
  shows "bisect_lookup m xs x = Inl e \<longleftrightarrow> x \<notin> set xs \<and> e = PrimitiveRingIndexInputError m"
proof (cases "bisect_lookup m xs x")
  case (Inl e')
  then have "x \<notin> set xs" using bisect_lookup_Inr_iff[OF assms, of m x] by (metis in_set_conv_nth sum.distinct(1))
  moreover have "e' = PrimitiveRingIndexInputError m" using Inl by (auto simp: bisect_lookup_def Let_def split: if_splits)
  ultimately show ?thesis using Inl by auto
next
  case (Inr i)
  with bisect_lookup_Inr_iff[OF assms] have "x \<in> set xs" by (metis nth_mem)
  with Inr show ?thesis by simp
qed

section \<open>What the index holds\<close>

text \<open>
  \<open>indexable d c\<close> collects what the constructors of the catalog and of its rings check, and that the
  edges are in key order as in every framework.  \<open>step_occurrence\<close> is the entry of one ring step.
\<close>

definition indexable :: "string \<Rightarrow> ring_catalog \<Rightarrow> bool" where
  "indexable d c \<longleftrightarrow> d \<noteq> [] \<and> catalog_valid c \<and> sorted_wrt (<) (map searched_key (edge_searches c))
     \<and> (\<forall>r \<in> set (rings c). ring_size r = length (ring_steps r))"

definition step_anchor :: "framework_edge_key list \<Rightarrow> primitive_ring \<Rightarrow> nat \<Rightarrow> shift" where
  "step_anchor keys ring i =
     (let s = ring_steps ring ! i in
      if step_orientation s = Forward then vertex_image (vertex_walk ring ! i)
      else subtract_shift (vertex_image (vertex_walk ring ! i)) (image_shift (keys ! step_edge s)))"

definition step_occurrence :: "framework_edge_key list \<Rightarrow> primitive_ring \<Rightarrow> nat \<Rightarrow> edge_occurrence" where
  "step_occurrence keys ring i =
     PrimitiveRingEdgeOccurrence (ring_key ring) i (step_edge (ring_steps ring ! i))
       (step_orientation (ring_steps ring ! i)) (step_anchor keys ring i)"

definition ring_occurrences :: "framework_edge_key list \<Rightarrow> primitive_ring \<Rightarrow> edge_occurrence list" where
  "ring_occurrences keys ring = map (step_occurrence keys ring) [0..<length (ring_steps ring)]"

lemma indexable_ring:
  assumes "indexable d c" and "r \<in> set (rings c)"
  shows "ring_size r = length (ring_steps r)" and "length (vertex_walk r) = length (ring_steps r)"
    and "\<And>i. i < length (ring_steps r) \<Longrightarrow> step_edge (ring_steps r ! i) < length (edge_searches c)"
proof -
  from assms have "ring_coherent (map searched_key (edge_searches c)) (catalog_vertices c) r"
    by (simp add: indexable_def catalog_valid_def)
  then show "length (vertex_walk r) = length (ring_steps r)"
    "\<And>i. i < length (ring_steps r) \<Longrightarrow> step_edge (ring_steps r ! i) < length (edge_searches c)"
    by (simp_all add: ring_coherent_def walk_coherent_def)
qed (use assms in \<open>simp add: indexable_def\<close>)

lemma canonical_instance_Inr:
  assumes "indexable d c" and "r \<in> set (rings c)" and "i < length (ring_steps r)"
  defines "keys \<equiv> map searched_key (edge_searches c)"
  shows "canonical_edge_instance_for_step d c r i =
    Inr (LiftedEdgeInstanceRef d (keys ! step_edge (ring_steps r ! i)) (step_anchor keys r i))"
proof -
  note ring = indexable_ring[OF assms(1,2)]
  have "d \<noteq> []" using assms(1) by (simp add: indexable_def)
  with ring assms(3) show ?thesis
    by (cases "step_orientation (ring_steps r ! i)")
      (simp_all add: canonical_edge_instance_for_step_def nthE_def keys_def step_anchor_def physical_edge_anchor_def
        make_edge_instance_def Let_def)
qed

definition fill :: "edge_occurrence list list \<Rightarrow> edge_occurrence list \<Rightarrow> edge_occurrence list list" where
  "fill buckets os = map (\<lambda>e. buckets ! e @ filter (\<lambda>x. occurrence_edge x = e) os) [0..<length buckets]"

lemma fill_simps [simp]: "length (fill b os) = length b" "fill b [] = b" "fill (fill b os) os' = fill b (os @ os')"
  by (auto simp: fill_def map_nth intro!: nth_equalityI)

lemma add_occurrences:
  assumes "indexable d c" and "r \<in> set (rings c)" and "set is \<subseteq> {..<length (ring_steps r)}"
    and "length buckets = length (edge_searches c)"
  shows "foldE (add_occurrence d c r) (map (\<lambda>i. (i, ring_steps r ! i)) is) buckets
    = Inr (fill buckets (map (step_occurrence (map searched_key (edge_searches c)) r) is))"
  using assms(3,4)
proof (induction "is" arbitrary: buckets)
  case (Cons i "is")
  let ?keys = "map searched_key (edge_searches c)" and ?s = "ring_steps r ! i"
  let ?o = "step_occurrence ?keys r i"
  have i: "i < length (ring_steps r)" using Cons.prems(1) by simp
  have e: "step_edge ?s < length buckets" using indexable_ring(3)[OF assms(1,2) i] Cons.prems(2) by simp
  have "add_occurrence d c r (i, ?s) buckets = Inr (buckets[step_edge ?s := buckets ! step_edge ?s @ [?o]])"
    using e by (simp add: add_occurrence_def canonical_instance_Inr[OF assms(1,2) i] nthE_def step_occurrence_def)
  moreover have "buckets[step_edge ?s := buckets ! step_edge ?s @ [?o]] = fill buckets [?o]"
    using e by (auto simp: fill_def nth_list_update step_occurrence_def intro!: nth_equalityI)
  ultimately show ?case using Cons.IH[of "fill buckets [?o]"] Cons.prems by simp
qed simp

lemma enumerate_nth: "List.enumerate 0 xs = map (\<lambda>i. (i, xs ! i)) [0..<length xs]"
  by (auto simp: nth_enumerate_eq intro!: nth_equalityI)

lemma build_edge_occurrences_Inr:
  assumes "indexable d c"
  defines "keys \<equiv> map searched_key (edge_searches c)"
  shows "build_edge_occurrences d c = Inr (map (\<lambda>e. sort (filter (\<lambda>x. occurrence_edge x = e)
      (concat (map (ring_occurrences keys) (rings c))))) [0..<length (edge_searches c)])"
proof -
  have "foldE (\<lambda>ring. foldE (add_occurrence d c ring) (List.enumerate 0 (ring_steps ring))) rs buckets
      = Inr (fill buckets (concat (map (ring_occurrences keys) rs)))"
    if "set rs \<subseteq> set (rings c)" "length buckets = length (edge_searches c)" for rs buckets
    using that
  proof (induction rs arbitrary: buckets)
    case (Cons r rs)
    then have r: "r \<in> set (rings c)" by simp
    have "foldE (add_occurrence d c r) (List.enumerate 0 (ring_steps r)) buckets = Inr (fill buckets (ring_occurrences keys r))"
      unfolding enumerate_nth ring_occurrences_def keys_def
      by (rule add_occurrences[OF assms(1) r]) (use Cons.prems(2) in auto)
    with Cons show ?case by simp
  qed simp
  from this[of "rings c" "map (\<lambda>_. []) (edge_searches c)"] show ?thesis
    by (simp add: build_edge_occurrences_def fill_def comp_def cong: map_cong)
qed

lemma build_primitive_ring_index_Inr:
  assumes "indexable d c"
  defines "keys \<equiv> map searched_key (edge_searches c)"
  shows "build_primitive_ring_index d c = Inr \<lparr>indexed_catalog = c, index_digest = d,
    index_ring_keys = map ring_key (rings c), index_edge_keys = keys,
    edge_to_occurrences = map (\<lambda>e. sort (filter (\<lambda>x. occurrence_edge x = e)
      (concat (map (ring_occurrences keys) (rings c))))) [0..<length (edge_searches c)]\<rparr>"
proof -
  have "sorted_wrt (<) (map ring_key (rings c))" "sorted_wrt (<) keys"
    using assms(1) by (simp_all add: indexable_def catalog_valid_def keys_def)
  then have "sort (map ring_key (rings c)) = map ring_key (rings c)" "distinct (map ring_key (rings c))"
    "sort keys = keys" "distinct keys"
    using strict_sorted_iff sorted_sort_id by blast+
  then show ?thesis
    using build_edge_occurrences_Inr[OF assms(1)]
    by (simp add: build_primitive_ring_index_def make_ring_index_def Let_def keys_def)
qed

section \<open>Lookups on a built index\<close>

definition index_of_catalog :: "string \<Rightarrow> ring_catalog \<Rightarrow> ring_index" where
  "index_of_catalog d c = (let keys = map searched_key (edge_searches c) in
     \<lparr>indexed_catalog = c, index_digest = d, index_ring_keys = map ring_key (rings c), index_edge_keys = keys,
      edge_to_occurrences = map (\<lambda>e. sort (filter (\<lambda>x. occurrence_edge x = e)
        (concat (map (ring_occurrences keys) (rings c))))) [0..<length (edge_searches c)]\<rparr>)"

lemma index_of_catalog_fields [simp]:
  "indexed_catalog (index_of_catalog d c) = c" "index_digest (index_of_catalog d c) = d"
  "index_ring_keys (index_of_catalog d c) = map ring_key (rings c)"
  "index_edge_keys (index_of_catalog d c) = map searched_key (edge_searches c)"
  by (simp_all add: index_of_catalog_def Let_def)

lemma indexable_keys:
  assumes "indexable d c"
  shows "sorted_wrt (<) (map ring_key (rings c))" and "sorted_wrt (<) (map searched_key (edge_searches c))"
  using assms by (simp_all add: indexable_def catalog_valid_def)

lemma ring_id_for_key_Inr_iff:
  "indexable d c \<Longrightarrow> ring_id_for_key (index_of_catalog d c) key = Inr i \<longleftrightarrow> i < length (rings c) \<and> ring_key (rings c ! i) = key"
  using bisect_lookup_Inr_iff[OF indexable_keys(1)] by (auto simp: ring_id_for_key_def)

lemma edge_index_for_key_Inr_iff:
  "indexable d c \<Longrightarrow> edge_index_for_key (index_of_catalog d c) key = Inr i \<longleftrightarrow>
     i < length (edge_searches c) \<and> searched_key (edge_searches c ! i) = key"
  using bisect_lookup_Inr_iff[OF indexable_keys(2)] by (auto simp: edge_index_for_key_def)

lemma ring_for_key_Inr_iff:
  assumes "indexable d c"
  shows "ring_for_key (index_of_catalog d c) key = Inr r \<longleftrightarrow> r \<in> set (rings c) \<and> ring_key r = key"
  using ring_id_for_key_Inr_iff[OF assms]
  by (auto simp: ring_for_key_def bindE_Inr_iff nthE_Inr_iff in_set_conv_nth)

definition translated_instance :: "string \<Rightarrow> framework_edge_key list \<Rightarrow> shift \<Rightarrow> primitive_ring \<Rightarrow> nat \<Rightarrow> lifted_edge_instance" where
  "translated_instance d keys s r i =
     LiftedEdgeInstanceRef d (keys ! step_edge (ring_steps r ! i)) (add_shift (step_anchor keys r i) s)"

lemma translated_edge_instances_Inr:
  assumes c: "indexable d c" and r: "r \<in> set (rings c)" "ring_key r = placed_key p" and p: "placed_digest p = d"
  shows "translated_edge_instances (index_of_catalog d c) p =
    Inr (map (translated_instance d (map searched_key (edge_searches c)) (placement_shift p) r) [0..<length (ring_steps r)])"
proof -
  let ?keys = "map searched_key (edge_searches c)"
  have "ring_for_key (index_of_catalog d c) (placed_key p) = Inr r" using ring_for_key_Inr_iff[OF c] r by simp
  moreover have "mapE (canonical_edge_instance_for_step d c r) [0..<ring_size r] =
      Inr (map (\<lambda>i. LiftedEdgeInstanceRef d (?keys ! step_edge (ring_steps r ! i)) (step_anchor ?keys r i)) [0..<ring_size r])"
    by (rule mapE_total) (use canonical_instance_Inr[OF c r(1)] indexable_ring(1)[OF c r(1)] in simp)
  ultimately have canonical: "canonical_edge_instances (index_of_catalog d c) (placed_key p) =
      Inr (map (\<lambda>i. LiftedEdgeInstanceRef d (?keys ! step_edge (ring_steps r ! i)) (step_anchor ?keys r i)) [0..<length (ring_steps r)])"
    by (simp add: canonical_edge_instances_def indexable_ring(1)[OF c r(1)])
  have "d \<noteq> []" using c by (simp add: indexable_def)
  then have "mapE (\<lambda>edge. make_edge_instance d (instance_edge edge) (add_shift (anchor_shift edge) s))
      (map f is) = Inr (map (\<lambda>i. LiftedEdgeInstanceRef d (instance_edge (f i)) (add_shift (anchor_shift (f i)) s)) is)"
    for s f and "is" :: "nat list"
    by (induction "is") (simp_all add: make_edge_instance_def)
  with canonical p show ?thesis
    by (simp add: translated_edge_instances_def validate_placement_source_def translated_instance_def)
qed

lemma translated_edge_instances_known:
  assumes c: "indexable d c" and "translated_edge_instances (index_of_catalog d c) p = Inr edges"
  shows "placed_digest p = d" and "\<exists>r \<in> set (rings c). ring_key r = placed_key p"
proof -
  from assms(2) show "placed_digest p = d"
    by (auto simp: translated_edge_instances_def validate_placement_source_def bindE_Inr_iff guardE_Inr_iff)
  from assms(2) obtain r where "ring_for_key (index_of_catalog d c) (placed_key p) = Inr r"
    by (auto simp: translated_edge_instances_def canonical_edge_instances_def bindE_Inr_iff)
  then show "\<exists>r \<in> set (rings c). ring_key r = placed_key p" using ring_for_key_Inr_iff[OF c] by blast
qed

section \<open>Covering placements\<close>

definition edge_placement :: "string \<Rightarrow> shift \<Rightarrow> edge_occurrence \<Rightarrow> ring_edge_placement" where
  "edge_placement d anchor x = RingEdgePlacement
     (RingPlacement d (occurrence_key x) (subtract_shift anchor (canonical_anchor_shift x)))
     (occurrence_step x) (occurrence_orientation x)"

definition occurrences_of_edge :: "ring_catalog \<Rightarrow> nat \<Rightarrow> edge_occurrence list" where
  "occurrences_of_edge c e = filter (\<lambda>x. occurrence_edge x = e)
     (concat (map (ring_occurrences (map searched_key (edge_searches c))) (rings c)))"

lemma in_occurrences_of_edge:
  "x \<in> set (occurrences_of_edge c e) \<longleftrightarrow> (\<exists>r \<in> set (rings c). \<exists>i < length (ring_steps r).
     x = step_occurrence (map searched_key (edge_searches c)) r i \<and> step_edge (ring_steps r ! i) = e)"
proof -
  have edge: "occurrence_edge (step_occurrence keys r i) = step_edge (ring_steps r ! i)" for keys r i
    by (simp add: step_occurrence_def)
  have one: "x \<in> set (ring_occurrences keys r) \<longleftrightarrow> (\<exists>i < length (ring_steps r). x = step_occurrence keys r i)" for keys r
    by (auto simp: ring_occurrences_def)
  show ?thesis unfolding occurrences_of_edge_def by (simp add: one) (metis edge)
qed

lemma occurrences_unique:
  assumes c: "indexable d c" and x: "x \<in> set (occurrences_of_edge c e)" "y \<in> set (occurrences_of_edge c e)"
    and "occurrence_key x = occurrence_key y" "occurrence_step x = occurrence_step y"
  shows "x = y"
proof -
  have "inj_on ring_key (set (rings c))"
    using indexable_keys(1)[OF c] strict_sorted_iff distinct_map by blast
  with assms(2-) show ?thesis
    unfolding in_occurrences_of_edge by (auto simp: step_occurrence_def dest: inj_onD)
qed

lemma distinct_occurrences_of_edge:
  assumes c: "indexable d c"
  shows "distinct (occurrences_of_edge c e)"
proof -
  let ?keys = "map searched_key (edge_searches c)"
  have "distinct (concat (map (ring_occurrences ?keys) rs))" if "distinct (map ring_key rs)" for rs
    using that
  proof (induction rs)
    case (Cons r rs)
    have "distinct (ring_occurrences ?keys r)"
      by (auto simp: ring_occurrences_def distinct_map step_occurrence_def inj_on_def)
    with Cons show ?case by (auto simp: ring_occurrences_def step_occurrence_def)
  qed simp
  moreover have "distinct (map ring_key (rings c))" using indexable_keys(1)[OF c] strict_sorted_iff by blast
  ultimately show ?thesis by (simp add: occurrences_of_edge_def)
qed

lemma covering_placements_Inr:
  assumes c: "indexable d c" and edge: "instance_digest edge = d"
    and e: "e < length (edge_searches c)" "searched_key (edge_searches c ! e) = instance_edge edge"
  shows "ring_placements_covering_edge (index_of_catalog d c) edge =
    Inr (sort (map (edge_placement d (anchor_shift edge)) (sort (occurrences_of_edge c e))))"
    and "distinct (map (edge_placement d (anchor_shift edge)) (sort (occurrences_of_edge c e)))"
proof -
  let ?f = "edge_placement d (anchor_shift edge)" and ?os = "sort (occurrences_of_edge c e)"
  have "inj_on ?f (set (occurrences_of_edge c e))"
    by (rule inj_onI) (auto simp: edge_placement_def intro: occurrences_unique[OF c])
  then show distinct: "distinct (map ?f ?os)"
    using distinct_occurrences_of_edge[OF c] by (simp add: distinct_map)
  have "edge_index_for_key (index_of_catalog d c) (instance_edge edge) = Inr e"
    using edge_index_for_key_Inr_iff[OF c] e by simp
  moreover have "nthE (edge_to_occurrences (index_of_catalog d c)) e = Inr ?os"
    using e(1) by (simp add: index_of_catalog_def Let_def nthE_def occurrences_of_edge_def)
  moreover have "d \<noteq> []" using c by (simp add: indexable_def)
  then have "mapE (placement_of_occurrence (index_of_catalog d c) edge) ?os = Inr (map ?f ?os)"
    by (intro mapE_total) (simp add: placement_of_occurrence_def edge_placement_def)
  ultimately show "ring_placements_covering_edge (index_of_catalog d c) edge = Inr (sort (map ?f ?os))"
    using distinct edge by (simp add: ring_placements_covering_edge_def)
qed

lemma covering_placement_iff:
  assumes c: "indexable d c" and edge: "instance_digest edge = d"
    and e: "e < length (edge_searches c)" "searched_key (edge_searches c ! e) = instance_edge edge"
  shows "p \<in> edge_placement d (anchor_shift edge) ` set (occurrences_of_edge c e) \<longleftrightarrow>
    (\<exists>r \<in> set (rings c). \<exists>edges. placed_key (covering p) = ring_key r
       \<and> translated_edge_instances (index_of_catalog d c) (covering p) = Inr edges
       \<and> covering_step p < length edges \<and> edges ! covering_step p = edge
       \<and> covering_orientation p = step_orientation (ring_steps r ! covering_step p))"
    (is "_ \<longleftrightarrow> (\<exists>r \<in> set (rings c). \<exists>edges. ?P r edges)")
proof -
  let ?keys = "map searched_key (edge_searches c)"
  have inverse: "add_shift a s = z \<longleftrightarrow> s = subtract_shift z a" for a s z
    by (cases a; cases s; cases z) auto
  have key: "?keys ! k = instance_edge edge \<longleftrightarrow> k = e" if "k < length (edge_searches c)" for k
    using that e indexable_keys(2)[OF c] strict_sorted_iff nth_eq_iff_index_eq[of ?keys k e] by auto
  have one: "(\<exists>edges. ?P r edges) \<longleftrightarrow> (\<exists>i < length (ring_steps r). step_edge (ring_steps r ! i) = e
       \<and> p = edge_placement d (anchor_shift edge) (step_occurrence ?keys r i))" if r: "r \<in> set (rings c)" for r
  proof -
    obtain dd k s i b where p: "p = RingEdgePlacement (RingPlacement dd k s) i b"
      by (metis ring_edge_placement.exhaust ring_placement.exhaust)
    have "(\<exists>edges. ?P r edges) \<longleftrightarrow> dd = d \<and> k = ring_key r \<and> i < length (ring_steps r)
        \<and> translated_instance d ?keys s r i = edge \<and> b = step_orientation (ring_steps r ! i)"
    proof (cases "dd = d \<and> k = ring_key r")
      case True
      with translated_edge_instances_Inr[OF c r, of "RingPlacement dd k s"] show ?thesis by (auto simp: p)
    next
      case False
      with translated_edge_instances_known(1)[OF c, of "RingPlacement dd k s"] show ?thesis by (auto simp: p)
    qed
    also have "\<dots> \<longleftrightarrow> dd = d \<and> k = ring_key r \<and> i < length (ring_steps r) \<and> step_edge (ring_steps r ! i) = e
        \<and> s = subtract_shift (anchor_shift edge) (step_anchor ?keys r i) \<and> b = step_orientation (ring_steps r ! i)"
      using key[OF indexable_ring(3)[OF c r]] edge
      by (cases edge) (auto simp: translated_instance_def inverse)
    also have "\<dots> \<longleftrightarrow> (\<exists>i < length (ring_steps r). step_edge (ring_steps r ! i) = e
       \<and> p = edge_placement d (anchor_shift edge) (step_occurrence ?keys r i))"
      by (auto simp: p edge_placement_def step_occurrence_def)
    finally show ?thesis .
  qed
  have "p \<in> edge_placement d (anchor_shift edge) ` set (occurrences_of_edge c e) \<longleftrightarrow>
      (\<exists>r \<in> set (rings c). \<exists>i < length (ring_steps r). step_edge (ring_steps r ! i) = e
         \<and> p = edge_placement d (anchor_shift edge) (step_occurrence ?keys r i))"
    unfolding image_iff Bex_def in_occurrences_of_edge by blast
  with one show ?thesis by blast
qed

section \<open>Catalogs over built frameworks\<close>

lemma enumerated_indexable:
  assumes "build_framework_topology nsym state mapping rules limits = Inr t"
    and "enumerate_primitive_rings t options = Inr c" and "d \<noteq> []"
  shows "indexable d c"
proof -
  note facts = make_topology_facts[OF built_topology[OF assms(1)]]
  then have "sorted_wrt (<) (map edge_key (topology_edges t))" using strict_sorted_iff by blast
  moreover from enumerated_catalog_made[OF assms(2)] have "\<forall>r \<in> set (rings c). ring_size r = length (ring_steps r)"
    using made_catalog_coherent(1) by blast
  ultimately show ?thesis using enumerated_catalog_valid[OF assms(2)] assms(3) by (simp add: indexable_def)
qed

lemma indexed_catalog_built:
  "indexable d c \<Longrightarrow> build_primitive_ring_index d c = Inr (index_of_catalog d c)"
  by (simp add: build_primitive_ring_index_Inr index_of_catalog_def Let_def)

section \<open>Properties\<close>

text \<open>C22: The index of a catalog over a built framework can always be built.  Asked for the rings through a
  physical edge it returns, each once and in order, exactly the translated rings one of whose physical
  edges is that edge, with its position and direction; asking about an edge that is not of this
  framework raises the input error, and nothing else does.\<close>

theorem ring_placements_exact:
  assumes "build_framework_topology nsym state mapping rules limits = Inr t"
    and "enumerate_primitive_rings t options = Inr c" and "graph_digest \<noteq> []"
  shows "\<exists>index. build_primitive_ring_index graph_digest c = Inr index \<and>
    (if instance_digest edge = graph_digest \<and> instance_edge edge \<in> edge_key ` set (topology_edges t)
     then \<exists>ps. ring_placements_covering_edge index edge = Inr ps \<and> sorted_wrt (<) ps
       \<and> (\<forall>p. p \<in> set ps \<longleftrightarrow> (\<exists>r \<in> set (rings c). \<exists>edges. placed_key (covering p) = ring_key r
            \<and> translated_edge_instances index (covering p) = Inr edges
            \<and> covering_step p < length edges \<and> edges ! covering_step p = edge
            \<and> covering_orientation p = step_orientation (ring_steps r ! covering_step p)))
     else \<exists>m. ring_placements_covering_edge index edge = Inl (PrimitiveRingIndexInputError m))"
proof -
  have c: "indexable graph_digest c" by (rule enumerated_indexable[OF assms])
  note keys = enumerated_catalog_valid(2)[OF assms(2)]
  let ?index = "index_of_catalog graph_digest c"
  have "if instance_digest edge = graph_digest \<and> instance_edge edge \<in> edge_key ` set (topology_edges t)
     then \<exists>ps. ring_placements_covering_edge ?index edge = Inr ps \<and> sorted_wrt (<) ps
       \<and> (\<forall>p. p \<in> set ps \<longleftrightarrow> (\<exists>r \<in> set (rings c). \<exists>edges. placed_key (covering p) = ring_key r
            \<and> translated_edge_instances ?index (covering p) = Inr edges
            \<and> covering_step p < length edges \<and> edges ! covering_step p = edge
            \<and> covering_orientation p = step_orientation (ring_steps r ! covering_step p)))
     else \<exists>m. ring_placements_covering_edge ?index edge = Inl (PrimitiveRingIndexInputError m)"
  proof (cases "instance_digest edge = graph_digest \<and> instance_edge edge \<in> edge_key ` set (topology_edges t)")
    case True
    then have "instance_edge edge \<in> set (map searched_key (edge_searches c))" unfolding keys by simp
    then obtain e where e: "e < length (edge_searches c)" "searched_key (edge_searches c ! e) = instance_edge edge"
      by (auto simp: in_set_conv_nth)
    let ?ps = "map (edge_placement graph_digest (anchor_shift edge)) (sort (occurrences_of_edge c e))"
    have "set (sort ?ps) = edge_placement graph_digest (anchor_shift edge) ` set (occurrences_of_edge c e)" by simp
    moreover have "sorted_wrt (<) (sort ?ps)"
      using covering_placements_Inr(2)[OF c conjunct1[OF True] e] by (simp add: strict_sorted_iff)
    ultimately show ?thesis
      using covering_placements_Inr(1)[OF c conjunct1[OF True] e] covering_placement_iff[OF c conjunct1[OF True] e] True
      by simp
  next
    case False
    then have "instance_digest edge \<noteq> graph_digest \<or> instance_edge edge \<notin> set (map searched_key (edge_searches c))"
      unfolding keys by auto
    then have refused: "\<exists>m. ring_placements_covering_edge ?index edge = Inl (PrimitiveRingIndexInputError m)"
      using bisect_lookup_Inl_iff[OF indexable_keys(2)[OF c]]
      by (cases "instance_digest edge = graph_digest")
        (auto simp: ring_placements_covering_edge_def edge_index_for_key_def bindE_Inl_iff guardE_Inl_iff)
    show ?thesis unfolding if_not_P[OF False] by (rule refused)
  qed
  with indexed_catalog_built[OF c] show ?thesis by blast
qed

theorem ring_placements_exact_witness:
  "\<exists>c index ps. enumerate_primitive_rings ring_topology removed_options = Inr c
     \<and> build_primitive_ring_index ''sha'' c = Inr index
     \<and> ring_placements_covering_edge index
         (LiftedEdgeInstanceRef ''sha'' (edge_key (topology_edges ring_topology ! 4)) (1, 0, 0)) = Inr ps
     \<and> sorted_wrt (<) ps"
proof -
  obtain c where c: "enumerate_primitive_rings ring_topology removed_options = Inr c"
    using ring_expansion_example by (auto split: sum.splits)
  have "edge_key (topology_edges ring_topology ! 4) \<in> edge_key ` set (topology_edges ring_topology)"
    using ring_topology_example(1) by simp
  with ring_placements_exact[OF ring_topology_built c, of "''sha''"
      "LiftedEdgeInstanceRef ''sha'' (edge_key (topology_edges ring_topology ! 4)) (1, 0, 0)"] c
  show ?thesis by fastforce
qed

text \<open>C23: Bisection makes the two numberings of a catalog over a built framework round trips: looking up the key
  of a ring or of an edge returns its own number, and a number found for a key names a ring or an
  edge with that key.\<close>

theorem index_numbers_roundtrip:
  assumes "build_framework_topology nsym state mapping rules limits = Inr t"
    and "enumerate_primitive_rings t options = Inr c" and "graph_digest \<noteq> []"
    and "build_primitive_ring_index graph_digest c = Inr index"
  shows "(ring_id_for_key index key = Inr i \<longleftrightarrow> i < length (rings c) \<and> ring_key (rings c ! i) = key)
    \<and> (edge_index_for_key index edge = Inr k \<longleftrightarrow> edge_key_for_index index k = Inr edge)"
proof -
  have c: "indexable graph_digest c" by (rule enumerated_indexable[OF assms(1-3)])
  with assms(4) have index: "index = index_of_catalog graph_digest c" by (simp add: indexed_catalog_built)
  show ?thesis unfolding index
    using ring_id_for_key_Inr_iff[OF c] edge_index_for_key_Inr_iff[OF c] by (auto simp: edge_key_for_index_def)
qed

theorem index_numbers_roundtrip_witness:
  "\<exists>c index. build_primitive_ring_index ''sha'' c = Inr index \<and> rings c \<noteq> []
     \<and> ring_id_for_key index (ring_key (rings c ! 0)) = Inr 0"
proof -
  obtain c where c: "enumerate_primitive_rings ring_topology removed_options = Inr c" "rings c \<noteq> []"
    using ring_expansion_example by (auto split: sum.splits)
  have "indexable ''sha'' c" by (rule enumerated_indexable[OF ring_topology_built c(1)]) simp
  from indexed_catalog_built[OF this] have built: "build_primitive_ring_index ''sha'' c = Inr (index_of_catalog ''sha'' c)" .
  with index_numbers_roundtrip[OF ring_topology_built c(1) _ built] c(2) show ?thesis by force
qed

end
