(* ===== verification/Gf2_Elimination.thy ===== *)
theory Gf2_Elimination
  imports Prelude
begin

unbundle bit_operations_syntax

text \<open>
  The Gaussian elimination over GF(2) of \<open>mdstats/analysis/primitive_ring_cancellation.py\<close>
  (\<open>_reduce_with_basis\<close> and the loops of \<open>solve_finite_ring_cancellation\<close>).  A vector is a nonnegative
  Python integer whose bits are its entries, and a second integer records the candidates that were
  added up.

  The reduction loop is a partial function, since it does not end for an arbitrary basis; on the bases
  that the elimination builds it always does.  A vector is read as the set of its bits, and a sum of
  vectors as the set of bits that an odd number of them has.
\<close>

section \<open>The elimination\<close>

fun bit_length :: "nat \<Rightarrow> nat" where
  "bit_length n = (if n = 0 then 0 else Suc (bit_length (n div 2)))"

declare bit_length.simps [simp del]

type_synonym gf2_basis = "(nat \<times> nat \<times> nat) list"

partial_function (option) reduce_with_basis :: "nat \<Rightarrow> nat \<Rightarrow> gf2_basis \<Rightarrow> (nat \<times> nat) option" where
  [code]: "reduce_with_basis vector combination basis =
     (if vector = 0 then Some (vector, combination)
      else case map_of basis (bit_length vector - 1) of
        None \<Rightarrow> Some (vector, combination)
      | Some row \<Rightarrow> reduce_with_basis (vector XOR fst row) (combination XOR snd row) basis)"

definition add_candidate :: "nat \<times> nat \<Rightarrow> gf2_basis \<Rightarrow> gf2_basis option" where
  "add_candidate = (\<lambda>(index, vector) basis.
     case reduce_with_basis vector (push_bit index 1) basis of
       None \<Rightarrow> None
     | Some (reduced, combination) \<Rightarrow>
         Some (if reduced \<noteq> 0 then AList.update (bit_length reduced - 1) (reduced, combination) basis else basis))"

fun eliminate :: "(nat \<times> nat) list \<Rightarrow> gf2_basis \<Rightarrow> gf2_basis option" where
  "eliminate [] basis = Some basis"
| "eliminate (c # cs) basis = (case add_candidate c basis of None \<Rightarrow> None | Some basis' \<Rightarrow> eliminate cs basis')"

definition solve_membership :: "nat list \<Rightarrow> nat \<Rightarrow> (nat \<times> nat) option" where
  "solve_membership candidates target =
     (case eliminate (List.enumerate 0 candidates) [] of
        None \<Rightarrow> None | Some basis \<Rightarrow> reduce_with_basis target 0 basis)"

section \<open>Bits\<close>

definition bits :: "nat \<Rightarrow> nat set" where
  "bits n = {b. bit n b}"

lemma bits_simps [simp]:
  "bits 0 = {}" "bits (a XOR b) = bits a - bits b \<union> (bits b - bits a)" "bits (push_bit k 1) = {k}" "bits (2 ^ k) = {k}"
  by (auto simp: bits_def bit_xor_iff bit_exp_iff)

lemma bits_inject: "bits a = bits b \<longleftrightarrow> a = b"
  by (auto simp: bits_def bit_eq_iff)

lemma bits_empty_iff [simp]: "bits n = {} \<longleftrightarrow> n = 0"
  using bits_inject[of n 0] by simp

lemma bit_length_bits:
  "n \<noteq> 0 \<Longrightarrow> bit_length n = Suc p \<longleftrightarrow> p \<in> bits n \<and> (\<forall>b \<in> bits n. b \<le> p)"
proof (induction n arbitrary: p rule: bit_length.induct)
  case (1 n)
  show ?case
  proof (cases "n = 1")
    case True
    then show ?thesis by (auto simp: bit_length.simps[of "Suc 0"] bit_length.simps[of 0] bits_def bit_Suc_0_iff)
  next
    case False
    with "1.prems" have half: "n div 2 \<noteq> 0" by simp
    have bits: "b \<in> bits n \<longleftrightarrow> b = 0 \<and> odd n \<or> (\<exists>b'. b = Suc b' \<and> b' \<in> bits (n div 2))" for b
      by (cases b) (auto simp: bits_def bit_0 bit_Suc)
    obtain q where q: "bit_length (n div 2) = Suc q" using half by (metis bit_length.simps)
    with "1.IH"[OF "1.prems" half] have top: "q \<in> bits (n div 2)" "\<forall>b \<in> bits (n div 2). b \<le> q" by blast+
    have "bit_length n = Suc (Suc q)" using "1.prems" q by (simp add: bit_length.simps[of n])
    moreover have "p \<in> bits n \<and> (\<forall>b \<in> bits n. b \<le> p) \<longleftrightarrow> p = Suc q"
    proof
      assume p: "p \<in> bits n \<and> (\<forall>b \<in> bits n. b \<le> p)"
      have "Suc q \<in> bits n" unfolding bits using top(1) by blast
      with p have "Suc q \<le> p" by blast
      with p bits[of p] top(2) show "p = Suc q" by (metis Suc_le_mono le_antisym not_less_eq_eq zero_le)
    next
      assume p: "p = Suc q"
      show "p \<in> bits n \<and> (\<forall>b \<in> bits n. b \<le> p)"
        using top unfolding p Ball_def bits by auto
    qed
    ultimately show ?thesis by auto
  qed
qed

lemma bit_length_Suc: "n \<noteq> 0 \<Longrightarrow> \<exists>p. bit_length n = Suc p"
  by (metis bit_length.simps)

lemma top_bit:
  assumes "n \<noteq> 0"
  shows "bit_length n - 1 \<in> bits n" and "b \<in> bits n \<Longrightarrow> b \<le> bit_length n - 1"
proof -
  obtain p where p: "bit_length n = Suc p" using bit_length_Suc[OF assms] by blast
  with bit_length_bits[OF assms] have "p \<in> bits n" "\<forall>b \<in> bits n. b \<le> p" by blast+
  with p show "bit_length n - 1 \<in> bits n" "b \<in> bits n \<Longrightarrow> b \<le> bit_length n - 1" by simp_all
qed

lemma finite_bits [simp]: "finite (bits n)"
proof (cases "n = 0")
  case False
  then have "bits n \<subseteq> {..bit_length n - 1}" using top_bit(2) by blast
  then show ?thesis by (rule finite_subset) simp
qed simp

section \<open>Sums of vectors\<close>

definition parity_sum :: "('i \<Rightarrow> 'b set) \<Rightarrow> 'i set \<Rightarrow> 'b set" where
  "parity_sum f P = {b. odd (card {i \<in> P. b \<in> f i})}"

definition sym_difference :: "'a set \<Rightarrow> 'a set \<Rightarrow> 'a set" where
  "sym_difference A B = A - B \<union> (B - A)"

lemma in_sym_difference: "x \<in> sym_difference A B \<longleftrightarrow> (x \<in> A) \<noteq> (x \<in> B)"
  by (auto simp: sym_difference_def)

lemma sym_difference_simps [simp]:
  "sym_difference A {} = A" "sym_difference {} A = A" "sym_difference A A = {}"
  by (auto simp: sym_difference_def)

lemma sym_difference_cancel:
  "sym_difference A (sym_difference A B) = B" "sym_difference (sym_difference A B) B = A"
  by (auto simp: sym_difference_def)

lemma finite_sym_difference [simp]: "finite A \<Longrightarrow> finite B \<Longrightarrow> finite (sym_difference A B)"
  by (simp add: sym_difference_def)

lemma bits_xor: "bits (a XOR b) = sym_difference (bits a) (bits b)"
  by (simp add: sym_difference_def)

lemma parity_sum_empty [simp]: "parity_sum f {} = {}"
  by (simp add: parity_sum_def)

lemma parity_sum_insert:
  assumes "finite P" and "i \<notin> P"
  shows "parity_sum f (insert i P) = sym_difference (f i) (parity_sum f P)"
proof (rule set_eqI)
  fix b
  have "{j \<in> insert i P. b \<in> f j} = (if b \<in> f i then insert i {j \<in> P. b \<in> f j} else {j \<in> P. b \<in> f j})" by auto
  with assms show "b \<in> parity_sum f (insert i P) \<longleftrightarrow> b \<in> sym_difference (f i) (parity_sum f P)"
    by (simp add: parity_sum_def in_sym_difference)
qed

lemma parity_sum_single [simp]: "parity_sum f {i} = f i"
  using parity_sum_insert[of "{}" i f] by simp

lemma parity_sum_cong: "(\<And>i. i \<in> P \<Longrightarrow> f i = g i) \<Longrightarrow> parity_sum f P = parity_sum g P"
  by (simp add: parity_sum_def cong: conj_cong)

lemma odd_card_sym_difference:
  assumes "finite A" and "finite B"
  shows "odd (card (sym_difference A B)) \<longleftrightarrow> odd (card A) \<noteq> odd (card B)"
proof -
  have "card A = card (A \<inter> B) + card (A - B)" "card B = card (B \<inter> A) + card (B - A)"
    by (rule card_Int_Diff, fact)+
  moreover have "card (sym_difference A B) = card (A - B) + card (B - A)"
    unfolding sym_difference_def using assms by (intro card_Un_disjoint) auto
  ultimately show ?thesis unfolding Int_commute[of B A] by presburger
qed

lemma parity_sum_sym_difference:
  assumes "finite P" and "finite Q"
  shows "parity_sum f (sym_difference P Q) = sym_difference (parity_sum f P) (parity_sum f Q)"
proof (rule set_eqI)
  fix b
  have "{i \<in> sym_difference P Q. b \<in> f i} = sym_difference {i \<in> P. b \<in> f i} {i \<in> Q. b \<in> f i}"
    by (auto simp: in_sym_difference)
  with odd_card_sym_difference[of "{i \<in> P. b \<in> f i}" "{i \<in> Q. b \<in> f i}"] assms
  show "b \<in> parity_sum f (sym_difference P Q) \<longleftrightarrow> b \<in> sym_difference (parity_sum f P) (parity_sum f Q)"
    by (simp add: parity_sum_def in_sym_difference)
qed

section \<open>The rows of a basis and their span\<close>

definition row_value :: "gf2_basis \<Rightarrow> nat \<Rightarrow> nat set" where
  "row_value basis p = bits (fst (the (map_of basis p)))"

definition row_span :: "gf2_basis \<Rightarrow> nat set set" where
  "row_span basis = {V. \<exists>P. P \<subseteq> dom (map_of basis) \<and> V = parity_sum (row_value basis) P}"

definition pivot_rows :: "gf2_basis \<Rightarrow> bool" where
  "pivot_rows basis \<longleftrightarrow> (\<forall>p row. map_of basis p = Some row \<longrightarrow> fst row \<noteq> 0 \<and> bit_length (fst row) = Suc p)"

definition sums_candidates :: "nat list \<Rightarrow> nat \<Rightarrow> nat set \<Rightarrow> nat \<Rightarrow> nat \<Rightarrow> bool" where
  "sums_candidates cs k base v c \<longleftrightarrow>
     bits c \<subseteq> {..<k} \<and> bits v = sym_difference base (parity_sum (\<lambda>i. bits (cs ! i)) (bits c))"

lemma finite_dom_subset: "P \<subseteq> dom (map_of basis) \<Longrightarrow> finite P"
  using finite_dom_map_of finite_subset by blast

lemma empty_in_span [simp]: "{} \<in> row_span basis"
  by (auto simp: row_span_def intro!: exI[of _ "{}"])

lemma row_in_span: "map_of basis p = Some row \<Longrightarrow> bits (fst row) \<in> row_span basis"
  unfolding row_span_def by (auto simp: row_value_def intro!: exI[of _ "{p}"])

lemma span_sym_difference:
  assumes "U \<in> row_span basis" and "V \<in> row_span basis"
  shows "sym_difference U V \<in> row_span basis"
proof -
  obtain P Q where PQ: "P \<subseteq> dom (map_of basis)" "Q \<subseteq> dom (map_of basis)"
    and UV: "U = parity_sum (row_value basis) P" "V = parity_sum (row_value basis) Q"
    using assms unfolding row_span_def by blast
  have "sym_difference U V = parity_sum (row_value basis) (sym_difference P Q)"
    unfolding UV using parity_sum_sym_difference[OF finite_dom_subset finite_dom_subset] PQ by metis
  moreover have "sym_difference P Q \<subseteq> dom (map_of basis)" using PQ unfolding sym_difference_def by blast
  ultimately show ?thesis unfolding row_span_def by blast
qed

lemma span_of_sums:
  assumes "finite S" and "\<And>i. i \<in> S \<Longrightarrow> f i \<in> row_span basis"
  shows "parity_sum f S \<in> row_span basis"
  using assms by (induction S rule: finite_induct) (simp_all add: parity_sum_insert span_sym_difference)

lemma row_value_top:
  assumes "pivot_rows basis" and "p \<in> dom (map_of basis)"
  shows "p \<in> row_value basis p" and "b \<in> row_value basis p \<Longrightarrow> b \<le> p"
proof -
  obtain row where row: "map_of basis p = Some row" using assms(2) by blast
  with assms(1) have "fst row \<noteq> 0" "bit_length (fst row) = Suc p" unfolding pivot_rows_def by blast+
  with top_bit[of "fst row"] row
  show "p \<in> row_value basis p" "b \<in> row_value basis p \<Longrightarrow> b \<le> p" by (simp_all add: row_value_def)
qed

text \<open>A nonzero sum of rows has its top bit at the largest pivot that it uses.\<close>

lemma span_top_bit:
  assumes rows: "pivot_rows basis" and v: "v \<noteq> 0" and span: "bits v \<in> row_span basis"
  shows "bit_length v - 1 \<in> dom (map_of basis)"
proof -
  obtain P where P: "P \<subseteq> dom (map_of basis)" and sum: "bits v = parity_sum (row_value basis) P"
    using span unfolding row_span_def by blast
  have fin: "finite P" by (rule finite_dom_subset[OF P])
  have "P \<noteq> {}" using sum v by auto
  then have max: "Max P \<in> P" "\<And>p. p \<in> P \<Longrightarrow> p \<le> Max P" using fin by simp_all
  have only: "{p \<in> P. Max P \<in> row_value basis p} = {Max P}"
  proof (intro equalityI subsetI)
    fix p assume "p \<in> {p \<in> P. Max P \<in> row_value basis p}"
    then have "p \<in> P" "Max P \<le> p" using P row_value_top(2)[OF rows] by blast+
    then show "p \<in> {Max P}" using max(2)[of p] by simp
  next
    fix p assume "p \<in> {Max P}"
    then show "p \<in> {p \<in> P. Max P \<in> row_value basis p}" using max(1) P row_value_top(1)[OF rows] by blast
  qed
  have "Max P \<in> bits v" unfolding sum parity_sum_def mem_Collect_eq only by simp
  moreover have "b \<le> Max P" if b: "b \<in> bits v" for b
  proof -
    have "odd (card {p \<in> P. b \<in> row_value basis p})" using b unfolding sum parity_sum_def by simp
    then have "{p \<in> P. b \<in> row_value basis p} \<noteq> {}" by (metis card.empty even_zero)
    then obtain p where "p \<in> P" "b \<in> row_value basis p" by blast
    with P row_value_top(2)[OF rows] max(2) show ?thesis by (meson order_trans subset_iff)
  qed
  ultimately have "bit_length v = Suc (Max P)" using bit_length_bits[OF v] by blast
  with max(1) P show ?thesis by auto
qed

section \<open>The reduction ends\<close>

lemma bit_length_xor:
  assumes v: "v \<noteq> 0" and w: "w \<noteq> 0" and len: "bit_length w = bit_length v"
  shows "bit_length (v XOR w) < bit_length v"
proof (cases "v XOR w = 0")
  case True
  with bit_length_Suc[OF v] show ?thesis by (auto simp: bit_length.simps[of 0])
next
  case False
  let ?b = "bit_length (v XOR w) - 1"
  obtain p where p: "bit_length v = Suc p" using bit_length_Suc[OF v] by blast
  have "?b \<in> sym_difference (bits v) (bits w)" using top_bit(1)[OF False] unfolding bits_xor .
  then have "?b \<le> p" "?b \<noteq> p"
    using top_bit[OF v] top_bit[OF w] len p by (auto simp: in_sym_difference)
  with p show ?thesis by linarith
qed

lemma reduce_with_basis_spec:
  assumes rows: "pivot_rows basis"
    and sums: "\<forall>p row. map_of basis p = Some row \<longrightarrow> sums_candidates cs k {} (fst row) (snd row)"
  shows "sums_candidates cs k base v c \<Longrightarrow>
    \<exists>r c'. reduce_with_basis v c basis = Some (r, c') \<and> sums_candidates cs k base r c'
      \<and> sym_difference (bits v) (bits r) \<in> row_span basis
      \<and> (r \<noteq> 0 \<longrightarrow> bit_length r - 1 \<notin> dom (map_of basis))"
proof (induction "bit_length v" arbitrary: v c rule: less_induct)
  case less
  show ?case
  proof (cases "v = 0 \<or> map_of basis (bit_length v - 1) = None")
    case True
    then show ?thesis using less.prems
      by (subst reduce_with_basis.simps) auto
  next
    case False
    then obtain row where row: "map_of basis (bit_length v - 1) = Some row" and v: "v \<noteq> 0" by auto
    let ?v = "v XOR fst row" and ?c = "c XOR snd row"
    have step: "reduce_with_basis v c basis = reduce_with_basis ?v ?c basis"
      using v row by (subst reduce_with_basis.simps) simp
    have "fst row \<noteq> 0" "bit_length (fst row) = bit_length v"
      using rows row bit_length_Suc[OF v] unfolding pivot_rows_def by fastforce+
    then have short: "bit_length ?v < bit_length v" by (intro bit_length_xor v)
    have "sums_candidates cs k base ?v ?c"
      using less.prems sums[rule_format, OF row] unfolding sums_candidates_def bits_xor
      by (auto simp: parity_sum_sym_difference in_sym_difference)
    from less.hyps[OF short this] obtain r c' where r: "reduce_with_basis ?v ?c basis = Some (r, c')"
      "sums_candidates cs k base r c'" "sym_difference (bits ?v) (bits r) \<in> row_span basis"
      "r \<noteq> 0 \<longrightarrow> bit_length r - 1 \<notin> dom (map_of basis)" by blast
    have "sym_difference (bits v) (bits r) = sym_difference (sym_difference (bits ?v) (bits r)) (bits (fst row))"
      unfolding bits_xor by (auto simp: in_sym_difference)
    with span_sym_difference[OF r(3) row_in_span[OF row]] r step show ?thesis by auto
  qed
qed

section \<open>What the elimination decides\<close>

definition eliminated :: "nat list \<Rightarrow> nat \<Rightarrow> gf2_basis \<Rightarrow> bool" where
  "eliminated cs k basis \<longleftrightarrow> pivot_rows basis
     \<and> (\<forall>p row. map_of basis p = Some row \<longrightarrow> sums_candidates cs k {} (fst row) (snd row))
     \<and> (\<forall>i < k. bits (cs ! i) \<in> row_span basis)"

lemma eliminated_rows:
  "eliminated cs k basis \<Longrightarrow> \<forall>p row. map_of basis p = Some row \<longrightarrow> sums_candidates cs k {} (fst row) (snd row)"
  by (simp add: eliminated_def)

lemma eliminated_Nil: "eliminated cs 0 []"
  by (simp add: eliminated_def pivot_rows_def)

lemma sums_candidates_mono: "sums_candidates cs k base v c \<Longrightarrow> k \<le> l \<Longrightarrow> sums_candidates cs l base v c"
  by (auto simp: sums_candidates_def)

lemma row_span_update:
  assumes "p \<notin> dom (map_of basis)"
  shows "row_span basis \<subseteq> row_span (AList.update p row basis)"
proof
  fix V assume "V \<in> row_span basis"
  then obtain P where P: "P \<subseteq> dom (map_of basis)" "V = parity_sum (row_value basis) P"
    unfolding row_span_def by blast
  have "parity_sum (row_value basis) P = parity_sum (row_value (AList.update p row basis)) P"
    using P(1) assms by (intro parity_sum_cong) (auto simp: row_value_def update_conv')
  moreover have "P \<subseteq> dom (map_of (AList.update p row basis))" using P(1) by (auto simp: update_conv')
  ultimately show "V \<in> row_span (AList.update p row basis)" using P(2) unfolding row_span_def by blast
qed

lemma add_candidate_eliminated:
  assumes basis: "eliminated cs k basis"
  shows "\<exists>basis'. add_candidate (k, cs ! k) basis = Some basis' \<and> eliminated cs (Suc k) basis'"
proof -
  have rows: "pivot_rows basis" and sums: "\<forall>p row. map_of basis p = Some row \<longrightarrow>
      sums_candidates cs (Suc k) {} (fst row) (snd row)"
    using basis by (auto simp: eliminated_def intro: sums_candidates_mono[of _ k])
  have "sums_candidates cs (Suc k) {} (cs ! k) (push_bit k 1)" unfolding sums_candidates_def by simp
  from reduce_with_basis_spec[OF rows sums this] obtain r c where
    r: "reduce_with_basis (cs ! k) (push_bit k 1) basis = Some (r, c)" "sums_candidates cs (Suc k) {} r c"
    and span: "sym_difference (bits (cs ! k)) (bits r) \<in> row_span basis"
    and top: "r \<noteq> 0 \<longrightarrow> bit_length r - 1 \<notin> dom (map_of basis)" by blast
  show ?thesis
  proof (cases "r = 0")
    case True
    then have "bits (cs ! k) \<in> row_span basis" using span by simp
    with basis rows sums have "eliminated cs (Suc k) basis" by (auto simp: eliminated_def less_Suc_eq)
    with True r show ?thesis by (simp add: add_candidate_def)
  next
    case False
    let ?p = "bit_length r - 1"
    let ?basis = "AList.update ?p (r, c) basis"
    have new: "map_of ?basis = (map_of basis)(?p \<mapsto> (r, c))" by (simp add: update_conv')
    have "pivot_rows ?basis"
      using rows False bit_length_Suc[OF False] unfolding pivot_rows_def new by (auto split: if_splits)
    moreover have "\<forall>p row. map_of ?basis p = Some row \<longrightarrow> sums_candidates cs (Suc k) {} (fst row) (snd row)"
      using sums r(2) unfolding new by auto
    moreover have old: "row_span basis \<subseteq> row_span ?basis" using top False by (intro row_span_update) blast
    have "bits r \<in> row_span ?basis" using row_in_span[of ?basis ?p] new by simp
    then have "bits (cs ! k) \<in> row_span ?basis"
      using span_sym_difference[OF subsetD[OF old span]] by (metis sym_difference_cancel(2))
    ultimately have "eliminated cs (Suc k) ?basis"
      using basis old unfolding eliminated_def by (auto simp: less_Suc_eq)
    with False r show ?thesis by (simp add: add_candidate_def)
  qed
qed

lemma eliminate_candidates:
  "eliminated cs k basis \<Longrightarrow> k \<le> length cs \<Longrightarrow>
     \<exists>basis'. eliminate (List.enumerate k (drop k cs)) basis = Some basis' \<and> eliminated cs (length cs) basis'"
proof (induction "length cs - k" arbitrary: k basis)
  case (Suc d)
  then have "drop k cs = cs ! k # drop (Suc k) cs" by (simp add: Cons_nth_drop_Suc)
  with Suc add_candidate_eliminated[OF Suc.prems(1)] show ?case by fastforce
qed simp

text \<open>
  The elimination always ends.  A zero remainder comes with a set of candidates, given by the bits of the
  mask, whose sum is the target; a nonzero remainder means that no set of candidates sums to it.
\<close>

theorem solve_membership_spec:
  "\<exists>r mask. solve_membership cs t = Some (r, mask) \<and> bits mask \<subseteq> {..<length cs}
     \<and> (r = 0 \<longrightarrow> bits t = parity_sum (\<lambda>i. bits (cs ! i)) (bits mask))
     \<and> (r \<noteq> 0 \<longrightarrow> (\<forall>S \<subseteq> {..<length cs}. bits t \<noteq> parity_sum (\<lambda>i. bits (cs ! i)) S))"
proof -
  obtain basis where basis: "eliminate (List.enumerate 0 cs) [] = Some basis" "eliminated cs (length cs) basis"
    using eliminate_candidates[OF eliminated_Nil, of cs] by auto
  have rows: "pivot_rows basis" using basis(2) by (simp add: eliminated_def)
  have "sums_candidates cs (length cs) (bits t) t 0" by (simp add: sums_candidates_def)
  from reduce_with_basis_spec[OF rows eliminated_rows[OF basis(2)] this] obtain r mask where
    r: "reduce_with_basis t 0 basis = Some (r, mask)" "sums_candidates cs (length cs) (bits t) r mask"
    and span: "sym_difference (bits t) (bits r) \<in> row_span basis"
    and top: "r \<noteq> 0 \<longrightarrow> bit_length r - 1 \<notin> dom (map_of basis)" by blast
  have sum: "bits r = sym_difference (bits t) (parity_sum (\<lambda>i. bits (cs ! i)) (bits mask))"
    using r(2) by (simp add: sums_candidates_def)
  have "bits t \<noteq> parity_sum (\<lambda>i. bits (cs ! i)) S" if S: "S \<subseteq> {..<length cs}" "r \<noteq> 0" for S
  proof
    assume t: "bits t = parity_sum (\<lambda>i. bits (cs ! i)) S"
    have "bits t \<in> row_span basis" unfolding t
      using S(1) basis(2) finite_subset[OF S(1)] by (intro span_of_sums) (auto simp: eliminated_def)
    from span_sym_difference[OF this span] have "bits r \<in> row_span basis"
      by (simp add: sym_difference_cancel)
    with span_top_bit[OF rows S(2)] top S(2) show False by blast
  qed
  moreover have "bits t = parity_sum (\<lambda>i. bits (cs ! i)) (bits mask)" if "r = 0"
    using sum that by (auto simp: sym_difference_def)
  ultimately show ?thesis using basis(1) r by (auto simp: solve_membership_def sums_candidates_def)
qed

end
