(* ===== verification/Ring_Cancellation.thy ===== *)
theory Ring_Cancellation
  imports Ring_Index Gf2_Elimination
begin

unbundle bit_operations_syntax

text \<open>
  Exact cancellation of ring supports (\<open>mdstats/analysis/primitive_ring_cancellation.py\<close>): whether the
  physical edges of a translated ring are the sum modulo two of the edges of some of the supplied,
  strictly smaller translated rings.  Lifted edges become the bits of integers, and
  \<open>solve_membership\<close> of the theory before decides the question.

  The records have only well-typed fields, so the \<open>isinstance\<close> checks of the constructors have no
  counterpart, except for the two resource limits, which are arbitrary values.  The result of the solver
  is \<open>None\<close> when its elimination loop does not end.
\<close>

section \<open>Records\<close>

abbreviation cancellation_input :: "string \<Rightarrow> exc" where
  "cancellation_input m \<equiv> PrimitiveRingCancellationInputError (Text m)"

abbreviation cancellation_invariant :: "string \<Rightarrow> exc" where
  "cancellation_invariant m \<equiv> PrimitiveRingCancellationInvariantError (Text m)"

datatype cancellation_status = DECOMPOSITION_FOUND | NOT_IN_SUPPLIED_SPAN

definition positive_limit :: "string \<Rightarrow> py_value \<Rightarrow> nat result" where
  "positive_limit name value =
     (case value of
        PyInt i \<Rightarrow> if i \<le> 0 then Inl (PrimitiveRingCancellationInputError
            (Fmt ''{} must be a positive integer.'' [AStr name])) else Inr (nat i)
      | _ \<Rightarrow> Inl (PrimitiveRingCancellationInputError (Fmt ''{} must be a positive integer.'' [AStr name])))"

record cancellation_resources =
  max_matrix_bits :: nat
  max_provenance_bits :: nat

definition make_cancellation_resources :: "py_value \<Rightarrow> py_value \<Rightarrow> cancellation_resources result" where
  "make_cancellation_resources matrix provenance =
     bindE (positive_limit ''max_matrix_bits'' matrix) (\<lambda>m.
     bindE (positive_limit ''max_provenance_bits'' provenance) (\<lambda>p.
     Inr \<lparr>max_matrix_bits = m, max_provenance_bits = p\<rparr>))"

definition default_resources :: cancellation_resources where
  "default_resources = \<lparr>max_matrix_bits = 536870912, max_provenance_bits = 268435456\<rparr>"

record placement_support =
  supported_placement :: ring_placement
  support_instances :: "lifted_edge_instance list"

definition make_placement_support :: "ring_placement \<Rightarrow> lifted_edge_instance list \<Rightarrow> placement_support result" where
  "make_placement_support placement edges =
     bindE (guardE (edges = sort edges) (cancellation_input ''edge_instances must be sorted deterministically.'')) (\<lambda>_.
     bindE (guardE (distinct edges) (cancellation_invariant
       ''A lifted-simple ring support cannot contain one physical edge instance twice.'')) (\<lambda>_.
     Inr \<lparr>supported_placement = placement, support_instances = edges\<rparr>))"

record cancellation_witness =
  witness_target :: ring_placement
  component_placements :: "ring_placement list"

definition make_cancellation_witness :: "ring_placement \<Rightarrow> ring_placement list \<Rightarrow> cancellation_witness result" where
  "make_cancellation_witness target components =
     bindE (guardE (components \<noteq> [])
       (cancellation_input ''component_placements must contain at least one placement.'')) (\<lambda>_.
     bindE (guardE (components = sort components \<and> distinct components)
       (cancellation_input ''component_placements must be sorted and unique.'')) (\<lambda>_.
     bindE (guardE (\<forall>item \<in> set components. placed_digest item = placed_digest target)
       (cancellation_input ''component_placements must share the target topology graph digest.'')) (\<lambda>_.
     Inr \<lparr>witness_target = target, component_placements = components\<rparr>)))"

record cancellation_result =
  result_digest :: string
  result_target :: ring_placement
  result_candidates :: "ring_placement list"
  result_status :: cancellation_status
  result_witness :: "cancellation_witness option"

definition make_cancellation_result :: "cancellation_result \<Rightarrow> cancellation_result result" where
  "make_cancellation_result r =
     bindE (guardE (result_digest r \<noteq> [])
       (cancellation_input ''topology_graph_digest must be a nonempty string.'')) (\<lambda>_.
     bindE (guardE (placed_digest (result_target r) = result_digest r)
       (cancellation_input ''target_placement topology digest does not match result source.'')) (\<lambda>_.
     bindE (guardE (result_candidates r = sort (result_candidates r) \<and> distinct (result_candidates r))
       (cancellation_input ''candidate_placements must be sorted and unique.'')) (\<lambda>_.
     bindE (guardE (\<forall>item \<in> set (result_candidates r). placed_digest item = result_digest r)
       (cancellation_input ''candidate_placements must share the result topology graph digest.'')) (\<lambda>_.
     bindE (if result_status r = DECOMPOSITION_FOUND then
         (case result_witness r of
            None \<Rightarrow> Inl (cancellation_input ''DECOMPOSITION_FOUND requires a RingCancellationWitness.'')
          | Some witness \<Rightarrow>
              bindE (guardE (witness_target witness = result_target r)
                (cancellation_input ''Witness target does not match result target.'')) (\<lambda>_.
              guardE (set (component_placements witness) \<subseteq> set (result_candidates r))
                (cancellation_input ''Witness components must be drawn from candidate_placements.'')))
       else guardE (result_witness r = None)
         (cancellation_input ''NOT_IN_SUPPLIED_SPAN requires witness=None.'')) (\<lambda>_.
     Inr r)))))"

section \<open>Supports\<close>

text \<open>The \<open>except PrimitiveRingIndexInputError as exc: raise PrimitiveRingCancellationInputError(str(exc))\<close>.\<close>

definition as_cancellation_error :: "'a result \<Rightarrow> 'a result" where
  "as_cancellation_error r =
     (case r of Inl (PrimitiveRingIndexInputError m) \<Rightarrow> Inl (PrimitiveRingCancellationInputError m) | _ \<Rightarrow> r)"

definition resolve_ring_size :: "ring_index \<Rightarrow> ring_key \<Rightarrow> nat result" where
  "resolve_ring_size index key = as_cancellation_error (bindE (ring_for_key index key) (\<lambda>ring. Inr (ring_size ring)))"

definition ring_placement_support :: "ring_index \<Rightarrow> ring_placement \<Rightarrow> placement_support result" where
  "ring_placement_support index placement =
     bindE (guardE (placed_digest placement = index_digest index)
       (cancellation_input ''RingPlacement belongs to a different topology graph digest.'')) (\<lambda>_.
     bindE (as_cancellation_error
       (bindE (ring_for_key index (placed_key placement)) (\<lambda>ring.
        bindE (translated_edge_instances index placement) (\<lambda>edges.
        Inr (ring, sort edges))))) (\<lambda>(ring, edges).
     bindE (guardE (length edges = ring_size ring)
       (cancellation_invariant ''Ring support cardinality disagrees with source ring size.'')) (\<lambda>_.
     bindE (guardE (distinct edges) (cancellation_invariant
       ''Source ring reuses one exact physical edge instance; lifted-simple support expected.'')) (\<lambda>_.
     make_placement_support placement edges))))"

definition support_bits :: "(lifted_edge_instance \<times> nat) list \<Rightarrow> placement_support \<Rightarrow> nat result" where
  "support_bits positions support =
     foldE (\<lambda>edge bs. bindE (lookupE positions edge) (\<lambda>position. Inr (bs OR push_bit position 1)))
       (support_instances support) 0"

text \<open>The parity set keeps its edges in insertion order.\<close>

definition toggle_edge :: "lifted_edge_instance \<Rightarrow> lifted_edge_instance list \<Rightarrow> lifted_edge_instance list" where
  "toggle_edge edge parity = (if edge \<in> set parity then remove1 edge parity else parity @ [edge])"

definition verify_witness :: "placement_support \<Rightarrow> placement_support list \<Rightarrow> unit result" where
  "verify_witness target components =
     (let parity = fold (\<lambda>component. fold toggle_edge (support_instances component)) components
                     (remdups (support_instances target)) in
      guardE (parity = []) (cancellation_invariant
        ''Internal GF(2) witness failed exact physical-edge cancellation verification.''))"

section \<open>The solver\<close>

definition check_candidates :: "ring_index \<Rightarrow> ring_placement \<Rightarrow> ring_placement list \<Rightarrow> ring_placement list result" where
  "check_candidates index target raw_candidates =
     bindE (guardE (placed_digest target = index_digest index)
       (cancellation_input ''target_placement belongs to a different topology graph digest.'')) (\<lambda>_.
     bindE (guardE (distinct raw_candidates)
       (cancellation_input ''candidate_placements must not contain duplicate exact placements.'')) (\<lambda>_.
     bindE (guardE (\<forall>item \<in> set raw_candidates. placed_digest item = index_digest index)
       (cancellation_input ''candidate_placements belong to a different topology graph digest.'')) (\<lambda>_.
     let candidates = sort raw_candidates in
     bindE (resolve_ring_size index (placed_key target)) (\<lambda>target_size.
     bindE (foldE (\<lambda>candidate _.
         bindE (resolve_ring_size index (placed_key candidate)) (\<lambda>candidate_size.
         guardE (candidate_size < target_size)
           (cancellation_input ''Every candidate ring must be strictly smaller than the target ring.'')))
       candidates ()) (\<lambda>_.
     Inr candidates)))))"

definition check_resources :: "cancellation_resources \<Rightarrow> nat \<Rightarrow> nat \<Rightarrow> unit result" where
  "check_resources policy edge_total candidate_total =
     bindE (guardE (candidate_total * max 1 edge_total \<le> max_matrix_bits policy)
       (PrimitiveRingCancellationResourceError (Text ''max_matrix_bits exceeded during GF(2) elimination''))) (\<lambda>_.
     guardE (min candidate_total edge_total * candidate_total \<le> max_provenance_bits policy)
       (PrimitiveRingCancellationResourceError (Text ''max_provenance_bits exceeded during GF(2) elimination'')))"

text \<open>Everything before the elimination: the candidates, their supports and the bit vectors.\<close>

definition prepare_cancellation ::
  "ring_index \<Rightarrow> ring_placement \<Rightarrow> ring_placement list \<Rightarrow> cancellation_resources option
   \<Rightarrow> (ring_placement list \<times> placement_support \<times> placement_support list \<times> nat \<times> nat list) result" where
  "prepare_cancellation index target raw_candidates resources =
     bindE (check_candidates index target raw_candidates) (\<lambda>candidates.
     bindE (ring_placement_support index target) (\<lambda>target_support.
     bindE (mapE (ring_placement_support index) candidates) (\<lambda>candidate_supports.
     let edge_universe = sorted_set (concat (map support_instances (target_support # candidate_supports)));
         positions = map (\<lambda>(i, e). (e, i)) (List.enumerate 0 edge_universe) in
     bindE (check_resources (case resources of None \<Rightarrow> default_resources | Some policy \<Rightarrow> policy)
       (length edge_universe) (length candidate_supports)) (\<lambda>_.
     bindE (support_bits positions target_support) (\<lambda>target_bits.
     bindE (mapE (support_bits positions) candidate_supports) (\<lambda>candidate_bits.
     Inr (candidates, target_support, candidate_supports, target_bits, candidate_bits)))))))"

definition conclude_cancellation ::
  "ring_index \<Rightarrow> ring_placement \<Rightarrow> ring_placement list \<Rightarrow> placement_support \<Rightarrow> placement_support list
   \<Rightarrow> nat \<Rightarrow> nat \<Rightarrow> cancellation_result result" where
  "conclude_cancellation index target candidates target_support candidate_supports remainder witness_mask =
     (if remainder \<noteq> 0 then
        make_cancellation_result \<lparr>result_digest = index_digest index, result_target = target,
          result_candidates = candidates, result_status = NOT_IN_SUPPLIED_SPAN, result_witness = None\<rparr>
      else
        let component_supports = map snd (filter (\<lambda>(i, support). witness_mask AND push_bit i 1 \<noteq> 0)
              (List.enumerate 0 candidate_supports)) in
        bindE (guardE (component_supports \<noteq> []) (cancellation_invariant
          ''Nonempty primitive-ring target reduced to the empty candidate combination.'')) (\<lambda>_.
        bindE (verify_witness target_support component_supports) (\<lambda>_.
        bindE (make_cancellation_witness target (sort (map supported_placement component_supports))) (\<lambda>witness.
        make_cancellation_result \<lparr>result_digest = index_digest index, result_target = target,
          result_candidates = candidates, result_status = DECOMPOSITION_FOUND, result_witness = Some witness\<rparr>))))"

definition solve_finite_ring_cancellation ::
  "ring_index \<Rightarrow> ring_placement \<Rightarrow> ring_placement list \<Rightarrow> cancellation_resources option
   \<Rightarrow> cancellation_result result option" where
  "solve_finite_ring_cancellation index target raw_candidates resources =
     (case prepare_cancellation index target raw_candidates resources of
        Inl e \<Rightarrow> Some (Inl e)
      | Inr (candidates, target_support, candidate_supports, target_bits, candidate_bits) \<Rightarrow>
          (case solve_membership candidate_bits target_bits of
             None \<Rightarrow> None
           | Some (remainder, witness_mask) \<Rightarrow> Some (conclude_cancellation index target candidates target_support
               candidate_supports remainder witness_mask)))"

section \<open>Supports of the rings of a catalog\<close>

definition placed_edges :: "ring_index \<Rightarrow> ring_placement \<Rightarrow> lifted_edge_instance set" where
  "placed_edges index p = (case translated_edge_instances index p of Inr es \<Rightarrow> set es | Inl _ \<Rightarrow> {})"

definition placement_known :: "string \<Rightarrow> ring_catalog \<Rightarrow> ring_placement \<Rightarrow> bool" where
  "placement_known d c p \<longleftrightarrow> placed_digest p = d \<and> placed_key p \<in> ring_key ` set (rings c)"

text \<open>Every ring has edges and none of its translated edges occurs twice.\<close>

definition lifted_simple :: "string \<Rightarrow> ring_catalog \<Rightarrow> bool" where
  "lifted_simple d c \<longleftrightarrow> (\<forall>r \<in> set (rings c). ring_steps r \<noteq> [] \<and>
     (\<forall>s. distinct (map (translated_instance d (map searched_key (edge_searches c)) s r) [0..<length (ring_steps r)])))"

definition support_of :: "ring_index \<Rightarrow> ring_placement \<Rightarrow> placement_support" where
  "support_of index p =
     \<lparr>supported_placement = p, support_instances = sorted_list_of_set (placed_edges index p)\<rparr>"

lemma finite_placed_edges [simp]: "finite (placed_edges index p)"
  by (simp add: placed_edges_def split: sum.split)

lemma support_of_fields [simp]:
  "supported_placement (support_of index p) = p" "set (support_instances (support_of index p)) = placed_edges index p"
  "distinct (support_instances (support_of index p))"
  by (simp_all add: support_of_def)

lemma known_support:
  assumes c: "indexable d c" "lifted_simple d c" and p: "placement_known d c p"
  shows "ring_placement_support (index_of_catalog d c) p = Inr (support_of (index_of_catalog d c) p)"
    and "placed_edges (index_of_catalog d c) p \<noteq> {}"
proof -
  let ?index = "index_of_catalog d c" and ?keys = "map searched_key (edge_searches c)"
  obtain r where r: "r \<in> set (rings c)" "ring_key r = placed_key p" and d: "placed_digest p = d"
    using p by (auto simp: placement_known_def)
  define es where "es = map (translated_instance d ?keys (placement_shift p) r) [0..<length (ring_steps r)]"
  have simple: "distinct es" "ring_steps r \<noteq> []" using c(2) r(1) unfolding lifted_simple_def es_def by blast+
  have es: "translated_edge_instances ?index p = Inr es"
    unfolding es_def by (rule translated_edge_instances_Inr[OF c(1) r d])
  then have edges: "placed_edges ?index p = set es" by (simp add: placed_edges_def)
  with simple show "placed_edges ?index p \<noteq> {}" by (simp add: es_def)
  have "sort es = sorted_list_of_set (set es)" using simple(1) by (simp add: sorted_list_of_set_sort_remdups distinct_remdups_id)
  moreover have "ring_for_key ?index (placed_key p) = Inr r" using ring_for_key_Inr_iff[OF c(1)] r by simp
  moreover have "length es = ring_size r" using indexable_ring(1)[OF c(1) r(1)] by (simp add: es_def)
  ultimately show "ring_placement_support ?index p = Inr (support_of ?index p)"
    using es d simple(1)
    by (simp add: ring_placement_support_def as_cancellation_error_def make_placement_support_def support_of_def edges
        sorted_sort_id flip: \<open>sort es = sorted_list_of_set (set es)\<close>)
qed

lemma resolve_ring_size_cases:
  assumes c: "indexable d c"
  shows "resolve_ring_size (index_of_catalog d c) key = Inr n \<longleftrightarrow> (\<exists>r \<in> set (rings c). ring_key r = key \<and> ring_size r = n)"
    and "resolve_ring_size (index_of_catalog d c) key = Inl e \<Longrightarrow> \<exists>m. e = PrimitiveRingCancellationInputError m"
proof -
  let ?ring = "ring_for_key (index_of_catalog d c) key"
  have known: "?ring = Inr r \<longleftrightarrow> r \<in> set (rings c) \<and> ring_key r = key" for r by (rule ring_for_key_Inr_iff[OF c])
  have refused: "\<exists>m. e = PrimitiveRingIndexInputError m" if "?ring = Inl e" for e
  proof (cases "ring_id_for_key (index_of_catalog d c) key")
    case (Inl e')
    then have "\<exists>m. e' = PrimitiveRingIndexInputError m"
      using bisect_lookup_Inl_iff[OF indexable_keys(1)[OF c]] by (simp add: ring_id_for_key_def)
    moreover have "e = e'" using that Inl by (simp add: ring_for_key_def)
    ultimately show ?thesis by blast
  next
    case (Inr i)
    then have "i < length (rings c)" using ring_id_for_key_Inr_iff[OF c] by blast
    with that Inr show ?thesis by (simp add: ring_for_key_def nthE_def)
  qed
  show "resolve_ring_size (index_of_catalog d c) key = Inr n \<longleftrightarrow> (\<exists>r \<in> set (rings c). ring_key r = key \<and> ring_size r = n)"
  proof (cases ?ring)
    case (Inl e)
    with refused obtain m where "?ring = Inl (PrimitiveRingIndexInputError m)" by blast
    with known show ?thesis by (auto simp: resolve_ring_size_def as_cancellation_error_def)
  next
    case (Inr r)
    then have "\<And>r'. r' \<in> set (rings c) \<and> ring_key r' = key \<longleftrightarrow> r' = r" unfolding known[symmetric] Inr by auto
    then have "(\<exists>r' \<in> set (rings c). ring_key r' = key \<and> ring_size r' = n) \<longleftrightarrow> ring_size r = n"
      by (simp add: Bex_def flip: conj_assoc)
    with Inr show ?thesis by (simp add: resolve_ring_size_def as_cancellation_error_def)
  qed
  show "\<exists>m. e = PrimitiveRingCancellationInputError m" if e: "resolve_ring_size (index_of_catalog d c) key = Inl e"
  proof (cases ?ring)
    case (Inl e')
    with refused e show ?thesis by (auto simp: resolve_ring_size_def as_cancellation_error_def)
  next
    case (Inr r)
    with e show ?thesis by (simp add: resolve_ring_size_def as_cancellation_error_def)
  qed
qed

section \<open>Admissible candidates\<close>

definition placed_size :: "ring_placement \<Rightarrow> nat" where
  "placed_size p = length (edge_tokens (placed_key p))"

definition candidates_admissible :: "string \<Rightarrow> ring_catalog \<Rightarrow> ring_placement \<Rightarrow> ring_placement list \<Rightarrow> bool" where
  "candidates_admissible d c target raws \<longleftrightarrow> placement_known d c target \<and> distinct raws
     \<and> (\<forall>p \<in> set raws. placement_known d c p \<and> placed_size p < placed_size target)"

lemma resolve_known_size:
  assumes c: "indexable d c"
  shows "placed_key p \<in> ring_key ` set (rings c) \<Longrightarrow>
      resolve_ring_size (index_of_catalog d c) (placed_key p) = Inr (placed_size p)"
    and "placed_key p \<notin> ring_key ` set (rings c) \<Longrightarrow>
      \<exists>m. resolve_ring_size (index_of_catalog d c) (placed_key p) = Inl (PrimitiveRingCancellationInputError m)"
proof -
  have "ring_size r = placed_size p" if r: "r \<in> set (rings c)" "ring_key r = placed_key p" for r
  proof -
    have "ring_coherent (map searched_key (edge_searches c)) (catalog_vertices c) r"
      using c r(1) by (simp add: indexable_def catalog_valid_def)
    from arg_cong[OF this[unfolded ring_coherent_def, THEN conjunct2, THEN conjunct1], of length]
    show ?thesis using indexable_ring(1)[OF c r(1)] r(2) by (simp add: placed_size_def)
  qed
  then show "placed_key p \<in> ring_key ` set (rings c) \<Longrightarrow>
      resolve_ring_size (index_of_catalog d c) (placed_key p) = Inr (placed_size p)"
    using resolve_ring_size_cases(1)[OF c] by (auto simp: image_iff)
  show "\<exists>m. resolve_ring_size (index_of_catalog d c) (placed_key p) = Inl (PrimitiveRingCancellationInputError m)"
    if "placed_key p \<notin> ring_key ` set (rings c)"
  proof (cases "resolve_ring_size (index_of_catalog d c) (placed_key p)")
    case (Inl e)
    with resolve_ring_size_cases(2)[OF c] show ?thesis by blast
  next
    case (Inr n)
    with resolve_ring_size_cases(1)[OF c] that show ?thesis by (metis image_eqI)
  qed
qed

lemma check_candidate_sizes:
  assumes c: "indexable d c"
  shows "(\<forall>p \<in> set ps. placed_key p \<in> ring_key ` set (rings c) \<and> placed_size p < n) \<Longrightarrow>
      foldE (\<lambda>candidate _. bindE (resolve_ring_size (index_of_catalog d c) (placed_key candidate)) (\<lambda>candidate_size.
        guardE (candidate_size < n) (cancellation_input m))) ps () = Inr ()"
    and "\<not> (\<forall>p \<in> set ps. placed_key p \<in> ring_key ` set (rings c) \<and> placed_size p < n) \<Longrightarrow>
      \<exists>m'. foldE (\<lambda>candidate _. bindE (resolve_ring_size (index_of_catalog d c) (placed_key candidate)) (\<lambda>candidate_size.
        guardE (candidate_size < n) (cancellation_input m))) ps () = Inl (PrimitiveRingCancellationInputError m')"
proof (induction ps)
  case (Cons p ps)
  {
    case 1
    with Cons.IH(1) show ?case by (simp add: resolve_known_size(1)[OF c])
  next
    case 2
    show ?case
    proof (cases "placed_key p \<in> ring_key ` set (rings c)")
      case True
      with 2 Cons.IH(2) show ?thesis by (cases "placed_size p < n") (auto simp: resolve_known_size(1)[OF c])
    next
      case False
      from resolve_known_size(2)[OF c this] show ?thesis by auto
    qed
  }
qed simp_all

lemma check_candidates_cases:
  assumes c: "indexable d c"
  shows "candidates_admissible d c target raws \<Longrightarrow> check_candidates (index_of_catalog d c) target raws = Inr (sort raws)"
    and "\<not> candidates_admissible d c target raws \<Longrightarrow>
      \<exists>m. check_candidates (index_of_catalog d c) target raws = Inl (PrimitiveRingCancellationInputError m)"
proof -
  show "check_candidates (index_of_catalog d c) target raws = Inr (sort raws)" if "candidates_admissible d c target raws"
    using that resolve_known_size(1)[OF c] check_candidate_sizes(1)[OF c, of "sort raws" "placed_size target"]
    by (simp add: check_candidates_def candidates_admissible_def placement_known_def Let_def)
  show "\<exists>m. check_candidates (index_of_catalog d c) target raws = Inl (PrimitiveRingCancellationInputError m)"
    if "\<not> candidates_admissible d c target raws"
  proof (cases "placed_digest target = d \<and> distinct raws \<and> (\<forall>item \<in> set raws. placed_digest item = d)")
    case True
    show ?thesis
    proof (cases "placed_key target \<in> ring_key ` set (rings c)")
      case False
      with resolve_known_size(2)[OF c False] True show ?thesis by (auto simp: check_candidates_def Let_def)
    next
      case key: True
      have "\<not> (\<forall>p \<in> set (sort raws). placed_key p \<in> ring_key ` set (rings c) \<and> placed_size p < placed_size target)"
        using that True key by (auto simp: candidates_admissible_def placement_known_def)
      from check_candidate_sizes(2)[OF c this] obtain m where
        "foldE (\<lambda>candidate _. bindE (resolve_ring_size (index_of_catalog d c) (placed_key candidate)) (\<lambda>candidate_size.
          guardE (candidate_size < placed_size target) (cancellation_input
            ''Every candidate ring must be strictly smaller than the target ring.''))) (sort raws) ()
          = Inl (PrimitiveRingCancellationInputError m)" by blast
      with True resolve_known_size(1)[OF c key] show ?thesis by (simp add: check_candidates_def Let_def)
    qed
  next
    case False
    then show ?thesis by (auto simp: check_candidates_def Let_def guardE_def)
  qed
qed

section \<open>Bit vectors of supports\<close>

definition index_set :: "'a list \<Rightarrow> 'a set \<Rightarrow> nat set" where
  "index_set xs A = {i. i < length xs \<and> xs ! i \<in> A}"

lemma index_set_inject: "A \<subseteq> set xs \<Longrightarrow> B \<subseteq> set xs \<Longrightarrow> index_set xs A = index_set xs B \<longleftrightarrow> A = B"
  by (auto simp: index_set_def in_set_conv_nth subset_iff set_eq_iff)

lemma index_set_parity_sum: "index_set xs (parity_sum f P) = parity_sum (\<lambda>i. index_set xs (f i)) P"
proof (rule set_eqI)
  fix i
  show "i \<in> index_set xs (parity_sum f P) \<longleftrightarrow> i \<in> parity_sum (\<lambda>i. index_set xs (f i)) P"
    by (cases "i < length xs") (simp_all add: index_set_def parity_sum_def)
qed

lemma bits_or_push: "bits (n OR push_bit k 1) = insert k (bits n)"
  by (auto simp: bits_def bit_or_iff bit_exp_iff)

lemma positions_lookup:
  assumes "distinct xs"
  shows "map_of (map (\<lambda>(i, e). (e, i)) (List.enumerate 0 xs)) x = Some i \<longleftrightarrow> i < length xs \<and> xs ! i = x"
proof -
  have "distinct (map fst (map (\<lambda>(i, e). (e, i)) (List.enumerate 0 xs)))"
    using assms by (simp add: comp_def split_def)
  then have "map_of (map (\<lambda>(i, e). (e, i)) (List.enumerate 0 xs)) x = Some i \<longleftrightarrow>
      (x, i) \<in> set (map (\<lambda>(i, e). (e, i)) (List.enumerate 0 xs))" by (rule map_of_eq_Some_iff)
  also have "\<dots> \<longleftrightarrow> (i, x) \<in> set (List.enumerate 0 xs)" by auto
  also have "\<dots> \<longleftrightarrow> i < length xs \<and> xs ! i = x" by (auto simp: in_set_enumerate_eq)
  finally show ?thesis .
qed

lemma support_bits_Inr:
  assumes "distinct xs" and "set (support_instances s) \<subseteq> set xs"
  shows "\<exists>n. support_bits (map (\<lambda>(i, e). (e, i)) (List.enumerate 0 xs)) s = Inr n
    \<and> bits n = index_set xs (set (support_instances s))"
proof -
  let ?positions = "map (\<lambda>(i, e). (e, i)) (List.enumerate 0 xs)"
  let ?f = "\<lambda>edge bs. bindE (lookupE ?positions edge) (\<lambda>position. Inr (bs OR push_bit position 1))"
  have "set es \<subseteq> set xs \<Longrightarrow> \<exists>n. foldE ?f es m = Inr n \<and> bits n = bits m \<union> index_set xs (set es)" for es m
  proof (induction es arbitrary: m)
    case (Cons e es)
    then obtain i where i: "i < length xs" "xs ! i = e" by (auto simp: in_set_conv_nth)
    then have "lookupE ?positions e = Inr i" unfolding lookupE_def positions_lookup[OF assms(1), of e i, THEN iffD2, OF conjI[OF i]] by simp
    moreover have "index_set xs (set (e # es)) = insert i (index_set xs (set es))"
      using i nth_eq_iff_index_eq[OF assms(1)] by (auto simp: index_set_def)
    ultimately show ?case
      using Cons.IH[of "m OR push_bit i 1"] Cons.prems bits_or_push[of m i] by auto
  qed (simp add: index_set_def)
  from this[OF assms(2), of 0] show ?thesis by (simp add: support_bits_def)
qed

section \<open>Checking the witness\<close>

lemma toggle_edge:
  assumes "distinct parity"
  shows "distinct (toggle_edge e parity)" and "set (toggle_edge e parity) = sym_difference {e} (set parity)"
  using assms by (auto simp: toggle_edge_def in_sym_difference)

lemma toggle_edges:
  "distinct parity \<Longrightarrow> distinct es \<Longrightarrow>
     distinct (fold toggle_edge es parity) \<and> set (fold toggle_edge es parity) = sym_difference (set es) (set parity)"
proof (induction es arbitrary: parity)
  case (Cons e es)
  have "sym_difference (set es) (sym_difference {e} (set parity)) = sym_difference (set (e # es)) (set parity)"
    using Cons.prems(2) by (auto simp: in_sym_difference)
  with Cons toggle_edge[OF Cons.prems(1), of e] show ?case by simp
qed simp

lemma verify_witness_Inr:
  assumes "distinct ps" and "placed_edges index target = parity_sum (placed_edges index) (set ps)"
  shows "verify_witness (support_of index target) (map (support_of index) ps) = Inr ()"
proof -
  let ?toggle = "fold (\<lambda>component. fold toggle_edge (support_instances component))"
  have "distinct ps \<Longrightarrow> distinct parity \<Longrightarrow> set (?toggle (map (support_of index) ps) parity) =
      sym_difference (parity_sum (placed_edges index) (set ps)) (set parity)" for parity
  proof (induction ps arbitrary: parity)
    case (Cons p ps)
    let ?parity = "fold toggle_edge (support_instances (support_of index p)) parity"
    have step: "distinct ?parity" "set ?parity = sym_difference (placed_edges index p) (set parity)"
      using toggle_edges[OF Cons.prems(2) support_of_fields(3)] by simp_all
    have "parity_sum (placed_edges index) (set (p # ps))
        = sym_difference (placed_edges index p) (parity_sum (placed_edges index) (set ps))"
      using Cons.prems(1) by (simp add: parity_sum_insert)
    moreover have "sym_difference A (sym_difference B C) = sym_difference (sym_difference B A) C" for A B C :: "lifted_edge_instance set"
      by (auto simp: in_sym_difference)
    ultimately show ?case using Cons.IH[OF _ step(1)] Cons.prems(1) step(2) by simp
  qed simp
  from this[OF assms(1), of "remdups (support_instances (support_of index target))"] assms(2)
  have "?toggle (map (support_of index) ps) (remdups (support_instances (support_of index target))) = []" by simp
  then show ?thesis by (simp add: verify_witness_def Let_def)
qed

section \<open>What the solver decides\<close>

definition cancels :: "ring_index \<Rightarrow> ring_placement \<Rightarrow> ring_placement set \<Rightarrow> bool" where
  "cancels index target S \<longleftrightarrow> placed_edges index target = parity_sum (placed_edges index) S"

lemma parity_sum_image: "inj_on g S \<Longrightarrow> parity_sum f (g ` S) = parity_sum (\<lambda>i. f (g i)) S"
proof -
  assume g: "inj_on g S"
  have "{i \<in> g ` S. b \<in> f i} = g ` {i \<in> S. b \<in> f (g i)}" for b by auto
  moreover have "card (g ` {i \<in> S. b \<in> f (g i)}) = card {i \<in> S. b \<in> f (g i)}" for b
    by (rule card_image) (rule inj_on_subset[OF g], auto)
  ultimately show ?thesis by (simp add: parity_sum_def)
qed

lemma parity_sum_subset: "\<Union> (f ` P) \<subseteq> U \<Longrightarrow> parity_sum f P \<subseteq> U"
proof
  fix b assume U: "\<Union> (f ` P) \<subseteq> U" and "b \<in> parity_sum f P"
  then have "odd (card {i \<in> P. b \<in> f i})" by (simp add: parity_sum_def)
  then have "{i \<in> P. b \<in> f i} \<noteq> {}" by (metis card.empty even_zero)
  with U show "b \<in> U" by blast
qed

text \<open>The bit vectors decide cancellation of the edges themselves.\<close>

lemma bit_vectors_cancel:
  assumes ps: "distinct ps" "length cs = length ps" and xs: "placed_edges index target \<subseteq> set xs"
    and sub: "\<And>p. p \<in> set ps \<Longrightarrow> placed_edges index p \<subseteq> set xs"
    and t: "bits t = index_set xs (placed_edges index target)"
    and cs: "\<And>i. i < length ps \<Longrightarrow> bits (cs ! i) = index_set xs (placed_edges index (ps ! i))"
    and S: "S \<subseteq> {..<length ps}"
  shows "bits t = parity_sum (\<lambda>i. bits (cs ! i)) S \<longleftrightarrow> cancels index target ((!) ps ` S)"
proof -
  have inj: "inj_on ((!) ps) S" using S ps(1) by (auto simp: inj_on_def nth_eq_iff_index_eq subset_iff)
  have "parity_sum (\<lambda>i. bits (cs ! i)) S = parity_sum (\<lambda>i. index_set xs (placed_edges index (ps ! i))) S"
    using S cs by (intro parity_sum_cong) auto
  also have "\<dots> = index_set xs (parity_sum (placed_edges index) ((!) ps ` S))"
    by (simp add: index_set_parity_sum parity_sum_image[OF inj])
  finally have "bits t = parity_sum (\<lambda>i. bits (cs ! i)) S \<longleftrightarrow>
      index_set xs (placed_edges index target) = index_set xs (parity_sum (placed_edges index) ((!) ps ` S))"
    unfolding t by simp
  also have "\<dots> \<longleftrightarrow> cancels index target ((!) ps ` S)"
    unfolding cancels_def using S sub by (intro index_set_inject xs parity_sum_subset) (force simp: subset_iff)
  finally show ?thesis .
qed

lemma subset_of_list:
  assumes "T \<subseteq> set ps"
  shows "\<exists>S \<subseteq> {..<length ps}. T = (!) ps ` S"
  using assms by (intro exI[of _ "{i. i < length ps \<and> ps ! i \<in> T}"]) (auto simp: in_set_conv_nth subset_iff image_iff)

definition solver_result :: "ring_index \<Rightarrow> ring_placement \<Rightarrow> ring_placement list \<Rightarrow> cancellation_result \<Rightarrow> bool" where
  "solver_result index target raws result \<longleftrightarrow>
     result_digest result = index_digest index \<and> result_target result = target \<and> result_candidates result = sort raws \<and>
     (case result_witness result of
        None \<Rightarrow> result_status result = NOT_IN_SUPPLIED_SPAN \<and> (\<forall>S \<subseteq> set raws. \<not> cancels index target S)
      | Some w \<Rightarrow> result_status result = DECOMPOSITION_FOUND \<and> witness_target w = target
          \<and> component_placements w \<noteq> [] \<and> sorted_wrt (<) (component_placements w)
          \<and> set (component_placements w) \<subseteq> set raws \<and> cancels index target (set (component_placements w)))"

definition workspace_fits :: "ring_index \<Rightarrow> ring_placement \<Rightarrow> ring_placement list \<Rightarrow> cancellation_resources \<Rightarrow> bool" where
  "workspace_fits index target raws policy \<longleftrightarrow>
     (let m = card (\<Union> (placed_edges index ` insert target (set raws))); n = length raws in
      n * max 1 m \<le> max_matrix_bits policy \<and> min n m * n \<le> max_provenance_bits policy)"

lemma check_resources_cases:
  "(n * max 1 m \<le> max_matrix_bits policy \<and> min n m * n \<le> max_provenance_bits policy \<longrightarrow> check_resources policy m n = Inr ())
   \<and> (\<not> (n * max 1 m \<le> max_matrix_bits policy \<and> min n m * n \<le> max_provenance_bits policy) \<longrightarrow>
     (\<exists>msg. check_resources policy m n = Inl (PrimitiveRingCancellationResourceError msg)))"
  by (simp add: check_resources_def guardE_def)

lemma prepare_cancellation_cases:
  fixes resources :: "cancellation_resources option"
  assumes c: "indexable d c" "lifted_simple d c" and ok: "candidates_admissible d c target raws"
  defines "index \<equiv> index_of_catalog d c" and "policy \<equiv> case resources of None \<Rightarrow> default_resources | Some policy \<Rightarrow> policy"
  shows "workspace_fits index target raws policy \<Longrightarrow> \<exists>xs t cs.
      prepare_cancellation index target raws resources =
        Inr (sort raws, support_of index target, map (support_of index) (sort raws), t, cs)
      \<and> length cs = length (sort raws) \<and> placed_edges index target \<subseteq> set xs
      \<and> (\<forall>p \<in> set (sort raws). placed_edges index p \<subseteq> set xs)
      \<and> bits t = index_set xs (placed_edges index target)
      \<and> (\<forall>i < length (sort raws). bits (cs ! i) = index_set xs (placed_edges index (sort raws ! i)))"
    and "\<not> workspace_fits index target raws policy \<Longrightarrow> \<exists>m.
      prepare_cancellation index target raws resources = Inl (PrimitiveRingCancellationResourceError m)"
proof -
  let ?ps = "sort raws"
  define xs where "xs = sorted_set (concat (map support_instances (support_of index target # map (support_of index) ?ps)))"
  let ?positions = "map (\<lambda>(i, e). (e, i)) (List.enumerate 0 xs)"
  have set_xs: "set xs = \<Union> (placed_edges index ` insert target (set raws))" by (simp add: xs_def)
  have "distinct xs" unfolding xs_def by (rule distinct_sorted_set)
  then have "length xs = card (set xs)" by (rule distinct_card[symmetric])
  with set_xs have fits: "workspace_fits index target raws policy \<longleftrightarrow> length raws * max 1 (length xs) \<le> max_matrix_bits policy
      \<and> min (length raws) (length xs) * length raws \<le> max_provenance_bits policy"
    by (simp add: workspace_fits_def Let_def)
  have support: "ring_placement_support index p = Inr (support_of index p)" if "p = target \<or> p \<in> set raws" for p
    using known_support(1)[OF c] ok that unfolding index_def candidates_admissible_def by blast
  have supports: "mapE (ring_placement_support index) ?ps = Inr (map (support_of index) ?ps)"
    by (rule mapE_total) (simp add: support)
  have head: "prepare_cancellation index target raws resources =
      bindE (check_resources policy (length xs) (length raws)) (\<lambda>_.
      bindE (support_bits ?positions (support_of index target)) (\<lambda>target_bits.
      bindE (mapE (support_bits ?positions) (map (support_of index) ?ps)) (\<lambda>candidate_bits.
      Inr (?ps, support_of index target, map (support_of index) ?ps, target_bits, candidate_bits))))"
    using check_candidates_cases(1)[OF c(1) ok] support[of target] supports
    by (simp only: prepare_cancellation_def Let_def bindE_simps index_def policy_def xs_def simp_thms length_map length_sort)
  show "\<exists>m. prepare_cancellation index target raws resources = Inl (PrimitiveRingCancellationResourceError m)"
    if nofit: "\<not> workspace_fits index target raws policy"
  proof -
    obtain m where "check_resources policy (length xs) (length raws) = Inl (PrimitiveRingCancellationResourceError m)"
      using check_resources_cases[of "length raws" "length xs" policy] nofit unfolding fits by blast
    then show ?thesis unfolding head by simp
  qed
  have bits: "\<exists>n. support_bits ?positions (support_of index p) = Inr n \<and> bits n = index_set xs (placed_edges index p)"
    if "p = target \<or> p \<in> set raws" for p
    using support_bits_Inr[of xs "support_of index p"] set_xs that by (auto simp: xs_def)
  then obtain t where t: "support_bits ?positions (support_of index target) = Inr t"
    "bits t = index_set xs (placed_edges index target)" by blast
  from bits obtain f where f: "\<And>p. p \<in> set raws \<Longrightarrow> support_bits ?positions (support_of index p) = Inr (f p)
      \<and> bits (f p) = index_set xs (placed_edges index p)" by metis
  have "mapE (support_bits ?positions) (map (support_of index) ps) = Inr (map f ps)" if "set ps \<subseteq> set raws" for ps
    using that f by (induction ps) auto
  then have cs: "mapE (support_bits ?positions) (map (support_of index) ?ps) = Inr (map f ?ps)" by simp
  show "\<exists>xs t cs. prepare_cancellation index target raws resources =
        Inr (sort raws, support_of index target, map (support_of index) (sort raws), t, cs)
      \<and> length cs = length (sort raws) \<and> placed_edges index target \<subseteq> set xs
      \<and> (\<forall>p \<in> set (sort raws). placed_edges index p \<subseteq> set xs)
      \<and> bits t = index_set xs (placed_edges index target)
      \<and> (\<forall>i < length (sort raws). bits (cs ! i) = index_set xs (placed_edges index (sort raws ! i)))"
    if "workspace_fits index target raws policy"
  proof (intro exI conjI)
    have "check_resources policy (length xs) (length raws) = Inr ()" using check_resources_cases[of "length raws" "length xs" policy] that unfolding fits by blast
    then show "prepare_cancellation index target raws resources =
        Inr (sort raws, support_of index target, map (support_of index) (sort raws), t, map f ?ps)"
      unfolding head t(1) cs by simp
    show "\<forall>i < length (sort raws). bits (map f ?ps ! i) = index_set xs (placed_edges index (sort raws ! i))"
      using f by (metis length_sort nth_map nth_mem set_sort)
  qed (use set_xs t(2) in auto)
qed

lemma selected_supports:
  "map snd (filter (\<lambda>(i, support). chosen AND push_bit i 1 \<noteq> 0) (List.enumerate 0 (map f ps)))
    = map f (map ((!) ps) (filter (\<lambda>i. i \<in> bits chosen) [0..<length ps]))"
proof -
  have "(chosen AND push_bit i 1 \<noteq> 0) \<longleftrightarrow> i \<in> bits chosen" for i
    using bit_iff_and_push_bit_not_eq_0[of chosen i] by (simp add: bits_def)
  then show ?thesis unfolding enumerate_nth by (simp add: filter_map comp_def cong: filter_cong)
qed

lemma conclude_cancellation_Inr:
  assumes d: "d \<noteq> []" and ps: "sorted_wrt (<) ps" and digests: "placed_digest target = d" "\<And>p. p \<in> set ps \<Longrightarrow> placed_digest p = d"
    and target: "placed_edges index target \<noteq> {}" and chosen: "bits chosen \<subseteq> {..<length ps}" and index: "index_digest index = d"
    and zero: "r = 0 \<Longrightarrow> cancels index target ((!) ps ` bits chosen)"
    and nonzero: "r \<noteq> 0 \<Longrightarrow> \<forall>S \<subseteq> set ps. \<not> cancels index target S"
  shows "\<exists>result. conclude_cancellation index target ps (support_of index target) (map (support_of index) ps) r chosen = Inr result
    \<and> solver_result index target ps result"
proof -
  have sorted: "sort ps = ps" "distinct ps" using ps strict_sorted_iff sorted_sort_id by blast+
  show ?thesis
  proof (cases "r = 0")
    case False
    with nonzero sorted d digests index show ?thesis
      by (simp add: conclude_cancellation_def make_cancellation_result_def solver_result_def guardE_def)
  next
    case True
    define qs where "qs = map ((!) ps) (filter (\<lambda>i. i \<in> bits chosen) [0..<length ps])"
    have set: "set qs = (!) ps ` bits chosen" using chosen by (auto simp: qs_def)
    have "sorted_wrt (<) (map ((!) ps) is)" if "sorted_wrt (<) is" "set is \<subseteq> {..<length ps}" for "is"
      using that sorted_wrt_nth_less[OF ps] by (induction "is") auto
    then have qs: "sorted_wrt (<) qs" by (simp add: qs_def sorted_wrt_filter subset_iff)
    then have qs': "sort qs = qs" "distinct qs" using strict_sorted_iff sorted_sort_id by blast+
    have sub: "set qs \<subseteq> set ps" using chosen unfolding set by auto
    have cancel: "cancels index target (set qs)" unfolding set by (rule zero[OF True])
    then have nonempty: "qs \<noteq> []" using target unfolding cancels_def by (metis list.set(1) parity_sum_empty)
    have "verify_witness (support_of index target) (map (support_of index) qs) = Inr ()"
      using cancel qs'(2) unfolding cancels_def by (intro verify_witness_Inr)
    moreover have "map supported_placement (map (support_of index) qs) = qs" by (simp add: comp_def)
    moreover have "make_cancellation_witness target qs = Inr \<lparr>witness_target = target, component_placements = qs\<rparr>"
      using nonempty qs' sub digests by (auto simp: make_cancellation_witness_def guardE_def)
    ultimately have "conclude_cancellation index target ps (support_of index target) (map (support_of index) ps) r chosen =
        Inr \<lparr>result_digest = index_digest index, result_target = target, result_candidates = ps,
          result_status = DECOMPOSITION_FOUND, result_witness = Some \<lparr>witness_target = target, component_placements = qs\<rparr>\<rparr>"
      unfolding conclude_cancellation_def selected_supports Let_def qs_def[symmetric]
      using True nonempty qs'(1) sorted sub d digests index by (simp add: make_cancellation_result_def)
    with nonempty qs sub cancel sorted show ?thesis by (simp add: solver_result_def)
  qed
qed

lemma solve_cancellation_correct:
  fixes resources :: "cancellation_resources option"
  assumes c: "indexable d c" "lifted_simple d c"
  defines "index \<equiv> index_of_catalog d c" and "policy \<equiv> case resources of None \<Rightarrow> default_resources | Some policy \<Rightarrow> policy"
  shows "\<not> candidates_admissible d c target raws \<Longrightarrow>
      \<exists>m. solve_finite_ring_cancellation index target raws resources = Some (Inl (PrimitiveRingCancellationInputError m))"
    and "candidates_admissible d c target raws \<Longrightarrow> \<not> workspace_fits index target raws policy \<Longrightarrow>
      \<exists>m. solve_finite_ring_cancellation index target raws resources = Some (Inl (PrimitiveRingCancellationResourceError m))"
    and "candidates_admissible d c target raws \<Longrightarrow> workspace_fits index target raws policy \<Longrightarrow>
      \<exists>result. solve_finite_ring_cancellation index target raws resources = Some (Inr result)
        \<and> solver_result index target raws result"
proof -
  note prepared = prepare_cancellation_cases[OF c, of target raws resources, folded index_def policy_def]
  show "\<exists>m. solve_finite_ring_cancellation index target raws resources = Some (Inl (PrimitiveRingCancellationInputError m))"
    if refused: "\<not> candidates_admissible d c target raws"
  proof -
    obtain m where "check_candidates index target raws = Inl (PrimitiveRingCancellationInputError m)"
      using check_candidates_cases(2)[OF c(1) refused] index_def by blast
    then show ?thesis by (simp add: solve_finite_ring_cancellation_def prepare_cancellation_def)
  qed
  show "\<exists>m. solve_finite_ring_cancellation index target raws resources = Some (Inl (PrimitiveRingCancellationResourceError m))"
    if "candidates_admissible d c target raws" "\<not> workspace_fits index target raws policy"
    using prepared(2)[OF that] by (auto simp: solve_finite_ring_cancellation_def)
  assume ok: "candidates_admissible d c target raws" "workspace_fits index target raws policy"
  let ?ps = "sort raws"
  obtain xs t cs where prep: "prepare_cancellation index target raws resources =
        Inr (?ps, support_of index target, map (support_of index) ?ps, t, cs)"
    and bits: "length cs = length ?ps" "placed_edges index target \<subseteq> set xs"
      "\<And>p. p \<in> set ?ps \<Longrightarrow> placed_edges index p \<subseteq> set xs" "bits t = index_set xs (placed_edges index target)"
      "\<And>i. i < length ?ps \<Longrightarrow> bits (cs ! i) = index_set xs (placed_edges index (?ps ! i))"
    using prepared(1)[OF ok] by metis
  have ps: "sorted_wrt (<) ?ps" "distinct ?ps"
    using ok(1) by (simp_all add: candidates_admissible_def strict_sorted_iff)
  have d: "d \<noteq> []" using c(1) by (simp add: indexable_def)
  have known: "placement_known d c target" "\<And>p. p \<in> set ?ps \<Longrightarrow> placement_known d c p"
    using ok(1) by (simp_all add: candidates_admissible_def)
  have vectors: "bits t = parity_sum (\<lambda>i. bits (cs ! i)) S \<longleftrightarrow> cancels index target ((!) ?ps ` S)"
    if S: "S \<subseteq> {..<length ?ps}" for S
    by (rule bit_vectors_cancel[OF ps(2) bits(1,2) _ bits(4) _ S]) (fact bits(3), fact bits(5))
  obtain r m where solve: "solve_membership cs t = Some (r, m)" "bits m \<subseteq> {..<length ?ps}"
    "r = 0 \<longrightarrow> bits t = parity_sum (\<lambda>i. bits (cs ! i)) (bits m)"
    "r \<noteq> 0 \<longrightarrow> (\<forall>S \<subseteq> {..<length ?ps}. bits t \<noteq> parity_sum (\<lambda>i. bits (cs ! i)) S)"
    using solve_membership_spec[of cs t] unfolding bits(1) by (elim exE conjE)
  have zero: "cancels index target ((!) ?ps ` bits m)" if "r = 0"
    using solve(3) that vectors[OF solve(2)] by blast
  have nonzero: "\<forall>S \<subseteq> set ?ps. \<not> cancels index target S" if r: "r \<noteq> 0"
  proof (intro allI impI)
    fix S assume "S \<subseteq> set ?ps"
    from subset_of_list[OF this] obtain I where I: "I \<subseteq> {..<length ?ps}" "S = (!) ?ps ` I" by (elim exE conjE)
    with solve(4) r have "bits t \<noteq> parity_sum (\<lambda>i. bits (cs ! i)) I" by simp
    with vectors[OF I(1)] show "\<not> cancels index target S" unfolding I(2) by simp
  qed
  have digests: "placed_digest target = d" "\<And>p. p \<in> set ?ps \<Longrightarrow> placed_digest p = d" "index_digest index = d"
    using known by (simp_all add: placement_known_def index_def)
  have "placed_edges index target \<noteq> {}" using known_support(2)[OF c known(1)] by (simp add: index_def)
  from conclude_cancellation_Inr[OF d ps(1) digests(1,2) this solve(2) digests(3) zero nonzero] obtain result where
    "conclude_cancellation index target ?ps (support_of index target) (map (support_of index) ?ps) r m = Inr result"
    "solver_result index target ?ps result" by blast
  moreover from this(2) have "solver_result index target raws result"
    unfolding solver_result_def set_sort by (simp add: sorted_sort_id)
  ultimately show "\<exists>result. solve_finite_ring_cancellation index target raws resources = Some (Inr result)
        \<and> solver_result index target raws result"
    by (simp add: solve_finite_ring_cancellation_def prep solve(1))
qed

section \<open>Catalogs over built frameworks\<close>

lemma enumerated_ring_cycle:
  assumes built: "build_framework_topology nsym state mapping rules limits = Inr t"
    and sizes: "2 \<le> min_ring_size options" "min_ring_size options \<le> max_ring_size options"
    and c: "enumerate_primitive_rings t options = Inr c" and r: "r \<in> set (rings c)"
  shows "\<exists>v keys. closed_cycle t v (ring_steps r) (vertex_walk r) keys"
proof -
  note ready = built_topology_ready[OF built]
  have adj: "valid_adjacency t (map (\<lambda>v. (v, half_edges_at t v)) (vertex_atoms t))"
    using ready(1) by (simp add: valid_adjacency_def)
  have entry: "\<exists>v keys. closed_cycle t v (ring_steps r) (vertex_walk r) keys"
    if "cycle_entry t options key acc" "ring_of_entry acc r" for key acc
    using that unfolding cycle_entry_def validate_candidate_cycle_Inr_iff ring_of_entry_def by metis
  show ?thesis
  proof (cases "search_method options = REMOVED_EDGE_SHORTEST")
    case True
    let ?run = "foldE (removed_edge_step t (map (\<lambda>v. (v, half_edges_at t v)) (vertex_atoms t)) options)
       (List.enumerate 0 (topology_edges t))
       \<lparr>removed_candidates = [], search_records = [], total_candidate_count = 0, global_limit_reached = False\<rparr>"
    from c True obtain st where st: "?run = Inr st" "removed_edge_catalog t options st = Inr c"
      by (auto simp: enumerate_primitive_rings_def enumerate_removed_edge_shortest_def ready(1) bindE_Inr_iff)
    with removed_edge_loop_ok[OF adj ready(4) sizes] have inv: "removed_inv t options (length (topology_edges t)) st" by simp
    from removed_edge_catalog_correct[OF inv sizes adj ready(5,6) True] st(2)
    have "catalog_of_cycles t options (removed_candidates st) c" by auto
    with r obtain acc where acc: "map_of (removed_candidates st) (ring_key r) = Some acc" "ring_of_entry acc r"
      unfolding catalog_of_cycles_def by blast
    then have "edge_entry t options (ring_key r) acc" using inv by (simp add: removed_inv_def entries_ok_def)
    then have "cycle_entry t options (ring_key r) acc" using ring_entry_cycle by (simp add: edge_entry_def)
    from entry[OF this acc(2)] show ?thesis .
  next
    case False
    then have pairs: "search_method options = SHORTEST_PATH_PAIRS" by (cases "search_method options") simp_all
    from c False have c': "enumerate_shortest_path_pair_primitives t options = Inr c" by (simp add: enumerate_primitive_rings_def)
    note hyps = ready(1,3,5,6) sizes pairs
    from default_catalog_correct[OF hyps] c' obtain out where out: "search_primitives t options = Inr out"
      "catalog_of_cycles t options (candidate_map (final_state out)) c"
      by (auto split: sum.splits)
    from search_primitives_correct[OF ready(1,3,6) sizes] out(1)
    have inv: "search_inv t options (max_ring_size options + 1) (final_state out)" by (simp add: search_correct_def)
    from out(2) r obtain acc where acc: "map_of (candidate_map (final_state out)) (ring_key r) = Some acc" "ring_of_entry acc r"
      unfolding catalog_of_cycles_def by blast
    then have "ring_entry t options (ring_key r) acc" using inv by (simp only: search_inv_def)
    from entry[OF ring_entry_cycle[OF this] acc(2)] show ?thesis .
  qed
qed

lemma translated_instances_distinct:
  assumes cycle: "closed_cycle t v (ring_steps r) (vertex_walk r) ks"
    and keys: "distinct keys" "keys = map edge_key (topology_edges t)"
  shows "distinct (map (translated_instance d keys s r) [0..<length (ring_steps r)])"
proof -
  let ?n = "length (ring_steps r)"
  have path: "path_vertices_from_start t v (ring_steps r) = Inr (vertex_walk r @ [v])"
    "instances_along t v (ring_steps r) = Inr ks" "distinct ks" using cycle by (simp_all add: closed_cycle_def)
  have at: "ks ! i = (step_edge (ring_steps r ! i), step_anchor keys r i) \<and> step_edge (ring_steps r ! i) < length keys"
    if i: "i < ?n" for i
  proof -
    have "(vertex_walk r @ [v]) ! i = vertex_walk r ! i"
      using i closed_cycle_vertices(3)[OF cycle] by (simp add: nth_append)
    then show ?thesis
      using instances_nth(2)[OF path(2,1) i] unfolding keys(2)
      by (auto simp: physical_instance_key_def bindE_Inr_iff edge_at_def nthE_Inr_iff step_anchor_def Let_def)
  qed
  have "inj_on (translated_instance d keys s r) {0..<?n}"
  proof (rule inj_onI)
    fix i j assume ij: "i \<in> {0..<?n}" "j \<in> {0..<?n}" "translated_instance d keys s r i = translated_instance d keys s r j"
    have cancel: "add_shift a s = add_shift b s \<longleftrightarrow> a = b" for a b by (cases a; cases b; cases s) auto
    have "step_edge (ring_steps r ! i) = step_edge (ring_steps r ! j)"
      using ij at nth_eq_iff_index_eq[OF keys(1)] by (auto simp: translated_instance_def)
    moreover have "step_anchor keys r i = step_anchor keys r j" using ij(3) by (simp add: translated_instance_def cancel)
    ultimately have "ks ! i = ks ! j" using ij at by simp
    then show "i = j" using ij nth_eq_iff_index_eq[OF path(3)] instances_length[OF path(2)] by simp
  qed
  then show ?thesis by (simp add: distinct_map)
qed

lemma enumerated_lifted_simple:
  assumes built: "build_framework_topology nsym state mapping rules limits = Inr t"
    and sizes: "2 \<le> min_ring_size options" "min_ring_size options \<le> max_ring_size options"
    and c: "enumerate_primitive_rings t options = Inr c"
  shows "lifted_simple d c"
  unfolding lifted_simple_def
proof (intro ballI conjI allI)
  fix r s assume r: "r \<in> set (rings c)"
  then show "ring_steps r \<noteq> []" using enumerated_ring_coherent[OF c] by blast
  obtain v ks where cycle: "closed_cycle t v (ring_steps r) (vertex_walk r) ks"
    using enumerated_ring_cycle[OF built sizes c r] by blast
  show "distinct (map (translated_instance d (map searched_key (edge_searches c)) s r) [0..<length (ring_steps r)])"
    unfolding enumerated_catalog_valid(2)[OF c]
    by (rule translated_instances_distinct[OF cycle]) (simp_all add: built_topology_ready(3)[OF built])
qed

section \<open>Properties\<close>

text \<open>C4: On the index of a catalog over a built framework the solver always returns.  It raises the input error
  exactly when the target or a candidate is not of this catalog, a candidate is repeated, or one is not
  strictly smaller than the target, and otherwise the resource error exactly when the two limits are
  exceeded; no internal check ever fails.  The result has a witness exactly when the edges of the target
  are the sum modulo two of the edges of some of the candidates, and the witness is such a set.\<close>

theorem cancellation_exact:
  assumes "build_framework_topology nsym state mapping rules limits = Inr t"
    and "2 \<le> min_ring_size options" and "min_ring_size options \<le> max_ring_size options"
    and "enumerate_primitive_rings t options = Inr c" and "graph_digest \<noteq> []"
    and "build_primitive_ring_index graph_digest c = Inr index"
  shows "\<exists>out. solve_finite_ring_cancellation index target raws resources = Some out \<and>
    (if \<not> candidates_admissible graph_digest c target raws
     then \<exists>m. out = Inl (PrimitiveRingCancellationInputError m)
     else if \<not> workspace_fits index target raws (case resources of None \<Rightarrow> default_resources | Some policy \<Rightarrow> policy)
     then \<exists>m. out = Inl (PrimitiveRingCancellationResourceError m)
     else \<exists>result. out = Inr result \<and> result_target result = target \<and> result_candidates result = sort raws
       \<and> (result_status result = DECOMPOSITION_FOUND \<longleftrightarrow> (\<exists>S \<subseteq> set raws. cancels index target S))
       \<and> (result_status result = DECOMPOSITION_FOUND \<longrightarrow> (\<exists>w. result_witness result = Some w
            \<and> component_placements w \<noteq> [] \<and> sorted_wrt (<) (component_placements w)
            \<and> set (component_placements w) \<subseteq> set raws \<and> cancels index target (set (component_placements w)))))"
proof -
  have c: "indexable graph_digest c" by (rule enumerated_indexable[OF assms(1,4,5)])
  have simple: "lifted_simple graph_digest c" by (rule enumerated_lifted_simple[OF assms(1-4)])
  have index: "index = index_of_catalog graph_digest c" using assms(6) by (simp add: indexed_catalog_built[OF c])
  note solved = solve_cancellation_correct[OF c simple, of target raws resources, folded index]
  show ?thesis
  proof (cases "candidates_admissible graph_digest c target raws
      \<and> workspace_fits index target raws (case resources of None \<Rightarrow> default_resources | Some policy \<Rightarrow> policy)")
    case True
    then obtain result where result: "solve_finite_ring_cancellation index target raws resources = Some (Inr result)"
      "solver_result index target raws result" using solved(3) by blast
    then show ?thesis using True by (cases "result_witness result") (auto simp: solver_result_def)
  next
    case False
    with solved(1,2) show ?thesis by auto
  qed
qed

definition cancellation_example :: "ring_index \<Rightarrow> ring_placement \<times> ring_placement list" where
  "cancellation_example index =
     (RingPlacement ''sha'' (index_ring_keys index ! 1) (1, 0, 0),
      [RingPlacement ''sha'' (index_ring_keys index ! 0) (0, 0, 0), RingPlacement ''sha'' (index_ring_keys index ! 0) (1, 0, 0)])"

lemma cancellation_example_runs:
  "case enumerate_primitive_rings ring_topology removed_options of Inl _ \<Rightarrow> False | Inr c \<Rightarrow>
   case build_primitive_ring_index ''sha'' c of Inl _ \<Rightarrow> False | Inr index \<Rightarrow>
   case solve_finite_ring_cancellation index (fst (cancellation_example index)) (snd (cancellation_example index))
     (Some \<lparr>max_matrix_bits = 40, max_provenance_bits = 40\<rparr>) of
     Some (Inr result) \<Rightarrow> result_status result = NOT_IN_SUPPLIED_SPAN | _ \<Rightarrow> False"
  by code_simp

theorem cancellation_exact_witness:
  "\<exists>c index. enumerate_primitive_rings ring_topology removed_options = Inr c
     \<and> build_primitive_ring_index ''sha'' c = Inr index
     \<and> (\<forall>S \<subseteq> set (snd (cancellation_example index)). \<not> cancels index (fst (cancellation_example index)) S)"
proof -
  obtain c index out where c: "enumerate_primitive_rings ring_topology removed_options = Inr c"
    "build_primitive_ring_index ''sha'' c = Inr index"
    and out: "solve_finite_ring_cancellation index (fst (cancellation_example index)) (snd (cancellation_example index))
     (Some \<lparr>max_matrix_bits = 40, max_provenance_bits = 40\<rparr>) = Some out"
      "case out of Inl _ \<Rightarrow> False | Inr result \<Rightarrow> result_status result = NOT_IN_SUPPLIED_SPAN"
    using cancellation_example_runs by (auto split: sum.splits option.splits)
  from out obtain result where result: "solve_finite_ring_cancellation index (fst (cancellation_example index))
     (snd (cancellation_example index)) (Some \<lparr>max_matrix_bits = 40, max_provenance_bits = 40\<rparr>) = Some (Inr result)"
      "result_status result = NOT_IN_SUPPLIED_SPAN" by (auto split: sum.splits)
  have sizes: "2 \<le> min_ring_size removed_options" "min_ring_size removed_options \<le> max_ring_size removed_options"
    by (simp_all add: removed_options_def ring_options_def)
  from cancellation_exact[OF ring_topology_built sizes c(1) _ c(2), of "fst (cancellation_example index)"
      "snd (cancellation_example index)" "Some \<lparr>max_matrix_bits = 40, max_provenance_bits = 40\<rparr>"] result c
  show ?thesis by (auto split: if_splits)
qed

end
