(* ===== verification/Work_Queue.thy ===== *)
theory Work_Queue
  imports Prelude
begin

text \<open>
  The bounded work queue of \<open>mdstats/training_data/work_queue.py\<close>.  A coordinator submits tasks, which wait
  in a ready queue until memory and slots admit them, run on the workers of an executor, and come back
  as completions that the coordinator drains.

  The executor is outside the repository: a future is a number that it gives to an admitted task, and
  \<open>wait\<close> and \<open>future.result()\<close> are arguments of \<open>wait_for_completion\<close>, namely the futures reported as done and
  what each of them returns or raises.  An operation returns its outcome together with the queue,
  because the code keeps its changes when it raises.  Clock readings, the telemetry callback, and the
  thread-library limits of the resource scope are left out; the flag \<open>queue_entered\<close> stands for \<open>_entered\<close>
  and for the executor, which are set and cleared together.
\<close>

section \<open>Items, completions and the queue\<close>

record work_item =
  task_id :: string
  canonical_order :: "int list"
  task_kind :: string
  task_memory :: int
  locality_key :: "string option"

definition make_work_item :: "work_item \<Rightarrow> work_item result" where
  "make_work_item item =
     bindE (guardE (\<not> list_all python_space (task_id item)) (ValueError (Text ''task_id must be non-empty''))) (\<lambda>_.
     bindE (guardE (\<forall>v \<in> set (canonical_order item). 0 \<le> v)
       (ValueError (Text ''canonical_order entries must be non-negative''))) (\<lambda>_.
     bindE (guardE (0 \<le> task_memory item)
       (ValueError (Text ''estimated_memory_bytes must be non-negative''))) (\<lambda>_.
     Inr item)))"

record 'v completion =
  completed_item :: work_item
  completed_value :: 'v

record 'v work_queue =
  allocated_workers :: nat
  memory_budget :: "int option"
  max_ready_tasks :: nat
  max_inflight_tasks :: nat
  max_completed_tasks :: nat
  queue_entered :: bool
  ready :: "work_item list"
  inflight :: "(nat \<times> work_item) list"
  completed :: "'v completion list"
  seen_task_ids :: "string list"
  reservations :: "(string \<times> int) list"
  ready_memory :: int
  inflight_memory :: int
  completed_memory :: int
  reserved_memory :: int
  submitted_tasks :: nat
  finished_tasks :: nat
  committed_tasks :: nat
  memory_backpressure :: nat
  queue_backpressure :: nat
  heartbeat_count :: nat
  peak_memory :: int
  futures_made :: nat

text \<open>The executor numbers its futures; \<open>futures_made\<close> is its count.\<close>

definition make_work_queue ::
  "nat \<Rightarrow> int option \<Rightarrow> nat option \<Rightarrow> nat option \<Rightarrow> nat option \<Rightarrow> 'v work_queue" where
  "make_work_queue workers memory_limit ready_limit inflight_limit completed_limit =
     (let capacity = (\<lambda>limit. max 1 (case limit of None \<Rightarrow> 2 * workers | Some n \<Rightarrow> n)) in
      \<lparr>allocated_workers = workers, memory_budget = memory_limit, max_ready_tasks = capacity ready_limit,
       max_inflight_tasks = capacity inflight_limit, max_completed_tasks = capacity completed_limit,
       queue_entered = False, ready = [], inflight = [], completed = [], seen_task_ids = [], reservations = [],
       ready_memory = 0, inflight_memory = 0, completed_memory = 0, reserved_memory = 0,
       submitted_tasks = 0, finished_tasks = 0, committed_tasks = 0, memory_backpressure = 0,
       queue_backpressure = 0, heartbeat_count = 0, peak_memory = 0, futures_made = 0\<rparr>)"

type_synonym ('a, 'v) queue_outcome = "(exc + 'a) \<times> 'v work_queue"

definition outstanding_tasks :: "'v work_queue \<Rightarrow> nat" where
  "outstanding_tasks q = length (ready q) + length (inflight q) + length (completed q)"

definition ready_capacity_remaining :: "'v work_queue \<Rightarrow> nat" where
  "ready_capacity_remaining q = max_ready_tasks q - length (ready q)"

definition has_outstanding_work :: "'v work_queue \<Rightarrow> bool" where
  "has_outstanding_work q \<longleftrightarrow> ready q \<noteq> [] \<or> inflight q \<noteq> [] \<or> completed q \<noteq> []"

definition accounted_memory :: "'v work_queue \<Rightarrow> int" where
  "accounted_memory q = inflight_memory q + completed_memory q + reserved_memory q"

definition update_peak_memory :: "'v work_queue \<Rightarrow> 'v work_queue" where
  "update_peak_memory q = q\<lparr>peak_memory := max (peak_memory q) (accounted_memory q)\<rparr>"

definition enter_queue :: "'v work_queue \<Rightarrow> (unit, 'v) queue_outcome" where
  "enter_queue q =
     (if queue_entered q then (Inl (RuntimeError (Text ''DeterministicWorkQueue cannot be entered twice'')), q)
      else (Inr (), update_peak_memory (q\<lparr>queue_entered := True\<rparr>)))"

definition exit_queue :: "'v work_queue \<Rightarrow> 'v work_queue" where
  "exit_queue q = q\<lparr>queue_entered := False\<rparr>"

definition not_entered :: exc where
  "not_entered = RuntimeError (Text ''DeterministicWorkQueue must be used as a context manager'')"

section \<open>Dispatching\<close>

definition admissible_ready_index :: "'v work_queue \<Rightarrow> nat option" where
  "admissible_ready_index q =
     (if ready q = [] then None
      else case memory_budget q of
        None \<Rightarrow> Some 0
      | Some budget \<Rightarrow>
          let available = budget - inflight_memory q - completed_memory q - reserved_memory q in
          map_option fst (find (\<lambda>(i, item). task_memory item \<le> available) (List.enumerate 0 (ready q))))"

text \<open>\<open>deque.rotate(n)\<close> moves the last \<open>n\<close> entries to the front.\<close>

definition deque_rotate :: "int \<Rightarrow> 'a list \<Rightarrow> 'a list" where
  "deque_rotate n xs = rotate (nat ((- n) mod int (length xs))) xs"

definition pop_ready_index :: "nat \<Rightarrow> 'v work_queue \<Rightarrow> work_item \<times> 'v work_queue" where
  "pop_ready_index i q =
     (let (item, rest) = (if i = 0 then (hd (ready q), tl (ready q))
        else let turned = deque_rotate (- int i) (ready q) in (hd turned, deque_rotate (int i) (tl turned))) in
      (item, q\<lparr>ready := rest, ready_memory := ready_memory q - task_memory item\<rparr>))"

definition start_task :: "work_item \<Rightarrow> 'v work_queue \<Rightarrow> 'v work_queue" where
  "start_task item q =
     update_peak_memory (q\<lparr>inflight := inflight q @ [(futures_made q, item)], futures_made := futures_made q + 1,
       inflight_memory := inflight_memory q + task_memory item\<rparr>)"

lemma admissible_ready_index_bound:
  "admissible_ready_index q = Some i \<Longrightarrow> i < length (ready q) \<and>
     (case memory_budget q of None \<Rightarrow> i = 0 | Some b \<Rightarrow> task_memory (ready q ! i) + accounted_memory q \<le> b)"
  by (auto simp: admissible_ready_index_def accounted_memory_def Let_def find_Some_iff nth_enumerate_eq
      split: if_splits option.splits)

lemma deque_rotate_append: "deque_rotate (int (length ys)) (xs @ ys) = ys @ xs"
proof (cases "xs = [] \<or> ys = []")
  case False
  then have "(- int (length ys)) mod int (length (xs @ ys)) = int (length xs)"
    by (simp add: zmod_zminus1_eq_if)
  then show ?thesis by (simp add: deque_rotate_def rotate_append del: length_append)
qed (auto simp: deque_rotate_def)

lemma deque_rotate_pop:
  assumes "i < length xs"
  shows "hd (deque_rotate (- int i) xs) = xs ! i"
    and "deque_rotate (int i) (tl (deque_rotate (- int i) xs)) = take i xs @ drop (Suc i) xs"
proof -
  have turned: "deque_rotate (- int i) xs = drop i xs @ take i xs"
    using assms by (simp add: deque_rotate_def rotate_drop_take nat_mod_as_int)
  then show "hd (deque_rotate (- int i) xs) = xs ! i"
    using assms by (simp add: hd_append hd_drop_conv_nth)
  have "tl (deque_rotate (- int i) xs) = drop (Suc i) xs @ take i xs"
    unfolding turned using assms by (simp add: drop_Suc tl_drop tl_append2)
  with deque_rotate_append[of "take i xs" "drop (Suc i) xs"] assms
  show "deque_rotate (int i) (tl (deque_rotate (- int i) xs)) = take i xs @ drop (Suc i) xs" by simp
qed

lemma pop_ready_index:
  assumes "i < length (ready q)"
  shows "pop_ready_index i q = (ready q ! i, q\<lparr>ready := take i (ready q) @ drop (Suc i) (ready q),
    ready_memory := ready_memory q - task_memory (ready q ! i)\<rparr>)"
  using assms deque_rotate_pop[OF assms]
  by (cases "ready q") (auto simp: pop_ready_index_def Let_def)

text \<open>Every round of the loop takes one item out of the ready queue.\<close>

function dispatch_loop :: "'v work_queue \<Rightarrow> 'v work_queue" where
  "dispatch_loop q =
     (if ready q = [] \<or> length (inflight q) \<ge> max_inflight_tasks q then q
      else if length (completed q) \<ge> max_completed_tasks q then q\<lparr>queue_backpressure := queue_backpressure q + 1\<rparr>
      else case admissible_ready_index q of
        None \<Rightarrow> q\<lparr>memory_backpressure := memory_backpressure q + 1\<rparr>
      | Some i \<Rightarrow> (case pop_ready_index i q of (item, q') \<Rightarrow> dispatch_loop (start_task item q')))"
  by pat_completeness auto
termination
  by (relation "measure (\<lambda>q. length (ready q))")
    (auto dest!: admissible_ready_index_bound simp: pop_ready_index start_task_def update_peak_memory_def)

declare dispatch_loop.simps [simp del]

definition dispatch :: "'v work_queue \<Rightarrow> 'v work_queue" where
  "dispatch q = (if queue_entered q then dispatch_loop q else q)"

section \<open>Memory reservations\<close>

definition validate_reservation_request :: "'v work_queue \<Rightarrow> string \<Rightarrow> int \<Rightarrow> unit result" where
  "validate_reservation_request q name amount =
     bindE (guardE (name \<noteq> []) (ValueError (Text ''reservation_id must be non-empty''))) (\<lambda>_.
     bindE (guardE (0 \<le> amount) (ValueError (Text ''bytes_count must be non-negative''))) (\<lambda>_.
     bindE (guardE (name \<notin> fst ` set (reservations q))
       (ValueError (Fmt ''duplicate memory reservation {}'' [AStr name]))) (\<lambda>_.
     case memory_budget q of
       None \<Rightarrow> Inr ()
     | Some budget \<Rightarrow> guardE (amount \<le> budget) (DeterministicWorkQueueMemoryError
         (Fmt ''PARCORE1 reservation {} intrinsically requires {} bytes, which exceeds the stage RAM budget of {} bytes.''
           [AStr name, AInt amount, AInt budget])))))"

definition add_reservation :: "string \<Rightarrow> int \<Rightarrow> 'v work_queue \<Rightarrow> 'v work_queue" where
  "add_reservation name amount q = update_peak_memory
     (q\<lparr>reservations := AList.update name amount (reservations q), reserved_memory := reserved_memory q + amount\<rparr>)"

definition try_reserve_memory :: "string \<Rightarrow> int \<Rightarrow> 'v work_queue \<Rightarrow> (bool, 'v) queue_outcome" where
  "try_reserve_memory name amount q =
     (case validate_reservation_request q name amount of
        Inl e \<Rightarrow> (Inl e, q)
      | Inr _ \<Rightarrow>
          if (case memory_budget q of None \<Rightarrow> False | Some budget \<Rightarrow> amount + accounted_memory q > budget)
          then (Inr False, q\<lparr>memory_backpressure := memory_backpressure q + 1\<rparr>)
          else (Inr True, add_reservation name amount q))"

definition reserve_memory :: "string \<Rightarrow> int \<Rightarrow> 'v work_queue \<Rightarrow> (unit, 'v) queue_outcome" where
  "reserve_memory name amount q =
     (case validate_reservation_request q name amount of
        Inl e \<Rightarrow> (Inl e, q)
      | Inr _ \<Rightarrow>
          (case (case memory_budget q of
                   None \<Rightarrow> Inr ()
                 | Some budget \<Rightarrow>
                     let available = max 0 (budget - accounted_memory q) in
                     guardE (amount \<le> available) (DeterministicWorkQueueMemoryError
                       (Fmt ''PARCORE1 reservation {} requires {} bytes; available={}, in-flight={}, completed={}, reserved={}, stage-budget={} bytes.''
                         [AStr name, AInt amount, AInt available, AInt (inflight_memory q),
                          AInt (completed_memory q), AInt (reserved_memory q), AInt budget]))) of
             Inl e \<Rightarrow> (Inl e, q)
           | Inr _ \<Rightarrow> (Inr (), add_reservation name amount q)))"

definition release_memory :: "string \<Rightarrow> 'v work_queue \<Rightarrow> (int, 'v) queue_outcome" where
  "release_memory name q =
     (case map_of (reservations q) name of
        None \<Rightarrow> (Inl (KeyError (Fmt ''unknown memory reservation {}'' [AStr name])), q)
      | Some amount \<Rightarrow> (Inr amount, dispatch
          (q\<lparr>reservations := AList.delete name (reservations q), reserved_memory := reserved_memory q - amount\<rparr>)))"

section \<open>Submitting, waiting and draining\<close>

definition can_submit :: "'v work_queue \<Rightarrow> bool" where
  "can_submit q \<longleftrightarrow> length (ready q) < max_ready_tasks q"

definition submit :: "work_item \<Rightarrow> 'v work_queue \<Rightarrow> (unit, 'v) queue_outcome" where
  "submit item' q =
     (if \<not> queue_entered q then (Inl not_entered, q)
      else case make_work_item item' of
        Inl e \<Rightarrow> (Inl e, q)
      | Inr item \<Rightarrow>
          if task_id item \<in> set (seen_task_ids q)
          then (Inl (ValueError (Fmt ''duplicate PARCORE1 task ID {}'' [AStr (task_id item)])), q)
          else if length (ready q) \<ge> max_ready_tasks q
          then (Inl (DeterministicWorkQueueError (Fmt ''PARCORE1 ready queue is full ({} tasks).'' [ANat (max_ready_tasks q)])),
            q\<lparr>queue_backpressure := queue_backpressure q + 1\<rparr>)
          else case (case memory_budget q of None \<Rightarrow> Inr ()
              | Some budget \<Rightarrow> guardE (task_memory item \<le> budget) (DeterministicWorkQueueMemoryError
                  (Fmt ''PARCORE1 task {} estimates {} bytes, above the stage RAM budget {} bytes.''
                    [AStr (task_id item), AInt (task_memory item), AInt budget]))) of
            Inl e \<Rightarrow> (Inl e, q)
          | Inr _ \<Rightarrow> (Inr (), dispatch (update_peak_memory (q\<lparr>seen_task_ids := seen_task_ids q @ [task_id item],
                ready := ready q @ [item], ready_memory := ready_memory q + task_memory item,
                submitted_tasks := submitted_tasks q + 1\<rparr>))))"

definition dispatch_ready :: "'v work_queue \<Rightarrow> (unit, 'v) queue_outcome" where
  "dispatch_ready q = (if \<not> queue_entered q then (Inl not_entered, q) else (Inr (), dispatch q))"

text \<open>\<open>result future item\<close> is what \<open>future.result()\<close> returns, or the exception it raises.\<close>

definition remove_inflight :: "nat \<Rightarrow> work_item \<Rightarrow> 'v work_queue \<Rightarrow> 'v work_queue" where
  "remove_inflight future item q =
     q\<lparr>inflight := AList.delete future (inflight q), inflight_memory := inflight_memory q - task_memory item\<rparr>"

definition add_completed :: "work_item \<Rightarrow> 'v \<Rightarrow> 'v work_queue \<Rightarrow> 'v work_queue" where
  "add_completed item v q =
     q\<lparr>completed := completed q @ [\<lparr>completed_item = item, completed_value = v\<rparr>],
       completed_memory := completed_memory q + task_memory item, finished_tasks := finished_tasks q + 1\<rparr>"

fun transfer_done :: "(nat \<Rightarrow> work_item \<Rightarrow> message + 'v) \<Rightarrow> nat list \<Rightarrow> 'v work_queue \<Rightarrow> (unit, 'v) queue_outcome" where
  "transfer_done result [] q = (Inr (), q)"
| "transfer_done result (future # futures) q =
     (case map_of (inflight q) future of
        None \<Rightarrow> (Inl (KeyError (Text '''')), q)
      | Some item \<Rightarrow>
          (case result future item of
             Inl cause \<Rightarrow> (Inl (DeterministicWorkQueueTaskError (task_id item) (task_kind item) cause),
               (remove_inflight future item q)\<lparr>ready := [], ready_memory := 0\<rparr>)
           | Inr v \<Rightarrow> transfer_done result futures (add_completed item v (remove_inflight future item q))))"

definition done_key :: "'v work_queue \<Rightarrow> nat \<Rightarrow> int list \<times> string" where
  "done_key q future = (case map_of (inflight q) future of
     None \<Rightarrow> ([], []) | Some item \<Rightarrow> (canonical_order item, task_id item))"

text \<open>The part of \<open>wait_for_completion\<close> after \<open>wait\<close> has reported the futures \<open>finished\<close>.\<close>

definition collect_done :: "(nat \<Rightarrow> work_item \<Rightarrow> message + 'v) \<Rightarrow> nat list \<Rightarrow> 'v work_queue \<Rightarrow> (bool, 'v) queue_outcome" where
  "collect_done result finished q =
     (if finished = [] then (Inr False, q\<lparr>heartbeat_count := heartbeat_count q + 1\<rparr>)
      else
        let batch = take (max_completed_tasks q - length (completed q)) (sort_key (done_key q) finished) in
        (case transfer_done result batch q of
           (Inl e, q') \<Rightarrow> (Inl e, q')
         | (Inr _, q') \<Rightarrow> (Inr (batch \<noteq> []), dispatch (if batch \<noteq> [] then update_peak_memory q' else q'))))"

definition wait_for_completion ::
  "(nat \<Rightarrow> work_item \<Rightarrow> message + 'v) \<Rightarrow> (nat list \<Rightarrow> nat list) \<Rightarrow> 'v work_queue \<Rightarrow> (bool, 'v) queue_outcome" where
  "wait_for_completion result wait q =
     (if \<not> queue_entered q then (Inl not_entered, q)
      else let q' = dispatch q in
        if completed q' \<noteq> [] then (Inr True, q')
        else if inflight q' = [] then
          if ready q' \<noteq> [] then (Inl (DeterministicWorkQueueMemoryError
              (Text ''PARCORE1 memory admission blocked every ready task with no in-flight work.'')), q')
          else (Inr False, q')
        else collect_done result (wait (map fst (inflight q'))) q')"

definition drain_completed :: "bool \<Rightarrow> 'v work_queue \<Rightarrow> ('v completion list, 'v) queue_outcome" where
  "drain_completed redispatch q =
     (if \<not> queue_entered q then (Inl not_entered, q)
      else if completed q = [] then (Inr [], q)
      else
        let items = sort_key (\<lambda>c. (canonical_order (completed_item c), task_id (completed_item c))) (completed q);
            q' = q\<lparr>completed := [], completed_memory := 0, committed_tasks := committed_tasks q + length items\<rparr> in
        (Inr items, if redispatch then dispatch q' else q'))"

section \<open>Busy workers\<close>

text \<open>The counter that the worker threads keep under its own lock, around the run of each task.\<close>

record worker_counter =
  busy_workers :: int
  max_busy_workers :: int

datatype worker_event = RunStarts | RunEnds

fun run_item_counter :: "worker_event \<Rightarrow> worker_counter \<Rightarrow> worker_counter" where
  "run_item_counter RunStarts c =
     c\<lparr>busy_workers := busy_workers c + 1, max_busy_workers := max (max_busy_workers c) (busy_workers c + 1)\<rparr>"
| "run_item_counter RunEnds c = c\<lparr>busy_workers := busy_workers c - 1\<rparr>"

lemma busy_counter_exact:
  "busy_workers c \<le> max_busy_workers c \<Longrightarrow>
    busy_workers (fold run_item_counter events c) \<le> max_busy_workers (fold run_item_counter events c)
    \<and> (max_busy_workers (fold run_item_counter events c) \<le> b \<longleftrightarrow>
      max_busy_workers c \<le> b \<and> (\<forall>i \<le> length events. busy_workers (fold run_item_counter (take i events) c) \<le> b))"
proof (induction events arbitrary: c)
  case (Cons e events)
  let ?c = "run_item_counter e c"
  have c: "busy_workers ?c \<le> max_busy_workers ?c" using Cons.prems by (cases e) auto
  have step: "max_busy_workers ?c \<le> b \<longleftrightarrow> max_busy_workers c \<le> b \<and> busy_workers ?c \<le> b"
    using Cons.prems by (cases e) auto
  have prefixes: "(\<forall>i \<le> length (e # events). P (take i (e # events))) \<longleftrightarrow> P [] \<and> (\<forall>i \<le> length events. P (e # take i events))" for P
    by (metis (no_types, lifting) Suc_le_mono length_Cons not0_implies_Suc take_0 take_Suc_Cons zero_le)
  have start: "(\<forall>i \<le> length events. busy_workers (fold run_item_counter (take i events) ?c) \<le> b) \<longrightarrow> busy_workers ?c \<le> b"
    by (auto dest: spec[of _ 0])
  show ?case
    using Cons.IH[OF c] Cons.prems step start
      prefixes[of "\<lambda>es. busy_workers (fold run_item_counter es c) \<le> b"] by auto
qed auto

record queue_snapshot =
  snapshot_workers :: nat
  snapshot_busy :: int
  snapshot_max_busy :: int
  snapshot_ready :: nat
  snapshot_inflight :: nat
  snapshot_completed :: nat
  snapshot_submitted :: nat
  snapshot_finished :: nat
  snapshot_committed :: nat
  snapshot_ready_memory :: int
  snapshot_inflight_memory :: int
  snapshot_completed_memory :: int
  snapshot_reserved_memory :: int
  snapshot_budget :: "int option"
  snapshot_peak_memory :: int
  snapshot_memory_backpressure :: nat
  snapshot_queue_backpressure :: nat
  snapshot_heartbeats :: nat

definition snapshot :: "worker_counter \<Rightarrow> 'v work_queue \<Rightarrow> queue_snapshot" where
  "snapshot counter q = \<lparr>snapshot_workers = allocated_workers q, snapshot_busy = busy_workers counter,
     snapshot_max_busy = max_busy_workers counter, snapshot_ready = length (ready q),
     snapshot_inflight = length (inflight q), snapshot_completed = length (completed q),
     snapshot_submitted = submitted_tasks q, snapshot_finished = finished_tasks q, snapshot_committed = committed_tasks q,
     snapshot_ready_memory = ready_memory q, snapshot_inflight_memory = inflight_memory q,
     snapshot_completed_memory = completed_memory q, snapshot_reserved_memory = reserved_memory q,
     snapshot_budget = memory_budget q, snapshot_peak_memory = peak_memory q,
     snapshot_memory_backpressure = memory_backpressure q, snapshot_queue_backpressure = queue_backpressure q,
     snapshot_heartbeats = heartbeat_count q\<rparr>"

end
