(* ===== verification/Work_Queue_Invariant.thy ===== *)
theory Work_Queue_Invariant
  imports Work_Queue "HOL-Library.Multiset"
begin

text \<open>
  The invariant of the work queue: the byte counters are the sums they stand for and never exceed the
  budget, every list stays within its capacity, no task is in two places or lost, and the counters
  agree.  It holds in every state that the operations can reach, and with it a queue without memory
  reservations never blocks.
\<close>

section \<open>The invariant\<close>

definition memory_of :: "work_item multiset \<Rightarrow> int" where
  "memory_of M = (\<Sum>item \<in># M. task_memory item)"

lemma memory_of_simps [simp]:
  "memory_of {#} = 0" "memory_of (add_mset x M) = task_memory x + memory_of M" "memory_of (M + N) = memory_of M + memory_of N"
  by (simp_all add: memory_of_def)

lemma memory_of_nonneg: "(\<And>item. item \<in># M \<Longrightarrow> 0 \<le> task_memory item) \<Longrightarrow> 0 \<le> memory_of M"
  by (induction M) auto

abbreviation ready_items :: "'v work_queue \<Rightarrow> work_item multiset" where
  "ready_items q \<equiv> mset (ready q)"

abbreviation inflight_items :: "'v work_queue \<Rightarrow> work_item multiset" where
  "inflight_items q \<equiv> mset (map snd (inflight q))"

abbreviation completed_items :: "'v work_queue \<Rightarrow> work_item multiset" where
  "completed_items q \<equiv> mset (map completed_item (completed q))"

definition queue_items :: "'v work_queue \<Rightarrow> work_item multiset" where
  "queue_items q = ready_items q + inflight_items q + completed_items q"

definition memory_inv :: "'v work_queue \<Rightarrow> bool" where
  "memory_inv q \<longleftrightarrow>
     ready_memory q = memory_of (ready_items q) \<and> inflight_memory q = memory_of (inflight_items q)
     \<and> completed_memory q = memory_of (completed_items q) \<and> reserved_memory q = sum_list (map snd (reservations q))
     \<and> (\<forall>item. item \<in># queue_items q \<longrightarrow> 0 \<le> task_memory item) \<and> (\<forall>a \<in> snd ` set (reservations q). 0 \<le> a)
     \<and> accounted_memory q \<le> peak_memory q
     \<and> (\<forall>b. memory_budget q = Some b \<longrightarrow> peak_memory q \<le> b \<and> (\<forall>item \<in> set (ready q). task_memory item \<le> b))"

definition slots_inv :: "'v work_queue \<Rightarrow> bool" where
  "slots_inv q \<longleftrightarrow> length (ready q) \<le> max_ready_tasks q \<and> length (inflight q) \<le> max_inflight_tasks q
     \<and> length (completed q) \<le> max_completed_tasks q \<and> 0 < max_ready_tasks q \<and> 0 < max_inflight_tasks q \<and> 0 < max_completed_tasks q"

definition names_inv :: "'v work_queue \<Rightarrow> bool" where
  "names_inv q \<longleftrightarrow> distinct (map fst (inflight q)) \<and> (\<forall>future \<in> fst ` set (inflight q). future < futures_made q)
     \<and> distinct (map fst (reservations q))
     \<and> distinct (seen_task_ids q) \<and> image_mset task_id (queue_items q) \<subseteq># mset (seen_task_ids q)"

definition counts_inv :: "bool \<Rightarrow> 'v work_queue \<Rightarrow> bool" where
  "counts_inv failed q \<longleftrightarrow> submitted_tasks q = length (seen_task_ids q)
     \<and> finished_tasks q = length (completed q) + committed_tasks q
     \<and> (let n = length (ready q) + length (inflight q) + finished_tasks q in
          if failed then n \<le> submitted_tasks q else n = submitted_tasks q)"

definition queue_inv :: "bool \<Rightarrow> 'v work_queue \<Rightarrow> bool" where
  "queue_inv failed q \<longleftrightarrow> memory_inv q \<and> slots_inv q \<and> names_inv q \<and> counts_inv failed q"

lemmas queue_invs = memory_inv_def slots_inv_def names_inv_def counts_inv_def queue_items_def accounted_memory_def Let_def

lemma make_work_queue_inv:
  "(\<forall>b. memory_limit = Some b \<longrightarrow> 0 \<le> b) \<Longrightarrow>
     queue_inv False (make_work_queue workers memory_limit ready_limit inflight_limit completed_limit)"
  by (auto simp: queue_inv_def queue_invs make_work_queue_def Let_def)

lemma accounted_within_budget:
  "queue_inv failed q \<Longrightarrow> memory_budget q = Some b \<Longrightarrow> accounted_memory q \<le> b"
  by (force simp: queue_inv_def memory_inv_def)

section \<open>Every operation keeps it\<close>

lemma update_peak_inv:
  assumes "names_inv q" "slots_inv q" "counts_inv failed q"
    and "ready_memory q = memory_of (ready_items q)" "inflight_memory q = memory_of (inflight_items q)"
      "completed_memory q = memory_of (completed_items q)" "reserved_memory q = sum_list (map snd (reservations q))"
    and "\<And>item. item \<in># queue_items q \<Longrightarrow> 0 \<le> task_memory item" and "\<forall>a \<in> snd ` set (reservations q). 0 \<le> a"
    and "\<And>b. memory_budget q = Some b \<Longrightarrow> peak_memory q \<le> b \<and> accounted_memory q \<le> b \<and> (\<forall>item \<in> set (ready q). task_memory item \<le> b)"
  shows "queue_inv failed (update_peak_memory q)"
  using assms by (auto simp: queue_inv_def queue_invs update_peak_memory_def)

lemma start_task_inv:
  assumes inv: "queue_inv failed q" and i: "admissible_ready_index q = Some i" and room: "length (inflight q) < max_inflight_tasks q"
  shows "queue_inv failed (case pop_ready_index i q of (item, q') \<Rightarrow> start_task item q')"
proof -
  note bound = admissible_ready_index_bound[OF i]
  define item rest where "item = ready q ! i" and "rest = take i (ready q) @ drop (Suc i) (ready q)"
  let ?q = "q\<lparr>ready := rest, ready_memory := ready_memory q - task_memory item,
    inflight := inflight q @ [(futures_made q, item)], futures_made := futures_made q + 1,
    inflight_memory := inflight_memory q + task_memory item\<rparr>"
  have "ready q = take i (ready q) @ item # drop (Suc i) (ready q)"
    unfolding item_def using bound id_take_nth_drop by blast
  then have mset: "mset (ready q) = add_mset item (mset rest)" and len: "length (ready q) = Suc (length rest)"
    unfolding rest_def
    by (metis mset_append mset.simps(2) union_mset_add_mset_right, metis length_append length_Cons add_Suc_right)
  have set: "set (ready q) = insert item (set rest)" using arg_cong[OF mset, of set_mset] by simp
  have result: "(case pop_ready_index i q of (item, q') \<Rightarrow> start_task item q') = update_peak_memory ?q"
    using bound by (simp add: pop_ready_index start_task_def item_def rest_def)
  have same: "queue_items ?q = queue_items q" by (simp add: queue_items_def mset)
  show ?thesis unfolding result
  proof (rule update_peak_inv)
    show "\<And>b. memory_budget ?q = Some b \<Longrightarrow> peak_memory ?q \<le> b \<and> accounted_memory ?q \<le> b
        \<and> (\<forall>item \<in> set (ready ?q). task_memory item \<le> b)"
      using inv bound by (auto simp: queue_inv_def memory_inv_def accounted_memory_def set item_def)
    show "\<And>x. x \<in># queue_items ?q \<Longrightarrow> 0 \<le> task_memory x"
      unfolding same using inv by (simp add: queue_inv_def memory_inv_def)
    show "names_inv ?q"
      using inv unfolding queue_inv_def names_inv_def same by auto
    show "slots_inv ?q" "counts_inv failed ?q"
      using inv room len by (auto simp: queue_inv_def slots_inv_def counts_inv_def Let_def split: if_splits)
  qed (use inv mset in \<open>simp_all add: queue_inv_def memory_inv_def\<close>)
qed

lemma dispatch_loop_inv: "queue_inv failed q \<Longrightarrow> queue_inv failed (dispatch_loop q)"
proof (induction q rule: dispatch_loop.induct)
  case (1 q)
  have backpressure: "queue_inv failed (q\<lparr>queue_backpressure := m\<rparr>)" "queue_inv failed (q\<lparr>memory_backpressure := m\<rparr>)" for m
    using "1.prems" by (auto simp: queue_inv_def queue_invs)
  show ?case
  proof (cases "ready q = [] \<or> length (inflight q) \<ge> max_inflight_tasks q
      \<or> length (completed q) \<ge> max_completed_tasks q \<or> admissible_ready_index q = None")
    case True
    then show ?thesis using backpressure "1.prems" by (subst dispatch_loop.simps) auto
  next
    case False
    then obtain i where i: "admissible_ready_index q = Some i" by auto
    with False "1.IH"[of i] start_task_inv[OF "1.prems" i]
    show ?thesis by (subst dispatch_loop.simps) (auto split: prod.splits)
  qed
qed

lemma dispatch_inv: "queue_inv failed q \<Longrightarrow> queue_inv failed (dispatch q)"
  by (simp add: dispatch_def dispatch_loop_inv)

lemma enter_inv: "queue_inv failed q \<Longrightarrow> queue_inv failed (snd (enter_queue q))"
  by (auto simp: enter_queue_def queue_inv_def queue_invs update_peak_memory_def)

lemma exit_inv: "queue_inv failed q \<Longrightarrow> queue_inv failed (exit_queue q)"
  by (auto simp: exit_queue_def queue_inv_def queue_invs)

lemma add_reservation_inv:
  assumes inv: "queue_inv failed q" and ok: "validate_reservation_request q name amount = Inr u"
    and fits: "\<And>b. memory_budget q = Some b \<Longrightarrow> amount + accounted_memory q \<le> b"
  shows "queue_inv failed (add_reservation name amount q)"
proof -
  have new: "name \<notin> fst ` set (reservations q)" "0 \<le> amount"
    using ok by (auto simp: validate_reservation_request_def bindE_Inr_iff guardE_Inr_iff)
  then have update: "AList.update name amount (reservations q) = reservations q @ [(name, amount)]"
    by (simp add: update_fresh)
  show ?thesis unfolding add_reservation_def update
    by (rule update_peak_inv) (use inv new fits in \<open>auto simp: queue_inv_def queue_invs\<close>)
qed

lemma reserve_inv:
  assumes inv: "queue_inv failed q"
  shows "queue_inv failed (snd (try_reserve_memory name amount q))" and "queue_inv failed (snd (reserve_memory name amount q))"
proof -
  have pressure: "queue_inv failed (q\<lparr>memory_backpressure := m\<rparr>)" for m
    using inv by (auto simp: queue_inv_def queue_invs)
  show "queue_inv failed (snd (try_reserve_memory name amount q))"
    using inv pressure
    by (auto simp: try_reserve_memory_def not_less split: sum.split option.splits intro!: add_reservation_inv)
  show "queue_inv failed (snd (reserve_memory name amount q))"
    using inv
    by (auto simp: reserve_memory_def guardE_def Let_def split: sum.split option.splits if_splits intro!: add_reservation_inv)
      (auto simp: validate_reservation_request_def bindE_Inr_iff guardE_Inr_iff dest: accounted_within_budget[OF inv])
qed

lemma mset_delete:
  "distinct (map fst xs) \<Longrightarrow> map_of xs k = Some v \<Longrightarrow>
     mset (map snd xs) = add_mset v (mset (map snd (AList.delete k xs)))"
proof (induction xs)
  case (Cons x xs)
  show ?case
  proof (cases "fst x = k")
    case True
    then have "k \<notin> fst ` set xs" using Cons.prems(1) by auto
    then have "AList.delete k (x # xs) = xs" using True by (simp add: AList.delete_eq filter_id_conv) force
    then show ?thesis using True Cons.prems(2) by simp
  next
    case False
    with Cons show ?thesis by (cases x) (simp add: AList.delete_eq)
  qed
qed simp

lemma sum_list_delete:
  fixes xs :: "('k \<times> int) list"
  assumes "distinct (map fst xs)" and "map_of xs k = Some v"
  shows "sum_list (map snd (AList.delete k xs)) = sum_list (map snd xs) - v"
  using arg_cong[OF mset_delete[OF assms], of sum_mset] by (simp add: sum_mset_sum_list del: mset_map)

lemma release_inv:
  assumes inv: "queue_inv failed q"
  shows "queue_inv failed (snd (release_memory name q))"
proof (cases "map_of (reservations q) name")
  case (Some amount)
  let ?q = "q\<lparr>reservations := AList.delete name (reservations q), reserved_memory := reserved_memory q - amount\<rparr>"
  have "distinct (map fst (reservations q))" "\<forall>a \<in> snd ` set (reservations q). 0 \<le> a"
    using inv by (simp_all add: queue_inv_def names_inv_def memory_inv_def)
  note deleted = sum_list_delete[OF this(1) Some] this
  have sub: "set (AList.delete name (reservations q)) \<subseteq> set (reservations q)" by (simp add: AList.delete_eq)
  have "0 \<le> amount" using map_of_SomeD[OF Some] deleted(3) by force
  moreover have "\<forall>a \<in> snd ` set (AList.delete name (reservations q)). 0 \<le> a" using deleted(3) sub by blast
  ultimately have "memory_inv ?q"
    using inv deleted(1) by (simp add: queue_inv_def memory_inv_def queue_items_def accounted_memory_def)
  moreover have "names_inv ?q"
    using inv by (simp add: queue_inv_def names_inv_def queue_items_def distinct_delete)
  ultimately have "queue_inv failed ?q" using inv by (auto simp: queue_inv_def slots_inv_def counts_inv_def Let_def)
  with Some show ?thesis by (simp add: release_memory_def dispatch_inv)
qed (use inv in \<open>simp add: release_memory_def\<close>)

lemma submit_inv:
  assumes inv: "queue_inv failed q"
  shows "queue_inv failed (snd (submit item' q))"
proof (cases "queue_entered q \<and> (\<exists>item. make_work_item item' = Inr item)")
  case True
  then obtain item where item: "make_work_item item' = Inr item" and entered: "queue_entered q" by blast
  then have nonneg: "0 \<le> task_memory item" by (auto simp: make_work_item_def bindE_Inr_iff guardE_Inr_iff)
  have pressure: "queue_inv failed (q\<lparr>queue_backpressure := m\<rparr>)" for m
    using inv by (auto simp: queue_inv_def queue_invs)
  let ?q = "q\<lparr>seen_task_ids := seen_task_ids q @ [task_id item], ready := ready q @ [item],
    ready_memory := ready_memory q + task_memory item, submitted_tasks := submitted_tasks q + 1\<rparr>"
  have "queue_inv failed (dispatch (update_peak_memory ?q))"
    if new: "task_id item \<notin> set (seen_task_ids q)" and room: "length (ready q) < max_ready_tasks q"
      and fits: "\<And>b. memory_budget q = Some b \<Longrightarrow> task_memory item \<le> b"
  proof (intro dispatch_inv update_peak_inv)
    have items: "queue_items ?q = add_mset item (queue_items q)" by (simp add: queue_items_def)
    show "names_inv ?q" using inv new unfolding queue_inv_def names_inv_def items by simp
    show "\<And>x. x \<in># queue_items ?q \<Longrightarrow> 0 \<le> task_memory x"
      unfolding items using inv nonneg by (auto simp: queue_inv_def memory_inv_def)
    show "slots_inv ?q" "counts_inv failed ?q"
      using inv room by (auto simp: queue_inv_def slots_inv_def counts_inv_def Let_def split: if_splits)
    show "\<And>b. memory_budget ?q = Some b \<Longrightarrow> peak_memory ?q \<le> b \<and> accounted_memory ?q \<le> b
        \<and> (\<forall>x \<in> set (ready ?q). task_memory x \<le> b)"
      using inv fits by (auto simp: queue_inv_def memory_inv_def accounted_memory_def)
  qed (use inv in \<open>auto simp: queue_inv_def memory_inv_def\<close>)
  then show ?thesis
    using entered item inv pressure by (auto simp: submit_def guardE_def not_le split: option.splits)
qed (use inv in \<open>auto simp: submit_def split: sum.split\<close>)

definition task_failed :: "exc + 'a \<Rightarrow> bool" where
  "task_failed out \<longleftrightarrow> (case out of Inl (DeterministicWorkQueueTaskError _ _ _) \<Rightarrow> True | _ \<Rightarrow> False)"

lemma queue_inv_failed: "queue_inv failed q \<Longrightarrow> queue_inv (failed \<or> failed') q"
  by (auto simp: queue_inv_def counts_inv_def Let_def split: if_splits)

lemma complete_one_inv:
  assumes inv: "queue_inv failed q" and item: "map_of (inflight q) future = Some item"
  shows "length (completed q) < max_completed_tasks q \<Longrightarrow> queue_inv failed (add_completed item v (remove_inflight future item q))"
    and "queue_inv True ((remove_inflight future item q)\<lparr>ready := [], ready_memory := 0\<rparr>)"
proof -
  let ?inflight = "AList.delete future (inflight q)"
  have "distinct (map fst (inflight q))" using inv by (simp add: queue_inv_def names_inv_def)
  note mset = mset_delete[OF this item]
  have len: "length (inflight q) = Suc (length ?inflight)" using arg_cong[OF mset, of size] by simp
  have "set ?inflight \<subseteq> set (inflight q)" by (auto simp: AList.delete_eq)
  then have keys: "distinct (map fst ?inflight)" "\<forall>x \<in> set ?inflight. fst x < futures_made q"
    using inv by (auto simp: queue_inv_def names_inv_def distinct_removeAll delete_keys)
  have "item \<in># queue_items q" unfolding queue_items_def mset by simp
  then have nonneg: "0 \<le> task_memory item" using inv by (simp add: queue_inv_def memory_inv_def)
  show "queue_inv failed (add_completed item v (remove_inflight future item q))"
    if room: "length (completed q) < max_completed_tasks q"
  proof -
    let ?q = "add_completed item v (remove_inflight future item q)"
    have items: "queue_items ?q = queue_items q"
      unfolding queue_items_def mset by (simp add: add_completed_def remove_inflight_def)
    have "memory_inv ?q"
      using inv unfolding queue_inv_def memory_inv_def items accounted_memory_def mset
      by (simp add: add_completed_def remove_inflight_def)
    moreover have "names_inv ?q"
      using inv keys unfolding queue_inv_def names_inv_def items
      by (auto simp: add_completed_def remove_inflight_def)
    moreover have "slots_inv ?q" "counts_inv failed ?q"
      using inv room len
      by (auto simp: queue_inv_def slots_inv_def counts_inv_def Let_def add_completed_def remove_inflight_def split: if_splits)
    ultimately show ?thesis by (simp add: queue_inv_def)
  qed
  let ?q = "(remove_inflight future item q)\<lparr>ready := [], ready_memory := 0\<rparr>"
  have "queue_items q = queue_items ?q + add_mset item (mset (ready q))"
    unfolding queue_items_def mset by (simp add: remove_inflight_def)
  then have items: "queue_items ?q \<subseteq># queue_items q" by simp
  have "memory_inv ?q"
    using inv nonneg mset_subset_eqD[OF items] unfolding queue_inv_def memory_inv_def accounted_memory_def mset
    by (auto simp: remove_inflight_def)
  moreover have "names_inv ?q"
    using inv keys subset_mset.order_trans[OF image_mset_subseteq_mono[OF items]]
    unfolding queue_inv_def names_inv_def by (auto simp: remove_inflight_def)
  moreover have "slots_inv ?q" "counts_inv True ?q"
    using inv len by (auto simp: queue_inv_def slots_inv_def counts_inv_def Let_def remove_inflight_def split: if_splits)
  ultimately show "queue_inv True ?q" by (simp add: queue_inv_def)
qed

lemma remaining_inflight:
  assumes "distinct (map fst xs)" and "k \<noteq> k'"
  shows "map_of (AList.delete k xs) k' = map_of xs k'"
  using assms(2) by (simp add: delete_conv')

lemma transfer_inv:
  "queue_inv failed q \<Longrightarrow> distinct futures \<Longrightarrow> set futures \<subseteq> fst ` set (inflight q) \<Longrightarrow>
   length futures + length (completed q) \<le> max_completed_tasks q \<Longrightarrow>
   (case transfer_done result futures q of (out, q') \<Rightarrow> queue_inv (failed \<or> task_failed out) q'
     \<and> (isl out \<longrightarrow> task_failed out))"
proof (induction futures arbitrary: q)
  case (Cons future futures)
  then obtain item where item: "map_of (inflight q) future = Some item" by (auto simp: map_of_eq_None_iff dest: weak_map_of_SomeI)
  show ?case
  proof (cases "result future item")
    case (Inl cause)
    with item queue_inv_failed[OF complete_one_inv(2)[OF Cons.prems(1) item], of True]
    show ?thesis by (simp add: task_failed_def)
  next
    case (Inr v)
    let ?q = "add_completed item v (remove_inflight future item q)"
    have "queue_inv failed ?q" using complete_one_inv(1)[OF Cons.prems(1) item] Cons.prems(4) by simp
    moreover have "set futures \<subseteq> fst ` set (inflight ?q)"
      using Cons.prems(2,3) arg_cong[OF delete_keys[of future "inflight q"], of set]
      by (auto simp: add_completed_def remove_inflight_def)
    moreover have "length futures + length (completed ?q) \<le> max_completed_tasks ?q"
      using Cons.prems(4) by (simp add: add_completed_def remove_inflight_def)
    ultimately show ?thesis using Cons.IH[of ?q] Cons.prems(2) item Inr by simp
  qed
qed (simp add: task_failed_def)

text \<open>\<open>wait\<close> reports futures that it was asked about, each once.\<close>

definition legal_wait :: "(nat list \<Rightarrow> nat list) \<Rightarrow> bool" where
  "legal_wait wait \<longleftrightarrow>
     (\<forall>futures. distinct futures \<longrightarrow> set (wait futures) \<subseteq> set futures \<and> distinct (wait futures))"

lemma legal_wait_futures:
  assumes "queue_inv failed q" and "legal_wait wait"
  shows "set (wait (map fst (inflight (dispatch q)))) \<subseteq> fst ` set (inflight (dispatch q))"
    and "distinct (wait (map fst (inflight (dispatch q))))"
proof -
  have "distinct (map fst (inflight (dispatch q)))"
    using dispatch_inv[OF assms(1)] by (simp add: queue_inv_def names_inv_def)
  with assms(2) show "set (wait (map fst (inflight (dispatch q)))) \<subseteq> fst ` set (inflight (dispatch q))"
    "distinct (wait (map fst (inflight (dispatch q))))"
    unfolding legal_wait_def by (metis set_map, blast)
qed

lemma update_peak_same: "queue_inv failed q \<Longrightarrow> update_peak_memory q = q"
  by (simp add: update_peak_memory_def queue_inv_def memory_inv_def max_def)

lemma batch_facts:
  assumes "distinct finished" and "set finished \<subseteq> fst ` set (inflight q)"
  defines "batch \<equiv> take (max_completed_tasks q - length (completed q)) (sort_key (done_key q) finished)"
  shows "distinct batch" and "set batch \<subseteq> fst ` set (inflight q)"
    and "length (completed q) \<le> max_completed_tasks q \<Longrightarrow> length batch + length (completed q) \<le> max_completed_tasks q"
  using assms(1,2) set_take_subset[of _ "sort_key (done_key q) finished"] unfolding batch_def
  by (auto simp: distinct_take)

lemma collect_done_inv:
  assumes inv: "queue_inv failed q" and legal: "set finished \<subseteq> fst ` set (inflight q)" "distinct finished"
  shows "case collect_done result finished q of (out, q') \<Rightarrow> queue_inv (failed \<or> task_failed out) q'"
proof (cases "finished = []")
  case True
  have "queue_inv failed (q\<lparr>heartbeat_count := m\<rparr>)" for m
    using inv by (auto simp: queue_inv_def queue_invs)
  with True show ?thesis by (simp add: collect_done_def task_failed_def)
next
  case False
  define batch where "batch = take (max_completed_tasks q - length (completed q)) (sort_key (done_key q) finished)"
  note batch = batch_facts[OF legal(2,1), folded batch_def]
  have "length batch + length (completed q) \<le> max_completed_tasks q"
    using batch(3) inv by (simp add: queue_inv_def slots_inv_def)
  from transfer_inv[OF inv batch(1,2) this, of result]
  show ?thesis
  proof (cases "transfer_done result batch q")
    case (Pair out q')
    with \<open>case transfer_done result batch q of (out, q') \<Rightarrow> _\<close> have q': "queue_inv (failed \<or> task_failed out) q'" by simp
    have "collect_done result finished q = (case out of Inl e \<Rightarrow> (Inl e, q')
        | Inr _ \<Rightarrow> (Inr (batch \<noteq> []), dispatch (if batch \<noteq> [] then update_peak_memory q' else q')))"
      using False Pair by (simp add: collect_done_def batch_def[symmetric] Let_def)
    with q' dispatch_inv[of failed q'] show ?thesis
      by (cases out) (simp_all add: task_failed_def update_peak_same)
  qed
qed

lemma wait_inv:
  assumes inv: "queue_inv failed q" and legal: "legal_wait wait"
  shows "case wait_for_completion result wait q of (out, q') \<Rightarrow> queue_inv (failed \<or> task_failed out) q'"
proof -
  have q': "queue_inv failed (dispatch q)" by (rule dispatch_inv[OF inv])
  from collect_done_inv[OF q' legal_wait_futures[OF inv legal], of result] inv q' show ?thesis
    by (auto simp: wait_for_completion_def Let_def task_failed_def not_entered_def)
qed

lemma drain_inv:
  assumes inv: "queue_inv failed q"
  shows "queue_inv failed (snd (drain_completed redispatch q))"
proof -
  let ?q = "q\<lparr>completed := [], completed_memory := 0, committed_tasks := committed_tasks q + length (completed q)\<rparr>"
  have split: "queue_items q = queue_items ?q + completed_items q" by (simp add: queue_items_def)
  then have items: "queue_items ?q \<subseteq># queue_items q" by simp
  have "0 \<le> memory_of (completed_items q)"
    using inv split by (intro memory_of_nonneg) (auto simp: queue_inv_def memory_inv_def)
  then have "memory_inv ?q"
    using inv mset_subset_eqD[OF items] by (auto simp: queue_inv_def memory_inv_def accounted_memory_def)
  moreover have "names_inv ?q"
    using inv subset_mset.order_trans[OF image_mset_subseteq_mono[OF items]] by (auto simp: queue_inv_def names_inv_def)
  moreover have "slots_inv ?q" "counts_inv failed ?q"
    using inv by (auto simp: queue_inv_def slots_inv_def counts_inv_def Let_def split: if_splits)
  ultimately have "queue_inv failed ?q" by (simp add: queue_inv_def)
  then show ?thesis using inv dispatch_inv by (auto simp: drain_completed_def Let_def)
qed

end
