(* ===== verification/Work_Queue_Progress.thy ===== *)
theory Work_Queue_Progress
  imports Work_Queue_Invariant
begin

text \<open>
  What the queue promises to a coordinator: in every reachable state the invariant holds, waiting never
  blocks on memory while the reservations leave room for each ready task, a wait moves at least one of
  the tasks that are done, and what a batch holds does not depend on the order in which the executor
  reports it.
\<close>

section \<open>What dispatching changes\<close>

definition same_frame :: "'v work_queue \<Rightarrow> 'v work_queue \<Rightarrow> bool" where
  "same_frame q q' \<longleftrightarrow> memory_budget q' = memory_budget q \<and> max_ready_tasks q' = max_ready_tasks q
     \<and> max_inflight_tasks q' = max_inflight_tasks q \<and> max_completed_tasks q' = max_completed_tasks q
     \<and> queue_entered q' = queue_entered q \<and> seen_task_ids q' = seen_task_ids q
     \<and> reservations q' = reservations q \<and> reserved_memory q' = reserved_memory q"

lemma same_frame_refl [simp]: "same_frame q q"
  by (simp add: same_frame_def)

lemma same_frame_trans: "same_frame q q' \<Longrightarrow> same_frame q' q'' \<Longrightarrow> same_frame q q''"
  by (simp add: same_frame_def)

lemma start_task_frame:
  assumes "admissible_ready_index q = Some i"
  defines "q' \<equiv> case pop_ready_index i q of (item, q') \<Rightarrow> start_task item q'"
  shows "same_frame q q'" and "queue_items q' = queue_items q" and "completed q' = completed q"
    and "set (ready q') \<subseteq> set (ready q)"
proof -
  have i: "i < length (ready q)" using admissible_ready_index_bound[OF assms(1)] by blast
  have "ready q = take i (ready q) @ ready q ! i # drop (Suc i) (ready q)" using i id_take_nth_drop by blast
  then have "mset (ready q) = add_mset (ready q ! i) (mset (take i (ready q) @ drop (Suc i) (ready q)))"
    by (metis mset_append mset.simps(2) union_mset_add_mset_right)
  then show "queue_items q' = queue_items q"
    unfolding queue_items_def q'_def by (simp add: pop_ready_index[OF i] start_task_def update_peak_memory_def)
  show "same_frame q q'" "completed q' = completed q" "set (ready q') \<subseteq> set (ready q)"
    by (auto simp: same_frame_def q'_def pop_ready_index[OF i] start_task_def update_peak_memory_def
        dest: in_set_takeD in_set_dropD)
qed

lemma dispatch_loop_frame:
  "same_frame q (dispatch_loop q) \<and> queue_items (dispatch_loop q) = queue_items q
     \<and> completed (dispatch_loop q) = completed q \<and> set (ready (dispatch_loop q)) \<subseteq> set (ready q)"
proof (induction q rule: dispatch_loop.induct)
  case (1 q)
  show ?case
  proof (cases "ready q = [] \<or> length (inflight q) \<ge> max_inflight_tasks q
      \<or> length (completed q) \<ge> max_completed_tasks q \<or> admissible_ready_index q = None")
    case True
    then show ?thesis by (subst (1 2 3 4) dispatch_loop.simps) (auto simp: same_frame_def queue_items_def)
  next
    case False
    then obtain i where i: "admissible_ready_index q = Some i" by auto
    obtain item q1 where pop: "pop_ready_index i q = (item, q1)" by (cases "pop_ready_index i q")
    have step: "dispatch_loop q = dispatch_loop (start_task item q1)"
      using False i pop by (subst dispatch_loop.simps) simp
    from False 1[of i item q1] i pop start_task_frame[OF i]
    show ?thesis unfolding step by (auto intro: same_frame_trans)
  qed
qed

lemma dispatch_frame:
  "same_frame q (dispatch q)" "queue_items (dispatch q) = queue_items q" "completed (dispatch q) = completed q"
  "set (ready (dispatch q)) \<subseteq> set (ready q)"
  using dispatch_loop_frame[of q] by (simp_all add: dispatch_def)

lemma admissible_backpressure [simp]:
  "admissible_ready_index (q\<lparr>queue_backpressure := m\<rparr>) = admissible_ready_index q"
  "admissible_ready_index (q\<lparr>memory_backpressure := m\<rparr>) = admissible_ready_index q"
  by (cases "memory_budget q"; simp add: admissible_ready_index_def)+

lemma dispatch_loop_stuck:
  defines "stuck \<equiv> \<lambda>q. ready q = [] \<or> length (inflight q) \<ge> max_inflight_tasks q
    \<or> length (completed q) \<ge> max_completed_tasks q \<or> admissible_ready_index q = None"
  shows "stuck (dispatch_loop q)"
proof (induction q rule: dispatch_loop.induct)
  case (1 q)
  show ?case
  proof (cases "stuck q")
    case True
    have "stuck (q\<lparr>queue_backpressure := m\<rparr>)" "stuck (q\<lparr>memory_backpressure := m\<rparr>)" for m
      using True by (simp_all add: stuck_def)
    with True show ?thesis by (subst dispatch_loop.simps) (auto simp: stuck_def split: option.split)
  next
    case False
    then obtain i where i: "admissible_ready_index q = Some i" by (auto simp: stuck_def)
    obtain item q1 where pop: "pop_ready_index i q = (item, q1)" by (cases "pop_ready_index i q")
    have "dispatch_loop q = dispatch_loop (start_task item q1)"
      using False i pop by (subst dispatch_loop.simps) (simp add: stuck_def)
    with False 1[of i item q1] i pop show ?thesis by (simp add: stuck_def)
  qed
qed

text \<open>Memory blocks nothing when every ready task fits beside the reservations.\<close>

definition reservations_leave_room :: "'v work_queue \<Rightarrow> bool" where
  "reservations_leave_room q \<longleftrightarrow>
     (\<forall>b. memory_budget q = Some b \<longrightarrow> (\<forall>item \<in> set (ready q). task_memory item + reserved_memory q \<le> b))"

lemma admissible_when_idle:
  assumes inv: "queue_inv failed q" and "ready q \<noteq> []" and "inflight q = []" "completed q = []"
    and room: "reservations_leave_room q"
  shows "admissible_ready_index q \<noteq> None"
proof (cases "memory_budget q")
  case (Some b)
  have zero: "inflight_memory q = 0" "completed_memory q = 0"
    using inv assms(3,4) by (simp_all add: queue_inv_def memory_inv_def)
  have "hd (ready q) \<in> set (ready q)" using assms(2) by simp
  with room Some have "task_memory (hd (ready q)) \<le> b - reserved_memory q"
    by (auto simp: reservations_leave_room_def algebra_simps)
  then have "find (\<lambda>(i, item). task_memory item \<le> b - reserved_memory q) (List.enumerate 0 (ready q)) \<noteq> None"
    using assms(2) by (cases "ready q") simp_all
  then show ?thesis using assms(2) Some zero by (auto simp: admissible_ready_index_def Let_def)
qed (use assms(2) in \<open>simp add: admissible_ready_index_def\<close>)

lemma dispatch_not_idle:
  assumes inv: "queue_inv failed q" and entered: "queue_entered q" and room: "reservations_leave_room q"
    and "completed q = []" and "inflight (dispatch q) = []"
  shows "ready (dispatch q) = []"
proof (rule ccontr)
  assume ready: "ready (dispatch q) \<noteq> []"
  note frame = dispatch_frame[of q]
  have "reservations_leave_room (dispatch q)"
    using room frame by (auto simp: reservations_leave_room_def same_frame_def)
  with admissible_when_idle[OF dispatch_inv[OF inv] ready assms(5)] frame(3) assms(4)
  have "admissible_ready_index (dispatch q) \<noteq> None" by simp
  moreover have "0 < max_inflight_tasks (dispatch q)" "0 < max_completed_tasks (dispatch q)"
    using dispatch_inv[OF inv] by (simp_all add: queue_inv_def slots_inv_def)
  ultimately show False
    using dispatch_loop_stuck[of q] ready assms(4,5) frame(3) entered by (simp add: dispatch_def)
qed

section \<open>What a wait and a drain move\<close>

lemma queue_items_complete:
  assumes "distinct (map fst (inflight q))" and "map_of (inflight q) future = Some item"
  shows "queue_items (add_completed item v (remove_inflight future item q)) = queue_items q"
  unfolding queue_items_def mset_delete[OF assms] by (simp add: add_completed_def remove_inflight_def)

lemma transfer_done_succeeds:
  assumes inv: "queue_inv failed q" and futures: "distinct futures" "set futures \<subseteq> fst ` set (inflight q)"
      "length futures + length (completed q) \<le> max_completed_tasks q"
    and success: "\<forall>future item. map_of (inflight q) future = Some item \<longrightarrow> (\<exists>v. result future item = Inr v)"
  shows "\<exists>q' new. transfer_done result futures q = (Inr (), q') \<and> same_frame q q' \<and> queue_items q' = queue_items q
    \<and> completed q' = completed q @ new \<and> length new = length futures \<and> ready q' = ready q
    \<and> (\<forall>c \<in> set new. \<exists>future. result future (completed_item c) = Inr (completed_value c))"
  using assms
proof (induction futures arbitrary: q)
  case (Cons future futures)
  then obtain item where item: "map_of (inflight q) future = Some item"
    by (auto simp: map_of_eq_None_iff dest: weak_map_of_SomeI)
  with Cons.prems(5) obtain v where v: "result future item = Inr v" by blast
  let ?q = "add_completed item v (remove_inflight future item q)"
  have keys: "distinct (map fst (inflight q))" using Cons.prems(1) by (simp add: queue_inv_def names_inv_def)
  have "queue_inv failed ?q" using complete_one_inv(1)[OF Cons.prems(1) item] Cons.prems(4) by simp
  moreover have "set futures \<subseteq> fst ` set (inflight ?q)"
    using Cons.prems(2,3) arg_cong[OF delete_keys[of future "inflight q"], of set]
    by (auto simp: add_completed_def remove_inflight_def)
  moreover have "length futures + length (completed ?q) \<le> max_completed_tasks ?q"
    using Cons.prems(4) by (simp add: add_completed_def remove_inflight_def)
  moreover have "\<forall>future' item'. map_of (inflight ?q) future' = Some item' \<longrightarrow> (\<exists>v. result future' item' = Inr v)"
    using Cons.prems(5) by (auto simp: add_completed_def remove_inflight_def delete_conv' split: if_splits)
  ultimately obtain q' new where "transfer_done result futures ?q = (Inr (), q')" "same_frame ?q q'"
    "queue_items q' = queue_items ?q" "completed q' = completed ?q @ new" "length new = length futures" "ready q' = ready ?q"
    "\<forall>c \<in> set new. \<exists>future. result future (completed_item c) = Inr (completed_value c)"
    using Cons.IH[of ?q] Cons.prems(2) by auto
  then show ?case
    using item v queue_items_complete[OF keys item]
    by (intro exI[of _ q'] exI[of _ "\<lparr>completed_item = item, completed_value = v\<rparr> # new"])
      (auto simp: add_completed_def remove_inflight_def same_frame_def)
qed auto

lemma wait_succeeds:
  assumes inv: "queue_inv failed q" and entered: "queue_entered q" and room: "reservations_leave_room q"
    and idle: "completed q = []" and work: "queue_items q \<noteq> {#}"
    and legal: "legal_wait wait" and "wait (map fst (inflight (dispatch q))) \<noteq> []"
    and success: "\<And>future item. item \<in># queue_items q \<Longrightarrow> \<exists>v. result future item = Inr v"
  shows "\<exists>q'. wait_for_completion result wait q = (Inr True, q') \<and> queue_inv failed q' \<and> same_frame q q'
    \<and> queue_items q' = queue_items q \<and> completed q' \<noteq> []
    \<and> (\<forall>c \<in> set (completed q'). \<exists>future. result future (completed_item c) = Inr (completed_value c))"
proof -
  let ?d = "dispatch q" and ?futures = "map fst (inflight (dispatch q))"
  note frame = dispatch_frame[of q]
  have inv_d: "queue_inv failed ?d" by (rule dispatch_inv[OF inv])
  have "inflight ?d \<noteq> []"
  proof
    assume "inflight ?d = []"
    with dispatch_not_idle[OF inv entered room idle this] frame(2,3) idle work show False by (simp add: queue_items_def)
  qed
  define finished where "finished = wait ?futures"
  have finished: "finished \<noteq> []" "set finished \<subseteq> fst ` set (inflight ?d)" "distinct finished"
    using assms(7) legal_wait_futures[OF inv legal] by (simp_all add: finished_def)
  define batch where "batch = take (max_completed_tasks ?d - length (completed ?d)) (sort_key (done_key ?d) finished)"
  note batch = batch_facts[OF finished(3,2), folded batch_def]
  have slots: "0 < max_completed_tasks ?d" using inv_d by (simp add: queue_inv_def slots_inv_def)
  have "length (sort_key (done_key ?d) finished) \<noteq> 0" using finished(1) by simp
  then have nonempty: "batch \<noteq> []" using slots frame(3) idle unfolding batch_def by (metis diff_zero length_0_conv list.size(3) neq0_conv take_eq_Nil)
  have len: "length batch + length (completed ?d) \<le> max_completed_tasks ?d"
    using batch(3) inv_d by (simp add: queue_inv_def slots_inv_def)
  have "\<forall>future item. map_of (inflight ?d) future = Some item \<longrightarrow> (\<exists>v. result future item = Inr v)"
  proof (intro allI impI success)
    fix future item assume "map_of (inflight ?d) future = Some item"
    then have "item \<in># queue_items ?d" using map_of_SomeD by (force simp: queue_items_def)
    then show "item \<in># queue_items q" by (simp only: frame(2))
  qed
  from transfer_done_succeeds[OF inv_d batch(1,2) len this] obtain q1 new where
    q1: "transfer_done result batch ?d = (Inr (), q1)" "same_frame ?d q1" "queue_items q1 = queue_items ?d"
      "completed q1 = completed ?d @ new" "length new = length batch"
      "\<forall>c \<in> set new. \<exists>future. result future (completed_item c) = Inr (completed_value c)" by blast
  have inv1: "queue_inv failed q1" using transfer_inv[OF inv_d batch(1,2) len, of result] q1(1) by (simp add: task_failed_def)
  have "collect_done result finished ?d = (Inr True, dispatch q1)"
    unfolding collect_done_def batch_def[symmetric] Let_def
    using finished(1) nonempty q1(1) update_peak_same[OF inv1] by simp
  then have "wait_for_completion result wait q = (Inr True, dispatch q1)"
    using entered idle frame(3) \<open>inflight ?d \<noteq> []\<close>
    by (simp add: wait_for_completion_def Let_def finished_def[symmetric])
  moreover have "completed q1 = new" "new \<noteq> []" using q1(4,5) frame(3) idle nonempty by auto
  ultimately show ?thesis
    using q1 dispatch_inv[OF inv1] dispatch_frame[of q1] frame
    by (intro exI[of _ "dispatch q1"]) (auto intro: same_frame_trans)
qed

lemma wait_heartbeat:
  assumes inv: "queue_inv failed q" and entered: "queue_entered q" and room: "reservations_leave_room q"
    and idle: "completed q = []" and work: "queue_items q \<noteq> {#}" and none: "wait (map fst (inflight (dispatch q))) = []"
  shows "\<exists>q'. wait_for_completion result wait q = (Inr False, q') \<and> queue_inv failed q' \<and> same_frame q q'
    \<and> queue_items q' = queue_items q \<and> completed q' = []"
proof -
  let ?d = "dispatch q"
  let ?q = "?d\<lparr>heartbeat_count := heartbeat_count ?d + 1\<rparr>"
  note frame = dispatch_frame[of q]
  have "inflight ?d \<noteq> []"
  proof
    assume "inflight ?d = []"
    with dispatch_not_idle[OF inv entered room idle this] frame(2,3) idle work show False by (simp add: queue_items_def)
  qed
  with none entered idle frame(3) have "wait_for_completion result wait q = (Inr False, ?q)"
    by (simp add: wait_for_completion_def Let_def collect_done_def)
  moreover have "queue_inv failed ?q"
    using dispatch_inv[OF inv] by (auto simp: queue_inv_def queue_invs split: if_splits)
  ultimately show ?thesis
    using frame idle by (intro exI[of _ ?q]) (simp add: same_frame_def queue_items_def)
qed

lemma drain_completed_moves:
  assumes inv: "queue_inv failed q" and entered: "queue_entered q" and "completed q \<noteq> []"
  shows "\<exists>items q'. drain_completed True q = (Inr items, q') \<and> queue_inv failed q' \<and> same_frame q q'
    \<and> mset items = mset (completed q) \<and> completed q' = [] \<and> queue_items q = queue_items q' + mset (map completed_item items)"
proof -
  let ?items = "sort_key (\<lambda>c. (canonical_order (completed_item c), task_id (completed_item c))) (completed q)"
  let ?q = "q\<lparr>completed := [], completed_memory := 0, committed_tasks := committed_tasks q + length ?items\<rparr>"
  have drain: "drain_completed True q = (Inr ?items, dispatch ?q)"
    using assms(2,3) by (simp add: drain_completed_def Let_def)
  with drain_inv[OF inv, of True] have "queue_inv failed (dispatch ?q)" by simp
  moreover have "same_frame q (dispatch ?q)"
    using dispatch_frame(1)[of ?q] by (simp add: same_frame_def)
  moreover have "queue_items q = queue_items (dispatch ?q) + mset (map completed_item ?items)"
    unfolding dispatch_frame(2) by (simp add: queue_items_def)
  ultimately show ?thesis using drain dispatch_frame(3)[of ?q] by (intro exI[of _ ?items] exI[of _ "dispatch ?q"]) simp
qed

lemma submit_accepts:
  assumes inv: "queue_inv failed q" and entered: "queue_entered q" and item: "make_work_item item = Inr item"
    and new: "task_id item \<notin> set (seen_task_ids q)" and room: "can_submit q"
    and fits: "\<And>b. memory_budget q = Some b \<Longrightarrow> task_memory item \<le> b"
  shows "\<exists>q'. submit item q = (Inr (), q') \<and> queue_inv failed q' \<and> queue_items q' = add_mset item (queue_items q)
    \<and> seen_task_ids q' = seen_task_ids q @ [task_id item] \<and> completed q' = completed q \<and> memory_budget q' = memory_budget q
    \<and> queue_entered q' \<and> reserved_memory q' = reserved_memory q"
proof -
  let ?q = "update_peak_memory (q\<lparr>seen_task_ids := seen_task_ids q @ [task_id item], ready := ready q @ [item],
    ready_memory := ready_memory q + task_memory item, submitted_tasks := submitted_tasks q + 1\<rparr>)"
  have submit: "submit item q = (Inr (), dispatch ?q)"
    using entered item new room fits by (auto simp: submit_def can_submit_def guardE_def not_le split: option.split)
  with submit_inv[OF inv, of item] have "queue_inv failed (dispatch ?q)" by simp
  moreover have "queue_items (dispatch ?q) = add_mset item (queue_items q)"
    unfolding dispatch_frame(2) by (simp add: queue_items_def update_peak_memory_def)
  ultimately show ?thesis
    using submit dispatch_frame(1,3)[of ?q] entered
    by (intro exI[of _ "dispatch ?q"]) (simp add: same_frame_def update_peak_memory_def)
qed

section \<open>Reachable states\<close>

text \<open>
  \<open>queue_reaches q0 failed q\<close>: some sequence of operations, in any order and with any answers of the
  executor, leads from \<open>q0\<close> to \<open>q\<close>; \<open>failed\<close> tells whether a wait has raised the error of a task.
\<close>

inductive queue_reaches :: "'v work_queue \<Rightarrow> bool \<Rightarrow> 'v work_queue \<Rightarrow> bool" for q0 where
  reaches_start: "queue_reaches q0 False q0"
| reaches_enter: "queue_reaches q0 failed q \<Longrightarrow> queue_reaches q0 failed (snd (enter_queue q))"
| reaches_exit: "queue_reaches q0 failed q \<Longrightarrow> queue_reaches q0 failed (exit_queue q)"
| reaches_reserve: "queue_reaches q0 failed q \<Longrightarrow> queue_reaches q0 failed (snd (reserve_memory name amount q))"
| reaches_try_reserve: "queue_reaches q0 failed q \<Longrightarrow> queue_reaches q0 failed (snd (try_reserve_memory name amount q))"
| reaches_release: "queue_reaches q0 failed q \<Longrightarrow> queue_reaches q0 failed (snd (release_memory name q))"
| reaches_submit: "queue_reaches q0 failed q \<Longrightarrow> queue_reaches q0 failed (snd (submit item q))"
| reaches_dispatch: "queue_reaches q0 failed q \<Longrightarrow> queue_reaches q0 failed (snd (dispatch_ready q))"
| reaches_wait: "queue_reaches q0 failed q \<Longrightarrow> legal_wait wait \<Longrightarrow> wait_for_completion result wait q = (out, q') \<Longrightarrow>
    queue_reaches q0 (failed \<or> task_failed out) q'"
| reaches_drain: "queue_reaches q0 failed q \<Longrightarrow> queue_reaches q0 failed (snd (drain_completed redispatch q))"

lemma queue_reaches_inv: "queue_reaches q0 failed q \<Longrightarrow> queue_inv False q0 \<Longrightarrow> queue_inv failed q"
proof (induction rule: queue_reaches.induct)
  case (reaches_wait failed q wait result out q')
  with wait_inv[of failed q wait result] show ?case by simp
qed (simp_all add: enter_inv exit_inv reserve_inv release_inv submit_inv drain_inv dispatch_ready_def dispatch_inv)

lemma transfer_done_error:
  "set futures \<subseteq> fst ` set (inflight q) \<Longrightarrow> distinct futures \<Longrightarrow> fst (transfer_done result futures q) = Inl e \<Longrightarrow>
     \<exists>future item cause. map_of (inflight q) future = Some item \<and> result future item = Inl cause
       \<and> e = DeterministicWorkQueueTaskError (task_id item) (task_kind item) cause"
proof (induction futures arbitrary: q)
  case (Cons future futures)
  then obtain item where item: "map_of (inflight q) future = Some item"
    by (auto simp: map_of_eq_None_iff dest: weak_map_of_SomeI)
  show ?case
  proof (cases "result future item")
    case (Inl cause)
    with item Cons.prems(3) show ?thesis by auto
  next
    case (Inr v)
    let ?q = "add_completed item v (remove_inflight future item q)"
    have sub: "set futures \<subseteq> fst ` set (inflight ?q)"
      using Cons.prems(1,2) arg_cong[OF delete_keys[of future "inflight q"], of set]
      by (auto simp: add_completed_def remove_inflight_def)
    from Cons.IH[OF sub] Cons.prems(2,3) item Inr obtain f i cause where
      *: "map_of (inflight ?q) f = Some i" "result f i = Inl cause"
        "e = DeterministicWorkQueueTaskError (task_id i) (task_kind i) cause" by auto
    then have "map_of (inflight q) f = Some i"
      by (auto simp: add_completed_def remove_inflight_def delete_conv' split: if_splits)
    with * show ?thesis by blast
  qed
qed simp

lemma wait_error:
  assumes inv: "queue_inv failed q" and room: "reservations_leave_room q" and legal: "legal_wait wait"
    and e: "fst (wait_for_completion result wait q) = Inl e"
  shows "\<not> queue_entered q \<and> e = not_entered \<or>
    (\<exists>future item cause. item \<in># queue_items q \<and> result future item = Inl cause
       \<and> e = DeterministicWorkQueueTaskError (task_id item) (task_kind item) cause)"
proof (cases "queue_entered q \<and> completed q = [] \<and> inflight (dispatch q) \<noteq> []")
  case False
  with e dispatch_not_idle[OF inv _ room] dispatch_frame(3)[of q] show ?thesis
    by (auto simp: wait_for_completion_def Let_def split: if_splits)
next
  case True
  let ?d = "dispatch q"
  define finished where "finished = wait (map fst (inflight ?d))"
  have finished: "set finished \<subseteq> fst ` set (inflight ?d)" "distinct finished"
    using legal_wait_futures[OF inv legal] by (simp_all add: finished_def)
  define batch where "batch = take (max_completed_tasks ?d - length (completed ?d)) (sort_key (done_key ?d) finished)"
  note batch = batch_facts[OF finished(2,1), folded batch_def]
  have "fst (collect_done result finished ?d) = Inl e"
    using e True dispatch_frame(3)[of q] by (simp add: wait_for_completion_def Let_def finished_def)
  then have "fst (transfer_done result batch ?d) = Inl e"
    by (auto simp: collect_done_def batch_def[symmetric] Let_def split: if_splits prod.splits sum.splits)
  from transfer_done_error[OF batch(2,1) this] obtain future item cause where
    *: "map_of (inflight ?d) future = Some item" "result future item = Inl cause"
      "e = DeterministicWorkQueueTaskError (task_id item) (task_kind item) cause" by blast
  from *(1) have "item \<in># queue_items ?d" using map_of_SomeD by (force simp: queue_items_def)
  then have "item \<in># queue_items q" by (simp only: dispatch_frame(2))
  with * show ?thesis by blast
qed

lemma distinct_submset:
  assumes "mset xs \<subseteq># mset ys" and "distinct ys"
  shows "distinct xs"
  unfolding distinct_count_atmost_1
proof
  fix a
  have "count (mset xs) a \<le> count (mset ys) a" using assms(1) by (rule mset_subset_eq_count)
  moreover have "count (mset ys) a \<le> 1" using assms(2) by (simp add: distinct_count_atmost_1)
  moreover have "a \<in> set xs \<longleftrightarrow> 0 < count (mset xs) a" unfolding count_greater_zero_iff by simp
  ultimately have "a \<in> set xs \<Longrightarrow> count (mset xs) a = 1" "a \<notin> set xs \<Longrightarrow> count (mset xs) a = 0" by linarith+
  then show "count (mset xs) a = (if a \<in> set xs then 1 else 0)" by metis
qed

lemma done_key_inj:
  assumes inv: "queue_inv failed q"
  shows "inj_on (done_key q) (fst ` set (inflight q))"
proof (rule inj_onI)
  fix f g assume fg: "f \<in> fst ` set (inflight q)" "g \<in> fst ` set (inflight q)" "done_key q f = done_key q g"
  have keys: "distinct (map fst (inflight q))" using inv by (simp add: queue_inv_def names_inv_def)
  from fg obtain i j where ij: "(f, i) \<in> set (inflight q)" "(g, j) \<in> set (inflight q)" by auto
  then have "map_of (inflight q) f = Some i" "map_of (inflight q) g = Some j" using keys by simp_all
  with fg(3) have ids: "task_id i = task_id j" by (simp add: done_key_def)
  have "mset (map (\<lambda>x. task_id (snd x)) (inflight q)) \<subseteq># image_mset task_id (queue_items q)"
    by (simp add: queue_items_def image_mset.compositionality comp_def)
  moreover have "image_mset task_id (queue_items q) \<subseteq># mset (seen_task_ids q)"
    using inv by (simp add: queue_inv_def names_inv_def)
  ultimately have "mset (map (\<lambda>x. task_id (snd x)) (inflight q)) \<subseteq># mset (seen_task_ids q)"
    by (rule subset_mset.order_trans)
  then have "distinct (map (\<lambda>x. task_id (snd x)) (inflight q))"
    by (rule distinct_submset) (use inv in \<open>simp only: queue_inv_def names_inv_def simp_thms\<close>)
  then have "inj_on (\<lambda>x. task_id (snd x)) (set (inflight q))" by (simp add: distinct_map)
  from inj_onD[OF this, of "(f, i)" "(g, j)"] ij ids show "f = g" by simp
qed

lemma wait_order_irrelevant:
  assumes inv: "queue_inv failed q" and legal: "legal_wait wait" "legal_wait wait'"
    and same: "\<And>futures. set (wait futures) = set (wait' futures)"
  shows "wait_for_completion result wait q = wait_for_completion result wait' q"
proof -
  let ?futures = "map fst (inflight (dispatch q))"
  have "set (wait ?futures) \<subseteq> fst ` set (inflight (dispatch q))"
    "distinct (wait ?futures)" "distinct (wait' ?futures)"
    using legal_wait_futures[OF inv] legal by blast+
  moreover from this same have "mset (wait ?futures) = mset (wait' ?futures)"
    using set_eq_iff_mset_eq_distinct[of "wait ?futures" "wait' ?futures"] by blast
  ultimately have "sort_key (done_key (dispatch q)) (wait ?futures) = sort_key (done_key (dispatch q)) (wait' ?futures)"
    using done_key_inj[OF dispatch_inv[OF inv]]
    by (intro sort_key_inj_key_eq) (auto intro: inj_on_subset)
  moreover have "wait ?futures = [] \<longleftrightarrow> wait' ?futures = []" using same by (metis set_empty)
  ultimately have "collect_done result (wait ?futures) (dispatch q) = collect_done result (wait' ?futures) (dispatch q)"
    by (simp add: collect_done_def)
  then show ?thesis by (simp add: wait_for_completion_def Let_def)
qed

section \<open>An example\<close>

text \<open>Three tasks of four bytes each under a budget of ten: the third one has to wait.\<close>

definition example_item :: "string \<Rightarrow> int \<Rightarrow> work_item" where
  "example_item name position = \<lparr>task_id = name, canonical_order = [position], task_kind = ''work'', task_memory = 4,
     locality_key = None\<rparr>"

definition example_queue :: "nat work_queue" where
  "example_queue = snd (submit (example_item ''c'' 2) (snd (submit (example_item ''b'' 1) (snd (submit (example_item ''a'' 0)
     (snd (enter_queue (make_work_queue 2 (Some 10) None None None))))))))"

lemma example_queue_state:
  "map task_id (ready example_queue) = [''c'']" "length (inflight example_queue) = 2" "memory_budget example_queue = Some 10"
  "queue_entered example_queue" "reserved_memory example_queue = 0" "map task_memory (ready example_queue) = [4]"
  "inflight_memory example_queue = 8" "submitted_tasks example_queue = 3"
  by code_simp+

lemma example_queue_reached: "queue_reaches (make_work_queue 2 (Some 10) None None None) False example_queue"
  unfolding example_queue_def by (intro reaches_submit reaches_enter reaches_start)

lemma example_wait: "legal_wait rev" "legal_wait id"
  by (simp_all add: legal_wait_def)

section \<open>Properties\<close>

text \<open>C14: Whatever a coordinator does and however the workers answer, the byte counters of the queue are the sums
  over its tasks and reservations, the memory of running and finished tasks and of the reservations
  never exceeds the budget, now or at the recorded peak, and no list outgrows its capacity.\<close>

theorem queue_memory_bounded:
  assumes "queue_reaches (make_work_queue workers memory_limit r i c) failed q"
    and "\<forall>b. memory_limit = Some b \<longrightarrow> 0 \<le> b"
  shows "ready_memory q = sum_list (map task_memory (ready q))
    \<and> inflight_memory q = sum_list (map (task_memory \<circ> snd) (inflight q))
    \<and> completed_memory q = sum_list (map (task_memory \<circ> completed_item) (completed q))
    \<and> reserved_memory q = sum_list (map snd (reservations q))
    \<and> accounted_memory q \<le> peak_memory q \<and> (\<forall>b. memory_budget q = Some b \<longrightarrow> peak_memory q \<le> b)
    \<and> length (ready q) \<le> max_ready_tasks q \<and> length (inflight q) \<le> max_inflight_tasks q
    \<and> length (completed q) \<le> max_completed_tasks q"
proof -
  have inv: "queue_inv failed q" by (rule queue_reaches_inv[OF assms(1) make_work_queue_inv[OF assms(2)]])
  have sum: "memory_of (mset xs) = sum_list (map task_memory xs)" for xs by (simp add: memory_of_def sum_mset_sum_list flip: mset_map)
  show ?thesis using inv unfolding queue_inv_def memory_inv_def slots_inv_def sum by (simp add: comp_def)
qed

theorem queue_memory_bounded_witness:
  "ready example_queue \<noteq> [] \<and> ready_memory example_queue = 4 \<and> peak_memory example_queue \<le> 10"
proof -
  have "\<forall>b. Some (10 :: int) = Some b \<longrightarrow> 0 \<le> b" by simp
  from queue_memory_bounded[OF example_queue_reached this] example_queue_state show ?thesis by auto
qed

text \<open>C15: Tasks are never lost or doubled: until a task fails, every submitted task is ready, running, finished and
  not yet drained, or drained, and the counters agree; task names never repeat.\<close>

theorem queue_conserves_tasks:
  assumes "queue_reaches (make_work_queue workers memory_limit r i c) failed q"
    and "\<forall>b. memory_limit = Some b \<longrightarrow> 0 \<le> b"
  shows "finished_tasks q = length (completed q) + committed_tasks q
    \<and> length (ready q) + length (inflight q) + finished_tasks q \<le> submitted_tasks q
    \<and> (\<not> failed \<longrightarrow> length (ready q) + length (inflight q) + finished_tasks q = submitted_tasks q)
    \<and> distinct (map task_id (ready q) @ map (task_id \<circ> snd) (inflight q) @ map (task_id \<circ> completed_item) (completed q))"
proof -
  have inv: "queue_inv failed q" by (rule queue_reaches_inv[OF assms(1) make_work_queue_inv[OF assms(2)]])
  have "distinct (map task_id (ready q) @ map (task_id \<circ> snd) (inflight q) @ map (task_id \<circ> completed_item) (completed q))"
  proof (rule distinct_submset)
    show "mset (map task_id (ready q) @ map (task_id \<circ> snd) (inflight q) @ map (task_id \<circ> completed_item) (completed q))
        \<subseteq># mset (seen_task_ids q)"
      using inv by (simp add: queue_inv_def names_inv_def queue_items_def image_mset.compositionality add.assoc)
    show "distinct (seen_task_ids q)" using inv by (simp add: queue_inv_def names_inv_def)
  qed
  moreover have "counts_inv failed q" using inv by (simp add: queue_inv_def)
  ultimately show ?thesis by (auto simp: counts_inv_def Let_def split: if_splits)
qed

theorem queue_conserves_tasks_witness:
  "submitted_tasks example_queue = 3 \<and> length (ready example_queue) + length (inflight example_queue) + finished_tasks example_queue = 3"
proof -
  have "\<forall>b. Some (10 :: int) = Some b \<longrightarrow> 0 \<le> b" by simp
  from queue_conserves_tasks[OF example_queue_reached this] example_queue_state show ?thesis by simp
qed

text \<open>C16: While the reservations leave room for each ready task, a wait on an entered queue raises nothing but the
  error of a task that failed, under the name of that task; in particular it never reports that memory
  blocks every task.\<close>

theorem queue_never_blocked:
  assumes "queue_reaches (make_work_queue workers memory_limit r i c) failed q"
    and "\<forall>b. memory_limit = Some b \<longrightarrow> 0 \<le> b" and "reservations_leave_room q" and "legal_wait wait" and "queue_entered q"
  shows "case fst (wait_for_completion result wait q) of
      Inr _ \<Rightarrow> True
    | Inl e \<Rightarrow> \<exists>future item cause. item \<in># queue_items q \<and> result future item = Inl cause
        \<and> e = DeterministicWorkQueueTaskError (task_id item) (task_kind item) cause"
proof (cases "fst (wait_for_completion result wait q)")
  case (Inl e)
  have inv: "queue_inv failed q" by (rule queue_reaches_inv[OF assms(1) make_work_queue_inv[OF assms(2)]])
  from wait_error[OF inv assms(3,4) Inl] assms(5) Inl show ?thesis by simp
qed simp

theorem queue_never_blocked_witness:
  "reservations_leave_room example_queue
     \<and> (\<exists>moved. fst (wait_for_completion (\<lambda>future _. Inr future) rev example_queue) = Inr moved)"
proof -
  have limit: "\<forall>b. Some (10 :: int) = Some b \<longrightarrow> 0 \<le> b" by simp
  have room: "reservations_leave_room example_queue"
    using example_queue_state by (auto simp: reservations_leave_room_def)
  from queue_never_blocked[OF example_queue_reached limit room example_wait(1) example_queue_state(4), of "\<lambda>future _. Inr future"] room
  show ?thesis by (auto split: sum.splits)
qed

text \<open>C17: What a wait does depends only on which tasks are done and what they return, and not on the order in
  which the executor reports them.\<close>

theorem batch_order_irrelevant:
  assumes "queue_reaches (make_work_queue workers memory_limit r i c) failed q"
    and "\<forall>b. memory_limit = Some b \<longrightarrow> 0 \<le> b" and "legal_wait wait" and "legal_wait wait'"
    and "\<And>futures. set (wait futures) = set (wait' futures)"
  shows "wait_for_completion result wait q = wait_for_completion result wait' q"
  by (rule wait_order_irrelevant[OF queue_reaches_inv[OF assms(1) make_work_queue_inv[OF assms(2)]] assms(3-5)])

theorem batch_order_irrelevant_witness:
  "wait_for_completion (\<lambda>future _. Inr future) rev example_queue = wait_for_completion (\<lambda>future _. Inr future) id example_queue"
proof -
  have "\<forall>b. Some (10 :: int) = Some b \<longrightarrow> 0 \<le> b" by simp
  from batch_order_irrelevant[OF example_queue_reached this example_wait] show ?thesis by simp
qed

end
