(* ===== verification/Family_Coordinators.thy ===== *)
theory Family_Coordinators
  imports Work_Queue_Progress
begin

text \<open>
  The two coordinators that hand one task per feature family to the work queue: the membership
  qualification (\<open>mdstats/training_data/target_order/qualification.py\<close>) and the inversion of the coverage
  index (\<open>mdstats/training_data/target_order/sparse_index.py\<close>).  Both submit families while the ready queue has
  room, wait, drain, and store each value under the position of its family.

  The numerical work on one family is an argument, and so are its memory estimate, the translation of
  an exception into the text that a task error carries, and the answers of the executor, one for
  each call of \<open>wait_for_completion\<close>.  When the answers run out the result is \<open>None\<close>: the coordinator is
  still running.
\<close>

section \<open>Task names\<close>

definition zero_padded :: "nat \<Rightarrow> nat \<Rightarrow> string" where
  "zero_padded width n = replicate (width - length (decimal n)) (CHR ''0'') @ decimal n"

definition mvqual_item :: "(nat \<Rightarrow> nat) \<Rightarrow> nat \<Rightarrow> work_item" where
  "mvqual_item memory position =
     \<lparr>task_id = ''mvqual-family-'' @ zero_padded 5 position, canonical_order = [int position], task_kind = ''mvqual-family'',
      task_memory = int (memory position), locality_key = None\<rparr>"

definition mvidx_item :: "(nat \<Rightarrow> bool) \<Rightarrow> (nat \<Rightarrow> nat) \<Rightarrow> nat \<Rightarrow> work_item" where
  "mvidx_item use_ooc memory position =
     \<lparr>task_id = ''mvidx-family-'' @ zero_padded 6 position, canonical_order = [int position],
      task_kind = (if use_ooc position then ''mvidx-family-inverse-ooc'' else ''mvidx-family-inverse''),
      task_memory = int (memory position), locality_key = None\<rparr>"

section \<open>The loops\<close>

function submit_families :: "(nat \<Rightarrow> work_item) \<Rightarrow> nat \<Rightarrow> nat \<Rightarrow> 'v work_queue \<Rightarrow> (nat, 'v) queue_outcome" where
  "submit_families item n position q =
     (if position < n \<and> can_submit q then
        (case submit (item position) q of
           (Inl e, q') \<Rightarrow> (Inl e, q')
         | (Inr _, q') \<Rightarrow> submit_families item n (position + 1) q')
      else (Inr position, q))"
  by pat_completeness auto
termination by (relation "measure (\<lambda>(item, n, position, q). n - position)") auto

declare submit_families.simps [simp del]

definition completion_position :: "'v completion \<Rightarrow> nat" where
  "completion_position c = nat (hd (canonical_order (completed_item c)))"

text \<open>One round of the outer loop up to the drained completions: submit, wait, drain.\<close>

definition coordinator_round ::
  "(nat \<Rightarrow> work_item) \<Rightarrow> (nat \<Rightarrow> work_item \<Rightarrow> message + 'v) \<Rightarrow> nat \<Rightarrow> (nat list \<Rightarrow> nat list) \<Rightarrow> nat \<Rightarrow> 'v work_queue
   \<Rightarrow> (nat \<times> 'v completion list, 'v) queue_outcome" where
  "coordinator_round item result n wait position q =
     (case submit_families item n position q of
        (Inl e, q') \<Rightarrow> (Inl e, q')
      | (Inr position', q') \<Rightarrow>
          (case wait_for_completion result wait q' of
             (Inl e, q'') \<Rightarrow> (Inl e, q'')
           | (Inr _, q'') \<Rightarrow>
               (case drain_completed True q'' of
                  (Inl e, q3) \<Rightarrow> (Inl e, q3)
                | (Inr items, q3) \<Rightarrow> (Inr (position', items), q3))))"

fun mvqual_loop ::
  "(nat \<Rightarrow> work_item) \<Rightarrow> (nat \<Rightarrow> work_item \<Rightarrow> message + 'v) \<Rightarrow> nat \<Rightarrow> (nat list \<Rightarrow> nat list) list \<Rightarrow> nat \<Rightarrow> (nat \<times> 'v) list
   \<Rightarrow> 'v work_queue \<Rightarrow> (nat \<times> 'v) list result option" where
  "mvqual_loop item result n schedule position results q =
     (if length results \<ge> n then Some (Inr results)
      else case schedule of
        [] \<Rightarrow> None
      | wait # schedule' \<Rightarrow>
          (case coordinator_round item result n wait position q of
             (Inl e, _) \<Rightarrow> Some (Inl e)
           | (Inr (position', items), q') \<Rightarrow>
               mvqual_loop item result n schedule' position'
                 (fold (\<lambda>c. AList.update (completion_position c) (completed_value c)) items results) q'))"

declare mvqual_loop.simps [simp del]

definition mvqual_families ::
  "nat \<Rightarrow> int option \<Rightarrow> (nat \<Rightarrow> nat) \<Rightarrow> (nat \<Rightarrow> work_item \<Rightarrow> message + 'v) \<Rightarrow> nat \<Rightarrow> (nat list \<Rightarrow> nat list) list
   \<Rightarrow> 'v list result option" where
  "mvqual_families width budget memory result n schedule =
     (case enter_queue (make_work_queue width budget (Some (2 * width)) (Some width) (Some (2 * width))) of
        (Inl e, _) \<Rightarrow> Some (Inl e)
      | (Inr _, q) \<Rightarrow> map_option (\<lambda>out. bindE out (\<lambda>results. mapE (lookupE results) [0..<n]))
          (mvqual_loop (mvqual_item memory) result n schedule 0 [] q))"

text \<open>A task result as the queue sees it: the value, or the text of the exception.\<close>

definition task_result :: "(exc \<Rightarrow> message) \<Rightarrow> (nat \<Rightarrow> exc + 'v) \<Rightarrow> nat \<Rightarrow> work_item \<Rightarrow> message + 'v" where
  "task_result describe compute future item = map_sum describe id (compute (nat (hd (canonical_order item))))"

definition qualify_by_family ::
  "nat \<Rightarrow> nat \<Rightarrow> int option \<Rightarrow> (nat \<Rightarrow> nat) \<Rightarrow> (exc \<Rightarrow> message) \<Rightarrow> (nat \<Rightarrow> nat \<Rightarrow> exc + 'v) \<Rightarrow> nat
   \<Rightarrow> (nat list \<Rightarrow> nat list) list \<Rightarrow> 'v list result option" where
  "qualify_by_family workers query_workers budget memory describe compute n schedule =
     (let width = max 1 (min workers n) in
      if width = 1 then Some (mapE (compute query_workers) [0..<n])
      else mvqual_families width budget memory (task_result describe (compute 1)) n schedule)"

fun mvidx_loop ::
  "(nat \<Rightarrow> work_item) \<Rightarrow> (nat \<Rightarrow> work_item \<Rightarrow> message + 'v) \<Rightarrow> nat \<Rightarrow> (nat list \<Rightarrow> nat list) list \<Rightarrow> nat \<Rightarrow> nat
   \<Rightarrow> 'v option list \<Rightarrow> 'v work_queue \<Rightarrow> 'v option list result option" where
  "mvidx_loop item result n schedule next_submit finished indices q =
     (if finished \<ge> n then Some (Inr indices)
      else case schedule of
        [] \<Rightarrow> None
      | wait # schedule' \<Rightarrow>
          (case coordinator_round item result n wait next_submit q of
             (Inl e, _) \<Rightarrow> Some (Inl e)
           | (Inr (next_submit', items), q') \<Rightarrow>
               mvidx_loop item result n schedule' next_submit' (finished + length items)
                 (fold (\<lambda>c indices. indices[completion_position c := Some (completed_value c)]) items indices) q'))"

declare mvidx_loop.simps [simp del]

definition invert_families ::
  "nat \<Rightarrow> int option \<Rightarrow> (nat \<Rightarrow> bool) \<Rightarrow> (nat \<Rightarrow> nat) \<Rightarrow> (exc \<Rightarrow> message) \<Rightarrow> (nat \<Rightarrow> exc + 'v) \<Rightarrow> nat
   \<Rightarrow> (nat list \<Rightarrow> nat list) list \<Rightarrow> 'v option list result option" where
  "invert_families width budget use_ooc memory describe compute n schedule =
     (if width = 1 then Some (bindE (mapE compute [0..<n]) (\<lambda>values. Inr (map Some values)))
      else case enter_queue (make_work_queue width budget (Some (max 1 (2 * width))) (Some (max 1 (2 * width)))
             (Some (max 1 (2 * width)))) of
        (Inl e, _) \<Rightarrow> Some (Inl e)
      | (Inr _, q) \<Rightarrow> mvidx_loop (mvidx_item use_ooc memory) (task_result describe compute) n schedule 0 0
          (replicate n None) q)"

section \<open>Names are distinct\<close>

definition decimal_value :: "string \<Rightarrow> nat" where
  "decimal_value s = fold (\<lambda>c n. 10 * n + (of_char c - 48)) s 0"

lemma decimal_value_append: "decimal_value (s @ [c]) = 10 * decimal_value s + (of_char c - 48)"
  by (simp add: decimal_value_def)

lemma decimal_value_decimal: "decimal_value (decimal n) = n"
proof (induction n rule: decimal.induct)
  case (1 n)
  show ?case
  proof (cases "n < 10")
    case True
    then show ?thesis by (subst decimal.simps) (simp add: decimal_value_def)
  next
    case False
    have "n mod 10 < 10" by simp
    then show ?thesis using False 1 by (subst decimal.simps) (simp add: decimal_value_append)
  qed
qed

lemma zero_padded_inject: "zero_padded w m = zero_padded w n \<longleftrightarrow> m = n"
proof
  have zeros: "decimal_value (replicate k (CHR ''0'') @ s) = decimal_value s" for k s
    by (induction k) (simp_all add: decimal_value_def)
  assume "zero_padded w m = zero_padded w n"
  from arg_cong[OF this, of decimal_value] show "m = n"
    by (simp add: zero_padded_def zeros decimal_value_decimal)
qed simp

section \<open>What a coordinator relies on\<close>

text \<open>
  The contract of the tasks: each is valid, carries the position of its family as its canonical order, and
  has a name of its own.  A run is described by the positions already stored, as a map.
\<close>

definition family_state ::
  "(nat \<Rightarrow> work_item) \<Rightarrow> (nat \<Rightarrow> 'v) \<Rightarrow> nat \<Rightarrow> nat \<Rightarrow> (nat \<Rightarrow> 'v option) \<Rightarrow> 'v work_queue \<Rightarrow> bool" where
  "family_state item val n p stored q \<longleftrightarrow> queue_inv False q \<and> queue_entered q \<and> reserved_memory q = 0 \<and> completed q = []
     \<and> (\<forall>b. memory_budget q = Some b \<longrightarrow> (\<forall>k < n. task_memory (item k) \<le> b)) \<and> p \<le> n
     \<and> seen_task_ids q = map (\<lambda>k. task_id (item k)) [0..<p]
     \<and> dom stored \<subseteq> {..<p} \<and> (\<forall>k v. stored k = Some v \<longrightarrow> v = val k)
     \<and> queue_items q = image_mset item (mset_set ({..<p} - dom stored))"

definition store_items :: "'v completion list \<Rightarrow> (nat \<Rightarrow> 'v option) \<Rightarrow> nat \<Rightarrow> 'v option" where
  "store_items items stored = fold (\<lambda>c m. m(completion_position c \<mapsto> completed_value c)) items stored"

locale family_tasks =
  fixes item :: "nat \<Rightarrow> work_item"
  assumes item_valid: "make_work_item (item p) = Inr (item p)"
    and item_order: "canonical_order (item p) = [int p]"
    and item_id: "task_id (item p) = task_id (item p') \<longleftrightarrow> p = p'"
begin

lemma item_inject: "item p = item p' \<longleftrightarrow> p = p'"
  using item_id by metis

lemma state_room: "family_state item val n p stored q \<Longrightarrow> reservations_leave_room q"
  by (auto simp: family_state_def reservations_leave_room_def queue_inv_def memory_inv_def)

lemma submit_one:
  assumes state: "family_state item val n p stored q" and "p < n" and "can_submit q"
  shows "\<exists>q'. submit (item p) q = (Inr (), q') \<and> family_state item val n (p + 1) stored q'"
proof -
  have new: "task_id (item p) \<notin> set (seen_task_ids q)"
    using state item_id by (auto simp: family_state_def)
  have fits: "task_memory (item p) \<le> b" if "memory_budget q = Some b" for b
    using state assms(2) that by (simp add: family_state_def)
  have inv: "queue_inv False q" "queue_entered q" using state by (simp_all add: family_state_def)
  obtain q' where q': "submit (item p) q = (Inr (), q')" "queue_inv False q'" "queue_items q' = add_mset (item p) (queue_items q)"
    "seen_task_ids q' = seen_task_ids q @ [task_id (item p)]" "completed q' = completed q" "memory_budget q' = memory_budget q"
    "queue_entered q'" "reserved_memory q' = reserved_memory q"
    using submit_accepts[OF inv item_valid new assms(3) fits] by blast
  have p: "p \<notin> dom stored" "dom stored \<subseteq> {..<p}" using state by (auto simp: family_state_def)
  then have "{..<p + 1} - dom stored = insert p ({..<p} - dom stored)" by auto
  then have "mset_set ({..<p + 1} - dom stored) = add_mset p (mset_set ({..<p} - dom stored))" by simp
  with q' state assms(2) p have "family_state item val n (p + 1) stored q'"
    by (auto simp: family_state_def)
  with q'(1) show ?thesis by blast
qed

lemma submit_families_state:
  "family_state item val n p stored q \<Longrightarrow>
   \<exists>p' q'. submit_families item n p q = (Inr p', q') \<and> family_state item val n p' stored q' \<and> (p' = n \<or> \<not> can_submit q')"
proof (induction "n - p" arbitrary: p q)
  case 0
  then have "p = n" by (simp add: family_state_def)
  with 0 show ?case by (subst submit_families.simps) auto
next
  case (Suc d)
  show ?case
  proof (cases "can_submit q")
    case True
    from Suc.hyps(2) have "p < n" by linarith
    from submit_one[OF Suc.prems this True] obtain q' where
      step: "submit (item p) q = (Inr (), q')" "family_state item val n (p + 1) stored q'" by blast
    have "d = n - (p + 1)" using Suc.hyps(2) by linarith
    from Suc.hyps(1)[OF this step(2)] show ?thesis
      using \<open>p < n\<close> True step(1) by (subst submit_families.simps) simp
  next
    case False
    with Suc.prems show ?thesis by (subst submit_families.simps) auto
  qed
qed

lemma state_has_work:
  assumes state: "family_state item val n p stored q" and p: "p = n \<or> \<not> can_submit q" and "dom stored \<noteq> {..<n}"
  shows "queue_items q \<noteq> {#}"
proof (cases "p = n")
  case True
  have "{..<n} - dom stored \<noteq> {}" using state assms(3) True by (auto simp: family_state_def)
  then have "mset_set ({..<n} - dom stored) \<noteq> {#}" by (simp add: mset_set_empty_iff)
  with state True show ?thesis by (simp add: family_state_def)
next
  case False
  then have "max_ready_tasks q \<le> length (ready q)" using p by (simp add: can_submit_def)
  moreover have "0 < max_ready_tasks q" using state by (simp add: family_state_def queue_inv_def slots_inv_def)
  ultimately have "ready q \<noteq> []" by auto
  then show ?thesis by (simp add: queue_items_def)
qed

text \<open>The drained items are tasks of families that were not stored yet, each once.\<close>

lemma drained_items:
  assumes D: "finite D" and items: "M + mset items = image_mset item (mset_set D)"
  defines "ks \<equiv> map (\<lambda>i. nat (hd (canonical_order i))) items"
  shows "items = map item ks" and "distinct ks" and "set ks \<subseteq> D" and "M = image_mset item (mset_set (D - set ks))"
proof -
  let ?pos = "\<lambda>i. nat (hd (canonical_order i))"
  have pos: "?pos (item k) = k" for k by (simp add: item_order)
  have "\<exists>k \<in> D. i = item k" if "i \<in> set items" for i
  proof -
    have "i \<in># M + mset items" using that by simp
    then show ?thesis unfolding items using D by auto
  qed
  then have "item (?pos i) = i" if "i \<in> set items" for i using that pos by metis
  then show ks: "items = map item ks" unfolding ks_def by (simp add: map_idI)
  have all: "image_mset ?pos M + mset ks = mset_set D"
    using arg_cong[OF items, of "image_mset ?pos"] by (simp add: ks_def image_mset.compositionality comp_def pos)
  then have "mset ks \<subseteq># mset_set D" by (metis mset_subset_eq_add_right)
  have "distinct (sorted_list_of_set D)" "mset_set D = mset (sorted_list_of_set D)"
    using D mset_set_set[of "sorted_list_of_set D"] by simp_all
  with distinct_submset[of ks "sorted_list_of_set D"] \<open>mset ks \<subseteq># mset_set D\<close> show dist: "distinct ks" by simp
  show sub: "set ks \<subseteq> D" using set_mset_mono[OF \<open>mset ks \<subseteq># mset_set D\<close>] D by simp
  have "mset ks = mset_set (set ks)" using dist by (simp add: mset_set_set)
  moreover have "M = image_mset item (mset_set D) - mset items" unfolding items[symmetric] by simp
  moreover have "image_mset item (mset_set D) - image_mset item (mset ks) = image_mset item (mset_set D - mset ks)"
    using \<open>mset ks \<subseteq># mset_set D\<close> by (rule image_mset_Diff[symmetric])
  ultimately show "M = image_mset item (mset_set (D - set ks))"
    using ks sub D by (metis finite_subset mset_map mset_set_Diff)
qed

end

text \<open>An answer of the executor is productive when it reports some done task whenever one is running.\<close>

definition productive :: "(nat list \<Rightarrow> nat list) \<Rightarrow> bool" where
  "productive wait \<longleftrightarrow> (\<forall>futures. futures \<noteq> [] \<longrightarrow> wait futures \<noteq> [])"

lemma store_items_simps:
  assumes "distinct (map completion_position cs)"
  shows "store_items cs stored k = (if k \<in> set (map completion_position cs)
     then Some (completed_value (the (find (\<lambda>c. completion_position c = k) cs))) else stored k)"
  using assms
proof (induction cs arbitrary: stored)
  case (Cons c cs)
  then show ?case by (cases "completion_position c = k") (auto simp: store_items_def)
qed (simp add: store_items_def)

context family_tasks
begin

lemma round_state:
  assumes state: "family_state item val n p stored q" and more: "dom stored \<noteq> {..<n}" and legal: "legal_wait wait"
    and result: "\<And>future k. k < n \<Longrightarrow> result future (item k) = Inr (val k)"
  shows "\<exists>p' cs q'. coordinator_round item result n wait p q = (Inr (p', cs), q')
    \<and> family_state item val n p' (store_items cs stored) q' \<and> distinct (map completion_position cs)
    \<and> set (map completion_position cs) \<inter> dom stored = {} \<and> (\<forall>c \<in> set cs. completed_value c = val (completion_position c))
    \<and> dom (store_items cs stored) = dom stored \<union> set (map completion_position cs)
    \<and> (productive wait \<longrightarrow> cs \<noteq> [])"
proof -
  obtain p' q1 where submitted: "submit_families item n p q = (Inr p', q1)" and s1: "family_state item val n p' stored q1"
    and full: "p' = n \<or> \<not> can_submit q1" using submit_families_state[OF state] by blast
  have inv: "queue_inv False q1" "queue_entered q1" "completed q1 = []" using s1 by (simp_all add: family_state_def)
  note work = state_has_work[OF s1 full more]
  note room = state_room[OF s1]
  let ?D = "{..<p'} - dom stored"
  have items: "queue_items q1 = image_mset item (mset_set ?D)" "p' \<le> n" using s1 by (simp_all add: family_state_def)
  show ?thesis
  proof (cases "wait (map fst (inflight (dispatch q1))) = []")
    case True
    from wait_heartbeat[where wait = wait and result = result, OF inv(1,2) room inv(3) work True] obtain q2 where
      q2: "wait_for_completion result wait q1 = (Inr False, q2)" "queue_inv False q2" "same_frame q1 q2"
        "queue_items q2 = queue_items q1" "completed q2 = []" by blast
    then have "coordinator_round item result n wait p q = (Inr (p', []), q2)"
      using submitted inv(2) by (simp add: coordinator_round_def drain_completed_def same_frame_def)
    moreover have "family_state item val n p' (store_items [] stored) q2"
      using s1 q2 by (simp add: family_state_def same_frame_def store_items_def)
    moreover have "map fst (inflight (dispatch q1)) \<noteq> []"
      using dispatch_not_idle[OF inv(1,2) room inv(3)] work dispatch_frame(2,3)[of q1] inv(3)
      by (auto simp: queue_items_def)
    ultimately show ?thesis using True by (intro exI[of _ p'] exI[of _ "[]"] exI[of _ q2]) (auto simp: store_items_def productive_def)
  next
    case False
    have success: "\<exists>v. result future i = Inr v" if "i \<in># queue_items q1" for future i
      using that result items by auto
    from wait_succeeds[where wait = wait and result = result, OF inv(1,2) room inv(3) work legal False success] obtain q2 where
      q2: "wait_for_completion result wait q1 = (Inr True, q2)" "queue_inv False q2" "same_frame q1 q2"
        "queue_items q2 = queue_items q1" "completed q2 \<noteq> []"
      and returned: "\<forall>c \<in> set (completed q2). \<exists>future. result future (completed_item c) = Inr (completed_value c)" by blast
    have entered: "queue_entered q2" using q2(3) inv(2) by (simp add: same_frame_def)
    from drain_completed_moves[OF q2(2) entered q2(5)] obtain cs q3 where
      q3: "drain_completed True q2 = (Inr cs, q3)" "queue_inv False q3" "same_frame q2 q3" "mset cs = mset (completed q2)"
        "completed q3 = []" "queue_items q2 = queue_items q3 + mset (map completed_item cs)" by blast
    have round: "coordinator_round item result n wait p q = (Inr (p', cs), q3)"
      using submitted q2(1) q3(1) by (simp add: coordinator_round_def)
    let ?ks = "map completion_position cs"
    have ks: "?ks = map (\<lambda>i. nat (hd (canonical_order i))) (map completed_item cs)" by (simp add: completion_position_def)
    have "queue_items q3 + mset (map completed_item cs) = image_mset item (mset_set ?D)" using q3(6) q2(4) items(1) by simp
    note drained = drained_items[OF _ this, folded ks, simplified finite_Diff finite_lessThan]
    have same: "completed_value c = val (completion_position c)" if c: "c \<in> set cs" for c
    proof -
      have "completed_item c = item (completion_position c)"
        using drained(1) c by (auto simp: map_eq_conv comp_def)
      moreover have "c \<in> set (completed q2)" using q3(4) c by (metis set_mset_mset)
      moreover have "completion_position c < n" using drained(3) c items(2) by auto
      ultimately show ?thesis using returned result by fastforce
    qed
    have dom: "dom (store_items cs stored) = dom stored \<union> set ?ks"
      using store_items_simps[OF drained(2)] by (auto simp: dom_def split: if_splits)
    have "v = val k" if "store_items cs stored k = Some v" for k v
    proof (cases "k \<in> set ?ks")
      case True
      then have "find (\<lambda>c. completion_position c = k) cs \<noteq> None" by (auto simp: find_None_iff)
      then obtain c where c: "find (\<lambda>c. completion_position c = k) cs = Some c" by blast
      then have "c \<in> set cs" "completion_position c = k" by (auto simp: find_Some_iff)
      moreover have "v = completed_value c" using that True c store_items_simps[OF drained(2), of stored k] by simp
      ultimately show ?thesis using same by simp
    next
      case False
      with that s1 store_items_simps[OF drained(2), of stored k] show ?thesis by (simp add: family_state_def)
    qed
    moreover have "queue_items q3 = image_mset item (mset_set ({..<p'} - dom (store_items cs stored)))"
      using drained(4) unfolding dom by (simp add: Diff_Diff_Int set_diff_eq Un_def Collect_conj_eq)
    moreover have "dom (store_items cs stored) \<subseteq> {..<p'}" using s1 drained(3) unfolding dom by (auto simp: family_state_def)
    ultimately have "family_state item val n p' (store_items cs stored) q3"
      using s1 q2(3) q3(2,3,5) by (simp add: family_state_def same_frame_def)
    moreover have "cs \<noteq> []" using q3(4) q2(5) by auto
    ultimately show ?thesis
      using round drained(2,3) same dom by (intro exI[of _ p'] exI[of _ cs] exI[of _ q3]) auto
  qed
qed

end

section \<open>The loops end with every family stored\<close>

lemma card_keys: "distinct (map fst xs) \<Longrightarrow> card (dom (map_of xs)) = length xs"
  by (simp add: dom_map_of_conv_image_fst distinct_card flip: set_map)

lemma map_of_store:
  "map_of (fold (\<lambda>c. AList.update (completion_position c) (completed_value c)) cs results) = store_items cs (map_of results)"
  unfolding store_items_def by (induction cs arbitrary: results) (simp_all add: update_conv')

lemma keys_store:
  "distinct (map fst results) \<Longrightarrow> distinct (map completion_position cs) \<Longrightarrow>
   set (map completion_position cs) \<inter> fst ` set results = {} \<Longrightarrow>
   distinct (map fst (fold (\<lambda>c. AList.update (completion_position c) (completed_value c)) cs results))
   \<and> length (fold (\<lambda>c. AList.update (completion_position c) (completed_value c)) cs results) = length results + length cs"
proof (induction cs arbitrary: results)
  case (Cons c cs)
  then have "AList.update (completion_position c) (completed_value c) results = results @ [(completion_position c, completed_value c)]"
    by (intro update_fresh) auto
  with Cons.IH[of "results @ [(completion_position c, completed_value c)]"] Cons.prems show ?case by auto
qed simp

context family_tasks
begin

lemma all_stored:
  assumes state: "family_state item val n p stored q" and "n \<le> card (dom stored)" and "k < n"
  shows "stored k = Some (val k)"
proof -
  have "dom stored \<subseteq> {..<n}" using state by (force simp: family_state_def)
  with assms(2) have "dom stored = {..<n}" by (metis card_lessThan card_seteq finite_lessThan)
  then obtain v where v: "stored k = Some v" using assms(3) by blast
  with state have "v = val k" by (simp add: family_state_def)
  with v show ?thesis by simp
qed

lemma mvqual_loop_ends:
  assumes result: "\<And>future k. k < n \<Longrightarrow> result future (item k) = Inr (val k)"
  shows "\<forall>wait \<in> set schedule. legal_wait wait \<Longrightarrow> family_state item val n p (map_of results) q \<Longrightarrow> distinct (map fst results) \<Longrightarrow>
    (case mvqual_loop item result n schedule p results q of
       None \<Rightarrow> length (filter productive schedule) + length results < n
     | Some out \<Rightarrow> \<exists>stored. out = Inr stored \<and> (\<forall>k < n. map_of stored k = Some (val k)))"
proof (induction schedule arbitrary: p results q)
  case Nil
  then show ?case
    using all_stored[OF Nil.prems(2)] card_keys[OF Nil.prems(3)] by (subst mvqual_loop.simps) auto
next
  case (Cons wait schedule)
  show ?case
  proof (cases "length results \<ge> n")
    case True
    then show ?thesis
      using all_stored[OF Cons.prems(2)] card_keys[OF Cons.prems(3)] by (subst mvqual_loop.simps) auto
  next
    case False
    then have "dom (map_of results) \<noteq> {..<n}" using card_keys[OF Cons.prems(3)] by auto
    have "legal_wait wait" using Cons.prems(1) by simp
    from round_state[where result = result, OF Cons.prems(2) \<open>dom (map_of results) \<noteq> {..<n}\<close> this result] obtain p' cs q' where
      round: "coordinator_round item result n wait p q = (Inr (p', cs), q')"
        "family_state item val n p' (store_items cs (map_of results)) q'" "distinct (map completion_position cs)"
        "set (map completion_position cs) \<inter> dom (map_of results) = {}" "productive wait \<longrightarrow> cs \<noteq> []"
      by blast
    let ?results = "fold (\<lambda>c. AList.update (completion_position c) (completed_value c)) cs results"
    have keys: "distinct (map fst ?results)" "length ?results = length results + length cs"
      using keys_store[OF Cons.prems(3) round(3)] round(4) by (simp_all add: dom_map_of_conv_image_fst)
    have step: "mvqual_loop item result n (wait # schedule) p results q = mvqual_loop item result n schedule p' ?results q'"
      using False round(1) by (subst mvqual_loop.simps) simp
    have "family_state item val n p' (map_of ?results) q'" using round(2) by (simp add: map_of_store)
    from Cons.IH[OF _ this keys(1)] Cons.prems(1) round(5)
    show ?thesis unfolding step keys(2) by (cases cs) (auto split: option.splits)
  qed
qed

end

definition slots_map :: "'v option list \<Rightarrow> nat \<Rightarrow> 'v option" where
  "slots_map indices k = (if k < length indices then indices ! k else None)"

lemma slots_map_store:
  "set (map completion_position cs) \<subseteq> {..<length indices} \<Longrightarrow>
   slots_map (fold (\<lambda>c indices. indices[completion_position c := Some (completed_value c)]) cs indices) = store_items cs (slots_map indices)
   \<and> length (fold (\<lambda>c indices. indices[completion_position c := Some (completed_value c)]) cs indices) = length indices"
  unfolding store_items_def
proof (induction cs arbitrary: indices)
  case (Cons c cs)
  have "slots_map (indices[completion_position c := Some (completed_value c)])
      = (slots_map indices)(completion_position c \<mapsto> completed_value c)"
    using Cons.prems by (auto simp: slots_map_def nth_list_update)
  with Cons show ?case by simp
qed simp

lemma slots_complete: "length indices = n \<Longrightarrow> \<forall>k < n. slots_map indices k = Some (f k) \<Longrightarrow> indices = map (\<lambda>k. Some (f k)) [0..<n]"
  by (auto simp: slots_map_def intro!: nth_equalityI)

context family_tasks
begin

lemma mvidx_loop_ends:
  assumes result: "\<And>future k. k < n \<Longrightarrow> result future (item k) = Inr (val k)"
  shows "\<forall>wait \<in> set schedule. legal_wait wait \<Longrightarrow> family_state item val n p (slots_map indices) q \<Longrightarrow> length indices = n \<Longrightarrow>
    finished = card (dom (slots_map indices)) \<Longrightarrow>
    (case mvidx_loop item result n schedule p finished indices q of
       None \<Rightarrow> length (filter productive schedule) + finished < n
     | Some out \<Rightarrow> out = Inr (map (\<lambda>k. Some (val k)) [0..<n]))"
proof (induction schedule arbitrary: p indices q finished)
  case Nil
  then show ?case
    using all_stored[OF Nil.prems(2)] slots_complete[OF Nil.prems(3)] by (subst mvidx_loop.simps) auto
next
  case (Cons wait schedule)
  show ?case
  proof (cases "finished \<ge> n")
    case True
    then show ?thesis
      using Cons.prems(4) all_stored[OF Cons.prems(2)] slots_complete[OF Cons.prems(3)] by (subst mvidx_loop.simps) auto
  next
    case False
    then have "dom (slots_map indices) \<noteq> {..<n}" using Cons.prems(4) by auto
    have "legal_wait wait" using Cons.prems(1) by simp
    from round_state[where result = result, OF Cons.prems(2) \<open>dom (slots_map indices) \<noteq> {..<n}\<close> this result] obtain p' cs q' where
      round: "coordinator_round item result n wait p q = (Inr (p', cs), q')"
        "family_state item val n p' (store_items cs (slots_map indices)) q'" "distinct (map completion_position cs)"
        "set (map completion_position cs) \<inter> dom (slots_map indices) = {}"
        "dom (store_items cs (slots_map indices)) = dom (slots_map indices) \<union> set (map completion_position cs)"
        "productive wait \<longrightarrow> cs \<noteq> []" by blast
    let ?indices = "fold (\<lambda>c indices. indices[completion_position c := Some (completed_value c)]) cs indices"
    have "set (map completion_position cs) \<subseteq> {..<n}" using round(2,5) by (force simp: family_state_def)
    with slots_map_store[of cs indices] Cons.prems(3) have
      stored: "slots_map ?indices = store_items cs (slots_map indices)" "length ?indices = n" by simp_all
    have "finite (dom (slots_map indices))"
      by (rule finite_subset[of _ "{..<length indices}"]) (auto simp: slots_map_def split: if_splits)
    then have count: "finished + length cs = card (dom (slots_map ?indices))"
      using Cons.prems(4) round(3-5) distinct_card[OF round(3)] unfolding stored(1) by (simp add: card_Un_disjoint Int_commute)
    have step: "mvidx_loop item result n (wait # schedule) p finished indices q
        = mvidx_loop item result n schedule p' (finished + length cs) ?indices q'"
      using False round(1) by (subst mvidx_loop.simps) simp
    have "family_state item val n p' (slots_map ?indices) q'" using round(2) by (simp add: stored(1))
    from Cons.IH[OF _ this stored(2) count] Cons.prems(1) round(6)
    show ?thesis unfolding step by (cases cs) (auto split: option.splits)
  qed
qed

lemma entered_state:
  assumes "\<forall>b. budget = Some b \<longrightarrow> (\<forall>k < n. task_memory (item k) \<le> b)" and "\<forall>b. budget = Some b \<longrightarrow> 0 \<le> b"
    and "stored = Map.empty"
  shows "\<exists>q. enter_queue (make_work_queue width budget r i c) = (Inr (), q) \<and> family_state item val n 0 stored q"
proof -
  let ?q = "make_work_queue width budget r i c"
  have "queue_inv False (snd (enter_queue ?q))" by (rule enter_inv[OF make_work_queue_inv[OF assms(2)]])
  then show ?thesis
    using assms(1,3)
    by (simp add: enter_queue_def make_work_queue_def Let_def family_state_def update_peak_memory_def queue_items_def)
qed

end

section \<open>The two sources of tasks meet the contract\<close>

lemma make_work_item_Inr:
  assumes "c \<in> set (task_id i)" and "\<not> python_space c" and "\<forall>v \<in> set (canonical_order i). 0 \<le> v" and "0 \<le> task_memory i"
  shows "make_work_item i = Inr i"
proof -
  have "\<not> list_all python_space (task_id i)" using assms(1,2) by (auto simp: list_all_iff)
  with assms(3,4) show ?thesis by (simp add: make_work_item_def)
qed

lemma letter_m: "\<not> python_space (CHR ''m'')"
  by code_simp

interpretation mvqual: family_tasks "mvqual_item memory" for memory
proof
  show "make_work_item (mvqual_item memory p) = Inr (mvqual_item memory p)" for p
    by (rule make_work_item_Inr[OF _ letter_m]) (simp_all add: mvqual_item_def)
qed (simp_all add: mvqual_item_def zero_padded_inject)

interpretation mvidx: family_tasks "mvidx_item use_ooc memory" for use_ooc memory
proof
  show "make_work_item (mvidx_item use_ooc memory p) = Inr (mvidx_item use_ooc memory p)" for p
    by (rule make_work_item_Inr[OF _ letter_m]) (simp_all add: mvidx_item_def)
qed (simp_all add: mvidx_item_def zero_padded_inject)

section \<open>Properties\<close>

text \<open>C13: The membership qualification does not depend on scheduling: when every family succeeds and fits the
  budget, any number of workers that report some done task often enough gives exactly the result of
  the sequential branch; however rarely they report, no other result and no error is possible.\<close>

theorem qualification_schedule_free:
  assumes "\<And>k. k < n \<Longrightarrow> compute 1 k = Inr (val k)" and "\<And>k. k < n \<Longrightarrow> compute query_workers k = Inr (val k)"
    and "\<forall>b. budget = Some b \<longrightarrow> 0 \<le> b \<and> (\<forall>k < n. int (memory k) \<le> b)" and "\<forall>wait \<in> set schedule. legal_wait wait"
  shows "qualify_by_family 1 query_workers budget memory describe compute n [] = Some (Inr (map val [0..<n]))
    \<and> qualify_by_family workers query_workers budget memory describe compute n schedule
        \<in> {None, Some (Inr (map val [0..<n]))}
    \<and> (n \<le> length (filter productive schedule) \<longrightarrow>
        qualify_by_family workers query_workers budget memory describe compute n schedule = Some (Inr (map val [0..<n])))"
proof -
  have sequential: "mapE (compute query_workers) [0..<n] = Inr (map val [0..<n])"
    by (rule mapE_total) (simp add: assms(2))
  have result: "task_result describe (compute 1) future (mvqual_item memory k) = Inr (val k)" if "k < n" for future k
    using assms(1)[OF that] by (simp add: task_result_def mvqual_item_def)
  have fits: "\<forall>b. budget = Some b \<longrightarrow> (\<forall>k < n. task_memory (mvqual_item memory k) \<le> b)" "\<forall>b. budget = Some b \<longrightarrow> 0 \<le> b"
    using assms(3) by (simp_all add: mvqual_item_def)
  have parallel: "case mvqual_families width budget memory (task_result describe (compute 1)) n schedule of
      None \<Rightarrow> length (filter productive schedule) < n | Some out \<Rightarrow> out = Inr (map val [0..<n])" for width
  proof -
    obtain q where q: "enter_queue (make_work_queue width budget (Some (2 * width)) (Some width) (Some (2 * width))) = (Inr (), q)"
      "family_state (mvqual_item memory) val n 0 (map_of []) q"
      using mvqual.entered_state[OF fits map_of.simps(1)] by blast
    note ends = mvqual.mvqual_loop_ends[where result = "task_result describe (compute 1)", OF result assms(4) q(2)]
    show ?thesis
    proof (cases "mvqual_loop (mvqual_item memory) (task_result describe (compute 1)) n schedule 0 [] q")
      case None
      with ends show ?thesis using q(1) by (simp add: mvqual_families_def)
    next
      case (Some out)
      with ends obtain stored where stored: "out = Inr stored" "\<forall>k < n. map_of stored k = Some (val k)" by auto
      have "mapE (lookupE stored) [0..<n] = Inr (map val [0..<n])"
        by (rule mapE_total) (use stored(2) in \<open>simp add: lookupE_def\<close>)
      with Some stored(1) show ?thesis using q(1) by (simp add: mvqual_families_def)
    qed
  qed
  let ?w = "max 1 (min workers n)"
  let ?out = "mvqual_families ?w budget memory (task_result describe (compute 1)) n schedule"
  have "?out \<in> {None, Some (Inr (map val [0..<n]))}" "n \<le> length (filter productive schedule) \<longrightarrow> ?out = Some (Inr (map val [0..<n]))"
    using parallel[of ?w] by (auto split: option.splits)
  then show ?thesis using sequential by (simp add: qualify_by_family_def Let_def)
qed

lemma productive_rev: "productive rev" "\<forall>wait \<in> set [rev, rev, rev]. legal_wait wait"
  by (simp_all add: productive_def legal_wait_def)

theorem qualification_schedule_free_witness:
  "qualify_by_family 2 1 (Some 10) (\<lambda>_. 4) (\<lambda>_. Text '''') (\<lambda>_ k. Inr (k * k)) 3 [rev, rev, rev] = Some (Inr [0, 1, 4])"
proof -
  from qualification_schedule_free[of 3 "\<lambda>_ k. Inr (k * k)" "\<lambda>k. k * k" 1 "Some 10" "\<lambda>_. 4" "[rev, rev, rev]" "\<lambda>_. Text ''''" 2]
    productive_rev show ?thesis by (simp add: upt_rec)
qed

text \<open>The coverage index inverts every family exactly once: with enough reports of done tasks the loop ends with
  each family's inverse in its own slot, and the result is that of the sequential loop.\<close>

theorem inversion_schedule_free:
  assumes "\<And>k. k < n \<Longrightarrow> compute k = Inr (val k)"
    and "\<forall>b. budget = Some b \<longrightarrow> 0 \<le> b \<and> (\<forall>k < n. int (memory k) \<le> b)" and "\<forall>wait \<in> set schedule. legal_wait wait"
    and "n \<le> length (filter productive schedule)"
  shows "invert_families width budget use_ooc memory describe compute n schedule = Some (Inr (map (\<lambda>k. Some (val k)) [0..<n]))"
proof (cases "width = 1")
  case True
  have "mapE compute [0..<n] = Inr (map val [0..<n])" by (rule mapE_total) (simp add: assms(1))
  with True show ?thesis by (simp add: invert_families_def)
next
  case False
  have result: "task_result describe compute future (mvidx_item use_ooc memory k) = Inr (val k)" if "k < n" for future k
    using assms(1)[OF that] by (simp add: task_result_def mvidx_item_def)
  have fits: "\<forall>b. budget = Some b \<longrightarrow> (\<forall>k < n. task_memory (mvidx_item use_ooc memory k) \<le> b)" "\<forall>b. budget = Some b \<longrightarrow> 0 \<le> b"
    using assms(2) by (simp_all add: mvidx_item_def)
  have empty: "slots_map (replicate n None) = (Map.empty :: nat \<Rightarrow> 'a option)" by (auto simp: slots_map_def)
  let ?limit = "Some (max 1 (2 * width))"
  obtain q where q: "enter_queue (make_work_queue width budget ?limit ?limit ?limit) = (Inr (), q)"
    "family_state (mvidx_item use_ooc memory) val n 0 (slots_map (replicate n None)) q"
    using mvidx.entered_state[OF fits empty] by blast
  from mvidx.mvidx_loop_ends[where result = "task_result describe compute", OF result assms(3) q(2), of 0] assms(4)
  show ?thesis using False q(1) by (auto simp: invert_families_def empty split: option.splits)
qed

theorem inversion_schedule_free_witness:
  "invert_families 2 (Some 10) (\<lambda>_. False) (\<lambda>_. 4) (\<lambda>_. Text '''') (\<lambda>k. Inr (k * k)) 3 [rev, rev, rev] = Some (Inr [Some 0, Some 1, Some 4])"
proof -
  from inversion_schedule_free[of 3 "\<lambda>k. Inr (k * k)" "\<lambda>k. k * k" "Some 10" "\<lambda>_. 4" "[rev, rev, rev]" 2 "\<lambda>_. False" "\<lambda>_. Text ''''"]
    productive_rev show ?thesis by (simp add: upt_rec)
qed

end
