(* ===== verification/Ordered_Reducer.thy ===== *)
theory Ordered_Reducer
  imports Prelude
begin

text \<open>
  The ordered reducer of \<open>mdstats/training_data/work_queue.py\<close>: results arrive in any order and are
  committed in one canonical order.  The commit callback is an argument; it acts on a state of the caller
  and may raise.  Error messages leave out the key that the code prints in them.
\<close>

section \<open>The reducer\<close>

record ('k, 'v) reducer =
  expected_keys :: "'k list"
  buffer :: "('k \<times> 'v) list"
  next_index :: nat

definition make_reducer :: "'k list \<Rightarrow> ('k, 'v) reducer result" where
  "make_reducer keys =
     bindE (guardE (distinct keys) (ValueError (Text ''ordered reducer keys must be unique''))) (\<lambda>_.
     Inr \<lparr>expected_keys = keys, buffer = [], next_index = 0\<rparr>)"

definition buffered_count :: "('k, 'v) reducer \<Rightarrow> nat" where
  "buffered_count r = length (buffer r)"

definition reducer_complete :: "('k, 'v) reducer \<Rightarrow> bool" where
  "reducer_complete r \<longleftrightarrow> next_index r = length (expected_keys r) \<and> buffer r = []"

definition next_key :: "('k, 'v) reducer \<Rightarrow> 'k option" where
  "next_key r = (if next_index r \<ge> length (expected_keys r) then None else Some (expected_keys r ! next_index r))"

text \<open>A value is taken out of the buffer before it is committed, and the index moves only afterwards.\<close>

type_synonym ('k, 'v, 's) commit = "'k \<Rightarrow> 'v \<Rightarrow> 's \<Rightarrow> (exc + unit) \<times> 's"

function commit_ready ::
  "('k, 'v, 's) commit \<Rightarrow> nat \<Rightarrow> ('k, 'v) reducer \<Rightarrow> 's \<Rightarrow> (exc + nat) \<times> ('k, 'v) reducer \<times> 's" where
  "commit_ready commit n r s =
     (if next_index r < length (expected_keys r) then
        let key = expected_keys r ! next_index r in
        case map_of (buffer r) key of
          None \<Rightarrow> (Inr n, r, s)
        | Some v \<Rightarrow>
            let r' = r\<lparr>buffer := AList.delete key (buffer r)\<rparr> in
            (case commit key v s of
               (Inl e, s') \<Rightarrow> (Inl e, r', s')
             | (Inr _, s') \<Rightarrow> commit_ready commit (n + 1) (r'\<lparr>next_index := next_index r' + 1\<rparr>) s')
      else (Inr n, r, s))"
  by pat_completeness auto
termination by (relation "measure (\<lambda>(commit, n, r, s). length (expected_keys r) - next_index r)") auto

declare commit_ready.simps [simp del]

fun index_of :: "'k list \<Rightarrow> 'k \<Rightarrow> nat" where
  "index_of [] k = 0"
| "index_of (x # xs) k = (if x = k then 0 else Suc (index_of xs k))"

definition push ::
  "('k, 'v, 's) commit \<Rightarrow> 'k \<Rightarrow> 'v \<Rightarrow> ('k, 'v) reducer \<Rightarrow> 's \<Rightarrow> (exc + nat) \<times> ('k, 'v) reducer \<times> 's" where
  "push commit key v r s =
     (if key \<notin> set (expected_keys r) then
        (Inl (KeyError (Text ''ordered reducer received unknown key'')), r, s)
      else if key \<in> fst ` set (buffer r) then
        (Inl (ValueError (Text ''ordered reducer received duplicate buffered key'')), r, s)
      else if index_of (expected_keys r) key < next_index r then
        (Inl (ValueError (Text ''ordered reducer received already committed key'')), r, s)
      else commit_ready commit 0 (r\<lparr>buffer := AList.update key v (buffer r)\<rparr>) s)"

section \<open>Committing\<close>

lemma index_of_less: "k \<in> set xs \<Longrightarrow> distinct xs \<Longrightarrow> index_of xs k < n \<longleftrightarrow> k \<in> set (take n xs)"
proof (induction xs arbitrary: n)
  case (Cons x xs)
  then show ?case by (cases n) auto
qed simp

definition ready_keys :: "('k, 'v) reducer \<Rightarrow> 'k list" where
  "ready_keys r = takeWhile (\<lambda>k. k \<in> fst ` set (buffer r)) (drop (next_index r) (expected_keys r))"

text \<open>A commit that never raises acts on the caller's state by a function \<open>act\<close>.\<close>

lemma commit_ready_total:
  assumes total: "\<And>k v s. commit k v s = (Inr (), act k v s)"
    and "distinct (expected_keys r)" and "next_index r \<le> length (expected_keys r)" and "distinct (map fst (buffer r))"
  shows "commit_ready commit n r s =
    (Inr (n + length (ready_keys r)),
     r\<lparr>buffer := filter (\<lambda>(k, _). k \<notin> set (ready_keys r)) (buffer r), next_index := next_index r + length (ready_keys r)\<rparr>,
     fold (\<lambda>k. act k (the (map_of (buffer r) k))) (ready_keys r) s)"
  using assms(2-)
proof (induction "length (expected_keys r) - next_index r" arbitrary: n r s)
  case 0
  then have "ready_keys r = []" "\<not> next_index r < length (expected_keys r)" by (simp_all add: ready_keys_def)
  then show ?case by (subst commit_ready.simps) (simp add: case_prod_unfold)
next
  case (Suc d)
  then have less: "next_index r < length (expected_keys r)" by linarith
  let ?key = "expected_keys r ! next_index r"
  have drop: "drop (next_index r) (expected_keys r) = ?key # drop (Suc (next_index r)) (expected_keys r)"
    using less by (simp add: Cons_nth_drop_Suc)
  show ?case
  proof (cases "map_of (buffer r) ?key")
    case None
    then have "ready_keys r = []" by (simp add: ready_keys_def drop map_of_eq_None_iff)
    then show ?thesis using less None by (subst commit_ready.simps) (simp add: case_prod_unfold)
  next
    case (Some v)
    let ?r = "r\<lparr>buffer := AList.delete ?key (buffer r), next_index := next_index r + 1\<rparr>"
    have new: "?key \<notin> set (drop (Suc (next_index r)) (expected_keys r))"
      using Suc.prems(1) drop by (metis distinct.simps(2) distinct_drop)
    have "?key \<in> fst ` set (buffer r)" using Some by (metis map_of_eq_None_iff option.distinct(1))
    moreover have "takeWhile (\<lambda>k. k \<in> fst ` set (buffer r)) (drop (Suc (next_index r)) (expected_keys r)) = ready_keys ?r"
      unfolding ready_keys_def using new by (auto simp: AList.delete_eq image_iff intro!: takeWhile_cong) force+
    ultimately have ready: "ready_keys r = ?key # ready_keys ?r" by (simp add: ready_keys_def drop)
    have "set (ready_keys ?r) \<subseteq> set (drop (Suc (next_index r)) (expected_keys r))"
      by (auto simp: ready_keys_def dest: set_takeWhileD)
    then have old: "map_of (buffer r) k = map_of (buffer ?r) k" if "k \<in> set (ready_keys ?r)" for k
      using new that by (auto simp: delete_conv')
    have "commit_ready commit n r s = commit_ready commit (n + 1) ?r (act ?key v s)"
      using less Some total by (subst commit_ready.simps) (simp add: Let_def)
    also have "\<dots> = (Inr (n + 1 + length (ready_keys ?r)),
        ?r\<lparr>buffer := filter (\<lambda>(k, _). k \<notin> set (ready_keys ?r)) (buffer ?r), next_index := next_index ?r + length (ready_keys ?r)\<rparr>,
        fold (\<lambda>k. act k (the (map_of (buffer ?r) k))) (ready_keys ?r) (act ?key v s))"
      by (rule Suc.hyps(1)) (use Suc.hyps(2) Suc.prems less in \<open>simp_all add: distinct_removeAll delete_keys\<close>)
    also have "filter (\<lambda>(k, _). k \<notin> set (ready_keys ?r)) (buffer ?r) = filter (\<lambda>(k, _). k \<notin> set (ready_keys r)) (buffer r)"
      unfolding ready by (auto simp: AList.delete_eq intro!: filter_cong)
    also have "fold (\<lambda>k. act k (the (map_of (buffer ?r) k))) (ready_keys ?r) (act ?key v s)
        = fold (\<lambda>k. act k (the (map_of (buffer r) k))) (ready_keys r) s"
      unfolding ready using Some old by (simp cong: fold_cong)
    finally show ?thesis by (simp add: ready)
  qed
qed

section \<open>Any order of arrival\<close>

text \<open>
  \<open>push_all\<close> offers a sequence of results, in whatever order they arrive, and goes on after a refusal.
  \<open>commits pushed\<close> are the keys that have to be committed then: the longest beginning of the expected
  sequence all of whose keys have arrived.
\<close>

fun push_all :: "('k, 'v, 's) commit \<Rightarrow> ('k \<times> 'v) list \<Rightarrow> ('k, 'v) reducer \<Rightarrow> 's \<Rightarrow> ('k, 'v) reducer \<times> 's" where
  "push_all commit [] r s = (r, s)"
| "push_all commit ((k, v) # kvs) r s = (case push commit k v r s of (_, r', s') \<Rightarrow> push_all commit kvs r' s')"

definition commits :: "'k list \<Rightarrow> ('k \<times> 'v) list \<Rightarrow> 'k list" where
  "commits keys pushed = takeWhile (\<lambda>k. k \<in> fst ` set pushed) keys"

definition reducer_after :: "'k list \<Rightarrow> ('k \<times> 'v) list \<Rightarrow> ('k, 'v) reducer \<Rightarrow> bool" where
  "reducer_after keys pushed r \<longleftrightarrow> expected_keys r = keys \<and> next_index r = length (commits keys pushed)
     \<and> distinct (map fst (buffer r))
     \<and> (\<forall>k. map_of (buffer r) k = (if k \<in> set keys \<and> k \<notin> set (commits keys pushed) then map_of pushed k else None))"

lemma commits_Nil [simp]: "commits keys [] = []"
  by (cases keys) (simp_all add: commits_def)

lemma commits_prefix: "commits keys pushed = take (length (commits keys pushed)) keys"
  unfolding commits_def by (rule takeWhile_eq_take)

lemma keys_map_of: "k \<in> fst ` set xs \<longleftrightarrow> map_of xs k \<noteq> None"
  by (simp add: map_of_eq_None_iff)

lemma committed_drop:
  assumes "distinct keys"
  shows "k \<in> set keys \<and> k \<notin> set (commits keys pushed) \<longleftrightarrow> k \<in> set (drop (length (commits keys pushed)) keys)"
proof -
  let ?n = "length (commits keys pushed)"
  have "set keys = set (take ?n keys) \<union> set (drop ?n keys)" by (metis append_take_drop_id set_append)
  moreover have "set (take ?n keys) \<inter> set (drop ?n keys) = {}" by (rule set_take_disj_set_drop_if_distinct[OF assms]) simp
  ultimately show ?thesis using commits_prefix[of keys pushed] by auto
qed

lemma commits_append:
  assumes "distinct keys" and "\<And>k. k \<in> set keys \<Longrightarrow> k \<in> fst ` set pushed' \<longleftrightarrow> k \<in> fst ` set pushed \<or> k \<in> A"
  shows "commits keys pushed' = commits keys pushed @
    takeWhile (\<lambda>k. k \<in> fst ` set pushed \<or> k \<in> A) (drop (length (commits keys pushed)) keys)"
proof -
  let ?P = "\<lambda>k. k \<in> fst ` set pushed \<or> k \<in> A"
  have split: "keys = commits keys pushed @ drop (length (commits keys pushed)) keys"
    by (metis append_take_drop_id commits_prefix)
  have "commits keys pushed' = takeWhile ?P keys"
    unfolding commits_def using assms(2) by (intro takeWhile_cong) auto
  also have "\<dots> = takeWhile ?P (commits keys pushed @ drop (length (commits keys pushed)) keys)"
    by (rule arg_cong[OF split])
  also have "\<dots> = commits keys pushed @ takeWhile ?P (drop (length (commits keys pushed)) keys)"
    by (rule takeWhile_append2) (auto simp: commits_def dest: set_takeWhileD)
  finally show ?thesis .
qed

lemma commits_same:
  assumes "\<And>k. k \<in> set keys \<Longrightarrow> k \<in> fst ` set pushed' \<longleftrightarrow> k \<in> fst ` set pushed"
  shows "commits keys pushed' = commits keys pushed"
  unfolding commits_def using assms by (intro takeWhile_cong) auto

declare map_of_append [simp del]

lemma push_step:
  assumes total: "\<And>k v s. commit k v s = (Inr (), act k v s)" and keys: "distinct keys"
    and after: "reducer_after keys pushed r" and s: "s = fold (\<lambda>k. act k (the (map_of pushed k))) (commits keys pushed) s0"
  shows "\<exists>out r' s'. push commit k v r s = (out, r', s') \<and> reducer_after keys (pushed @ [(k, v)]) r'
    \<and> s' = fold (\<lambda>x. act x (the (map_of (pushed @ [(k, v)]) x))) (commits keys (pushed @ [(k, v)])) s0
    \<and> (isl out \<longleftrightarrow> k \<notin> set keys \<or> k \<in> fst ` set pushed) \<and> (isl out \<longrightarrow> r' = r \<and> s' = s)"
proof (cases "k \<in> set keys \<and> k \<notin> fst ` set pushed")
  case False
  have first: "map_of (pushed @ [(k, v)]) k' = map_of pushed k'" if "k' \<in> set keys" for k'
    using False that by (auto simp: map_of_append map_add_def keys_map_of split: option.splits)
  have same: "commits keys (pushed @ [(k, v)]) = commits keys pushed"
    by (rule commits_same) (use False in auto)
  have sub: "set (commits keys pushed) \<subseteq> set keys" by (auto simp: commits_def dest: set_takeWhileD)
  have "reducer_after keys (pushed @ [(k, v)]) r"
    using after first unfolding reducer_after_def same by auto
  moreover have "s = fold (\<lambda>x. act x (the (map_of (pushed @ [(k, v)]) x))) (commits keys (pushed @ [(k, v)])) s0"
    unfolding s same using first sub by (intro fold_cong) auto
  moreover have "\<exists>e. push commit k v r s = (Inl e, r, s)"
  proof (cases "k \<in> set keys")
    case True
    with False have pushed: "k \<in> fst ` set pushed" by blast
    have r: "expected_keys r = keys" "next_index r = length (commits keys pushed)" using after by (simp_all add: reducer_after_def)
    show ?thesis
    proof (cases "k \<in> set (commits keys pushed)")
      case True
      then have "index_of keys k < next_index r"
        using index_of_less[OF \<open>k \<in> set keys\<close> keys] commits_prefix[of keys pushed] r(2) by simp
      then show ?thesis using r \<open>k \<in> set keys\<close> by (simp add: push_def)
    next
      case False
      then have "map_of (buffer r) k \<noteq> None"
        using after pushed \<open>k \<in> set keys\<close> by (simp add: reducer_after_def keys_map_of)
      then have "k \<in> fst ` set (buffer r)" by (simp add: keys_map_of)
      then show ?thesis using r \<open>k \<in> set keys\<close> by (simp add: push_def)
    qed
  qed (use after in \<open>simp add: push_def reducer_after_def\<close>)
  ultimately show ?thesis using False by auto
next
  case True
  let ?pushed = "pushed @ [(k, v)]" and ?n = "length (commits keys pushed)"
  have r: "expected_keys r = keys" "next_index r = ?n" "distinct (map fst (buffer r))"
    and buffer: "map_of (buffer r) k' = (if k' \<in> set keys \<and> k' \<notin> set (commits keys pushed) then map_of pushed k' else None)" for k'
    using after by (simp_all add: reducer_after_def)
  have none: "map_of pushed k = None" using True by (simp add: keys_map_of)
  then have notin: "k \<notin> set (commits keys pushed)"
    by (auto simp: commits_def keys_map_of dest: set_takeWhileD)
  have fresh: "k \<notin> fst ` set (buffer r)" unfolding keys_map_of buffer using none by simp
  define r1 where "r1 = r\<lparr>buffer := AList.update k v (buffer r)\<rparr>"
  have r1: "expected_keys r1 = keys" "next_index r1 = ?n" "distinct (map fst (buffer r1))"
    using r by (simp_all add: r1_def)
  have new: "map_of ?pushed k' = (if k' = k then Some v else map_of pushed k')" for k'
    using none by (auto simp: map_of_append map_add_def split: option.split)
  have buffer': "map_of (buffer r1) k' = (if k' \<in> set (drop ?n keys) then map_of ?pushed k' else None)" for k'
    using True notin committed_drop[OF keys, of k' pushed] committed_drop[OF keys, of k pushed]
    by (cases "k' = k") (simp_all add: r1_def buffer new)
  have ready: "commits keys ?pushed = commits keys pushed @ ready_keys r1"
  proof -
    have "x \<in> fst ` set (buffer r1) \<longleftrightarrow> x \<in> fst ` set pushed \<or> x \<in> {k}" if "x \<in> set (drop ?n keys)" for x
      unfolding keys_map_of buffer' new using that by auto
    then have "ready_keys r1 = takeWhile (\<lambda>k'. k' \<in> fst ` set pushed \<or> k' \<in> {k}) (drop ?n keys)"
      unfolding ready_keys_def by (intro takeWhile_cong) (simp_all add: r1)
    with commits_append[OF keys, of ?pushed pushed "{k}"] show ?thesis by auto
  qed
  have "?n \<le> length keys" by (metis commits_prefix length_take min.cobounded1)
  then have run: "push commit k v r s = (Inr (length (ready_keys r1)),
      r1\<lparr>buffer := filter (\<lambda>(k, _). k \<notin> set (ready_keys r1)) (buffer r1), next_index := next_index r1 + length (ready_keys r1)\<rparr>,
      fold (\<lambda>k. act k (the (map_of (buffer r1) k))) (ready_keys r1) s)" (is "_ = (_, ?r', ?s')")
    using True fresh notin r index_of_less[of k keys ?n] commits_prefix[of keys pushed] keys
      commit_ready_total[of commit act r1 0 s, OF total]
    by (simp add: push_def r1_def)
  have sub: "set (ready_keys r1) \<subseteq> set (drop ?n keys)" by (auto simp: ready_keys_def r1 dest: set_takeWhileD)
  have "map_of (filter (\<lambda>(k, _). k \<notin> set (ready_keys r1)) (buffer r1)) k'
      = (if k' \<in> set keys \<and> k' \<notin> set (commits keys ?pushed) then map_of ?pushed k' else None)" for k'
  proof -
    have "map_of (filter (\<lambda>(k, _). k \<notin> set (ready_keys r1)) xs) k' = (if k' \<in> set (ready_keys r1) then None else map_of xs k')" for xs :: "('a \<times> 'b) list"
      by (induction xs) auto
    from this[of "buffer r1"] show ?thesis
      unfolding ready using committed_drop[OF keys, of k' pushed] by (auto simp: buffer')
  qed
  then have "reducer_after keys ?pushed ?r'"
    using r1 unfolding reducer_after_def ready by (simp add: distinct_map_filter)
  moreover have "?s' = fold (\<lambda>x. act x (the (map_of ?pushed x))) (commits keys ?pushed) s0"
  proof -
    have "fold (\<lambda>x. act x (the (map_of ?pushed x))) (commits keys pushed) s0 = s"
      unfolding s using notin by (intro fold_cong) (auto simp: new)
    moreover have "?s' = fold (\<lambda>x. act x (the (map_of ?pushed x))) (ready_keys r1) s"
      using sub buffer' by (intro fold_cong) auto
    ultimately show ?thesis unfolding ready by simp
  qed
  ultimately show ?thesis using run True by auto
qed

declare map_of_append [simp]

lemma push_all_after:
  assumes total: "\<And>k v s. commit k v s = (Inr (), act k v s)" and keys: "distinct keys"
    and "reducer_after keys pushed r" and "s = fold (\<lambda>x. act x (the (map_of pushed x))) (commits keys pushed) s0"
  shows "case push_all commit kvs r s of (r', s') \<Rightarrow> reducer_after keys (pushed @ kvs) r'
    \<and> s' = fold (\<lambda>x. act x (the (map_of (pushed @ kvs) x))) (commits keys (pushed @ kvs)) s0"
  using assms(3,4)
proof (induction kvs arbitrary: pushed r s)
  case (Cons kv kvs)
  obtain k v where kv: "kv = (k, v)" by (cases kv)
  from push_step[of commit act, OF total keys Cons.prems, of k v] obtain out r' s' where
    step: "push commit k v r s = (out, r', s')" "reducer_after keys (pushed @ [(k, v)]) r'"
      "s' = fold (\<lambda>x. act x (the (map_of (pushed @ [(k, v)]) x))) (commits keys (pushed @ [(k, v)])) s0" by blast
  from Cons.IH[OF step(2,3)] show ?case by (simp add: kv step(1))
qed simp

lemma reducer_after_start: "make_reducer keys = Inr r \<Longrightarrow> distinct keys \<and> reducer_after keys [] r"
  by (auto simp: make_reducer_def bindE_Inr_iff guardE_Inr_iff reducer_after_def)

section \<open>Properties\<close>

text \<open>C18: Whatever results are offered to a reducer, in whatever order, repeated and unknown ones included, the
  commits it makes are those of the longest beginning of the canonical sequence that has arrived, in
  canonical order, each with the first value offered for its key.  (The commit callback is one that does not
  raise.)\<close>

theorem reducer_commits_in_order:
  assumes "make_reducer keys = Inr r" and "\<And>k v s. commit k v s = (Inr (), act k v s)"
  shows "case push_all commit offered r s of (r', s') \<Rightarrow>
    s' = fold (\<lambda>k. act k (the (map_of offered k))) (takeWhile (\<lambda>k. k \<in> fst ` set offered) keys) s
    \<and> next_index r' = length (takeWhile (\<lambda>k. k \<in> fst ` set offered) keys)
    \<and> (reducer_complete r' \<longleftrightarrow> set keys \<subseteq> fst ` set offered)"
proof -
  from reducer_after_start[OF assms(1)] have keys: "distinct keys" and start: "reducer_after keys [] r" by blast+
  obtain r' s' where run: "push_all commit offered r s = (r', s')" by fastforce
  have s: "s = fold (\<lambda>x. act x (the (map_of [] x))) (commits keys []) s" by simp
  from push_all_after[of commit act, OF assms(2) keys start s, of offered] run
  have after: "reducer_after keys offered r'"
    and s': "s' = fold (\<lambda>x. act x (the (map_of offered x))) (commits keys offered) s" by simp_all
  have n: "next_index r' = length (commits keys offered)" "expected_keys r' = keys" using after by (simp_all add: reducer_after_def)
  have "length (commits keys offered) = length keys \<longleftrightarrow> set keys \<subseteq> fst ` set offered"
  proof
    assume "length (commits keys offered) = length keys"
    then have "commits keys offered = keys" using commits_prefix[of keys offered] by simp
    then show "set keys \<subseteq> fst ` set offered" unfolding commits_def takeWhile_eq_all_conv by blast
  next
    assume "set keys \<subseteq> fst ` set offered"
    then have "commits keys offered = keys" unfolding commits_def takeWhile_eq_all_conv by blast
    then show "length (commits keys offered) = length keys" by simp
  qed
  moreover have "buffer r' = []" if "commits keys offered = keys"
  proof -
    have "map_of (buffer r') x = None" for x using after that by (simp add: reducer_after_def)
    from this[of "fst (hd (buffer r'))"] show ?thesis by (cases "buffer r'") simp_all
  qed
  moreover have "commits keys offered = keys" if "length (commits keys offered) = length keys"
    using that commits_prefix[of keys offered] by simp
  ultimately have "reducer_complete r' \<longleftrightarrow> set keys \<subseteq> fst ` set offered" using n by (auto simp: reducer_complete_def)
  with run s' n show ?thesis by (simp add: commits_def)
qed

theorem reducer_commits_in_order_witness:
  "\<exists>r. make_reducer [1, 2, 3 :: nat] = Inr r
     \<and> snd (push_all (\<lambda>k v s. (Inr (), s @ [(k, v)])) [(2, ''b''), (4, ''x''), (1, ''a''), (2, ''y'')] r []) = [(1, ''a''), (2, ''b'')]"
proof -
  obtain r :: "(nat, string) reducer" where r: "make_reducer [1, 2, 3] = Inr r" by (simp add: make_reducer_def)
  from reducer_commits_in_order[OF r, of "\<lambda>k v s. (Inr (), s @ [(k, v)])" "\<lambda>k v s. s @ [(k, v)]"
      "[(2, ''b''), (4, ''x''), (1, ''a''), (2, ''y'')]" "[]"] r
  show ?thesis by (auto split: prod.splits)
qed

text \<open>C39: A push is refused, and then changes nothing, exactly when its key is unknown or has been pushed
  before.  (The commit callback is one that does not raise.)\<close>

theorem reducer_refuses_exactly:
  assumes "make_reducer keys = Inr r" and "\<And>k v s. commit k v s = (Inr (), act k v s)"
    and "push_all commit offered r s = (r', s')"
  shows "if k \<in> set keys \<and> k \<notin> fst ` set offered then \<exists>n r'' s''. push commit k v r' s' = (Inr n, r'', s'')
    else \<exists>e. push commit k v r' s' = (Inl e, r', s')"
proof -
  from reducer_after_start[OF assms(1)] have keys: "distinct keys" and start: "reducer_after keys [] r" by blast+
  have s: "s = fold (\<lambda>x. act x (the (map_of [] x))) (commits keys []) s" by simp
  from push_all_after[of commit act, OF assms(2) keys start s, of offered] assms(3)
  have after: "reducer_after keys offered r'"
    and s': "s' = fold (\<lambda>x. act x (the (map_of offered x))) (commits keys offered) s" by simp_all
  from push_step[of commit act, OF assms(2) keys after s', of k v] obtain out r'' s'' where
    "push commit k v r' s' = (out, r'', s'')" "isl out \<longleftrightarrow> k \<notin> set keys \<or> k \<in> fst ` set offered"
    "isl out \<longrightarrow> r'' = r' \<and> s'' = s'" by blast
  then show ?thesis by (cases out) auto
qed

theorem reducer_refuses_exactly_witness:
  "\<exists>r r' s' e. make_reducer [1, 2, 3 :: nat] = Inr r \<and> push_all (\<lambda>k v s. (Inr (), s @ [(k, v)])) [(2, ''b'')] r [] = (r', s')
     \<and> push (\<lambda>k v s. (Inr (), s @ [(k, v)])) 2 ''c'' r' s' = (Inl e, r', s')"
proof -
  obtain r :: "(nat, string) reducer" where r: "make_reducer [1, 2, 3] = Inr r" by (simp add: make_reducer_def)
  obtain r' s' where run: "push_all (\<lambda>k v s. (Inr (), s @ [(k, v)])) [(2, ''b'')] r [] = (r', s')" by fastforce
  from reducer_refuses_exactly[OF r _ run, of "\<lambda>k v s. s @ [(k, v)]" 2 "''c''"] r run show ?thesis by auto
qed

end
