(* ===== verification/Frame_Blocks.thy ===== *)
theory Frame_Blocks
  imports Prelude Complex_Main
begin

text \<open>
  Complete-frame blocks (\<open>mdstats/sampling/blocks.py\<close>): the eligible frames of a run are cut into maximal
  contiguous runs and these into balanced blocks, so that every frame is in exactly one block and no block
  crosses a gap.

  The autocorrelation times of the observables are computed from floating-point series; they are an argument
  (\<open>taus\<close>, rational since finite floats are, or the error raised for an observable), and so is the rounding
  \<open>math.ceil(multiplier * maximum_tau)\<close> (\<open>scaled\<close>).  Frame indices are unbounded here and 64-bit in the code.
\<close>

section \<open>Intervals\<close>

record frame_interval =
  frame_start :: int
  frame_stop :: int

definition make_interval :: "int \<Rightarrow> int \<Rightarrow> frame_interval result" where
  "make_interval start stop =
     bindE (guardE (0 \<le> start \<and> start < stop)
       (SamplingInputError (Text ''Frame interval must be nonempty and nonnegative.''))) (\<lambda>_.
     Inr \<lparr>frame_start = start, frame_stop = stop\<rparr>)"

definition frame_count :: "frame_interval \<Rightarrow> int" where
  "frame_count i = frame_stop i - frame_start i"

definition interval_frames :: "frame_interval \<Rightarrow> int list" where
  "interval_frames i = [frame_start i..frame_stop i - 1]"

section \<open>Contiguous runs\<close>

definition differences :: "int list \<Rightarrow> int list" where
  "differences xs = map (\<lambda>(a, b). b - a) (zip xs (tl xs))"

definition break_positions :: "int list \<Rightarrow> nat list" where
  "break_positions xs = map Suc (filter (\<lambda>i. differences xs ! i \<noteq> 1) [0..<length (differences xs)])"

text \<open>\<open>numpy.split(xs, breaks)\<close>, from position \<open>p\<close> on.\<close>

fun split_at_breaks :: "nat list \<Rightarrow> 'a list \<Rightarrow> nat \<Rightarrow> 'a list list" where
  "split_at_breaks [] xs p = [drop p xs]"
| "split_at_breaks (b # bs) xs p = take (b - p) (drop p xs) # split_at_breaks bs xs b"

definition contiguous_frame_runs :: "int list \<Rightarrow> frame_interval list result" where
  "contiguous_frame_runs indices =
     (if indices = [] then Inr []
      else
        bindE (guardE (list_all (\<lambda>x. 0 \<le> x) indices)
          (SamplingInputError (Text ''frame_indices must be nonnegative.''))) (\<lambda>_.
        bindE (guardE (list_all (\<lambda>d. 0 < d) (differences indices))
          (SamplingInputError (Text ''frame_indices must be strictly increasing and unique.''))) (\<lambda>_.
        mapE (\<lambda>chunk. make_interval (hd chunk) (last chunk + 1)) (split_at_breaks (break_positions indices) indices 0))))"

section \<open>Balanced blocks\<close>

definition split_frame_interval :: "int \<Rightarrow> int \<Rightarrow> int \<Rightarrow> frame_interval list result" where
  "split_frame_interval start stop target =
     bindE (make_interval start stop) (\<lambda>interval.
     bindE (guardE (1 \<le> target) (SamplingInputError (Text ''target_block_frames must be positive.''))) (\<lambda>_.
     if frame_count interval \<le> target then Inr [interval]
     else
       let block_count = max 1 (frame_count interval div target);
           base = frame_count interval div block_count; remainder = frame_count interval mod block_count in
       bindE (foldE (\<lambda>index (cursor, blocks).
           let width = base + (if index < remainder then 1 else 0) in
           bindE (make_interval cursor (cursor + width)) (\<lambda>block. Inr (cursor + width, blocks @ [block])))
         [0..block_count - 1] (frame_start interval, []))
       (\<lambda>(_, blocks). Inr blocks)))"

section \<open>The block plan\<close>

text \<open>A float is \<open>None\<close> when it is not finite.\<close>

definition finite_float :: "string \<Rightarrow> rat option \<Rightarrow> rat result" where
  "finite_float name v = (case v of None \<Rightarrow> Inl (SamplingInputError (Fmt ''{} must be finite.'' [AStr name])) | Some q \<Rightarrow> Inr q)"

record block_policy =
  block_policy_version :: string
  minimum_block_frames :: int
  autocorrelation_block_multiplier :: "rat option"
  explicit_block_length_frames :: "int option"
  remainder_strategy :: string
  minimum_tau_frames :: rat

definition make_block_policy :: "block_policy \<Rightarrow> block_policy result" where
  "make_block_policy p =
     bindE (guardE (block_policy_version p \<noteq> [])
       (SamplingInputError (Text ''Complete-frame block policy version is required.''))) (\<lambda>_.
     bindE (guardE (1 \<le> minimum_block_frames p)
       (SamplingInputError (Text ''minimum_block_frames must be positive.''))) (\<lambda>_.
     bindE (finite_float ''autocorrelation_block_multiplier'' (autocorrelation_block_multiplier p)) (\<lambda>multiplier.
     bindE (guardE (0 \<le> multiplier)
       (SamplingInputError (Text ''autocorrelation_block_multiplier must be nonnegative.''))) (\<lambda>_.
     bindE (guardE (case explicit_block_length_frames p of None \<Rightarrow> True | Some n \<Rightarrow> 1 \<le> n)
       (SamplingInputError (Text ''explicit_block_length_frames must be positive.''))) (\<lambda>_.
     bindE (guardE (remainder_strategy p = ''balanced_all_frames'')
       (SamplingInputError (Text ''Unsupported block remainder strategy.''))) (\<lambda>_.
     Inr p))))))"

record block_plan =
  plan_policy_signature :: string
  eligible_frame_indices :: "int list"
  contiguous_runs :: "frame_interval list"
  block_intervals :: "frame_interval list"
  observable_autocorrelation_times_frames :: "(string \<times> rat) list"
  maximum_autocorrelation_time_frames :: rat
  decorrelation_target_length_frames :: int
  resolved_block_length_frames :: int
  explicit_length_override :: bool
  plan_notes :: "string list"

definition make_block_plan :: "block_plan \<Rightarrow> block_plan result" where
  "make_block_plan p =
     bindE (guardE (length (plan_policy_signature p) = 64)
       (SamplingInputError (Text ''policy_signature must be a SHA-256 digest.''))) (\<lambda>_.
     bindE (guardE (eligible_frame_indices p \<noteq> [])
       (SamplingInputError (Text ''eligible_frame_indices must be nonempty.''))) (\<lambda>_.
     bindE (guardE (list_all (\<lambda>x. 0 \<le> x) (eligible_frame_indices p))
       (SamplingInputError (Text ''Eligible frame indices must be nonnegative.''))) (\<lambda>_.
     bindE (guardE (sorted_set (eligible_frame_indices p) = eligible_frame_indices p)
       (SamplingInputError (Text ''Eligible frame indices must be strictly increasing and unique.''))) (\<lambda>_.
     bindE (guardE (contiguous_runs p \<noteq> [] \<and> block_intervals p \<noteq> [])
       (SamplingInputError (Text ''Block plan requires runs and blocks.''))) (\<lambda>_.
     bindE (guardE (concat (map interval_frames (contiguous_runs p)) = eligible_frame_indices p
         \<and> concat (map interval_frames (block_intervals p)) = eligible_frame_indices p)
       (SamplingInputError (Text ''Runs and blocks must cover every eligible frame exactly once.''))) (\<lambda>_.
     let taus = sort (observable_autocorrelation_times_frames p); names = map fst taus in
     bindE (guardE ([] \<notin> set names \<and> distinct names)
       (SamplingInputError (Text ''Observable autocorrelation names must be nonempty and unique.''))) (\<lambda>_.
     bindE (guardE (list_all (\<lambda>(_, t). 0 < t) taus)
       (SamplingInputError (Text ''Observable autocorrelation times must be positive.''))) (\<lambda>_.
     bindE (guardE (0 < maximum_autocorrelation_time_frames p)
       (SamplingInputError (Text ''maximum_autocorrelation_time_frames must be positive.''))) (\<lambda>_.
     bindE (guardE (taus \<noteq> [] \<longrightarrow> maximum_autocorrelation_time_frames p = Max (set (map snd taus)))
       (SamplingInputError (Text ''maximum_autocorrelation_time_frames must equal the recorded observable maximum.''))) (\<lambda>_.
     bindE (guardE (1 \<le> decorrelation_target_length_frames p)
       (SamplingInputError (Text ''decorrelation_target_length_frames must be positive.''))) (\<lambda>_.
     bindE (guardE (1 \<le> resolved_block_length_frames p)
       (SamplingInputError (Text ''resolved_block_length_frames must be positive.''))) (\<lambda>_.
     Inr (p\<lparr>observable_autocorrelation_times_frames := taus\<rparr>)))))))))))))"

definition maximum_time :: "block_policy \<Rightarrow> (string \<times> rat) list \<Rightarrow> rat" where
  "maximum_time active taus = fold (\<lambda>(_, t). max t) taus (minimum_tau_frames active)"

definition resolved_length :: "block_policy \<Rightarrow> int \<Rightarrow> int" where
  "resolved_length active target =
     (case explicit_block_length_frames active of None \<Rightarrow> max (minimum_block_frames active) target | Some n \<Rightarrow> n)"

definition block_plan_notes :: "block_policy \<Rightarrow> int \<Rightarrow> (string \<times> rat) list \<Rightarrow> string list" where
  "block_plan_notes active target taus =
     (if explicit_block_length_frames active \<noteq> None \<and> resolved_length active target < target
      then [''explicit block length is shorter than the autocorrelation-derived target''] else [])
     @ (if taus = [] then [''no observables supplied; the autocorrelation policy floor controls the target''] else [])"

definition target_length :: "(rat option \<Rightarrow> rat \<Rightarrow> int) \<Rightarrow> block_policy \<Rightarrow> (string \<times> rat) list \<Rightarrow> int" where
  "target_length scaled active taus = max 1 (scaled (autocorrelation_block_multiplier active) (maximum_time active taus))"

definition build_complete_frame_block_plan ::
  "(block_policy \<Rightarrow> string) \<Rightarrow> (rat option \<Rightarrow> rat \<Rightarrow> int) \<Rightarrow> block_policy \<Rightarrow> (string \<times> rat) list result \<Rightarrow> int list
   \<Rightarrow> block_plan result" where
  "build_complete_frame_block_plan signature_of scaled active observed indices =
     bindE (contiguous_frame_runs indices) (\<lambda>runs.
     bindE (guardE (runs \<noteq> []) (SamplingInputError (Text ''At least one eligible frame is required.''))) (\<lambda>_.
     bindE observed (\<lambda>taus.
     let target = target_length scaled active taus; resolved = resolved_length active target in
     bindE (mapE (\<lambda>run. split_frame_interval (frame_start run) (frame_stop run) resolved) runs) (\<lambda>blocks.
     make_block_plan \<lparr>plan_policy_signature = signature_of active, eligible_frame_indices = indices,
       contiguous_runs = runs, block_intervals = concat blocks,
       observable_autocorrelation_times_frames = taus, maximum_autocorrelation_time_frames = maximum_time active taus,
       decorrelation_target_length_frames = target, resolved_block_length_frames = resolved,
       explicit_length_override = (explicit_block_length_frames active \<noteq> None),
       plan_notes = block_plan_notes active target taus\<rparr>))))"

section \<open>Runs are maximal and cover the frames\<close>

text \<open>A reference definition of the chunks that start after each gap.\<close>

fun chunks :: "int list \<Rightarrow> int list list" where
  "chunks [] = []"
| "chunks [x] = [[x]]"
| "chunks (x # y # xs) =
     (if y = x + 1 then (x # hd (chunks (y # xs))) # tl (chunks (y # xs)) else [x] # chunks (y # xs))"

lemma chunks_nonempty: "xs \<noteq> [] \<Longrightarrow> chunks xs \<noteq> []"
  by (induction xs rule: chunks.induct) auto

lemma break_positions_Cons:
  "break_positions (x # y # xs) = (if y - x \<noteq> 1 then [1] else []) @ map Suc (break_positions (y # xs))"
proof -
  have "filter (\<lambda>i. (d # ds) ! i \<noteq> 1) [0..<length (d # ds)]
      = (if d \<noteq> 1 then [0] else []) @ map Suc (filter (\<lambda>i. ds ! i \<noteq> 1) [0..<length ds])" for d and ds :: "int list"
  proof -
    have "[0..<length (d # ds)] = 0 # map Suc [0..<length ds]" by (simp add: upt_conv_Cons map_Suc_upt del: upt_Suc)
    then show ?thesis by (simp add: filter_map comp_def)
  qed
  note this[of "y - x" "differences (y # xs)"]
  then show ?thesis by (simp add: break_positions_def differences_def)
qed

lemma split_at_breaks_Suc: "split_at_breaks (map Suc bs) (x # xs) (Suc p) = split_at_breaks bs xs p"
  by (induction bs arbitrary: p) simp_all

lemma split_at_breaks_extend:
  "split_at_breaks (map Suc bs) (x # xs) 0 = (x # hd (split_at_breaks bs xs 0)) # tl (split_at_breaks bs xs 0)"
  by (cases bs) (simp_all add: split_at_breaks_Suc)

lemma split_chunks: "xs \<noteq> [] \<Longrightarrow> split_at_breaks (break_positions xs) xs 0 = chunks xs"
proof (induction xs rule: chunks.induct)
  case (2 x)
  then show ?case by (simp add: break_positions_def differences_def)
next
  case (3 x y xs)
  show ?case
  proof (cases "y = x + 1")
    case True
    then have "break_positions (x # y # xs) = map Suc (break_positions (y # xs))" by (simp add: break_positions_Cons)
    with 3 True show ?thesis by (simp add: split_at_breaks_extend)
  next
    case False
    then have "break_positions (x # y # xs) = 1 # map Suc (break_positions (y # xs))" by (simp add: break_positions_Cons)
    with 3 False show ?thesis by (simp add: split_at_breaks_Suc)
  qed
qed simp

definition chunk_interval :: "int list \<Rightarrow> frame_interval" where
  "chunk_interval chunk = \<lparr>frame_start = hd chunk, frame_stop = last chunk + 1\<rparr>"

definition maximal_runs :: "int list \<Rightarrow> frame_interval list \<Rightarrow> bool" where
  "maximal_runs indices runs \<longleftrightarrow> concat (map interval_frames runs) = indices
     \<and> (\<forall>r \<in> set runs. 0 \<le> frame_start r \<and> frame_start r < frame_stop r)
     \<and> sorted_wrt (\<lambda>r r'. frame_stop r < frame_start r') runs"

lemma interval_frames_simps [simp]:
  "set (interval_frames i) = {frame_start i..<frame_stop i}"
  "interval_frames i = [] \<longleftrightarrow> frame_stop i \<le> frame_start i"
  by (auto simp: interval_frames_def)

lemma chunks_maximal:
  assumes "sorted_wrt (<) xs" and "\<forall>x \<in> set xs. 0 \<le> x"
  shows "maximal_runs xs (map chunk_interval (chunks xs)) \<and> (\<forall>c \<in> set (chunks xs). c \<noteq> [])
    \<and> (xs \<noteq> [] \<longrightarrow> frame_start (hd (map chunk_interval (chunks xs))) = hd xs)"
  using assms
proof (induction xs rule: chunks.induct)
  case (2 x)
  then show ?case by (simp add: maximal_runs_def chunk_interval_def interval_frames_def)
next
  case (3 x y xs)
  then have IH: "maximal_runs (y # xs) (map chunk_interval (chunks (y # xs)))" "\<forall>c \<in> set (chunks (y # xs)). c \<noteq> []"
    "frame_start (hd (map chunk_interval (chunks (y # xs)))) = y" by auto
  obtain c cs where c: "chunks (y # xs) = c # cs" using chunks_nonempty[of "y # xs"] by (cases "chunks (y # xs)") auto
  have hd_c: "hd c = y" and ne: "c \<noteq> []" using IH(2,3) by (auto simp: c chunk_interval_def)
  have later: "\<forall>r \<in> set (map chunk_interval cs). last c + 1 < frame_start r"
    using IH(1) by (simp add: maximal_runs_def c) (simp add: chunk_interval_def)
  have order: "y \<le> last c" using IH(1) hd_c by (simp add: maximal_runs_def c chunk_interval_def)
  show ?case
  proof (cases "y = x + 1")
    case True
    have step: "chunks (x # y # xs) = (x # c) # cs" using True c by simp
    have x_le: "x \<le> last c" using order True by simp
    have "interval_frames (chunk_interval (x # c)) = x # interval_frames (chunk_interval c)"
      using ne hd_c order True by (simp add: chunk_interval_def interval_frames_def upto_rec1)
    with IH(1) have "concat (map interval_frames (map chunk_interval ((x # c) # cs))) = x # y # xs"
      by (simp add: maximal_runs_def c)
    moreover have "\<forall>r \<in> set (map chunk_interval ((x # c) # cs)). 0 \<le> frame_start r \<and> frame_start r < frame_stop r"
      using IH(1) 3(5) x_le ne by (simp add: maximal_runs_def c) (simp add: chunk_interval_def)
    moreover have "sorted_wrt (\<lambda>r r'. frame_stop r < frame_start r') (map chunk_interval ((x # c) # cs))"
      using IH(1) ne by (simp add: maximal_runs_def c) (simp add: chunk_interval_def)
    ultimately show ?thesis using IH(2) unfolding step maximal_runs_def by (simp add: c chunk_interval_def)
  next
    case False
    have step: "chunks (x # y # xs) = [x] # c # cs" using False c by simp
    have "x + 1 < y" using False 3(4) by auto
    have "\<forall>r \<in> set (map chunk_interval (c # cs)). x + 1 < frame_start r"
      using later order hd_c \<open>x + 1 < y\<close> by (force simp: chunk_interval_def)
    then have "sorted_wrt (\<lambda>r r'. frame_stop r < frame_start r') (map chunk_interval ([x] # c # cs))"
      using IH(1) by (simp add: maximal_runs_def c) (simp add: chunk_interval_def)
    moreover have "concat (map interval_frames (map chunk_interval ([x] # c # cs))) = x # y # xs"
      using IH(1) by (simp add: maximal_runs_def c) (simp add: chunk_interval_def interval_frames_def)
    moreover have "\<forall>r \<in> set (map chunk_interval ([x] # c # cs)). 0 \<le> frame_start r \<and> frame_start r < frame_stop r"
      using IH(1) 3(5) by (simp add: maximal_runs_def c) (simp add: chunk_interval_def)
    ultimately show ?thesis using IH(2) unfolding step maximal_runs_def by (simp add: c chunk_interval_def)
  qed
qed (simp add: maximal_runs_def)

lemma differences_increasing: "list_all (\<lambda>d. 0 < d) (differences xs) \<longleftrightarrow> sorted_wrt (<) xs"
proof (induction xs)
  case (Cons x xs)
  show ?case
  proof (cases xs)
    case (Cons y ys)
    have "differences (x # y # ys) = (y - x) # differences (y # ys)" by (simp add: differences_def)
    with Cons Cons.IH show ?thesis by (auto intro: less_trans)
  qed (simp add: differences_def)
qed (simp add: differences_def)

lemma contiguous_frame_runs_exact:
  assumes "sorted_wrt (<) indices" and "\<forall>x \<in> set indices. 0 \<le> x"
  shows "\<exists>runs. contiguous_frame_runs indices = Inr runs \<and> maximal_runs indices runs \<and> (runs = [] \<longleftrightarrow> indices = [])"
proof (cases "indices = []")
  case False
  note max = chunks_maximal[OF assms]
  have "mapE (\<lambda>chunk. make_interval (hd chunk) (last chunk + 1)) (chunks indices) = Inr (map chunk_interval (chunks indices))"
  proof (rule mapE_total)
    fix c assume "c \<in> set (chunks indices)"
    then have "0 \<le> frame_start (chunk_interval c) \<and> frame_start (chunk_interval c) < frame_stop (chunk_interval c)"
      using max unfolding maximal_runs_def by auto
    then show "make_interval (hd c) (last c + 1) = Inr (chunk_interval c)"
      by (simp add: make_interval_def chunk_interval_def)
  qed
  moreover have "list_all (\<lambda>d. 0 < d) (differences indices)" using assms(1) by (simp only: differences_increasing)
  moreover have "list_all (\<lambda>x. 0 \<le> x) indices" using assms(2) by (simp add: list_all_iff)
  ultimately have "contiguous_frame_runs indices = Inr (map chunk_interval (chunks indices))"
    using False by (simp add: contiguous_frame_runs_def split_chunks)
  with max chunks_nonempty[OF False] False show ?thesis by simp
qed (simp add: contiguous_frame_runs_def maximal_runs_def)

section \<open>Blocks are balanced\<close>

definition balanced_block :: "int \<Rightarrow> int \<Rightarrow> int \<Rightarrow> nat \<Rightarrow> frame_interval" where
  "balanced_block start base remainder k =
     (let pos = \<lambda>k. start + base * int k + min (int k) remainder in \<lparr>frame_start = pos k, frame_stop = pos (Suc k)\<rparr>)"

lemma foldE_map: "foldE f (map g xs) s = foldE (\<lambda>x. f (g x)) xs s"
proof (induction xs arbitrary: s)
  case (Cons x xs)
  then show ?case by (cases "f (g x) s") simp_all
qed simp

lemma block_loop:
  assumes "0 \<le> start" and "1 \<le> base" and "0 \<le> remainder"
  shows "foldE (\<lambda>index (cursor, blocks).
      let width = base + (if int index < remainder then 1 else 0) in
      bindE (make_interval cursor (cursor + width)) (\<lambda>block. Inr (cursor + width, blocks @ [block]))) [0..<n] (start, [])
    = Inr (start + base * int n + min (int n) remainder, map (balanced_block start base remainder) [0..<n])"
proof (induction n)
  case (Suc n)
  have "0 \<le> start + base * int n + min (int n) remainder" using assms by simp
  then show ?case
    using Suc assms by (simp add: make_interval_def balanced_block_def Let_def algebra_simps min_def)
qed (use assms in simp)

lemma balanced_block_frames:
  assumes "1 \<le> base" and "0 \<le> remainder"
  shows "concat (map interval_frames (map (balanced_block start base remainder) [0..<n]))
    = [start..start + base * int n + min (int n) remainder - 1]"
proof (induction n)
  case (Suc n)
  define a where "a = start + base * int n + min (int n) remainder"
  define b where "b = start + base * int (Suc n) + min (int (Suc n)) remainder"
  have "0 \<le> base * int n" using assms by simp
  then have order: "start \<le> a" "a \<le> b" using assms by (simp_all add: a_def b_def algebra_simps min_def)
  have "interval_frames (balanced_block start base remainder n) = [a..b - 1]"
    by (simp add: interval_frames_def balanced_block_def a_def b_def Let_def)
  moreover have "[start..b - 1] = [start..a - 1] @ [a..b - 1]"
  proof (cases "a = b")
    case False
    then show ?thesis using order by (intro upto_split1) simp_all
  qed simp
  ultimately show ?case using Suc by (simp add: a_def b_def)
qed (use assms in simp)

definition balanced_blocks :: "int \<Rightarrow> frame_interval \<Rightarrow> frame_interval list \<Rightarrow> bool" where
  "balanced_blocks target run blocks \<longleftrightarrow> concat (map interval_frames blocks) = interval_frames run
     \<and> (frame_count run \<le> target \<longrightarrow> blocks = [run])
     \<and> (target < frame_count run \<longrightarrow> int (length blocks) = frame_count run div target
         \<and> (\<forall>b \<in> set blocks. target \<le> frame_count b \<and> frame_count b < 2 * target)
         \<and> (\<forall>b \<in> set blocks. \<forall>c \<in> set blocks. frame_count b \<le> frame_count c + 1))"

lemma block_width:
  assumes "1 \<le> target" and "target < n" and "count = n div (target :: int)" and "base = n div count" and "remainder = n mod count"
  shows "1 \<le> count" and "target \<le> base" and "base + (if 0 < remainder then 1 else 0) < 2 * target"
proof -
  show count: "1 \<le> count" using assms by (simp add: pos_imp_zdiv_pos_iff int_one_le_iff_zero_less)
  have "target * count \<le> n" using assms(1) unfolding assms(3) by (metis mult_div_mod_eq pos_mod_sign add_increasing2 dual_order.refl zero_less_one order_less_le_trans)
  then show "target \<le> base" unfolding assms(4) using count zdiv_mono1[of "target * count" n count] by simp
  have eq: "n = count * base + remainder" unfolding assms(4,5) by simp
  have "n < target * (count + 1)"
    using assms(1) unfolding assms(3) by (metis distrib_left mult.right_neutral mult_div_mod_eq pos_mod_bound add_strict_left_mono zero_less_one order_less_le_trans)
  then have bound: "count * base + remainder < target * count + target" using eq by (simp add: algebra_simps)
  have r: "0 \<le> remainder" using count unfolding assms(5) by simp
  show "base + (if 0 < remainder then 1 else 0) < 2 * target"
  proof (rule ccontr)
    assume "\<not> ?thesis"
    then have "2 * target - (if 0 < remainder then 1 else 0) \<le> base" by simp
    then have "count * (2 * target - (if 0 < remainder then 1 else 0)) \<le> count * base" using count by (intro mult_left_mono) simp_all
    moreover have "0 \<le> (count - 1) * (target - 1)" using count assms(1) by simp
    moreover have "0 \<le> (count - 1) * target" using count assms(1) by simp
    ultimately show False using bound r by (auto simp: algebra_simps split: if_splits)
  qed
qed

lemma split_frame_interval_exact:
  assumes "0 \<le> start" and "start < stop" and "1 \<le> target"
  shows "\<exists>blocks. split_frame_interval start stop target = Inr blocks
    \<and> balanced_blocks target \<lparr>frame_start = start, frame_stop = stop\<rparr> blocks"
proof (cases "stop - start \<le> target")
  case True
  then show ?thesis
    using assms by (simp add: split_frame_interval_def make_interval_def frame_count_def balanced_blocks_def)
next
  case False
  define count where "count = (stop - start) div target"
  define base where "base = (stop - start) div count"
  define remainder where "remainder = (stop - start) mod count"
  have width: "1 \<le> count" "target \<le> base" "base + (if 0 < remainder then 1 else 0) < 2 * target"
    using block_width[OF assms(3) _ count_def base_def remainder_def] False by linarith+
  have rem: "0 \<le> remainder" "remainder < count" using width(1) by (simp_all add: remainder_def)
  have eq: "start + base * count + remainder = stop" using width(1) by (simp add: base_def remainder_def)
  define blocks where "blocks = map (balanced_block start base remainder) [0..<nat count]"
  have upto: "[0..count - 1] = map int [0..<nat count]"
    using width(1) by (intro nth_equalityI) (simp_all add: nth_upto)
  have loop: "foldE (\<lambda>index (cursor, blocks).
      let width = base + (if int index < remainder then 1 else 0) in
      bindE (make_interval cursor (cursor + width)) (\<lambda>block. Inr (cursor + width, blocks @ [block]))) [0..<nat count] (start, [])
    = Inr (stop, blocks)"
    using block_loop[of start base remainder "nat count"] assms width rem eq by (simp add: blocks_def min_def)
  have run: "split_frame_interval start stop target = Inr blocks"
  proof -
    have "max 1 count = count" using width(1) by simp
    moreover have "make_interval start stop = Inr \<lparr>frame_start = start, frame_stop = stop\<rparr>"
      using assms by (simp add: make_interval_def)
    ultimately show ?thesis using assms(3) False
      unfolding split_frame_interval_def
      by (simp add: frame_count_def Let_def flip: count_def)
        (simp add: upto foldE_map loop[unfolded Let_def] flip: base_def remainder_def)
  qed
  have frames: "concat (map interval_frames blocks) = [start..stop - 1]"
    using balanced_block_frames[of base remainder start "nat count"] width assms rem eq by (simp add: blocks_def min_def)
  have counts: "frame_count (balanced_block start base remainder k) = base + (if int k < remainder then 1 else 0)" for k
    by (simp add: frame_count_def balanced_block_def Let_def algebra_simps min_def)
  have "target \<le> frame_count b \<and> frame_count b < 2 * target" if "b \<in> set blocks" for b
  proof -
    from that obtain k where "b = balanced_block start base remainder k" by (auto simp: blocks_def)
    with counts[of k] width(2,3) rem show ?thesis by (simp split: if_splits)
  qed
  moreover have "frame_count b \<le> frame_count c + 1" if "b \<in> set blocks" "c \<in> set blocks" for b c
    using that by (auto simp: blocks_def counts)
  moreover have "int (length blocks) = count" using width(1) by (simp add: blocks_def)
  ultimately show ?thesis
    using run frames False by (auto simp: balanced_blocks_def frame_count_def interval_frames_def count_def)
qed

section \<open>What a block plan is\<close>

definition plan_blocks :: "int list \<Rightarrow> block_plan \<Rightarrow> bool" where
  "plan_blocks indices plan \<longleftrightarrow> eligible_frame_indices plan = indices \<and> maximal_runs indices (contiguous_runs plan)
     \<and> (\<exists>bss. block_intervals plan = concat bss
          \<and> list_all2 (balanced_blocks (resolved_block_length_frames plan)) (contiguous_runs plan) bss)"

definition usable_indices :: "int list \<Rightarrow> bool" where
  "usable_indices indices \<longleftrightarrow> indices \<noteq> [] \<and> sorted_wrt (<) indices \<and> (\<forall>x \<in> set indices. 0 \<le> x)"

lemma sorted_set_strict: "sorted_set xs = xs \<longleftrightarrow> sorted_wrt (<) (xs :: int list)"
proof
  show "sorted_set xs = xs \<Longrightarrow> sorted_wrt (<) xs"
    by (metis distinct_sorted_set sorted_sorted_set strict_sorted_iff)
  show "sorted_wrt (<) xs \<Longrightarrow> sorted_set xs = xs"
    by (simp add: sorted_set_def strict_sorted_iff distinct_remdups_id sorted_sort_id)
qed

text \<open>What the autocorrelation estimates promise: named observables, and times above the floor of the policy.\<close>

definition valid_times :: "block_policy \<Rightarrow> (string \<times> rat) list \<Rightarrow> bool" where
  "valid_times active taus \<longleftrightarrow> [] \<notin> fst ` set taus \<and> distinct (map fst taus) \<and> 0 < minimum_tau_frames active
     \<and> (\<forall>t \<in> snd ` set taus. minimum_tau_frames active \<le> t)"

lemma maximum_time_exact:
  assumes "valid_times active taus"
  shows "taus \<noteq> [] \<longrightarrow> maximum_time active taus = Max (set (map snd taus))" and "0 < maximum_time active taus"
proof -
  have fold_max: "fold (\<lambda>(_, t). max t) xs m = (if xs = [] then m else Max (insert m (snd ` set xs)))" for xs :: "(string \<times> rat) list" and m
  proof (induction xs arbitrary: m)
    case (Cons x xs)
    show ?case
    proof (cases "xs = []")
      case False
      have "Max (insert (max (snd x) m) (snd ` set xs)) = Max (insert m (insert (snd x) (snd ` set xs)))"
        using False by (simp add: max.left_commute max.assoc max.commute)
      with Cons[of "max (snd x) m"] False show ?thesis by (simp add: split_beta)
    qed (simp add: split_beta max.commute)
  qed simp
  have floor: "minimum_tau_frames active \<le> Max (snd ` set taus)" if "taus \<noteq> []"
  proof -
    have "snd (hd taus) \<in> snd ` set taus" using that by simp
    then show ?thesis using assms unfolding valid_times_def by (meson Max_ge List.finite_set finite_imageI order_trans)
  qed
  have pos: "0 < minimum_tau_frames active" using assms by (simp add: valid_times_def)
  show max: "taus \<noteq> [] \<longrightarrow> maximum_time active taus = Max (set (map snd taus))"
    using floor by (simp add: maximum_time_def fold_max max_def)
  show "0 < maximum_time active taus"
  proof (cases "taus = []")
    case False
    have "0 < Max (snd ` set taus)" using floor[OF False] pos by linarith
    with max False show ?thesis by simp
  qed (use pos in \<open>simp add: maximum_time_def\<close>)
qed

lemma resolved_length_positive:
  "make_block_policy active = Inr p \<Longrightarrow> 1 \<le> target \<Longrightarrow> 1 \<le> resolved_length active target"
  by (auto simp: make_block_policy_def resolved_length_def result_simps split: option.splits)

lemma mapE_list_all2:
  assumes "\<And>x. x \<in> set xs \<Longrightarrow> \<exists>y. f x = Inr y \<and> P x y"
  shows "\<exists>ys. mapE f xs = Inr ys \<and> list_all2 P xs ys"
  using assms
proof (induction xs)
  case (Cons x xs)
  then obtain ys where "mapE f xs = Inr ys" "list_all2 P xs ys" by auto
  moreover obtain y where "f x = Inr y" "P x y" using Cons.prems by auto
  ultimately show ?case by auto
qed simp

lemma concat_map_concat: "concat (map f (concat xss)) = concat (map (\<lambda>xs. concat (map f xs)) xss)"
  by (induction xss) simp_all

lemma plan_parts:
  assumes resolved: "1 \<le> resolved" and usable: "usable_indices indices"
  shows "\<exists>runs bss. contiguous_frame_runs indices = Inr runs \<and> maximal_runs indices runs \<and> runs \<noteq> []
    \<and> mapE (\<lambda>run. split_frame_interval (frame_start run) (frame_stop run) resolved) runs = Inr bss
    \<and> list_all2 (balanced_blocks resolved) runs bss \<and> concat (map interval_frames (concat bss)) = indices \<and> concat bss \<noteq> []"
proof -
  have strict: "sorted_wrt (<) indices" and nonneg: "\<forall>x \<in> set indices. 0 \<le> x" and ne: "indices \<noteq> []"
    using usable by (simp_all add: usable_indices_def)
  from contiguous_frame_runs_exact[OF strict nonneg] ne obtain runs where
    runs: "contiguous_frame_runs indices = Inr runs" "maximal_runs indices runs" "runs \<noteq> []" by auto
  have "\<exists>bss. mapE (\<lambda>run. split_frame_interval (frame_start run) (frame_stop run) resolved) runs = Inr bss
      \<and> list_all2 (balanced_blocks resolved) runs bss"
  proof (rule mapE_list_all2)
    fix run assume "run \<in> set runs"
    then have "0 \<le> frame_start run" "frame_start run < frame_stop run" using runs(2) by (auto simp: maximal_runs_def)
    from split_frame_interval_exact[OF this resolved] show "\<exists>blocks. split_frame_interval (frame_start run) (frame_stop run) resolved
        = Inr blocks \<and> balanced_blocks resolved run blocks" by (cases run) simp
  qed
  then obtain bss where
    bss: "mapE (\<lambda>run. split_frame_interval (frame_start run) (frame_stop run) resolved) runs = Inr bss"
    "list_all2 (balanced_blocks resolved) runs bss" by blast
  have "map (\<lambda>bs. concat (map interval_frames bs)) bss = map interval_frames runs"
    using bss(2) by (induction rule: list_all2_induct) (simp_all add: balanced_blocks_def)
  then have cover: "concat (map interval_frames (concat bss)) = indices"
    using runs(2) unfolding concat_map_concat by (simp add: maximal_runs_def)
  then have "concat bss \<noteq> []" using ne by (metis concat.simps(1) list.simps(8))
  with runs bss cover show ?thesis by blast
qed

lemma target_length_positive: "1 \<le> target_length scaled active taus"
  by (simp add: target_length_def)

lemma block_plan_built:
  assumes policy: "make_block_policy active = Inr p" and signature: "length (signature_of active) = 64"
    and taus: "valid_times active taus" and usable: "usable_indices indices"
  shows "\<exists>plan. build_complete_frame_block_plan signature_of scaled active (Inr taus) indices = Inr plan
    \<and> plan_blocks indices plan \<and> resolved_block_length_frames plan = resolved_length active (target_length scaled active taus)"
proof -
  define target where "target = target_length scaled active taus"
  have target: "1 \<le> target" unfolding target_def by (rule target_length_positive)
  have resolved: "1 \<le> resolved_length active target" by (rule resolved_length_positive[OF policy target])
  have strict: "sorted_wrt (<) indices" and nonneg: "\<forall>x \<in> set indices. 0 \<le> x" and ne: "indices \<noteq> []"
    using usable by (simp_all add: usable_indices_def)
  from plan_parts[OF resolved usable] obtain runs bss where
    runs: "contiguous_frame_runs indices = Inr runs" "maximal_runs indices runs" "runs \<noteq> []"
    and bss: "mapE (\<lambda>run. split_frame_interval (frame_start run) (frame_stop run) (resolved_length active target)) runs = Inr bss"
    "list_all2 (balanced_blocks (resolved_length active target)) runs bss"
    and cover: "concat (map interval_frames (concat bss)) = indices" "concat bss \<noteq> []" by blast
  define plan where "plan = \<lparr>plan_policy_signature = signature_of active, eligible_frame_indices = indices,
       contiguous_runs = runs, block_intervals = concat bss,
       observable_autocorrelation_times_frames = taus, maximum_autocorrelation_time_frames = maximum_time active taus,
       decorrelation_target_length_frames = target, resolved_block_length_frames = resolved_length active target,
       explicit_length_override = (explicit_block_length_frames active \<noteq> None),
       plan_notes = block_plan_notes active target taus\<rparr>"
  have names: "[] \<notin> set (map fst (sort taus))" "distinct (map fst (sort taus))" "list_all (\<lambda>(_, t). 0 < t) (sort taus)"
  proof -
    show "distinct (map fst (sort taus))" using taus by (simp add: valid_times_def distinct_map)
    show "[] \<notin> set (map fst (sort taus))" "list_all (\<lambda>(_, t). 0 < t) (sort taus)"
      using taus by (force simp: valid_times_def list_all_iff)+
  qed
  have "make_block_plan plan = Inr (plan\<lparr>observable_autocorrelation_times_frames := sort taus\<rparr>)"
  proof -
    have "sort taus \<noteq> [] \<longrightarrow> maximum_time active taus = Max (set (map snd (sort taus)))"
      using maximum_time_exact(1)[OF taus] by (metis set_empty set_map set_sort)
    then show ?thesis
      using signature ne nonneg strict runs cover resolved names maximum_time_exact(2)[OF taus] target
      unfolding make_block_plan_def plan_def Let_def
      by (simp add: sorted_set_strict list_all_iff maximal_runs_def guardE_def)
  qed
  then have "build_complete_frame_block_plan signature_of scaled active (Inr taus) indices
      = Inr (plan\<lparr>observable_autocorrelation_times_frames := sort taus\<rparr>)"
    unfolding build_complete_frame_block_plan_def plan_def Let_def bindE_simps target_def[symmetric] by (simp add: runs bss)
  moreover have "plan_blocks indices (plan\<lparr>observable_autocorrelation_times_frames := sort taus\<rparr>)"
    using runs(2) bss(2) unfolding plan_blocks_def by (auto simp: plan_def)
  ultimately show ?thesis by (auto simp: plan_def target_def)
qed

lemma block_plan_refused:
  assumes "\<not> usable_indices indices"
  shows "\<exists>m. build_complete_frame_block_plan signature_of scaled active observed indices = Inl (SamplingInputError m)"
proof -
  consider "indices = []" | "indices \<noteq> []" "\<not> list_all (\<lambda>x. 0 \<le> x) indices"
    | "indices \<noteq> []" "list_all (\<lambda>x. 0 \<le> x) indices" "\<not> list_all (\<lambda>d. 0 < d) (differences indices)"
    using assms unfolding usable_indices_def differences_increasing by (auto simp: list_all_iff)
  then show ?thesis
    by cases (simp_all add: build_complete_frame_block_plan_def contiguous_frame_runs_def)
qed

lemma block_plan_shape:
  assumes policy: "make_block_policy active = Inr p" and usable: "usable_indices indices"
    and build: "build_complete_frame_block_plan signature_of scaled active observed indices = Inr plan"
  shows "plan_blocks indices plan" and "1 \<le> resolved_block_length_frames plan"
proof -
  from build obtain taus where observed: "observed = Inr taus"
    by (cases observed) (auto simp: build_complete_frame_block_plan_def result_simps)
  define target where "target = target_length scaled active taus"
  have resolved: "1 \<le> resolved_length active target"
    using resolved_length_positive[OF policy] target_length_positive by (simp add: target_def)
  from plan_parts[OF resolved usable] obtain runs bss where
    runs: "contiguous_frame_runs indices = Inr runs" "maximal_runs indices runs" "runs \<noteq> []"
    and bss: "mapE (\<lambda>run. split_frame_interval (frame_start run) (frame_stop run) (resolved_length active target)) runs = Inr bss"
    "list_all2 (balanced_blocks (resolved_length active target)) runs bss" by blast
  obtain raw where raw: "make_block_plan raw = Inr plan" "eligible_frame_indices raw = indices" "contiguous_runs raw = runs"
    "block_intervals raw = concat bss" "resolved_block_length_frames raw = resolved_length active target"
    using build unfolding build_complete_frame_block_plan_def observed Let_def bindE_simps target_def[symmetric]
    by (simp add: runs bss)
  then have plan: "plan = raw\<lparr>observable_autocorrelation_times_frames := sort (observable_autocorrelation_times_frames raw)\<rparr>"
    by (auto simp: make_block_plan_def Let_def result_simps)
  show "plan_blocks indices plan" using raw runs(2) bss(2) unfolding plan_blocks_def plan by auto
  show "1 \<le> resolved_block_length_frames plan" using raw(5) resolved unfolding plan by simp
qed

end
