(* ===== verification/Unit_Intervals.thy ===== *)
theory Unit_Intervals
  imports Frame_Blocks
begin

text \<open>
  From blocks to unit intervals (\<open>_split_intervals_by_condition\<close> and \<open>_merge_intervals_for_events\<close> of
  \<open>mdstats/training_data/partition.py\<close>): blocks are split where the condition changes, and neighbours that
  a protected event touches are merged again.

  The merge marks the boundaries under each event in a difference array; it is proved to remove exactly the
  boundaries that some event crosses.
\<close>

section \<open>Splitting by condition\<close>

function condition_stop :: "(int \<times> string) list \<Rightarrow> int \<Rightarrow> string \<Rightarrow> int \<Rightarrow> int" where
  "condition_stop conditions limit key stop =
     (if stop < limit \<and> map_of conditions stop = Some key then condition_stop conditions limit key (stop + 1) else stop)"
  by pat_completeness auto
termination by (relation "measure (\<lambda>(conditions, limit, key, stop). nat (limit - stop))") auto

declare condition_stop.simps [simp del]

lemma condition_stop_range:
  "stop \<le> limit \<Longrightarrow> stop \<le> condition_stop conditions limit key stop \<and> condition_stop conditions limit key stop \<le> limit
     \<and> (\<forall>f \<in> {stop..<condition_stop conditions limit key stop}. map_of conditions f = Some key)"
proof (induction conditions limit key stop rule: condition_stop.induct)
  case (1 conditions limit key stop)
  show ?case
  proof (cases "stop < limit \<and> map_of conditions stop = Some key")
    case True
    then have step: "condition_stop conditions limit key stop = condition_stop conditions limit key (stop + 1)"
      by (subst condition_stop.simps) simp
    have "f = stop \<or> f \<in> {stop + 1..<condition_stop conditions limit key (stop + 1)}"
      if "f \<in> {stop..<condition_stop conditions limit key (stop + 1)}" for f using that by auto
    with 1 True show ?thesis unfolding step by fastforce
  next
    case False
    with 1(2) show ?thesis by (subst (1 2 3) condition_stop.simps) auto
  qed
qed

function split_interval :: "(int \<times> string) list \<Rightarrow> int \<Rightarrow> int \<Rightarrow> frame_interval list result" where
  "split_interval conditions limit cursor =
     (if cursor < limit then
        (case map_of conditions cursor of
           None \<Rightarrow> split_interval conditions limit (cursor + 1)
         | Some key \<Rightarrow>
             let stop = condition_stop conditions limit key (cursor + 1) in
             bindE (make_interval cursor stop) (\<lambda>piece.
             bindE (split_interval conditions limit stop) (\<lambda>pieces. Inr (piece # pieces))))
      else Inr [])"
  by pat_completeness auto
termination
proof (relation "measure (\<lambda>(conditions, limit, cursor). nat (limit - cursor))", goal_cases)
  case (3 conditions limit cursor key stop)
  then have "cursor + 1 \<le> stop" using condition_stop_range[of "cursor + 1" limit conditions key] by simp
  with 3(1) show ?case by simp
qed auto

declare split_interval.simps [simp del]

definition split_intervals_by_condition :: "frame_interval list \<Rightarrow> (int \<times> string) list \<Rightarrow> frame_interval list result" where
  "split_intervals_by_condition intervals conditions =
     bindE (mapE (\<lambda>i. split_interval conditions (frame_stop i) (frame_start i)) intervals) (\<lambda>pieces. Inr (concat pieces))"

section \<open>Merging under events\<close>

text \<open>\<open>numpy.searchsorted(starts, v, side="right") - 1\<close> for sorted \<open>starts\<close>.\<close>

definition interval_position :: "int list \<Rightarrow> int \<Rightarrow> int" where
  "interval_position starts v = int (length (takeWhile (\<lambda>s. s \<le> v) starts)) - 1"

definition touched_positions :: "int list \<Rightarrow> int list \<Rightarrow> int list \<Rightarrow> nat list" where
  "touched_positions starts stops indices =
     sorted_set (map (\<lambda>v. nat (interval_position starts v))
       (filter (\<lambda>v. 0 \<le> interval_position starts v \<and> v < stops ! nat (interval_position starts v)) indices))"

definition add_event :: "int list \<Rightarrow> int list \<Rightarrow> int list \<Rightarrow> int list \<Rightarrow> int list" where
  "add_event starts stops indices difference =
     (if indices = [] then difference
      else
        let touched = touched_positions starts stops indices in
        if length touched \<le> 1 then difference
        else
          let raised = difference[hd touched := difference ! hd touched + 1] in
          raised[last touched := raised ! last touched - 1])"

fun cumsum :: "int \<Rightarrow> int list \<Rightarrow> int list" where
  "cumsum t [] = []"
| "cumsum t (x # xs) = (t + x) # cumsum (t + x) xs"

definition covered_boundaries :: "int list \<Rightarrow> int list \<Rightarrow> int list list \<Rightarrow> bool list" where
  "covered_boundaries starts stops events =
     map (\<lambda>c. 0 < c) (cumsum 0 (butlast (fold (add_event starts stops) events (replicate (length starts) 0))))"

definition merge_boundary :: "frame_interval list \<Rightarrow> nat \<times> bool \<Rightarrow> nat \<times> frame_interval list \<Rightarrow> (nat \<times> frame_interval list) result" where
  "merge_boundary ordered = (\<lambda>(boundary, covered) (start_index, merged).
     if covered then Inr (start_index, merged)
     else
       bindE (make_interval (frame_start (ordered ! start_index)) (frame_stop (ordered ! boundary))) (\<lambda>piece.
       Inr (boundary + 1, merged @ [piece])))"

definition merge_intervals_for_events :: "frame_interval list \<Rightarrow> int list list \<Rightarrow> frame_interval list result" where
  "merge_intervals_for_events ordered events =
     (if length ordered \<le> 1 \<or> events = [] then Inr ordered
      else
        let starts = map frame_start ordered; stops = map frame_stop ordered in
        bindE (guardE (list_all2 (\<le>) (butlast starts) (tl starts) \<and> list_all2 (\<le>) (butlast stops) (tl starts))
          (TrainingDataInputError (Text ''Partition intervals must be sorted and non-overlapping.''))) (\<lambda>_.
        bindE (foldE (merge_boundary ordered) (List.enumerate 0 (covered_boundaries starts stops events)) (0, []))
          (\<lambda>(start_index, merged).
        bindE (make_interval (frame_start (ordered ! start_index)) (frame_stop (last ordered))) (\<lambda>piece.
        Inr (merged @ [piece])))))"

section \<open>Pieces of one condition\<close>

definition one_condition :: "(int \<times> string) list \<Rightarrow> frame_interval \<Rightarrow> bool" where
  "one_condition conditions i \<longleftrightarrow> (\<exists>key. \<forall>f \<in> set (interval_frames i). map_of conditions f = Some key)"

definition proper :: "frame_interval \<Rightarrow> bool" where
  "proper i \<longleftrightarrow> 0 \<le> frame_start i \<and> frame_start i < frame_stop i"

definition in_order :: "frame_interval list \<Rightarrow> bool" where
  "in_order is \<longleftrightarrow> list_all proper is \<and> sorted_wrt (\<lambda>i j. frame_stop i \<le> frame_start j) is"

lemma split_interval_exact:
  "0 \<le> cursor \<Longrightarrow> \<exists>pieces. split_interval conditions limit cursor = Inr pieces \<and> in_order pieces
     \<and> (\<forall>i \<in> set pieces. cursor \<le> frame_start i \<and> frame_stop i \<le> limit \<and> one_condition conditions i)
     \<and> concat (map interval_frames pieces) = filter (\<lambda>f. map_of conditions f \<noteq> None) [cursor..limit - 1]"
proof (induction conditions limit cursor rule: split_interval.induct)
  case (1 conditions limit cursor)
  show ?case
  proof (cases "cursor < limit")
    case False
    then show ?thesis by (subst split_interval.simps) (simp add: in_order_def)
  next
    case lt: True
    show ?thesis
    proof (cases "map_of conditions cursor")
      case None
      then have step: "split_interval conditions limit cursor = split_interval conditions limit (cursor + 1)"
        using lt by (subst split_interval.simps) simp
      have "[cursor..limit - 1] = cursor # [cursor + 1..limit - 1]" using lt by (simp add: upto_rec1)
      with None 1(1)[OF lt None] 1(3) show ?thesis unfolding step by fastforce
    next
      case (Some key)
      define stop where "stop = condition_stop conditions limit key (cursor + 1)"
      have stop: "cursor + 1 \<le> stop" "stop \<le> limit"
        and same: "\<forall>f \<in> {cursor + 1..<stop}. map_of conditions f = Some key"
        using condition_stop_range[of "cursor + 1" limit conditions key] lt by (auto simp: stop_def)
      have "0 \<le> stop" using stop(1) 1(3) by simp
      from 1(2)[OF lt Some stop_def _ this] obtain pieces where
        pieces: "split_interval conditions limit stop = Inr pieces" "in_order pieces"
          "\<forall>i \<in> set pieces. stop \<le> frame_start i \<and> frame_stop i \<le> limit \<and> one_condition conditions i"
          "concat (map interval_frames pieces) = filter (\<lambda>f. map_of conditions f \<noteq> None) [stop..limit - 1]"
        using stop 1(3) by (auto simp: make_interval_def)
      define piece where "piece = \<lparr>frame_start = cursor, frame_stop = stop\<rparr>"
      have made: "make_interval cursor stop = Inr piece" using stop 1(3) by (simp add: make_interval_def piece_def)
      have run: "split_interval conditions limit cursor = Inr (piece # pieces)"
        using lt Some made pieces(1) by (subst split_interval.simps) (simp add: flip: stop_def)
      have all: "\<forall>f \<in> {cursor..<stop}. map_of conditions f = Some key"
      proof
        fix f assume "f \<in> {cursor..<stop}"
        then have "f = cursor \<or> f \<in> {cursor + 1..<stop}" by auto
        with same Some show "map_of conditions f = Some key" by blast
      qed
      have "[cursor..limit - 1] = [cursor..stop - 1] @ [stop..limit - 1]"
        using stop by (cases "stop = limit") (simp_all add: upto_split1)
      moreover have "filter (\<lambda>f. map_of conditions f \<noteq> None) [cursor..stop - 1] = [cursor..stop - 1]"
        using all by (intro filter_True) auto
      ultimately have "concat (map interval_frames (piece # pieces))
          = filter (\<lambda>f. map_of conditions f \<noteq> None) [cursor..limit - 1]"
        using pieces(4) by (simp add: piece_def interval_frames_def)
      moreover have "in_order (piece # pieces)"
        using pieces(2,3) stop 1(3) by (simp add: in_order_def proper_def piece_def)
      moreover have "one_condition conditions piece" using all unfolding one_condition_def by (auto simp: piece_def)
      moreover have "\<forall>i \<in> set pieces. cursor \<le> frame_start i" using pieces(3) stop by force
      ultimately show ?thesis using run pieces(3) stop by (simp add: piece_def)
    qed
  qed
qed

lemma split_intervals_exact:
  assumes "in_order intervals"
  shows "\<exists>pieces. split_intervals_by_condition intervals conditions = Inr pieces \<and> in_order pieces
    \<and> (\<forall>i \<in> set pieces. one_condition conditions i)
    \<and> concat (map interval_frames pieces)
        = filter (\<lambda>f. map_of conditions f \<noteq> None) (concat (map interval_frames intervals))"
proof -
  have "\<exists>pss. mapE (\<lambda>i. split_interval conditions (frame_stop i) (frame_start i)) intervals = Inr pss
      \<and> in_order (concat pss) \<and> (\<forall>p \<in> set (concat pss). one_condition conditions p \<and> (\<exists>i \<in> set intervals. frame_start i \<le> frame_start p))
      \<and> concat (map interval_frames (concat pss))
          = filter (\<lambda>f. map_of conditions f \<noteq> None) (concat (map interval_frames intervals))"
    using assms
  proof (induction intervals)
    case (Cons i intervals)
    then have i: "proper i" and later: "\<forall>j \<in> set intervals. frame_stop i \<le> frame_start j" and "in_order intervals"
      by (simp_all add: in_order_def)
    with Cons.IH obtain pss where pss: "mapE (\<lambda>i. split_interval conditions (frame_stop i) (frame_start i)) intervals = Inr pss"
      "in_order (concat pss)" "\<forall>p \<in> set (concat pss). one_condition conditions p \<and> (\<exists>i \<in> set intervals. frame_start i \<le> frame_start p)"
      "concat (map interval_frames (concat pss)) = filter (\<lambda>f. map_of conditions f \<noteq> None) (concat (map interval_frames intervals))"
      by blast
    from split_interval_exact[of "frame_start i" conditions "frame_stop i"] i obtain ps where
      ps: "split_interval conditions (frame_stop i) (frame_start i) = Inr ps" "in_order ps"
      "\<forall>p \<in> set ps. frame_start i \<le> frame_start p \<and> frame_stop p \<le> frame_stop i \<and> one_condition conditions p"
      "concat (map interval_frames ps) = filter (\<lambda>f. map_of conditions f \<noteq> None) [frame_start i..frame_stop i - 1]"
      by (auto simp: proper_def)
    have "frame_stop p \<le> frame_start q" if p: "p \<in> set ps" and q: "q \<in> set (concat pss)" for p q
    proof -
      obtain j where "j \<in> set intervals" "frame_start j \<le> frame_start q" using pss(3) q by blast
      moreover have "frame_stop i \<le> frame_start j" using later \<open>j \<in> set intervals\<close> by blast
      moreover have "frame_stop p \<le> frame_stop i" using ps(3) p by blast
      ultimately show ?thesis by linarith
    qed
    then have "in_order (ps @ concat pss)" using ps(2) pss(2) by (auto simp: in_order_def sorted_wrt_append)
    moreover have "concat (map interval_frames (ps @ concat pss))
        = filter (\<lambda>f. map_of conditions f \<noteq> None) (concat (map interval_frames (i # intervals)))"
      using ps(4) pss(4) by (simp add: interval_frames_def)
    moreover have "\<forall>p \<in> set (ps @ concat pss). one_condition conditions p \<and> (\<exists>i \<in> set (i # intervals). frame_start i \<le> frame_start p)"
      using ps(3) pss(3) by auto
    ultimately show ?case using ps(1) pss(1) by (intro exI[of _ "ps # pss"]) simp
  qed (simp add: in_order_def)
  then show ?thesis by (auto simp: split_intervals_by_condition_def)
qed

section \<open>The merge removes exactly the crossed boundaries\<close>

text \<open>An event touches interval \<open>a\<close> by frame \<open>v\<close>; it crosses the boundary after \<open>i\<close> if it touches both sides.\<close>

definition touches :: "frame_interval list \<Rightarrow> int \<Rightarrow> nat \<Rightarrow> bool" where
  "touches ordered v a \<longleftrightarrow> a < length ordered \<and> frame_start (ordered ! a) \<le> v \<and> v < frame_stop (ordered ! a)"

definition crossed :: "frame_interval list \<Rightarrow> int list list \<Rightarrow> nat \<Rightarrow> bool" where
  "crossed ordered events i \<longleftrightarrow> (\<exists>indices \<in> set events. \<exists>v \<in> set indices. \<exists>w \<in> set indices. \<exists>a b.
     touches ordered v a \<and> touches ordered w b \<and> a \<le> i \<and> i < b)"

lemma takeWhile_sorted: "sorted xs \<Longrightarrow> i < length xs \<Longrightarrow> i < length (takeWhile (\<lambda>s. s \<le> v) xs) \<longleftrightarrow> xs ! i \<le> (v :: int)"
proof (induction xs arbitrary: i)
  case (Cons x xs)
  show ?case
  proof (cases i)
    case (Suc j)
    then have j: "j < length xs" and "xs ! j \<in> set xs" using Cons.prems(2) by simp_all
    then have "x \<le> xs ! j" using Cons.prems(1) by simp
    with Cons.IH[OF _ j] Cons.prems(1) Suc show ?thesis by auto
  qed simp
qed simp

lemma in_order_nth:
  assumes "in_order ordered" and "a < b" and "b < length ordered"
  shows "frame_stop (ordered ! a) \<le> frame_start (ordered ! b)"
  using assms by (simp add: in_order_def sorted_wrt_iff_nth_less)

lemma in_order_proper: "in_order ordered \<Longrightarrow> a < length ordered \<Longrightarrow> proper (ordered ! a)"
  by (simp add: in_order_def list_all_length)

lemma sorted_starts:
  assumes "in_order ordered"
  shows "sorted (map frame_start ordered)"
  unfolding sorted_iff_nth_mono_less
proof (intro allI impI)
  fix i j assume "i < j" "j < length (map frame_start ordered)"
  then have "frame_stop (ordered ! i) \<le> frame_start (ordered ! j)" "proper (ordered ! i)"
    using in_order_nth[OF assms, of i j] in_order_proper[OF assms, of i] by simp_all
  then show "map frame_start ordered ! i \<le> map frame_start ordered ! j"
    using \<open>i < j\<close> \<open>j < length (map frame_start ordered)\<close> by (simp add: proper_def)
qed

lemma position_touches:
  assumes order: "in_order ordered"
  defines "pos \<equiv> \<lambda>v. interval_position (map frame_start ordered) v"
  shows "(0 \<le> pos v \<and> v < map frame_stop ordered ! nat (pos v)) \<and> nat (pos v) = a \<longleftrightarrow> touches ordered v a"
proof
  define n where "n = length (takeWhile (\<lambda>s. s \<le> v) (map frame_start ordered))"
  have pos: "pos v = int n - 1" by (simp add: pos_def interval_position_def n_def)
  have n: "n \<le> length ordered" using length_takeWhile_le[of "\<lambda>s. s \<le> v" "map frame_start ordered"] by (simp add: n_def)
  have below: "i < n \<longleftrightarrow> frame_start (ordered ! i) \<le> v" if "i < length ordered" for i
    using takeWhile_sorted[OF sorted_starts[OF order], of i v] that by (simp add: n_def)
  show "touches ordered v a" if "(0 \<le> pos v \<and> v < map frame_stop ordered ! nat (pos v)) \<and> nat (pos v) = a"
  proof -
    from that have "n = Suc a" unfolding pos by auto
    with that n below[of a] show ?thesis unfolding pos touches_def by auto
  qed
  show "(0 \<le> pos v \<and> v < map frame_stop ordered ! nat (pos v)) \<and> nat (pos v) = a" if t: "touches ordered v a"
  proof -
    have a: "a < length ordered" "frame_start (ordered ! a) \<le> v" "v < frame_stop (ordered ! a)" using t by (simp_all add: touches_def)
    then have "a < n" using below by blast
    moreover have "\<not> Suc a < n"
    proof
      assume s: "Suc a < n"
      then have "Suc a < length ordered" using n by simp
      then have "frame_start (ordered ! Suc a) \<le> v" using below s by blast
      moreover have "frame_stop (ordered ! a) \<le> frame_start (ordered ! Suc a)"
        by (rule in_order_nth[OF order lessI \<open>Suc a < length ordered\<close>])
      ultimately show False using a(3) by linarith
    qed
    ultimately have "n = Suc a" by simp
    then show ?thesis using a unfolding pos by simp
  qed
qed

lemma touched_positions_exact:
  assumes "in_order ordered"
  shows "set (touched_positions (map frame_start ordered) (map frame_stop ordered) indices)
    = {a. \<exists>v \<in> set indices. touches ordered v a}"
  unfolding touched_positions_def set_sorted_set set_map set_filter position_touches[OF assms, symmetric] by auto

lemma length_add_event [simp]: "length (add_event starts stops indices d) = length d"
  by (simp add: add_event_def Let_def)

lemma sum_take_update:
  "k < length d \<Longrightarrow> sum_list (take (Suc i) (d[k := d ! k + x])) = sum_list (take (Suc i) d) + (if k \<le> i then x else (0::int))"
proof (induction d arbitrary: k i)
  case (Cons y d)
  then show ?case by (cases k; cases i) (simp_all add: algebra_simps)
qed simp

lemma sorted_hd_last:
  assumes "sorted (xs :: nat list)" and "x \<in> set xs"
  shows "hd xs \<le> x" and "x \<le> last xs"
proof -
  show "hd xs \<le> x" using assms by (cases xs) auto
  obtain i where "i < length xs" "xs ! i = x" using assms(2) by (auto simp: in_set_conv_nth)
  then show "x \<le> last xs" using assms(1) sorted_nth_mono[of xs i "length xs - 1"] by (cases xs) (auto simp: last_conv_nth)
qed

lemma add_event_prefix:
  assumes order: "in_order ordered" and len: "length d = length ordered"
  shows "sum_list (take (Suc i) (add_event (map frame_start ordered) (map frame_stop ordered) indices d))
    = sum_list (take (Suc i) d) + (if crossed ordered [indices] i then 1 else 0)"
proof -
  define ts where "ts = touched_positions (map frame_start ordered) (map frame_stop ordered) indices"
  have set_ts: "set ts = {a. \<exists>v \<in> set indices. touches ordered v a}" unfolding ts_def by (rule touched_positions_exact[OF order])
  have ts: "sorted ts" "distinct ts" by (simp_all add: ts_def touched_positions_def)
  have crossed: "crossed ordered [indices] i \<longleftrightarrow> (\<exists>a \<in> set ts. \<exists>b \<in> set ts. a \<le> i \<and> i < b)"
    unfolding crossed_def set_ts by auto
  show ?thesis
  proof (cases "length ts \<le> 1")
    case True
    then have "\<not> crossed ordered [indices] i" unfolding crossed by (cases ts) auto
    moreover have "add_event (map frame_start ordered) (map frame_stop ordered) indices d = d"
      using True unfolding add_event_def ts_def[symmetric] Let_def by simp
    ultimately show ?thesis by simp
  next
    case False
    then have ne: "ts \<noteq> []" by auto
    have ni: "indices \<noteq> []"
    proof
      assume "indices = []"
      then have "set ts = {}" unfolding set_ts by simp
      with ne show False by simp
    qed
    have "crossed ordered [indices] i \<longleftrightarrow> hd ts \<le> i \<and> i < last ts"
      unfolding crossed using sorted_hd_last[OF ts(1)] ne by (meson hd_in_set last_in_set le_trans less_le_trans)
    moreover have "hd ts \<in> set ts" "last ts \<in> set ts" using ne by simp_all
    then have range: "hd ts < length d" "last ts < length d" unfolding set_ts len by (auto simp: touches_def)
    moreover have "hd ts \<le> last ts" by (rule sorted_hd_last(2)[OF ts(1)]) (simp add: ne)
    moreover have "add_event (map frame_start ordered) (map frame_stop ordered) indices d
        = (d[hd ts := d ! hd ts + 1])[last ts := d[hd ts := d ! hd ts + 1] ! last ts + (- 1)]"
      using False ni unfolding add_event_def ts_def[symmetric] Let_def by simp
    ultimately show ?thesis using sum_take_update[of "last ts" "d[hd ts := d ! hd ts + 1]" i "- 1"] sum_take_update[of "hd ts" d i 1]
      by auto
  qed
qed

lemma crossed_Cons: "crossed ordered (indices # events) i \<longleftrightarrow> crossed ordered [indices] i \<or> crossed ordered events i"
  by (simp add: crossed_def)

lemma events_prefix:
  assumes order: "in_order ordered"
  shows "length d = length ordered \<Longrightarrow> (\<forall>i. 0 \<le> sum_list (take (Suc i) d)) \<Longrightarrow>
    0 < sum_list (take (Suc i) (fold (add_event (map frame_start ordered) (map frame_stop ordered)) events d))
    \<longleftrightarrow> 0 < sum_list (take (Suc i) d) \<or> crossed ordered events i"
proof (induction events arbitrary: d)
  case Nil
  then show ?case by (simp add: crossed_def)
next
  case (Cons indices events)
  define d' where "d' = add_event (map frame_start ordered) (map frame_stop ordered) indices d"
  note step = add_event_prefix[OF order Cons.prems(1), of _ indices, folded d'_def]
  have "\<forall>j. 0 \<le> sum_list (take (Suc j) d')" using Cons.prems(2) by (simp add: step)
  moreover have "length d' = length ordered" using Cons.prems(1) by (simp add: d'_def)
  moreover have "0 < sum_list (take (Suc i) d') \<longleftrightarrow> 0 < sum_list (take (Suc i) d) \<or> crossed ordered [indices] i"
    using Cons.prems(2)[rule_format, of i] unfolding step by simp
  ultimately show ?case using Cons.IH[of d'] crossed_Cons[of ordered indices events i] by (simp add: d'_def)
qed

lemma cumsum_nth: "i < length xs \<Longrightarrow> cumsum t xs ! i = t + sum_list (take (Suc i) xs)"
proof (induction xs arbitrary: t i)
  case (Cons x xs)
  then show ?case by (cases i) simp_all
qed simp

lemma length_cumsum [simp]: "length (cumsum t xs) = length xs"
  by (induction xs arbitrary: t) simp_all

lemma covered_boundaries_exact:
  assumes "in_order ordered"
  shows "covered_boundaries (map frame_start ordered) (map frame_stop ordered) events
    = map (crossed ordered events) [0..<length ordered - 1]"
proof (rule nth_equalityI)
  have len: "length (fold (add_event (map frame_start ordered) (map frame_stop ordered)) events d) = length d" for d
    by (induction events arbitrary: d) simp_all
  then show "length (covered_boundaries (map frame_start ordered) (map frame_stop ordered) events)
    = length (map (crossed ordered events) [0..<length ordered - 1])" by (simp add: covered_boundaries_def)
  fix i assume "i < length (covered_boundaries (map frame_start ordered) (map frame_stop ordered) events)"
  then have i: "i < length ordered - 1" by (simp add: covered_boundaries_def len)
  define d where "d = fold (add_event (map frame_start ordered) (map frame_stop ordered)) events (replicate (length ordered) 0)"
  have "sum_list (take (Suc j) (replicate (length ordered) (0::int))) = 0" for j by (simp add: take_replicate sum_list_replicate)
  then have "0 < sum_list (take (Suc i) d) \<longleftrightarrow> crossed ordered events i"
    using events_prefix[OF assms, of "replicate (length ordered) 0" i events] by (simp add: d_def)
  moreover have "cumsum 0 (butlast d) ! i = sum_list (take (Suc i) d)"
    using i by (simp add: cumsum_nth d_def len take_butlast)
  ultimately show "covered_boundaries (map frame_start ordered) (map frame_stop ordered) events ! i
      = map (crossed ordered events) [0..<length ordered - 1] ! i"
    using i by (simp add: covered_boundaries_def len flip: d_def) (simp add: d_def len)
qed

definition merged_span :: "frame_interval list \<Rightarrow> frame_interval" where
  "merged_span g = \<lparr>frame_start = frame_start (hd g), frame_stop = frame_stop (last g)\<rparr>"

definition group_ends :: "'a list list \<Rightarrow> nat set" where
  "group_ends gs = (\<lambda>j. length (concat (take j gs))) ` {1..length gs}"

lemma group_ends_simps [simp]:
  "group_ends [] = {}"
  "group_ends (gs @ [g]) = insert (length (concat gs) + length g) (group_ends gs)"
proof -
  show "group_ends [] = {}" by (simp add: group_ends_def)
  have "{1..length (gs @ [g])} = insert (length (gs @ [g])) {1..length gs}" by auto
  moreover have "(\<lambda>j. length (concat (take j (gs @ [g])))) ` {1..length gs} = (\<lambda>j. length (concat (take j gs))) ` {1..length gs}"
    by (intro image_cong) auto
  ultimately show "group_ends (gs @ [g]) = insert (length (concat gs) + length g) (group_ends gs)"
    by (simp add: group_ends_def)
qed

lemma merged_span_segment:
  assumes "in_order ordered" and "s \<le> n" and "n < length ordered"
  shows "make_interval (frame_start (ordered ! s)) (frame_stop (ordered ! n)) = Inr (merged_span (take (Suc n - s) (drop s ordered)))"
proof -
  have s: "proper (ordered ! s)" "proper (ordered ! n)" using in_order_proper[OF assms(1)] assms(2,3) by auto
  have "frame_start (ordered ! s) < frame_stop (ordered ! n)"
  proof (cases "s = n")
    case False
    then have "frame_stop (ordered ! s) \<le> frame_start (ordered ! n)" using assms by (intro in_order_nth) auto
    with s show ?thesis by (simp add: proper_def)
  qed (use s in \<open>simp add: proper_def\<close>)
  moreover have "hd (take (Suc n - s) (drop s ordered)) = ordered ! s"
    using assms(2,3) by (simp add: hd_conv_nth)
  moreover have "last (take (Suc n - s) (drop s ordered)) = ordered ! n"
    using assms(2,3) by (simp add: last_conv_nth)
  ultimately show ?thesis using s by (simp add: make_interval_def merged_span_def proper_def)
qed

lemma merge_loop:
  assumes order: "in_order ordered" and "n < length ordered"
  shows "\<exists>s gs. foldE (merge_boundary ordered) (List.enumerate 0 (map c [0..<n])) (0, []) = Inr (s, map merged_span gs)
    \<and> concat gs = take s ordered \<and> [] \<notin> set gs \<and> s \<le> n \<and> group_ends gs = {Suc i |i. i < n \<and> \<not> c i}"
  using assms(2)
proof (induction n)
  case 0
  then show ?case by (intro exI[of _ 0] exI[of _ "[]"]) simp
next
  case (Suc n)
  then obtain s gs where IH: "foldE (merge_boundary ordered) (List.enumerate 0 (map c [0..<n])) (0, []) = Inr (s, map merged_span gs)"
    "concat gs = take s ordered" "[] \<notin> set gs" "s \<le> n" "group_ends gs = {Suc i |i. i < n \<and> \<not> c i}"
    by auto
  have split: "List.enumerate 0 (map c [0..<Suc n]) = List.enumerate 0 (map c [0..<n]) @ [(n, c n)]"
    by (simp add: enumerate_append_eq)
  show ?case
  proof (cases "c n")
    case True
    have "{Suc i |i. i < Suc n \<and> \<not> c i} = {Suc i |i. i < n \<and> \<not> c i}" using True less_Suc_eq by auto
    with True IH show ?thesis unfolding split by (intro exI[of _ s] exI[of _ gs]) (simp add: merge_boundary_def)
  next
    case False
    define g where "g = take (Suc n - s) (drop s ordered)"
    have ends: "{Suc i |i. i < Suc n \<and> \<not> c i} = insert (Suc n) {Suc i |i. i < n \<and> \<not> c i}"
      using False less_Suc_eq by auto
    have "take (Suc n) ordered = take s ordered @ g"
      using IH(4) unfolding g_def by (metis add_diff_inverse_nat le_SucI not_less take_add)
    moreover have "length (take s ordered) + length g = Suc n" using IH(4) Suc.prems by (simp add: g_def)
    moreover have "g \<noteq> []" using IH(4) Suc.prems by (simp add: g_def)
    moreover have "make_interval (frame_start (ordered ! s)) (frame_stop (ordered ! n)) = Inr (merged_span g)"
      unfolding g_def using Suc.prems IH(4) by (intro merged_span_segment[OF order]) simp_all
    ultimately show ?thesis using False IH ends unfolding split
      by (intro exI[of _ "Suc n"] exI[of _ "gs @ [g]"]) (simp add: merge_boundary_def)
  qed
qed

lemma in_order_checked:
  assumes "in_order ordered"
  shows "list_all2 (\<le>) (butlast (map frame_start ordered)) (tl (map frame_start ordered))"
    and "list_all2 (\<le>) (butlast (map frame_stop ordered)) (tl (map frame_start ordered))"
proof -
  have "frame_start (ordered ! i) \<le> frame_start (ordered ! Suc i) \<and> frame_stop (ordered ! i) \<le> frame_start (ordered ! Suc i)"
    if "Suc i < length ordered" for i
    using in_order_nth[OF assms lessI that] in_order_proper[OF assms, of i] that by (simp add: proper_def)
  then show "list_all2 (\<le>) (butlast (map frame_start ordered)) (tl (map frame_start ordered))"
    "list_all2 (\<le>) (butlast (map frame_stop ordered)) (tl (map frame_start ordered))"
    by (auto simp: list_all2_conv_all_nth nth_butlast nth_tl)
qed

lemma merge_exact:
  assumes order: "in_order ordered"
  shows "\<exists>gs. merge_intervals_for_events ordered events = Inr (map merged_span gs) \<and> concat gs = ordered \<and> [] \<notin> set gs
    \<and> group_ends gs = {Suc i |i. Suc i < length ordered \<and> \<not> crossed ordered events i} \<union> (if ordered = [] then {} else {length ordered})"
proof (cases "length ordered \<le> 1 \<or> events = []")
  case True
  have single: "map merged_span (map (\<lambda>x. [x]) ordered) = ordered"
  proof -
    have "merged_span [x] = x" for x by (cases x) (simp add: merged_span_def)
    then show ?thesis by (simp add: comp_def)
  qed
  have "group_ends (map (\<lambda>x. [x]) ordered) = {1..length ordered}"
  proof -
    have "length (concat (take j (map (\<lambda>x. [x]) ordered))) = min (length ordered) j" for j
      by (simp add: take_map)
    then show ?thesis by (auto simp: group_ends_def image_iff)
  qed
  also have "\<dots> = {Suc i |i. Suc i < length ordered \<and> \<not> crossed ordered events i} \<union> (if ordered = [] then {} else {length ordered})"
  proof -
    have "\<not> crossed ordered events i" if "Suc i < length ordered" for i using True that by (auto simp: crossed_def)
    then have "{Suc i |i. Suc i < length ordered \<and> \<not> crossed ordered events i} = {Suc i |i. Suc i < length ordered}" by blast
    also have "\<dots> = {1..<length ordered}" by (auto simp: Suc_le_eq gr0_conv_Suc)
    finally show ?thesis by (cases "ordered = []") (auto simp: Suc_le_eq)
  qed
  finally show ?thesis using True single
    by (intro exI[of _ "map (\<lambda>x. [x]) ordered"]) (auto simp: merge_intervals_for_events_def)
next
  case False
  define n where "n = length ordered - 1"
  have n: "n < length ordered" "Suc n = length ordered" using False by (auto simp: n_def)
  from merge_loop[OF order n(1), of "crossed ordered events"] obtain s gs where
    loop: "foldE (merge_boundary ordered) (List.enumerate 0 (map (crossed ordered events) [0..<n])) (0, []) = Inr (s, map merged_span gs)"
    "concat gs = take s ordered" "[] \<notin> set gs" "s \<le> n" "group_ends gs = {Suc i |i. i < n \<and> \<not> crossed ordered events i}" by auto
  have ne: "ordered \<noteq> []" using False by auto
  then have "last ordered = ordered ! n" by (simp add: last_conv_nth n_def)
  moreover have "take (Suc n - s) (drop s ordered) = drop s ordered" using n by simp
  ultimately have final: "make_interval (frame_start (ordered ! s)) (frame_stop (last ordered)) = Inr (merged_span (drop s ordered))"
    using merged_span_segment[OF order loop(4) n(1)] by simp
  have "merge_intervals_for_events ordered events = Inr (map merged_span (gs @ [drop s ordered]))"
    using False in_order_checked[OF order] loop(1) final
    by (simp add: merge_intervals_for_events_def Let_def covered_boundaries_exact[OF order] n_def)
  moreover have "concat (gs @ [drop s ordered]) = ordered" using loop(2) by simp
  moreover have "[] \<notin> set (gs @ [drop s ordered])" using loop(3,4) n by auto
  moreover have "group_ends (gs @ [drop s ordered])
      = {Suc i |i. Suc i < length ordered \<and> \<not> crossed ordered events i} \<union> {length ordered}"
    using loop(2,4,5) n by (auto simp: n_def)
  ultimately show ?thesis using ne by (intro exI[of _ "gs @ [drop s ordered]"]) simp
qed

section \<open>What the merge keeps\<close>

lemma in_order_append: "in_order (xs @ ys) \<longleftrightarrow> in_order xs \<and> in_order ys \<and> (\<forall>x \<in> set xs. \<forall>y \<in> set ys. frame_stop x \<le> frame_start y)"
  by (auto simp: in_order_def sorted_wrt_append)

lemma merged_span_covers:
  assumes "in_order g" and "p \<in> set g"
  shows "frame_start (merged_span g) \<le> frame_start p" and "frame_stop p \<le> frame_stop (merged_span g)"
proof -
  obtain i where i: "i < length g" "p = g ! i" using assms(2) by (auto simp: in_set_conv_nth)
  then have ne: "g \<noteq> []" by auto
  have p: "proper p" "proper (hd g)" "proper (last g)" using in_order_proper[OF assms(1)] i ne by (simp_all add: hd_conv_nth last_conv_nth)
  have "frame_start (hd g) \<le> frame_start p"
    using in_order_nth[OF assms(1), of 0 i] i p ne by (cases i) (simp_all add: hd_conv_nth proper_def)
  then show "frame_start (merged_span g) \<le> frame_start p" by (simp add: merged_span_def)
  have "frame_stop p \<le> frame_stop (last g)"
  proof (cases "i = length g - 1")
    case False
    then have "frame_stop p \<le> frame_start (last g)"
      using in_order_nth[OF assms(1), of i "length g - 1"] i ne by (simp add: last_conv_nth)
    with p(3) show ?thesis by (simp add: proper_def)
  qed (use i ne in \<open>simp add: last_conv_nth\<close>)
  then show "frame_stop p \<le> frame_stop (merged_span g)" by (simp add: merged_span_def)
qed

lemma in_order_merged_spans:
  assumes "in_order (concat gs)" and "[] \<notin> set gs"
  shows "in_order (map merged_span gs)"
  using assms
proof (induction gs)
  case (Cons g gs)
  then have g: "in_order g" "g \<noteq> []" and rest: "in_order (map merged_span gs)"
    and later: "\<forall>x \<in> set g. \<forall>y \<in> set (concat gs). frame_stop x \<le> frame_start y" by (auto simp: in_order_append)
  have "hd g \<in> set g" using g(2) by simp
  then have "proper (hd g)" using g(1) by (simp add: in_order_def list_all_iff)
  then have "proper (merged_span g)"
    using merged_span_covers(2)[OF g(1) \<open>hd g \<in> set g\<close>] by (simp add: proper_def merged_span_def)
  moreover have "frame_stop (merged_span g) \<le> frame_start (merged_span g')" if "g' \<in> set gs" for g'
  proof -
    have "g' \<noteq> []" using that Cons.prems(2) by auto
    then have "hd g' \<in> set (concat gs)" using that hd_in_set by fastforce
    moreover have "last g \<in> set g" using g(2) by simp
    ultimately show ?thesis using later by (auto simp: merged_span_def)
  qed
  ultimately show ?case using rest by (simp add: in_order_def)
qed (simp add: in_order_def)

definition offset :: "'a list list \<Rightarrow> nat \<Rightarrow> nat" where
  "offset gs k = length (concat (take k gs))"

lemma offset_mono: "k \<le> l \<Longrightarrow> offset gs k \<le> offset gs l"
  unfolding offset_def by (metis concat_append le_add_diff_inverse length_append le_add1 take_add)

lemma nth_concat_group:
  "a < length (concat gs) \<Longrightarrow> \<exists>k < length gs. offset gs k \<le> a \<and> a < offset gs (Suc k) \<and> concat gs ! a \<in> set (gs ! k)"
proof (induction gs arbitrary: a)
  case (Cons g gs)
  show ?case
  proof (cases "a < length g")
    case True
    then show ?thesis by (intro exI[of _ 0]) (simp add: offset_def nth_append)
  next
    case False
    then have "a - length g < length (concat gs)" using Cons.prems by simp
    from Cons.IH[OF this] obtain k where "k < length gs" "offset gs k \<le> a - length g" "a - length g < offset gs (Suc k)"
      "concat gs ! (a - length g) \<in> set (gs ! k)" by blast
    with False show ?thesis by (intro exI[of _ "Suc k"]) (auto simp: offset_def nth_append)
  qed
qed simp

lemma merge_keeps:
  assumes order: "in_order ordered" and merge: "merge_intervals_for_events ordered events = Inr merged"
  shows "in_order merged"
    and "\<And>p. p \<in> set ordered \<Longrightarrow> \<exists>m \<in> set merged. set (interval_frames p) \<subseteq> set (interval_frames m)"
    and "\<And>indices v w p q. indices \<in> set events \<Longrightarrow> v \<in> set indices \<Longrightarrow> w \<in> set indices \<Longrightarrow>
      p \<in> set ordered \<Longrightarrow> v \<in> set (interval_frames p) \<Longrightarrow> q \<in> set ordered \<Longrightarrow> w \<in> set (interval_frames q) \<Longrightarrow>
      \<exists>m \<in> set merged. v \<in> set (interval_frames m) \<and> w \<in> set (interval_frames m)"
proof -
  from merge_exact[OF order, of events] merge obtain gs where gs: "merged = map merged_span gs" "concat gs = ordered" "[] \<notin> set gs"
    "group_ends gs = {Suc i |i. Suc i < length ordered \<and> \<not> crossed ordered events i} \<union> (if ordered = [] then {} else {length ordered})"
    by auto
  show "in_order merged" unfolding gs(1) using order gs(2,3) by (intro in_order_merged_spans) simp_all
  have ordered: "in_order g" if "g \<in> set gs" for g
  proof -
    from that have "\<exists>xs ys. gs = xs @ g # ys" by (rule split_list)
    then obtain xs ys where "gs = xs @ g # ys" by blast
    with order gs(2) show ?thesis by (auto simp: in_order_append)
  qed
  have cover: "set (interval_frames p) \<subseteq> set (interval_frames (merged_span g))" if "g \<in> set gs" "p \<in> set g" for g p
    using merged_span_covers[OF ordered[OF that(1)] that(2)] by auto
  show "\<exists>m \<in> set merged. set (interval_frames p) \<subseteq> set (interval_frames m)" if "p \<in> set ordered" for p
  proof -
    from that obtain g where "g \<in> set gs" "p \<in> set g" unfolding gs(2)[symmetric] by auto
    with cover show ?thesis unfolding gs(1) by auto
  qed
  have together: "\<exists>m \<in> set merged. v \<in> set (interval_frames m) \<and> w \<in> set (interval_frames m)"
    if ev: "indices \<in> set events" "v \<in> set indices" "w \<in> set indices" and t: "touches ordered v a" "touches ordered w b" and ab: "a \<le> b"
    for indices v w a b
  proof -
    have len: "a < length (concat gs)" "b < length (concat gs)" using t by (auto simp: touches_def gs(2))
    from nth_concat_group[OF len(1)] obtain k where
      k: "k < length gs" "offset gs k \<le> a" "a < offset gs (Suc k)" "ordered ! a \<in> set (gs ! k)" unfolding gs(2) by blast
    from nth_concat_group[OF len(2)] obtain l where
      l: "l < length gs" "offset gs l \<le> b" "b < offset gs (Suc l)" "ordered ! b \<in> set (gs ! l)" unfolding gs(2) by blast
    have "k = l"
    proof (rule ccontr)
      assume "k \<noteq> l"
      moreover have "\<not> l < k" using offset_mono[of "Suc l" k gs] k(2) l(3) ab by auto
      ultimately have "offset gs (Suc k) \<le> offset gs l" by (intro offset_mono) simp
      then have end_le: "offset gs (Suc k) \<le> b" using l(2) by simp
      have "offset gs (Suc k) \<in> group_ends gs" using k(1) unfolding group_ends_def offset_def by auto
      moreover have "offset gs (Suc k) < length ordered" using end_le len(2) gs(2) by simp
      ultimately obtain i where i: "offset gs (Suc k) = Suc i" "\<not> crossed ordered events i"
        unfolding gs(4) by (auto split: if_splits)
      have "crossed ordered events i" unfolding crossed_def using ev t k(3) end_le i(1) by (metis Suc_le_eq less_Suc_eq_le)
      with i(2) show False by blast
    qed
    moreover have "v \<in> set (interval_frames (ordered ! a))" "w \<in> set (interval_frames (ordered ! b))"
      using t by (auto simp: touches_def)
    ultimately show ?thesis using cover[of "gs ! k"] k(1,4) l(4) unfolding gs(1) by (metis image_eqI list.set_map nth_mem subsetD)
  qed
  show "\<exists>m \<in> set merged. v \<in> set (interval_frames m) \<and> w \<in> set (interval_frames m)"
    if ev: "indices \<in> set events" "v \<in> set indices" "w \<in> set indices" and p: "p \<in> set ordered" "v \<in> set (interval_frames p)"
      and q: "q \<in> set ordered" "w \<in> set (interval_frames q)" for indices v w p q
  proof -
    have "\<exists>a. touches ordered v a" using p by (auto simp: touches_def in_set_conv_nth)
    then obtain a where a: "touches ordered v a" by blast
    have "\<exists>b. touches ordered w b" using q by (auto simp: touches_def in_set_conv_nth)
    then obtain b where b: "touches ordered w b" by blast
    show ?thesis
    proof (cases "a \<le> b")
      case False
      then have "b \<le> a" by simp
      from together[OF ev(1,3,2) b a this] show ?thesis by blast
    qed (use together[OF ev a b] in blast)
  qed
qed

end
