(* ===== verification/Partition_Units.thy ===== *)
theory Partition_Units
  imports Frame_Blocks
begin

text \<open>
  Units and policies of the statistical partition of a data set: \<open>mdstats/training_data/role_budget.py\<close>
  and the records at the beginning of \<open>mdstats/training_data/partition.py\<close>.

  Content digests are functions of the record \<open>digests\<close>: what the code computes with SHA-256 over the
  canonical JSON of an object is here an unknown function of that object.  Of the two floating-point
  diagnostics of a unit a field keeps whether both are finite and positive, which is all the constructor asks.
\<close>

section \<open>Roles, grades and outcomes\<close>

datatype outer_role =
  DEVELOPMENT | OUTER_MONITOR | UNCERTAINTY_CALIBRATION | LOCKED_INTERPOLATION_TEST | PURGED | EXCLUDED

datatype independence_grade =
  INDEPENDENT_REPLICA | INDEPENDENT_STRUCTURAL_REALIZATION | INDEPENDENT_THERMODYNAMIC_RUN
  | PURGED_TEMPORAL_BLOCK | SLOW_STATE_NOT_DECORRELATED | INSUFFICIENT_INDEPENDENCE

datatype feasibility_outcome =
  FULLY_SUPPORTED | SUPPORTED_WITH_TEMPORAL_BLOCKS_ONLY | CALIBRATION_DEFERRED
  | REDUCED_CROSS_VALIDATION_FOLDS | INSUFFICIENT_FOR_LOCKED_TEST | INSUFFICIENT_FOR_REQUESTED_ROLES

fun role_value :: "outer_role \<Rightarrow> string" where
  "role_value DEVELOPMENT = ''development''"
| "role_value OUTER_MONITOR = ''outer_monitor''"
| "role_value UNCERTAINTY_CALIBRATION = ''uncertainty_calibration''"
| "role_value LOCKED_INTERPOLATION_TEST = ''locked_interpolation_test''"
| "role_value PURGED = ''purged''"
| "role_value EXCLUDED = ''excluded''"

fun grade_value :: "independence_grade \<Rightarrow> string" where
  "grade_value INDEPENDENT_REPLICA = ''independent_replica''"
| "grade_value INDEPENDENT_STRUCTURAL_REALIZATION = ''independent_structural_realization''"
| "grade_value INDEPENDENT_THERMODYNAMIC_RUN = ''independent_thermodynamic_run''"
| "grade_value PURGED_TEMPORAL_BLOCK = ''purged_temporal_block''"
| "grade_value SLOW_STATE_NOT_DECORRELATED = ''slow_state_not_decorrelated''"
| "grade_value INSUFFICIENT_INDEPENDENCE = ''insufficient_independence''"

fun outcome_value :: "feasibility_outcome \<Rightarrow> string" where
  "outcome_value FULLY_SUPPORTED = ''fully_supported''"
| "outcome_value SUPPORTED_WITH_TEMPORAL_BLOCKS_ONLY = ''supported_with_temporal_blocks_only''"
| "outcome_value CALIBRATION_DEFERRED = ''calibration_deferred''"
| "outcome_value REDUCED_CROSS_VALIDATION_FOLDS = ''reduced_cross_validation_folds''"
| "outcome_value INSUFFICIENT_FOR_LOCKED_TEST = ''insufficient_for_locked_test''"
| "outcome_value INSUFFICIENT_FOR_REQUESTED_ROLES = ''insufficient_for_requested_roles''"

definition is_digest :: "string \<Rightarrow> bool" where
  "is_digest s \<longleftrightarrow> length s = 64 \<and> list_all (\<lambda>c. c \<in> set ''0123456789abcdef'') s"

definition validate_digest :: "string \<Rightarrow> string \<Rightarrow> string result" where
  "validate_digest name s =
     bindE (guardE (is_digest s)
       (TrainingDataInputError (Fmt ''{} must be a lowercase SHA-256 digest.'' [AStr name]))) (\<lambda>_. Inr s)"

section \<open>Policies\<close>

record role_budget =
  development_minimum_independent_units :: int
  outer_monitor_minimum_independent_units :: int
  calibration_minimum_independent_units :: int
  locked_interpolation_test_minimum_independent_units :: int
  cross_validation_folds :: int
  checkpoint_monitor_minimum_units_per_fold :: int
  purge_units_between_roles :: int
  allow_calibration_deferral :: bool
  allow_external_challenge_tests :: bool
  required_condition_axes :: "string list"
  budget_version :: string
  budget_schema :: string

definition role_budget_schema :: string where
  "role_budget_schema = ''mdstats.partition-role-budget-policy.v2''"

definition legacy_role_budget_schema :: string where
  "legacy_role_budget_schema = ''mdstats.partition-role-budget-policy.v1''"

definition budget_counts :: "role_budget \<Rightarrow> (string \<times> int) list" where
  "budget_counts b =
     [(''development_minimum_independent_units'', development_minimum_independent_units b),
      (''outer_monitor_minimum_independent_units'', outer_monitor_minimum_independent_units b),
      (''calibration_minimum_independent_units'', calibration_minimum_independent_units b),
      (''locked_interpolation_test_minimum_independent_units'', locked_interpolation_test_minimum_independent_units b),
      (''checkpoint_monitor_minimum_units_per_fold'', checkpoint_monitor_minimum_units_per_fold b),
      (''purge_units_between_roles'', purge_units_between_roles b)]"

definition make_role_budget :: "role_budget \<Rightarrow> role_budget result" where
  "make_role_budget b =
     bindE (mapE (\<lambda>(name, v). guardE (0 \<le> v)
       (TrainingDataInputError (Fmt ''{} must be nonnegative.'' [AStr name]))) (budget_counts b)) (\<lambda>_.
     bindE (guardE (2 \<le> cross_validation_folds b)
       (TrainingDataInputError (Text ''cross_validation_folds must be at least two.''))) (\<lambda>_.
     let axes = map strip (required_condition_axes b) in
     bindE (guardE (axes \<noteq> [] \<and> [] \<notin> set axes \<and> distinct axes)
       (TrainingDataInputError (Text ''required_condition_axes must be non-empty and unique.''))) (\<lambda>_.
     bindE (guardE (strip (budget_version b) \<noteq> [])
       (TrainingDataInputError (Text ''policy_version must be non-empty.''))) (\<lambda>_.
     bindE (guardE (budget_schema b \<in> {role_budget_schema, legacy_role_budget_schema})
       (TrainingDataInputError (Text ''Unsupported partition-role-budget schema.''))) (\<lambda>_.
     Inr (b\<lparr>required_condition_axes := axes\<rparr>))))))"

record partition_policy =
  policy_budget :: role_budget
  policy_blocks :: block_policy
  accepted_eligibility_states :: "string list"
  autocorrelation_observables :: "string list"
  merge_protected_event_windows :: bool
  require_condition_coverage_in_outer_roles :: bool
  allow_global_role_fallback :: bool
  minimum_units_per_condition_for_full_outer_roles :: int
  cross_validation_seed :: int
  partition_policy_version :: string
  partition_policy_schema :: string

definition make_partition_policy :: "partition_policy \<Rightarrow> partition_policy result" where
  "make_partition_policy p =
     bindE (guardE (accepted_eligibility_states p \<noteq> [] \<and> distinct (accepted_eligibility_states p))
       (TrainingDataInputError (Text ''accepted_eligibility_states must be non-empty and unique.''))) (\<lambda>_.
     bindE (guardE (set (accepted_eligibility_states p) \<subseteq> {''eligible'', ''ineligible'', ''unresolved''})
       (TrainingDataInputError (Text ''Unknown accepted eligibility state.''))) (\<lambda>_.
     let observables = map strip (autocorrelation_observables p) in
     bindE (guardE (observables \<noteq> [] \<and> [] \<notin> set observables \<and> distinct observables)
       (TrainingDataInputError (Text ''autocorrelation_observables must be non-empty and unique.''))) (\<lambda>_.
     bindE (guardE (1 \<le> minimum_units_per_condition_for_full_outer_roles p)
       (TrainingDataInputError (Text ''minimum_units_per_condition_for_full_outer_roles must be positive.''))) (\<lambda>_.
     bindE (guardE (0 \<le> cross_validation_seed p)
       (TrainingDataInputError (Text ''cross_validation_seed must be nonnegative.''))) (\<lambda>_.
     bindE (guardE (strip (partition_policy_version p) \<noteq> [])
       (TrainingDataInputError (Text ''policy_version must be non-empty.''))) (\<lambda>_.
     bindE (guardE (partition_policy_schema p \<in> {''mdstats.mlff-partition-policy.v2'', ''mdstats.mlff-partition-policy.v1''})
       (TrainingDataInputError (Text ''Unsupported partition-policy schema.''))) (\<lambda>_.
     Inr (p\<lparr>autocorrelation_observables := observables\<rparr>))))))))"

section \<open>Units\<close>

text \<open>
  Of the two floating-point diagnostics of a unit, the autocorrelation time and the effective sample count,
  \<open>diagnostics_finite_positive\<close> tells what is checked of them.
\<close>

record condition_key =
  condition_domain :: string
  reduced_formula :: string
  temperature_condition :: string
  strain_class :: string
  regime :: string
  user_labels :: "(string \<times> string) list"

definition make_condition_key :: "condition_key \<Rightarrow> condition_key result" where
  "make_condition_key c =
     bindE (mapE (\<lambda>(name, v). guardE (strip v \<noteq> [])
       (TrainingDataInputError (Fmt ''{} must be non-empty.'' [AStr name])))
         [(''label_domain_id'', condition_domain c), (''reduced_formula'', reduced_formula c),
          (''temperature_condition'', temperature_condition c), (''strain_class'', strain_class c),
          (''regime'', regime c)]) (\<lambda>_.
     let labels = sort (user_labels c) in
     bindE (guardE (distinct (map fst labels))
       (TrainingDataInputError (Text ''Condition user-label keys must be unique.''))) (\<lambda>_.
     Inr (c\<lparr>user_labels := labels\<rparr>)))"

record partition_unit =
  unit_id :: string
  run_id :: string
  unit_domain :: string
  unit_condition :: condition_key
  source_frame_start :: int
  source_frame_stop :: int
  frame_uids :: "string list"
  block_plan_signature :: string
  event_ids :: "string list"
  contains_protected_event_frames :: bool
  diagnostics_finite_positive :: bool
  replica_id :: "string option"
  structural_realization_id :: "string option"
  reference_group :: "string option"
  unit_grade :: independence_grade
  independence_evidence_codes :: "string list"

definition make_partition_unit :: "partition_unit \<Rightarrow> partition_unit result" where
  "make_partition_unit u =
     bindE (validate_digest ''unit_id'' (unit_id u)) (\<lambda>_.
     bindE (validate_digest ''block_plan_signature'' (block_plan_signature u)) (\<lambda>_.
     bindE (guardE (strip (run_id u) \<noteq> [] \<and> unit_domain u = condition_domain (unit_condition u))
       (TrainingDataInputError (Text ''Partition-unit identifiers are inconsistent.''))) (\<lambda>_.
     bindE (guardE (0 \<le> source_frame_start u \<and> source_frame_start u < source_frame_stop u)
       (TrainingDataInputError (Text ''Partition-unit interval is invalid.''))) (\<lambda>_.
     bindE (guardE (frame_uids u \<noteq> [] \<and> distinct (frame_uids u))
       (TrainingDataInputError (Text ''Partition-unit frame UIDs must be non-empty and unique.''))) (\<lambda>_.
     bindE (mapE (validate_digest ''frame_uid'') (frame_uids u)) (\<lambda>_.
     let events = sorted_set (event_ids u) in
     bindE (mapE (validate_digest ''event_id'') events) (\<lambda>_.
     bindE (guardE (diagnostics_finite_positive u)
       (TrainingDataInputError (Text ''Partition-unit sampling diagnostics must be finite and positive.''))) (\<lambda>_.
     Inr (u\<lparr>event_ids := events, independence_evidence_codes := sorted_set (independence_evidence_codes u)\<rparr>)))))))))"

section \<open>The catalog of units\<close>

record unit_catalog =
  dataset_id :: string
  source_catalog_digest :: string
  frame_catalog_digest :: string
  data4_bundle_digest :: string
  catalog_policy_digest :: string
  catalog_units :: "partition_unit list"
  run_block_plan_signatures :: "(string \<times> string) list"

text \<open>What the code computes with \<open>digest\<close>.\<close>

record digests =
  condition_id_of :: "condition_key \<Rightarrow> string"
  policy_digest_of :: "partition_policy \<Rightarrow> string"
  catalog_digest_of :: "unit_catalog \<Rightarrow> string"

definition condition_id :: "('z) digests_scheme \<Rightarrow> partition_unit \<Rightarrow> string" where
  "condition_id D u = condition_id_of D (unit_condition u)"

definition make_unit_catalog :: "('z) digests_scheme \<Rightarrow> unit_catalog \<Rightarrow> unit_catalog result" where
  "make_unit_catalog D c =
     bindE (mapE (\<lambda>(name, v). validate_digest name v)
       [(''source_catalog_digest'', source_catalog_digest c), (''frame_catalog_digest'', frame_catalog_digest c),
        (''data4_bundle_digest'', data4_bundle_digest c), (''policy_digest'', catalog_policy_digest c)]) (\<lambda>_.
     let us = sort_key (\<lambda>u. (unit_domain u, condition_id D u, run_id u, source_frame_start u)) (catalog_units c) in
     bindE (guardE (us \<noteq> [] \<and> distinct (map unit_id us))
       (TrainingDataInputError (Text ''Partition units must be non-empty with unique IDs.''))) (\<lambda>_.
     bindE (guardE (distinct (concat (map frame_uids us)))
       (TrainingDataInputError (Text ''Partition units must not overlap in frame membership.''))) (\<lambda>_.
     bindE (mapE (\<lambda>(run, signature). bindE (validate_digest ''block_plan_signature'' signature) (\<lambda>_.
       Inr (run, signature))) (run_block_plan_signatures c)) (\<lambda>plans.
     bindE (guardE (distinct (map fst (sort plans)))
       (TrainingDataInputError (Text ''Run block-plan signatures must be unique.''))) (\<lambda>_.
     Inr (c\<lparr>catalog_units := us, run_block_plan_signatures := sort plans\<rparr>))))))"

definition domain_ids :: "unit_catalog \<Rightarrow> string list" where
  "domain_ids c = sorted_set (map unit_domain (catalog_units c))"

definition for_domain :: "unit_catalog \<Rightarrow> string \<Rightarrow> partition_unit list" where
  "for_domain c domain = filter (\<lambda>u. unit_domain u = domain) (catalog_units c)"

definition catalog_unit :: "unit_catalog \<Rightarrow> string \<Rightarrow> partition_unit result" where
  "catalog_unit c uid = lookupE (dict_of (map (\<lambda>u. (unit_id u, u)) (catalog_units c))) uid"

definition unit_for_frame :: "unit_catalog \<Rightarrow> string \<Rightarrow> partition_unit result" where
  "unit_for_frame c uid =
     lookupE (dict_of (concat (map (\<lambda>u. map (\<lambda>f. (f, u)) (frame_uids u)) (catalog_units c)))) uid"

end
