(* ===== verification/Unit_Builder.thy ===== *)
theory Unit_Builder
  imports Unit_Intervals Partition_Units
begin

text \<open>
  Building the partition units (\<open>build_partition_unit_catalog\<close> of \<open>mdstats/training_data/partition.py\<close>):
  the accepted frames of each run are cut into blocks, split by condition, merged under protected events,
  and each remaining interval becomes one unit with its frames, events and independence grade.

  Of the catalogs that the code takes, the model keeps the fields it reads.  What it computes from floating
  point numbers is a parameter (\<open>builder_env\<close>): the autocorrelation times of a run and their scaling to a block length, the validity of the sampling
  diagnostics, the answer of the profile extensions, and the digests.
\<close>

section \<open>Inputs\<close>

record frame_info =
  info_uid :: string
  info_run :: string
  info_index :: int
  info_domain :: string
  info_state :: string
  temperature_label :: string
  strain_label :: string

record run_source =
  source_run :: string
  source_domain :: string
  source_formula :: string
  source_assertions :: "(string \<times> string) list"
  production_status :: "string option"
  source_replica :: "string option"
  source_group :: "string option"

record event_info =
  event_id :: string
  event_run :: string
  protected_uids :: "string list"

record unit_inputs =
  input_dataset :: string
  input_sources :: "run_source list"
  input_frames :: "frame_info list"
  input_events :: "event_info list"
  input_source_digest :: string
  input_frame_digest :: string
  input_bundle_digest :: string
  bundle_source_digest :: string
  bundle_frame_digest :: string
  bundle_profiled :: bool
  regime_by_frame :: "(string \<times> string) list option"
  labels_by_frame :: "(string \<times> (string \<times> string) list) list option"

record builder_env = digests +
  autocorrelation_times_of :: "string \<Rightarrow> (string \<times> rat) list result"
  scaled_length_of :: "rat option \<Rightarrow> rat \<Rightarrow> int"
  diagnostics_of :: "string \<Rightarrow> nat \<Rightarrow> bool"
  state_changed_of :: "string list \<Rightarrow> bool"
  block_policy_digest_of :: "block_policy \<Rightarrow> string"
  block_plan_digest_of :: "block_plan \<Rightarrow> string"
  unit_digest_of :: "string \<Rightarrow> string list \<Rightarrow> string \<Rightarrow> string \<Rightarrow> string"

definition run_source_of :: "unit_inputs \<Rightarrow> string \<Rightarrow> run_source result" where
  "run_source_of inputs run = lookupE (dict_of (map (\<lambda>s. (source_run s, s)) (input_sources inputs))) run"

definition frame_of :: "unit_inputs \<Rightarrow> string \<Rightarrow> frame_info result" where
  "frame_of inputs uid = lookupE (dict_of (map (\<lambda>f. (info_uid f, f)) (input_frames inputs))) uid"

definition accepted :: "partition_policy \<Rightarrow> frame_info \<Rightarrow> bool" where
  "accepted active f \<longleftrightarrow> info_state f \<in> set (accepted_eligibility_states active)"

section \<open>Conditions\<close>

definition declared_regime :: "run_source \<Rightarrow> string" where
  "declared_regime source =
     (let status = (case production_status source of None \<Rightarrow> ''unresolved'' | Some p \<Rightarrow> if p = [] then ''unresolved'' else p) in
      case map_of (dict_of (source_assertions source)) ''regime'' of
        None \<Rightarrow> status
      | Some r \<Rightarrow> if strip r \<noteq> [] then strip r else status)"

definition regime_label :: "unit_inputs \<Rightarrow> run_source \<Rightarrow> string \<Rightarrow> string" where
  "regime_label inputs source uid =
     (case Option.bind (regime_by_frame inputs) (\<lambda>override. map_of override uid) of
        None \<Rightarrow> declared_regime source
      | Some chosen \<Rightarrow> if strip chosen \<noteq> [] then strip chosen else declared_regime source)"

definition condition_for_frame :: "unit_inputs \<Rightarrow> run_source \<Rightarrow> frame_info \<Rightarrow> condition_key result" where
  "condition_for_frame inputs source f =
     make_condition_key \<lparr>condition_domain = info_domain f, reduced_formula = source_formula source,
       temperature_condition = temperature_label f, strain_class = strain_label f,
       regime = regime_label inputs source (info_uid f),
       user_labels = (case Option.bind (labels_by_frame inputs) (\<lambda>labels. map_of labels (info_uid f)) of
         None \<Rightarrow> [] | Some labels \<Rightarrow> labels)\<rparr>"

definition frame_conditions :: "partition_policy \<Rightarrow> unit_inputs \<Rightarrow> (string \<times> condition_key) list result" where
  "frame_conditions active inputs =
     foldE (\<lambda>f conditions.
       if accepted active f then
         bindE (run_source_of inputs (info_run f)) (\<lambda>source.
         bindE (condition_for_frame inputs source f) (\<lambda>key. Inr (AList.update (info_uid f) key conditions)))
       else Inr conditions) (input_frames inputs) []"

definition realization_of :: "run_source \<Rightarrow> string option" where
  "realization_of source =
     (case map_of (dict_of (source_assertions source)) ''structural_realization_id'' of
        None \<Rightarrow> None | Some r \<Rightarrow> if strip r \<noteq> [] then Some (strip r) else None)"

text \<open>The runs, replicas or realizations in which a condition occurs.\<close>

definition condition_support ::
  "('z) builder_env_scheme \<Rightarrow> unit_inputs \<Rightarrow> (string \<times> condition_key) list \<Rightarrow> (run_source \<Rightarrow> string option) \<Rightarrow> string
   \<Rightarrow> string list result" where
  "condition_support E inputs conditions pick cid =
     bindE (mapE (\<lambda>(uid, key). bindE (frame_of inputs uid) (\<lambda>f. bindE (run_source_of inputs (info_run f)) (\<lambda>source.
         Inr (if condition_id_of E key = cid then pick source else None)))) conditions)
       (\<lambda>picked. Inr (remdups (List.map_filter id picked)))"

definition grade_for :: "run_source \<Rightarrow> nat \<Rightarrow> nat \<Rightarrow> nat \<Rightarrow> bool \<Rightarrow> bool \<Rightarrow> nat \<Rightarrow> independence_grade \<times> string" where
  "grade_for source replicas realizations runs profiled state_changed intervals =
     (if source_replica source \<noteq> None \<and> 2 \<le> replicas
      then (INDEPENDENT_REPLICA, ''multiple_replica_ids_for_exact_condition'')
      else if realization_of source \<noteq> None \<and> 2 \<le> realizations
      then (INDEPENDENT_STRUCTURAL_REALIZATION, ''multiple_structural_realizations_for_exact_condition'')
      else if 2 \<le> runs then (INDEPENDENT_THERMODYNAMIC_RUN, ''multiple_source_runs_for_composition_domain'')
      else if profiled \<and> \<not> state_changed
      then (SLOW_STATE_NOT_DECORRELATED, ''single_run_no_observed_profile_state_transition'')
      else if 2 \<le> intervals then (PURGED_TEMPORAL_BLOCK, ''single_run_autocorrelation_aware_temporal_block'')
      else (INSUFFICIENT_INDEPENDENCE, ''single_indivisible_unit''))"

section \<open>The intervals of a run\<close>

definition events_of_run :: "unit_inputs \<Rightarrow> string \<Rightarrow> event_info list" where
  "events_of_run inputs run = filter (\<lambda>e. event_run e = run) (input_events inputs)"

definition eligible_frames :: "partition_policy \<Rightarrow> unit_inputs \<Rightarrow> string \<Rightarrow> frame_info list" where
  "eligible_frames active inputs run =
     filter (accepted active) (sort_key info_index (filter (\<lambda>f. info_run f = run) (input_frames inputs)))"

definition condition_by_index ::
  "('z) builder_env_scheme \<Rightarrow> (string \<times> condition_key) list \<Rightarrow> frame_info list \<Rightarrow> (int \<times> string) list result" where
  "condition_by_index E conditions eligible =
     bindE (mapE (\<lambda>f. bindE (lookupE conditions (info_uid f)) (\<lambda>key. Inr (info_index f, condition_id_of E key))) eligible)
       (\<lambda>pairs. Inr (dict_of pairs))"

definition event_indices :: "unit_inputs \<Rightarrow> (int \<times> string) list \<Rightarrow> event_info \<Rightarrow> int list result" where
  "event_indices inputs by_index e =
     bindE (mapE (\<lambda>uid. bindE (frame_of inputs uid) (\<lambda>f. Inr (info_index f))) (protected_uids e)) (\<lambda>indices.
     bindE (guardE (length (remdups (List.map_filter (map_of by_index) indices)) \<le> 1)
       (TrainingDataInputError (Text ''A protected event window crosses a declared condition boundary.''))) (\<lambda>_.
     Inr indices))"

definition run_intervals ::
  "partition_policy \<Rightarrow> unit_inputs \<Rightarrow> string \<Rightarrow> (int \<times> string) list \<Rightarrow> block_plan \<Rightarrow> frame_interval list result" where
  "run_intervals active inputs run by_index plan =
     bindE (split_intervals_by_condition (block_intervals plan) by_index) (\<lambda>pieces.
     if merge_protected_event_windows active then
       bindE (mapE (event_indices inputs by_index) (events_of_run inputs run)) (\<lambda>events.
       merge_intervals_for_events pieces events)
     else Inr pieces)"

section \<open>Units\<close>

text \<open>The events of a unit are found through an index from frames to positions of events.\<close>

definition ordinals_by_frame :: "event_info list \<Rightarrow> (string \<times> nat list) list" where
  "ordinals_by_frame run_events =
     fold (\<lambda>(ordinal, e) d. fold (\<lambda>uid. append_at uid ordinal) (protected_uids e) d) (List.enumerate 0 run_events) []"

definition matched_events :: "event_info list \<Rightarrow> frame_info list \<Rightarrow> event_info list" where
  "matched_events run_events members =
     map ((!) run_events) (sorted_set (concat (map (\<lambda>f. case map_of (ordinals_by_frame run_events) (info_uid f) of
       None \<Rightarrow> [] | Some ordinals \<Rightarrow> ordinals) members)))"

text \<open>\<open>eligible[left:right]\<close> for the bounds that \<open>numpy.searchsorted\<close> finds in the sorted indices.\<close>

definition interval_members :: "frame_info list \<Rightarrow> frame_interval \<Rightarrow> frame_info list" where
  "interval_members eligible i =
     (let left = length (takeWhile (\<lambda>f. info_index f < frame_start i) eligible);
          right = length (takeWhile (\<lambda>f. info_index f < frame_stop i) eligible) in
      take (right - left) (drop left eligible))"

definition unit_record ::
  "('z) builder_env_scheme \<Rightarrow> unit_inputs \<Rightarrow> run_source \<Rightarrow> block_plan \<Rightarrow> frame_info list \<Rightarrow> condition_key
   \<Rightarrow> independence_grade \<times> string \<Rightarrow> frame_interval \<Rightarrow> partition_unit" where
  "unit_record E inputs source plan members key = (\<lambda>(grade, evidence) i.
     let run = source_run source; uids = map info_uid members; signature = block_plan_digest_of E plan;
         events = matched_events (events_of_run inputs run) members in
     \<lparr>unit_id = unit_digest_of E run uids (condition_id_of E key) signature, run_id = run,
      unit_domain = source_domain source, unit_condition = key,
      source_frame_start = frame_start i, source_frame_stop = frame_stop i, frame_uids = uids,
      block_plan_signature = signature, event_ids = map event_id events,
      contains_protected_event_frames = (events \<noteq> []),
      diagnostics_finite_positive = diagnostics_of E run (length uids),
      replica_id = source_replica source, structural_realization_id = realization_of source,
      reference_group = source_group source, unit_grade = grade, independence_evidence_codes = [evidence]\<rparr>)"

definition build_unit ::
  "('z) builder_env_scheme \<Rightarrow> unit_inputs \<Rightarrow> (string \<times> condition_key) list \<Rightarrow> run_source \<Rightarrow> block_plan \<Rightarrow> frame_info list
   \<Rightarrow> nat \<Rightarrow> frame_interval \<Rightarrow> partition_unit list result" where
  "build_unit E inputs conditions source plan eligible intervals i =
     (let members = interval_members eligible i in
      if members = [] then Inr []
      else
        bindE (mapE (\<lambda>f. lookupE conditions (info_uid f)) members) (\<lambda>keys.
        bindE (guardE (length (remdups keys) = 1) (TrainingDataInputError (Text
          ''A partition unit crosses a condition boundary; provide a regime override or smaller block policy.''))) (\<lambda>_.
        let cid = condition_id_of E (hd keys) in
        bindE (condition_support E inputs conditions source_replica cid) (\<lambda>replicas.
        bindE (condition_support E inputs conditions realization_of cid) (\<lambda>realizations.
        bindE (condition_support E inputs conditions (\<lambda>s. Some (source_run s)) cid) (\<lambda>runs.
        bindE (make_partition_unit (unit_record E inputs source plan members (hd keys)
          (grade_for source (length replicas) (length realizations) (length runs) (bundle_profiled inputs)
            (state_changed_of E (map info_uid eligible)) intervals) i)) (\<lambda>u.
        Inr [u])))))))"

definition build_run ::
  "('z) builder_env_scheme \<Rightarrow> partition_policy \<Rightarrow> unit_inputs \<Rightarrow> (string \<times> condition_key) list \<Rightarrow> run_source
   \<Rightarrow> (partition_unit list \<times> (string \<times> string) list) result" where
  "build_run E active inputs conditions source =
     (let run = source_run source; eligible = eligible_frames active inputs run in
      if eligible = [] then Inr ([], [])
      else
        bindE (build_complete_frame_block_plan (block_policy_digest_of E) (scaled_length_of E) (policy_blocks active)
          (autocorrelation_times_of E run) (map info_index eligible)) (\<lambda>plan.
        bindE (condition_by_index E conditions eligible) (\<lambda>by_index.
        bindE (run_intervals active inputs run by_index plan) (\<lambda>intervals.
        bindE (mapE (build_unit E inputs conditions source plan eligible (length intervals)) intervals) (\<lambda>units.
        Inr (concat units, [(run, block_plan_digest_of E plan)]))))))"

definition build_partition_unit_catalog ::
  "('z) builder_env_scheme \<Rightarrow> partition_policy \<Rightarrow> unit_inputs \<Rightarrow> unit_catalog result" where
  "build_partition_unit_catalog E active inputs =
     bindE (guardE (input_source_digest inputs = bundle_source_digest inputs)
       (TrainingDataInputError (Text ''DATA5 source catalog does not match DATA4.''))) (\<lambda>_.
     bindE (guardE (input_frame_digest inputs = bundle_frame_digest inputs)
       (TrainingDataInputError (Text ''DATA5 frame catalog does not match DATA4.''))) (\<lambda>_.
     bindE (frame_conditions active inputs) (\<lambda>conditions.
     bindE (mapE (build_run E active inputs conditions) (input_sources inputs)) (\<lambda>built.
     bindE (guardE (concat (map fst built) \<noteq> [])
       (TrainingDataInputError (Text ''No eligible frames remain for DATA5 partitioning.''))) (\<lambda>_.
     make_unit_catalog E \<lparr>dataset_id = input_dataset inputs, source_catalog_digest = input_source_digest inputs,
       frame_catalog_digest = input_frame_digest inputs, data4_bundle_digest = input_bundle_digest inputs,
       catalog_policy_digest = policy_digest_of E active, catalog_units = concat (map fst built),
       run_block_plan_signatures = concat (map snd built)\<rparr>)))))"

section \<open>Conditions of the accepted frames\<close>

definition accepted_frames :: "partition_policy \<Rightarrow> unit_inputs \<Rightarrow> frame_info list" where
  "accepted_frames active inputs = filter (accepted active) (input_frames inputs)"

definition frame_key :: "unit_inputs \<Rightarrow> frame_info \<Rightarrow> condition_key \<Rightarrow> bool" where
  "frame_key inputs f key \<longleftrightarrow> (\<exists>source. run_source_of inputs (info_run f) = Inr source \<and> condition_for_frame inputs source f = Inr key)"

lemma frame_conditions_exact:
  assumes "frame_conditions active inputs = Inr conditions" and "distinct (map info_uid (input_frames inputs))"
  shows "fst ` set conditions = info_uid ` set (accepted_frames active inputs)"
    and "\<And>f. f \<in> set (accepted_frames active inputs) \<Longrightarrow> \<exists>key. map_of conditions (info_uid f) = Some key \<and> frame_key inputs f key"
proof -
  have loop: "fst ` set conditions = info_uid ` set (filter (accepted active) fs)
      \<and> (\<forall>f \<in> set (filter (accepted active) fs). \<exists>key. map_of conditions (info_uid f) = Some key \<and> frame_key inputs f key)"
    if "foldE (\<lambda>f conditions. if accepted active f then
         bindE (run_source_of inputs (info_run f)) (\<lambda>source.
         bindE (condition_for_frame inputs source f) (\<lambda>key. Inr (AList.update (info_uid f) key conditions)))
       else Inr conditions) fs [] = Inr conditions" "distinct (map info_uid fs)" for fs conditions
    using that
  proof (induction fs arbitrary: conditions rule: rev_induct)
    case (snoc f fs)
    show ?case
    proof (cases "accepted active f")
      case True
      with snoc.prems(1) obtain before source key where
        before: "foldE (\<lambda>f conditions. if accepted active f then
         bindE (run_source_of inputs (info_run f)) (\<lambda>source.
         bindE (condition_for_frame inputs source f) (\<lambda>key. Inr (AList.update (info_uid f) key conditions)))
       else Inr conditions) fs [] = Inr before"
        and key: "run_source_of inputs (info_run f) = Inr source" "condition_for_frame inputs source f = Inr key"
        and step: "conditions = AList.update (info_uid f) key before"
        by (auto simp: result_simps)
      have IH: "fst ` set before = info_uid ` set (filter (accepted active) fs)"
        "\<forall>f \<in> set (filter (accepted active) fs). \<exists>key. map_of before (info_uid f) = Some key \<and> frame_key inputs f key"
        using snoc.IH[OF before] snoc.prems(2) by simp_all
      have "info_uid f \<notin> info_uid ` set fs" using snoc.prems(2) by simp
      then have fresh: "info_uid g \<noteq> info_uid f" if "g \<in> set fs" for g using that by (metis imageI)
      have "\<exists>k. map_of conditions (info_uid g) = Some k \<and> frame_key inputs g k" if "g \<in> set (filter (accepted active) fs)" for g
        using IH(2) fresh[of g] that unfolding step by simp
      moreover have "frame_key inputs f key" using key by (auto simp: frame_key_def)
      ultimately show ?thesis using IH(1) True by (auto simp: step)
    next
      case False
      with snoc show ?thesis by (auto simp: result_simps)
    qed
  qed simp
  note exact = loop[OF assms(1)[unfolded frame_conditions_def] assms(2)]
  show "fst ` set conditions = info_uid ` set (accepted_frames active inputs)" using exact by (simp add: accepted_frames_def)
  show "\<And>f. f \<in> set (accepted_frames active inputs) \<Longrightarrow> \<exists>key. map_of conditions (info_uid f) = Some key \<and> frame_key inputs f key"
    using exact by (simp add: accepted_frames_def)
qed

section \<open>Members of an interval\<close>

lemma takeWhile_sorted_length:
  assumes "sorted_wrt (\<lambda>f g. info_index f < info_index g) fs"
  shows "takeWhile (\<lambda>f. info_index f < n) fs = filter (\<lambda>f. info_index f < n) fs"
  using assms
proof (induction fs)
  case (Cons f fs)
  then have "info_index f < info_index g" if "g \<in> set fs" for g using that by simp
  then have "filter (\<lambda>g. info_index g < n) fs = []" if "\<not> info_index f < n" using that by (force simp: filter_empty_conv)
  with Cons show ?case by auto
qed simp

lemma dropWhile_sorted_filter:
  assumes "sorted_wrt (\<lambda>f g. info_index f < info_index g) fs"
  shows "dropWhile (\<lambda>f. info_index f < n) fs = filter (\<lambda>f. n \<le> info_index f) fs"
  using assms
proof (induction fs)
  case (Cons f fs)
  then have "info_index f < info_index g" if "g \<in> set fs" for g using that by simp
  then have "filter (\<lambda>g. n \<le> info_index g) fs = fs" if "\<not> info_index f < n" using that by (force simp: filter_id_conv)
  with Cons show ?case by auto
qed simp

lemma interval_members_filter:
  assumes sorted: "sorted_wrt (\<lambda>f g. info_index f < info_index g) eligible" and "frame_start i \<le> frame_stop i"
  shows "interval_members eligible i = filter (\<lambda>f. frame_start i \<le> info_index f \<and> info_index f < frame_stop i) eligible"
proof -
  define left right where "left = length (takeWhile (\<lambda>f. info_index f < frame_start i) eligible)"
    and "right = length (takeWhile (\<lambda>f. info_index f < frame_stop i) eligible)"
  have "take (right - left) (drop left eligible) = drop left (take right eligible)" by (simp add: drop_take)
  also have "take right eligible = filter (\<lambda>f. info_index f < frame_stop i) eligible"
    unfolding right_def using takeWhile_sorted_length[OF sorted] by (metis takeWhile_eq_take)
  also have "drop left (filter (\<lambda>f. info_index f < frame_stop i) eligible)
      = dropWhile (\<lambda>f. info_index f < frame_start i) (filter (\<lambda>f. info_index f < frame_stop i) eligible)"
  proof -
    have "takeWhile (\<lambda>f. info_index f < frame_start i) (filter (\<lambda>f. info_index f < frame_stop i) eligible)
        = filter (\<lambda>f. info_index f < frame_start i) (filter (\<lambda>f. info_index f < frame_stop i) eligible)"
      by (rule takeWhile_sorted_length[OF sorted_wrt_filter[OF sorted]])
    also have "\<dots> = takeWhile (\<lambda>f. info_index f < frame_start i) eligible"
      unfolding takeWhile_sorted_length[OF sorted] using assms(2) by (simp add: filter_filter) (rule filter_cong, auto)
    finally show ?thesis unfolding left_def by (metis dropWhile_eq_drop)
  qed
  also have "\<dots> = filter (\<lambda>f. frame_start i \<le> info_index f) (filter (\<lambda>f. info_index f < frame_stop i) eligible)"
    by (rule dropWhile_sorted_filter[OF sorted_wrt_filter[OF sorted]])
  finally show ?thesis by (simp add: interval_members_def left_def right_def Let_def conj_commute)
qed

section \<open>Events of a unit\<close>

lemma ordinals_by_frame_exact:
  "set (case map_of (ordinals_by_frame run_events) uid of None \<Rightarrow> [] | Some ks \<Rightarrow> ks)
    = {k. k < length run_events \<and> uid \<in> set (protected_uids (run_events ! k))}"
proof -
  define get where "get d = set (case map_of d uid of None \<Rightarrow> [] | Some ks \<Rightarrow> ks)" for d :: "(string \<times> nat list) list"
  have one: "get (append_at u k d) = (if u = uid then insert k (get d) else get d)" for u k d
    by (auto simp: get_def append_at_def split: option.splits)
  have many: "get (fold (\<lambda>u. append_at u k) us d) = (if uid \<in> set us then insert k (get d) else get d)" for us k d
    by (induction us arbitrary: d) (auto simp: one)
  have "get (fold (\<lambda>(k, e) d. fold (\<lambda>u. append_at u k) (protected_uids e) d) (List.enumerate n es) d)
      = get d \<union> {n + k |k. k < length es \<and> uid \<in> set (protected_uids (es ! k))}" for n es d
  proof (induction es arbitrary: n d)
    case (Cons e es)
    have "{n + k |k. k < length (e # es) \<and> uid \<in> set (protected_uids ((e # es) ! k))}
        = (if uid \<in> set (protected_uids e) then {n} else {})
          \<union> {Suc n + k |k. k < length es \<and> uid \<in> set (protected_uids (es ! k))}"
      by (auto simp: less_Suc_eq_0_disj)
    then show ?case using Cons[of "Suc n"] by (auto simp: many)
  qed simp
  from this[of 0 run_events "[]"] show ?thesis by (simp add: ordinals_by_frame_def get_def)
qed

lemma matched_events_exact:
  "matched_events run_events members = map ((!) run_events)
     (filter (\<lambda>k. \<exists>f \<in> set members. info_uid f \<in> set (protected_uids (run_events ! k))) [0..<length run_events])"
proof -
  define hits where "hits = concat (map (\<lambda>f. case map_of (ordinals_by_frame run_events) (info_uid f) of
       None \<Rightarrow> [] | Some ks \<Rightarrow> ks) members)"
  have "set hits = (\<Union>f \<in> set members. {k. k < length run_events \<and> info_uid f \<in> set (protected_uids (run_events ! k))})"
    unfolding hits_def set_concat set_map image_image ordinals_by_frame_exact by simp
  also have "\<dots> = set (filter (\<lambda>k. \<exists>f \<in> set members. info_uid f \<in> set (protected_uids (run_events ! k))) [0..<length run_events])"
    by auto
  finally have "sorted_set hits = filter (\<lambda>k. \<exists>f \<in> set members. info_uid f \<in> set (protected_uids (run_events ! k))) [0..<length run_events]"
    by (intro sorted_distinct_set_unique) (simp_all add: sorted_wrt_filter)
  then show ?thesis by (simp add: matched_events_def hits_def)
qed

section \<open>The intervals of a run hold its eligible frames\<close>

lemma in_order_frames:
  assumes "\<forall>b \<in> set bs. frame_start b < frame_stop b" and "sorted_wrt (<) (concat (map interval_frames bs))"
    and "\<forall>x \<in> set (concat (map interval_frames bs)). 0 \<le> x"
  shows "in_order bs"
  using assms
proof (induction bs)
  case (Cons b bs)
  then have b: "frame_start b < frame_stop b" by simp
  then have hd: "frame_start b \<in> set (interval_frames b)" "frame_stop b - 1 \<in> set (interval_frames b)" by simp_all
  have "0 \<le> frame_start b" using Cons.prems(3) hd(1) by (simp del: interval_frames_simps)
  moreover have "frame_stop b \<le> frame_start c" if c: "c \<in> set bs" for c
  proof -
    have "frame_start c \<in> set (concat (map interval_frames bs))" using Cons.prems(1) c by auto
    then have "frame_stop b - 1 < frame_start c"
      using Cons.prems(2) hd(2) unfolding list.map concat.simps sorted_wrt_append by blast
    then show ?thesis by simp
  qed
  moreover have "in_order bs" using Cons by (simp add: sorted_wrt_append)
  ultimately show ?case using b by (simp add: in_order_def proper_def)
qed (simp add: in_order_def)

lemma built_plan:
  assumes policy: "make_block_policy active = Inr p"
    and build: "build_complete_frame_block_plan signature_of scaled active observed indices = Inr plan"
  shows "sorted_wrt (<) indices" and "in_order (block_intervals plan)"
    and "concat (map interval_frames (block_intervals plan)) = indices"
proof -
  have usable: "usable_indices indices"
    by (rule ccontr) (use block_plan_refused[of indices signature_of scaled active observed] build in auto)
  then show strict: "sorted_wrt (<) indices" by (simp add: usable_indices_def)
  note plan = block_plan_shape[OF policy usable build]
  from plan obtain bss where bss: "block_intervals plan = concat bss"
    "list_all2 (balanced_blocks (resolved_block_length_frames plan)) (contiguous_runs plan) bss"
    and runs: "maximal_runs indices (contiguous_runs plan)" by (auto simp: plan_blocks_def)
  have "map (\<lambda>bs. concat (map interval_frames bs)) bss = map interval_frames (contiguous_runs plan)"
    using bss(2) by (induction rule: list_all2_induct) (simp_all add: balanced_blocks_def)
  then show cover: "concat (map interval_frames (block_intervals plan)) = indices"
    using runs unfolding bss(1) concat_map_concat by (simp add: maximal_runs_def)
  have "frame_start b < frame_stop b" if b: "b \<in> set (block_intervals plan)" for b
  proof -
    from b bss obtain run bs where "run \<in> set (contiguous_runs plan)" "b \<in> set bs"
      "balanced_blocks (resolved_block_length_frames plan) run bs"
      unfolding list_all2_conv_all_nth by (auto simp: in_set_conv_nth) (metis nth_mem)
    moreover from this have "frame_start run < frame_stop run" using runs by (auto simp: maximal_runs_def)
    ultimately show ?thesis using plan(2)
      by (cases "frame_count run \<le> resolved_block_length_frames plan") (fastforce simp: balanced_blocks_def frame_count_def)+
  qed
  then show "in_order (block_intervals plan)"
    using strict usable by (intro in_order_frames) (simp_all only: cover usable_indices_def, simp_all)
qed

lemma list_all2_pick:
  assumes "list_all2 P xs ys" and "x \<in> set xs"
  shows "\<exists>y \<in> set ys. P x y"
proof -
  obtain i where "i < length xs" "x = xs ! i" using assms(2) by (auto simp: in_set_conv_nth)
  with assms(1) have "P x (ys ! i)" "ys ! i \<in> set ys" by (simp_all add: list_all2_conv_all_nth)
  then show ?thesis by blast
qed

lemma mapE_pick: "mapE f xs = Inr ys \<Longrightarrow> x \<in> set xs \<Longrightarrow> \<exists>y \<in> set ys. f x = Inr y"
  unfolding mapE_Inr_iff by (rule list_all2_pick)

lemma condition_by_index_exact:
  assumes index: "condition_by_index E conditions eligible = Inr by_index"
    and sorted: "sorted_wrt (<) (map info_index eligible)"
  shows "dom (map_of by_index) = info_index ` set eligible"
    and "\<And>f. f \<in> set eligible \<Longrightarrow> \<exists>key. map_of conditions (info_uid f) = Some key \<and> map_of by_index (info_index f) = Some (condition_id_of E key)"
proof -
  from index obtain pairs where
    pairs: "mapE (\<lambda>f. bindE (lookupE conditions (info_uid f)) (\<lambda>key. Inr (info_index f, condition_id_of E key))) eligible = Inr pairs"
    and by_index: "by_index = dict_of pairs" by (auto simp: condition_by_index_def result_simps)
  have rel: "list_all2 (\<lambda>f p. \<exists>key. map_of conditions (info_uid f) = Some key \<and> p = (info_index f, condition_id_of E key)) eligible pairs"
    using pairs unfolding mapE_Inr_iff by (rule list_all2_mono) (auto simp: result_simps)
  then have keys: "map fst pairs = map info_index eligible" by (induction rule: list_all2_induct) auto
  have "distinct (map info_index eligible)" using sorted strict_sorted_iff by blast
  then have get: "map_of by_index = map_of pairs" unfolding by_index by (intro map_of_dict_of_distinct) (simp add: keys)
  show "dom (map_of by_index) = info_index ` set eligible"
    unfolding get dom_map_of_conv_image_fst using keys by (metis list.set_map)
  fix f assume "f \<in> set eligible"
  from list_all2_pick[OF rel this] obtain p where p: "p \<in> set pairs"
    "\<exists>key. map_of conditions (info_uid f) = Some key \<and> p = (info_index f, condition_id_of E key)" by blast
  then obtain key where "map_of conditions (info_uid f) = Some key" "p = (info_index f, condition_id_of E key)" by blast
  moreover have "map_of pairs (fst p) = Some (snd p)"
    using p(1) \<open>distinct (map info_index eligible)\<close> by (simp add: keys map_of_is_SomeI)
  ultimately show "\<exists>key. map_of conditions (info_uid f) = Some key \<and> map_of by_index (info_index f) = Some (condition_id_of E key)"
    by (simp add: get)
qed

text \<open>The intervals lie in order, hold every eligible frame, and split no event of the run.\<close>

definition event_frames :: "unit_inputs \<Rightarrow> event_info \<Rightarrow> int set" where
  "event_frames inputs e = {info_index f |f uid. uid \<in> set (protected_uids e) \<and> frame_of inputs uid = Inr f}"

lemma run_intervals_exact:
  assumes blocks: "in_order (block_intervals plan)" "concat (map interval_frames (block_intervals plan)) = map info_index eligible"
    and keys: "dom (map_of by_index) = info_index ` set eligible"
    and build: "run_intervals active inputs run by_index plan = Inr intervals"
  shows "in_order intervals"
    and "\<And>f. f \<in> set eligible \<Longrightarrow> \<exists>i \<in> set intervals. info_index f \<in> set (interval_frames i)"
    and "\<And>e f g. merge_protected_event_windows active \<Longrightarrow> e \<in> set (events_of_run inputs run) \<Longrightarrow> f \<in> set eligible \<Longrightarrow> g \<in> set eligible
      \<Longrightarrow> info_index f \<in> event_frames inputs e \<Longrightarrow> info_index g \<in> event_frames inputs e
      \<Longrightarrow> \<exists>i \<in> set intervals. info_index f \<in> set (interval_frames i) \<and> info_index g \<in> set (interval_frames i)"
proof -
  from split_intervals_exact[OF blocks(1), of by_index] build obtain pieces where
    split: "split_intervals_by_condition (block_intervals plan) by_index = Inr pieces" "in_order pieces"
    "concat (map interval_frames pieces) = filter (\<lambda>f. map_of by_index f \<noteq> None) (map info_index eligible)"
    and rest: "(if merge_protected_event_windows active then
       bindE (mapE (event_indices inputs by_index) (events_of_run inputs run)) (\<lambda>events. merge_intervals_for_events pieces events)
     else Inr pieces) = Inr intervals"
    by (auto simp: run_intervals_def blocks(2) result_simps simp del: if_splits)
  have "filter (\<lambda>f. map_of by_index f \<noteq> None) (map info_index eligible) = map info_index eligible"
    using keys by (intro filter_True) auto
  then have frames: "set (concat (map interval_frames pieces)) = info_index ` set eligible" using split(3) by simp
  have piece: "\<exists>p \<in> set pieces. info_index f \<in> set (interval_frames p)" if "f \<in> set eligible" for f
  proof -
    have "info_index f \<in> set (concat (map interval_frames pieces))" using that unfolding frames by simp
    then show ?thesis by (simp del: interval_frames_simps)
  qed
  have "in_order intervals \<and> (\<forall>f \<in> set eligible. \<exists>i \<in> set intervals. info_index f \<in> set (interval_frames i))
    \<and> (merge_protected_event_windows active \<longrightarrow> (\<forall>e \<in> set (events_of_run inputs run). \<forall>f \<in> set eligible. \<forall>g \<in> set eligible.
        info_index f \<in> event_frames inputs e \<longrightarrow> info_index g \<in> event_frames inputs e \<longrightarrow>
        (\<exists>i \<in> set intervals. info_index f \<in> set (interval_frames i) \<and> info_index g \<in> set (interval_frames i))))"
  proof (cases "merge_protected_event_windows active")
    case False
    with rest split(2) piece show ?thesis by simp
  next
    case True
    with rest obtain events where events: "mapE (event_indices inputs by_index) (events_of_run inputs run) = Inr events"
      and merge: "merge_intervals_for_events pieces events = Inr intervals" by (auto simp: result_simps)
    note keeps = merge_keeps[OF split(2) merge]
    have hold: "\<exists>i \<in> set intervals. info_index f \<in> set (interval_frames i)" if "f \<in> set eligible" for f
      using piece[OF that] keeps(2) by blast
    have "\<exists>i \<in> set intervals. info_index f \<in> set (interval_frames i) \<and> info_index g \<in> set (interval_frames i)"
      if e: "e \<in> set (events_of_run inputs run)" and f: "f \<in> set eligible" "info_index f \<in> event_frames inputs e"
        and g: "g \<in> set eligible" "info_index g \<in> event_frames inputs e" for e f g
    proof -
      from mapE_pick[OF events e] obtain indices where
        indices: "indices \<in> set events" "event_indices inputs by_index e = Inr indices" by blast
      then have "mapE (\<lambda>uid. bindE (frame_of inputs uid) (\<lambda>f. Inr (info_index f))) (protected_uids e) = Inr indices"
        by (auto simp: event_indices_def result_simps)
      then have rel: "list_all2 (\<lambda>uid x. \<exists>f. frame_of inputs uid = Inr f \<and> x = info_index f) (protected_uids e) indices"
        unfolding mapE_Inr_iff by (rule list_all2_mono) (auto simp: result_simps)
      have "x \<in> set indices" if "x \<in> event_frames inputs e" for x
      proof -
        from that obtain h uid where h: "uid \<in> set (protected_uids e)" "frame_of inputs uid = Inr h" "x = info_index h"
          by (auto simp: event_frames_def)
        from list_all2_pick[OF rel h(1)] h show ?thesis by auto
      qed
      with f g have "info_index f \<in> set indices" "info_index g \<in> set indices" by blast+
      moreover obtain p q where "p \<in> set pieces" "info_index f \<in> set (interval_frames p)"
        "q \<in> set pieces" "info_index g \<in> set (interval_frames q)" using piece f(1) g(1) by meson
      ultimately show ?thesis using keeps(3)[OF indices(1)] by blast
    qed
    with keeps(1) hold show ?thesis by blast
  qed
  then show "in_order intervals"
    and "\<And>f. f \<in> set eligible \<Longrightarrow> \<exists>i \<in> set intervals. info_index f \<in> set (interval_frames i)"
    and "\<And>e f g. merge_protected_event_windows active \<Longrightarrow> e \<in> set (events_of_run inputs run) \<Longrightarrow> f \<in> set eligible \<Longrightarrow> g \<in> set eligible
      \<Longrightarrow> info_index f \<in> event_frames inputs e \<Longrightarrow> info_index g \<in> event_frames inputs e
      \<Longrightarrow> \<exists>i \<in> set intervals. info_index f \<in> set (interval_frames i) \<and> info_index g \<in> set (interval_frames i)"
    by blast+
qed

section \<open>The units of a run\<close>

definition unit_of ::
  "unit_inputs \<Rightarrow> run_source \<Rightarrow> frame_info list \<Rightarrow> (string \<times> condition_key) list \<Rightarrow> frame_interval \<Rightarrow> partition_unit \<Rightarrow> bool" where
  "unit_of inputs source eligible conditions i u \<longleftrightarrow>
     run_id u = source_run source \<and> unit_domain u = source_domain source
     \<and> source_frame_start u = frame_start i \<and> source_frame_stop u = frame_stop i
     \<and> frame_uids u = map info_uid (interval_members eligible i)
     \<and> (\<forall>f \<in> set (interval_members eligible i). map_of conditions (info_uid f) = Some (unit_condition u))
     \<and> is_digest (unit_id u) \<and> (\<forall>uid \<in> set (frame_uids u). is_digest uid)"

lemma validate_digest_Inr: "validate_digest name v = Inr x \<longleftrightarrow> is_digest v \<and> x = v"
  by (auto simp: validate_digest_def result_simps)

lemma make_partition_unit_Inr:
  assumes "make_partition_unit u = Inr v"
  shows "v = u\<lparr>event_ids := sorted_set (event_ids u), independence_evidence_codes := sorted_set (independence_evidence_codes u)\<rparr>
    \<and> is_digest (unit_id u) \<and> (\<forall>uid \<in> set (frame_uids u). is_digest uid)"
proof -
  from assms obtain frames where frames: "mapE (validate_digest ''frame_uid'') (frame_uids u) = Inr frames"
    and digest: "is_digest (unit_id u)"
    and v: "v = u\<lparr>event_ids := sorted_set (event_ids u), independence_evidence_codes := sorted_set (independence_evidence_codes u)\<rparr>"
    by (auto simp: make_partition_unit_def Let_def result_simps validate_digest_Inr)
  have "is_digest uid" if "uid \<in> set (frame_uids u)" for uid
    using mapE_pick[OF frames that] by (auto simp: validate_digest_Inr)
  with digest v show ?thesis by blast
qed

lemma build_unit_exact:
  assumes "build_unit E inputs conditions source plan eligible n i = Inr us"
  shows "if interval_members eligible i = [] then us = [] else \<exists>u. us = [u] \<and> unit_of inputs source eligible conditions i u"
proof (cases "interval_members eligible i = []")
  case True
  with assms show ?thesis by (simp add: build_unit_def)
next
  case False
  have "\<exists>keys graded u. mapE (\<lambda>f. lookupE conditions (info_uid f)) (interval_members eligible i) = Inr keys
      \<and> length (remdups keys) = 1 \<and> us = [u]
      \<and> make_partition_unit (unit_record E inputs source plan (interval_members eligible i) (hd keys) graded i) = Inr u"
    using assms False by (simp add: build_unit_def Let_def result_simps del: split_paired_Ex) blast
  then obtain keys graded u where
    keys: "mapE (\<lambda>f. lookupE conditions (info_uid f)) (interval_members eligible i) = Inr keys"
    and same: "length (remdups keys) = 1" and us: "us = [u]"
    and u: "make_partition_unit (unit_record E inputs source plan (interval_members eligible i) (hd keys) graded i) = Inr u"
    by blast
  have "map_of conditions (info_uid f) = Some (hd keys)" if f: "f \<in> set (interval_members eligible i)" for f
  proof -
    from mapE_pick[OF keys f] obtain key where key: "key \<in> set keys" "map_of conditions (info_uid f) = Some key"
      by (auto simp: result_simps)
    obtain k where "remdups keys = [k]" using same by (auto simp: length_Suc_conv)
    then have all: "set keys = {k}" by (metis list.set(1) list.simps(15) set_remdups)
    moreover have "hd keys \<in> set keys" using key(1) by (cases keys) auto
    ultimately show ?thesis using key by simp
  qed
  with make_partition_unit_Inr[OF u] us False show ?thesis
    by (cases graded) (simp add: unit_of_def unit_record_def Let_def)
qed

definition run_units_spec ::
  "partition_policy \<Rightarrow> unit_inputs \<Rightarrow> (string \<times> condition_key) list \<Rightarrow> run_source \<Rightarrow> partition_unit list \<Rightarrow> bool" where
  "run_units_spec active inputs conditions source units \<longleftrightarrow>
     (let eligible = eligible_frames active inputs (source_run source) in
      (\<forall>u \<in> set units. run_id u = source_run source \<and> unit_domain u = source_domain source
        \<and> is_digest (unit_id u) \<and> (\<forall>uid \<in> set (frame_uids u). is_digest uid)
        \<and> set (frame_uids u) = {info_uid f |f. f \<in> set eligible \<and> source_frame_start u \<le> info_index f \<and> info_index f < source_frame_stop u}
        \<and> (\<forall>f \<in> set eligible. source_frame_start u \<le> info_index f \<longrightarrow> info_index f < source_frame_stop u \<longrightarrow>
             map_of conditions (info_uid f) = Some (unit_condition u)))
      \<and> (\<forall>u \<in> set units. \<forall>v \<in> set units. source_frame_start u = source_frame_start v \<longrightarrow> u = v)
      \<and> (\<forall>f \<in> set eligible. \<exists>u \<in> set units. source_frame_start u \<le> info_index f \<and> info_index f < source_frame_stop u)
      \<and> (merge_protected_event_windows active \<longrightarrow> (\<forall>e \<in> set (events_of_run inputs (source_run source)).
           \<forall>f \<in> set eligible. \<forall>g \<in> set eligible. info_index f \<in> event_frames inputs e \<longrightarrow> info_index g \<in> event_frames inputs e \<longrightarrow>
           (\<exists>u \<in> set units. source_frame_start u \<le> info_index f \<and> info_index f < source_frame_stop u
             \<and> source_frame_start u \<le> info_index g \<and> info_index g < source_frame_stop u))))"

lemma build_run_exact:
  assumes policy: "make_block_policy (policy_blocks active) = Inr p"
    and build: "build_run E active inputs conditions source = Inr (units, signatures)"
  shows "run_units_spec active inputs conditions source units"
proof (cases "eligible_frames active inputs (source_run source) = []")
  case True
  with build have "units = []" by (simp add: build_run_def)
  with True show ?thesis by (simp add: run_units_spec_def)
next
  case False
  define eligible where "eligible = eligible_frames active inputs (source_run source)"
  from build False obtain plan by_index intervals uss where
    plan: "build_complete_frame_block_plan (block_policy_digest_of E) (scaled_length_of E) (policy_blocks active)
          (autocorrelation_times_of E (source_run source)) (map info_index eligible) = Inr plan"
    and by_index: "condition_by_index E conditions eligible = Inr by_index"
    and intervals: "run_intervals active inputs (source_run source) by_index plan = Inr intervals"
    and uss: "mapE (build_unit E inputs conditions source plan eligible (length intervals)) intervals = Inr uss"
    and units: "units = concat uss"
    by (auto simp: build_run_def Let_def result_simps eligible_def)
  note blocks = built_plan[OF policy plan]
  have sorted: "sorted_wrt (\<lambda>f g. info_index f < info_index g) eligible" using blocks(1) by (simp add: sorted_wrt_map)
  note hold = run_intervals_exact[OF blocks(2,3) condition_by_index_exact(1)[OF by_index blocks(1)] intervals]
  have members: "interval_members eligible i = filter (\<lambda>f. frame_start i \<le> info_index f \<and> info_index f < frame_stop i) eligible"
    if "i \<in> set intervals" for i
  proof (rule interval_members_filter[OF sorted])
    show "frame_start i \<le> frame_stop i" using hold(1) that by (auto simp: in_order_def list_all_iff proper_def)
  qed
  have unit: "\<exists>i \<in> set intervals. unit_of inputs source eligible conditions i u" if u: "u \<in> set units" for u
  proof -
    from u obtain us where us: "us \<in> set uss" "u \<in> set us" by (auto simp: units)
    then obtain k where "k < length uss" "us = uss ! k" by (auto simp: in_set_conv_nth)
    then have "build_unit E inputs conditions source plan eligible (length intervals) (intervals ! k) = Inr us" "k < length intervals"
      using uss by (auto simp: mapE_Inr_iff list_all2_conv_all_nth)
    with build_unit_exact[OF this(1)] us(2) show ?thesis by (auto split: if_splits intro: nth_mem)
  qed
  have made: "\<exists>u \<in> set units. unit_of inputs source eligible conditions i u"
    if i: "i \<in> set intervals" "interval_members eligible i \<noteq> []" for i
  proof -
    from mapE_pick[OF uss i(1)] obtain us where us: "us \<in> set uss"
      "build_unit E inputs conditions source plan eligible (length intervals) i = Inr us" by blast
    from build_unit_exact[OF us(2)] i(2) obtain u where "us = [u]" "unit_of inputs source eligible conditions i u" by auto
    with us(1) show ?thesis unfolding units by force
  qed
  have in_interval: "\<exists>u \<in> set units. source_frame_start u = frame_start i \<and> source_frame_stop u = frame_stop i"
    if i: "i \<in> set intervals" and f: "f \<in> set eligible" "info_index f \<in> set (interval_frames i)" for i f
  proof -
    have "f \<in> set (interval_members eligible i)" using f by (simp add: members[OF i])
    then have "interval_members eligible i \<noteq> []" by auto
    from made[OF i this] show ?thesis by (auto simp: unit_of_def)
  qed
  have frames: "set (frame_uids u) = {info_uid f |f. f \<in> set eligible \<and> source_frame_start u \<le> info_index f \<and> info_index f < source_frame_stop u}
      \<and> (\<forall>f \<in> set eligible. source_frame_start u \<le> info_index f \<longrightarrow> info_index f < source_frame_stop u \<longrightarrow>
             map_of conditions (info_uid f) = Some (unit_condition u))" if "u \<in> set units" for u
    using unit[OF that] members by (auto simp: unit_of_def)
  have inj: "u = v" if uv: "u \<in> set units" "v \<in> set units" "source_frame_start u = source_frame_start v" for u v
  proof -
    from uv(1) obtain us where us: "us \<in> set uss" "u \<in> set us" by (auto simp: units)
    then obtain k where k: "k < length uss" "u \<in> set (uss ! k)" by (auto simp: in_set_conv_nth)
    from uv(2) obtain vs where vs: "vs \<in> set uss" "v \<in> set vs" by (auto simp: units)
    then obtain l where l: "l < length uss" "v \<in> set (uss ! l)" by (auto simp: in_set_conv_nth)
    have build_at: "build_unit E inputs conditions source plan eligible (length intervals) (intervals ! j) = Inr (uss ! j)"
      if "j < length uss" for j using uss that by (auto simp: mapE_Inr_iff list_all2_conv_all_nth)
    have len: "length intervals = length uss" using mapE_length[OF uss] by simp
    have start: "source_frame_start u = frame_start (intervals ! k)" "source_frame_start v = frame_start (intervals ! l)"
      using build_unit_exact[OF build_at[OF k(1)]] build_unit_exact[OF build_at[OF l(1)]] k(2) l(2)
      by (auto simp: unit_of_def split: if_splits)
    have "k = l"
    proof (rule ccontr)
      assume "k \<noteq> l"
      then have "frame_start (intervals ! k) \<noteq> frame_start (intervals ! l)"
        using in_order_nth[OF hold(1), of k l] in_order_nth[OF hold(1), of l k] in_order_proper[OF hold(1), of k]
          in_order_proper[OF hold(1), of l] k(1) l(1) len by (auto simp: proper_def neq_iff)
      with start uv(3) show False by simp
    qed
    with build_unit_exact[OF build_at[OF k(1)]] k(2) l(2) show ?thesis by (auto split: if_splits)
  qed
  have cover: "\<exists>u \<in> set units. source_frame_start u \<le> info_index f \<and> info_index f < source_frame_stop u" if f: "f \<in> set eligible" for f
  proof -
    from hold(2)[OF f] obtain i where i: "i \<in> set intervals" "info_index f \<in> set (interval_frames i)" by blast
    from in_interval[OF i(1) f i(2)] obtain u where "u \<in> set units" "source_frame_start u = frame_start i"
      "source_frame_stop u = frame_stop i" by blast
    with i(2) show ?thesis by (intro bexI[of _ u]) simp_all
  qed
  have whole: "\<exists>u \<in> set units. source_frame_start u \<le> info_index f \<and> info_index f < source_frame_stop u
      \<and> source_frame_start u \<le> info_index g \<and> info_index g < source_frame_stop u"
    if "merge_protected_event_windows active" "e \<in> set (events_of_run inputs (source_run source))" and f: "f \<in> set eligible"
      and "g \<in> set eligible" "info_index f \<in> event_frames inputs e" "info_index g \<in> event_frames inputs e" for e f g
  proof -
    from hold(3)[OF that] obtain i where i: "i \<in> set intervals" "info_index f \<in> set (interval_frames i)"
      "info_index g \<in> set (interval_frames i)" by blast
    from in_interval[OF i(1) f i(2)] obtain u where "u \<in> set units" "source_frame_start u = frame_start i"
      "source_frame_stop u = frame_stop i" by blast
    with i(2,3) show ?thesis by (intro bexI[of _ u]) simp_all
  qed
  have ids: "run_id u = source_run source \<and> unit_domain u = source_domain source
      \<and> is_digest (unit_id u) \<and> (\<forall>uid \<in> set (frame_uids u). is_digest uid)" if "u \<in> set units" for u
    using unit[OF that] by (auto simp: unit_of_def)
  have all: "\<forall>u \<in> set units. run_id u = source_run source \<and> unit_domain u = source_domain source
      \<and> is_digest (unit_id u) \<and> (\<forall>uid \<in> set (frame_uids u). is_digest uid)
      \<and> set (frame_uids u) = {info_uid f |f. f \<in> set eligible \<and> source_frame_start u \<le> info_index f \<and> info_index f < source_frame_stop u}
      \<and> (\<forall>f \<in> set eligible. source_frame_start u \<le> info_index f \<longrightarrow> info_index f < source_frame_stop u \<longrightarrow>
             map_of conditions (info_uid f) = Some (unit_condition u))"
  proof
    fix u assume u: "u \<in> set units"
    show "run_id u = source_run source \<and> unit_domain u = source_domain source
      \<and> is_digest (unit_id u) \<and> (\<forall>uid \<in> set (frame_uids u). is_digest uid)
      \<and> set (frame_uids u) = {info_uid f |f. f \<in> set eligible \<and> source_frame_start u \<le> info_index f \<and> info_index f < source_frame_stop u}
      \<and> (\<forall>f \<in> set eligible. source_frame_start u \<le> info_index f \<longrightarrow> info_index f < source_frame_stop u \<longrightarrow>
             map_of conditions (info_uid f) = Some (unit_condition u))"
      using ids[OF u] frames[OF u] by (elim conjE, intro conjI) assumption+
  qed
  have once: "\<forall>u \<in> set units. \<forall>v \<in> set units. source_frame_start u = source_frame_start v \<longrightarrow> u = v"
    by (intro ballI impI) (rule inj)
  show ?thesis unfolding run_units_spec_def Let_def eligible_def[symmetric]
    by (intro conjI all once ballI impI) (erule cover, erule (5) whole)
qed

end
