(* ===== verification/Temporal_Neighbors.thy ===== *)
theory Temporal_Neighbors
  imports Partition_Units
begin

text \<open>
  The temporal neighbours of partition units: \<open>_build_temporal_neighbor_index\<close> and
  \<open>_neighbor_unit_ids\<close> of \<open>mdstats/training_data/partition.py\<close>.  A set of unit identifiers is a list
  without duplicates; the code never depends on its order.
\<close>

section \<open>The index\<close>

record temporal_index =
  ordered_by_run :: "(string \<times> partition_unit list) list"
  location_by_unit :: "(string \<times> string \<times> nat) list"

definition build_temporal_neighbor_index :: "partition_unit list \<Rightarrow> temporal_index" where
  "build_temporal_neighbor_index units =
     (let ordered = map (\<lambda>(run, us). (run, sort_key source_frame_start us)) (group_by run_id units) in
      \<lparr>ordered_by_run = ordered,
       location_by_unit = dict_of (concat (map (\<lambda>(run, us).
         map (\<lambda>(position, u). (unit_id u, run, position)) (List.enumerate 0 us)) ordered))\<rparr>)"

text \<open>The code clips the window \<open>[position - radius, position + radius]\<close> to the list; the radius is positive.\<close>

definition neighbor_window :: "temporal_index \<Rightarrow> int \<Rightarrow> string \<Rightarrow> string list result" where
  "neighbor_window index radius uid =
     (case map_of (location_by_unit index) uid of
        None \<Rightarrow> Inr []
      | Some (run, position) \<Rightarrow>
          bindE (lookupE (ordered_by_run index) run) (\<lambda>ordered.
          let first = max 0 (int position - radius);
              final = min (int (length ordered)) (int position + radius + 1) in
          Inr (map unit_id (take (nat (final - first)) (drop (nat first) ordered)))))"

definition neighbor_unit_ids :: "temporal_index \<Rightarrow> string list \<Rightarrow> int \<Rightarrow> string list result" where
  "neighbor_unit_ids index selected radius =
     (if radius \<le> 0 \<or> selected = [] then Inr []
      else bindE (mapE (neighbor_window index radius) selected) (\<lambda>windows.
        Inr (filter (\<lambda>uid. uid \<notin> set selected) (remdups (concat windows)))))"

section \<open>What a neighbour is\<close>

text \<open>
  The specification does not sort: two units are within a radius of each other when they belong to the
  same run and fewer than so many units of the run start from the earlier one up to the later one.
\<close>

definition run_order :: "partition_unit list \<Rightarrow> bool" where
  "run_order units \<longleftrightarrow> distinct (map unit_id units)
     \<and> (\<forall>u \<in> set units. \<forall>v \<in> set units. run_id u = run_id v \<longrightarrow> source_frame_start u = source_frame_start v \<longrightarrow> u = v)"

definition units_between :: "partition_unit list \<Rightarrow> partition_unit \<Rightarrow> partition_unit \<Rightarrow> partition_unit set" where
  "units_between units u v = {w \<in> set units. run_id w = run_id u
     \<and> min (source_frame_start u) (source_frame_start v) \<le> source_frame_start w
     \<and> source_frame_start w < max (source_frame_start u) (source_frame_start v)}"

definition within_radius :: "int \<Rightarrow> partition_unit list \<Rightarrow> partition_unit \<Rightarrow> partition_unit \<Rightarrow> bool" where
  "within_radius radius units u v \<longleftrightarrow> run_id u = run_id v \<and> int (card (units_between units u v)) \<le> radius"

text \<open>The identifiers of the units near a selection, the selection itself left out.\<close>

definition near_ids :: "int \<Rightarrow> partition_unit list \<Rightarrow> string set \<Rightarrow> string set" where
  "near_ids radius units sel = {unit_id v | v u. v \<in> set units \<and> u \<in> set units \<and> unit_id u \<in> sel
     \<and> within_radius radius units u v} - sel"

section \<open>Positions in a run\<close>

text \<open>The units of one run in their order; a position is a number of earlier starts.\<close>

definition run_units :: "partition_unit list \<Rightarrow> string \<Rightarrow> partition_unit list" where
  "run_units units run = sort_key source_frame_start (filter (\<lambda>u. run_id u = run) units)"

lemma set_run_units: "set (run_units units run) = {u \<in> set units. run_id u = run}"
  by (simp add: run_units_def)

lemma run_order_distinct: "run_order units \<Longrightarrow> distinct units"
  by (auto simp: run_order_def distinct_map)

lemma run_units_strict:
  assumes "run_order units" and "i < j" and "j < length (run_units units run)"
  shows "source_frame_start (run_units units run ! i) < source_frame_start (run_units units run ! j)"
proof -
  let ?us = "run_units units run"
  have le: "source_frame_start (?us ! i) \<le> source_frame_start (?us ! j)"
    using sorted_nth_mono[of "map source_frame_start ?us" i j] assms(2,3)
    by (simp add: run_units_def)
  have "distinct ?us" using run_order_distinct[OF assms(1)] by (simp add: run_units_def)
  then have "?us ! i \<noteq> ?us ! j" using assms(2,3) by (simp add: nth_eq_iff_index_eq)
  moreover have "?us ! i \<in> set ?us" "?us ! j \<in> set ?us" using assms(2,3) by simp_all
  ultimately show ?thesis using le assms(1) unfolding run_order_def set_run_units by force
qed

lemma run_units_less_iff:
  assumes "run_order units" and "i < length (run_units units run)" and "j < length (run_units units run)"
  shows "source_frame_start (run_units units run ! i) < source_frame_start (run_units units run ! j) \<longleftrightarrow> i < j"
  using run_units_strict[OF assms(1), of i j run] run_units_strict[OF assms(1), of j i run] assms(2,3)
  by (metis less_irrefl not_less_iff_gr_or_eq order_less_trans)

lemma units_between_positions:
  assumes order: "run_order units" and i: "i < length (run_units units run)" and j: "j < length (run_units units run)"
  shows "card (units_between units (run_units units run ! i) (run_units units run ! j)) = (if i \<le> j then j - i else i - j)"
proof -
  let ?us = "run_units units run"
  let ?lo = "min i j" and ?hi = "max i j"
  have run: "run_id (?us ! k) = run" if "k < length ?us" for k
    using nth_mem[OF that] by (simp add: set_run_units)
  have le_iff: "source_frame_start (?us ! a) \<le> source_frame_start (?us ! b) \<longleftrightarrow> a \<le> b"
    if "a < length ?us" "b < length ?us" for a b
    using run_units_less_iff[OF order that(2,1)] by (simp add: not_less[symmetric])
  have mn: "min (source_frame_start (?us ! i)) (source_frame_start (?us ! j)) = source_frame_start (?us ! ?lo)"
    and mx: "max (source_frame_start (?us ! i)) (source_frame_start (?us ! j)) = source_frame_start (?us ! ?hi)"
    using le_iff[OF i j] le_iff[OF j i] by (auto simp: min_def max_def)
  have "units_between units (?us ! i) (?us ! j) = (\<lambda>k. ?us ! k) ` {?lo ..< ?hi}"
  proof (intro set_eqI iffI)
    fix w assume "w \<in> units_between units (?us ! i) (?us ! j)"
    then have w: "w \<in> set ?us" "source_frame_start (?us ! ?lo) \<le> source_frame_start w"
      "source_frame_start w < source_frame_start (?us ! ?hi)"
      unfolding units_between_def mn mx by (simp_all add: set_run_units run[OF i])
    from w(1) obtain k where k: "k < length ?us" "w = ?us ! k" by (auto simp: in_set_conv_nth)
    have "?lo < length ?us" "?hi < length ?us" using i j by simp_all
    with w k show "w \<in> (\<lambda>k. ?us ! k) ` {?lo ..< ?hi}"
      using le_iff[of ?lo k] run_units_less_iff[OF order, of k run ?hi] by auto
  next
    fix w assume "w \<in> (\<lambda>k. ?us ! k) ` {?lo ..< ?hi}"
    then obtain k where k: "?lo \<le> k" "k < ?hi" "w = ?us ! k" by auto
    have lens: "?lo < length ?us" "?hi < length ?us" "k < length ?us" using i j k(2) by auto
    have "w \<in> set ?us" using k lens by simp
    then show "w \<in> units_between units (?us ! i) (?us ! j)"
      unfolding units_between_def mn mx
      using le_iff[OF lens(1,3)] run_units_less_iff[OF order lens(3,2)] k
      by (simp add: set_run_units run[OF i])
  qed
  moreover have "inj_on (\<lambda>k. ?us ! k) {?lo ..< ?hi}"
    using run_order_distinct[OF order] i j by (auto simp: inj_on_def run_units_def nth_eq_iff_index_eq)
  ultimately show ?thesis by (auto simp: card_image min_def max_def)
qed

section \<open>The index is exact\<close>

lemma map_of_ordered:
  "map_of (ordered_by_run (build_temporal_neighbor_index units)) run =
     (if run \<in> run_id ` set units then Some (run_units units run) else None)"
proof -
  have "map_of (map (\<lambda>(run, us). (run, sort_key source_frame_start us)) ps) run
      = map_option (sort_key source_frame_start) (map_of ps run)" for ps :: "(string \<times> partition_unit list) list"
    by (induction ps) auto
  then show ?thesis
    by (simp add: build_temporal_neighbor_index_def Let_def map_of_group_by run_units_def)
qed

definition unit_locations :: "partition_unit list \<Rightarrow> (string \<times> string \<times> nat) list" where
  "unit_locations units = concat (map (\<lambda>(run, us).
     map (\<lambda>(position, u). (unit_id u, run, position)) (List.enumerate 0 us))
       (map (\<lambda>(run, us). (run, sort_key source_frame_start us)) (group_by run_id units)))"

lemma mem_unit_locations:
  "(uid, run, p) \<in> set (unit_locations units) \<longleftrightarrow> p < length (run_units units run) \<and> unit_id (run_units units run ! p) = uid"
proof -
  have group: "(run, us) \<in> set (group_by run_id units) \<longleftrightarrow> us = filter (\<lambda>u. run_id u = run) units \<and> us \<noteq> []" for us
  proof -
    have "(run, us) \<in> set (group_by run_id units) \<longleftrightarrow> map_of (group_by run_id units) run = Some us"
      by (simp add: map_of_eq_Some_iff)
    also have "\<dots> \<longleftrightarrow> us = filter (\<lambda>u. run_id u = run) units \<and> us \<noteq> []"
      by (auto simp: map_of_group_by filter_empty_conv image_iff)
    finally show ?thesis .
  qed
  have rows: "set (unit_locations units) = (\<Union>(run, us) \<in> set (group_by run_id units).
      (\<lambda>(p, u). (unit_id u, run, p)) ` set (List.enumerate 0 (sort_key source_frame_start us)))"
    unfolding unit_locations_def set_concat set_map image_image by (intro SUP_cong) (auto simp: case_prod_unfold)
  have "(uid, run, p) \<in> set (unit_locations units) \<longleftrightarrow>
      (\<exists>us. (run, us) \<in> set (group_by run_id units) \<and> p < length us \<and> unit_id (sort_key source_frame_start us ! p) = uid)"
    unfolding rows by (force simp: in_set_enumerate_eq image_iff)
  then show ?thesis unfolding group run_units_def by auto
qed

lemma location_of_unit:
  assumes order: "run_order units" and p: "p < length (run_units units run)"
  shows "map_of (location_by_unit (build_temporal_neighbor_index units)) (unit_id (run_units units run ! p)) = Some (run, p)"
  unfolding build_temporal_neighbor_index_def Let_def temporal_index.simps unit_locations_def[symmetric]
proof (rule map_of_dict_of_unique)
  show "(unit_id (run_units units run ! p), run, p) \<in> set (unit_locations units)"
    using p by (simp add: mem_unit_locations)
next
  fix v assume v: "(unit_id (run_units units run ! p), v) \<in> set (unit_locations units)"
  obtain run' p' where rp: "v = (run', p')" by (cases v)
  with v have p': "p' < length (run_units units run')"
    and ids: "unit_id (run_units units run' ! p') = unit_id (run_units units run ! p)"
    by (simp_all add: mem_unit_locations)
  have m: "run_units units run' ! p' \<in> set (run_units units run')" "run_units units run ! p \<in> set (run_units units run)"
    using p p' by simp_all
  with ids order have same: "run_units units run' ! p' = run_units units run ! p"
    unfolding run_order_def set_run_units by (auto dest: inj_onD simp: distinct_map)
  with m have "run' = run" unfolding set_run_units by auto
  moreover have "distinct (run_units units run)" using run_order_distinct[OF order] by (simp add: run_units_def)
  ultimately show "v = (run, p)" using same p p' rp by (simp add: nth_eq_iff_index_eq)
qed

lemma location_of_absent:
  assumes "uid \<notin> unit_id ` set units"
  shows "map_of (location_by_unit (build_temporal_neighbor_index units)) uid = None"
proof -
  have "uid \<notin> fst ` set (unit_locations units)"
  proof
    assume "uid \<in> fst ` set (unit_locations units)"
    then obtain run p where "(uid, run, p) \<in> set (unit_locations units)" by auto
    then have "uid \<in> unit_id ` set (run_units units run)" unfolding mem_unit_locations by (metis image_eqI nth_mem)
    with assms show False unfolding set_run_units by auto
  qed
  then show ?thesis
    unfolding build_temporal_neighbor_index_def Let_def temporal_index.simps unit_locations_def[symmetric]
      map_of_dict_of_None .
qed

section \<open>The neighbours are the units within the radius\<close>

lemma window_positions:
  assumes "0 < radius" and "p < length us"
  shows "set (take (nat (min (int (length us)) (int p + radius + 1) - max 0 (int p - radius)))
      (drop (nat (max 0 (int p - radius))) us))
    = {us ! q | q. q < length us \<and> int p - radius \<le> int q \<and> int q \<le> int p + radius}" (is "set (take ?n (drop ?m us)) = ?R")
proof (intro set_eqI iffI)
  fix x assume "x \<in> set (take ?n (drop ?m us))"
  then obtain k where k: "k < ?n" "k < length us - ?m" "x = us ! (?m + k)"
    by (auto simp: in_set_conv_nth)
  then have "?m + k < length us \<and> int p - radius \<le> int (?m + k) \<and> int (?m + k) \<le> int p + radius"
    using assms by linarith
  with k(3) show "x \<in> ?R" by blast
next
  fix x assume "x \<in> ?R"
  then obtain q where q: "q < length us" "int p - radius \<le> int q" "int q \<le> int p + radius" "x = us ! q" by blast
  define k where "k = q - ?m"
  have k: "k < ?n" "k < length us - ?m" "?m + k = q" using q assms unfolding k_def by linarith+
  have "?m \<le> length us" using k(2) by linarith
  then have "take ?n (drop ?m us) ! k = us ! q" using k by simp
  moreover have "k < length (take ?n (drop ?m us))" using k by simp
  ultimately show "x \<in> set (take ?n (drop ?m us))" using q(4) by (metis nth_mem)
qed

lemma neighbor_window_unit:
  assumes order: "run_order units" and u: "u \<in> set units" and r: "0 < radius"
  shows "\<exists>w. neighbor_window (build_temporal_neighbor_index units) radius (unit_id u) = Inr w
    \<and> set w = {unit_id v | v. v \<in> set units \<and> within_radius radius units u v}"
proof -
  let ?us = "run_units units (run_id u)"
  have "u \<in> set ?us" using u by (simp add: set_run_units)
  then obtain p where p: "p < length ?us" "?us ! p = u" by (auto simp: in_set_conv_nth)
  have win: "neighbor_window (build_temporal_neighbor_index units) radius (unit_id u) = Inr (map unit_id
      (take (nat (min (int (length ?us)) (int p + radius + 1) - max 0 (int p - radius)))
        (drop (nat (max 0 (int p - radius))) ?us)))"
    using location_of_unit[OF order p(1)] u p(2) by (auto simp: neighbor_window_def lookupE_def map_of_ordered Let_def)
  have "{?us ! q | q. q < length ?us \<and> int p - radius \<le> int q \<and> int q \<le> int p + radius}
      = {v \<in> set units. within_radius radius units u v}" (is "?L = ?R")
  proof (intro set_eqI iffI)
    fix v assume "v \<in> ?L"
    then obtain q where q: "q < length ?us" "int p - radius \<le> int q" "int q \<le> int p + radius" "v = ?us ! q" by blast
    then have "v \<in> set ?us" by simp
    moreover have "int (card (units_between units u v)) \<le> radius"
      using units_between_positions[OF order p(1) q(1)] p(2) q by simp
    ultimately show "v \<in> ?R" by (simp add: set_run_units within_radius_def)
  next
    fix v assume v: "v \<in> ?R"
    then have "v \<in> set ?us" by (simp add: set_run_units within_radius_def)
    then obtain q where q: "q < length ?us" "?us ! q = v" by (auto simp: in_set_conv_nth)
    have "int (if p \<le> q then q - p else p - q) \<le> radius"
      using v units_between_positions[OF order p(1) q(1)] p(2) q(2) by (simp add: within_radius_def)
    then have "int p - radius \<le> int q \<and> int q \<le> int p + radius" by (simp split: if_splits)
    with q show "v \<in> ?L" by blast
  qed
  with win window_positions[OF r p(1)] show ?thesis by auto
qed

lemma near_ids_nonpositive:
  assumes "run_order units" and "radius \<le> 0"
  shows "near_ids radius units sel = {}"
proof -
  have "v = u" if "u \<in> set units" "v \<in> set units" "within_radius radius units u v" for u v
  proof (rule ccontr)
    assume "v \<noteq> u"
    have fin: "finite (units_between units u v)" by (simp add: units_between_def)
    have "card (units_between units u v) = 0" and run: "run_id u = run_id v"
      using that(3) assms(2) by (simp_all add: within_radius_def)
    then have "units_between units u v = {}" using fin by simp
    then have "\<not> source_frame_start u < source_frame_start v" "\<not> source_frame_start v < source_frame_start u"
      using that(1,2) run by (auto simp: units_between_def)
    then have "source_frame_start u = source_frame_start v" by simp
    with \<open>v \<noteq> u\<close> that run assms(1) show False unfolding run_order_def by metis
  qed
  then show ?thesis unfolding near_ids_def by blast
qed

lemma neighbor_unit_ids_exact:
  assumes order: "run_order units"
  shows "\<exists>ids. neighbor_unit_ids (build_temporal_neighbor_index units) selected radius = Inr ids
    \<and> distinct ids \<and> set ids = near_ids radius units (set selected)"
proof (cases "radius \<le> 0 \<or> selected = []")
  case True
  have "near_ids radius units (set []) = {}" by (simp add: near_ids_def)
  with True near_ids_nonpositive[OF order] show ?thesis by (auto simp: neighbor_unit_ids_def)
next
  case False
  let ?f = "neighbor_window (build_temporal_neighbor_index units) radius"
  have one: "\<exists>w. ?f uid = Inr w \<and> set w = {unit_id v | v u. v \<in> set units \<and> u \<in> set units \<and> unit_id u = uid
      \<and> within_radius radius units u v}" for uid
  proof (cases "uid \<in> unit_id ` set units")
    case True
    then obtain u where u: "u \<in> set units" "unit_id u = uid" by blast
    have "u' = u" if "u' \<in> set units" "unit_id u' = uid" for u'
      using that u order unfolding run_order_def distinct_map by (metis inj_onD)
    then have only: "u' \<in> set units \<and> unit_id u' = uid \<longleftrightarrow> u' = u" for u' using u by blast
    from False have "0 < radius" by simp
    from neighbor_window_unit[OF order u(1) this] obtain w where
      w: "?f uid = Inr w" "set w = {unit_id v | v. v \<in> set units \<and> within_radius radius units u v}"
      unfolding u(2) by blast
    have "{unit_id v | v u'. v \<in> set units \<and> u' \<in> set units \<and> unit_id u' = uid \<and> within_radius radius units u' v}
        = {unit_id v | v. v \<in> set units \<and> within_radius radius units u v}"
    proof (intro Collect_cong iffI)
      fix x assume "\<exists>v u'. x = unit_id v \<and> v \<in> set units \<and> u' \<in> set units \<and> unit_id u' = uid \<and> within_radius radius units u' v"
      then obtain v u' where "x = unit_id v" "v \<in> set units" "within_radius radius units u' v" "u' = u"
        using only by metis
      then show "\<exists>v. x = unit_id v \<and> v \<in> set units \<and> within_radius radius units u v" by metis
    next
      fix x assume "\<exists>v. x = unit_id v \<and> v \<in> set units \<and> within_radius radius units u v"
      with u show "\<exists>v u'. x = unit_id v \<and> v \<in> set units \<and> u' \<in> set units \<and> unit_id u' = uid \<and> within_radius radius units u' v"
        by metis
    qed
    with w show ?thesis by simp
  next
    case False
    then show ?thesis using location_of_absent[OF False] by (auto simp: neighbor_window_def)
  qed
  then obtain w where w: "\<forall>uid. ?f uid = Inr (w uid) \<and> set (w uid) = {unit_id v | v u. v \<in> set units \<and> u \<in> set units
      \<and> unit_id u = uid \<and> within_radius radius units u v}" by metis
  have "mapE ?f selected = Inr (map w selected)" using w by (intro mapE_total) simp
  moreover have "(\<Union>uid \<in> set selected. set (w uid)) - set selected = near_ids radius units (set selected)"
    unfolding near_ids_def by (simp add: w) blast
  moreover have "neighbor_unit_ids (build_temporal_neighbor_index units) selected radius
      = bindE (mapE ?f selected) (\<lambda>windows. Inr (filter (\<lambda>uid. uid \<notin> set selected) (remdups (concat windows))))"
    using False by (simp add: neighbor_unit_ids_def)
  ultimately show ?thesis
    by (intro exI[of _ "filter (\<lambda>uid. uid \<notin> set selected) (remdups (concat (map w selected)))"])
      (simp flip: set_diff_eq, simp add: set_filter set_diff_eq)
qed

end
