(* ===== verification/Outer_Partition.thy ===== *)
theory Outer_Partition
  imports Temporal_Neighbors
begin

text \<open>
  Feasibility and outer roles of the statistical partition (\<open>assess_partition_feasibility\<close>,
  \<open>_spaced_indices\<close> and \<open>build_outer_partitions\<close> of \<open>mdstats/training_data/partition.py\<close>): units are
  held out for monitoring, calibration and the locked test, their temporal neighbours are purged, and
  the rest is left for development.

  \<open>interior count number\<close> stands for the rounded interior points of NumPy's \<open>linspace\<close>; a set of
  selected units is a list without duplicates.
\<close>

section \<open>Feasibility\<close>

record feasibility_report =
  report_domain :: string
  report_policy_digest :: string
  report_catalog_digest :: string
  outcome :: feasibility_outcome
  available_unit_count :: nat
  available_condition_count :: nat
  requested_cross_validation_folds :: int
  resolved_cross_validation_folds :: int
  calibration_deferred :: bool
  temporal_blocks_only :: bool
  per_condition_unit_counts :: "(string \<times> nat) list"
  missing_outer_role_conditions :: "(string \<times> string list) list"
  reason_codes :: "string list"
  report_schema :: string

definition feasibility_report_schema :: string where
  "feasibility_report_schema = ''mdstats.partition-feasibility-report.v2''"

definition legacy_feasibility_report_schema :: string where
  "legacy_feasibility_report_schema = ''mdstats.partition-feasibility-report.v1''"

definition make_feasibility_report :: "feasibility_report \<Rightarrow> feasibility_report result" where
  "make_feasibility_report r =
     bindE (validate_digest ''policy_digest'' (report_policy_digest r)) (\<lambda>_.
     bindE (validate_digest ''unit_catalog_digest'' (report_catalog_digest r)) (\<lambda>_.
     bindE (guardE (strip (report_domain r) \<noteq> [])
       (TrainingDataInputError (Text ''Invalid feasibility-report identifiers or counts.''))) (\<lambda>_.
     bindE (guardE (0 \<le> requested_cross_validation_folds r \<and> 0 \<le> resolved_cross_validation_folds r)
       (TrainingDataInputError (Text ''Invalid cross-validation fold count.''))) (\<lambda>_.
     bindE (guardE (report_schema r \<in> {feasibility_report_schema, legacy_feasibility_report_schema})
       (TrainingDataInputError (Text ''Unsupported partition-feasibility-report schema.''))) (\<lambda>_.
     Inr (r\<lparr>per_condition_unit_counts := sort (per_condition_unit_counts r),
            missing_outer_role_conditions :=
              sort (map (\<lambda>(role, values). (role, sorted_set values)) (missing_outer_role_conditions r)),
            reason_codes := sorted_set (reason_codes r)\<rparr>))))))"

definition is_usable :: "feasibility_report \<Rightarrow> bool" where
  "is_usable r \<longleftrightarrow> outcome r \<notin> {INSUFFICIENT_FOR_LOCKED_TEST, INSUFFICIENT_FOR_REQUESTED_ROLES}"

definition minimum_total :: "role_budget \<Rightarrow> int" where
  "minimum_total b = development_minimum_independent_units b + outer_monitor_minimum_independent_units b
     + calibration_minimum_independent_units b + locked_interpolation_test_minimum_independent_units b"

text \<open>The branch for fewer units than the roles ask for, which both schema versions share.\<close>

definition scarce_outcome :: "role_budget \<Rightarrow> int \<Rightarrow> bool \<times> feasibility_outcome \<times> string" where
  "scarce_outcome b n =
     (if allow_calibration_deferral b \<and> n \<ge> minimum_total b - calibration_minimum_independent_units b
      then (True, CALIBRATION_DEFERRED, ''calibration_deferred_for_role_budget'')
      else if n < locked_interpolation_test_minimum_independent_units b + development_minimum_independent_units b
      then (False, INSUFFICIENT_FOR_LOCKED_TEST, ''insufficient_units_for_development_and_locked_test'')
      else (False, INSUFFICIENT_FOR_REQUESTED_ROLES, ''insufficient_units_for_requested_outer_roles''))"

definition supported_outcome :: "bool \<Rightarrow> bool \<Rightarrow> bool \<times> feasibility_outcome \<times> string list" where
  "supported_outcome temporal_only some_missing =
     (if temporal_only then (False, SUPPORTED_WITH_TEMPORAL_BLOCKS_ONLY, [''no_independent_replica_or_run_support''])
      else if some_missing
      then (False, SUPPORTED_WITH_TEMPORAL_BLOCKS_ONLY, [''not_all_conditions_support_all_outer_roles''])
      else (False, FULLY_SUPPORTED, []))"

definition resolve_outcome :: "role_budget \<Rightarrow> int \<Rightarrow> bool \<Rightarrow> bool \<Rightarrow> int \<times> int \<times> bool \<times> feasibility_outcome \<times> string list" where
  "resolve_outcome b n temporal_only some_missing =
     (if budget_schema b = legacy_role_budget_schema then
        let folds = cross_validation_folds b; resolved = min folds (max 0 (n - 3)) in
        (folds, resolved,
         if n < minimum_total b then (case scarce_outcome b n of (d, result, reason) \<Rightarrow> (d, result, [reason]))
         else if resolved < 2 then (False, INSUFFICIENT_FOR_REQUESTED_ROLES, [''insufficient_units_for_cross_validation''])
         else if resolved < folds then (False, REDUCED_CROSS_VALIDATION_FOLDS, [''cross_validation_fold_count_reduced''])
         else supported_outcome temporal_only some_missing)
      else
        (0, 0,
         if n < minimum_total b then (case scarce_outcome b n of (d, result, reason) \<Rightarrow> (d, result, [reason]))
         else supported_outcome temporal_only some_missing))"

definition temporal_grade :: "independence_grade \<Rightarrow> bool" where
  "temporal_grade g \<longleftrightarrow> g \<in> {PURGED_TEMPORAL_BLOCK, SLOW_STATE_NOT_DECORRELATED, INSUFFICIENT_INDEPENDENCE}"

definition assess_domain ::
  "('z) digests_scheme \<Rightarrow> partition_policy \<Rightarrow> unit_catalog \<Rightarrow> string \<Rightarrow> feasibility_report result" where
  "assess_domain D active c domain =
     (let units = for_domain c domain;
          groups = group_by (condition_id D) units;
          budget = policy_budget active;
          missing = (if require_condition_coverage_in_outer_roles active
                     then map fst (filter (\<lambda>(_, members). int (length members) < minimum_units_per_condition_for_full_outer_roles active) groups)
                     else []);
          temporal_only = list_all (\<lambda>u. temporal_grade (unit_grade u)) units;
          (requested, resolved, deferred, result, reasons) =
            resolve_outcome budget (int (length units)) temporal_only (missing \<noteq> []) in
      make_feasibility_report
        \<lparr>report_domain = domain, report_policy_digest = policy_digest_of D active,
         report_catalog_digest = catalog_digest_of D c, outcome = result,
         available_unit_count = length units, available_condition_count = length groups,
         requested_cross_validation_folds = requested, resolved_cross_validation_folds = max 0 resolved,
         calibration_deferred = deferred, temporal_blocks_only = temporal_only,
         per_condition_unit_counts = map (\<lambda>(key, members). (key, length members)) groups,
         missing_outer_role_conditions =
           map (\<lambda>role. (role_value role, missing)) [OUTER_MONITOR, UNCERTAINTY_CALIBRATION, LOCKED_INTERPOLATION_TEST],
         reason_codes = reasons,
         report_schema = (if budget_schema budget = legacy_role_budget_schema
                          then legacy_feasibility_report_schema else feasibility_report_schema)\<rparr>)"

definition assess_partition_feasibility ::
  "('z) digests_scheme \<Rightarrow> partition_policy \<Rightarrow> unit_catalog \<Rightarrow> feasibility_report list result" where
  "assess_partition_feasibility D active c =
     bindE (guardE (catalog_policy_digest c = policy_digest_of D active)
       (TrainingDataInputError (Text ''Unit catalog and feasibility policy differ.''))) (\<lambda>_.
     mapE (assess_domain D active c) (domain_ids c))"

section \<open>Spaced indices\<close>

function climb :: "int \<Rightarrow> int list \<Rightarrow> int \<Rightarrow> int" where
  "climb count result candidate =
     (if candidate \<in> set result \<and> candidate + 1 < count then climb count result (candidate + 1) else candidate)"
  by pat_completeness auto
termination by (relation "measure (\<lambda>(count, result, candidate). nat (count - candidate))") auto

function descend :: "int list \<Rightarrow> int \<Rightarrow> int" where
  "descend result candidate =
     (if candidate \<in> set result \<and> 0 \<le> candidate - 1 then descend result (candidate - 1) else candidate)"
  by pat_completeness auto
termination by (relation "measure (\<lambda>(result, candidate). nat candidate)") auto

declare climb.simps [simp del] descend.simps [simp del]

definition place_index :: "int \<Rightarrow> int \<Rightarrow> int list \<Rightarrow> int list" where
  "place_index count candidate result = result @ [descend result (climb count result candidate)]"

definition spaced_indices :: "(int \<Rightarrow> int \<Rightarrow> int list) \<Rightarrow> int \<Rightarrow> int \<Rightarrow> int list result" where
  "spaced_indices interior count number =
     (if number \<le> 0 then Inr []
      else if count < number then
        Inl (TrainingDataInputError (Text ''Not enough units for requested spaced indices.''))
      else if number = 1 then Inr [count - 1]
      else Inr (sort (fold (place_index count) (interior count number) [])))"

text \<open>What the code relies on: there are \<open>number\<close> interior points, all inside the range.\<close>

definition interior_points :: "(int \<Rightarrow> int \<Rightarrow> int list) \<Rightarrow> bool" where
  "interior_points interior \<longleftrightarrow> (\<forall>count number. 2 \<le> number \<and> number \<le> count \<longrightarrow>
     int (length (interior count number)) = number \<and> (\<forall>x \<in> set (interior count number). 0 \<le> x \<and> x < count))"

section \<open>Outer partitions\<close>

record role_assignment =
  assigned_unit :: string
  assigned_domain :: string
  assigned_role :: outer_role
  assignment_reason_codes :: "string list"

definition make_role_assignment :: "role_assignment \<Rightarrow> role_assignment result" where
  "make_role_assignment a =
     bindE (validate_digest ''unit_id'' (assigned_unit a)) (\<lambda>_.
     bindE (guardE (strip (assigned_domain a) \<noteq> [])
       (TrainingDataInputError (Text ''label_domain_id must be non-empty.''))) (\<lambda>_.
     Inr (a\<lparr>assignment_reason_codes := sorted_set (assignment_reason_codes a)\<rparr>)))"

record outer_partition =
  partition_domain :: string
  partition_policy_digest :: string
  partition_catalog_digest :: string
  partition_report_digest :: string
  assignments :: "role_assignment list"

definition make_outer_partition :: "outer_partition \<Rightarrow> outer_partition result" where
  "make_outer_partition p =
     bindE (mapE (\<lambda>(name, v). validate_digest name v)
       [(''policy_digest'', partition_policy_digest p), (''unit_catalog_digest'', partition_catalog_digest p),
        (''feasibility_report_digest'', partition_report_digest p)]) (\<lambda>_.
     let sorted = sort_key assigned_unit (assignments p) in
     bindE (guardE (sorted \<noteq> [] \<and> distinct (map assigned_unit sorted))
       (TrainingDataInputError (Text ''Outer partition must classify every unit once.''))) (\<lambda>_.
     bindE (guardE (list_all (\<lambda>a. assigned_domain a = partition_domain p) sorted)
       (TrainingDataInputError (Text ''Outer partition mixes label domains.''))) (\<lambda>_.
     Inr (p\<lparr>assignments := sorted\<rparr>))))"

definition role_for :: "outer_partition \<Rightarrow> string \<Rightarrow> outer_role result" where
  "role_for p uid = lookupE (dict_of (map (\<lambda>a. (assigned_unit a, assigned_role a)) (assignments p))) uid"

definition units_for :: "outer_partition \<Rightarrow> outer_role \<Rightarrow> string list" where
  "units_for p role = map assigned_unit (filter (\<lambda>a. assigned_role a = role) (assignments p))"

section \<open>Spaced indices are distinct and in range\<close>

lemma climb_range:
  "0 \<le> c \<Longrightarrow> c < count \<Longrightarrow> c \<le> climb count result c \<and> climb count result c < count
     \<and> (climb count result c \<notin> set result \<or> climb count result c = count - 1)"
proof (induction count result c rule: climb.induct)
  case (1 count result c)
  then show ?case by (subst (1 2 3 4) climb.simps) auto
qed

lemma descend_range:
  "0 \<le> c \<Longrightarrow> 0 \<le> descend result c \<and> descend result c \<le> c
     \<and> (descend result c \<in> set result \<longrightarrow> {0..c} \<subseteq> set result)"
proof (induction result c rule: descend.induct)
  case (1 result c)
  show ?case
  proof (cases "c \<in> set result \<and> 0 \<le> c - 1")
    case True
    have "{0..c} = insert c {0..c - 1}" using True by auto
    with 1(1) True show ?thesis by (subst (1 2 3) descend.simps) auto
  next
    case False
    have "c = 0" if "c \<in> set result" using that False 1(2) by linarith
    with False 1(2) show ?thesis by (subst (1 2 3) descend.simps) auto
  qed
qed

lemma free_index:
  assumes "0 \<le> c" and "c < count" and "distinct result" and "set result \<subseteq> {0..<count}" and "int (length result) < count"
  shows "descend result (climb count result c) \<in> {0..<count} - set result"
proof -
  note up = climb_range[OF assms(1,2), of result]
  then have pos: "0 \<le> climb count result c" using assms(1) by linarith
  note down = descend_range[OF pos, of result]
  have "descend result (climb count result c) \<notin> set result"
  proof
    assume "descend result (climb count result c) \<in> set result"
    with down have full: "{0..climb count result c} \<subseteq> set result" by blast
    then have "climb count result c \<in> set result" using pos by auto
    with up have "climb count result c = count - 1" by blast
    with full have "{0..<count} \<subseteq> set result" by force
    then have "card {0..<count} \<le> length result" by (meson List.finite_set card_length card_mono le_trans)
    with assms(5) show False by simp
  qed
  with down up show ?thesis by auto
qed

lemma place_indices:
  assumes "distinct result" and "set result \<subseteq> {0..<count}" and "set cs \<subseteq> {0..<count}"
    and "int (length result + length cs) \<le> count"
  shows "distinct (fold (place_index count) cs result) \<and> set (fold (place_index count) cs result) \<subseteq> {0..<count}
    \<and> length (fold (place_index count) cs result) = length result + length cs"
  using assms
proof (induction cs arbitrary: result)
  case (Cons c cs)
  then have "descend result (climb count result c) \<in> {0..<count} - set result"
    by (intro free_index) auto
  with Cons.prems Cons.IH[of "place_index count c result"] show ?case by (simp add: place_index_def)
qed simp

lemma spaced_indices_exact:
  assumes "interior_points interior" and "number \<le> count"
  shows "\<exists>xs. spaced_indices interior count number = Inr xs \<and> sorted xs \<and> distinct xs
    \<and> length xs = nat number \<and> set xs \<subseteq> {0..<count}"
proof -
  consider "number \<le> 0" | "number = 1" | "2 \<le> number" by linarith
  then show ?thesis
  proof cases
    case 3
    have raw: "int (length (interior count number)) = number" "set (interior count number) \<subseteq> {0..<count}"
      using assms 3 unfolding interior_points_def by auto
    note place_indices[of "[]" count "interior count number"]
    with raw assms(2) 3 show ?thesis by (simp add: spaced_indices_def)
  qed (use assms(2) in \<open>simp_all add: spaced_indices_def\<close>)
qed

lemma spaced_indices_error:
  "spaced_indices interior count number = Inl e \<longleftrightarrow> 0 < number \<and> count < number
     \<and> e = TrainingDataInputError (Text ''Not enough units for requested spaced indices.'')"
  by (auto simp: spaced_indices_def)

section \<open>Choosing the held-out units\<close>

record outer_digests = digests +
  report_digest_of :: "feasibility_report \<Rightarrow> string"

type_synonym selection = "outer_role \<Rightarrow> string list"

definition select_unit :: "outer_role \<Rightarrow> partition_unit \<Rightarrow> selection \<Rightarrow> selection" where
  "select_unit role u selected = selected(role := List.insert (unit_id u) (selected role))"

definition role_sequence :: "bool \<Rightarrow> outer_role list" where
  "role_sequence deferred = [OUTER_MONITOR] @ (if deferred then [] else [UNCERTAINTY_CALIBRATION])
     @ [LOCKED_INTERPOLATION_TEST]"

text \<open>\<open>xs[i]\<close> of Python, negative positions included.\<close>

definition item_at :: "'a list \<Rightarrow> int \<Rightarrow> 'a result" where
  "item_at xs i = (if 0 \<le> i then nthE xs (nat i)
     else if - int (length xs) \<le> i then nthE xs (nat (int (length xs) + i)) else Inl IndexError)"

definition select_condition ::
  "(int \<Rightarrow> int \<Rightarrow> int list) \<Rightarrow> partition_policy \<Rightarrow> bool \<Rightarrow> partition_unit list \<Rightarrow> selection \<Rightarrow> selection result" where
  "select_condition interior active deferred members selected =
     (let ordered = sort_key (\<lambda>u. (run_id u, source_frame_start u)) members; roles = role_sequence deferred in
      if require_condition_coverage_in_outer_roles active
         \<and> minimum_units_per_condition_for_full_outer_roles active \<le> int (length ordered) then
        bindE (spaced_indices interior (int (length ordered)) (int (length roles))) (\<lambda>positions.
        bindE (guardE (length positions = length roles)
          (ValueError (Text ''zip() arguments have different lengths''))) (\<lambda>_.
        foldE (\<lambda>(role, position) selected. bindE (item_at ordered position) (\<lambda>u. Inr (select_unit role u selected)))
          (zip roles positions) selected))
      else Inr selected)"

definition select_anchors ::
  "('z) digests_scheme \<Rightarrow> (int \<Rightarrow> int \<Rightarrow> int list) \<Rightarrow> partition_policy \<Rightarrow> bool \<Rightarrow> partition_unit list \<Rightarrow> selection result" where
  "select_anchors D interior active deferred units =
     (let groups = group_by (condition_id D) units in
      foldE (\<lambda>key selected. bindE (lookupE groups key) (\<lambda>members.
        select_condition interior active deferred members selected)) (sort (map fst groups)) (\<lambda>_. []))"

definition role_minimum :: "role_budget \<Rightarrow> bool \<Rightarrow> outer_role \<Rightarrow> int" where
  "role_minimum b deferred role =
     (if role = OUTER_MONITOR then outer_monitor_minimum_independent_units b
      else if role = UNCERTAINTY_CALIBRATION then (if deferred then 0 else calibration_minimum_independent_units b)
      else locked_interpolation_test_minimum_independent_units b)"

text \<open>The loop pops the last candidate until the role has its minimum.\<close>

function fill_role :: "int \<Rightarrow> outer_role \<Rightarrow> partition_unit list \<times> selection \<Rightarrow> (partition_unit list \<times> selection) result" where
  "fill_role minimum role (candidates, selected) =
     (if int (length (selected role)) < minimum then
        if candidates = [] then
          Inl (TrainingDataInputError (Fmt ''Unable to satisfy minimum support for {}.'' [AStr (role_value role)]))
        else fill_role minimum role (butlast candidates, select_unit role (last candidates) selected)
      else Inr (candidates, selected))"
  by pat_completeness auto
termination by (relation "measure (\<lambda>(minimum, role, candidates, selected). length candidates)") auto

declare fill_role.simps [simp del]

definition occupied_ids :: "selection \<Rightarrow> string list" where
  "occupied_ids selected =
     remdups (concat (map selected [LOCKED_INTERPOLATION_TEST, UNCERTAINTY_CALIBRATION, OUTER_MONITOR]))"

definition global_fallback ::
  "('z) digests_scheme \<Rightarrow> partition_policy \<Rightarrow> bool \<Rightarrow> partition_unit list \<Rightarrow> selection \<Rightarrow> selection result" where
  "global_fallback D active deferred units selected =
     (if allow_global_role_fallback active then
        let candidates = sort_key (\<lambda>u. (condition_id D u, run_id u, source_frame_start u))
              (filter (\<lambda>u. unit_id u \<notin> set (occupied_ids selected)) units) in
        bindE (foldE (\<lambda>role. fill_role (role_minimum (policy_budget active) deferred role) role)
          [LOCKED_INTERPOLATION_TEST, UNCERTAINTY_CALIBRATION, OUTER_MONITOR] (candidates, selected))
          (\<lambda>(_, selected'). Inr selected')
      else Inr selected)"

definition outer_role_of :: "selection \<Rightarrow> string list \<Rightarrow> string \<Rightarrow> outer_role \<times> string" where
  "outer_role_of selected purged uid =
     (if uid \<in> set (selected LOCKED_INTERPOLATION_TEST) then (LOCKED_INTERPOLATION_TEST, ''deterministic_locked_test_anchor'')
      else if uid \<in> set (selected UNCERTAINTY_CALIBRATION) then (UNCERTAINTY_CALIBRATION, ''deterministic_calibration_anchor'')
      else if uid \<in> set (selected OUTER_MONITOR) then (OUTER_MONITOR, ''deterministic_outer_monitor_anchor'')
      else if uid \<in> set purged then (PURGED, ''same_run_neighbor_of_outer_evidence'')
      else (DEVELOPMENT, ''remaining_eligible_development_unit''))"

section \<open>One partition for each label domain\<close>

definition assign_roles :: "string \<Rightarrow> selection \<Rightarrow> string list \<Rightarrow> partition_unit list \<Rightarrow> role_assignment list result" where
  "assign_roles domain selected purged units =
     mapE (\<lambda>u. case outer_role_of selected purged (unit_id u) of (role, reason) \<Rightarrow>
       make_role_assignment \<lparr>assigned_unit = unit_id u, assigned_domain = domain, assigned_role = role,
         assignment_reason_codes = [reason]\<rparr>) units"

definition build_domain_partition ::
  "('z) outer_digests_scheme \<Rightarrow> (int \<Rightarrow> int \<Rightarrow> int list) \<Rightarrow> partition_policy \<Rightarrow> unit_catalog \<Rightarrow> feasibility_report \<Rightarrow> string
   \<Rightarrow> outer_partition result" where
  "build_domain_partition D interior active c report domain =
     bindE (guardE (is_usable report)
       (TrainingDataInputError (Fmt ''Label domain {} is not feasible for outer partitioning: {}.''
         [AStr domain, AStr (outcome_value (outcome report))]))) (\<lambda>_.
     let units = for_domain c domain; budget = policy_budget active in
     bindE (select_anchors D interior active (calibration_deferred report) units) (\<lambda>anchors.
     bindE (global_fallback D active (calibration_deferred report) units anchors) (\<lambda>selected.
     let occupied = occupied_ids selected in
     bindE (neighbor_unit_ids (build_temporal_neighbor_index units) occupied (purge_units_between_roles budget)) (\<lambda>near.
     let purged = filter (\<lambda>uid. uid \<notin> set occupied) near in
     bindE (assign_roles domain selected purged units) (\<lambda>rows.
     let development = length (filter (\<lambda>a. assigned_role a = DEVELOPMENT) rows) in
     bindE (guardE (development_minimum_independent_units budget \<le> int development)
       (TrainingDataInputError (Fmt ''Outer-role purge leaves only {} development units; minimum is {}.''
         [ANat development, AInt (development_minimum_independent_units budget)]))) (\<lambda>_.
     make_outer_partition \<lparr>partition_domain = domain, partition_policy_digest = policy_digest_of D active,
       partition_catalog_digest = catalog_digest_of D c, partition_report_digest = report_digest_of D report,
       assignments = rows\<rparr>))))))"

definition build_outer_partitions ::
  "('z) outer_digests_scheme \<Rightarrow> (int \<Rightarrow> int \<Rightarrow> int list) \<Rightarrow> partition_policy \<Rightarrow> unit_catalog \<Rightarrow> feasibility_report list
   \<Rightarrow> outer_partition list result" where
  "build_outer_partitions D interior active c reports =
     mapE (\<lambda>domain. bindE (lookupE (dict_of (map (\<lambda>r. (report_domain r, r)) reports)) domain) (\<lambda>report.
       build_domain_partition D interior active c report domain)) (domain_ids c)"

section \<open>Selections stay disjoint\<close>

definition held_out_roles :: "outer_role set" where
  "held_out_roles = {OUTER_MONITOR, UNCERTAINTY_CALIBRATION, LOCKED_INTERPOLATION_TEST}"

definition selected_ids :: "selection \<Rightarrow> string set" where
  "selected_ids selected = (\<Union>role \<in> held_out_roles. set (selected role))"

definition selection_ok :: "partition_unit list \<Rightarrow> selection \<Rightarrow> bool" where
  "selection_ok units selected \<longleftrightarrow> (\<forall>role. distinct (selected role))
     \<and> (\<forall>role. role \<notin> held_out_roles \<longrightarrow> selected role = [])
     \<and> selected_ids selected \<subseteq> unit_id ` set units
     \<and> (\<forall>r r'. r \<noteq> r' \<longrightarrow> set (selected r) \<inter> set (selected r') = {})"

definition grows :: "selection \<Rightarrow> selection \<Rightarrow> string set \<Rightarrow> bool" where
  "grows selected selected' new \<longleftrightarrow> (\<forall>role. set (selected role) \<subseteq> set (selected' role))
     \<and> selected_ids selected' \<subseteq> selected_ids selected \<union> new"

lemma selected_role_ids: "selection_ok units selected \<Longrightarrow> set (selected role) \<subseteq> selected_ids selected"
  by (cases "role \<in> held_out_roles") (auto simp: selection_ok_def selected_ids_def)

lemma selected_ids_select_unit:
  "role \<in> held_out_roles \<Longrightarrow> selected_ids (select_unit role u selected) = insert (unit_id u) (selected_ids selected)"
  by (auto simp: selected_ids_def select_unit_def split: if_splits)

lemma select_unit_ok:
  assumes "selection_ok units selected" and "role \<in> held_out_roles" and "u \<in> set units"
    and "unit_id u \<notin> selected_ids selected"
  shows "selection_ok units (select_unit role u selected)"
proof -
  have other: "unit_id u \<notin> set (selected r)" for r
    using selected_role_ids[OF assms(1), of r] assms(4) by blast
  then show ?thesis
    using assms(1-3) unfolding selection_ok_def selected_ids_select_unit[OF assms(2)]
    by (auto simp: select_unit_def)
qed

lemma grows_refl [simp]: "grows selected selected new"
  by (simp add: grows_def)

lemma grows_trans: "grows s s' A \<Longrightarrow> grows s' s'' B \<Longrightarrow> grows s s'' (A \<union> B)"
  unfolding grows_def by blast

lemma grows_mono: "grows s s' A \<Longrightarrow> A \<subseteq> B \<Longrightarrow> grows s s' B"
  unfolding grows_def by blast

lemma grows_select_unit:
  "role \<in> held_out_roles \<Longrightarrow> grows selected (select_unit role u selected) {unit_id u}"
  unfolding grows_def by (simp add: selected_ids_select_unit) (simp add: select_unit_def subset_insertI)

lemma place_roles:
  assumes "length roles = length positions" and "selection_ok units selected"
    and "distinct (map unit_id ordered)" and "set ordered \<subseteq> set units" and "set roles \<subseteq> held_out_roles"
    and "distinct positions" and "set positions \<subseteq> {0..<int (length ordered)}"
    and "\<forall>i \<in> set positions. unit_id (ordered ! nat i) \<notin> selected_ids selected" and "distinct roles"
  shows "\<exists>selected'. foldE (\<lambda>(role, position) selected. bindE (item_at ordered position) (\<lambda>u. Inr (select_unit role u selected)))
      (zip roles positions) selected = Inr selected' \<and> selection_ok units selected'
    \<and> grows selected selected' (unit_id ` set ordered)
    \<and> (\<forall>role \<in> set roles. \<exists>u \<in> set ordered. unit_id u \<in> set (selected' role))
    \<and> (\<forall>r. length (selected' r) = length (selected r) + (if r \<in> set roles then 1 else 0))"
  using assms
proof (induction roles positions arbitrary: selected rule: list_induct2)
  case (Cons role roles position positions)
  define u where "u = ordered ! nat position"
  from Cons.prems(6) have pos: "0 \<le> position" "nat position < length ordered" by auto
  then have u: "u \<in> set ordered" and item: "item_at ordered position = Inr u"
    by (simp_all add: u_def item_at_def nthE_def)
  have role: "role \<in> held_out_roles" and fresh: "unit_id u \<notin> selected_ids selected"
    using Cons.prems(4,7) by (auto simp: u_def)
  define selected1 where "selected1 = select_unit role u selected"
  have ok1: "selection_ok units selected1"
    unfolding selected1_def using Cons.prems(1,3) role fresh u by (intro select_unit_ok) auto
  have grow1: "grows selected selected1 {unit_id u}" unfolding selected1_def by (rule grows_select_unit[OF role])
  have "\<forall>i \<in> set positions. unit_id (ordered ! nat i) \<notin> selected_ids selected1"
  proof
    fix i assume i: "i \<in> set positions"
    have "i \<in> {0..<int (length ordered)}" using i Cons.prems(6) by (meson list.set_intros(2) subsetD)
    then have "0 \<le> i" "nat i < length ordered" "i \<noteq> position" using i Cons.prems(5) by auto
    then have "unit_id (ordered ! nat i) \<noteq> unit_id u"
      using pos Cons.prems(2) unfolding u_def by (auto simp: distinct_map nth_eq_iff_index_eq dest!: inj_onD)
    with i Cons.prems(7) show "unit_id (ordered ! nat i) \<notin> selected_ids selected1"
      unfolding selected1_def selected_ids_select_unit[OF role] by auto
  qed
  from Cons.IH[OF ok1 Cons.prems(2,3) _ _ _ this] Cons.prems(4-6,8) obtain selected' where rest:
    "foldE (\<lambda>(role, position) selected. bindE (item_at ordered position) (\<lambda>u. Inr (select_unit role u selected)))
      (zip roles positions) selected1 = Inr selected'"
    "selection_ok units selected'" "grows selected1 selected' (unit_id ` set ordered)"
    "\<forall>role \<in> set roles. \<exists>u \<in> set ordered. unit_id u \<in> set (selected' role)"
    "\<forall>r. length (selected' r) = length (selected1 r) + (if r \<in> set roles then 1 else 0)" by auto
  have "unit_id u \<notin> set (selected role)" using fresh selected_role_ids[OF Cons.prems(1)] by blast
  then have "length (selected1 r) = length (selected r) + (if r = role then 1 else 0)" for r
    by (simp add: selected1_def select_unit_def List.insert_def)
  then have "\<forall>r. length (selected' r) = length (selected r) + (if r \<in> set (role # roles) then 1 else 0)"
    using rest(5) Cons.prems(8) by auto
  moreover have "unit_id u \<in> set (selected' role)"
    using rest(3) unfolding grows_def selected1_def select_unit_def by (auto dest!: spec[of _ role])
  moreover have "grows selected selected' (unit_id ` set ordered)"
    using grows_trans[OF grow1 rest(3)] by (rule grows_mono) (use u in auto)
  ultimately show ?case using rest(1,2,4) u item by (intro exI[of _ selected']) (auto simp: selected1_def)
qed auto

text \<open>A condition with enough units gives one unit to every role.\<close>

definition enough_units :: "partition_policy \<Rightarrow> 'a list \<Rightarrow> bool" where
  "enough_units active members \<longleftrightarrow> require_condition_coverage_in_outer_roles active
     \<and> minimum_units_per_condition_for_full_outer_roles active \<le> int (length members)"

definition covers :: "partition_policy \<Rightarrow> bool \<Rightarrow> partition_unit list \<Rightarrow> selection \<Rightarrow> bool" where
  "covers active deferred members selected \<longleftrightarrow>
     (require_condition_coverage_in_outer_roles active
      \<and> minimum_units_per_condition_for_full_outer_roles active \<le> int (length members) \<longrightarrow>
      (\<forall>role \<in> set (role_sequence deferred). \<exists>u \<in> set members. unit_id u \<in> set (selected role)))"

lemma covers_grows: "covers active deferred members s \<Longrightarrow> grows s s' new \<Longrightarrow> covers active deferred members s'"
  unfolding covers_def grows_def by blast

lemma role_sequence_held: "set (role_sequence deferred) \<subseteq> held_out_roles"
  by (auto simp: role_sequence_def held_out_roles_def)

lemma role_sequence_distinct: "distinct (role_sequence deferred)"
  by (simp add: role_sequence_def)

lemma select_condition_ok:
  assumes "interior_points interior" and ok: "selection_ok units selected"
    and "distinct (map unit_id members)" and "set members \<subseteq> set units"
    and fresh: "unit_id ` set members \<inter> selected_ids selected = {}"
    and run: "select_condition interior active deferred members selected = Inr selected'"
  shows "selection_ok units selected' \<and> grows selected selected' (unit_id ` set members)
    \<and> covers active deferred members selected'
    \<and> (\<forall>role. length (selected' role) = length (selected role)
         + (if enough_units active members \<and> role \<in> set (role_sequence deferred) then 1 else 0))"
proof (cases "require_condition_coverage_in_outer_roles active
    \<and> minimum_units_per_condition_for_full_outer_roles active \<le> int (length members)")
  case False
  with run have "selected' = selected" by (auto simp: select_condition_def Let_def)
  with False ok show ?thesis by (auto simp: covers_def enough_units_def)
next
  case True
  define ordered where "ordered = sort_key (\<lambda>u. (run_id u, source_frame_start u)) members"
  define roles where "roles = role_sequence deferred"
  have ord: "set ordered = set members" "length ordered = length members" "distinct (map unit_id ordered)"
    using assms(3) unfolding ordered_def by (simp_all add: distinct_map)
  from run True obtain positions where positions:
      "spaced_indices interior (int (length ordered)) (int (length roles)) = Inr positions"
      "length positions = length roles"
      "foldE (\<lambda>(role, position) selected. bindE (item_at ordered position) (\<lambda>u. Inr (select_unit role u selected)))
        (zip roles positions) selected = Inr selected'"
    unfolding select_condition_def Let_def ordered_def[symmetric] roles_def[symmetric] ord(2)
    by (auto simp: result_simps ord(2))
  have "int (length roles) \<le> int (length ordered)"
    using positions(1) spaced_indices_error[of interior "int (length ordered)" "int (length roles)"]
    by (cases "roles = []") (force simp: not_le[symmetric])+
  from spaced_indices_exact[OF assms(1) this] positions(1)
  have "distinct positions" "set positions \<subseteq> {0..<int (length ordered)}" by auto
  then have "\<exists>s. foldE (\<lambda>(role, position) selected. bindE (item_at ordered position) (\<lambda>u. Inr (select_unit role u selected)))
      (zip roles positions) selected = Inr s \<and> selection_ok units s
    \<and> grows selected s (unit_id ` set ordered) \<and> (\<forall>role \<in> set roles. \<exists>u \<in> set ordered. unit_id u \<in> set (s role))
    \<and> (\<forall>r. length (s r) = length (selected r) + (if r \<in> set roles then 1 else 0))"
  proof (intro place_roles)
    show "\<forall>i \<in> set positions. unit_id (ordered ! nat i) \<notin> selected_ids selected"
    proof
      fix i assume "i \<in> set positions"
      with \<open>set positions \<subseteq> {0..<int (length ordered)}\<close> have "i \<in> {0..<int (length ordered)}" by blast
      then have "ordered ! nat i \<in> set members" unfolding ord(1)[symmetric] by (intro nth_mem) auto
      with fresh show "unit_id (ordered ! nat i) \<notin> selected_ids selected" by blast
    qed
  qed (use ok ord assms(4) positions(2) role_sequence_held role_sequence_distinct in \<open>simp_all add: roles_def\<close>)
  with positions(3) ord(1) True show ?thesis by (auto simp: covers_def roles_def enough_units_def)
qed

definition covered_condition :: "('z) digests_scheme \<Rightarrow> partition_policy \<Rightarrow> partition_unit list \<Rightarrow> string \<Rightarrow> bool" where
  "covered_condition D active units key \<longleftrightarrow> enough_units active (filter (\<lambda>u. condition_id D u = key) units)"

lemma select_anchors_loop:
  assumes "interior_points interior" and "distinct (map unit_id units)"
    and "distinct keys" and "selection_ok units selected"
    and "\<forall>u \<in> set units. condition_id D u \<in> set keys \<longrightarrow> unit_id u \<notin> selected_ids selected"
    and "foldE (\<lambda>key selected. bindE (lookupE (group_by (condition_id D) units) key) (\<lambda>members.
        select_condition interior active deferred members selected)) keys selected = Inr selected'"
  shows "selection_ok units selected' \<and> grows selected selected' (unit_id ` set units)
    \<and> (\<forall>key \<in> set keys. covers active deferred (filter (\<lambda>u. condition_id D u = key) units) selected')
    \<and> (\<forall>role. length (selected' role) = length (selected role) + (if role \<in> set (role_sequence deferred)
          then length (filter (covered_condition D active units) keys) else 0))"
  using assms(3-)
proof (induction keys arbitrary: selected)
  case Nil
  then show ?case by simp
next
  case (Cons key keys)
  define members where "members = filter (\<lambda>u. condition_id D u = key) units"
  from Cons.prems(4) obtain selected1 where
    first: "select_condition interior active deferred members selected = Inr selected1" and
    rest: "foldE (\<lambda>key selected. bindE (lookupE (group_by (condition_id D) units) key) (\<lambda>members.
        select_condition interior active deferred members selected)) keys selected1 = Inr selected'"
    by (auto simp: result_simps map_of_group_by members_def split: if_splits)
  have "distinct (map unit_id members)" "set members \<subseteq> set units"
    using assms(2) by (auto simp: members_def distinct_map inj_on_def)
  moreover have "unit_id ` set members \<inter> selected_ids selected = {}"
    using Cons.prems(3) by (auto simp: members_def)
  ultimately have one: "selection_ok units selected1" "grows selected selected1 (unit_id ` set members)"
    "covers active deferred members selected1"
    "\<forall>role. length (selected1 role) = length (selected role)
         + (if enough_units active members \<and> role \<in> set (role_sequence deferred) then 1 else 0)"
    using select_condition_ok[OF assms(1) Cons.prems(2) _ _ _ first] by blast+
  have "\<forall>u \<in> set units. condition_id D u \<in> set keys \<longrightarrow> unit_id u \<notin> selected_ids selected1"
  proof (intro ballI impI notI)
    fix u assume u: "u \<in> set units" "condition_id D u \<in> set keys" "unit_id u \<in> selected_ids selected1"
    with Cons.prems(3) have "unit_id u \<notin> selected_ids selected" by simp
    with u(3) one(2) obtain m where "m \<in> set members" "unit_id m = unit_id u" unfolding grows_def by fastforce
    then have "condition_id D u = key" using u(1) assms(2) by (auto simp: members_def distinct_map dest: inj_onD)
    with u(2) Cons.prems(1) show False by simp
  qed
  from Cons.IH[OF _ one(1) this rest] Cons.prems(1) have more:
    "selection_ok units selected'" "grows selected1 selected' (unit_id ` set units)"
    "\<forall>key \<in> set keys. covers active deferred (filter (\<lambda>u. condition_id D u = key) units) selected'"
    "\<forall>role. length (selected' role) = length (selected1 role) + (if role \<in> set (role_sequence deferred)
          then length (filter (covered_condition D active units) keys) else 0)" by auto
  have "\<forall>role. length (selected' role) = length (selected role) + (if role \<in> set (role_sequence deferred)
          then length (filter (covered_condition D active units) (key # keys)) else 0)"
    using one(4) more(4) by (simp add: covered_condition_def members_def)
  moreover have "grows selected selected' (unit_id ` set units)"
    using grows_trans[OF one(2) more(2)] by (rule grows_mono) (auto simp: members_def)
  moreover have "covers active deferred members selected'" by (rule covers_grows[OF one(3) more(2)])
  ultimately show ?case using more by (auto simp: members_def)
qed

lemma select_anchors_ok:
  assumes "interior_points interior" and "distinct (map unit_id units)"
    and "select_anchors D interior active deferred units = Inr selected"
  shows "selection_ok units selected
    \<and> (\<forall>u \<in> set units. covers active deferred (filter (\<lambda>v. condition_id D v = condition_id D u) units) selected)
    \<and> (\<forall>role. length (selected role) = (if role \<in> set (role_sequence deferred)
          then card {key \<in> condition_id D ` set units. covered_condition D active units key} else 0))"
proof -
  have start: "selection_ok units (\<lambda>_. [])" "selected_ids (\<lambda>_. []) = {}"
    by (simp_all add: selection_ok_def selected_ids_def)
  define keys where "keys = sort (map fst (group_by (condition_id D) units))"
  have keys: "distinct keys" "set keys = condition_id D ` set units" by (simp_all add: keys_def)
  then have "length (filter (covered_condition D active units) keys)
      = card {key \<in> condition_id D ` set units. covered_condition D active units key}"
    using distinct_card[of "filter (covered_condition D active units) keys"] by simp
  with select_anchors_loop[OF assms(1,2) keys(1) start(1) _ assms(3)[unfolded select_anchors_def Let_def, folded keys_def]]
  show ?thesis by (simp add: start(2) keys(2))
qed

lemma fill_role_ok:
  assumes "fill_role minimum role (candidates, selected) = Inr (candidates', selected')"
    and "role \<in> held_out_roles" and "selection_ok units selected"
    and "distinct (map unit_id candidates)" and "set candidates \<subseteq> set units"
    and "unit_id ` set candidates \<inter> selected_ids selected = {}"
  shows "selection_ok units selected' \<and> grows selected selected' (unit_id ` set units)
    \<and> minimum \<le> int (length (selected' role))
    \<and> distinct (map unit_id candidates') \<and> set candidates' \<subseteq> set units
    \<and> unit_id ` set candidates' \<inter> selected_ids selected' = {}"
  using assms
proof (induction minimum role "(candidates, selected)" arbitrary: candidates selected rule: fill_role.induct)
  case (1 minimum role candidates selected)
  show ?case
  proof (cases "int (length (selected role)) < minimum")
    case False
    with "1.prems" show ?thesis by (subst (asm) fill_role.simps) auto
  next
    case True
    with "1.prems"(1) have nonempty: "candidates \<noteq> []" by (subst (asm) fill_role.simps) (auto split: if_splits)
    define u where "u = last candidates"
    have split: "candidates = butlast candidates @ [u]" using nonempty by (simp add: u_def)
    have next_run: "fill_role minimum role (butlast candidates, select_unit role u selected) = Inr (candidates', selected')"
      using "1.prems"(1) True nonempty by (subst (asm) fill_role.simps) (simp add: u_def)
    have u: "u \<in> set units" "unit_id u \<notin> selected_ids selected"
      using "1.prems"(5,6) nonempty unfolding u_def by (auto dest: last_in_set)
    have ids: "distinct (map unit_id (butlast candidates) @ [unit_id u])"
      using "1.prems"(4) by (subst (asm) split) simp
    have "unit_id ` set (butlast candidates) \<inter> selected_ids (select_unit role u selected) = {}"
      using "1.prems"(6) ids unfolding selected_ids_select_unit[OF "1.prems"(2)] by (auto dest: in_set_butlastD)
    with "1.hyps"[OF True nonempty] next_run "1.prems" ids u
    have "selection_ok units selected' \<and> grows (select_unit role u selected) selected' (unit_id ` set units)
      \<and> minimum \<le> int (length (selected' role)) \<and> distinct (map unit_id candidates') \<and> set candidates' \<subseteq> set units
      \<and> unit_id ` set candidates' \<inter> selected_ids selected' = {}"
      by (auto simp: u_def[symmetric] intro!: select_unit_ok dest: in_set_butlastD)
    moreover have "grows selected (select_unit role u selected) (unit_id ` set units)"
      using grows_select_unit[OF "1.prems"(2), of selected u] by (rule grows_mono) (use u(1) in simp)
    ultimately show ?thesis using grows_trans[of selected _ "unit_id ` set units"] by (metis Un_absorb)
  qed
qed

lemma fill_roles_ok:
  assumes "foldE (\<lambda>role. fill_role (m role) role) roles (candidates, selected) = Inr (candidates', selected')"
    and "set roles \<subseteq> held_out_roles" and "selection_ok units selected"
    and "distinct (map unit_id candidates)" and "set candidates \<subseteq> set units"
    and "unit_id ` set candidates \<inter> selected_ids selected = {}"
  shows "selection_ok units selected' \<and> grows selected selected' (unit_id ` set units)
    \<and> (\<forall>role \<in> set roles. m role \<le> int (length (selected' role)))"
  using assms
proof (induction roles arbitrary: candidates selected)
  case (Cons role roles)
  then obtain candidates1 selected1 where
    first: "fill_role (m role) role (candidates, selected) = Inr (candidates1, selected1)" and
    rest: "foldE (\<lambda>role. fill_role (m role) role) roles (candidates1, selected1) = Inr (candidates', selected')"
    by (auto simp: result_simps)
  have one: "selection_ok units selected1" "grows selected selected1 (unit_id ` set units)"
    "m role \<le> int (length (selected1 role))" "distinct (map unit_id candidates1)" "set candidates1 \<subseteq> set units"
    "unit_id ` set candidates1 \<inter> selected_ids selected1 = {}"
    using fill_role_ok[OF first _ Cons.prems(3-6)] Cons.prems(2) by auto
  from Cons.IH[OF rest _ one(1,4-6)] Cons.prems(2)
  have more: "selection_ok units selected'" "grows selected1 selected' (unit_id ` set units)"
    "\<forall>role \<in> set roles. m role \<le> int (length (selected' role))" by auto
  have "length (selected1 role) \<le> length (selected' role)"
  proof -
    have "set (selected1 role) \<subseteq> set (selected' role)" "distinct (selected1 role)" "distinct (selected' role)"
      using more(1,2) one(1) by (auto simp: grows_def selection_ok_def)
    then show ?thesis by (metis List.finite_set card_mono distinct_card)
  qed
  with one(3) more grows_trans[OF one(2) more(2)] show ?case by auto
qed auto

lemma selected_ids_occupied: "set (occupied_ids selected) = selected_ids selected"
  by (auto simp: occupied_ids_def selected_ids_def held_out_roles_def)

lemma global_fallback_ok:
  assumes "global_fallback D active deferred units selected = Inr selected'"
    and "selection_ok units selected" and "distinct (map unit_id units)"
  shows "selection_ok units selected' \<and> grows selected selected' (unit_id ` set units)
    \<and> (allow_global_role_fallback active \<longrightarrow> (\<forall>role \<in> held_out_roles.
        role_minimum (policy_budget active) deferred role \<le> int (length (selected' role))))
    \<and> (\<not> allow_global_role_fallback active \<longrightarrow> selected' = selected)"
proof (cases "allow_global_role_fallback active")
  case False
  with assms(1,2) show ?thesis by (auto simp: global_fallback_def)
next
  case True
  define candidates where "candidates = sort_key (\<lambda>u. (condition_id D u, run_id u, source_frame_start u))
    (filter (\<lambda>u. unit_id u \<notin> set (occupied_ids selected)) units)"
  from assms(1) True obtain candidates' where run:
    "foldE (\<lambda>role. fill_role (role_minimum (policy_budget active) deferred role) role)
      [LOCKED_INTERPOLATION_TEST, UNCERTAINTY_CALIBRATION, OUTER_MONITOR] (candidates, selected) = Inr (candidates', selected')"
    unfolding global_fallback_def Let_def candidates_def[symmetric] by (auto simp: result_simps)
  have "distinct (map unit_id candidates)" "set candidates \<subseteq> set units"
    "unit_id ` set candidates \<inter> selected_ids selected = {}"
    using assms(3) by (auto simp: candidates_def distinct_map selected_ids_occupied inj_on_def)
  from fill_roles_ok[OF run _ assms(2) this] True show ?thesis by (auto simp: held_out_roles_def)
qed

section \<open>What an outer partition is\<close>

definition role_ids :: "outer_partition \<Rightarrow> outer_role \<Rightarrow> string set" where
  "role_ids p role = set (units_for p role)"

definition held_out_ids :: "outer_partition \<Rightarrow> string set" where
  "held_out_ids p = (\<Union>role \<in> held_out_roles. role_ids p role)"

text \<open>
  Every unit has one role; the roles have their support; what is near a held-out unit is purged.  The minima of
  the held-out roles are a matter of the global fallback: without it a role holds one unit of each condition
  that is covered and nothing else, which may be no unit at all.
\<close>

definition partition_spec ::
  "('z) digests_scheme \<Rightarrow> partition_policy \<Rightarrow> bool \<Rightarrow> partition_unit list \<Rightarrow> outer_partition \<Rightarrow> bool" where
  "partition_spec D active deferred units p \<longleftrightarrow>
     distinct (map assigned_unit (assignments p)) \<and> assigned_unit ` set (assignments p) = unit_id ` set units
     \<and> role_ids p EXCLUDED = {}
     \<and> role_ids p PURGED = near_ids (purge_units_between_roles (policy_budget active)) units (held_out_ids p)
     \<and> development_minimum_independent_units (policy_budget active) \<le> int (card (role_ids p DEVELOPMENT))
     \<and> (allow_global_role_fallback active \<longrightarrow> (\<forall>role \<in> held_out_roles.
          role_minimum (policy_budget active) deferred role \<le> int (card (role_ids p role))))
     \<and> (\<not> allow_global_role_fallback active \<longrightarrow> (\<forall>role \<in> held_out_roles.
          card (role_ids p role) = (if role \<in> set (role_sequence deferred)
            then card {key \<in> condition_id D ` set units. covered_condition D active units key} else 0)))
     \<and> (require_condition_coverage_in_outer_roles active \<longrightarrow> (\<forall>u \<in> set units.
          minimum_units_per_condition_for_full_outer_roles active
            \<le> int (length (filter (\<lambda>v. condition_id D v = condition_id D u) units)) \<longrightarrow>
          (\<forall>role \<in> set (role_sequence deferred). \<exists>v \<in> set units.
            condition_id D v = condition_id D u \<and> unit_id v \<in> role_ids p role)))"

lemma assign_roles_Inr:
  assumes "assign_roles domain selected purged units = Inr rows"
  shows "map assigned_unit rows = map unit_id units
    \<and> (\<forall>a \<in> set rows. assigned_role a = fst (outer_role_of selected purged (assigned_unit a)))
    \<and> (\<forall>a \<in> set rows. assigned_domain a = domain)"
  using assms unfolding assign_roles_def
  by (induction units arbitrary: rows)
    (auto simp: result_simps make_role_assignment_def split: prod.splits)

lemma outer_role_of_cases:
  assumes "selection_ok units selected"
  shows "role \<in> held_out_roles \<Longrightarrow> fst (outer_role_of selected purged uid) = role \<longleftrightarrow> uid \<in> set (selected role)"
    and "fst (outer_role_of selected purged uid) = PURGED \<longleftrightarrow> uid \<in> set purged \<and> uid \<notin> selected_ids selected"
    and "fst (outer_role_of selected purged uid) \<noteq> EXCLUDED"
proof -
  have disjoint: "uid \<in> set (selected r) \<Longrightarrow> uid \<in> set (selected r') \<Longrightarrow> r = r'" for r r'
    using assms unfolding selection_ok_def by blast
  show "role \<in> held_out_roles \<Longrightarrow> fst (outer_role_of selected purged uid) = role \<longleftrightarrow> uid \<in> set (selected role)"
    using disjoint[of role] unfolding held_out_roles_def outer_role_of_def by (auto split: if_splits)
qed (auto simp: outer_role_of_def selected_ids_def held_out_roles_def)

lemma build_domain_partition_exact:
  assumes points: "interior_points interior" and order: "run_order (for_domain c domain)"
    and build: "build_domain_partition D interior active c report domain = Inr p"
  shows "partition_domain p = domain \<and> is_usable report
    \<and> partition_spec D active (calibration_deferred report) (for_domain c domain) p"
proof -
  define units where "units = for_domain c domain"
  define deferred where "deferred = calibration_deferred report"
  define budget where "budget = policy_budget active"
  have ids: "distinct (map unit_id units)" using order by (simp add: run_order_def units_def)
  obtain anchors selected near rows where
    usable: "is_usable report" and
    anchors: "select_anchors D interior active deferred units = Inr anchors" and
    selected: "global_fallback D active deferred units anchors = Inr selected" and
    near: "neighbor_unit_ids (build_temporal_neighbor_index units) (occupied_ids selected)
      (purge_units_between_roles budget) = Inr near" and
    rows: "assign_roles domain selected (filter (\<lambda>uid. uid \<notin> set (occupied_ids selected)) near) units = Inr rows" and
    dev: "development_minimum_independent_units budget \<le> int (length (filter (\<lambda>a. assigned_role a = DEVELOPMENT) rows))" and
    made: "make_outer_partition \<lparr>partition_domain = domain, partition_policy_digest = policy_digest_of D active,
       partition_catalog_digest = catalog_digest_of D c, partition_report_digest = report_digest_of D report,
       assignments = rows\<rparr> = Inr p"
    using build unfolding build_domain_partition_def Let_def units_def[symmetric] deferred_def[symmetric] budget_def[symmetric]
    by (auto simp: result_simps)
  have p: "partition_domain p = domain" "assignments p = sort_key assigned_unit rows"
    using made by (auto simp: make_outer_partition_def Let_def result_simps)
  note anch = select_anchors_ok[OF points ids anchors]
  note sel = global_fallback_ok[OF selected conjunct1[OF anch] ids]
  define purged where "purged = filter (\<lambda>uid. uid \<notin> set (occupied_ids selected)) near"
  have near_set: "set near = near_ids (purge_units_between_roles budget) units (selected_ids selected)"
    using neighbor_unit_ids_exact[OF order, of "occupied_ids selected" "purge_units_between_roles budget"] near
    by (simp add: units_def selected_ids_occupied)
  have purged: "set purged = near_ids (purge_units_between_roles budget) units (selected_ids selected)"
    unfolding purged_def using near_set by (auto simp: selected_ids_occupied near_ids_def)
  note rws = assign_roles_Inr[OF rows[folded purged_def]]
  have role_ids: "role_ids p role = {uid \<in> unit_id ` set units. fst (outer_role_of selected purged uid) = role}" for role
  proof -
    have "unit_id ` set units = assigned_unit ` set rows" using rws by (metis set_map)
    then show ?thesis using rws unfolding role_ids_def units_for_def p(2) by auto
  qed
  have held: "role_ids p role = set (selected role)" if "role \<in> held_out_roles" for role
  proof -
    have "set (selected role) \<subseteq> unit_id ` set units"
      using sel selected_role_ids[of units selected role] unfolding selection_ok_def by blast
    then show ?thesis using outer_role_of_cases(1)[OF conjunct1[OF sel] that, of purged] unfolding role_ids by blast
  qed
  then have held_ids: "held_out_ids p = selected_ids selected" by (simp add: held_out_ids_def selected_ids_def)
  have "role_ids p PURGED = near_ids (purge_units_between_roles budget) units (held_out_ids p)"
    unfolding role_ids outer_role_of_cases(2)[OF conjunct1[OF sel]] purged held_ids by (auto simp: near_ids_def)
  moreover have "role_ids p EXCLUDED = {}"
    unfolding role_ids using outer_role_of_cases(3)[OF conjunct1[OF sel]] by blast
  moreover have "distinct (map assigned_unit (assignments p))" "assigned_unit ` set (assignments p) = unit_id ` set units"
    using rws ids unfolding p(2) by (metis distinct_map distinct_sort set_sort, metis set_map set_sort)
  moreover have "length (filter (\<lambda>a. assigned_role a = DEVELOPMENT) rows) = card (role_ids p DEVELOPMENT)"
  proof -
    have "distinct (map assigned_unit (filter (\<lambda>a. assigned_role a = DEVELOPMENT) rows))"
      using rws ids by (metis distinct_map_filter)
    from distinct_card[OF this] show ?thesis unfolding role_ids_def units_for_def p(2) by simp
  qed
  moreover have "allow_global_role_fallback active \<longrightarrow> (\<forall>role \<in> held_out_roles.
      role_minimum budget deferred role \<le> int (card (role_ids p role)))"
    using sel held unfolding selection_ok_def budget_def by (metis distinct_card)
  moreover have "\<not> allow_global_role_fallback active \<longrightarrow> (\<forall>role \<in> held_out_roles.
      card (role_ids p role) = (if role \<in> set (role_sequence deferred)
        then card {key \<in> condition_id D ` set units. covered_condition D active units key} else 0))"
  proof (intro impI ballI)
    fix role assume "\<not> allow_global_role_fallback active" and role: "role \<in> held_out_roles"
    with sel have "selected = anchors" by blast
    moreover have "card (role_ids p role) = length (selected role)"
      using sel held[OF role] unfolding selection_ok_def by (metis distinct_card)
    ultimately show "card (role_ids p role) = (if role \<in> set (role_sequence deferred)
        then card {key \<in> condition_id D ` set units. covered_condition D active units key} else 0)"
      using anch by metis
  qed
  moreover have "require_condition_coverage_in_outer_roles active \<longrightarrow> (\<forall>u \<in> set units.
      minimum_units_per_condition_for_full_outer_roles active
        \<le> int (length (filter (\<lambda>v. condition_id D v = condition_id D u) units)) \<longrightarrow>
      (\<forall>role \<in> set (role_sequence deferred). \<exists>v \<in> set units.
        condition_id D v = condition_id D u \<and> unit_id v \<in> role_ids p role))"
  proof (intro impI ballI)
    fix u role
    assume "require_condition_coverage_in_outer_roles active" "u \<in> set units" and role: "role \<in> set (role_sequence deferred)"
      and "minimum_units_per_condition_for_full_outer_roles active
        \<le> int (length (filter (\<lambda>v. condition_id D v = condition_id D u) units))"
    moreover from \<open>u \<in> set units\<close> anch sel
    have "covers active deferred (filter (\<lambda>v. condition_id D v = condition_id D u) units) selected"
      by (blast intro: covers_grows)
    ultimately obtain v where "v \<in> set (filter (\<lambda>v. condition_id D v = condition_id D u) units)"
      "unit_id v \<in> set (selected role)" unfolding covers_def by blast
    with held role role_sequence_held[of deferred]
    show "\<exists>v \<in> set units. condition_id D v = condition_id D u \<and> unit_id v \<in> role_ids p role" by auto
  qed
  ultimately show ?thesis
    using dev usable p(1) unfolding partition_spec_def units_def[symmetric] deferred_def[symmetric] budget_def[symmetric]
    by simp
qed

end
