(* ===== verification/Cross_Validation.thy ===== *)
theory Cross_Validation
  imports Outer_Partition
begin

text \<open>
  Cross-validation plans of \<open>mdstats/training_data/partition.py\<close>: the development units of a label domain
  are dealt into evaluation folds in a seeded order, each fold gets a checkpoint monitor away from its
  evaluation units, and the temporal neighbours of both are purged from its training units.

  The seeded order sorts by \<open>token_digest\<close>, the SHA-256 of a token made of the seed, the condition and
  the unit.
\<close>

section \<open>Folds and plans\<close>

record cv_fold =
  fold_index :: nat
  training_unit_ids :: "string list"
  checkpoint_monitor_unit_ids :: "string list"
  evaluation_unit_ids :: "string list"
  purged_unit_ids :: "string list"

definition fold_groups :: "cv_fold \<Rightarrow> (string \<times> string list) list" where
  "fold_groups f = [(''training_unit_ids'', training_unit_ids f),
     (''checkpoint_monitor_unit_ids'', checkpoint_monitor_unit_ids f),
     (''evaluation_unit_ids'', evaluation_unit_ids f), (''purged_unit_ids'', purged_unit_ids f)]"

fun pairwise_disjoint :: "string list list \<Rightarrow> bool" where
  "pairwise_disjoint [] \<longleftrightarrow> True"
| "pairwise_disjoint (xs # xss) \<longleftrightarrow> list_all (\<lambda>ys. set xs \<inter> set ys = {}) xss \<and> pairwise_disjoint xss"

definition make_fold :: "cv_fold \<Rightarrow> cv_fold result" where
  "make_fold f =
     bindE (mapE (\<lambda>(name, ids). bindE (mapE (validate_digest ''unit_id'') ids) (\<lambda>_.
       guardE (distinct ids) (TrainingDataInputError (Fmt ''{} contains duplicates.'' [AStr name])))) (fold_groups f)) (\<lambda>_.
     bindE (guardE (training_unit_ids f \<noteq> [] \<and> checkpoint_monitor_unit_ids f \<noteq> [] \<and> evaluation_unit_ids f \<noteq> [])
       (TrainingDataInputError (Text
         ''Every cross-validation fold requires training, checkpoint monitor, and evaluation units.''))) (\<lambda>_.
     bindE (guardE (pairwise_disjoint (map snd (fold_groups f)))
       (TrainingDataInputError (Text ''Cross-validation fold roles must be disjoint.''))) (\<lambda>_.
     Inr f)))"

record cv_plan =
  plan_domain :: string
  plan_policy_digest :: string
  plan_partition_digest :: string
  resolved_fold_count :: int
  folds :: "cv_fold list"

definition make_plan :: "cv_plan \<Rightarrow> cv_plan result" where
  "make_plan p =
     bindE (mapE (\<lambda>(name, v). validate_digest name v)
       [(''policy_digest'', plan_policy_digest p), (''outer_partition_digest'', plan_partition_digest p)]) (\<lambda>_.
     let sorted = sort_key fold_index (folds p) in
     bindE (guardE (2 \<le> resolved_fold_count p \<and> int (length sorted) = resolved_fold_count p)
       (TrainingDataInputError (Text ''Cross-validation plan fold count is inconsistent.''))) (\<lambda>_.
     bindE (guardE (map fold_index sorted = [0..<length sorted])
       (TrainingDataInputError (Text ''Cross-validation fold indices must be contiguous.''))) (\<lambda>_.
     bindE (guardE (distinct (concat (map evaluation_unit_ids sorted)))
       (TrainingDataInputError (Text ''A development unit may be held out in only one evaluation fold.''))) (\<lambda>_.
     Inr (p\<lparr>folds := sorted\<rparr>)))))"

section \<open>Dealing units into folds\<close>

record cv_digests = outer_digests +
  partition_digest_of :: "outer_partition \<Rightarrow> string"
  token_digest :: "string \<Rightarrow> string"

definition seeded_unit_order ::
  "('z) cv_digests_scheme \<Rightarrow> int \<Rightarrow> string \<Rightarrow> partition_unit list \<Rightarrow> partition_unit list" where
  "seeded_unit_order D seed key units =
     sort_key (\<lambda>u. (token_digest D (int_text seed @ [CHR 0x00] @ key @ [CHR 0x00] @ unit_id u), unit_id u)) units"

fun deal_units :: "nat \<Rightarrow> 'a list \<Rightarrow> 'a list list \<Rightarrow> 'a list list" where
  "deal_units position [] hands = hands"
| "deal_units position (u # us) hands =
     deal_units (position + 1) us
       (hands[position mod length hands := hands ! (position mod length hands) @ [u]])"

definition assign_evaluation_folds ::
  "('z) cv_digests_scheme \<Rightarrow> partition_unit list \<Rightarrow> nat \<Rightarrow> int \<Rightarrow> partition_unit list list result" where
  "assign_evaluation_folds D units fold_count seed =
     (let groups = group_by (condition_id D) units in
      bindE (foldE (\<lambda>key (offset, hands). bindE (lookupE groups key) (\<lambda>members.
          let ordered = seeded_unit_order D seed key members in
          Inr ((offset + length ordered) mod fold_count, deal_units offset ordered hands)))
        (sort (map fst groups)) (0, replicate fold_count []))
      (\<lambda>(_, hands). Inr hands))"

definition select_checkpoint_monitor ::
  "('z) digests_scheme \<Rightarrow> (int \<Rightarrow> int \<Rightarrow> int list) \<Rightarrow> partition_unit list \<Rightarrow> int \<Rightarrow> partition_unit list result" where
  "select_checkpoint_monitor D interior candidates number =
     (if number < 1 \<or> int (length candidates) < number then Inr []
      else
        let ordered = sort_key (\<lambda>u. (condition_id D u, run_id u, source_frame_start u)) candidates in
        bindE (spaced_indices interior (int (length ordered)) number) (mapE (item_at ordered)))"

section \<open>Building the plans\<close>

definition build_fold ::
  "('z) digests_scheme \<Rightarrow> (int \<Rightarrow> int \<Rightarrow> int list) \<Rightarrow> partition_policy \<Rightarrow> unit_catalog \<Rightarrow> partition_unit list
   \<Rightarrow> nat \<times> partition_unit list \<Rightarrow> cv_fold result" where
  "build_fold D interior active c development = (\<lambda>(index, evaluation_units).
     let radius = purge_units_between_roles (policy_budget active);
         temporal = build_temporal_neighbor_index development;
         all_ids = remdups (map unit_id development);
         evaluation = remdups (map unit_id evaluation_units) in
     bindE (neighbor_unit_ids temporal evaluation radius) (\<lambda>near.
     let candidate_ids = filter (\<lambda>uid. uid \<notin> set evaluation \<and> uid \<notin> set near) all_ids in
     bindE (mapE (catalog_unit c) (sort candidate_ids)) (\<lambda>candidates.
     bindE (select_checkpoint_monitor D interior candidates
       (checkpoint_monitor_minimum_units_per_fold (policy_budget active))) (\<lambda>monitor_units.
     bindE (guardE (monitor_units \<noteq> [])
       (TrainingDataInputError (Fmt ''Fold {} lacks a nested checkpoint monitor.'' [ANat index]))) (\<lambda>_.
     let monitor = remdups (map unit_id monitor_units) in
     bindE (neighbor_unit_ids temporal monitor radius) (\<lambda>near_monitor.
     let purged = remdups (near @ filter (\<lambda>uid. uid \<notin> set evaluation) near_monitor);
         training = filter (\<lambda>uid. uid \<notin> set evaluation \<and> uid \<notin> set monitor \<and> uid \<notin> set purged) all_ids in
     bindE (guardE (training \<noteq> []) (TrainingDataInputError
       (Fmt ''Fold {} has no training units after nested monitor and purge.'' [ANat index]))) (\<lambda>_.
     make_fold \<lparr>fold_index = index, training_unit_ids = sort training, checkpoint_monitor_unit_ids = sort monitor,
       evaluation_unit_ids = sort evaluation, purged_unit_ids = sort purged\<rparr>)))))))"

definition resolve_fold_count :: "partition_policy \<Rightarrow> feasibility_report \<Rightarrow> string \<Rightarrow> nat \<Rightarrow> int option \<Rightarrow> int result" where
  "resolve_fold_count active report domain development override =
     (case override of
        None \<Rightarrow>
          let available = (if resolved_cross_validation_folds report \<noteq> 0 then resolved_cross_validation_folds report
                else min (cross_validation_folds (policy_budget active)) (max 0 (int development - 3))) in
          Inr (min available (int development))
      | Some requested \<Rightarrow>
          bindE (guardE (2 \<le> requested)
            (TrainingDataInputError (Text ''Cross-validation fold override must be at least two.''))) (\<lambda>_.
          let limit = (if resolved_cross_validation_folds report \<noteq> 0 then resolved_cross_validation_folds report
                else int development) in
          bindE (guardE (requested \<le> limit)
            (TrainingDataInputError (Fmt ''Requested {} cross-validation folds for {}, but DATA5 supports only {}.''
              [AInt requested, AStr domain, AInt limit]))) (\<lambda>_.
          Inr requested)))"

definition build_domain_plan ::
  "('z) cv_digests_scheme \<Rightarrow> (int \<Rightarrow> int \<Rightarrow> int list) \<Rightarrow> partition_policy \<Rightarrow> unit_catalog \<Rightarrow> feasibility_report
   \<Rightarrow> int option \<Rightarrow> int option \<Rightarrow> string \<Rightarrow> outer_partition \<Rightarrow> partition_unit list \<Rightarrow> cv_plan result" where
  "build_domain_plan D interior active c report override seed_override domain outer development =
     bindE (resolve_fold_count active report domain (length development) override) (\<lambda>fold_count.
     bindE (guardE (2 \<le> fold_count) (TrainingDataInputError
       (Text ''Cross-validation requires at least two development units and folds.''))) (\<lambda>_.
     bindE (assign_evaluation_folds D development (nat fold_count)
       (case seed_override of None \<Rightarrow> cross_validation_seed active | Some seed \<Rightarrow> seed)) (\<lambda>hands.
     bindE (guardE ([] \<notin> set hands) (TrainingDataInputError
       (Text ''Every cross-validation fold requires evaluation support.''))) (\<lambda>_.
     bindE (mapE (build_fold D interior active c development) (List.enumerate 0 hands)) (\<lambda>built.
     make_plan \<lparr>plan_domain = domain, plan_policy_digest = policy_digest_of D active,
       plan_partition_digest = partition_digest_of D outer, resolved_fold_count = fold_count, folds = built\<rparr>)))))"

definition build_cross_validation_plans ::
  "('z) cv_digests_scheme \<Rightarrow> (int \<Rightarrow> int \<Rightarrow> int list) \<Rightarrow> partition_policy \<Rightarrow> unit_catalog \<Rightarrow> outer_partition list
   \<Rightarrow> feasibility_report list \<Rightarrow> int option \<Rightarrow> int option \<Rightarrow> cv_plan list result" where
  "build_cross_validation_plans D interior active c partitions reports override seed_override =
     (let outer_map = dict_of (map (\<lambda>p. (partition_domain p, p)) partitions) in
      mapE (\<lambda>domain.
        bindE (lookupE outer_map domain) (\<lambda>outer.
        bindE (mapE (catalog_unit c) (units_for outer DEVELOPMENT)) (\<lambda>development.
        bindE (lookupE (dict_of (map (\<lambda>r. (report_domain r, r)) reports)) domain) (\<lambda>report.
        build_domain_plan D interior active c report override seed_override domain outer development))))
        (sort (map fst outer_map)))"

section \<open>Dealing is balanced\<close>

text \<open>What hand \<open>j\<close> of \<open>n\<close> gets when a list is dealt from position \<open>p\<close> on.\<close>

definition dealt :: "nat \<Rightarrow> nat \<Rightarrow> nat \<Rightarrow> 'a list \<Rightarrow> 'a list" where
  "dealt n j p us = map snd (filter (\<lambda>(q, u). q mod n = j) (List.enumerate p us))"

lemma dealt_simps [simp]:
  "dealt n j p [] = []"
  "dealt n j p (u # us) = (if p mod n = j then [u] else []) @ dealt n j (Suc p) us"
  by (simp_all add: dealt_def)

lemma dealt_append: "dealt n j p (xs @ ys) = dealt n j p xs @ dealt n j (p + length xs) ys"
  by (induction xs arbitrary: p) simp_all

lemma length_deal_units [simp]: "length (deal_units p us hands) = length hands"
  by (induction p us hands rule: deal_units.induct) (simp_all add: Let_def)

lemma deal_units_nth:
  "j < length hands \<Longrightarrow> deal_units p us hands ! j = hands ! j @ dealt (length hands) j p us"
proof (induction p us hands rule: deal_units.induct)
  case (2 p u us hands)
  then show ?case by (cases "p mod length hands = j") (simp_all add: Let_def)
qed simp

lemma dealt_mod: "0 < n \<Longrightarrow> dealt n j (p mod n) us = dealt n j p us"
proof (induction us arbitrary: p)
  case (Cons u us)
  have "dealt n j (Suc (p mod n)) us = dealt n j (Suc p) us"
    using Cons.IH[OF Cons.prems, of "Suc (p mod n)"] Cons.IH[OF Cons.prems, of "Suc p"] by (simp add: mod_Suc_eq)
  then show ?case by simp
qed simp

lemma set_dealt: "(\<Union>j < n. set (dealt n j p us)) = (if n = 0 then {} else set us)"
proof (induction us arbitrary: p)
  case (Cons u us)
  show ?case
  proof (cases "n = 0")
    case False
    then have "p mod n < n" by simp
    have "(\<Union>j < n. set (dealt n j p (u # us))) = {u} \<union> (\<Union>j < n. set (dealt n j (Suc p) us))"
      using \<open>p mod n < n\<close> by (auto split: if_splits)
    with Cons.IH[of "Suc p"] False show ?thesis by simp
  qed simp
qed simp

lemma set_dealt_subset: "set (dealt n j p us) \<subseteq> set us"
  by (induction us arbitrary: p) (simp_all, blast)

lemma not_in_dealt: "u \<notin> set us \<Longrightarrow> u \<notin> set (dealt n j p us)"
  using set_dealt_subset by fastforce

lemma distinct_dealt: "distinct us \<Longrightarrow> distinct (dealt n j p us)"
  by (induction us arbitrary: p) (simp_all add: not_in_dealt)

lemma dealt_disjoint: "distinct us \<Longrightarrow> j \<noteq> k \<Longrightarrow> set (dealt n j p us) \<inter> set (dealt n k p us) = {}"
proof (induction us arbitrary: p)
  case (Cons u us)
  then show ?case by (cases "p mod n = j"; cases "p mod n = k") (simp_all add: not_in_dealt)
qed simp

definition hits :: "nat \<Rightarrow> nat \<Rightarrow> nat \<Rightarrow> nat" where
  "hits n j m = (m + n - 1 - j) div n"

lemma hits_Suc: "j < n \<Longrightarrow> hits n j (Suc m) = hits n j m + (if m mod n = j then 1 else 0)"
proof -
  assume j: "j < n"
  have "Suc m + n - 1 - j = Suc (m + n - 1 - j)" using j by simp
  moreover have "Suc (m + n - 1 - j) mod n = 0 \<longleftrightarrow> m mod n = j"
  proof -
    have "Suc (m + n - 1 - j) = m + (n - j)" using j by simp
    then have eq: "Suc (m + n - 1 - j) mod n = (m mod n + (n - j)) mod n" by (simp add: mod_add_left_eq)
    have less: "m mod n < n" using j by simp
    show ?thesis
    proof (cases "j \<le> m mod n")
      case True
      then have "m mod n + (n - j) = (m mod n - j) + n" using j by simp
      then have "(m mod n + (n - j)) mod n = m mod n - j" using less by (simp only: mod_add_self2 mod_less)
      with eq True show ?thesis by auto
    next
      case False
      then have "m mod n + (n - j) < n" using j less by linarith
      with eq False j show ?thesis by simp
    qed
  qed
  ultimately show ?thesis by (simp add: hits_def div_Suc)
qed

lemma length_dealt: "j < n \<Longrightarrow> length (dealt n j p us) + hits n j p = hits n j (p + length us)"
proof (induction us arbitrary: p)
  case (Cons u us)
  from Cons.IH[OF Cons.prems, of "Suc p"] hits_Suc[OF Cons.prems, of p] show ?case by auto
qed simp

lemma dealt_length_bounds:
  assumes "j < n"
  shows "length us div n \<le> length (dealt n j p us) \<and> length (dealt n j p us) \<le> length us div n + 1"
proof -
  have "length (dealt n j p us) = hits n j (p + length us) - hits n j p"
    using length_dealt[OF assms, of p us] by simp
  moreover have "p + length us + n - 1 - j = (p + n - 1 - j) + length us" using assms by simp
  ultimately have len: "length (dealt n j p us) = ((p + n - 1 - j) + length us) div n - (p + n - 1 - j) div n"
    by (simp add: hits_def)
  define a where "a = p + n - 1 - j"
  have "a mod n < n" "length us mod n < n" using assms by simp_all
  then have "a mod n + length us mod n < 2 * n" by linarith
  from less_mult_imp_div_less[OF this] have "(a mod n + length us mod n) div n \<le> 1" by simp
  then have "(a + length us) div n \<le> a div n + length us div n + 1" "a div n + length us div n \<le> (a + length us) div n"
    unfolding div_add1_eq[of a "length us" n] by simp_all
  then show ?thesis unfolding len a_def[symmetric] by linarith
qed

lemma dealt_balanced:
  assumes "j < n" and "k < n"
  shows "length (dealt n j p us) \<le> length (dealt n k p us) + 1"
  using dealt_length_bounds[OF assms(1), of us p] dealt_length_bounds[OF assms(2), of us p] by linarith

section \<open>Evaluation folds\<close>

definition dealing_order ::
  "('z) cv_digests_scheme \<Rightarrow> partition_unit list \<Rightarrow> int \<Rightarrow> string list \<Rightarrow> partition_unit list" where
  "dealing_order D units seed keys =
     concat (map (\<lambda>key. seeded_unit_order D seed key (filter (\<lambda>u. condition_id D u = key) units)) keys)"

lemma assign_loop:
  assumes "0 < n" and "set keys \<subseteq> condition_id D ` set units" and "length hands = n"
  shows "\<exists>offset. foldE (\<lambda>key (offset, hands). bindE (lookupE (group_by (condition_id D) units) key) (\<lambda>members.
          let ordered = seeded_unit_order D seed key members in
          Inr ((offset + length ordered) mod n, deal_units offset ordered hands))) keys (p mod n, hands)
      = Inr (offset, deal_units p (dealing_order D units seed keys) hands)"
  using assms(2,3)
proof (induction keys arbitrary: p hands)
  case Nil
  then show ?case by (simp add: dealing_order_def)
next
  case (Cons key keys)
  define ordered where "ordered = seeded_unit_order D seed key (filter (\<lambda>u. condition_id D u = key) units)"
  have found: "lookupE (group_by (condition_id D) units) key = Inr (filter (\<lambda>u. condition_id D u = key) units)"
    using Cons.prems(1) by (simp add: lookupE_def map_of_group_by)
  have deal_eq: "deal_units (p mod n) ordered hands = deal_units p ordered hands"
    by (rule nth_equalityI) (simp_all add: deal_units_nth dealt_mod assms(1) Cons.prems(2))
  have app: "deal_units (p + length ordered) (dealing_order D units seed keys) (deal_units p ordered hands)
      = deal_units p (ordered @ dealing_order D units seed keys) hands"
    by (rule nth_equalityI) (simp_all add: deal_units_nth dealt_append)
  have step: "(p mod n + length ordered) mod n = (p + length ordered) mod n" by (simp add: mod_add_left_eq)
  have "\<exists>offset. foldE (\<lambda>key (offset, hands). bindE (lookupE (group_by (condition_id D) units) key) (\<lambda>members.
          let ordered = seeded_unit_order D seed key members in
          Inr ((offset + length ordered) mod n, deal_units offset ordered hands))) keys
        ((p + length ordered) mod n, deal_units p ordered hands)
      = Inr (offset, deal_units (p + length ordered) (dealing_order D units seed keys) (deal_units p ordered hands))"
    using Cons.prems by (intro Cons.IH) simp_all
  then show ?case
    by (simp add: found ordered_def[symmetric] Let_def deal_eq step app)
      (simp add: dealing_order_def ordered_def[symmetric])
qed

definition condition_ids :: "('z) digests_scheme \<Rightarrow> partition_unit list \<Rightarrow> string list" where
  "condition_ids D units = sort (map fst (group_by (condition_id D) units))"

lemma condition_ids: "set (condition_ids D units) = condition_id D ` set units" "distinct (condition_ids D units)"
  by (simp_all add: condition_ids_def)

lemma assign_evaluation_folds_exact:
  assumes "0 < n"
  shows "assign_evaluation_folds D units n seed
    = Inr (map (\<lambda>j. dealt n j 0 (dealing_order D units seed (condition_ids D units))) [0..<n])"
proof -
  define us where "us = dealing_order D units seed (condition_ids D units)"
  from assign_loop[OF assms, of "condition_ids D units" D units "replicate n []" seed 0] obtain offset where
    "foldE (\<lambda>key (offset, hands). bindE (lookupE (group_by (condition_id D) units) key) (\<lambda>members.
          let ordered = seeded_unit_order D seed key members in
          Inr ((offset + length ordered) mod n, deal_units offset ordered hands))) (condition_ids D units) (0, replicate n [])
      = Inr (offset, deal_units 0 us (replicate n []))"
    using assms by (auto simp: condition_ids us_def)
  then have "assign_evaluation_folds D units n seed = Inr (deal_units 0 us (replicate n []))"
    by (simp add: assign_evaluation_folds_def condition_ids_def)
  also have "deal_units 0 us (replicate n []) = map (\<lambda>j. dealt n j 0 us) [0..<n]"
    by (rule nth_equalityI) (simp_all add: deal_units_nth)
  finally show ?thesis by (simp add: us_def)
qed

lemma dealing_order_filter:
  assumes "set keys \<subseteq> condition_id D ` set units" and "distinct keys"
  shows "set (dealing_order D units seed keys) = {u \<in> set units. condition_id D u \<in> set keys}"
    and "distinct units \<Longrightarrow> distinct (dealing_order D units seed keys)"
proof -
  have sets: "set (dealing_order D units seed ks) = {u \<in> set units. condition_id D u \<in> set ks}" for ks
    by (auto simp: dealing_order_def seeded_unit_order_def)
  show "set (dealing_order D units seed keys) = {u \<in> set units. condition_id D u \<in> set keys}" by (rule sets)
  show "distinct units \<Longrightarrow> distinct (dealing_order D units seed keys)"
    using assms(2)
  proof (induction keys)
    case (Cons key keys)
    have "dealing_order D units seed (key # keys)
        = seeded_unit_order D seed key (filter (\<lambda>u. condition_id D u = key) units) @ dealing_order D units seed keys"
      by (simp add: dealing_order_def)
    with Cons sets[of keys] show ?case by (auto simp: seeded_unit_order_def)
  qed (simp add: dealing_order_def)
qed

text \<open>Within a condition the hands are as balanced as overall.\<close>

lemma filter_dealt_none: "\<forall>u \<in> set us. \<not> P u \<Longrightarrow> filter P (dealt n j p us) = []"
  using set_dealt_subset[of n j p us] by (auto simp: filter_empty_conv)

lemma filter_dealt_all: "\<forall>u \<in> set us. P u \<Longrightarrow> filter P (dealt n j p us) = dealt n j p us"
  using set_dealt_subset[of n j p us] by (auto simp: filter_id_conv)

lemma condition_segment:
  "\<exists>xs ys zs. dealing_order D units seed keys = xs @ ys @ zs \<and> (\<forall>u \<in> set xs. condition_id D u \<noteq> key)
    \<and> (\<forall>u \<in> set ys. condition_id D u = key) \<and> (\<forall>u \<in> set zs. condition_id D u \<noteq> key)"
  if "distinct keys" for keys
  using that
proof (induction keys)
  case Nil
  show ?case by (rule exI[of _ "[]"])+ (simp add: dealing_order_def)
next
  case (Cons k keys)
  define first where "first = seeded_unit_order D seed k (filter (\<lambda>u. condition_id D u = k) units)"
  have split: "dealing_order D units seed (k # keys) = first @ dealing_order D units seed keys"
    by (simp add: dealing_order_def first_def)
  have firsts: "\<forall>u \<in> set first. condition_id D u = k" by (simp add: first_def seeded_unit_order_def)
  show ?case
  proof (cases "k = key")
    case True
    have "\<forall>u \<in> set (dealing_order D units seed keys). condition_id D u \<noteq> key"
      using Cons.prems True by (auto simp: dealing_order_def seeded_unit_order_def)
    with True firsts show ?thesis unfolding split
      by (intro exI[of _ "[]"] exI[of _ first] exI[of _ "dealing_order D units seed keys"]) simp
  next
    case False
    from Cons.IH Cons.prems obtain xs ys zs where
      "dealing_order D units seed keys = xs @ ys @ zs" "\<forall>u \<in> set xs. condition_id D u \<noteq> key"
      "\<forall>u \<in> set ys. condition_id D u = key" "\<forall>u \<in> set zs. condition_id D u \<noteq> key" by auto
    with False firsts show ?thesis unfolding split
      by (intro exI[of _ "first @ xs"] exI[of _ ys] exI[of _ zs]) auto
  qed
qed

lemma condition_balanced:
  assumes "distinct keys" and "j < n" and "k < n" and us_def: "us = dealing_order D units seed keys"
  shows "length (filter (\<lambda>u. condition_id D u = key) (dealt n j 0 us))
    \<le> length (filter (\<lambda>u. condition_id D u = key) (dealt n k 0 us)) + 1"
proof -
  from condition_segment[OF assms(1), of D units seed key] obtain xs ys zs where
    us: "us = xs @ ys @ zs" and out: "\<forall>u \<in> set xs. condition_id D u \<noteq> key" "\<forall>u \<in> set zs. condition_id D u \<noteq> key"
    and inn: "\<forall>u \<in> set ys. condition_id D u = key" unfolding us_def by blast
  have "filter (\<lambda>u. condition_id D u = key) (dealt n i 0 us) = dealt n i (length xs) ys" for i
    unfolding us dealt_append by (simp add: filter_dealt_none[OF out(1)] filter_dealt_none[OF out(2)] filter_dealt_all[OF inn])
  then show ?thesis using dealt_balanced[OF assms(2,3)] by simp
qed

section \<open>What a fold and a plan are\<close>

definition fold_spec :: "partition_policy \<Rightarrow> partition_unit list \<Rightarrow> cv_fold \<Rightarrow> bool" where
  "fold_spec active units f \<longleftrightarrow>
     (let radius = purge_units_between_roles (policy_budget active);
          T = set (training_unit_ids f); M = set (checkpoint_monitor_unit_ids f);
          E = set (evaluation_unit_ids f); P = set (purged_unit_ids f) in
      T \<noteq> {} \<and> M \<noteq> {} \<and> E \<noteq> {} \<and> T \<inter> M = {} \<and> T \<inter> E = {} \<and> T \<inter> P = {} \<and> M \<inter> E = {} \<and> M \<inter> P = {} \<and> E \<inter> P = {}
      \<and> T \<union> M \<union> E \<union> P = unit_id ` set units
      \<and> P = near_ids radius units (E \<union> M) \<and> M \<inter> near_ids radius units E = {}
      \<and> int (card M) = checkpoint_monitor_minimum_units_per_fold (policy_budget active))"

definition plan_spec :: "('z) digests_scheme \<Rightarrow> partition_policy \<Rightarrow> partition_unit list \<Rightarrow> cv_plan \<Rightarrow> bool" where
  "plan_spec D active units p \<longleftrightarrow>
     2 \<le> resolved_fold_count p \<and> int (length (folds p)) = resolved_fold_count p
     \<and> map fold_index (folds p) = [0..<length (folds p)]
     \<and> distinct (concat (map evaluation_unit_ids (folds p)))
     \<and> set (concat (map evaluation_unit_ids (folds p))) = unit_id ` set units
     \<and> (\<forall>f \<in> set (folds p). fold_spec active units f)
     \<and> (\<forall>f \<in> set (folds p). \<forall>g \<in> set (folds p). length (evaluation_unit_ids f) \<le> length (evaluation_unit_ids g) + 1)
     \<and> (\<forall>key. \<forall>f \<in> set (folds p). \<forall>g \<in> set (folds p).
          card {u \<in> set units. condition_id D u = key \<and> unit_id u \<in> set (evaluation_unit_ids f)}
          \<le> card {u \<in> set units. condition_id D u = key \<and> unit_id u \<in> set (evaluation_unit_ids g)} + 1)"

lemma catalog_unit_Inr: "catalog_unit c uid = Inr u \<Longrightarrow> u \<in> set (catalog_units c) \<and> unit_id u = uid"
  unfolding catalog_unit_def lookupE_Inr_iff map_of_dict_of by (drule map_of_SomeD) auto

lemma catalog_unit_ids: "mapE (catalog_unit c) ids = Inr us \<Longrightarrow> map unit_id us = ids \<and> set us \<subseteq> set (catalog_units c)"
  by (induction ids arbitrary: us) (auto simp: result_simps dest!: catalog_unit_Inr)

lemma mapE_item_at:
  assumes "set positions \<subseteq> {0..<int (length xs)}"
  shows "mapE (item_at xs) positions = Inr (map (\<lambda>i. xs ! nat i) positions)"
  using assms by (intro mapE_total) (force simp: item_at_def nthE_def)

lemma select_checkpoint_monitor_ok:
  assumes "interior_points interior" and "distinct (map unit_id candidates)"
    and "select_checkpoint_monitor D interior candidates number = Inr monitors"
  shows "set monitors \<subseteq> set candidates \<and> distinct (map unit_id monitors)
    \<and> (monitors \<noteq> [] \<longrightarrow> int (length monitors) = number)"
proof (cases "number < 1 \<or> int (length candidates) < number")
  case True
  with assms(3) show ?thesis by (auto simp: select_checkpoint_monitor_def)
next
  case False
  define ordered where "ordered = sort_key (\<lambda>u. (condition_id D u, run_id u, source_frame_start u)) candidates"
  have ord: "set ordered = set candidates" "length ordered = length candidates" "distinct (map unit_id ordered)"
    using assms(2) by (simp_all add: ordered_def distinct_map)
  from False have "number \<le> int (length ordered)" by (simp add: ord(2))
  from spaced_indices_exact[OF assms(1) this] obtain xs where
    xs: "spaced_indices interior (int (length ordered)) number = Inr xs" "distinct xs" "length xs = nat number"
      "set xs \<subseteq> {0..<int (length ordered)}" by blast
  then have monitors: "monitors = map (\<lambda>i. ordered ! nat i) xs"
    using assms(3) False by (simp add: select_checkpoint_monitor_def ordered_def[symmetric] mapE_item_at)
  have "set monitors \<subseteq> set ordered" unfolding monitors using xs(4) by force
  moreover have "distinct (map unit_id monitors)"
    unfolding monitors distinct_map map_map
  proof
    show "distinct xs" by (rule xs(2))
    show "inj_on (unit_id \<circ> (\<lambda>i. ordered ! nat i)) (set xs)"
    proof (rule inj_onI)
      fix i j assume ij: "i \<in> set xs" "j \<in> set xs" "(unit_id \<circ> (\<lambda>i. ordered ! nat i)) i = (unit_id \<circ> (\<lambda>i. ordered ! nat i)) j"
      have "i \<in> {0..<int (length ordered)}" "j \<in> {0..<int (length ordered)}" using ij(1,2) xs(4) by blast+
      then have "nat i < length ordered" "nat j < length ordered" "0 \<le> i" "0 \<le> j" by auto
      with ij(3) nth_eq_iff_index_eq[OF ord(3), of "nat i" "nat j"] show "i = j" by simp
    qed
  qed
  ultimately show ?thesis using False xs(3) by (simp add: ord(1) monitors)
qed

lemma build_fold_ok:
  assumes points: "interior_points interior" and order: "run_order units" and sub: "set held \<subseteq> set units"
    and build: "build_fold D interior active c units (index, held) = Inr f"
  shows "fold_index f = index \<and> evaluation_unit_ids f = sorted_set (map unit_id held) \<and> fold_spec active units f"
proof -
  define radius where "radius = purge_units_between_roles (policy_budget active)"
  define index_of where "index_of = build_temporal_neighbor_index units"
  define evaluation where "evaluation = remdups (map unit_id held)"
  define all_ids where "all_ids = remdups (map unit_id units)"
  obtain near candidates monitors near_monitor where
    near: "neighbor_unit_ids index_of evaluation radius = Inr near" and
    candidates: "mapE (catalog_unit c) (sort (filter (\<lambda>uid. uid \<notin> set evaluation \<and> uid \<notin> set near) all_ids)) = Inr candidates" and
    monitors: "select_checkpoint_monitor D interior candidates
      (checkpoint_monitor_minimum_units_per_fold (policy_budget active)) = Inr monitors" and
    some: "monitors \<noteq> []" and
    near_monitor: "neighbor_unit_ids index_of (remdups (map unit_id monitors)) radius = Inr near_monitor" and
    made: "make_fold \<lparr>fold_index = index,
       training_unit_ids = sort (filter (\<lambda>uid. uid \<notin> set evaluation \<and> uid \<notin> set (remdups (map unit_id monitors))
         \<and> uid \<notin> set (remdups (near @ filter (\<lambda>uid. uid \<notin> set evaluation) near_monitor))) all_ids),
       checkpoint_monitor_unit_ids = sort (remdups (map unit_id monitors)), evaluation_unit_ids = sort evaluation,
       purged_unit_ids = sort (remdups (near @ filter (\<lambda>uid. uid \<notin> set evaluation) near_monitor))\<rparr> = Inr f"
    using build unfolding build_fold_def prod.case Let_def radius_def[symmetric] index_of_def[symmetric]
      evaluation_def[symmetric] all_ids_def[symmetric]
    by (auto simp only: bindE_Inr_iff guardE_Inr_iff)
  define E where "E = set evaluation"
  define M where "M = unit_id ` set monitors"
  have f: "fold_index f = index" "set (training_unit_ids f) = set all_ids - E - M - (set near \<union> (set near_monitor - E))"
    "set (checkpoint_monitor_unit_ids f) = M" "evaluation_unit_ids f = sort evaluation"
    "set (purged_unit_ids f) = set near \<union> (set near_monitor - E)"
    and nonempty: "training_unit_ids f \<noteq> []" "checkpoint_monitor_unit_ids f \<noteq> []" "evaluation_unit_ids f \<noteq> []"
    using made by (auto simp: make_fold_def result_simps E_def M_def)
  have near_set: "set near = near_ids radius units E"
    using neighbor_unit_ids_exact[OF order, of evaluation radius] near by (simp add: index_of_def E_def)
  have near_monitor_set: "set near_monitor = near_ids radius units M"
    using neighbor_unit_ids_exact[OF order, of "remdups (map unit_id monitors)" radius] near_monitor
    by (simp add: index_of_def M_def)
  have cand: "map unit_id candidates = sort (filter (\<lambda>uid. uid \<notin> set evaluation \<and> uid \<notin> set near) all_ids)"
    using catalog_unit_ids[OF candidates] by blast
  have cand_ids: "unit_id ` set candidates = set all_ids - E - set near"
    using arg_cong[OF cand, of set] by (auto simp: E_def)
  have "distinct (map unit_id candidates)" unfolding cand by (simp add: all_ids_def)
  note mon = select_checkpoint_monitor_ok[OF points this monitors]
  then have M: "M \<subseteq> set all_ids - E - set near" unfolding M_def cand_ids[symmetric] by blast
  have "card M = length monitors" unfolding M_def using mon by (metis distinct_card length_map list.set_map)
  with mon some have card_M: "int (card M) = checkpoint_monitor_minimum_units_per_fold (policy_budget active)" by simp
  have all: "set all_ids = unit_id ` set units" "E \<subseteq> set all_ids"
    using sub by (auto simp: all_ids_def E_def evaluation_def)
  have P: "near_ids radius units E \<union> (near_ids radius units M - E) = near_ids radius units (E \<union> M)"
    using M unfolding near_set by (auto simp: near_ids_def)
  have near_sub: "near_ids radius units S \<subseteq> set all_ids - S" for S by (auto simp: near_ids_def all(1))
  have sets: "set (evaluation_unit_ids f) = E" by (simp add: f(4) E_def)
  have "fold_spec active units f"
    unfolding fold_spec_def Let_def f(2,3,5) sets radius_def[symmetric] near_set near_monitor_set P all(1)[symmetric]
  proof (intro conjI)
    show "set all_ids - E - M - near_ids radius units (E \<union> M) \<noteq> {}"
      using nonempty(1) f(2) unfolding near_set near_monitor_set P by (metis set_empty)
    show "M \<noteq> {}" "E \<noteq> {}" using nonempty(2,3) f(3) sets by auto
    show "M \<inter> E = {}" "M \<inter> near_ids radius units E = {}" using M unfolding near_set by blast+
    show "M \<inter> near_ids radius units (E \<union> M) = {}" "E \<inter> near_ids radius units (E \<union> M) = {}"
      using near_sub[of "E \<union> M"] by blast+
    show "set all_ids - E - M - near_ids radius units (E \<union> M) \<union> M \<union> E \<union> near_ids radius units (E \<union> M) = set all_ids"
      using near_sub[of "E \<union> M"] M all(2) by blast
    show "int (card M) = checkpoint_monitor_minimum_units_per_fold (policy_budget active)" by (rule card_M)
  qed blast+
  then show ?thesis using f(1,4) by (simp add: evaluation_def sorted_set_def)
qed

lemma build_domain_plan_exact:
  assumes points: "interior_points interior" and order: "run_order units"
    and build: "build_domain_plan D interior active c report override seed_override domain outer units = Inr p"
  shows "plan_domain p = domain \<and> plan_spec D active units p"
proof -
  obtain n hands seed built where
    n: "2 \<le> n" and hands: "assign_evaluation_folds D units (nat n) seed = Inr hands" and
    built: "mapE (build_fold D interior active c units) (List.enumerate 0 hands) = Inr built" and
    made: "make_plan \<lparr>plan_domain = domain, plan_policy_digest = policy_digest_of D active,
       plan_partition_digest = partition_digest_of D outer, resolved_fold_count = n, folds = built\<rparr> = Inr p"
    using build unfolding build_domain_plan_def by (auto simp: result_simps)
  define keys where "keys = condition_ids D units"
  define us where "us = dealing_order D units seed keys"
  have keys: "distinct keys" "set keys = condition_id D ` set units" unfolding keys_def by (simp_all add: condition_ids)
  have us: "set us = set units" "distinct us"
    using dealing_order_filter[of keys D units seed] keys run_order_distinct[OF order] by (auto simp: us_def)
  have hands: "hands = map (\<lambda>j. dealt (nat n) j 0 us) [0..<nat n]"
    using assign_evaluation_folds_exact[of "nat n" D units seed] hands n by (simp add: us_def keys_def)
  have len: "length built = nat n" using mapE_length[OF built] by (simp add: hands)
  have fold_at: "fold_index (built ! j) = j \<and> evaluation_unit_ids (built ! j) = sorted_set (map unit_id (dealt (nat n) j 0 us))
      \<and> fold_spec active units (built ! j)" if "j < nat n" for j
  proof -
    have "build_fold D interior active c units (j, dealt (nat n) j 0 us) = Inr (built ! j)"
      using built[unfolded mapE_Inr_iff, THEN list_all2_nthD2, of j] that by (simp add: len hands nth_enumerate_eq)
    moreover have "set (dealt (nat n) j 0 us) \<subseteq> set units" using set_dealt_subset us(1) by metis
    ultimately show ?thesis by (rule build_fold_ok[OF points order, rotated])
  qed
  have index: "map fold_index built = [0..<length built]"
    by (rule nth_equalityI) (simp_all add: len fold_at)
  then have "sort_key fold_index built = built" by (intro sort_key_id_if_sorted) simp
  with made have p: "plan_domain p = domain" "resolved_fold_count p = n" "folds p = built"
    and once: "distinct (concat (map evaluation_unit_ids built))"
    by (auto simp: make_plan_def Let_def result_simps)
  have inj: "inj_on unit_id (set us)" using order by (simp add: us run_order_def distinct_map)
  have evaluated: "set (evaluation_unit_ids (built ! j)) = unit_id ` set (dealt (nat n) j 0 us)"
    "length (evaluation_unit_ids (built ! j)) = length (dealt (nat n) j 0 us)" if "j < nat n" for j
  proof -
    have "distinct (map unit_id (dealt (nat n) j 0 us))"
      using inj_on_subset[OF inj set_dealt_subset] distinct_dealt[OF us(2)] by (simp add: distinct_map)
    then show "length (evaluation_unit_ids (built ! j)) = length (dealt (nat n) j 0 us)"
      using fold_at[OF that] by (simp add: sorted_set_def distinct_remdups_id)
  qed (use fold_at[OF that] in simp)
  have folds: "f \<in> set built \<longleftrightarrow> (\<exists>j < nat n. f = built ! j)" for f by (auto simp: in_set_conv_nth len)
  have "set (concat (map evaluation_unit_ids built)) = (\<Union>j < nat n. unit_id ` set (dealt (nat n) j 0 us))"
  proof -
    have "set built = (\<lambda>j. built ! j) ` {..<nat n}" by (auto simp: folds)
    then show ?thesis using evaluated(1) by simp
  qed
  also have "\<dots> = unit_id ` set units"
    using set_dealt[where n = "nat n" and us = us and p = 0] n us(1) by (simp flip: image_UN)
  finally have cover: "set (concat (map evaluation_unit_ids built)) = unit_id ` set units" .
  have card_eq: "card {u \<in> set units. condition_id D u = key \<and> unit_id u \<in> set (evaluation_unit_ids (built ! j))}
      = length (filter (\<lambda>u. condition_id D u = key) (dealt (nat n) j 0 us))" if "j < nat n" for key j
  proof -
    have "{u \<in> set units. condition_id D u = key \<and> unit_id u \<in> set (evaluation_unit_ids (built ! j))}
        = set (filter (\<lambda>u. condition_id D u = key) (dealt (nat n) j 0 us))"
      using inj set_dealt_subset[of "nat n" j 0 us] unfolding evaluated(1)[OF that] us(1)[symmetric]
      by (auto dest: inj_onD)
    then show ?thesis using distinct_card[OF distinct_filter[OF distinct_dealt[OF us(2)]]] by metis
  qed
  have "fold_spec active units f" if "f \<in> set built" for f using that fold_at by (auto simp: folds)
  moreover have "length (evaluation_unit_ids f) \<le> length (evaluation_unit_ids g) + 1"
    if "f \<in> set built" "g \<in> set built" for f g
    using that evaluated(2) dealt_balanced[where us = us and p = 0] by (auto simp: folds)
  moreover have "card {u \<in> set units. condition_id D u = key \<and> unit_id u \<in> set (evaluation_unit_ids f)}
      \<le> card {u \<in> set units. condition_id D u = key \<and> unit_id u \<in> set (evaluation_unit_ids g)} + 1"
    if fg: "f \<in> set built" "g \<in> set built" for f g key
  proof -
    from fg obtain j k where jk: "j < nat n" "k < nat n" "f = built ! j" "g = built ! k" by (auto simp: folds)
    then show ?thesis
      using condition_balanced[OF keys(1) jk(1,2) us_def, of key] card_eq[OF jk(1)] card_eq[OF jk(2)] by simp
  qed
  ultimately show ?thesis using n len index once cover unfolding plan_spec_def p by auto
qed

section \<open>Plans of all domains\<close>

definition development_units :: "unit_catalog \<Rightarrow> outer_partition \<Rightarrow> partition_unit list" where
  "development_units c p = filter (\<lambda>u. unit_id u \<in> role_ids p DEVELOPMENT) (catalog_units c)"

lemma units_between_cong: "set us = set vs \<Longrightarrow> units_between us = units_between vs"
  by (intro ext) (simp add: units_between_def)

lemma near_ids_cong: "set us = set vs \<Longrightarrow> near_ids r us = near_ids r vs"
  by (intro ext) (simp add: near_ids_def within_radius_def units_between_cong[of us vs])

lemma plan_spec_cong: "set us = set vs \<Longrightarrow> plan_spec D active us p = plan_spec D active vs p"
  by (simp add: plan_spec_def fold_spec_def Let_def near_ids_cong[of us vs])

lemma run_order_subset:
  "run_order units \<Longrightarrow> set us \<subseteq> set units \<Longrightarrow> distinct (map unit_id us) \<Longrightarrow> run_order us"
  unfolding run_order_def by blast

lemma mapE_map:
  assumes "mapE f xs = Inr ys" and "\<And>x y. x \<in> set xs \<Longrightarrow> f x = Inr y \<Longrightarrow> g y = x"
  shows "map g ys = xs"
  using assms by (induction xs arbitrary: ys) (auto simp: result_simps)

lemma mapE_mem: "mapE f xs = Inr ys \<Longrightarrow> y \<in> set ys \<Longrightarrow> \<exists>x \<in> set xs. f x = Inr y"
  by (induction xs arbitrary: ys) (auto simp: result_simps)

lemma build_cross_validation_plans_exact:
  assumes points: "interior_points interior" and order: "run_order (catalog_units c)"
    and once: "\<forall>p \<in> set partitions. distinct (map assigned_unit (assignments p))"
    and build: "build_cross_validation_plans D interior active c partitions reports override seed_override = Inr plans"
  shows "map plan_domain plans = sorted_set (map partition_domain partitions)"
    and "\<forall>plan \<in> set plans. \<exists>p \<in> set partitions. partition_domain p = plan_domain plan
      \<and> map_of (dict_of (map (\<lambda>p. (partition_domain p, p)) partitions)) (plan_domain plan) = Some p
      \<and> unit_id ` set (development_units c p) = role_ids p DEVELOPMENT
      \<and> plan_spec D active (development_units c p) plan"
proof -
  define outer_map where "outer_map = dict_of (map (\<lambda>p. (partition_domain p, p)) partitions)"
  define step where "step domain = bindE (lookupE outer_map domain) (\<lambda>outer.
        bindE (mapE (catalog_unit c) (units_for outer DEVELOPMENT)) (\<lambda>development.
        bindE (lookupE (dict_of (map (\<lambda>r. (report_domain r, r)) reports)) domain) (\<lambda>report.
        build_domain_plan D interior active c report override seed_override domain outer development)))" for domain
  have run: "mapE step (sort (map fst outer_map)) = Inr plans"
    using build unfolding build_cross_validation_plans_def Let_def outer_map_def[symmetric] step_def .
  have one: "plan_domain plan = domain \<and> (\<exists>p \<in> set partitions. partition_domain p = domain
      \<and> map_of outer_map domain = Some p \<and> unit_id ` set (development_units c p) = role_ids p DEVELOPMENT
      \<and> plan_spec D active (development_units c p) plan)" if step: "step domain = Inr plan" for domain plan
  proof -
    from step obtain p development report where
      p: "map_of outer_map domain = Some p" and dev: "mapE (catalog_unit c) (units_for p DEVELOPMENT) = Inr development"
      and built: "build_domain_plan D interior active c report override seed_override domain p development = Inr plan"
      by (auto simp: step_def result_simps)
    from p have mem: "p \<in> set partitions" "partition_domain p = domain"
      unfolding outer_map_def map_of_dict_of by (auto dest!: map_of_SomeD)
    note ids = catalog_unit_ids[OF dev]
    have "distinct (units_for p DEVELOPMENT)" using once mem(1) by (simp add: units_for_def distinct_map_filter)
    with ids order have order': "run_order development" by (metis run_order_subset)
    have "set development = set (development_units c p)"
    proof
      show "set development \<subseteq> set (development_units c p)"
      proof
        have ids_set: "set (units_for p DEVELOPMENT) = unit_id ` set development" using ids by (metis set_map)
        fix u assume "u \<in> set development"
        then show "u \<in> set (development_units c p)" using ids by (auto simp: development_units_def role_ids_def ids_set)
      qed
      show "set (development_units c p) \<subseteq> set development"
      proof
        fix u assume "u \<in> set (development_units c p)"
        then have u: "u \<in> set (catalog_units c)" "unit_id u \<in> set (map unit_id development)"
          using ids by (auto simp: development_units_def role_ids_def)
        then obtain v where "v \<in> set development" "unit_id v = unit_id u" by auto
        with u(1) ids order show "u \<in> set development"
          unfolding run_order_def distinct_map by (metis inj_onD subsetD)
      qed
    qed
    with build_domain_plan_exact[OF points order' built] ids mem p show ?thesis
      by (metis plan_spec_cong role_ids_def set_map)
  qed
  have "map plan_domain plans = sort (map fst outer_map)" by (rule mapE_map[OF run]) (use one in blast)
  also have "\<dots> = sorted_set (map partition_domain partitions)"
  proof -
    have "set (map fst outer_map) = set (map partition_domain partitions)"
      using map_of_dict_of_None[of "map (\<lambda>p. (partition_domain p, p)) partitions"]
      by (auto simp: outer_map_def map_of_eq_None_iff image_image)
    moreover have "distinct (map fst outer_map)"
      unfolding outer_map_def dict_of_def
      by (induction partitions rule: rev_induct) simp_all
    ultimately show ?thesis
      by (metis sorted_set_def sorted_set_eq_iff distinct_remdups_id)
  qed
  finally show "map plan_domain plans = sorted_set (map partition_domain partitions)" .
  show "\<forall>plan \<in> set plans. \<exists>p \<in> set partitions. partition_domain p = plan_domain plan
      \<and> map_of (dict_of (map (\<lambda>p. (partition_domain p, p)) partitions)) (plan_domain plan) = Some p
      \<and> unit_id ` set (development_units c p) = role_ids p DEVELOPMENT
      \<and> plan_spec D active (development_units c p) plan"
    using mapE_mem[OF run] one unfolding outer_map_def[symmetric] by blast
qed

end
