(* ===== verification/Leakage_Audit.thy ===== *)
theory Leakage_Audit
  imports Cross_Validation
begin

text \<open>
  The leakage audit of a statistical partition (\<open>mdstats/training_data/leakage.py\<close>): it re-derives what a
  partition and its cross-validation plans must not share and reports one finding for each violation.

  Of a frame the audit reads its identifier and two fingerprints, of an event its protected frames.
\<close>

section \<open>Findings and reports\<close>

datatype leakage_severity = INFO | WARNING | ERROR

fun severity_value :: "leakage_severity \<Rightarrow> string" where
  "severity_value INFO = ''info''"
| "severity_value WARNING = ''warning''"
| "severity_value ERROR = ''error''"

record leakage_policy =
  reject_geometry_duplicates_across_outer_roles :: bool
  reject_labeled_duplicates_across_outer_roles :: bool
  reject_event_window_role_split :: bool
  reject_missing_purge_neighbors :: bool
  leakage_policy_version :: string

definition make_leakage_policy :: "leakage_policy \<Rightarrow> leakage_policy result" where
  "make_leakage_policy p =
     bindE (guardE (strip (leakage_policy_version p) \<noteq> [])
       (TrainingDataInputError (Text ''policy_version must be non-empty.''))) (\<lambda>_. Inr p)"

record leakage_finding =
  finding_code :: string
  finding_severity :: leakage_severity
  finding_domain :: "string option"
  finding_units :: "string list"
  finding_frames :: "string list"
  finding_message :: string

definition make_finding :: "leakage_finding \<Rightarrow> leakage_finding result" where
  "make_finding f =
     bindE (guardE (strip (finding_code f) \<noteq> [] \<and> strip (finding_message f) \<noteq> [])
       (TrainingDataInputError (Text ''Leakage finding code and message are required.''))) (\<lambda>_.
     let units = sorted_set (finding_units f); frames = sorted_set (finding_frames f) in
     bindE (mapE (validate_digest ''unit_id'') units) (\<lambda>_.
     bindE (mapE (validate_digest ''frame_uid'') frames) (\<lambda>_.
     Inr (f\<lparr>finding_units := units, finding_frames := frames\<rparr>))))"

record audit_digests = cv_digests +
  finding_digest_of :: "leakage_finding \<Rightarrow> string"
  plan_digest_of :: "cv_plan \<Rightarrow> string"
  leakage_policy_digest_of :: "leakage_policy \<Rightarrow> string"

record leakage_report =
  audit_policy_digest :: string
  audit_catalog_digest :: string
  outer_partition_digests :: "string list"
  cross_validation_plan_digests :: "string list"
  audit_findings :: "leakage_finding list"

definition make_leakage_report :: "('z) audit_digests_scheme \<Rightarrow> leakage_report \<Rightarrow> leakage_report result" where
  "make_leakage_report D r =
     bindE (validate_digest ''policy_digest'' (audit_policy_digest r)) (\<lambda>_.
     bindE (validate_digest ''unit_catalog_digest'' (audit_catalog_digest r)) (\<lambda>_.
     bindE (mapE (validate_digest ''outer_partition_digest'') (outer_partition_digests r)) (\<lambda>outer.
     bindE (mapE (validate_digest ''cross_validation_plan_digest'') (cross_validation_plan_digests r)) (\<lambda>plans.
     Inr (r\<lparr>outer_partition_digests := sort outer, cross_validation_plan_digests := sort plans,
       audit_findings := sort_key (\<lambda>f. (severity_value (finding_severity f), finding_code f, finding_digest_of D f))
         (audit_findings r)\<rparr>)))))"

definition audit_passed :: "leakage_report \<Rightarrow> bool" where
  "audit_passed r \<longleftrightarrow> \<not> (\<exists>f \<in> set (audit_findings r). finding_severity f = ERROR)"

text \<open>Findings are appended one by one.\<close>

definition add_finding ::
  "bool \<Rightarrow> string \<Rightarrow> string option \<Rightarrow> string list result \<Rightarrow> string list result \<Rightarrow> string \<Rightarrow> leakage_finding list
   \<Rightarrow> leakage_finding list result" where
  "add_finding found code domain units frames text findings =
     (if found then
        bindE units (\<lambda>us. bindE frames (\<lambda>fs.
        bindE (make_finding \<lparr>finding_code = code, finding_severity = ERROR, finding_domain = domain,
          finding_units = us, finding_frames = fs, finding_message = text\<rparr>) (\<lambda>f.
        Inr (findings @ [f]))))
      else Inr findings)"

section \<open>Outer roles\<close>

definition role_by_unit :: "outer_partition list \<Rightarrow> (string \<times> outer_role) list result" where
  "role_by_unit partitions =
     foldE (\<lambda>a result. bindE (guardE (assigned_unit a \<notin> fst ` set result)
         (TrainingDataInputError (Text ''A unit is present in multiple outer partitions.''))) (\<lambda>_.
       Inr (AList.update (assigned_unit a) (assigned_role a) result)))
       (concat (map assignments partitions)) []"

definition protected_role :: "outer_role \<Rightarrow> bool" where
  "protected_role r \<longleftrightarrow> r \<in> {OUTER_MONITOR, UNCERTAINTY_CALIBRATION, LOCKED_INTERPOLATION_TEST}"

definition incompatible_role :: "outer_role option \<Rightarrow> bool" where
  "incompatible_role r \<longleftrightarrow> r \<in> Some ` {DEVELOPMENT, OUTER_MONITOR, UNCERTAINTY_CALIBRATION, LOCKED_INTERPOLATION_TEST}"

definition frames_of_units :: "unit_catalog \<Rightarrow> string list \<Rightarrow> string list result" where
  "frames_of_units c ids = bindE (mapE (catalog_unit c) ids) (\<lambda>us. Inr (concat (map frame_uids us)))"

text \<open>\<open>xs ^ ys\<close> and \<open>xs - ys\<close> of Python sets.\<close>

definition set_xor :: "string list \<Rightarrow> string list \<Rightarrow> string list" where
  "set_xor xs ys = filter (\<lambda>x. x \<notin> set ys) xs @ filter (\<lambda>y. y \<notin> set xs) ys"

definition check_classification :: "unit_catalog \<Rightarrow> (string \<times> outer_role) list \<Rightarrow> leakage_finding list \<Rightarrow> leakage_finding list result" where
  "check_classification c roles =
     (let known = remdups (map unit_id (catalog_units c)) in
      add_finding (set (map fst roles) \<noteq> set known) ''outer_partition_incomplete'' None
        (Inr (sort (set_xor known (map fst roles)))) (Inr [])
        ''Outer partitions do not classify every partition unit exactly once.'')"

definition check_outer_purge ::
  "leakage_policy \<Rightarrow> partition_policy \<Rightarrow> unit_catalog \<Rightarrow> (string \<times> outer_role) list \<Rightarrow> leakage_finding list
   \<Rightarrow> leakage_finding list result" where
  "check_outer_purge active policy c roles findings =
     (if reject_missing_purge_neighbors active then
        bindE (neighbor_unit_ids (build_temporal_neighbor_index (catalog_units c))
            (map fst (filter (\<lambda>(_, role). protected_role role) roles)) (purge_units_between_roles (policy_budget policy)))
          (\<lambda>expected.
        let missing = filter (\<lambda>uid. map_of roles uid \<noteq> Some PURGED) expected in
        add_finding (missing \<noteq> []) ''missing_outer_purge_neighbor'' None (Inr (sort missing))
          (frames_of_units c (sort missing))
          ''A same-run neighbor of outer evidence is not assigned to the outer purge role.'' findings)
      else Inr findings)"

section \<open>Frames that cross roles\<close>

record frame_record =
  frame_uid :: string
  geometry_fingerprint :: string
  labeled_configuration_fingerprint :: string

text \<open>The frames whose unit has a role that must not share content with another, with unit and role.\<close>

definition frame_to_unit :: "unit_catalog \<Rightarrow> (string \<times> string) list" where
  "frame_to_unit c = dict_of (concat (map (\<lambda>u. map (\<lambda>f. (f, unit_id u)) (frame_uids u)) (catalog_units c)))"

definition frame_to_role :: "unit_catalog \<Rightarrow> (string \<times> outer_role) list \<Rightarrow> (string \<times> outer_role) list" where
  "frame_to_role c roles = concat (map (\<lambda>(f, uid). case map_of roles uid of None \<Rightarrow> [] | Some role \<Rightarrow> [(f, role)]) (frame_to_unit c))"

definition role_frames :: "unit_catalog \<Rightarrow> (string \<times> outer_role) list \<Rightarrow> frame_record list \<Rightarrow> frame_record list" where
  "role_frames c roles = filter (\<lambda>f. incompatible_role (map_of (frame_to_role c roles) (frame_uid f)))"

definition check_duplicates ::
  "bool \<Rightarrow> (frame_record \<Rightarrow> string) \<Rightarrow> string \<Rightarrow> string \<Rightarrow> unit_catalog \<Rightarrow> (string \<times> outer_role) list \<Rightarrow> frame_record list
   \<Rightarrow> leakage_finding list \<Rightarrow> leakage_finding list result" where
  "check_duplicates enabled fingerprint code text c roles frames findings =
     (if enabled then
        foldE (\<lambda>(key, members).
          let uids = map frame_uid members in
          add_finding (1 < length (remdups (map (map_of (frame_to_role c roles)) uids))) code None
            (bindE (mapE (lookupE (frame_to_unit c)) uids) (\<lambda>us. Inr (sorted_set us))) (Inr uids) text)
          (group_by fingerprint (role_frames c roles frames)) findings
      else Inr findings)"

definition check_events ::
  "leakage_policy \<Rightarrow> unit_catalog \<Rightarrow> (string \<times> outer_role) list \<Rightarrow> string list list \<Rightarrow> leakage_finding list
   \<Rightarrow> leakage_finding list result" where
  "check_events active c roles events findings =
     (if reject_event_window_role_split active then
        foldE (\<lambda>uids.
          add_finding (1 < length (remdups (List.map_filter (map_of (frame_to_role c roles)) uids)))
            ''protected_event_window_split'' None
            (Inr (sorted_set (List.map_filter (map_of (frame_to_unit c)) uids))) (Inr uids)
            ''A DATA4 protected event window crosses outer statistical roles.'') events findings
      else Inr findings)"

section \<open>Cross-validation folds\<close>

definition check_fold_purge ::
  "leakage_policy \<Rightarrow> partition_policy \<Rightarrow> unit_catalog \<Rightarrow> string list \<Rightarrow> temporal_index \<Rightarrow> string \<Rightarrow> cv_fold \<Rightarrow> leakage_finding list
   \<Rightarrow> leakage_finding list result" where
  "check_fold_purge active policy c development temporal domain f findings =
     (if reject_missing_purge_neighbors active then
        let protected = remdups (evaluation_unit_ids f @ checkpoint_monitor_unit_ids f) in
        bindE (neighbor_unit_ids temporal protected (purge_units_between_roles (policy_budget policy))) (\<lambda>expected.
        let missing = filter (\<lambda>uid. uid \<notin> set (purged_unit_ids f) \<and> uid \<notin> set protected) expected in
        add_finding (missing \<noteq> []) ''missing_cross_validation_purge_neighbor'' (Some domain) (Inr (sort missing))
          (frames_of_units c (sort missing))
          ''A same-run neighbor of a held-out or checkpoint-monitor unit remains unpurged in a cross-validation fold.''
          findings)
      else Inr findings)"

definition check_fold ::
  "leakage_policy \<Rightarrow> partition_policy \<Rightarrow> unit_catalog \<Rightarrow> string list \<Rightarrow> temporal_index \<Rightarrow> string \<Rightarrow> cv_fold \<Rightarrow> leakage_finding list
   \<Rightarrow> leakage_finding list result" where
  "check_fold active policy c development temporal domain f findings =
     (let parts = map snd (fold_groups f); classified = remdups (concat parts) in
      bindE (check_fold_purge active policy c development temporal domain f findings) (\<lambda>findings.
      bindE (add_finding (\<not> pairwise_disjoint parts) ''cross_validation_role_overlap'' (Some domain)
        (Inr (sort classified)) (Inr [])
        ''Cross-validation training, monitor, evaluation, and purge roles overlap.'' findings)
      (add_finding (set classified \<noteq> set development) ''cross_validation_does_not_classify_development'' (Some domain)
        (Inr (sort (set_xor classified development))) (Inr [])
        ''A cross-validation fold does not classify every development unit.'')))"

definition check_plan ::
  "leakage_policy \<Rightarrow> partition_policy \<Rightarrow> unit_catalog \<Rightarrow> outer_partition list \<Rightarrow> cv_plan \<Rightarrow> leakage_finding list
   \<Rightarrow> leakage_finding list result" where
  "check_plan active policy c partitions plan findings =
     bindE (lookupE (dict_of (map (\<lambda>p. (partition_domain p, p)) partitions)) (plan_domain plan)) (\<lambda>outer.
     let development = units_for outer DEVELOPMENT in
     bindE (mapE (catalog_unit c) (sort development)) (\<lambda>units.
     let temporal = build_temporal_neighbor_index units in
     bindE (foldE (check_fold active policy c development temporal (plan_domain plan)) (folds plan) findings) (\<lambda>findings.
     let held_out = remdups (concat (map evaluation_unit_ids (folds plan))) in
     add_finding (set held_out \<noteq> set development) ''development_not_held_out_exactly_once'' (Some (plan_domain plan))
       (Inr (sort (set_xor held_out development))) (Inr [])
       ''Every development unit must appear in one held-out evaluation fold.'' findings)))"

section \<open>The audit\<close>

definition no_leakage_finding :: leakage_finding where
  "no_leakage_finding = \<lparr>finding_code = ''no_partition_leakage_detected'', finding_severity = INFO, finding_domain = None,
     finding_units = [], finding_frames = [],
     finding_message = ''All DATA5 identity, event-window, role, and fold checks passed.''\<rparr>"

definition collect_findings ::
  "leakage_policy \<Rightarrow> partition_policy \<Rightarrow> unit_catalog \<Rightarrow> outer_partition list \<Rightarrow> cv_plan list \<Rightarrow> frame_record list
   \<Rightarrow> string list list \<Rightarrow> leakage_finding list result" where
  "collect_findings active policy c partitions plans frames events =
     bindE (role_by_unit partitions) (\<lambda>roles.
     bindE (check_classification c roles []) (\<lambda>found.
     bindE (check_outer_purge active policy c roles found) (\<lambda>found.
     bindE (check_duplicates (reject_geometry_duplicates_across_outer_roles active) geometry_fingerprint
       ''geometry_duplicate_crosses_outer_roles''
       ''An exact geometry fingerprint appears in incompatible outer roles.'' c roles frames found) (\<lambda>found.
     bindE (check_duplicates (reject_labeled_duplicates_across_outer_roles active) labeled_configuration_fingerprint
       ''labeled_duplicate_crosses_outer_roles''
       ''An exact labeled configuration appears in incompatible outer roles.'' c roles frames found) (\<lambda>found.
     bindE (check_events active c roles events found) (\<lambda>found.
     foldE (check_plan active policy c partitions) plans found))))))"

definition audit_partition_leakage ::
  "('z) audit_digests_scheme \<Rightarrow> leakage_policy \<Rightarrow> partition_policy \<Rightarrow> unit_catalog \<Rightarrow> outer_partition list \<Rightarrow> cv_plan list
   \<Rightarrow> frame_record list \<Rightarrow> string list list \<Rightarrow> leakage_report result" where
  "audit_partition_leakage D active policy c partitions plans frames events =
     bindE (guardE (catalog_policy_digest c = policy_digest_of D policy)
       (TrainingDataInputError (Text ''Leakage audit partition policy does not match the unit catalog.''))) (\<lambda>_.
     bindE (collect_findings active policy c partitions plans frames events) (\<lambda>found.
     bindE (if found = [] then bindE (make_finding no_leakage_finding) (\<lambda>f. Inr [f]) else Inr found) (\<lambda>found.
     make_leakage_report D
       \<lparr>audit_policy_digest = leakage_policy_digest_of D active, audit_catalog_digest = catalog_digest_of D c,
        outer_partition_digests = map (partition_digest_of D) partitions,
        cross_validation_plan_digests = map (plan_digest_of D) plans, audit_findings = found\<rparr>)))"

section \<open>A check adds findings exactly when something is wrong\<close>

definition adds :: "bool \<Rightarrow> leakage_finding list \<Rightarrow> leakage_finding list result \<Rightarrow> bool" where
  "adds wrong findings r \<longleftrightarrow> (\<exists>new. r = Inr (findings @ new) \<and> (new \<noteq> [] \<longleftrightarrow> wrong)
     \<and> (\<forall>f \<in> set new. finding_severity f = ERROR))"

lemma adds_none: "adds False findings (Inr findings)"
  by (simp add: adds_def)

lemma adds_if: "(enabled \<Longrightarrow> adds wrong findings r) \<Longrightarrow> adds (enabled \<and> wrong) findings (if enabled then r else Inr findings)"
  by (auto simp: adds_def)

lemma adds_bind:
  assumes "adds b findings r" and "\<And>found. adds b' found (k found)"
  shows "adds (b \<or> b') findings (bindE r k)"
proof -
  from assms(1) obtain new where new: "r = Inr (findings @ new)" "new \<noteq> [] \<longleftrightarrow> b" "\<forall>f \<in> set new. finding_severity f = ERROR"
    by (auto simp: adds_def)
  from assms(2)[of "findings @ new"] obtain more where
    "k (findings @ new) = Inr ((findings @ new) @ more)" "more \<noteq> [] \<longleftrightarrow> b'" "\<forall>f \<in> set more. finding_severity f = ERROR"
    by (auto simp: adds_def)
  with new show ?thesis unfolding adds_def by (intro exI[of _ "new @ more"]) auto
qed

lemma adds_foldE:
  assumes "\<And>x found. x \<in> set xs \<Longrightarrow> adds (b x) found (f x found)"
  shows "adds (\<exists>x \<in> set xs. b x) findings (foldE f xs findings)"
  using assms
proof (induction xs arbitrary: findings)
  case (Cons x xs)
  then have "adds (b x \<or> (\<exists>x \<in> set xs. b x)) findings (bindE (f x findings) (foldE f xs))"
    by (intro adds_bind) simp_all
  then show ?case by simp
qed (simp add: adds_none)

lemma strip_nonblank: "\<not> python_space c \<Longrightarrow> strip (c # cs) \<noteq> []"
proof -
  assume "\<not> python_space c"
  then have "c \<in> set (rev (c # cs))" "dropWhile python_space (c # cs) = c # cs" by simp_all
  then show ?thesis using \<open>\<not> python_space c\<close> by (auto simp: strip_def dropWhile_eq_Nil_conv)
qed

lemma validate_digests: "\<forall>x \<in> set xs. is_digest x \<Longrightarrow> mapE (validate_digest name) xs = Inr xs"
  by (induction xs) (simp_all add: validate_digest_def)

lemma add_finding_adds:
  assumes "strip code \<noteq> []" and "strip text \<noteq> []"
    and "found \<Longrightarrow> \<exists>us. units = Inr us \<and> (\<forall>u \<in> set us. is_digest u)"
    and "found \<Longrightarrow> \<exists>fs. frames = Inr fs \<and> (\<forall>f \<in> set fs. is_digest f)"
  shows "adds found findings (add_finding found code domain units frames text findings)"
  using assms by (auto simp: adds_def add_finding_def make_finding_def Let_def validate_digests)

section \<open>What leakage is\<close>

definition unit_role :: "outer_partition list \<Rightarrow> string \<Rightarrow> outer_role option" where
  "unit_role partitions = map_of (map (\<lambda>a. (assigned_unit a, assigned_role a)) (concat (map assignments partitions)))"

definition frame_role :: "unit_catalog \<Rightarrow> outer_partition list \<Rightarrow> string \<Rightarrow> outer_role option" where
  "frame_role c partitions f = (case unit_for_frame c f of Inl _ \<Rightarrow> None | Inr u \<Rightarrow> unit_role partitions (unit_id u))"

definition protected_ids :: "outer_partition list \<Rightarrow> string set" where
  "protected_ids partitions = {uid. \<exists>role. unit_role partitions uid = Some role \<and> protected_role role}"

definition all_classified :: "unit_catalog \<Rightarrow> outer_partition list \<Rightarrow> bool" where
  "all_classified c partitions \<longleftrightarrow> dom (unit_role partitions) = unit_id ` set (catalog_units c)"

definition neighbors_purged :: "partition_policy \<Rightarrow> unit_catalog \<Rightarrow> outer_partition list \<Rightarrow> bool" where
  "neighbors_purged policy c partitions \<longleftrightarrow>
     (\<forall>uid \<in> near_ids (purge_units_between_roles (policy_budget policy)) (catalog_units c) (protected_ids partitions).
        unit_role partitions uid = Some PURGED)"

definition roles_share_no :: "(frame_record \<Rightarrow> string) \<Rightarrow> unit_catalog \<Rightarrow> outer_partition list \<Rightarrow> frame_record list \<Rightarrow> bool" where
  "roles_share_no fingerprint c partitions frames \<longleftrightarrow>
     (\<forall>f \<in> set frames. \<forall>g \<in> set frames. fingerprint f = fingerprint g
        \<longrightarrow> incompatible_role (frame_role c partitions (frame_uid f)) \<longrightarrow> incompatible_role (frame_role c partitions (frame_uid g))
        \<longrightarrow> frame_role c partitions (frame_uid f) = frame_role c partitions (frame_uid g))"

definition events_whole :: "unit_catalog \<Rightarrow> outer_partition list \<Rightarrow> string list list \<Rightarrow> bool" where
  "events_whole c partitions events \<longleftrightarrow>
     (\<forall>uids \<in> set events. \<forall>f \<in> set uids. \<forall>g \<in> set uids. frame_role c partitions f \<noteq> None \<longrightarrow> frame_role c partitions g \<noteq> None
        \<longrightarrow> frame_role c partitions f = frame_role c partitions g)"

definition fold_sound :: "leakage_policy \<Rightarrow> partition_policy \<Rightarrow> partition_unit list \<Rightarrow> cv_fold \<Rightarrow> bool" where
  "fold_sound active policy units f \<longleftrightarrow>
     (reject_missing_purge_neighbors active \<longrightarrow>
        near_ids (purge_units_between_roles (policy_budget policy)) units
          (set (evaluation_unit_ids f) \<union> set (checkpoint_monitor_unit_ids f)) \<subseteq> set (purged_unit_ids f))
     \<and> pairwise_disjoint (map snd (fold_groups f))
     \<and> set (concat (map snd (fold_groups f))) = unit_id ` set units"

definition plan_sound :: "leakage_policy \<Rightarrow> partition_policy \<Rightarrow> partition_unit list \<Rightarrow> cv_plan \<Rightarrow> bool" where
  "plan_sound active policy units plan \<longleftrightarrow> (\<forall>f \<in> set (folds plan). fold_sound active policy units f)
     \<and> set (concat (map evaluation_unit_ids (folds plan))) = unit_id ` set units"

text \<open>The partition that a plan is checked against; of two with the same domain the later one counts.\<close>

definition partition_of :: "outer_partition list \<Rightarrow> string \<Rightarrow> outer_partition option" where
  "partition_of partitions = map_of (dict_of (map (\<lambda>p. (partition_domain p, p)) partitions))"

definition leak_free ::
  "leakage_policy \<Rightarrow> partition_policy \<Rightarrow> unit_catalog \<Rightarrow> outer_partition list \<Rightarrow> cv_plan list \<Rightarrow> frame_record list
   \<Rightarrow> string list list \<Rightarrow> bool" where
  "leak_free active policy c partitions plans frames events \<longleftrightarrow>
     all_classified c partitions
     \<and> (reject_missing_purge_neighbors active \<longrightarrow> neighbors_purged policy c partitions)
     \<and> (reject_geometry_duplicates_across_outer_roles active \<longrightarrow> roles_share_no geometry_fingerprint c partitions frames)
     \<and> (reject_labeled_duplicates_across_outer_roles active \<longrightarrow> roles_share_no labeled_configuration_fingerprint c partitions frames)
     \<and> (reject_event_window_role_split active \<longrightarrow> events_whole c partitions events)
     \<and> (\<forall>plan \<in> set plans. \<forall>p. partition_of partitions (plan_domain plan) = Some p \<longrightarrow>
          plan_sound active policy (development_units c p) plan)"

section \<open>Data that the audit can read\<close>

definition catalog_ok :: "unit_catalog \<Rightarrow> bool" where
  "catalog_ok c \<longleftrightarrow> run_order (catalog_units c) \<and> distinct (concat (map frame_uids (catalog_units c)))
     \<and> (\<forall>u \<in> set (catalog_units c). is_digest (unit_id u) \<and> (\<forall>f \<in> set (frame_uids u). is_digest f))"

definition partitions_ok :: "unit_catalog \<Rightarrow> outer_partition list \<Rightarrow> bool" where
  "partitions_ok c partitions \<longleftrightarrow> distinct (map assigned_unit (concat (map assignments partitions)))
     \<and> (\<forall>p \<in> set partitions. \<forall>a \<in> set (assignments p). is_digest (assigned_unit a))"

definition plan_ok :: "unit_catalog \<Rightarrow> outer_partition list \<Rightarrow> cv_plan \<Rightarrow> bool" where
  "plan_ok c partitions plan \<longleftrightarrow>
     (\<exists>p. partition_of partitions (plan_domain plan) = Some p \<and> role_ids p DEVELOPMENT \<subseteq> unit_id ` set (catalog_units c))
     \<and> (\<forall>f \<in> set (folds plan). \<forall>ids \<in> set (map snd (fold_groups f)). \<forall>uid \<in> set ids. is_digest uid)"

lemma role_by_unit_ok:
  assumes "distinct (map assigned_unit as)"
  shows "foldE (\<lambda>a result. bindE (guardE (assigned_unit a \<notin> fst ` set result)
         (TrainingDataInputError (Text ''A unit is present in multiple outer partitions.''))) (\<lambda>_.
       Inr (AList.update (assigned_unit a) (assigned_role a) result))) as []
    = Inr (map (\<lambda>a. (assigned_unit a, assigned_role a)) as)"
  using assms
proof (induction as rule: rev_induct)
  case (snoc a as)
  then have fresh: "assigned_unit a \<notin> fst ` set (map (\<lambda>a. (assigned_unit a, assigned_role a)) as)" by auto
  show ?case using snoc update_fresh[OF fresh] fresh by (simp add: guardE_def)
qed simp

lemma role_by_unit_roles:
  assumes "partitions_ok c partitions"
  obtains roles where "role_by_unit partitions = Inr roles" and "map_of roles = unit_role partitions"
    and "distinct (map fst roles)" and "\<forall>uid \<in> set (map fst roles). is_digest uid"
proof
  show "role_by_unit partitions = Inr (map (\<lambda>a. (assigned_unit a, assigned_role a)) (concat (map assignments partitions)))"
    using assms unfolding role_by_unit_def by (intro role_by_unit_ok) (simp add: partitions_ok_def)
qed (use assms in \<open>auto simp: unit_role_def partitions_ok_def comp_def\<close>)

lemma frame_to_unit_lookup:
  "map_of (frame_to_unit c) f = (case unit_for_frame c f of Inl _ \<Rightarrow> None | Inr u \<Rightarrow> Some (unit_id u))"
proof -
  have key: "map_of (rev (concat (map (\<lambda>u. map (\<lambda>f. (f, unit_id u)) (frame_uids u)) us))) f
      = map_option unit_id (map_of (rev (concat (map (\<lambda>u. map (\<lambda>f. (f, u)) (frame_uids u)) us))) f)" for us
  proof -
    have "rev (concat (map (\<lambda>u. map (\<lambda>f. (f, unit_id u)) (frame_uids u)) us))
        = map (\<lambda>(f, u). (f, unit_id u)) (rev (concat (map (\<lambda>u. map (\<lambda>f. (f, u)) (frame_uids u)) us)))"
      by (simp add: rev_map[symmetric] map_concat comp_def)
    moreover have "map_of (map (\<lambda>(f, u). (f, unit_id u)) ps) f = map_option unit_id (map_of ps f)" for ps
      by (induction ps) auto
    ultimately show ?thesis by simp
  qed
  show ?thesis
    unfolding frame_to_unit_def unit_for_frame_def lookupE_def map_of_dict_of key by (simp split: option.splits)
qed

lemma frame_to_role_lookup:
  assumes "map_of roles = unit_role partitions"
  shows "map_of (frame_to_role c roles) f = frame_role c partitions f"
proof -
  have keys: "distinct (map fst (frame_to_unit c))"
    unfolding frame_to_unit_def dict_of_def
    by (rule fold_invariant[where P = "\<lambda>d. distinct (map fst d)" and Q = "\<lambda>_. True"]) (auto split: prod.splits)
  have "map_of (concat (map (\<lambda>(f, uid). case map_of roles uid of None \<Rightarrow> [] | Some role \<Rightarrow> [(f, role)]) ps)) f
      = (case map_of ps f of None \<Rightarrow> None | Some uid \<Rightarrow> map_of roles uid)" if "distinct (map fst ps)" for ps
    using that
  proof (induction ps)
    case (Cons p ps)
    obtain g uid where p: "p = (g, uid)" by (cases p)
    have "map_of ps g = None" using Cons.prems p by (simp add: map_of_eq_None_iff)
    moreover note Cons.IH Cons.prems
    ultimately show ?case by (cases "map_of roles uid"; cases "f = g") (simp_all add: p)
  qed simp
  from this[OF keys] show ?thesis
    unfolding frame_to_role_def frame_role_def by (simp add: frame_to_unit_lookup assms split: sum.splits)
qed

section \<open>Each check decides its condition\<close>

lemma catalog_unit_total:
  assumes "run_order (catalog_units c)" and "u \<in> set (catalog_units c)"
  shows "catalog_unit c (unit_id u) = Inr u"
proof -
  have "map_of (dict_of (map (\<lambda>u. (unit_id u, u)) (catalog_units c))) (unit_id u) = Some u"
  proof (rule map_of_dict_of_unique)
    fix v assume "(unit_id u, v) \<in> set (map (\<lambda>u. (unit_id u, u)) (catalog_units c))"
    then show "v = u" using assms unfolding run_order_def distinct_map by (auto dest: inj_onD)
  qed (use assms in simp)
  then show ?thesis by (simp add: catalog_unit_def lookupE_def)
qed

lemma frames_of_units_ok:
  assumes "catalog_ok c" and "set ids \<subseteq> unit_id ` set (catalog_units c)"
  shows "\<exists>fs. frames_of_units c ids = Inr fs \<and> (\<forall>f \<in> set fs. is_digest f)"
proof -
  have "\<forall>uid \<in> set ids. \<exists>u. u \<in> set (catalog_units c) \<and> unit_id u = uid" using assms(2) by auto
  then obtain g where g: "\<forall>uid \<in> set ids. g uid \<in> set (catalog_units c) \<and> unit_id (g uid) = uid" by metis
  have "mapE (catalog_unit c) ids = Inr (map g ids)"
    using g assms(1) catalog_unit_total[of c] by (intro mapE_total) (metis catalog_ok_def)
  moreover have "\<forall>f \<in> set (concat (map frame_uids (map g ids))). is_digest f"
    using g assms(1) by (auto simp: catalog_ok_def)
  ultimately show ?thesis by (simp add: frames_of_units_def)
qed

lemma two_values: "1 < length (remdups xs) \<longleftrightarrow> (\<exists>x \<in> set xs. \<exists>y \<in> set xs. x \<noteq> y)"
proof -
  have "length (remdups xs) = card (set xs)" by (simp add: length_remdups_card_conv)
  then show ?thesis using card_le_Suc0_iff_eq[of "set xs"] by (auto simp: not_le[symmetric])
qed

lemma dom_unit_role: "map_of roles = unit_role partitions \<Longrightarrow> dom (unit_role partitions) = set (map fst roles)"
  by (metis dom_map_of_conv_image_fst set_map)

lemma check_classification_adds:
  assumes ok: "catalog_ok c" and roles: "map_of roles = unit_role partitions" "\<forall>uid \<in> set (map fst roles). is_digest uid"
  shows "adds (\<not> all_classified c partitions) findings (check_classification c roles findings)"
proof -
  have "all_classified c partitions \<longleftrightarrow> set (map fst roles) = set (remdups (map unit_id (catalog_units c)))"
    by (simp add: all_classified_def dom_unit_role[OF roles(1)])
  moreover have "adds (set (map fst roles) \<noteq> set (remdups (map unit_id (catalog_units c)))) findings
      (check_classification c roles findings)"
    unfolding check_classification_def Let_def
    using ok roles(2) by (intro add_finding_adds strip_nonblank) (auto simp: python_space_def set_xor_def catalog_ok_def)
  ultimately show ?thesis by simp
qed

lemma check_outer_purge_adds:
  assumes ok: "catalog_ok c" and roles: "map_of roles = unit_role partitions" "distinct (map fst roles)"
  shows "adds (reject_missing_purge_neighbors active \<and> \<not> neighbors_purged policy c partitions) findings
    (check_outer_purge active policy c roles findings)"
  unfolding check_outer_purge_def
proof (rule adds_if)
  have order: "run_order (catalog_units c)" using ok by (simp add: catalog_ok_def)
  define radius where "radius = purge_units_between_roles (policy_budget policy)"
  define sel where "sel = map fst (filter (\<lambda>(_, role). protected_role role) roles)"
  from neighbor_unit_ids_exact[OF order, of sel radius] obtain expected where
    expected: "neighbor_unit_ids (build_temporal_neighbor_index (catalog_units c)) sel radius = Inr expected"
      "set expected = near_ids radius (catalog_units c) (set sel)" by blast
  have "set sel = protected_ids partitions"
    unfolding sel_def protected_ids_def roles(1)[symmetric] using roles(2)
    by (force simp: map_of_eq_Some_iff)
  then have wrong: "\<not> neighbors_purged policy c partitions \<longleftrightarrow> filter (\<lambda>uid. map_of roles uid \<noteq> Some PURGED) expected \<noteq> []"
    using expected(2) by (simp add: neighbors_purged_def roles(1) radius_def filter_empty_conv)
  define missing where "missing = filter (\<lambda>uid. map_of roles uid \<noteq> Some PURGED) expected"
  have known: "set missing \<subseteq> unit_id ` set (catalog_units c)" using expected(2) by (auto simp: missing_def near_ids_def)
  then have valid: "\<forall>uid \<in> set missing. is_digest uid" using ok by (auto simp: catalog_ok_def)
  show "adds (\<not> neighbors_purged policy c partitions) findings
    (bindE (neighbor_unit_ids (build_temporal_neighbor_index (catalog_units c))
      (map fst (filter (\<lambda>(_, role). protected_role role) roles)) (purge_units_between_roles (policy_budget policy)))
      (\<lambda>expected. let missing = filter (\<lambda>uid. map_of roles uid \<noteq> Some PURGED) expected in
        add_finding (missing \<noteq> []) ''missing_outer_purge_neighbor'' None (Inr (sort missing)) (frames_of_units c (sort missing))
          ''A same-run neighbor of outer evidence is not assigned to the outer purge role.'' findings))"
    unfolding wrong sel_def[symmetric] radius_def[symmetric] expected(1) bindE_simps Let_def missing_def[symmetric]
    using frames_of_units_ok[OF ok, of "sort missing"] known valid
    by (intro add_finding_adds strip_nonblank) (simp_all add: python_space_def)
qed

lemma role_frames_conv:
  assumes "map_of roles = unit_role partitions"
  shows "f \<in> set (role_frames c roles frames) \<longleftrightarrow> f \<in> set frames \<and> incompatible_role (frame_role c partitions (frame_uid f))"
  by (auto simp: role_frames_def frame_to_role_lookup[OF assms])

lemma unit_for_frame_Inr:
  "unit_for_frame c f = Inr u \<Longrightarrow> u \<in> set (catalog_units c) \<and> f \<in> set (frame_uids u)"
  unfolding unit_for_frame_def lookupE_Inr_iff map_of_dict_of by (drule map_of_SomeD) auto

lemma frame_role_known:
  assumes "frame_role c partitions f \<noteq> None"
  obtains u where "u \<in> set (catalog_units c)" and "f \<in> set (frame_uids u)" and "map_of (frame_to_unit c) f = Some (unit_id u)"
  using assms unit_for_frame_Inr[of c f] by (auto simp: frame_role_def frame_to_unit_lookup split: sum.splits)

lemma check_duplicates_adds:
  assumes ok: "catalog_ok c" and roles: "map_of roles = unit_role partitions"
    and texts: "strip code \<noteq> []" "strip text \<noteq> []"
  shows "adds (enabled \<and> \<not> roles_share_no fingerprint c partitions frames) findings
    (check_duplicates enabled fingerprint code text c roles frames findings)"
  unfolding check_duplicates_def
proof (rule adds_if)
  define rf where "rf = role_frames c roles frames"
  define clash where "clash = (\<lambda>(key :: string, members :: frame_record list). 1 < length (remdups (map (map_of (frame_to_role c roles)) (map frame_uid members))))"
  have rows: "(key, members) \<in> set (group_by fingerprint rf) \<longleftrightarrow>
      key \<in> fingerprint ` set rf \<and> members = filter (\<lambda>f. fingerprint f = key) rf" for key members
    using map_of_eq_Some_iff[of "group_by fingerprint rf" key members] by (auto simp: map_of_group_by split: if_splits)
  have wrong: "\<not> roles_share_no fingerprint c partitions frames \<longleftrightarrow> (\<exists>row \<in> set (group_by fingerprint rf). clash row)"
  proof
    assume "\<not> roles_share_no fingerprint c partitions frames"
    then obtain f g where "f \<in> set rf" "g \<in> set rf" "fingerprint f = fingerprint g"
      "frame_role c partitions (frame_uid f) \<noteq> frame_role c partitions (frame_uid g)"
      unfolding roles_share_no_def rf_def role_frames_conv[OF roles] by blast
    then have "clash (fingerprint f, filter (\<lambda>h. fingerprint h = fingerprint f) rf)"
      unfolding clash_def prod.case two_values by (auto simp: frame_to_role_lookup[OF roles] intro!: bexI[of _ f] bexI[of _ g])
    moreover have "(fingerprint f, filter (\<lambda>h. fingerprint h = fingerprint f) rf) \<in> set (group_by fingerprint rf)"
      using \<open>f \<in> set rf\<close> by (simp add: rows)
    ultimately show "\<exists>row \<in> set (group_by fingerprint rf). clash row" by blast
  next
    assume "\<exists>row \<in> set (group_by fingerprint rf). clash row"
    then obtain key members where row: "(key, members) \<in> set (group_by fingerprint rf)" "clash (key, members)" by auto
    from row(2) obtain f g where "f \<in> set members" "g \<in> set members"
      "frame_role c partitions (frame_uid f) \<noteq> frame_role c partitions (frame_uid g)"
      unfolding clash_def prod.case two_values by (auto simp: frame_to_role_lookup[OF roles])
    then have "f \<in> set rf" "g \<in> set rf" "fingerprint f = key" "fingerprint g = key"
      "frame_role c partitions (frame_uid f) \<noteq> frame_role c partitions (frame_uid g)"
      using row(1) by (auto simp: rows)
    then show "\<not> roles_share_no fingerprint c partitions frames"
      unfolding roles_share_no_def rf_def role_frames_conv[OF roles] by metis
  qed
  show "adds (\<not> roles_share_no fingerprint c partitions frames) findings
    (foldE (\<lambda>(key, members). let uids = map frame_uid members in
       add_finding (1 < length (remdups (map (map_of (frame_to_role c roles)) uids))) code None
         (bindE (mapE (lookupE (frame_to_unit c)) uids) (\<lambda>us. Inr (sorted_set us))) (Inr uids) text)
       (group_by fingerprint (role_frames c roles frames)) findings)"
    unfolding wrong rf_def[symmetric]
  proof (rule adds_foldE)
    fix row found assume row: "row \<in> set (group_by fingerprint rf)"
    obtain key members where r: "row = (key, members)" by (cases row)
    with row have members: "set members \<subseteq> set rf" by (auto simp: rows)
    have "\<forall>uid \<in> set (map frame_uid members). \<exists>u. u \<in> set (catalog_units c) \<and> uid \<in> set (frame_uids u)
        \<and> map_of (frame_to_unit c) uid = Some (unit_id u)"
    proof
      fix uid assume "uid \<in> set (map frame_uid members)"
      with members have "incompatible_role (frame_role c partitions uid)"
        unfolding rf_def by (auto simp: role_frames_conv[OF roles])
      then have "frame_role c partitions uid \<noteq> None" by (auto simp: incompatible_role_def)
      then show "\<exists>u. u \<in> set (catalog_units c) \<and> uid \<in> set (frame_uids u) \<and> map_of (frame_to_unit c) uid = Some (unit_id u)"
        by (elim frame_role_known) blast
    qed
    then obtain g where g: "\<forall>uid \<in> set (map frame_uid members). g uid \<in> set (catalog_units c) \<and> uid \<in> set (frame_uids (g uid))
        \<and> map_of (frame_to_unit c) uid = Some (unit_id (g uid))" by metis
    then have "mapE (lookupE (frame_to_unit c)) (map frame_uid members) = Inr (map (\<lambda>uid. unit_id (g uid)) (map frame_uid members))"
      by (intro mapE_total) (auto simp: lookupE_def)
    then show "adds (clash row) found ((case row of (key, members) \<Rightarrow> let uids = map frame_uid members in
       add_finding (1 < length (remdups (map (map_of (frame_to_role c roles)) uids))) code None
         (bindE (mapE (lookupE (frame_to_unit c)) uids) (\<lambda>us. Inr (sorted_set us))) (Inr uids) text) found)"
      unfolding r clash_def prod.case Let_def
      using texts g ok by (intro add_finding_adds) (auto simp: catalog_ok_def)
  qed
qed

lemma map_filter_set: "set (List.map_filter f xs) = {y. \<exists>x \<in> set xs. f x = Some y}"
  by (force simp: map_filter_def)

lemma check_events_adds:
  assumes ok: "catalog_ok c" and roles: "map_of roles = unit_role partitions"
    and events: "\<forall>uids \<in> set events. \<forall>uid \<in> set uids. is_digest uid"
  shows "adds (reject_event_window_role_split active \<and> \<not> events_whole c partitions events) findings
    (check_events active c roles events findings)"
  unfolding check_events_def
proof (rule adds_if)
  define split where "split uids \<longleftrightarrow> 1 < length (remdups (List.map_filter (map_of (frame_to_role c roles)) uids))" for uids
  have wrong: "\<not> events_whole c partitions events \<longleftrightarrow> (\<exists>uids \<in> set events. split uids)"
    unfolding events_whole_def split_def two_values map_filter_set frame_to_role_lookup[OF roles] by fastforce
  show "adds (\<not> events_whole c partitions events) findings
    (foldE (\<lambda>uids. add_finding (1 < length (remdups (List.map_filter (map_of (frame_to_role c roles)) uids)))
      ''protected_event_window_split'' None (Inr (sorted_set (List.map_filter (map_of (frame_to_unit c)) uids))) (Inr uids)
      ''A DATA4 protected event window crosses outer statistical roles.'') events findings)"
    unfolding wrong split_def
  proof (intro adds_foldE add_finding_adds strip_nonblank)
    fix uids assume "uids \<in> set events"
    have "is_digest x" if "map_of (frame_to_unit c) uid = Some x" for uid x
    proof -
      from that obtain u where "unit_for_frame c uid = Inr u" "unit_id u = x"
        by (auto simp: frame_to_unit_lookup split: sum.splits)
      with unit_for_frame_Inr ok show ?thesis unfolding catalog_ok_def by blast
    qed
    then show "\<exists>us. Inr (sorted_set (List.map_filter (map_of (frame_to_unit c)) uids)) = Inr us \<and> (\<forall>u \<in> set us. is_digest u)"
      by (auto simp: map_filter_set)
    show "\<exists>fs. Inr uids = Inr fs \<and> (\<forall>f \<in> set fs. is_digest f)" using events \<open>uids \<in> set events\<close> by simp
  qed (simp_all add: python_space_def)
qed

lemma check_fold_adds:
  assumes ok: "catalog_ok c" and order: "run_order units" and sub: "set units \<subseteq> set (catalog_units c)"
    and dev: "set development = unit_id ` set units"
    and ids: "\<forall>part \<in> set (map snd (fold_groups f)). \<forall>uid \<in> set part. is_digest uid"
  shows "adds (\<not> fold_sound active policy units f) findings
    (check_fold active policy c development (build_temporal_neighbor_index units) domain f findings)"
proof -
  define radius where "radius = purge_units_between_roles (policy_budget policy)"
  define temporal where "temporal = build_temporal_neighbor_index units"
  define protected where "protected = remdups (evaluation_unit_ids f @ checkpoint_monitor_unit_ids f)"
  define unpurged where "unpurged \<longleftrightarrow> \<not> near_ids radius units (set protected) \<subseteq> set (purged_unit_ids f)"
  define parts where "parts = map snd (fold_groups f)"
  define classified where "classified = remdups (concat parts)"
  have valid: "\<forall>uid \<in> set classified. is_digest uid" using ids by (auto simp: classified_def parts_def)
  have valid_dev: "\<forall>uid \<in> set development. is_digest uid" using dev sub ok by (auto simp: catalog_ok_def)
  have purge: "adds (reject_missing_purge_neighbors active \<and> unpurged) findings
      (check_fold_purge active policy c development temporal domain f findings)" for findings
    unfolding check_fold_purge_def
  proof (rule adds_if)
    from neighbor_unit_ids_exact[OF order, of protected radius] obtain expected where
      expected: "neighbor_unit_ids temporal protected radius = Inr expected" "set expected = near_ids radius units (set protected)"
      unfolding temporal_def by blast
    define missing where "missing = filter (\<lambda>uid. uid \<notin> set (purged_unit_ids f) \<and> uid \<notin> set protected) expected"
    have outside: "near_ids radius units (set protected) \<inter> set protected = {}" by (auto simp: near_ids_def)
    have wrong: "unpurged \<longleftrightarrow> missing \<noteq> []"
      using outside unfolding unpurged_def missing_def filter_empty_conv expected(2) by blast
    have known: "set missing \<subseteq> unit_id ` set (catalog_units c)"
      using expected(2) sub by (auto simp: missing_def near_ids_def)
    then have "\<forall>uid \<in> set missing. is_digest uid" using ok by (auto simp: catalog_ok_def)
    then show "adds unpurged findings (let protected = remdups (evaluation_unit_ids f @ checkpoint_monitor_unit_ids f) in
        bindE (neighbor_unit_ids temporal protected (purge_units_between_roles (policy_budget policy))) (\<lambda>expected.
        let missing = filter (\<lambda>uid. uid \<notin> set (purged_unit_ids f) \<and> uid \<notin> set protected) expected in
        add_finding (missing \<noteq> []) ''missing_cross_validation_purge_neighbor'' (Some domain) (Inr (sort missing))
          (frames_of_units c (sort missing))
          ''A same-run neighbor of a held-out or checkpoint-monitor unit remains unpurged in a cross-validation fold.''
          findings))"
      unfolding Let_def protected_def[symmetric] radius_def[symmetric] expected(1) bindE_simps missing_def[symmetric] wrong
      using frames_of_units_ok[OF ok, of "sort missing"] known
      by (intro add_finding_adds strip_nonblank) (simp_all add: python_space_def)
  qed
  have "adds (\<not> pairwise_disjoint parts) found (add_finding (\<not> pairwise_disjoint parts) ''cross_validation_role_overlap''
      (Some domain) (Inr (sort classified)) (Inr [])
      ''Cross-validation training, monitor, evaluation, and purge roles overlap.'' found)" for found
    using valid by (intro add_finding_adds strip_nonblank) (simp_all add: python_space_def)
  moreover have "adds (set classified \<noteq> set development) found
      (add_finding (set classified \<noteq> set development) ''cross_validation_does_not_classify_development'' (Some domain)
        (Inr (sort (set_xor classified development))) (Inr [])
        ''A cross-validation fold does not classify every development unit.'' found)" for found
    using valid valid_dev by (intro add_finding_adds strip_nonblank) (auto simp: python_space_def set_xor_def)
  ultimately have "adds ((reject_missing_purge_neighbors active \<and> unpurged) \<or> \<not> pairwise_disjoint parts
      \<or> set classified \<noteq> set development) findings (check_fold active policy c development temporal domain f findings)"
    unfolding check_fold_def Let_def parts_def[symmetric] classified_def[symmetric]
    by (intro adds_bind[OF purge] adds_bind)
  moreover have "\<not> fold_sound active policy units f \<longleftrightarrow> (reject_missing_purge_neighbors active \<and> unpurged)
      \<or> \<not> pairwise_disjoint parts \<or> set classified \<noteq> set development"
    by (auto simp: fold_sound_def unpurged_def radius_def protected_def parts_def classified_def dev)
  ultimately show ?thesis by (simp add: temporal_def)
qed

lemma development_units_ids:
  assumes "role_ids p DEVELOPMENT \<subseteq> unit_id ` set (catalog_units c)"
  shows "unit_id ` set (development_units c p) = role_ids p DEVELOPMENT"
  using assms by (auto simp: development_units_def)

lemma check_plan_adds:
  assumes ok: "catalog_ok c" and plan: "plan_ok c partitions plan"
    and once: "\<forall>p \<in> set partitions. distinct (map assigned_unit (assignments p))"
  shows "adds (\<not> (\<forall>p. partition_of partitions (plan_domain plan) = Some p \<longrightarrow>
      plan_sound active policy (development_units c p) plan)) findings
    (check_plan active policy c partitions plan findings)"
proof -
  have order: "run_order (catalog_units c)" using ok by (simp add: catalog_ok_def)
  from plan obtain p where p: "partition_of partitions (plan_domain plan) = Some p"
    and known: "role_ids p DEVELOPMENT \<subseteq> unit_id ` set (catalog_units c)" by (auto simp: plan_ok_def)
  have mem: "p \<in> set partitions" using p unfolding partition_of_def map_of_dict_of by (auto dest!: map_of_SomeD)
  define development where "development = units_for p DEVELOPMENT"
  have "set (sort development) \<subseteq> unit_id ` set (catalog_units c)" using known by (simp add: development_def role_ids_def)
  then have "\<forall>uid \<in> set (sort development). \<exists>u. u \<in> set (catalog_units c) \<and> unit_id u = uid" by auto
  then obtain g where g: "\<forall>uid \<in> set (sort development). g uid \<in> set (catalog_units c) \<and> unit_id (g uid) = uid" by metis
  define units where "units = map g (sort development)"
  have units: "mapE (catalog_unit c) (sort development) = Inr units"
    using g catalog_unit_total[OF order] unfolding units_def by (intro mapE_total) metis
  note ids = catalog_unit_ids[OF units]
  have "distinct development" using once mem by (simp add: development_def units_for_def distinct_map_filter)
  then have order': "run_order units" using ids order by (metis run_order_subset distinct_sort)
  have dev: "set development = unit_id ` set units" using ids by (metis set_map set_sort)
  have "set units = set (development_units c p)"
  proof -
    have "u \<in> set units" if "u \<in> set (catalog_units c)" "unit_id u \<in> set development" for u
    proof -
      from that(2) obtain v where "v \<in> set units" "unit_id v = unit_id u" unfolding dev by auto
      with that(1) ids order show ?thesis unfolding run_order_def distinct_map by (metis inj_onD subsetD)
    qed
    then show ?thesis using ids dev by (auto simp: development_units_def role_ids_def development_def[symmetric])
  qed
  then have same: "fold_sound active policy (development_units c p) f = fold_sound active policy units f" for f
    by (simp add: fold_sound_def near_ids_cong[of units "development_units c p"])
  define held_out where "held_out = remdups (concat (map evaluation_unit_ids (folds plan)))"
  have valid: "\<forall>uid \<in> set (set_xor held_out development). is_digest uid"
    using plan ok ids dev by (auto simp: plan_ok_def held_out_def set_xor_def fold_groups_def catalog_ok_def)
  have "adds (\<exists>f \<in> set (folds plan). \<not> fold_sound active policy units f) findings
      (foldE (check_fold active policy c development (build_temporal_neighbor_index units) (plan_domain plan)) (folds plan) findings)"
    using plan ids by (intro adds_foldE check_fold_adds[OF ok order' _ dev]) (auto simp: plan_ok_def)
  then have "adds ((\<exists>f \<in> set (folds plan). \<not> fold_sound active policy units f) \<or> set held_out \<noteq> set development) findings
      (bindE (foldE (check_fold active policy c development (build_temporal_neighbor_index units) (plan_domain plan)) (folds plan) findings)
        (add_finding (set held_out \<noteq> set development) ''development_not_held_out_exactly_once'' (Some (plan_domain plan))
          (Inr (sort (set_xor held_out development))) (Inr [])
          ''Every development unit must appear in one held-out evaluation fold.''))"
    by (rule adds_bind) (use valid in \<open>intro add_finding_adds strip_nonblank; simp add: python_space_def\<close>)
  moreover have "check_plan active policy c partitions plan findings
      = bindE (foldE (check_fold active policy c development (build_temporal_neighbor_index units) (plan_domain plan)) (folds plan) findings)
        (add_finding (set held_out \<noteq> set development) ''development_not_held_out_exactly_once'' (Some (plan_domain plan))
          (Inr (sort (set_xor held_out development))) (Inr [])
          ''Every development unit must appear in one held-out evaluation fold.'')"
    using p units by (simp add: check_plan_def partition_of_def lookupE_def Let_def development_def held_out_def)
  moreover have "(\<not> (\<forall>p. partition_of partitions (plan_domain plan) = Some p \<longrightarrow> plan_sound active policy (development_units c p) plan))
      \<longleftrightarrow> (\<exists>f \<in> set (folds plan). \<not> fold_sound active policy units f) \<or> set held_out \<noteq> set development"
    using p dev \<open>set units = set (development_units c p)\<close> by (simp add: plan_sound_def same held_out_def)
  ultimately show ?thesis by simp
qed

section \<open>The audit is exact\<close>

definition digests_ok :: "('z) audit_digests_scheme \<Rightarrow> bool" where
  "digests_ok D \<longleftrightarrow> (\<forall>p. is_digest (policy_digest_of D p)) \<and> (\<forall>c. is_digest (catalog_digest_of D c))
     \<and> (\<forall>r. is_digest (report_digest_of D r)) \<and> (\<forall>p. is_digest (partition_digest_of D p))
     \<and> (\<forall>p. is_digest (plan_digest_of D p)) \<and> (\<forall>p. is_digest (leakage_policy_digest_of D p))"

lemma collect_findings_adds:
  assumes ok: "catalog_ok c" and parts: "partitions_ok c partitions" and plans: "\<forall>plan \<in> set plans. plan_ok c partitions plan"
    and events: "\<forall>uids \<in> set events. \<forall>uid \<in> set uids. is_digest uid"
  shows "adds (\<not> leak_free active policy c partitions plans frames events) []
    (collect_findings active policy c partitions plans frames events)"
proof -
  obtain roles where roles: "role_by_unit partitions = Inr roles" "map_of roles = unit_role partitions"
    "distinct (map fst roles)" "\<forall>uid \<in> set (map fst roles). is_digest uid"
    using role_by_unit_roles[OF parts] .
  have once: "\<forall>p \<in> set partitions. distinct (map assigned_unit (assignments p))"
    using parts unfolding partitions_ok_def by (auto simp: distinct_concat_iff map_concat)
  have texts: "strip ''geometry_duplicate_crosses_outer_roles'' \<noteq> []" "strip ''labeled_duplicate_crosses_outer_roles'' \<noteq> []"
    "strip ''An exact geometry fingerprint appears in incompatible outer roles.'' \<noteq> []"
    "strip ''An exact labeled configuration appears in incompatible outer roles.'' \<noteq> []"
    by (rule strip_nonblank, simp add: python_space_def)+
  have all_plans: "adds (\<exists>plan \<in> set plans. \<not> (\<forall>p. partition_of partitions (plan_domain plan) = Some p \<longrightarrow>
      plan_sound active policy (development_units c p) plan)) found
    (foldE (check_plan active policy c partitions) plans found)" for found
    using plans by (intro adds_foldE check_plan_adds[OF ok _ once]) simp
  have "adds (\<not> all_classified c partitions \<or> (reject_missing_purge_neighbors active \<and> \<not> neighbors_purged policy c partitions)
      \<or> (reject_geometry_duplicates_across_outer_roles active \<and> \<not> roles_share_no geometry_fingerprint c partitions frames)
      \<or> (reject_labeled_duplicates_across_outer_roles active \<and> \<not> roles_share_no labeled_configuration_fingerprint c partitions frames)
      \<or> (reject_event_window_role_split active \<and> \<not> events_whole c partitions events)
      \<or> (\<exists>plan \<in> set plans. \<not> (\<forall>p. partition_of partitions (plan_domain plan) = Some p \<longrightarrow>
          plan_sound active policy (development_units c p) plan))) []
    (collect_findings active policy c partitions plans frames events)"
    unfolding collect_findings_def roles(1) bindE_simps
    by (intro adds_bind all_plans check_classification_adds[OF ok roles(2,4)] check_outer_purge_adds[OF ok roles(2,3)]
      check_duplicates_adds[OF ok roles(2) texts(1,3)] check_duplicates_adds[OF ok roles(2) texts(2,4)]
      check_events_adds[OF ok roles(2) events])
  then show ?thesis unfolding leak_free_def by (simp only: de_Morgan_conj not_imp bex_simps(8) ball_simps)
qed

text \<open>
  The audit raises nothing on data it can read, and passes exactly when the partition and its plans
  leak nothing.
\<close>

lemma audit_decides:
  assumes "catalog_ok c" and "partitions_ok c partitions" and "\<forall>plan \<in> set plans. plan_ok c partitions plan"
    and "\<forall>uids \<in> set events. \<forall>uid \<in> set uids. is_digest uid"
    and "catalog_policy_digest c = policy_digest_of D policy" and "digests_ok D"
  shows "\<exists>report. audit_partition_leakage D active policy c partitions plans frames events = Inr report
    \<and> (audit_passed report \<longleftrightarrow> leak_free active policy c partitions plans frames events)"
proof -
  from collect_findings_adds[OF assms(1-4), of active policy frames] obtain found where
    found: "collect_findings active policy c partitions plans frames events = Inr found"
      "found \<noteq> [] \<longleftrightarrow> \<not> leak_free active policy c partitions plans frames events"
      "\<forall>f \<in> set found. finding_severity f = ERROR" by (auto simp: adds_def)
  have info: "make_finding no_leakage_finding = Inr no_leakage_finding"
  proof -
    have "strip ''no_partition_leakage_detected'' \<noteq> []"
      "strip ''All DATA5 identity, event-window, role, and fold checks passed.'' \<noteq> []"
      by (rule strip_nonblank, simp add: python_space_def)+
    then show ?thesis by (simp add: make_finding_def no_leakage_finding_def Let_def sorted_set_def)
  qed
  define listed where "listed = (if found = [] then [no_leakage_finding] else found)"
  have listed: "(\<exists>f \<in> set listed. finding_severity f = ERROR) \<longleftrightarrow> found \<noteq> []"
    using found(3) by (cases found) (auto simp: listed_def no_leakage_finding_def)
  have "\<forall>d \<in> set (map (partition_digest_of D) partitions). is_digest d" "\<forall>d \<in> set (map (plan_digest_of D) plans). is_digest d"
    using assms(6) by (auto simp: digests_ok_def)
  then obtain report where "make_leakage_report D
       \<lparr>audit_policy_digest = leakage_policy_digest_of D active, audit_catalog_digest = catalog_digest_of D c,
        outer_partition_digests = map (partition_digest_of D) partitions,
        cross_validation_plan_digests = map (plan_digest_of D) plans, audit_findings = listed\<rparr> = Inr report"
    and "set (audit_findings report) = set listed"
    using assms(6) by (simp add: make_leakage_report_def validate_digests) (simp add: validate_digest_def digests_ok_def)
  then show ?thesis
    using found(1,2) listed assms(5) info
    by (auto simp: audit_partition_leakage_def audit_passed_def listed_def)
qed

end
