(* ===== verification/Split_Pipeline.thy ===== *)
theory Split_Pipeline
  imports Leakage_Audit
begin

text \<open>
  The statistical split of a data set from end to end: what the feasibility reports, the outer partitions
  and the cross-validation plans built from one catalog of units promise, and that the leakage audit
  accepts them.
\<close>

section \<open>Outer partitions of all domains\<close>

definition report_of :: "feasibility_report list \<Rightarrow> string \<Rightarrow> feasibility_report option" where
  "report_of reports = map_of (dict_of (map (\<lambda>r. (report_domain r, r)) reports))"

lemma for_domain_order: "run_order (catalog_units c) \<Longrightarrow> run_order (for_domain c d)"
  by (rule run_order_subset) (auto simp: for_domain_def run_order_def distinct_map_filter)

lemma build_outer_partitions_spec:
  assumes points: "interior_points interior" and order: "run_order (catalog_units c)"
    and build: "build_outer_partitions D interior active c reports = Inr partitions"
  shows "map partition_domain partitions = domain_ids c"
    and "\<forall>p \<in> set partitions. \<exists>report. report_of reports (partition_domain p) = Some report \<and> is_usable report
      \<and> partition_spec D active (calibration_deferred report) (for_domain c (partition_domain p)) p"
proof -
  define step where "step domain = bindE (lookupE (dict_of (map (\<lambda>r. (report_domain r, r)) reports)) domain) (\<lambda>report.
       build_domain_partition D interior active c report domain)" for domain
  have run: "mapE step (domain_ids c) = Inr partitions"
    using build unfolding build_outer_partitions_def step_def .
  have one: "partition_domain p = domain \<and> (\<exists>report. report_of reports domain = Some report \<and> is_usable report
      \<and> partition_spec D active (calibration_deferred report) (for_domain c domain) p)" if "step domain = Inr p" for domain p
    using that build_domain_partition_exact[OF points for_domain_order[OF order]]
    by (fastforce simp: step_def result_simps report_of_def)
  show "map partition_domain partitions = domain_ids c" by (rule mapE_map[OF run]) (use one in blast)
  show "\<forall>p \<in> set partitions. \<exists>report. report_of reports (partition_domain p) = Some report \<and> is_usable report
      \<and> partition_spec D active (calibration_deferred report) (for_domain c (partition_domain p)) p"
    using mapE_mem[OF run] one by blast
qed

section \<open>Roles in all domains\<close>

text \<open>The source gives every run one label domain.\<close>

definition runs_in_domains :: "unit_catalog \<Rightarrow> bool" where
  "runs_in_domains c \<longleftrightarrow> (\<forall>u \<in> set (catalog_units c). \<forall>v \<in> set (catalog_units c).
     run_id u = run_id v \<longrightarrow> unit_domain u = unit_domain v)"

lemma within_radius_domain:
  assumes "runs_in_domains c" and "u \<in> set (catalog_units c)"
  shows "within_radius r (for_domain c (unit_domain u)) u v \<longleftrightarrow> within_radius r (catalog_units c) u v"
proof -
  have "units_between (for_domain c (unit_domain u)) u v = units_between (catalog_units c) u v"
  proof -
    have "unit_domain w = unit_domain u" if "w \<in> set (catalog_units c)" "run_id w = run_id u" for w
      using assms that unfolding runs_in_domains_def by blast
    then show ?thesis unfolding units_between_def for_domain_def by (intro Collect_cong) auto
  qed
  then show ?thesis by (simp add: within_radius_def)
qed

text \<open>A partition of each domain, as one table of roles.\<close>

definition partitions_of_domains :: "unit_catalog \<Rightarrow> outer_partition list \<Rightarrow> bool" where
  "partitions_of_domains c partitions \<longleftrightarrow> map partition_domain partitions = domain_ids c
     \<and> (\<forall>p \<in> set partitions. distinct (map assigned_unit (assignments p))
       \<and> assigned_unit ` set (assignments p) = unit_id ` set (for_domain c (partition_domain p)))"

lemma assigned_domain_unique:
  assumes "run_order (catalog_units c)" and "partitions_of_domains c partitions"
    and "p \<in> set partitions" and "q \<in> set partitions"
    and "uid \<in> assigned_unit ` set (assignments p)" and "uid \<in> assigned_unit ` set (assignments q)"
  shows "p = q"
proof -
  have owner: "\<exists>u. u \<in> set (catalog_units c) \<and> unit_id u = uid \<and> unit_domain u = partition_domain r"
    if "r \<in> set partitions" "uid \<in> assigned_unit ` set (assignments r)" for r
    using assms(2) that unfolding partitions_of_domains_def for_domain_def by auto
  obtain u v where "u \<in> set (catalog_units c)" "unit_id u = uid" "unit_domain u = partition_domain p"
    "v \<in> set (catalog_units c)" "unit_id v = uid" "unit_domain v = partition_domain q"
    using owner[OF assms(3,5)] owner[OF assms(4,6)] by blast
  then have "partition_domain p = partition_domain q"
    using assms(1) unfolding run_order_def distinct_map by (metis inj_onD)
  moreover have "distinct (map partition_domain partitions)"
    using assms(2) by (simp add: partitions_of_domains_def domain_ids_def)
  ultimately show ?thesis using assms(3,4) by (auto simp: distinct_map dest: inj_onD)
qed

lemma distinct_assigned:
  assumes order: "run_order (catalog_units c)" and parts: "partitions_of_domains c partitions"
  shows "distinct (map assigned_unit (concat (map assignments partitions)))"
proof -
  have ps: "distinct partitions"
    using parts distinct_map[of partition_domain partitions] by (simp add: partitions_of_domains_def domain_ids_def)
  have "distinct (concat (map (\<lambda>p. map assigned_unit (assignments p)) qs))" if "distinct qs" "set qs \<subseteq> set partitions" for qs
    using that
  proof (induction qs)
    case (Cons q qs)
    have "set (map assigned_unit (assignments q)) \<inter> set (concat (map (\<lambda>p. map assigned_unit (assignments p)) qs)) = {}"
    proof (rule ccontr)
      assume "\<not> ?thesis"
      then obtain uid p where "p \<in> set qs" "uid \<in> assigned_unit ` set (assignments q)" "uid \<in> assigned_unit ` set (assignments p)"
        by auto
      with assigned_domain_unique[OF order parts] Cons.prems have "p = q" by auto
      with \<open>p \<in> set qs\<close> Cons.prems show False by simp
    qed
    moreover have "distinct (map assigned_unit (assignments q))" using parts Cons.prems by (auto simp: partitions_of_domains_def)
    ultimately show ?case using Cons by auto
  qed simp
  from this[OF ps] show ?thesis by (simp add: map_concat comp_def)
qed

lemma unit_role_iff:
  assumes "run_order (catalog_units c)" and "partitions_of_domains c partitions"
  shows "unit_role partitions uid = Some role \<longleftrightarrow> (\<exists>p \<in> set partitions. uid \<in> role_ids p role)"
proof -
  have "distinct (map fst (map (\<lambda>a. (assigned_unit a, assigned_role a)) (concat (map assignments partitions))))"
    using distinct_assigned[OF assms] by (simp add: comp_def)
  then show ?thesis unfolding unit_role_def by (subst map_of_eq_Some_iff) (auto simp: role_ids_def units_for_def)
qed

lemma partitions_of_domains_built:
  assumes "interior_points interior" and "run_order (catalog_units c)"
    and "build_outer_partitions D interior active c reports = Inr partitions"
  shows "partitions_of_domains c partitions"
  using build_outer_partitions_spec[OF assms] unfolding partitions_of_domains_def partition_spec_def by blast

lemma protected_held: "protected_role role \<longleftrightarrow> role \<in> held_out_roles"
  by (auto simp: protected_role_def held_out_roles_def)

lemma protected_ids_held:
  assumes "run_order (catalog_units c)" and "partitions_of_domains c partitions"
  shows "protected_ids partitions = (\<Union>p \<in> set partitions. held_out_ids p)"
  by (auto simp: protected_ids_def held_out_ids_def protected_held unit_role_iff[OF assms])

lemma built_all_classified:
  assumes order: "run_order (catalog_units c)" and parts: "partitions_of_domains c partitions"
  shows "all_classified c partitions"
proof -
  have "dom (unit_role partitions) = assigned_unit ` set (concat (map assignments partitions))"
    unfolding unit_role_def by (simp add: dom_map_of_conv_image_fst image_image)
  also have "\<dots> = (\<Union>p \<in> set partitions. unit_id ` set (for_domain c (partition_domain p)))"
  proof -
    have "assigned_unit ` set (concat (map assignments partitions)) = (\<Union>p \<in> set partitions. assigned_unit ` set (assignments p))"
      by auto
    then show ?thesis using parts unfolding partitions_of_domains_def by simp
  qed
  also have "\<dots> = (\<Union>d \<in> set (map partition_domain partitions). unit_id ` set (for_domain c d))" by simp
  also have "\<dots> = unit_id ` set (catalog_units c)"
    using parts unfolding partitions_of_domains_def by (auto simp: domain_ids_def for_domain_def)
  finally show ?thesis by (simp add: all_classified_def)
qed

lemma built_neighbors_purged:
  assumes points: "interior_points interior" and order: "run_order (catalog_units c)" and runs: "runs_in_domains c"
    and build: "build_outer_partitions D interior policy c reports = Inr partitions"
  shows "neighbors_purged policy c partitions"
  unfolding neighbors_purged_def
proof
  have parts: "partitions_of_domains c partitions" by (rule partitions_of_domains_built[OF points order build])
  define radius where "radius = purge_units_between_roles (policy_budget policy)"
  fix uid assume uid: "uid \<in> near_ids (purge_units_between_roles (policy_budget policy)) (catalog_units c) (protected_ids partitions)"
  then obtain u v where uv: "v \<in> set (catalog_units c)" "u \<in> set (catalog_units c)" "unit_id v = uid"
    "unit_id u \<in> protected_ids partitions" "within_radius radius (catalog_units c) u v" "uid \<notin> protected_ids partitions"
    unfolding near_ids_def radius_def by blast
  from uv(4) obtain p where p: "p \<in> set partitions" "unit_id u \<in> held_out_ids p"
    unfolding protected_ids_held[OF order parts] by blast
  have spec: "partition_spec D policy deferred (for_domain c (partition_domain p)) p \<Longrightarrow>
      role_ids p PURGED = near_ids radius (for_domain c (partition_domain p)) (held_out_ids p)
      \<and> assigned_unit ` set (assignments p) = unit_id ` set (for_domain c (partition_domain p))" for deferred
    by (simp add: partition_spec_def radius_def)
  with build_outer_partitions_spec(2)[OF points order build] p(1)
  have purged: "role_ids p PURGED = near_ids radius (for_domain c (partition_domain p)) (held_out_ids p)"
    and ids: "assigned_unit ` set (assignments p) = unit_id ` set (for_domain c (partition_domain p))" by blast+
  have "unit_id u \<in> assigned_unit ` set (assignments p)"
    using p(2) by (auto simp: held_out_ids_def role_ids_def units_for_def)
  then obtain w where "w \<in> set (for_domain c (partition_domain p))" "unit_id w = unit_id u" unfolding ids by auto
  then have u: "unit_domain u = partition_domain p"
    using uv(2) order unfolding run_order_def distinct_map for_domain_def by (auto dest: inj_onD)
  have "run_id u = run_id v" using uv(5) by (simp add: within_radius_def)
  then have v: "unit_domain v = partition_domain p" using runs uv(1,2) u unfolding runs_in_domains_def by metis
  have "within_radius radius (for_domain c (partition_domain p)) u v"
    using within_radius_domain[OF runs uv(2)] uv(5) u by simp
  moreover have "uid \<notin> held_out_ids p" using uv(6) p(1) unfolding protected_ids_held[OF order parts] by blast
  moreover have "u \<in> set (for_domain c (partition_domain p))" "v \<in> set (for_domain c (partition_domain p))"
    using uv(1,2) u v by (simp_all add: for_domain_def)
  ultimately have "uid \<in> near_ids radius (for_domain c (partition_domain p)) (held_out_ids p)"
    using p(2) uv(3) unfolding near_ids_def by blast
  then show "unit_role partitions uid = Some PURGED"
    using p(1) unfolding unit_role_iff[OF order parts] purged[symmetric] by blast
qed

lemma spec_plan_sound:
  assumes "plan_spec D policy units plan"
  shows "plan_sound active policy units plan"
proof -
  have "fold_sound active policy units f" if "f \<in> set (folds plan)" for f
  proof -
    from assms that have "fold_spec policy units f" by (simp add: plan_spec_def)
    note spec = this[unfolded fold_spec_def Let_def]
    have near: "near_ids (purge_units_between_roles (policy_budget policy)) units
        (set (evaluation_unit_ids f) \<union> set (checkpoint_monitor_unit_ids f)) = set (purged_unit_ids f)"
      using spec by metis
    moreover have "pairwise_disjoint (map snd (fold_groups f))"
    proof -
      have "set (training_unit_ids f) \<inter> set (checkpoint_monitor_unit_ids f) = {}"
        "set (training_unit_ids f) \<inter> set (evaluation_unit_ids f) = {}"
        "set (training_unit_ids f) \<inter> set (purged_unit_ids f) = {}"
        "set (checkpoint_monitor_unit_ids f) \<inter> set (evaluation_unit_ids f) = {}"
        "set (checkpoint_monitor_unit_ids f) \<inter> set (purged_unit_ids f) = {}"
        "set (evaluation_unit_ids f) \<inter> set (purged_unit_ids f) = {}"
        using spec by - (elim conjE, assumption)+
      then show ?thesis by (simp add: fold_groups_def)
    qed
    moreover have "set (training_unit_ids f) \<union> set (checkpoint_monitor_unit_ids f) \<union> set (evaluation_unit_ids f)
        \<union> set (purged_unit_ids f) = unit_id ` set units"
      using spec by - (elim conjE, assumption)
    ultimately show ?thesis unfolding fold_sound_def near by (simp add: fold_groups_def Un_assoc)
  qed
  with assms show ?thesis by (simp add: plan_sound_def plan_spec_def)
qed

lemma domain_partition_of:
  assumes "map partition_domain partitions = domain_ids c" and "p \<in> set partitions"
  shows "partition_of partitions (partition_domain p) = Some p"
proof -
  have "distinct (map partition_domain partitions)" unfolding assms(1) by (simp add: domain_ids_def)
  then have "map_of (dict_of (map (\<lambda>p. (partition_domain p, p)) partitions)) = map_of (map (\<lambda>p. (partition_domain p, p)) partitions)"
    by (intro map_of_dict_of_distinct) (simp add: comp_def)
  moreover have "map_of (map (\<lambda>p. (partition_domain p, p)) partitions) (partition_domain p) = Some p"
    using \<open>distinct (map partition_domain partitions)\<close> assms(2)
    by (subst map_of_eq_Some_iff) (auto simp: comp_def)
  ultimately show ?thesis by (simp add: partition_of_def)
qed

lemma fold_spec_known:
  assumes "fold_spec active units f" and "ids \<in> set (map snd (fold_groups f))" and "uid \<in> set ids"
  shows "uid \<in> unit_id ` set units"
proof -
  have "set (training_unit_ids f) \<union> set (checkpoint_monitor_unit_ids f) \<union> set (evaluation_unit_ids f)
      \<union> set (purged_unit_ids f) = unit_id ` set units"
    using assms(1)[unfolded fold_spec_def Let_def] by - (elim conjE, assumption)
  with assms(2,3) show ?thesis by (auto simp: fold_groups_def)
qed

lemma built_plans:
  assumes points: "interior_points interior" and ok: "catalog_ok c"
    and parts: "partitions_of_domains c partitions"
    and build: "build_cross_validation_plans D interior policy c partitions reports override seed_override = Inr plans"
  shows "\<forall>plan \<in> set plans. plan_ok c partitions plan
    \<and> (\<forall>p. partition_of partitions (plan_domain plan) = Some p \<longrightarrow> plan_sound active policy (development_units c p) plan)"
proof
  have order: "run_order (catalog_units c)" using ok by (simp add: catalog_ok_def)
  have once: "\<forall>p \<in> set partitions. distinct (map assigned_unit (assignments p))"
    using parts by (simp add: partitions_of_domains_def)
  fix plan assume "plan \<in> set plans"
  with build_cross_validation_plans_exact(2)[OF points order once build] obtain p where
    p: "p \<in> set partitions" "partition_domain p = plan_domain plan"
      "unit_id ` set (development_units c p) = role_ids p DEVELOPMENT" "plan_spec D policy (development_units c p) plan"
    by blast
  have found: "partition_of partitions (plan_domain plan) = Some p"
    using domain_partition_of[of partitions c p] parts p(1,2) by (simp add: partitions_of_domains_def)
  have "\<forall>f \<in> set (folds plan). \<forall>ids \<in> set (map snd (fold_groups f)). \<forall>uid \<in> set ids. is_digest uid"
  proof (intro ballI)
    fix f ids uid assume "f \<in> set (folds plan)" "ids \<in> set (map snd (fold_groups f))" "uid \<in> set ids"
    with p(4) fold_spec_known[of policy "development_units c p" f ids uid]
    have "uid \<in> unit_id ` set (development_units c p)" by (simp add: plan_spec_def)
    then show "is_digest uid" using ok by (auto simp: development_units_def catalog_ok_def)
  qed
  moreover have "role_ids p DEVELOPMENT \<subseteq> unit_id ` set (catalog_units c)"
    unfolding p(3)[symmetric] by (auto simp: development_units_def)
  ultimately have "plan_ok c partitions plan" using found by (simp add: plan_ok_def)
  then show "plan_ok c partitions plan
    \<and> (\<forall>p. partition_of partitions (plan_domain plan) = Some p \<longrightarrow> plan_sound active policy (development_units c p) plan)"
    using found spec_plan_sound[OF p(4)] by simp
qed

lemma built_partitions_ok:
  assumes ok: "catalog_ok c" and parts: "partitions_of_domains c partitions"
  shows "partitions_ok c partitions"
  unfolding partitions_ok_def
proof
  have order: "run_order (catalog_units c)" using ok by (simp add: catalog_ok_def)
  show "distinct (map assigned_unit (concat (map assignments partitions)))" by (rule distinct_assigned[OF order parts])
  show "\<forall>p \<in> set partitions. \<forall>a \<in> set (assignments p). is_digest (assigned_unit a)"
  proof (intro ballI)
    fix p a assume "p \<in> set partitions" "a \<in> set (assignments p)"
    then have "assigned_unit a \<in> unit_id ` set (for_domain c (partition_domain p))"
      using parts unfolding partitions_of_domains_def by blast
    then show "is_digest (assigned_unit a)" using ok by (auto simp: for_domain_def catalog_ok_def)
  qed
qed

text \<open>What the audit asks of a plan; the plans that the package builds satisfy it, and so does having none.\<close>

definition plans_sound ::
  "leakage_policy \<Rightarrow> partition_policy \<Rightarrow> unit_catalog \<Rightarrow> outer_partition list \<Rightarrow> cv_plan list \<Rightarrow> bool" where
  "plans_sound active policy c partitions plans \<longleftrightarrow> (\<forall>plan \<in> set plans. plan_ok c partitions plan
    \<and> (\<forall>p. partition_of partitions (plan_domain plan) = Some p \<longrightarrow> plan_sound active policy (development_units c p) plan))"

lemma sound_split_leak_free:
  assumes points: "interior_points interior" and ok: "catalog_ok c" and runs: "runs_in_domains c"
    and outer: "build_outer_partitions D interior policy c reports = Inr partitions"
    and plans: "plans_sound active policy c partitions plans"
  shows "leak_free active policy c partitions plans frames events \<longleftrightarrow>
     (reject_geometry_duplicates_across_outer_roles active \<longrightarrow> roles_share_no geometry_fingerprint c partitions frames)
     \<and> (reject_labeled_duplicates_across_outer_roles active \<longrightarrow> roles_share_no labeled_configuration_fingerprint c partitions frames)
     \<and> (reject_event_window_role_split active \<longrightarrow> events_whole c partitions events)"
proof -
  have order: "run_order (catalog_units c)" using ok by (simp add: catalog_ok_def)
  have parts: "partitions_of_domains c partitions" by (rule partitions_of_domains_built[OF points order outer])
  show ?thesis
    using plans built_all_classified[OF order parts] built_neighbors_purged[OF points order runs outer]
    unfolding leak_free_def plans_sound_def by blast
qed

end
