(* ===== verification/Data_Split.thy ===== *)
theory Data_Split
  imports Unit_Builder Split_Pipeline
begin

text \<open>
  From frames to an audited split: what the catalog of units built from the frames promises, and that it
  meets every precondition of the partition, the cross-validation plans and the leakage audit, so that a
  split of built units leaks only if the frames themselves repeat a configuration.
\<close>

section \<open>The catalog of units\<close>

text \<open>The constructors of the source and frame catalogs refuse repeated runs and frames.\<close>

definition inputs_ok :: "unit_inputs \<Rightarrow> bool" where
  "inputs_ok inputs \<longleftrightarrow> distinct (map source_run (input_sources inputs)) \<and> distinct (map info_uid (input_frames inputs))"

definition events_in_runs :: "unit_inputs \<Rightarrow> bool" where
  "events_in_runs inputs \<longleftrightarrow> (\<forall>e \<in> set (input_events inputs). \<forall>f \<in> set (input_frames inputs).
     info_uid f \<in> set (protected_uids e) \<longrightarrow> info_run f = event_run e)"

definition unit_frames :: "partition_policy \<Rightarrow> unit_inputs \<Rightarrow> partition_unit \<Rightarrow> frame_info set" where
  "unit_frames active inputs u = {f \<in> set (accepted_frames active inputs). info_run f = run_id u
     \<and> source_frame_start u \<le> info_index f \<and> info_index f < source_frame_stop u}"

definition catalog_spec :: "partition_policy \<Rightarrow> unit_inputs \<Rightarrow> unit_catalog \<Rightarrow> bool" where
  "catalog_spec active inputs c \<longleftrightarrow> catalog_ok c \<and> runs_in_domains c
     \<and> (\<forall>u \<in> set (catalog_units c). set (frame_uids u) = info_uid ` unit_frames active inputs u
         \<and> (\<forall>f \<in> unit_frames active inputs u. frame_key inputs f (unit_condition u)))
     \<and> (\<forall>f \<in> set (accepted_frames active inputs). \<exists>u \<in> set (catalog_units c). f \<in> unit_frames active inputs u)
     \<and> (merge_protected_event_windows active \<longrightarrow> events_in_runs inputs \<longrightarrow>
         (\<forall>e \<in> set (input_events inputs). \<forall>u \<in> set (catalog_units c). \<forall>v \<in> set (catalog_units c).
            set (frame_uids u) \<inter> set (protected_uids e) \<noteq> {} \<longrightarrow> set (frame_uids v) \<inter> set (protected_uids e) \<noteq> {} \<longrightarrow> u = v))"

lemma make_unit_catalog_Inr:
  assumes "make_unit_catalog E raw = Inr c"
  shows "set (catalog_units c) = set (catalog_units raw)" and "distinct (map unit_id (catalog_units c))"
    and "distinct (concat (map frame_uids (catalog_units c)))"
  using assms by (auto simp: make_unit_catalog_def Let_def result_simps)

lemma run_source_of_exact:
  assumes "distinct (map source_run (input_sources inputs))"
  shows "run_source_of inputs run = Inr s \<longleftrightarrow> s \<in> set (input_sources inputs) \<and> source_run s = run"
proof -
  have "map_of (dict_of (map (\<lambda>s. (source_run s, s)) (input_sources inputs))) = map_of (map (\<lambda>s. (source_run s, s)) (input_sources inputs))"
    by (rule map_of_dict_of_distinct) (simp add: comp_def assms)
  then show ?thesis unfolding run_source_of_def lookupE_Inr_iff
    by (simp only:) (subst map_of_eq_Some_iff, auto simp: comp_def assms)
qed

lemma frame_of_exact:
  assumes "distinct (map info_uid (input_frames inputs))"
  shows "frame_of inputs uid = Inr f \<longleftrightarrow> f \<in> set (input_frames inputs) \<and> info_uid f = uid"
proof -
  have "map_of (dict_of (map (\<lambda>f. (info_uid f, f)) (input_frames inputs))) = map_of (map (\<lambda>f. (info_uid f, f)) (input_frames inputs))"
    by (rule map_of_dict_of_distinct) (simp add: comp_def assms)
  then show ?thesis unfolding frame_of_def lookupE_Inr_iff
    by (simp only:) (subst map_of_eq_Some_iff, auto simp: comp_def assms)
qed

lemma shared_member_equal:
  assumes "distinct (concat (map f xs))" and "x \<in> set xs" and "y \<in> set xs" and "z \<in> set (f x)" and "z \<in> set (f y)"
  shows "x = y"
  using assms by (induction xs) auto

lemma eligible_frames_set:
  "set (eligible_frames active inputs run) = {f \<in> set (accepted_frames active inputs). info_run f = run}"
  by (auto simp: eligible_frames_def accepted_frames_def)

lemma built_catalog_exact:
  assumes ok: "inputs_ok inputs" and policy: "make_block_policy (policy_blocks active) = Inr p"
    and build: "build_partition_unit_catalog E active inputs = Inr c"
  shows "catalog_spec active inputs c"
proof -
  have runs: "distinct (map source_run (input_sources inputs))" and uids: "distinct (map info_uid (input_frames inputs))"
    using ok by (simp_all add: inputs_ok_def)
  from build obtain conditions built raw where conditions: "frame_conditions active inputs = Inr conditions"
    and built: "mapE (build_run E active inputs conditions) (input_sources inputs) = Inr built"
    and made: "make_unit_catalog E raw = Inr c" and raw: "catalog_units raw = concat (map fst built)"
    by (auto simp: build_partition_unit_catalog_def result_simps)
  note units = make_unit_catalog_Inr[OF made, unfolded raw]
  have spec: "run_units_spec active inputs conditions source us"
    if "build_run E active inputs conditions source = Inr (us, signatures)" for source us signatures
    by (rule build_run_exact[OF policy that])
  have owner: "\<exists>source us. source \<in> set (input_sources inputs) \<and> u \<in> set us \<and> run_units_spec active inputs conditions source us
      \<and> set us \<subseteq> set (catalog_units c) \<and> source_run source = run_id u" if "u \<in> set (catalog_units c)" for u
  proof -
    from that obtain b where b: "b \<in> set built" "u \<in> set (fst b)" unfolding units(1) by auto
    then obtain k where k: "k < length built" "b = built ! k" by (auto simp: in_set_conv_nth)
    with built have run: "build_run E active inputs conditions (input_sources inputs ! k) = Inr b" "k < length (input_sources inputs)"
      by (auto simp: mapE_Inr_iff list_all2_conv_all_nth)
    then have s: "run_units_spec active inputs conditions (input_sources inputs ! k) (fst b)"
      by (intro spec[of _ _ "snd b"]) simp
    moreover have "set (fst b) \<subseteq> set (catalog_units c)" unfolding units(1) using b(1) by auto
    moreover have "source_run (input_sources inputs ! k) = run_id u" using s b(2) by (simp add: run_units_spec_def Let_def)
    ultimately show ?thesis using run(2) b(2) nth_mem by blast
  qed
  have of_source: "\<exists>us. run_units_spec active inputs conditions source us
      \<and> (\<forall>u. u \<in> set us \<longleftrightarrow> u \<in> set (catalog_units c) \<and> run_id u = source_run source)"
    if source: "source \<in> set (input_sources inputs)" for source
  proof -
    from mapE_pick[OF built source] obtain b where b: "b \<in> set built" "build_run E active inputs conditions source = Inr b" by blast
    have s: "run_units_spec active inputs conditions source (fst b)" using b(2) by (intro spec[of _ _ "snd b"]) simp
    have "u \<in> set (fst b)" if u: "u \<in> set (catalog_units c)" "run_id u = source_run source" for u
    proof -
      from u(1) obtain b' where b': "b' \<in> set built" "u \<in> set (fst b')" unfolding units(1) by auto
      then obtain k where k: "k < length built" "b' = built ! k" by (auto simp: in_set_conv_nth)
      with built have run: "build_run E active inputs conditions (input_sources inputs ! k) = Inr b'" "k < length (input_sources inputs)"
        by (auto simp: mapE_Inr_iff list_all2_conv_all_nth)
      then have "run_units_spec active inputs conditions (input_sources inputs ! k) (fst b')"
        by (intro spec[of _ _ "snd b'"]) simp
      then have "source_run (input_sources inputs ! k) = source_run source" using b'(2) u(2) by (simp add: run_units_spec_def Let_def)
      then have "input_sources inputs ! k = source" using runs source run(2) by (auto simp: distinct_map dest: inj_onD)
      with run(1) b(2) b'(2) show ?thesis by simp
    qed
    moreover have "u \<in> set (catalog_units c) \<and> run_id u = source_run source" if "u \<in> set (fst b)" for u
      using that b(1) s unfolding units(1) by (auto simp: run_units_spec_def Let_def)
    ultimately show ?thesis using s by blast
  qed
  note keys = frame_conditions_exact(2)[OF conditions uids]
  have frames: "set (frame_uids u) = info_uid ` unit_frames active inputs u
      \<and> (\<forall>f \<in> unit_frames active inputs u. frame_key inputs f (unit_condition u)) \<and> is_digest (unit_id u)
      \<and> (\<forall>f \<in> set (frame_uids u). is_digest f)" if u: "u \<in> set (catalog_units c)" for u
  proof -
    from owner[OF u] obtain source us where s: "u \<in> set us" "run_units_spec active inputs conditions source us" "source_run source = run_id u"
      by blast
    have uf: "unit_frames active inputs u = {f \<in> set (eligible_frames active inputs (source_run source)).
        source_frame_start u \<le> info_index f \<and> info_index f < source_frame_stop u}"
      using s(3) by (auto simp: unit_frames_def eligible_frames_set)
    have "frame_key inputs f (unit_condition u)" if f: "f \<in> unit_frames active inputs u" for f
    proof -
      have "map_of conditions (info_uid f) = Some (unit_condition u)"
        using s(1,2) f unfolding uf run_units_spec_def Let_def by simp
      moreover obtain key where "map_of conditions (info_uid f) = Some key" "frame_key inputs f key"
        using keys[of f] f by (auto simp: unit_frames_def)
      ultimately show ?thesis by simp
    qed
    moreover have "set (frame_uids u) = info_uid ` unit_frames active inputs u"
      using s(1,2) unfolding uf run_units_spec_def Let_def by (auto simp: image_def)
    moreover have "is_digest (unit_id u) \<and> (\<forall>f \<in> set (frame_uids u). is_digest f)"
      using s(1,2) by (simp add: run_units_spec_def Let_def)
    ultimately show ?thesis by blast
  qed
  have "u = v" if uv: "u \<in> set (catalog_units c)" "v \<in> set (catalog_units c)" "run_id u = run_id v" "source_frame_start u = source_frame_start v" for u v
  proof -
    from owner[OF uv(1)] obtain source where source: "source \<in> set (input_sources inputs)" "source_run source = run_id u" by blast
    from of_source[OF source(1)] obtain us where us: "run_units_spec active inputs conditions source us" "u \<in> set us" "v \<in> set us"
      using uv source(2) by auto
    then show ?thesis using uv(4) by (simp add: run_units_spec_def Let_def)
  qed
  then have order: "run_order (catalog_units c)" using units(2) unfolding run_order_def by blast
  have "unit_domain u = unit_domain v" if uv: "u \<in> set (catalog_units c)" "v \<in> set (catalog_units c)" "run_id u = run_id v" for u v
  proof -
    from owner[OF uv(1)] obtain source where source: "source \<in> set (input_sources inputs)" "source_run source = run_id u" by blast
    from of_source[OF source(1)] obtain us where us: "run_units_spec active inputs conditions source us" "u \<in> set us" "v \<in> set us"
      using uv source(2) by auto
    then show ?thesis by (simp add: run_units_spec_def Let_def)
  qed
  then have domains: "runs_in_domains c" unfolding runs_in_domains_def by blast
  have cover: "\<exists>u \<in> set (catalog_units c). f \<in> unit_frames active inputs u" if f: "f \<in> set (accepted_frames active inputs)" for f
  proof -
    from keys[OF f] obtain source where source: "source \<in> set (input_sources inputs)" "source_run source = info_run f"
      by (auto simp: frame_key_def run_source_of_exact[OF runs])
    from of_source[OF source(1)] obtain us where us: "run_units_spec active inputs conditions source us"
      "\<forall>u. u \<in> set us \<longleftrightarrow> u \<in> set (catalog_units c) \<and> run_id u = source_run source" by blast
    have "f \<in> set (eligible_frames active inputs (source_run source))" using f source(2) by (simp add: eligible_frames_set)
    then obtain u where "u \<in> set us" "source_frame_start u \<le> info_index f" "info_index f < source_frame_stop u"
      using us(1) by (auto simp: run_units_spec_def Let_def)
    then have "u \<in> set (catalog_units c)" "f \<in> unit_frames active inputs u"
      using us(2) f source(2) by (simp_all add: unit_frames_def)
    then show ?thesis by blast
  qed
  have whole: "u = v" if flag: "merge_protected_event_windows active" "events_in_runs inputs" and e: "e \<in> set (input_events inputs)"
      and u: "u \<in> set (catalog_units c)" "set (frame_uids u) \<inter> set (protected_uids e) \<noteq> {}"
      and v: "v \<in> set (catalog_units c)" "set (frame_uids v) \<inter> set (protected_uids e) \<noteq> {}" for e u v
  proof -
    from u(2) frames[OF u(1)] obtain f where f: "f \<in> unit_frames active inputs u" "info_uid f \<in> set (protected_uids e)" by auto
    from v(2) frames[OF v(1)] obtain g where g: "g \<in> unit_frames active inputs v" "info_uid g \<in> set (protected_uids e)" by auto
    have input: "f \<in> set (input_frames inputs)" "g \<in> set (input_frames inputs)"
      using f(1) g(1) by (auto simp: unit_frames_def accepted_frames_def)
    then have run: "info_run f = event_run e" "info_run g = event_run e" using flag(2) e f(2) g(2) by (auto simp: events_in_runs_def)
    from owner[OF u(1)] obtain source where source: "source \<in> set (input_sources inputs)" "source_run source = run_id u" by blast
    have same: "run_id u = event_run e" "run_id v = event_run e" using f(1) g(1) run by (auto simp: unit_frames_def)
    from of_source[OF source(1)] obtain us where us: "run_units_spec active inputs conditions source us"
      "\<forall>u. u \<in> set us \<longleftrightarrow> u \<in> set (catalog_units c) \<and> run_id u = source_run source" by blast
    have eligible: "f \<in> set (eligible_frames active inputs (source_run source))" "g \<in> set (eligible_frames active inputs (source_run source))"
      using f(1) g(1) run same source(2) by (auto simp: eligible_frames_set unit_frames_def)
    have "e \<in> set (events_of_run inputs (source_run source))" using e same source(2) by (simp add: events_of_run_def)
    moreover have "info_index f \<in> event_frames inputs e" "info_index g \<in> event_frames inputs e"
      using input f(2) g(2) by (auto simp: event_frames_def frame_of_exact[OF uids])
    ultimately obtain w where w: "w \<in> set us" "source_frame_start w \<le> info_index f" "info_index f < source_frame_stop w"
      "source_frame_start w \<le> info_index g" "info_index g < source_frame_stop w"
      using us(1) flag(1) eligible unfolding run_units_spec_def Let_def by blast
    have wc: "w \<in> set (catalog_units c)" "run_id w = event_run e" using us(2) w(1) same source(2) by auto
    have "f \<in> unit_frames active inputs w" "g \<in> unit_frames active inputs w"
      using f(1) g(1) w run wc(2) by (auto simp: unit_frames_def)
    then have "info_uid f \<in> set (frame_uids w)" "info_uid g \<in> set (frame_uids w)" using frames[OF wc(1)] by auto
    moreover have "info_uid f \<in> set (frame_uids u)" "info_uid g \<in> set (frame_uids v)" using frames[OF u(1)] frames[OF v(1)] f(1) g(1) by auto
    ultimately show ?thesis
      using shared_member_equal[OF units(3) u(1) wc(1)] shared_member_equal[OF units(3) v(1) wc(1)] by blast
  qed
  have "catalog_ok c" using order units(3) frames unfolding catalog_ok_def by blast
  moreover have "\<forall>u \<in> set (catalog_units c). set (frame_uids u) = info_uid ` unit_frames active inputs u
         \<and> (\<forall>f \<in> unit_frames active inputs u. frame_key inputs f (unit_condition u))" using frames by blast
  ultimately show ?thesis unfolding catalog_spec_def using domains cover whole by blast
qed

section \<open>The audit of a built split\<close>

lemma events_whole_units:
  assumes "\<forall>uids \<in> set events. \<forall>u \<in> set (catalog_units c). \<forall>v \<in> set (catalog_units c).
    set (frame_uids u) \<inter> set uids \<noteq> {} \<longrightarrow> set (frame_uids v) \<inter> set uids \<noteq> {} \<longrightarrow> u = v"
  shows "events_whole c partitions events"
  unfolding events_whole_def
proof (intro ballI impI)
  fix uids f g assume ev: "uids \<in> set events" "f \<in> set uids" "g \<in> set uids"
    and roles: "frame_role c partitions f \<noteq> None" "frame_role c partitions g \<noteq> None"
  from roles obtain u v where uv: "unit_for_frame c f = Inr u" "unit_for_frame c g = Inr v"
    by (auto simp: frame_role_def split: sum.splits)
  note u = unit_for_frame_Inr[OF uv(1)] and v = unit_for_frame_Inr[OF uv(2)]
  have "set (frame_uids u) \<inter> set uids \<noteq> {}" "set (frame_uids v) \<inter> set uids \<noteq> {}" using u v ev(2,3) by blast+
  with assms ev(1) u v have "u = v" by blast
  then show "frame_role c partitions f = frame_role c partitions g" using uv by (simp add: frame_role_def)
qed

lemma sound_split_audited:
  assumes points: "interior_points interior" and ok: "catalog_ok c" and runs: "runs_in_domains c"
    and digests: "digests_ok D" and events: "\<forall>uids \<in> set events. \<forall>uid \<in> set uids. is_digest uid"
    and assess: "assess_partition_feasibility D policy c = Inr reports"
    and outer: "build_outer_partitions D interior policy c reports = Inr partitions"
    and plans: "plans_sound active policy c partitions plans"
  shows "\<exists>report. audit_partition_leakage D active policy c partitions plans frames events = Inr report
    \<and> (audit_passed report \<longleftrightarrow>
        (reject_geometry_duplicates_across_outer_roles active \<longrightarrow> roles_share_no geometry_fingerprint c partitions frames)
        \<and> (reject_labeled_duplicates_across_outer_roles active \<longrightarrow> roles_share_no labeled_configuration_fingerprint c partitions frames)
        \<and> (reject_event_window_role_split active \<longrightarrow> events_whole c partitions events))"
proof -
  have order: "run_order (catalog_units c)" using ok by (simp add: catalog_ok_def)
  have parts: "partitions_of_domains c partitions" by (rule partitions_of_domains_built[OF points order outer])
  have same: "catalog_policy_digest c = policy_digest_of D policy"
    using assess by (simp add: assess_partition_feasibility_def result_simps)
  have "\<forall>plan \<in> set plans. plan_ok c partitions plan" using plans by (simp add: plans_sound_def)
  note decides = audit_decides[OF ok built_partitions_ok[OF ok parts] this events same digests, of active frames]
  show ?thesis using decides unfolding sound_split_leak_free[OF points ok runs outer plans] .
qed

text \<open>What the policy rejects of repeated configurations does not occur.\<close>

definition no_repeats :: "leakage_policy \<Rightarrow> unit_catalog \<Rightarrow> outer_partition list \<Rightarrow> frame_record list \<Rightarrow> bool" where
  "no_repeats active c partitions frames \<longleftrightarrow>
     (reject_geometry_duplicates_across_outer_roles active \<longrightarrow> roles_share_no geometry_fingerprint c partitions frames)
     \<and> (reject_labeled_duplicates_across_outer_roles active \<longrightarrow> roles_share_no labeled_configuration_fingerprint c partitions frames)"

lemma sound_data_audited:
  assumes inputs: "inputs_ok inputs" "events_in_runs inputs" and merging: "merge_protected_event_windows policy"
    and block_policy: "make_block_policy (policy_blocks policy) = Inr p"
    and events: "\<forall>e \<in> set (input_events inputs). \<forall>uid \<in> set (protected_uids e). is_digest uid"
    and points: "interior_points interior" and digests: "digests_ok D"
    and catalog: "build_partition_unit_catalog E policy inputs = Inr c"
    and stages: "assess_partition_feasibility D policy c = Inr reports"
      "build_outer_partitions D interior policy c reports = Inr partitions"
    and plans: "plans_sound active policy c partitions plans"
  shows "\<exists>report. audit_partition_leakage D active policy c partitions plans frames (map protected_uids (input_events inputs)) = Inr report
    \<and> (audit_passed report \<longleftrightarrow> no_repeats active c partitions frames)"
proof -
  have spec: "catalog_spec policy inputs c" by (rule built_catalog_exact[OF inputs(1) block_policy catalog])
  then have ok: "catalog_ok c" "runs_in_domains c" by (simp_all add: catalog_spec_def)
  have "\<forall>uids \<in> set (map protected_uids (input_events inputs)). \<forall>u \<in> set (catalog_units c). \<forall>v \<in> set (catalog_units c).
      set (frame_uids u) \<inter> set uids \<noteq> {} \<longrightarrow> set (frame_uids v) \<inter> set uids \<noteq> {} \<longrightarrow> u = v"
    using spec merging inputs(2) unfolding catalog_spec_def by simp
  then have whole: "events_whole c partitions (map protected_uids (input_events inputs))" by (rule events_whole_units)
  have "\<forall>uids \<in> set (map protected_uids (input_events inputs)). \<forall>uid \<in> set uids. is_digest uid" using events by simp
  from sound_split_audited[OF points ok digests this stages plans, of frames] show ?thesis
    using whole by (simp add: no_repeats_def)
qed

lemma built_plans_sound:
  assumes "inputs_ok inputs" and "make_block_policy (policy_blocks policy) = Inr p" and "interior_points interior"
    and "build_partition_unit_catalog E policy inputs = Inr c"
    and "build_outer_partitions D interior policy c reports = Inr partitions"
    and "build_cross_validation_plans D interior policy c partitions reports override seed_override = Inr plans"
  shows "plans_sound active policy c partitions plans"
proof -
  have ok: "catalog_ok c" using built_catalog_exact[OF assms(1,2,4)] by (simp add: catalog_spec_def)
  then have "partitions_of_domains c partitions"
    using partitions_of_domains_built[OF assms(3) _ assms(5)] by (simp add: catalog_ok_def)
  from built_plans[OF assms(3) ok this assms(6), of active] show ?thesis by (simp add: plans_sound_def)
qed

end
