(* ===== verification/Independence_Reports.thy ===== *)
theory Independence_Reports
  imports Partition_Units
begin

text \<open>
  Independence reports of \<open>mdstats/training_data/partition.py\<close> (\<open>PartitionIndependenceReport\<close>,
  \<open>build_independence_reports\<close>): for each label domain how many units have each grade of independence, and
  the weakest grade among them.

  The grades are ordered by the dictionary \<open>order\<close> of the code, from the strongest to the weakest.
\<close>

section \<open>Grades in order\<close>

fun grade_rank :: "independence_grade \<Rightarrow> nat" where
  "grade_rank INDEPENDENT_REPLICA = 0"
| "grade_rank INDEPENDENT_STRUCTURAL_REALIZATION = 1"
| "grade_rank INDEPENDENT_THERMODYNAMIC_RUN = 2"
| "grade_rank PURGED_TEMPORAL_BLOCK = 3"
| "grade_rank SLOW_STATE_NOT_DECORRELATED = 4"
| "grade_rank INSUFFICIENT_INDEPENDENCE = 5"

lemma grade_rank_inj [simp]: "grade_rank g = grade_rank h \<longleftrightarrow> g = h"
  by (cases g; cases h) simp_all

lemma grade_value_inj [simp]: "grade_value g = grade_value h \<longleftrightarrow> g = h"
  by (cases g; cases h) simp_all

instantiation independence_grade :: linorder
begin

definition less_eq_independence_grade :: "independence_grade \<Rightarrow> independence_grade \<Rightarrow> bool" where
  "less_eq_independence_grade g h \<longleftrightarrow> grade_rank g \<le> grade_rank h"

definition less_independence_grade :: "independence_grade \<Rightarrow> independence_grade \<Rightarrow> bool" where
  "less_independence_grade g h \<longleftrightarrow> grade_rank g < grade_rank h"

instance
proof
  fix g h k :: independence_grade
  show "g < h \<longleftrightarrow> g \<le> h \<and> \<not> h \<le> g" "g \<le> g" "g \<le> h \<or> h \<le> g"
    by (auto simp: less_eq_independence_grade_def less_independence_grade_def)
  show "g \<le> h \<Longrightarrow> h \<le> k \<Longrightarrow> g \<le> k" by (simp add: less_eq_independence_grade_def)
  show "g \<le> h \<Longrightarrow> h \<le> g \<Longrightarrow> g = h"
    unfolding less_eq_independence_grade_def by (simp flip: grade_rank_inj)
qed

end

section \<open>Reports\<close>

record independence_report =
  independence_domain :: string
  independence_catalog_digest :: string
  grade_counts :: "(string \<times> nat) list"
  weakest_grade :: independence_grade
  independence_notes :: "string list"

definition make_independence_report :: "independence_report \<Rightarrow> independence_report result" where
  "make_independence_report r =
     bindE (validate_digest ''unit_catalog_digest'' (independence_catalog_digest r)) (\<lambda>_.
     Inr (r\<lparr>grade_counts := sort (grade_counts r)\<rparr>))"

definition count_grade :: "partition_unit \<Rightarrow> (string \<times> nat) list \<Rightarrow> (string \<times> nat) list" where
  "count_grade u counts =
     (let key = grade_value (unit_grade u) in
      AList.update key ((case map_of counts key of None \<Rightarrow> 0 | Some n \<Rightarrow> n) + 1) counts)"

definition weak_independence_note :: string where
  "weak_independence_note = ''At least one condition lacks demonstrated slow-state independence.''"

definition independence_of_domain :: "('z) digests_scheme \<Rightarrow> unit_catalog \<Rightarrow> string \<Rightarrow> independence_report result" where
  "independence_of_domain D c domain =
     (let grades = map unit_grade (for_domain c domain); weakest = fold max (tl grades) (hd grades) in
      make_independence_report
        \<lparr>independence_domain = domain, independence_catalog_digest = catalog_digest_of D c,
         grade_counts = fold count_grade (for_domain c domain) [], weakest_grade = weakest,
         independence_notes =
           (if weakest \<in> {SLOW_STATE_NOT_DECORRELATED, INSUFFICIENT_INDEPENDENCE} then [weak_independence_note] else [])\<rparr>)"

definition build_independence_reports :: "('z) digests_scheme \<Rightarrow> unit_catalog \<Rightarrow> independence_report list result" where
  "build_independence_reports D c = mapE (independence_of_domain D c) (domain_ids c)"

section \<open>What a report says\<close>

definition grade_number :: "partition_unit list \<Rightarrow> independence_grade \<Rightarrow> nat" where
  "grade_number units g = length (filter (\<lambda>u. unit_grade u = g) units)"

definition independence_spec :: "partition_unit list \<Rightarrow> independence_report \<Rightarrow> bool" where
  "independence_spec units r \<longleftrightarrow>
     sorted (grade_counts r) \<and> distinct (map fst (grade_counts r))
     \<and> set (grade_counts r) = (\<lambda>g. (grade_value g, grade_number units g)) ` unit_grade ` set units
     \<and> sum_list (map snd (grade_counts r)) = length units
     \<and> weakest_grade r = Max (unit_grade ` set units)
     \<and> (independence_notes r \<noteq> [] \<longleftrightarrow>
          (\<exists>u \<in> set units. unit_grade u \<in> {SLOW_STATE_NOT_DECORRELATED, INSUFFICIENT_INDEPENDENCE}))"

lemma fold_max_Max: "gs \<noteq> [] \<Longrightarrow> fold max (tl gs) (hd gs) = Max (set (gs :: 'a::linorder list))"
  using Max.set_eq_fold[of "hd gs" "tl gs"] by simp

lemma map_of_counts:
  "map_of (fold count_grade units []) key
   = (if \<exists>u \<in> set units. grade_value (unit_grade u) = key
      then Some (length (filter (\<lambda>u. grade_value (unit_grade u) = key) units)) else None)"
proof (induction units rule: rev_induct)
  case (snoc u units)
  show ?case
  proof (cases "grade_value (unit_grade u) = key")
    case True
    have "\<not> (\<exists>u \<in> set units. grade_value (unit_grade u) = key) \<Longrightarrow> filter (\<lambda>u. grade_value (unit_grade u) = key) units = []"
      by (auto simp: filter_empty_conv)
    with True snoc show ?thesis by (auto simp: count_grade_def Let_def)
  next
    case False
    with snoc show ?thesis by (simp add: count_grade_def Let_def)
  qed
qed simp

lemma distinct_counts: "distinct (map fst (fold count_grade units []))"
  by (induction units rule: rev_induct) (simp_all add: count_grade_def Let_def)

lemma sum_update:
  assumes "distinct (map fst (d :: ('k \<times> nat) list))"
  shows "sum_list (map snd (AList.update k ((case map_of d k of None \<Rightarrow> 0 | Some n \<Rightarrow> n) + 1) d)) = Suc (sum_list (map snd d))"
  using assms by (induction d) auto

lemma sum_counts: "sum_list (map snd (fold count_grade units [])) = length units"
proof (induction units rule: rev_induct)
  case (snoc u units)
  have "sum_list (map snd (count_grade u (fold count_grade units []))) = Suc (sum_list (map snd (fold count_grade units [])))"
    unfolding count_grade_def[of u] Let_def by (rule sum_update[OF distinct_counts])
  with snoc show ?case by simp
qed simp

lemma set_counts:
  "set (fold count_grade units []) = (\<lambda>g. (grade_value g, grade_number units g)) ` unit_grade ` set units"
proof (rule set_eqI)
  fix p :: "string \<times> nat"
  obtain key n where p: "p = (key, n)" by (cases p)
  have "p \<in> set (fold count_grade units []) \<longleftrightarrow> map_of (fold count_grade units []) key = Some n"
    using distinct_counts p by (simp add: map_of_eq_Some_iff)
  also have "\<dots> \<longleftrightarrow> (\<exists>u \<in> set units. key = grade_value (unit_grade u) \<and> n = grade_number units (unit_grade u))"
    unfolding map_of_counts grade_number_def by auto
  finally show "p \<in> set (fold count_grade units []) \<longleftrightarrow> p \<in> (\<lambda>g. (grade_value g, grade_number units g)) ` unit_grade ` set units"
    unfolding p by blast
qed

lemma weak_maximum:
  assumes "units \<noteq> []"
  shows "Max (unit_grade ` set units) \<in> {SLOW_STATE_NOT_DECORRELATED, INSUFFICIENT_INDEPENDENCE}
    \<longleftrightarrow> (\<exists>u \<in> set units. unit_grade u \<in> {SLOW_STATE_NOT_DECORRELATED, INSUFFICIENT_INDEPENDENCE})"
proof -
  have weak: "g \<in> {SLOW_STATE_NOT_DECORRELATED, INSUFFICIENT_INDEPENDENCE} \<longleftrightarrow> SLOW_STATE_NOT_DECORRELATED \<le> g" for g
    by (cases g) (simp_all add: less_eq_independence_grade_def)
  show ?thesis unfolding weak using assms by (simp add: Max_ge_iff)
qed

lemma independence_of_domain_exact:
  assumes "is_digest (catalog_digest_of D c)" and units: "for_domain c domain \<noteq> []"
  shows "\<exists>r. independence_of_domain D c domain = Inr r \<and> independence_domain r = domain
    \<and> independence_catalog_digest r = catalog_digest_of D c \<and> independence_spec (for_domain c domain) r"
proof -
  define grades where "grades = map unit_grade (for_domain c domain)"
  have max: "fold max (tl grades) (hd grades) = Max (unit_grade ` set (for_domain c domain))"
    using units fold_max_Max[of grades] by (simp add: grades_def)
  have insort: "sum_list (map snd (insort x xs)) = snd x + sum_list (map snd xs)" for x :: "string \<times> nat" and xs
    by (induction xs) simp_all
  have sums: "sum_list (map snd (sort xs)) = sum_list (map snd xs)" for xs :: "(string \<times> nat) list"
    by (induction xs) (simp_all add: insort)
  have keys: "distinct (map fst (sort (fold count_grade (for_domain c domain) [])))"
    using distinct_counts by (simp add: distinct_map)
  show ?thesis
    using assms keys
    unfolding independence_of_domain_def make_independence_report_def independence_spec_def Let_def
      grades_def[symmetric] max weak_maximum[OF units, symmetric]
    by (simp add: validate_digest_def sums sum_counts set_counts)
qed

text \<open>One report for each label domain, and each says exactly which grades its units have.\<close>

lemma build_independence_reports_exact:
  assumes "is_digest (catalog_digest_of D c)"
  shows "\<exists>rs. build_independence_reports D c = Inr rs \<and> map independence_domain rs = domain_ids c
    \<and> (\<forall>r \<in> set rs. independence_catalog_digest r = catalog_digest_of D c
         \<and> independence_spec (for_domain c (independence_domain r)) r)"
proof -
  have "for_domain c d \<noteq> []" if "d \<in> set (domain_ids c)" for d
    using that by (auto simp: domain_ids_def for_domain_def filter_empty_conv)
  then have "\<exists>rs. mapE (independence_of_domain D c) (domain_ids c) = Inr rs
      \<and> list_all2 (\<lambda>d r. independence_domain r = d \<and> independence_catalog_digest r = catalog_digest_of D c
          \<and> independence_spec (for_domain c d) r) (domain_ids c) rs"
    by (intro mapE_list_all2 independence_of_domain_exact[OF assms])
  then obtain rs where rs: "mapE (independence_of_domain D c) (domain_ids c) = Inr rs"
    "list_all2 (\<lambda>d r. independence_domain r = d \<and> independence_catalog_digest r = catalog_digest_of D c
          \<and> independence_spec (for_domain c d) r) (domain_ids c) rs" by blast
  have "map independence_domain rs = domain_ids c"
    using rs(2) by (induction rule: list_all2_induct) simp_all
  moreover have "\<forall>r \<in> set rs. independence_catalog_digest r = catalog_digest_of D c
      \<and> independence_spec (for_domain c (independence_domain r)) r"
    using rs(2) by (auto simp: list_all2_conv_all_nth in_set_conv_nth)
  ultimately show ?thesis using rs(1) by (auto simp: build_independence_reports_def)
qed

end
