(* ===== verification/Blinding_Boundaries.thy ===== *)
theory Blinding_Boundaries
  imports Leakage_Audit
begin

text \<open>
  Blinding boundaries of \<open>mdstats/training_data/blinding.py\<close>: for every outer role and every operation on
  evidence whether the operation is allowed, forbidden, sealed until the protocol is frozen, or limited to
  provenance.  Boundaries store the names of operations and access states; a name that is none raises the
  \<open>ValueError\<close> of the enumeration.  \<open>CALIBRATION_OPERATION\<close> is the operation \<open>UNCERTAINTY_CALIBRATION\<close>, whose name is
  taken by the role.
\<close>

section \<open>Operations and access\<close>

datatype evidence_operation =
  RAW_GEOMETRY_ACCESS | LABEL_DERIVED_SELECTION | CHECKPOINT_MONITORING | CALIBRATION_OPERATION | POST_FREEZE_EVALUATION

datatype evidence_access = ALLOWED | FORBIDDEN | SEALED_UNTIL_PROTOCOL_FREEZE | PROVENANCE_ONLY

fun operation_value :: "evidence_operation \<Rightarrow> string" where
  "operation_value RAW_GEOMETRY_ACCESS = ''raw_geometry_access''"
| "operation_value LABEL_DERIVED_SELECTION = ''label_derived_selection''"
| "operation_value CHECKPOINT_MONITORING = ''checkpoint_monitoring''"
| "operation_value CALIBRATION_OPERATION = ''uncertainty_calibration''"
| "operation_value POST_FREEZE_EVALUATION = ''post_freeze_evaluation''"

fun access_value :: "evidence_access \<Rightarrow> string" where
  "access_value ALLOWED = ''allowed''"
| "access_value FORBIDDEN = ''forbidden''"
| "access_value SEALED_UNTIL_PROTOCOL_FREEZE = ''sealed_until_protocol_freeze''"
| "access_value PROVENANCE_ONLY = ''provenance_only''"

definition evidence_operations :: "evidence_operation list" where
  "evidence_operations = [RAW_GEOMETRY_ACCESS, LABEL_DERIVED_SELECTION, CHECKPOINT_MONITORING,
     CALIBRATION_OPERATION, POST_FREEZE_EVALUATION]"

definition evidence_accesses :: "evidence_access list" where
  "evidence_accesses = [ALLOWED, FORBIDDEN, SEALED_UNTIL_PROTOCOL_FREEZE, PROVENANCE_ONLY]"

definition outer_roles :: "outer_role list" where
  "outer_roles = [DEVELOPMENT, OUTER_MONITOR, UNCERTAINTY_CALIBRATION, LOCKED_INTERPOLATION_TEST, PURGED, EXCLUDED]"

text \<open>The call of an enumeration class: the member of the given value.\<close>

definition member_of :: "string \<Rightarrow> ('m \<Rightarrow> string) \<Rightarrow> 'm list \<Rightarrow> string \<Rightarrow> 'm result" where
  "member_of enumeration text members s =
     (case find (\<lambda>m. text m = s) members of
        None \<Rightarrow> Inl (ValueError (Fmt ''{!r} is not a valid {}'' [AStr s, AStr enumeration]))
      | Some m \<Rightarrow> Inr m)"

definition operation_of :: "string \<Rightarrow> evidence_operation result" where
  "operation_of = member_of ''EvidenceOperation'' operation_value evidence_operations"

definition access_of :: "string \<Rightarrow> evidence_access result" where
  "access_of = member_of ''EvidenceAccess'' access_value evidence_accesses"

section \<open>Policy, boundaries and catalog\<close>

record blinding_policy =
  blinding_policy_version :: string

definition make_blinding_policy :: "blinding_policy \<Rightarrow> blinding_policy result" where
  "make_blinding_policy p =
     bindE (guardE (strip (blinding_policy_version p) \<noteq> [])
       (TrainingDataInputError (Text ''policy_version must be non-empty.''))) (\<lambda>_. Inr p)"

record role_boundary =
  boundary_role :: outer_role
  operation_access :: "(string \<times> string) list"
  boundary_reasons :: "string list"

definition make_role_boundary :: "role_boundary \<Rightarrow> role_boundary result" where
  "make_role_boundary b =
     bindE (mapE (\<lambda>(k, v). bindE (operation_of k) (\<lambda>operation. bindE (access_of v) (\<lambda>state.
       Inr (operation_value operation, access_value state)))) (operation_access b)) (\<lambda>pairs.
     let access = sort pairs in
     bindE (guardE (set (map fst access) = set (map operation_value evidence_operations))
       (TrainingDataInputError (Text ''Every evidence operation must have one access state.''))) (\<lambda>_.
     Inr (b\<lparr>operation_access := access, boundary_reasons := sorted_set (boundary_reasons b)\<rparr>)))"

definition access_for :: "role_boundary \<Rightarrow> string \<Rightarrow> evidence_access result" where
  "access_for b operation =
     bindE (operation_of operation) (\<lambda>key.
     bindE (lookupE (dict_of (operation_access b)) (operation_value key)) access_of)"

record boundary_catalog =
  boundary_policy_digest :: string
  boundary_partition_digests :: "string list"
  role_boundaries :: "role_boundary list"

definition make_boundary_catalog :: "boundary_catalog \<Rightarrow> boundary_catalog result" where
  "make_boundary_catalog c =
     bindE (validate_digest ''policy_digest'' (boundary_policy_digest c)) (\<lambda>_.
     bindE (mapE (validate_digest ''outer_partition_digest'') (boundary_partition_digests c)) (\<lambda>partitions.
     let boundaries = sort_key (\<lambda>b. role_value (boundary_role b)) (role_boundaries c) in
     bindE (guardE (set (map boundary_role boundaries) = set outer_roles)
       (TrainingDataInputError (Text ''Blinding catalog must cover every outer role.''))) (\<lambda>_.
     Inr (c\<lparr>boundary_partition_digests := sort partitions, role_boundaries := boundaries\<rparr>))))"

definition for_role :: "boundary_catalog \<Rightarrow> outer_role \<Rightarrow> role_boundary result" where
  "for_role c role = lookupE (dict_of (map (\<lambda>b. (boundary_role b, b)) (role_boundaries c))) role"

section \<open>The boundaries of the package\<close>

fun role_access :: "outer_role \<Rightarrow> evidence_operation \<Rightarrow> evidence_access" where
  "role_access DEVELOPMENT RAW_GEOMETRY_ACCESS = ALLOWED"
| "role_access DEVELOPMENT LABEL_DERIVED_SELECTION = ALLOWED"
| "role_access DEVELOPMENT CHECKPOINT_MONITORING = FORBIDDEN"
| "role_access DEVELOPMENT CALIBRATION_OPERATION = FORBIDDEN"
| "role_access DEVELOPMENT POST_FREEZE_EVALUATION = FORBIDDEN"
| "role_access OUTER_MONITOR RAW_GEOMETRY_ACCESS = ALLOWED"
| "role_access OUTER_MONITOR LABEL_DERIVED_SELECTION = FORBIDDEN"
| "role_access OUTER_MONITOR CHECKPOINT_MONITORING = ALLOWED"
| "role_access OUTER_MONITOR CALIBRATION_OPERATION = FORBIDDEN"
| "role_access OUTER_MONITOR POST_FREEZE_EVALUATION = FORBIDDEN"
| "role_access UNCERTAINTY_CALIBRATION RAW_GEOMETRY_ACCESS = ALLOWED"
| "role_access UNCERTAINTY_CALIBRATION LABEL_DERIVED_SELECTION = FORBIDDEN"
| "role_access UNCERTAINTY_CALIBRATION CHECKPOINT_MONITORING = FORBIDDEN"
| "role_access UNCERTAINTY_CALIBRATION CALIBRATION_OPERATION = ALLOWED"
| "role_access UNCERTAINTY_CALIBRATION POST_FREEZE_EVALUATION = FORBIDDEN"
| "role_access LOCKED_INTERPOLATION_TEST RAW_GEOMETRY_ACCESS = SEALED_UNTIL_PROTOCOL_FREEZE"
| "role_access LOCKED_INTERPOLATION_TEST LABEL_DERIVED_SELECTION = FORBIDDEN"
| "role_access LOCKED_INTERPOLATION_TEST CHECKPOINT_MONITORING = FORBIDDEN"
| "role_access LOCKED_INTERPOLATION_TEST CALIBRATION_OPERATION = FORBIDDEN"
| "role_access LOCKED_INTERPOLATION_TEST POST_FREEZE_EVALUATION = SEALED_UNTIL_PROTOCOL_FREEZE"
| "role_access PURGED operation = PROVENANCE_ONLY"
| "role_access EXCLUDED operation = PROVENANCE_ONLY"

definition access_map :: "outer_role \<Rightarrow> (string \<times> string) list" where
  "access_map role = map (\<lambda>operation. (operation_value operation, access_value (role_access role operation))) evidence_operations"

record blinding_digests = audit_digests +
  blinding_policy_digest_of :: "blinding_policy \<Rightarrow> string"

definition default_blinding_policy :: blinding_policy where
  "default_blinding_policy = \<lparr>blinding_policy_version = ''mdstats.mlff-data5.blinding.2026-07.v1''\<rparr>"

definition build_blinding_boundary_catalog ::
  "('z) blinding_digests_scheme \<Rightarrow> outer_partition list \<Rightarrow> blinding_policy option \<Rightarrow> boundary_catalog result" where
  "build_blinding_boundary_catalog D partitions policy =
     (let active = (case policy of None \<Rightarrow> default_blinding_policy | Some p \<Rightarrow> p) in
      bindE (mapE (\<lambda>role. make_role_boundary \<lparr>boundary_role = role, operation_access = access_map role,
          boundary_reasons = [''canonical_mlff_data5_role_boundary'']\<rparr>) outer_roles) (\<lambda>boundaries.
      make_boundary_catalog \<lparr>boundary_policy_digest = blinding_policy_digest_of D active,
        boundary_partition_digests = map (partition_digest_of D) partitions, role_boundaries = boundaries\<rparr>))"

section \<open>The built catalog answers by the table\<close>

lemma operations_complete: "operation \<in> set evidence_operations"
  by (cases operation) (simp_all add: evidence_operations_def)

lemma roles_complete: "role \<in> set outer_roles"
  by (cases role) (simp_all add: outer_roles_def)

lemma operation_round_trip: "operation_of (operation_value operation) = Inr operation"
  by (cases operation) (simp_all add: operation_of_def member_of_def evidence_operations_def)

lemma access_round_trip: "access_of (access_value state) = Inr state"
  by (cases state) (simp_all add: access_of_def member_of_def evidence_accesses_def)

lemma operation_of_member: "operation_of s = Inr operation \<longleftrightarrow> s = operation_value operation"
proof
  assume "operation_of s = Inr operation"
  then show "s = operation_value operation"
    by (auto simp: operation_of_def member_of_def find_Some_iff split: option.splits)
qed (simp add: operation_round_trip)

lemma operation_value_inj [simp]: "operation_value o1 = operation_value o2 \<longleftrightarrow> o1 = o2"
  by (metis operation_round_trip sum.inject(2))

definition boundary_of :: "outer_role \<Rightarrow> role_boundary" where
  "boundary_of role = \<lparr>boundary_role = role, operation_access = sort (access_map role),
     boundary_reasons = [''canonical_mlff_data5_role_boundary'']\<rparr>"

lemma make_boundary_of:
  "make_role_boundary \<lparr>boundary_role = role, operation_access = access_map role,
     boundary_reasons = [''canonical_mlff_data5_role_boundary'']\<rparr> = Inr (boundary_of role)"
proof -
  have "mapE (\<lambda>(k, v). bindE (operation_of k) (\<lambda>operation. bindE (access_of v) (\<lambda>state.
       Inr (operation_value operation, access_value state)))) (access_map role) = Inr (map id (access_map role))"
    by (rule mapE_total) (auto simp: access_map_def operation_round_trip access_round_trip)
  then show ?thesis
    by (simp add: make_role_boundary_def boundary_of_def access_map_def image_image sorted_set_def)
qed

lemma access_for_boundary: "access_for (boundary_of role) (operation_value operation) = Inr (role_access role operation)"
proof -
  have "distinct (map fst (sort (access_map role)))"
    by (simp add: distinct_map access_map_def inj_on_def evidence_operations_def)
  moreover have "(operation_value operation, access_value (role_access role operation)) \<in> set (sort (access_map role))"
    using operations_complete by (simp add: access_map_def)
  ultimately have "map_of (dict_of (sort (access_map role))) (operation_value operation) = Some (access_value (role_access role operation))"
    unfolding map_of_dict_of by (intro map_of_is_SomeI) (simp_all add: rev_map[symmetric])
  then show ?thesis
    by (simp add: access_for_def operation_round_trip boundary_of_def lookupE_def access_round_trip)
qed

text \<open>
  The catalog is always built, and a lookup of role and operation always answers, by \<open>role_access\<close>.
\<close>

definition boundaries_exact :: "boundary_catalog \<Rightarrow> bool" where
  "boundaries_exact c \<longleftrightarrow> (\<forall>role operation.
     bindE (for_role c role) (\<lambda>b. access_for b (operation_value operation)) = Inr (role_access role operation))"

lemma blinding_boundaries_built:
  assumes "is_digest (blinding_policy_digest_of D (case policy of None \<Rightarrow> default_blinding_policy | Some p \<Rightarrow> p))"
    and "\<forall>p \<in> set partitions. is_digest (partition_digest_of D p)"
  shows "\<exists>c. build_blinding_boundary_catalog D partitions policy = Inr c \<and> boundaries_exact c
    \<and> boundary_partition_digests c = sort (map (partition_digest_of D) partitions)"
proof -
  have "mapE (\<lambda>role. make_role_boundary \<lparr>boundary_role = role, operation_access = access_map role,
      boundary_reasons = [''canonical_mlff_data5_role_boundary'']\<rparr>) outer_roles = Inr (map boundary_of outer_roles)"
    by (rule mapE_total) (rule make_boundary_of)
  moreover define c where "c = \<lparr>boundary_policy_digest = blinding_policy_digest_of D (case policy of None \<Rightarrow> default_blinding_policy | Some p \<Rightarrow> p),
        boundary_partition_digests = sort (map (partition_digest_of D) partitions),
        role_boundaries = sort_key (\<lambda>b. role_value (boundary_role b)) (map boundary_of outer_roles)\<rparr>"
  moreover have "mapE (validate_digest ''outer_partition_digest'') (map (partition_digest_of D) partitions)
      = Inr (map id (map (partition_digest_of D) partitions))"
    by (rule mapE_total) (use assms(2) in \<open>auto simp: validate_digest_def\<close>)
  moreover have "boundary_role ` boundary_of ` set outer_roles = set outer_roles"
    by (simp add: image_image boundary_of_def)
  ultimately have "build_blinding_boundary_catalog D partitions policy = Inr c"
    using assms(1) by (simp add: build_blinding_boundary_catalog_def Let_def make_boundary_catalog_def validate_digest_def)
  moreover have "boundaries_exact c"
    unfolding boundaries_exact_def
  proof (intro allI)
    fix role operation
    let ?ps = "map (\<lambda>b. (boundary_role b, b)) (role_boundaries c)"
    have "set ?ps = (\<lambda>r. (r, boundary_of r)) ` set outer_roles"
      by (simp add: c_def image_image boundary_of_def)
    then have answer: "p = (fst p, boundary_of (fst p))" if "p \<in> set ?ps" for p using that by auto
    have "map_of (rev ?ps) role \<noteq> None"
      using roles_complete[of role] by (simp add: map_of_eq_None_iff c_def image_image boundary_of_def)
    then have "map_of (rev ?ps) role = Some (boundary_of role)"
    proof -
      assume "map_of (rev ?ps) role \<noteq> None"
      then obtain b where b: "map_of (rev ?ps) role = Some b" by blast
      then have "(role, b) \<in> set ?ps" using map_of_SomeD[OF b] by (simp only: set_rev)
      from answer[OF this] b show ?thesis by simp
    qed
    then have "for_role c role = Inr (boundary_of role)"
      by (simp add: for_role_def lookupE_def map_of_dict_of)
    then show "bindE (for_role c role) (\<lambda>b. access_for b (operation_value operation)) = Inr (role_access role operation)"
      by (simp add: access_for_boundary)
  qed
  moreover have "boundary_partition_digests c = sort (map (partition_digest_of D) partitions)" by (simp add: c_def)
  ultimately show ?thesis by blast
qed

text \<open>An operation other than looking at raw geometry is allowed for one role at most, and nothing of the
  locked test, nor of what was purged or excluded, is allowed before the protocol is frozen.\<close>

lemma one_role_per_operation:
  "role_access r1 operation = ALLOWED \<Longrightarrow> role_access r2 operation = ALLOWED \<Longrightarrow> operation \<noteq> RAW_GEOMETRY_ACCESS \<Longrightarrow> r1 = r2"
  by (cases operation; cases r1; cases r2) simp_all

lemma allowed_roles:
  "role_access role operation = ALLOWED \<Longrightarrow> role \<in> {DEVELOPMENT, OUTER_MONITOR, UNCERTAINTY_CALIBRATION}"
  by (cases operation; cases role) simp_all

end
