(* ===== verification/Partition_Bundle.thy ===== *)
theory Partition_Bundle
  imports Data_Split Independence_Reports Blinding_Boundaries
begin

text \<open>
  The bundle of a statistical partition (\<open>mdstats/training_data/data5_bundle.py\<close>): units, feasibility, outer
  roles, independence reports, blinding boundaries and the leakage audit, built one after the other and
  checked against each other.  Its digests come from two parameters, \<open>E\<close> for the units and \<open>D\<close> for the rest.

  The frames that the audit reads, with their fingerprints, are an argument beside the inputs of the unit
  catalog, as the same frame catalog is read for different fields.
\<close>

section \<open>The bundle and its checks\<close>

record partition_bundle =
  bundle_dataset :: string
  bundle_source_catalog :: string
  bundle_frame_catalog :: string
  bundle_features :: string
  bundle_policy :: partition_policy
  bundle_units :: unit_catalog
  feasibility_reports :: "feasibility_report list"
  outer_partitions :: "outer_partition list"
  independence_reports :: "independence_report list"
  cross_validation_plans :: "cv_plan list"
  blinding_boundaries :: boundary_catalog
  leakage_audit :: "leakage_report option"
  bundle_schema :: string
  bundle_notes :: "string list"

definition partition_bundle_schema :: string where
  "partition_bundle_schema = ''mdstats.data5-partition-bundle.v2''"

definition legacy_partition_bundle_schema :: string where
  "legacy_partition_bundle_schema = ''mdstats.data5-partition-bundle.v1''"

definition check_bundle_lineage :: "('z) digests_scheme \<Rightarrow> partition_bundle \<Rightarrow> unit result" where
  "check_bundle_lineage D b =
     bindE (mapE (\<lambda>(name, v). validate_digest name v)
       [(''source_catalog_digest'', bundle_source_catalog b), (''frame_catalog_digest'', bundle_frame_catalog b),
        (''data4_bundle_digest'', bundle_features b)]) (\<lambda>_.
     bindE (guardE (bundle_schema b = partition_bundle_schema \<or> bundle_schema b = legacy_partition_bundle_schema)
       (TrainingDataInputError (Text ''Unsupported DATA5 partition-bundle schema.''))) (\<lambda>_.
     bindE (guardE (dataset_id (bundle_units b) = bundle_dataset b)
       (TrainingDataInputError (Text ''DATA5 unit catalog dataset mismatch.''))) (\<lambda>_.
     bindE (guardE (source_catalog_digest (bundle_units b) = bundle_source_catalog b)
       (TrainingDataInputError (Text ''DATA5 source lineage mismatch.''))) (\<lambda>_.
     bindE (guardE (frame_catalog_digest (bundle_units b) = bundle_frame_catalog b)
       (TrainingDataInputError (Text ''DATA5 frame lineage mismatch.''))) (\<lambda>_.
     bindE (guardE (data4_bundle_digest (bundle_units b) = bundle_features b)
       (TrainingDataInputError (Text ''DATA5 feature lineage mismatch.''))) (\<lambda>_.
     guardE (catalog_policy_digest (bundle_units b) = policy_digest_of D (bundle_policy b))
       (TrainingDataInputError (Text ''DATA5 partition policy mismatch.''))))))))"

definition check_bundle_domains :: "partition_bundle \<Rightarrow> unit result" where
  "check_bundle_domains b =
     (let domains = set (map unit_domain (catalog_units (bundle_units b))) in
      bindE (foldE (\<lambda>(name, found) _. guardE (set found = domains)
          (TrainingDataInputError (Fmt ''{} does not cover every label domain exactly.'' [AStr name])))
        [(''feasibility_reports'', map report_domain (feasibility_reports b)),
         (''outer_partitions'', map partition_domain (outer_partitions b)),
         (''independence_reports'', map independence_domain (independence_reports b))] ()) (\<lambda>_.
      guardE (bundle_schema b = legacy_partition_bundle_schema \<longrightarrow> set (map plan_domain (cross_validation_plans b)) = domains)
        (TrainingDataInputError (Text ''cross_validation_plans does not cover every label domain exactly.''))))"

definition leakage_refused :: exc where
  "leakage_refused = TrainingDataInputError (Text ''DATA5 bundle cannot be created with leakage errors.'')"

definition check_bundle_audit :: "('z) digests_scheme \<Rightarrow> partition_bundle \<Rightarrow> unit result" where
  "check_bundle_audit D b =
     (case leakage_audit b of
        None \<Rightarrow> Inr ()
      | Some audit \<Rightarrow>
          bindE (guardE (audit_catalog_digest audit = catalog_digest_of D (bundle_units b))
            (TrainingDataInputError (Text ''DATA5 leakage audit lineage mismatch.''))) (\<lambda>_.
          guardE (audit_passed audit) leakage_refused))"

definition make_partition_bundle :: "('z) digests_scheme \<Rightarrow> partition_bundle \<Rightarrow> partition_bundle result" where
  "make_partition_bundle D b =
     bindE (check_bundle_lineage D b) (\<lambda>_.
     bindE (check_bundle_domains b) (\<lambda>_.
     bindE (check_bundle_audit D b) (\<lambda>_.
     Inr (b\<lparr>feasibility_reports := sort_key report_domain (feasibility_reports b),
            outer_partitions := sort_key partition_domain (outer_partitions b),
            independence_reports := sort_key independence_domain (independence_reports b),
            cross_validation_plans := sort_key plan_domain (cross_validation_plans b)\<rparr>))))"

text \<open>The lookups by label domain; the private dictionaries are rebuilt from the sorted tuples.\<close>

definition feasibility_for_domain :: "partition_bundle \<Rightarrow> string \<Rightarrow> feasibility_report result" where
  "feasibility_for_domain b = lookupE (dict_of (map (\<lambda>r. (report_domain r, r)) (feasibility_reports b)))"

definition outer_partition_for_domain :: "partition_bundle \<Rightarrow> string \<Rightarrow> outer_partition result" where
  "outer_partition_for_domain b = lookupE (dict_of (map (\<lambda>p. (partition_domain p, p)) (outer_partitions b)))"

definition independence_for_domain :: "partition_bundle \<Rightarrow> string \<Rightarrow> independence_report result" where
  "independence_for_domain b = lookupE (dict_of (map (\<lambda>r. (independence_domain r, r)) (independence_reports b)))"

section \<open>Building the bundle\<close>

definition bundle_note :: string where
  "bundle_note = ''DATA5 assigns statistical roles only; fitted transforms, selection, model residuals, E0 fits, and MACE artifacts remain downstream.''"

definition build_data5_partition_bundle ::
  "('y) builder_env_scheme \<Rightarrow> ('z) blinding_digests_scheme \<Rightarrow> (int \<Rightarrow> int \<Rightarrow> int list) \<Rightarrow> partition_policy
   \<Rightarrow> blinding_policy option \<Rightarrow> leakage_policy \<Rightarrow> unit_inputs \<Rightarrow> frame_record list \<Rightarrow> partition_bundle result" where
  "build_data5_partition_bundle E D interior active blinding leakage inputs frames =
     bindE (build_partition_unit_catalog E active inputs) (\<lambda>c.
     bindE (assess_partition_feasibility D active c) (\<lambda>feasibility.
     bindE (build_outer_partitions D interior active c feasibility) (\<lambda>outer.
     bindE (build_independence_reports D c) (\<lambda>independence.
     bindE (build_blinding_boundary_catalog D outer blinding) (\<lambda>boundaries.
     bindE (audit_partition_leakage D leakage active c outer [] frames (map protected_uids (input_events inputs))) (\<lambda>audit.
     make_partition_bundle D
       \<lparr>bundle_dataset = input_dataset inputs, bundle_source_catalog = input_source_digest inputs,
        bundle_frame_catalog = input_frame_digest inputs, bundle_features = input_bundle_digest inputs,
        bundle_policy = active, bundle_units = c, feasibility_reports = feasibility, outer_partitions = outer,
        independence_reports = independence, cross_validation_plans = [], blinding_boundaries = boundaries,
        leakage_audit = Some audit, bundle_schema = partition_bundle_schema, bundle_notes = [bundle_note]\<rparr>))))))"

section \<open>What a built bundle holds\<close>

text \<open>
  A bundle describes its label domains completely, and its blinding boundaries answer by their table; the
  partition holds no repeated configuration that the policy rejects.
\<close>

definition bundle_spec ::
  "('z) digests_scheme \<Rightarrow> leakage_policy \<Rightarrow> unit_inputs \<Rightarrow> frame_record list \<Rightarrow> partition_bundle \<Rightarrow> bool" where
  "bundle_spec D leakage inputs frames b \<longleftrightarrow>
     catalog_spec (bundle_policy b) inputs (bundle_units b)
     \<and> (\<forall>domain \<in> set (domain_ids (bundle_units b)). \<exists>report p r.
          feasibility_for_domain b domain = Inr report \<and> is_usable report
          \<and> outer_partition_for_domain b domain = Inr p
          \<and> partition_spec D (bundle_policy b) (calibration_deferred report) (for_domain (bundle_units b) domain) p
          \<and> independence_for_domain b domain = Inr r \<and> independence_spec (for_domain (bundle_units b) domain) r)
     \<and> boundaries_exact (blinding_boundaries b)
     \<and> no_repeats leakage (bundle_units b) (outer_partitions b) frames"

lemma assess_domains:
  assumes "assess_partition_feasibility D active c = Inr reports"
  shows "map report_domain reports = domain_ids c" and "catalog_policy_digest c = policy_digest_of D active"
proof -
  from assms have "mapE (assess_domain D active c) (domain_ids c) = Inr reports"
    and "catalog_policy_digest c = policy_digest_of D active"
    by (auto simp: assess_partition_feasibility_def result_simps)
  then show "catalog_policy_digest c = policy_digest_of D active" by blast
  have domain: "report_domain r = d" if "assess_domain D active c d = Inr r" for d r
    using that unfolding assess_domain_def Let_def make_feasibility_report_def
    by (auto simp: result_simps split: prod.splits)
  have "list_all2 (\<lambda>d r. assess_domain D active c d = Inr r) (domain_ids c) reports"
    using \<open>mapE _ _ = _\<close> by (simp add: mapE_Inr_iff)
  then show "map report_domain reports = domain_ids c"
    by (induction rule: list_all2_induct) (simp_all add: domain)
qed

lemma catalog_lineage:
  assumes "build_partition_unit_catalog E active inputs = Inr c"
  shows "dataset_id c = input_dataset inputs" and "source_catalog_digest c = input_source_digest inputs"
    and "frame_catalog_digest c = input_frame_digest inputs" and "data4_bundle_digest c = input_bundle_digest inputs"
    and "is_digest (input_source_digest inputs)" "is_digest (input_frame_digest inputs)" "is_digest (input_bundle_digest inputs)"
  using assms
  by (auto simp: build_partition_unit_catalog_def make_unit_catalog_def validate_digest_def Let_def result_simps)

lemma audit_lineage:
  assumes "audit_partition_leakage D active policy c partitions plans frames events = Inr report"
  shows "audit_catalog_digest report = catalog_digest_of D c"
  using assms
  by (auto simp: audit_partition_leakage_def make_leakage_report_def result_simps)

text \<open>A lookup in a dictionary built from records that carry their keys, one for each key.\<close>

lemma lookup_keyed:
  assumes "distinct (map key xs)" and "x \<in> set xs"
  shows "lookupE (dict_of (map (\<lambda>x. (key x, x)) xs)) (key x) = Inr x"
proof -
  have "map_of (dict_of (map (\<lambda>x. (key x, x)) xs)) = map_of (map (\<lambda>x. (key x, x)) xs)"
    by (rule map_of_dict_of_distinct) (simp add: comp_def assms(1))
  moreover have "map_of (map (\<lambda>x. (key x, x)) xs) (key x) = Some x"
    by (rule map_of_is_SomeI) (use assms in \<open>auto simp: comp_def\<close>)
  ultimately show ?thesis by (simp add: lookupE_Inr_iff)
qed

lemma lookup_keyed_ex:
  assumes "map key xs = ds" and "distinct ds" and "d \<in> set ds"
  shows "\<exists>x \<in> set xs. key x = d \<and> lookupE (dict_of (map (\<lambda>x. (key x, x)) xs)) d = Inr x"
proof -
  from assms obtain x where x: "x \<in> set xs" "key x = d" by auto
  have "distinct (map key xs)" using assms by simp
  from lookup_keyed[OF this x(1)] x show ?thesis by auto
qed

lemma distinct_domain_ids: "distinct (domain_ids c)" and sorted_domain_ids: "sorted (domain_ids c)"
  by (simp_all add: domain_ids_def)

definition bundle_of ::
  "partition_policy \<Rightarrow> unit_inputs \<Rightarrow> unit_catalog \<Rightarrow> feasibility_report list \<Rightarrow> outer_partition list
   \<Rightarrow> independence_report list \<Rightarrow> boundary_catalog \<Rightarrow> leakage_report \<Rightarrow> partition_bundle" where
  "bundle_of active inputs c feasibility outer independence boundaries audit =
     \<lparr>bundle_dataset = input_dataset inputs, bundle_source_catalog = input_source_digest inputs,
      bundle_frame_catalog = input_frame_digest inputs, bundle_features = input_bundle_digest inputs,
      bundle_policy = active, bundle_units = c, feasibility_reports = feasibility, outer_partitions = outer,
      independence_reports = independence, cross_validation_plans = [], blinding_boundaries = boundaries,
      leakage_audit = Some audit, bundle_schema = partition_bundle_schema, bundle_notes = [bundle_note]\<rparr>"

text \<open>The checks of the constructor can fail for the audit only: the parts always fit together.\<close>

lemma make_bundle_of:
  assumes units: "build_partition_unit_catalog E active inputs = Inr c"
    and assess: "assess_partition_feasibility D active c = Inr feasibility"
    and domains: "map partition_domain outer = domain_ids c" "map independence_domain independence = domain_ids c"
    and audit: "audit_catalog_digest audit = catalog_digest_of D c"
  shows "make_partition_bundle D (bundle_of active inputs c feasibility outer independence boundaries audit)
    = (if audit_passed audit then Inr (bundle_of active inputs c feasibility outer independence boundaries audit)
       else Inl leakage_refused)"
proof -
  note line = catalog_lineage[OF units] and all = domains assess_domains(1)[OF assess]
  have ids: "set (domain_ids c) = set (map unit_domain (catalog_units c))" by (simp add: domain_ids_def)
  have lineage: "check_bundle_lineage D (bundle_of active inputs c feasibility outer independence boundaries audit) = Inr ()"
    using line assess_domains(2)[OF assess] by (simp add: check_bundle_lineage_def bundle_of_def validate_digest_def)
  have "set (map report_domain feasibility) = set (domain_ids c)" "set (map partition_domain outer) = set (domain_ids c)"
    "set (map independence_domain independence) = set (domain_ids c)" unfolding all by simp_all
  then have cover: "check_bundle_domains (bundle_of active inputs c feasibility outer independence boundaries audit) = Inr ()"
    by (simp add: check_bundle_domains_def bundle_of_def ids partition_bundle_schema_def legacy_partition_bundle_schema_def)
  have checked: "check_bundle_audit D (bundle_of active inputs c feasibility outer independence boundaries audit)
      = guardE (audit_passed audit) leakage_refused"
    using audit by (simp add: check_bundle_audit_def bundle_of_def)
  have sorts: "sort_key report_domain feasibility = feasibility" "sort_key partition_domain outer = outer"
    "sort_key independence_domain independence = independence"
    by (rule sort_key_id_if_sorted, simp only: all sorted_domain_ids)+
  show ?thesis
    using lineage cover checked by (cases "audit_passed audit") (simp_all add: make_partition_bundle_def bundle_of_def sorts)
qed

text \<open>
  Once units, feasibility and outer roles are there, the bundle is built exactly if no configuration is
  repeated across roles, and is refused for leakage otherwise.
\<close>

lemma bundle_built:
  assumes inputs: "inputs_ok inputs" "events_in_runs inputs" and merging: "merge_protected_event_windows active"
    and block_policy: "make_block_policy (policy_blocks active) = Inr p"
    and events: "\<forall>e \<in> set (input_events inputs). \<forall>uid \<in> set (protected_uids e). is_digest uid"
    and points: "interior_points interior" and digests: "digests_ok D"
    and blinding: "is_digest (blinding_policy_digest_of D (case blinding of None \<Rightarrow> default_blinding_policy | Some p \<Rightarrow> p))"
    and units: "build_partition_unit_catalog E active inputs = Inr c"
    and assess: "assess_partition_feasibility D active c = Inr reports"
    and outer: "build_outer_partitions D interior active c reports = Inr partitions"
  shows "if no_repeats leakage c partitions frames
    then \<exists>b. build_data5_partition_bundle E D interior active blinding leakage inputs frames = Inr b
      \<and> bundle_units b = c \<and> outer_partitions b = partitions \<and> bundle_policy b = active
      \<and> bundle_spec D leakage inputs frames b
    else build_data5_partition_bundle E D interior active blinding leakage inputs frames = Inl leakage_refused"
proof -
  have spec: "catalog_spec active inputs c" by (rule built_catalog_exact[OF inputs(1) block_policy units])
  then have order: "run_order (catalog_units c)" by (simp add: catalog_spec_def catalog_ok_def)
  note parts = build_outer_partitions_spec[OF points order outer]
  have "plans_sound leakage active c partitions []" by (simp add: plans_sound_def)
  from sound_data_audited[OF inputs merging block_policy events points digests units assess outer this, of frames]
  obtain audit where audit: "audit_partition_leakage D leakage active c partitions [] frames (map protected_uids (input_events inputs)) = Inr audit"
    "audit_passed audit \<longleftrightarrow> no_repeats leakage c partitions frames" by blast
  have "is_digest (catalog_digest_of D c)" "\<forall>p \<in> set partitions. is_digest (partition_digest_of D p)"
    using digests by (simp_all add: digests_ok_def)
  from build_independence_reports_exact[OF this(1)] blinding_boundaries_built[OF blinding this(2)]
  obtain rs boundaries where rs: "build_independence_reports D c = Inr rs" "map independence_domain rs = domain_ids c"
      "\<forall>r \<in> set rs. independence_spec (for_domain c (independence_domain r)) r"
    and boundaries: "build_blinding_boundary_catalog D partitions blinding = Inr boundaries" "boundaries_exact boundaries" by blast
  define b where "b = bundle_of active inputs c reports partitions rs boundaries audit"
  have run: "build_data5_partition_bundle E D interior active blinding leakage inputs frames
      = (if audit_passed audit then Inr b else Inl leakage_refused)"
    using make_bundle_of[OF units assess parts(1) rs(2) audit_lineage[OF audit(1)], of boundaries]
    unfolding build_data5_partition_bundle_def
    by (simp add: units assess outer rs(1) boundaries(1) audit(1) b_def bundle_of_def)
  have each: "\<exists>report p r. feasibility_for_domain b d = Inr report \<and> is_usable report \<and> outer_partition_for_domain b d = Inr p
      \<and> partition_spec D active (calibration_deferred report) (for_domain c d) p
      \<and> independence_for_domain b d = Inr r \<and> independence_spec (for_domain c d) r" if d: "d \<in> set (domain_ids c)" for d
  proof -
    note look = lookup_keyed_ex[OF _ distinct_domain_ids d]
    from look[OF parts(1)] obtain p where p: "p \<in> set partitions" "partition_domain p = d" "outer_partition_for_domain b d = Inr p"
      by (auto simp: outer_partition_for_domain_def b_def bundle_of_def)
    from look[OF rs(2)] obtain r where r: "r \<in> set rs" "independence_domain r = d" "independence_for_domain b d = Inr r"
      by (auto simp: independence_for_domain_def b_def bundle_of_def)
    from parts(2) p obtain report where report: "report_of reports d = Some report" "is_usable report"
      "partition_spec D active (calibration_deferred report) (for_domain c d) p" by blast
    have "feasibility_for_domain b d = Inr report"
      using report(1) by (simp add: feasibility_for_domain_def lookupE_Inr_iff report_of_def b_def bundle_of_def)
    moreover have "independence_spec (for_domain c d) r" using rs(3) r by blast
    ultimately show ?thesis using report p(3) r(3) by blast
  qed
  have "bundle_spec D leakage inputs frames b" if "no_repeats leakage c partitions frames"
    using each spec boundaries(2) that unfolding bundle_spec_def by (simp add: b_def bundle_of_def)
  then show ?thesis using run audit(2) by (simp add: b_def bundle_of_def)
qed

text \<open>Whatever is built is sound, for a bundle is built from a catalog, reports and partitions.\<close>

lemma built_bundle_spec:
  assumes "inputs_ok inputs" "events_in_runs inputs" and "merge_protected_event_windows active"
    and "make_block_policy (policy_blocks active) = Inr p"
    and "\<forall>e \<in> set (input_events inputs). \<forall>uid \<in> set (protected_uids e). is_digest uid"
    and "interior_points interior" and "digests_ok D"
    and "is_digest (blinding_policy_digest_of D (case blinding of None \<Rightarrow> default_blinding_policy | Some p \<Rightarrow> p))"
    and build: "build_data5_partition_bundle E D interior active blinding leakage inputs frames = Inr b"
  shows "bundle_policy b = active \<and> bundle_spec D leakage inputs frames b"
proof -
  from build obtain c reports partitions where stages: "build_partition_unit_catalog E active inputs = Inr c"
    "assess_partition_feasibility D active c = Inr reports" "build_outer_partitions D interior active c reports = Inr partitions"
    by (auto simp: build_data5_partition_bundle_def result_simps)
  from bundle_built[OF assms(1-8) stages, of leakage frames] build show ?thesis
    by (cases "no_repeats leakage c partitions frames") auto
qed

end
