(* ===== verification/Split_Sample.thy ===== *)
theory Split_Sample
  imports Split_Pipeline Unit_Builder
begin

text \<open>
  A sample for the properties of the statistical split: thirteen frames in two runs and one event, the
  units built from them, and their partition and cross-validation plan, each stage evaluated from the
  definitions.  The digests are constant where nothing depends on them.
\<close>

section \<open>Inputs\<close>

definition zeros :: string where "zeros = replicate 64 (CHR ''0'')"

definition sample_uid :: "char \<Rightarrow> string" where
  "sample_uid c = c # replicate 63 (CHR ''0'')"

definition sample_frame_uid :: "char \<Rightarrow> string" where
  "sample_frame_uid c = c # replicate 63 (CHR ''1'')"

definition sample_frames :: "string \<Rightarrow> string \<Rightarrow> frame_info list" where
  "sample_frames run cs = map (\<lambda>(k, c). \<lparr>info_uid = sample_frame_uid c, info_run = run, info_index = int k, info_domain = ''domain'',
     info_state = ''eligible'', temperature_label = ''300 K'', strain_label = ''none''\<rparr>) (List.enumerate 0 cs)"

definition sample_source :: "string \<Rightarrow> run_source" where
  "sample_source run = \<lparr>source_run = run, source_domain = ''domain'', source_formula = ''NaAlSiO4'', source_assertions = [],
     production_status = Some ''equilibrium'', source_replica = None, source_group = None\<rparr>"

definition sample_inputs :: unit_inputs where
  "sample_inputs = \<lparr>input_dataset = ''sample'', input_sources = [sample_source ''even'', sample_source ''odd''],
     input_frames = sample_frames ''even'' ''0c2468a'' @ sample_frames ''odd'' ''13579b'',
     input_events = [\<lparr>event_id = zeros, event_run = ''even'', protected_uids = [sample_frame_uid (CHR ''0''), sample_frame_uid (CHR ''c'')]\<rparr>],
     input_source_digest = zeros, input_frame_digest = zeros, input_bundle_digest = zeros, bundle_source_digest = zeros,
     bundle_frame_digest = zeros, bundle_profiled = False, regime_by_frame = None, labels_by_frame = None\<rparr>"

definition sample_env :: builder_env where
  "sample_env = \<lparr>condition_id_of = (\<lambda>k. regime k), policy_digest_of = (\<lambda>_. zeros), catalog_digest_of = (\<lambda>_. zeros),
     autocorrelation_times_of = (\<lambda>_. Inr [(''energy_per_atom_ev'', 1 / 2)]), scaled_length_of = (\<lambda>_ _. 1),
     diagnostics_of = (\<lambda>_ _. True), state_changed_of = (\<lambda>_. False),
     block_policy_digest_of = (\<lambda>_. zeros), block_plan_digest_of = (\<lambda>_. zeros),
     unit_digest_of = (\<lambda>_ uids _ _. sample_uid (hd (hd uids)))\<rparr>"

section \<open>Units\<close>

text \<open>The event joins the first two frames of the first run; every other frame is a unit of its own.\<close>

definition sample_condition :: condition_key where
  "sample_condition = \<lparr>condition_domain = ''domain'', reduced_formula = ''NaAlSiO4'', temperature_condition = ''300 K'',
     strain_class = ''none'', regime = ''equilibrium'', user_labels = []\<rparr>"

definition sample_unit :: "nat \<times> char \<Rightarrow> partition_unit" where
  "sample_unit = (\<lambda>(i, c).
     \<lparr>unit_id = sample_uid c, run_id = (if even i then ''even'' else ''odd''), unit_domain = ''domain'',
      unit_condition = sample_condition,
      source_frame_start = (if even i \<and> i \<noteq> 0 then int (i div 2) + 1 else int (i div 2)),
      source_frame_stop = (if even i then int (i div 2) + 2 else int (i div 2) + 1),
      frame_uids = (if i = 0 then [sample_frame_uid c, sample_frame_uid (CHR ''c'')] else [sample_frame_uid c]),
      block_plan_signature = zeros, event_ids = (if i = 0 then [zeros] else []),
      contains_protected_event_frames = (i = 0), diagnostics_finite_positive = True, replica_id = None,
      structural_realization_id = None, reference_group = None, unit_grade = INDEPENDENT_THERMODYNAMIC_RUN,
      independence_evidence_codes = [''multiple_source_runs_for_composition_domain'']\<rparr>)"

definition sample_catalog :: unit_catalog where
  "sample_catalog = \<lparr>dataset_id = ''sample'', source_catalog_digest = zeros, frame_catalog_digest = zeros,
     data4_bundle_digest = zeros, catalog_policy_digest = zeros,
     catalog_units = map sample_unit (zip [0, 2, 4, 6, 8, 10] ''02468a'' @ zip [1, 3, 5, 7, 9, 11] ''13579b''),
     run_block_plan_signatures = [(''even'', zeros), (''odd'', zeros)]\<rparr>"

definition sample_policy :: partition_policy where
  "sample_policy = \<lparr>policy_budget = \<lparr>development_minimum_independent_units = 4, outer_monitor_minimum_independent_units = 1,
       calibration_minimum_independent_units = 0, locked_interpolation_test_minimum_independent_units = 1,
       cross_validation_folds = 2, checkpoint_monitor_minimum_units_per_fold = 1, purge_units_between_roles = 1,
       allow_calibration_deferral = True, allow_external_challenge_tests = True,
       required_condition_axes = [''regime''], budget_version = ''1'', budget_schema = role_budget_schema\<rparr>,
     policy_blocks = \<lparr>block_policy_version = ''1'', minimum_block_frames = 32,
       autocorrelation_block_multiplier = Some 2, explicit_block_length_frames = Some 1,
       remainder_strategy = ''balanced_all_frames'', minimum_tau_frames = 1 / 2\<rparr>,
     accepted_eligibility_states = [''eligible''], autocorrelation_observables = [''energy_per_atom_ev''],
     merge_protected_event_windows = True, require_condition_coverage_in_outer_roles = False,
     allow_global_role_fallback = True, minimum_units_per_condition_for_full_outer_roles = 7,
     cross_validation_seed = 29, partition_policy_version = ''1'',
     partition_policy_schema = ''mdstats.mlff-partition-policy.v2''\<rparr>"

section \<open>The units are built from the frames\<close>

lemma sample_conditions: "frame_conditions sample_policy sample_inputs
    = Inr (map (\<lambda>c. (sample_frame_uid c, sample_condition)) ''0c2468a13579b'')"
  by code_simp

lemma sample_run_even: "build_run sample_env sample_policy sample_inputs
    (map (\<lambda>c. (sample_frame_uid c, sample_condition)) ''0c2468a13579b'') (sample_source ''even'')
    = Inr (map sample_unit (zip [0, 2, 4, 6, 8, 10] ''02468a''), [(''even'', zeros)])"
  by code_simp

lemma sample_run_odd: "build_run sample_env sample_policy sample_inputs
    (map (\<lambda>c. (sample_frame_uid c, sample_condition)) ''0c2468a13579b'') (sample_source ''odd'')
    = Inr (map sample_unit (zip [1, 3, 5, 7, 9, 11] ''13579b''), [(''odd'', zeros)])"
  by code_simp

lemma sample_made: "make_unit_catalog sample_env sample_catalog = Inr sample_catalog"
  by code_simp

lemma sample_catalog_built: "build_partition_unit_catalog sample_env sample_policy sample_inputs = Inr sample_catalog"
proof -
  have "mapE (build_run sample_env sample_policy sample_inputs (map (\<lambda>c. (sample_frame_uid c, sample_condition)) ''0c2468a13579b''))
      (input_sources sample_inputs) = Inr [(map sample_unit (zip [0, 2, 4, 6, 8, 10] ''02468a''), [(''even'', zeros)]),
        (map sample_unit (zip [1, 3, 5, 7, 9, 11] ''13579b''), [(''odd'', zeros)])]"
    using sample_run_even sample_run_odd by (simp add: sample_inputs_def)
  moreover have "\<lparr>dataset_id = input_dataset sample_inputs, source_catalog_digest = input_source_digest sample_inputs,
       frame_catalog_digest = input_frame_digest sample_inputs, data4_bundle_digest = input_bundle_digest sample_inputs,
       catalog_policy_digest = policy_digest_of sample_env sample_policy,
       catalog_units = map sample_unit (zip [0, 2, 4, 6, 8, 10] ''02468a'') @ map sample_unit (zip [1, 3, 5, 7, 9, 11] ''13579b''),
       run_block_plan_signatures = [(''even'', zeros), (''odd'', zeros)]\<rparr> = sample_catalog"
    by (simp add: sample_inputs_def sample_env_def sample_catalog_def)
  ultimately show ?thesis using sample_conditions sample_made
    by (simp add: build_partition_unit_catalog_def sample_inputs_def)
qed

section \<open>Stages of the split\<close>

definition sample_interior :: "int \<Rightarrow> int \<Rightarrow> int list" where
  "sample_interior count number = map (\<lambda>k. (int k + 1) * (count - 1) div (number + 1)) [0..<nat number]"

lemma sample_interior: "interior_points sample_interior"
  unfolding interior_points_def
proof (intro allI impI conjI ballI)
  fix count number :: int assume n: "2 \<le> number \<and> number \<le> count"
  show "int (length (sample_interior count number)) = number" using n by (simp add: sample_interior_def)
  fix x assume "x \<in> set (sample_interior count number)"
  then obtain k where k: "k < nat number" "x = (int k + 1) * (count - 1) div (number + 1)" by (auto simp: sample_interior_def)
  show "0 \<le> x" using k n by (simp add: pos_imp_zdiv_nonneg_iff)
  have "(int k + 1) * (count - 1) \<le> (number + 1) * (count - 1)" using k n by (intro mult_right_mono) auto
  then have "x \<le> ((number + 1) * (count - 1)) div (number + 1)" unfolding k(2) using n by (intro zdiv_mono1) auto
  then show "x < count" using n by simp
qed

definition sample_digests :: audit_digests where
  "sample_digests = \<lparr>condition_id_of = (\<lambda>k. regime k), policy_digest_of = (\<lambda>_. zeros), catalog_digest_of = (\<lambda>_. zeros),
     report_digest_of = (\<lambda>_. zeros), partition_digest_of = (\<lambda>_. zeros),
     token_digest = (\<lambda>_. zeros),
     finding_digest_of = (\<lambda>_. zeros), plan_digest_of = (\<lambda>_. zeros), leakage_policy_digest_of = (\<lambda>_. zeros)\<rparr>"

definition sample_reports :: "feasibility_report list" where
  "sample_reports = [\<lparr>report_domain = ''domain'', report_policy_digest = zeros, report_catalog_digest = zeros,
     outcome = FULLY_SUPPORTED, available_unit_count = 12, available_condition_count = 1,
     requested_cross_validation_folds = 0, resolved_cross_validation_folds = 0, calibration_deferred = False,
     temporal_blocks_only = False, per_condition_unit_counts = [(''equilibrium'', 12)],
     missing_outer_role_conditions = [(''locked_interpolation_test'', []), (''outer_monitor'', []), (''uncertainty_calibration'', [])],
     reason_codes = [], report_schema = feasibility_report_schema\<rparr>]"

definition sample_assignment :: "char \<times> outer_role \<times> string \<Rightarrow> role_assignment" where
  "sample_assignment = (\<lambda>(c, role, reason).
     \<lparr>assigned_unit = sample_uid c, assigned_domain = ''domain'', assigned_role = role, assignment_reason_codes = [reason]\<rparr>)"

text \<open>Unit \<open>b\<close> is locked, \<open>9\<close> monitors, and \<open>7\<close>, a neighbour of \<open>9\<close> in its run, is purged.\<close>

definition sample_partition :: outer_partition where
  "sample_partition = \<lparr>partition_domain = ''domain'', partition_policy_digest = zeros, partition_catalog_digest = zeros,
     partition_report_digest = zeros, assignments =
       map (\<lambda>c. sample_assignment (c, DEVELOPMENT, ''remaining_eligible_development_unit'')) ''0123456''
       @ [sample_assignment (CHR ''7'', PURGED, ''same_run_neighbor_of_outer_evidence''),
          sample_assignment (CHR ''8'', DEVELOPMENT, ''remaining_eligible_development_unit''),
          sample_assignment (CHR ''9'', OUTER_MONITOR, ''deterministic_outer_monitor_anchor''),
          sample_assignment (CHR ''a'', DEVELOPMENT, ''remaining_eligible_development_unit''),
          sample_assignment (CHR ''b'', LOCKED_INTERPOLATION_TEST, ''deterministic_locked_test_anchor'')]\<rparr>"

definition sample_partitions :: "outer_partition list" where
  "sample_partitions = [sample_partition]"

definition sample_plan :: cv_plan where
  "sample_plan = \<lparr>plan_domain = ''domain'', plan_policy_digest = zeros, plan_partition_digest = zeros,
     resolved_fold_count = 2, folds =
       [\<lparr>fold_index = 0, training_unit_ids = map sample_uid ''1'', checkpoint_monitor_unit_ids = map sample_uid ''5'',
         evaluation_unit_ids = map sample_uid ''0246a'', purged_unit_ids = map sample_uid ''38''\<rparr>,
        \<lparr>fold_index = 1, training_unit_ids = map sample_uid ''0'', checkpoint_monitor_unit_ids = map sample_uid ''4'',
         evaluation_unit_ids = map sample_uid ''1358'', purged_unit_ids = map sample_uid ''26a''\<rparr>]\<rparr>"

definition sample_plans :: "cv_plan list" where
  "sample_plans = [sample_plan]"

definition sample_development :: "partition_unit list" where
  "sample_development = map sample_unit (List.enumerate 0 ''0123456'' @ [(8, CHR ''8''), (10, CHR ''a'')])"

definition sample_hands :: "partition_unit list list" where
  "sample_hands = map (map sample_unit)
     [[(0, CHR ''0''), (2, CHR ''2''), (4, CHR ''4''), (6, CHR ''6''), (10, CHR ''a'')],
      [(1, CHR ''1''), (3, CHR ''3''), (5, CHR ''5''), (8, CHR ''8'')]]"

lemma assign_evaluation_folds_code [code]:
  "assign_evaluation_folds D units n seed =
    (if 0 < n then Inr (map (\<lambda>j. dealt n j 0 (dealing_order D units seed (condition_ids D units))) [0..<n])
     else bindE (foldE (\<lambda>key (offset, hands). bindE (lookupE (group_by (condition_id D) units) key) (\<lambda>members.
          let ordered = seeded_unit_order D seed key members in
          Inr ((offset + length ordered) mod n, deal_units offset ordered hands)))
        (sort (map fst (group_by (condition_id D) units))) (0, replicate n []))
      (\<lambda>(_, hands). Inr hands))"
  using assign_evaluation_folds_exact[of n D units seed] by (auto simp: assign_evaluation_folds_def Let_def)

lemma sample_assessed: "assess_partition_feasibility sample_digests sample_policy sample_catalog = Inr sample_reports"
  by code_simp

lemma sample_built:
  "build_outer_partitions sample_digests sample_interior sample_policy sample_catalog sample_reports = Inr sample_partitions"
  by code_simp

lemma sample_dealt: "assign_evaluation_folds sample_digests sample_development 2 29 = Inr sample_hands"
  by code_simp

lemma sample_fold0: "build_fold sample_digests sample_interior sample_policy sample_catalog sample_development
    (0, sample_hands ! 0) = Inr (folds sample_plan ! 0)"
  by code_simp

lemma sample_fold1: "build_fold sample_digests sample_interior sample_policy sample_catalog sample_development
    (1, sample_hands ! 1) = Inr (folds sample_plan ! 1)"
  by code_simp

lemma sample_units: "mapE (catalog_unit sample_catalog) (units_for sample_partition DEVELOPMENT) = Inr sample_development"
  by code_simp

lemma sample_parts:
  "sort (map fst (dict_of (map (\<lambda>p. (partition_domain p, p)) sample_partitions))) = [''domain'']"
  "lookupE (dict_of (map (\<lambda>p. (partition_domain p, p)) sample_partitions)) ''domain'' = Inr sample_partition"
  "lookupE (dict_of (map (\<lambda>r. (report_domain r, r)) sample_reports)) ''domain'' = Inr (sample_reports ! 0)"
  "resolve_fold_count sample_policy (sample_reports ! 0) ''domain'' (length sample_development) None = Inr 2"
  "make_plan sample_plan = Inr sample_plan"
  by code_simp+

lemma sample_lists:
  "sample_hands = [sample_hands ! 0, sample_hands ! 1]" "[] \<notin> set sample_hands"
  "\<lparr>plan_domain = ''domain'', plan_policy_digest = policy_digest_of sample_digests sample_policy,
     plan_partition_digest = partition_digest_of sample_digests sample_partition, resolved_fold_count = 2,
     folds = [folds sample_plan ! 0, folds sample_plan ! Suc 0]\<rparr> = sample_plan"
  "cross_validation_seed sample_policy = 29"
  by (simp_all add: sample_hands_def sample_plan_def sample_digests_def sample_policy_def)

lemma sample_domain_plan:
  "build_domain_plan sample_digests sample_interior sample_policy sample_catalog (sample_reports ! 0) None None ''domain''
     sample_partition sample_development = Inr sample_plan"
proof -
  have "mapE (build_fold sample_digests sample_interior sample_policy sample_catalog sample_development)
      (List.enumerate 0 sample_hands) = Inr [folds sample_plan ! 0, folds sample_plan ! 1]"
    by (subst sample_lists(1)) (simp add: sample_fold0 sample_fold1[simplified])
  then show ?thesis
    by (simp add: build_domain_plan_def sample_parts sample_lists(2,3,4) sample_dealt guardE_def)
qed

lemma sample_planned:
  "build_cross_validation_plans sample_digests sample_interior sample_policy sample_catalog sample_partitions
     sample_reports None None = Inr sample_plans"
  by (simp add: build_cross_validation_plans_def Let_def sample_parts(1-3) sample_units sample_domain_plan sample_plans_def)

lemmas sample_split = sample_assessed sample_built sample_planned

end
