(* ===== verification/Split_Properties.thy ===== *)
theory Split_Properties
  imports Data_Split Split_Sample
begin

text \<open>
  The properties of the statistical split of a data set, from frames to the leakage audit, each applied to
  the sample.
\<close>

section \<open>Facts of the sample\<close>

lemma sample_inputs_ok: "inputs_ok sample_inputs" "events_in_runs sample_inputs"
  by code_simp+

lemma sample_block_policy: "make_block_policy (policy_blocks sample_policy) = Inr (policy_blocks sample_policy)"
  by code_simp

lemma sample_catalog_spec: "catalog_spec sample_policy sample_inputs sample_catalog"
  by (rule built_catalog_exact[OF sample_inputs_ok(1) sample_block_policy sample_catalog_built])

lemma sample_catalog_ok: "catalog_ok sample_catalog" "runs_in_domains sample_catalog" "digests_ok sample_digests"
  "catalog_policy_digest sample_catalog = policy_digest_of sample_digests sample_policy"
proof -
  show "catalog_ok sample_catalog" "runs_in_domains sample_catalog"
    using sample_catalog_spec by (simp_all add: catalog_spec_def)
  have "is_digest zeros" by code_simp
  then show "digests_ok sample_digests" by (simp add: digests_ok_def sample_digests_def)
  show "catalog_policy_digest sample_catalog = policy_digest_of sample_digests sample_policy"
    by (simp add: sample_catalog_def sample_digests_def)
qed

definition sample_leakage_policy :: leakage_policy where
  "sample_leakage_policy = \<lparr>reject_geometry_duplicates_across_outer_roles = True,
     reject_labeled_duplicates_across_outer_roles = True, reject_event_window_role_split = True,
     reject_missing_purge_neighbors = True, leakage_policy_version = ''1''\<rparr>"

lemma sample_events_ok: "\<forall>e \<in> set (input_events sample_inputs). \<forall>uid \<in> set (protected_uids e). is_digest uid"
  by code_simp

lemma sample_run_order: "run_order (catalog_units sample_catalog)"
  using sample_catalog_ok(1) by (simp add: catalog_ok_def)

lemma sample_partitions_of_domains: "partitions_of_domains sample_catalog sample_partitions"
  by (rule partitions_of_domains_built[OF sample_interior sample_run_order sample_split(2)])

lemma sample_assigned_once: "\<forall>p \<in> set sample_partitions. distinct (map assigned_unit (assignments p))"
  using sample_partitions_of_domains by (simp add: partitions_of_domains_def)

lemmas sample_plans_ok = built_plans[OF sample_interior sample_catalog_ok(1) sample_partitions_of_domains sample_split(3)]

lemma no_frames: "no_repeats active c partitions []"
  by (simp add: no_repeats_def roles_share_no_def)

text \<open>Two runs of frames, cut into blocks of two or three frames.\<close>

definition pair_blocks :: block_policy where
  "pair_blocks = \<lparr>block_policy_version = ''1'', minimum_block_frames = 2,
     autocorrelation_block_multiplier = Some 2, explicit_block_length_frames = None,
     remainder_strategy = ''balanced_all_frames'', minimum_tau_frames = 1 / 2\<rparr>"

lemma pair_blocks_ok: "make_block_policy pair_blocks = Inr pair_blocks" "length zeros = 64"
  by code_simp+

lemma pair_indices: "usable_indices [0, 1, 2, 3, 4, 7, 8]"
  by (simp add: usable_indices_def)

definition three_pieces :: "frame_interval list" where
  "three_pieces = [\<lparr>frame_start = 0, frame_stop = 2\<rparr>, \<lparr>frame_start = 2, frame_stop = 4\<rparr>, \<lparr>frame_start = 6, frame_stop = 9\<rparr>]"

lemma three_pieces_in_order: "in_order three_pieces"
  by (simp add: in_order_def proper_def three_pieces_def)

section \<open>Blocks and units\<close>

text \<open>C12: A block plan is built exactly for a nonempty, strictly increasing list of nonnegative frame
  indices, and then it holds every frame once: its runs are the maximal contiguous runs of the indices, and
  each run is either one block or \<open>length div target\<close> blocks, none shorter than the target length, none
  twice as long, and no two differing by more than one frame.  Any other list of indices is refused.  (The
  autocorrelation times are an argument; they are named and at least the floor of their policy.)\<close>

theorem block_plan_exact:
  assumes "make_block_policy active = Inr p" and "length (signature_of active) = 64" and "valid_times active taus"
  shows "if usable_indices indices
    then \<exists>plan. build_complete_frame_block_plan signature_of scaled active (Inr taus) indices = Inr plan
      \<and> plan_blocks indices plan \<and> resolved_block_length_frames plan = resolved_length active (target_length scaled active taus)
    else \<exists>m. build_complete_frame_block_plan signature_of scaled active (Inr taus) indices = Inl (SamplingInputError m)"
  using block_plan_built[where signature_of = signature_of and scaled = scaled, OF assms]
    block_plan_refused by (cases "usable_indices indices") simp_all

theorem block_plan_exact_witness:
  "\<exists>plan. build_complete_frame_block_plan (\<lambda>_. zeros) (\<lambda>_ _. 1) pair_blocks (Inr [(''e'', 1)]) [0, 1, 2, 3, 4, 7, 8] = Inr plan
    \<and> plan_blocks [0, 1, 2, 3, 4, 7, 8] plan \<and> resolved_block_length_frames plan = 2"
  using block_plan_exact[of pair_blocks pair_blocks "\<lambda>_. zeros" "[(''e'', 1)]" "[0, 1, 2, 3, 4, 7, 8]" "\<lambda>_ _. 1"]
    pair_blocks_ok pair_indices
  by (simp add: resolved_length_def target_length_def valid_times_def pair_blocks_def)

text \<open>C11: Merging ordered, disjoint intervals under protected events succeeds, and groups them so that a
  boundary between two neighbours remains exactly if no event touches intervals on both sides of it; each
  group becomes the interval from its first start to its last stop.  (The code marks the boundaries in a
  difference array; the property refers to the events alone.)\<close>

theorem event_merge_exact:
  assumes "in_order ordered"
  shows "\<exists>gs. merge_intervals_for_events ordered events = Inr (map merged_span gs) \<and> concat gs = ordered \<and> [] \<notin> set gs
    \<and> group_ends gs = {Suc i |i. Suc i < length ordered \<and> \<not> crossed ordered events i} \<union> (if ordered = [] then {} else {length ordered})"
  by (rule merge_exact[OF assms])

theorem event_merge_exact_witness:
  "\<exists>gs. merge_intervals_for_events three_pieces [[1, 2]] = Inr (map merged_span gs) \<and> concat gs = three_pieces \<and> [] \<notin> set gs
    \<and> group_ends gs = {Suc i |i. Suc i < length three_pieces \<and> \<not> crossed three_pieces [[1, 2]] i}
        \<union> (if three_pieces = [] then {} else {length three_pieces})"
  by (rule event_merge_exact[OF three_pieces_in_order])

text \<open>C7: The catalog of units that is built from the frames of distinct runs partitions the accepted
  frames: every accepted frame is in exactly one unit, a unit holds exactly the accepted frames of its run in
  its interval, all of the condition of the unit, runs keep one label domain, and with merging no event is
  split between two units.  The catalog meets every precondition of the later stages.\<close>

theorem unit_catalog_exact:
  assumes "inputs_ok inputs" and "make_block_policy (policy_blocks active) = Inr p"
    and "build_partition_unit_catalog E active inputs = Inr c"
  shows "catalog_spec active inputs c"
  by (rule built_catalog_exact[OF assms])

theorem unit_catalog_exact_witness: "catalog_spec sample_policy sample_inputs sample_catalog"
  by (rule unit_catalog_exact[OF sample_inputs_ok(1) sample_block_policy sample_catalog_built])

section \<open>Outer roles without the fallback\<close>

text \<open>
  The specification of the outer roles says that a request whose condition coverage cannot be supported fails
  unless the policy permits the global fallback.  The code asks for the minima of the held-out roles only inside
  the fallback: on the sample, with coverage required, the fallback forbidden and too few units in the only
  condition, the feasibility report names the missing condition and stays usable, and the partition that is built
  holds nothing out although the budget asks for a monitor and a locked test unit.
\<close>

definition uncovered_policy :: partition_policy where
  "uncovered_policy = sample_policy\<lparr>require_condition_coverage_in_outer_roles := True,
     allow_global_role_fallback := False, minimum_units_per_condition_for_full_outer_roles := 13\<rparr>"

lemma no_fallback_leaves_roles_empty:
  "case assess_partition_feasibility sample_digests uncovered_policy sample_catalog of
     Inl e \<Rightarrow> False
   | Inr reports \<Rightarrow> map missing_outer_role_conditions reports = [[(''locked_interpolation_test'', [''equilibrium'']),
         (''outer_monitor'', [''equilibrium'']), (''uncertainty_calibration'', [''equilibrium''])]]
       \<and> (case build_outer_partitions sample_digests sample_interior uncovered_policy sample_catalog reports of
            Inl e \<Rightarrow> False
          | Inr partitions \<Rightarrow> map (\<lambda>p. map (units_for p) [OUTER_MONITOR, UNCERTAINTY_CALIBRATION, LOCKED_INTERPOLATION_TEST])
              partitions = [[[], [], []]])
       \<and> map (role_minimum (policy_budget uncovered_policy) False) [OUTER_MONITOR, LOCKED_INTERPOLATION_TEST] = [1, 1]"
  by code_simp

lemma uncovered_example:
  obtains reports p where
    "build_outer_partitions sample_digests sample_interior uncovered_policy sample_catalog reports = Inr [p]"
  using no_fallback_leaves_roles_empty by (auto split: sum.splits)

lemma uncovered_conditions:
  "domain_ids sample_catalog = [''domain'']" "\<not> allow_global_role_fallback uncovered_policy"
  "list_all (\<lambda>u. \<not> covered_condition sample_digests uncovered_policy
       (for_domain sample_catalog ''domain'') (condition_id sample_digests u)) (for_domain sample_catalog ''domain'')"
  by code_simp+

lemma uncovered_nothing_held_out:
  assumes "partition_spec D active deferred units p" and "\<not> allow_global_role_fallback active"
    and "\<forall>u \<in> set units. \<not> covered_condition D active units (condition_id D u)"
  shows "held_out_ids p = {}"
proof -
  have none: "{key \<in> condition_id D ` set units. covered_condition D active units key} = {}" using assms(3) by blast
  have "role_ids p role = {}" if "role \<in> held_out_roles" for role
  proof -
    have "card (role_ids p role) = 0"
      using assms(1,2) that unfolding partition_spec_def none by (metis card.empty)
    then show ?thesis by (simp add: role_ids_def)
  qed
  then show ?thesis by (simp add: held_out_ids_def)
qed

section \<open>The split of a data set\<close>

text \<open>C8: Every domain of the catalog gets one outer partition, and only under a usable feasibility
  report.  In it every unit of the domain has exactly one role and none is excluded; the purged units are
  exactly those within the purge radius of a held-out unit of the same run; the development role meets its
  minimum; and with required condition coverage every condition that has enough units is represented in each
  held-out role.  If the policy allows the global fallback, every held-out role meets its minimum.  If it does
  not, the minima of the held-out roles are not looked at: each role then holds exactly one unit for every
  condition with enough units, so without such a condition nothing is held out and the request still succeeds,
  where section 6 of \<open>mlff_data5_partition_roles_spec.md\<close> wants it to fail.  (The positions of
  \<open>numpy.linspace\<close> are a parameter, of which only number and range are assumed.)\<close>

theorem outer_partitions_exact:
  assumes "interior_points interior" and "run_order (catalog_units c)"
    and "build_outer_partitions D interior active c reports = Inr partitions"
  shows "map partition_domain partitions = domain_ids c
    \<and> (\<forall>p \<in> set partitions. \<exists>report. report_of reports (partition_domain p) = Some report \<and> is_usable report
      \<and> partition_spec D active (calibration_deferred report) (for_domain c (partition_domain p)) p)
    \<and> (\<not> allow_global_role_fallback active \<longrightarrow> (\<forall>p \<in> set partitions.
        (\<forall>u \<in> set (for_domain c (partition_domain p)).
           \<not> covered_condition D active (for_domain c (partition_domain p)) (condition_id D u)) \<longrightarrow>
        held_out_ids p = {}))"
proof -
  note spec = build_outer_partitions_spec[OF assms]
  have "held_out_ids p = {}" if "\<not> allow_global_role_fallback active" "p \<in> set partitions"
    "\<forall>u \<in> set (for_domain c (partition_domain p)).
       \<not> covered_condition D active (for_domain c (partition_domain p)) (condition_id D u)" for p
    using spec that(2) uncovered_nothing_held_out[OF _ that(1,3)] by blast
  with spec show ?thesis by blast
qed

theorem outer_partitions_exact_witness:
  "map partition_domain sample_partitions = domain_ids sample_catalog
    \<and> (\<exists>report. report_of sample_reports (partition_domain sample_partition) = Some report \<and> is_usable report
      \<and> partition_spec sample_digests sample_policy (calibration_deferred report)
          (for_domain sample_catalog (partition_domain sample_partition)) sample_partition)
    \<and> (\<exists>reports p. build_outer_partitions sample_digests sample_interior uncovered_policy sample_catalog reports = Inr [p]
      \<and> held_out_ids p = {})"
proof (intro conjI)
  note sample = outer_partitions_exact[OF sample_interior sample_run_order sample_split(2)]
  show "map partition_domain sample_partitions = domain_ids sample_catalog" by (rule conjunct1[OF sample])
  show "\<exists>report. report_of sample_reports (partition_domain sample_partition) = Some report \<and> is_usable report
      \<and> partition_spec sample_digests sample_policy (calibration_deferred report)
          (for_domain sample_catalog (partition_domain sample_partition)) sample_partition"
    using sample by (metis list.set_intros(1) sample_partitions_def)
  obtain reports p where
    run: "build_outer_partitions sample_digests sample_interior uncovered_policy sample_catalog reports = Inr [p]"
    by (rule uncovered_example)
  from outer_partitions_exact[OF sample_interior sample_run_order run] uncovered_conditions
  have "held_out_ids p = {}" by (simp add: list_all_iff)
  with run show "\<exists>reports p. build_outer_partitions sample_digests sample_interior uncovered_policy sample_catalog reports = Inr [p]
      \<and> held_out_ids p = {}" by blast
qed

text \<open>C9: Every outer partition gets one cross-validation plan over its development units.  Its folds
  evaluate every development unit exactly once, in numbers that differ by at most one, over all units and
  within each condition; in each fold training, checkpoint monitor, evaluation and purged units are
  disjoint and exhaust the development units, the first three are not empty, the monitor has its prescribed
  size and holds no neighbour of an evaluation unit, and the purged units are exactly the remaining
  neighbours of evaluation and monitor units.\<close>

theorem cross_validation_exact:
  assumes "interior_points interior" and "run_order (catalog_units c)"
    and "\<forall>p \<in> set partitions. distinct (map assigned_unit (assignments p))"
    and "build_cross_validation_plans D interior active c partitions reports override seed_override = Inr plans"
  shows "map plan_domain plans = sorted_set (map partition_domain partitions)
    \<and> (\<forall>plan \<in> set plans. \<exists>p \<in> set partitions. partition_domain p = plan_domain plan
      \<and> partition_of partitions (plan_domain plan) = Some p
      \<and> unit_id ` set (development_units c p) = role_ids p DEVELOPMENT
      \<and> plan_spec D active (development_units c p) plan)"
  unfolding partition_of_def by (rule conjI[OF build_cross_validation_plans_exact[OF assms]])

theorem cross_validation_exact_witness:
  "map plan_domain sample_plans = sorted_set (map partition_domain sample_partitions)
    \<and> (\<exists>p \<in> set sample_partitions. partition_domain p = plan_domain sample_plan
      \<and> partition_of sample_partitions (plan_domain sample_plan) = Some p
      \<and> unit_id ` set (development_units sample_catalog p) = role_ids p DEVELOPMENT
      \<and> plan_spec sample_digests sample_policy (development_units sample_catalog p) sample_plan)"
  using cross_validation_exact[OF sample_interior sample_run_order sample_assigned_once sample_split(3)]
  by (metis list.set_intros(1) sample_plans_def)

text \<open>C10: On a well-formed catalog that was built under the partition policy given (its recorded policy digest
  is the digest of that policy; the audit refuses others), with partitions that assign every unit at most once and
  plans for domains that have a partition, the leakage audit returns, and it passes exactly when nothing leaks: every unit has a
  role, every neighbour of a held-out unit is purged, no fingerprint is shared by two roles other than purged
  and excluded, no event is split between roles, and in every fold the groups are disjoint, exhaust the
  development units and purge the neighbours of evaluation and monitor (each clause under its switch of the
  policy).\<close>

theorem leakage_audit_exact:
  assumes "catalog_ok c" and "partitions_ok c partitions" and "\<forall>plan \<in> set plans. plan_ok c partitions plan"
    and "\<forall>uids \<in> set events. \<forall>uid \<in> set uids. is_digest uid"
    and "catalog_policy_digest c = policy_digest_of D policy" and "digests_ok D"
  shows "\<exists>report. audit_partition_leakage D active policy c partitions plans frames events = Inr report
    \<and> (audit_passed report \<longleftrightarrow> leak_free active policy c partitions plans frames events)"
  by (rule audit_decides[OF assms])

theorem leakage_audit_exact_witness:
  "\<exists>report. audit_partition_leakage sample_digests sample_leakage_policy sample_policy sample_catalog
      sample_partitions sample_plans [] (map protected_uids (input_events sample_inputs)) = Inr report
    \<and> (audit_passed report \<longleftrightarrow> leak_free sample_leakage_policy sample_policy sample_catalog
        sample_partitions sample_plans [] (map protected_uids (input_events sample_inputs)))"
  by (rule leakage_audit_exact[OF sample_catalog_ok(1)
        built_partitions_ok[OF sample_catalog_ok(1) sample_partitions_of_domains] _ _
        sample_catalog_ok(4,3)])
    (use sample_plans_ok sample_events_ok in simp_all)

text \<open>C6: From frames to audit: when units are built from the frames (events merged, and each event assumed to
  lie in its run, as the event builder of the package guarantees), the domains are found feasible, partitioned
  and planned, then the leakage audit returns and passes exactly when no frame
  fingerprint is shared by two roles, as far as the policy rejects that.  Roles, purges, folds and events
  never cause a finding in a split that the package builds itself.\<close>

theorem data_split_leak_free:
  assumes "inputs_ok inputs" "events_in_runs inputs" and "merge_protected_event_windows policy"
    and "make_block_policy (policy_blocks policy) = Inr p"
    and "\<forall>e \<in> set (input_events inputs). \<forall>uid \<in> set (protected_uids e). is_digest uid"
    and "interior_points interior" and "digests_ok D"
    and "build_partition_unit_catalog E policy inputs = Inr c"
    and "assess_partition_feasibility D policy c = Inr reports"
    and "build_outer_partitions D interior policy c reports = Inr partitions"
    and "build_cross_validation_plans D interior policy c partitions reports override seed_override = Inr plans"
  shows "\<exists>report. audit_partition_leakage D active policy c partitions plans frames (map protected_uids (input_events inputs)) = Inr report
    \<and> (audit_passed report \<longleftrightarrow> no_repeats active c partitions frames)"
  by (rule sound_data_audited[OF assms(1-10) built_plans_sound[OF assms(1,4,6,8,10,11)]])

theorem data_split_leak_free_witness:
  "\<exists>report. audit_partition_leakage sample_digests sample_leakage_policy sample_policy sample_catalog
      sample_partitions sample_plans [] (map protected_uids (input_events sample_inputs)) = Inr report \<and> audit_passed report"
proof -
  have "merge_protected_event_windows sample_policy" by (simp add: sample_policy_def)
  from data_split_leak_free[OF sample_inputs_ok this sample_block_policy sample_events_ok sample_interior sample_catalog_ok(3)
      sample_catalog_built sample_split, of sample_leakage_policy "[]"]
  show ?thesis by (simp add: no_frames)
qed

end
