(* ===== verification/Bundle_Properties.thy ===== *)
theory Bundle_Properties
  imports Partition_Bundle Split_Properties
begin

text \<open>
  The property of the bundle of a statistical partition, applied to the sample.
\<close>

section \<open>The sample, with fingerprints\<close>

definition sample_bundle_digests :: blinding_digests where
  "sample_bundle_digests = \<lparr>condition_id_of = (\<lambda>k. regime k), policy_digest_of = (\<lambda>_. zeros), catalog_digest_of = (\<lambda>_. zeros),
     report_digest_of = (\<lambda>_. zeros), partition_digest_of = (\<lambda>_. zeros), token_digest = (\<lambda>_. zeros),
     finding_digest_of = (\<lambda>_. zeros), plan_digest_of = (\<lambda>_. zeros), leakage_policy_digest_of = (\<lambda>_. zeros),
     blinding_policy_digest_of = (\<lambda>_. zeros)\<rparr>"

definition sample_record :: "char \<Rightarrow> string \<Rightarrow> frame_record" where
  "sample_record c fingerprint = \<lparr>frame_uid = sample_frame_uid c, geometry_fingerprint = fingerprint,
     labeled_configuration_fingerprint = c # fingerprint\<rparr>"

text \<open>Two frames of one unit repeat a geometry; with \<open>b\<close> instead of \<open>2\<close> a frame of the locked test would, too.\<close>

definition sample_records :: "char \<Rightarrow> frame_record list" where
  "sample_records c = [sample_record (CHR ''0'') ''g'', sample_record (CHR ''c'') ''g'', sample_record c ''g'',
     sample_record (CHR ''9'') ''h'']"

lemma sample_bundle_digests_ok: "digests_ok sample_bundle_digests"
  "is_digest (blinding_policy_digest_of sample_bundle_digests policy)"
proof -
  have "is_digest zeros" by code_simp
  then show "digests_ok sample_bundle_digests" "is_digest (blinding_policy_digest_of sample_bundle_digests policy)"
    by (simp_all add: digests_ok_def sample_bundle_digests_def)
qed

lemma sample_bundle_assessed: "assess_partition_feasibility sample_bundle_digests sample_policy sample_catalog = Inr sample_reports"
  by code_simp

lemma sample_bundle_outer:
  "build_outer_partitions sample_bundle_digests sample_interior sample_policy sample_catalog sample_reports = Inr sample_partitions"
  by code_simp

lemma sample_no_repeats: "no_repeats sample_leakage_policy sample_catalog sample_partitions (sample_records (CHR ''2''))"
  by code_simp

lemma sample_repeats: "\<not> no_repeats sample_leakage_policy sample_catalog sample_partitions (sample_records (CHR ''b''))"
  by code_simp

lemma sample_merging: "merge_protected_event_windows sample_policy"
  by (simp add: sample_policy_def)

section \<open>The bundle\<close>

text \<open>C5: A bundle of the statistical partition that is built from distinct runs and frames, with events merged
  (each event assumed to lie in its run, as the event builder of the package guarantees), is sound: its units partition the accepted frames, every label domain has its reports and an outer partition
  that meets the specification, found by the lookups of the bundle, the blinding boundaries answer every
  question about role and operation by their table, and no configuration is repeated across roles as far as the
  policy rejects that.  And nothing but such a repetition stops the bundle once units, feasibility and outer
  roles are there: then the audit refuses it, with the error for leakage.\<close>

theorem partition_bundle_exact:
  assumes "inputs_ok inputs" "events_in_runs inputs" and "merge_protected_event_windows active"
    and "make_block_policy (policy_blocks active) = Inr p"
    and "\<forall>e \<in> set (input_events inputs). \<forall>uid \<in> set (protected_uids e). is_digest uid"
    and "interior_points interior" and "digests_ok D"
    and "is_digest (blinding_policy_digest_of D (case blinding of None \<Rightarrow> default_blinding_policy | Some p \<Rightarrow> p))"
  shows "(\<forall>b. build_data5_partition_bundle E D interior active blinding leakage inputs frames = Inr b
        \<longrightarrow> bundle_policy b = active \<and> bundle_spec D leakage inputs frames b)
    \<and> (\<forall>c reports partitions. build_partition_unit_catalog E active inputs = Inr c
        \<longrightarrow> assess_partition_feasibility D active c = Inr reports
        \<longrightarrow> build_outer_partitions D interior active c reports = Inr partitions
        \<longrightarrow> (if no_repeats leakage c partitions frames
             then \<exists>b. build_data5_partition_bundle E D interior active blinding leakage inputs frames = Inr b
                  \<and> bundle_units b = c \<and> outer_partitions b = partitions
             else build_data5_partition_bundle E D interior active blinding leakage inputs frames = Inl leakage_refused))"
proof (rule conjI; intro allI impI)
  show "bundle_policy b = active \<and> bundle_spec D leakage inputs frames b"
    if "build_data5_partition_bundle E D interior active blinding leakage inputs frames = Inr b" for b
    using built_bundle_spec[OF assms that] by simp_all
  show "if no_repeats leakage c partitions frames
      then \<exists>b. build_data5_partition_bundle E D interior active blinding leakage inputs frames = Inr b
        \<and> bundle_units b = c \<and> outer_partitions b = partitions
      else build_data5_partition_bundle E D interior active blinding leakage inputs frames = Inl leakage_refused"
    if "build_partition_unit_catalog E active inputs = Inr c" "assess_partition_feasibility D active c = Inr reports"
      "build_outer_partitions D interior active c reports = Inr partitions" for c reports partitions
    using bundle_built[OF assms that, of leakage frames] by (cases "no_repeats leakage c partitions frames") auto
qed

theorem partition_bundle_exact_witness:
  "(\<exists>b. build_data5_partition_bundle sample_env sample_bundle_digests sample_interior sample_policy None sample_leakage_policy
        sample_inputs (sample_records (CHR ''2'')) = Inr b
      \<and> outer_partitions b = sample_partitions
      \<and> bundle_spec sample_bundle_digests sample_leakage_policy sample_inputs (sample_records (CHR ''2'')) b)
   \<and> build_data5_partition_bundle sample_env sample_bundle_digests sample_interior sample_policy None sample_leakage_policy
        sample_inputs (sample_records (CHR ''b'')) = Inl leakage_refused"
proof -
  note exact = partition_bundle_exact[OF sample_inputs_ok sample_merging sample_block_policy sample_events_ok sample_interior
      sample_bundle_digests_ok, where blinding = None and E = sample_env and leakage = sample_leakage_policy]
  note run = exact[THEN conjunct2, THEN spec, THEN spec, THEN spec, THEN mp, THEN mp, THEN mp,
      OF sample_catalog_built sample_bundle_assessed sample_bundle_outer]
  from run[of "sample_records (CHR ''2'')", unfolded if_P[OF sample_no_repeats]]
  obtain b where b: "build_data5_partition_bundle sample_env sample_bundle_digests sample_interior sample_policy None
      sample_leakage_policy sample_inputs (sample_records (CHR ''2'')) = Inr b" "outer_partitions b = sample_partitions"
    by blast
  moreover have "bundle_spec sample_bundle_digests sample_leakage_policy sample_inputs (sample_records (CHR ''2'')) b"
    using exact[THEN conjunct1] b(1) by blast
  moreover have "build_data5_partition_bundle sample_env sample_bundle_digests sample_interior sample_policy None
      sample_leakage_policy sample_inputs (sample_records (CHR ''b'')) = Inl leakage_refused"
    using run[of "sample_records (CHR ''b'')"] unfolding if_not_P[OF sample_repeats] .
  ultimately show ?thesis by blast
qed

end
