(* ===== verification/Spec2Isabelle.thy ===== *)
theory Spec2Isabelle
  imports Ring_Cancellation Family_Coordinators Ordered_Reducer Bundle_Properties
begin

text \<open>
  A verification library for mdstats, a Python package that analyses molecular-dynamics trajectories of
  framework materials and prepares training data for interatomic potentials.  It covers the parts of the
  package whose results are exact: the periodic graphs and primitive rings of a framework
  (\<open>src/mdstats/analysis\<close>), the leak-free split of a data set (\<open>src/mdstats/sampling/blocks.py\<close> and
  \<open>src/mdstats/training_data/{role_budget,partition,leakage,blinding,data5_bundle}.py\<close>) and the deterministic work queue
  (\<open>src/mdstats/training_data/work_queue.py\<close>) with two coordinators that use it.

  How the program is modelled.  A frozen dataclass is a record with a \<open>make_\<close> definition for its
  \<open>__post_init__\<close>, which returns the normalised record or the exception; an enumeration is a datatype.  A
  call that may raise has the type \<open>result\<close>: \<open>Inl\<close> the exception with its message, \<open>Inr\<close> the value
  (\<open>Prelude\<close>).  Where a message is formatted from objects it is kept as \<open>Fmt\<close> with its fields or, where a
  theory says so, left out.  Python integers are \<open>int\<close>, or \<open>nat\<close> where a check makes them nonnegative; the
  64-bit arrays of \<open>numpy\<close> are unbounded here (they hold frame indices and counts of units).  Dictionaries
  that the code iterates are association lists in insertion order, sets that it only tests are lists without
  duplicates or sets.  State that a class mutates is a record passed through its operations.

  \<^bold>\<open>The graph part.\<close>  An atomic graph and a mapping give a framework graph, whose primitive rings are
  searched, catalogued, expanded into atoms, indexed and cancelled.

  \<^item> \<open>Periodic_Lattice\<close>: \<open>_periodic_graph.py\<close>, shifts, 3x3 integer matrices, inversion of unimodular
    matrices, anchors of physical edges.
  \<^item> \<open>Framework_Rules\<close>, \<open>Framework_Edges\<close>, \<open>Label_Search\<close>, \<open>Framework_Gauge\<close>, \<open>Framework_Build\<close>,
    \<open>Framework_Paths\<close>, \<open>Framework_Topology\<close>: \<open>framework_topology.py\<close>; path rules and their overlap, roles,
    edge keys and oriented paths, gauges and components (four breadth-first labellings, one locale and four
    interpretations), the enumeration of lifted linker paths, the topology object, its checks and its report.
    The lemmas show that the enumeration finds exactly the walks that a rule accepts, and that nothing depends
    on the gauge of the input.
  \<^item> \<open>Ring_Records\<close>, \<open>Ring_Walks\<close>: keys, tokens and rings of \<open>primitive_ring.py\<close>, canonical forms under rotation
    and reversal (complete invariants), half-edges, validation of candidates.
  \<^item> \<open>Lifted_Search\<close>, \<open>Ring_Metric\<close>: the layered shortest-path index, counting and enumeration of shortest paths;
    distances in the lifted graph.
  \<^item> \<open>Ring_Search\<close>, \<open>Ring_Shortcut\<close>, \<open>Shortcut_Complete\<close>, \<open>Ring_Accept\<close>, \<open>Ring_Generate\<close>, \<open>Ring_Primitives\<close>: candidates
    from shortest path pairs, the half-cycle test, the shortcut witness (sound, and found whenever there is one within
    the limits of its search); together they return exactly the primitive cycles.
  \<^item> \<open>Ring_Catalog\<close>, \<open>Ring_Enumeration\<close>: the catalog, the exact meaning of its checks, and that the search always
    passes them.
  \<^item> \<open>Removed_Edge_Search\<close>, \<open>Edge_Shortest\<close>, \<open>Removed_Edge_Rings\<close>: the second enumeration, which closes an edge by the
    shortest paths around it.
  \<^item> \<open>Ring_Gauge\<close>, \<open>Ring_Expansion\<close>: recovery of the raw gauge and the atomic walk of a ring.
  \<^item> \<open>Periodic_Cycle\<close>, \<open>Ring_Index\<close>: \<open>periodic_cycle.py\<close> and \<open>primitive_ring_index.py\<close>, placements,
    traversals, lookups by bisection, the covering query.
  \<^item> \<open>Gf2_Elimination\<close>, \<open>Ring_Cancellation\<close>: \<open>primitive_ring_cancellation.py\<close>, elimination over GF(2) on integers
    as bit vectors, the solver and its witness.
  \<^item> \<open>Ring_Example\<close>: a framework on which the properties of this part are applied.

  \<^bold>\<open>The split of a data set.\<close>  Frames are cut into blocks, blocks become units, units get outer roles and
  folds, an audit re-derives that nothing leaks, and a bundle holds the result.

  \<^item> \<open>Frame_Blocks\<close>: \<open>sampling/blocks.py\<close>, contiguous runs, balanced blocks, the plan and its checks.
  \<^item> \<open>Unit_Intervals\<close>, \<open>Partition_Units\<close>, \<open>Unit_Builder\<close>: splitting at changes of condition, merging under
    protected events (a difference array, proved equal to its meaning), policies, units, their catalog.
  \<^item> \<open>Temporal_Neighbors\<close>, \<open>Outer_Partition\<close>, \<open>Cross_Validation\<close>: neighbours within a run, feasibility, anchors,
    fallback, purge; folds, checkpoint monitors, purge within a fold.  Without the fallback
    the code does not ask for the minima of the held-out roles, which the specification of the roles
    (\<open>docs/specs/training_data/mlff_data5_partition_roles_spec.md\<close>, section 6) does: such a request may succeed with
    nothing held out (\<open>no_fallback_leaves_roles_empty\<close> in \<open>Split_Properties\<close>).
  \<^item> \<open>Leakage_Audit\<close>, \<open>Split_Pipeline\<close>, \<open>Data_Split\<close>: the audit, its abstract meaning \<open>leak_free\<close>, and that every
    split the package builds itself satisfies it up to repeated frames.
  \<^item> \<open>Independence_Reports\<close>, \<open>Blinding_Boundaries\<close>: grade counts and the weakest grade of each domain; which
    operation on evidence each role allows (\<open>blinding.py\<close>).
  \<^item> \<open>Partition_Bundle\<close>: \<open>data5_bundle.py\<close>, the pipeline from frames to the checked bundle; the lemmas show that
    its parts always fit together, so that only repeated configurations make it fail after the roles are assigned.
  \<^item> \<open>Split_Sample\<close>, \<open>Split_Properties\<close>, \<open>Bundle_Properties\<close>: thirteen frames carried through all stages, and the properties.

  \<^bold>\<open>The work queue.\<close>

  \<^item> \<open>Work_Queue\<close>, \<open>Work_Queue_Invariant\<close>, \<open>Work_Queue_Progress\<close>: \<open>DeterministicWorkQueue\<close> and its memory
    accounting; the reachable states are an inductive set, the invariant is proved by rule induction.  What the
    executor reports as done at each wait is an argument, so that every schedule is covered.
  \<^item> \<open>Ordered_Reducer\<close>: \<open>CanonicalOrderedReducer\<close>; its commit callback is an argument.
  \<^item> \<open>Family_Coordinators\<close>: \<open>target_order/qualification.py\<close> and \<open>target_order/sparse_index.py\<close>, the loops that
    run one task per family; a schedule is a list of answers of the executor and \<open>None\<close> means still waiting.

  \<^bold>\<open>Loops.\<close>  Structural recursion where the code walks a list; a \<open>measure\<close> for the breadth-first searches (the
  states not yet discovered), the dispatch and commit loops (what is still waiting), the filling of roles and the
  searches for neighbours.  Backtracking through predecessors takes fuel, the largest distance of the index plus
  one, and following parents the number of parents plus one; both are proved to suffice wherever the searches
  call them.  Reduction modulo a basis is a \<open>partial_function\<close>, for in general it need not end; it is
  proved to return on every basis that the solver builds.

  \<^bold>\<open>Parameters.\<close>  SHA-256 digests of payloads; the rounded positions of \<open>numpy.linspace\<close>, of which only number and
  range are assumed (\<open>interior_points\<close>); the autocorrelation times of observables and the rounding of their
  multiple to a block length; the labels of temperature and strain and the profile extensions; the executor and
  the commit callback.  Finite floats that are only compared are rationals.

  \<^bold>\<open>Not modelled.\<close>
  \<^item> Conversion to and from dictionaries, schema migration, digests of content and the network export: data
    plumbing that calls \<open>json\<close>, \<open>hashlib\<close> and \<open>networkx\<close>.
  \<^item> The statistics, spectra, densities, geometry and symmetry of \<open>analysis\<close>, \<open>density\<close>, \<open>topology_statistics\<close>:
    their content is floating-point arithmetic of \<open>numpy\<close> and \<open>scipy\<close>, for which exact real arithmetic would be
    another program.
  \<^item> Readers and writers (\<open>io\<close>), pictures (\<open>plotting\<close>, \<open>graphics3d\<close>), the command line, campaign control, storage,
    the running and qualification of models: files, processes, devices and third-party packages.
  \<^item> In the modelled files: the threads and clocks of the queue, telemetry, \<open>isinstance\<close> tests on arguments that the
    model types.
\<close>

end
